(* ===== verification/Prelude.thy ===== *)
theory Prelude imports Main "HOL-Library.Word" begin

text \<open>
  Shared vocabulary of the development: names of the machine types, the collections that carry
  the component proofs, and generic facts on circular indices, lists and words.

  The central notion is \<open>window\<close>: the list of the \<open>k\<close> cells of a circular array of \<open>n\<close> cells
  that starts at index \<open>s\<close>.  Both ring buffers of the repository (\<open>lockfree_ringbuffer\<close> of
  taskete and \<open>circular_q\<close> of the logging library) store their elements in such a window, so the
  facts on windows are proved once, here.
\<close>

unbundle bit_operations_syntax

type_synonym u32 = "32 word"
type_synonym u64 = "64 word"
type_synonym address = nat

named_theorems ring_simps \<open>facts about circular windows and cursors\<close>
named_theorems res_simps \<open>facts about memory resources\<close>
named_theorems pool_simps \<open>facts about pools and handles\<close>
named_theorems sink_simps \<open>facts about sinks and loggers\<close>

section \<open>Circular indices\<close>

lemma circ_index_inj:
  fixes n :: nat
  assumes "i < n" "j < n"
  shows "(s + i) mod n = (s + j) mod n \<longleftrightarrow> i = j"
proof -
  have le: "i = j" if h: "(s + i) mod n = (s + j) mod n" and ij: "i \<le> j" and jn: "j < n" for i j
  proof -
    from h ij have "n dvd (s + j) - (s + i)"
      by (metis mod_eq_dvd_iff_nat add_le_cancel_left)
    then have "n dvd j - i" by simp
    with jn have "j - i = 0" by (metis dvd_imp_mod_0 less_imp_diff_less mod_less)
    with ij show "i = j" by simp
  qed
  show ?thesis
  proof
    assume h: "(s + i) mod n = (s + j) mod n"
    show "i = j"
    proof (cases "i \<le> j")
      case True
      with h assms show ?thesis using le by blast
    next
      case False
      then have "j = i" using le [of j i] h assms by simp
      then show ?thesis by simp
    qed
  qed simp
qed

lemma circ_succ:
  assumes "p < (n :: nat)"
  shows "(if p + 1 = n then 0 else p + 1) = (p + 1) mod n"
  using assms by auto

lemma circ_back:
  assumes "a < (n :: nat)" "b < n"
  shows "(a + (if a \<le> b then b - a else b + n - a)) mod n = b"
  using assms by auto

section \<open>Windows of a circular array\<close>

definition window :: "'a list \<Rightarrow> nat \<Rightarrow> nat \<Rightarrow> 'a list" where
  "window v s k = map (\<lambda>i. v ! ((s + i) mod length v)) [0..<k]"

lemma window_0 [simp, ring_simps]: "window v s 0 = []"
  by (simp add: window_def)

lemma length_window [simp, ring_simps]: "length (window v s k) = k"
  by (simp add: window_def)

lemma window_nth: "i < k \<Longrightarrow> window v s k ! i = v ! ((s + i) mod length v)"
  by (simp add: window_def)

lemma window_mod: "window v (s mod length v) k = window v s k"
  by (simp add: window_def mod_add_left_eq)

lemma window_Suc_last: "window v s (Suc k) = window v s k @ [v ! ((s + k) mod length v)]"
  by (simp add: window_def)

lemma window_Suc_first: "window v s (Suc k) = v ! (s mod length v) # window v (Suc s) k"
proof (rule nth_equalityI)
  fix i assume "i < length (window v s (Suc k))"
  then show "window v s (Suc k) ! i = (v ! (s mod length v) # window v (Suc s) k) ! i"
    by (cases i) (simp_all add: window_nth)
qed simp

text \<open>A write outside the window does not change it; a write right after it appends.\<close>

lemma window_update_outside:
  assumes "k \<le> j" "j < length v"
  shows "window (v[(s + j) mod length v := x]) s k = window v s k"
proof -
  have "(s + j) mod length v \<noteq> (s + i) mod length v" if "i < k" for i
    using assms that circ_index_inj [of i "length v" j s] by auto
  then show ?thesis by (auto simp: window_def nth_list_update_neq)
qed

lemma window_push:
  assumes "k < length v"
  shows "window (v[(s + k) mod length v := x]) s (Suc k) = window v s k @ [x]"
proof -
  from assms have "(s + k) mod length v < length v" by (auto intro: mod_less_divisor)
  then show ?thesis
    using assms by (simp add: window_Suc_last window_update_outside)
qed

lemma window_pop: "0 < k \<Longrightarrow> window v (Suc s) (k - Suc 0) = tl (window v s k)"
  by (cases k) (simp_all add: window_Suc_first)

lemma window_hd: "0 < k \<Longrightarrow> hd (window v s k) = v ! (s mod length v)"
  by (cases k) (simp_all add: window_Suc_first)

text \<open>The same facts for the index the code computes, already reduced modulo the length.\<close>

lemma window_start_mod: "s mod length v = s' mod length v \<Longrightarrow> window v s k = window v s' k"
  by (metis window_mod)

section \<open>Lists and options\<close>

text \<open>A checked store: writing outside an array is undefined behaviour, the value \<open>None\<close>.\<close>

definition write_cell :: "'a list \<Rightarrow> nat \<Rightarrow> 'a \<Rightarrow> 'a list option" where
  "write_cell v i x = (if i < length v then Some (v[i := x]) else None)"

definition read_cell :: "'a list \<Rightarrow> nat \<Rightarrow> 'a option" where
  "read_cell v i = (if i < length v then Some (v ! i) else None)"

lemma write_cell_in [simp]: "i < length v \<Longrightarrow> write_cell v i x = Some (v[i := x])"
  by (simp add: write_cell_def)

lemma read_cell_in [simp]: "i < length v \<Longrightarrow> read_cell v i = Some (v ! i)"
  by (simp add: read_cell_def)

lemma write_cell_eq_Some: "write_cell v i x = Some w \<longleftrightarrow> i < length v \<and> w = v[i := x]"
  by (auto simp: write_cell_def)

lemma read_cell_eq_Some: "read_cell v i = Some x \<longleftrightarrow> i < length v \<and> x = v ! i"
  by (auto simp: read_cell_def)

lemma last_drop_eq:
  "length xs = n \<Longrightarrow> 0 < n \<Longrightarrow> drop (n - 1) xs = [last xs]"
  by (metis One_nat_def append_butlast_last_id append_eq_conv_conj length_butlast length_greater_0_conv)

section \<open>Words\<close>

lemma unat_of_nat_small: "n < 2 ^ 32 \<Longrightarrow> unat (word_of_nat n :: u32) = n"
  by (simp add: unsigned_of_nat take_bit_nat_eq_self)

lemma unat_pow2: "k < 32 \<Longrightarrow> unat (2 ^ k :: u32) = 2 ^ k"
proof -
  assume "k < 32"
  then have "(2 :: nat) ^ k < 2 ^ 32" by (rule power_strict_increasing) simp
  from unat_of_nat_small [OF this] show ?thesis by simp
qed

lemma take_bit_small_word: "unat (v :: u32) < 2 ^ k \<Longrightarrow> take_bit k v = v"
  by (simp add: word_unat_eq_iff unsigned_take_bit_eq take_bit_nat_eq_self)

lemma unat_word_bound: "unat (v :: u32) < 2 ^ 32"
  using unsigned_less [of v, where 'a = nat] by simp

lemma unat_take_bit: "unat (take_bit m (v :: u32)) = unat v mod 2 ^ m"
  unfolding unsigned_take_bit_eq by (simp add: take_bit_eq_mod)

section \<open>Outcomes of calls\<close>

text \<open>
  A call that may loop, throw \<open>bad_alloc\<close> or run into undefined behaviour has an \<open>outcome\<close>:
  \<open>None\<close> if it never returns, otherwise the fault or the result.
\<close>

datatype fault = Bad_alloc | Undefined

type_synonym 'a outcome = "(fault + 'a) option"

abbreviation returns :: "'a \<Rightarrow> 'a outcome" where "returns x \<equiv> Some (Inr x)"

abbreviation fails :: "fault \<Rightarrow> 'a outcome" where "fails e \<equiv> Some (Inl e)"

definition obind :: "'a outcome \<Rightarrow> ('a \<Rightarrow> 'b outcome) \<Rightarrow> 'b outcome" where
  "obind m f = (case m of None \<Rightarrow> None | Some (Inl e) \<Rightarrow> Some (Inl e) | Some (Inr x) \<Rightarrow> f x)"

lemma obind_simps [simp]:
  "obind None f = None" "obind (fails e) f = fails e" "obind (returns x) f = f x"
  by (simp_all add: obind_def)

lemma obind_eq_returns: "obind m f = returns y \<longleftrightarrow> (\<exists>x. m = returns x \<and> f x = returns y)"
  by (auto simp: obind_def split: option.splits sum.splits)

text \<open>An operation that is undefined where the option is \<open>None\<close>.\<close>

definition defined_or_undef :: "'a option \<Rightarrow> 'a outcome" where
  "defined_or_undef m = (case m of None \<Rightarrow> fails Undefined | Some x \<Rightarrow> returns x)"

lemma defined_or_undef_simps [simp]:
  "defined_or_undef None = fails Undefined" "defined_or_undef (Some x) = returns x"
  by (simp_all add: defined_or_undef_def)

end
