(* ===== verification/Interfaces.thy ===== *)
theory Interfaces imports Prelude begin

text \<open>
  The contracts between the components, as locales.  Each one is interpreted on the model of the
  code that provides it, in the theory of that component.

  \<^item> \<open>bounded_fifo\<close>: a queue of fixed capacity whose insertion fails when it is full
    (\<open>lockfree_ringbuffer\<close>).
  \<^item> \<open>overrun_fifo\<close>: a queue of fixed capacity whose insertion drops the oldest element when
    it is full (\<open>circular_q\<close>); its clients are the backtracer, the ring buffer sink and the
    queue of the thread pool.
\<close>

section \<open>Bounded queues\<close>

datatype 'a queue_op = Push 'a | Pull | Clear

datatype 'a queue_out = Pushed bool | Pulled "'a option" | Cleared

text \<open>The abstract queue of a given capacity: a list, oldest element first.\<close>

fun spec_step :: "nat \<Rightarrow> 'a queue_op \<Rightarrow> 'a list \<Rightarrow> 'a queue_out \<times> 'a list" where
  "spec_step cap (Push x) xs =
     (if length xs < cap then (Pushed True, xs @ [x]) else (Pushed False, xs))"
| "spec_step cap Pull xs = (case xs of [] \<Rightarrow> (Pulled None, []) | x # ys \<Rightarrow> (Pulled (Some x), ys))"
| "spec_step cap Clear xs = (Cleared, [])"

fun spec_run :: "nat \<Rightarrow> 'a queue_op list \<Rightarrow> 'a list \<Rightarrow> 'a queue_out list \<times> 'a list" where
  "spec_run cap [] xs = ([], xs)"
| "spec_run cap (e # es) xs =
     (let (out, ys) = spec_step cap e xs; (outs, zs) = spec_run cap es ys in (out # outs, zs))"

text \<open>
  The same script run on an implementation: \<open>push\<close> and \<open>pull\<close> may hit undefined behaviour
  (\<open>None\<close>), and then the run has no outcome.
\<close>

fun impl_step ::
  "('a \<Rightarrow> 'q \<Rightarrow> (bool \<times> 'q) option) \<Rightarrow> ('q \<Rightarrow> ('a option \<times> 'q) option) \<Rightarrow> ('q \<Rightarrow> 'q)
   \<Rightarrow> 'a queue_op \<Rightarrow> 'q \<Rightarrow> ('a queue_out \<times> 'q) option" where
  "impl_step push pull clear (Push x) q = map_option (\<lambda>(b, q'). (Pushed b, q')) (push x q)"
| "impl_step push pull clear Pull q = map_option (\<lambda>(r, q'). (Pulled r, q')) (pull q)"
| "impl_step push pull clear Clear q = Some (Cleared, clear q)"

fun impl_run ::
  "('a \<Rightarrow> 'q \<Rightarrow> (bool \<times> 'q) option) \<Rightarrow> ('q \<Rightarrow> ('a option \<times> 'q) option) \<Rightarrow> ('q \<Rightarrow> 'q)
   \<Rightarrow> 'a queue_op list \<Rightarrow> 'q \<Rightarrow> ('a queue_out list \<times> 'q) option" where
  "impl_run push pull clear [] q = Some ([], q)"
| "impl_run push pull clear (e # es) q =
     (case impl_step push pull clear e q of None \<Rightarrow> None
      | Some (out, q') \<Rightarrow>
          (case impl_run push pull clear es q' of None \<Rightarrow> None
           | Some (outs, q'') \<Rightarrow> Some (out # outs, q'')))"

locale bounded_fifo =
  fixes push :: "'a \<Rightarrow> 'q \<Rightarrow> (bool \<times> 'q) option"
    and pull :: "'q \<Rightarrow> ('a option \<times> 'q) option"
    and clear :: "'q \<Rightarrow> 'q"
    and contents :: "'q \<Rightarrow> 'a list"
    and capacity :: "'q \<Rightarrow> nat"
    and inv :: "'q \<Rightarrow> bool"
  assumes push_law: "inv q \<Longrightarrow> \<exists>b q'. push x q = Some (b, q') \<and> inv q' \<and> capacity q' = capacity q
      \<and> (Pushed b, contents q') = spec_step (capacity q) (Push x) (contents q)"
    and pull_law: "inv q \<Longrightarrow> \<exists>r q'. pull q = Some (r, q') \<and> inv q' \<and> capacity q' = capacity q
      \<and> (Pulled r, contents q') = spec_step (capacity q) Pull (contents q)"
    and clear_law: "inv q \<Longrightarrow> inv (clear q) \<and> capacity (clear q) = capacity q \<and> contents (clear q) = []"
    and bound_law: "inv q \<Longrightarrow> length (contents q) \<le> capacity q"
begin

lemma step_law:
  assumes "inv q"
  shows "\<exists>out q'. impl_step push pull clear e q = Some (out, q') \<and> inv q' \<and> capacity q' = capacity q
    \<and> (out, contents q') = spec_step (capacity q) e (contents q)"
proof (cases e)
  case (Push x)
  from push_law [OF assms, of x] obtain b q' where "push x q = Some (b, q')" "inv q'"
    "capacity q' = capacity q" "(Pushed b, contents q') = spec_step (capacity q) e (contents q)"
    unfolding Push by blast
  with Push show ?thesis by (intro exI [of _ "Pushed b"] exI [of _ q']) simp
next
  case Pull
  from pull_law [OF assms] obtain r q' where "pull q = Some (r, q')" "inv q'"
    "capacity q' = capacity q" "(Pulled r, contents q') = spec_step (capacity q) e (contents q)"
    unfolding Pull by blast
  with Pull show ?thesis by (intro exI [of _ "Pulled r"] exI [of _ q']) simp
next
  case Clear
  with clear_law [OF assms] show ?thesis by auto
qed

text \<open>Every script of operations behaves as on the abstract queue, and none is undefined.\<close>

lemma run_law:
  assumes "inv q"
  shows "\<exists>outs q'. impl_run push pull clear es q = Some (outs, q') \<and> inv q' \<and> capacity q' = capacity q
    \<and> (outs, contents q') = spec_run (capacity q) es (contents q)"
  using assms
proof (induction es arbitrary: q)
  case Nil
  then show ?case by simp
next
  case (Cons e es)
  from step_law [OF Cons.prems, of e] obtain out q1 where
    s: "impl_step push pull clear e q = Some (out, q1)" "inv q1" "capacity q1 = capacity q"
      "(out, contents q1) = spec_step (capacity q) e (contents q)" by blast
  from Cons.IH [OF s(2)] obtain outs q2 where
    r: "impl_run push pull clear es q1 = Some (outs, q2)" "inv q2" "capacity q2 = capacity q1"
      "(outs, contents q2) = spec_run (capacity q1) es (contents q1)" by blast
  have "spec_run (capacity q) (e # es) (contents q) = (out # outs, contents q2)"
    using s(3,4) r(4) by (simp add: Let_def split: prod.splits) (metis fst_conv snd_conv)
  with s r show ?case by (auto simp: s(1))
qed

end

section \<open>Queues that overrun\<close>

text \<open>Appending to a queue of \<open>cap\<close> elements keeps the last \<open>cap\<close> of them.\<close>

definition keep_last :: "nat \<Rightarrow> 'a list \<Rightarrow> 'a list" where
  "keep_last cap xs = drop (length xs - cap) xs"

lemma length_keep_last [simp]: "length (keep_last cap xs) = min cap (length xs)"
  by (simp add: keep_last_def min_def)

lemma keep_last_id: "length xs \<le> cap \<Longrightarrow> keep_last cap xs = xs"
  by (simp add: keep_last_def)

lemma keep_last_append: "keep_last cap (keep_last cap xs @ ys) = keep_last cap (xs @ ys)"
proof (cases "length xs \<le> cap")
  case True
  then show ?thesis by (simp add: keep_last_id)
next
  case False
  then have "length xs - cap + (cap + length ys - cap) = length xs + length ys - cap" by simp
  with False show ?thesis by (simp add: keep_last_def drop_append add.commute)
qed

locale overrun_fifo =
  fixes push :: "'a \<Rightarrow> 'q \<Rightarrow> 'q"
    and pop :: "'q \<Rightarrow> 'q"
    and front :: "'q \<Rightarrow> 'a"
    and is_empty :: "'q \<Rightarrow> bool"
    and overruns :: "'q \<Rightarrow> nat"
    and contents :: "'q \<Rightarrow> 'a list"
    and capacity :: "'q \<Rightarrow> nat"
    and inv :: "'q \<Rightarrow> bool"
  assumes push_inv: "inv q \<Longrightarrow> inv (push x q)"
    and push_capacity: "inv q \<Longrightarrow> capacity (push x q) = capacity q"
    and push_contents: "inv q \<Longrightarrow> contents (push x q) = keep_last (capacity q) (contents q @ [x])"
    and push_overruns: "inv q \<Longrightarrow> 0 < capacity q \<Longrightarrow>
      overruns (push x q) = overruns q + (if length (contents q) = capacity q then 1 else 0)"
    and pop_inv: "inv q \<Longrightarrow> contents q \<noteq> [] \<Longrightarrow> inv (pop q)"
    and pop_capacity: "inv q \<Longrightarrow> contents q \<noteq> [] \<Longrightarrow> capacity (pop q) = capacity q"
    and pop_contents: "inv q \<Longrightarrow> contents q \<noteq> [] \<Longrightarrow> contents (pop q) = tl (contents q)"
    and pop_overruns: "inv q \<Longrightarrow> contents q \<noteq> [] \<Longrightarrow> overruns (pop q) = overruns q"
    and front_contents: "inv q \<Longrightarrow> contents q \<noteq> [] \<Longrightarrow> front q = hd (contents q)"
    and empty_contents: "inv q \<Longrightarrow> is_empty q \<longleftrightarrow> contents q = []"
    and contents_bound: "inv q \<Longrightarrow> length (contents q) \<le> capacity q"
begin

lemma fold_push:
  assumes "inv q"
  shows "inv (fold push xs q) \<and> capacity (fold push xs q) = capacity q
    \<and> contents (fold push xs q) = keep_last (capacity q) (contents q @ xs)"
  using assms
proof (induction xs arbitrary: q)
  case Nil
  then show ?case by (simp add: keep_last_id contents_bound)
next
  case (Cons x xs)
  from Cons.IH [OF push_inv [OF Cons.prems, of x]] show ?case
    by (simp add: Cons.prems push_capacity push_contents keep_last_append)
qed

lemma fold_push_overruns:
  assumes "inv q" "0 < capacity q"
  shows "overruns (fold push xs q)
      = overruns q + (length (contents q) + length xs - capacity q)"
  using assms
proof (induction xs arbitrary: q)
  case Nil
  then show ?case using contents_bound [of q] by simp
next
  case (Cons x xs)
  have "inv (push x q)" "capacity (push x q) = capacity q"
    using Cons.prems by (auto simp: push_inv push_capacity)
  moreover have "length (contents q) \<le> capacity q" using Cons.prems contents_bound by blast
  moreover have "length (contents (push x q)) = min (capacity q) (Suc (length (contents q)))"
    using Cons.prems by (simp add: push_contents)
  ultimately show ?case
    using Cons.IH [of "push x q"] Cons.prems push_overruns [OF Cons.prems, of x] by auto
qed

end

end
