(* ===== verification/Memory_Resource.thy ===== *)
theory Memory_Resource imports Prelude "HOL-Library.Multiset" begin

text \<open>
  What the code uses of \<open>std::pmr::memory_resource\<close> (a class of the C++ standard library): an
  allocation returns the address of a fresh block or throws \<open>bad_alloc\<close>, and a deallocation must
  name a live block together with the size and the alignment it was allocated with, anything else
  being undefined behaviour.  The resource has a quota of bytes, so that allocations can fail.

  The contract is the locale \<open>memory_resource\<close>; its clients are every component that owns memory.
\<close>

record mem_res =
  next_addr :: address
  quota :: nat
  live :: "address \<rightharpoonup> nat \<times> nat"

text \<open>The default argument of \<open>allocate\<close> and \<open>deallocate\<close>: \<open>alignof(std::max_align_t)\<close>.\<close>

definition max_align :: nat where "max_align = 16"

definition align_up :: "nat \<Rightarrow> nat \<Rightarrow> nat" where
  "align_up al x = ((x + (al - 1)) div al) * al"

text \<open>\<open>None\<close> is the exception \<open>bad_alloc\<close>.\<close>

definition allocate :: "nat \<Rightarrow> nat \<Rightarrow> mem_res \<Rightarrow> (address \<times> mem_res) option" where
  "allocate n al r =
     (if n \<le> quota r
      then let p = align_up al (next_addr r) in
        Some (p, r\<lparr>next_addr := p + max 1 n, quota := quota r - n, live := (live r)(p \<mapsto> (n, al))\<rparr>)
      else None)"

text \<open>\<open>None\<close> is undefined behaviour.\<close>

definition deallocate :: "address \<Rightarrow> nat \<Rightarrow> nat \<Rightarrow> mem_res \<Rightarrow> mem_res option" where
  "deallocate p n al r =
     (if live r p = Some (n, al)
      then Some (r\<lparr>quota := quota r + n, live := (live r)(p := None)\<rparr>)
      else None)"

definition res_ok :: "mem_res \<Rightarrow> bool" where
  "res_ok r \<longleftrightarrow> 0 < next_addr r \<and> (\<forall>p. live r p \<noteq> None \<longrightarrow> 0 < p \<and> p < next_addr r)"

definition fresh_resource :: "nat \<Rightarrow> mem_res" where
  "fresh_resource q = \<lparr>next_addr = 16, quota = q, live = Map.empty\<rparr>"

lemma align_up_ge: "0 < al \<Longrightarrow> x \<le> align_up al x"
proof -
  assume a: "0 < al"
  have "x + (al - 1) = (x + (al - 1)) div al * al + (x + (al - 1)) mod al" by simp
  moreover have "(x + (al - 1)) mod al < al" using a by (rule mod_less_divisor)
  ultimately show ?thesis unfolding align_up_def by linarith
qed

lemma align_up_dvd: "al dvd align_up al x"
  by (simp add: align_up_def)

locale memory_resource =
  fixes alloc :: "nat \<Rightarrow> nat \<Rightarrow> 'r \<Rightarrow> (address \<times> 'r) option"
    and dealloc :: "address \<Rightarrow> nat \<Rightarrow> nat \<Rightarrow> 'r \<Rightarrow> 'r option"
    and blocks :: "'r \<Rightarrow> (address \<rightharpoonup> nat \<times> nat)"
    and inv :: "'r \<Rightarrow> bool"
  assumes alloc_law: "inv r \<Longrightarrow> 0 < al \<Longrightarrow> alloc n al r = Some (p, r') \<Longrightarrow>
      inv r' \<and> p \<noteq> 0 \<and> al dvd p \<and> blocks r p = None \<and> blocks r' = (blocks r)(p \<mapsto> (n, al))"
    and dealloc_law: "inv r \<Longrightarrow> blocks r p = Some (n, al) \<Longrightarrow>
      \<exists>r'. dealloc p n al r = Some r' \<and> inv r' \<and> blocks r' = (blocks r)(p := None)"
    and dealloc_ub: "blocks r p \<noteq> Some (n, al) \<Longrightarrow> dealloc p n al r = None"
begin

lemma alloc_dealloc:
  assumes "inv r" "0 < al" "alloc n al r = Some (p, r1)"
  shows "\<exists>r2. dealloc p n al r1 = Some r2 \<and> inv r2 \<and> blocks r2 = blocks r"
proof -
  from alloc_law [OF assms] have a: "inv r1" "blocks r p = None" "blocks r1 = (blocks r)(p \<mapsto> (n, al))"
    by auto
  then have "blocks r1 p = Some (n, al)" by simp
  from dealloc_law [OF a(1) this] a(2,3) show ?thesis by (auto simp: fun_upd_idem)
qed

lemma double_free:
  assumes "inv r" "blocks r p = Some (n, al)" "dealloc p n al r = Some r'"
  shows "dealloc p m al' r' = None"
proof -
  from dealloc_law [OF assms(1,2)] assms(3) have "blocks r' p = None" by auto
  then show ?thesis by (intro dealloc_ub) simp
qed

lemma distinct_blocks:
  assumes "inv r" "0 < al" "alloc n al r = Some (p, r')" "blocks r q \<noteq> None"
  shows "q \<noteq> p \<and> blocks r' q = blocks r q"
  using alloc_law [OF assms(1-3)] assms(4) by auto

end

interpretation pmr: memory_resource allocate deallocate live res_ok
proof (unfold_locales, goal_cases)
  case (1 r al n p r')
  then have p: "p = align_up al (next_addr r)" and
    r': "r' = r\<lparr>next_addr := p + max 1 n, quota := quota r - n, live := (live r)(p \<mapsto> (n, al))\<rparr>"
    by (auto simp: allocate_def Let_def split: if_splits)
  have le: "next_addr r \<le> p" using 1(2) p by (simp add: align_up_ge)
  have none: "live r p = None"
  proof (rule ccontr)
    assume h: "live r p \<noteq> None"
    from 1(1) have "live r p \<noteq> None \<longrightarrow> 0 < p \<and> p < next_addr r" unfolding res_ok_def by blast
    with h le show False by simp
  qed
  have pos: "0 < p" using 1(1) le by (simp add: res_ok_def)
  have "0 < q \<and> q < next_addr r'" if "live r' q \<noteq> None" for q
  proof (cases "q = p")
    case True
    with pos r' show ?thesis by simp
  next
    case False
    with that r' have "live r q \<noteq> None" by simp
    with 1(1) have "0 < q \<and> q < next_addr r" unfolding res_ok_def by blast
    with le r' show ?thesis by simp
  qed
  then have "res_ok r'" using r' by (simp add: res_ok_def)
  with none pos r' p show ?case by (simp add: align_up_dvd)
next
  case (2 r p n al)
  then show ?case by (auto simp: deallocate_def res_ok_def)
next
  case (3 r p n al)
  then show ?case by (simp add: deallocate_def)
qed

lemma res_ok_fresh [simp, res_simps]: "res_ok (fresh_resource q)"
  by (simp add: res_ok_def fresh_resource_def)

lemma allocate_enough: "n \<le> quota r \<Longrightarrow> \<exists>p r'. allocate n al r = Some (p, r')"
  by (auto simp: allocate_def Let_def)

lemma allocate_fails: "quota r < n \<Longrightarrow> allocate n al r = None"
  by (simp add: allocate_def)

section \<open>Ownership\<close>

text \<open>
  A component owns the blocks \<open>bl\<close> of a resource, disjoint from the blocks \<open>base\<close> that somebody else
  owns.  The rules below consume and produce blocks like those of a separation logic.
\<close>

type_synonym block_list = "(address \<times> nat \<times> nat) list"

definition owns :: "(address \<rightharpoonup> nat \<times> nat) \<Rightarrow> block_list \<Rightarrow> mem_res \<Rightarrow> bool" where
  "owns base bl r \<longleftrightarrow> res_ok r \<and> distinct (map fst bl) \<and> (\<forall>b \<in> set bl. base (fst b) = None)
     \<and> live r = base ++ map_of bl"

lemma owns_alloc:
  assumes "owns base bl r" "0 < al" "allocate n al r = Some (p, r')"
  shows "p \<noteq> 0 \<and> owns base ((p, n, al) # bl) r'"
proof -
  have "res_ok r" using assms(1) by (simp add: owns_def)
  from pmr.alloc_law [OF this assms(2,3)] have
    a: "res_ok r'" "p \<noteq> 0" "live r p = None" "live r' = (live r)(p \<mapsto> (n, al))" by auto
  from a(3) assms(1) have "base p = None" "p \<notin> set (map fst bl)"
    by (auto simp: owns_def map_add_None map_of_eq_None_iff)
  with a assms(1) show ?thesis by (auto simp: owns_def)
qed

lemma owns_dealloc:
  assumes "owns base ((p, n, al) # bl) r"
  shows "\<exists>r'. deallocate p n al r = Some r' \<and> owns base bl r'"
proof -
  have r: "res_ok r" "live r p = Some (n, al)" "base p = None" "p \<notin> set (map fst bl)"
    "live r = base ++ map_of ((p, n, al) # bl)"
    using assms by (auto simp: owns_def)
  from pmr.dealloc_law [OF r(1,2)] obtain r' where
    r': "deallocate p n al r = Some r'" "res_ok r'" "live r' = (live r)(p := None)" by blast
  have none: "map_of bl p = None" using r(4) by (simp add: map_of_eq_None_iff)
  have "(base ++ map_of ((p, n, al) # bl))(p := None) = base ++ map_of bl"
  proof
    fix a
    show "((base ++ map_of ((p, n, al) # bl))(p := None)) a = (base ++ map_of bl) a"
      using r(3) none by (cases "a = p") (simp_all add: map_add_def)
  qed
  with r' r(5) assms show ?thesis by (simp add: owns_def)
qed

text \<open>A block that nobody gives back any more belongs to the rest of the world.\<close>

lemma owns_forget:
  assumes "owns base ((p, n, al) # bl) r"
  shows "base p = None \<and> owns (base(p \<mapsto> (n, al))) bl r"
proof -
  have r: "base p = None" "p \<notin> set (map fst bl)" "live r = base ++ map_of ((p, n, al) # bl)"
    using assms by (auto simp: owns_def)
  have none: "map_of bl p = None" using r(2) by (simp add: map_of_eq_None_iff)
  have "base ++ map_of ((p, n, al) # bl) = base(p \<mapsto> (n, al)) ++ map_of bl"
  proof
    fix a
    show "(base ++ map_of ((p, n, al) # bl)) a = (base(p \<mapsto> (n, al)) ++ map_of bl) a"
      using none by (cases "a = p") (simp_all add: map_add_def split: option.split)
  qed
  moreover have "\<forall>b \<in> set bl. (base(p \<mapsto> (n, al))) (fst b) = None"
    using assms r(2) by (auto simp: owns_def image_iff)
  ultimately show ?thesis using assms r by (simp add: owns_def)
qed

lemma owns_perm:
  assumes "owns base bl r" "mset bl = mset bl'"
  shows "owns base bl' r"
proof -
  have s: "set bl = set bl'" using assms(2) by (metis set_mset_mset)
  have "mset (map fst bl) = mset (map fst bl')" using assms(2) by simp
  then have d: "distinct (map fst bl')" using assms(1) mset_eq_imp_distinct_iff by (fastforce simp: owns_def)
  then have "map_of bl = map_of bl'" using assms(1) s by (subst map_of_inject_set) (simp_all add: owns_def)
  with assms(1) s d show ?thesis by (simp add: owns_def)
qed

lemma owns_fresh [simp, res_simps]: "owns Map.empty [] (fresh_resource q)"
  by (simp add: owns_def) (simp add: fresh_resource_def)

lemma owns_live: "owns base [] r \<Longrightarrow> live r = base"
  by (simp add: owns_def)

end
