(* ===== verification/Ringbuffer.thy ===== *)
theory Ringbuffer imports Interfaces Memory_Resource begin

text \<open>
  \<open>lockfree_ringbuffer\<close> (source/taskete/lockfree_ringbuffer.hpp), the queue of a worker.

  The storage at \<open>head\<close> is the list \<open>cells\<close>; the two cursors are \<open>T*\<close> pointers into it and are
  kept as element offsets from \<open>head\<close>.  A store or a load outside the storage is undefined
  behaviour, the value \<open>None\<close>.  This theory runs each operation without interference;
  Ringbuffer_Conc interleaves the memory accesses of a producer and of a consumer.
\<close>

record 'a ringbuffer =
  head :: address
  cells :: "'a list"
  ring_size :: u32
  did_C_reached_P :: bool
  producer_cursor :: nat
  consumer_cursor :: nat

section \<open>Construction and destruction\<close>

text \<open>The loop that default-constructs the \<open>size\<close> items in place.\<close>

fun construct_items :: "nat \<Rightarrow> 'a \<Rightarrow> 'a list \<Rightarrow> 'a list" where
  "construct_items 0 d items = items"
| "construct_items (Suc n) d items = construct_items n d (items @ [d])"

text \<open>\<open>szT\<close> and \<open>alT\<close> are \<open>sizeof(T)\<close> and \<open>alignof(T)\<close>, \<open>d\<close> a default-constructed \<open>T\<close>.\<close>

definition ring_construct ::
  "nat \<Rightarrow> nat \<Rightarrow> 'a \<Rightarrow> u32 \<Rightarrow> mem_res \<Rightarrow> ('a ringbuffer \<times> mem_res) option" where
  "ring_construct szT alT d sz res =
     (case allocate (szT * unat sz) alT res of
        None \<Rightarrow> None
      | Some (p, res') \<Rightarrow>
          Some (\<lparr>head = p, cells = construct_items (unat sz) d [], ring_size = sz,
                 did_C_reached_P = True, producer_cursor = 0, consumer_cursor = 0\<rparr>, res'))"

definition ring_destruct :: "nat \<Rightarrow> nat \<Rightarrow> 'a ringbuffer \<Rightarrow> mem_res \<Rightarrow> mem_res option" where
  "ring_destruct szT alT r res = deallocate (head r) (szT * unat (ring_size r)) alT res"

section \<open>Operations\<close>

text \<open>\<open>if (++cursor == head + size()) cursor = head;\<close>\<close>

definition advance :: "'a ringbuffer \<Rightarrow> nat \<Rightarrow> nat" where
  "advance r cursor = (if cursor + 1 = unat (ring_size r) then 0 else cursor + 1)"

definition try_push :: "'a \<Rightarrow> 'a ringbuffer \<Rightarrow> (bool \<times> 'a ringbuffer) option" where
  "try_push elem r =
     (let producer = producer_cursor r; consumer = consumer_cursor r in
      if producer = consumer \<and> \<not> did_C_reached_P r then Some (False, r)
      else
        let producer = advance r producer in
        case write_cell (cells r) producer elem of
          None \<Rightarrow> None
        | Some cs \<Rightarrow>
            let r1 = r\<lparr>cells := cs, producer_cursor := producer\<rparr> in
            Some (True, if producer = consumer_cursor r1
                        then r1\<lparr>did_C_reached_P := False\<rparr> else r1))"

text \<open>The result carries the value assigned to the out parameter, if the call returns true.\<close>

definition try_pull :: "'a ringbuffer \<Rightarrow> ('a option \<times> 'a ringbuffer) option" where
  "try_pull r =
     (let producer = producer_cursor r; consumer = consumer_cursor r in
      if producer = consumer \<and> did_C_reached_P r then Some (None, r)
      else
        let consumer = advance r consumer in
        case read_cell (cells r) consumer of
          None \<Rightarrow> None
        | Some elem \<Rightarrow>
            let r1 = r\<lparr>consumer_cursor := consumer\<rparr> in
            Some (Some elem, if consumer = producer then r1\<lparr>did_C_reached_P := True\<rparr> else r1))"

definition ring_empty :: "'a ringbuffer \<Rightarrow> bool" where
  "ring_empty r = (producer_cursor r = consumer_cursor r \<and> did_C_reached_P r)"

definition ring_clear :: "'a ringbuffer \<Rightarrow> 'a ringbuffer" where
  "ring_clear r = r\<lparr>consumer_cursor := producer_cursor r, did_C_reached_P := True\<rparr>"

text \<open>
  \<open>free_space\<close>: the pointer differences are \<open>ptrdiff_t\<close> values, converted to the 32-bit result.
\<close>

definition free_space :: "'a ringbuffer \<Rightarrow> u32" where
  "free_space r =
     (let producer = producer_cursor r; consumer = consumer_cursor r in
      if producer = consumer then (if did_C_reached_P r then 0 else ring_size r)
      else if producer < consumer then word_of_int (int consumer - int producer)
      else word_of_int (uint (ring_size r) - (int consumer - int producer)))"

section \<open>Abstraction to a bounded queue\<close>

definition ring_capacity :: "'a ringbuffer \<Rightarrow> nat" where
  "ring_capacity r = unat (ring_size r)"

definition ring_stored :: "'a ringbuffer \<Rightarrow> nat" where
  "ring_stored r =
     (if producer_cursor r = consumer_cursor r then (if did_C_reached_P r then 0 else ring_capacity r)
      else if consumer_cursor r \<le> producer_cursor r then producer_cursor r - consumer_cursor r
      else producer_cursor r + ring_capacity r - consumer_cursor r)"

definition ring_contents :: "'a ringbuffer \<Rightarrow> 'a list" where
  "ring_contents r = window (cells r) (Suc (consumer_cursor r)) (ring_stored r)"

definition ring_ok :: "'a ringbuffer \<Rightarrow> bool" where
  "ring_ok r \<longleftrightarrow> 0 < ring_capacity r \<and> length (cells r) = ring_capacity r
     \<and> producer_cursor r < ring_capacity r \<and> consumer_cursor r < ring_capacity r"

lemma construct_items_replicate: "construct_items n d items = items @ replicate n d"
  by (induction n d items rule: construct_items.induct) (simp_all add: replicate_append_same)

lemma advance_mod [ring_simps]: "ring_ok r \<Longrightarrow> p < ring_capacity r \<Longrightarrow> advance r p = Suc p mod ring_capacity r"
  using circ_succ [of p "ring_capacity r"] by (simp add: advance_def ring_capacity_def)

lemma advance_less: "ring_ok r \<Longrightarrow> p < ring_capacity r \<Longrightarrow> advance r p < ring_capacity r"
  by (simp add: advance_mod)

lemma ring_stored_le: "ring_ok r \<Longrightarrow> ring_stored r \<le> ring_capacity r"
  by (auto simp: ring_ok_def ring_stored_def)

text \<open>The producer's cursor is always \<open>ring_stored\<close> steps ahead of the consumer's.\<close>

lemma producer_position:
  "ring_ok r \<Longrightarrow> producer_cursor r = (consumer_cursor r + ring_stored r) mod ring_capacity r"
  by (auto simp: ring_ok_def ring_stored_def)

lemma stored_eq_iff:
  assumes "ring_ok r" "producer_cursor r = (consumer_cursor r + k) mod ring_capacity r" "0 < k"
    "k < ring_capacity r"
  shows "ring_stored r = k"
proof (cases "consumer_cursor r + k < ring_capacity r")
  case True
  with assms show ?thesis by (auto simp: ring_stored_def)
next
  case False
  moreover from this have "consumer_cursor r + k - ring_capacity r < ring_capacity r"
    using assms(1,4) unfolding ring_ok_def by linarith
  ultimately have "producer_cursor r = consumer_cursor r + k - ring_capacity r"
    using assms(2) by (simp add: le_mod_geq)
  with assms False show ?thesis by (auto simp: ring_stored_def ring_ok_def)
qed

lemma push_full:
  assumes "ring_ok r" "ring_stored r = ring_capacity r"
  shows "try_push x r = Some (False, r)"
proof -
  from assms have "producer_cursor r = consumer_cursor r"
    using producer_position [OF assms(1)] by (simp add: ring_ok_def)
  moreover from this assms have "\<not> did_C_reached_P r"
    by (auto simp: ring_stored_def ring_ok_def split: if_splits)
  ultimately show ?thesis by (simp add: try_push_def Let_def)
qed

lemma push_room:
  assumes ok: "ring_ok r" and room: "ring_stored r < ring_capacity r"
  shows "\<exists>r'. try_push x r = Some (True, r') \<and> ring_ok r' \<and> ring_capacity r' = ring_capacity r
    \<and> ring_contents r' = ring_contents r @ [x]"
proof -
  let ?n = "ring_capacity r" and ?c = "consumer_cursor r" and ?k = "ring_stored r"
  let ?p = "advance r (producer_cursor r)"
  from ok have n: "0 < ?n" "length (cells r) = ?n" "producer_cursor r < ?n" "?c < ?n"
    by (auto simp: ring_ok_def)
  have p: "?p = (Suc ?c + ?k) mod ?n"
    using producer_position [OF ok] by (simp add: advance_mod ok n mod_Suc_eq)
  have pn: "?p < ?n" using n p by simp
  have guard: "\<not> (producer_cursor r = ?c \<and> \<not> did_C_reached_P r)"
    using room n by (auto simp: ring_stored_def split: if_splits)
  define r1 where "r1 = r\<lparr>cells := (cells r)[?p := x], producer_cursor := ?p\<rparr>"
  define r' where "r' = (if ?p = ?c then r1\<lparr>did_C_reached_P := False\<rparr> else r1)"
  have run: "try_push x r = Some (True, r')"
    using guard n pn by (simp add: try_push_def Let_def r'_def r1_def)
  have cap: "ring_capacity r' = ?n" by (simp add: r'_def r1_def ring_capacity_def)
  have ok': "ring_ok r'" using ok pn by (simp add: r'_def r1_def ring_ok_def ring_capacity_def)
  have k': "ring_stored r' = Suc ?k"
  proof (cases "?p = ?c")
    case True
    have "(?c + Suc ?k) mod ?n = (?c + 0) mod ?n" using p True n by simp
    then have "Suc ?k = ?n"
      using circ_index_inj [of "Suc ?k" ?n 0 ?c] room by (cases "Suc ?k < ?n") auto
    with True cap show ?thesis by (simp add: ring_stored_def r'_def r1_def)
  next
    case False
    have "?p = (?c + Suc ?k) mod ?n" using p by simp
    with False n have "Suc ?k \<noteq> ?n" by (metis mod_add_self2 mod_less)
    with room have "Suc ?k < ?n" by simp
    moreover have "producer_cursor r' = (consumer_cursor r' + Suc ?k) mod ring_capacity r'"
      using p cap by (simp add: r'_def r1_def)
    ultimately show ?thesis using stored_eq_iff [OF ok'] cap by simp
  qed
  have "ring_contents r' = window ((cells r)[(Suc ?c + ?k) mod length (cells r) := x]) (Suc ?c) (Suc ?k)"
    using k' p n by (simp add: ring_contents_def r'_def r1_def)
  also have "\<dots> = ring_contents r @ [x]"
    using room n by (subst window_push) (simp_all add: ring_contents_def)
  finally show ?thesis using run ok' cap by blast
qed

lemma pull_empty:
  assumes "ring_ok r" "ring_stored r = 0"
  shows "try_pull r = Some (None, r)"
proof -
  from assms have "producer_cursor r = consumer_cursor r"
    using producer_position [OF assms(1)] by (simp add: ring_ok_def)
  moreover from this assms have "did_C_reached_P r"
    by (auto simp: ring_stored_def ring_ok_def split: if_splits)
  ultimately show ?thesis by (simp add: try_pull_def Let_def)
qed

lemma pull_some:
  assumes ok: "ring_ok r" and some: "0 < ring_stored r"
  shows "\<exists>r'. try_pull r = Some (Some (hd (ring_contents r)), r') \<and> ring_ok r'
    \<and> ring_capacity r' = ring_capacity r \<and> ring_contents r' = tl (ring_contents r)"
proof -
  let ?n = "ring_capacity r" and ?p = "producer_cursor r" and ?k = "ring_stored r"
  let ?c = "advance r (consumer_cursor r)"
  from ok have n: "0 < ?n" "length (cells r) = ?n" "?p < ?n" "consumer_cursor r < ?n"
    by (auto simp: ring_ok_def)
  have c: "?c = Suc (consumer_cursor r) mod ?n" by (simp add: advance_mod ok n)
  have cn: "?c < ?n" using n c by simp
  have guard: "\<not> (?p = consumer_cursor r \<and> did_C_reached_P r)"
    using some by (auto simp: ring_stored_def split: if_splits)
  define r1 where "r1 = r\<lparr>consumer_cursor := ?c\<rparr>"
  define r' where "r' = (if ?c = ?p then r1\<lparr>did_C_reached_P := True\<rparr> else r1)"
  have hd: "cells r ! ?c = hd (ring_contents r)"
    using some n c by (simp add: ring_contents_def window_hd)
  have run: "try_pull r = Some (Some (hd (ring_contents r)), r')"
    using guard n cn hd by (auto simp: try_pull_def Let_def r'_def r1_def)
  have cap: "ring_capacity r' = ?n" by (simp add: r'_def r1_def ring_capacity_def)
  have ok': "ring_ok r'" using ok cn by (simp add: r'_def r1_def ring_ok_def ring_capacity_def)
  have pos: "?p = (?c + (?k - 1)) mod ?n"
    unfolding c using producer_position [OF ok] some by (subst mod_add_left_eq) simp
  have k': "ring_stored r' = ?k - 1"
  proof (cases "?c = ?p")
    case True
    have "(?c + (?k - 1)) mod ?n = (?c + 0) mod ?n" using pos True n by simp
    moreover have "?k - 1 < ?n" using ring_stored_le [OF ok] n by linarith
    ultimately have "?k - 1 = 0" using circ_index_inj [of "?k - 1" ?n 0 ?c] n by blast
    with True show ?thesis by (simp add: ring_stored_def r'_def r1_def)
  next
    case False
    then have "0 < ?k - 1" using pos cn by (cases "?k - 1 = 0") auto
    moreover have "?k - 1 < ring_capacity r'" using ring_stored_le [OF ok] n cap by linarith
    moreover have "producer_cursor r' = (consumer_cursor r' + (?k - 1)) mod ring_capacity r'"
      using pos cap by (simp add: r'_def r1_def)
    ultimately show ?thesis using stored_eq_iff [OF ok'] by blast
  qed
  have "ring_contents r' = window (cells r) (Suc ?c) (?k - 1)"
    using k' by (simp add: ring_contents_def r'_def r1_def)
  also have "\<dots> = window (cells r) (Suc (Suc (consumer_cursor r))) (?k - 1)"
    using c n by (intro window_start_mod) (simp add: mod_Suc_eq)
  also have "\<dots> = tl (ring_contents r)"
    using some by (simp add: ring_contents_def window_pop)
  finally show ?thesis using run ok' cap by blast
qed

lemma length_ring_contents [simp, ring_simps]: "length (ring_contents r) = ring_stored r"
  by (simp add: ring_contents_def)

interpretation rb: bounded_fifo try_push try_pull ring_clear ring_contents ring_capacity ring_ok
proof (unfold_locales, goal_cases)
  case (1 q x)
  show ?case
  proof (cases "ring_stored q < ring_capacity q")
    case True
    with push_room [OF 1 True, of x] show ?thesis by auto
  next
    case False
    with ring_stored_le [OF 1] have "ring_stored q = ring_capacity q" by simp
    from push_full [OF 1 this, of x] show ?thesis using 1 False
      by (intro exI [of _ False] exI [of _ q]) simp
  qed
next
  case (2 q)
  show ?case
  proof (cases "ring_stored q = 0")
    case True
    then have "ring_contents q = []" by (simp add: ring_contents_def)
    with pull_empty [OF 2 True] 2 show ?thesis by simp
  next
    case False
    then have "ring_contents q \<noteq> []" by (metis length_ring_contents list.size(3))
    with pull_some [OF 2] False show ?thesis by (cases "ring_contents q") auto
  qed
next
  case (3 q)
  then show ?case
    by (simp add: ring_clear_def ring_ok_def ring_capacity_def ring_contents_def ring_stored_def)
next
  case (4 q)
  then show ?case by (simp add: ring_stored_le)
qed

section \<open>Properties\<close>

lemma ring_construct_cases:
  assumes "ring_construct szT alT d sz res = Some (r, res')"
  shows "allocate (szT * unat sz) alT res = Some (head r, res')" "ring_size r = sz"
    "cells r = replicate (unat sz) d" "did_C_reached_P r" "producer_cursor r = 0" "consumer_cursor r = 0"
  using assms by (auto simp: ring_construct_def construct_items_replicate split: option.splits)

lemma ring_construct_ok:
  assumes "ring_construct szT alT d sz res = Some (r, res')" "sz \<noteq> 0"
  shows "ring_ok r" "ring_contents r = []" "ring_capacity r = unat sz"
  using ring_construct_cases [OF assms(1)] assms(2)
  by (auto simp: ring_ok_def ring_capacity_def ring_contents_def ring_stored_def unat_gt_0)

text \<open>
  C1 [refinement] A lockfree_ringbuffer constructed with a positive size behaves, for every script of
  try_push, try_pull and clear calls that one thread makes, as a bounded FIFO queue of that
  capacity: no call is undefined, each call returns what the abstract queue returns (try_push
  fails exactly when size elements are stored, try_pull returns them in insertion order and fails
  exactly when none is left), and the stored elements stay those of the abstract queue.
\<close>

theorem ring_refines_fifo:
  assumes "ring_construct szT alT d sz res = Some (r, res')" "sz \<noteq> 0"
  shows "\<exists>outs r'. impl_run try_push try_pull ring_clear es r = Some (outs, r')
    \<and> (outs, ring_contents r') = spec_run (unat sz) es []"
proof -
  note ok = ring_construct_ok [OF assms]
  from rb.run_law [OF ok(1), of es] show ?thesis by (auto simp: ok)
qed

theorem ring_refines_fifo_witness:
  "\<exists>outs r'. impl_run try_push try_pull ring_clear [Push 1, Push 2, Push (3 :: nat), Pull, Clear, Pull]
      (\<lparr>head = 16, cells = [0, 0], ring_size = 2, did_C_reached_P = True,
        producer_cursor = 0, consumer_cursor = 0\<rparr>) = Some (outs, r')
    \<and> (outs, ring_contents r') = ([Pushed True, Pushed True, Pushed False, Pulled (Some 1), Cleared, Pulled None], [])"
proof -
  have "\<exists>res'. ring_construct 4 4 (0 :: nat) 2 (fresh_resource 8) = Some (\<lparr>head = 16, cells = [0, 0], ring_size = 2,
      did_C_reached_P = True, producer_cursor = 0, consumer_cursor = 0\<rparr>, res')"
    by (simp add: ring_construct_def allocate_def fresh_resource_def align_up_def Let_def
        construct_items_replicate) (simp add: numeral_2_eq_2)
  then obtain res' where "ring_construct 4 4 (0 :: nat) 2 (fresh_resource 8) = Some (\<lparr>head = 16, cells = [0, 0],
      ring_size = 2, did_C_reached_P = True, producer_cursor = 0, consumer_cursor = 0\<rparr>, res')" by blast
  from ring_refines_fifo [OF this, of "[Push 1, Push 2, Push 3, Pull, Clear, Pull]"]
  show ?thesis by simp
qed

text \<open>
  Constructing a lockfree_ringbuffer allocates one block from its resource, and destroying it,
  after any script of operations, gives back exactly that block, with the size and alignment it
  was allocated with: the resource holds the same live blocks as before the construction.
\<close>

theorem ring_memory_returned:
  assumes "res_ok res" "0 < alT" "ring_construct szT alT d sz res = Some (r, res1)" "sz \<noteq> 0"
    "impl_run try_push try_pull ring_clear es r = Some (outs, r')"
  shows "\<exists>res2. ring_destruct szT alT r' res1 = Some res2 \<and> live res2 = live res"
proof -
  have step: "head q' = head q \<and> ring_size q' = ring_size q"
    if "impl_step try_push try_pull ring_clear e q = Some (out, q')" for e q out q'
    using that by (cases e)
      (auto simp: try_push_def try_pull_def ring_clear_def Let_def split: if_splits option.splits)
  have run: "head q' = head q \<and> ring_size q' = ring_size q"
    if "impl_run try_push try_pull ring_clear es q = Some (outs, q')" for es q outs q'
    using that
  proof (induction es arbitrary: q outs)
    case (Cons e es)
    then show ?case by (auto split: option.splits dest!: step)
  qed simp
  note c = ring_construct_cases [OF assms(3)]
  from pmr.alloc_dealloc [OF assms(1,2) c(1)] show ?thesis
    using run [OF assms(5)] c(2) by (auto simp: ring_destruct_def)
qed

theorem ring_memory_returned_witness:
  "\<exists>r res1. ring_construct 4 4 (0 :: nat) 2 (fresh_resource 8) = Some (r, res1)
    \<and> (\<exists>res2. ring_destruct 4 4 r res1 = Some res2 \<and> live res2 = live (fresh_resource 8))"
proof -
  have "\<exists>r res1. ring_construct 4 4 (0 :: nat) 2 (fresh_resource 8) = Some (r, res1)"
    by (simp add: ring_construct_def allocate_def fresh_resource_def Let_def)
  then obtain r res1 where c: "ring_construct 4 4 (0 :: nat) 2 (fresh_resource 8) = Some (r, res1)" by blast
  have "\<exists>res2. ring_destruct 4 4 r res1 = Some res2 \<and> live res2 = live (fresh_resource 8)"
    by (rule ring_memory_returned [OF _ _ c, of "[]" "[]"]) simp_all
  with c show ?thesis by blast
qed

text \<open>
  free_space does not report the free slots: on a well-formed buffer it returns
  size - stored (as a 32-bit value) exactly when the producer's cursor is below the consumer's,
  or 2^31 above it.  In particular an empty buffer reports 0 and a full one reports size, and
  with the producer ahead it reports size + stored.
\<close>

theorem free_space_correct_iff:
  assumes "ring_ok r"
  shows "free_space r = word_of_nat (ring_capacity r - ring_stored r)
    \<longleftrightarrow> producer_cursor r < consumer_cursor r \<or> producer_cursor r = consumer_cursor r + 2 ^ 31"
proof -
  let ?n = "ring_capacity r" and ?p = "producer_cursor r" and ?c = "consumer_cursor r"
  have n: "0 < ?n" "?n < 2 ^ 32" "?p < ?n" "?c < ?n"
    using assms unsigned_less [of "ring_size r", where 'a = nat] by (auto simp: ring_ok_def ring_capacity_def)
  have size: "ring_size r = word_of_nat ?n" "ring_size r \<noteq> 0"
    using n(1) by (auto simp: ring_capacity_def)
  consider "?p = ?c" | "?p < ?c" | "?c < ?p" by linarith
  then show ?thesis
  proof cases
    case 1
    then show ?thesis using n size by (simp add: free_space_def ring_stored_def)
  next
    case 2
    then have "?n - ring_stored r = ?c - ?p" using n by (simp add: ring_stored_def)
    with 2 show ?thesis by (simp add: free_space_def of_nat_diff)
  next
    case 3
    define e where "e = int (?p - ?c)"
    have e: "0 < e" "e < 2 ^ 32" "int ?p = int ?c + e" using 3 n by (auto simp: e_def)
    have "free_space r = word_of_int (int ?n + e)"
      using 3 e by (simp add: free_space_def ring_capacity_def Let_def algebra_simps)
    moreover have "word_of_nat (?n - ring_stored r) = (word_of_int (int ?n - e) :: u32)"
      using 3 n by (simp add: ring_stored_def e_def of_nat_diff)
    moreover have "(word_of_int (int ?n + e) :: u32) = word_of_int (int ?n - e) \<longleftrightarrow> (2 ^ 32 :: int) dvd 2 * e"
      by (simp only: word_of_int_eq_iff take_bit_eq_mod mod_eq_dvd_iff) simp
    moreover have "(2 ^ 32 :: int) dvd 2 * e \<longleftrightarrow> e = 2 ^ 31"
    proof
      assume "(2 ^ 32 :: int) dvd 2 * e"
      then obtain k where "2 * e = 2 ^ 32 * k" by blast
      with e(1,2) have "0 < k" "k < 2" by auto
      with \<open>2 * e = 2 ^ 32 * k\<close> show "e = 2 ^ 31" by simp
    qed simp
    moreover have "e = 2 ^ 31 \<longleftrightarrow> ?p = ?c + 2 ^ 31"
      using 3 unfolding e_def by (simp add: nat_eq_iff2 zdiff_int_split) arith
    ultimately have "free_space r = word_of_nat (?n - ring_stored r) \<longleftrightarrow> ?p = ?c + 2 ^ 31" by (simp only:)
    with 3 show ?thesis by simp
  qed
qed

theorem free_space_correct_iff_witness:
  "let r = \<lparr>head = 16, cells = [0 :: nat, 0], ring_size = 2, did_C_reached_P = True,
        producer_cursor = 0, consumer_cursor = 0\<rparr>
   in free_space r \<noteq> word_of_nat (ring_capacity r - ring_stored r)"
  using free_space_correct_iff [of "\<lparr>head = 16, cells = [0 :: nat, 0], ring_size = 2, did_C_reached_P = True,
        producer_cursor = 0, consumer_cursor = 0\<rparr>"]
  by (simp add: ring_ok_def ring_capacity_def Let_def)

text \<open>
  A lockfree_ringbuffer constructed with size 0 is accepted by the constructor, reports itself
  empty, and yet the first try_push writes outside the storage: the guard does not reject it.
\<close>

theorem ring_zero_push_undefined:
  assumes "ring_construct szT alT d 0 res = Some (r, res')"
  shows "ring_empty r \<and> try_push x r = None"
  using ring_construct_cases [OF assms]
  by (simp add: ring_empty_def try_push_def advance_def write_cell_def Let_def)

theorem ring_zero_push_undefined_witness:
  "\<exists>r res'. ring_construct 4 4 (0 :: nat) 0 (fresh_resource 8) = Some (r, res') \<and> try_push 7 r = None"
proof -
  have "\<exists>r res'. ring_construct 4 4 (0 :: nat) 0 (fresh_resource 8) = Some (r, res')"
    by (simp add: ring_construct_def allocate_def fresh_resource_def Let_def)
  then show ?thesis using ring_zero_push_undefined [of 4 4 0 "fresh_resource 8"] by blast
qed

end
