(* ===== verification/Ringbuffer_Conc.thy ===== *)
theory Ringbuffer_Conc imports Ringbuffer begin

text \<open>
  \<open>lockfree_ringbuffer\<close> with one producer thread and one consumer thread, the use its
  documentation describes (docs/internal: "while the Worker is still consuming data from its
  queue, the Scheduler might produce additional data").  Every load and store of a shared variable
  is one step, and the steps of the two threads interleave in any order (sequentially consistent
  interleavings; the acquire/release orders of the code allow these and more).

  The two ghost fields record the elements whose \<open>try_push\<close> returned true and the elements that
  \<open>try_pull\<close> delivered.
\<close>

section \<open>The two threads\<close>

datatype 'a prod_pc =
    P_idle
  | P_load_consumer 'a nat       \<comment> \<open>producer loaded\<close>
  | P_guard 'a nat nat           \<comment> \<open>producer and consumer loaded\<close>
  | P_write 'a nat               \<comment> \<open>guard passed\<close>
  | P_store 'a nat               \<comment> \<open>element written at the new cursor\<close>
  | P_compare 'a nat             \<comment> \<open>cursor stored\<close>
  | P_flag 'a                    \<comment> \<open>the consumer's cursor was found equal\<close>

datatype 'a cons_pc =
    C_idle
  | C_load_consumer nat
  | C_guard nat nat
  | C_read nat nat
  | C_store 'a nat nat
  | C_compare 'a nat nat
  | C_flag 'a

record 'a conc =
  ring :: "'a ringbuffer"
  prod_pc :: "'a prod_pc"
  cons_pc :: "'a cons_pc"
  accepted :: "'a list"
  delivered :: "'a list"

definition conc_init :: "'a ringbuffer \<Rightarrow> 'a conc" where
  "conc_init r = \<lparr>ring = r, prod_pc = P_idle, cons_pc = C_idle, accepted = [], delivered = []\<rparr>"

text \<open>
  One step of \<open>try_push\<close>; a producer that is idle starts to push \<open>elem\<close>.  \<open>None\<close> is
  undefined behaviour.
\<close>

definition prod_step :: "'a \<Rightarrow> 'a conc \<Rightarrow> 'a conc option" where
  "prod_step elem s =
     (case prod_pc s of
        P_idle \<Rightarrow> Some (s\<lparr>prod_pc := P_load_consumer elem (producer_cursor (ring s))\<rparr>)
      | P_load_consumer e producer \<Rightarrow>
          Some (s\<lparr>prod_pc := P_guard e producer (consumer_cursor (ring s))\<rparr>)
      | P_guard e producer consumer \<Rightarrow>
          (if producer = consumer \<and> \<not> did_C_reached_P (ring s)
           then Some (s\<lparr>prod_pc := P_idle\<rparr>)
           else Some (s\<lparr>prod_pc := P_write e (advance (ring s) producer)\<rparr>))
      | P_write e producer \<Rightarrow>
          (case write_cell (cells (ring s)) producer e of
             None \<Rightarrow> None
           | Some cs \<Rightarrow> Some (s\<lparr>ring := (ring s)\<lparr>cells := cs\<rparr>, prod_pc := P_store e producer\<rparr>))
      | P_store e producer \<Rightarrow>
          Some (s\<lparr>ring := (ring s)\<lparr>producer_cursor := producer\<rparr>, prod_pc := P_compare e producer\<rparr>)
      | P_compare e producer \<Rightarrow>
          (if producer = consumer_cursor (ring s)
           then Some (s\<lparr>prod_pc := P_flag e\<rparr>)
           else Some (s\<lparr>prod_pc := P_idle, accepted := accepted s @ [e]\<rparr>))
      | P_flag e \<Rightarrow>
          Some (s\<lparr>ring := (ring s)\<lparr>did_C_reached_P := False\<rparr>, prod_pc := P_idle,
                  accepted := accepted s @ [e]\<rparr>))"

text \<open>One step of \<open>try_pull\<close>.\<close>

definition cons_step :: "'a conc \<Rightarrow> 'a conc option" where
  "cons_step s =
     (case cons_pc s of
        C_idle \<Rightarrow> Some (s\<lparr>cons_pc := C_load_consumer (producer_cursor (ring s))\<rparr>)
      | C_load_consumer producer \<Rightarrow>
          Some (s\<lparr>cons_pc := C_guard producer (consumer_cursor (ring s))\<rparr>)
      | C_guard producer consumer \<Rightarrow>
          (if producer = consumer \<and> did_C_reached_P (ring s)
           then Some (s\<lparr>cons_pc := C_idle\<rparr>)
           else Some (s\<lparr>cons_pc := C_read producer (advance (ring s) consumer)\<rparr>))
      | C_read producer consumer \<Rightarrow>
          (case read_cell (cells (ring s)) consumer of
             None \<Rightarrow> None
           | Some e \<Rightarrow> Some (s\<lparr>cons_pc := C_store e producer consumer\<rparr>))
      | C_store e producer consumer \<Rightarrow>
          Some (s\<lparr>ring := (ring s)\<lparr>consumer_cursor := consumer\<rparr>, cons_pc := C_compare e producer consumer\<rparr>)
      | C_compare e producer consumer \<Rightarrow>
          (if consumer = producer
           then Some (s\<lparr>cons_pc := C_flag e\<rparr>)
           else Some (s\<lparr>cons_pc := C_idle, delivered := delivered s @ [e]\<rparr>))
      | C_flag e \<Rightarrow>
          Some (s\<lparr>ring := (ring s)\<lparr>did_C_reached_P := True\<rparr>, cons_pc := C_idle,
                  delivered := delivered s @ [e]\<rparr>))"

inductive conc_step :: "'a conc \<Rightarrow> 'a conc \<Rightarrow> bool" where
  produce: "prod_step e s = Some t \<Longrightarrow> conc_step s t"
| consume: "cons_step s = Some t \<Longrightarrow> conc_step s t"

inductive_simps conc_step_iff: "conc_step s t"

inductive conc_reachable :: "'a ringbuffer \<Rightarrow> 'a conc \<Rightarrow> bool" for r where
  start: "conc_reachable r (conc_init r)"
| step: "conc_reachable r s \<Longrightarrow> conc_step s t \<Longrightarrow> conc_reachable r t"

section \<open>Schedules\<close>

text \<open>A schedule says which thread moves next, and what an idle producer starts to push.\<close>

datatype 'a move = Produce 'a | Consume

fun sched_run :: "'a move list \<Rightarrow> 'a conc \<Rightarrow> 'a conc option" where
  "sched_run [] s = Some s"
| "sched_run (Produce e # ms) s = (case prod_step e s of None \<Rightarrow> None | Some t \<Rightarrow> sched_run ms t)"
| "sched_run (Consume # ms) s = (case cons_step s of None \<Rightarrow> None | Some t \<Rightarrow> sched_run ms t)"

lemma sched_run_reachable:
  "conc_reachable r s \<Longrightarrow> sched_run ms s = Some t \<Longrightarrow> conc_reachable r t"
proof (induction ms s rule: sched_run.induct)
  case (2 e ms s)
  then show ?case by (auto split: option.splits intro: conc_reachable.step conc_step.produce)
next
  case (3 ms s)
  then show ?case by (auto split: option.splits intro: conc_reachable.step conc_step.consume)
qed simp

lemma sched_run_append:
  "sched_run (ms @ ns) s = (case sched_run ms s of None \<Rightarrow> None | Some t \<Rightarrow> sched_run ns t)"
  by (induction ms s rule: sched_run.induct) (auto split: option.splits)

section \<open>What holds in every interleaving\<close>

fun prod_pc_ok :: "nat \<Rightarrow> 'a prod_pc \<Rightarrow> bool" where
  "prod_pc_ok n P_idle = True"
| "prod_pc_ok n (P_load_consumer e p) = (p < n)"
| "prod_pc_ok n (P_guard e p c) = (p < n)"
| "prod_pc_ok n (P_write e p) = (p < n)"
| "prod_pc_ok n (P_store e p) = (p < n)"
| "prod_pc_ok n (P_compare e p) = (p < n)"
| "prod_pc_ok n (P_flag e) = True"

fun cons_pc_ok :: "nat \<Rightarrow> 'a cons_pc \<Rightarrow> bool" where
  "cons_pc_ok n C_idle = True"
| "cons_pc_ok n (C_load_consumer p) = True"
| "cons_pc_ok n (C_guard p c) = (c < n)"
| "cons_pc_ok n (C_read p c) = (c < n)"
| "cons_pc_ok n (C_store e p c) = (c < n)"
| "cons_pc_ok n (C_compare e p c) = (c < n)"
| "cons_pc_ok n (C_flag e) = True"

definition conc_ok :: "nat \<Rightarrow> 'a conc \<Rightarrow> bool" where
  "conc_ok n s \<longleftrightarrow> ring_ok (ring s) \<and> ring_capacity (ring s) = n
     \<and> prod_pc_ok n (prod_pc s) \<and> cons_pc_ok n (cons_pc s)"

lemma conc_ok_cursors:
  "conc_ok n s \<Longrightarrow> producer_cursor (ring s) < n \<and> consumer_cursor (ring s) < n \<and> length (cells (ring s)) = n"
  by (simp add: conc_ok_def ring_ok_def)

lemma conc_ok_advance: "conc_ok n s \<Longrightarrow> p < n \<Longrightarrow> advance (ring s) p < n"
  using advance_less by (auto simp: conc_ok_def)

lemma ring_capacity_upd [simp, ring_simps]:
  "ring_capacity (r\<lparr>cells := cs\<rparr>) = ring_capacity r"
  "ring_capacity (r\<lparr>producer_cursor := p\<rparr>) = ring_capacity r"
  "ring_capacity (r\<lparr>consumer_cursor := p\<rparr>) = ring_capacity r"
  "ring_capacity (r\<lparr>did_C_reached_P := b\<rparr>) = ring_capacity r"
  by (simp_all add: ring_capacity_def)

lemma ring_ok_upd [simp, ring_simps]:
  "ring_ok r \<Longrightarrow> ring_ok (r\<lparr>cells := cs\<rparr>) \<longleftrightarrow> length cs = ring_capacity r"
  "ring_ok r \<Longrightarrow> ring_ok (r\<lparr>producer_cursor := p\<rparr>) \<longleftrightarrow> p < ring_capacity r"
  "ring_ok r \<Longrightarrow> ring_ok (r\<lparr>consumer_cursor := p\<rparr>) \<longleftrightarrow> p < ring_capacity r"
  "ring_ok r \<Longrightarrow> ring_ok (r\<lparr>did_C_reached_P := b\<rparr>)"
  by (auto simp: ring_ok_def)

lemma prod_step_defined:
  assumes "conc_ok n s"
  shows "\<exists>t. prod_step e s = Some t \<and> conc_ok n t"
proof -
  note c = conc_ok_cursors [OF assms] conc_ok_advance [OF assms]
  from assms have o: "ring_ok (ring s)" "ring_capacity (ring s) = n" "prod_pc_ok n (prod_pc s)"
    "cons_pc_ok n (cons_pc s)" by (simp_all add: conc_ok_def)
  show ?thesis using o c by (cases "prod_pc s") (simp_all add: prod_step_def conc_ok_def)
qed

lemma cons_step_defined:
  assumes "conc_ok n s"
  shows "\<exists>t. cons_step s = Some t \<and> conc_ok n t"
proof -
  note c = conc_ok_cursors [OF assms] conc_ok_advance [OF assms]
  from assms have o: "ring_ok (ring s)" "ring_capacity (ring s) = n" "prod_pc_ok n (prod_pc s)"
    "cons_pc_ok n (cons_pc s)" by (simp_all add: conc_ok_def)
  show ?thesis using o c by (cases "cons_pc s") (simp_all add: cons_step_def conc_ok_def)
qed

lemma reachable_conc_ok:
  assumes "conc_reachable r s" "ring_ok r"
  shows "conc_ok (ring_capacity r) s"
  using assms
proof (induction rule: conc_reachable.induct)
  case start
  then show ?case by (simp add: conc_init_def conc_ok_def)
next
  case (step s t)
  then have "conc_ok (ring_capacity r) s" by blast
  then show ?case
    using step.hyps(2) prod_step_defined [of "ring_capacity r" s] cons_step_defined [of "ring_capacity r" s]
    unfolding conc_step_iff by (metis option.inject)
qed

section \<open>Properties\<close>

text \<open>
  C6 [safety] With one producer and one consumer interleaved in any way, a well-formed lockfree_ringbuffer
  never makes an access outside its storage: in every reachable state both threads can take their
  next step, and the cursors, also those the threads have loaded, stay below size.
\<close>

theorem conc_no_undefined:
  assumes "conc_reachable r s" "ring_ok r"
  shows "prod_step e s \<noteq> None \<and> cons_step s \<noteq> None \<and> conc_ok (ring_capacity r) s"
  using reachable_conc_ok [OF assms] prod_step_defined [of "ring_capacity r" s e]
    cons_step_defined [of "ring_capacity r" s] by auto

definition ring_two :: "nat ringbuffer" where
  "ring_two = \<lparr>head = 16, cells = [0, 0], ring_size = 2, did_C_reached_P = True,
     producer_cursor = 0, consumer_cursor = 0\<rparr>"

lemma ring_two_ok: "ring_ok ring_two"
  by (simp add: ring_two_def ring_ok_def ring_capacity_def)

theorem conc_no_undefined_witness:
  "prod_step 5 (conc_init ring_two) \<noteq> None \<and> cons_step (conc_init ring_two) \<noteq> None"
  using conc_no_undefined [OF conc_reachable.start ring_two_ok, of 5] by blast

lemma prod_steps_alone:
  assumes "prod_pc s = P_idle" "try_push e (ring s) = Some (b, r')"
  shows "\<exists>k. sched_run (replicate k (Produce e)) s
    = Some (s\<lparr>ring := r', accepted := accepted s @ (if b then [e] else [])\<rparr>)"
proof (cases "producer_cursor (ring s) = consumer_cursor (ring s) \<and> \<not> did_C_reached_P (ring s)")
  case True
  with assms have "sched_run (replicate 3 (Produce e)) s
      = Some (s\<lparr>ring := r', accepted := accepted s @ (if b then [e] else [])\<rparr>)"
    by (simp add: eval_nat_numeral prod_step_def try_push_def)
  then show ?thesis by blast
next
  case False
  let ?p = "advance (ring s) (producer_cursor (ring s))"
  from assms(2) False obtain cs where cs: "write_cell (cells (ring s)) ?p e = Some cs"
    by (auto simp: try_push_def Let_def split: option.splits if_splits)
  show ?thesis
  proof (cases "?p = consumer_cursor (ring s)")
    case True
    with assms False cs have "sched_run (replicate 7 (Produce e)) s
        = Some (s\<lparr>ring := r', accepted := accepted s @ (if b then [e] else [])\<rparr>)"
      by (auto simp: eval_nat_numeral prod_step_def try_push_def Let_def)
    then show ?thesis by blast
  next
    case neq: False
    with assms False cs have "sched_run (replicate 6 (Produce e)) s
        = Some (s\<lparr>ring := r', accepted := accepted s @ (if b then [e] else [])\<rparr>)"
      by (auto simp: eval_nat_numeral prod_step_def try_push_def Let_def)
    then show ?thesis by blast
  qed
qed

lemma cons_steps_alone:
  assumes "cons_pc s = C_idle" "try_pull (ring s) = Some (x, r')"
  shows "\<exists>k. sched_run (replicate k Consume) s
    = Some (s\<lparr>ring := r', delivered := delivered s @ (case x of None \<Rightarrow> [] | Some e \<Rightarrow> [e])\<rparr>)"
proof (cases "producer_cursor (ring s) = consumer_cursor (ring s) \<and> did_C_reached_P (ring s)")
  case True
  with assms have "sched_run (replicate 3 Consume) s
      = Some (s\<lparr>ring := r', delivered := delivered s @ (case x of None \<Rightarrow> [] | Some e \<Rightarrow> [e])\<rparr>)"
    by (simp add: eval_nat_numeral cons_step_def try_pull_def)
  then show ?thesis by blast
next
  case False
  let ?c = "advance (ring s) (consumer_cursor (ring s))"
  from assms(2) False obtain e where e: "read_cell (cells (ring s)) ?c = Some e" "x = Some e"
    by (auto simp: try_pull_def Let_def split: option.splits if_splits)
  show ?thesis
  proof (cases "?c = producer_cursor (ring s)")
    case True
    with assms False e have "sched_run (replicate 7 Consume) s
        = Some (s\<lparr>ring := r', delivered := delivered s @ (case x of None \<Rightarrow> [] | Some e \<Rightarrow> [e])\<rparr>)"
      by (auto simp: eval_nat_numeral cons_step_def try_pull_def Let_def)
    then show ?thesis by blast
  next
    case neq: False
    with assms False e have "sched_run (replicate 6 Consume) s
        = Some (s\<lparr>ring := r', delivered := delivered s @ (case x of None \<Rightarrow> [] | Some e \<Rightarrow> [e])\<rparr>)"
      by (auto simp: eval_nat_numeral cons_step_def try_pull_def Let_def)
    then show ?thesis by blast
  qed
qed

text \<open>
  The step-by-step model refines to the call-level one: a try_push (try_pull) whose steps are
  not interrupted leaves the buffer, and reports, exactly what the whole-call function computes.
\<close>

theorem steps_alone_compute_calls:
  "(prod_pc s = P_idle \<and> try_push e (ring s) = Some (b, r') \<longrightarrow>
     (\<exists>k. sched_run (replicate k (Produce e)) s
        = Some (s\<lparr>ring := r', accepted := accepted s @ (if b then [e] else [])\<rparr>)))
   \<and> (cons_pc s = C_idle \<and> try_pull (ring s) = Some (x, r'') \<longrightarrow>
     (\<exists>k. sched_run (replicate k Consume) s
        = Some (s\<lparr>ring := r'', delivered := delivered s @ (case x of None \<Rightarrow> [] | Some e \<Rightarrow> [e])\<rparr>)))"
  using prod_steps_alone [of s e b r'] cons_steps_alone [of s x r''] by blast

theorem steps_alone_compute_calls_witness:
  "\<exists>k r'. try_push 5 ring_two = Some (True, r')
     \<and> sched_run (replicate k (Produce 5)) (conc_init ring_two)
        = Some ((conc_init ring_two)\<lparr>ring := r', accepted := [5]\<rparr>)"
proof -
  have "\<exists>r'. try_push 5 ring_two = Some (True, r')"
    by (simp add: try_push_def ring_two_def advance_def write_cell_def Let_def)
  then obtain r' where "try_push 5 ring_two = Some (True, r')" by blast
  then show ?thesis
    using steps_alone_compute_calls [of "conc_init ring_two" 5 True r'] by (auto simp: conc_init_def)
qed

text \<open>
  C5 [safety] The flag protocol of lockfree_ringbuffer is not safe for one producer and one consumer,
  whatever the size (2 or more): after a construction there is an interleaving of a single
  try_push with two try_pull calls in which both pulls succeed, so that the second one delivers an
  element that was never pushed.  (The producer, having found its new cursor equal to the
  consumer's, clears did_C_reached_P after the consumer has already emptied the buffer.)
\<close>

theorem conc_delivers_unpushed:
  assumes "ring_construct szT alT d sz res = Some (r, res')" "2 \<le> unat sz"
  shows "\<exists>s. conc_reachable r s \<and> prod_pc s = P_idle \<and> cons_pc s = C_idle
    \<and> accepted s = [a] \<and> delivered s = [a, d]"
proof -
  note c = ring_construct_cases [OF assms(1)]
  let ?ms = "[Produce a, Produce a, Produce a, Produce a, Produce a]
    @ [Consume, Consume, Consume, Consume, Consume, Consume, Consume] @ [Produce a, Produce a]
    @ [Consume, Consume, Consume, Consume, Consume, Consume]"
  define k where "k = (if unat sz = 2 then 0 else 2 :: nat)"
  have k: "k < unat sz" "k \<noteq> 1" using assms(2) by (auto simp: k_def)
  have "\<exists>t. sched_run ?ms (conc_init r) = Some t \<and> prod_pc t = P_idle \<and> cons_pc t = C_idle
    \<and> accepted t = [a] \<and> delivered t = [a, d]"
    using c assms(2) k
    by (simp add: prod_step_def cons_step_def conc_init_def advance_def nth_list_update k_def
        split: if_splits)
  then show ?thesis using sched_run_reachable [OF conc_reachable.start] by blast
qed

theorem conc_delivers_unpushed_witness:
  "\<exists>r s. conc_reachable r s \<and> accepted s = [5 :: nat] \<and> delivered s = [5, 0]"
proof -
  have "\<exists>r res'. ring_construct 4 4 (0 :: nat) 2 (fresh_resource 8) = Some (r, res')"
    by (simp add: ring_construct_def allocate_def fresh_resource_def Let_def)
  then obtain r res' where "ring_construct 4 4 (0 :: nat) 2 (fresh_resource 8) = Some (r, res')" by blast
  from conc_delivers_unpushed [OF this, of 5] show ?thesis by auto
qed

text \<open>
  The same protocol can lose elements: in a buffer of size 2 an interleaving of three successful
  try_push calls with one try_pull ends with no call in progress, two accepted elements never
  delivered, and a buffer that reports itself empty.  (The consumer sets did_C_reached_P for a
  cursor it compared with a producer position that is out of date.)
\<close>

theorem conc_loses_elements:
  "\<exists>s. conc_reachable ring_two s \<and> prod_pc s = P_idle \<and> cons_pc s = C_idle
    \<and> accepted s = [1, 2, 3] \<and> delivered s = [1] \<and> ring_empty (ring s)"
proof -
  let ?ms = "[Produce 1, Produce 1, Produce 1, Produce 1, Produce 1, Produce 1]
    @ [Consume, Consume, Consume, Consume, Consume, Consume]
    @ [Produce 2, Produce 2, Produce 2, Produce 2, Produce 2, Produce 2]
    @ [Produce 3, Produce 3, Produce 3, Produce 3, Produce 3, Produce 3, Produce 3] @ [Consume]"
  have "\<exists>t. sched_run ?ms (conc_init ring_two) = Some t \<and> prod_pc t = P_idle \<and> cons_pc t = C_idle
    \<and> accepted t = [1, 2, 3] \<and> delivered t = [1] \<and> ring_empty (ring t)"
    by (simp add: prod_step_def cons_step_def conc_init_def advance_def ring_two_def
        write_cell_def read_cell_def ring_empty_def)
  then show ?thesis using sched_run_reachable [OF conc_reachable.start] by blast
qed

end
