(* ===== verification/Pool_Helper.thy ===== *)
theory Pool_Helper imports Prelude begin

text \<open>
  \<open>pool_helper\<close> (source/taskete/pool_helper.hpp): the packing of a pool index and of a block
  offset into a 32-bit handle.  All values are 32-bit words, except the intermediate 64-bit word
  of \<open>make_handle\<close>.  Shifting a word by its width or more is undefined behaviour in C++, the
  value \<open>None\<close>.
\<close>

type_synonym handle_t = u32

record pool_options =
  pool_capacity :: u32
  max_pools :: u32

text \<open>The default of \<open>max_pools\<close> is \<open>std::uint32_t(-1)\<close>.\<close>

definition default_max_pools :: u32 where "default_max_pools = - 1"

record pool_helper =
  offset_mask :: u32
  pool_mask :: u32
  pool_shift :: u32

section \<open>Operations\<close>

definition shl32 :: "u32 \<Rightarrow> u32 \<Rightarrow> u32 option" where
  "shl32 v n = (if n < 32 then Some (push_bit (unat n) v) else None)"

definition shr32 :: "u32 \<Rightarrow> u32 \<Rightarrow> u32 option" where
  "shr32 v n = (if n < 32 then Some (drop_bit (unat n) v) else None)"

lemma unat_drop_bit_1: "unat (drop_bit 1 (v :: u32)) = unat v div 2"
  unfolding unat_drop_bit_eq by (simp add: drop_bit_eq_div)

lemma unat_drop_bit_Suc_0 [simp, pool_simps]: "unat (drop_bit (Suc 0) (v :: u32)) = unat v div 2"
  using unat_drop_bit_1 by simp

lemma drop_bit_1_less: "drop_bit (Suc 0) v \<noteq> (0 :: u32) \<Longrightarrow> unat v div 2 < unat v"
proof -
  assume "drop_bit (Suc 0) v \<noteq> (0 :: u32)"
  then have "0 < unat v div 2" by (metis unat_drop_bit_Suc_0 unat_gt_0)
  then show ?thesis by simp
qed

text \<open>\<open>while (v >>= 1) ++r;\<close>\<close>

function log2_loop :: "u32 \<Rightarrow> u32 \<Rightarrow> u32" where
  "log2_loop v r = (let v = drop_bit 1 v in if v \<noteq> 0 then log2_loop v (r + 1) else r)"
  by pat_completeness auto
termination
  by (relation "measure (\<lambda>(v, r). unat v)") (auto simp: drop_bit_1_less)

declare log2_loop.simps [simp del]

definition ph_log2 :: "u32 \<Rightarrow> u32" where
  "ph_log2 v = (if v = 0 then 0 else log2_loop v 1)"

definition make_pool_helper :: "pool_options \<Rightarrow> pool_helper option" where
  "make_pool_helper opts =
     (let om = pool_capacity opts - 1;
          ps = ph_log2 om;
          pm = NOT om;
          bound_shift = ph_log2 (max_pools opts)
      in case shl32 pm bound_shift of
           None \<Rightarrow> None
         | Some pm \<Rightarrow>
             (case shr32 pm bound_shift of
                None \<Rightarrow> None
              | Some pm \<Rightarrow> Some \<lparr>offset_mask = om, pool_mask = pm, pool_shift = ps\<rparr>))"

definition extract_pool :: "pool_helper \<Rightarrow> handle_t \<Rightarrow> u32 option" where
  "extract_pool h handle = shr32 (handle AND pool_mask h) (pool_shift h)"

definition extract_offset :: "pool_helper \<Rightarrow> handle_t \<Rightarrow> u32" where
  "extract_offset h handle = handle AND offset_mask h"

text \<open>\<open>diff\<close> is the pointer difference \<open>obj - base\<close>; the shift amount is at most 32, below 64.\<close>

definition make_handle :: "pool_helper \<Rightarrow> u32 \<Rightarrow> nat \<Rightarrow> handle_t" where
  "make_handle h index diff =
     ucast (push_bit (unat (pool_shift h)) (ucast index :: u64) OR word_of_nat diff)"

section \<open>The logarithm\<close>

lemma log2_loop_spec:
  assumes "v \<noteq> 0" "unat v * 2 ^ unat r < 2 ^ 33" "0 < unat r"
  shows "\<exists>k. unat (log2_loop v r) = unat r + k \<and> 2 ^ k \<le> unat v \<and> unat v < 2 ^ Suc k"
  using assms
proof (induction v r rule: log2_loop.induct)
  case (1 v r)
  show ?case
  proof (cases "drop_bit 1 v = 0")
    case True
    then have "unat v div 2 = 0" by (metis unat_0 unat_drop_bit_1)
    moreover have "0 < unat v" using "1.prems" by (simp add: unat_gt_0)
    ultimately show ?thesis using True by (intro exI [of _ 0]) (simp add: log2_loop.simps)
  next
    case False
    then have v: "0 < unat v div 2" by (metis unat_drop_bit_1 unat_gt_0)
    have "2 ^ Suc (unat r) \<le> unat v * 2 ^ unat r" using v by (simp add: mult.commute)
    with "1.prems"(2) have "2 ^ Suc (unat r) < (2 :: nat) ^ 33" by linarith
    then have "Suc (unat r) < 33" by (subst (asm) power_strict_increasing_iff) simp
    then have r: "unat (r + 1) = Suc (unat r)" by (simp add: unat_word_ariths)
    have b: "unat (drop_bit 1 v) * 2 ^ unat (r + 1) < 2 ^ 33"
      using "1.prems"(2) unfolding r unat_drop_bit_1
      by (rule le_less_trans [rotated]) (simp add: mult.assoc [symmetric])
    from "1.IH" [OF refl False False b] r obtain k where
      k: "unat (log2_loop (drop_bit 1 v) (r + 1)) = Suc (unat r) + k"
        "2 ^ k \<le> unat v div 2" "unat v div 2 < 2 ^ Suc k"
      by auto
    have "log2_loop v r = log2_loop (drop_bit 1 v) (r + 1)"
      using False by (subst log2_loop.simps) simp
    with k show ?thesis by (intro exI [of _ "Suc k"]) auto
  qed
qed

lemma ph_log2_bits:
  assumes "v \<noteq> 0"
  shows "\<exists>k. unat (ph_log2 v) = Suc k \<and> 2 ^ k \<le> unat v \<and> unat v < 2 ^ Suc k"
proof -
  have "unat v * 2 ^ unat (1 :: u32) < 2 ^ 33" using unsigned_less [of v, where 'a = nat] by simp
  from log2_loop_spec [OF assms this] show ?thesis using assms by (auto simp: ph_log2_def)
qed

lemma ph_log2_0 [simp, pool_simps]: "ph_log2 0 = 0"
  by (simp add: ph_log2_def)

lemma power_bracket_unique: "2 ^ j \<le> (n :: nat) \<Longrightarrow> n < 2 ^ Suc j \<Longrightarrow> 2 ^ k \<le> n \<Longrightarrow> n < 2 ^ Suc k \<Longrightarrow> j = k"
proof -
  assume a: "2 ^ j \<le> n" "n < 2 ^ Suc j" "2 ^ k \<le> n" "n < 2 ^ Suc k"
  have "j < Suc k" using a(1,4) by (meson le_less_trans one_less_numeral_iff power_less_imp_less_exp semiring_norm(76))
  moreover have "k < Suc j" using a(2,3) by (meson le_less_trans one_less_numeral_iff power_less_imp_less_exp semiring_norm(76))
  ultimately show "j = k" by simp
qed

lemma ph_log2_eqI:
  assumes "2 ^ k \<le> unat v" "unat v < 2 ^ Suc k"
  shows "unat (ph_log2 v) = Suc k"
proof -
  have "v \<noteq> 0" using assms by auto
  from ph_log2_bits [OF this] assms power_bracket_unique show ?thesis by metis
qed

lemma ph_log2_le: "unat (ph_log2 v) \<le> 32"
proof (cases "v = 0")
  case False
  from ph_log2_bits [OF this] obtain k where k: "unat (ph_log2 v) = Suc k" "2 ^ k \<le> unat v" by blast
  then have "2 ^ k < (2 :: nat) ^ 32" using unsigned_less [of v, where 'a = nat] by simp
  then show ?thesis using k(1) by (subst (asm) power_strict_increasing_iff) simp_all
qed simp

lemma ph_log2_mask: "k \<le> 32 \<Longrightarrow> unat (v :: u32) = 2 ^ k - 1 \<Longrightarrow> unat (ph_log2 v) = k"
proof (cases k)
  case 0
  moreover assume "unat v = 2 ^ k - 1"
  ultimately show ?thesis by (simp add: unat_eq_zero)
next
  case (Suc j)
  assume v: "unat v = 2 ^ k - 1"
  have "(1 :: nat) \<le> 2 ^ j" by simp
  then have "2 ^ j \<le> unat v" "unat v < 2 ^ Suc j" using v Suc by simp_all
  then show ?thesis using ph_log2_eqI Suc by blast
qed

section \<open>Handles\<close>

text \<open>The helper that the constructor builds for a capacity \<open>2 ^ k\<close>, bit by bit.\<close>

lemma pool_helper_cases:
  assumes "make_pool_helper opts = Some h"
  shows "offset_mask h = pool_capacity opts - 1"
    "pool_shift h = ph_log2 (pool_capacity opts - 1)"
    "unat (ph_log2 (max_pools opts)) < 32"
    "pool_mask h = drop_bit (unat (ph_log2 (max_pools opts)))
       (push_bit (unat (ph_log2 (max_pools opts))) (NOT (pool_capacity opts - 1)))"
  using assms
  by (auto simp: make_pool_helper_def shl32_def shr32_def Let_def word_less_nat_alt
      split: option.splits if_splits)

lemma bit_pool_mask:
  assumes "make_pool_helper opts = Some h" "pool_capacity opts = 2 ^ k"
  shows "bit (pool_mask h) n \<longleftrightarrow> k \<le> n \<and> n + unat (ph_log2 (max_pools opts)) < 32"
  unfolding pool_helper_cases(4) [OF assms(1)] assms(2) mask_eq_decr_exp [symmetric]
  by (auto simp: bit_simps)

lemma pool_shift_pow2:
  assumes "make_pool_helper opts = Some h" "pool_capacity opts = 2 ^ k" "k < 32"
  shows "unat (pool_shift h) = k"
proof -
  have "pool_capacity opts - 1 = (mask k :: u32)" using assms(2) by (simp add: mask_eq_decr_exp)
  moreover have "unat (mask k :: u32) = 2 ^ k - 1"
  proof -
    have "unat (word_of_nat (mask k) :: u32) = mask k"
      using assms(3) by (simp only: unsigned_of_nat) (simp add: take_bit_of_mask min_def)
    then show ?thesis by (simp add: of_nat_mask_eq mask_eq_exp_minus_1)
  qed
  ultimately show ?thesis
    unfolding pool_helper_cases(2) [OF assms(1)] using assms(3) by (intro ph_log2_mask) simp_all
qed

lemma bit_word_of_nat_small: "off < 2 ^ k \<Longrightarrow> bit (word_of_nat off :: 'a :: len word) n \<Longrightarrow> n < k"
  by (metis bit_imp_possible_bit bit_of_nat_iff bit_take_bit_iff linorder_not_le take_bit_nat_eq_self)

lemma bit_make_handle:
  assumes "unat (pool_shift h) = k" "off < 2 ^ k"
  shows "bit (make_handle h idx off) n
    \<longleftrightarrow> n < 32 \<and> (if n < k then bit (word_of_nat off :: u32) n else bit idx (n - k))"
  using bit_word_of_nat_small [OF assms(2), of n, where 'a = 64]
  by (auto simp: make_handle_def assms(1) bit_simps)

text \<open>What \<open>extract_pool\<close> gives back: the index, cut to the bits the mask keeps.\<close>

lemma extract_pool_make:
  assumes "make_pool_helper opts = Some h" "pool_capacity opts = 2 ^ k" "k < 32" "off < 2 ^ k"
  shows "extract_pool h (make_handle h idx off)
    = Some (take_bit (32 - unat (ph_log2 (max_pools opts)) - k) idx)"
proof -
  note ps = pool_shift_pow2 [OF assms(1-3)]
  have "drop_bit k (make_handle h idx off AND pool_mask h)
      = take_bit (32 - unat (ph_log2 (max_pools opts)) - k) idx"
    by (rule bit_eqI) (auto simp: bit_simps bit_make_handle [OF ps assms(4)] bit_pool_mask [OF assms(1,2)])
  moreover have "pool_shift h < 32" using ps assms(3) by (simp add: word_less_nat_alt)
  ultimately show ?thesis by (simp add: extract_pool_def shr32_def ps)
qed

lemma extract_offset_make:
  assumes "make_pool_helper opts = Some h" "pool_capacity opts = 2 ^ k" "k < 32" "off < 2 ^ k"
  shows "extract_offset h (make_handle h idx off) = word_of_nat off"
proof -
  note ps = pool_shift_pow2 [OF assms(1-3)]
  have "make_handle h idx off AND mask k = word_of_nat off"
    using bit_word_of_nat_small [OF assms(4), where 'a = 32] assms(3)
    by (intro bit_eqI) (auto simp: bit_simps bit_make_handle [OF ps assms(4)])
  then show ?thesis
    by (simp add: extract_offset_def pool_helper_cases(1) [OF assms(1)] assms(2) mask_eq_decr_exp)
qed

lemma make_pool_helper_defined:
  "make_pool_helper opts \<noteq> None \<longleftrightarrow> unat (ph_log2 (max_pools opts)) < 32"
  by (auto simp: make_pool_helper_def shl32_def shr32_def Let_def word_less_nat_alt)

lemma ph_log2_32: "unat (ph_log2 v) = 32 \<longleftrightarrow> 2 ^ 31 \<le> unat v"
proof
  assume h: "unat (ph_log2 v) = 32"
  then have "v \<noteq> 0" by auto
  from ph_log2_bits [OF this] h show "2 ^ 31 \<le> unat v" by auto
next
  assume "2 ^ 31 \<le> unat v"
  then have "unat (ph_log2 v) = Suc 31"
    using unsigned_less [of v, where 'a = nat] by (intro ph_log2_eqI) simp_all
  then show "unat (ph_log2 v) = 32" by simp
qed

section \<open>The contract for the pool manager\<close>

text \<open>
  What the pool manager relies on: for \<open>np\<close> pools of \<open>cap\<close> blocks, a handle gives back the pool and
  the block it was made from.
\<close>

locale handle_codec =
  fixes make :: "'h \<Rightarrow> u32 \<Rightarrow> nat \<Rightarrow> handle_t"
    and expool :: "'h \<Rightarrow> handle_t \<Rightarrow> u32 option"
    and exoff :: "'h \<Rightarrow> handle_t \<Rightarrow> u32"
    and ok :: "nat \<Rightarrow> nat \<Rightarrow> 'h \<Rightarrow> bool"
  assumes pool_law: "ok np cap h \<Longrightarrow> unat idx < np \<Longrightarrow> off < cap \<Longrightarrow> expool h (make h idx off) = Some idx"
    and offset_law: "ok np cap h \<Longrightarrow> off < cap \<Longrightarrow> unat (exoff h (make h idx off)) = off"
begin

lemma make_inj:
  assumes "ok np cap h" "unat i < np" "unat j < np" "a < cap" "b < cap" "make h i a = make h j b"
  shows "i = j \<and> a = b"
proof -
  have "Some i = Some j" using assms pool_law by metis
  moreover have "a = b" using assms offset_law by metis
  ultimately show ?thesis by simp
qed

end

definition codec_ok :: "nat \<Rightarrow> nat \<Rightarrow> pool_helper \<Rightarrow> bool" where
  "codec_ok np cap h \<longleftrightarrow> (\<exists>opts k. make_pool_helper opts = Some h \<and> pool_capacity opts = 2 ^ k \<and> k < 32
     \<and> cap = 2 ^ k \<and> np = 2 ^ (32 - unat (ph_log2 (max_pools opts)) - k))"

interpretation ph: handle_codec make_handle extract_pool extract_offset codec_ok
proof (unfold_locales, goal_cases)
  case (1 np cap h idx off)
  then obtain opts k where o: "make_pool_helper opts = Some h" "pool_capacity opts = 2 ^ k" "k < 32"
    "off < 2 ^ k" "unat idx < 2 ^ (32 - unat (ph_log2 (max_pools opts)) - k)"
    by (auto simp: codec_ok_def)
  from take_bit_small_word [OF o(5)] show ?case by (simp add: extract_pool_make [OF o(1-4)])
next
  case (2 np cap h off idx)
  then obtain opts k where o: "make_pool_helper opts = Some h" "pool_capacity opts = 2 ^ k" "k < 32"
    "off < 2 ^ k" by (auto simp: codec_ok_def)
  have "(2 :: nat) ^ k < 2 ^ 32" using o(3) by (rule power_strict_increasing) simp
  with o(4) have "off < 2 ^ 32" by linarith
  then show ?case by (simp only: extract_offset_make [OF o] unat_of_nat_small)
qed

section \<open>Properties\<close>

text \<open>
  pool_helper::log2 computes the bit length of its argument: the least number of bits that
  hold the value, 0 for 0 (so one more than the logarithm its name suggests).
\<close>

theorem ph_log2_is_bit_length: "unat (ph_log2 v) = (LEAST k. unat v < 2 ^ k)"
proof (cases "v = 0")
  case True
  then show ?thesis by (simp add: Least_eq_0)
next
  case False
  from ph_log2_bits [OF this] obtain k where
    k: "unat (ph_log2 v) = Suc k" "2 ^ k \<le> unat v" "unat v < 2 ^ Suc k" by blast
  have "Suc k \<le> y" if "unat v < 2 ^ y" for y
  proof -
    from k(2) that have "(2 :: nat) ^ k < 2 ^ y" by (rule le_less_trans)
    then show ?thesis by (simp add: Suc_le_eq)
  qed
  then have "(LEAST k. unat v < 2 ^ k) = Suc k" using k(3) by (intro Least_equality)
  with k show ?thesis by simp
qed

text \<open>
  The pool_helper constructor is undefined exactly when max_pools is 2^31 or more: it then shifts
  the 32-bit pool mask by 32.  This includes the default value of max_pools, for every capacity.
\<close>

theorem pool_helper_undefined_iff:
  "(make_pool_helper opts = None \<longleftrightarrow> 2 ^ 31 \<le> unat (max_pools opts))
   \<and> make_pool_helper \<lparr>pool_capacity = c, max_pools = default_max_pools\<rparr> = None"
proof -
  have iff: "make_pool_helper opts = None \<longleftrightarrow> 2 ^ 31 \<le> unat (max_pools opts)" for opts
    using make_pool_helper_defined [of opts] ph_log2_le [of "max_pools opts"]
      ph_log2_32 [of "max_pools opts"] by linarith
  have "unat default_max_pools = 2 ^ 32 - 1"
    unfolding default_max_pools_def unsigned_minus_1_eq_mask by (simp add: mask_eq_exp_minus_1)
  then show ?thesis using iff [of opts] iff [of "\<lparr>pool_capacity = c, max_pools = default_max_pools\<rparr>"] by simp
qed

text \<open>
  For a capacity 2^k, the handle made from a pool index and a block offset below the capacity
  gives back the offset, and the pool index modulo 2^(32-k-b), where b is the bit length of
  max_pools: exactly the indices below that bound survive.
\<close>

theorem handle_roundtrip:
  assumes "make_pool_helper opts = Some h" "pool_capacity opts = 2 ^ k" "k < 32" "off < 2 ^ k"
  shows "map_option unat (extract_pool h (make_handle h idx off))
      = Some (unat idx mod 2 ^ (32 - unat (ph_log2 (max_pools opts)) - k))
    \<and> unat (extract_offset h (make_handle h idx off)) = off"
proof -
  have "(2 :: nat) ^ k < 2 ^ 32" using assms(3) by (rule power_strict_increasing) simp
  with assms(4) have "unat (word_of_nat off :: u32) = off" by (intro unat_of_nat_small) linarith
  then show ?thesis
    by (simp add: extract_pool_make [OF assms] extract_offset_make [OF assms] unat_take_bit)
qed

definition options_128 :: pool_options where
  "options_128 = \<lparr>pool_capacity = 128, max_pools = 2 ^ 20\<rparr>"

lemma log2_2_20: "unat (ph_log2 (2 ^ 20)) = 21"
  using ph_log2_eqI [of 20 "2 ^ 20"] by simp

lemma helper_128: "\<exists>h. make_pool_helper options_128 = Some h"
  using make_pool_helper_defined [of options_128] log2_2_20 by (auto simp: options_128_def)

theorem handle_roundtrip_witness:
  "\<exists>h. make_pool_helper options_128 = Some h
    \<and> map_option unat (extract_pool h (make_handle h 5 77)) = Some 5
    \<and> unat (extract_offset h (make_handle h 5 77)) = 77"
proof -
  from helper_128 obtain h where h: "make_pool_helper options_128 = Some h" by blast
  have cap: "pool_capacity options_128 = 2 ^ 7" by (simp add: options_128_def)
  from handle_roundtrip [OF h cap, of 77 5] log2_2_20 show ?thesis using h by (simp add: options_128_def)
qed

text \<open>
  The number of pools that handles can address does not follow max_pools: when 2^(32-k-b) is
  below max_pools, two pool indices that max_pools allows are confused, their handles decode to the
  same pool.
\<close>

theorem handles_confuse_pools:
  assumes "make_pool_helper opts = Some h" "pool_capacity opts = 2 ^ k" "k < 32" "off < 2 ^ k"
    "2 ^ (32 - unat (ph_log2 (max_pools opts)) - k) < unat (max_pools opts)"
  shows "\<exists>i j. i < j \<and> j < max_pools opts
    \<and> extract_pool h (make_handle h i off) = extract_pool h (make_handle h j off)"
proof -
  define m where "m = 32 - unat (ph_log2 (max_pools opts)) - k"
  have lt: "2 ^ m < unat (max_pools opts)" using assms(5) by (simp add: m_def)
  then have m32: "(2 :: nat) ^ m < 2 ^ 32" using unsigned_less [of "max_pools opts", where 'a = nat] by simp
  define j where "j = (word_of_nat (2 ^ m) :: u32)"
  have u: "unat j = 2 ^ m" using unat_of_nat_small [OF m32] by (simp only: j_def)
  have "unat (take_bit m j) = 0" by (simp add: unat_take_bit u)
  then have "take_bit m j = 0" by (simp add: unat_eq_zero)
  then have "extract_pool h (make_handle h 0 off) = extract_pool h (make_handle h j off)"
    unfolding extract_pool_make [OF assms(1-4)] m_def [symmetric] by simp
  moreover have "0 < j" "j < max_pools opts" using u lt by (simp_all add: word_less_nat_alt)
  ultimately show ?thesis by blast
qed

theorem handles_confuse_pools_witness:
  "\<exists>h. make_pool_helper options_128 = Some h \<and> (\<exists>i j. i < j \<and> j < max_pools options_128
    \<and> extract_pool h (make_handle h i 0) = extract_pool h (make_handle h j 0))"
proof -
  from helper_128 obtain h where h: "make_pool_helper options_128 = Some h" by blast
  have cap: "pool_capacity options_128 = 2 ^ 7" by (simp add: options_128_def)
  have "unat (ph_log2 (max_pools options_128)) = 21" "unat (max_pools options_128) = 2 ^ 20"
    using log2_2_20 by (simp_all add: options_128_def)
  with handles_confuse_pools [OF h cap, of 0] h show ?thesis by auto
qed

lemma offset_lost_unless_mask:
  assumes "make_pool_helper opts = Some h" "\<not> bit (pool_capacity opts - 1) j" "j < 32"
  shows "extract_offset h (make_handle h 0 (2 ^ j)) \<noteq> word_of_nat (2 ^ j)"
proof -
  have "make_handle h 0 (2 ^ j) = 2 ^ j"
    by (rule bit_eqI) (auto simp: make_handle_def bit_simps)
  moreover have "2 ^ j AND (pool_capacity opts - 1) = 0"
    using assms(2) by (intro bit_eqI) (auto simp: bit_simps)
  moreover have "(2 ^ j :: u32) \<noteq> 0" using assms(3) by simp
  ultimately show ?thesis by (simp add: extract_offset_def pool_helper_cases(1) [OF assms(1)])
qed

text \<open>
  Offsets survive the round trip through a handle for every block of a pool exactly when the
  capacity is a power of two; the options do not require one, and for any other capacity some
  block's handle decodes to a different block.
\<close>

theorem offsets_need_power_of_two:
  assumes "make_pool_helper opts = Some h" "pool_capacity opts \<noteq> 0"
  shows "(\<forall>idx off. off < unat (pool_capacity opts) \<longrightarrow>
      extract_offset h (make_handle h idx off) = word_of_nat off) \<longleftrightarrow> (\<exists>k < 32. pool_capacity opts = 2 ^ k)"
proof
  assume "\<exists>k < 32. pool_capacity opts = 2 ^ k"
  then obtain k where k: "k < 32" "pool_capacity opts = 2 ^ k" by blast
  then have "unat (pool_capacity opts) = 2 ^ k" by (simp add: unat_pow2)
  with extract_offset_make [OF assms(1) k(2,1)] show "\<forall>idx off. off < unat (pool_capacity opts) \<longrightarrow>
      extract_offset h (make_handle h idx off) = word_of_nat off" by simp
next
  assume all: "\<forall>idx off. off < unat (pool_capacity opts) \<longrightarrow>
      extract_offset h (make_handle h idx off) = word_of_nat off"
  define m where "m = pool_capacity opts - 1"
  have cap: "pool_capacity opts = m + 1" by (simp add: m_def)
  have less: "unat m < unat (pool_capacity opts)"
    unfolding m_def using assms(2) by (simp add: unat_minus_one unat_gt_0)
  show "\<exists>k < 32. pool_capacity opts = 2 ^ k"
  proof (cases "m = 0")
    case True
    with cap show ?thesis by (intro exI [of _ 0]) simp
  next
    case False
    from ph_log2_bits [OF this] obtain K where K: "2 ^ K \<le> unat m" "unat m < 2 ^ Suc K" by blast
    have "(2 :: nat) ^ K < 2 ^ 32" using K(1) unat_word_bound [of m] by simp
    then have K32: "K < 32" by (subst (asm) power_strict_increasing_iff) simp_all
    have bits: "bit m j" if "j \<le> K" for j
    proof (rule ccontr)
      assume "\<not> bit m j"
      then have "extract_offset h (make_handle h 0 (2 ^ j)) \<noteq> word_of_nat (2 ^ j)"
        using offset_lost_unless_mask [OF assms(1)] K32 that by (simp add: m_def)
      moreover have "(2 :: nat) ^ j \<le> 2 ^ K" using that by simp
      then have "2 ^ j < unat (pool_capacity opts)" using K(1) less by linarith
      ultimately show False using all by blast
    qed
    have "take_bit (Suc K) m = m" by (rule take_bit_small_word [OF K(2)])
    then have "m = mask (Suc K)"
      using bits by (intro bit_eqI) (metis bit_mask_iff bit_take_bit_iff less_Suc_eq_le)
    then have pow: "pool_capacity opts = 2 ^ Suc K" by (simp add: cap mask_eq_exp_minus_1)
    moreover have "Suc K \<noteq> 32" using pow assms(2) by auto
    ultimately show ?thesis using K32 by (intro exI [of _ "Suc K"]) auto
  qed
qed

theorem offsets_need_power_of_two_witness:
  "\<exists>h. make_pool_helper options_128 = Some h \<and> extract_offset h (make_handle h 3 100) = word_of_nat 100"
proof -
  from helper_128 obtain h where h: "make_pool_helper options_128 = Some h" by blast
  have "pool_capacity options_128 \<noteq> 0" by (simp add: options_128_def)
  from offsets_need_power_of_two [OF h this] have "\<forall>idx off. off < unat (pool_capacity options_128) \<longrightarrow>
      extract_offset h (make_handle h idx off) = word_of_nat off"
    by (auto intro!: exI [of _ 7] simp: options_128_def)
  then have "extract_offset h (make_handle h 3 100) = word_of_nat 100" by (simp add: options_128_def)
  with h show ?thesis by blast
qed

end
