(* ===== verification/Lock_Helpers.thy ===== *)
theory Lock_Helpers imports Prelude begin

text \<open>
  \<open>spinlock\<close> (source/taskete/lock_helpers.hpp): one atomic flag.  \<open>lock\<close> repeats
  \<open>test_and_set\<close> until it finds the flag clear, which may never happen: called by the only
  running thread on a flag that is set, the loop has no result, the value \<open>None\<close>.
\<close>

type_synonym spinlock = bool

definition test_and_set :: "spinlock \<Rightarrow> bool \<times> spinlock" where
  "test_and_set flag = (flag, True)"

partial_function (option) spin_lock :: "spinlock \<Rightarrow> spinlock option" where
  "spin_lock flag = (if fst (test_and_set flag) then spin_lock (snd (test_and_set flag))
                     else Some (snd (test_and_set flag)))"

definition spin_unlock :: "spinlock \<Rightarrow> spinlock" where
  "spin_unlock flag = False"

lemma spin_lock_free [simp, pool_simps]: "spin_lock False = Some True"
  by (simp add: spin_lock.simps test_and_set_def)

lemma spin_lock_result: "spin_lock l = Some r \<Longrightarrow> \<not> l"
proof (rule spin_lock.raw_induct [where P = "\<lambda>l r. \<not> l"])
  fix f l r
  assume IH: "\<And>l r. f l = Some r \<Longrightarrow> \<not> l"
    and eq: "(if fst (test_and_set l) then f (snd (test_and_set l)) else Some (snd (test_and_set l))) = Some r"
  show "\<not> l"
  proof
    assume "l"
    with eq have "f True = Some r" by (simp add: test_and_set_def)
    from IH [OF this] show False by simp
  qed
qed

lemma spin_lock_held [simp, pool_simps]: "spin_lock True = None"
  using spin_lock_result [of True] by (cases "spin_lock True") auto

section \<open>Several threads\<close>

text \<open>
  Threads that call \<open>lock\<close> and \<open>unlock\<close> on one spinlock.  Each \<open>test_and_set\<close> is one atomic
  step, so a failing attempt is a step that leaves the thread spinning.
\<close>

datatype lock_pc = Outside | Spinning | Inside

record lock_sys =
  flag :: spinlock
  lock_pcs :: "nat \<Rightarrow> lock_pc"

definition lock_init :: lock_sys where
  "lock_init = \<lparr>flag = False, lock_pcs = (\<lambda>_. Outside)\<rparr>"

inductive lock_step :: "lock_sys \<Rightarrow> lock_sys \<Rightarrow> bool" where
  call: "lock_pcs s i = Outside \<Longrightarrow> lock_step s (s\<lparr>lock_pcs := (lock_pcs s)(i := Spinning)\<rparr>)"
| attempt: "lock_pcs s i = Spinning \<Longrightarrow> test_and_set (flag s) = (old, new) \<Longrightarrow>
    lock_step s (s\<lparr>flag := new, lock_pcs := (lock_pcs s)(i := if old then Spinning else Inside)\<rparr>)"
| release: "lock_pcs s i = Inside \<Longrightarrow>
    lock_step s (s\<lparr>flag := spin_unlock (flag s), lock_pcs := (lock_pcs s)(i := Outside)\<rparr>)"

inductive lock_reachable :: "lock_sys \<Rightarrow> bool" where
  start: "lock_reachable lock_init"
| step: "lock_reachable s \<Longrightarrow> lock_step s t \<Longrightarrow> lock_reachable t"

definition lock_inv :: "lock_sys \<Rightarrow> bool" where
  "lock_inv s \<longleftrightarrow> (\<forall>i j. lock_pcs s i = Inside \<and> lock_pcs s j = Inside \<longrightarrow> i = j)
     \<and> (flag s \<longleftrightarrow> (\<exists>i. lock_pcs s i = Inside))"

lemma lock_step_inv: "lock_step s t \<Longrightarrow> lock_inv s \<Longrightarrow> lock_inv t"
proof (induction rule: lock_step.induct)
  case (call s i)
  then show ?case unfolding lock_inv_def by simp (metis lock_pc.distinct(3))
next
  case (attempt s i old new)
  then show ?case unfolding lock_inv_def by (simp add: test_and_set_def) (metis lock_pc.distinct(5))
next
  case (release s i)
  then show ?case unfolding lock_inv_def by (simp add: spin_unlock_def) (metis lock_pc.distinct(3))
qed

lemma lock_reachable_inv: "lock_reachable s \<Longrightarrow> lock_inv s"
proof (induction rule: lock_reachable.induct)
  case start
  show ?case by (simp add: lock_inv_def lock_init_def)
next
  case (step s t)
  then show ?case by (blast intro: lock_step_inv)
qed

section \<open>Properties\<close>

text \<open>
  spinlock is a mutual exclusion lock: in every state that threads reach by calling lock and
  unlock (unlock only from inside), at most one thread is between its lock and its unlock, and
  the flag is set exactly when one is, so a free lock is never refused and a held one never given.
\<close>

theorem spinlock_mutual_exclusion:
  assumes "lock_reachable s"
  shows "(lock_pcs s i = Inside \<and> lock_pcs s j = Inside \<longrightarrow> i = j)
    \<and> (flag s \<longleftrightarrow> (\<exists>i. lock_pcs s i = Inside))"
  using lock_reachable_inv [OF assms] unfolding lock_inv_def by blast

lemma lock_reachable_example:
  "lock_reachable (lock_init\<lparr>flag := True, lock_pcs := (\<lambda>_. Outside)(3 := Inside)\<rparr>)"
proof -
  have "lock_step lock_init (lock_init\<lparr>lock_pcs := (lock_pcs lock_init)(3 := Spinning)\<rparr>)"
    by (rule lock_step.call) (simp add: lock_init_def)
  then have r: "lock_reachable (lock_init\<lparr>lock_pcs := (lock_pcs lock_init)(3 := Spinning)\<rparr>)"
    by (rule lock_reachable.step [OF lock_reachable.start])
  have "lock_step (lock_init\<lparr>lock_pcs := (lock_pcs lock_init)(3 := Spinning)\<rparr>)
      (lock_init\<lparr>flag := True, lock_pcs := (\<lambda>_. Outside)(3 := Inside)\<rparr>)"
    using lock_step.attempt [of "lock_init\<lparr>lock_pcs := (lock_pcs lock_init)(3 := Spinning)\<rparr>" 3 False True]
    by (simp add: test_and_set_def lock_init_def)
  with r show ?thesis by (rule lock_reachable.step)
qed

theorem spinlock_mutual_exclusion_witness:
  "\<exists>s. lock_reachable s \<and> lock_pcs s 3 = Inside \<and> flag s"
proof -
  let ?s = "lock_init\<lparr>flag := True, lock_pcs := (\<lambda>_. Outside)(3 := Inside)\<rparr>"
  have "lock_pcs ?s 3 = Inside" by simp
  then have "flag ?s" using spinlock_mutual_exclusion [OF lock_reachable_example, of 3 3] by blast
  with lock_reachable_example \<open>lock_pcs ?s 3 = Inside\<close> show ?thesis by blast
qed

end
