(* ===== verification/Pool_Manager.thy ===== *)
theory Pool_Manager imports Pool_Helper Lock_Helpers Memory_Resource begin

text \<open>
  \<open>pool_manager\<close> (source/taskete/pool_manager.hpp): pools of equal blocks, each with an intrusive
  list of its free blocks, and handles instead of pointers.

  A pool's memory is a list of blocks of \<open>sizeof(T)\<close> bytes; a pointer into it is a block index.  A
  block is uninitialised memory, a \<open>free_list\<close> node (whose \<open>next\<close> is again a block index), or a live
  object.  The model assumes that a node fits into a block, that is
  \<open>sizeof(free_list) <= sizeof(T)\<close>, which the code does not check.
\<close>

datatype 'a block = Raw | Free_node (node_next: "nat option") | Object 'a

record 'a pool =
  raw_mem :: address
  blocks :: "'a block list"
  pool_head :: "nat option"
  mtx :: spinlock

text \<open>
  The members of the class, with the constants \<open>sizeof(T)\<close>, \<open>alignof(T)\<close> and
  \<open>is_trivially_destructible_v<T>\<close> of its template argument and the state of its memory resource.
  The member \<open>pools\<close> is a \<open>std::pmr::vector\<close> on the same resource: \<open>vec_mem\<close> and \<open>vec_cap\<close> are its
  storage and capacity, and \<open>vec_growth\<close> gives its next capacity, which the standard library chooses.
  The \<open>pool\<close> objects come from the global heap: \<open>heap_left\<close> of them can still be had.
\<close>

record 'a pool_manager =
  pools :: "'a pool list"
  vec_mem :: address
  vec_cap :: nat
  vec_growth :: "nat \<Rightarrow> nat"
  heap_left :: nat
  options :: pool_options
  helper :: pool_helper
  resource :: mem_res
  type_size :: nat
  type_align :: nat
  trivially_destructible :: bool

section \<open>The free list of a pool\<close>

text \<open>The loop of \<open>populate_list\<close>; \<open>current\<close> is the last node of the list so far.\<close>

function populate_loop :: "nat \<Rightarrow> nat \<Rightarrow> nat \<Rightarrow> 'a block list \<Rightarrow> 'a block list option" where
  "populate_loop i cnt current bs =
     (if i < cnt
      then (case write_cell bs i (Free_node None) of
              None \<Rightarrow> None
            | Some bs1 \<Rightarrow>
                (case write_cell bs1 current (Free_node (Some i)) of
                   None \<Rightarrow> None
                 | Some bs2 \<Rightarrow> populate_loop (i + 1) cnt i bs2))
      else Some bs)"
  by pat_completeness auto
termination
  by (relation "measure (\<lambda>(i, cnt, current, bs). cnt - i)") auto

declare populate_loop.simps [simp del]

definition populate_list :: "pool_options \<Rightarrow> 'a pool \<Rightarrow> 'a pool option" where
  "populate_list opts p =
     (case write_cell (blocks p) 0 (Free_node None) of
        None \<Rightarrow> None
      | Some bs \<Rightarrow>
          map_option (\<lambda>bs'. p\<lparr>blocks := bs', pool_head := Some 0\<rparr>)
            (populate_loop 1 (unat (pool_capacity opts)) 0 bs))"

text \<open>\<open>while (node->next && node->next < new_node) node = node->next;\<close>\<close>

partial_function (option) free_walk :: "'a block list \<Rightarrow> nat \<Rightarrow> nat \<Rightarrow> nat outcome" where
  "free_walk bs node new_node =
     (if node < length bs
      then (case bs ! node of
              Free_node nxt \<Rightarrow>
                (case nxt of
                   None \<Rightarrow> returns node
                 | Some n \<Rightarrow> if n < new_node then free_walk bs n new_node else returns node)
            | _ \<Rightarrow> fails Undefined)
      else fails Undefined)"

definition mark_as_free :: "'a pool \<Rightarrow> nat \<Rightarrow> 'a pool outcome" where
  "mark_as_free p obj =
     (case spin_lock (mtx p) of
        None \<Rightarrow> None
      | Some l \<Rightarrow>
          obind (defined_or_undef (write_cell (blocks p) obj (Free_node None))) (\<lambda>bs.
            case pool_head p of
              None \<Rightarrow> returns (p\<lparr>blocks := bs, pool_head := Some obj, mtx := spin_unlock l\<rparr>)
            | Some first \<Rightarrow>
                obind (free_walk bs first obj) (\<lambda>node.
                  returns (p\<lparr>blocks := bs[obj := Free_node (node_next (bs ! node)),
                                            node := Free_node (Some obj)],
                             mtx := spin_unlock l\<rparr>))))"

section \<open>The manager\<close>

definition make_pool_manager ::
  "nat \<Rightarrow> nat \<Rightarrow> bool \<Rightarrow> (nat \<Rightarrow> nat) \<Rightarrow> nat \<Rightarrow> pool_options \<Rightarrow> mem_res \<Rightarrow> 'a pool_manager option" where
  "make_pool_manager szT alT triv growth heap opts res =
     map_option (\<lambda>h. \<lparr>pools = [], vec_mem = 0, vec_cap = 0, vec_growth = growth, heap_left = heap,
                      options = opts, helper = h, resource = res, type_size = szT,
                      type_align = alT, trivially_destructible = triv\<rparr>) (make_pool_helper opts)"

text \<open>\<open>std::find_if\<close> over the pools, for one whose \<open>head\<close> is not null.\<close>

fun find_pool :: "'a pool list \<Rightarrow> nat option" where
  "find_pool [] = None"
| "find_pool (p # ps) = (if pool_head p \<noteq> None then Some 0 else map_option Suc (find_pool ps))"

text \<open>
  Room for one more element in the vector: its storage is replaced when it is full.  \<open>None\<close> inside is
  the \<open>bad_alloc\<close> of the resource.
\<close>

definition ptr_bytes :: nat where "ptr_bytes = 8"

definition grow_vector :: "'a pool_manager \<Rightarrow> 'a pool_manager option outcome" where
  "grow_vector pm =
     (if length (pools pm) < vec_cap pm then returns (Some pm)
      else
        let c = vec_growth pm (vec_cap pm) in
        case allocate (c * ptr_bytes) ptr_bytes (resource pm) of
          None \<Rightarrow> returns None
        | Some (a, res) \<Rightarrow>
            obind (if vec_cap pm = 0 then returns res
                   else defined_or_undef (deallocate (vec_mem pm) (vec_cap pm * ptr_bytes) ptr_bytes res)) (\<lambda>res'.
              returns (Some (pm\<lparr>vec_mem := a, vec_cap := c, resource := res'\<rparr>))))"

text \<open>
  The exception \<open>bad_alloc\<close> (\<open>None\<close> in the first component) leaves a state behind: the pool object, and
  the memory of its blocks, stay allocated when a later step throws.
\<close>

definition find_or_create_pool :: "'a pool_manager \<Rightarrow> (nat option \<times> 'a pool_manager) outcome" where
  "find_or_create_pool pm =
     (case find_pool (pools pm) of
        Some i \<Rightarrow> returns (Some i, pm)
      | None \<Rightarrow>
          (if length (pools pm) = unat (max_pools (options pm)) \<or> heap_left pm = 0 then returns (None, pm)
           else
             let cnt = unat (pool_capacity (options pm)); pm1 = pm\<lparr>heap_left := heap_left pm - 1\<rparr> in
             case allocate (cnt * type_size pm) (type_align pm) (resource pm) of
               None \<Rightarrow> returns (None, pm1)
             | Some (mem, res) \<Rightarrow>
                 obind (defined_or_undef (populate_list (options pm)
                     \<lparr>raw_mem = mem, blocks = replicate cnt Raw, pool_head = None, mtx = False\<rparr>)) (\<lambda>p.
                   obind (grow_vector (pm1\<lparr>resource := res\<rparr>)) (\<lambda>grown.
                     case grown of
                       None \<Rightarrow> returns (None, pm1\<lparr>resource := res\<rparr>)
                     | Some pm2 \<Rightarrow> returns (Some (length (pools pm)), pm2\<lparr>pools := pools pm2 @ [p]\<rparr>)))))"

text \<open>The critical section of \<open>construct\<close>: take the first free block.  A null head is dereferenced.\<close>

definition pop_free :: "'a pool \<Rightarrow> (nat \<times> 'a pool) outcome" where
  "pop_free p =
     (case spin_lock (mtx p) of
        None \<Rightarrow> None
      | Some l \<Rightarrow>
          (case pool_head p of
             None \<Rightarrow> fails Undefined
           | Some free_pos \<Rightarrow>
               obind (defined_or_undef (read_cell (blocks p) free_pos)) (\<lambda>b.
                 case b of
                   Free_node nxt \<Rightarrow> returns (free_pos, p\<lparr>pool_head := nxt, mtx := spin_unlock l\<rparr>)
                 | _ \<Rightarrow> fails Undefined)))"

definition construct :: "'a \<Rightarrow> 'a pool_manager \<Rightarrow> (handle_t option \<times> 'a pool_manager) outcome" where
  "construct x pm =
     obind (find_or_create_pool pm) (\<lambda>(found, pm1).
       case found of
         None \<Rightarrow> returns (None, pm1)
       | Some index \<Rightarrow>
           obind (pop_free (pools pm1 ! index)) (\<lambda>(free_pos, p).
             obind (defined_or_undef (write_cell (blocks p) free_pos (Object x))) (\<lambda>bs.
               returns (Some (make_handle (helper pm1) (word_of_nat index) free_pos),
                        pm1\<lparr>pools := (pools pm1)[index := p\<lparr>blocks := bs\<rparr>]\<rparr>))))"

text \<open>\<open>std::begin(pools) + helper.extract_pool(handle)\<close>, dereferenced.\<close>

definition get_pool :: "handle_t \<Rightarrow> 'a pool_manager \<Rightarrow> nat option" where
  "get_pool handle pm =
     (case extract_pool (helper pm) handle of
        None \<Rightarrow> None
      | Some i \<Rightarrow> if unat i < length (pools pm) then Some (unat i) else None)"

definition get :: "handle_t \<Rightarrow> 'a pool_manager \<Rightarrow> 'a option" where
  "get handle pm =
     (case get_pool handle pm of
        None \<Rightarrow> None
      | Some i \<Rightarrow>
          (case read_cell (blocks (pools pm ! i)) (unat (extract_offset (helper pm) handle)) of
             Some (Object x) \<Rightarrow> Some x
           | _ \<Rightarrow> None))"

definition is_object :: "'a block \<Rightarrow> bool" where
  "is_object b = (case b of Object x \<Rightarrow> True | _ \<Rightarrow> False)"

definition destroy :: "handle_t \<Rightarrow> 'a pool_manager \<Rightarrow> 'a pool_manager outcome" where
  "destroy handle pm =
     obind (defined_or_undef (get_pool handle pm)) (\<lambda>i.
       let p = pools pm ! i; obj = unat (extract_offset (helper pm) handle) in
       case spin_lock (mtx p) of
         None \<Rightarrow> None
       | Some l \<Rightarrow>
           obind (if trivially_destructible pm then returns (blocks p)
                  else obind (defined_or_undef (read_cell (blocks p) obj)) (\<lambda>b.
                         if is_object b then returns ((blocks p)[obj := Raw]) else fails Undefined)) (\<lambda>bs.
           obind (mark_as_free (p\<lparr>blocks := bs, mtx := l\<rparr>) obj) (\<lambda>p'.
             returns (pm\<lparr>pools := (pools pm)[i := p'\<lparr>mtx := spin_unlock (mtx p')\<rparr>]\<rparr>))))"

text \<open>
  The destructor: the pools' memory goes back to the resource and the pool object to the heap, one pool
  after the other; then the vector's own destructor frees its storage.
\<close>

fun release_pools :: "nat \<Rightarrow> nat \<Rightarrow> 'a pool list \<Rightarrow> mem_res \<times> nat \<Rightarrow> (mem_res \<times> nat) option" where
  "release_pools bytes al [] st = Some st"
| "release_pools bytes al (p # ps) (res, heap) =
     (case deallocate (raw_mem p) bytes al res of
        None \<Rightarrow> None
      | Some res' \<Rightarrow> release_pools bytes al ps (res', heap + 1))"

definition destroy_manager :: "'a pool_manager \<Rightarrow> (mem_res \<times> nat) option" where
  "destroy_manager pm =
     (case release_pools (unat (pool_capacity (options pm)) * type_size pm) (type_align pm) (pools pm)
             (resource pm, heap_left pm) of
        None \<Rightarrow> None
      | Some (res, heap) \<Rightarrow>
          (if vec_cap pm = 0 then Some (res, heap)
           else map_option (\<lambda>res'. (res', heap)) (deallocate (vec_mem pm) (vec_cap pm * ptr_bytes) ptr_bytes res)))"

section \<open>The free list as a list\<close>

fun chain :: "'a block list \<Rightarrow> nat option \<Rightarrow> nat list \<Rightarrow> bool" where
  "chain bs p [] = (p = None)"
| "chain bs p (x # xs) =
     (p = Some x \<and> x < length bs \<and> (case bs ! x of Free_node nxt \<Rightarrow> chain bs nxt xs | _ \<Rightarrow> False))"

lemma chain_None [simp, pool_simps]: "chain bs None xs \<longleftrightarrow> xs = []"
  by (cases xs) auto

lemma chain_head: "chain bs p xs \<Longrightarrow> p = (case xs of [] \<Rightarrow> None | x # _ \<Rightarrow> Some x)"
  by (cases xs) auto

lemma chain_unique: "chain bs p xs \<Longrightarrow> chain bs p ys \<Longrightarrow> xs = ys"
proof (induction xs arbitrary: p ys)
  case Nil
  then show ?case by simp
next
  case (Cons x xs)
  then show ?case by (cases ys) (auto split: block.splits)
qed

lemma chain_bounds: "chain bs p xs \<Longrightarrow> x \<in> set xs \<Longrightarrow> x < length bs \<and> (\<exists>nxt. bs ! x = Free_node nxt)"
proof (induction xs arbitrary: p)
  case (Cons y ys)
  then show ?case by (auto split: block.splits)
qed simp

lemma chain_frame:
  "chain bs p xs \<Longrightarrow> length bs' = length bs \<Longrightarrow> (\<And>x. x \<in> set xs \<Longrightarrow> bs' ! x = bs ! x) \<Longrightarrow> chain bs' p xs"
proof (induction xs arbitrary: p)
  case (Cons y ys)
  from Cons.prems(1) obtain nxt where "bs ! y = Free_node nxt" "chain bs nxt ys"
    by (auto split: block.splits)
  with Cons.IH [OF this(2)] Cons.prems show ?case by auto
qed simp

text \<open>Where \<open>mark_as_free\<close> puts a block: never before the first one.\<close>

fun insert_free :: "nat \<Rightarrow> nat list \<Rightarrow> nat list" where
  "insert_free x [] = [x]"
| "insert_free x [y] = [y, x]"
| "insert_free x (y # z # zs) = (if z < x then y # insert_free x (z # zs) else y # x # z # zs)"

lemma set_insert_free [simp, pool_simps]: "set (insert_free x xs) = insert x (set xs)"
  by (induction x xs rule: insert_free.induct) auto

lemma distinct_insert_free: "distinct (insert_free x xs) \<longleftrightarrow> x \<notin> set xs \<and> distinct xs"
  by (induction x xs rule: insert_free.induct) auto

lemma insert_free_Cons: "\<exists>zs. insert_free x (y # ys) = y # zs"
  by (cases ys) auto

lemma sorted_insert_free:
  "sorted_wrt (<) (y # ys) \<Longrightarrow> sorted_wrt (<) (insert_free x (y # ys)) \<longleftrightarrow> y < x \<and> x \<notin> set ys"
proof (induction ys arbitrary: y)
  case (Cons z zs)
  show ?case
  proof (cases "z < x")
    case True
    then have "insert_free x (y # z # zs) = y # insert_free x (z # zs)" by simp
    moreover have "y < z" "sorted_wrt (<) (z # zs)" using Cons.prems by simp_all
    ultimately show ?thesis using Cons.IH [of z] True Cons.prems by auto
  next
    case False
    then have "insert_free x (y # z # zs) = y # x # z # zs" by simp
    with Cons.prems False show ?thesis by (auto dest: order_less_trans)
  qed
qed auto

text \<open>The walk stops at the node after which \<open>insert_free\<close> puts the block.\<close>

lemma free_walk_insert:
  assumes "chain bs (Some y) (y # ys)" "distinct (y # ys)" "x < length bs" "x \<notin> set (y # ys)"
  shows "\<exists>node nxt. free_walk bs y x = returns node \<and> node \<in> set (y # ys) \<and> bs ! node = Free_node nxt
    \<and> chain (bs[x := Free_node nxt, node := Free_node (Some x)]) (Some y) (insert_free x (y # ys))"
  using assms
proof (induction ys arbitrary: y)
  case Nil
  then show ?case by (subst free_walk.simps) (auto split: block.splits)
next
  case (Cons z zs)
  from Cons.prems(1) have y: "y < length bs" "bs ! y = Free_node (Some z)" and cz: "chain bs (Some z) (z # zs)"
    by (auto split: block.splits)
  show ?case
  proof (cases "z < x")
    case True
    from Cons.IH [OF cz] Cons.prems obtain node nxt where
      w: "free_walk bs z x = returns node" "node \<in> set (z # zs)" "bs ! node = Free_node nxt"
      and c: "chain (bs[x := Free_node nxt, node := Free_node (Some x)]) (Some z) (insert_free x (z # zs))"
      by auto
    have ne: "node \<noteq> y" "x \<noteq> y" using w(2) Cons.prems by auto
    have "free_walk bs y x = returns node" using w(1) y True by (subst free_walk.simps) simp
    moreover have "chain (bs[x := Free_node nxt, node := Free_node (Some x)]) (Some y) (insert_free x (y # z # zs))"
      using c ne y True by simp
    ultimately show ?thesis using w by (intro exI [of _ node] exI [of _ nxt]) auto
  next
    case False
    have "free_walk bs y x = returns y" using y False by (subst free_walk.simps) simp
    moreover have "chain (bs[x := Free_node (Some z), y := Free_node (Some x)]) (Some z) (z # zs)"
    proof (rule chain_frame [OF cz])
      fix i assume "i \<in> set (z # zs)"
      with Cons.prems(2,4) have "i \<noteq> x" "i \<noteq> y" by auto
      then show "bs[x := Free_node (Some z), y := Free_node (Some x)] ! i = bs ! i" by simp
    qed simp
    then have "chain (bs[x := Free_node (Some z), y := Free_node (Some x)]) (Some y) (insert_free x (y # z # zs))"
      using y False Cons.prems(3,4) by auto
    ultimately show ?thesis using y by (intro exI [of _ y] exI [of _ "Some z"]) auto
  qed
qed

lemma mark_as_free_insert:
  assumes "chain (blocks p) (pool_head p) fs" "distinct fs" "obj < length (blocks p)" "obj \<notin> set fs" "\<not> mtx p"
  shows "\<exists>p'. mark_as_free p obj = returns p' \<and> chain (blocks p') (pool_head p') (insert_free obj fs)
    \<and> \<not> mtx p' \<and> length (blocks p') = length (blocks p)
    \<and> (\<forall>i. i \<notin> insert obj (set fs) \<longrightarrow> blocks p' ! i = blocks p ! i)"
proof -
  define bs where "bs = (blocks p)[obj := Free_node None]"
  have lock: "spin_lock (mtx p) = Some True" using assms(5) by (simp add: spin_lock_free)
  have w: "write_cell (blocks p) obj (Free_node None) = Some bs" using assms(3) by (simp add: write_cell_def bs_def)
  show ?thesis
  proof (cases fs)
    case Nil
    with assms(1) have "pool_head p = None" by simp
    with lock w have "mark_as_free p obj = returns (p\<lparr>blocks := bs, pool_head := Some obj, mtx := spin_unlock True\<rparr>)"
      by (simp add: mark_as_free_def)
    with Nil assms(3) show ?thesis by (auto simp: bs_def spin_unlock_def)
  next
    case (Cons y ys)
    with assms(1) have ph: "pool_head p = Some y" by simp
    have c: "chain bs (Some y) (y # ys)"
    proof (rule chain_frame)
      show "chain (blocks p) (Some y) (y # ys)" using assms(1) Cons ph by simp
    next
      fix i assume "i \<in> set (y # ys)"
      with assms(4) Cons have "i \<noteq> obj" by auto
      then show "bs ! i = blocks p ! i" by (simp add: bs_def)
    qed (simp add: bs_def)
    have "distinct (y # ys)" "obj < length bs" "obj \<notin> set (y # ys)" using assms Cons by (simp_all add: bs_def)
    from free_walk_insert [OF c this] obtain node nxt where
      n: "free_walk bs y obj = returns node" "node \<in> set fs" "bs ! node = Free_node nxt"
        "chain (bs[obj := Free_node nxt, node := Free_node (Some obj)]) (Some y) (insert_free obj fs)"
      using Cons by blast
    have "mark_as_free p obj = returns (p\<lparr>blocks := bs[obj := Free_node nxt, node := Free_node (Some obj)],
        mtx := spin_unlock True\<rparr>)"
      using lock w ph n by (simp add: mark_as_free_def)
    moreover have "bs[obj := Free_node nxt, node := Free_node (Some obj)] ! i = blocks p ! i"
      if "i \<notin> insert obj (set fs)" for i
    proof -
      from that n(2) have "i \<noteq> obj" "i \<noteq> node" by auto
      then show ?thesis by (simp add: bs_def)
    qed
    ultimately show ?thesis using n(4) ph by (auto simp: spin_unlock_def bs_def)
  qed
qed

section \<open>The state of the manager\<close>

definition pool_ok :: "nat \<Rightarrow> 'a pool \<Rightarrow> bool" where
  "pool_ok cap p \<longleftrightarrow> length (blocks p) = cap \<and> \<not> mtx p
     \<and> (\<exists>fs. chain (blocks p) (pool_head p) fs \<and> distinct fs
          \<and> (\<forall>i < cap. i \<notin> set fs \<longrightarrow> is_object (blocks p ! i)))"

definition manager_ok :: "nat \<Rightarrow> 'a pool_manager \<Rightarrow> bool" where
  "manager_ok np pm \<longleftrightarrow> (\<forall>p \<in> set (pools pm). pool_ok (unat (pool_capacity (options pm))) p)
     \<and> length (pools pm) \<le> unat (max_pools (options pm)) \<and> unat (max_pools (options pm)) \<le> np
     \<and> codec_ok np (unat (pool_capacity (options pm))) (helper pm)"

definition pool_bytes :: "'a pool_manager \<Rightarrow> nat" where
  "pool_bytes pm = unat (pool_capacity (options pm)) * type_size pm"

text \<open>
  What the manager owns of its resource, on top of the blocks \<open>base\<close> of others: the storage of the vector
  and the memory of the pools, out of a quota of \<open>q0\<close> bytes; and its pools are taken from \<open>n0\<close> objects
  of the global heap.
\<close>

definition vector_block :: "address \<Rightarrow> nat \<Rightarrow> block_list" where
  "vector_block a c = (if c = 0 then [] else [(a, c * ptr_bytes, ptr_bytes)])"

definition pool_blocks :: "'a pool_manager \<Rightarrow> block_list" where
  "pool_blocks pm = map (\<lambda>p. (raw_mem p, pool_bytes pm, type_align pm)) (pools pm)"

definition memory_ok :: "(address \<rightharpoonup> nat \<times> nat) \<Rightarrow> nat \<Rightarrow> nat \<Rightarrow> 'a pool_manager \<Rightarrow> bool" where
  "memory_ok base q0 n0 pm \<longleftrightarrow> 0 < type_align pm \<and> (\<forall>n. n < vec_growth pm n)
     \<and> owns base (pool_blocks pm @ vector_block (vec_mem pm) (vec_cap pm)) (resource pm)
     \<and> quota (resource pm) + length (pools pm) * pool_bytes pm + vec_cap pm * ptr_bytes = q0
     \<and> length (pools pm) \<le> vec_cap pm \<and> heap_left pm + length (pools pm) = n0"

lemma allocate_quota: "allocate n al r = Some (a, r') \<Longrightarrow> quota r' + n = quota r"
  by (auto simp: allocate_def Let_def split: if_splits)

lemma deallocate_quota: "deallocate p n al r = Some r' \<Longrightarrow> quota r' = quota r + n"
  by (auto simp: deallocate_def split: if_splits)

lemma owns_shift:
  assumes "owns base (bl @ b # bl') r"
  shows "owns base (b # bl @ bl') r"
  by (rule owns_perm [OF assms]) simp

text \<open>The vector gets its room unless it is full and the resource refuses the new storage.\<close>

lemma grow_vector_spec:
  assumes own: "owns base (bl @ vector_block (vec_mem pm) (vec_cap pm)) (resource pm)"
    and gr: "\<forall>n. n < vec_growth pm n" and le: "length (pools pm) \<le> vec_cap pm"
  shows "if length (pools pm) < vec_cap pm \<or> vec_growth pm (vec_cap pm) * ptr_bytes \<le> quota (resource pm)
    then \<exists>a c res. grow_vector pm = returns (Some (pm\<lparr>vec_mem := a, vec_cap := c, resource := res\<rparr>))
      \<and> length (pools pm) < c \<and> owns base (bl @ vector_block a c) res
      \<and> quota res + c * ptr_bytes = quota (resource pm) + vec_cap pm * ptr_bytes
      \<and> (c = vec_cap pm \<or> vec_cap pm = length (pools pm) \<and> c = vec_growth pm (vec_cap pm))
    else grow_vector pm = returns None"
proof (cases "length (pools pm) < vec_cap pm")
  case True
  then have "grow_vector pm =
      returns (Some (pm\<lparr>vec_mem := vec_mem pm, vec_cap := vec_cap pm, resource := resource pm\<rparr>))"
    by (simp add: grow_vector_def)
  moreover have "length (pools pm) < vec_cap pm \<or> vec_growth pm (vec_cap pm) * ptr_bytes \<le> quota (resource pm)"
    using True by simp
  ultimately show ?thesis using True own by (simp only: if_True) blast
next
  case False
  define c where "c = vec_growth pm (vec_cap pm)"
  have c: "vec_cap pm < c" using gr by (simp add: c_def)
  show ?thesis
  proof (cases "c * ptr_bytes \<le> quota (resource pm)")
    case no: False
    then show ?thesis using False by (simp add: grow_vector_def c_def [symmetric] allocate_fails)
  next
    case True
    from allocate_enough [OF True] obtain a r1 where
      al: "allocate (c * ptr_bytes) ptr_bytes (resource pm) = Some (a, r1)" by blast
    have o1: "owns base ((a, c * ptr_bytes, ptr_bytes) # bl @ vector_block (vec_mem pm) (vec_cap pm)) r1"
      using owns_alloc [OF own _ al] by (simp add: ptr_bytes_def)
    have vb: "vector_block a c = [(a, c * ptr_bytes, ptr_bytes)]" using c by (simp add: vector_block_def)
    have cond: "length (pools pm) < vec_cap pm \<or> vec_growth pm (vec_cap pm) * ptr_bytes \<le> quota (resource pm)"
      using True by (simp add: c_def)
    have rest: "length (pools pm) < c" "vec_cap pm = length (pools pm) \<and> c = vec_growth pm (vec_cap pm)"
      using False le c by (simp_all add: c_def)
    show ?thesis
    proof (cases "vec_cap pm = 0")
      case z: True
      with o1 have "owns base (bl @ vector_block a c) r1"
        unfolding vb by (intro owns_perm [OF o1]) (simp add: vector_block_def)
      moreover have "grow_vector pm = returns (Some (pm\<lparr>vec_mem := a, vec_cap := c, resource := r1\<rparr>))"
        using False z al by (simp add: grow_vector_def c_def Let_def)
      moreover have "quota r1 + c * ptr_bytes = quota (resource pm) + vec_cap pm * ptr_bytes"
        using z allocate_quota [OF al] by simp
      ultimately show ?thesis using cond rest by (simp only: if_True) blast
    next
      case nz: False
      have "owns base ((vec_mem pm, vec_cap pm * ptr_bytes, ptr_bytes) # bl @ vector_block a c) r1"
        by (rule owns_perm [OF o1]) (simp add: vb, simp add: vector_block_def nz)
      from owns_dealloc [OF this] obtain r2 where
        r2: "deallocate (vec_mem pm) (vec_cap pm * ptr_bytes) ptr_bytes r1 = Some r2"
          "owns base (bl @ vector_block a c) r2" by blast
      moreover have "grow_vector pm = returns (Some (pm\<lparr>vec_mem := a, vec_cap := c, resource := r2\<rparr>))"
        using False nz al r2(1) by (simp add: grow_vector_def c_def [symmetric] Let_def)
      moreover have "quota r2 + c * ptr_bytes = quota (resource pm) + vec_cap pm * ptr_bytes"
        using allocate_quota [OF al] deallocate_quota [OF r2(1)] by simp
      ultimately show ?thesis using cond rest by (simp only: if_True) blast
    qed
  qed
qed

lemma codec_ok_pos: "codec_ok np cap h \<Longrightarrow> 0 < cap"
  by (auto simp: codec_ok_def)

lemma chain_upt:
  "s < n \<Longrightarrow> n \<le> length bs \<Longrightarrow> (\<And>i. s \<le> i \<Longrightarrow> Suc i < n \<Longrightarrow> bs ! i = Free_node (Some (Suc i)))
    \<Longrightarrow> bs ! (n - 1) = Free_node None \<Longrightarrow> chain bs (Some s) [s..<n]"
proof (induction "n - s" arbitrary: s)
  case (Suc k)
  show ?case
  proof (cases "Suc s < n")
    case True
    then have "chain bs (Some (Suc s)) [Suc s..<n]" using Suc by auto
    moreover have "bs ! s = Free_node (Some (Suc s))" using Suc.prems(3) True by simp
    ultimately show ?thesis using Suc.prems by (subst upt_conv_Cons) simp_all
  next
    case False
    with Suc.prems have "n = Suc s" by simp
    with Suc.prems show ?thesis by simp
  qed
qed simp

lemma populate_loop_spec:
  assumes "i = Suc c" "i \<le> n" "length bs = n" "\<And>j. j < c \<Longrightarrow> bs ! j = Free_node (Some (Suc j))"
    "bs ! c = Free_node None"
  shows "\<exists>bs'. populate_loop i n c bs = Some bs' \<and> length bs' = n
    \<and> (\<forall>j. Suc j < n \<longrightarrow> bs' ! j = Free_node (Some (Suc j))) \<and> bs' ! (n - 1) = Free_node None"
  using assms
proof (induction i n c bs rule: populate_loop.induct)
  case (1 i n c bs)
  show ?case
  proof (cases "i < n")
    case False
    with "1.prems" have "n - 1 = c" by simp
    with "1.prems" False show ?thesis by (subst populate_loop.simps) auto
  next
    case True
    define bs1 where "bs1 = bs[i := Free_node None]"
    define bs2 where "bs2 = bs1[c := Free_node (Some i)]"
    have w: "write_cell bs i (Free_node None) = Some bs1" "write_cell bs1 c (Free_node (Some i)) = Some bs2"
      using True "1.prems" by (simp_all add: write_cell_def bs1_def bs2_def)
    have nth: "bs2 ! j = Free_node (Some (Suc j))" if "j < i" for j
      using that True "1.prems" by (cases "j = c") (auto simp: bs1_def bs2_def)
    have last: "bs2 ! i = Free_node None" "length bs2 = n"
      using True "1.prems" by (auto simp: bs1_def bs2_def)
    from "1.IH" [OF True w _ _ last(2) nth last(1)] True obtain bs' where
      "populate_loop (i + 1) n i bs2 = Some bs'" "length bs' = n"
      "\<forall>j. Suc j < n \<longrightarrow> bs' ! j = Free_node (Some (Suc j))" "bs' ! (n - 1) = Free_node None"
      by auto
    then show ?thesis using True w by (subst populate_loop.simps) simp
  qed
qed

text \<open>A new pool: every block is on the free list, in the order of the addresses.\<close>

lemma populate_list_chain:
  assumes "length (blocks p) = unat (pool_capacity opts)" "0 < unat (pool_capacity opts)"
  shows "\<exists>p'. populate_list opts p = Some p' \<and> raw_mem p' = raw_mem p \<and> mtx p' = mtx p
    \<and> length (blocks p') = unat (pool_capacity opts) \<and> pool_head p' = Some 0
    \<and> chain (blocks p') (pool_head p') [0..<unat (pool_capacity opts)]"
proof -
  define n where "n = unat (pool_capacity opts)"
  have w: "write_cell (blocks p) 0 (Free_node None) = Some ((blocks p)[0 := Free_node None])"
    using assms by (simp add: write_cell_def)
  from populate_loop_spec [of 1 0 n "(blocks p)[0 := Free_node None]"] assms obtain bs' where
    b: "populate_loop 1 n 0 ((blocks p)[0 := Free_node None]) = Some bs'" "length bs' = n"
      "\<forall>j. Suc j < n \<longrightarrow> bs' ! j = Free_node (Some (Suc j))" "bs' ! (n - 1) = Free_node None"
    by (auto simp: n_def)
  have "chain bs' (Some 0) [0..<n]" using b assms(2) by (intro chain_upt) (auto simp: n_def)
  with w b show ?thesis by (auto simp: populate_list_def n_def)
qed

lemma find_pool_Some: "find_pool ps = Some i \<Longrightarrow> i < length ps \<and> pool_head (ps ! i) \<noteq> None"
  by (induction ps arbitrary: i) (auto split: if_splits)

lemma find_pool_None: "find_pool ps = None \<longleftrightarrow> (\<forall>p \<in> set ps. pool_head p = None)"
  by (induction ps) auto

text \<open>Taking a block from a pool that has one, and building an object in it.\<close>

lemma pop_free_ok:
  assumes "pool_ok cap p" "pool_head p = Some b"
  shows "\<exists>nxt. b < cap \<and> pop_free p = returns (b, p\<lparr>pool_head := nxt, mtx := False\<rparr>) \<and> \<not> is_object (blocks p ! b)
    \<and> pool_ok cap (p\<lparr>pool_head := nxt, mtx := False, blocks := (blocks p)[b := Object x]\<rparr>)"
proof -
  from assms(1) obtain fs where fs: "length (blocks p) = cap" "\<not> mtx p"
    "chain (blocks p) (pool_head p) fs" "distinct fs" "\<forall>i < cap. i \<notin> set fs \<longrightarrow> is_object (blocks p ! i)"
    by (auto simp: pool_ok_def)
  from fs(3) assms(2) obtain gs nxt where gs: "fs = b # gs" "b < cap" "blocks p ! b = Free_node nxt"
    "chain (blocks p) nxt gs"
    using fs(1) by (cases fs) (auto split: block.splits)
  have "chain ((blocks p)[b := Object x]) nxt gs"
  proof (rule chain_frame [OF gs(4)])
    fix i assume "i \<in> set gs"
    with fs(4) gs(1) have "i \<noteq> b" by auto
    then show "(blocks p)[b := Object x] ! i = blocks p ! i" by simp
  qed simp
  moreover have "is_object ((blocks p)[b := Object x] ! i)" if "i < cap" "i \<notin> set gs" for i
    using that fs(1,5) gs(1) by (cases "i = b") (simp_all add: is_object_def)
  ultimately have "pool_ok cap (p\<lparr>pool_head := nxt, mtx := False, blocks := (blocks p)[b := Object x]\<rparr>)"
    using fs(1,4) gs(1) by (auto simp: pool_ok_def)
  moreover have "pop_free p = returns (b, p\<lparr>pool_head := nxt, mtx := False\<rparr>)"
    using fs(1,2) assms(2) gs by (simp add: pop_free_def spin_lock_free read_cell_def spin_unlock_def)
  ultimately show ?thesis using gs by (auto simp: is_object_def)
qed

section \<open>The manager as a table of objects\<close>

text \<open>The object in block \<open>b\<close> of pool \<open>i\<close>: the abstraction that the operations are specified by.\<close>

definition object_at :: "'a pool_manager \<Rightarrow> nat \<Rightarrow> nat \<Rightarrow> 'a option" where
  "object_at pm i b =
     (if i < length (pools pm)
      then (case read_cell (blocks (pools pm ! i)) b of Some (Object x) \<Rightarrow> Some x | _ \<Rightarrow> None)
      else None)"

lemma get_object_at:
  "get h pm = Option.bind (extract_pool (helper pm) h)
     (\<lambda>i. object_at pm (unat i) (unat (extract_offset (helper pm) h)))"
  by (simp add: get_def get_pool_def object_at_def split: option.splits)

definition can_construct :: "'a pool_manager \<Rightarrow> bool" where
  "can_construct pm \<longleftrightarrow> (\<exists>p \<in> set (pools pm). pool_head p \<noteq> None)
     \<or> (length (pools pm) < unat (max_pools (options pm)) \<and> 0 < heap_left pm
        \<and> pool_bytes pm \<le> quota (resource pm)
        \<and> (length (pools pm) < vec_cap pm
            \<or> pool_bytes pm + vec_growth pm (vec_cap pm) * ptr_bytes \<le> quota (resource pm)))"

text \<open>What a \<open>bad_alloc\<close> leaves: nothing is lost, or a pool object, or a pool object and a pool's memory.\<close>

definition after_bad_alloc ::
  "(address \<rightharpoonup> nat \<times> nat) \<Rightarrow> nat \<Rightarrow> nat \<Rightarrow> 'a pool_manager \<Rightarrow> 'a pool_manager \<Rightarrow> bool" where
  "after_bad_alloc base q0 n0 pm pm' \<longleftrightarrow>
     (if length (pools pm) = unat (max_pools (options pm)) \<or> heap_left pm = 0 then pm' = pm \<and> memory_ok base q0 n0 pm'
      else if quota (resource pm) < pool_bytes pm then memory_ok base q0 (n0 - 1) pm'
      else \<exists>a. base a = None
             \<and> memory_ok (base(a \<mapsto> (pool_bytes pm, type_align pm))) (q0 - pool_bytes pm) (n0 - 1) pm')"

definition same_setup :: "'a pool_manager \<Rightarrow> 'a pool_manager \<Rightarrow> bool" where
  "same_setup pm' pm \<longleftrightarrow> options pm' = options pm \<and> helper pm' = helper pm \<and> type_size pm' = type_size pm
     \<and> type_align pm' = type_align pm \<and> vec_growth pm' = vec_growth pm"

lemma can_construct_iff:
  "can_construct pm \<longleftrightarrow> find_pool (pools pm) \<noteq> None
     \<or> (length (pools pm) < unat (max_pools (options pm)) \<and> 0 < heap_left pm
        \<and> pool_bytes pm \<le> quota (resource pm)
        \<and> (length (pools pm) < vec_cap pm
            \<or> pool_bytes pm + vec_growth pm (vec_cap pm) * ptr_bytes \<le> quota (resource pm)))"
  using find_pool_None [of "pools pm"] by (auto simp: can_construct_def)

text \<open>A new pool and the memory behind it.\<close>

lemma new_pool:
  assumes codec: "codec_ok np (unat (pool_capacity (options pm))) (helper pm)" and mem: "memory_ok base q0 n0 pm"
    and room: "length (pools pm) < unat (max_pools (options pm))" "0 < heap_left pm" "find_pool (pools pm) = None"
    and q: "pool_bytes pm \<le> quota (resource pm)"
  shows "\<exists>a r1 p. owns base ((a, pool_bytes pm, type_align pm) # pool_blocks pm
        @ vector_block (vec_mem pm) (vec_cap pm)) r1
    \<and> quota r1 + pool_bytes pm = quota (resource pm) \<and> raw_mem p = a
    \<and> pool_ok (unat (pool_capacity (options pm))) p \<and> pool_head p \<noteq> None
    \<and> (\<forall>b c. read_cell (blocks p) b = Some c \<longrightarrow> (\<exists>n. c = Free_node n))
    \<and> find_or_create_pool pm =
        obind (grow_vector (pm\<lparr>heap_left := heap_left pm - 1, resource := r1\<rparr>)) (\<lambda>grown.
          case grown of
            None \<Rightarrow> returns (None, pm\<lparr>heap_left := heap_left pm - 1, resource := r1\<rparr>)
          | Some pm2 \<Rightarrow> returns (Some (length (pools pm)), pm2\<lparr>pools := pools pm2 @ [p]\<rparr>))"
proof -
  define cap where "cap = unat (pool_capacity (options pm))"
  from allocate_enough [OF q] obtain a r1 where
    al: "allocate (pool_bytes pm) (type_align pm) (resource pm) = Some (a, r1)" by blast
  have own: "owns base ((a, pool_bytes pm, type_align pm) # pool_blocks pm
      @ vector_block (vec_mem pm) (vec_cap pm)) r1"
    using owns_alloc [OF _ _ al] mem by (simp add: memory_ok_def)
  define q :: "'a pool" where "q = \<lparr>raw_mem = a, blocks = replicate cap Raw, pool_head = None, mtx = False\<rparr>"
  from populate_list_chain [of q "options pm"] codec_ok_pos [OF codec] obtain p where
    p: "populate_list (options pm) q = Some p" "raw_mem p = a" "\<not> mtx p" "length (blocks p) = cap"
      "pool_head p = Some 0" "chain (blocks p) (pool_head p) [0..<cap]"
    by (auto simp: q_def cap_def)
  have "pool_ok cap p" using p by (auto simp: pool_ok_def)
  moreover have "\<exists>n. c = Free_node n" if "read_cell (blocks p) b = Some c" for b c
    using chain_bounds [OF p(6), of b] p(4) that by (auto simp: read_cell_def split: if_splits)
  moreover have "find_or_create_pool pm =
      obind (grow_vector (pm\<lparr>heap_left := heap_left pm - 1, resource := r1\<rparr>)) (\<lambda>grown.
        case grown of
          None \<Rightarrow> returns (None, pm\<lparr>heap_left := heap_left pm - 1, resource := r1\<rparr>)
        | Some pm2 \<Rightarrow> returns (Some (length (pools pm)), pm2\<lparr>pools := pools pm2 @ [p]\<rparr>))"
    using room al p(1)
    by (simp add: find_or_create_pool_def pool_bytes_def Let_def q_def cap_def del: One_nat_def)
  ultimately show ?thesis using own allocate_quota [OF al] p(2,5) by (auto simp: cap_def)
qed

lemma find_or_create_spec:
  assumes ok: "manager_ok np pm" and mem: "memory_ok base q0 n0 pm"
  shows "if can_construct pm
    then \<exists>i pm1. find_or_create_pool pm = returns (Some i, pm1) \<and> i < length (pools pm1)
      \<and> pool_head (pools pm1 ! i) \<noteq> None \<and> manager_ok np pm1 \<and> memory_ok base q0 n0 pm1
      \<and> same_setup pm1 pm \<and> object_at pm1 = object_at pm
      \<and> (vec_cap pm1 = vec_cap pm \<and> pools pm1 = pools pm
          \<or> length (pools pm1) = Suc (length (pools pm))
            \<and> (vec_cap pm1 = vec_cap pm \<or> vec_cap pm1 = vec_growth pm (length (pools pm))))
    else \<exists>pm1. find_or_create_pool pm = returns (None, pm1) \<and> pools pm1 = pools pm
      \<and> same_setup pm1 pm \<and> after_bad_alloc base q0 n0 pm pm1"
proof (cases "find_pool (pools pm)")
  case (Some i)
  then have "find_or_create_pool pm = returns (Some i, pm)" by (simp add: find_or_create_pool_def)
  moreover have "can_construct pm" using Some by (simp add: can_construct_iff)
  ultimately show ?thesis using find_pool_Some [OF Some] ok mem by (simp add: same_setup_def)
next
  case None
  have le: "length (pools pm) \<le> unat (max_pools (options pm))"
    and codec: "codec_ok np (unat (pool_capacity (options pm))) (helper pm)"
    using ok by (simp_all add: manager_ok_def)
  show ?thesis
  proof (cases "length (pools pm) = unat (max_pools (options pm)) \<or> heap_left pm = 0")
    case True
    then have "find_or_create_pool pm = returns (None, pm)" using None by (auto simp: find_or_create_pool_def)
    with True None mem show ?thesis by (auto simp: can_construct_iff after_bad_alloc_def same_setup_def)
  next
    case False
    then have room: "length (pools pm) < unat (max_pools (options pm))" "0 < heap_left pm" using le by auto
    define pmh where "pmh = pm\<lparr>heap_left := heap_left pm - 1\<rparr>"
    show ?thesis
    proof (cases "pool_bytes pm \<le> quota (resource pm)")
      case no: False
      then have "find_or_create_pool pm = returns (None, pmh)"
        using None False by (simp add: find_or_create_pool_def pool_bytes_def allocate_fails Let_def pmh_def)
      moreover have "memory_ok base q0 (n0 - 1) pmh"
        using mem room(2) by (auto simp: memory_ok_def pmh_def pool_blocks_def pool_bytes_def)
      ultimately show ?thesis using no None False
        by (auto simp: can_construct_iff after_bad_alloc_def same_setup_def pmh_def)
    next
      case True
      from new_pool [OF codec mem room None True, folded pmh_def] obtain a r1 p where
        own: "owns base ((a, pool_bytes pm, type_align pm) # pool_blocks pm
          @ vector_block (vec_mem pm) (vec_cap pm)) r1"
        and r1: "quota r1 + pool_bytes pm = quota (resource pm)"
        and p: "raw_mem p = a" "pool_ok (unat (pool_capacity (options pm))) p" "pool_head p \<noteq> None"
          "\<forall>b c. read_cell (blocks p) b = Some c \<longrightarrow> (\<exists>n. c = Free_node n)"
        and run: "find_or_create_pool pm = obind (grow_vector (pmh\<lparr>resource := r1\<rparr>)) (\<lambda>grown.
          case grown of
            None \<Rightarrow> returns (None, pmh\<lparr>resource := r1\<rparr>)
          | Some pm2 \<Rightarrow> returns (Some (length (pools pm)), pm2\<lparr>pools := pools pm2 @ [p]\<rparr>))"
        by blast
      have vg: "\<forall>n. n < vec_growth pm n" "length (pools pm) \<le> vec_cap pm" using mem by (simp_all add: memory_ok_def)
      define bl where "bl = (a, pool_bytes pm, type_align pm) # pool_blocks pm"
      have own': "owns base (bl @ vector_block (vec_mem (pmh\<lparr>resource := r1\<rparr>)) (vec_cap (pmh\<lparr>resource := r1\<rparr>)))
          (resource (pmh\<lparr>resource := r1\<rparr>))"
        using own by (simp add: bl_def pmh_def)
      from vg have vg': "\<forall>n. n < vec_growth (pmh\<lparr>resource := r1\<rparr>) n"
        "length (pools (pmh\<lparr>resource := r1\<rparr>)) \<le> vec_cap (pmh\<lparr>resource := r1\<rparr>)" by (simp_all add: pmh_def)
      note g = grow_vector_spec [OF own' vg']
      show ?thesis
      proof (cases "length (pools pm) < vec_cap pm \<or> vec_growth pm (vec_cap pm) * ptr_bytes \<le> quota r1")
        case no: False
        then have "grow_vector (pmh\<lparr>resource := r1\<rparr>) = returns None" using g by (simp add: pmh_def)
        then have ret: "find_or_create_pool pm = returns (None, pmh\<lparr>resource := r1\<rparr>)" by (simp add: run)
        from owns_forget [OF own] have "base a = None"
          "owns (base(a \<mapsto> (pool_bytes pm, type_align pm))) (pool_blocks pm @ vector_block (vec_mem pm) (vec_cap pm)) r1"
          by auto
        then have "base a = None \<and> memory_ok (base(a \<mapsto> (pool_bytes pm, type_align pm))) (q0 - pool_bytes pm) (n0 - 1)
            (pmh\<lparr>resource := r1\<rparr>)"
          using mem r1 room(2) by (auto simp: memory_ok_def pmh_def pool_blocks_def pool_bytes_def)
        moreover have "\<not> can_construct pm" using no None r1 by (auto simp: can_construct_iff)
        ultimately show ?thesis using ret False True
          by (auto simp: after_bad_alloc_def same_setup_def pmh_def)
      next
        case yes: True
        with g obtain v c res where
          gv: "grow_vector (pmh\<lparr>resource := r1\<rparr>) =
              returns (Some (pmh\<lparr>resource := r1, vec_mem := v, vec_cap := c, resource := res\<rparr>))"
            "length (pools pm) < c" "owns base (bl @ vector_block v c) res"
            "quota res + c * ptr_bytes = quota r1 + vec_cap pm * ptr_bytes"
            "c = vec_cap pm \<or> vec_cap pm = length (pools pm) \<and> c = vec_growth pm (vec_cap pm)"
          by (auto simp: pmh_def)
        define pm1 where "pm1 = pmh\<lparr>vec_mem := v, vec_cap := c, resource := res, pools := pools pm @ [p]\<rparr>"
        have ret: "find_or_create_pool pm = returns (Some (length (pools pm)), pm1)"
          unfolding run gv(1) by (simp add: pm1_def pmh_def)
        have ok1: "manager_ok np pm1" using ok room p(2) by (auto simp: manager_ok_def pm1_def pmh_def)
        have pb: "pool_bytes pm1 = pool_bytes pm" by (simp add: pool_bytes_def pm1_def pmh_def)
        have "pool_blocks pm1 = pool_blocks pm @ [(a, pool_bytes pm, type_align pm)]"
          unfolding pool_blocks_def pb using p(1) by (simp add: pm1_def pmh_def)
        then have "owns base (pool_blocks pm1 @ vector_block (vec_mem pm1) (vec_cap pm1)) (resource pm1)"
          using owns_perm [OF gv(3), of "pool_blocks pm1 @ vector_block v c"] by (simp add: bl_def pm1_def)
        then have mem1: "memory_ok base q0 n0 pm1"
          unfolding memory_ok_def pb using mem r1 room(2) gv(2,4)
          by (auto simp: memory_ok_def pm1_def pmh_def)
        have "object_at pm1 i b = object_at pm i b" for i b
        proof (cases "i = length (pools pm)")
          case True
          then show ?thesis using p(4) [rule_format, of b]
            by (auto simp: object_at_def pm1_def nth_append split: option.splits block.splits)
        next
          case False
          then show ?thesis by (auto simp: object_at_def pm1_def pmh_def nth_append)
        qed
        then have "object_at pm1 = object_at pm" by blast
        moreover have "can_construct pm" using yes True room r1 by (auto simp: can_construct_iff)
        moreover have "same_setup pm1 pm" by (simp add: same_setup_def pm1_def pmh_def)
        moreover have "vec_cap pm1 = vec_cap pm \<or> vec_cap pm1 = vec_growth pm (length (pools pm))"
          using gv(5) by (auto simp: pm1_def)
        moreover have "length (pools pm1) = Suc (length (pools pm))" "pools pm1 ! length (pools pm) = p"
          by (simp_all add: pm1_def)
        ultimately show ?thesis using ret ok1 mem1 p(3) by auto
      qed
    qed
  qed
qed

lemma construct_spec:
  assumes ok: "manager_ok np pm" and mem: "memory_ok base q0 n0 pm"
  shows "if can_construct pm
    then \<exists>i b pm'. construct x pm = returns (Some (make_handle (helper pm) (word_of_nat i) b), pm')
      \<and> i < unat (max_pools (options pm)) \<and> b < unat (pool_capacity (options pm))
      \<and> manager_ok np pm' \<and> memory_ok base q0 n0 pm' \<and> same_setup pm' pm \<and> object_at pm i b = None
      \<and> object_at pm' = (object_at pm)(i := (object_at pm i)(b := Some x))
      \<and> (vec_cap pm' = vec_cap pm \<and> length (pools pm') = length (pools pm)
          \<or> length (pools pm') = Suc (length (pools pm))
            \<and> (vec_cap pm' = vec_cap pm \<or> vec_cap pm' = vec_growth pm (length (pools pm))))
    else \<exists>pm'. construct x pm = returns (None, pm') \<and> pools pm' = pools pm
      \<and> same_setup pm' pm \<and> after_bad_alloc base q0 n0 pm pm'"
proof (cases "can_construct pm")
  case False
  with find_or_create_spec [OF ok mem] show ?thesis by (auto simp: construct_def)
next
  case True
  with find_or_create_spec [OF ok mem] obtain i pm1 where
    f: "find_or_create_pool pm = returns (Some i, pm1)" "i < length (pools pm1)" "pool_head (pools pm1 ! i) \<noteq> None"
      "manager_ok np pm1" "memory_ok base q0 n0 pm1" and
    same: "same_setup pm1 pm" "object_at pm1 = object_at pm" and
    cp: "vec_cap pm1 = vec_cap pm \<and> length (pools pm1) = length (pools pm)
          \<or> length (pools pm1) = Suc (length (pools pm))
            \<and> (vec_cap pm1 = vec_cap pm \<or> vec_cap pm1 = vec_growth pm (length (pools pm)))"
    by auto
  define cap where "cap = unat (pool_capacity (options pm1))"
  define p where "p = pools pm1 ! i"
  have pok: "pool_ok cap p" using f(2,4) by (simp add: manager_ok_def cap_def p_def)
  from f(3) obtain b where b: "pool_head p = Some b" by (auto simp: p_def)
  from pop_free_ok [OF pok b] obtain nxt where
    pop: "b < cap" "pop_free p = returns (b, p\<lparr>pool_head := nxt, mtx := False\<rparr>)" "\<not> is_object (blocks p ! b)"
      "pool_ok cap (p\<lparr>pool_head := nxt, mtx := False, blocks := (blocks p)[b := Object x]\<rparr>)"
    by blast
  have len: "length (blocks p) = cap" using pok by (simp add: pool_ok_def)
  define p' where "p' = p\<lparr>pool_head := nxt, mtx := False, blocks := (blocks p)[b := Object x]\<rparr>"
  define pm' where "pm' = pm1\<lparr>pools := (pools pm1)[i := p']\<rparr>"
  have ret: "construct x pm = returns (Some (make_handle (helper pm1) (word_of_nat i) b), pm')"
    using f(1) pop(1,2) len by (simp add: construct_def p_def [symmetric] write_cell_def pm'_def p'_def)
  have "set (pools pm') \<subseteq> insert p' (set (pools pm1))" by (simp add: pm'_def set_update_subset_insert)
  then have ok': "manager_ok np pm'"
    using f(4) pop(4) by (auto simp: manager_ok_def cap_def p'_def pm'_def)
  have raw: "map raw_mem (pools pm') = map raw_mem (pools pm1)"
  proof (rule nth_equalityI)
    fix j assume "j < length (map raw_mem (pools pm'))"
    then show "map raw_mem (pools pm') ! j = map raw_mem (pools pm1) ! j"
      by (cases "j = i") (simp_all add: pm'_def p'_def p_def)
  qed (simp add: pm'_def)
  have "pool_blocks q = map (\<lambda>a. (a, pool_bytes q, type_align q)) (map raw_mem (pools q))" for q :: "'a pool_manager"
    by (simp add: pool_blocks_def)
  from this [of pm'] this [of pm1] have "pool_blocks pm' = pool_blocks pm1"
    unfolding raw by (simp add: pool_bytes_def pm'_def)
  then have mem': "memory_ok base q0 n0 pm'"
    using f(5) by (simp add: memory_ok_def pm'_def pool_bytes_def)
  have none: "object_at pm1 i b = None"
    using pop(1,3) f(2) len by (simp add: object_at_def read_cell_def p_def [symmetric] is_object_def split: block.splits)
  have "object_at pm' i' b' = ((object_at pm1)(i := (object_at pm1 i)(b := Some x))) i' b'" for i' b'
    using f(2) len pop(1) by (cases "i' = i"; cases "b' = b")
      (simp_all add: object_at_def pm'_def p'_def read_cell_def flip: p_def)
  then have "object_at pm' = (object_at pm1)(i := (object_at pm1 i)(b := Some x))" by blast
  moreover have "i < unat (max_pools (options pm1))" using f(2,4) by (simp add: manager_ok_def)
  moreover have "same_setup pm' pm1" "vec_cap pm' = vec_cap pm1" "length (pools pm') = length (pools pm1)"
    by (simp_all add: same_setup_def pm'_def)
  ultimately show ?thesis using True ret ok' mem' none pop(1) same cp by (auto simp: cap_def same_setup_def)
qed

lemma make_pool_manager_ok:
  assumes "make_pool_manager szT alT triv growth heap opts res = Some pm" "pool_capacity opts = 2 ^ k" "k < 32"
    "unat (max_pools opts) \<le> 2 ^ (32 - unat (ph_log2 (max_pools opts)) - k)" "0 < alT" "res_ok res"
    "\<And>n. n < growth n"
  shows "manager_ok (2 ^ (32 - unat (ph_log2 (max_pools opts)) - k)) pm \<and> memory_ok (live res) (quota res) heap pm
    \<and> pools pm = [] \<and> options pm = opts \<and> type_size pm = szT \<and> vec_growth pm = growth \<and> vec_cap pm = 0
    \<and> heap_left pm = heap \<and> resource pm = res"
proof -
  from assms(1) obtain h where h: "make_pool_helper opts = Some h"
    "pm = \<lparr>pools = [], vec_mem = 0, vec_cap = 0, vec_growth = growth, heap_left = heap, options = opts, helper = h, resource = res, type_size = szT,
       type_align = alT, trivially_destructible = triv\<rparr>"
    by (auto simp: make_pool_manager_def)
  have "unat (pool_capacity opts) = 2 ^ k" using assms(2,3) by (simp add: unat_pow2)
  then have "codec_ok (2 ^ (32 - unat (ph_log2 (max_pools opts)) - k)) (unat (pool_capacity opts)) h"
    using h(1) assms(2,3) unfolding codec_ok_def by blast
  with assms h show ?thesis
    by (simp add: manager_ok_def memory_ok_def pool_blocks_def vector_block_def owns_def)
qed

section \<open>Counting the objects\<close>

definition objects :: "'a pool_manager \<Rightarrow> (nat \<times> nat) set" where
  "objects pm = {(i, b). object_at pm i b \<noteq> None}"

lemma object_at_bounds:
  assumes "manager_ok np pm" "object_at pm i b \<noteq> None"
  shows "i < unat (max_pools (options pm)) \<and> b < unat (pool_capacity (options pm))"
proof -
  from assms(2) have i: "i < length (pools pm)" and b: "b < length (blocks (pools pm ! i))"
    by (auto simp: object_at_def read_cell_def split: if_splits)
  from i assms(1) have "pool_ok (unat (pool_capacity (options pm))) (pools pm ! i)"
    by (simp add: manager_ok_def)
  with i b assms(1) show ?thesis by (simp add: pool_ok_def manager_ok_def)
qed

lemma objects_subset:
  "manager_ok np pm \<Longrightarrow> objects pm \<subseteq> {..<unat (max_pools (options pm))} \<times> {..<unat (pool_capacity (options pm))}"
  using object_at_bounds by (fastforce simp: objects_def)

lemma finite_objects: "manager_ok np pm \<Longrightarrow> finite (objects pm)"
  by (rule finite_subset [OF objects_subset]) auto

text \<open>
  Enough for all the pools: per pool its blocks and three pointers' worth of vector storage (at most two
  per pool in the old storage while one more than twice the pools are in the new).
\<close>

definition enough_memory :: "nat \<Rightarrow> nat \<Rightarrow> 'a pool_manager \<Rightarrow> bool" where
  "enough_memory q0 n0 pm \<longleftrightarrow> unat (max_pools (options pm)) * (pool_bytes pm + 3 * ptr_bytes) \<le> q0
     \<and> unat (max_pools (options pm)) \<le> n0 \<and> (\<forall>n. vec_growth pm n \<le> 2 * n + 1)
     \<and> vec_cap pm \<le> 2 * length (pools pm)"

lemma enough_memory_keep:
  assumes "enough_memory q0 n0 pm" "same_setup pm' pm"
    "vec_cap pm' = vec_cap pm \<and> length (pools pm') = length (pools pm)
      \<or> length (pools pm') = Suc (length (pools pm))
        \<and> (vec_cap pm' = vec_cap pm \<or> vec_cap pm' = vec_growth pm (length (pools pm)))"
  shows "enough_memory q0 n0 pm'"
proof -
  have "pool_bytes pm' = pool_bytes pm" using assms(2) by (simp add: same_setup_def pool_bytes_def)
  moreover have "vec_growth pm (length (pools pm)) \<le> 2 * length (pools pm) + 1"
    using assms(1) by (simp only: enough_memory_def)
  then have "vec_growth pm (length (pools pm)) \<le> 2 * Suc (length (pools pm))" by simp
  ultimately show ?thesis using assms unfolding enough_memory_def same_setup_def by auto
qed

lemma enough_memory_room:
  assumes "enough_memory q0 n0 pm" "memory_ok base q0 n0 pm" "length (pools pm) < unat (max_pools (options pm))"
  shows "0 < heap_left pm \<and> pool_bytes pm \<le> quota (resource pm)
    \<and> (length (pools pm) < vec_cap pm
        \<or> pool_bytes pm + vec_growth pm (vec_cap pm) * ptr_bytes \<le> quota (resource pm))"
proof -
  define l where "l = length (pools pm)"
  have "Suc l * (pool_bytes pm + 3 * ptr_bytes) \<le> unat (max_pools (options pm)) * (pool_bytes pm + 3 * ptr_bytes)"
    using assms(3) by (intro mult_le_mono1) (simp add: l_def)
  moreover have "quota (resource pm) + l * pool_bytes pm + vec_cap pm * ptr_bytes = q0" "l \<le> vec_cap pm"
    "heap_left pm + l = n0"
    using assms(2) by (simp_all add: memory_ok_def l_def)
  moreover have "vec_cap pm \<le> 2 * l" "vec_growth pm (vec_cap pm) \<le> 2 * vec_cap pm + 1"
    "unat (max_pools (options pm)) \<le> n0"
    "unat (max_pools (options pm)) * (pool_bytes pm + 3 * ptr_bytes) \<le> q0"
    using assms(1) by (simp_all add: enough_memory_def l_def)
  ultimately show ?thesis using assms(3)
    by (auto simp: l_def [symmetric] ptr_bytes_def distrib_left not_less simp del: mult_le_cancel2)
qed

lemma full_objects:
  assumes "manager_ok np pm" "\<not> can_construct pm" "memory_ok base q0 n0 pm" "enough_memory q0 n0 pm"
  shows "objects pm = {..<unat (max_pools (options pm))} \<times> {..<unat (pool_capacity (options pm))}"
proof -
  define cap where "cap = unat (pool_capacity (options pm))"
  have heads: "\<forall>p \<in> set (pools pm). pool_head p = None" using assms(2) by (auto simp: can_construct_def)
  have len: "length (pools pm) = unat (max_pools (options pm))"
  proof (rule ccontr)
    assume "length (pools pm) \<noteq> unat (max_pools (options pm))"
    then have lt: "length (pools pm) < unat (max_pools (options pm))" using assms(1) by (simp add: manager_ok_def)
    from enough_memory_room [OF assms(4,3) lt] lt assms(2) show False by (simp add: can_construct_def)
  qed
  have "object_at pm i b \<noteq> None" if ib: "i < length (pools pm)" "b < cap" for i b
  proof -
    have "pool_ok cap (pools pm ! i)" "pool_head (pools pm ! i) = None"
      using ib assms(1) heads by (simp_all add: manager_ok_def cap_def)
    then have "is_object (blocks (pools pm ! i) ! b)" "length (blocks (pools pm ! i)) = cap"
      using ib by (auto simp: pool_ok_def)
    then show ?thesis using ib by (auto simp: object_at_def read_cell_def is_object_def split: block.splits)
  qed
  then have "{..<unat (max_pools (options pm))} \<times> {..<cap} \<subseteq> objects pm" using len by (auto simp: objects_def)
  with objects_subset [OF assms(1)] show ?thesis by (auto simp: cap_def)
qed

text \<open>A client that constructs one object after the other, until one construct throws.\<close>

fun construct_all :: "'a list \<Rightarrow> 'a pool_manager \<Rightarrow> (handle_t list option \<times> 'a pool_manager) outcome" where
  "construct_all [] pm = returns (Some [], pm)"
| "construct_all (x # xs) pm = obind (construct x pm) (\<lambda>(r, pm1).
     case r of
       None \<Rightarrow> returns (None, pm1)
     | Some h \<Rightarrow> obind (construct_all xs pm1) (\<lambda>(hs, pm2). returns (map_option ((#) h) hs, pm2)))"

lemma make_handle_get:
  assumes "manager_ok np pm" "i < unat (max_pools (options pm))" "b < unat (pool_capacity (options pm))"
  shows "get (make_handle (helper pm) (word_of_nat i) b) pm = object_at pm i b"
proof -
  have c: "codec_ok np (unat (pool_capacity (options pm))) (helper pm)" and np: "unat (max_pools (options pm)) \<le> np"
    using assms(1) by (simp_all add: manager_ok_def)
  have u: "unat (word_of_nat i :: u32) = i" using assms(2) unat_word_bound [of "max_pools (options pm)"]
    by (intro unat_of_nat_small) simp
  show ?thesis
    using ph.pool_law [OF c _ assms(3), of "word_of_nat i"] ph.offset_law [OF c assms(3)] assms(2) np u
    by (simp add: get_object_at)
qed

text \<open>Objects stay where they are while others are constructed.\<close>

lemma get_extends:
  assumes "object_at pm' = (object_at pm)(i := (object_at pm i)(b := Some x))" "object_at pm i b = None"
    "helper pm' = helper pm" "get h pm = Some y"
  shows "get h pm' = Some y"
  using assms by (auto simp: get_object_at split: bind_splits)

lemma objects_update:
  "object_at pm' = (object_at pm)(i := (object_at pm i)(b := Some x)) \<Longrightarrow> objects pm' = insert (i, b) (objects pm)"
  by (auto simp: objects_def split: if_splits)

lemma construct_all_ok:
  assumes "manager_ok np pm" "memory_ok base q0 n0 pm" "enough_memory q0 n0 pm"
    "card (objects pm) + length xs \<le> unat (max_pools (options pm)) * unat (pool_capacity (options pm))"
  shows "\<exists>hs pm'. construct_all xs pm = returns (Some hs, pm') \<and> manager_ok np pm' \<and> memory_ok base q0 n0 pm'
    \<and> distinct hs \<and> (\<forall>h \<in> set hs. get h pm = None) \<and> list_all2 (\<lambda>h x. get h pm' = Some x) hs xs
    \<and> (\<forall>h y. get h pm = Some y \<longrightarrow> get h pm' = Some y)
    \<and> options pm' = options pm \<and> pool_bytes pm' = pool_bytes pm
    \<and> card (objects pm') = card (objects pm) + length xs"
  using assms
proof (induction xs arbitrary: pm)
  case Nil
  then show ?case by simp
next
  case (Cons x xs)
  let ?max = "unat (max_pools (options pm))" and ?cap = "unat (pool_capacity (options pm))"
  have can: "can_construct pm"
  proof (rule ccontr)
    assume "\<not> can_construct pm"
    from full_objects [OF Cons.prems(1) this Cons.prems(2,3)] have "card (objects pm) = ?max * ?cap"
      by (simp add: card_cartesian_product)
    with Cons.prems(4) show False by simp
  qed
  with construct_spec [OF Cons.prems(1,2), of x] obtain i b pm1 where
    c: "construct x pm = returns (Some (make_handle (helper pm) (word_of_nat i) b), pm1)" "i < ?max" "b < ?cap"
      "manager_ok np pm1" "memory_ok base q0 n0 pm1" "object_at pm i b = None"
      "object_at pm1 = (object_at pm)(i := (object_at pm i)(b := Some x))" and
    stp: "same_setup pm1 pm" and
    cp: "vec_cap pm1 = vec_cap pm \<and> length (pools pm1) = length (pools pm)
          \<or> length (pools pm1) = Suc (length (pools pm))
            \<and> (vec_cap pm1 = vec_cap pm \<or> vec_cap pm1 = vec_growth pm (length (pools pm)))"
    by auto
  from stp have same: "options pm1 = options pm" "helper pm1 = helper pm" by (simp_all add: same_setup_def)
  define h where "h = make_handle (helper pm) (word_of_nat i) b"
  have h: "get h pm = None" "get h pm1 = Some x"
    using make_handle_get [OF Cons.prems(1) c(2,3)] make_handle_get [OF c(4), of i b] c same by (simp_all add: h_def)
  have "(i, b) \<notin> objects pm" using c(6) by (simp add: objects_def)
  then have card: "card (objects pm1) = Suc (card (objects pm))"
    using finite_objects [OF Cons.prems(1)] by (simp add: objects_update [OF c(7)])
  have pb: "pool_bytes pm1 = pool_bytes pm" using stp by (simp add: pool_bytes_def same_setup_def)
  from Cons.IH [OF c(4,5) enough_memory_keep [OF Cons.prems(3) stp cp]] Cons.prems(4) card obtain hs pm' where
    IH: "construct_all xs pm1 = returns (Some hs, pm')" "manager_ok np pm'" "memory_ok base q0 n0 pm'"
      "distinct hs" "\<forall>h \<in> set hs. get h pm1 = None" "list_all2 (\<lambda>h x. get h pm' = Some x) hs xs"
      "\<forall>h y. get h pm1 = Some y \<longrightarrow> get h pm' = Some y"
      "options pm' = options pm1" "pool_bytes pm' = pool_bytes pm1"
      "card (objects pm') = card (objects pm1) + length xs"
    by (auto simp: same)
  have ext: "get g pm1 = Some y" if "get g pm = Some y" for g y
    using get_extends [OF c(7,6) same(2) that] .
  have "get g pm = None" if "g \<in> set hs" for g
    using IH(5) that ext by (metis not_None_eq)
  moreover have "h \<notin> set hs" using IH(5) h(2) by auto
  ultimately show ?case using c(1) IH h ext same card pb by (auto simp: h_def)
qed

lemma construct_all_fails:
  assumes "manager_ok np pm" "memory_ok base q0 n0 pm" "enough_memory q0 n0 pm"
    "unat (max_pools (options pm)) * unat (pool_capacity (options pm)) < card (objects pm) + length xs"
  shows "\<exists>pm'. construct_all xs pm = returns (None, pm')"
  using assms
proof (induction xs arbitrary: pm)
  case Nil
  have "card (objects pm) \<le> card ({..<unat (max_pools (options pm))} \<times> {..<unat (pool_capacity (options pm))})"
    using objects_subset [OF Nil.prems(1)] by (rule card_mono [rotated]) simp
  with Nil.prems(4) show ?case by (simp add: card_cartesian_product)
next
  case (Cons x xs)
  show ?case
  proof (cases "can_construct pm")
    case False
    with construct_spec [OF Cons.prems(1,2), of x] show ?thesis by auto
  next
    case True
    with construct_spec [OF Cons.prems(1,2), of x] obtain i b pm1 where
      c: "construct x pm = returns (Some (make_handle (helper pm) (word_of_nat i) b), pm1)"
        "manager_ok np pm1" "memory_ok base q0 n0 pm1" "object_at pm i b = None"
        "object_at pm1 = (object_at pm)(i := (object_at pm i)(b := Some x))"
        "same_setup pm1 pm" and
      cp: "vec_cap pm1 = vec_cap pm \<and> length (pools pm1) = length (pools pm)
            \<or> length (pools pm1) = Suc (length (pools pm))
              \<and> (vec_cap pm1 = vec_cap pm \<or> vec_cap pm1 = vec_growth pm (length (pools pm)))"
      by auto
    have "(i, b) \<notin> objects pm" using c(4) by (simp add: objects_def)
    then have "card (objects pm1) = Suc (card (objects pm))"
      using finite_objects [OF Cons.prems(1)] by (simp add: objects_update [OF c(5)])
    moreover have "options pm1 = options pm" using c(6) by (simp add: same_setup_def)
    ultimately have "\<exists>pm'. construct_all xs pm1 = returns (None, pm')"
      using Cons.IH [OF c(2,3) enough_memory_keep [OF Cons.prems(3) c(6) cp]] Cons.prems(4) by simp
    with c(1) show ?thesis by auto
  qed
qed

lemma release_pools_ok:
  assumes "owns base (map (\<lambda>p. (raw_mem p, bytes, al)) ps @ bl) res"
  shows "\<exists>res'. release_pools bytes al ps (res, n) = Some (res', n + length ps) \<and> owns base bl res'
    \<and> quota res' = quota res + length ps * bytes"
  using assms
proof (induction ps arbitrary: res n)
  case Nil
  then show ?case by simp
next
  case (Cons p ps)
  from owns_dealloc [of base "raw_mem p" bytes al] Cons.prems obtain res1 where
    r1: "deallocate (raw_mem p) bytes al res = Some res1"
      "owns base (map (\<lambda>p. (raw_mem p, bytes, al)) ps @ bl) res1" by auto
  from Cons.IH [OF r1(2), of "n + 1"] r1(1) deallocate_quota [OF r1(1)] show ?case by auto
qed

lemma destroy_manager_ok:
  assumes "memory_ok base q0 n0 pm"
  shows "\<exists>res'. destroy_manager pm = Some (res', n0) \<and> live res' = base \<and> quota res' = q0"
proof -
  have own: "owns base (map (\<lambda>p. (raw_mem p, pool_bytes pm, type_align pm)) (pools pm)
      @ vector_block (vec_mem pm) (vec_cap pm)) (resource pm)"
    and q: "quota (resource pm) + length (pools pm) * pool_bytes pm + vec_cap pm * ptr_bytes = q0"
      "heap_left pm + length (pools pm) = n0"
    using assms by (simp_all add: memory_ok_def pool_blocks_def)
  from release_pools_ok [OF own, of "heap_left pm"] q(2) obtain r1 where
    r1: "release_pools (pool_bytes pm) (type_align pm) (pools pm) (resource pm, heap_left pm) = Some (r1, n0)"
      "owns base (vector_block (vec_mem pm) (vec_cap pm)) r1"
      "quota r1 = quota (resource pm) + length (pools pm) * pool_bytes pm" by auto
  show ?thesis
  proof (cases "vec_cap pm = 0")
    case True
    with r1 q(1) show ?thesis
      by (simp add: destroy_manager_def pool_bytes_def [symmetric] vector_block_def owns_live)
  next
    case False
    with r1(2) have "owns base [(vec_mem pm, vec_cap pm * ptr_bytes, ptr_bytes)] r1" by (simp add: vector_block_def)
    from owns_dealloc [OF this] obtain r2 where
      r2: "deallocate (vec_mem pm) (vec_cap pm * ptr_bytes) ptr_bytes r1 = Some r2" "owns base [] r2" by blast
    with r1 q(1) False deallocate_quota [OF r2(1)] show ?thesis
      by (simp add: destroy_manager_def pool_bytes_def [symmetric] owns_live)
  qed
qed

section \<open>Properties\<close>


definition options_3x2 :: pool_options where
  "options_3x2 = \<lparr>pool_capacity = 2, max_pools = 3\<rparr>"

text \<open>The growth of the vector in GNU's library.\<close>

definition doubling :: "nat \<Rightarrow> nat" where "doubling n = n + max n 1"

lemma log2_3: "unat (ph_log2 3) = 2"
  using ph_log2_eqI [of 1 3] by simp

lemma small_manager:
  "\<exists>pm. make_pool_manager 8 8 True doubling 3 options_3x2 (fresh_resource q) = Some pm
     \<and> manager_ok (2 ^ 29) pm \<and> memory_ok Map.empty q 3 pm \<and> pools pm = [] \<and> options pm = options_3x2
     \<and> pool_bytes pm = 16 \<and> vec_growth pm = doubling \<and> vec_cap pm = 0 \<and> heap_left pm = 3
     \<and> quota (resource pm) = q"
proof -
  have "make_pool_helper options_3x2 \<noteq> None"
    using make_pool_helper_defined [of options_3x2] log2_3 by (simp add: options_3x2_def)
  then obtain pm :: "'a pool_manager" where
    pm: "make_pool_manager 8 8 True doubling 3 options_3x2 (fresh_resource q) = Some pm"
    by (auto simp: make_pool_manager_def)
  have "pool_capacity options_3x2 = 2 ^ 1" by (simp add: options_3x2_def)
  from make_pool_manager_ok [OF pm this] log2_3 pm res_ok_fresh [of q] show ?thesis
    by (simp add: options_3x2_def fresh_resource_def doubling_def pool_bytes_def)
qed

text \<open>One pool can be had from 24 bytes, and none from 20: those pay for the blocks but not for the vector.\<close>

lemma small_manager_construct:
  assumes "24 \<le> q"
  shows "\<exists>pm. manager_ok (2 ^ 29) (pm :: 'a pool_manager) \<and> memory_ok Map.empty q 3 pm \<and> can_construct pm"
proof -
  from small_manager [of q] obtain pm :: "'a pool_manager" where
    pm: "manager_ok (2 ^ 29) pm" "memory_ok Map.empty q 3 pm" "pools pm = []" "options pm = options_3x2"
      "pool_bytes pm = 16" "vec_growth pm = doubling" "vec_cap pm = 0" "heap_left pm = 3" "quota (resource pm) = q"
    by blast
  have "can_construct pm"
    using pm assms by (simp add: can_construct_def options_3x2_def doubling_def ptr_bytes_def)
  with pm(1,2) show ?thesis by blast
qed


text \<open>
  A manager of max_pools pools of 2^k blocks, whose resource can pay for all of them and for the
  vector of pointers to them, and whose pool objects the heap can give, holds
  exactly max_pools * 2^k objects: that many constructs succeed, with distinct handles that all
  give their objects back, and the destructor then returns all of the memory; one construct more
  throws bad_alloc.
\<close>

theorem pool_manager_capacity:
  assumes "make_pool_manager szT alT triv growth heap opts res = Some pm" "pool_capacity opts = 2 ^ k" "k < 32"
    "unat (max_pools opts) \<le> 2 ^ (32 - unat (ph_log2 (max_pools opts)) - k)" "0 < alT" "res_ok res"
    "\<And>n. n < growth n \<and> growth n \<le> 2 * n + 1" "unat (max_pools opts) \<le> heap"
    "unat (max_pools opts) * (2 ^ k * szT + 3 * ptr_bytes) \<le> quota res"
  shows "if length xs \<le> unat (max_pools opts) * 2 ^ k
    then \<exists>hs pm' res'. construct_all xs pm = returns (Some hs, pm') \<and> distinct hs
      \<and> list_all2 (\<lambda>h x. get h pm' = Some x) hs xs
      \<and> destroy_manager pm' = Some (res', heap) \<and> live res' = live res \<and> quota res' = quota res
    else \<exists>pm'. construct_all xs pm = returns (None, pm')"
proof -
  from make_pool_manager_ok [OF assms(1-6)] assms(7) have
    ok: "manager_ok (2 ^ (32 - unat (ph_log2 (max_pools opts)) - k)) pm" "memory_ok (live res) (quota res) heap pm"
    and pm: "pools pm = []" "options pm = opts" "type_size pm = szT" "vec_growth pm = growth" "vec_cap pm = 0"
    by blast+
  have cap: "unat (pool_capacity opts) = 2 ^ k" using assms(2,3) by (simp add: unat_pow2)
  have q: "enough_memory (quota res) heap pm"
    using assms(7-9) by (simp add: enough_memory_def pool_bytes_def pm cap)
  have none: "card (objects pm) = 0" by (simp add: objects_def object_at_def pm)
  show ?thesis
  proof (cases "length xs \<le> unat (max_pools opts) * 2 ^ k")
    case True
    with construct_all_ok [OF ok q, of xs] none obtain hs pm' where
      "construct_all xs pm = returns (Some hs, pm')" "memory_ok (live res) (quota res) heap pm'" "distinct hs"
      "list_all2 (\<lambda>h x. get h pm' = Some x) hs xs"
      by (auto simp: pm cap)
    with destroy_manager_ok [OF this(2)] True show ?thesis by auto
  next
    case False
    with construct_all_fails [OF ok q, of xs] none show ?thesis by (simp add: pm cap)
  qed
qed

theorem pool_manager_capacity_witness:
  "\<exists>pm hs pm' res'. make_pool_manager 8 8 True doubling 3 options_3x2 (fresh_resource 120) = Some pm
     \<and> construct_all [10, 20, 30, 40, 50, 60 :: nat] pm = returns (Some hs, pm') \<and> distinct hs
     \<and> list_all2 (\<lambda>h x. get h pm' = Some x) hs [10, 20, 30, 40, 50, 60]
     \<and> destroy_manager pm' = Some (res', 3) \<and> live res' = Map.empty"
proof -
  from small_manager obtain pm :: "nat pool_manager" where
    pm: "make_pool_manager 8 8 True doubling 3 options_3x2 (fresh_resource 120) = Some pm" by blast
  have cap: "pool_capacity options_3x2 = 2 ^ 1" and mx: "max_pools options_3x2 = 3"
    by (simp_all add: options_3x2_def)
  have gr: "n < doubling n \<and> doubling n \<le> 2 * n + 1" for n by (auto simp: doubling_def)
  from pool_manager_capacity [OF pm cap _ _ _ _ gr, of "[10, 20, 30, 40, 50, 60]"] log2_3 mx res_ok_fresh [of 120] obtain hs pm' res' where
    r: "construct_all [10, 20, 30, 40, 50, 60 :: nat] pm = returns (Some hs, pm')" "distinct hs"
      "list_all2 (\<lambda>h x. get h pm' = Some x) hs [10, 20, 30, 40, 50, 60]"
      "destroy_manager pm' = Some (res', 3)" "live res' = Map.empty"
    by (auto simp: fresh_resource_def ptr_bytes_def simp del: construct_all.simps)
  with pm r show ?thesis by blast
qed

text \<open>
  C38 [liveness] destroy on the handle of a live object never returns: it locks the pool's spinlock and then
  calls mark_as_free, which locks the same spinlock again.
\<close>

theorem destroy_deadlocks:
  assumes "manager_ok np pm" "get h pm = Some x"
  shows "destroy h pm = None"
proof -
  from assms(2) obtain i where i: "get_pool h pm = Some i"
    and ob: "read_cell (blocks (pools pm ! i)) (unat (extract_offset (helper pm) h)) = Some (Object x)"
    by (auto simp: get_def split: option.splits block.splits)
  have "i < length (pools pm)" using i by (auto simp: get_pool_def split: option.splits if_splits)
  then have "\<not> mtx (pools pm ! i)" using assms(1) by (auto simp: manager_ok_def pool_ok_def)
  with i ob show ?thesis
    by (simp add: destroy_def Let_def mark_as_free_def spin_lock_held is_object_def)
qed

theorem destroy_deadlocks_witness:
  "\<exists>(pm :: nat pool_manager) h pm'. construct 7 pm = returns (Some h, pm') \<and> destroy h pm' = None"
proof -
  from small_manager_construct [of 100] obtain pm :: "nat pool_manager" where
    c: "manager_ok (2 ^ 29) pm" "memory_ok Map.empty 100 3 pm" "can_construct pm" by auto
  with construct_spec [OF c(1,2), of 7] obtain i b pm' where
    s: "construct 7 pm = returns (Some (make_handle (helper pm) (word_of_nat i) b), pm')"
      "i < unat (max_pools (options pm))" "b < unat (pool_capacity (options pm))" "manager_ok (2 ^ 29) pm'"
      "same_setup pm' pm" "object_at pm' = (object_at pm)(i := (object_at pm i)(b := Some 7))"
    by auto
  then have "get (make_handle (helper pm) (word_of_nat i) b) pm' = Some 7"
    using make_handle_get [OF s(4), of i b] by (simp add: same_setup_def)
  from destroy_deadlocks [OF s(4) this] s(1) show ?thesis by blast
qed

text \<open>
  mark_as_free on an unlocked pool puts the block on the free list and leaves every block
  that is neither it nor free alone; but the list stays ordered by address, as the comment in the
  code says, only if it was empty or the block lies behind its first one.
\<close>

theorem mark_as_free_spec:
  assumes "chain (blocks p) (pool_head p) fs" "sorted_wrt (<) fs" "obj < length (blocks p)" "obj \<notin> set fs"
    "\<not> mtx p"
  shows "\<exists>p' fs'. mark_as_free p obj = returns p' \<and> \<not> mtx p' \<and> chain (blocks p') (pool_head p') fs'
    \<and> set fs' = insert obj (set fs) \<and> distinct fs'
    \<and> (sorted_wrt (<) fs' \<longleftrightarrow> fs = [] \<or> fs ! 0 < obj)
    \<and> (\<forall>i. i \<notin> insert obj (set fs) \<longrightarrow> blocks p' ! i = blocks p ! i)"
proof -
  have "distinct fs" using assms(2) by (simp add: strict_sorted_iff)
  from mark_as_free_insert [OF assms(1) this assms(3-5)] obtain p' where
    p': "mark_as_free p obj = returns p'" "chain (blocks p') (pool_head p') (insert_free obj fs)" "\<not> mtx p'"
      "\<forall>i. i \<notin> insert obj (set fs) \<longrightarrow> blocks p' ! i = blocks p ! i" by blast
  have "sorted_wrt (<) (insert_free obj fs) \<longleftrightarrow> fs = [] \<or> fs ! 0 < obj"
    using sorted_insert_free [of _ _ obj] assms(2,4) by (cases fs) auto
  moreover have "distinct (insert_free obj fs)" using \<open>distinct fs\<close> assms(4) by (simp add: distinct_insert_free)
  ultimately show ?thesis using p' by (intro exI [of _ p'] exI [of _ "insert_free obj fs"]) simp
qed

definition sample_pool :: "nat pool" where
  "sample_pool = \<lparr>raw_mem = 16, blocks = [Object 5, Free_node (Some 3), Object 6, Free_node None],
     pool_head = Some 1, mtx = False\<rparr>"

theorem mark_as_free_spec_witness:
  "\<exists>p' fs'. mark_as_free sample_pool 0 = returns p' \<and> chain (blocks p') (pool_head p') fs'
     \<and> set fs' = {0, 1, 3} \<and> \<not> sorted_wrt (<) fs'"
  using mark_as_free_spec [of sample_pool "[1, 3]" 0] by (auto simp: sample_pool_def)

end
