(* ===== verification/Shared_Memory.thy ===== *)
theory Shared_Memory imports Memory_Resource begin

text \<open>
  \<open>shared_memory\<close> (source/taskete/shared_memory.hpp and shared_memory.cpp): a container of objects of
  different types, found by a 64-bit key, in which every object carries a type-erased destructor.

  A type \<open>T\<close> has an identity, a size and an alignment; the container forgets it, and the comments of
  the class make a call with another type than that of the object stored under the key undefined, so
  the properties of calls suppose the right type.  Objects live in a store from addresses to values; memory is
  the resource of \<open>Memory_Resource\<close>.  A constructor call is its outcome: \<open>Some\<close> of the value it builds or
  \<open>None\<close> when it throws.  The \<open>pmr::vector\<close> of the class is written out with its storage, because its
  growth allocates from the same resource, can throw, and moves the elements.
\<close>

record ctype =
  type_id :: nat
  size_of :: nat
  align_of :: nat

record 'a heap =
  mres :: mem_res
  store :: "address \<rightharpoonup> 'a"

text \<open>
  \<open>destructor_implementation<T>\<close>: the object, the constants of its type, and the address of the functor
  itself, which is \<open>this\<close>.  The functor and a \<open>meta_data\<close> have three words each.
\<close>

record destructor =
  self :: address
  obj :: address
  obj_type :: ctype

definition destructor_size :: nat where "destructor_size = 24"
definition meta_size :: nat where "meta_size = 24"
definition meta_align :: nat where "meta_align = 8"

record meta_data =
  dtor :: "destructor option"
  key :: u64
  object :: address

section \<open>Operations of the elements\<close>

text \<open>\<open>operator()\<close>: the object is destroyed and its memory given back; \<open>destroy\<close> frees the functor.\<close>

definition call_dtor :: "destructor \<Rightarrow> 'a heap \<Rightarrow> 'a heap option" where
  "call_dtor d h =
     (if store h (obj d) = None then None
      else map_option (\<lambda>r. h\<lparr>mres := r, store := (store h)(obj d := None)\<rparr>)
             (deallocate (obj d) (size_of (obj_type d)) (align_of (obj_type d)) (mres h)))"

definition destroy_dtor :: "destructor \<Rightarrow> 'a heap \<Rightarrow> 'a heap option" where
  "destroy_dtor d h = map_option (\<lambda>r. h\<lparr>mres := r\<rparr>) (deallocate (self d) destructor_size max_align (mres h))"

definition empty_meta :: meta_data where
  "empty_meta = \<lparr>dtor = None, key = 0, object = 0\<rparr>"

text \<open>Move construction gives the new element and what is left of the source; assignment swaps.\<close>

definition meta_move :: "meta_data \<Rightarrow> meta_data \<times> meta_data" where
  "meta_move other =
     (\<lparr>dtor = dtor other, key = key other, object = object other\<rparr>,
      other\<lparr>dtor := dtor empty_meta, key := key empty_meta, object := object empty_meta\<rparr>)"

definition meta_assign :: "meta_data \<Rightarrow> meta_data \<Rightarrow> meta_data \<times> meta_data" where
  "meta_assign lhs rhs =
     (lhs\<lparr>dtor := dtor rhs, key := key rhs, object := object rhs\<rparr>,
      rhs\<lparr>dtor := dtor lhs, key := key lhs, object := object lhs\<rparr>)"

definition meta_destroy :: "meta_data \<Rightarrow> 'a heap \<Rightarrow> 'a heap option" where
  "meta_destroy m h =
     (case dtor m of None \<Rightarrow> Some h | Some d \<Rightarrow> Option.bind (call_dtor d h) (destroy_dtor d))"

datatype exn = Exn_bad_alloc | Exn_constructor

text \<open>
  The factory.  When it throws, the local \<open>data\<close> is destroyed: its \<open>dtor\<close> is still null then, so its
  destructor does nothing.
\<close>

definition meta_create :: "u64 \<Rightarrow> ctype \<Rightarrow> 'a option \<Rightarrow> 'a heap \<Rightarrow> (exn + meta_data) \<times> 'a heap" where
  "meta_create k T ctor h =
     (case allocate (size_of T) (align_of T) (mres h) of
        None \<Rightarrow> (Inl Exn_bad_alloc, h)
      | Some (p, r) \<Rightarrow>
          (case ctor of
             None \<Rightarrow> (Inl Exn_constructor, h\<lparr>mres := r\<rparr>)
           | Some x \<Rightarrow>
               (let h1 = h\<lparr>mres := r, store := (store h)(p \<mapsto> x)\<rparr> in
                case allocate destructor_size max_align r of
                  None \<Rightarrow> (Inl Exn_bad_alloc, h1)
                | Some (q, r2) \<Rightarrow>
                    (Inr \<lparr>dtor = Some \<lparr>self = q, obj = p, obj_type = T\<rparr>, key = k, object = p\<rparr>, h1\<lparr>mres := r2\<rparr>))))"

section \<open>The container\<close>

record 'a shared_memory =
  memory :: "meta_data list"
  vec_data :: address
  vec_capacity :: nat
  heap :: "'a heap"

definition make_shared_memory :: "'a heap \<Rightarrow> 'a shared_memory" where
  "make_shared_memory h = \<lparr>memory = [], vec_data = 0, vec_capacity = 0, heap = h\<rparr>"

text \<open>\<open>find_if\<close> on the key; address 0 is \<open>nullptr\<close>.\<close>

definition read :: "u64 \<Rightarrow> 'a shared_memory \<Rightarrow> address" where
  "read k sm = (case find (\<lambda>item. key item = k) (memory sm) of None \<Rightarrow> 0 | Some item \<Rightarrow> object item)"

text \<open>Moving the elements into new storage, each moved-from element destroyed.\<close>

fun relocate :: "meta_data list \<Rightarrow> 'a heap \<Rightarrow> (meta_data list \<times> 'a heap) option" where
  "relocate [] h = Some ([], h)"
| "relocate (m # ms) h =
     (case meta_destroy (snd (meta_move m)) h of
        None \<Rightarrow> None
      | Some h1 \<Rightarrow> map_option (\<lambda>(ms', h2). (fst (meta_move m) # ms', h2)) (relocate ms h1))"

definition free_storage :: "address \<Rightarrow> nat \<Rightarrow> 'a heap \<Rightarrow> 'a heap option" where
  "free_storage p cap h =
     (if cap = 0 then Some h
      else map_option (\<lambda>r. h\<lparr>mres := r\<rparr>) (deallocate p (cap * meta_size) meta_align (mres h)))"

text \<open>\<open>emplace_back(std::move(data))\<close>: \<open>Inl\<close> of the unchanged vector when the storage cannot grow.\<close>

definition emplace_back :: "meta_data \<Rightarrow> 'a shared_memory \<Rightarrow> ((exn + meta_data) \<times> 'a shared_memory) option" where
  "emplace_back data sm =
     (if length (memory sm) < vec_capacity sm
      then Some (Inr (snd (meta_move data)), sm\<lparr>memory := memory sm @ [fst (meta_move data)]\<rparr>)
      else
        let cap = max 1 (2 * vec_capacity sm) in
        case allocate (cap * meta_size) meta_align (mres (heap sm)) of
          None \<Rightarrow> Some (Inl Exn_bad_alloc, sm)
        | Some (p, r) \<Rightarrow>
            Option.bind (relocate (memory sm) ((heap sm)\<lparr>mres := r\<rparr>)) (\<lambda>(ms, h).
              map_option (\<lambda>h'. (Inr (snd (meta_move data)),
                  sm\<lparr>memory := ms @ [fst (meta_move data)], vec_data := p, vec_capacity := cap, heap := h'\<rparr>))
                (free_storage (vec_data sm) (vec_capacity sm) h)))"

text \<open>\<open>get\<close> is \<open>read\<close> under the shared lock.\<close>

definition sm_get :: "u64 \<Rightarrow> 'a shared_memory \<Rightarrow> address" where
  "sm_get k sm = read k sm"

text \<open>The part of \<open>get_or_construct\<close> under the exclusive lock.  \<open>None\<close> is undefined behaviour.\<close>

definition locked_construct ::
  "u64 \<Rightarrow> ctype \<Rightarrow> 'a option \<Rightarrow> 'a shared_memory \<Rightarrow> ((exn + address) \<times> 'a shared_memory) option" where
  "locked_construct k T ctor sm =
     (let elem = read k sm in
      if elem \<noteq> 0 then Some (Inr elem, sm)
      else
        case meta_create k T ctor (heap sm) of
          (Inl e, h) \<Rightarrow> Some (Inl e, sm\<lparr>heap := h\<rparr>)
        | (Inr data, h) \<Rightarrow>
            (let elem = object data in
             Option.bind (emplace_back data (sm\<lparr>heap := h\<rparr>)) (\<lambda>(out, sm1).
               case out of
                 Inl e \<Rightarrow> map_option (\<lambda>h1. (Inl e, sm1\<lparr>heap := h1\<rparr>)) (meta_destroy data (heap sm1))
               | Inr rest \<Rightarrow> map_option (\<lambda>h1. (Inr elem, sm1\<lparr>heap := h1\<rparr>)) (meta_destroy rest (heap sm1)))))"

definition get_or_construct ::
  "u64 \<Rightarrow> ctype \<Rightarrow> 'a option \<Rightarrow> 'a shared_memory \<Rightarrow> ((exn + address) \<times> 'a shared_memory) option" where
  "get_or_construct k T ctor sm =
     (let elem = sm_get k sm in
      if elem \<noteq> 0 then Some (Inr elem, sm) else locked_construct k T ctor sm)"

text \<open>The destructor is the one of the vector: the elements, then the storage.\<close>

fun destroy_all :: "meta_data list \<Rightarrow> 'a heap \<Rightarrow> 'a heap option" where
  "destroy_all [] h = Some h"
| "destroy_all (m # ms) h = Option.bind (meta_destroy m h) (destroy_all ms)"

definition destroy_shared_memory :: "'a shared_memory \<Rightarrow> 'a heap option" where
  "destroy_shared_memory sm =
     Option.bind (destroy_all (memory sm) (heap sm)) (free_storage (vec_data sm) (vec_capacity sm))"

section \<open>Well-formed containers\<close>

text \<open>The type of the object under a key, which only its destructor remembers.\<close>

definition stored_type :: "u64 \<Rightarrow> 'a shared_memory \<Rightarrow> ctype option" where
  "stored_type k sm =
     (case find (\<lambda>item. key item = k) (memory sm) of
        None \<Rightarrow> None
      | Some item \<Rightarrow> map_option obj_type (dtor item))"

definition element_blocks :: "meta_data \<Rightarrow> block_list" where
  "element_blocks m =
     (case dtor m of
        None \<Rightarrow> []
      | Some d \<Rightarrow> [(obj d, size_of (obj_type d), align_of (obj_type d)), (self d, destructor_size, max_align)])"

definition storage_blocks :: "address \<Rightarrow> nat \<Rightarrow> block_list" where
  "storage_blocks p cap = (if cap = 0 then [] else [(p, cap * meta_size, meta_align)])"

definition element_ok :: "meta_data \<Rightarrow> bool" where
  "element_ok m \<longleftrightarrow> object m \<noteq> 0 \<and> (\<exists>d. dtor m = Some d \<and> obj d = object m)"

text \<open>
  The container owns the blocks of its elements and of its storage, and its objects are all the
  objects there are beside the foreign ones at the addresses \<open>F\<close>.
\<close>

definition sm_ok :: "(address \<rightharpoonup> nat \<times> nat) \<Rightarrow> address set \<Rightarrow> 'a shared_memory \<Rightarrow> bool" where
  "sm_ok base F sm \<longleftrightarrow> (\<forall>m \<in> set (memory sm). element_ok m) \<and> distinct (map key (memory sm))
     \<and> length (memory sm) \<le> vec_capacity sm
     \<and> owns base (concat (map element_blocks (memory sm)) @ storage_blocks (vec_data sm) (vec_capacity sm))
         (mres (heap sm))
     \<and> dom (store (heap sm)) = F \<union> object ` set (memory sm) \<and> F \<inter> object ` set (memory sm) = {}
     \<and> distinct (map object (memory sm)) \<and> (\<forall>a \<in> F. base a \<noteq> None)"

lemma sm_ok_make: "owns base [] (mres h) \<Longrightarrow> dom (store h) = F \<Longrightarrow> (\<forall>a \<in> F. base a \<noteq> None)
    \<Longrightarrow> sm_ok base F (make_shared_memory h)"
  by (simp add: sm_ok_def make_shared_memory_def storage_blocks_def)

lemma move_element [simp, res_simps]:
  "fst (meta_move m) = \<lparr>dtor = dtor m, key = key m, object = object m\<rparr>" "dtor (snd (meta_move m)) = None"
  by (simp_all add: meta_move_def empty_meta_def)

lemma destroy_moved [simp, res_simps]: "meta_destroy (snd (meta_move m)) h = Some h"
  by (simp add: meta_destroy_def)

lemma relocate_ok [simp, res_simps]: "relocate ms h = Some (map (\<lambda>m. fst (meta_move m)) ms, h)"
  by (induction ms arbitrary: h) simp_all

lemma meta_eta [simp, res_simps]: "\<lparr>dtor = dtor m, key = key m, object = object m\<rparr> = (m :: meta_data)"
  by simp

text \<open>The four outcomes of the factory.\<close>

lemma meta_create_cases:
  assumes "owns base bl (mres h)" "0 < align_of T"
  obtains
    (no_memory) "quota (mres h) < size_of T" "meta_create k T ctor h = (Inl Exn_bad_alloc, h)"
  | (throws) p r where "size_of T \<le> quota (mres h)" "ctor = None"
      "meta_create k T ctor h = (Inl Exn_constructor, h\<lparr>mres := r\<rparr>)" "owns base ((p, size_of T, align_of T) # bl) r" "p \<noteq> 0"
  | (leaks) p r x where "size_of T \<le> quota (mres h)" "quota (mres h) < size_of T + destructor_size" "ctor = Some x"
      "meta_create k T ctor h = (Inl Exn_bad_alloc, h\<lparr>mres := r, store := (store h)(p \<mapsto> x)\<rparr>)"
      "owns base ((p, size_of T, align_of T) # bl) r" "p \<noteq> 0"
  | (created) m r x where "size_of T + destructor_size \<le> quota (mres h)" "ctor = Some x"
      "meta_create k T ctor h = (Inr m, h\<lparr>mres := r, store := (store h)(object m \<mapsto> x)\<rparr>)"
      "owns base (element_blocks m @ bl) r" "element_ok m" "key m = k" "map_option obj_type (dtor m) = Some T"
proof (cases "allocate (size_of T) (align_of T) (mres h)")
  case None
  then have "quota (mres h) < size_of T" by (simp add: allocate_def Let_def split: if_splits)
  with None that(1) show ?thesis by (simp add: meta_create_def)
next
  case (Some pr)
  then obtain p r where al: "allocate (size_of T) (align_of T) (mres h) = Some (p, r)" by (cases pr) auto
  from owns_alloc [OF assms al] have o: "p \<noteq> 0" "owns base ((p, size_of T, align_of T) # bl) r" by auto
  have q: "size_of T \<le> quota (mres h)" "quota r = quota (mres h) - size_of T"
    using al by (auto simp: allocate_def Let_def split: if_splits)
  show ?thesis
  proof (cases ctor)
    case None
    with al o q that(2) show ?thesis by (simp add: meta_create_def)
  next
    case (Some x)
    show ?thesis
    proof (cases "allocate destructor_size max_align r")
      case None
      then have "quota r < destructor_size" by (simp add: allocate_def Let_def split: if_splits)
      with None Some al o q that(3) show ?thesis by (simp add: meta_create_def)
    next
      case (Some qr)
      then obtain q' r' where al': "allocate destructor_size max_align r = Some (q', r')" by (cases qr) auto
      define m where "m = \<lparr>dtor = Some \<lparr>self = q', obj = p, obj_type = T\<rparr>, key = k, object = p\<rparr>"
      have "0 < max_align" by (simp add: max_align_def)
      from owns_alloc [OF o(2) this al'] have "owns base ((q', destructor_size, max_align) # (p, size_of T, align_of T) # bl) r'" by blast
      then have own: "owns base (element_blocks m @ bl) r'" by (rule owns_perm) (simp add: m_def element_blocks_def add_mset_commute)
      have "destructor_size \<le> quota r" using al' by (auto simp: allocate_def Let_def split: if_splits)
      with q have enough: "size_of T + destructor_size \<le> quota (mres h)" by simp
      have "meta_create k T ctor h = (Inr m, h\<lparr>mres := r', store := (store h)(object m \<mapsto> x)\<rparr>)"
        using al al' \<open>ctor = Some x\<close> by (simp add: meta_create_def m_def)
      moreover have "element_ok m" "key m = k" "map_option obj_type (dtor m) = Some T" using o(1) by (simp_all add: m_def element_ok_def)
      ultimately show ?thesis using that(4) own enough \<open>ctor = Some x\<close> by blast
    qed
  qed
qed

lemma meta_destroy_ok:
  assumes "owns base (element_blocks m @ bl) (mres h)" "element_ok m" "store h (object m) \<noteq> None"
  shows "\<exists>r. meta_destroy m h = Some (h\<lparr>store := (store h)(object m := None), mres := r\<rparr>) \<and> owns base bl r"
proof -
  from assms(2) obtain d where d: "dtor m = Some d" "obj d = object m" by (auto simp: element_ok_def)
  from assms(1) d have "owns base ((obj d, size_of (obj_type d), align_of (obj_type d))
      # (self d, destructor_size, max_align) # bl) (mres h)" by (simp add: element_blocks_def)
  from owns_dealloc [OF this] obtain r where
    r: "deallocate (obj d) (size_of (obj_type d)) (align_of (obj_type d)) (mres h) = Some r"
      "owns base ((self d, destructor_size, max_align) # bl) r" by blast
  from owns_dealloc [OF r(2)] obtain r' where
    "deallocate (self d) destructor_size max_align r = Some r'" "owns base bl r'" by blast
  with r d assms(3) show ?thesis by (auto simp: meta_destroy_def call_dtor_def destroy_dtor_def)
qed

lemma free_storage_ok:
  assumes "owns base (storage_blocks p cap @ bl) (mres h)"
  shows "\<exists>r. free_storage p cap h = Some (h\<lparr>mres := r\<rparr>) \<and> owns base bl r"
proof (cases "cap = 0")
  case True
  with assms show ?thesis by (intro exI [of _ "mres h"]) (simp add: free_storage_def storage_blocks_def)
next
  case False
  with assms have "owns base ((p, cap * meta_size, meta_align) # bl) (mres h)" by (simp add: storage_blocks_def)
  from owns_dealloc [OF this] False show ?thesis by (auto simp: free_storage_def)
qed

text \<open>Pushing an element: it is at the end, and whatever else the container owns stays its own.\<close>

lemma emplace_back_cases:
  assumes "owns base (storage_blocks (vec_data sm) (vec_capacity sm) @ bl) (mres (heap sm))"
    "length (memory sm) \<le> vec_capacity sm"
  obtains (full) "emplace_back data sm = Some (Inl Exn_bad_alloc, sm)"
      "vec_capacity sm \<le> length (memory sm)" "quota (mres (heap sm)) < max 1 (2 * vec_capacity sm) * meta_size"
  | (pushed) p cap r where "emplace_back data sm = Some (Inr (snd (meta_move data)),
        sm\<lparr>memory := memory sm @ [data], vec_data := p, vec_capacity := cap, heap := (heap sm)\<lparr>mres := r\<rparr>\<rparr>)"
      "length (memory sm) < cap" "owns base (storage_blocks p cap @ bl) r"
proof (cases "length (memory sm) < vec_capacity sm")
  case True
  then have "emplace_back data sm = Some (Inr (snd (meta_move data)), sm\<lparr>memory := memory sm @ [data],
      vec_data := vec_data sm, vec_capacity := vec_capacity sm, heap := (heap sm)\<lparr>mres := mres (heap sm)\<rparr>\<rparr>)"
    by (simp add: emplace_back_def)
  with that(2) True assms(1) show ?thesis by blast
next
  case False
  define cap where "cap = max 1 (2 * vec_capacity sm)"
  have cap: "length (memory sm) < cap" "cap \<noteq> 0" using False assms(2) by (auto simp: cap_def)
  show ?thesis
  proof (cases "allocate (cap * meta_size) meta_align (mres (heap sm))")
    case None
    then have "quota (mres (heap sm)) < cap * meta_size" by (simp add: allocate_def Let_def split: if_splits)
    with None False that(1) show ?thesis by (simp add: emplace_back_def Let_def cap_def)
  next
    case (Some pr)
    then obtain p r where al: "allocate (cap * meta_size) meta_align (mres (heap sm)) = Some (p, r)" by (cases pr) auto
    have "0 < meta_align" by (simp add: meta_align_def)
    from owns_alloc [OF assms(1) this al] have
      "owns base (storage_blocks p cap @ storage_blocks (vec_data sm) (vec_capacity sm) @ bl) r"
      using cap(2) by (simp add: storage_blocks_def)
    then have "owns base (storage_blocks (vec_data sm) (vec_capacity sm) @ storage_blocks p cap @ bl) r"
      by (rule owns_perm) (simp add: union_commute)
    then have "owns base (storage_blocks (vec_data sm) (vec_capacity sm) @ storage_blocks p cap @ bl)
        (mres ((heap sm)\<lparr>mres := r\<rparr>))" by simp
    from free_storage_ok [OF this] obtain r' where
      fr: "free_storage (vec_data sm) (vec_capacity sm) ((heap sm)\<lparr>mres := r\<rparr>) = Some ((heap sm)\<lparr>mres := r'\<rparr>)"
        "owns base (storage_blocks p cap @ bl) r'" by auto
    have "emplace_back data sm = Some (Inr (snd (meta_move data)), sm\<lparr>memory := memory sm @ [data],
        vec_data := p, vec_capacity := cap, heap := (heap sm)\<lparr>mres := r'\<rparr>\<rparr>)"
      using False al fr(1) by (simp add: emplace_back_def Let_def cap_def)
    with cap fr(2) that(2) show ?thesis by blast
  qed
qed

lemma find_key: "distinct (map key ms) \<Longrightarrow> m \<in> set ms \<Longrightarrow> find (\<lambda>item. key item = key m) ms = Some m"
  by (induction ms) (auto simp: image_iff)

lemma read_member:
  assumes "sm_ok base F sm" "m \<in> set (memory sm)"
  shows "read (key m) sm = object m \<and> object m \<noteq> 0"
  using assms find_key [of "memory sm" m] by (auto simp: sm_ok_def read_def element_ok_def)

lemma read_absent: "k \<notin> key ` set (memory sm) \<Longrightarrow> read k sm = 0"
proof -
  assume "k \<notin> key ` set (memory sm)"
  then have "find (\<lambda>item. key item = k) (memory sm) = None" by (auto simp: find_None_iff)
  then show ?thesis by (simp add: read_def)
qed

lemma read_0_iff:
  assumes "sm_ok base F sm"
  shows "read k sm = 0 \<longleftrightarrow> k \<notin> key ` set (memory sm)"
proof
  assume "read k sm = 0"
  with read_member [OF assms] show "k \<notin> key ` set (memory sm)" by (metis imageE)
qed (rule read_absent)

lemma read_push:
  assumes "k \<notin> key ` set (memory sm)" "memory sm' = memory sm @ [m]" "key m = k"
  shows "read k sm' = object m" "k' \<noteq> k \<Longrightarrow> read k' sm' = read k' sm"
proof -
  have f: "find P (xs @ ys) = (case find P xs of None \<Rightarrow> find P ys | Some x \<Rightarrow> Some x)" for P and xs ys :: "meta_data list"
    by (induction xs) auto
  have "find (\<lambda>item. key item = k) (memory sm) = None" using assms(1) by (auto simp: find_None_iff)
  with assms(2,3) show "read k sm' = object m" by (simp add: read_def f)
  show "k' \<noteq> k \<Longrightarrow> read k' sm' = read k' sm"
    using assms(2,3) by (simp add: read_def f split: option.split)
qed

lemma find_append:
  "find P (xs @ ys) = (case find P xs of None \<Rightarrow> find P ys | Some x \<Rightarrow> Some x)" for P and xs ys :: "meta_data list"
  by (induction xs) auto

lemma stored_push:
  assumes "read k sm = 0" "sm_ok base F sm" "memory sm' = memory sm @ [m]" "key m = k"
  shows "stored_type k' sm' = (if k' = k then map_option obj_type (dtor m) else stored_type k' sm)"
proof -
  have "find (\<lambda>item. key item = k) (memory sm) = None"
    using read_0_iff [OF assms(2)] assms(1) by (auto simp: find_None_iff)
  with assms(3,4) show ?thesis by (simp add: stored_type_def find_append split: option.split)
qed

lemma stored_same: "memory sm' = memory sm \<Longrightarrow> stored_type k sm' = stored_type k sm"
  by (simp add: stored_type_def)

text \<open>A pointer that is read refers to a live object.\<close>

lemma stored_alive:
  assumes "sm_ok base F sm" "read k sm \<noteq> 0"
  shows "stored_type k sm \<noteq> None \<and> store (heap sm) (read k sm) \<noteq> None"
proof -
  from assms(2) obtain m where m: "find (\<lambda>item. key item = k) (memory sm) = Some m" "read k sm = object m"
    by (auto simp: read_def split: option.splits)
  from m(1) have "m \<in> set (memory sm)" by (auto simp: find_Some_iff)
  with assms(1) have "element_ok m" "object m \<in> dom (store (heap sm))" by (auto simp: sm_ok_def)
  with m show ?thesis by (auto simp: stored_type_def element_ok_def)
qed

lemma owned_addresses:
  assumes "sm_ok base F sm" "owns base bl r" "b \<in> set bl"
  shows "fst b \<notin> F"
  using assms by (auto simp: sm_ok_def owns_def)

lemma object_blocks:
  assumes "sm_ok base F sm"
  shows "object ` set (memory sm) \<subseteq> fst ` set (concat (map element_blocks (memory sm)))"
proof
  fix a assume "a \<in> object ` set (memory sm)"
  then obtain m where m: "m \<in> set (memory sm)" "a = object m" by blast
  with assms obtain d where "dtor m = Some d" "obj d = a" by (auto simp: sm_ok_def element_ok_def)
  then have "a \<in> fst ` set (element_blocks m)" by (simp add: element_blocks_def)
  with m(1) show "a \<in> fst ` set (concat (map element_blocks (memory sm)))" by auto
qed

text \<open>What an exception leaves behind: the block of the object, when the functor's memory is refused.\<close>

definition loses_block :: "ctype \<Rightarrow> 'a option \<Rightarrow> 'a shared_memory \<Rightarrow> bool" where
  "loses_block T ctor sm \<longleftrightarrow> size_of T \<le> quota (mres (heap sm))
     \<and> (ctor = None \<or> quota (mres (heap sm)) < size_of T + destructor_size)"

lemma locked_construct_spec:
  assumes ok: "sm_ok base F sm" and al: "0 < align_of T"
  shows "\<exists>out sm'. locked_construct k T ctor sm = Some (out, sm') \<and>
    (case out of
       Inr p \<Rightarrow> sm_ok base F sm' \<and> p \<noteq> 0 \<and> read k sm' = p \<and> (\<forall>k'. k' \<noteq> k \<longrightarrow> read k' sm' = read k' sm)
         \<and> (if read k sm \<noteq> 0 then sm' = sm
            else store (heap sm) p = None \<and> ctor \<noteq> None \<and> store (heap sm') = (store (heap sm))(p := ctor)
              \<and> p \<notin> F \<and> stored_type k sm' = Some T \<and> (\<forall>k'. k' \<noteq> k \<longrightarrow> stored_type k' sm' = stored_type k' sm))
     | Inl e \<Rightarrow> read k sm = 0 \<and> memory sm' = memory sm
         \<and> (if loses_block T ctor sm
            then \<exists>p. base p = None \<and> sm_ok (base(p \<mapsto> (size_of T, align_of T))) (if ctor = None then F else insert p F) sm'
            else sm_ok base F sm'))"
proof (cases "read k sm = 0")
  case False
  with ok show ?thesis by (simp add: locked_construct_def)
next
  case True
  define els where "els = concat (map element_blocks (memory sm))"
  define sto where "sto = storage_blocks (vec_data sm) (vec_capacity sm)"
  have own: "owns base (els @ sto) (mres (heap sm))" using ok by (simp add: sm_ok_def els_def sto_def)
  have absent: "k \<notin> key ` set (memory sm)" using True read_0_iff [OF ok] by simp
  show ?thesis
    using own al
  proof (cases rule: meta_create_cases [where k = k and ctor = ctor])
    case no_memory
    then have "locked_construct k T ctor sm = Some (Inl Exn_bad_alloc, sm)" using True by (simp add: locked_construct_def)
    with no_memory ok True show ?thesis by (simp add: loses_block_def)
  next
    case (throws p r)
    from owns_forget [of base p "size_of T" "align_of T"] throws(4) have
      o: "base p = None" "owns (base(p \<mapsto> (size_of T, align_of T))) (els @ sto) r" by auto
    have "locked_construct k T ctor sm = Some (Inl Exn_constructor, sm\<lparr>heap := (heap sm)\<lparr>mres := r\<rparr>\<rparr>)"
      using True throws by (simp add: locked_construct_def)
    moreover have "sm_ok (base(p \<mapsto> (size_of T, align_of T))) F (sm\<lparr>heap := (heap sm)\<lparr>mres := r\<rparr>\<rparr>)"
      using ok o by (simp add: sm_ok_def els_def sto_def)
    ultimately show ?thesis using throws o True by (auto simp: loses_block_def)
  next
    case (leaks p r x)
    from owns_forget [of base p "size_of T" "align_of T"] leaks(5) have
      o: "base p = None" "owns (base(p \<mapsto> (size_of T, align_of T))) (els @ sto) r" by auto
    define sm' where "sm' = sm\<lparr>heap := (heap sm)\<lparr>mres := r, store := (store (heap sm))(p \<mapsto> x)\<rparr>\<rparr>"
    have "locked_construct k T ctor sm = Some (Inl Exn_bad_alloc, sm')"
      using True leaks by (simp add: locked_construct_def sm'_def)
    moreover have "p \<notin> object ` set (memory sm)"
      using object_blocks [OF ok] leaks(5) by (auto simp: owns_def els_def)
    then have "sm_ok (base(p \<mapsto> (size_of T, align_of T))) (insert p F) sm'"
      using ok o by (auto simp: sm_ok_def els_def sto_def sm'_def)
    ultimately show ?thesis using leaks o True by (auto simp: loses_block_def sm'_def)
  next
    case (created m r x)
    define p where "p = object m"
    define sm1 where "sm1 = sm\<lparr>heap := (heap sm)\<lparr>mres := r, store := (store (heap sm))(p \<mapsto> x)\<rparr>\<rparr>"
    obtain d where d: "dtor m = Some d" "obj d = p" "p \<noteq> 0" using created(5) by (auto simp: element_ok_def p_def)
    have pblk: "p \<in> fst ` set (element_blocks m)" using d by (simp add: element_blocks_def)
    have notobj: "p \<notin> object ` set (memory sm)"
    proof -
      have "fst ` set (element_blocks m) \<inter> fst ` set els = {}" using created(4) by (simp add: owns_def) blast
      with object_blocks [OF ok] pblk show ?thesis unfolding els_def by blast
    qed
    have "base p = None" using created(4) pblk by (auto simp: owns_def)
    then have notF: "p \<notin> F" using ok unfolding sm_ok_def by blast
    have fresh: "store (heap sm) p = None" using ok notobj notF by (auto simp: sm_ok_def domIff)
    have own1: "owns base (storage_blocks (vec_data sm1) (vec_capacity sm1) @ element_blocks m @ els) (mres (heap sm1))"
      unfolding sm1_def using owns_perm [OF created(4), of "sto @ element_blocks m @ els"]
      by (simp add: sto_def union_commute)
    have len: "length (memory sm1) \<le> vec_capacity sm1" using ok by (simp add: sm_ok_def sm1_def)
    have lc: "locked_construct k T ctor sm = Option.bind (emplace_back m sm1) (\<lambda>(out, sm1). case out of
          Inl e \<Rightarrow> map_option (\<lambda>h1. (Inl e, sm1\<lparr>heap := h1\<rparr>)) (meta_destroy m (heap sm1))
        | Inr rest \<Rightarrow> map_option (\<lambda>h1. (Inr (object m), sm1\<lparr>heap := h1\<rparr>)) (meta_destroy rest (heap sm1)))"
      using True created(3) by (simp add: locked_construct_def Let_def sm1_def p_def)
    have nl: "\<not> loses_block T ctor sm" using created(1,2) by (simp add: loses_block_def)
    show ?thesis
      using own1 len
    proof (cases rule: emplace_back_cases [where data = m])
      case full
      have "owns base (element_blocks m @ (els @ storage_blocks (vec_data sm1) (vec_capacity sm1))) (mres (heap sm1))"
        using own1 by (rule owns_perm) (simp add: union_commute)
      from meta_destroy_ok [OF this created(5)] obtain r' where
        md: "meta_destroy m (heap sm1) = Some ((heap sm1)\<lparr>store := (store (heap sm1))(p := None), mres := r'\<rparr>)"
          "owns base (els @ sto) r'"
        by (auto simp: sm1_def p_def sto_def)
      have "(store (heap sm1))(p := None) = store (heap sm)" using fresh by (simp add: sm1_def fun_upd_idem)
      with md lc full ok nl True show ?thesis by (auto simp: sm_ok_def sm1_def els_def sto_def)
    next
      case (pushed q cap r')
      define sm2 where "sm2 = sm1\<lparr>memory := memory sm1 @ [m], vec_data := q, vec_capacity := cap,
        heap := (heap sm1)\<lparr>mres := r'\<rparr>\<rparr>"
      have mem: "memory sm2 = memory sm @ [m]" by (simp add: sm2_def sm1_def)
      have "owns base ((els @ element_blocks m) @ storage_blocks q cap) r'"
        using pushed(3) by (rule owns_perm) (simp add: union_commute)
      then have "sm_ok base F sm2"
        using ok pushed(2) absent notobj notF created(5,6)
        by (auto simp: sm_ok_def sm2_def sm1_def els_def p_def)
      moreover have "locked_construct k T ctor sm = Some (Inr p, sm2)"
        using lc pushed(1) by (simp add: sm2_def p_def)
      moreover have "stored_type k' sm2 = (if k' = k then Some T else stored_type k' sm)" for k'
        using stored_push [OF True ok mem created(6), of k'] created(7) by simp
      ultimately show ?thesis
        using read_push [OF absent mem created(6)] True fresh created(2) d(3) notF
        by (simp add: p_def) (simp add: sm2_def sm1_def p_def)
    qed
  qed
qed

lemma destroy_all_ok:
  assumes "\<forall>m \<in> set ms. element_ok m" "distinct (map object ms)" "owns base (concat (map element_blocks ms) @ bl) (mres h)"
    "object ` set ms \<subseteq> dom (store h)"
  shows "\<exists>h'. destroy_all ms h = Some h' \<and> owns base bl (mres h') \<and> dom (store h') = dom (store h) - object ` set ms
    \<and> (\<forall>a. a \<notin> object ` set ms \<longrightarrow> store h' a = store h a)"
  using assms
proof (induction ms arbitrary: h)
  case Nil
  then show ?case by simp
next
  case (Cons m ms)
  have "owns base (element_blocks m @ (concat (map element_blocks ms) @ bl)) (mres h)" "element_ok m"
    "store h (object m) \<noteq> None" using Cons.prems by auto
  from meta_destroy_ok [OF this] obtain r where
    d: "meta_destroy m h = Some (h\<lparr>store := (store h)(object m := None), mres := r\<rparr>)"
      "owns base (concat (map element_blocks ms) @ bl) r" by blast
  define h1 where "h1 = h\<lparr>store := (store h)(object m := None), mres := r\<rparr>"
  have "object ` set ms \<subseteq> dom (store h1)"
  proof
    fix a assume a: "a \<in> object ` set ms"
    with Cons.prems(2) have "a \<noteq> object m" by (metis distinct.simps(2) list.simps(9) set_map)
    moreover from a Cons.prems(4) have "a \<in> dom (store h)" by auto
    ultimately show "a \<in> dom (store h1)" by (simp add: h1_def)
  qed
  moreover have "\<forall>m \<in> set ms. element_ok m" "distinct (map object ms)" using Cons.prems(1,2) by simp_all
  moreover have "owns base (concat (map element_blocks ms) @ bl) (mres h1)" using d(2) by (simp add: h1_def)
  ultimately have "\<exists>h'. destroy_all ms h1 = Some h' \<and> owns base bl (mres h') \<and> dom (store h') = dom (store h1) - object ` set ms
    \<and> (\<forall>a. a \<notin> object ` set ms \<longrightarrow> store h' a = store h1 a)"
    by (intro Cons.IH)
  with d(1) show ?case by (auto simp: h1_def)
qed

lemma destroy_shared_memory_ok:
  assumes "sm_ok base F sm"
  shows "\<exists>h. destroy_shared_memory sm = Some h \<and> live (mres h) = base
    \<and> store h = restrict_map (store (heap sm)) F"
proof -
  from assms have "\<forall>m \<in> set (memory sm). element_ok m" "distinct (map object (memory sm))"
    "owns base (concat (map element_blocks (memory sm)) @ storage_blocks (vec_data sm) (vec_capacity sm)) (mres (heap sm))"
    "object ` set (memory sm) \<subseteq> dom (store (heap sm))"
    by (auto simp: sm_ok_def)
  from destroy_all_ok [OF this] obtain h where
    h: "destroy_all (memory sm) (heap sm) = Some h" "owns base (storage_blocks (vec_data sm) (vec_capacity sm) @ []) (mres h)"
      "dom (store h) = dom (store (heap sm)) - object ` set (memory sm)"
      "\<forall>a. a \<notin> object ` set (memory sm) \<longrightarrow> store h a = store (heap sm) a" by auto
  have F: "dom (store (heap sm)) = F \<union> object ` set (memory sm)" "F \<inter> object ` set (memory sm) = {}"
    using assms by (simp_all add: sm_ok_def)
  have "store h a = restrict_map (store (heap sm)) F a" for a
  proof (cases "a \<in> F")
    case True
    then have "a \<notin> object ` set (memory sm)" using F(2) by blast
    with True h(4) show ?thesis by simp
  next
    case False
    then have "a \<notin> dom (store h)" unfolding h(3) F(1) by simp
    with False show ?thesis by (simp add: domIff)
  qed
  then have st: "store h = restrict_map (store (heap sm)) F" by blast
  from free_storage_ok [OF h(2)] obtain r where
    "free_storage (vec_data sm) (vec_capacity sm) h = Some (h\<lparr>mres := r\<rparr>)" "owns base [] r" by blast
  moreover from this(2) have "live r = base" by (rule owns_live)
  ultimately show ?thesis using h(1) st
    by (intro exI [of _ "h\<lparr>mres := r\<rparr>"]) (simp add: destroy_shared_memory_def)
qed

text \<open>A sequence of calls, with their outcomes.\<close>

type_synonym 'a sm_call = "u64 \<times> ctype \<times> 'a option"

fun run_calls :: "'a sm_call list \<Rightarrow> 'a shared_memory \<Rightarrow> ((exn + address) list \<times> 'a shared_memory) option" where
  "run_calls [] sm = Some ([], sm)"
| "run_calls ((k, T, ctor) # cs) sm =
     Option.bind (get_or_construct k T ctor sm) (\<lambda>(out, sm1).
       map_option (\<lambda>(outs, sm2). (out # outs, sm2)) (run_calls cs sm1))"

lemma get_or_construct_locked: "get_or_construct k T ctor sm = locked_construct k T ctor sm"
  by (cases "read k sm = 0") (simp_all add: get_or_construct_def locked_construct_def sm_get_def)

lemma locked_construct_outcome:
  assumes "sm_ok base F sm" "0 < align_of T"
  obtains (gives) p sm' where "locked_construct k T ctor sm = Some (Inr p, sm')" "sm_ok base F sm'" "p \<noteq> 0"
      "read k sm' = p" "\<And>k'. k' \<noteq> k \<Longrightarrow> read k' sm' = read k' sm" "read k sm \<noteq> 0 \<Longrightarrow> sm' = sm"
      "\<And>a. a \<in> F \<Longrightarrow> store (heap sm') a = store (heap sm) a"
      "\<And>k' T'. stored_type k' sm' = Some T' \<Longrightarrow> stored_type k' sm = Some T' \<or> k' = k \<and> T' = T"
  | (thrown) e sm' base' F' where "locked_construct k T ctor sm = Some (Inl e, sm')" "sm_ok base' F' sm'"
      "read k sm = 0" "memory sm' = memory sm"
proof -
  from locked_construct_spec [OF assms, of k ctor] obtain out sm' where
    l: "locked_construct k T ctor sm = Some (out, sm')" by blast
  note spec = locked_construct_spec [OF assms, of k ctor]
  show ?thesis
  proof (cases out)
    case (Inl e)
    with spec l that(2) show ?thesis by (cases "loses_block T ctor sm") auto
  next
    case (Inr p)
    have r: "sm_ok base F sm'" "p \<noteq> 0" "read k sm' = p" "\<forall>k'. k' \<noteq> k \<longrightarrow> read k' sm' = read k' sm"
      "read k sm \<noteq> 0 \<longrightarrow> sm' = sm"
      "read k sm = 0 \<longrightarrow> store (heap sm') = (store (heap sm))(p := ctor) \<and> p \<notin> F \<and> stored_type k sm' = Some T
        \<and> (\<forall>k'. k' \<noteq> k \<longrightarrow> stored_type k' sm' = stored_type k' sm)"
      using spec l Inr by simp_all
    have "store (heap sm') a = store (heap sm) a" if "a \<in> F" for a
      using r(5,6) that by (cases "read k sm = 0") auto
    moreover have "stored_type k' sm = Some T' \<or> k' = k \<and> T' = T" if "stored_type k' sm' = Some T'" for k' T'
      using r(5,6) that by (cases "read k sm = 0"; cases "k' = k") auto
    ultimately show ?thesis using that(1) l Inr r(1-5) by blast
  qed
qed

text \<open>
  A program gives every key one type, \<open>ty\<close>.  Then the pointer of every call that returned keeps being the one
  under its key, and foreign objects keep their values.
\<close>

definition typed :: "(u64 \<Rightarrow> ctype) \<Rightarrow> 'a shared_memory \<Rightarrow> bool" where
  "typed ty sm \<longleftrightarrow> (\<forall>k T. stored_type k sm = Some T \<longrightarrow> T = ty k)"

lemma run_calls_ok:
  assumes "sm_ok base F sm" "typed ty sm" "\<forall>(k, T, ctor) \<in> set cs. T = ty k \<and> 0 < align_of T"
  shows "\<exists>outs sm'. run_calls cs sm = Some (outs, sm') \<and> (\<exists>base' F'. sm_ok base' F' sm') \<and> typed ty sm'
    \<and> (\<forall>k. read k sm \<noteq> 0 \<longrightarrow> read k sm' = read k sm)
    \<and> list_all2 (\<lambda>(k, T, ctor) out. \<forall>p. out = Inr p \<longrightarrow> p \<noteq> 0 \<and> read k sm' = p) cs outs
    \<and> ((\<forall>out \<in> set outs. \<exists>p. out = Inr p)
        \<longrightarrow> sm_ok base F sm' \<and> (\<forall>a \<in> F. store (heap sm') a = store (heap sm) a))"
  using assms
proof (induction cs arbitrary: base F sm)
  case Nil
  then show ?case by auto
next
  case (Cons c cs)
  obtain k T ctor where c: "c = (k, T, ctor)" by (cases c) auto
  with Cons.prems have T: "T = ty k" and al: "0 < align_of T" by auto
  have cs: "\<forall>(k, T, ctor) \<in> set cs. T = ty k \<and> 0 < align_of T" using Cons.prems(3) by simp
  show ?case
    using Cons.prems(1) al
  proof (cases rule: locked_construct_outcome [where k = k and ctor = ctor])
    case (gives p sm1)
    have "typed ty sm1" using gives(8) Cons.prems(2) T by (fastforce simp: typed_def)
    from Cons.IH [OF gives(2) this cs] obtain outs sm2 where IH: "run_calls cs sm1 = Some (outs, sm2)"
      "\<exists>base' F'. sm_ok base' F' sm2" "typed ty sm2" "\<forall>k. read k sm1 \<noteq> 0 \<longrightarrow> read k sm2 = read k sm1"
      "list_all2 (\<lambda>(k, T, ctor) out. \<forall>p. out = Inr p \<longrightarrow> p \<noteq> 0 \<and> read k sm2 = p) cs outs"
      "(\<forall>out \<in> set outs. \<exists>p. out = Inr p)
        \<longrightarrow> sm_ok base F sm2 \<and> (\<forall>a \<in> F. store (heap sm2) a = store (heap sm1) a)" by blast
    have run: "run_calls (c # cs) sm = Some (Inr p # outs, sm2)"
      using gives(1) IH(1) by (simp add: c get_or_construct_locked)
    have "read k' sm2 = read k' sm" if "read k' sm \<noteq> 0" for k'
      using that gives(5,6) IH(4) by (cases "k' = k") auto
    moreover have "read k sm2 = p" using IH(4) gives(3,4) by blast
    moreover have "(\<forall>out \<in> set (Inr p # outs). \<exists>p. out = Inr p)
        \<longrightarrow> sm_ok base F sm2 \<and> (\<forall>a \<in> F. store (heap sm2) a = store (heap sm) a)"
      using IH(6) gives(7) by simp
    moreover have "list_all2 (\<lambda>(k, T, ctor) out. \<forall>p. out = Inr p \<longrightarrow> p \<noteq> 0 \<and> read k sm2 = p) (c # cs) (Inr p # outs)"
      using IH(5) calculation(2) gives(3) by (simp only: list_all2_Cons c prod.case) simp
    ultimately show ?thesis using run IH(2,3) by blast
  next
    case (thrown e sm1 base' F')
    have "typed ty sm1" using Cons.prems(2) stored_same [OF thrown(4)] by (simp add: typed_def)
    from Cons.IH [OF thrown(2) this cs] obtain outs sm2 where IH: "run_calls cs sm1 = Some (outs, sm2)"
      "\<exists>base' F'. sm_ok base' F' sm2" "typed ty sm2" "\<forall>k. read k sm1 \<noteq> 0 \<longrightarrow> read k sm2 = read k sm1"
      "list_all2 (\<lambda>(k, T, ctor) out. \<forall>p. out = Inr p \<longrightarrow> p \<noteq> 0 \<and> read k sm2 = p) cs outs" by blast
    have "read k' sm1 = read k' sm" for k' using thrown(4) by (simp add: read_def)
    with IH(4) have "\<forall>k. read k sm \<noteq> 0 \<longrightarrow> read k sm2 = read k sm" by simp
    moreover have "run_calls (c # cs) sm = Some (Inl e # outs, sm2)"
      using thrown(1) IH(1) by (simp add: c get_or_construct_locked)
    moreover have "list_all2 (\<lambda>(k, T, ctor) out. \<forall>p. out = Inr p \<longrightarrow> p \<noteq> 0 \<and> read k sm2 = p) (c # cs) (Inl e # outs)"
      using IH(5) by (simp only: list_all2_Cons c prod.case) simp
    moreover have "\<not> (\<forall>out \<in> set (Inl e # outs). \<exists>p. out = Inr p)" by simp
    ultimately show ?thesis using IH(2,3) by blast
  qed
qed

section \<open>Properties\<close>

text \<open>
  C2 [functional] A call of get_or_construct with the type of the object under its key, if there is one (the
  comments of the class require it), has no undefined behaviour.  It returns a non-null pointer to a live
  object of that type, which get then
  finds under the key, keeps every other key's pointer and type (also when the vector grows), and constructs
  an object only if the key had none: then the pointer is fresh and the object is the constructor's.
  When it throws, the elements are those of before.
\<close>

theorem get_or_construct_correct:
  assumes "sm_ok base F sm" "0 < align_of T" "stored_type k sm \<in> {None, Some T}"
  shows "\<exists>out sm'. get_or_construct k T ctor sm = Some (out, sm') \<and>
    (case out of
       Inr p \<Rightarrow> sm_ok base F sm' \<and> p \<noteq> 0 \<and> sm_get k sm' = p \<and> stored_type k sm' = Some T
         \<and> store (heap sm') p \<noteq> None
         \<and> (\<forall>k'. k' \<noteq> k \<longrightarrow> sm_get k' sm' = sm_get k' sm \<and> stored_type k' sm' = stored_type k' sm)
         \<and> (if sm_get k sm \<noteq> 0 then sm' = sm
            else store (heap sm) p = None \<and> ctor \<noteq> None \<and> store (heap sm') = (store (heap sm))(p := ctor))
     | Inl e \<Rightarrow> sm_get k sm = 0 \<and> memory sm' = memory sm)"
proof -
  from locked_construct_spec [OF assms(1,2), of k ctor] obtain out sm' where
    l: "locked_construct k T ctor sm = Some (out, sm')" by blast
  have "stored_type k sm = Some T" if "read k sm \<noteq> 0" using stored_alive [OF assms(1) that] assms(3) by auto
  with l locked_construct_spec [OF assms(1,2), of k ctor] stored_alive [of base F sm' k] show ?thesis
    unfolding get_or_construct_locked sm_get_def by (intro exI [of _ out] exI [of _ sm']) (cases out; auto)
qed

definition empty_heap :: "nat \<Rightarrow> nat heap" where
  "empty_heap q = \<lparr>mres = fresh_resource q, store = Map.empty\<rparr>"

lemma sm_ok_empty: "sm_ok Map.empty {} (make_shared_memory (empty_heap q))"
  by (rule sm_ok_make) (simp_all add: empty_heap_def)

definition t_uint64 :: ctype where "t_uint64 = \<lparr>type_id = 1, size_of = 8, align_of = 8\<rparr>"
definition t_float :: ctype where "t_float = \<lparr>type_id = 2, size_of = 4, align_of = 4\<rparr>"

theorem get_or_construct_correct_witness:
  "\<exists>p sm'. get_or_construct 5 t_uint64 (Some 42) (make_shared_memory (empty_heap 1000)) = Some (Inr p, sm')
     \<and> sm_get 5 sm' = p \<and> store (heap sm') p = Some 42"
proof -
  define sm where "sm = make_shared_memory (empty_heap 1000)"
  have ok: "sm_ok Map.empty {} sm" unfolding sm_def by (rule sm_ok_empty)
  have z: "sm_get 5 sm = 0" by (simp add: sm_def sm_get_def read_def make_shared_memory_def)
  have "map_option fst (get_or_construct 5 t_uint64 (Some 42) sm) = Some (Inr 16)"
    by (simp add: sm_def make_shared_memory_def empty_heap_def get_or_construct_def locked_construct_def
        sm_get_def read_def meta_create_def emplace_back_def free_storage_def destroy_moved allocate_def deallocate_def
        fresh_resource_def t_uint64_def t_float_def align_up_def destructor_size_def meta_size_def meta_align_def max_align_def Let_def)
  then obtain sm' where g: "get_or_construct 5 t_uint64 (Some 42) sm = Some (Inr 16, sm')" by auto
  have "stored_type 5 sm = None" "0 < align_of t_uint64"
    by (simp_all add: sm_def stored_type_def make_shared_memory_def t_uint64_def)
  with get_or_construct_correct [OF ok, of t_uint64 5 "Some 42"] g z
  have "sm_get 5 sm' = 16" "store (heap sm') = (store (heap sm))(16 \<mapsto> 42)" by auto
  with g show ?thesis unfolding sm_def by auto
qed

text \<open>
  C35 [safety] A program that uses every key with one type runs any sequence of calls without undefined
  behaviour, and every pointer it was given is still the one under its key and refers to a live object of
  that type.  If no call threw, the destructor destroys every object of the container, frees every
  block it took and changes nothing else: memory and objects are those of before.
\<close>

theorem shared_memory_cleans_up:
  assumes "owns base [] (mres h)" "\<forall>a \<in> dom (store h). base a \<noteq> None"
    "\<forall>(k, T, ctor) \<in> set cs. T = ty k \<and> 0 < align_of T"
  shows "\<exists>outs sm. run_calls cs (make_shared_memory h) = Some (outs, sm)
    \<and> list_all2 (\<lambda>(k, T, ctor) out. \<forall>p. out = Inr p \<longrightarrow>
        p \<noteq> 0 \<and> sm_get k sm = p \<and> stored_type k sm = Some T \<and> store (heap sm) p \<noteq> None) cs outs
    \<and> ((\<forall>out \<in> set outs. \<exists>p. out = Inr p) \<longrightarrow>
      (\<exists>h'. destroy_shared_memory sm = Some h' \<and> live (mres h') = live (mres h) \<and> store h' = store h))"
proof -
  have "sm_ok base (dom (store h)) (make_shared_memory h)" using assms(1,2) by (intro sm_ok_make) simp_all
  moreover have "typed ty (make_shared_memory h)" by (simp add: typed_def stored_type_def make_shared_memory_def)
  ultimately obtain outs sm base' F' where
    r: "run_calls cs (make_shared_memory h) = Some (outs, sm)" "sm_ok base' F' sm" "typed ty sm"
      "list_all2 (\<lambda>(k, T, ctor) out. \<forall>p. out = Inr p \<longrightarrow> p \<noteq> 0 \<and> read k sm = p) cs outs" and
    d: "(\<forall>out \<in> set outs. \<exists>p. out = Inr p) \<longrightarrow> sm_ok base (dom (store h)) sm
      \<and> (\<forall>a \<in> dom (store h). store (heap sm) a = store (heap (make_shared_memory h)) a)"
    using run_calls_ok [OF _ _ assms(3)] by blast
  have "list_all2 (\<lambda>(k, T, ctor) out. \<forall>p. out = Inr p \<longrightarrow>
      p \<noteq> 0 \<and> sm_get k sm = p \<and> stored_type k sm = Some T \<and> store (heap sm) p \<noteq> None) cs outs"
  proof (rule list.rel_mono_strong [OF r(4)], clarsimp)
    fix k T ctor p assume "(k, T, ctor) \<in> set cs" "0 < read k sm"
    with stored_alive [OF r(2), of k] r(3) assms(3)
    show "sm_get k sm = read k sm \<and> stored_type k sm = Some T \<and> (\<exists>y. store (heap sm) (read k sm) = Some y)"
      by (fastforce simp: typed_def sm_get_def)
  qed
  moreover have "\<exists>h'. destroy_shared_memory sm = Some h' \<and> live (mres h') = live (mres h) \<and> store h' = store h"
    if all: "\<forall>out \<in> set outs. \<exists>p. out = Inr p"
  proof -
    from d all have ok: "sm_ok base (dom (store h)) sm"
      and same: "\<forall>a \<in> dom (store h). store (heap sm) a = store h a" by (simp_all add: make_shared_memory_def)
    have "restrict_map (store (heap sm)) (dom (store h)) = store h"
    proof
      fix a show "restrict_map (store (heap sm)) (dom (store h)) a = store h a"
        using same by (cases "a \<in> dom (store h)") (auto simp: domIff)
    qed
    with destroy_shared_memory_ok [OF ok] owns_live [OF assms(1)] show ?thesis by auto
  qed
  ultimately show ?thesis using r(1) by blast
qed

definition sample_calls :: "nat sm_call list" where
  "sample_calls = [(1, t_uint64, Some 10), (2, t_float, Some 20), (1, t_uint64, Some 30)]"

lemma sample_run:
  "map_option fst (run_calls sample_calls (make_shared_memory (empty_heap 1000))) = Some [Inr 16, Inr 80, Inr 16]"
  by (simp add: sample_calls_def make_shared_memory_def empty_heap_def get_or_construct_def locked_construct_def
      sm_get_def read_def meta_create_def emplace_back_def free_storage_def destroy_moved allocate_def deallocate_def
      fresh_resource_def t_uint64_def t_float_def align_up_def destructor_size_def meta_size_def meta_align_def max_align_def Let_def)

theorem shared_memory_cleans_up_witness:
  "\<exists>sm h'. run_calls sample_calls (make_shared_memory (empty_heap 1000)) = Some ([Inr 16, Inr 80, Inr 16], sm)
     \<and> sm_get 1 sm = 16 \<and> stored_type 1 sm = Some t_uint64 \<and> stored_type 2 sm = Some t_float
     \<and> destroy_shared_memory sm = Some h' \<and> live (mres h') = Map.empty"
proof -
  have "owns Map.empty [] (mres (empty_heap 1000))" "\<forall>a \<in> dom (store (empty_heap 1000)). Map.empty a \<noteq> None"
    "\<forall>(k, T, ctor) \<in> set sample_calls. T = (if k = 1 then t_uint64 else t_float) \<and> 0 < align_of T"
    by (simp_all add: empty_heap_def sample_calls_def t_uint64_def t_float_def)
  from shared_memory_cleans_up [OF this] sample_run show ?thesis
    by (auto simp: empty_heap_def fresh_resource_def sample_calls_def)
qed

text \<open>
  A throwing construction can lose memory for good: when the constructor throws, or when the
  object is built but its destructor functor cannot be allocated, the object's block is never
  given back, not even by the container's destructor, and a built object is never destroyed.
\<close>

theorem throwing_construction_leaks:
  assumes "sm_ok base F sm" "0 < align_of T" "sm_get k sm = 0" "loses_block T ctor sm"
  shows "\<exists>e sm' h' p. get_or_construct k T ctor sm = Some (Inl e, sm') \<and> destroy_shared_memory sm' = Some h'
    \<and> base p = None \<and> live (mres h') p = Some (size_of T, align_of T) \<and> (ctor \<noteq> None \<longrightarrow> store h' p \<noteq> None)"
proof -
  have z: "read k sm = 0" using assms(3) by (simp add: sm_get_def)
  from locked_construct_spec [OF assms(1,2), of k ctor] obtain out sm' where
    l: "locked_construct k T ctor sm = Some (out, sm')" by blast
  have "\<exists>e. out = Inl e"
  proof (cases out)
    case (Inr p)
    with l z assms(4) show ?thesis
      by (auto simp: locked_construct_def Let_def meta_create_def loses_block_def allocate_def
          split: option.splits sum.splits if_splits)
  qed simp
  then obtain e where e: "out = Inl e" ..
  from locked_construct_spec [OF assms(1,2), of k ctor] l e assms(4) obtain p where
    p: "base p = None" "sm_ok (base(p \<mapsto> (size_of T, align_of T))) (if ctor = None then F else insert p F) sm'" by auto
  from destroy_shared_memory_ok [OF p(2)] obtain h' where
    h: "destroy_shared_memory sm' = Some h'" "live (mres h') = base(p \<mapsto> (size_of T, align_of T))"
      "store h' = restrict_map (store (heap sm')) (if ctor = None then F else insert p F)" by blast
  have "p \<in> dom (store (heap sm'))" if "ctor \<noteq> None" using p(2) that by (simp add: sm_ok_def)
  then have "ctor \<noteq> None \<longrightarrow> store h' p \<noteq> None" by (auto simp: h(3) restrict_map_def)
  moreover have "live (mres h') p = Some (size_of T, align_of T)" using h(2) by simp
  ultimately show ?thesis using l e p(1) h(1) unfolding get_or_construct_locked
    by (intro exI [of _ e] exI [of _ sm'] exI [of _ h'] exI [of _ p] conjI) simp_all
qed

theorem throwing_construction_leaks_witness:
  "\<exists>e sm' h' p. get_or_construct 5 t_uint64 (Some 42) (make_shared_memory (empty_heap 20)) = Some (Inl e, sm')
     \<and> destroy_shared_memory sm' = Some h' \<and> live (mres h') p = Some (8, 8) \<and> store h' p \<noteq> None"
proof -
  have "sm_get 5 (make_shared_memory (empty_heap 20)) = 0"
    by (simp add: sm_get_def read_def make_shared_memory_def)
  moreover have "loses_block t_uint64 (Some (42 :: nat)) (make_shared_memory (empty_heap 20))"
    by (simp add: loses_block_def t_uint64_def make_shared_memory_def empty_heap_def fresh_resource_def destructor_size_def)
  ultimately show ?thesis
    using throwing_construction_leaks [OF sm_ok_empty, where T = t_uint64 and k = 5 and ctor = "Some 42"]
    by (auto simp: t_uint64_def)
qed

end
