(* ===== verification/Shared_Memory_Conc.thy ===== *)
theory Shared_Memory_Conc imports Shared_Memory begin







section \<open>The invariant\<close>














section \<open>Properties\<close>




end
