(* ===== verification/Task_Node.thy ===== *)
theory Task_Node imports Memory_Resource Pool_Helper begin

text \<open>
  The nodes of a task graph (source/taskete/node.hpp, node.cpp) and what they execute
  (execution_payload.hpp).  Memory is a resource, the arrays of handles and the payload objects
  that live in it; a payload is a polymorphic object: its behaviour on the world of type \<open>'w\<close> and its size.
\<close>

section \<open>Payloads\<close>

text \<open>\<open>universal_callable<Callable, Args...>\<close>: the callable, its stored arguments, \<open>sizeof(*this)\<close>.\<close>

record ('p, 'w) universal_callable =
  callable :: "'p \<Rightarrow> 'w \<Rightarrow> 'w"
  params :: 'p
  object_size :: nat

definition call_payload :: "('p, 'w) universal_callable \<Rightarrow> 'w \<Rightarrow> 'w" where
  "call_payload u w = callable u (params u) w"

definition size_of :: "('p, 'w) universal_callable \<Rightarrow> nat" where
  "size_of u = object_size u"

record ('p, 'w) node_heap =
  nres :: mem_res
  arrays :: "address \<rightharpoonup> handle_t list"
  payloads :: "address \<rightharpoonup> ('p, 'w) universal_callable"

section \<open>Wait lists\<close>

record wait_list =
  handles :: address
  list_size :: u32

definition handle_size :: nat where "handle_size = 4"

definition empty_wait_list :: wait_list where
  "empty_wait_list = \<lparr>handles = 0, list_size = 0\<rparr>"

text \<open>\<open>for (i = 0; i < sz; ++i) handles[i] = *data++;\<close> over a 32-bit counter.\<close>

function copy_handles :: "u32 \<Rightarrow> u32 \<Rightarrow> handle_t list \<Rightarrow> handle_t list \<Rightarrow> handle_t list option" where
  "copy_handles i sz data dest =
     (if i < sz
      then (case data of
              [] \<Rightarrow> None
            | d # data' \<Rightarrow> Option.bind (write_cell dest (unat i) d) (copy_handles (i + 1) sz data'))
      else Some dest)"
  by pat_completeness auto
termination
  by (relation "measure (\<lambda>(i, sz, data, dest). length data)") auto

declare copy_handles.simps [simp del]

text \<open>\<open>None\<close> is undefined behaviour (a read past the handles), \<open>fails Bad_alloc\<close> the exception.\<close>

definition make_wait_list ::
  "handle_t list \<Rightarrow> u32 \<Rightarrow> ('p, 'w) node_heap \<Rightarrow> (wait_list \<times> ('p, 'w) node_heap) outcome" where
  "make_wait_list data sz h =
     (case allocate (handle_size * unat sz) handle_size (nres h) of
        None \<Rightarrow> fails Bad_alloc
      | Some (p, r) \<Rightarrow>
          obind (defined_or_undef (copy_handles 0 sz data (replicate (unat sz) 0))) (\<lambda>hs.
            returns (\<lparr>handles = p, list_size = sz\<rparr>, h\<lparr>nres := r, arrays := (arrays h)(p \<mapsto> hs)\<rparr>)))"

text \<open>The new list and what is left of the other one.\<close>

definition move_wait_list :: "wait_list \<Rightarrow> wait_list \<times> wait_list" where
  "move_wait_list other =
     (empty_wait_list\<lparr>handles := handles other, list_size := list_size other\<rparr>,
      other\<lparr>handles := handles empty_wait_list, list_size := list_size empty_wait_list\<rparr>)"

definition destroy_wait_list :: "wait_list \<Rightarrow> ('p, 'w) node_heap \<Rightarrow> ('p, 'w) node_heap option" where
  "destroy_wait_list wl h =
     map_option (\<lambda>r. h\<lparr>nres := r, arrays := (arrays h)(handles wl := None)\<rparr>)
       (deallocate (handles wl) (handle_size * unat (list_size wl)) handle_size (nres h))"

text \<open>What a loop from \<open>begin()\<close> to \<open>end()\<close> reads.\<close>

definition iterate_wait_list :: "wait_list \<Rightarrow> ('p, 'w) node_heap \<Rightarrow> handle_t list option" where
  "iterate_wait_list wl h =
     (case arrays h (handles wl) of
        None \<Rightarrow> if list_size wl = 0 then Some [] else None
      | Some hs \<Rightarrow> if unat (list_size wl) \<le> length hs then Some (take (unat (list_size wl)) hs) else None)"

section \<open>Nodes\<close>

record node =
  graph_id :: u32
  wait_counter :: u32
  exec_payload :: address
  node_wait_list :: wait_list

definition make_node ::
  "u32 \<Rightarrow> u32 \<Rightarrow> address \<Rightarrow> handle_t list \<Rightarrow> u32 \<Rightarrow> ('p, 'w) node_heap \<Rightarrow> (node \<times> ('p, 'w) node_heap) outcome" where
  "make_node graph wait_no payload handle_list sz h =
     obind (make_wait_list handle_list sz h) (\<lambda>(wl, h').
       returns (\<lparr>graph_id = graph, wait_counter = wait_no, exec_payload = payload, node_wait_list = wl\<rparr>, h'))"

definition move_node :: "node \<Rightarrow> node \<times> node" where
  "move_node other =
     (let (mine, rest) = move_wait_list (node_wait_list other) in
      (\<lparr>graph_id = graph_id other, wait_counter = wait_counter other, exec_payload = exec_payload other,
        node_wait_list = mine\<rparr>,
       other\<lparr>node_wait_list := rest, exec_payload := 0\<rparr>))"

text \<open>
  \<open>destroy\<close>, statement by statement: the payload's destructor ends its lifetime, then the argument
  \<open>exec_payload->size_of()\<close> is a virtual call on the object at that address, then the wait list.
\<close>

definition destroy_payload :: "address \<Rightarrow> ('p, 'w) node_heap \<Rightarrow> ('p, 'w) node_heap option" where
  "destroy_payload p h = (if payloads h p = None then None else Some (h\<lparr>payloads := (payloads h)(p := None)\<rparr>))"

definition node_destroy :: "node \<Rightarrow> ('p, 'w) node_heap \<Rightarrow> ('p, 'w) node_heap option" where
  "node_destroy n h =
     Option.bind (destroy_payload (exec_payload n) h) (\<lambda>h1.
       Option.bind (map_option size_of (payloads h1 (exec_payload n))) (\<lambda>bytes.
         Option.bind (deallocate (exec_payload n) bytes max_align (nres h1)) (\<lambda>r.
           destroy_wait_list (node_wait_list n) (h1\<lparr>nres := r\<rparr>))))"

section \<open>Facts\<close>

lemma copy_handles_spec:
  assumes "unat i + length data = length dest" "unat sz = length dest" "unat i \<le> unat sz"
  shows "copy_handles i sz data dest = Some (take (unat i) dest @ data)"
  using assms
proof (induction i sz data dest rule: copy_handles.induct)
  case (1 i sz data dest)
  show ?case
  proof (cases "i < sz")
    case False
    then have "unat i = unat sz" using "1.prems"(3) by (simp add: word_less_nat_alt)
    with False "1.prems" show ?thesis by (subst copy_handles.simps) simp
  next
    case True
    then have lt: "unat i < unat sz" by (simp add: word_less_nat_alt)
    then have len: "unat i < length dest" using "1.prems"(2) by linarith
    from lt obtain d data' where data: "data = d # data'" using "1.prems"(1,2) by (cases data) auto
    have "unat i + 1 < 2 ^ 32" using lt unat_word_bound [of sz] by simp
    then have s: "unat (i + 1) = Suc (unat i)" by (simp add: unat_word_ariths)
    have w: "write_cell dest (unat i) d = Some (dest[unat i := d])" using len by (simp add: write_cell_def)
    have "copy_handles (i + 1) sz data' (dest[unat i := d])
        = Some (take (unat (i + 1)) (dest[unat i := d]) @ data')"
    proof (rule "1.IH" [OF True data w])
      show "unat (i + 1) + length data' = length (dest[unat i := d])"
        using "1.prems"(1) by (simp only: s data list.size length_list_update)
      show "unat sz = length (dest[unat i := d])" using "1.prems"(2) by simp
      show "unat (i + 1) \<le> unat sz" using lt by (simp only: s Suc_le_eq)
    qed
    moreover have "take (Suc (unat i)) (dest[unat i := d]) = take (unat i) dest @ [d]"
      using len by (simp add: take_Suc_conv_app_nth)
    moreover have "copy_handles i sz data dest = copy_handles (i + 1) sz data' (dest[unat i := d])"
      by (subst copy_handles.simps) (simp only: True data w if_True list.case bind.bind_lunit)
    ultimately show ?thesis by (simp only: s data append.assoc append.simps)
  qed
qed

section \<open>Properties\<close>

text \<open>
  A wait list built from sz handles iterates over exactly those handles in order, and so does a
  wait list move-constructed from it, while the moved-from one is empty; destroying the new one
  gives the memory back.
\<close>

theorem wait_list_lifecycle:
  assumes "length data = unat sz" "owns base [] (nres h)" "handle_size * unat sz \<le> quota (nres h)"
  shows "\<exists>wl h1 wl' rest h2. make_wait_list data sz h = returns (wl, h1) \<and> iterate_wait_list wl h1 = Some data
    \<and> move_wait_list wl = (wl', rest) \<and> iterate_wait_list wl' h1 = Some data
    \<and> (arrays h 0 = None \<longrightarrow> iterate_wait_list rest h1 = Some [])
    \<and> destroy_wait_list wl' h1 = Some h2 \<and> live (nres h2) = live (nres h)"
proof -
  have al: "0 < handle_size" by (simp add: handle_size_def)
  from allocate_enough [OF assms(3)] obtain p r where
    a: "allocate (handle_size * unat sz) handle_size (nres h) = Some (p, r)" by blast
  from owns_alloc [OF assms(2) al a] have o: "p \<noteq> 0" "owns base [(p, handle_size * unat sz, handle_size)] r" by auto
  have "copy_handles 0 sz data (replicate (unat sz) 0) = Some data"
    using copy_handles_spec [of 0 data "replicate (unat sz) 0" sz] assms(1) by simp
  then have m: "make_wait_list data sz h = returns (\<lparr>handles = p, list_size = sz\<rparr>, h\<lparr>nres := r, arrays := (arrays h)(p \<mapsto> data)\<rparr>)"
    using a by (simp add: make_wait_list_def)
  from owns_dealloc [OF o(2)] obtain r' where
    d: "deallocate p (handle_size * unat sz) handle_size r = Some r'" "owns base [] r'" by blast
  show ?thesis
    using m d o(1) assms(1) owns_live [OF d(2)] owns_live [OF assms(2)]
    by (auto simp: iterate_wait_list_def move_wait_list_def empty_wait_list_def destroy_wait_list_def)
qed

definition sample_node_heap :: "(nat, nat) node_heap" where
  "sample_node_heap = \<lparr>nres = fresh_resource 100, arrays = Map.empty, payloads = Map.empty\<rparr>"

theorem wait_list_lifecycle_witness:
  "\<exists>wl h1. make_wait_list [7, 8, 9] 3 sample_node_heap = returns (wl, h1) \<and> iterate_wait_list wl h1 = Some [7, 8, 9]"
proof -
  have "length [7, 8, 9 :: u32] = unat (3 :: u32)" "owns Map.empty [] (nres sample_node_heap)"
    "handle_size * unat (3 :: u32) \<le> quota (nres sample_node_heap)"
    by (simp_all add: sample_node_heap_def handle_size_def) (simp add: fresh_resource_def)
  from wait_list_lifecycle [OF this] show ?thesis by blast
qed

text \<open>
  node::destroy has undefined behaviour for every node in every state: it ends the lifetime of the
  payload and then makes the virtual call size_of on it.
\<close>

theorem node_destroy_undefined: "node_destroy n h = None"
  by (auto simp: node_destroy_def destroy_payload_def)

end
