(* ===== verification/Circular_Q.thy ===== *)
theory Circular_Q imports Prelude Interfaces begin

text \<open>
  The queues of the logging library: \<open>circular_q\<close> (spdlog/details/circular_q.h), a ring buffer that
  overruns its oldest element, and its clients \<open>backtracer\<close> (details/backtracer.h, backtracer-inl.h) and
  \<open>ringbuffer_sink\<close> (sinks/ringbuffer_sink.h).  One slot of the vector is kept free, so a queue for n items
  has n+1 slots; a default-constructed or moved-from queue has none and is disabled.
  \<open>None\<close> is undefined behaviour: an access outside the vector or a division by zero.
  Sizes and positions are numbers, which stay below \<open>max_items\<close>; \<open>overrun_count\<close> is one too, while the \<open>size_t\<close> of the code
  would start again at 0 after \<open>2^64\<close> overruns.
\<close>

record 'a circular_q =
  max_items :: nat
  head_pos :: nat
  tail_pos :: nat
  overrun_count :: nat
  slots :: "'a list"

section \<open>Operations\<close>

definition circ_disabled :: "'a circular_q" where
  "circ_disabled = \<lparr>max_items = 0, head_pos = 0, tail_pos = 0, overrun_count = 0, slots = []\<rparr>"

text \<open>\<open>max_items + 1\<close> is computed on 64 bits; \<open>d\<close> is the value-initialised element of the vector.\<close>

definition circ_construct :: "'a \<Rightarrow> u64 \<Rightarrow> 'a circular_q" where
  "circ_construct d n =
     (let m = unat (n + 1) in
      \<lparr>max_items = m, head_pos = 0, tail_pos = 0, overrun_count = 0, slots = replicate m d\<rparr>)"

definition circ_push_back :: "'a \<Rightarrow> 'a circular_q \<Rightarrow> 'a circular_q option" where
  "circ_push_back item q =
     (if 0 < max_items q
      then
        map_option (\<lambda>v.
            let q1 = q\<lparr>slots := v, tail_pos := (tail_pos q + 1) mod max_items q\<rparr> in
            if tail_pos q1 = head_pos q1
            then q1\<lparr>head_pos := (head_pos q1 + 1) mod max_items q1, overrun_count := overrun_count q1 + 1\<rparr>
            else q1)
          (write_cell (slots q) (tail_pos q) item)
      else Some q)"

definition circ_front :: "'a circular_q \<Rightarrow> 'a option" where
  "circ_front q = read_cell (slots q) (head_pos q)"

definition circ_size :: "'a circular_q \<Rightarrow> nat" where
  "circ_size q =
     (if tail_pos q \<ge> head_pos q then tail_pos q - head_pos q
      else max_items q - (head_pos q - tail_pos q))"

definition circ_at :: "nat \<Rightarrow> 'a circular_q \<Rightarrow> 'a option" where
  "circ_at i q = (if max_items q = 0 then None else read_cell (slots q) ((head_pos q + i) mod max_items q))"

definition circ_pop_front :: "'a circular_q \<Rightarrow> 'a circular_q option" where
  "circ_pop_front q =
     (if max_items q = 0 then None else Some (q\<lparr>head_pos := (head_pos q + 1) mod max_items q\<rparr>))"

definition circ_empty :: "'a circular_q \<Rightarrow> bool" where
  "circ_empty q \<longleftrightarrow> tail_pos q = head_pos q"

definition circ_full :: "'a circular_q \<Rightarrow> bool" where
  "circ_full q \<longleftrightarrow> (if 0 < max_items q then (tail_pos q + 1) mod max_items q = head_pos q else False)"

definition circ_overruns :: "'a circular_q \<Rightarrow> nat" where
  "circ_overruns q = overrun_count q"

text \<open>Moving gives the new queue and the disabled one that is left.\<close>

definition circ_move :: "'a circular_q \<Rightarrow> 'a circular_q \<times> 'a circular_q" where
  "circ_move other =
     (\<lparr>max_items = max_items other, head_pos = head_pos other, tail_pos = tail_pos other,
       overrun_count = overrun_count other, slots = slots other\<rparr>,
      \<lparr>max_items = 0, head_pos = 0, tail_pos = 0, overrun_count = 0, slots = []\<rparr>)"

section \<open>The queue as a list\<close>

definition circ_capacity :: "'a circular_q \<Rightarrow> nat" where
  "circ_capacity q = max_items q - 1"

definition circ_contents :: "'a circular_q \<Rightarrow> 'a list" where
  "circ_contents q = window (slots q) (head_pos q) (circ_size q)"

definition circ_ok :: "'a circular_q \<Rightarrow> bool" where
  "circ_ok q \<longleftrightarrow> length (slots q) = max_items q
     \<and> (if max_items q = 0 then head_pos q = 0 \<and> tail_pos q = 0
        else head_pos q < max_items q \<and> tail_pos q < max_items q)"

lemma circ_ok_construct [simp, ring_simps]: "circ_ok (circ_construct d n)"
  by (simp add: circ_ok_def circ_construct_def Let_def)

lemma circ_ok_disabled [simp, ring_simps]: "circ_ok circ_disabled"
  by (simp add: circ_ok_def circ_disabled_def)

lemma circ_contents_construct [simp, ring_simps]: "circ_contents (circ_construct d n) = []"
  by (simp add: circ_contents_def circ_construct_def circ_size_def Let_def)

lemma circ_contents_disabled [simp, ring_simps]: "circ_contents circ_disabled = []"
  by (simp add: circ_contents_def circ_disabled_def circ_size_def)

lemma unat_succ: "(n :: u64) \<noteq> - 1 \<Longrightarrow> unat (n + 1) = Suc (unat n)"
  using unatSuc [of n] by (metis add.commute add_eq_0_iff)

lemma circ_capacity_construct: "n \<noteq> - 1 \<Longrightarrow> circ_capacity (circ_construct d n) = unat n"
  by (simp add: circ_capacity_def circ_construct_def Let_def unat_succ)

lemma circ_size_less: "circ_ok q \<Longrightarrow> 0 < max_items q \<Longrightarrow> circ_size q < max_items q"
  by (auto simp: circ_ok_def circ_size_def)

lemma circ_tail: "circ_ok q \<Longrightarrow> 0 < max_items q \<Longrightarrow> tail_pos q = (head_pos q + circ_size q) mod max_items q"
  by (auto simp: circ_ok_def circ_size_def)

lemma circ_size_eq:
  assumes "head_pos q < m" "k < m" "max_items q = m" "tail_pos q = (head_pos q + k) mod m"
  shows "circ_size q = k"
proof (cases "head_pos q + k < m")
  case True
  with assms show ?thesis by (simp add: circ_size_def)
next
  case False
  then have "(head_pos q + k) mod m = head_pos q + k - m" using assms(1,2) by (simp add: mod_if)
  with assms False show ?thesis by (auto simp: circ_size_def)
qed

lemma circ_disabled_size: "circ_ok q \<Longrightarrow> max_items q = 0 \<Longrightarrow> circ_size q = 0"
  by (simp add: circ_ok_def circ_size_def)

lemma length_circ_contents [simp, ring_simps]: "length (circ_contents q) = circ_size q"
  by (simp add: circ_contents_def)

text \<open>What a push does, on an enabled queue.\<close>

lemma circ_push_enabled:
  assumes ok: "circ_ok q" and pos: "0 < max_items q"
  shows "\<exists>q'. circ_push_back x q = Some q' \<and> circ_ok q' \<and> max_items q' = max_items q
    \<and> circ_contents q' = keep_last (circ_capacity q) (circ_contents q @ [x])
    \<and> overrun_count q' = overrun_count q + (if circ_size q = circ_capacity q then 1 else 0)"
proof -
  define m where "m = max_items q"
  define k where "k = circ_size q"
  define v where "v = (slots q)[tail_pos q := x]"
  have b: "length (slots q) = m" "head_pos q < m" "tail_pos q < m" "k < m" "0 < m"
    using ok pos circ_size_less [OF ok pos] by (simp_all add: circ_ok_def m_def k_def)
  have tail: "tail_pos q = (head_pos q + k) mod m" using circ_tail [OF ok pos] by (simp add: m_def k_def)
  have tail': "(tail_pos q + 1) mod m = (head_pos q + Suc k) mod m"
    unfolding tail by (simp add: mod_Suc_eq)
  have w: "write_cell (slots q) (tail_pos q) x = Some v" using b by (simp add: v_def)
  have win: "window v (head_pos q) (Suc k) = circ_contents q @ [x]"
    unfolding v_def tail circ_contents_def k_def [symmetric] using window_push [of k "slots q" "head_pos q" x] b by simp
  have full: "(tail_pos q + 1) mod m = head_pos q \<longleftrightarrow> Suc k = m"
  proof
    assume "(tail_pos q + 1) mod m = head_pos q"
    then have "(head_pos q + Suc k) mod m = (head_pos q + 0) mod m" using tail' b(2) by simp
    show "Suc k = m"
    proof (rule ccontr)
      assume "Suc k \<noteq> m"
      with b(4) have "Suc k < m" by simp
      with \<open>(head_pos q + Suc k) mod m = (head_pos q + 0) mod m\<close> circ_index_inj [of "Suc k" m 0 "head_pos q"] b(5)
      show False by simp
    qed
  next
    assume "Suc k = m"
    then show "(tail_pos q + 1) mod m = head_pos q" using tail' b(2) by simp
  qed
  show ?thesis
  proof (cases "Suc k = m")
    case False
    define q' where "q' = q\<lparr>slots := v, tail_pos := (tail_pos q + 1) mod m\<rparr>"
    have p: "circ_push_back x q = Some q'"
      using w pos full False by (simp add: circ_push_back_def q'_def m_def Let_def)
    have ok': "circ_ok q'" using ok b by (simp add: circ_ok_def q'_def v_def m_def)
    have size: "circ_size q' = Suc k"
      by (rule circ_size_eq [of _ m]) (use b False tail' in \<open>simp_all add: q'_def m_def\<close>)
    have c: "circ_contents q' = circ_contents q @ [x]"
      unfolding circ_contents_def [of q'] size using win by (simp add: q'_def)
    have "circ_size q \<noteq> circ_capacity q" using False b(4) by (simp add: circ_capacity_def m_def k_def)
    moreover have "length (circ_contents q @ [x]) \<le> circ_capacity q"
      using False b(4) by (simp add: circ_capacity_def m_def k_def)
    ultimately show ?thesis using p ok' c by (simp add: keep_last_id q'_def)
  next
    case True
    define q' where "q' = q\<lparr>slots := v, tail_pos := head_pos q, head_pos := (head_pos q + 1) mod m,
      overrun_count := overrun_count q + 1\<rparr>"
    have p: "circ_push_back x q = Some q'"
      using w pos full True by (simp add: circ_push_back_def q'_def m_def Let_def)
    have ok': "circ_ok q'" using ok b by (simp add: circ_ok_def q'_def v_def m_def)
    have "head_pos q + 1 + k = head_pos q + m" using True by simp
    then have "((head_pos q + 1) mod m + k) mod m = head_pos q" using b(2) by (simp only: mod_add_left_eq) simp
    then have size: "circ_size q' = k"
      by (intro circ_size_eq [of _ m]) (use b in \<open>simp_all add: q'_def m_def\<close>)
    have lv: "length v = m" using b by (simp add: v_def)
    have "circ_contents q' = window v (Suc (head_pos q)) k"
      unfolding circ_contents_def [of q'] size using window_mod [of v "Suc (head_pos q)" k] lv by (simp add: q'_def)
    also have "\<dots> = tl (circ_contents q @ [x])" using window_pop [of "Suc k" v "head_pos q"] win by simp
    also have "\<dots> = keep_last (circ_capacity q) (circ_contents q @ [x])"
    proof -
      have "length (circ_contents q @ [x]) - circ_capacity q = Suc 0"
        using True by (simp add: circ_capacity_def m_def k_def)
      then show ?thesis by (simp only: keep_last_def drop_Suc drop_0)
    qed
    finally have c: "circ_contents q' = keep_last (circ_capacity q) (circ_contents q @ [x])" .
    have "circ_size q = circ_capacity q" using True by (simp add: circ_capacity_def m_def k_def)
    then show ?thesis using p ok' c by (simp add: q'_def)
  qed
qed

lemma circ_push_disabled: "max_items q = 0 \<Longrightarrow> circ_push_back x q = Some q"
  by (simp add: circ_push_back_def)

lemma circ_push_spec:
  assumes "circ_ok q"
  shows "\<exists>q'. circ_push_back x q = Some q' \<and> circ_ok q' \<and> circ_capacity q' = circ_capacity q
    \<and> circ_contents q' = keep_last (circ_capacity q) (circ_contents q @ [x])
    \<and> (0 < circ_capacity q \<longrightarrow>
        overrun_count q' = overrun_count q + (if circ_size q = circ_capacity q then 1 else 0))"
proof (cases "max_items q = 0")
  case True
  then have "circ_contents q = []" using circ_disabled_size [OF assms] by (simp add: circ_contents_def)
  with True assms show ?thesis by (simp add: circ_push_disabled circ_capacity_def keep_last_def)
next
  case False
  then have "0 < max_items q" by simp
  from circ_push_enabled [OF assms this, of x] show ?thesis by (auto simp: circ_capacity_def)
qed

lemma circ_pop_spec:
  assumes "circ_ok q" "circ_contents q \<noteq> []"
  shows "\<exists>q'. circ_pop_front q = Some q' \<and> circ_ok q' \<and> max_items q' = max_items q
    \<and> circ_contents q' = tl (circ_contents q) \<and> overrun_count q' = overrun_count q"
proof -
  define m where "m = max_items q"
  have k: "0 < circ_size q" using assms(2) by (metis length_circ_contents length_greater_0_conv)
  have pos: "0 < m" using k circ_disabled_size [OF assms(1)] by (cases "m = 0") (simp_all add: m_def)
  have b: "length (slots q) = m" "head_pos q < m" "tail_pos q < m" "circ_size q < m"
    using assms(1) pos circ_size_less [OF assms(1)] by (simp_all add: circ_ok_def m_def)
  define q' where "q' = q\<lparr>head_pos := (head_pos q + 1) mod m\<rparr>"
  have ok': "circ_ok q'" using assms(1) pos b by (simp add: circ_ok_def q'_def m_def)
  have "((head_pos q + 1) mod m + (circ_size q - 1)) mod m = tail_pos q"
  proof -
    have "head_pos q + 1 + (circ_size q - 1) = head_pos q + circ_size q" using k by simp
    then show ?thesis using circ_tail [OF assms(1)] pos by (simp only: m_def mod_add_left_eq)
  qed
  then have size: "circ_size q' = circ_size q - 1"
    by (intro circ_size_eq [of _ m]) (use b pos in \<open>simp_all add: q'_def m_def\<close>)
  have "circ_contents q' = window (slots q) (Suc (head_pos q)) (circ_size q - Suc 0)"
    unfolding circ_contents_def [of q'] size using window_mod [of "slots q" "Suc (head_pos q)"] b(1) by (simp add: q'_def)
  also have "\<dots> = tl (circ_contents q)" using window_pop [OF k, of "slots q" "head_pos q"] by (simp add: circ_contents_def)
  finally show ?thesis using ok' pos by (simp add: circ_pop_front_def q'_def m_def)
qed

lemma circ_front_spec:
  assumes "circ_ok q" "circ_contents q \<noteq> []"
  shows "circ_front q = Some (hd (circ_contents q))"
proof -
  have k: "0 < circ_size q" using assms(2) by (metis length_circ_contents length_greater_0_conv)
  then have "max_items q \<noteq> 0" using circ_disabled_size [OF assms(1)] by auto
  with assms(1) have "head_pos q < length (slots q)" by (simp add: circ_ok_def)
  then show ?thesis using window_hd [OF k, of "slots q" "head_pos q"] by (simp add: circ_front_def circ_contents_def)
qed

lemma circ_at_spec:
  assumes "circ_ok q" "i < circ_size q"
  shows "circ_at i q = Some (circ_contents q ! i)"
proof -
  have m: "max_items q \<noteq> 0" "length (slots q) = max_items q"
    using assms circ_disabled_size [OF assms(1)] by (auto simp: circ_ok_def)
  with assms(2) show ?thesis by (simp add: circ_at_def circ_contents_def window_nth)
qed

lemma circ_empty_spec: "circ_ok q \<Longrightarrow> circ_empty q \<longleftrightarrow> circ_contents q = []"
proof -
  assume ok: "circ_ok q"
  have "circ_empty q \<longleftrightarrow> circ_size q = 0"
    using ok by (auto simp: circ_empty_def circ_size_def circ_ok_def split: if_splits)
  then show ?thesis by (metis length_circ_contents length_0_conv)
qed

lemma circ_full_spec:
  assumes "circ_ok q"
  shows "circ_full q \<longleftrightarrow> 0 < max_items q \<and> circ_size q = circ_capacity q"
proof (cases "max_items q = 0")
  case False
  then show ?thesis using assms
    by (auto simp: circ_full_def circ_size_def circ_ok_def circ_capacity_def mod_Suc split: if_splits)
qed (simp add: circ_full_def)

interpretation cq: overrun_fifo "\<lambda>x q. the (circ_push_back x q)" "\<lambda>q. the (circ_pop_front q)"
  "\<lambda>q. the (circ_front q)" circ_empty circ_overruns circ_contents circ_capacity circ_ok
proof (unfold_locales, goal_cases)
  case (1 q x)
  then show ?case using circ_push_spec [of q x] by auto
next
  case (2 q x)
  then show ?case using circ_push_spec [of q x] by auto
next
  case (3 q x)
  then show ?case using circ_push_spec [of q x] by auto
next
  case (4 q x)
  then show ?case using circ_push_spec [of q x] by (auto simp: circ_overruns_def)
next
  case (5 q)
  then show ?case using circ_pop_spec [of q] by auto
next
  case (6 q)
  then show ?case using circ_pop_spec [of q] by (auto simp: circ_capacity_def)
next
  case (7 q)
  then show ?case using circ_pop_spec [of q] by auto
next
  case (8 q)
  then show ?case using circ_pop_spec [of q] by (auto simp: circ_overruns_def)
next
  case (9 q)
  then show ?case using circ_front_spec [of q] by simp
next
  case (10 q)
  then show ?case using circ_empty_spec by blast
next
  case (11 q)
  then show ?case using circ_size_less [of q] circ_disabled_size [of q]
    by (cases "max_items q = 0") (auto simp: circ_capacity_def)
qed

end
