(* ===== verification/Mpmc_Queue.thy ===== *)
theory Mpmc_Queue imports Circular_Q "HOL-Library.Sublist" begin

text \<open>
  \<open>mpmc_blocking_queue\<close> (spdlog/details/mpmc_blocking_q.h), the non-MinGW version: the mutex is released
  before the condition variable is notified.  A step is what one thread does while it holds the
  mutex, or one notification; steps of any number of producers and consumers interleave.  Threads are
  anonymous: the state counts the consumers that sleep on \<open>push_cv_\<close> and those that were woken but do
  not have the mutex yet, and keeps the items of the producers that sleep on \<open>pop_cv_\<close> or were woken.
  Sleepers may also wake up spuriously, and a consumer's wait may time out at any moment.

  \<open>pushed\<close> and \<open>popped\<close> log the items that went into and came out of the queue.
\<close>

record 'a mpmc =
  queue :: "'a circular_q"
  consumers_asleep :: nat
  consumers_woken :: nat
  producers_asleep :: "'a list"
  producers_woken :: "'a list"
  push_notifies :: nat
  pop_notifies :: nat
  pushed :: "'a list"
  popped :: "'a list"

definition mpmc_start :: "'a circular_q \<Rightarrow> 'a mpmc" where
  "mpmc_start q = \<lparr>queue = q, consumers_asleep = 0, consumers_woken = 0, producers_asleep = [],
     producers_woken = [], push_notifies = 0, pop_notifies = 0, pushed = [], popped = []\<rparr>"

section \<open>Critical sections\<close>

text \<open>\<open>q_.push_back(item)\<close> under the mutex, then the pending \<open>push_cv_.notify_one()\<close>.\<close>

definition do_push :: "'a \<Rightarrow> 'a mpmc \<Rightarrow> 'a mpmc option" where
  "do_push x s = map_option (\<lambda>q. s\<lparr>queue := q, pushed := pushed s @ [x], push_notifies := push_notifies s + 1\<rparr>)
     (circ_push_back x (queue s))"

text \<open>\<open>popped_item = q_.front(); q_.pop_front()\<close> under the mutex, then the pending \<open>pop_cv_.notify_one()\<close>.\<close>

definition do_pop :: "'a mpmc \<Rightarrow> 'a mpmc option" where
  "do_pop s =
     Option.bind (circ_front (queue s)) (\<lambda>x.
       map_option (\<lambda>q. s\<lparr>queue := q, popped := popped s @ [x], pop_notifies := pop_notifies s + 1\<rparr>)
         (circ_pop_front (queue s)))"

text \<open>A producer in \<open>enqueue\<close> that has the mutex: the predicate of the wait, then the push.\<close>

definition enqueue_locked :: "'a \<Rightarrow> 'a mpmc \<Rightarrow> 'a mpmc option" where
  "enqueue_locked x s =
     (if circ_full (queue s) then Some (s\<lparr>producers_asleep := producers_asleep s @ [x]\<rparr>) else do_push x s)"

text \<open>A consumer in \<open>dequeue_for\<close> that has the mutex; \<open>timed_out\<close> makes it return false instead of sleeping.\<close>

definition dequeue_locked :: "bool \<Rightarrow> 'a mpmc \<Rightarrow> 'a mpmc option" where
  "dequeue_locked timed_out s =
     (if circ_empty (queue s)
      then Some (if timed_out then s else s\<lparr>consumers_asleep := consumers_asleep s + 1\<rparr>)
      else do_pop s)"

definition enqueue_nowait :: "'a \<Rightarrow> 'a mpmc \<Rightarrow> 'a mpmc option" where
  "enqueue_nowait x s = do_push x s"

inductive mpmc_step :: "'a mpmc \<Rightarrow> 'a mpmc option \<Rightarrow> bool" where
  enqueue: "mpmc_step s (enqueue_locked x s)"
| enqueue_again: "producers_woken s = xs @ x # ys \<Longrightarrow>
    mpmc_step s (enqueue_locked x (s\<lparr>producers_woken := xs @ ys\<rparr>))"
| nowait: "mpmc_step s (enqueue_nowait x s)"
| dequeue: "mpmc_step s (dequeue_locked False s)"
| dequeue_again: "0 < consumers_woken s \<Longrightarrow>
    mpmc_step s (dequeue_locked False (s\<lparr>consumers_woken := consumers_woken s - 1\<rparr>))"
| timeout_asleep: "0 < consumers_asleep s \<Longrightarrow>
    mpmc_step s (dequeue_locked True (s\<lparr>consumers_asleep := consumers_asleep s - 1\<rparr>))"
| timeout_woken: "0 < consumers_woken s \<Longrightarrow>
    mpmc_step s (dequeue_locked True (s\<lparr>consumers_woken := consumers_woken s - 1\<rparr>))"
| notify_push: "0 < push_notifies s \<Longrightarrow>
    mpmc_step s (Some (if consumers_asleep s = 0 then s\<lparr>push_notifies := push_notifies s - 1\<rparr>
      else s\<lparr>push_notifies := push_notifies s - 1, consumers_asleep := consumers_asleep s - 1,
             consumers_woken := consumers_woken s + 1\<rparr>))"
| notify_pop: "0 < pop_notifies s \<Longrightarrow> producers_asleep s = [] \<Longrightarrow>
    mpmc_step s (Some (s\<lparr>pop_notifies := pop_notifies s - 1\<rparr>))"
| notify_pop_one: "0 < pop_notifies s \<Longrightarrow> producers_asleep s = xs @ x # ys \<Longrightarrow>
    mpmc_step s (Some (s\<lparr>pop_notifies := pop_notifies s - 1, producers_asleep := xs @ ys,
      producers_woken := producers_woken s @ [x]\<rparr>))"
| spurious_consumer: "0 < consumers_asleep s \<Longrightarrow>
    mpmc_step s (Some (s\<lparr>consumers_asleep := consumers_asleep s - 1, consumers_woken := consumers_woken s + 1\<rparr>))"
| spurious_producer: "producers_asleep s = xs @ x # ys \<Longrightarrow>
    mpmc_step s (Some (s\<lparr>producers_asleep := xs @ ys, producers_woken := producers_woken s @ [x]\<rparr>))"

inductive mpmc_reachable :: "'a circular_q \<Rightarrow> 'a mpmc \<Rightarrow> bool" for q where
  start: "mpmc_reachable q (mpmc_start q)"
| step: "mpmc_reachable q s \<Longrightarrow> mpmc_step s (Some s') \<Longrightarrow> mpmc_reachable q s'"

section \<open>The invariant\<close>

definition free_slots :: "'a circular_q \<Rightarrow> nat" where
  "free_slots q = circ_capacity q - circ_size q"

text \<open>
  Enough wake-ups are on their way: if a consumer sleeps, every item in the queue has a pending
  notification or a woken consumer; if a producer sleeps, every free slot has one or a woken producer.
\<close>

definition wakeups_ok :: "'a mpmc \<Rightarrow> bool" where
  "wakeups_ok s \<longleftrightarrow>
     (0 < consumers_asleep s \<longrightarrow> circ_size (queue s) \<le> push_notifies s + consumers_woken s)
     \<and> (producers_asleep s \<noteq> [] \<longrightarrow> free_slots (queue s) \<le> pop_notifies s + length (producers_woken s))"

definition log_ok :: "'a mpmc \<Rightarrow> bool" where
  "log_ok s \<longleftrightarrow> subseq (popped s @ circ_contents (queue s)) (pushed s)
     \<and> length (pushed s) = length (popped s) + circ_size (queue s) + circ_overruns (queue s)"

definition mpmc_ok :: "nat \<Rightarrow> 'a mpmc \<Rightarrow> bool" where
  "mpmc_ok cap s \<longleftrightarrow> circ_ok (queue s) \<and> circ_capacity (queue s) = cap \<and> log_ok s \<and> wakeups_ok s"

lemma do_push_ok:
  assumes "circ_ok (queue s)" "0 < circ_capacity (queue s)" "log_ok s"
  shows "\<exists>q. do_push x s = Some (s\<lparr>queue := q, pushed := pushed s @ [x], push_notifies := push_notifies s + 1\<rparr>)
    \<and> circ_ok q \<and> circ_capacity q = circ_capacity (queue s)
    \<and> circ_size q = min (circ_capacity (queue s)) (circ_size (queue s) + 1)
    \<and> log_ok (s\<lparr>queue := q, pushed := pushed s @ [x], push_notifies := push_notifies s + 1\<rparr>)"
proof -
  from circ_push_spec [OF assms(1), of x] obtain q where
    q: "circ_push_back x (queue s) = Some q" "circ_ok q" "circ_capacity q = circ_capacity (queue s)"
      "circ_contents q = keep_last (circ_capacity (queue s)) (circ_contents (queue s) @ [x])"
      "overrun_count q = overrun_count (queue s) + (if circ_size (queue s) = circ_capacity (queue s) then 1 else 0)"
    using assms(2) by auto
  have le: "circ_size (queue s) \<le> circ_capacity (queue s)" using cq.contents_bound [OF assms(1)] by simp
  have size: "circ_size q = min (circ_capacity (queue s)) (circ_size (queue s) + 1)"
    using q(4) by (metis length_append_singleton length_circ_contents length_keep_last Suc_eq_plus1)
  have "subseq (circ_contents q) (circ_contents (queue s) @ [x])"
    unfolding q(4) keep_last_def by (rule suffix_imp_subseq [OF suffix_drop])
  then have "subseq (popped s @ circ_contents q) ((popped s @ circ_contents (queue s)) @ [x])"
    using list_emb_append_mono [of "(=)" "popped s" "popped s" "circ_contents q"] by simp
  moreover have "subseq ((popped s @ circ_contents (queue s)) @ [x]) (pushed s @ [x])"
    using assms(3) list_emb_append_mono [of "(=)" "popped s @ circ_contents (queue s)" "pushed s" "[x]" "[x]"]
    by (simp add: log_ok_def)
  ultimately have "subseq (popped s @ circ_contents q) (pushed s @ [x])" by (rule subseq_order.trans)
  moreover have "length (pushed s @ [x]) = length (popped s) + circ_size q + circ_overruns q"
    using assms(3) le size q(5) by (auto simp: log_ok_def circ_overruns_def)
  ultimately show ?thesis using q size by (auto simp: do_push_def log_ok_def)
qed

lemma do_pop_ok:
  assumes "circ_ok (queue s)" "\<not> circ_empty (queue s)" "log_ok s"
  shows "\<exists>q x. do_pop s = Some (s\<lparr>queue := q, popped := popped s @ [x], pop_notifies := pop_notifies s + 1\<rparr>)
    \<and> circ_ok q \<and> circ_capacity q = circ_capacity (queue s) \<and> circ_size (queue s) = circ_size q + 1
    \<and> log_ok (s\<lparr>queue := q, popped := popped s @ [x], pop_notifies := pop_notifies s + 1\<rparr>)"
proof -
  have ne: "circ_contents (queue s) \<noteq> []" using circ_empty_spec [OF assms(1)] assms(2) by simp
  then obtain x xs where c: "circ_contents (queue s) = x # xs" by (cases "circ_contents (queue s)") auto
  from circ_pop_spec [OF assms(1) ne] obtain q where
    q: "circ_pop_front (queue s) = Some q" "circ_ok q" "max_items q = max_items (queue s)" "circ_contents q = xs"
      "overrun_count q = overrun_count (queue s)" using c by auto
  have "circ_front (queue s) = Some x" using circ_front_spec [OF assms(1) ne] c by simp
  moreover have "circ_size (queue s) = circ_size q + 1"
    using c q(4) by (metis length_Cons length_circ_contents Suc_eq_plus1)
  ultimately show ?thesis using q assms(3) c
    by (intro exI [of _ q] exI [of _ x]) (simp add: do_pop_def log_ok_def circ_capacity_def circ_overruns_def)
qed

lemma size_le_capacity: "circ_ok q \<Longrightarrow> circ_size q \<le> circ_capacity q"
  using cq.contents_bound [of q] by simp

lemma full_iff: "circ_ok q \<Longrightarrow> 0 < circ_capacity q \<Longrightarrow> circ_full q \<longleftrightarrow> free_slots q = 0"
  using circ_full_spec [of q] size_le_capacity [of q] by (auto simp: free_slots_def circ_capacity_def)

lemma empty_iff: "circ_ok q \<Longrightarrow> circ_empty q \<longleftrightarrow> circ_size q = 0"
  using circ_empty_spec [of q] by (metis length_0_conv length_circ_contents)

text \<open>The state when a thread has the mutex: one woken thread fewer may be counted, and it is about to act.\<close>

definition mutex_ok :: "nat \<Rightarrow> nat \<Rightarrow> nat \<Rightarrow> 'a mpmc \<Rightarrow> bool" where
  "mutex_ok cap c p s \<longleftrightarrow> circ_ok (queue s) \<and> circ_capacity (queue s) = cap \<and> log_ok s
     \<and> (0 < consumers_asleep s \<longrightarrow> circ_size (queue s) \<le> push_notifies s + consumers_woken s + c)
     \<and> (producers_asleep s \<noteq> [] \<longrightarrow> free_slots (queue s) \<le> pop_notifies s + length (producers_woken s) + p)"

lemma mutex_ok_0: "mpmc_ok cap s \<longleftrightarrow> mutex_ok cap 0 0 s"
  by (simp add: mpmc_ok_def mutex_ok_def wakeups_ok_def)

lemma mutex_ok_mono: "mutex_ok cap 0 0 s \<Longrightarrow> mutex_ok cap c p s"
  by (auto simp: mutex_ok_def)

lemma push_ok:
  assumes "mutex_ok cap 0 p s" "0 < cap" "p \<le> 1"
  shows "\<exists>s'. do_push x s = Some s' \<and> (p = 0 \<or> \<not> circ_full (queue s) \<longrightarrow> mpmc_ok cap s')"
proof -
  have a: "circ_ok (queue s)" "0 < circ_capacity (queue s)" "log_ok s" using assms by (simp_all add: mutex_ok_def)
  from do_push_ok [OF a, of x] obtain q where
    q: "do_push x s = Some (s\<lparr>queue := q, pushed := pushed s @ [x], push_notifies := push_notifies s + 1\<rparr>)"
      "circ_ok q" "circ_capacity q = cap" "circ_size q = min cap (circ_size (queue s) + 1)"
      "log_ok (s\<lparr>queue := q, pushed := pushed s @ [x], push_notifies := push_notifies s + 1\<rparr>)"
    using assms(1) by (auto simp: mutex_ok_def)
  have f: "circ_full (queue s) \<longleftrightarrow> circ_size (queue s) = cap" "circ_size (queue s) \<le> cap"
    using full_iff [OF a(1,2)] size_le_capacity [OF a(1)] assms(1) by (auto simp: mutex_ok_def free_slots_def)
  have m: "0 < consumers_asleep s \<longrightarrow> circ_size (queue s) \<le> push_notifies s + consumers_woken s"
    "producers_asleep s \<noteq> [] \<longrightarrow> cap - circ_size (queue s) \<le> pop_notifies s + length (producers_woken s) + p"
    using assms(1) by (auto simp: mutex_ok_def free_slots_def)
  define s' where "s' = s\<lparr>queue := q, pushed := pushed s @ [x], push_notifies := push_notifies s + 1\<rparr>"
  have "wakeups_ok s'" if "p = 0 \<or> \<not> circ_full (queue s)"
    unfolding wakeups_ok_def
  proof (intro conjI impI)
    assume "0 < consumers_asleep s'"
    then have "circ_size (queue s) \<le> push_notifies s + consumers_woken s" using m(1) by (simp add: s'_def)
    then show "circ_size (queue s') \<le> push_notifies s' + consumers_woken s'" using q(4) by (simp add: s'_def)
  next
    assume "producers_asleep s' \<noteq> []"
    then have "cap - circ_size (queue s) \<le> pop_notifies s + length (producers_woken s) + p" using m(2) by (simp add: s'_def)
    then have "cap - circ_size q \<le> pop_notifies s + length (producers_woken s)"
      using q(4) f that assms(3) by auto
    then show "free_slots (queue s') \<le> pop_notifies s' + length (producers_woken s')"
      using q(3) by (simp add: s'_def free_slots_def)
  qed
  moreover have "log_ok s'" using q(5) by (simp add: s'_def)
  ultimately show ?thesis using q(1-3) by (auto simp: mpmc_ok_def s'_def)
qed

lemma enqueue_locked_ok:
  assumes "mutex_ok cap 0 p s" "0 < cap" "p \<le> 1"
  shows "\<exists>s'. enqueue_locked x s = Some s' \<and> mpmc_ok cap s'"
proof (cases "circ_full (queue s)")
  case False
  with push_ok [OF assms, of x] show ?thesis by (auto simp: enqueue_locked_def)
next
  case True
  have "free_slots (queue s) = 0" using full_iff [of "queue s"] True assms by (simp add: mutex_ok_def)
  with True assms(1) show ?thesis by (auto simp: enqueue_locked_def mpmc_ok_def mutex_ok_def wakeups_ok_def log_ok_def)
qed

lemma dequeue_locked_ok:
  assumes "mutex_ok cap c 0 s" "c \<le> 1"
  shows "\<exists>s'. dequeue_locked tmo s = Some s' \<and> mpmc_ok cap s'"
proof (cases "circ_empty (queue s)")
  case True
  then have "circ_size (queue s) = 0" using empty_iff [of "queue s"] assms(1) by (simp add: mutex_ok_def)
  with True assms(1) show ?thesis
    by (auto simp: dequeue_locked_def mpmc_ok_def mutex_ok_def wakeups_ok_def log_ok_def)
next
  case False
  have a: "circ_ok (queue s)" "log_ok s" using assms by (simp_all add: mutex_ok_def)
  from do_pop_ok [OF a(1) False a(2)] obtain q x where
    q: "do_pop s = Some (s\<lparr>queue := q, popped := popped s @ [x], pop_notifies := pop_notifies s + 1\<rparr>)"
      "circ_ok q" "circ_capacity q = circ_capacity (queue s)" "circ_size (queue s) = circ_size q + 1"
      "log_ok (s\<lparr>queue := q, popped := popped s @ [x], pop_notifies := pop_notifies s + 1\<rparr>)" by blast
  with False assms show ?thesis
    by (auto simp: dequeue_locked_def mpmc_ok_def mutex_ok_def wakeups_ok_def free_slots_def)
qed

lemma mpmc_step_ok:
  assumes "mpmc_step s r" "mpmc_ok cap s" "0 < cap"
  shows "\<exists>s'. r = Some s' \<and> mpmc_ok cap s'"
proof -
  have m: "mutex_ok cap 0 0 s" using assms(2) by (simp add: mutex_ok_0)
  show ?thesis using assms(1)
  proof (cases rule: mpmc_step.cases)
    case (enqueue x)
    with enqueue_locked_ok [OF m assms(3)] show ?thesis by simp
  next
    case (enqueue_again xs x ys)
    then have "mutex_ok cap 0 1 (s\<lparr>producers_woken := xs @ ys\<rparr>)" using m by (auto simp: mutex_ok_def log_ok_def)
    from enqueue_locked_ok [OF this assms(3), of x] enqueue_again show ?thesis by simp
  next
    case (nowait x)
    with push_ok [OF m assms(3), of x] show ?thesis by (auto simp: enqueue_nowait_def)
  next
    case dequeue
    with dequeue_locked_ok [OF m] show ?thesis by simp
  next
    case dequeue_again
    then have "mutex_ok cap 1 0 (s\<lparr>consumers_woken := consumers_woken s - 1\<rparr>)" using m by (auto simp: mutex_ok_def log_ok_def)
    from dequeue_locked_ok [OF this, of False] dequeue_again show ?thesis by simp
  next
    case timeout_asleep
    then have "mutex_ok cap 0 0 (s\<lparr>consumers_asleep := consumers_asleep s - 1\<rparr>)" using m by (auto simp: mutex_ok_def log_ok_def)
    from dequeue_locked_ok [OF this, of True] timeout_asleep show ?thesis by simp
  next
    case timeout_woken
    then have "mutex_ok cap 1 0 (s\<lparr>consumers_woken := consumers_woken s - 1\<rparr>)" using m by (auto simp: mutex_ok_def log_ok_def)
    from dequeue_locked_ok [OF this, of True] timeout_woken show ?thesis by simp
  qed (use m in \<open>auto simp: mutex_ok_0 mutex_ok_def log_ok_def\<close>)
qed

lemma mpmc_ok_start:
  assumes "n \<noteq> - 1"
  shows "mpmc_ok (unat n) (mpmc_start (circ_construct d n))"
proof -
  have "circ_size (circ_construct d n) = 0" using circ_contents_construct [of d n] by (metis length_circ_contents list.size(3))
  then show ?thesis using assms
    by (simp add: mpmc_ok_def mpmc_start_def log_ok_def wakeups_ok_def circ_capacity_construct circ_overruns_def)
      (simp add: circ_construct_def Let_def)
qed

lemma mpmc_reachable_ok:
  assumes "mpmc_reachable (circ_construct d n) s" "n \<noteq> - 1" "n \<noteq> 0"
  shows "mpmc_ok (unat n) s"
  using assms(1)
proof (induction rule: mpmc_reachable.induct)
  case start
  show ?case by (rule mpmc_ok_start [OF assms(2)])
next
  case (step s s')
  have "0 < unat n" using assms(3) by (simp add: unat_gt_0)
  with mpmc_step_ok [OF step(2,3)] show ?case by simp
qed

section \<open>Properties\<close>

text \<open>
  C13 [safety] In every interleaving of producers (blocking or not) and consumers: no access is undefined; the
  items popped, followed by those in the queue, come out in the order they were pushed; and every
  item pushed is popped, still queued, or counted by overrun_counter, nothing else being lost.
\<close>

theorem mpmc_delivers_in_order:
  assumes "mpmc_reachable (circ_construct d n) s" "n \<noteq> - 1" "n \<noteq> 0"
  shows "subseq (popped s @ circ_contents (queue s)) (pushed s)
    \<and> length (pushed s) = length (popped s) + circ_size (queue s) + circ_overruns (queue s)
    \<and> (circ_overruns (queue s) = 0 \<longrightarrow> popped s @ circ_contents (queue s) = pushed s)
    \<and> \<not> mpmc_step s None"
proof -
  have ok: "mpmc_ok (unat n) s" by (rule mpmc_reachable_ok [OF assms])
  have l: "subseq (popped s @ circ_contents (queue s)) (pushed s)"
    "length (pushed s) = length (popped s) + circ_size (queue s) + circ_overruns (queue s)"
    using ok by (simp_all add: mpmc_ok_def log_ok_def)
  moreover have "popped s @ circ_contents (queue s) = pushed s" if "circ_overruns (queue s) = 0"
    using l that by (intro subseq_same_length) simp_all
  moreover have "0 < unat n" using assms(3) by (simp add: unat_gt_0)
  then have "\<not> mpmc_step s None" using mpmc_step_ok [of s None "unat n"] ok by auto
  ultimately show ?thesis by blast
qed

lemma sample_push: "\<exists>q. circ_push_back x (circ_construct (0 :: nat) 2) = Some q"
  using circ_push_spec [OF circ_ok_construct, of x 0 2] by blast

lemma sample_mpmc: "\<exists>s. mpmc_reachable (circ_construct (0 :: nat) 2) s \<and> pushed s = [7]"
proof -
  from sample_push obtain q where q: "circ_push_back 7 (circ_construct (0 :: nat) 2) = Some q" by blast
  define s where "s = mpmc_start (circ_construct (0 :: nat) 2)"
  have "enqueue_nowait 7 s = Some (s\<lparr>queue := q, pushed := [7], push_notifies := 1\<rparr>)"
    using q by (simp add: s_def enqueue_nowait_def do_push_def mpmc_start_def)
  with mpmc_step.nowait [of s 7] mpmc_reachable.start [of "circ_construct (0 :: nat) 2"]
  have "mpmc_reachable (circ_construct (0 :: nat) 2) (s\<lparr>queue := q, pushed := [7], push_notifies := 1\<rparr>)"
    unfolding s_def by (metis mpmc_reachable.step)
  then show ?thesis by (intro exI [of _ "s\<lparr>queue := q, pushed := [7], push_notifies := 1\<rparr>"]) simp
qed

theorem mpmc_delivers_in_order_witness:
  "\<exists>s. mpmc_reachable (circ_construct (0 :: nat) 2) s \<and> pushed s = [7] \<and> subseq (popped s @ circ_contents (queue s)) [7]"
proof -
  from sample_mpmc obtain s where s: "mpmc_reachable (circ_construct (0 :: nat) 2) s" "pushed s = [7]" by blast
  have "(2 :: u64) \<noteq> - 1" "(2 :: u64) \<noteq> 0" by simp_all
  from mpmc_delivers_in_order [OF s(1) this] s show ?thesis by auto
qed

text \<open>
  No wake-up is lost: when no notification is pending and no woken thread is waiting for the
  mutex, then consumers sleep only if the queue is empty and producers sleep only if it is full.
\<close>

theorem mpmc_no_lost_wakeup:
  assumes "mpmc_reachable (circ_construct d n) s" "n \<noteq> - 1" "n \<noteq> 0" "push_notifies s = 0" "consumers_woken s = 0"
    "pop_notifies s = 0" "producers_woken s = []"
  shows "(0 < consumers_asleep s \<longrightarrow> circ_empty (queue s)) \<and> (producers_asleep s \<noteq> [] \<longrightarrow> circ_full (queue s))"
proof -
  have ok: "mpmc_ok (unat n) s" by (rule mpmc_reachable_ok [OF assms(1-3)])
  have "0 < unat n" using assms(3) by (simp add: unat_gt_0)
  with ok assms(4-7) empty_iff [of "queue s"] full_iff [of "queue s"] show ?thesis
    by (auto simp: mpmc_ok_def wakeups_ok_def)
qed

theorem mpmc_no_lost_wakeup_witness:
  "\<exists>s. mpmc_reachable (circ_construct (0 :: nat) 2) s \<and> consumers_asleep s = 1 \<and> circ_empty (queue s)"
proof -
  let ?q = "circ_construct (0 :: nat) 2" and ?s = "(mpmc_start (circ_construct (0 :: nat) 2))\<lparr>consumers_asleep := 1\<rparr>"
  have "circ_empty ?q" using circ_empty_spec [of ?q] by simp
  then have "dequeue_locked False (mpmc_start ?q) = Some ?s" by (simp add: dequeue_locked_def mpmc_start_def)
  with mpmc_step.dequeue [of "mpmc_start ?q"] have "mpmc_step (mpmc_start ?q) (Some ?s)" by simp
  with mpmc_reachable.start have r: "mpmc_reachable ?q ?s" by (rule mpmc_reachable.step)
  have "(2 :: u64) \<noteq> - 1" "(2 :: u64) \<noteq> 0" by simp_all
  from mpmc_no_lost_wakeup [OF r this] r show ?thesis by (intro exI [of _ ?s]) (simp add: mpmc_start_def)
qed

end
