(* ===== verification/Fmt_Int.thy ===== *)
theory Fmt_Int imports Prelude begin

text \<open>
  Integers as text, in the formatting library bundled with the logger (spdlog/fmt/bundled/format.h and
  format-inl.h): \<open>count_digits\<close> in its portable and its bit-counting version, \<open>format_decimal\<close>, which writes
  two digits at a time from the end of a buffer, \<open>format_int\<close>, and \<open>parse_nonnegative_int\<close>, which reads a
  number back with an overflow check.

  The reference is \<open>dec\<close>, the decimal numeral of a natural number.
\<close>

definition digit_char :: "nat \<Rightarrow> char" where
  "digit_char d = char_of (48 + d)"

definition is_digit :: "char \<Rightarrow> bool" where
  "is_digit c \<longleftrightarrow> 48 \<le> (of_char c :: nat) \<and> (of_char c :: nat) \<le> 57"

definition digit_value :: "char \<Rightarrow> nat" where
  "digit_value c = of_char c - 48"

fun dec :: "nat \<Rightarrow> string" where
  "dec n = (if n < 10 then [digit_char n] else dec (n div 10) @ [digit_char (n mod 10)])"

declare dec.simps [simp del]

section \<open>Counting digits\<close>

text \<open>The portable version, four digits per division.\<close>

function count_loop :: "nat \<Rightarrow> nat \<Rightarrow> nat" where
  "count_loop n cnt =
     (if n < 10 then cnt
      else if n < 100 then cnt + 1
      else if n < 1000 then cnt + 2
      else if n < 10000 then cnt + 3
      else count_loop (n div 10000) (cnt + 4))"
  by pat_completeness auto
termination by (relation "measure fst") auto

declare count_loop.simps [simp del]

definition count_digits :: "nat \<Rightarrow> nat" where
  "count_digits n = count_loop n 1"

text \<open>\<open>__builtin_clzll\<close> of a non-zero argument is 64 minus its bit length.\<close>

fun bit_length :: "nat \<Rightarrow> nat" where
  "bit_length n = (if n = 0 then 0 else Suc (bit_length (n div 2)))"

declare bit_length.simps [simp del]

definition zero_or_powers_of_10 :: "nat \<Rightarrow> nat" where
  "zero_or_powers_of_10 t = (if t = 0 then 0 else 10 ^ t)"

definition clz64 :: "u64 \<Rightarrow> nat" where
  "clz64 n = 64 - bit_length (unat n)"

definition count_digits_clz :: "u64 \<Rightarrow> nat" where
  "count_digits_clz n =
     (let t = (64 - clz64 (n OR 1)) * 1233 div 2 ^ 12 in
      t - (if unat n < zero_or_powers_of_10 t then 1 else 0) + 1)"

section \<open>Writing digits\<close>

text \<open>\<open>data::digits[i]\<close>, the table of digit pairs.\<close>

definition digit_pair :: "nat \<Rightarrow> string" where
  "digit_pair i = [digit_char (i div 10), digit_char (i mod 10)]"

text \<open>The buffer is filled from its end; \<open>out\<close> is what has been written so far.\<close>

function format_loop :: "nat \<Rightarrow> string \<Rightarrow> string" where
  "format_loop v out =
     (if 100 \<le> v then format_loop (v div 100) (digit_pair (v mod 100) @ out)
      else if v < 10 then digit_char v # out
      else digit_pair v @ out)"
  by pat_completeness auto
termination by (relation "measure fst") auto

declare format_loop.simps [simp del]

definition format_decimal :: "nat \<Rightarrow> string" where
  "format_decimal v = format_loop v []"

definition format_unsigned :: "nat \<Rightarrow> string" where
  "format_unsigned v = format_decimal v"

text \<open>The absolute value is computed in the unsigned type, so the least value has one too.\<close>

definition format_signed :: "64 word \<Rightarrow> string" where
  "format_signed v =
     (let negative = sint v < 0; abs_value = (if negative then 0 - v else v) in
      (if negative then [CHR ''-''] else []) @ format_unsigned (unat abs_value))"

section \<open>Reading digits\<close>

definition max_int :: nat where "max_int = 2 ^ 31 - 1"

text \<open>The loop: the value and the rest of the input; \<open>v > big\<close> stops it with a value that is too big.\<close>

fun parse_loop :: "nat \<Rightarrow> string \<Rightarrow> nat \<times> string" where
  "parse_loop v [] = (v, [])"
| "parse_loop v (c # cs) =
     (if \<not> is_digit c then (v, c # cs)
      else if v > max_int div 10 then (max_int + 1, c # cs)
      else parse_loop ((v * 10 + digit_value c) mod 2 ^ 32) cs)"

text \<open>\<open>Inl\<close> is the error "number is too big".\<close>

definition parse_nonnegative_int :: "string \<Rightarrow> (string + nat) \<times> string" where
  "parse_nonnegative_int s =
     (let (v, rest) = parse_loop 0 s in
      (if v > max_int then Inl ''number is too big'' else Inr v, rest))"

section \<open>Facts\<close>

lemma dec_step: "10 \<le> n \<Longrightarrow> dec n = dec (n div 10) @ [digit_char (n mod 10)]"
  by (subst dec.simps) simp

lemma dec_small: "n < 10 \<Longrightarrow> dec n = [digit_char n]"
  by (subst dec.simps) simp

lemma dec_not_Nil [simp]: "dec n \<noteq> []"
  by (subst dec.simps) simp

lemma length_dec_step: "10 \<le> n \<Longrightarrow> length (dec n) = Suc (length (dec (n div 10)))"
  by (simp add: dec_step)

lemma length_dec_small: "n < 10 \<Longrightarrow> length (dec n) = 1"
  by (simp add: dec_small)

lemma div_10_10: "(n :: nat) div 10 div 10 = n div 100"
  by (simp add: div_mult2_eq [symmetric])

lemma length_dec_eq: "10 ^ j \<le> n \<Longrightarrow> n < 10 ^ Suc j \<Longrightarrow> length (dec n) = Suc j"
proof (induction j arbitrary: n)
  case 0
  then show ?case by (simp add: length_dec_small)
next
  case (Suc j)
  have "10 ^ j \<le> n div 10" "n div 10 < 10 ^ Suc j" using Suc.prems by (simp_all add: less_mult_imp_div_less mult.commute)
  moreover have "(10 :: nat) \<le> 10 ^ Suc j" by simp
  then have "10 \<le> n" using Suc.prems(1) by (rule order_trans)
  ultimately show ?case using Suc.IH [of "n div 10"] by (simp add: length_dec_step)
qed

lemma count_loop_length: "count_loop n cnt = cnt + length (dec n) - 1"
proof (induction n cnt rule: count_loop.induct)
  case (1 n cnt)
  consider "n < 10" | "10 \<le> n" "n < 100" | "100 \<le> n" "n < 1000" | "1000 \<le> n" "n < 10000" | "10000 \<le> n" by linarith
  then show ?case
  proof cases
    case 1
    then show ?thesis by (subst count_loop.simps) (simp add: length_dec_small)
  next
    case 2
    then show ?thesis using length_dec_eq [of 1 n] by (subst count_loop.simps) simp
  next
    case 3
    then show ?thesis using length_dec_eq [of 2 n] by (subst count_loop.simps) simp
  next
    case 4
    then show ?thesis using length_dec_eq [of 3 n] by (subst count_loop.simps) simp
  next
    case 5
    have "length (dec n) = 4 + length (dec (n div 10000))"
      using 5 by (simp add: length_dec_step div_mult2_eq [symmetric])
    with 5 "1.IH" show ?thesis by (subst count_loop.simps) simp
  qed
qed

lemma count_digits_length: "count_digits n = length (dec n)"
proof -
  have "0 < length (dec n)" by simp
  then show ?thesis by (simp add: count_digits_def count_loop_length)
qed

lemma format_loop_dec: "format_loop v out = dec v @ out"
proof (induction v out rule: format_loop.induct)
  case (1 v out)
  show ?case
  proof (cases "100 \<le> v")
    case True
    have "dec v = dec (v div 100) @ digit_pair (v mod 100)"
    proof -
      have m: "v mod 100 div 10 = v div 10 mod 10" "v mod 100 mod 10 = v mod 10"
        by (simp_all add: mod_mult2_eq [of v 10 10, simplified] mod_mod_cancel)
      have "dec v = dec (v div 10 div 10) @ [digit_char (v div 10 mod 10)] @ [digit_char (v mod 10)]"
        using True by (simp add: dec_step)
      then show ?thesis by (simp add: digit_pair_def m div_10_10)
    qed
    with True "1.IH" show ?thesis by (subst format_loop.simps) simp
  next
    case False
    then show ?thesis
      by (subst format_loop.simps) (auto simp: dec_small dec_step digit_pair_def)
  qed
qed

lemma format_decimal_dec: "format_decimal v = dec v"
  by (simp add: format_decimal_def format_loop_dec)

lemma bit_length_bounds: "n \<noteq> 0 \<Longrightarrow> 0 < bit_length n \<and> 2 ^ (bit_length n - 1) \<le> n \<and> n < 2 ^ bit_length n"
proof (induction n rule: bit_length.induct)
  case (1 n)
  show ?case
  proof (cases "n div 2 = 0")
    case True
    then have n: "n = 1" using 1(2) by linarith
    have "bit_length 1 = 1" by (subst bit_length.simps, subst bit_length.simps) simp
    then show ?thesis unfolding n by simp
  next
    case False
    define k where "k = bit_length (n div 2)"
    have k: "0 < k" "2 ^ (k - 1) \<le> n div 2" "n div 2 < 2 ^ k" using 1(1) 1(2) False by (simp_all add: k_def)
    have b: "bit_length n = Suc k" using 1(2) by (simp add: bit_length.simps [of n] k_def)
    have "2 ^ k = 2 * (2 :: nat) ^ (k - 1)" using k(1) by (cases k) simp_all
    also have "\<dots> \<le> n" using k(2) by linarith
    finally have "2 ^ k \<le> n" .
    moreover have "n < 2 ^ Suc k" using k(3) by simp
    ultimately show ?thesis by (simp add: b)
  qed
qed

text \<open>Between two powers of two the multiplication by 1233/4096 is never off by more than the comparison repairs.\<close>

lemma log_table:
  "list_all (\<lambda>l. let t = l * 1233 div 2 ^ 12 in
     (t = 0 \<or> 10 ^ (t - 1) \<le> (2 :: nat) ^ (l - 1)) \<and> (2 :: nat) ^ l \<le> 10 ^ Suc t) [1..<65]"
  by (simp add: upt_rec Let_def)

lemma log_table_at:
  assumes "0 < l" "l \<le> 64" "t = l * 1233 div 2 ^ 12"
  shows "(t = 0 \<or> 10 ^ (t - 1) \<le> (2 :: nat) ^ (l - 1)) \<and> (2 :: nat) ^ l \<le> 10 ^ Suc t"
proof -
  have "l \<in> set [1..<65]" using assms(1,2) by simp
  with log_table show ?thesis unfolding list_all_iff Let_def assms(3) by blast
qed

lemma bit_length_or_1:
  assumes "(n :: nat) \<noteq> 0" "l = bit_length (n OR 1)"
  shows "0 < l \<and> 2 ^ (l - 1) \<le> n \<and> n < 2 ^ l"
proof -
  have o: "n OR 1 = n + of_bool (even n)" by (rule or_one_eq)
  then have "n OR 1 \<noteq> 0" using assms(1) by simp
  from bit_length_bounds [OF this] have l: "0 < l" "2 ^ (l - 1) \<le> n OR 1" "n OR 1 < 2 ^ l" by (simp_all add: assms(2))
  have "n < 2 ^ l" using l(3) o by simp
  moreover have "2 ^ (l - 1) \<le> n"
  proof (cases "even n")
    case False
    then show ?thesis using l(2) o by simp
  next
    case True
    then have n2: "2 \<le> n" using assms(1) by (metis dvd_imp_le neq0_conv)
    have "l \<noteq> 1"
    proof
      assume "l = 1"
      with \<open>n < 2 ^ l\<close> n2 show False by simp
    qed
    then have "even ((2 :: nat) ^ (l - 1))" using l(1) by simp
    then have "2 ^ (l - 1) \<noteq> n + 1" using True by (metis even_plus_one_iff)
    moreover have "2 ^ (l - 1) \<le> n + 1" using l(2) o True by simp
    ultimately show ?thesis by linarith
  qed
  ultimately show ?thesis using l(1) by simp
qed

lemma count_digits_clz_length: "count_digits_clz n = length (dec (unat n))"
proof (cases "unat n = 0")
  case True
  have "bit_length 1 = 1" by (subst bit_length.simps, subst bit_length.simps) simp
  with True show ?thesis
    by (simp add: count_digits_clz_def clz64_def unsigned_or_eq zero_or_powers_of_10_def length_dec_small Let_def)
next
  case False
  define l where "l = bit_length (unat n OR 1)"
  define t where "t = l * 1233 div 2 ^ 12"
  note b = bit_length_or_1 [OF False l_def]
  have n64: "unat n < 2 ^ 64" using unsigned_less [of n, where 'a = nat] by simp
  have "(2 :: nat) ^ (l - 1) < 2 ^ 64" using b n64 by linarith
  then have "l - 1 < 64" by (subst (asm) power_strict_increasing_iff) simp_all
  then have l: "l \<le> 64" "0 < l" using b by simp_all
  have e: "64 - clz64 (n OR 1) = l"
    using l(1) unfolding l_def clz64_def unsigned_or_eq by simp
  have c: "count_digits_clz n = t - (if unat n < zero_or_powers_of_10 t then 1 else 0) + 1"
    unfolding count_digits_clz_def e t_def [symmetric] Let_def ..
  from log_table_at [OF l(2,1) t_def] b have tab: "t = 0 \<or> 10 ^ (t - 1) \<le> unat n" "unat n < 10 ^ Suc t" by linarith+
  show ?thesis
  proof (cases "unat n < zero_or_powers_of_10 t")
    case True
    then have t: "0 < t" "unat n < 10 ^ t" by (auto simp: zero_or_powers_of_10_def split: if_splits)
    then have "length (dec (unat n)) = Suc (t - 1)" using tab(1) by (intro length_dec_eq) auto
    with True c t(1) show ?thesis by simp
  next
    case False
    then have "10 ^ t \<le> unat n" using \<open>unat n \<noteq> 0\<close> by (cases "t = 0") (simp_all add: zero_or_powers_of_10_def)
    from length_dec_eq [OF this tab(2)] False c show ?thesis by simp
  qed
qed

text \<open>The value of a numeral.\<close>

definition numeral_value :: "nat \<Rightarrow> string \<Rightarrow> nat" where
  "numeral_value v ds = foldl (\<lambda>v c. v * 10 + digit_value c) v ds"

lemma digit_char_facts: "d < 10 \<Longrightarrow> is_digit (digit_char d) \<and> digit_value (digit_char d) = d"
  by (simp add: is_digit_def digit_value_def digit_char_def)

lemma dec_digits: "list_all is_digit (dec n)"
proof (induction n rule: dec.induct)
  case (1 n)
  then show ?case by (cases "n < 10") (simp_all add: dec_small dec_step digit_char_facts)
qed

lemma numeral_value_dec: "numeral_value 0 (dec n) = n"
proof (induction n rule: dec.induct)
  case (1 n)
  then show ?case
    by (cases "n < 10") (simp_all add: dec_small dec_step numeral_value_def digit_char_facts)
qed

lemma numeral_value_ge: "v * 10 ^ length ds \<le> numeral_value v ds"
proof (induction ds arbitrary: v)
  case (Cons c cs)
  have "v * 10 ^ length (c # cs) \<le> (v * 10 + digit_value c) * 10 ^ length cs" by (simp add: algebra_simps)
  also have "\<dots> \<le> numeral_value v (c # cs)" using Cons.IH [of "v * 10 + digit_value c"] by (simp add: numeral_value_def)
  finally show ?case .
qed (simp add: numeral_value_def)

lemma digit_value_le: "is_digit c \<Longrightarrow> digit_value c \<le> 9"
  unfolding is_digit_def digit_value_def by linarith

lemma parse_loop_spec:
  assumes "list_all is_digit ds" "rest = [] \<or> \<not> is_digit (hd rest)" "v < 2 ^ 32"
  shows "if numeral_value v ds \<le> max_int then parse_loop v (ds @ rest) = (numeral_value v ds, rest)
    else max_int < fst (parse_loop v (ds @ rest))"
  using assms(1,3)
proof (induction ds arbitrary: v)
  case Nil
  have "parse_loop v rest = (v, rest)" using assms(2) by (cases rest) simp_all
  then show ?case by (simp add: numeral_value_def)
next
  case (Cons c cs)
  show ?case
  proof (cases "max_int div 10 < v")
    case True
    then have "max_int < v * 10" by (simp add: max_int_def)
    also have "\<dots> \<le> v * 10 ^ length (c # cs)" by simp
    also have "\<dots> \<le> numeral_value v (c # cs)" by (rule numeral_value_ge)
    finally have "max_int < numeral_value v (c # cs)" .
    moreover have "fst (parse_loop v ((c # cs) @ rest)) = max_int + 1" using True Cons.prems by simp
    ultimately show ?thesis by simp
  next
    case False
    have "v * 10 + digit_value c < 2 ^ 32" using False digit_value_le [of c] Cons.prems by (simp add: max_int_def)
    then have m: "(v * 10 + digit_value c) mod 2 ^ 32 = v * 10 + digit_value c" by (rule mod_less)
    have "parse_loop v ((c # cs) @ rest) = parse_loop (v * 10 + digit_value c) (cs @ rest)"
      using False Cons.prems m by (simp del: One_nat_def)
    moreover have "numeral_value v (c # cs) = numeral_value (v * 10 + digit_value c) cs" by (simp add: numeral_value_def)
    ultimately show ?thesis using Cons.IH [of "v * 10 + digit_value c"] Cons.prems \<open>v * 10 + digit_value c < 2 ^ 32\<close> by simp
  qed
qed

lemma uint_of_sint: "uint (w :: u64) = (if sint w < 0 then sint w + 2 ^ 64 else sint w)"
proof -
  have b: "- (2 ^ 63) \<le> sint w" "sint w < 2 ^ 63" using sint_ge [of w] sint_lt [of w] by simp_all
  have u: "uint w = sint w mod 2 ^ 64" by (simp add: uint_sint take_bit_eq_mod)
  show ?thesis
  proof (cases "sint w < 0")
    case True
    have "sint w mod 2 ^ 64 = (sint w + 2 ^ 64) mod 2 ^ 64" by simp
    also have "\<dots> = sint w + 2 ^ 64" using b True by (intro mod_pos_pos_trivial) simp_all
    finally show ?thesis using u True by simp
  next
    case False
    then have "sint w mod 2 ^ 64 = sint w" using b False by (intro mod_pos_pos_trivial) simp_all
    with u False show ?thesis by simp
  qed
qed

section \<open>Properties\<close>

text \<open>
  format_int writes the decimal numeral of every 64-bit value, signed or unsigned (the least
  signed value included), and both versions of count_digits, the portable one and the one that
  multiplies the bit length by 1233/4096, compute the length of that numeral.
\<close>

theorem format_int_is_decimal:
  "format_unsigned (unat n) = dec (unat n) \<and> count_digits (unat n) = length (dec (unat n))
   \<and> count_digits_clz n = length (dec (unat n))
   \<and> format_signed n = (if sint n < 0 then CHR ''-'' # dec (nat (- sint n)) else dec (nat (sint n)))"
proof -
  have "format_signed n = (if sint n < 0 then CHR ''-'' # dec (nat (- sint n)) else dec (nat (sint n)))"
  proof (cases "sint n < 0")
    case True
    have u: "uint n = sint n + 2 ^ 64" using uint_of_sint [of n] True by simp
    have "uint (- n) = (- uint n) mod 2 ^ 64" by (simp add: uint_word_ariths)
    also have "\<dots> = (- sint n - 2 ^ 64) mod 2 ^ 64" by (simp add: u)
    also have "\<dots> = - sint n mod 2 ^ 64" by simp
    also have "\<dots> = - sint n" using True sint_ge [of n] by (intro mod_pos_pos_trivial) simp_all
    finally have "unat (- n) = nat (- sint n)" by (simp add: unat_eq_nat_uint)
    with True show ?thesis by (simp add: format_signed_def format_unsigned_def format_decimal_dec Let_def)
  next
    case False
    then have "unat n = nat (sint n)" using uint_of_sint [of n] by (simp add: unat_eq_nat_uint)
    with False show ?thesis by (simp add: format_signed_def format_unsigned_def format_decimal_dec Let_def)
  qed
  then show ?thesis
    by (simp add: format_unsigned_def format_decimal_dec count_digits_length count_digits_clz_length)
qed

text \<open>
  parse_nonnegative_int reads a decimal numeral back and stops at the first character that is
  not a digit, if the number fits into an int; if it does not, whatever its length, the result is the
  error and never a wrapped-around number.
\<close>

theorem parse_decimal_roundtrip:
  assumes "rest = [] \<or> \<not> is_digit (hd rest)"
  shows "if n \<le> max_int then parse_nonnegative_int (dec n @ rest) = (Inr n, rest)
    else fst (parse_nonnegative_int (dec n @ rest)) = Inl ''number is too big''"
  using parse_loop_spec [OF dec_digits [of n] assms, of 0]
  by (cases "n \<le> max_int"; cases "parse_loop 0 (dec n @ rest)")
    (simp_all add: numeral_value_dec parse_nonnegative_int_def)

theorem parse_decimal_roundtrip_witness:
  "parse_nonnegative_int (dec 2147483647 @ ''}'') = (Inr 2147483647, ''}'')"
  using parse_decimal_roundtrip [of "''}''" 2147483647] by (simp add: is_digit_def max_int_def)

end
