(* ===== verification/File_Helper.thy ===== *)
theory File_Helper imports Prelude Fmt_Int begin

text \<open>
  Files: the part of the operating system the sinks use (spdlog/details/os-inl.h: \<open>fopen_s\<close>, \<open>remove\<close>,
  \<open>remove_if_exists\<close>, \<open>rename\<close>, \<open>path_exists\<close>, \<open>filesize\<close>, \<open>create_dir\<close>, \<open>dir_name\<close>) and
  \<open>file_helper\<close> (details/file_helper.h, file_helper-inl.h).

  The file system maps paths to numbered files with their contents, so a file that was renamed or removed
  keeps its contents while it is open.  Which calls of the system fail is a parameter, a record of
  functions of the state; \<open>ticks\<close> counts the calls, so that two identical calls may differ.  The buffer of
  \<open>FILE *\<close> is not modelled: what \<open>fwrite\<close> took counts as in the file.
\<close>

datatype spdlog_ex =
    Open_failed string
  | Reopen_unopened
  | Write_failed string
  | Size_of_closed string
  | Rename_failed string string
  | Invalid_rotation_time
  | Remove_failed string
  | Logger_exists string
  | No_thread_pool
  | Invalid_threads_n

record os_state =
  dir :: "string \<Rightarrow> nat option"
  data :: "nat \<Rightarrow> string"
  next_file :: nat
  folders :: "string list"
  ticks :: nat

record os_env =
  open_ok :: "os_state \<Rightarrow> string \<Rightarrow> bool"
  mkdir_ok :: "os_state \<Rightarrow> string \<Rightarrow> bool"
  rename_ok :: "os_state \<Rightarrow> string \<Rightarrow> string \<Rightarrow> bool"
  remove_ok :: "os_state \<Rightarrow> string \<Rightarrow> bool"
  write_room :: "os_state \<Rightarrow> nat \<Rightarrow> nat"
  os_now :: "os_state \<Rightarrow> int"

section \<open>System calls\<close>

definition tick :: "os_state \<Rightarrow> os_state" where
  "tick os = os\<lparr>ticks := ticks os + 1\<rparr>"

definition path_exists :: "os_state \<Rightarrow> string \<Rightarrow> bool" where
  "path_exists os fname \<longleftrightarrow> dir os fname \<noteq> None \<or> fname \<in> set (folders os)"

definition os_fopen :: "os_env \<Rightarrow> string \<Rightarrow> bool \<Rightarrow> os_state \<Rightarrow> nat option \<times> os_state" where
  "os_fopen env fname trunc_mode os =
     (if open_ok env os fname
      then
        case dir os fname of
          Some i \<Rightarrow> (Some i, tick (if trunc_mode then os\<lparr>data := (data os)(i := [])\<rparr> else os))
        | None \<Rightarrow>
            (Some (next_file os), tick (os\<lparr>dir := (dir os)(fname := Some (next_file os)),
               data := (data os)(next_file os := []), next_file := next_file os + 1\<rparr>))
      else (None, tick os))"

text \<open>\<open>fwrite\<close> reports how much it wrote.\<close>

definition os_fwrite :: "os_env \<Rightarrow> string \<Rightarrow> nat \<Rightarrow> os_state \<Rightarrow> nat \<times> os_state" where
  "os_fwrite env buf i os =
     (let n = min (length buf) (write_room env os i) in
      (n, tick (os\<lparr>data := (data os)(i := data os i @ take n buf)\<rparr>)))"

definition os_remove :: "os_env \<Rightarrow> string \<Rightarrow> os_state \<Rightarrow> bool \<times> os_state" where
  "os_remove env fname os =
     (if dir os fname \<noteq> None \<and> remove_ok env os fname
      then (True, tick (os\<lparr>dir := (dir os)(fname := None)\<rparr>)) else (False, tick os))"

definition remove_if_exists :: "os_env \<Rightarrow> string \<Rightarrow> os_state \<Rightarrow> bool \<times> os_state" where
  "remove_if_exists env fname os = (if path_exists os fname then os_remove env fname os else (True, os))"

definition os_rename :: "os_env \<Rightarrow> string \<Rightarrow> string \<Rightarrow> os_state \<Rightarrow> bool \<times> os_state" where
  "os_rename env src dst os =
     (if dir os src \<noteq> None \<and> rename_ok env os src dst
      then (True, tick (os\<lparr>dir := (dir os)(src := None, dst := dir os src)\<rparr>)) else (False, tick os))"

definition os_mkdir :: "os_env \<Rightarrow> string \<Rightarrow> os_state \<Rightarrow> bool \<times> os_state" where
  "os_mkdir env fname os =
     (if mkdir_ok env os fname then (True, tick (os\<lparr>folders := fname # folders os\<rparr>)) else (False, tick os))"

text \<open>\<open>create_dir\<close> walks over the separators of the path; the prefixes are given by their lengths.\<close>

fun find_sep :: "string \<Rightarrow> nat \<Rightarrow> nat" where
  "find_sep [] pos = pos"
| "find_sep (c # cs) pos = (if c = CHR ''/'' then pos else find_sep cs (pos + 1))"

lemma find_sep_ge: "pos \<le> find_sep cs pos"
  by (induction cs pos rule: find_sep.induct) auto

function create_dir_loop :: "os_env \<Rightarrow> string \<Rightarrow> nat \<Rightarrow> os_state \<Rightarrow> bool \<times> os_state" where
  "create_dir_loop env path search_offset os =
     (let token_pos = find_sep (drop search_offset path) search_offset;
          subdir = take token_pos path in
      if subdir \<noteq> [] \<and> \<not> path_exists os subdir \<and> \<not> fst (os_mkdir env subdir os)
      then (False, snd (os_mkdir env subdir os))
      else
        let os1 = (if subdir \<noteq> [] \<and> \<not> path_exists os subdir then snd (os_mkdir env subdir os) else os) in
        if token_pos + 1 < length path then create_dir_loop env path (token_pos + 1) os1 else (True, os1))"
  by pat_completeness auto
termination
proof (relation "measure (\<lambda>(env, path, off, os). length path - off)", goal_cases)
  case (2 env path off os token_pos subdir os1)
  have "off \<le> token_pos" using find_sep_ge [of off "drop off path"] 2(1) by simp
  with 2 show ?case by simp
qed simp

declare create_dir_loop.simps [simp del]

definition create_dir :: "os_env \<Rightarrow> string \<Rightarrow> os_state \<Rightarrow> bool \<times> os_state" where
  "create_dir env path os =
     (if path_exists os path then (True, os)
      else if path = [] then (False, os)
      else create_dir_loop env path 0 os)"

text \<open>The position of the last occurrence of a character, as \<open>rfind\<close> gives it.\<close>

fun rfind_from :: "char \<Rightarrow> string \<Rightarrow> nat \<Rightarrow> nat option" where
  "rfind_from c [] pos = None"
| "rfind_from c (x # xs) pos =
     (case rfind_from c xs (pos + 1) of Some i \<Rightarrow> Some i | None \<Rightarrow> if x = c then Some pos else None)"

definition rfind :: "char \<Rightarrow> string \<Rightarrow> nat option" where
  "rfind c s = rfind_from c s 0"

definition dir_name :: "string \<Rightarrow> string" where
  "dir_name path = (case rfind (CHR ''/'') path of Some pos \<Rightarrow> take pos path | None \<Rightarrow> [])"

section \<open>The file helper\<close>

record file_helper =
  fd :: "nat option"
  opened_name :: string

definition new_file_helper :: file_helper where
  "new_file_helper = \<lparr>fd = None, opened_name = []\<rparr>"

definition fh_close :: "file_helper \<Rightarrow> file_helper" where
  "fh_close fh = (if fd fh \<noteq> None then fh\<lparr>fd := None\<rparr> else fh)"

fun open_loop ::
  "os_env \<Rightarrow> nat \<Rightarrow> string \<Rightarrow> bool \<Rightarrow> file_helper \<Rightarrow> os_state \<Rightarrow> (spdlog_ex + unit) \<times> file_helper \<times> os_state" where
  "open_loop env 0 fname trunc_mode fh os = (Inl (Open_failed (opened_name fh)), fh, os)"
| "open_loop env (Suc tries) fname trunc_mode fh os =
     (let os1 = snd (create_dir env (dir_name fname) os) in
      case os_fopen env fname trunc_mode os1 of
        (Some i, os2) \<Rightarrow> (Inr (), fh\<lparr>fd := Some i\<rparr>, os2)
      | (None, os2) \<Rightarrow> open_loop env tries fname trunc_mode fh (tick os2))"

definition open_tries :: nat where "open_tries = 5"

definition fh_open ::
  "os_env \<Rightarrow> string \<Rightarrow> bool \<Rightarrow> file_helper \<Rightarrow> os_state \<Rightarrow> (spdlog_ex + unit) \<times> file_helper \<times> os_state" where
  "fh_open env fname trunc_mode fh os =
     open_loop env open_tries fname trunc_mode ((fh_close fh)\<lparr>opened_name := fname\<rparr>) os"

definition fh_reopen ::
  "os_env \<Rightarrow> bool \<Rightarrow> file_helper \<Rightarrow> os_state \<Rightarrow> (spdlog_ex + unit) \<times> file_helper \<times> os_state" where
  "fh_reopen env trunc_mode fh os =
     (if opened_name fh = [] then (Inl Reopen_unopened, fh, os)
      else fh_open env (opened_name fh) trunc_mode fh os)"

text \<open>Writing with no open file is undefined.\<close>

definition fh_write ::
  "os_env \<Rightarrow> string \<Rightarrow> file_helper \<Rightarrow> os_state \<Rightarrow> ((spdlog_ex + unit) \<times> os_state) option" where
  "fh_write env buf fh os =
     (case fd fh of
        None \<Rightarrow> None
      | Some i \<Rightarrow>
          (case os_fwrite env buf i os of
             (n, os1) \<Rightarrow> Some (if n \<noteq> length buf then Inl (Write_failed (opened_name fh)) else Inr (), os1)))"

definition fh_size :: "file_helper \<Rightarrow> os_state \<Rightarrow> spdlog_ex + nat" where
  "fh_size fh os =
     (case fd fh of None \<Rightarrow> Inl (Size_of_closed (opened_name fh)) | Some i \<Rightarrow> Inr (length (data os i)))"

definition fh_filename :: "file_helper \<Rightarrow> string" where
  "fh_filename fh = opened_name fh"

definition split_by_extension :: "string \<Rightarrow> string \<times> string" where
  "split_by_extension fname =
     (case rfind (CHR ''.'') fname of
        None \<Rightarrow> (fname, [])
      | Some ext_index \<Rightarrow>
          if ext_index = 0 \<or> ext_index = length fname - 1 then (fname, [])
          else
            case rfind (CHR ''/'') fname of
              Some folder_index \<Rightarrow>
                if folder_index \<ge> ext_index - 1 then (fname, [])
                else (take ext_index fname, drop ext_index fname)
            | None \<Rightarrow> (take ext_index fname, drop ext_index fname))"

section \<open>Properties\<close>

text \<open>What a path shows: the contents of the file it names.\<close>

definition file_at :: "os_state \<Rightarrow> string \<Rightarrow> string option" where
  "file_at os fname = map_option (data os) (dir os fname)"

text \<open>No two paths name one file, and new files are new.\<close>

definition os_wf :: "os_state \<Rightarrow> bool" where
  "os_wf os \<longleftrightarrow> (\<forall>f g i. dir os f = Some i \<longrightarrow> dir os g = Some i \<longrightarrow> f = g)
     \<and> (\<forall>f i. dir os f = Some i \<longrightarrow> i < next_file os)"

lemma os_wf_inj: "os_wf os \<Longrightarrow> dir os f = Some i \<Longrightarrow> dir os g = Some i \<Longrightarrow> f = g"
  unfolding os_wf_def by simp

lemma os_wf_fresh: "os_wf os \<Longrightarrow> dir os f \<noteq> Some (next_file os)"
  unfolding os_wf_def by blast

lemma split_by_extension_append: "fst (split_by_extension f) @ snd (split_by_extension f) = f"
proof -
  have c: "fst (if b then (f, []) else (take n f, drop n f)) @ snd (if b then (f, []) else (take n f, drop n f)) = f"
    for b n by simp
  show ?thesis
  proof (cases "rfind (CHR ''.'') f")
    case None
    then show ?thesis by (simp add: split_by_extension_def)
  next
    case (Some n)
    show ?thesis
      by (cases "rfind (CHR ''/'') f"; cases "n = 0 \<or> n = length f - 1")
        (simp_all only: split_by_extension_def Some option.case c if_True if_False fst_conv snd_conv
          append_Nil2 append_take_drop_id)
  qed
qed

lemma tick_simps [simp, sink_simps]:
  "dir (tick os) = dir os" "data (tick os) = data os" "folders (tick os) = folders os"
  "next_file (tick os) = next_file os" "os_wf (tick os) = os_wf os" "file_at (tick os) = file_at os"
  by (simp_all add: tick_def os_wf_def file_at_def fun_eq_iff)

lemma fh_close_simps [simp, sink_simps]: "fd (fh_close fh) = None" "opened_name (fh_close fh) = opened_name fh"
  by (simp_all add: fh_close_def)

text \<open>Creating folders changes no file.\<close>

lemma os_mkdir_files:
  "dir (snd (os_mkdir env p os)) = dir os" "data (snd (os_mkdir env p os)) = data os"
  "next_file (snd (os_mkdir env p os)) = next_file os"
  by (simp_all add: os_mkdir_def)

lemma create_dir_loop_files:
  "dir (snd (create_dir_loop env p off os)) = dir os \<and> data (snd (create_dir_loop env p off os)) = data os
    \<and> next_file (snd (create_dir_loop env p off os)) = next_file os"
proof (induction env p off os rule: create_dir_loop.induct)
  case (1 env p off os)
  define tp where "tp = find_sep (drop off p) off"
  define sd where "sd = take tp p"
  define os1 where "os1 = (if sd \<noteq> [] \<and> \<not> path_exists os sd then snd (os_mkdir env sd os) else os)"
  have os1: "dir os1 = dir os" "data os1 = data os" "next_file os1 = next_file os"
    by (simp_all add: os1_def os_mkdir_files)
  show ?case
  proof (cases "sd \<noteq> [] \<and> \<not> path_exists os sd \<and> \<not> fst (os_mkdir env sd os)")
    case True
    then show ?thesis
      by (subst (1 2 3) create_dir_loop.simps)
        (simp only: Let_def tp_def [symmetric] sd_def [symmetric] if_True snd_conv os_mkdir_files simp_thms)
  next
    case False
    have e: "create_dir_loop env p off os
        = (if tp + 1 < length p then create_dir_loop env p (tp + 1) os1 else (True, os1))"
      by (subst create_dir_loop.simps)
        (simp only: Let_def tp_def [symmetric] sd_def [symmetric] os1_def False if_False)
    show ?thesis
    proof (cases "tp + 1 < length p")
      case True
      from 1 [OF tp_def sd_def False os1_def True] show ?thesis unfolding e by (simp add: True os1)
    qed (simp add: e os1)
  qed
qed

lemma create_dir_files [simp, sink_simps]:
  "dir (snd (create_dir env p os)) = dir os" "data (snd (create_dir env p os)) = data os"
  "next_file (snd (create_dir env p os)) = next_file os"
  by (simp_all add: create_dir_def create_dir_loop_files)

lemma os_mkdir_folders:
  "g \<in> set (folders (snd (os_mkdir env p os))) \<Longrightarrow> g \<in> set (folders os) \<or> g = p"
  by (auto simp: os_mkdir_def split: if_splits)

lemma create_dir_loop_folders:
  "g \<in> set (folders (snd (create_dir_loop env p off os))) \<Longrightarrow> g \<in> set (folders os) \<or> length g \<le> length p"
proof (induction env p off os rule: create_dir_loop.induct)
  case (1 env p off os)
  define tp where "tp = find_sep (drop off p) off"
  define sd where "sd = take tp p"
  define os1 where "os1 = (if sd \<noteq> [] \<and> \<not> path_exists os sd then snd (os_mkdir env sd os) else os)"
  have sd: "length sd \<le> length p" by (simp add: sd_def)
  have mk: "g \<in> set (folders (snd (os_mkdir env sd os))) \<Longrightarrow> g \<in> set (folders os) \<or> length g \<le> length p"
    using os_mkdir_folders [of g env sd os] sd by auto
  then have os1: "g \<in> set (folders os1) \<Longrightarrow> g \<in> set (folders os) \<or> length g \<le> length p"
    by (simp add: os1_def split: if_splits)
  show ?case
  proof (cases "sd \<noteq> [] \<and> \<not> path_exists os sd \<and> \<not> fst (os_mkdir env sd os)")
    case True
    have "snd (create_dir_loop env p off os) = snd (os_mkdir env sd os)"
      by (subst create_dir_loop.simps)
        (simp only: Let_def tp_def [symmetric] sd_def [symmetric] True if_True snd_conv simp_thms not_False_eq_True)
    then show ?thesis using 1(2) mk by simp
  next
    case False
    have e: "create_dir_loop env p off os
        = (if tp + 1 < length p then create_dir_loop env p (tp + 1) os1 else (True, os1))"
      by (subst create_dir_loop.simps)
        (simp only: Let_def tp_def [symmetric] sd_def [symmetric] os1_def False if_False)
    show ?thesis
    proof (cases "tp + 1 < length p")
      case True
      from 1(2) have "g \<in> set (folders (snd (create_dir_loop env p (tp + 1) os1)))"
        unfolding e by (simp only: True if_True)
      from 1(1) [OF tp_def sd_def False os1_def True this] os1 show ?thesis by blast
    next
      case False
      from 1(2) os1 show ?thesis unfolding e by (simp only: False if_False snd_conv)
    qed
  qed
qed

lemma rfind_from_less: "rfind_from c s pos = Some i \<Longrightarrow> pos \<le> i \<and> i < pos + length s"
  by (induction c s pos rule: rfind_from.induct) (auto split: option.splits if_splits)

lemma create_dir_folders:
  assumes "g \<in> set (folders (snd (create_dir env (dir_name f) os)))"
  shows "g \<in> set (folders os) \<or> length g < length f"
proof (cases "rfind (CHR ''/'') f")
  case None
  then show ?thesis using assms by (simp add: dir_name_def create_dir_def split: if_splits)
next
  case (Some i)
  then have i: "i < length f" using rfind_from_less [of "CHR ''/''" f 0] by (simp add: rfind_def)
  then have l: "length (dir_name f) < length f" using Some by (simp add: dir_name_def)
  from assms have "g \<in> set (folders os) \<or> length g \<le> length (dir_name f)"
    using create_dir_loop_folders [of g env "dir_name f" 0 os] by (auto simp: create_dir_def split: if_splits)
  with l show ?thesis by linarith
qed

text \<open>An environment in which no call fails.\<close>

definition calls_succeed :: "os_env \<Rightarrow> bool" where
  "calls_succeed env \<longleftrightarrow> open_ok env = (\<lambda>os f. True) \<and> rename_ok env = (\<lambda>os f g. True) \<and>
     remove_ok env = (\<lambda>os f. True) \<and> (\<forall>os i. 2 ^ 64 \<le> write_room env os i)"

text \<open>Opening a file that exists, and one that does not.\<close>

lemma fh_open_ok:
  assumes "calls_succeed env" "os_wf os"
  obtains i os' where "fh_open env f tr fh os = (Inr (), \<lparr>fd = Some i, opened_name = f\<rparr>, os')"
    "dir os' f = Some i" "os_wf os'" "\<And>g. g \<noteq> f \<Longrightarrow> file_at os' g = file_at os g"
    "file_at os' f = Some (if tr then [] else case file_at os f of None \<Rightarrow> [] | Some s \<Rightarrow> s)"
    "\<And>g. g \<noteq> f \<Longrightarrow> dir os' g = dir os g"
    "\<And>g. g \<in> set (folders os') \<Longrightarrow> g \<in> set (folders os) \<or> length g < length f"
proof -
  define os1 where "os1 = snd (create_dir env (dir_name f) os)"
  have os1: "dir os1 = dir os" "data os1 = data os" "next_file os1 = next_file os" by (simp_all add: os1_def)
  have fo: "g \<in> set (folders os1) \<Longrightarrow> g \<in> set (folders os) \<or> length g < length f" for g
    unfolding os1_def by (rule create_dir_folders)
  have wf1: "os_wf os1" using assms(2) by (simp add: os_wf_def os1)
  have op: "open_ok env os1 f" using assms(1) by (simp add: calls_succeed_def)
  have e: "fh_open env f tr fh os = (case os_fopen env f tr os1 of
      (Some i, os2) \<Rightarrow> (Inr (), \<lparr>fd = Some i, opened_name = f\<rparr>, os2)
    | (None, os2) \<Rightarrow> open_loop env 4 f tr ((fh_close fh)\<lparr>opened_name := f\<rparr>) (tick os2))"
    by (cases fh) (simp add: fh_open_def open_tries_def numeral_eq_Suc os1_def [symmetric] fh_close_def
      cong: option.case_cong prod.case_cong)
  show ?thesis
  proof (cases "dir os f")
    case None
    let ?os = "tick (os1\<lparr>dir := (dir os1)(f := Some (next_file os1)),
               data := (data os1)(next_file os1 := []), next_file := next_file os1 + 1\<rparr>)"
    have r: "os_fopen env f tr os1 = (Some (next_file os1), ?os)" using None by (simp add: os_fopen_def op os1)
    have fresh: "dir os g \<noteq> Some (next_file os)" for g using os_wf_fresh assms(2) by blast
    have lt: "dir os g = Some i \<Longrightarrow> i < next_file os" for g i using assms(2) by (simp add: os_wf_def)
    have d: "dir ?os g = (if g = f then Some (next_file os) else dir os g)" for g by (simp add: os1)
    have inj: "g = h" if "dir ?os g = Some i" "dir ?os h = Some i" for g h i
    proof (cases "g = f \<or> h = f")
      case True
      with that fresh [of g] fresh [of h] show ?thesis unfolding d by (auto split: if_splits)
    next
      case False
      with that os_wf_inj [OF assms(2)] show ?thesis unfolding d by simp
    qed
    have bound: "i < next_file ?os" if "dir ?os g = Some i" for g i
      using that lt [of g i] unfolding d by (auto simp: os1 split: if_splits)
    have wf: "os_wf ?os" unfolding os_wf_def using inj bound by blast
    have g: "file_at ?os g = file_at os g" if "g \<noteq> f" for g
      using fresh [of g] that by (cases "dir os g") (auto simp: file_at_def os1)
    show ?thesis
    proof (rule that [of "next_file os1" ?os])
      show "fh_open env f tr fh os = (Inr (), \<lparr>fd = Some (next_file os1), opened_name = f\<rparr>, ?os)"
        unfolding e r by simp
      show "file_at ?os f = Some (if tr then [] else case file_at os f of None \<Rightarrow> [] | Some s \<Rightarrow> s)"
        using None by (simp add: file_at_def)
      show "h \<in> set (folders os) \<or> length h < length f" if "h \<in> set (folders ?os)" for h using fo that by simp
    qed (use g wf d in \<open>simp_all add: os1\<close>)
  next
    case (Some i)
    let ?os = "tick (if tr then os1\<lparr>data := (data os1)(i := [])\<rparr> else os1)"
    have r: "os_fopen env f tr os1 = (Some i, ?os)" using Some by (simp add: os_fopen_def op os1)
    have o: "dir os g = Some i \<Longrightarrow> g = f" for g using os_wf_inj [OF assms(2)] Some by blast
    have wf: "os_wf ?os" using wf1 by (simp add: os_wf_def)
    have g: "file_at ?os g = file_at os g" if "g \<noteq> f" for g
      using o [of g] that by (cases "dir os g") (auto simp: file_at_def os1)
    show ?thesis
    proof (rule that [of i ?os])
      show "fh_open env f tr fh os = (Inr (), \<lparr>fd = Some i, opened_name = f\<rparr>, ?os)"
        unfolding e r by simp
      show "file_at ?os f = Some (if tr then [] else case file_at os f of None \<Rightarrow> [] | Some s \<Rightarrow> s)"
        using Some by (simp add: file_at_def os1)
      show "h \<in> set (folders os) \<or> length h < length f" if "h \<in> set (folders ?os)" for h
        using fo that by (cases tr) simp_all
    qed (use g wf Some in \<open>simp_all add: os1\<close>)
  qed
qed

lemma fh_write_ok:
  assumes "calls_succeed env" "os_wf os" "fd fh = Some i" "dir os f = Some i" "length buf < 2 ^ 64"
  obtains os' where "fh_write env buf fh os = Some (Inr (), os')" "dir os' = dir os" "os_wf os'"
    "folders os' = folders os"
    "\<And>g. g \<noteq> f \<Longrightarrow> file_at os' g = file_at os g" "file_at os' f = map_option (\<lambda>s. s @ buf) (file_at os f)"
proof -
  let ?os = "tick (os\<lparr>data := (data os)(i := data os i @ buf)\<rparr>)"
  have room: "2 ^ 64 \<le> write_room env os i" using assms(1) by (simp add: calls_succeed_def)
  then have "min (length buf) (write_room env os i) = length buf" using assms(5) by linarith
  then have r: "fh_write env buf fh os = Some (Inr (), ?os)"
    by (simp add: fh_write_def assms(3) os_fwrite_def Let_def)
  have o: "dir os g = Some i \<Longrightarrow> g = f" for g using os_wf_inj [OF assms(2)] assms(4) by blast
  have wf: "os_wf ?os" using assms(2) by (simp add: os_wf_def)
  show ?thesis
  proof (rule that [OF r])
    show "dir ?os = dir os" "folders ?os = folders os" by simp_all
    show "os_wf ?os" by (rule wf)
    show "file_at ?os g = file_at os g" if "g \<noteq> f" for g
      using o [of g] that by (cases "dir os g") (auto simp: file_at_def)
    show "file_at ?os f = map_option (\<lambda>s. s @ buf) (file_at os f)"
      using assms(4) by (simp add: file_at_def)
  qed
qed

lemma os_remove_ok:
  assumes "calls_succeed env" "os_wf os" "dir os f \<noteq> None"
  shows "fst (os_remove env f os)" "os_wf (snd (os_remove env f os))"
    "file_at (snd (os_remove env f os)) = (file_at os)(f := None)" "folders (snd (os_remove env f os)) = folders os"
proof -
  have e: "os_remove env f os = (True, tick (os\<lparr>dir := (dir os)(f := None)\<rparr>))"
    using assms(1,3) by (simp add: os_remove_def calls_succeed_def)
  show "fst (os_remove env f os)" "folders (snd (os_remove env f os)) = folders os" by (simp_all add: e)
  show "os_wf (snd (os_remove env f os))" using assms(2) by (simp add: e os_wf_def)
  show "file_at (snd (os_remove env f os)) = (file_at os)(f := None)" by (auto simp: e file_at_def)
qed

lemma os_rename_ok:
  assumes "calls_succeed env" "os_wf os" "dir os f \<noteq> None" "f \<noteq> g"
  shows "fst (os_rename env f g os)" "os_wf (snd (os_rename env f g os))"
    "file_at (snd (os_rename env f g os)) = (file_at os)(f := None, g := file_at os f)"
    "folders (snd (os_rename env f g os)) = folders os"
proof -
  have e: "os_rename env f g os = (True, tick (os\<lparr>dir := (dir os)(f := None, g := dir os f)\<rparr>))"
    using assms(1,3) by (simp add: os_rename_def calls_succeed_def)
  show "fst (os_rename env f g os)" "folders (snd (os_rename env f g os)) = folders os" by (simp_all add: e)
  have inj: "h = k" if "((dir os)(f := None, g := dir os f)) h = Some i"
    "((dir os)(f := None, g := dir os f)) k = Some i" for h k i
  proof (cases "h = g"; cases "k = g")
    assume "h = g" "k \<noteq> g"
    then show ?thesis using that os_wf_inj [OF assms(2), of f i k] by (cases "k = f") simp_all
  next
    assume "h \<noteq> g" "k = g"
    then show ?thesis using that os_wf_inj [OF assms(2), of f i h] by (cases "h = f") simp_all
  next
    assume "h \<noteq> g" "k \<noteq> g"
    then show ?thesis using that os_wf_inj [OF assms(2), of h i k] by (cases "h = f"; cases "k = f") simp_all
  qed simp
  have bound: "i < next_file os" if "((dir os)(f := None, g := dir os f)) h = Some i" for h i
    using that assms(2) by (auto simp: os_wf_def split: if_splits)
  have d: "dir (os\<lparr>dir := x\<rparr>) = x" "next_file (os\<lparr>dir := x\<rparr>) = next_file os" for x by simp_all
  show "os_wf (snd (os_rename env f g os))"
    unfolding e snd_conv tick_simps os_wf_def d using inj bound by blast
  show "file_at (snd (os_rename env f g os)) = (file_at os)(f := None, g := file_at os f)"
    by (auto simp: e file_at_def)
qed

end
