(* ===== verification/Log_Common.thy ===== *)
theory Log_Common imports Prelude Fmt_Int "HOL-Library.AList" begin

text \<open>
  The vocabulary of the logging library: levels and their names (spdlog/common.h, common-inl.h), messages
  and messages that own their text (details/log_msg.h, log_msg-inl.h, log_msg_buffer.h,
  log_msg_buffer-inl.h), number padding (details/fmt_helper.h) and the level configuration read from a
  string (cfg/log_levels.h, cfg/helpers-inl.h, cfg/argv.h).
\<close>

section \<open>Levels\<close>

datatype level_enum = Trace | Debug | Info | Warn | Err | Critical | Off_level | N_levels

fun level_num :: "level_enum \<Rightarrow> nat" where
  "level_num Trace = 0" | "level_num Debug = 1" | "level_num Info = 2" | "level_num Warn = 3"
| "level_num Err = 4" | "level_num Critical = 5" | "level_num Off_level = 6" | "level_num N_levels = 7"

definition level_of_num :: "nat \<Rightarrow> level_enum" where
  "level_of_num n = (if n < 8 then [Trace, Debug, Info, Warn, Err, Critical, Off_level, N_levels] ! n else N_levels)"

lemma level_num_inject [simp, sink_simps]: "level_num l = level_num l' \<longleftrightarrow> l = l'"
  by (cases l; cases l') simp_all

lemma level_of_level_num [simp, sink_simps]: "level_of_num (level_num l) = l"
  by (cases l) (simp_all add: level_of_num_def)

text \<open>Levels are compared as the integers they are.\<close>

instantiation level_enum :: linorder
begin

definition less_eq_level_enum :: "level_enum \<Rightarrow> level_enum \<Rightarrow> bool" where
  "less_eq_level_enum a b \<longleftrightarrow> level_num a \<le> level_num b"

definition less_level_enum :: "level_enum \<Rightarrow> level_enum \<Rightarrow> bool" where
  "less_level_enum a b \<longleftrightarrow> level_num a < level_num b"

instance
  by standard (auto simp: less_eq_level_enum_def less_level_enum_def)

end

definition level_string_views :: "string list" where
  "level_string_views = [''trace'', ''debug'', ''info'', ''warning'', ''error'', ''critical'', ''off'']"

definition short_level_names :: "string list" where
  "short_level_names = [''T'', ''D'', ''I'', ''W'', ''E'', ''C'', ''O'']"

text \<open>Indexing the tables; \<open>n_levels\<close> is outside of them.\<close>

definition level_name :: "level_enum \<Rightarrow> string option" where
  "level_name l = read_cell level_string_views (level_num l)"

definition to_short_c_str :: "level_enum \<Rightarrow> string option" where
  "to_short_c_str l = read_cell short_level_names (level_num l)"

fun from_str_loop :: "string list \<Rightarrow> nat \<Rightarrow> string \<Rightarrow> level_enum option" where
  "from_str_loop [] level name = None"
| "from_str_loop (s # ss) level name =
     (if s = name then Some (level_of_num level) else from_str_loop ss (level + 1) name)"

definition from_str :: "string \<Rightarrow> level_enum" where
  "from_str name =
     (case from_str_loop level_string_views 0 name of
        Some l \<Rightarrow> l
      | None \<Rightarrow> if name = ''warn'' then Warn else if name = ''err'' then Err else Off_level)"

lemma from_str_level_name: "level_name l = Some s \<Longrightarrow> from_str s = l"
  by (cases l) (auto simp: level_name_def read_cell_def level_string_views_def from_str_def level_of_num_def)

section \<open>Messages\<close>

record source_loc =
  filename :: "string option"
  line :: int
  funcname :: "string option"

definition no_source :: source_loc where
  "no_source = \<lparr>filename = None, line = 0, funcname = None\<rparr>"

definition source_empty :: "source_loc \<Rightarrow> bool" where
  "source_empty s \<longleftrightarrow> line s = 0"

text \<open>A time is the number of nanoseconds since the epoch.\<close>

record log_msg =
  logger_name :: string
  level :: level_enum
  time :: int
  thread_id :: nat
  color_range_start :: nat
  color_range_end :: nat
  source :: source_loc
  payload :: string

definition make_log_msg :: "int \<Rightarrow> nat \<Rightarrow> source_loc \<Rightarrow> string \<Rightarrow> level_enum \<Rightarrow> string \<Rightarrow> log_msg" where
  "make_log_msg log_time tid loc a_logger_name lvl msg =
     \<lparr>logger_name = a_logger_name, level = lvl, time = log_time, thread_id = tid, color_range_start = 0,
      color_range_end = 0, source = loc, payload = msg\<rparr>"

text \<open>
  A message with its own text: the views are a position and a length in the buffer.  The
  remaining fields are those of the base class, without the two strings.
\<close>

type_synonym view = "nat \<times> nat"

record log_msg_buffer =
  buffer :: string
  name_view :: view
  payload_view :: view
  base_part :: log_msg

definition view_string :: "string \<Rightarrow> view \<Rightarrow> string" where
  "view_string buf v = take (snd v) (drop (fst v) buf)"

text \<open>The message a reader of the base class sees.\<close>

definition buffered_msg :: "log_msg_buffer \<Rightarrow> log_msg" where
  "buffered_msg b = (base_part b)\<lparr>logger_name := view_string (buffer b) (name_view b),
     payload := view_string (buffer b) (payload_view b)\<rparr>"

definition update_string_views :: "log_msg_buffer \<Rightarrow> log_msg_buffer" where
  "update_string_views b =
     (let b1 = b\<lparr>name_view := (0, snd (name_view b))\<rparr> in
      b1\<lparr>payload_view := (0 + snd (name_view b1), snd (payload_view b1))\<rparr>)"

definition buffer_msg :: "log_msg \<Rightarrow> log_msg_buffer" where
  "buffer_msg orig = update_string_views
     \<lparr>buffer = logger_name orig @ payload orig, name_view = (0, length (logger_name orig)),
      payload_view = (0, length (payload orig)), base_part = orig\<rparr>"

text \<open>The copy constructor appends what the other one's views show.\<close>

definition copy_buffer :: "log_msg_buffer \<Rightarrow> log_msg_buffer" where
  "copy_buffer other =
     (let m = buffered_msg other in
      update_string_views \<lparr>buffer = logger_name m @ payload m, name_view = name_view other,
        payload_view = payload_view other, base_part = base_part other\<rparr>)"

definition move_buffer :: "log_msg_buffer \<Rightarrow> log_msg_buffer" where
  "move_buffer other = update_string_views
     \<lparr>buffer = buffer other, name_view = name_view other, payload_view = payload_view other, base_part = base_part other\<rparr>"

definition assign_buffer :: "log_msg_buffer \<Rightarrow> log_msg_buffer \<Rightarrow> log_msg_buffer" where
  "assign_buffer this other = update_string_views
     (this\<lparr>name_view := name_view other, payload_view := payload_view other, base_part := base_part other,
           buffer := buffer other\<rparr>)"

definition lmb_ok :: "log_msg_buffer \<Rightarrow> bool" where
  "lmb_ok b \<longleftrightarrow> length (buffer b) = snd (name_view b) + snd (payload_view b)
     \<and> name_view b = (0, snd (name_view b)) \<and> payload_view b = (snd (name_view b), snd (payload_view b))"

lemma lmb_ok_buffer_msg [simp, sink_simps]: "lmb_ok (buffer_msg m)"
  by (simp add: lmb_ok_def buffer_msg_def update_string_views_def Let_def)

lemma buffered_buffer_msg [simp, sink_simps]: "buffered_msg (buffer_msg m) = m"
  by (simp add: buffered_msg_def buffer_msg_def update_string_views_def view_string_def Let_def)

lemma update_string_views_id: "lmb_ok b \<Longrightarrow> update_string_views b = b"
  by (cases b) (auto simp: lmb_ok_def update_string_views_def Let_def)

lemma move_buffer_id: "lmb_ok b \<Longrightarrow> move_buffer b = b"
  using update_string_views_id [of b] by (cases b) (simp add: move_buffer_def)

lemma assign_buffer_id: "lmb_ok b \<Longrightarrow> assign_buffer a b = b"
  using update_string_views_id [of b] by (cases a; cases b) (simp add: assign_buffer_def)

lemma copy_buffer_id:
  assumes "lmb_ok b"
  shows "copy_buffer b = b"
proof -
  obtain n k where v: "name_view b = (0, n)" "payload_view b = (n, k)" "length (buffer b) = n + k"
    using assms by (cases "name_view b"; cases "payload_view b") (auto simp: lmb_ok_def)
  then have "view_string (buffer b) (name_view b) @ view_string (buffer b) (payload_view b) = buffer b"
    by (simp add: view_string_def)
  then have "copy_buffer b = update_string_views b" by (cases b) (simp add: copy_buffer_def buffered_msg_def Let_def)
  with update_string_views_id [OF assms] show ?thesis by simp
qed

section \<open>Padded numbers\<close>

text \<open>\<open>fmt::format_to(dest, "{:02}", n)\<close>: zeros after the sign, to a width of two.\<close>

definition signed_dec :: "int \<Rightarrow> string" where
  "signed_dec n = (if n < 0 then CHR ''-'' # dec (nat (- n)) else dec (nat n))"

definition zero_pad_2 :: "int \<Rightarrow> string" where
  "zero_pad_2 n =
     (let sign = (if n < 0 then [CHR ''-''] else []); digits = dec (nat \<bar>n\<bar>) in
      sign @ replicate (2 - (length sign + length digits)) (CHR ''0'') @ digits)"

definition pad2 :: "int \<Rightarrow> string \<Rightarrow> string" where
  "pad2 n dest =
     (if 0 \<le> n \<and> n < 100
      then dest @ [digit_char (nat n div 10)] @ [digit_char (nat n mod 10)]
      else dest @ zero_pad_2 n)"

fun push_zeros :: "nat \<Rightarrow> nat \<Rightarrow> string \<Rightarrow> string" where
  "push_zeros 0 digits dest = dest"
| "push_zeros (Suc fuel) digits dest = push_zeros fuel (digits + 1) (dest @ [CHR ''0''])"

text \<open>\<open>for (auto digits = count_digits(n); digits < width; digits++)\<close> runs \<open>width - digits\<close> times.\<close>

definition pad_uint :: "nat \<Rightarrow> nat \<Rightarrow> string \<Rightarrow> string" where
  "pad_uint n width dest =
     (let digits = count_digits n in push_zeros (width - digits) digits dest @ format_unsigned n)"

definition pad3 :: "nat \<Rightarrow> string \<Rightarrow> string" where
  "pad3 n dest =
     (if n < 1000
      then
        let d1 = dest @ [digit_char (n div 100)]; n' = n mod 100 in
        d1 @ [digit_char (n' div 10)] @ [digit_char (n' mod 10)]
      else dest @ format_unsigned n)"

definition pad6 :: "nat \<Rightarrow> string \<Rightarrow> string" where "pad6 n dest = pad_uint n 6 dest"
definition pad9 :: "nat \<Rightarrow> string \<Rightarrow> string" where "pad9 n dest = pad_uint n 9 dest"

text \<open>\<open>duration_cast\<close> truncates towards zero; a unit is the number of nanoseconds it has.\<close>

definition duration_cast :: "int \<Rightarrow> int \<Rightarrow> int" where
  "duration_cast unit ns = sgn ns * (\<bar>ns\<bar> div unit)"

definition ns_per_sec :: int where "ns_per_sec = 1000000000"

definition time_fraction :: "int \<Rightarrow> int \<Rightarrow> int" where
  "time_fraction unit tp =
     (let secs = duration_cast ns_per_sec tp in duration_cast unit tp - secs * (ns_per_sec div unit))"

lemma push_zeros_replicate: "push_zeros k d dest = dest @ replicate k (CHR ''0'')"
  by (induction k arbitrary: d dest) (simp_all add: replicate_append_same)

lemma pad_uint_eq: "pad_uint n width dest = dest @ replicate (width - length (dec n)) (CHR ''0'') @ dec n"
  by (simp add: pad_uint_def push_zeros_replicate count_digits_length format_unsigned_def format_decimal_dec Let_def)

lemma duration_cast_pos: "0 \<le> tp \<Longrightarrow> duration_cast u tp = tp div u"
  by (cases "tp = 0") (simp_all add: duration_cast_def)

lemma div_minus_mod: "0 \<le> k \<Longrightarrow> (tp :: int) div u - tp div (u * k) * k = tp mod (u * k) div u"
proof -
  assume k: "0 \<le> k"
  have "tp div (u * k) = tp div u div k" using k by (rule zdiv_zmult2_eq)
  moreover have "tp mod (u * k) = u * (tp div u mod k) + tp mod u" using k by (rule zmod_zmult2_eq)
  ultimately show ?thesis
    by (cases "u = 0") (simp_all add: minus_div_mult_eq_mod)
qed

lemma time_fraction_pos:
  assumes "0 \<le> tp" "0 \<le> k" "ns_per_sec = u * k" "0 < u"
  shows "time_fraction u tp = tp mod ns_per_sec div u"
proof -
  have "ns_per_sec div u = k" unfolding assms(3) using assms(4) by simp
  then show ?thesis using div_minus_mod [OF assms(2), of tp u]
    by (simp add: time_fraction_def duration_cast_pos [OF assms(1)] Let_def) (simp add: assms(3))
qed

section \<open>Level configuration\<close>

definition to_lower :: "string \<Rightarrow> string" where
  "to_lower str = map (\<lambda>ch. if 65 \<le> (of_char ch :: nat) \<and> (of_char ch :: nat) \<le> 90 then char_of (of_char ch + 32 :: nat) else ch) str"

definition is_space :: "char \<Rightarrow> bool" where
  "is_space c \<longleftrightarrow> c \<in> {CHR '' '', CHR 0x0A, CHR 0x0D, CHR 0x09}"

text \<open>\<open>str.erase(str.find_last_not_of(spaces) + 1)\<close> and \<open>str.erase(0, str.find_first_not_of(spaces))\<close>.\<close>

definition trim_spaces :: "string \<Rightarrow> string" where
  "trim_spaces str = dropWhile is_space (rev (dropWhile is_space (rev str)))"

definition extract_kv :: "char \<Rightarrow> string \<Rightarrow> string \<times> string" where
  "extract_kv sep str =
     (if sep \<notin> set str then (trim_spaces [], trim_spaces str)
      else (trim_spaces (takeWhile (\<lambda>c. c \<noteq> sep) str), trim_spaces (tl (dropWhile (\<lambda>c. c \<noteq> sep) str))))"

text \<open>\<open>std::getline(token_stream, token, ',')\<close> until it fails, which it does at the end of the input.\<close>

function getline_tokens :: "string \<Rightarrow> string list" where
  "getline_tokens s =
     (if s = [] then []
      else takeWhile (\<lambda>c. c \<noteq> CHR '','') s # getline_tokens (tl (dropWhile (\<lambda>c. c \<noteq> CHR '','') s)))"
  by pat_completeness auto
termination
proof (relation "measure length")
  fix s :: string assume "s \<noteq> []"
  then have "0 < length s" by simp
  moreover have "length (dropWhile (\<lambda>c. c \<noteq> CHR '','') s) \<le> length s" by (rule length_dropWhile_le)
  ultimately have "length (dropWhile (\<lambda>c. c \<noteq> CHR '','') s) - 1 < length s" by linarith
  then show "(tl (dropWhile (\<lambda>c. c \<noteq> CHR '','') s), s) \<in> measure length" by (simp only: in_measure length_tl)
qed simp

declare getline_tokens.simps [simp del]

fun insert_tokens :: "string list \<Rightarrow> (string \<times> string) list \<Rightarrow> (string \<times> string) list" where
  "insert_tokens [] rv = rv"
| "insert_tokens (token # ts) rv =
     (if token = [] then insert_tokens ts rv
      else let kv = extract_kv (CHR ''='') token in insert_tokens ts (AList.update (fst kv) (snd kv) rv))"

text \<open>The \<open>unordered_map\<close> is an association list with distinct keys, in the order the loop over it sees.\<close>

definition extract_key_vals :: "string \<Rightarrow> (string \<times> string) list" where
  "extract_key_vals str = insert_tokens (getline_tokens str) []"

record log_levels =
  levels_map :: "(string \<times> level_enum) list"
  default_level :: level_enum

definition empty_log_levels :: log_levels where
  "empty_log_levels = \<lparr>levels_map = [], default_level = Info\<rparr>"

definition ll_set :: "string \<Rightarrow> level_enum \<Rightarrow> log_levels \<Rightarrow> log_levels" where
  "ll_set name lvl ll =
     (if name = [] then ll\<lparr>default_level := lvl\<rparr>
      else ll\<lparr>levels_map := AList.update name lvl (levels_map ll)\<rparr>)"

definition ll_set_default :: "level_enum \<Rightarrow> log_levels \<Rightarrow> log_levels" where
  "ll_set_default lvl ll = ll\<lparr>default_level := lvl\<rparr>"

definition ll_get :: "string \<Rightarrow> log_levels \<Rightarrow> level_enum" where
  "ll_get name ll = (case map_of (levels_map ll) name of Some l \<Rightarrow> l | None \<Rightarrow> default_level ll)"

text \<open>A level name that nobody knows counts as info.\<close>

definition read_level :: "string \<Rightarrow> level_enum" where
  "read_level s =
     (let level_name = to_lower s; level = from_str level_name in
      if level = Off_level \<and> level_name \<noteq> ''off'' then Info else level)"

fun set_levels :: "(string \<times> string) list \<Rightarrow> log_levels \<Rightarrow> log_levels" where
  "set_levels [] rv = rv"
| "set_levels (name_level # kvs) rv = set_levels kvs (ll_set (fst name_level) (read_level (snd name_level)) rv)"

definition extract_levels :: "string \<Rightarrow> log_levels" where
  "extract_levels input = set_levels (extract_key_vals input) empty_log_levels"

text \<open>
  The command line without the name of the program (the loop starts at 1): for every argument that starts
  with the prefix, the levels it configures, to be handed to the registry in this order.
\<close>

definition level_prefix :: string where "level_prefix = ''SPDLOG_LEVEL=''"

fun load_argv_levels :: "string list \<Rightarrow> log_levels list" where
  "load_argv_levels [] = []"
| "load_argv_levels (arg # argv) =
     (if take (length level_prefix) arg = level_prefix
      then extract_levels (drop (length level_prefix) arg) # load_argv_levels argv
      else load_argv_levels argv)"

definition key_values :: "string \<Rightarrow> (string \<times> string) list" where
  "key_values input = map (extract_kv (CHR ''='')) (filter (\<lambda>t. t \<noteq> []) (getline_tokens input))"

lemma insert_tokens_map:
  "map_of (insert_tokens ts rv) = map_of rv ++ map_of (rev (map (extract_kv (CHR ''='')) (filter (\<lambda>t. t \<noteq> []) ts)))"
  by (induction ts arbitrary: rv) (auto simp: AList.update_conv' Let_def)

lemma insert_tokens_distinct: "distinct (map fst rv) \<Longrightarrow> distinct (map fst (insert_tokens ts rv))"
  by (induction ts arbitrary: rv) (auto simp: Let_def intro: AList.distinct_update)

lemma set_levels_get:
  "distinct (map fst kvs) \<Longrightarrow> map_of (levels_map rv) [] = None \<Longrightarrow>
    map_of (levels_map (set_levels kvs rv)) [] = None
    \<and> default_level (set_levels kvs rv) = (case map_of kvs [] of Some v \<Rightarrow> read_level v | None \<Rightarrow> default_level rv)
    \<and> (\<forall>name. name \<noteq> [] \<longrightarrow> map_of (levels_map (set_levels kvs rv)) name
        = (case map_of kvs name of Some v \<Rightarrow> Some (read_level v) | None \<Rightarrow> map_of (levels_map rv) name))"
proof (induction kvs arbitrary: rv)
  case (Cons kv kvs)
  obtain k v where kv: "kv = (k, v)" by (cases kv) auto
  define rv1 where "rv1 = ll_set k (read_level v) rv"
  have n: "map_of kvs k = None" using Cons.prems(1) kv by (simp add: map_of_eq_None_iff)
  have r: "map_of (levels_map rv1) [] = None" "default_level rv1 = (if k = [] then read_level v else default_level rv)"
    "\<And>name. name \<noteq> [] \<Longrightarrow> map_of (levels_map rv1) name
      = (if name = k then Some (read_level v) else map_of (levels_map rv) name)"
    using Cons.prems(2) by (auto simp: rv1_def ll_set_def AList.update_conv')
  from Cons.IH [of rv1] Cons.prems(1) r(1) have IH: "map_of (levels_map (set_levels kvs rv1)) [] = None"
    "default_level (set_levels kvs rv1) = (case map_of kvs [] of Some v \<Rightarrow> read_level v | None \<Rightarrow> default_level rv1)"
    "\<forall>name. name \<noteq> [] \<longrightarrow> map_of (levels_map (set_levels kvs rv1)) name
        = (case map_of kvs name of Some v \<Rightarrow> Some (read_level v) | None \<Rightarrow> map_of (levels_map rv1) name)"
    by simp_all
  have e: "set_levels (kv # kvs) rv = set_levels kvs rv1" by (simp add: kv rv1_def)
  show ?case unfolding e using IH r n kv by (auto split: option.splits)
qed simp

section \<open>Properties\<close>

text \<open>
  A log_msg_buffer made from a message shows the same message, and so does any copy, move or
  assignment of it: the string views always point at the right part of the buffer's own text.
\<close>

theorem log_msg_buffer_roundtrip:
  "buffered_msg (buffer_msg m) = m \<and> buffered_msg (copy_buffer (buffer_msg m)) = m
   \<and> buffered_msg (move_buffer (copy_buffer (buffer_msg m))) = m
   \<and> buffered_msg (assign_buffer (buffer_msg m') (buffer_msg m)) = m"
  by (simp add: copy_buffer_id move_buffer_id assign_buffer_id)

text \<open>
  The level of a logger in a configuration string "key=level,key=level,..." is given by the
  last entry with that key, after trimming; without one by the last entry without a key; else it is
  info.  Level names are read in any case, and every name the library prints is read back as its level.
\<close>

theorem extract_levels_get:
  "ll_get name (extract_levels input) =
     (case map_of (rev (key_values input)) name of
        Some v \<Rightarrow> read_level v
      | None \<Rightarrow> (case map_of (rev (key_values input)) [] of Some v \<Rightarrow> read_level v | None \<Rightarrow> Info))
   \<and> (level_name l = Some s \<longrightarrow> read_level s = l)"
proof
  define kvs where "kvs = extract_key_vals input"
  have d: "distinct (map fst kvs)" by (simp add: kvs_def extract_key_vals_def insert_tokens_distinct)
  have m: "map_of kvs = map_of (rev (key_values input))"
    by (simp add: kvs_def extract_key_vals_def insert_tokens_map key_values_def)
  from set_levels_get [OF d, of empty_log_levels] have s:
    "map_of (levels_map (extract_levels input)) [] = None"
    "default_level (extract_levels input) = (case map_of kvs [] of Some v \<Rightarrow> read_level v | None \<Rightarrow> Info)"
    "\<forall>name. name \<noteq> [] \<longrightarrow> map_of (levels_map (extract_levels input)) name
        = (case map_of kvs name of Some v \<Rightarrow> Some (read_level v) | None \<Rightarrow> None)"
    by (simp_all add: empty_log_levels_def extract_levels_def kvs_def cong: option.case_cong)
  show "ll_get name (extract_levels input) =
     (case map_of (rev (key_values input)) name of
        Some v \<Rightarrow> read_level v
      | None \<Rightarrow> (case map_of (rev (key_values input)) [] of Some v \<Rightarrow> read_level v | None \<Rightarrow> Info))"
    using s unfolding m by (cases "name = []") (simp_all add: ll_get_def split: option.split)
  show "level_name l = Some s \<longrightarrow> read_level s = l"
    by (cases l) (auto simp: level_name_def read_cell_def level_string_views_def read_level_def to_lower_def
      from_str_def level_of_num_def)
qed

theorem extract_levels_get_witness:
  "level_name Warn = Some ''warning'' \<and> read_level ''warning'' = Warn"
proof -
  have "level_name Warn = Some ''warning''" by (simp add: level_name_def read_cell_def level_string_views_def)
  with extract_levels_get [of "''db''" "''db=WARN''" Warn "''warning''"] show ?thesis by blast
qed

end
