(* ===== verification/Pattern_Flags.thy ===== *)
theory Pattern_Flags imports Log_Common begin

text \<open>
  The flag formatters of spdlog/pattern_formatter-inl.h (lines 29-991): each appends one field of a log
  line to a buffer.  A definition per class, in the order of the file.  The buffer is a string; the
  result is an option, \<open>None\<close> for what the code leaves undefined: indexing a name table out of its
  bounds, reading a null file name, more padding than the 64 spaces there are, resizing the buffer
  to a negative size.
\<close>

section \<open>Padding\<close>

datatype pad_side = Pad_left | Pad_right | Pad_center

record padding_info =
  width :: nat
  side :: pad_side
  trunc :: bool
  enabled :: bool

definition no_padding :: padding_info where
  "no_padding = \<lparr>width = 0, side = Pad_left, trunc = False, enabled = False\<rparr>"

definition make_padding :: "nat \<Rightarrow> pad_side \<Rightarrow> bool \<Rightarrow> padding_info" where
  "make_padding w s tr = \<lparr>width = w, side = s, trunc = tr, enabled = True\<rparr>"

text \<open>The template parameter of the formatters.\<close>

datatype padder = Scoped_padder | Null_padder

definition spaces :: string where "spaces = replicate 64 (CHR '' '')"

definition pad_it :: "int \<Rightarrow> string \<Rightarrow> string option" where
  "pad_it count dest = (if nat count \<le> 64 then Some (dest @ take (nat count) spaces) else None)"

text \<open>The constructor: the padding still to be written, and the buffer.\<close>

definition padder_begin :: "nat \<Rightarrow> padding_info \<Rightarrow> string \<Rightarrow> (int \<times> string) option" where
  "padder_begin wrapped_size p dest =
     (let remaining_pad = int (width p) - int wrapped_size in
      if remaining_pad \<le> 0 then Some (remaining_pad, dest)
      else case side p of
        Pad_left \<Rightarrow> map_option (\<lambda>d. (0, d)) (pad_it remaining_pad dest)
      | Pad_center \<Rightarrow>
          (let half_pad = remaining_pad div 2; reminder = remaining_pad mod 2 in
           map_option (\<lambda>d. (half_pad + reminder, d)) (pad_it half_pad dest))
      | Pad_right \<Rightarrow> Some (remaining_pad, dest))"

text \<open>The destructor.\<close>

definition padder_end :: "int \<Rightarrow> padding_info \<Rightarrow> string \<Rightarrow> string option" where
  "padder_end remaining_pad p dest =
     (if 0 \<le> remaining_pad then pad_it remaining_pad dest
      else if trunc p then
        (let new_size = int (length dest) + remaining_pad in
         if new_size < 0 then None else Some (take (nat new_size) dest))
      else Some dest)"

text \<open>A padder around the statements of a block.\<close>

definition padded :: "padder \<Rightarrow> nat \<Rightarrow> padding_info \<Rightarrow> (string \<Rightarrow> string option) \<Rightarrow> string \<Rightarrow> string option" where
  "padded pd wrapped_size p body dest =
     (case pd of
        Null_padder \<Rightarrow> body dest
      | Scoped_padder \<Rightarrow>
          Option.bind (padder_begin wrapped_size p dest) (\<lambda>(remaining_pad, d).
            Option.bind (body d) (padder_end remaining_pad p)))"

definition padder_digits :: "padder \<Rightarrow> nat \<Rightarrow> nat" where
  "padder_digits pd n = (case pd of Scoped_padder \<Rightarrow> count_digits n | Null_padder \<Rightarrow> 0)"

section \<open>Name and level\<close>

definition name_format :: "padder \<Rightarrow> padding_info \<Rightarrow> log_msg \<Rightarrow> string \<Rightarrow> string option" where
  "name_format pd p msg = padded pd (length (logger_name msg)) p (\<lambda>d. Some (d @ logger_name msg))"

definition level_format :: "padder \<Rightarrow> padding_info \<Rightarrow> log_msg \<Rightarrow> string \<Rightarrow> string option" where
  "level_format pd p msg dest =
     Option.bind (level_name (level msg)) (\<lambda>s. padded pd (length s) p (\<lambda>d. Some (d @ s)) dest)"

definition short_level_format :: "padder \<Rightarrow> padding_info \<Rightarrow> log_msg \<Rightarrow> string \<Rightarrow> string option" where
  "short_level_format pd p msg dest =
     Option.bind (to_short_c_str (level msg)) (\<lambda>s. padded pd (length s) p (\<lambda>d. Some (d @ s)) dest)"

section \<open>Date and time\<close>

record tm =
  tm_sec :: int
  tm_min :: int
  tm_hour :: int
  tm_mday :: int
  tm_mon :: int
  tm_year :: int
  tm_wday :: int
  tm_gmtoff :: int

definition zero_tm :: tm where
  "zero_tm = \<lparr>tm_sec = 0, tm_min = 0, tm_hour = 0, tm_mday = 0, tm_mon = 0, tm_year = 0, tm_wday = 0, tm_gmtoff = 0\<rparr>"

definition ampm :: "tm \<Rightarrow> string" where
  "ampm t = (if 12 \<le> tm_hour t then ''PM'' else ''AM'')"

definition to12h :: "tm \<Rightarrow> int" where
  "to12h t = (if 12 < tm_hour t then tm_hour t - 12 else tm_hour t)"

text \<open>The remainder of C++, with the sign of the dividend.\<close>

definition c_mod :: "int \<Rightarrow> int \<Rightarrow> int" where
  "c_mod a b = sgn a * (\<bar>a\<bar> mod b)"

definition c_div :: "int \<Rightarrow> int \<Rightarrow> int" where
  "c_div a b = sgn a * (\<bar>a\<bar> div b)"

definition days :: "string list" where
  "days = [''Sun'', ''Mon'', ''Tue'', ''Wed'', ''Thu'', ''Fri'', ''Sat'']"

definition full_days :: "string list" where
  "full_days = [''Sunday'', ''Monday'', ''Tuesday'', ''Wednesday'', ''Thursday'', ''Friday'', ''Saturday'']"

definition months :: "string list" where
  "months = [''Jan'', ''Feb'', ''Mar'', ''Apr'', ''May'', ''Jun'', ''Jul'', ''Aug'', ''Sept'', ''Oct'', ''Nov'', ''Dec'']"

definition full_months :: "string list" where
  "full_months = [''January'', ''February'', ''March'', ''April'', ''May'', ''June'', ''July'', ''August'',
     ''September'', ''October'', ''November'', ''December'']"

text \<open>Indexing with \<open>static_cast<size_t>\<close> of a possibly negative index.\<close>

definition table_at :: "string list \<Rightarrow> int \<Rightarrow> string option" where
  "table_at tab i = (if 0 \<le> i then read_cell tab (nat i) else None)"

definition append_int :: "int \<Rightarrow> string \<Rightarrow> string" where
  "append_int n dest = dest @ signed_dec n"

definition a_format :: "padder \<Rightarrow> padding_info \<Rightarrow> tm \<Rightarrow> string \<Rightarrow> string option" where
  "a_format pd p t dest =
     Option.bind (table_at days (tm_wday t)) (\<lambda>s. padded pd (length s) p (\<lambda>d. Some (d @ s)) dest)"

definition A_format :: "padder \<Rightarrow> padding_info \<Rightarrow> tm \<Rightarrow> string \<Rightarrow> string option" where
  "A_format pd p t dest =
     Option.bind (table_at full_days (tm_wday t)) (\<lambda>s. padded pd (length s) p (\<lambda>d. Some (d @ s)) dest)"

definition b_format :: "padder \<Rightarrow> padding_info \<Rightarrow> tm \<Rightarrow> string \<Rightarrow> string option" where
  "b_format pd p t dest =
     Option.bind (table_at months (tm_mon t)) (\<lambda>s. padded pd (length s) p (\<lambda>d. Some (d @ s)) dest)"

definition B_format :: "padder \<Rightarrow> padding_info \<Rightarrow> tm \<Rightarrow> string \<Rightarrow> string option" where
  "B_format pd p t dest =
     Option.bind (table_at full_months (tm_mon t)) (\<lambda>s. padded pd (length s) p (\<lambda>d. Some (d @ s)) dest)"

definition c_format :: "padder \<Rightarrow> padding_info \<Rightarrow> tm \<Rightarrow> string \<Rightarrow> string option" where
  "c_format pd p t = padded pd 24 p (\<lambda>d.
     Option.bind (table_at days (tm_wday t)) (\<lambda>day.
       Option.bind (table_at months (tm_mon t)) (\<lambda>month.
         let d = d @ day; d = d @ '' ''; d = d @ month; d = d @ '' '';
             d = append_int (tm_mday t) d; d = d @ '' '';
             d = pad2 (tm_hour t) d; d = d @ '':'';
             d = pad2 (tm_min t) d; d = d @ '':'';
             d = pad2 (tm_sec t) d; d = d @ '' '' in
         Some (append_int (tm_year t + 1900) d))))"

definition C_format :: "padder \<Rightarrow> padding_info \<Rightarrow> tm \<Rightarrow> string \<Rightarrow> string option" where
  "C_format pd p t = padded pd 2 p (\<lambda>d. Some (pad2 (c_mod (tm_year t) 100) d))"

definition D_format :: "padder \<Rightarrow> padding_info \<Rightarrow> tm \<Rightarrow> string \<Rightarrow> string option" where
  "D_format pd p t = padded pd 10 p (\<lambda>d.
     let d = pad2 (tm_mon t + 1) d; d = d @ ''/''; d = pad2 (tm_mday t) d; d = d @ ''/'' in
     Some (pad2 (c_mod (tm_year t) 100) d))"

definition Y_format :: "padder \<Rightarrow> padding_info \<Rightarrow> tm \<Rightarrow> string \<Rightarrow> string option" where
  "Y_format pd p t = padded pd 4 p (\<lambda>d. Some (append_int (tm_year t + 1900) d))"

definition m_format :: "padder \<Rightarrow> padding_info \<Rightarrow> tm \<Rightarrow> string \<Rightarrow> string option" where
  "m_format pd p t = padded pd 2 p (\<lambda>d. Some (pad2 (tm_mon t + 1) d))"

definition d_format :: "padder \<Rightarrow> padding_info \<Rightarrow> tm \<Rightarrow> string \<Rightarrow> string option" where
  "d_format pd p t = padded pd 2 p (\<lambda>d. Some (pad2 (tm_mday t) d))"

definition H_format :: "padder \<Rightarrow> padding_info \<Rightarrow> tm \<Rightarrow> string \<Rightarrow> string option" where
  "H_format pd p t = padded pd 2 p (\<lambda>d. Some (pad2 (tm_hour t) d))"

definition I_format :: "padder \<Rightarrow> padding_info \<Rightarrow> tm \<Rightarrow> string \<Rightarrow> string option" where
  "I_format pd p t = padded pd 2 p (\<lambda>d. Some (pad2 (to12h t) d))"

definition M_format :: "padder \<Rightarrow> padding_info \<Rightarrow> tm \<Rightarrow> string \<Rightarrow> string option" where
  "M_format pd p t = padded pd 2 p (\<lambda>d. Some (pad2 (tm_min t) d))"

definition S_format :: "padder \<Rightarrow> padding_info \<Rightarrow> tm \<Rightarrow> string \<Rightarrow> string option" where
  "S_format pd p t = padded pd 2 p (\<lambda>d. Some (pad2 (tm_sec t) d))"

text \<open>Fractions of a second; the casts to an unsigned type wrap around for times before the epoch.\<close>

definition e_format :: "padder \<Rightarrow> padding_info \<Rightarrow> log_msg \<Rightarrow> string \<Rightarrow> string option" where
  "e_format pd p msg =
     (let millis = time_fraction 1000000 (time msg) in
      padded pd 3 p (\<lambda>d. Some (pad3 (unat (word_of_int millis :: u32)) d)))"

definition f_format :: "padder \<Rightarrow> padding_info \<Rightarrow> log_msg \<Rightarrow> string \<Rightarrow> string option" where
  "f_format pd p msg =
     (let micros = time_fraction 1000 (time msg) in
      padded pd 6 p (\<lambda>d. Some (pad6 (unat (word_of_int micros :: u64)) d)))"

definition F_format :: "padder \<Rightarrow> padding_info \<Rightarrow> log_msg \<Rightarrow> string \<Rightarrow> string option" where
  "F_format pd p msg =
     (let ns = time_fraction 1 (time msg) in
      padded pd 9 p (\<lambda>d. Some (pad9 (unat (word_of_int ns :: u64)) d)))"

definition E_format :: "padder \<Rightarrow> padding_info \<Rightarrow> log_msg \<Rightarrow> string \<Rightarrow> string option" where
  "E_format pd p msg = padded pd 10 p (\<lambda>d. Some (append_int (duration_cast ns_per_sec (time msg)) d))"

definition p_format :: "padder \<Rightarrow> padding_info \<Rightarrow> tm \<Rightarrow> string \<Rightarrow> string option" where
  "p_format pd p t = padded pd 2 p (\<lambda>d. Some (d @ ampm t))"

definition r_format :: "padder \<Rightarrow> padding_info \<Rightarrow> tm \<Rightarrow> string \<Rightarrow> string option" where
  "r_format pd p t = padded pd 11 p (\<lambda>d.
     let d = pad2 (to12h t) d; d = d @ '':''; d = pad2 (tm_min t) d; d = d @ '':'';
         d = pad2 (tm_sec t) d; d = d @ '' '' in
     Some (d @ ampm t))"

definition R_format :: "padder \<Rightarrow> padding_info \<Rightarrow> tm \<Rightarrow> string \<Rightarrow> string option" where
  "R_format pd p t = padded pd 5 p (\<lambda>d.
     let d = pad2 (tm_hour t) d; d = d @ '':'' in Some (pad2 (tm_min t) d))"

definition T_format :: "padder \<Rightarrow> padding_info \<Rightarrow> tm \<Rightarrow> string \<Rightarrow> string option" where
  "T_format pd p t = padded pd 8 p (\<lambda>d.
     let d = pad2 (tm_hour t) d; d = d @ '':''; d = pad2 (tm_min t) d; d = d @ '':'' in
     Some (pad2 (tm_sec t) d))"

text \<open>
  The offset from UTC is cached: \<open>utc_minutes_offset\<close> (details/os-inl.h) is asked again when ten
  seconds have passed.  The state is the time of the last update and the offset.
\<close>

definition utc_minutes_offset :: "tm \<Rightarrow> int" where
  "utc_minutes_offset t = c_div (tm_gmtoff t) 60"

definition get_cached_offset :: "log_msg \<Rightarrow> tm \<Rightarrow> int \<times> int \<Rightarrow> int \<times> int" where
  "get_cached_offset msg t cache =
     (if 10 * ns_per_sec \<le> time msg - fst cache then (time msg, utc_minutes_offset t) else cache)"

definition z_format :: "padder \<Rightarrow> padding_info \<Rightarrow> log_msg \<Rightarrow> tm \<Rightarrow> int \<times> int \<Rightarrow> string \<Rightarrow> ((int \<times> int) \<times> string) option" where
  "z_format pd p msg t cache dest =
     (let cache' = get_cached_offset msg t cache; total_minutes = snd cache' in
      map_option (Pair cache') (padded pd 6 p (\<lambda>d.
        let is_negative = total_minutes < 0;
            minutes = (if is_negative then - total_minutes else total_minutes);
            d = d @ (if is_negative then ''-'' else ''+'');
            d = pad2 (c_div minutes 60) d; d = d @ '':'' in
        Some (pad2 (c_mod minutes 60) d)) dest))"

section \<open>Process, message and source\<close>

definition t_format :: "padder \<Rightarrow> padding_info \<Rightarrow> log_msg \<Rightarrow> string \<Rightarrow> string option" where
  "t_format pd p msg =
     padded pd (padder_digits pd (thread_id msg)) p (\<lambda>d. Some (d @ format_unsigned (thread_id msg)))"

definition pid_format :: "padder \<Rightarrow> padding_info \<Rightarrow> u32 \<Rightarrow> string \<Rightarrow> string option" where
  "pid_format pd p pid = padded pd (padder_digits pd (unat pid)) p (\<lambda>d. Some (d @ format_unsigned (unat pid)))"

definition v_format :: "padder \<Rightarrow> padding_info \<Rightarrow> log_msg \<Rightarrow> string \<Rightarrow> string option" where
  "v_format pd p msg = padded pd (length (payload msg)) p (\<lambda>d. Some (d @ payload msg))"

definition ch_format :: "char \<Rightarrow> string \<Rightarrow> string" where
  "ch_format ch dest = dest @ [ch]"

definition aggregate_format :: "string \<Rightarrow> string \<Rightarrow> string" where
  "aggregate_format str dest = dest @ str"

definition color_start_format :: "log_msg \<Rightarrow> string \<Rightarrow> log_msg" where
  "color_start_format msg dest = msg\<lparr>color_range_start := length dest\<rparr>"

definition color_stop_format :: "log_msg \<Rightarrow> string \<Rightarrow> log_msg" where
  "color_stop_format msg dest = msg\<lparr>color_range_end := length dest\<rparr>"

definition source_location_format :: "padder \<Rightarrow> padding_info \<Rightarrow> log_msg \<Rightarrow> string \<Rightarrow> string option" where
  "source_location_format pd p msg dest =
     (if source_empty (source msg) then Some dest
      else Option.bind (filename (source msg)) (\<lambda>file.
        let text_size = (if enabled p
              then length file + padder_digits pd (unat (word_of_int (line (source msg)) :: u32)) + 1 else 0) in
        padded pd text_size p (\<lambda>d. let d = d @ file; d = d @ '':'' in Some (append_int (line (source msg)) d)) dest))"

definition source_filename_format :: "padder \<Rightarrow> padding_info \<Rightarrow> log_msg \<Rightarrow> string \<Rightarrow> string option" where
  "source_filename_format pd p msg dest =
     (if source_empty (source msg) then Some dest
      else Option.bind (filename (source msg)) (\<lambda>file.
        padded pd (if enabled p then length file else 0) p (\<lambda>d. Some (d @ file)) dest))"

text \<open>\<open>strrchr(filename, folder_sep)\<close>, with the separator of the POSIX builds.\<close>

definition basename :: "string \<Rightarrow> string" where
  "basename file = rev (takeWhile (\<lambda>c. c \<noteq> CHR ''/'') (rev file))"

definition short_filename_format :: "padder \<Rightarrow> padding_info \<Rightarrow> log_msg \<Rightarrow> string \<Rightarrow> string option" where
  "short_filename_format pd p msg dest =
     (if source_empty (source msg) then Some dest
      else Option.bind (filename (source msg)) (\<lambda>file.
        let file = basename file in
        padded pd (if enabled p then length file else 0) p (\<lambda>d. Some (d @ file)) dest))"

definition source_linenum_format :: "padder \<Rightarrow> padding_info \<Rightarrow> log_msg \<Rightarrow> string \<Rightarrow> string option" where
  "source_linenum_format pd p msg dest =
     (if source_empty (source msg) then Some dest
      else padded pd (padder_digits pd (unat (word_of_int (line (source msg)) :: u32))) p
        (\<lambda>d. Some (append_int (line (source msg)) d)) dest)"

definition source_funcname_format :: "padder \<Rightarrow> padding_info \<Rightarrow> log_msg \<Rightarrow> string \<Rightarrow> string option" where
  "source_funcname_format pd p msg dest =
     (if source_empty (source msg) then Some dest
      else Option.bind (funcname (source msg)) (\<lambda>func.
        padded pd (if enabled p then length func else 0) p (\<lambda>d. Some (d @ func)) dest))"

text \<open>Time since the last message; the state is the time of that message.\<close>

definition elapsed_format ::
  "padder \<Rightarrow> int \<Rightarrow> padding_info \<Rightarrow> log_msg \<Rightarrow> int \<Rightarrow> string \<Rightarrow> (int \<times> string) option" where
  "elapsed_format pd units p msg last_message_time dest =
     (let delta = max (time msg - last_message_time) 0;
          delta_count = unat (word_of_int (duration_cast units delta) :: u64) in
      map_option (Pair (time msg))
        (padded pd (padder_digits pd delta_count) p (\<lambda>d. Some (d @ format_unsigned delta_count)) dest))"

section \<open>The full formatter\<close>

text \<open>\<open>[%Y-%m-%d %H:%M:%S.%e] [%n] [%l] %v\<close>; the state is the second and the text of the cached date.\<close>

definition format_datetime :: "tm \<Rightarrow> string" where
  "format_datetime t =
     (let d = ''[''; d = append_int (tm_year t + 1900) d; d = d @ ''-'';
          d = pad2 (tm_mon t + 1) d; d = d @ ''-'';
          d = pad2 (tm_mday t) d; d = d @ '' '';
          d = pad2 (tm_hour t) d; d = d @ '':'';
          d = pad2 (tm_min t) d; d = d @ '':'';
          d = pad2 (tm_sec t) d in
      d @ ''.'')"

definition full_format :: "log_msg \<Rightarrow> tm \<Rightarrow> int \<times> string \<Rightarrow> string \<Rightarrow> ((int \<times> string) \<times> log_msg \<times> string) option" where
  "full_format msg t cache dest =
     (let secs = duration_cast ns_per_sec (time msg);
          cache' = (if fst cache \<noteq> secs \<or> snd cache = [] then (secs, format_datetime t) else cache);
          d = dest @ snd cache';
          millis = time_fraction 1000000 (time msg);
          d = pad3 (unat (word_of_int millis :: u32)) d;
          d = d @ '']''; d = d @ '' '';
          d = (if 0 < length (logger_name msg)
               then let d = d @ ''[''; d = d @ logger_name msg; d = d @ '']'' in d @ '' '' else d);
          d = d @ ''['';
          msg1 = msg\<lparr>color_range_start := length d\<rparr> in
      Option.bind (level_name (level msg)) (\<lambda>lvl.
        let d = d @ lvl;
            msg2 = msg1\<lparr>color_range_end := length d\<rparr>;
            d = d @ '']''; d = d @ '' '' in
        Option.bind
          (if source_empty (source msg) then Some d
           else Option.bind (filename (source msg)) (\<lambda>file.
             let d = d @ ''[''; d = d @ basename file; d = d @ '':'';
                 d = append_int (line (source msg)) d; d = d @ '']'' in
             Some (d @ '' '')))
          (\<lambda>d. Some (cache', msg2, d @ payload msg))))"

section \<open>What padding does\<close>

definition pad_field :: "padding_info \<Rightarrow> string \<Rightarrow> string" where
  "pad_field p s =
     (if width p \<le> length s then (if trunc p then take (width p) s else s)
      else
        let k = width p - length s in
        case side p of
          Pad_left \<Rightarrow> replicate k (CHR '' '') @ s
        | Pad_right \<Rightarrow> s @ replicate k (CHR '' '')
        | Pad_center \<Rightarrow> replicate (k div 2) (CHR '' '') @ s @ replicate (k - k div 2) (CHR '' ''))"

lemma pad_it_nat: "k \<le> 64 \<Longrightarrow> pad_it (int k) dest = Some (dest @ replicate k (CHR '' ''))"
  by (simp add: pad_it_def spaces_def min_def)

lemma padder_end_pos: "k \<le> 64 \<Longrightarrow> padder_end (int k) p dest = Some (dest @ replicate k (CHR '' ''))"
  by (simp add: padder_end_def pad_it_nat)

lemma padder_end_0: "padder_end 0 p dest = Some dest"
  using padder_end_pos [of 0 p dest] by simp

text \<open>The general case: the block appends a text whose length the padder was told.\<close>

lemma padded_append:
  assumes "\<And>d. body d = Some (d @ s)" "width p \<le> 64"
  shows "padded Scoped_padder (length s) p body dest = Some (dest @ pad_field p s)"
proof (cases "width p \<le> length s")
  case True
  then have b: "padder_begin (length s) p dest = Some (int (width p) - int (length s), dest)"
    by (simp add: padder_begin_def Let_def)
  show ?thesis
  proof (cases "width p = length s")
    case True
    then show ?thesis using b by (simp add: padded_def assms(1) padder_end_0 pad_field_def)
  next
    case False
    then have neg: "\<not> 0 \<le> int (width p) - int (length s)" using True by simp
    have "nat (int (length (dest @ s)) + (int (width p) - int (length s))) = length dest + width p" by simp
    then show ?thesis using b neg True
      by (simp add: padded_def assms(1) padder_end_def pad_field_def Let_def)
  qed
next
  case False
  define k where "k = width p - length s"
  have k: "0 < k" "k \<le> 64" "int (width p) - int (length s) = int k" using False assms(2) by (simp_all add: k_def)
  have half: "int k div 2 = int (k div 2)" by (simp add: zdiv_int)
  have rest: "int (k div 2) + int k mod 2 = int (k - k div 2)" by (simp add: of_nat_diff zdiv_int)
  show ?thesis
  proof (cases "side p")
    case Pad_left
    then have "padder_begin (length s) p dest = Some (0, dest @ replicate k (CHR '' ''))"
      using k by (simp add: padder_begin_def pad_it_nat Let_def)
    with False Pad_left show ?thesis by (simp add: padded_def assms(1) padder_end_0 pad_field_def k_def Let_def)
  next
    case Pad_right
    then have "padder_begin (length s) p dest = Some (int k, dest)"
      using k by (simp add: padder_begin_def Let_def)
    with False Pad_right k(2) show ?thesis
      by (simp add: padded_def assms(1) padder_end_pos pad_field_def Let_def flip: k_def)
  next
    case Pad_center
    define r where "r = k - k div 2"
    have b: "padder_begin (length s) p dest = Some (int r, dest @ replicate (k div 2) (CHR '' ''))"
      using k Pad_center unfolding padder_begin_def k(3) Let_def half rest r_def by (simp add: pad_it_nat)
    have "padder_end (int r) p d = Some (d @ replicate r (CHR '' ''))" for d
      using k(2) by (intro padder_end_pos) (simp add: r_def)
    then have "padded Scoped_padder (length s) p body dest
        = Some (dest @ replicate (k div 2) (CHR '' '') @ s @ replicate r (CHR '' ''))"
      by (simp add: padded_def b assms(1))
    with False Pad_center show ?thesis by (simp add: pad_field_def Let_def r_def flip: k_def)
  qed
qed

lemma length_pad_field: "length (pad_field p s) = (if length s < width p \<or> trunc p then width p else length s)"
  by (auto simp: pad_field_def Let_def split: pad_side.split)

text \<open>A date field is two digits, so the date of \<open>%D\<close> has eight characters.\<close>

lemma pad2_digits: "0 \<le> n \<Longrightarrow> n < 100 \<Longrightarrow> pad2 n d = d @ [digit_char (nat n div 10), digit_char (nat n mod 10)]"
  by (simp add: pad2_def)

definition date_text :: "tm \<Rightarrow> string" where
  "date_text t = pad2 (tm_mon t + 1) [] @ ''/'' @ pad2 (tm_mday t) [] @ ''/'' @ pad2 (c_mod (tm_year t) 100) []"

definition calendar_date :: "tm \<Rightarrow> bool" where
  "calendar_date t \<longleftrightarrow> 0 \<le> tm_mon t \<and> tm_mon t < 12 \<and> 1 \<le> tm_mday t \<and> tm_mday t \<le> 31 \<and> 0 \<le> tm_year t"

lemma c_mod_pos: "0 \<le> a \<Longrightarrow> c_mod a b = a mod b"
  by (cases "a = 0") (simp_all add: c_mod_def)

lemma date_text_length:
  assumes "calendar_date t"
  shows "length (date_text t) = 8"
proof -
  have "0 \<le> c_mod (tm_year t) 100" "c_mod (tm_year t) 100 < 100" using assms by (simp_all add: c_mod_pos calendar_date_def)
  then show ?thesis using assms by (simp add: date_text_def calendar_date_def pad2_digits)
qed

lemma pad2_append: "pad2 n d = d @ pad2 n []"
  by (simp add: pad2_def)

section \<open>Properties\<close>

text \<open>
  A padded name, level or payload (%8n, %-8l, %=8!v, ...) is the text, filled up with spaces on
  the side asked for to the width, or cut to the width when truncation is on; so with truncation
  the field always has exactly the width, and nothing that was in the buffer before changes.
\<close>

theorem padded_field_width:
  assumes "width p \<le> 64" "level_name (level msg) = Some lvl"
  shows "name_format Scoped_padder p msg dest = Some (dest @ pad_field p (logger_name msg))
    \<and> level_format Scoped_padder p msg dest = Some (dest @ pad_field p lvl)
    \<and> v_format Scoped_padder p msg dest = Some (dest @ pad_field p (payload msg))
    \<and> length (pad_field p s) = (if length s < width p \<or> trunc p then width p else length s)"
  using padded_append [OF _ assms(1)] assms(2)
  by (simp add: name_format_def level_format_def v_format_def length_pad_field)

definition sample_msg :: log_msg where
  "sample_msg = make_log_msg 1500000000123456789 7 no_source ''main'' Warn ''hello''"

theorem padded_field_width_witness:
  "name_format Scoped_padder (make_padding 8 Pad_center False) sample_msg ''>'' = Some ''>  main  ''"
proof -
  have "level_name (level sample_msg) = Some ''warning''"
    by (simp add: sample_msg_def make_log_msg_def level_name_def read_cell_def level_string_views_def)
  moreover have "pad_field (make_padding 8 Pad_center False) ''main'' = ''  main  ''" by code_simp
  ultimately show ?thesis
    using padded_field_width [of "make_padding 8 Pad_center False" sample_msg "''warning''" "''>''" "''main''"]
    by (simp add: make_padding_def sample_msg_def make_log_msg_def)
qed

lemma D_format_padded:
  assumes "calendar_date t" "trunc p" "width p \<le> 64" "side p = Pad_left"
  shows "D_format Scoped_padder p t dest =
    (if 10 < width p then Some (dest @ replicate (width p - 10) (CHR '' '') @ date_text t)
     else if length dest + width p < 2 then None
     else Some (take (length dest + width p - 2) (dest @ date_text t)))"
proof -
  have body: "D_format Scoped_padder p t dest = padded Scoped_padder 10 p (\<lambda>d. Some (d @ date_text t)) dest"
    unfolding D_format_def date_text_def Let_def
    by (intro arg_cong [of _ _ "\<lambda>b. padded Scoped_padder 10 p b dest"] ext)
      (metis (no_types, lifting) append.assoc pad2_append)
  have len: "length (date_text t) = 8" by (rule date_text_length [OF assms(1)])
  show ?thesis
  proof (cases "10 < width p")
    case True
    define k where "k = width p - 10"
    have k: "0 < k" "k \<le> 64" "int (width p) - 10 = int k" using True assms(3) by (simp_all add: k_def)
    then have "padder_begin 10 p dest = Some (0, dest @ replicate k (CHR '' ''))"
      using assms(4) by (simp add: padder_begin_def pad_it_nat Let_def)
    with True show ?thesis by (simp add: body padded_def padder_end_0 k_def)
  next
    case False
    then have b: "padder_begin 10 p dest = Some (int (width p) - 10, dest)" by (simp add: padder_begin_def Let_def)
    show ?thesis
    proof (cases "width p = 10")
      case True
      with b len show ?thesis by (simp add: body padded_def padder_end_0)
    next
      case False
      with \<open>\<not> 10 < width p\<close> have w: "width p < 10" by simp
      have "nat (int (length (dest @ date_text t)) + (int (width p) - 10)) = length dest + width p - 2"
        using len by simp
      with b w len assms(2) show ?thesis
        by (simp add: body padded_def padder_end_def Let_def)
    qed
  qed
qed

definition sample_tm :: tm where
  "sample_tm = \<lparr>tm_sec = 0, tm_min = 40, tm_hour = 2, tm_mday = 14, tm_mon = 6, tm_year = 117, tm_wday = 5, tm_gmtoff = 0\<rparr>"

text \<open>
  The date flag %D counts on 10 characters but writes 8 (MM/DD/YY): padded to a width above 10 it
  is two characters short of the width, and truncated to a width w it leaves w-2 characters of the
  date; with w = 1 it deletes a character of the log line written before it.
\<close>

theorem date_flag_miscounts:
  assumes "calendar_date t" "trunc p" "width p \<le> 64" "side p = Pad_left"
  shows "D_format Scoped_padder p t dest =
    (if 10 < width p then Some (dest @ replicate (width p - 10) (CHR '' '') @ date_text t)
     else if length dest + width p < 2 then None
     else Some (take (length dest + width p - 2) (dest @ date_text t)))"
  by (rule D_format_padded [OF assms])

theorem date_flag_miscounts_witness:
  "D_format Scoped_padder (make_padding 1 Pad_left True) sample_tm ''ab'' = Some ''a''"
  using date_flag_miscounts [of sample_tm "make_padding 1 Pad_left True" "''ab''"]
  by (simp add: calendar_date_def sample_tm_def make_padding_def)

end
