(* ===== verification/Pattern_Formatter.thy ===== *)
theory Pattern_Formatter imports Pattern_Flags begin

text \<open>
  \<open>pattern_formatter\<close> (spdlog/pattern_formatter.h and pattern_formatter-inl.h, lines 995-1372): compiling a
  pattern into a list of flag formatters, and formatting messages with them.

  Flag formatters of the user (\<open>custom_flags\<close>) are values of a type \<open>'c\<close>; what they do, the time
  functions of the operating system, the process id and the clock at the construction of a formatter
  are the fields of an environment.
\<close>

section \<open>Flag formatters as data\<close>

datatype stateless_flag =
    Name_flag | Level_flag | Short_level_flag | Thread_flag | Payload_flag
  | Flag_a | Flag_A | Flag_b | Flag_B | Flag_c | Flag_C | Flag_Y | Flag_D | Flag_m | Flag_d
  | Flag_H | Flag_I | Flag_M | Flag_S | Flag_e | Flag_f | Flag_F | Flag_E | Flag_p | Flag_r | Flag_R | Flag_T
  | Pid_flag | Source_location_flag | Short_filename_flag | Source_filename_flag
  | Source_linenum_flag | Source_funcname_flag

datatype 'c flag_formatter =
    Stateless stateless_flag padder padding_info
  | Timezone padder padding_info "int \<times> int"
  | Elapsed padder int padding_info int
  | Full "int \<times> string"
  | Color_start
  | Color_stop
  | Ch char
  | Aggregate string
  | Custom 'c padding_info

record 'c fmt_env =
  localtime :: "int \<Rightarrow> tm"
  gmtime :: "int \<Rightarrow> tm"
  os_pid :: u32
  clock_now :: int
  custom_clone :: "'c \<Rightarrow> 'c"
  custom_format :: "'c \<Rightarrow> padding_info \<Rightarrow> log_msg \<Rightarrow> tm \<Rightarrow> string \<Rightarrow> ('c \<times> log_msg \<times> string) option"

fun stateless_format :: "'c fmt_env \<Rightarrow> stateless_flag \<Rightarrow> padder \<Rightarrow> padding_info \<Rightarrow> log_msg \<Rightarrow> tm \<Rightarrow> string \<Rightarrow> string option" where
  "stateless_format env Name_flag pd p msg t = name_format pd p msg"
| "stateless_format env Level_flag pd p msg t = level_format pd p msg"
| "stateless_format env Short_level_flag pd p msg t = short_level_format pd p msg"
| "stateless_format env Thread_flag pd p msg t = t_format pd p msg"
| "stateless_format env Payload_flag pd p msg t = v_format pd p msg"
| "stateless_format env Flag_a pd p msg t = a_format pd p t"
| "stateless_format env Flag_A pd p msg t = A_format pd p t"
| "stateless_format env Flag_b pd p msg t = b_format pd p t"
| "stateless_format env Flag_B pd p msg t = B_format pd p t"
| "stateless_format env Flag_c pd p msg t = c_format pd p t"
| "stateless_format env Flag_C pd p msg t = C_format pd p t"
| "stateless_format env Flag_Y pd p msg t = Y_format pd p t"
| "stateless_format env Flag_D pd p msg t = D_format pd p t"
| "stateless_format env Flag_m pd p msg t = m_format pd p t"
| "stateless_format env Flag_d pd p msg t = d_format pd p t"
| "stateless_format env Flag_H pd p msg t = H_format pd p t"
| "stateless_format env Flag_I pd p msg t = I_format pd p t"
| "stateless_format env Flag_M pd p msg t = M_format pd p t"
| "stateless_format env Flag_S pd p msg t = S_format pd p t"
| "stateless_format env Flag_e pd p msg t = e_format pd p msg"
| "stateless_format env Flag_f pd p msg t = f_format pd p msg"
| "stateless_format env Flag_F pd p msg t = F_format pd p msg"
| "stateless_format env Flag_E pd p msg t = E_format pd p msg"
| "stateless_format env Flag_p pd p msg t = p_format pd p t"
| "stateless_format env Flag_r pd p msg t = r_format pd p t"
| "stateless_format env Flag_R pd p msg t = R_format pd p t"
| "stateless_format env Flag_T pd p msg t = T_format pd p t"
| "stateless_format env Pid_flag pd p msg t = pid_format pd p (os_pid env)"
| "stateless_format env Source_location_flag pd p msg t = source_location_format pd p msg"
| "stateless_format env Short_filename_flag pd p msg t = short_filename_format pd p msg"
| "stateless_format env Source_filename_flag pd p msg t = source_filename_format pd p msg"
| "stateless_format env Source_linenum_flag pd p msg t = source_linenum_format pd p msg"
| "stateless_format env Source_funcname_flag pd p msg t = source_funcname_format pd p msg"

text \<open>\<open>f->format(msg, tm, dest)\<close>: the formatter's new state, the message with its color range, the buffer.\<close>

fun flag_format ::
  "'c fmt_env \<Rightarrow> 'c flag_formatter \<Rightarrow> log_msg \<Rightarrow> tm \<Rightarrow> string \<Rightarrow> ('c flag_formatter \<times> log_msg \<times> string) option" where
  "flag_format env (Stateless k pd p) msg t dest =
     map_option (\<lambda>d. (Stateless k pd p, msg, d)) (stateless_format env k pd p msg t dest)"
| "flag_format env (Timezone pd p c) msg t dest =
     map_option (\<lambda>(c', d). (Timezone pd p c', msg, d)) (z_format pd p msg t c dest)"
| "flag_format env (Elapsed pd u p prev) msg t dest =
     map_option (\<lambda>(prev', d). (Elapsed pd u p prev', msg, d)) (elapsed_format pd u p msg prev dest)"
| "flag_format env (Full c) msg t dest =
     map_option (\<lambda>(c', msg', d). (Full c', msg', d)) (full_format msg t c dest)"
| "flag_format env Color_start msg t dest = Some (Color_start, color_start_format msg dest, dest)"
| "flag_format env Color_stop msg t dest = Some (Color_stop, color_stop_format msg dest, dest)"
| "flag_format env (Ch c) msg t dest = Some (Ch c, msg, ch_format c dest)"
| "flag_format env (Aggregate s) msg t dest = Some (Aggregate s, msg, aggregate_format s dest)"
| "flag_format env (Custom c p) msg t dest =
     map_option (\<lambda>(c', msg', d). (Custom c' p, msg', d)) (custom_format env c p msg t dest)"

section \<open>Compiling patterns\<close>

type_synonym 'c custom_flags = "(char \<times> 'c) list"

text \<open>The built-in flags that are stateless classes.\<close>

definition builtin_flags :: "(char \<times> stateless_flag) list" where
  "builtin_flags =
     [(CHR ''n'', Name_flag), (CHR ''l'', Level_flag), (CHR ''L'', Short_level_flag), (CHR ''t'', Thread_flag),
      (CHR ''v'', Payload_flag), (CHR ''a'', Flag_a), (CHR ''A'', Flag_A), (CHR ''b'', Flag_b), (CHR ''h'', Flag_b),
      (CHR ''B'', Flag_B), (CHR ''c'', Flag_c), (CHR ''C'', Flag_C), (CHR ''Y'', Flag_Y), (CHR ''D'', Flag_D),
      (CHR ''x'', Flag_D), (CHR ''m'', Flag_m), (CHR ''d'', Flag_d), (CHR ''H'', Flag_H), (CHR ''I'', Flag_I),
      (CHR ''M'', Flag_M), (CHR ''S'', Flag_S), (CHR ''e'', Flag_e), (CHR ''f'', Flag_f), (CHR ''F'', Flag_F),
      (CHR ''E'', Flag_E), (CHR ''p'', Flag_p), (CHR ''r'', Flag_r), (CHR ''R'', Flag_R), (CHR ''T'', Flag_T),
      (CHR ''X'', Flag_T), (CHR ''P'', Pid_flag), (CHR ''@'', Source_location_flag), (CHR ''s'', Short_filename_flag),
      (CHR ''g'', Source_filename_flag), (CHR ''#'', Source_linenum_flag), (CHR ''!'', Source_funcname_flag)]"

definition handle_flag ::
  "'c fmt_env \<Rightarrow> 'c custom_flags \<Rightarrow> padder \<Rightarrow> char \<Rightarrow> padding_info \<Rightarrow> 'c flag_formatter list \<Rightarrow> 'c flag_formatter list" where
  "handle_flag env custom pd flag p fs =
     (case map_of custom flag of
        Some c \<Rightarrow> fs @ [Custom (custom_clone env c) p]
      | None \<Rightarrow>
          (case map_of builtin_flags flag of
             Some k \<Rightarrow> fs @ [Stateless k pd p]
           | None \<Rightarrow>
               if flag = CHR ''+'' then fs @ [Full (0, [])]
               else if flag = CHR ''z'' then fs @ [Timezone pd p (0, 0)]
               else if flag = CHR ''^'' then fs @ [Color_start]
               else if flag = CHR ''$'' then fs @ [Color_stop]
               else if flag = CHR ''%'' then fs @ [Ch (CHR ''%'')]
               else if flag = CHR ''u'' then fs @ [Elapsed pd 1 p (clock_now env)]
               else if flag = CHR ''i'' then fs @ [Elapsed pd 1000 p (clock_now env)]
               else if flag = CHR ''o'' then fs @ [Elapsed pd 1000000 p (clock_now env)]
               else if flag = CHR ''O'' then fs @ [Elapsed pd 1000000000 p (clock_now env)]
               else if \<not> trunc p then fs @ [Aggregate [CHR ''%'', flag]]
               else fs @ [Stateless Source_funcname_flag pd (p\<lparr>trunc := False\<rparr>), Aggregate [flag]]))"

text \<open>The digits of the width; \<open>size_t\<close> arithmetic wraps around.\<close>

fun read_width :: "nat \<Rightarrow> string \<Rightarrow> nat \<times> string" where
  "read_width w [] = (w, [])"
| "read_width w (c # cs) =
     (if is_digit c then read_width ((w * 10 + digit_value c) mod 2 ^ 64) cs else (w, c # cs))"

definition max_width :: nat where "max_width = 64"

definition read_side :: "string \<Rightarrow> pad_side \<times> string" where
  "read_side it =
     (case it of
        [] \<Rightarrow> (Pad_left, [])
      | c # cs \<Rightarrow>
          if c = CHR ''-'' then (Pad_right, cs)
          else if c = CHR ''='' then (Pad_center, cs)
          else (Pad_left, it))"

definition read_trunc :: "string \<Rightarrow> bool \<times> string" where
  "read_trunc it = (case it of [] \<Rightarrow> (False, []) | e # es \<Rightarrow> if e = CHR ''!'' then (True, es) else (False, it))"

text \<open>The iterator is the rest of the pattern; it is returned advanced past the padding spec.\<close>

definition handle_padspec :: "string \<Rightarrow> padding_info \<times> string" where
  "handle_padspec it =
     (if it = [] then (no_padding, it)
      else
        let (s, it1) = read_side it in
        case it1 of
          [] \<Rightarrow> (no_padding, it1)
        | d # ds \<Rightarrow>
            if \<not> is_digit d then (no_padding, it1)
            else
              let (w, it2) = read_width (digit_value d) ds;
                  (tr, it3) = read_trunc it2 in
              (make_padding (min w max_width) s tr, it3))"

lemma read_width_length: "length (snd (read_width w cs)) \<le> length cs"
  by (induction w cs rule: read_width.induct) auto

lemma handle_padspec_length: "length (snd (handle_padspec it)) \<le> length it"
proof -
  have s: "length (snd (read_side it)) \<le> length it" by (cases it) (simp_all add: read_side_def)
  have t: "length (snd (read_trunc cs)) \<le> length cs" for cs by (cases cs) (simp_all add: read_trunc_def)
  have u: "length (snd (read_trunc (snd (read_width w ds)))) \<le> length it" if "Suc (length ds) \<le> length it" for w ds
    using t [of "snd (read_width w ds)"] read_width_length [of w ds] that by linarith
  then show ?thesis using s
    by (cases "snd (read_side it)") (simp_all add: handle_padspec_def Let_def case_prod_beta)
qed

lemma handle_padspec_rest:
  "handle_padspec cs = (p, flag # rest) \<Longrightarrow> length rest < length cs"
  "(p, flag # rest) = handle_padspec cs \<Longrightarrow> length rest < length cs"
  using handle_padspec_length [of cs] by (auto dest: sym)

text \<open>The loop: the rest of the pattern, the user characters collected so far, the formatters.\<close>

definition push_chars :: "string option \<Rightarrow> 'c flag_formatter list \<Rightarrow> 'c flag_formatter list" where
  "push_chars user_chars fs = (case user_chars of None \<Rightarrow> fs | Some str \<Rightarrow> fs @ [Aggregate str])"

definition add_ch :: "char \<Rightarrow> string option \<Rightarrow> string option" where
  "add_ch ch user_chars = (case user_chars of None \<Rightarrow> Some [ch] | Some str \<Rightarrow> Some (str @ [ch]))"

function compile_loop ::
  "'c fmt_env \<Rightarrow> 'c custom_flags \<Rightarrow> string \<Rightarrow> string option \<Rightarrow> 'c flag_formatter list \<Rightarrow> 'c flag_formatter list" where
  "compile_loop env custom [] user_chars fs = push_chars user_chars fs"
| "compile_loop env custom (c # cs) user_chars fs =
     (if c = CHR ''%''
      then
        let fs1 = push_chars user_chars fs in
        case handle_padspec cs of
          (p, []) \<Rightarrow> fs1
        | (p, flag # rest) \<Rightarrow>
            compile_loop env custom rest None
              (handle_flag env custom (if enabled p then Scoped_padder else Null_padder) flag p fs1)
      else compile_loop env custom cs (add_ch c user_chars) fs)"
  by pat_completeness auto
termination
  by (relation "measure (\<lambda>(env, custom, it, uc, fs). length it)")
    (auto dest: handle_padspec_rest intro: less_SucI)

definition compile_pattern :: "'c fmt_env \<Rightarrow> 'c custom_flags \<Rightarrow> string \<Rightarrow> 'c flag_formatter list" where
  "compile_pattern env custom pattern = compile_loop env custom pattern None []"

section \<open>The formatter\<close>

datatype pattern_time_type = Local_time | Utc_time

record 'c pattern_formatter =
  pattern :: string
  eol :: string
  time_type :: pattern_time_type
  cached_tm :: tm
  last_log_secs :: int
  formatters :: "'c flag_formatter list"
  custom_handlers :: "'c custom_flags"

definition make_pattern_formatter ::
  "'c fmt_env \<Rightarrow> string \<Rightarrow> pattern_time_type \<Rightarrow> string \<Rightarrow> 'c custom_flags \<Rightarrow> 'c pattern_formatter" where
  "make_pattern_formatter env pat tt eol_str custom =
     \<lparr>pattern = pat, eol = eol_str, time_type = tt, cached_tm = zero_tm, last_log_secs = 0,
      formatters = compile_pattern env custom pat, custom_handlers = custom\<rparr>"

definition default_pattern_formatter :: "pattern_time_type \<Rightarrow> string \<Rightarrow> 'c pattern_formatter" where
  "default_pattern_formatter tt eol_str =
     \<lparr>pattern = ''%+'', eol = eol_str, time_type = tt, cached_tm = zero_tm, last_log_secs = 0,
      formatters = [Full (0, [])], custom_handlers = []\<rparr>"

definition clone_pattern_formatter :: "'c fmt_env \<Rightarrow> 'c pattern_formatter \<Rightarrow> 'c pattern_formatter" where
  "clone_pattern_formatter env pf =
     make_pattern_formatter env (pattern pf) (time_type pf) (eol pf)
       (map (\<lambda>(flag, c). (flag, custom_clone env c)) (custom_handlers pf))"

definition add_flag :: "char \<Rightarrow> 'c \<Rightarrow> 'c pattern_formatter \<Rightarrow> 'c pattern_formatter" where
  "add_flag flag c pf = pf\<lparr>custom_handlers := AList.update flag c (custom_handlers pf)\<rparr>"

definition set_pattern :: "'c fmt_env \<Rightarrow> string \<Rightarrow> 'c pattern_formatter \<Rightarrow> 'c pattern_formatter" where
  "set_pattern env pat pf =
     pf\<lparr>pattern := pat, formatters := compile_pattern env (custom_handlers pf) pat\<rparr>"

text \<open>\<open>to_time_t\<close> truncates to seconds.\<close>

definition get_time :: "'c fmt_env \<Rightarrow> pattern_time_type \<Rightarrow> int \<Rightarrow> tm" where
  "get_time env tt ns =
     (case tt of
        Local_time \<Rightarrow> localtime env (duration_cast ns_per_sec ns)
      | Utc_time \<Rightarrow> gmtime env (duration_cast ns_per_sec ns))"

fun run_formatters ::
  "'c fmt_env \<Rightarrow> tm \<Rightarrow> 'c flag_formatter list \<Rightarrow> log_msg \<Rightarrow> string
    \<Rightarrow> ('c flag_formatter list \<times> log_msg \<times> string) option" where
  "run_formatters env t [] msg dest = Some ([], msg, dest)"
| "run_formatters env t (f # fs) msg dest =
     Option.bind (flag_format env f msg t dest) (\<lambda>(f', msg', dest').
       map_option (\<lambda>(fs', r). (f' # fs', r)) (run_formatters env t fs msg' dest'))"

definition pf_format ::
  "'c fmt_env \<Rightarrow> 'c pattern_formatter \<Rightarrow> log_msg \<Rightarrow> string \<Rightarrow> ('c pattern_formatter \<times> log_msg \<times> string) option" where
  "pf_format env pf msg dest =
     (let secs = duration_cast ns_per_sec (time msg);
          pf1 = (if secs \<noteq> last_log_secs pf
                 then pf\<lparr>cached_tm := get_time env (time_type pf) (time msg), last_log_secs := secs\<rparr> else pf) in
      map_option (\<lambda>(fs, msg', d). (pf1\<lparr>formatters := fs\<rparr>, msg', d @ eol pf1))
        (run_formatters env (cached_tm pf1) (formatters pf1) msg dest))"

section \<open>Patterns as lists of items\<close>

datatype pattern_item =
    Literal string
  | Plain_flag char
  | Padded_flag pad_side nat bool char

fun side_string :: "pad_side \<Rightarrow> string" where
  "side_string Pad_left = []"
| "side_string Pad_right = ''-''"
| "side_string Pad_center = ''=''"

fun print_item :: "pattern_item \<Rightarrow> string" where
  "print_item (Literal s) = s"
| "print_item (Plain_flag c) = [CHR ''%'', c]"
| "print_item (Padded_flag s w tr c) = CHR ''%'' # side_string s @ dec w @ (if tr then ''!'' else []) @ [c]"

fun apply_item ::
  "'c fmt_env \<Rightarrow> 'c custom_flags \<Rightarrow> pattern_item \<Rightarrow> 'c flag_formatter list \<Rightarrow> 'c flag_formatter list" where
  "apply_item env custom (Literal s) fs = fs @ [Aggregate s]"
| "apply_item env custom (Plain_flag c) fs = handle_flag env custom Null_padder c no_padding fs"
| "apply_item env custom (Padded_flag s w tr c) fs =
     handle_flag env custom Scoped_padder c (make_padding (min w 64) s tr) fs"

fun item_ok :: "pattern_item \<Rightarrow> bool" where
  "item_ok (Literal s) \<longleftrightarrow> s \<noteq> [] \<and> CHR ''%'' \<notin> set s"
| "item_ok (Plain_flag c) \<longleftrightarrow> \<not> is_digit c \<and> c \<noteq> CHR ''-'' \<and> c \<noteq> CHR ''=''"
| "item_ok (Padded_flag s w tr c) \<longleftrightarrow> \<not> is_digit c \<and> (tr \<or> c \<noteq> CHR ''!'') \<and> w < 2 ^ 64"

fun is_literal :: "pattern_item \<Rightarrow> bool" where
  "is_literal (Literal s) = True"
| "is_literal _ = False"

fun items_ok :: "pattern_item list \<Rightarrow> bool" where
  "items_ok [] = True"
| "items_ok [i] = item_ok i"
| "items_ok (i # j # is) = (item_ok i \<and> \<not> (is_literal i \<and> is_literal j) \<and> items_ok (j # is))"

lemma numeral_value_mod: "numeral_value (v mod m) ds mod m = numeral_value v ds mod m"
proof (induction ds arbitrary: v)
  case (Cons d ds)
  have "(v mod m * 10 + digit_value d) mod m = (v * 10 + digit_value d) mod m" by (metis mod_add_left_eq mod_mult_left_eq)
  with Cons.IH [of "v mod m * 10 + digit_value d"] Cons.IH [of "v * 10 + digit_value d"] show ?case
    by (simp add: numeral_value_def)
qed (simp add: numeral_value_def)

lemma read_width_spec:
  "list_all is_digit ds \<Longrightarrow> rest = [] \<or> \<not> is_digit (hd rest) \<Longrightarrow> v < 2 ^ 64
    \<Longrightarrow> read_width v (ds @ rest) = (numeral_value v ds mod 2 ^ 64, rest)"
proof (induction ds arbitrary: v)
  case Nil
  then show ?case by (cases rest) (simp_all add: numeral_value_def)
next
  case (Cons d ds)
  have "read_width v ((d # ds) @ rest) = read_width ((v * 10 + digit_value d) mod 2 ^ 64) (ds @ rest)"
    using Cons.prems by (simp del: power_numeral)
  also have "\<dots> = (numeral_value ((v * 10 + digit_value d) mod 2 ^ 64) ds mod 2 ^ 64, rest)"
    using Cons.prems by (intro Cons.IH) simp_all
  finally show ?case by (simp only: numeral_value_mod) (simp add: numeral_value_def)
qed

lemma read_width_dec:
  assumes "w < 2 ^ 64" "rest = [] \<or> \<not> is_digit (hd rest)" "dec w = d # ds"
  shows "is_digit d \<and> read_width (digit_value d) (ds @ rest) = (w, rest)"
proof -
  have l: "is_digit d" "list_all is_digit ds" using dec_digits [of w] assms(3) by simp_all
  have "digit_value d < 2 ^ 64" using digit_value_le [OF l(1)] by simp
  from read_width_spec [OF l(2) assms(2) this]
  have "read_width (digit_value d) (ds @ rest) = (numeral_value (digit_value d) ds mod 2 ^ 64, rest)" .
  moreover have "numeral_value (digit_value d) ds = w"
    using numeral_value_dec [of w] assms(3) by (simp add: numeral_value_def)
  ultimately show ?thesis using l(1) assms(1) by simp
qed

lemma padspec_plain:
  "\<not> is_digit c \<Longrightarrow> c \<noteq> CHR ''-'' \<Longrightarrow> c \<noteq> CHR ''='' \<Longrightarrow> handle_padspec (c # rest) = (no_padding, c # rest)"
  by (simp add: handle_padspec_def read_side_def)

lemma padspec_padded:
  assumes "\<not> is_digit c" "tr \<or> c \<noteq> CHR ''!''" "w < 2 ^ 64"
  shows "handle_padspec (side_string s @ dec w @ (if tr then ''!'' else []) @ c # rest)
    = (make_padding (min w 64) s tr, c # rest)"
proof -
  define tail where "tail = (if tr then ''!'' else []) @ c # rest"
  have "\<not> is_digit (CHR ''!'')" by (simp add: is_digit_def)
  then have t: "tail = [] \<or> \<not> is_digit (hd tail)" using assms(1) by (simp add: tail_def)
  obtain d ds where dec: "dec w = d # ds" by (cases "dec w") simp_all
  from read_width_dec [OF assms(3) t dec] have r: "is_digit d" "read_width (digit_value d) (ds @ tail) = (w, tail)"
    by simp_all
  have nd: "d \<noteq> CHR ''-''" "d \<noteq> CHR ''=''" using r(1) by (auto simp: is_digit_def)
  have side: "read_side (side_string s @ dec w @ tail) = (s, dec w @ tail)"
    using nd by (cases s) (simp_all add: read_side_def dec)
  have tr: "read_trunc tail = (tr, c # rest)" using assms(2) by (cases tr) (simp_all add: read_trunc_def tail_def)
  have "handle_padspec (side_string s @ dec w @ tail) = (make_padding (min w max_width) s tr, c # rest)"
    unfolding handle_padspec_def side Let_def using r tr dec by (cases s) simp_all
  then show ?thesis by (simp only: tail_def append.assoc max_width_def)
qed

lemma compile_literal:
  "CHR ''%'' \<notin> set s \<Longrightarrow> compile_loop env custom (s @ rest) (Some u) fs = compile_loop env custom rest (Some (u @ s)) fs"
proof (induction s arbitrary: u)
  case (Cons c cs)
  then have "c \<noteq> CHR ''%''" by auto
  then show ?case using Cons.IH [of "u @ [c]"] Cons.prems by (simp add: add_ch_def)
qed simp

lemma compile_flag:
  assumes "item_ok i" "\<not> is_literal i"
  shows "compile_loop env custom (print_item i @ rest) uc fs
    = compile_loop env custom rest None (apply_item env custom i (push_chars uc fs))"
proof (cases i)
  case (Plain_flag c)
  with assms padspec_plain [of c rest] show ?thesis by (simp add: no_padding_def)
next
  case (Padded_flag s w tr c)
  with assms padspec_padded [of c tr w s rest] show ?thesis
    by (simp add: make_padding_def)
qed (use assms in simp)

lemma compile_items:
  "items_ok is \<Longrightarrow> (uc \<noteq> None \<longrightarrow> is = [] \<or> \<not> is_literal (hd is)) \<Longrightarrow>
    compile_loop env custom (concat (map print_item is)) uc fs = fold (apply_item env custom) is (push_chars uc fs)"
proof (induction "is" arbitrary: uc fs)
  case Nil
  then show ?case by simp
next
  case (Cons i "is")
  have ok: "item_ok i" "items_ok is" using Cons.prems(1) by (cases "is"; simp)+
  show ?case
  proof (cases "is_literal i")
    case False
    have "compile_loop env custom (concat (map print_item is)) None (apply_item env custom i (push_chars uc fs))
        = fold (apply_item env custom) is (push_chars None (apply_item env custom i (push_chars uc fs)))"
      using ok(2) by (intro Cons.IH) simp_all
    then show ?thesis using compile_flag [OF ok(1) False, of env custom "concat (map print_item is)" uc fs]
      by (simp add: push_chars_def)
  next
    case True
    then obtain s where i: "i = Literal s" by (cases i) auto
    with ok(1) obtain c cs where s: "s = c # cs" "c \<noteq> CHR ''%''" "CHR ''%'' \<notin> set cs" by (cases s) auto
    have uc: "uc = None" using Cons.prems(2) True by auto
    have "is = [] \<or> \<not> is_literal (hd is)" using Cons.prems(1) True by (cases "is") auto
    then have "compile_loop env custom (concat (map print_item is)) (Some s) fs
        = fold (apply_item env custom) is (push_chars (Some s) fs)"
      using ok(2) by (intro Cons.IH) simp_all
    then show ?thesis using s compile_literal [OF s(3), of env custom _ "[c]"]
      by (simp add: i uc add_ch_def push_chars_def)
  qed
qed

section \<open>Formatting a sequence of messages\<close>

fun format_all :: "'c fmt_env \<Rightarrow> 'c pattern_formatter \<Rightarrow> log_msg list \<Rightarrow> ('c pattern_formatter \<times> string list) option" where
  "format_all env pf [] = Some (pf, [])"
| "format_all env pf (m # ms) =
     Option.bind (pf_format env pf m []) (\<lambda>(pf', m', line).
       map_option (\<lambda>(pf'', ls). (pf'', line # ls)) (format_all env pf' ms))"

definition full_line :: "log_msg \<Rightarrow> tm \<Rightarrow> string" where
  "full_line msg t =
     format_datetime t @ pad3 (unat (word_of_int (time_fraction 1000000 (time msg)) :: u32)) [] @ ''] ''
     @ (if logger_name msg = [] then [] else ''['' @ logger_name msg @ ''] '')
     @ ''['' @ the (level_name (level msg)) @ ''] ''
     @ (if source_empty (source msg) then []
        else ''['' @ basename (the (filename (source msg))) @ '':'' @ signed_dec (line (source msg)) @ ''] '')
     @ payload msg"

text \<open>The part of the line before the level's name, and the message with the range of that name.\<close>

definition line_head :: "log_msg \<Rightarrow> tm \<Rightarrow> string" where
  "line_head msg t =
     format_datetime t @ pad3 (unat (word_of_int (time_fraction 1000000 (time msg)) :: u32)) [] @ ''] ''
     @ (if logger_name msg = [] then [] else ''['' @ logger_name msg @ ''] '') @ ''[''"

definition with_level_range :: "log_msg \<Rightarrow> tm \<Rightarrow> nat \<Rightarrow> log_msg" where
  "with_level_range msg t pos = msg\<lparr>color_range_start := pos + length (line_head msg t),
     color_range_end := pos + length (line_head msg t) + length (the (level_name (level msg)))\<rparr>"

definition formattable :: "log_msg \<Rightarrow> bool" where
  "formattable msg \<longleftrightarrow> level msg \<noteq> N_levels \<and> (source_empty (source msg) \<or> filename (source msg) \<noteq> None)"

lemma formattable_level: "formattable msg \<Longrightarrow> level_name (level msg) \<noteq> None"
  by (cases "level msg") (simp_all add: formattable_def level_name_def read_cell_def level_string_views_def)

lemma pad3_append: "pad3 n d = d @ pad3 n []"
  by (simp add: pad3_def Let_def)

lemma format_datetime_not_Nil: "format_datetime t \<noteq> []"
  by (simp add: format_datetime_def Let_def)

lemma full_format_line:
  assumes "formattable msg" "snd c = [] \<or> fst c \<noteq> secs \<or> snd c = format_datetime t"
    "secs = duration_cast ns_per_sec (time msg)"
  shows "full_format msg t c dest
    = Some ((secs, format_datetime t), with_level_range msg t (length dest), dest @ full_line msg t)"
proof -
  define c' where "c' = (if fst c \<noteq> secs \<or> snd c = [] then (secs, format_datetime t) else c)"
  have c': "c' = (secs, format_datetime t)" using assms(2) by (cases c) (auto simp: c'_def)
  obtain lvl where lvl: "level_name (level msg) = Some lvl" using formattable_level [OF assms(1)] by blast
  have "source_empty (source msg) \<or> (\<exists>file. filename (source msg) = Some file)" using assms(1) by (auto simp: formattable_def)
  then show ?thesis
    using pad3_append [of "unat (word_of_int (time_fraction 1000000 (time msg)) :: u32)" "dest @ format_datetime t"]
    unfolding full_format_def Let_def assms(3) [symmetric] c'_def [symmetric] lvl
    by (auto simp: c' full_line_def line_head_def with_level_range_def lvl append_int_def)
qed

text \<open>The state of the default formatter between messages: both caches agree with the time functions.\<close>

definition caches_ok :: "'c fmt_env \<Rightarrow> pattern_time_type \<Rightarrow> string \<Rightarrow> 'c pattern_formatter \<Rightarrow> bool" where
  "caches_ok env tt eol_str pf \<longleftrightarrow> eol pf = eol_str \<and> time_type pf = tt
     \<and> (\<exists>c. formatters pf = [Full c] \<and>
          ((last_log_secs pf = 0 \<and> c = (0, []))
           \<or> (cached_tm pf = get_time env tt (last_log_secs pf * ns_per_sec)
              \<and> c = (last_log_secs pf, format_datetime (cached_tm pf)))))"

lemma get_time_secs: "get_time env tt (duration_cast ns_per_sec ns * ns_per_sec) = get_time env tt ns"
proof -
  have "duration_cast ns_per_sec (duration_cast ns_per_sec ns * ns_per_sec) = duration_cast ns_per_sec ns"
    by (cases "ns = 0") (auto simp: duration_cast_def ns_per_sec_def sgn_mult abs_mult sgn_if)
  then show ?thesis by (cases tt) (simp_all add: get_time_def)
qed

lemma pf_format_caches:
  assumes ok: "caches_ok env tt eol_str pf" and m: "formattable m" and secs: "duration_cast ns_per_sec (time m) \<noteq> 0"
  shows "\<exists>pf'. pf_format env pf m dest
      = Some (pf', with_level_range m (get_time env tt (time m)) (length dest),
          dest @ full_line m (get_time env tt (time m)) @ eol_str) \<and> caches_ok env tt eol_str pf'"
proof -
  define s where "s = duration_cast ns_per_sec (time m)"
  define t where "t = get_time env tt (time m)"
  define pf1 where "pf1 = (if s \<noteq> last_log_secs pf
    then pf\<lparr>cached_tm := get_time env (time_type pf) (time m), last_log_secs := s\<rparr> else pf)"
  obtain c where c: "formatters pf = [Full c]" "(last_log_secs pf = 0 \<and> c = (0, []))
      \<or> (cached_tm pf = get_time env tt (last_log_secs pf * ns_per_sec)
         \<and> c = (last_log_secs pf, format_datetime (cached_tm pf)))"
    and e: "eol pf = eol_str" "time_type pf = tt" using ok by (auto simp: caches_ok_def)
  have t_eq: "get_time env tt (s * ns_per_sec) = t" by (simp add: s_def t_def get_time_secs)
  have tm1: "cached_tm pf1 = t" and f1: "formatters pf1 = [Full c]" and l1: "last_log_secs pf1 = s" and e1: "eol pf1 = eol_str"
    "time_type pf1 = tt"
    using c e secs t_eq by (auto simp: pf1_def t_def s_def)
  have "snd c = [] \<or> fst c \<noteq> s \<or> snd c = format_datetime t"
    using c(2) t_eq by auto
  from full_format_line [OF m this s_def, of dest] have
    f: "full_format m t c dest = Some ((s, format_datetime t), with_level_range m t (length dest), dest @ full_line m t)" .
  have r: "run_formatters env (cached_tm pf1) (formatters pf1) m dest
      = Some ([Full (s, format_datetime t)], with_level_range m t (length dest), dest @ full_line m t)"
    by (simp add: f1 tm1 f)
  have "pf_format env pf m dest = Some (pf1\<lparr>formatters := [Full (s, format_datetime t)]\<rparr>, with_level_range m t (length dest), dest @ full_line m t @ eol_str)"
    unfolding pf_format_def Let_def s_def [symmetric] pf1_def [symmetric] r by (simp add: e1)
  moreover have "caches_ok env tt eol_str (pf1\<lparr>formatters := [Full (s, format_datetime t)]\<rparr>)"
    by (simp add: caches_ok_def e1 l1 tm1 t_eq)
  ultimately show ?thesis unfolding t_def by blast
qed

section \<open>Properties\<close>

text \<open>
  C16 [roundtrip] Compiling a pattern inverts printing it: a pattern written as literal texts, plain flags (%v)
  and flags with a side, a width and a truncation mark (%-8!l) compiles into exactly the formatters
  of these items in order, widths above 64 reduced to 64.
\<close>

theorem compile_pattern_roundtrip:
  assumes "items_ok is"
  shows "compile_pattern env custom (concat (map print_item is)) = fold (apply_item env custom) is []"
  using compile_items [OF assms, of None env custom "[]"] by (simp add: compile_pattern_def push_chars_def)

definition sample_env :: "unit fmt_env" where
  "sample_env = \<lparr>localtime = (\<lambda>s. sample_tm), gmtime = (\<lambda>s. sample_tm), os_pid = 1, clock_now = 0,
     custom_clone = (\<lambda>c. c), custom_format = (\<lambda>c p m t d. Some (c, m, d))\<rparr>"

theorem compile_pattern_roundtrip_witness:
  "compile_pattern sample_env [] ''[%-8!l] %v''
    = [Aggregate ''['', Stateless Level_flag Scoped_padder (make_padding 8 Pad_right True), Aggregate ''] '',
       Stateless Payload_flag Null_padder no_padding]"
proof -
  have d: "dec 8 = ''8''" by (simp add: dec_small digit_char_def) code_simp
  have ok: "items_ok [Literal ''['', Padded_flag Pad_right 8 True (CHR ''l''), Literal ''] '', Plain_flag (CHR ''v'')]"
    by (simp add: is_digit_def)
  from compile_pattern_roundtrip [OF ok, of sample_env "[]"] show ?thesis
    by (simp add: d handle_flag_def builtin_flags_def)
qed

text \<open>
  C17 [functional] The default formatter, which caches the broken-down time and the text of the date, produces for
  every message of any sequence the line "[Y-m-d H:M:S.mmm] [name] [level] [file:line] text" of that
  message's own time, whatever was formatted before: the caches are never stale (for messages of any
  second but 0 since the epoch).
\<close>

theorem default_format_lines:
  assumes "\<forall>m \<in> set ms. formattable m \<and> duration_cast ns_per_sec (time m) \<noteq> 0"
  shows "\<exists>pf. format_all env (default_pattern_formatter tt eol_str) ms
    = Some (pf, map (\<lambda>m. full_line m (get_time env tt (time m)) @ eol_str) ms)"
proof -
  have "\<exists>pf'. format_all env pf ms = Some (pf', map (\<lambda>m. full_line m (get_time env tt (time m)) @ eol_str) ms)"
    if "caches_ok env tt eol_str pf" for pf using assms that
  proof (induction ms arbitrary: pf)
    case (Cons m ms)
    from pf_format_caches [OF Cons.prems(2), of m "[]"] Cons.prems(1) obtain pf1 m1 where
      p: "pf_format env pf m [] = Some (pf1, m1, full_line m (get_time env tt (time m)) @ eol_str)"
        "caches_ok env tt eol_str pf1" by auto
    from Cons.IH [OF _ p(2)] Cons.prems(1) p(1) show ?case by auto
  qed simp
  moreover have "caches_ok env tt eol_str (default_pattern_formatter tt eol_str)"
    by (simp add: caches_ok_def default_pattern_formatter_def)
  ultimately show ?thesis by blast
qed

theorem default_format_lines_witness:
  "\<exists>pf. format_all sample_env (default_pattern_formatter Utc_time [CHR 0x0A]) [sample_msg, sample_msg]
    = Some (pf, [full_line sample_msg sample_tm @ [CHR 0x0A], full_line sample_msg sample_tm @ [CHR 0x0A]])"
proof -
  have "formattable sample_msg \<and> duration_cast ns_per_sec (time sample_msg) \<noteq> 0"
    by (simp add: formattable_def sample_msg_def make_log_msg_def source_empty_def no_source_def
      duration_cast_def ns_per_sec_def)
  with default_format_lines [of "[sample_msg, sample_msg]" sample_env Utc_time "[CHR 0x0A]"]
  show ?thesis by (simp add: get_time_def sample_env_def)
qed

text \<open>
  A message of the first second of the epoch, formatted first, gets the date 1900-01-00 00:00:00:
  the time cache starts out as if it already held second 0, with a zeroed structure.
\<close>

theorem epoch_second_not_converted:
  assumes "formattable m" "0 \<le> time m" "time m < ns_per_sec"
  shows "\<exists>pf m'. pf_format env (default_pattern_formatter tt eol_str) m []
      = Some (pf, m', full_line m zero_tm @ eol_str) \<and> take 20 (full_line m zero_tm) = ''[1900-01-00 00:00:00''"
proof -
  have z: "duration_cast ns_per_sec (time m) = 0"
    using assms(2,3) by (simp add: duration_cast_pos div_pos_pos_trivial)
  from full_format_line [OF assms(1), of "(0, [])" 0 zero_tm "[]"] z have
    f: "full_format m zero_tm (0, []) []
      = Some ((0, format_datetime zero_tm), with_level_range m zero_tm 0, full_line m zero_tm)" by simp
  have "format_datetime zero_tm = ''[1900-01-00 00:00:00.''" by code_simp
  then have "take 20 (full_line m zero_tm) = ''[1900-01-00 00:00:00''" by (simp add: full_line_def)
  with f show ?thesis
    by (simp add: pf_format_def z default_pattern_formatter_def Let_def)
qed

theorem epoch_second_not_converted_witness:
  "\<exists>pf m'. pf_format sample_env (default_pattern_formatter Local_time []) (make_log_msg 5 1 no_source [] Info ''x'') []
     = Some (pf, m', ''[1900-01-00 00:00:00.000] [info] x'')"
proof -
  have "formattable (make_log_msg 5 1 no_source [] Info ''x'')"
    by (simp add: formattable_def make_log_msg_def source_empty_def no_source_def)
  moreover have "full_line (make_log_msg 5 1 no_source [] Info ''x'') zero_tm = ''[1900-01-00 00:00:00.000] [info] x''"
    by code_simp
  ultimately show ?thesis
    using epoch_second_not_converted [of "make_log_msg 5 1 no_source [] Info ''x''" sample_env Local_time "[]"]
    by (simp add: make_log_msg_def ns_per_sec_def)
qed

end
