(* ===== verification/File_Sinks.thy ===== *)
theory File_Sinks imports File_Helper Pattern_Formatter Circular_Q begin

text \<open>
  The sinks that write to files: \<open>basic_file_sink\<close>, \<open>rotating_file_sink\<close> and \<open>daily_file_sink\<close>
  (spdlog/sinks/*_file_sink.h and *-inl.h), with the part of \<open>base_sink\<close> they use.  The mutex of a sink is
  held over each operation, so an operation is one step of the sink, the files and the message (whose
  color range is mutable).  \<open>None\<close> is undefined behaviour, \<open>Inl\<close> an exception.
\<close>

record 'c base_sink =
  sink_level :: level_enum
  sink_formatter :: "'c pattern_formatter"

type_synonym ('s) sunk = "((spdlog_ex + unit) \<times> log_msg \<times> 's \<times> os_state) option"

definition default_formatter :: "'c pattern_formatter" where
  "default_formatter = default_pattern_formatter Local_time [CHR 0x0A]"

section \<open>basic_file_sink\<close>

record 'c basic_file_sink = "'c base_sink" +
  basic_file :: file_helper

definition basic_construct ::
  "os_env \<Rightarrow> string \<Rightarrow> bool \<Rightarrow> os_state \<Rightarrow> (spdlog_ex + 'c basic_file_sink) \<times> os_state" where
  "basic_construct env fname tr os =
     (case fh_open env fname tr new_file_helper os of
        (Inl e, fh, os1) \<Rightarrow> (Inl e, os1)
      | (Inr _, fh, os1) \<Rightarrow>
          (Inr \<lparr>sink_level = Trace, sink_formatter = default_formatter, basic_file = fh\<rparr>, os1))"

definition basic_sink_it :: "os_env \<Rightarrow> 'c fmt_env \<Rightarrow> log_msg \<Rightarrow> 'c basic_file_sink \<Rightarrow> os_state \<Rightarrow> 'c basic_file_sink sunk" where
  "basic_sink_it env fenv msg sink os =
     Option.bind (pf_format fenv (sink_formatter sink) msg []) (\<lambda>(pf, msg1, formatted).
       map_option (\<lambda>(r, os1). (r, msg1, sink\<lparr>sink_formatter := pf\<rparr>, os1))
         (fh_write env formatted (basic_file sink) os))"

section \<open>rotating_file_sink\<close>

record 'c rotating_file_sink = "'c base_sink" +
  base_filename :: string
  max_size :: u64
  max_files :: nat
  current_size :: u64
  rot_file :: file_helper

definition rot_filename :: "string \<Rightarrow> nat \<Rightarrow> string" where
  "rot_filename fname index =
     (if index = 0 then fname
      else let (bn, ext) = split_by_extension fname in bn @ ''.'' @ format_unsigned index @ ext)"

definition rename_file :: "os_env \<Rightarrow> string \<Rightarrow> string \<Rightarrow> os_state \<Rightarrow> bool \<times> os_state" where
  "rename_file env src_filename target_filename os =
     os_rename env src_filename target_filename (snd (os_remove env target_filename os))"

text \<open>The loop of \<open>rotate_\<close>, for \<open>i\<close> from its argument down to 1.\<close>

fun rotate_loop ::
  "os_env \<Rightarrow> nat \<Rightarrow> 'c rotating_file_sink \<Rightarrow> os_state \<Rightarrow> (spdlog_ex + unit) \<times> 'c rotating_file_sink \<times> os_state" where
  "rotate_loop env 0 sink os = (Inr (), sink, os)"
| "rotate_loop env (Suc k) sink os =
     (let src = rot_filename (base_filename sink) k in
      if \<not> path_exists os src then rotate_loop env k sink os
      else
        let target = rot_filename (base_filename sink) (Suc k) in
        case rename_file env src target os of
          (True, os1) \<Rightarrow> rotate_loop env k sink os1
        | (False, os1) \<Rightarrow>
            (case rename_file env src target (tick os1) of
               (True, os2) \<Rightarrow> rotate_loop env k sink os2
             | (False, os2) \<Rightarrow>
                 (case fh_reopen env True (rot_file sink) os2 of
                    (Inl e, fh, os3) \<Rightarrow> (Inl e, sink\<lparr>rot_file := fh\<rparr>, os3)
                  | (Inr _, fh, os3) \<Rightarrow>
                      (Inl (Rename_failed src target), sink\<lparr>rot_file := fh, current_size := 0\<rparr>, os3))))"

definition rotate ::
  "os_env \<Rightarrow> 'c rotating_file_sink \<Rightarrow> os_state \<Rightarrow> (spdlog_ex + unit) \<times> 'c rotating_file_sink \<times> os_state" where
  "rotate env sink os =
     (case rotate_loop env (max_files sink) (sink\<lparr>rot_file := fh_close (rot_file sink)\<rparr>) os of
        (Inl e, sink1, os1) \<Rightarrow> (Inl e, sink1, os1)
      | (Inr _, sink1, os1) \<Rightarrow>
          (case fh_reopen env True (rot_file sink1) os1 of
             (r, fh, os2) \<Rightarrow> (r, sink1\<lparr>rot_file := fh\<rparr>, os2)))"

definition rot_write :: "os_env \<Rightarrow> string \<Rightarrow> log_msg \<Rightarrow> 'c rotating_file_sink \<Rightarrow> os_state \<Rightarrow> 'c rotating_file_sink sunk" where
  "rot_write env formatted msg sink os =
     map_option (\<lambda>(r, os1). (r, msg, sink, os1)) (fh_write env formatted (rot_file sink) os)"

definition rot_sink_it ::
  "os_env \<Rightarrow> 'c fmt_env \<Rightarrow> log_msg \<Rightarrow> 'c rotating_file_sink \<Rightarrow> os_state \<Rightarrow> 'c rotating_file_sink sunk" where
  "rot_sink_it env fenv msg sink os =
     Option.bind (pf_format fenv (sink_formatter sink) msg []) (\<lambda>(pf, msg1, formatted).
       let len = word_of_nat (length formatted);
           sink1 = sink\<lparr>sink_formatter := pf, current_size := current_size sink + len\<rparr> in
       if current_size sink1 > max_size sink1
       then
         case rotate env sink1 os of
           (Inl e, sink2, os1) \<Rightarrow> Some (Inl e, msg1, sink2, os1)
         | (Inr _, sink2, os1) \<Rightarrow> rot_write env formatted msg1 (sink2\<lparr>current_size := len\<rparr>) os1
       else rot_write env formatted msg1 sink1 os)"

definition rot_construct ::
  "os_env \<Rightarrow> string \<Rightarrow> u64 \<Rightarrow> nat \<Rightarrow> bool \<Rightarrow> os_state \<Rightarrow> (spdlog_ex + 'c rotating_file_sink) \<times> os_state" where
  "rot_construct env fname size_limit n_files rotate_on_open os =
     (case fh_open env (rot_filename fname 0) False new_file_helper os of
        (Inl e, fh, os1) \<Rightarrow> (Inl e, os1)
      | (Inr _, fh, os1) \<Rightarrow>
          (case fh_size fh os1 of
             Inl e \<Rightarrow> (Inl e, os1)
           | Inr n \<Rightarrow>
               let sink = \<lparr>sink_level = Trace, sink_formatter = default_formatter, base_filename = fname,
                     max_size = size_limit, max_files = n_files, current_size = word_of_nat n, rot_file = fh\<rparr> in
               if rotate_on_open \<and> current_size sink > 0
               then (case rotate env sink os1 of (Inl e, sink1, os2) \<Rightarrow> (Inl e, os2) | (Inr _, sink1, os2) \<Rightarrow> (Inr sink1, os2))
               else (Inr sink, os1)))"

section \<open>daily_file_sink\<close>

record 'c daily_file_sink = "'c base_sink" +
  daily_base :: string
  rotation_h :: int
  rotation_m :: int
  rotation_tp :: int
  daily_file :: file_helper
  daily_truncate :: bool
  daily_max_files :: "16 word"
  filenames_q :: "string circular_q"

text \<open>\<open>{:0wd}\<close>: zeros after the sign, to a width of w.\<close>

definition zero_pad :: "nat \<Rightarrow> int \<Rightarrow> string" where
  "zero_pad w n =
     (let sign = (if n < 0 then [CHR ''-''] else []); digits = dec (nat \<bar>n\<bar>) in
      sign @ replicate (w - (length sign + length digits)) (CHR ''0'') @ digits)"

definition daily_filename :: "string \<Rightarrow> tm \<Rightarrow> string" where
  "daily_filename fname t =
     (let (bn, ext) = split_by_extension fname in
      bn @ ''_'' @ zero_pad 4 (tm_year t + 1900) @ ''-'' @ zero_pad 2 (tm_mon t + 1) @ ''-'' @ zero_pad 2 (tm_mday t) @ ext)"

definition now_tm :: "'c fmt_env \<Rightarrow> int \<Rightarrow> tm" where
  "now_tm fenv tp = localtime fenv (duration_cast ns_per_sec tp)"

text \<open>\<open>mk\<close> is \<open>mktime\<close>; times are in nanoseconds.\<close>

definition next_rotation_tp :: "'c fmt_env \<Rightarrow> (tm \<Rightarrow> int) \<Rightarrow> int \<Rightarrow> int \<Rightarrow> int \<Rightarrow> int" where
  "next_rotation_tp fenv mk h m now =
     (let date = (now_tm fenv now)\<lparr>tm_hour := h, tm_min := m, tm_sec := 0\<rparr>;
          rotation_time = mk date * ns_per_sec in
      if rotation_time > now then rotation_time else rotation_time + 24 * 3600 * ns_per_sec)"

text \<open>The names of the existing files of the last days, at most \<open>n\<close>; newest first.\<close>

fun daily_names :: "'c fmt_env \<Rightarrow> os_state \<Rightarrow> string \<Rightarrow> nat \<Rightarrow> int \<Rightarrow> string list" where
  "daily_names fenv os base 0 now = []"
| "daily_names fenv os base (Suc n) now =
     (let fname = daily_filename base (now_tm fenv now) in
      if \<not> path_exists os fname then []
      else fname # daily_names fenv os base n (now - 24 * 3600 * ns_per_sec))"

fun push_names :: "string list \<Rightarrow> string circular_q \<Rightarrow> string circular_q option" where
  "push_names [] q = Some q"
| "push_names (f # fs) q = Option.bind (circ_push_back f q) (push_names fs)"

definition init_filenames_q :: "os_env \<Rightarrow> 'c fmt_env \<Rightarrow> 'c daily_file_sink \<Rightarrow> os_state \<Rightarrow> 'c daily_file_sink option" where
  "init_filenames_q env fenv sink os =
     map_option (\<lambda>q. sink\<lparr>filenames_q := q\<rparr>)
       (push_names (rev (daily_names fenv os (daily_base sink) (unat (daily_max_files sink)) (os_now env os)))
         (circ_construct [] (ucast (daily_max_files sink))))"

definition daily_construct ::
  "os_env \<Rightarrow> 'c fmt_env \<Rightarrow> (tm \<Rightarrow> int) \<Rightarrow> string \<Rightarrow> int \<Rightarrow> int \<Rightarrow> bool \<Rightarrow> 16 word \<Rightarrow> os_state
    \<Rightarrow> ((spdlog_ex + 'c daily_file_sink) \<times> os_state) option" where
  "daily_construct env fenv mk fname h m tr n os =
     (if h < 0 \<or> h > 23 \<or> m < 0 \<or> m > 59 then Some (Inl Invalid_rotation_time, os)
      else
        let name = daily_filename fname (now_tm fenv (os_now env os)) in
        case fh_open env name tr new_file_helper (tick os) of
          (Inl e, fh, os1) \<Rightarrow> Some (Inl e, os1)
        | (Inr _, fh, os1) \<Rightarrow>
            let sink = \<lparr>sink_level = Trace, sink_formatter = default_formatter, daily_base = fname, rotation_h = h,
                  rotation_m = m, rotation_tp = next_rotation_tp fenv mk h m (os_now env os1), daily_file = fh,
                  daily_truncate = tr, daily_max_files = n, filenames_q = circ_disabled\<rparr> in
            if n > 0 then map_option (\<lambda>s. (Inr s, tick (tick os1))) (init_filenames_q env fenv sink (tick os1))
            else Some (Inr sink, tick os1))"

definition delete_old ::
  "os_env \<Rightarrow> 'c daily_file_sink \<Rightarrow> os_state \<Rightarrow> ((spdlog_ex + unit) \<times> 'c daily_file_sink \<times> os_state) option" where
  "delete_old env sink os =
     (let current_file = fh_filename (daily_file sink) in
      if circ_full (filenames_q sink)
      then
        Option.bind (circ_front (filenames_q sink)) (\<lambda>old_filename.
          Option.bind (circ_pop_front (filenames_q sink)) (\<lambda>q.
            case remove_if_exists env old_filename os of
              (ok, os1) \<Rightarrow>
                map_option (\<lambda>q1. (if ok then Inr () else Inl (Remove_failed old_filename), sink\<lparr>filenames_q := q1\<rparr>, os1))
                  (circ_push_back current_file q)))
      else map_option (\<lambda>q1. (Inr (), sink\<lparr>filenames_q := q1\<rparr>, os)) (circ_push_back current_file (filenames_q sink)))"

text \<open>The steps of \<open>sink_it_\<close>: opening the next file, then writing, then removing an old file.\<close>

definition daily_rotate ::
  "os_env \<Rightarrow> 'c fmt_env \<Rightarrow> (tm \<Rightarrow> int) \<Rightarrow> int \<Rightarrow> 'c daily_file_sink \<Rightarrow> os_state
    \<Rightarrow> (spdlog_ex + unit) \<times> 'c daily_file_sink \<times> os_state" where
  "daily_rotate env fenv mk tp sink os =
     (case fh_open env (daily_filename (daily_base sink) (now_tm fenv tp)) (daily_truncate sink) (daily_file sink) os of
        (Inl e, fh, os1) \<Rightarrow> (Inl e, sink\<lparr>daily_file := fh\<rparr>, os1)
      | (Inr _, fh, os1) \<Rightarrow>
          (Inr (), sink\<lparr>daily_file := fh,
             rotation_tp := next_rotation_tp fenv mk (rotation_h sink) (rotation_m sink) (os_now env os1)\<rparr>, tick os1))"

definition daily_sink_it ::
  "os_env \<Rightarrow> 'c fmt_env \<Rightarrow> (tm \<Rightarrow> int) \<Rightarrow> log_msg \<Rightarrow> 'c daily_file_sink \<Rightarrow> os_state \<Rightarrow> 'c daily_file_sink sunk" where
  "daily_sink_it env fenv mk msg sink os =
     (let should_rotate = time msg \<ge> rotation_tp sink in
      case (if should_rotate then daily_rotate env fenv mk (time msg) sink os else (Inr (), sink, os)) of
        (Inl e, sink1, os1) \<Rightarrow> Some (Inl e, msg, sink1, os1)
      | (Inr _, sink1, os1) \<Rightarrow>
          Option.bind (pf_format fenv (sink_formatter sink1) msg []) (\<lambda>(pf, msg1, formatted).
            let sink2 = sink1\<lparr>sink_formatter := pf\<rparr> in
            Option.bind (fh_write env formatted (daily_file sink2) os1) (\<lambda>(r, os2).
              case r of
                Inl e \<Rightarrow> Some (Inl e, msg1, sink2, os2)
              | Inr _ \<Rightarrow>
                  if should_rotate \<and> daily_max_files sink2 > 0
                  then map_option (\<lambda>(r', sink3, os3). (r', msg1, sink3, os3)) (delete_old env sink2 os2)
                  else Some (Inr (), msg1, sink2, os2))))"

section \<open>What rotation does to the files\<close>

text \<open>The files of a rotating sink, by their index, and what moving them does.\<close>

definition rot_files :: "os_state \<Rightarrow> string \<Rightarrow> nat \<Rightarrow> string option" where
  "rot_files os base i = file_at os (rot_filename base i)"

fun shift_files :: "nat \<Rightarrow> (nat \<Rightarrow> string option) \<Rightarrow> nat \<Rightarrow> string option" where
  "shift_files 0 fs = fs"
| "shift_files (Suc k) fs = shift_files k (if fs k = None then fs else fs(Suc k := fs k, k := None))"

definition gapless :: "nat \<Rightarrow> (nat \<Rightarrow> string option) \<Rightarrow> bool" where
  "gapless n fs \<longleftrightarrow> fs 0 \<noteq> None \<and> (\<forall>i < n. fs i = None \<longrightarrow> fs (Suc i) = None)"

definition text_of :: "string option \<Rightarrow> string" where
  "text_of f = (case f of None \<Rightarrow> [] | Some s \<Rightarrow> s)"

text \<open>The text of all files, oldest first.\<close>

fun history :: "nat \<Rightarrow> (nat \<Rightarrow> string option) \<Rightarrow> string" where
  "history 0 fs = text_of (fs 0)"
| "history (Suc n) fs = text_of (fs (Suc n)) @ history n fs"

lemma dec_inj [simp]: "dec m = dec n \<longleftrightarrow> m = n"
  by (metis numeral_value_dec)

lemma rot_filename_longer: "0 < i \<Longrightarrow> length base < length (rot_filename base i)"
proof -
  have "length base = length (fst (split_by_extension base)) + length (snd (split_by_extension base))"
    using split_by_extension_append [of base] length_append by metis
  then show "0 < i \<Longrightarrow> length base < length (rot_filename base i)"
    by (simp add: rot_filename_def case_prod_beta)
qed

lemma rot_filename_ge: "length base \<le> length (rot_filename base i)"
  by (cases "i = 0") (use rot_filename_longer [of i base] in \<open>auto simp: rot_filename_def\<close>)

lemma rot_filename_inj [simp]: "rot_filename base i = rot_filename base j \<longleftrightarrow> i = j"
proof
  assume e: "rot_filename base i = rot_filename base j"
  show "i = j"
  proof (cases "i = 0 \<or> j = 0")
    case True
    have "length (rot_filename base 0) = length base" by (simp add: rot_filename_def)
    with True e rot_filename_longer [of i base] rot_filename_longer [of j base] show ?thesis
      by (metis less_irrefl neq0_conv)
  next
    case False
    with e show ?thesis
      by (simp add: rot_filename_def case_prod_beta format_unsigned_def format_decimal_dec)
  qed
qed simp

lemma shift_files_at:
  "shift_files k fs i =
     (if k < i then fs i
      else if i = k then (if 0 < k \<and> fs (k - 1) \<noteq> None then fs (k - 1) else fs k)
      else if 0 < i then fs (i - 1) else None)"
  by (induction k fs arbitrary: i rule: shift_files.induct) (auto simp: le_Suc_eq less_Suc_eq_le)

lemma shift_gapless:
  assumes "gapless n fs" "i \<le> n"
  shows "((shift_files n fs)(0 := Some [])) i = (if i = 0 then Some [] else fs (i - 1))"
proof (cases "i = n \<and> 0 < n")
  case True
  then obtain k where k: "n = Suc k" by (metis gr0_conv_Suc)
  with assms(1) have "fs k = None \<Longrightarrow> fs n = None" by (simp add: gapless_def)
  with True k show ?thesis by (auto simp: shift_files_at)
next
  case False
  with assms(2) show ?thesis by (auto simp: shift_files_at)
qed

lemma history_shift: "history n (\<lambda>i. if i = 0 then Some [] else fs (i - 1)) = (if n = 0 then [] else history (n - 1) fs)"
proof (induction n)
  case (Suc n)
  then show ?case by (cases n) (simp_all add: text_of_def)
qed (simp add: text_of_def)

lemma history_cong: "(\<And>i. i \<le> n \<Longrightarrow> fs i = gs i) \<Longrightarrow> history n fs = history n gs"
  by (induction n) auto

lemma history_append: "fs 0 = Some s \<Longrightarrow> history n (fs(0 := Some (s @ t))) = history n fs @ t"
  by (induction n) (simp_all add: text_of_def)

lemma history_rotated:
  "gapless n fs \<Longrightarrow> history n fs = text_of (fs n) @ history n ((shift_files n fs)(0 := Some []))"
proof -
  assume g: "gapless n fs"
  have "history n ((shift_files n fs)(0 := Some [])) = history n (\<lambda>i. if i = 0 then Some [] else fs (i - 1))"
    by (rule history_cong) (rule shift_gapless [OF g])
  then show ?thesis by (cases n) (simp_all add: history_shift text_of_def)
qed

lemma gapless_rotated:
  assumes g: "gapless n fs"
  shows "gapless n ((shift_files n fs)(0 := Some []))"
proof -
  let ?gs = "(shift_files n fs)(0 := Some [])"
  have at: "?gs i = (if i = 0 then Some [] else fs (i - 1))" if "i \<le> n" for i
    using shift_gapless [OF g that] .
  have "?gs (Suc i) = None" if i: "i < n" and none: "?gs i = None" for i
  proof -
    from i none at [of i] have "fs (i - 1) = None" "0 < i" by (simp_all split: if_splits)
    with g i have "fs (Suc (i - 1)) = None" unfolding gapless_def using less_imp_diff_less by blast
    with \<open>0 < i\<close> have "fs i = None" by simp
    with at [of "Suc i"] i show ?thesis by simp
  qed
  then show ?thesis using at [of 0] unfolding gapless_def by simp
qed

section \<open>The code does it\<close>

definition rot_names_free :: "'c rotating_file_sink \<Rightarrow> os_state \<Rightarrow> bool" where
  "rot_names_free sink os \<longleftrightarrow> (\<forall>i. rot_filename (base_filename sink) i \<notin> set (folders os))"

lemma rename_file_ok:
  assumes "calls_succeed env" "os_wf os" "f \<noteq> g" "dir os f \<noteq> None"
  obtains os' where "rename_file env f g os = (True, os')" "os_wf os'"
    "file_at os' = (file_at os)(f := None, g := file_at os f)" "folders os' = folders os"
proof -
  let ?o = "snd (os_remove env g os)"
  have o: "os_wf ?o" "file_at ?o = (file_at os)(g := None)" "folders ?o = folders os"
    using os_remove_ok [OF assms(1,2)] assms(2) file_at_def [of os g]
    by (cases "dir os g = None"; auto simp: os_remove_def)+
  have "file_at ?o f \<noteq> None" using o(2) assms(3,4) by (simp add: file_at_def)
  then have d: "dir ?o f \<noteq> None" by (simp add: file_at_def)
  note r = os_rename_ok [OF assms(1) o(1) d assms(3)]
  show ?thesis
  proof (rule that)
    show "rename_file env f g os = (True, snd (os_rename env f g ?o))"
      unfolding rename_file_def using r(1) by (metis prod.collapse)
    show "file_at (snd (os_rename env f g ?o)) = (file_at os)(f := None, g := file_at os f)"
      unfolding r(3) o(2) using assms(3) by (auto simp: fun_eq_iff)
  qed (use r o in simp_all)
qed

lemma file_at_None: "file_at os f = None \<longleftrightarrow> dir os f = None"
  by (simp add: file_at_def)

lemma rotate_loop_ok:
  assumes "calls_succeed env" "os_wf os" "rot_names_free sink os"
  shows "\<exists>os'. rotate_loop env k sink os = (Inr (), sink, os') \<and> os_wf os' \<and> folders os' = folders os
    \<and> rot_files os' (base_filename sink) = shift_files k (rot_files os (base_filename sink))
    \<and> (\<forall>f. (\<forall>i \<le> k. f \<noteq> rot_filename (base_filename sink) i) \<longrightarrow> file_at os' f = file_at os f)"
  using assms(2,3)
proof (induction k arbitrary: os)
  case 0
  then show ?case by simp
next
  case (Suc k)
  let ?b = "base_filename sink" and ?f = "rot_filename (base_filename sink)"
  have free: "?f k \<notin> set (folders os)" using Suc.prems(2) by (simp add: rot_names_free_def)
  show ?case
  proof (cases "dir os (?f k)")
    case None
    then have e: "rotate_loop env (Suc k) sink os = rotate_loop env k sink os"
      using free by (simp add: path_exists_def Let_def)
    have n: "rot_files os ?b k = None" using None by (simp add: rot_files_def file_at_def)
    from Suc.IH [OF Suc.prems] show ?thesis unfolding e shift_files.simps(2) n by auto
  next
    case (Some i)
    then have ne: "dir os (?f k) \<noteq> None" by simp
    have "?f k \<noteq> ?f (Suc k)" by simp
    from rename_file_ok [OF assms(1) Suc.prems(1) this ne] obtain os1 where
      r: "rename_file env (?f k) (?f (Suc k)) os = (True, os1)" "os_wf os1"
        "file_at os1 = (file_at os)(?f k := None, ?f (Suc k) := file_at os (?f k))" "folders os1 = folders os" .
    have e: "rotate_loop env (Suc k) sink os = rotate_loop env k sink os1"
      using Some by (simp add: path_exists_def Let_def r(1))
    have free1: "rot_names_free sink os1" using Suc.prems(2) by (simp add: rot_names_free_def r(4))
    have fs: "rot_files os1 ?b = (rot_files os ?b)(Suc k := rot_files os ?b k, k := None)"
      by (auto simp: rot_files_def r(3) fun_eq_iff)
    have n: "rot_files os ?b k \<noteq> None" using Some by (simp add: rot_files_def file_at_def)
    from Suc.IH [OF r(2) free1] obtain os' where
      o: "rotate_loop env k sink os1 = (Inr (), sink, os')" "os_wf os'" "folders os' = folders os1"
        "rot_files os' ?b = shift_files k (rot_files os1 ?b)"
        "\<forall>f. (\<forall>i \<le> k. f \<noteq> ?f i) \<longrightarrow> file_at os' f = file_at os1 f" by blast
    have other: "file_at os' f = file_at os f" if "\<forall>i \<le> Suc k. f \<noteq> ?f i" for f
      using o(5) that by (simp add: r(3))
    have sh: "rot_files os' ?b = shift_files (Suc k) (rot_files os ?b)"
      unfolding o(4) fs shift_files.simps(2) using n by (simp only: if_False)
    show ?thesis unfolding e sh [symmetric]
      by (intro exI [of _ os'] conjI) (use o r(4) other in simp_all)
  qed
qed

text \<open>
  The invariant of the sink and the files: the sink writes to its base file, knows its size, and its files are
  consecutive.
\<close>

definition rot_inv :: "'c rotating_file_sink \<Rightarrow> os_state \<Rightarrow> bool" where
  "rot_inv sink os \<longleftrightarrow> os_wf os \<and> rot_names_free sink os \<and> base_filename sink \<noteq> []
     \<and> opened_name (rot_file sink) = base_filename sink
     \<and> fd (rot_file sink) = dir os (base_filename sink) \<and> dir os (base_filename sink) \<noteq> None
     \<and> gapless (max_files sink) (rot_files os (base_filename sink))
     \<and> unat (current_size sink) = length (text_of (rot_files os (base_filename sink) 0))"

lemma rot_files_0: "rot_files os base 0 = file_at os base"
  by (simp add: rot_files_def rot_filename_def)

lemma rot_files_other: "(\<And>i. g \<noteq> rot_filename base i) \<Longrightarrow> g \<noteq> base"
  by (metis rot_filename_def)

text \<open>Rotating: the files move up, the base file is empty and open.\<close>

lemma rotate_ok:
  assumes ok: "calls_succeed env" and wf: "os_wf os" and free: "rot_names_free sink os"
    and name: "base_filename sink \<noteq> []" "opened_name (rot_file sink) = base_filename sink"
  obtains fh os' where "rotate env sink os = (Inr (), sink\<lparr>rot_file := fh\<rparr>, os')" "os_wf os'"
    "rot_names_free sink os'" "opened_name fh = base_filename sink" "fd fh = dir os' (base_filename sink)" "fd fh \<noteq> None"
    "rot_files os' (base_filename sink) = (shift_files (max_files sink) (rot_files os (base_filename sink)))(0 := Some [])"
    "\<And>f. (\<forall>i \<le> max_files sink. f \<noteq> rot_filename (base_filename sink) i) \<Longrightarrow> file_at os' f = file_at os f"
proof -
  let ?b = "base_filename sink" and ?s = "sink\<lparr>rot_file := fh_close (rot_file sink)\<rparr>"
  have free': "rot_names_free ?s os" using free by (simp add: rot_names_free_def)
  from rotate_loop_ok [OF ok wf free', of "max_files sink"] obtain os1 where
    l: "rotate_loop env (max_files sink) ?s os = (Inr (), ?s, os1)" "os_wf os1" "folders os1 = folders os"
      "rot_files os1 ?b = shift_files (max_files sink) (rot_files os ?b)"
      "\<forall>f. (\<forall>i \<le> max_files sink. f \<noteq> rot_filename ?b i) \<longrightarrow> file_at os1 f = file_at os f" by auto
  from fh_open_ok [OF ok l(2), of ?b True "fh_close (rot_file sink)"] obtain i os2 where
    o: "fh_open env ?b True (fh_close (rot_file sink)) os1 = (Inr (), \<lparr>fd = Some i, opened_name = ?b\<rparr>, os2)"
      "dir os2 ?b = Some i" "os_wf os2" "\<And>g. g \<noteq> ?b \<Longrightarrow> file_at os2 g = file_at os1 g" "file_at os2 ?b = Some []"
      "\<And>g. g \<in> set (folders os2) \<Longrightarrow> g \<in> set (folders os1) \<or> length g < length ?b" by (metis (full_types))
  have fs: "rot_files os2 ?b = (rot_files os1 ?b)(0 := Some [])"
  proof
    fix j
    have "rot_filename ?b j = ?b \<longleftrightarrow> j = 0" using rot_filename_inj [of ?b j 0] by (simp add: rot_filename_def)
    then show "rot_files os2 ?b j = ((rot_files os1 ?b)(0 := Some [])) j"
      using o(4,5) by (cases "j = 0") (simp_all add: rot_files_def)
  qed
  have free2: "rot_names_free sink os2"
    unfolding rot_names_free_def
  proof
    fix j
    have "rot_filename ?b j \<notin> set (folders os1)" using free by (simp add: rot_names_free_def l(3))
    with o(6) [of "rot_filename ?b j"] rot_filename_ge [of ?b j] show "rot_filename ?b j \<notin> set (folders os2)" by linarith
  qed
  show ?thesis
  proof (rule that [of "\<lparr>fd = Some i, opened_name = ?b\<rparr>" os2])
    show "rotate env sink os = (Inr (), sink\<lparr>rot_file := \<lparr>fd = Some i, opened_name = ?b\<rparr>\<rparr>, os2)"
      by (simp add: rotate_def l(1) fh_reopen_def name o(1))
    show "file_at os2 f = file_at os f" if f: "\<forall>i \<le> max_files sink. f \<noteq> rot_filename ?b i" for f
    proof -
      from f have "f \<noteq> ?b" by (auto simp: rot_filename_def)
      with o(4) l(5) f show ?thesis by simp
    qed
  qed (use o free2 fs l(4) in simp_all)
qed

text \<open>Logging one text, on the files alone.\<close>

definition rot_make_room :: "nat \<Rightarrow> nat \<Rightarrow> string \<Rightarrow> (nat \<Rightarrow> string option) \<Rightarrow> nat \<Rightarrow> string option" where
  "rot_make_room limit n t fs =
     (if length (text_of (fs 0)) + length t > limit then (shift_files n fs)(0 := Some []) else fs)"

definition rot_spec :: "nat \<Rightarrow> nat \<Rightarrow> string \<Rightarrow> (nat \<Rightarrow> string option) \<Rightarrow> nat \<Rightarrow> string option" where
  "rot_spec limit n t fs =
     (let gs = rot_make_room limit n t fs in gs(0 := Some (text_of (gs 0) @ t)))"

lemma gapless_write: "gapless n fs \<Longrightarrow> gapless n (fs(0 := Some t))"
  by (simp add: gapless_def)

lemma rot_spec_gapless: "gapless n fs \<Longrightarrow> gapless n (rot_spec limit n t fs)"
  unfolding rot_spec_def rot_make_room_def Let_def
  by (rule gapless_write) (simp add: gapless_rotated del: fun_upd_apply)

lemma rot_spec_0: "rot_spec limit n t fs 0 =
    Some (if length (text_of (fs 0)) + length t > limit then t else text_of (fs 0) @ t)"
  by (simp add: rot_spec_def rot_make_room_def text_of_def)

lemma rot_write_ok:
  assumes ok: "calls_succeed env" and inv: "rot_inv (sink\<lparr>current_size := c\<rparr>) os"
    and len: "length t < 2 ^ 63" and bound: "length (text_of (rot_files os (base_filename sink) 0)) + length t < 2 ^ 64"
    and cur: "unat (current_size sink) = length (text_of (rot_files os (base_filename sink) 0)) + length t"
  shows "\<exists>os'. rot_write env t msg sink os = Some (Inr (), msg, sink, os') \<and> rot_inv sink os'
    \<and> rot_files os' (base_filename sink)
        = (rot_files os (base_filename sink))(0 := Some (text_of (rot_files os (base_filename sink) 0) @ t))
    \<and> (\<forall>f. f \<noteq> base_filename sink \<longrightarrow> file_at os' f = file_at os f)"
proof -
  let ?b = "base_filename sink"
  from inv obtain i where i: "fd (rot_file sink) = Some i" "dir os ?b = Some i" "os_wf os"
    by (auto simp: rot_inv_def)
  have "length t < 2 ^ 64" using len by simp
  from fh_write_ok [OF ok i(3,1,2) this] obtain os' where
    w: "fh_write env t (rot_file sink) os = Some (Inr (), os')" "dir os' = dir os" "os_wf os'" "folders os' = folders os"
      "\<And>g. g \<noteq> ?b \<Longrightarrow> file_at os' g = file_at os g" "file_at os' ?b = map_option (\<lambda>s. s @ t) (file_at os ?b)" by metis
  have f0: "rot_files os ?b 0 \<noteq> None" using i(2) by (simp add: rot_files_0 file_at_def)
  then obtain s where s: "rot_files os ?b 0 = Some s" by blast
  have fs: "rot_files os' ?b = (rot_files os ?b)(0 := Some (s @ t))"
  proof
    fix j
    have "rot_filename ?b j = ?b \<longleftrightarrow> j = 0" using rot_filename_inj [of ?b j 0] by (simp add: rot_filename_def)
    then show "rot_files os' ?b j = ((rot_files os ?b)(0 := Some (s @ t))) j"
      using w(5,6) s by (cases "j = 0") (simp_all add: rot_files_def)
  qed
  have "rot_inv sink os'" unfolding rot_inv_def fs
  proof (intro conjI)
    show "rot_names_free sink os'" "base_filename sink \<noteq> []" "opened_name (rot_file sink) = base_filename sink"
      using inv w(4) by (simp_all add: rot_inv_def rot_names_free_def)
    show "gapless (max_files sink) ((rot_files os ?b)(0 := Some (s @ t)))"
      using inv gapless_write by (simp add: rot_inv_def del: fun_upd_apply)
    show "unat (current_size sink) = length (text_of (((rot_files os ?b)(0 := Some (s @ t))) 0))"
      using cur s by (simp add: text_of_def)
  qed (use w(2,3) i in simp_all)
  then show ?thesis using w(1,5) fs s by (auto simp: rot_write_def text_of_def)
qed

lemma unat_add_small: "unat (a :: u64) + n < 2 ^ 64 \<Longrightarrow> unat (a + word_of_nat n) = unat a + n"
proof -
  assume h: "unat a + n < 2 ^ 64"
  then have "n < 2 ^ 64" by simp
  then have n: "unat (word_of_nat n :: u64) = n" by (simp add: unsigned_of_nat take_bit_nat_eq_self)
  with h show ?thesis by (subst unat_add_lem [THEN iffD1]) simp_all
qed

text \<open>A step that rotates needs no more than open files; the size the sink remembers need not be right.\<close>

lemma rot_step_rotates:
  assumes ok: "calls_succeed env" and wf: "os_wf os" and free: "rot_names_free sink os"
    and nm: "base_filename sink \<noteq> []" "opened_name (rot_file sink) = base_filename sink"
    and g: "gapless (max_files sink) (rot_files os (base_filename sink))"
    and fmt: "pf_format fenv (sink_formatter sink) msg [] = Some (pf, msg1, t)"
    and len: "length t < 2 ^ 63"
    and big: "current_size sink + word_of_nat (length t) > max_size sink"
  shows "\<exists>sink' os'. rot_sink_it env fenv msg sink os = Some (Inr (), msg1, sink', os') \<and> rot_inv sink' os'
    \<and> base_filename sink' = base_filename sink \<and> max_files sink' = max_files sink \<and> max_size sink' = max_size sink
    \<and> sink_formatter sink' = pf
    \<and> rot_files os' (base_filename sink)
        = ((shift_files (max_files sink) (rot_files os (base_filename sink)))(0 := Some []))(0 := Some t)
    \<and> (\<forall>f. (\<forall>i \<le> max_files sink. f \<noteq> rot_filename (base_filename sink) i) \<longrightarrow> file_at os' f = file_at os f)"
proof -
  let ?b = "base_filename sink" and ?n = "max_files sink" and ?len = "word_of_nat (length t) :: u64"
  define sink1 where "sink1 = sink\<lparr>sink_formatter := pf, current_size := current_size sink + ?len\<rparr>"
  have lenw: "unat ?len = length t" using len by (simp add: unsigned_of_nat take_bit_nat_eq_self)
  have f1: "base_filename sink1 = ?b" "max_files sink1 = ?n" "max_size sink1 = max_size sink"
    "sink_formatter sink1 = pf" "rot_file sink1 = rot_file sink" by (simp_all add: sink1_def)
  have free1: "rot_names_free sink1 os" and nm1: "base_filename sink1 \<noteq> []"
    "opened_name (rot_file sink1) = base_filename sink1"
    using free nm by (simp_all add: rot_names_free_def f1)
  from rotate_ok [OF ok wf free1 nm1] obtain fh os1 where
    r: "rotate env sink1 os = (Inr (), sink1\<lparr>rot_file := fh\<rparr>, os1)" "os_wf os1" "rot_names_free sink1 os1"
      "opened_name fh = ?b" "fd fh = dir os1 ?b" "fd fh \<noteq> None"
      "rot_files os1 ?b = (shift_files ?n (rot_files os ?b))(0 := Some [])"
      "\<And>f. (\<forall>i \<le> ?n. f \<noteq> rot_filename ?b i) \<Longrightarrow> file_at os1 f = file_at os f" unfolding f1 by metis
  let ?s = "sink1\<lparr>rot_file := fh, current_size := ?len\<rparr>"
  have inv1: "rot_inv (?s\<lparr>current_size := 0\<rparr>) os1"
    using r nm gapless_rotated [OF g] by (simp add: rot_inv_def rot_names_free_def f1 text_of_def)
  have z: "rot_files os1 ?b 0 = Some []" by (simp add: r(7))
  have "\<exists>os'. rot_write env t msg1 ?s os1 = Some (Inr (), msg1, ?s, os') \<and> rot_inv ?s os'
    \<and> rot_files os' (base_filename ?s)
        = (rot_files os1 (base_filename ?s))(0 := Some (text_of (rot_files os1 (base_filename ?s) 0) @ t))
    \<and> (\<forall>f. f \<noteq> base_filename ?s \<longrightarrow> file_at os' f = file_at os1 f)"
    by (rule rot_write_ok [OF ok inv1 len]) (use len z in \<open>simp_all add: f1 text_of_def lenw\<close>)
  then obtain os' where w: "rot_write env t msg1 ?s os1 = Some (Inr (), msg1, ?s, os')" "rot_inv ?s os'"
    "rot_files os' ?b = (rot_files os1 ?b)(0 := Some (text_of (rot_files os1 ?b 0) @ t))"
    "\<forall>f. f \<noteq> ?b \<longrightarrow> file_at os' f = file_at os1 f" by (auto simp: f1)
  have "rot_sink_it env fenv msg sink os = Some (Inr (), msg1, ?s, os')"
    using big r(1) w(1) by (simp add: rot_sink_it_def fmt sink1_def Let_def)
  moreover have "rot_files os' ?b = ((shift_files ?n (rot_files os ?b))(0 := Some []))(0 := Some t)"
    unfolding w(3) z text_of_def option.case append_Nil unfolding r(7) ..
  moreover have "file_at os' f = file_at os f" if "\<forall>i \<le> ?n. f \<noteq> rot_filename ?b i" for f
    using w(4) r(8) that by (metis rot_filename_def zero_le)
  ultimately show ?thesis using w(2) f1 by (intro exI [of _ ?s] exI [of _ os']) simp
qed

lemma rot_step:
  assumes ok: "calls_succeed env" and inv: "rot_inv sink os"
    and fmt: "pf_format fenv (sink_formatter sink) msg [] = Some (pf, msg1, t)"
    and len: "length t < 2 ^ 63" and cur: "unat (current_size sink) < 2 ^ 63"
  shows "\<exists>sink' os'. rot_sink_it env fenv msg sink os = Some (Inr (), msg1, sink', os') \<and> rot_inv sink' os'
    \<and> base_filename sink' = base_filename sink \<and> max_files sink' = max_files sink \<and> max_size sink' = max_size sink
    \<and> sink_formatter sink' = pf
    \<and> rot_files os' (base_filename sink)
        = rot_spec (unat (max_size sink)) (max_files sink) t (rot_files os (base_filename sink))
    \<and> (\<forall>f. (\<forall>i \<le> max_files sink. f \<noteq> rot_filename (base_filename sink) i) \<longrightarrow> file_at os' f = file_at os f)"
proof -
  let ?b = "base_filename sink" and ?n = "max_files sink" and ?len = "word_of_nat (length t) :: u64"
  have c0: "unat (current_size sink) = length (text_of (rot_files os ?b 0))" using inv by (simp add: rot_inv_def)
  have sum: "unat (current_size sink) + length t < 2 ^ 64" using len cur by simp
  then have c1: "unat (current_size sink + ?len) = length (text_of (rot_files os ?b 0)) + length t"
    by (simp add: unat_add_small c0)
  have big: "current_size sink + ?len > max_size sink
      \<longleftrightarrow> length (text_of (rot_files os ?b 0)) + length t > unat (max_size sink)"
    by (simp add: word_less_nat_alt c1)
  have inv': "os_wf os" "rot_names_free sink os" "?b \<noteq> []" "opened_name (rot_file sink) = ?b" "gapless ?n (rot_files os ?b)"
    using inv by (simp_all add: rot_inv_def)
  show ?thesis
  proof (cases "current_size sink + ?len > max_size sink")
    case True
    have z: "((shift_files ?n (rot_files os ?b))(0 := Some [])) 0 = Some []" by simp
    have "rot_spec (unat (max_size sink)) ?n t (rot_files os ?b)
        = ((shift_files ?n (rot_files os ?b))(0 := Some []))(0 := Some t)"
      using True [unfolded big] unfolding rot_spec_def rot_make_room_def Let_def
      by (simp only: if_True z text_of_def option.case append_Nil)
    with rot_step_rotates [OF ok inv' fmt len True] show ?thesis by (simp del: fun_upd_upd)
  next
    case False
    define sink1 where "sink1 = sink\<lparr>sink_formatter := pf, current_size := current_size sink + ?len\<rparr>"
    have f1: "base_filename sink1 = ?b" "max_files sink1 = ?n" "max_size sink1 = max_size sink"
      "sink_formatter sink1 = pf" "current_size sink1 = current_size sink + ?len" by (simp_all add: sink1_def)
    have inv1: "rot_inv (sink1\<lparr>current_size := current_size sink\<rparr>) os"
      using inv by (simp add: rot_inv_def rot_names_free_def sink1_def)
    have "\<exists>os'. rot_write env t msg1 sink1 os = Some (Inr (), msg1, sink1, os') \<and> rot_inv sink1 os'
      \<and> rot_files os' (base_filename sink1)
          = (rot_files os (base_filename sink1))(0 := Some (text_of (rot_files os (base_filename sink1) 0) @ t))
      \<and> (\<forall>f. f \<noteq> base_filename sink1 \<longrightarrow> file_at os' f = file_at os f)"
      by (rule rot_write_ok [OF ok inv1 len]) (use sum c0 c1 in \<open>simp_all add: f1\<close>)
    then obtain os' where w: "rot_write env t msg1 sink1 os = Some (Inr (), msg1, sink1, os')" "rot_inv sink1 os'"
      "rot_files os' ?b = (rot_files os ?b)(0 := Some (text_of (rot_files os ?b 0) @ t))"
      "\<forall>f. f \<noteq> ?b \<longrightarrow> file_at os' f = file_at os f" by (auto simp: f1)
    have "rot_sink_it env fenv msg sink os = Some (Inr (), msg1, sink1, os')"
      using False w(1) by (simp add: rot_sink_it_def fmt sink1_def Let_def)
    moreover have "rot_files os' ?b = rot_spec (unat (max_size sink)) ?n t (rot_files os ?b)"
      using False [unfolded big] unfolding w(3) rot_spec_def rot_make_room_def Let_def by (simp only: if_False)
    moreover have "file_at os' f = file_at os f" if "\<forall>i \<le> ?n. f \<noteq> rot_filename ?b i" for f
      using w(4) that by (metis rot_filename_def zero_le)
    ultimately show ?thesis using w(2) f1 by (intro exI [of _ sink1] exI [of _ os']) simp
  qed
qed

lemma rot_spec_history:
  assumes g: "gapless n fs"
  shows "\<exists>dropped. dropped @ history n (rot_spec limit n t fs) = history n fs @ t
    \<and> (dropped \<noteq> [] \<longrightarrow> fs n \<noteq> None)"
proof (cases "length (text_of (fs 0)) + length t > limit")
  case True
  let ?gs = "(shift_files n fs)(0 := Some [])"
  have r: "rot_spec limit n t fs = ?gs(0 := Some ([] @ t))" using True by (simp add: rot_spec_def rot_make_room_def text_of_def)
  have "history n (?gs(0 := Some ([] @ t))) = history n ?gs @ t" by (rule history_append) simp
  then have "text_of (fs n) @ history n (rot_spec limit n t fs) = history n fs @ t"
    unfolding r history_rotated [OF g] by simp
  then show ?thesis by (intro exI [of _ "text_of (fs n)"]) (cases "fs n"; simp add: text_of_def)
next
  case False
  from g obtain s where s: "fs 0 = Some s" by (auto simp: gapless_def)
  have "rot_spec limit n t fs = fs(0 := Some (s @ t))" using False s by (simp add: rot_spec_def rot_make_room_def text_of_def)
  with history_append [of fs s n t, OF s] show ?thesis by (intro exI [of _ "[]"]) simp
qed

lemma rot_spec_at:
  assumes g: "gapless n fs" and i: "i \<le> n" and f: "rot_spec limit n t fs i = Some s"
  shows "length s \<le> limit \<or> s = t \<or> (\<exists>j \<le> n. fs j = Some s)"
proof (cases "i = 0")
  case True
  with f show ?thesis by (auto simp: rot_spec_0 split: if_splits)
next
  case False
  then have "rot_spec limit n t fs i = rot_make_room limit n t fs i" by (simp add: rot_spec_def Let_def)
  also have "\<dots> = fs (i - 1) \<or> \<dots> = fs i"
    using shift_gapless [OF g i] False by (auto simp: rot_make_room_def)
  finally show ?thesis using f i by (metis diff_le_self le_trans)
qed

lemma rot_spec_full:
  assumes "gapless n fs" "fs n \<noteq> None"
  shows "rot_spec limit n t fs n \<noteq> None"
proof (cases "n = 0")
  case True
  then show ?thesis by (simp add: rot_spec_0)
next
  case False
  then obtain k where k: "n = Suc k" by (cases n) simp_all
  have "fs k = None \<Longrightarrow> fs (Suc k) = None" using assms(1) unfolding gapless_def k by simp
  then have "fs k \<noteq> None" using assms(2) unfolding k by blast
  moreover have "((shift_files n fs)(0 := Some [])) n = fs k"
    unfolding shift_gapless [OF assms(1) order_refl] using False by (simp add: k)
  ultimately have "rot_make_room limit n t fs n \<noteq> None"
    unfolding rot_make_room_def using assms(2) by (simp only: split: if_split) simp
  then show ?thesis using False by (simp add: rot_spec_def Let_def)
qed

lemma rot_spec_run:
  assumes "gapless n fs"
  shows "gapless n (fold (rot_spec limit n) ts fs)
    \<and> (\<exists>dropped. dropped @ history n (fold (rot_spec limit n) ts fs) = history n fs @ concat ts
        \<and> (dropped \<noteq> [] \<longrightarrow> fold (rot_spec limit n) ts fs n \<noteq> None))
    \<and> (\<forall>i s. i \<le> n \<longrightarrow> fold (rot_spec limit n) ts fs i = Some s
        \<longrightarrow> length s \<le> limit \<or> s \<in> set ts \<or> (\<exists>j \<le> n. fs j = Some s))"
proof (induction ts rule: rev_induct)
  case Nil
  then show ?case using assms by (auto intro: exI [of _ "[]"])
next
  case (snoc t ts)
  let ?gs = "fold (rot_spec limit n) ts fs"
  from snoc have g: "gapless n ?gs" by blast
  from snoc obtain d where d: "d @ history n ?gs = history n fs @ concat ts" "d \<noteq> [] \<longrightarrow> ?gs n \<noteq> None" by blast
  from rot_spec_history [OF g, of limit t] obtain e where
    e: "e @ history n (rot_spec limit n t ?gs) = history n ?gs @ t" "e \<noteq> [] \<longrightarrow> ?gs n \<noteq> None" by blast
  have "(d @ e) @ history n (rot_spec limit n t ?gs) = history n fs @ concat (ts @ [t])"
    using d(1) e(1) by simp
  moreover have "d @ e \<noteq> [] \<longrightarrow> rot_spec limit n t ?gs n \<noteq> None"
    using d(2) e(2) rot_spec_full [OF g] by blast
  moreover have "length s \<le> limit \<or> s \<in> set (ts @ [t]) \<or> (\<exists>j \<le> n. fs j = Some s)"
    if "i \<le> n" "rot_spec limit n t ?gs i = Some s" for i s
    using rot_spec_at [OF g that] snoc by auto
  ultimately show ?case using rot_spec_gapless [OF g, of limit t]
    unfolding fold_append o_apply fold.simps id_apply by blast
qed

fun rot_log_all ::
  "os_env \<Rightarrow> 'c fmt_env \<Rightarrow> log_msg list \<Rightarrow> 'c rotating_file_sink \<Rightarrow> os_state
    \<Rightarrow> ((spdlog_ex + unit) \<times> 'c rotating_file_sink \<times> os_state) option" where
  "rot_log_all env fenv [] sink os = Some (Inr (), sink, os)"
| "rot_log_all env fenv (m # ms) sink os =
     Option.bind (rot_sink_it env fenv m sink os) (\<lambda>(r, m1, sink1, os1).
       case r of Inl e \<Rightarrow> Some (Inl e, sink1, os1) | Inr _ \<Rightarrow> rot_log_all env fenv ms sink1 os1)"

lemma rot_run:
  assumes ok: "calls_succeed env" and "unat (max_size sink) < 2 ^ 63"
  shows "rot_inv sink os \<Longrightarrow> unat (current_size sink) < 2 ^ 63
    \<Longrightarrow> format_all fenv (sink_formatter sink) ms = Some (pf, ts) \<Longrightarrow> \<forall>t \<in> set ts. length t < 2 ^ 63
    \<Longrightarrow> \<exists>sink' os'. rot_log_all env fenv ms sink os = Some (Inr (), sink', os') \<and> rot_inv sink' os'
      \<and> base_filename sink' = base_filename sink \<and> max_files sink' = max_files sink
      \<and> rot_files os' (base_filename sink)
          = fold (rot_spec (unat (max_size sink)) (max_files sink)) ts (rot_files os (base_filename sink))
      \<and> (\<forall>f. (\<forall>i \<le> max_files sink. f \<noteq> rot_filename (base_filename sink) i) \<longrightarrow> file_at os' f = file_at os f)"
  using assms(2)
proof (induction ms arbitrary: sink os ts)
  case Nil
  then show ?case by auto
next
  case (Cons m ms)
  from Cons.prems(3) obtain p1 m1 t ts' where
    f: "pf_format fenv (sink_formatter sink) m [] = Some (p1, m1, t)" "format_all fenv p1 ms = Some (pf, ts')" "ts = t # ts'"
    by (auto simp: bind_eq_Some_conv)
  have t: "length t < 2 ^ 63" using Cons.prems(4) f(3) by simp
  from rot_step [OF ok Cons.prems(1) f(1) t Cons.prems(2)] obtain s1 os1 where
    s: "rot_sink_it env fenv m sink os = Some (Inr (), m1, s1, os1)" "rot_inv s1 os1"
      "base_filename s1 = base_filename sink" "max_files s1 = max_files sink" "max_size s1 = max_size sink"
      "sink_formatter s1 = p1"
      "rot_files os1 (base_filename sink)
        = rot_spec (unat (max_size sink)) (max_files sink) t (rot_files os (base_filename sink))"
      "\<forall>f. (\<forall>i \<le> max_files sink. f \<noteq> rot_filename (base_filename sink) i) \<longrightarrow> file_at os1 f = file_at os f"
    by blast
  have "unat (current_size s1) = length (text_of (rot_files os1 (base_filename sink) 0))"
    using s(2,3) by (simp add: rot_inv_def)
  then have c: "unat (current_size s1) < 2 ^ 63"
    using t Cons.prems(5) unfolding s(7) rot_spec_0 by (simp add: text_of_def [of "Some _"])
  from Cons.IH [OF s(2) c, of ts'] f s Cons.prems(4,5) show ?case by auto
qed

text \<open>
  C12 [refinement] A rotating sink whose system calls succeed, and whose numbered files have no gap (no file is
  missing while an older one exists: the state that the sink itself creates and keeps, part of rot_inv), logs
  any sequence of formattable messages without an exception, sizes staying below 2^63.  Its files,
  read from the oldest to the current one, then hold the end of what
  they held before followed by the new texts, in order: text is only dropped when all max_files + 1
  files exist.  Every file is at most max_size bytes long, is a single message, or is one of the files
  from before.  No other file changes.  (Over a gap that somebody else made a rotation moves every file
  behind it up all the same, so that the oldest one is lost although a name is free.)
\<close>

theorem rotating_keeps_history:
  assumes "calls_succeed env" and "rot_inv sink os"
    and "unat (max_size sink) < 2 ^ 63" "unat (current_size sink) < 2 ^ 63"
    and "format_all fenv (sink_formatter sink) ms = Some (pf, ts)" "\<forall>t \<in> set ts. length t < 2 ^ 63"
  shows "\<exists>sink' os' dropped.
      rot_log_all env fenv ms sink os = Some (Inr (), sink', os') \<and> rot_inv sink' os'
      \<and> dropped @ history (max_files sink) (rot_files os' (base_filename sink))
          = history (max_files sink) (rot_files os (base_filename sink)) @ concat ts
      \<and> (dropped \<noteq> [] \<longrightarrow> rot_files os' (base_filename sink) (max_files sink) \<noteq> None)
      \<and> (\<forall>i s. i \<le> max_files sink \<longrightarrow> rot_files os' (base_filename sink) i = Some s
          \<longrightarrow> length s \<le> unat (max_size sink) \<or> s \<in> set ts \<or> (\<exists>j \<le> max_files sink. rot_files os (base_filename sink) j = Some s))
      \<and> (\<forall>f. (\<forall>i \<le> max_files sink. f \<noteq> rot_filename (base_filename sink) i) \<longrightarrow> file_at os' f = file_at os f)"
proof -
  have g: "gapless (max_files sink) (rot_files os (base_filename sink))" using assms(2) by (simp add: rot_inv_def)
  from rot_run [OF assms(1,3,2,4,5,6)] obtain sink' os' where
    r: "rot_log_all env fenv ms sink os = Some (Inr (), sink', os')" "rot_inv sink' os'"
      "rot_files os' (base_filename sink)
        = fold (rot_spec (unat (max_size sink)) (max_files sink)) ts (rot_files os (base_filename sink))"
      "\<forall>f. (\<forall>i \<le> max_files sink. f \<noteq> rot_filename (base_filename sink) i) \<longrightarrow> file_at os' f = file_at os f" by blast
  from rot_spec_run [OF g, of "unat (max_size sink)" ts] r show ?thesis
    unfolding r(3) [symmetric] by (intro exI [of _ sink'] exI [of _ os']) auto
qed

text \<open>Constructing the sink.\<close>

lemma rot_open_base:
  assumes ok: "calls_succeed env" and wf: "os_wf os" and nm: "base \<noteq> []"
    and free: "\<And>i. rot_filename base i \<notin> set (folders os)"
    and g: "gapless n ((rot_files os base)(0 := Some (text_of (rot_files os base 0))))"
    and len: "length (text_of (rot_files os base 0)) < 2 ^ 64"
  shows "\<exists>i os1. fh_open env (rot_filename base 0) False new_file_helper os
        = (Inr (), \<lparr>fd = Some i, opened_name = base\<rparr>, os1)
      \<and> fh_size \<lparr>fd = Some i, opened_name = base\<rparr> os1 = Inr (length (text_of (rot_files os base 0)))
      \<and> rot_inv \<lparr>sink_level = Trace, sink_formatter = pf, base_filename = base, max_size = limit, max_files = n,
            current_size = word_of_nat (length (text_of (rot_files os base 0))),
            rot_file = \<lparr>fd = Some i, opened_name = base\<rparr>\<rparr> os1
      \<and> rot_files os1 base = (rot_files os base)(0 := Some (text_of (rot_files os base 0)))"
proof -
  have b0: "rot_filename base 0 = base" by (simp add: rot_filename_def)
  obtain i os1 where
    o: "fh_open env base False new_file_helper os = (Inr (), \<lparr>fd = Some i, opened_name = base\<rparr>, os1)"
      "dir os1 base = Some i" "os_wf os1" "\<And>g. g \<noteq> base \<Longrightarrow> file_at os1 g = file_at os g"
      "file_at os1 base = Some (if False then [] else case file_at os base of None \<Rightarrow> [] | Some s \<Rightarrow> s)"
      "\<And>g. g \<noteq> base \<Longrightarrow> dir os1 g = dir os g"
      "\<And>g. g \<in> set (folders os1) \<Longrightarrow> g \<in> set (folders os) \<or> length g < length base"
    by (rule fh_open_ok [OF ok wf, of base False new_file_helper]) (rule that)
  then have o5: "file_at os1 base = Some (text_of (file_at os base))" by (simp only: if_False text_of_def)
  have fs: "rot_files os1 base = (rot_files os base)(0 := Some (text_of (rot_files os base 0)))"
  proof
    fix j
    have "rot_filename base j = base \<longleftrightarrow> j = 0" using rot_filename_inj [of base j 0] b0 by simp
    then show "rot_files os1 base j = ((rot_files os base)(0 := Some (text_of (rot_files os base 0)))) j"
      using o(4) o5 by (cases "j = 0") (simp_all add: rot_files_def)
  qed
  have free1: "rot_filename base j \<notin> set (folders os1)" for j
    using o(7) [of "rot_filename base j"] rot_filename_ge [of base j] free [of j] by linarith
  have d: "data os1 i = text_of (rot_files os base 0)"
    using o(2) o5 by (simp add: file_at_def rot_files_0)
  have w: "unat (word_of_nat (length (text_of (rot_files os base 0))) :: u64) = length (text_of (rot_files os base 0))"
    using len by (simp add: unsigned_of_nat take_bit_nat_eq_self)
  show ?thesis unfolding b0
    by (intro exI [of _ i] exI [of _ os1] conjI)
      (use o(1-3) fs free1 g nm d w in \<open>simp_all add: fh_size_def rot_inv_def rot_names_free_def text_of_def [of "Some _"]
        del: fun_upd_apply, simp_all add: text_of_def [of "Some _"]\<close>)
qed

definition fresh_os :: os_state where
  "fresh_os = \<lparr>dir = (\<lambda>f. None), data = (\<lambda>i. []), next_file = 0, folders = [], ticks = 0\<rparr>"

definition good_env :: os_env where
  "good_env = \<lparr>open_ok = (\<lambda>os f. True), mkdir_ok = (\<lambda>os f. True), rename_ok = (\<lambda>os f g. True),
     remove_ok = (\<lambda>os f. True), write_room = (\<lambda>os i. 2 ^ 64), os_now = (\<lambda>os. int (ticks os))\<rparr>"

lemma good_env_ok [simp]: "calls_succeed good_env"
  by (simp add: calls_succeed_def good_env_def)

lemma fresh_os_facts [simp]: "os_wf fresh_os" "folders fresh_os = []" "rot_files fresh_os base i = None"
  by (simp_all add: os_wf_def fresh_os_def rot_files_def file_at_def)

text \<open>A formatter that writes the payload and an end of line.\<close>

definition payload_formatter :: "unit pattern_formatter" where
  "payload_formatter = default_formatter\<lparr>formatters := [Stateless Payload_flag Null_padder no_padding], eol := ''|''\<rparr>"

definition text_msg :: "string \<Rightarrow> log_msg" where
  "text_msg s = make_log_msg 0 1 no_source [] Info s"

lemma payload_format:
  "pf_format sample_env payload_formatter (text_msg s) [] = Some (payload_formatter, text_msg s, s @ ''|'')"
  by (simp add: pf_format_def payload_formatter_def default_formatter_def default_pattern_formatter_def text_msg_def
    make_log_msg_def duration_cast_def v_format_def padded_def Let_def)

lemma payload_format_time:
  "\<exists>pf. pf_format sample_env payload_formatter ((text_msg s)\<lparr>time := tp\<rparr>) []
    = Some (pf, (text_msg s)\<lparr>time := tp\<rparr>, s @ ''|'')"
  by (cases "duration_cast ns_per_sec tp = 0")
    (simp_all add: pf_format_def payload_formatter_def default_formatter_def default_pattern_formatter_def text_msg_def
      make_log_msg_def v_format_def padded_def Let_def)

lemma rot_construct_ok:
  assumes "calls_succeed env" "os_wf os" "base \<noteq> []"
    and "\<And>i. rot_filename base i \<notin> set (folders os)"
    and "gapless n ((rot_files os base)(0 := Some (text_of (rot_files os base 0))))"
    and "length (text_of (rot_files os base 0)) < 2 ^ 64"
  shows "\<exists>(sink :: 'c rotating_file_sink) os1. rot_construct env base limit n False os = (Inr sink, os1) \<and> rot_inv sink os1
    \<and> base_filename sink = base \<and> max_files sink = n \<and> max_size sink = limit
    \<and> current_size sink = word_of_nat (length (text_of (rot_files os base 0)))
    \<and> rot_files os1 base = (rot_files os base)(0 := Some (text_of (rot_files os base 0)))"
proof -
  from rot_open_base [OF assms, of "default_formatter :: 'c pattern_formatter" limit] obtain i os1 where
    o: "fh_open env (rot_filename base 0) False new_file_helper os = (Inr (), \<lparr>fd = Some i, opened_name = base\<rparr>, os1)"
      "fh_size \<lparr>fd = Some i, opened_name = base\<rparr> os1 = Inr (length (text_of (rot_files os base 0)))"
      "rot_inv \<lparr>sink_level = Trace, sink_formatter = default_formatter :: 'c pattern_formatter, base_filename = base,
         max_size = limit, max_files = n, current_size = word_of_nat (length (text_of (rot_files os base 0))),
         rot_file = \<lparr>fd = Some i, opened_name = base\<rparr>\<rparr> os1"
      "rot_files os1 base = (rot_files os base)(0 := Some (text_of (rot_files os base 0)))" by blast
  then show ?thesis by (simp add: rot_construct_def Let_def)
qed

lemma rot_inv_formatter [simp]: "rot_inv (sink\<lparr>sink_formatter := pf\<rparr>) os = rot_inv sink os"
  by (simp add: rot_inv_def rot_names_free_def)

theorem rotating_keeps_history_witness:
  "\<exists>sink os sink' os' dropped. rot_construct good_env ''log.txt'' 6 2 False fresh_os = (Inr sink, os)
    \<and> rot_log_all good_env sample_env (map text_msg [''one'', ''two'', ''three''])
        (sink\<lparr>sink_formatter := payload_formatter\<rparr>) os = Some (Inr (), sink', os')
    \<and> dropped @ history 2 (rot_files os' ''log.txt'') = ''one|two|three|''"
proof -
  have "gapless 2 ((rot_files fresh_os ''log.txt'')(0 := Some (text_of (rot_files fresh_os ''log.txt'' 0))))"
    by (simp add: gapless_def)
  from rot_construct_ok [of good_env fresh_os "''log.txt''" 2 6, OF _ _ _ _ this] obtain sink :: "unit rotating_file_sink" and os1 where
    c: "rot_construct good_env ''log.txt'' 6 2 False fresh_os = (Inr sink, os1)" "rot_inv sink os1"
      "base_filename sink = ''log.txt''" "max_files sink = 2" "max_size sink = 6" "current_size sink = 0"
      "rot_files os1 ''log.txt'' = (rot_files fresh_os ''log.txt'')(0 := Some [])"
    by (auto simp: text_of_def)
  have inv: "rot_inv (sink\<lparr>sink_formatter := payload_formatter\<rparr>) os1" using c(2) by simp
  have f: "format_all sample_env payload_formatter (map text_msg [''one'', ''two'', ''three''])
      = Some (payload_formatter, [''one|'', ''two|'', ''three|''])"
    by (simp add: payload_format)
  have h: "history 2 (rot_files os1 ''log.txt'') = []"
    unfolding c(7) numeral_2_eq_2 by (simp add: text_of_def)
  from rotating_keeps_history [OF good_env_ok inv, of sample_env "map text_msg [''one'', ''two'', ''three'']"
      payload_formatter "[''one|'', ''two|'', ''three|'']"] c(1,3-6) f h show ?thesis by auto
qed

text \<open>
  A rotating sink constructed with rotate_on_open over a file that is not empty moves it away, but
  goes on counting its size: a first message that fits the empty file, but not the old one, rotates
  again and leaves an empty file in the history.
\<close>

theorem rotate_on_open_stale_size:
  assumes "calls_succeed env" "os_wf os" "base \<noteq> []"
    and "\<forall>i. rot_filename base i \<notin> set (folders os)" and "gapless n (rot_files os base)" "2 \<le> n"
    and "file_at os base = Some s" "s \<noteq> []" "length s \<le> unat limit" "unat limit < 2 ^ 63"
    and "pf_format fenv pf0 msg [] = Some (pf, msg1, t)" "length t \<le> unat limit" "length s + length t > unat limit"
  shows "\<exists>sink os1 sink' os2. rot_construct env base limit n True os = (Inr sink, os1)
      \<and> rot_files os1 base 0 = Some [] \<and> rot_files os1 base 1 = Some s
      \<and> rot_sink_it env fenv msg (sink\<lparr>sink_formatter := pf0\<rparr>) os1 = Some (Inr (), msg1, sink', os2)
      \<and> rot_files os2 base 0 = Some t \<and> rot_files os2 base 1 = Some [] \<and> rot_files os2 base 2 = Some s"
proof -
  have s: "rot_files os base 0 = Some s" using assms(7) by (simp add: rot_files_0)
  have u: "(rot_files os base)(0 := Some (text_of (rot_files os base 0))) = rot_files os base"
    using s by (auto simp: text_of_def)
  have len: "length (text_of (rot_files os base 0)) < 2 ^ 64" using assms(9,10) s by (simp add: text_of_def)
  define sink0 :: "'a rotating_file_sink" where "sink0 = \<lparr>sink_level = Trace, sink_formatter = default_formatter,
    base_filename = base, max_size = limit, max_files = n, current_size = word_of_nat (length s), rot_file = new_file_helper\<rparr>"
  from rot_open_base [OF assms(1-3) _ _ len, of n "default_formatter :: 'a pattern_formatter" limit] assms(4,5) u obtain i os0 where
    o: "fh_open env (rot_filename base 0) False new_file_helper os = (Inr (), \<lparr>fd = Some i, opened_name = base\<rparr>, os0)"
      "fh_size \<lparr>fd = Some i, opened_name = base\<rparr> os0 = Inr (length s)"
      "rot_inv (sink0\<lparr>rot_file := \<lparr>fd = Some i, opened_name = base\<rparr>\<rparr>) os0" "rot_files os0 base = rot_files os base"
    by (auto simp: sink0_def s text_of_def [of "Some _"])
  let ?sink = "sink0\<lparr>rot_file := \<lparr>fd = Some i, opened_name = base\<rparr>\<rparr>"
  have inv: "os_wf os0" "rot_names_free ?sink os0" "base_filename ?sink \<noteq> []" "opened_name (rot_file ?sink) = base_filename ?sink"
    using o(3) unfolding rot_inv_def by blast+
  obtain fh os1 where r0: "rotate env ?sink os0 = (Inr (), ?sink\<lparr>rot_file := fh\<rparr>, os1)" "os_wf os1"
    "rot_names_free ?sink os1" "opened_name fh = base_filename ?sink" "fd fh = dir os1 (base_filename ?sink)" "fd fh \<noteq> None"
    "rot_files os1 (base_filename ?sink)
      = (shift_files (max_files ?sink) (rot_files os0 (base_filename ?sink)))(0 := Some [])"
    by (rule rotate_ok [OF assms(1) inv]) (rule that)
  have f0: "base_filename ?sink = base" "max_files ?sink = n" by (simp_all add: sink0_def)
  note r = r0(1,2,3,4,7) [unfolded f0 o(4)]
  let ?s1 = "?sink\<lparr>rot_file := fh\<rparr>" and ?s2 = "?sink\<lparr>rot_file := fh, sink_formatter := pf0\<rparr>"
  have cs: "unat (word_of_nat (length s) :: u64) = length s" using assms(9,10) by (simp add: unsigned_of_nat take_bit_nat_eq_self)
  have "current_size ?sink > 0" using assms(8) cs by (simp add: sink0_def word_greater_zero_iff) (metis length_0_conv unat_0)
  then have c: "rot_construct env base limit n True os = (Inr ?s1, os1)"
    using o(1,2) r(1) by (simp add: rot_construct_def Let_def sink0_def)
  have at: "rot_files os1 base j = (if j = 0 then Some [] else rot_files os base (j - 1))" if "j \<le> n" for j
    unfolding r(5) by (rule shift_gapless [OF assms(5) that])
  have tl: "length t < 2 ^ 63" using assms(10,12) by linarith
  have "unat (current_size ?s2 + word_of_nat (length t)) = length s + length t"
    using unat_add_small [of "word_of_nat (length s)" "length t"] assms(9,10,12) cs by (simp add: sink0_def)
  then have big: "current_size ?s2 + word_of_nat (length t) > max_size ?s2"
    using assms(13) by (simp add: word_less_nat_alt sink0_def)
  have h: "rot_names_free ?s2 os1" "base_filename ?s2 \<noteq> []" "opened_name (rot_file ?s2) = base_filename ?s2"
    "gapless (max_files ?s2) (rot_files os1 (base_filename ?s2))"
    "pf_format fenv (sink_formatter ?s2) msg [] = Some (pf, msg1, t)"
    using r(3,4) assms(3,11) gapless_rotated [OF assms(5)] by (simp_all add: rot_names_free_def sink0_def r(5) del: fun_upd_apply)
  have f2: "base_filename ?s2 = base" "max_files ?s2 = n" by (simp_all add: sink0_def)
  from rot_step_rotates [OF assms(1) r(2) h tl big] obtain s3 os2 where
    st: "rot_sink_it env fenv msg ?s2 os1 = Some (Inr (), msg1, s3, os2)"
      "rot_files os2 base = ((shift_files n (rot_files os1 base))(0 := Some []))(0 := Some t)" unfolding f2 by blast
  have g1: "gapless n (rot_files os1 base)" unfolding r(5) by (rule gapless_rotated [OF assms(5)])
  have at2: "rot_files os2 base j = (if j = 0 then Some t else rot_files os1 base (j - 1))" if "j \<le> n" for j
    using shift_gapless [OF g1 that] unfolding st(2) by (cases "j = 0") simp_all
  show ?thesis
    by (intro exI [of _ ?s1] exI [of _ os1] exI [of _ s3] exI [of _ os2] conjI)
      (use c st(1) at [of 0] at [of 1] at2 [of 0] at2 [of 1] at2 [of 2] assms(6) s in simp_all)
qed

theorem rotate_on_open_stale_size_witness:
  "\<exists>(sink :: unit rotating_file_sink) os1 sink' os2.
    rot_construct good_env ''log'' 4 2 True
      (fresh_os\<lparr>dir := (\<lambda>f. if f = ''log'' then Some 0 else None), data := (\<lambda>i. ''abc''), next_file := 1\<rparr>) = (Inr sink, os1)
    \<and> rot_sink_it good_env sample_env (text_msg ''d'') (sink\<lparr>sink_formatter := payload_formatter\<rparr>) os1
        = Some (Inr (), text_msg ''d'', sink', os2)
    \<and> rot_files os2 ''log'' 0 = Some ''d|'' \<and> rot_files os2 ''log'' 1 = Some [] \<and> rot_files os2 ''log'' 2 = Some ''abc''"
proof -
  let ?os = "fresh_os\<lparr>dir := (\<lambda>f. if f = ''log'' then Some 0 else None), data := (\<lambda>i. ''abc''), next_file := 1\<rparr>"
  have wf: "os_wf ?os" by (auto simp: os_wf_def fresh_os_def)
  have fo: "\<forall>i. rot_filename ''log'' i \<notin> set (folders ?os)" by (simp add: fresh_os_def)
  have fs: "rot_files ?os ''log'' i = (if i = 0 then Some ''abc'' else None)" for i
    using rot_filename_inj [of "''log''" i 0] by (simp add: rot_files_def file_at_def rot_filename_def [of _ 0])
  have g: "gapless 2 (rot_files ?os ''log'')" unfolding gapless_def fs by simp
  have at: "file_at ?os ''log'' = Some ''abc''" by (simp add: file_at_def)
  from rotate_on_open_stale_size [OF good_env_ok wf _ fo g order_refl at _ _ _ payload_format, of 4 "''d''"]
  show ?thesis by fastforce
qed

section \<open>Daily files\<close>

lemma daily_queue_of_one:
  fixes name :: string
  defines "q1 \<equiv> \<lparr>max_items = 2, head_pos = 0, tail_pos = 1, overrun_count = 0, slots = [name, []]\<rparr>"
  shows "push_names [name] (circ_construct [] (ucast (1 :: 16 word))) = Some q1"
    and "circ_full q1" "circ_front q1 = Some name"
    and "\<exists>q2. circ_pop_front q1 = Some q2 \<and> (\<exists>q3. circ_push_back name q2 = Some q3)"
proof -
  have u: "unat ((ucast (1 :: 16 word) :: u64) + 1) = 2" by simp
  show "push_names [name] (circ_construct [] (ucast (1 :: 16 word))) = Some q1"
    unfolding circ_construct_def u q1_def by (simp add: circ_push_back_def Let_def numeral_2_eq_2 write_cell_def)
  show "circ_full q1" "circ_front q1 = Some name"
    by (simp_all add: q1_def circ_full_def circ_front_def)
  show "\<exists>q2. circ_pop_front q1 = Some q2 \<and> (\<exists>q3. circ_push_back name q2 = Some q3)"
    by (simp add: q1_def circ_pop_front_def circ_push_back_def write_cell_def)
qed

text \<open>
  A daily sink that keeps one file and rotates at an hour of the day it was constructed on reopens
  the file of that day, logs to it, and then removes that very file: the message is in no file.
\<close>

theorem daily_rotation_removes_current:
  fixes fenv :: "'c fmt_env"
  assumes "calls_succeed env" "os_wf os"
    and "\<forall>os. daily_filename base (now_tm fenv (os_now env os)) = name"
    and "0 \<le> h" "h \<le> 23" "0 \<le> m" "m \<le> 59"
    and "daily_filename base (now_tm fenv (time msg)) = name"
    and "\<forall>os. next_rotation_tp fenv mk h m (os_now env os) \<le> time msg"
    and "pf_format fenv pf0 msg [] = Some (pf, msg1, t)" "length t < 2 ^ 64"
  shows "\<exists>sink os1 sink' os2. daily_construct env fenv mk base h m tr 1 os = Some (Inr sink, os1)
    \<and> daily_sink_it env fenv mk msg (sink\<lparr>sink_formatter := pf0\<rparr>) os1 = Some (Inr (), msg1, sink', os2)
    \<and> file_at os2 name = None \<and> opened_name (daily_file sink') = name \<and> fd (daily_file sink') \<noteq> None"
proof -
  have "os_wf (tick os)" using assms(2) by simp
  then obtain i os1 where
    o: "fh_open env name tr new_file_helper (tick os) = (Inr (), \<lparr>fd = Some i, opened_name = name\<rparr>, os1)"
      "dir os1 name = Some i" "os_wf os1"
    by (rule fh_open_ok [OF assms(1), of "tick os" name tr new_file_helper])
  let ?q = "\<lparr>max_items = 2, head_pos = 0, tail_pos = 1, overrun_count = 0, slots = [name, []]\<rparr>"
  define sink where "sink = \<lparr>sink_level = Trace, sink_formatter = default_formatter :: 'c pattern_formatter, daily_base = base, rotation_h = h,
    rotation_m = m, rotation_tp = next_rotation_tp fenv mk h m (os_now env os1), daily_file = \<lparr>fd = Some i, opened_name = name\<rparr>,
    daily_truncate = tr, daily_max_files = 1, filenames_q = ?q\<rparr>"
  have n1: "daily_names fenv (tick os1) base (unat (1 :: 16 word)) (os_now env (tick os1)) = [name]"
    using assms(3) o(2) by (simp add: path_exists_def Let_def)
  have c: "daily_construct env fenv mk base h m tr 1 os = Some (Inr sink, tick (tick os1))"
    using assms(3-7) o(1) n1 daily_queue_of_one(1) [of name]
    by (simp add: daily_construct_def init_filenames_q_def Let_def sink_def)
  let ?s = "sink\<lparr>sink_formatter := pf0\<rparr>"
  have wf: "os_wf (tick (tick os1))" using o(3) by simp
  obtain j os2 where
    p: "fh_open env name tr \<lparr>fd = Some i, opened_name = name\<rparr> (tick (tick os1)) = (Inr (), \<lparr>fd = Some j, opened_name = name\<rparr>, os2)"
      "dir os2 name = Some j" "os_wf os2"
    by (rule fh_open_ok [OF assms(1) wf, of name tr "\<lparr>fd = Some i, opened_name = name\<rparr>"])
  define s1 where "s1 = ?s\<lparr>daily_file := \<lparr>fd = Some j, opened_name = name\<rparr>,
    rotation_tp := next_rotation_tp fenv mk h m (os_now env os2)\<rparr>"
  have rot: "daily_rotate env fenv mk (time msg) ?s (tick (tick os1)) = (Inr (), s1, tick os2)"
    using p(1) assms(8) by (simp add: daily_rotate_def sink_def s1_def)
  have wf2: "os_wf (tick os2)" "dir (tick os2) name = Some j" using p by simp_all
  define s2 where "s2 = s1\<lparr>sink_formatter := pf\<rparr>"
  have f2: "daily_file s2 = \<lparr>fd = Some j, opened_name = name\<rparr>" "filenames_q s2 = ?q" "daily_max_files s2 = 1"
    "sink_formatter s1 = pf0" by (simp_all add: s1_def s2_def sink_def)
  have fd2: "fd (daily_file s2) = Some j" by (simp add: f2)
  obtain os3 where
    w: "fh_write env t (daily_file s2) (tick os2) = Some (Inr (), os3)" "dir os3 = dir (tick os2)" "os_wf os3"
    by (rule fh_write_ok [OF assms(1) wf2(1) fd2 wf2(2) assms(11)])
  have ex: "dir os3 name \<noteq> None" using w(2) wf2(2) by simp
  note rm = os_remove_ok [OF assms(1) w(3) ex]
  have rie: "remove_if_exists env name os3 = (True, snd (os_remove env name os3))"
    using ex rm(1) by (simp add: remove_if_exists_def path_exists_def prod_eq_iff)
  from daily_queue_of_one(4) [of name] obtain q2 q3 where
    q: "circ_pop_front ?q = Some q2" "circ_push_back name q2 = Some q3" by blast
  have w1: "fh_write env t (daily_file s1) (tick os2) = Some (Inr (), os3)" and f1: "daily_max_files s1 = 1"
    using w(1) f2(3) by (simp_all add: s2_def)
  have s2: "s1\<lparr>sink_formatter := pf\<rparr> = s2" by (simp only: s2_def)
  have d: "delete_old env s2 os3 = Some (Inr (), s2\<lparr>filenames_q := q3\<rparr>, snd (os_remove env name os3))"
    unfolding delete_old_def f2 fh_filename_def
    using daily_queue_of_one(2,3) [of name] q rie by simp
  have "rotation_tp ?s \<le> time msg" using assms(9) by (simp add: sink_def)
  then have "daily_sink_it env fenv mk msg ?s (tick (tick os1))
      = Some (Inr (), msg1, s2\<lparr>filenames_q := q3\<rparr>, snd (os_remove env name os3))"
    using assms(10) w1 f1 by (simp add: daily_sink_it_def rot f2(3,4) d s2 Let_def)
  moreover have "file_at (snd (os_remove env name os3)) name = None" by (simp add: rm(3))
  ultimately show ?thesis using c f2(1)
    by (intro exI [of _ sink] exI [of _ "tick (tick os1)"] exI [of _ "s2\<lparr>filenames_q := q3\<rparr>"]
      exI [of _ "snd (os_remove env name os3)"]) simp
qed

text \<open>A clock that stands at ten o'clock of one day; the rotation is at eleven.\<close>

theorem daily_rotation_removes_current_witness:
  "\<exists>sink os1 sink' os2.
      daily_construct (good_env\<lparr>os_now := (\<lambda>os. 36000 * ns_per_sec)\<rparr>) sample_env (\<lambda>t. tm_hour t * 3600) ''log.txt'' 11 0 False 1 fresh_os
        = Some (Inr sink, os1)
    \<and> daily_sink_it (good_env\<lparr>os_now := (\<lambda>os. 36000 * ns_per_sec)\<rparr>) sample_env (\<lambda>t. tm_hour t * 3600)
        ((text_msg ''lost'')\<lparr>time := 40000 * ns_per_sec\<rparr>) (sink\<lparr>sink_formatter := payload_formatter\<rparr>) os1
        = Some (Inr (), (text_msg ''lost'')\<lparr>time := 40000 * ns_per_sec\<rparr>, sink', os2)
    \<and> opened_name (daily_file sink') = daily_filename ''log.txt'' sample_tm
    \<and> file_at os2 (daily_filename ''log.txt'' sample_tm) = None"
proof -
  let ?env = "good_env\<lparr>os_now := (\<lambda>os. 36000 * ns_per_sec)\<rparr>" and ?mk = "\<lambda>t. tm_hour t * 3600 :: int"
  let ?m = "(text_msg ''lost'')\<lparr>time := 40000 * ns_per_sec\<rparr>"
  have ok: "calls_succeed ?env" by (simp add: calls_succeed_def good_env_def)
  have now: "now_tm sample_env t = sample_tm" for t by (simp add: now_tm_def sample_env_def)
  have tp: "\<forall>os. next_rotation_tp sample_env ?mk 11 0 (os_now ?env os) \<le> time ?m"
    by (simp add: next_rotation_tp_def now ns_per_sec_def)
  obtain pf where f: "pf_format sample_env payload_formatter ?m [] = Some (pf, ?m, ''lost|'')"
    using payload_format_time [where s = "''lost''" and tp = "40000 * ns_per_sec"] by auto
  from daily_rotation_removes_current [OF ok fresh_os_facts(1), of "''log.txt''" sample_env
      "daily_filename ''log.txt'' sample_tm" 11 0 ?m ?mk, OF _ _ _ _ _ _ tp f, of False]
  show ?thesis by (simp add: now) blast
qed

end
