(* ===== verification/Console_Sinks.thy ===== *)
theory Console_Sinks imports File_Sinks "HOL-Library.Sublist" begin

text \<open>
  The sinks that write to a terminal: \<open>stdout_sink_base\<close> (spdlog/sinks/stdout_sinks.h, stdout_sinks-inl.h) and
  \<open>ansicolor_sink\<close> (sinks/ansicolor_sink.h, ansicolor_sink-inl.h), which puts escape codes around the range of
  the line that the formatter marks, with \<open>is_color_terminal\<close> of details/os-inl.h.

  A stream is the text written to it and how much of it was flushed.  \<open>fwrite\<close> takes every byte: the code
  ignores its result.  \<open>None\<close> is undefined behaviour: writing from outside of the formatted line.
\<close>

type_synonym out_stream = "string \<times> nat"

definition stream_flush :: "out_stream \<Rightarrow> out_stream" where
  "stream_flush str = (fst str, length (fst str))"

record 'c stdout_sink = "'c base_sink" +
  target_file :: nat

record 'c ansicolor_sink = "'c stdout_sink" +
  should_do_colors :: bool
  colors :: "string list"

section \<open>stdout_sink\<close>

definition new_stdout_sink :: "nat \<Rightarrow> 'c stdout_sink" where
  "new_stdout_sink file = \<lparr>sink_level = Trace, sink_formatter = default_formatter, target_file = file\<rparr>"

definition stdout_log ::
  "'c fmt_env \<Rightarrow> log_msg \<Rightarrow> 'c stdout_sink \<Rightarrow> out_stream \<Rightarrow> (log_msg \<times> 'c stdout_sink \<times> out_stream) option" where
  "stdout_log fenv msg sink str =
     map_option (\<lambda>(pf, msg1, formatted).
         (msg1, sink\<lparr>sink_formatter := pf\<rparr>, stream_flush (fst str @ formatted, snd str)))
       (pf_format fenv (sink_formatter sink) msg [])"

section \<open>ansicolor_sink\<close>

definition esc :: "string \<Rightarrow> string" where
  "esc code = CHR 0x1B # ''['' @ code @ ''m''"

definition ansi_reset :: string where "ansi_reset = esc ''''"
definition ansi_white :: string where "ansi_white = esc ''37''"
definition ansi_cyan :: string where "ansi_cyan = esc ''36''"
definition ansi_green :: string where "ansi_green = esc ''32''"
definition ansi_yellow_bold :: string where "ansi_yellow_bold = esc ''33'' @ esc ''1''"
definition ansi_red_bold :: string where "ansi_red_bold = esc ''31'' @ esc ''1''"
definition ansi_bold_on_red :: string where "ansi_bold_on_red = esc ''1'' @ esc ''41''"

text \<open>\<open>colors_\<close> has \<open>n_levels\<close> entries, in the order of the levels.\<close>

definition default_colors :: "string list" where
  "default_colors = [ansi_white, ansi_cyan, ansi_green, ansi_yellow_bold, ansi_red_bold, ansi_bold_on_red, ansi_reset]"

datatype color_mode = Always | Automatic | Never

definition color_terms :: "string list" where
  "color_terms = [''ansi'', ''color'', ''console'', ''cygwin'', ''gnome'', ''konsole'', ''kterm'', ''linux'', ''msys'',
     ''putty'', ''rxvt'', ''screen'', ''vt100'', ''xterm'']"

text \<open>
  \<open>getenv("TERM")\<close> is read at every call, but what was made of it the first time it was set is kept in a
  static variable, here the first argument and result.
\<close>

definition is_color_terminal :: "bool option \<Rightarrow> string option \<Rightarrow> bool option \<times> bool" where
  "is_color_terminal result env_p =
     (case env_p of
        None \<Rightarrow> (result, False)
      | Some term \<Rightarrow>
          (let r = (case result of Some r \<Rightarrow> r | None \<Rightarrow> list_ex (\<lambda>t. sublist t term) color_terms) in (Some r, r)))"

record console_env =
  is_a_tty :: "nat \<Rightarrow> bool"
  term_variable :: "string option"

definition set_color_mode :: "console_env \<Rightarrow> color_mode \<Rightarrow> bool option \<Rightarrow> 'c ansicolor_sink \<Rightarrow> 'c ansicolor_sink \<times> bool option" where
  "set_color_mode cenv mode result sink =
     (case mode of
        Always \<Rightarrow> (sink\<lparr>should_do_colors := True\<rparr>, result)
      | Automatic \<Rightarrow>
          if is_a_tty cenv (target_file sink)
          then let (result', r) = is_color_terminal result (term_variable cenv) in (sink\<lparr>should_do_colors := r\<rparr>, result')
          else (sink\<lparr>should_do_colors := False\<rparr>, result)
      | Never \<Rightarrow> (sink\<lparr>should_do_colors := False\<rparr>, result))"

definition new_ansicolor_sink :: "console_env \<Rightarrow> nat \<Rightarrow> color_mode \<Rightarrow> bool option \<Rightarrow> 'c ansicolor_sink \<times> bool option" where
  "new_ansicolor_sink cenv file mode result =
     (let (sink, result') = set_color_mode cenv mode result
            \<lparr>sink_level = Trace, sink_formatter = default_formatter, target_file = file, should_do_colors = False,
             colors = replicate 7 []\<rparr> in
      (sink\<lparr>colors := default_colors\<rparr>, result'))"

definition set_color :: "level_enum \<Rightarrow> string \<Rightarrow> 'c ansicolor_sink \<Rightarrow> 'c ansicolor_sink option" where
  "set_color color_level color sink =
     map_option (\<lambda>cs. sink\<lparr>colors := cs\<rparr>) (write_cell (colors sink) (level_num color_level) color)"

definition print_range :: "string \<Rightarrow> nat \<Rightarrow> nat \<Rightarrow> string \<Rightarrow> string option" where
  "print_range formatted start finish out =
     (if start \<le> finish \<and> finish \<le> length formatted then Some (out @ take (finish - start) (drop start formatted)) else None)"

definition print_line :: "log_msg \<Rightarrow> string \<Rightarrow> 'c ansicolor_sink \<Rightarrow> string \<Rightarrow> string option" where
  "print_line msg formatted sink out =
     (if should_do_colors sink \<and> color_range_end msg > color_range_start msg
      then
        Option.bind (print_range formatted 0 (color_range_start msg) out) (\<lambda>out1.
          Option.bind (read_cell (colors sink) (level_num (level msg))) (\<lambda>code.
            Option.bind (print_range formatted (color_range_start msg) (color_range_end msg) (out1 @ code)) (\<lambda>out2.
              print_range formatted (color_range_end msg) (length formatted) (out2 @ ansi_reset))))
      else print_range formatted 0 (length formatted) out)"

definition ansi_log ::
  "'c fmt_env \<Rightarrow> log_msg \<Rightarrow> 'c ansicolor_sink \<Rightarrow> out_stream \<Rightarrow> (log_msg \<times> 'c ansicolor_sink \<times> out_stream) option" where
  "ansi_log fenv msg sink str =
     Option.bind (pf_format fenv (sink_formatter sink) (msg\<lparr>color_range_start := 0, color_range_end := 0\<rparr>) [])
       (\<lambda>(pf, msg1, formatted).
         map_option (\<lambda>out. (msg1, sink\<lparr>sink_formatter := pf\<rparr>, stream_flush (out, snd str)))
           (print_line msg1 formatted sink (fst str)))"

text \<open>\<open>set_pattern\<close> of both classes replaces the formatter only.\<close>

definition console_pattern :: "'c fmt_env \<Rightarrow> string \<Rightarrow> 'c pattern_formatter" where
  "console_pattern fenv pat = make_pattern_formatter fenv pat Local_time [CHR 0x0A] []"

section \<open>What is printed\<close>

definition colored :: "string \<Rightarrow> nat \<Rightarrow> nat \<Rightarrow> string \<Rightarrow> string" where
  "colored code a b s = take a s @ code @ take (b - a) (drop a s) @ ansi_reset @ drop b s"

lemma print_line_colored:
  assumes "should_do_colors sink" "color_range_start msg < color_range_end msg" "color_range_end msg \<le> length formatted"
    "read_cell (colors sink) (level_num (level msg)) = Some code"
  shows "print_line msg formatted sink out = Some (out @ colored code (color_range_start msg) (color_range_end msg) formatted)"
  using assms by (simp add: print_line_def print_range_def colored_def)

lemma print_line_plain:
  "\<not> (should_do_colors sink \<and> color_range_start msg < color_range_end msg) \<Longrightarrow>
    print_line msg formatted sink out = Some (out @ formatted)"
  by (auto simp: print_line_def print_range_def)

lemma print_line_undefined:
  assumes "should_do_colors sink" "color_range_start msg < color_range_end msg" "length formatted < color_range_end msg"
  shows "print_line msg formatted sink out = None"
  using assms by (simp add: print_line_def print_range_def bind_eq_None_conv)

lemma read_default_colors: "l \<noteq> N_levels \<Longrightarrow> \<exists>code. read_cell default_colors (level_num l) = Some code"
  by (cases l) (simp_all add: read_cell_def default_colors_def)

text \<open>The line of the default formatter in three parts.\<close>

definition line_tail :: "log_msg \<Rightarrow> string" where
  "line_tail msg =
     ''] '' @ (if source_empty (source msg) then []
      else ''['' @ basename (the (filename (source msg))) @ '':'' @ signed_dec (line (source msg)) @ ''] '') @ payload msg"

lemma full_line_parts: "full_line msg t = line_head msg t @ the (level_name (level msg)) @ line_tail msg"
  by (simp add: full_line_def line_head_def line_tail_def)

definition colored_line :: "string list \<Rightarrow> string \<Rightarrow> log_msg \<Rightarrow> tm \<Rightarrow> string" where
  "colored_line cs eol_str msg t =
     line_head msg t @ (cs ! level_num (level msg)) @ the (level_name (level msg)) @ ansi_reset @ line_tail msg @ eol_str"

fun ansi_log_all :: "'c fmt_env \<Rightarrow> log_msg list \<Rightarrow> 'c ansicolor_sink \<Rightarrow> out_stream \<Rightarrow> ('c ansicolor_sink \<times> out_stream) option" where
  "ansi_log_all fenv [] sink str = Some (sink, str)"
| "ansi_log_all fenv (m # ms) sink str =
     Option.bind (ansi_log fenv m sink str) (\<lambda>(m1, sink1, str1). ansi_log_all fenv ms sink1 str1)"

lemma level_num_formattable: "formattable m \<Longrightarrow> level_num (level m) < 7"
  by (cases "level m") (simp_all add: formattable_def)

lemma level_name_not_Nil: "formattable m \<Longrightarrow> the (level_name (level m)) \<noteq> []"
  by (cases "level m") (simp_all add: formattable_def level_name_def read_cell_def level_string_views_def)

lemma ansi_log_default:
  assumes ok: "caches_ok fenv tt eol_str (sink_formatter sink)" and m: "formattable m" "duration_cast ns_per_sec (time m) \<noteq> 0"
    and cs: "should_do_colors sink" "length (colors sink) = 7"
  shows "\<exists>m1 pf1. ansi_log fenv m sink str = Some (m1, sink\<lparr>sink_formatter := pf1\<rparr>,
      stream_flush (fst str @ colored_line (colors sink) eol_str m (get_time fenv tt (time m)), snd str))
    \<and> caches_ok fenv tt eol_str pf1"
proof -
  define m0 where "m0 = m\<lparr>color_range_start := 0, color_range_end := 0\<rparr>"
  define t where "t = get_time fenv tt (time m)"
  define lvl where "lvl = the (level_name (level m))"
  have m0: "formattable m0" "duration_cast ns_per_sec (time m0) \<noteq> 0" using m by (simp_all add: m0_def formattable_def)
  have parts: "line_head m0 t = line_head m t" "line_tail m0 = line_tail m" "level m0 = level m" "time m0 = time m"
    by (simp_all add: m0_def line_head_def line_tail_def)
  from pf_format_caches [OF ok m0, of "[]"] obtain pf1 where
    pf1: "pf_format fenv (sink_formatter sink) m0 [] = Some (pf1, with_level_range m0 t 0, full_line m0 t @ eol_str)"
      "caches_ok fenv tt eol_str pf1" by (auto simp: parts t_def)
  define n where "n = length (line_head m t)"
  have rng: "color_range_start (with_level_range m0 t 0) = n" "color_range_end (with_level_range m0 t 0) = n + length lvl"
    "level (with_level_range m0 t 0) = level m"
    by (simp_all add: with_level_range_def parts n_def lvl_def)
  have line: "full_line m0 t @ eol_str = line_head m t @ lvl @ line_tail m @ eol_str"
    by (simp add: full_line_parts parts lvl_def)
  have "0 < length lvl" using level_name_not_Nil [OF m(1)] by (simp add: lvl_def)
  then have "print_line (with_level_range m0 t 0) (full_line m0 t @ eol_str) sink (fst str)
      = Some (fst str @ colored (colors sink ! level_num (level m)) n (n + length lvl) (full_line m0 t @ eol_str))"
    using print_line_colored [of sink "with_level_range m0 t 0" "full_line m0 t @ eol_str" "colors sink ! level_num (level m)"]
      cs level_num_formattable [OF m(1)] unfolding rng by (simp add: line n_def read_cell_def)
  moreover have "colored (colors sink ! level_num (level m)) n (n + length lvl) (full_line m0 t @ eol_str)
      = colored_line (colors sink) eol_str m t"
    unfolding line colored_def colored_line_def lvl_def [symmetric] by (simp add: n_def)
  ultimately show ?thesis using pf1 unfolding ansi_log_def m0_def [symmetric] t_def [symmetric] by auto
qed

section \<open>Properties\<close>

text \<open>
  A colour sink with the default formatter writes every message of any sequence as that message's own
  line, with the colour code of its level before exactly the level's name and the reset code after
  it, and flushes every line.
\<close>

theorem ansicolor_colors_level:
  assumes "caches_ok fenv tt eol_str (sink_formatter sink)" "should_do_colors sink" "length (colors sink) = 7"
    "\<forall>m \<in> set ms. formattable m \<and> duration_cast ns_per_sec (time m) \<noteq> 0" "snd str = length (fst str)"
  shows "\<exists>pf. ansi_log_all fenv ms sink str = Some (sink\<lparr>sink_formatter := pf\<rparr>,
      stream_flush (fst str @ concat (map (\<lambda>m. colored_line (colors sink) eol_str m (get_time fenv tt (time m))) ms), snd str))"
  using assms
proof (induction ms arbitrary: sink str)
  case Nil
  then show ?case by (intro exI [of _ "sink_formatter sink"]) (cases str, simp add: stream_flush_def)
next
  case (Cons m ms)
  from Cons.prems(4) have m: "formattable m" "duration_cast ns_per_sec (time m) \<noteq> 0" by simp_all
  from ansi_log_default [OF Cons.prems(1) m Cons.prems(2,3), of str] obtain m1 pf1 where
    a: "ansi_log fenv m sink str = Some (m1, sink\<lparr>sink_formatter := pf1\<rparr>,
        stream_flush (fst str @ colored_line (colors sink) eol_str m (get_time fenv tt (time m)), snd str))"
      "caches_ok fenv tt eol_str pf1" by blast
  from Cons.IH [of "sink\<lparr>sink_formatter := pf1\<rparr>"
      "stream_flush (fst str @ colored_line (colors sink) eol_str m (get_time fenv tt (time m)), snd str)"] Cons.prems a
  show ?case by (auto simp: stream_flush_def)
qed

lemma default_formatter_ok: "caches_ok fenv Local_time [CHR 0x0A] (default_formatter :: 'c pattern_formatter)"
  by (simp add: caches_ok_def default_formatter_def default_pattern_formatter_def)

definition color_console :: console_env where
  "color_console = \<lparr>is_a_tty = (\<lambda>_. True), term_variable = Some ''xterm-256color''\<rparr>"

lemma color_console_sink: "\<exists>s. new_ansicolor_sink color_console 1 Automatic None = (s, Some True)
    \<and> should_do_colors s \<and> colors s = default_colors \<and> sink_formatter s = (default_formatter :: 'c pattern_formatter)"
proof -
  have "sublist ''xterm'' ''xterm-256color''" by code_simp
  then have "is_color_terminal None (Some ''xterm-256color'') = (Some True, True)"
    by (simp add: is_color_terminal_def color_terms_def Let_def)
  then show ?thesis
    by (simp add: new_ansicolor_sink_def set_color_mode_def color_console_def)
qed

theorem ansicolor_colors_level_witness:
  "\<exists>s s1. new_ansicolor_sink color_console 1 Automatic None = (s, Some True)
    \<and> ansi_log_all sample_env [sample_msg] s ([], 0)
      = Some (s1, stream_flush (line_head sample_msg sample_tm @ esc ''33'' @ esc ''1'' @ ''warning'' @ esc []
          @ ''] hello'' @ [CHR 0x0A], 0))"
proof -
  from color_console_sink obtain s :: "unit ansicolor_sink" where
    s: "new_ansicolor_sink color_console 1 Automatic None = (s, Some True)"
      "should_do_colors s" "colors s = default_colors" "sink_formatter s = default_formatter" by blast
  have ok: "caches_ok sample_env Local_time [CHR 0x0A] (sink_formatter s)" unfolding s(4) by (rule default_formatter_ok)
  have l: "length (colors s) = 7" by (simp add: s(3) default_colors_def)
  have m: "\<forall>m \<in> set [sample_msg]. formattable m \<and> duration_cast ns_per_sec (time m) \<noteq> 0"
    by (simp add: formattable_def sample_msg_def make_log_msg_def source_empty_def no_source_def
      duration_cast_def ns_per_sec_def)
  from ansicolor_colors_level [OF ok s(2) l m, of "([], 0)"]
  obtain pf where "ansi_log_all sample_env [sample_msg] s ([], 0) = Some (s\<lparr>sink_formatter := pf\<rparr>,
      stream_flush (colored_line default_colors [CHR 0x0A] sample_msg sample_tm, 0))"
    by (auto simp: s(3) get_time_def sample_env_def)
  moreover have "colored_line default_colors [CHR 0x0A] sample_msg sample_tm
      = line_head sample_msg sample_tm @ esc ''33'' @ esc ''1'' @ ''warning'' @ esc [] @ ''] hello'' @ [CHR 0x0A]"
    by (simp add: colored_line_def sample_msg_def make_log_msg_def default_colors_def level_name_def read_cell_def
      level_string_views_def line_tail_def source_empty_def no_source_def ansi_reset_def ansi_yellow_bold_def)
  ultimately show ?thesis using s(1) by auto
qed

text \<open>
  A colour sink writes past the end of the formatted line: with the pattern %^%v%$%1!D%1!D every
  non-empty message makes it read outside of the buffer, because the two truncated dates delete two
  characters of the coloured text, whose recorded end is then beyond the end of the line.
\<close>

theorem color_range_overread:
  assumes "sink_formatter sink = console_pattern fenv ''%^%v%$%1!D%1!D''" "should_do_colors sink" "payload m \<noteq> []"
    "duration_cast ns_per_sec (time m) \<noteq> 0" "calendar_date (localtime fenv (duration_cast ns_per_sec (time m)))"
  shows "ansi_log fenv m sink str = None"
proof -
  define t where "t = localtime fenv (duration_cast ns_per_sec (time m))"
  define v where "v = payload m"
  define m0 where "m0 = m\<lparr>color_range_start := 0, color_range_end := 0\<rparr>"
  define m1 where "m1 = m0\<lparr>color_range_start := 0, color_range_end := length v\<rparr>"
  let ?p = "make_padding 1 Pad_left True"
  let ?D = "Stateless Flag_D Scoped_padder ?p :: 'a flag_formatter"
  define items where "items = [Plain_flag (CHR ''^''), Plain_flag (CHR ''v''), Plain_flag (CHR ''$''),
      Padded_flag Pad_left 1 True (CHR ''D''), Padded_flag Pad_left 1 True (CHR ''D'')]"
  have "dec (Suc 0) = ''1''" by (simp add: dec_small) code_simp
  then have print: "concat (map print_item items) = ''%^%v%$%1!D%1!D''" by (simp add: items_def)
  have "items_ok items" by (simp add: items_def is_digit_def)
  from compile_items [OF this, of None fenv "[]" "[]"] have fs: "compile_pattern fenv [] ''%^%v%$%1!D%1!D''
      = [Color_start, Stateless Payload_flag Null_padder no_padding, Color_stop, ?D, ?D]"
    unfolding print compile_pattern_def
    by (simp add: items_def push_chars_def handle_flag_def builtin_flags_def del: compile_loop.simps)
  have cal: "calendar_date t" using assms(5) by (simp add: t_def)
  have D: "D_format Scoped_padder ?p t d = (if d = [] then None else Some (butlast d))" for d
    using D_format_padded [OF cal, of ?p d] by (cases "d = []") (simp_all add: make_padding_def butlast_conv_take Suc_le_eq)
  have ne: "v \<noteq> []" using assms(3) by (simp add: v_def)
  have pf: "pf_format fenv (sink_formatter sink) m0 [] = (if butlast v = [] then None
      else Some ((sink_formatter sink)\<lparr>cached_tm := t, last_log_secs := duration_cast ns_per_sec (time m)\<rparr>,
        m1, butlast (butlast v) @ [CHR 0x0A]))"
    using assms(4) ne unfolding assms(1) console_pattern_def make_pattern_formatter_def fs
    by (simp add: pf_format_def m0_def m1_def color_start_format_def color_stop_format_def v_format_def padded_def
        D [unfolded t_def One_nat_def] get_time_def Let_def t_def v_def)
  show ?thesis
  proof (cases "butlast v = []")
    case True
    then show ?thesis unfolding ansi_log_def m0_def [symmetric] pf by simp
  next
    case False
    then have "length (butlast (butlast v) @ [CHR 0x0A]) < length v" using ne by (cases v rule: rev_cases) auto
    then have "print_line m1 (butlast (butlast v) @ [CHR 0x0A]) sink out = None" for out
      using ne by (intro print_line_undefined assms(2)) (simp_all add: m1_def)
    with False show ?thesis unfolding ansi_log_def m0_def [symmetric] pf by simp
  qed
qed

theorem color_range_overread_witness:
  "ansi_log sample_env sample_msg (fst (new_ansicolor_sink color_console 1 Always None)
     \<lparr>sink_formatter := console_pattern sample_env ''%^%v%$%1!D%1!D''\<rparr>) ([], 0) = None"
  by (rule color_range_overread)
    (simp_all add: new_ansicolor_sink_def set_color_mode_def sample_msg_def make_log_msg_def duration_cast_def
      ns_per_sec_def calendar_date_def sample_env_def sample_tm_def)

end
