(* ===== verification/Backtracer.thy ===== *)
theory Backtracer imports Circular_Q Log_Common begin

text \<open>
  \<open>backtracer\<close> (spdlog/details/backtracer.h, backtracer-inl.h): the last messages, kept in a \<open>circular_q\<close>
  and replayed on demand.  Every operation holds the object's mutex, so it is one step of the state.
\<close>

record backtracer =
  is_enabled :: bool
  messages :: "log_msg_buffer circular_q"

definition no_msg :: log_msg where
  "no_msg = \<lparr>logger_name = [], level = Off_level, time = 0, thread_id = 0, color_range_start = 0,
     color_range_end = 0, source = no_source, payload = []\<rparr>"

definition empty_buffer :: log_msg_buffer where
  "empty_buffer = \<lparr>buffer = [], name_view = (0, 0), payload_view = (0, 0), base_part = no_msg\<rparr>"

definition new_backtracer :: backtracer where
  "new_backtracer = \<lparr>is_enabled = False, messages = circ_disabled\<rparr>"

definition bt_enabled :: "backtracer \<Rightarrow> bool" where
  "bt_enabled bt = is_enabled bt"

definition bt_copy :: "backtracer \<Rightarrow> backtracer" where
  "bt_copy other = new_backtracer\<lparr>is_enabled := bt_enabled other,
     messages := (messages other)\<lparr>slots := map copy_buffer (slots (messages other))\<rparr>\<rparr>"

definition bt_move :: "backtracer \<Rightarrow> backtracer \<times> backtracer" where
  "bt_move other =
     (let (mine, rest) = circ_move (messages other) in
      (new_backtracer\<lparr>is_enabled := bt_enabled other, messages := mine\<rparr>, other\<lparr>messages := rest\<rparr>))"

definition bt_assign :: "backtracer \<Rightarrow> backtracer \<Rightarrow> backtracer" where
  "bt_assign this other = this\<lparr>is_enabled := bt_enabled other, messages := fst (circ_move (messages other))\<rparr>"

definition bt_enable :: "u64 \<Rightarrow> backtracer \<Rightarrow> backtracer" where
  "bt_enable n bt = bt\<lparr>is_enabled := True, messages := circ_construct empty_buffer n\<rparr>"

definition bt_disable :: "backtracer \<Rightarrow> backtracer" where
  "bt_disable bt = bt\<lparr>is_enabled := False\<rparr>"

definition bt_push_back :: "log_msg \<Rightarrow> backtracer \<Rightarrow> backtracer option" where
  "bt_push_back msg bt =
     map_option (\<lambda>q. bt\<lparr>messages := q\<rparr>) (circ_push_back (buffer_msg msg) (messages bt))"

text \<open>The loop of \<open>foreach_pop\<close>; \<open>fn\<close> acts on a state of the caller.\<close>

partial_function (option) pop_loop ::
  "(log_msg \<Rightarrow> 's \<Rightarrow> 's) \<Rightarrow> log_msg_buffer circular_q \<Rightarrow> 's \<Rightarrow> (log_msg_buffer circular_q \<times> 's) option" where
  "pop_loop fn q s =
     (if circ_empty q then Some (q, s)
      else Option.bind (circ_front q) (\<lambda>front_msg.
        Option.bind (circ_pop_front q) (\<lambda>q'. pop_loop fn q' (fn (buffered_msg front_msg) s))))"

definition bt_foreach_pop :: "(log_msg \<Rightarrow> 's \<Rightarrow> 's) \<Rightarrow> backtracer \<Rightarrow> 's \<Rightarrow> (backtracer \<times> 's) option" where
  "bt_foreach_pop fn bt s = map_option (\<lambda>(q, s'). (bt\<lparr>messages := q\<rparr>, s')) (pop_loop fn (messages bt) s)"

lemma pop_loop_ok:
  "circ_ok q \<Longrightarrow> \<exists>q'. pop_loop fn q s = Some (q', fold (\<lambda>m. fn (buffered_msg m)) (circ_contents q) s)
    \<and> circ_ok q' \<and> circ_contents q' = [] \<and> max_items q' = max_items q"
proof (induction "circ_contents q" arbitrary: q s)
  case Nil
  then have "circ_empty q" using circ_empty_spec by metis
  then show ?case using Nil by (subst pop_loop.simps) simp
next
  case (Cons m ms)
  then have ne: "circ_contents q \<noteq> []" by auto
  have tl: "tl (circ_contents q) = ms" using Cons.hyps(2) by (metis list.sel(3))
  from circ_pop_spec [OF Cons.prems ne] obtain q' where
    q': "circ_pop_front q = Some q'" "circ_ok q'" "max_items q' = max_items q" "circ_contents q' = ms"
    using tl by auto
  have front: "circ_front q = Some m" using circ_front_spec [OF Cons.prems ne] Cons.hyps(2) by (metis list.sel(1))
  have "\<not> circ_empty q" using circ_empty_spec [OF Cons.prems] ne by simp
  then have e: "pop_loop fn q s = pop_loop fn q' (fn (buffered_msg m) s)"
    using q'(1) front by (subst pop_loop.simps) simp
  from Cons.hyps(1) [OF q'(4) [symmetric] q'(2), of "fn (buffered_msg m) s"] q'(3,4) show ?case
    unfolding e Cons.hyps(2) [symmetric] by auto
qed

fun bt_push_all :: "log_msg list \<Rightarrow> backtracer \<Rightarrow> backtracer option" where
  "bt_push_all [] bt = Some bt"
| "bt_push_all (m # ms) bt = Option.bind (bt_push_back m bt) (bt_push_all ms)"

lemma bt_push_all_fold:
  "circ_ok (messages bt) \<Longrightarrow>
    bt_push_all ms bt = Some (bt\<lparr>messages := fold (\<lambda>x q. the (circ_push_back x q)) (map buffer_msg ms) (messages bt)\<rparr>)"
proof (induction ms arbitrary: bt)
  case (Cons m ms)
  from circ_push_spec [OF Cons.prems, of "buffer_msg m"] obtain q where
    q: "circ_push_back (buffer_msg m) (messages bt) = Some q" "circ_ok q" by blast
  then have "bt_push_back m bt = Some (bt\<lparr>messages := q\<rparr>)" by (simp add: bt_push_back_def)
  with Cons.IH [of "bt\<lparr>messages := q\<rparr>"] q show ?case by simp
qed simp

lemma fold_buffered: "fold (\<lambda>m. fn (buffered_msg m)) (map buffer_msg ms) s = fold fn ms s"
  by (simp add: fold_map o_def)

lemma bt_replays:
  assumes "n \<noteq> - 1"
  shows "\<exists>bt1 bt2. bt_push_all ms (bt_enable n bt) = Some bt1
    \<and> bt_foreach_pop fn bt1 s = Some (bt2, fold fn (keep_last (unat n) ms) s)
    \<and> bt_enabled bt2 \<and> circ_contents (messages bt2) = []"
proof -
  define q where "q = circ_construct empty_buffer n"
  define q1 where "q1 = fold (\<lambda>x q. the (circ_push_back x q)) (map buffer_msg ms) q"
  have ok: "circ_ok q" "circ_contents q = []" "circ_capacity q = unat n"
    using assms by (simp_all add: q_def circ_capacity_construct)
  from cq.fold_push [OF ok(1), of "map buffer_msg ms"] have
    q1: "circ_ok q1" "circ_contents q1 = keep_last (unat n) (map buffer_msg ms)"
    by (simp_all add: q1_def ok)
  have "keep_last (unat n) (map buffer_msg ms) = map buffer_msg (keep_last (unat n) ms)"
    by (simp add: keep_last_def drop_map)
  with q1(2) have c: "circ_contents q1 = map buffer_msg (keep_last (unat n) ms)" by simp
  have "bt_push_all ms (bt_enable n bt) = Some ((bt_enable n bt)\<lparr>messages := q1\<rparr>)"
    using bt_push_all_fold [of "bt_enable n bt" ms] ok(1) by (simp add: bt_enable_def q_def q1_def)
  moreover from pop_loop_ok [OF q1(1), of fn s] obtain q2 where
    "pop_loop fn q1 s = Some (q2, fold fn (keep_last (unat n) ms) s)" "circ_contents q2 = []"
    unfolding c fold_buffered by blast
  ultimately show ?thesis by (auto simp: bt_foreach_pop_def bt_enable_def bt_enabled_def)
qed

text \<open>
  A backtracer enabled with size n takes any number of messages without undefined behaviour, and
  foreach_pop then applies its function to the last n of them, oldest first, terminates, and leaves
  the backtracer enabled and empty.
\<close>

theorem backtracer_replays_last:
  assumes "n \<noteq> - 1"
  shows "\<exists>bt1 bt2. bt_push_all ms (bt_enable n bt) = Some bt1
    \<and> bt_foreach_pop fn bt1 s = Some (bt2, fold fn (keep_last (unat n) ms) s)
    \<and> bt_enabled bt2 \<and> circ_contents (messages bt2) = []"
  by (rule bt_replays [OF assms])

theorem backtracer_replays_last_witness:
  "\<exists>bt1 bt2. bt_push_all [no_msg\<lparr>payload := ''a''\<rparr>, no_msg\<lparr>payload := ''b''\<rparr>, no_msg\<lparr>payload := ''c''\<rparr>]
      (bt_enable 2 new_backtracer) = Some bt1
    \<and> bt_foreach_pop (\<lambda>m out. out @ payload m) bt1 [] = Some (bt2, ''bc'')"
  using backtracer_replays_last [of 2 "[no_msg\<lparr>payload := ''a''\<rparr>, no_msg\<lparr>payload := ''b''\<rparr>, no_msg\<lparr>payload := ''c''\<rparr>]"
      new_backtracer "\<lambda>m out. out @ payload m" "[]"]
  by (auto simp: keep_last_def)

end
