(* ===== verification/Sinks.thy ===== *)
theory Sinks imports File_Sinks Console_Sinks Backtracer "HOL-Library.Sublist" begin

text \<open>
  The class \<open>sink\<close>, the store of sink objects, and the sinks that are neither files nor consoles: \<open>null_sink\<close>, \<open>ostream_sink\<close>, \<open>ringbuffer_sink\<close>,
  \<open>dist_sink\<close>, which distributes to other sinks, and \<open>dup_filter_sink\<close> (spdlog/sinks/*.h).  Sinks are shared by
  pointer, so they live in a store; the virtual operations dispatch on the kind of the object.

  A \<open>dist_sink\<close> may hold other \<open>dist_sink\<close>s.  The first argument of the operations bounds the depth of
  that nesting; a sink that contains itself (which locks its mutex twice) has no outcome, and so has
  a dangling pointer.
\<close>

record 'c ostream_sink = "'c base_sink" +
  stream :: nat
  force_flush :: bool

record 'c ringbuffer_sink = "'c base_sink" +
  ring_q :: "log_msg_buffer circular_q"

record 'c dist_sink = "'c base_sink" +
  children :: "nat list"

record 'c dup_filter_sink = "'c dist_sink" +
  max_skip_duration :: int
  last_msg_time :: int
  last_msg_payload :: string
  skip_counter :: u64

datatype 'c sink_obj =
    Null_sink "'c base_sink"
  | Ostream_sink "'c ostream_sink"
  | Ring_sink "'c ringbuffer_sink"
  | Basic_sink "'c basic_file_sink"
  | Rotating_sink "'c rotating_file_sink"
  | Daily_sink "'c daily_file_sink"
  | Stdout_sink "'c stdout_sink"
  | Ansi_sink "'c ansicolor_sink"
  | Dist_sink "'c dist_sink"
  | Dup_sink "'c dup_filter_sink"

record 'c sink_store =
  sink_at :: "nat \<Rightarrow> 'c sink_obj option"
  streams :: "nat \<Rightarrow> out_stream"
  os_part :: os_state

record 'c sink_env =
  files_env :: os_env
  format_env :: "'c fmt_env"
  mktime :: "tm \<Rightarrow> int"
  this_thread :: nat

section \<open>Levels\<close>

fun get_sink_level :: "'c sink_obj \<Rightarrow> level_enum" where
  "get_sink_level (Null_sink s) = sink_level s"
| "get_sink_level (Ostream_sink s) = sink_level s"
| "get_sink_level (Ring_sink s) = sink_level s"
| "get_sink_level (Basic_sink s) = sink_level s"
| "get_sink_level (Rotating_sink s) = sink_level s"
| "get_sink_level (Daily_sink s) = sink_level s"
| "get_sink_level (Stdout_sink s) = sink_level s"
| "get_sink_level (Ansi_sink s) = sink_level s"
| "get_sink_level (Dist_sink s) = sink_level s"
| "get_sink_level (Dup_sink s) = sink_level s"

fun set_sink_level :: "level_enum \<Rightarrow> 'c sink_obj \<Rightarrow> 'c sink_obj" where
  "set_sink_level l (Null_sink s) = Null_sink (s\<lparr>sink_level := l\<rparr>)"
| "set_sink_level l (Ostream_sink s) = Ostream_sink (s\<lparr>sink_level := l\<rparr>)"
| "set_sink_level l (Ring_sink s) = Ring_sink (s\<lparr>sink_level := l\<rparr>)"
| "set_sink_level l (Basic_sink s) = Basic_sink (s\<lparr>sink_level := l\<rparr>)"
| "set_sink_level l (Rotating_sink s) = Rotating_sink (s\<lparr>sink_level := l\<rparr>)"
| "set_sink_level l (Daily_sink s) = Daily_sink (s\<lparr>sink_level := l\<rparr>)"
| "set_sink_level l (Stdout_sink s) = Stdout_sink (s\<lparr>sink_level := l\<rparr>)"
| "set_sink_level l (Ansi_sink s) = Ansi_sink (s\<lparr>sink_level := l\<rparr>)"
| "set_sink_level l (Dist_sink s) = Dist_sink (s\<lparr>sink_level := l\<rparr>)"
| "set_sink_level l (Dup_sink s) = Dup_sink (s\<lparr>sink_level := l\<rparr>)"

definition sink_should_log :: "level_enum \<Rightarrow> 'c sink_obj \<Rightarrow> bool" where
  "sink_should_log msg_level s \<longleftrightarrow> msg_level \<ge> get_sink_level s"

section \<open>ostream_sink and ringbuffer_sink\<close>

type_synonym ('s) logged = "((spdlog_ex + unit) \<times> log_msg \<times> 's) option"

definition ostream_sink_it ::
  "'c fmt_env \<Rightarrow> log_msg \<Rightarrow> 'c ostream_sink \<Rightarrow> out_stream \<Rightarrow> (log_msg \<times> 'c ostream_sink \<times> out_stream) option" where
  "ostream_sink_it fenv msg sink str =
     map_option (\<lambda>(pf, msg1, formatted).
         let written = fst str @ formatted in
         (msg1, sink\<lparr>sink_formatter := pf\<rparr>, written, if force_flush sink then length written else snd str))
       (pf_format fenv (sink_formatter sink) msg [])"

definition ring_construct_sink :: "u64 \<Rightarrow> 'c ringbuffer_sink" where
  "ring_construct_sink n_items =
     \<lparr>sink_level = Trace, sink_formatter = default_formatter, ring_q = circ_construct empty_buffer n_items\<rparr>"

definition ring_sink_it :: "log_msg \<Rightarrow> 'c ringbuffer_sink \<Rightarrow> 'c ringbuffer_sink option" where
  "ring_sink_it msg sink = map_option (\<lambda>q. sink\<lparr>ring_q := q\<rparr>) (circ_push_back (buffer_msg msg) (ring_q sink))"

fun last_raw_loop :: "nat list \<Rightarrow> log_msg_buffer circular_q \<Rightarrow> log_msg_buffer list option" where
  "last_raw_loop [] q = Some []"
| "last_raw_loop (i # is) q =
     Option.bind (circ_at i q) (\<lambda>b. map_option (\<lambda>bs. copy_buffer b # bs) (last_raw_loop is q))"

definition last_raw :: "nat \<Rightarrow> 'c ringbuffer_sink \<Rightarrow> log_msg_buffer list option" where
  "last_raw lim sink =
     (let items_available = circ_size (ring_q sink);
          n_items = (if lim > 0 then min lim items_available else items_available) in
      last_raw_loop [items_available - n_items ..< items_available] (ring_q sink))"

text \<open>Formatting an item sets its color range, in the queue.\<close>

definition keep_color :: "nat \<Rightarrow> log_msg \<Rightarrow> log_msg_buffer circular_q \<Rightarrow> log_msg_buffer circular_q" where
  "keep_color i msg q =
     (let j = (head_pos q + i) mod max_items q; b = slots q ! j in
      q\<lparr>slots := (slots q)[j := b\<lparr>base_part := (base_part b)\<lparr>color_range_start := color_range_start msg,
          color_range_end := color_range_end msg\<rparr>\<rparr>]\<rparr>)"

fun last_formatted_loop :: "'c fmt_env \<Rightarrow> nat list \<Rightarrow> 'c ringbuffer_sink \<Rightarrow> (string list \<times> 'c ringbuffer_sink) option" where
  "last_formatted_loop fenv [] sink = Some ([], sink)"
| "last_formatted_loop fenv (i # is) sink =
     Option.bind (circ_at i (ring_q sink)) (\<lambda>b.
       Option.bind (pf_format fenv (sink_formatter sink) (buffered_msg b) []) (\<lambda>(pf, msg1, formatted).
         map_option (\<lambda>(fs, sink'). (formatted # fs, sink'))
           (last_formatted_loop fenv is (sink\<lparr>sink_formatter := pf, ring_q := keep_color i msg1 (ring_q sink)\<rparr>))))"

definition last_formatted :: "'c fmt_env \<Rightarrow> nat \<Rightarrow> 'c ringbuffer_sink \<Rightarrow> (string list \<times> 'c ringbuffer_sink) option" where
  "last_formatted fenv lim sink =
     (let items_available = circ_size (ring_q sink);
          n_items = (if lim > 0 then min lim items_available else items_available) in
      last_formatted_loop fenv [items_available - n_items ..< items_available] sink)"

section \<open>dist_sink and dup_filter_sink\<close>

text \<open>
  \<open>log_child\<close> is the virtual call \<open>sink->log(msg)\<close>; an exception of a child ends the loop.
\<close>

fun dist_sink_it ::
  "(nat \<Rightarrow> log_msg \<Rightarrow> 'c sink_store \<Rightarrow> 'c sink_store logged) \<Rightarrow> nat list \<Rightarrow> log_msg \<Rightarrow> 'c sink_store \<Rightarrow> 'c sink_store logged" where
  "dist_sink_it log_child [] msg st = Some (Inr (), msg, st)"
| "dist_sink_it log_child (a # as) msg st =
     Option.bind (sink_at st a) (\<lambda>s.
       if sink_should_log (level msg) s
       then Option.bind (log_child a msg st) (\<lambda>(r, msg1, st1).
         case r of Inl e \<Rightarrow> Some (Inl e, msg1, st1) | Inr _ \<Rightarrow> dist_sink_it log_child as msg1 st1)
       else dist_sink_it log_child as msg st)"

definition dup_filter :: "log_msg \<Rightarrow> 'c dup_filter_sink \<Rightarrow> bool" where
  "dup_filter msg d \<longleftrightarrow>
     (let filter_duration = time msg - last_msg_time d in
      filter_duration > max_skip_duration d * 1000 \<or> payload msg \<noteq> last_msg_payload d)"

definition skipped_text :: "u64 \<Rightarrow> string" where
  "skipped_text n = ''Skipped '' @ format_unsigned (unat n) @ '' duplicate messages..''"

text \<open>
  \<open>forward\<close> is \<open>dist_sink::sink_it_\<close>, \<open>now\<close> the clock, read when the notice is constructed.
\<close>

definition dup_notice :: "int \<Rightarrow> nat \<Rightarrow> log_msg \<Rightarrow> u64 \<Rightarrow> log_msg" where
  "dup_notice now tid msg n = make_log_msg now tid no_source (logger_name msg) (level msg) (skipped_text n)"

definition dup_sink_it ::
  "(log_msg \<Rightarrow> 's \<Rightarrow> 's logged) \<Rightarrow> ('s \<Rightarrow> int) \<Rightarrow> nat \<Rightarrow> log_msg \<Rightarrow> 'c dup_filter_sink \<Rightarrow> 's
    \<Rightarrow> ((spdlog_ex + unit) \<times> log_msg \<times> 'c dup_filter_sink \<times> 's) option" where
  "dup_sink_it forward now tid msg d s =
     (if \<not> dup_filter msg d then Some (Inr (), msg, d\<lparr>skip_counter := skip_counter d + 1\<rparr>, s)
      else
        Option.bind
          (if skip_counter d > 0
           then map_option (\<lambda>(r, m, s1). (r, s1)) (forward (dup_notice (now s) tid msg (skip_counter d)) s)
           else Some (Inr (), s)) (\<lambda>(r, s1).
          case r of
            Inl e \<Rightarrow> Some (Inl e, msg, d, s1)
          | Inr _ \<Rightarrow>
              Option.bind (forward msg s1) (\<lambda>(r2, msg2, s2).
                case r2 of
                  Inl e \<Rightarrow> Some (Inl e, msg2, d, s2)
                | Inr _ \<Rightarrow>
                    Some (Inr (), msg2, d\<lparr>last_msg_time := time msg2, skip_counter := 0, last_msg_payload := payload msg2\<rparr>, s2))))"

definition new_dup_filter :: "int \<Rightarrow> 'c dup_filter_sink" where
  "new_dup_filter max_skip = \<lparr>sink_level = Trace, sink_formatter = default_formatter, children = [],
     max_skip_duration = max_skip, last_msg_time = 0, last_msg_payload = [], skip_counter = 0\<rparr>"

definition add_sink :: "nat \<Rightarrow> 'c dist_sink \<Rightarrow> 'c dist_sink" where
  "add_sink a d = d\<lparr>children := children d @ [a]\<rparr>"

definition remove_sink :: "nat \<Rightarrow> 'c dist_sink \<Rightarrow> 'c dist_sink" where
  "remove_sink a d = d\<lparr>children := removeAll a (children d)\<rparr>"

definition set_sinks :: "nat list \<Rightarrow> 'c dist_sink \<Rightarrow> 'c dist_sink" where
  "set_sinks as d = d\<lparr>children := as\<rparr>"

section \<open>The virtual operations\<close>

definition put_sink :: "nat \<Rightarrow> 'c sink_obj \<Rightarrow> os_state \<Rightarrow> 'c sink_store \<Rightarrow> 'c sink_store" where
  "put_sink a s os st = st\<lparr>sink_at := (sink_at st)(a := Some s), os_part := os\<rparr>"

fun sink_log :: "'c sink_env \<Rightarrow> nat \<Rightarrow> nat \<Rightarrow> log_msg \<Rightarrow> 'c sink_store \<Rightarrow> 'c sink_store logged" where
  "sink_log env 0 a msg st = None"
| "sink_log env (Suc depth) a msg st =
     (case sink_at st a of
        None \<Rightarrow> None
      | Some (Null_sink s) \<Rightarrow> Some (Inr (), msg, st)
      | Some (Ostream_sink s) \<Rightarrow>
          map_option (\<lambda>(msg1, s1, str). (Inr (), msg1,
              st\<lparr>sink_at := (sink_at st)(a := Some (Ostream_sink s1)), streams := (streams st)(stream s := str)\<rparr>))
            (ostream_sink_it (format_env env) msg s (streams st (stream s)))
      | Some (Ring_sink s) \<Rightarrow>
          map_option (\<lambda>s1. (Inr (), msg, put_sink a (Ring_sink s1) (os_part st) st)) (ring_sink_it msg s)
      | Some (Basic_sink s) \<Rightarrow>
          map_option (\<lambda>(r, msg1, s1, os1). (r, msg1, put_sink a (Basic_sink s1) os1 st))
            (basic_sink_it (files_env env) (format_env env) msg s (os_part st))
      | Some (Rotating_sink s) \<Rightarrow>
          map_option (\<lambda>(r, msg1, s1, os1). (r, msg1, put_sink a (Rotating_sink s1) os1 st))
            (rot_sink_it (files_env env) (format_env env) msg s (os_part st))
      | Some (Daily_sink s) \<Rightarrow>
          map_option (\<lambda>(r, msg1, s1, os1). (r, msg1, put_sink a (Daily_sink s1) os1 st))
            (daily_sink_it (files_env env) (format_env env) (mktime env) msg s (os_part st))
      | Some (Stdout_sink s) \<Rightarrow>
          map_option (\<lambda>(msg1, s1, str). (Inr (), msg1,
              st\<lparr>sink_at := (sink_at st)(a := Some (Stdout_sink s1)), streams := (streams st)(target_file s := str)\<rparr>))
            (stdout_log (format_env env) msg s (streams st (target_file s)))
      | Some (Ansi_sink s) \<Rightarrow>
          map_option (\<lambda>(msg1, s1, str). (Inr (), msg1,
              st\<lparr>sink_at := (sink_at st)(a := Some (Ansi_sink s1)), streams := (streams st)(target_file s := str)\<rparr>))
            (ansi_log (format_env env) msg s (streams st (target_file s)))
      | Some (Dist_sink s) \<Rightarrow> dist_sink_it (sink_log env depth) (children s) msg st
      | Some (Dup_sink s) \<Rightarrow>
          map_option (\<lambda>(r, msg1, s1, st1). (r, msg1, put_sink a (Dup_sink s1) (os_part st1) st1))
            (dup_sink_it (dist_sink_it (sink_log env depth) (children s)) (\<lambda>st. os_now (files_env env) (os_part st))
              (this_thread env) msg s st))"

text \<open>Flushing acts on streams only: what \<open>fwrite\<close> took already counts as in the file.\<close>

fun sinks_flush :: "(nat \<Rightarrow> 'c sink_store \<Rightarrow> 'c sink_store option) \<Rightarrow> nat list \<Rightarrow> 'c sink_store \<Rightarrow> 'c sink_store option" where
  "sinks_flush flush_child [] st = Some st"
| "sinks_flush flush_child (a # as) st = Option.bind (flush_child a st) (sinks_flush flush_child as)"

fun sink_flush :: "nat \<Rightarrow> nat \<Rightarrow> 'c sink_store \<Rightarrow> 'c sink_store option" where
  "sink_flush 0 a st = None"
| "sink_flush (Suc depth) a st =
     (case sink_at st a of
        None \<Rightarrow> None
      | Some (Ostream_sink s) \<Rightarrow>
          Some (st\<lparr>streams := (streams st)(stream s := stream_flush (streams st (stream s)))\<rparr>)
      | Some (Stdout_sink s) \<Rightarrow>
          Some (st\<lparr>streams := (streams st)(target_file s := stream_flush (streams st (target_file s)))\<rparr>)
      | Some (Ansi_sink s) \<Rightarrow>
          Some (st\<lparr>streams := (streams st)(target_file s := stream_flush (streams st (target_file s)))\<rparr>)
      | Some (Dist_sink s) \<Rightarrow> sinks_flush (sink_flush depth) (children s) st
      | Some (Dup_sink s) \<Rightarrow> sinks_flush (sink_flush depth) (children s) st
      | Some _ \<Rightarrow> Some st)"

text \<open>\<open>set_formatter\<close>: a distributing sink keeps the formatter and gives each child a clone.\<close>

fun put_formatter :: "'c pattern_formatter \<Rightarrow> 'c sink_obj \<Rightarrow> 'c sink_obj" where
  "put_formatter pf (Null_sink s) = Null_sink (s\<lparr>sink_formatter := pf\<rparr>)"
| "put_formatter pf (Ostream_sink s) = Ostream_sink (s\<lparr>sink_formatter := pf\<rparr>)"
| "put_formatter pf (Ring_sink s) = Ring_sink (s\<lparr>sink_formatter := pf\<rparr>)"
| "put_formatter pf (Basic_sink s) = Basic_sink (s\<lparr>sink_formatter := pf\<rparr>)"
| "put_formatter pf (Rotating_sink s) = Rotating_sink (s\<lparr>sink_formatter := pf\<rparr>)"
| "put_formatter pf (Daily_sink s) = Daily_sink (s\<lparr>sink_formatter := pf\<rparr>)"
| "put_formatter pf (Stdout_sink s) = Stdout_sink (s\<lparr>sink_formatter := pf\<rparr>)"
| "put_formatter pf (Ansi_sink s) = Ansi_sink (s\<lparr>sink_formatter := pf\<rparr>)"
| "put_formatter pf (Dist_sink s) = Dist_sink (s\<lparr>sink_formatter := pf\<rparr>)"
| "put_formatter pf (Dup_sink s) = Dup_sink (s\<lparr>sink_formatter := pf\<rparr>)"

fun child_sinks :: "'c sink_obj \<Rightarrow> nat list" where
  "child_sinks (Dist_sink s) = children s"
| "child_sinks (Dup_sink s) = children s"
| "child_sinks _ = []"

fun children_set_formatter ::
  "('c pattern_formatter \<Rightarrow> nat \<Rightarrow> 'c sink_store \<Rightarrow> 'c sink_store option) \<Rightarrow> 'c fmt_env \<Rightarrow> 'c pattern_formatter
    \<Rightarrow> nat list \<Rightarrow> 'c sink_store \<Rightarrow> 'c sink_store option" where
  "children_set_formatter set_child fenv pf [] st = Some st"
| "children_set_formatter set_child fenv pf (a # as) st =
     Option.bind (set_child (clone_pattern_formatter fenv pf) a st) (children_set_formatter set_child fenv pf as)"

fun sink_set_formatter ::
  "'c fmt_env \<Rightarrow> nat \<Rightarrow> 'c pattern_formatter \<Rightarrow> nat \<Rightarrow> 'c sink_store \<Rightarrow> 'c sink_store option" where
  "sink_set_formatter fenv 0 pf a st = None"
| "sink_set_formatter fenv (Suc depth) pf a st =
     (case sink_at st a of
        None \<Rightarrow> None
      | Some s \<Rightarrow>
          children_set_formatter (sink_set_formatter fenv depth) fenv pf (child_sinks s)
            (st\<lparr>sink_at := (sink_at st)(a := Some (put_formatter pf s))\<rparr>))"

definition sink_set_pattern ::
  "'c fmt_env \<Rightarrow> nat \<Rightarrow> string \<Rightarrow> nat \<Rightarrow> 'c sink_store \<Rightarrow> 'c sink_store option" where
  "sink_set_pattern fenv depth pat a st =
     sink_set_formatter fenv depth (make_pattern_formatter fenv pat Local_time [CHR 0x0A] []) a st"

section \<open>What a duplicate filter lets through\<close>

datatype dup_event = Notice log_msg u64 | Passed log_msg

fun passed_msgs :: "dup_event list \<Rightarrow> log_msg list" where
  "passed_msgs [] = []"
| "passed_msgs (Notice m n # es) = passed_msgs es"
| "passed_msgs (Passed m # es) = m # passed_msgs es"

fun notice_sum :: "dup_event list \<Rightarrow> nat" where
  "notice_sum [] = 0"
| "notice_sum (Notice m n # es) = unat n + notice_sum es"
| "notice_sum (Passed m # es) = notice_sum es"

fun do_dup_event :: "(log_msg \<Rightarrow> 's \<Rightarrow> 's) \<Rightarrow> ('s \<Rightarrow> int) \<Rightarrow> nat \<Rightarrow> dup_event \<Rightarrow> 's \<Rightarrow> 's" where
  "do_dup_event g now tid (Notice m n) s = g (dup_notice (now s) tid m n) s"
| "do_dup_event g now tid (Passed m) s = g m s"

lemma passed_msgs_append [simp]: "passed_msgs (es @ fs) = passed_msgs es @ passed_msgs fs"
  by (induction es rule: passed_msgs.induct) simp_all

lemma notice_sum_append [simp]: "notice_sum (es @ fs) = notice_sum es + notice_sum fs"
  by (induction es rule: notice_sum.induct) simp_all

fun dup_log_all ::
  "(log_msg \<Rightarrow> 's \<Rightarrow> 's logged) \<Rightarrow> ('s \<Rightarrow> int) \<Rightarrow> nat \<Rightarrow> log_msg list \<Rightarrow> 'c dup_filter_sink \<Rightarrow> 's
    \<Rightarrow> ((spdlog_ex + unit) \<times> 'c dup_filter_sink \<times> 's) option" where
  "dup_log_all forward now tid [] d s = Some (Inr (), d, s)"
| "dup_log_all forward now tid (m # ms) d s =
     Option.bind (dup_sink_it forward now tid m d s) (\<lambda>(r, m1, d1, s1).
       case r of Inl e \<Rightarrow> Some (Inl e, d1, s1) | Inr _ \<Rightarrow> dup_log_all forward now tid ms d1 s1)"

text \<open>Two texts that are both let through, one after the other.\<close>

definition not_duplicate :: "int \<Rightarrow> int \<times> string \<Rightarrow> int \<times> string \<Rightarrow> bool" where
  "not_duplicate max_us p q \<longleftrightarrow> fst q - fst p > max_us * 1000 \<or> snd q \<noteq> snd p"

definition stamp :: "log_msg \<Rightarrow> int \<times> string" where
  "stamp m = (time m, payload m)"

text \<open>
  Sinks that do not throw as long as their state satisfies \<open>I\<close>, which they keep: they may change the state as \<open>g\<close>
  says, and of a message what does not matter here, such as its color range.
\<close>

definition forwards :: "(log_msg \<Rightarrow> 's \<Rightarrow> 's logged) \<Rightarrow> (log_msg \<Rightarrow> 's \<Rightarrow> 's) \<Rightarrow> ('s \<Rightarrow> bool) \<Rightarrow> bool" where
  "forwards forward g I \<longleftrightarrow>
     (\<forall>m s. I s \<longrightarrow> (\<exists>m'. forward m s = Some (Inr (), m', g m s) \<and> stamp m' = stamp m \<and> I (g m s)))"

lemma forwardsE:
  assumes "forwards forward g I" "I s"
  obtains m' where "forward m s = Some (Inr (), m', g m s)" "time m' = time m" "payload m' = payload m" "I (g m s)"
  using assms unfolding forwards_def stamp_def by blast

lemma dup_step_cases:
  assumes fwd: "forwards forward g I" and I: "I s"
  obtains (skip) "\<not> not_duplicate (max_skip_duration d) (last_msg_time d, last_msg_payload d) (stamp m)"
      "dup_sink_it forward now tid m d s = Some (Inr (), m, d\<lparr>skip_counter := skip_counter d + 1\<rparr>, s)"
  | (pass) es m' where "not_duplicate (max_skip_duration d) (last_msg_time d, last_msg_payload d) (stamp m)"
      "dup_sink_it forward now tid m d s = Some (Inr (), m',
         d\<lparr>last_msg_time := time m, skip_counter := 0, last_msg_payload := payload m\<rparr>,
         fold (do_dup_event g now tid) (es @ [Passed m]) s)"
      "es = (if skip_counter d > 0 then [Notice m (skip_counter d)] else [])"
      "I (fold (do_dup_event g now tid) (es @ [Passed m]) s)"
proof (cases "dup_filter m d")
  case True
  then have nd: "not_duplicate (max_skip_duration d) (last_msg_time d, last_msg_payload d) (stamp m)"
    by (simp add: dup_filter_def not_duplicate_def stamp_def)
  show ?thesis
  proof (cases "skip_counter d > 0")
    case skipped: True
    let ?n = "dup_notice (now s) tid m (skip_counter d)"
    from forwardsE [OF fwd I, of ?n] obtain m1 where m1: "forward ?n s = Some (Inr (), m1, g ?n s)" "I (g ?n s)"
      by blast
    from forwardsE [OF fwd m1(2), of m] obtain m2 where
      m2: "forward m (g ?n s) = Some (Inr (), m2, g m (g ?n s))" "time m2 = time m" "payload m2 = payload m"
        "I (g m (g ?n s))" by blast
    show ?thesis
      by (rule pass [where es = "[Notice m (skip_counter d)]" and m' = m2])
        (use nd True skipped m1(1) m2 in \<open>simp_all add: dup_sink_it_def\<close>)
  next
    case False
    from forwardsE [OF fwd I, of m] obtain m2 where
      m2: "forward m s = Some (Inr (), m2, g m s)" "time m2 = time m" "payload m2 = payload m" "I (g m s)" by blast
    show ?thesis
      by (rule pass [where es = "[]" and m' = m2]) (use nd True False m2 in \<open>simp_all add: dup_sink_it_def\<close>)
  qed
next
  case False
  then show ?thesis using skip by (simp add: dup_filter_def not_duplicate_def stamp_def dup_sink_it_def)
qed

text \<open>
  C15 [functional] A duplicate filter over sinks that do not throw (whatever their state becomes and whatever
  they do to the color range of a message) turns any sequence of messages, as long as the counter of
  skipped ones does not overflow, into a sequence of
  calls to them: the messages passed on are a subsequence of the messages logged, no two passed on in
  succession are duplicates (equal text within max_skip_duration), every text logged is passed on at
  least once unless it is the text that was passed on last before the sequence, and the numbers in the
  "Skipped" notices and the pending counter account for every other message.
\<close>

theorem dup_filter_correct:
  assumes "forwards forward g I" "I s" "unat (skip_counter d) + length ms < 2 ^ 64"
  shows "\<exists>es d'. dup_log_all forward now tid ms d s = Some (Inr (), d', fold (do_dup_event g now tid) es s)
    \<and> I (fold (do_dup_event g now tid) es s) \<and> subseq (passed_msgs es) ms
    \<and> successively (not_duplicate (max_skip_duration d)) ((last_msg_time d, last_msg_payload d) # map stamp (passed_msgs es))
    \<and> payload ` set ms \<subseteq> insert (last_msg_payload d) (payload ` set (passed_msgs es))
    \<and> length ms + unat (skip_counter d) = length (passed_msgs es) + notice_sum es + unat (skip_counter d')"
  using assms(2,3)
proof (induction ms arbitrary: d s)
  case Nil
  show ?case by (intro exI [of _ "[]"] exI [of _ d]) (simp add: Nil.prems)
next
  case (Cons m ms)
  show ?case
    using assms(1) Cons.prems(1)
  proof (cases rule: dup_step_cases [where forward = forward and g = g and d = d and m = m and now = now and tid = tid and s = s])
    case skip
    let ?d = "d\<lparr>skip_counter := skip_counter d + 1\<rparr>"
    have u: "unat (skip_counter ?d) = Suc (unat (skip_counter d))"
      using unat_add_small [of "skip_counter d" 1] Cons.prems(2) by simp
    from Cons.IH [OF Cons.prems(1), of ?d] Cons.prems(2) u obtain es d' where
      e: "dup_log_all forward now tid ms ?d s = Some (Inr (), d', fold (do_dup_event g now tid) es s)"
        "I (fold (do_dup_event g now tid) es s)" "subseq (passed_msgs es) ms"
        "successively (not_duplicate (max_skip_duration d)) ((last_msg_time d, last_msg_payload d) # map stamp (passed_msgs es))"
        "payload ` set ms \<subseteq> insert (last_msg_payload d) (payload ` set (passed_msgs es))"
        "length ms + unat (skip_counter ?d) = length (passed_msgs es) + notice_sum es + unat (skip_counter d')" by auto
    have "payload m = last_msg_payload d" using skip(1) by (simp add: not_duplicate_def stamp_def)
    with e skip(2) u show ?thesis by (intro exI [of _ es] exI [of _ d']) (simp add: list_emb_Cons)
  next
    case (pass es0 m')
    let ?d = "d\<lparr>last_msg_time := time m, skip_counter := 0, last_msg_payload := payload m\<rparr>"
    have n0: "passed_msgs es0 = []" "notice_sum es0 = unat (skip_counter d)"
      using pass(3) by (simp_all add: word_gt_0)
    have "unat (skip_counter ?d) + length ms < 2 ^ 64" using Cons.prems(2) by simp
    from Cons.IH [OF pass(4) this] obtain es d' where
      e: "dup_log_all forward now tid ms ?d (fold (do_dup_event g now tid) (es0 @ [Passed m]) s)
          = Some (Inr (), d', fold (do_dup_event g now tid) es (fold (do_dup_event g now tid) (es0 @ [Passed m]) s))"
        "I (fold (do_dup_event g now tid) es (fold (do_dup_event g now tid) (es0 @ [Passed m]) s))"
        "subseq (passed_msgs es) ms"
        "successively (not_duplicate (max_skip_duration ?d)) ((last_msg_time ?d, last_msg_payload ?d) # map stamp (passed_msgs es))"
        "payload ` set ms \<subseteq> insert (last_msg_payload ?d) (payload ` set (passed_msgs es))"
        "length ms + unat (skip_counter ?d) = length (passed_msgs es) + notice_sum es + unat (skip_counter d')" by blast
    have st: "(last_msg_time ?d, last_msg_payload ?d) = stamp m" by (simp add: stamp_def)
    note e4 = e(4) [unfolded st]
    show ?thesis
      by (intro exI [of _ "(es0 @ [Passed m]) @ es"] exI [of _ d'] conjI)
        (use e(1-3,5,6) e4 pass(1,2) n0 in auto)
  qed
qed

text \<open>The real sinks of a filter with one child, an ostream sink that writes the text of the messages.\<close>

definition one_child :: "log_msg \<Rightarrow> unit sink_store \<Rightarrow> unit sink_store logged" where
  "one_child = dist_sink_it (sink_log \<lparr>files_env = good_env, format_env = sample_env, mktime = (\<lambda>t. 0), this_thread = 1\<rparr> 1) [1]"

definition child_store :: "unit sink_store" where
  "child_store = \<lparr>sink_at = [1 \<mapsto> Ostream_sink \<lparr>sink_level = Trace, sink_formatter = payload_formatter, stream = 1,
     force_flush = False\<rparr>], streams = (\<lambda>k. ([], 0)), os_part = fresh_os\<rparr>"

definition child_ok :: "unit sink_store \<Rightarrow> bool" where
  "child_ok st \<longleftrightarrow> (\<exists>x. sink_at st 1 = Some (Ostream_sink x) \<and> sink_level x = Trace \<and> stream x = 1
     \<and> formatters (sink_formatter x) = [Stateless Payload_flag Null_padder no_padding] \<and> eol (sink_formatter x) = ''|'')"

definition child_step :: "log_msg \<Rightarrow> unit sink_store \<Rightarrow> unit sink_store" where
  "child_step m st = (case one_child m st of Some (r, m', st') \<Rightarrow> st' | None \<Rightarrow> st)"

lemma child_step_ok:
  assumes "child_ok st"
  shows "one_child m st = Some (Inr (), m, child_step m st)" "child_ok (child_step m st)"
    "fst (streams (child_step m st) 1) = fst (streams st 1) @ payload m @ ''|''"
proof -
  from assms obtain x where x: "sink_at st 1 = Some (Ostream_sink x)" "sink_level x = Trace" "stream x = 1"
    "formatters (sink_formatter x) = [Stateless Payload_flag Null_padder no_padding]" "eol (sink_formatter x) = ''|''"
    by (auto simp: child_ok_def)
  have lv: "Trace \<le> level m" by (cases "level m") (simp_all add: less_eq_level_enum_def)
  have "\<exists>pf. pf_format sample_env (sink_formatter x) m [] = Some (pf, m, payload m @ ''|'')
      \<and> formatters pf = formatters (sink_formatter x) \<and> eol pf = ''|''"
    using x(4,5) by (simp add: pf_format_def v_format_def padded_def Let_def)
  then obtain pf where "pf_format sample_env (sink_formatter x) m [] = Some (pf, m, payload m @ ''|'')"
    "formatters pf = formatters (sink_formatter x)" "eol pf = ''|''" by blast
  then have "\<exists>st'. one_child m st = Some (Inr (), m, st') \<and> child_ok st'
      \<and> fst (streams st' 1) = fst (streams st 1) @ payload m @ ''|''"
    using x lv by (simp add: one_child_def sink_should_log_def ostream_sink_it_def child_ok_def Let_def)
  then show "one_child m st = Some (Inr (), m, child_step m st)" "child_ok (child_step m st)"
    "fst (streams (child_step m st) 1) = fst (streams st 1) @ payload m @ ''|''"
    by (auto simp: child_step_def)
qed

lemma child_forwards: "forwards one_child child_step child_ok" "child_ok child_store"
  using child_step_ok by (auto simp: forwards_def child_ok_def child_store_def payload_formatter_def)

text \<open>
  The example in the header of the sink: two of three equal messages are skipped, and the notice says so
  (the comment in the source says three).
\<close>

lemma dup_example_text:
  "\<exists>d' st. dup_log_all one_child (\<lambda>st. 0) 1
      (map text_msg [''Hello'', ''Hello'', ''Hello'', ''Different'']) (new_dup_filter 5000000 :: unit dup_filter_sink) child_store
      = Some (Inr (), d', st) \<and> fst (streams st 1) = ''Hello|Skipped 2 duplicate messages..|Different|''"
proof -
  have c: "digit_char 2 = CHR ''2''" by code_simp
  have s: "fst (streams child_store 1) = []" by (simp add: child_store_def)
  show ?thesis
    using child_forwards(2)
    by (simp add: child_step_ok [unfolded One_nat_def] s [unfolded One_nat_def] dup_sink_it_def dup_filter_def new_dup_filter_def text_msg_def make_log_msg_def dup_notice_def
      skipped_text_def format_unsigned_def format_decimal_dec dec_small c)
qed

theorem dup_filter_correct_witness:
  "\<exists>es d' st. dup_log_all one_child (\<lambda>st. 0) 1
      (map text_msg [''Hello'', ''Hello'', ''Hello'', ''Different'']) (new_dup_filter 5000000 :: unit dup_filter_sink) child_store
      = Some (Inr (), d', st) \<and> fst (streams st 1) = ''Hello|Skipped 2 duplicate messages..|Different|''
    \<and> successively (not_duplicate 5000000) ((0, []) # map stamp (passed_msgs es))
    \<and> 4 = length (passed_msgs es) + notice_sum es + unat (skip_counter d')"
proof -
  let ?ms = "map text_msg [''Hello'', ''Hello'', ''Hello'', ''Different'']" and ?d = "new_dup_filter 5000000 :: unit dup_filter_sink"
  have d: "max_skip_duration ?d = 5000000" "last_msg_time ?d = 0" "last_msg_payload ?d = []" "skip_counter ?d = 0"
    by (simp_all add: new_dup_filter_def)
  have b: "unat (skip_counter ?d) + length ?ms < 2 ^ 64" and l: "length ?ms + unat (skip_counter ?d) = 4" by (simp_all add: d)
  from dup_filter_correct [OF child_forwards b, of "\<lambda>st. 0" 1] obtain es d' st where
    r: "dup_log_all one_child (\<lambda>st. 0) 1 ?ms ?d child_store = Some (Inr (), d', st)"
      "successively (not_duplicate 5000000) ((0, []) # map stamp (passed_msgs es))"
      "length ?ms + unat (skip_counter ?d) = length (passed_msgs es) + notice_sum es + unat (skip_counter d')"
    unfolding d by blast
  from dup_example_text r(1) have "fst (streams st 1) = ''Hello|Skipped 2 duplicate messages..|Different|''" by auto
  with r l show ?thesis by metis
qed

end
