(* ===== verification/Logger.thy ===== *)
theory Logger imports Sinks begin

text \<open>
  \<open>logger\<close> (spdlog/logger.h, logger-inl.h) and \<open>async_logger\<close> (async_logger.h, async_logger-inl.h).  A logger
  is a record with the addresses of its sinks; the world holds the store of sinks, the static variables
  of the default error handler, the calls of user error handlers and, for every thread pool that
  exists, what was posted to it (\<open>Thread_Pool\<close> says what the pool does with it).

  \<open>this\<close> is the address of the logger, which an asynchronous logger posts along.  A thread pool is reached
  through a weak pointer: it may be gone.
\<close>

datatype log_error =
    Sink_error spdlog_ex
  | Format_error string

datatype overflow_policy = Block | Overrun_oldest

datatype async_post =
    Post_log nat log_msg_buffer overflow_policy
  | Post_flush nat overflow_policy

record logger =
  lg_name :: string
  lg_sinks :: "nat list"
  lg_level :: level_enum
  lg_flush_level :: level_enum
  lg_handler :: "nat option"
  lg_tracer :: backtracer
  lg_pool :: "(nat \<times> overflow_policy) option"

record 'c log_world =
  sinks_part :: "'c sink_store"
  err_counter :: u64
  last_report_time :: int
  reports :: "(u64 \<times> int \<times> string \<times> log_error) list"
  handler_calls :: "(nat \<times> log_error) list"
  pools :: "nat \<Rightarrow> async_post list option"

definition world_now :: "'c sink_env \<Rightarrow> 'c log_world \<Rightarrow> int" where
  "world_now env w = os_now (files_env env) (os_part (sinks_part w))"

section \<open>Construction, copies, settings\<close>

definition new_logger :: "string \<Rightarrow> nat list \<Rightarrow> logger" where
  "new_logger name sinks = \<lparr>lg_name = name, lg_sinks = sinks, lg_level = Info, lg_flush_level = Off_level,
     lg_handler = None, lg_tracer = new_backtracer, lg_pool = None\<rparr>"

definition new_async_logger :: "string \<Rightarrow> nat list \<Rightarrow> nat \<Rightarrow> overflow_policy \<Rightarrow> logger" where
  "new_async_logger name sinks tp policy = (new_logger name sinks)\<lparr>lg_pool := Some (tp, policy)\<rparr>"

definition copy_logger :: "logger \<Rightarrow> logger" where
  "copy_logger other = \<lparr>lg_name = lg_name other, lg_sinks = lg_sinks other, lg_level = lg_level other,
     lg_flush_level = lg_flush_level other, lg_handler = lg_handler other, lg_tracer = bt_copy (lg_tracer other),
     lg_pool = lg_pool other\<rparr>"

text \<open>The moved-from strings, vectors and functions are left empty.\<close>

definition move_logger :: "logger \<Rightarrow> logger \<times> logger" where
  "move_logger other =
     (let (mine, rest) = bt_move (lg_tracer other) in
      (\<lparr>lg_name = lg_name other, lg_sinks = lg_sinks other, lg_level = lg_level other,
        lg_flush_level = lg_flush_level other, lg_handler = lg_handler other, lg_tracer = mine, lg_pool = lg_pool other\<rparr>,
       other\<lparr>lg_name := [], lg_sinks := [], lg_handler := None, lg_tracer := rest\<rparr>))"

text \<open>\<open>std::swap\<close> of the tracers: one move construction and two assignments, whose parameter is moved in.\<close>

definition swap_tracers :: "backtracer \<Rightarrow> backtracer \<Rightarrow> backtracer \<times> backtracer" where
  "swap_tracers a b =
     (let (tmp, a1) = bt_move a;
          (arg, b1) = bt_move b;
          a2 = bt_assign a1 arg;
          (arg, tmp1) = bt_move tmp in
      (a2, bt_assign b1 arg))"

definition swap_loggers :: "logger \<Rightarrow> logger \<Rightarrow> logger \<times> logger" where
  "swap_loggers this other =
     (let (my_tracer, other_tracer) = swap_tracers (lg_tracer this) (lg_tracer other) in
      (this\<lparr>lg_name := lg_name other, lg_sinks := lg_sinks other, lg_level := lg_level other,
         lg_flush_level := lg_flush_level other, lg_handler := lg_handler other, lg_tracer := my_tracer\<rparr>,
       other\<lparr>lg_name := lg_name this, lg_sinks := lg_sinks this, lg_level := lg_level this,
         lg_flush_level := lg_flush_level this, lg_handler := lg_handler this, lg_tracer := other_tracer\<rparr>))"

text \<open>Assignment takes its argument by value, here by copy.\<close>

definition assign_logger :: "logger \<Rightarrow> logger \<Rightarrow> logger" where
  "assign_logger this other = fst (swap_loggers this (copy_logger other))"

definition clone_logger :: "string \<Rightarrow> logger \<Rightarrow> logger" where
  "clone_logger name lg = (copy_logger lg)\<lparr>lg_name := name\<rparr>"

definition lg_set_level :: "level_enum \<Rightarrow> logger \<Rightarrow> logger" where
  "lg_set_level lvl lg = lg\<lparr>lg_level := lvl\<rparr>"

definition lg_flush_on :: "level_enum \<Rightarrow> logger \<Rightarrow> logger" where
  "lg_flush_on lvl lg = lg\<lparr>lg_flush_level := lvl\<rparr>"

definition lg_set_error_handler :: "nat option \<Rightarrow> logger \<Rightarrow> logger" where
  "lg_set_error_handler h lg = lg\<lparr>lg_handler := h\<rparr>"

definition lg_enable_backtrace :: "u64 \<Rightarrow> logger \<Rightarrow> logger" where
  "lg_enable_backtrace n lg = lg\<lparr>lg_tracer := bt_enable n (lg_tracer lg)\<rparr>"

definition lg_disable_backtrace :: "logger \<Rightarrow> logger" where
  "lg_disable_backtrace lg = lg\<lparr>lg_tracer := bt_disable (lg_tracer lg)\<rparr>"

text \<open>Every sink gets a clone of the formatter, the last one the formatter itself.\<close>

fun set_formatters ::
  "'c fmt_env \<Rightarrow> nat \<Rightarrow> 'c pattern_formatter \<Rightarrow> nat list \<Rightarrow> 'c sink_store \<Rightarrow> 'c sink_store option" where
  "set_formatters fenv depth f [] st = Some st"
| "set_formatters fenv depth f [a] st = sink_set_formatter fenv depth f a st"
| "set_formatters fenv depth f (a # b # as) st =
     Option.bind (sink_set_formatter fenv depth (clone_pattern_formatter fenv f) a st)
       (set_formatters fenv depth f (b # as))"

definition lg_set_formatter ::
  "'c fmt_env \<Rightarrow> nat \<Rightarrow> 'c pattern_formatter \<Rightarrow> logger \<Rightarrow> 'c sink_store \<Rightarrow> 'c sink_store option" where
  "lg_set_formatter fenv depth f lg st = set_formatters fenv depth f (lg_sinks lg) st"

definition lg_set_pattern ::
  "'c fmt_env \<Rightarrow> nat \<Rightarrow> string \<Rightarrow> pattern_time_type \<Rightarrow> logger \<Rightarrow> 'c sink_store \<Rightarrow> 'c sink_store option" where
  "lg_set_pattern fenv depth pat tt lg st =
     lg_set_formatter fenv depth (make_pattern_formatter fenv pat tt [CHR 0x0A] []) lg st"

section \<open>Errors\<close>

text \<open>The default handler: at most one line per second, with the number of errors so far.\<close>

definition default_err_handler :: "int \<Rightarrow> string \<Rightarrow> log_error \<Rightarrow> 'c log_world \<Rightarrow> 'c log_world" where
  "default_err_handler now name e w =
     (let w1 = w\<lparr>err_counter := err_counter w + 1\<rparr> in
      if now - last_report_time w1 < ns_per_sec then w1
      else w1\<lparr>last_report_time := now, reports := reports w1 @ [(err_counter w1, now, name, e)]\<rparr>)"

definition err_handler :: "'c sink_env \<Rightarrow> logger \<Rightarrow> log_error \<Rightarrow> 'c log_world \<Rightarrow> 'c log_world" where
  "err_handler env lg e w =
     (case lg_handler lg of
        Some h \<Rightarrow> w\<lparr>handler_calls := handler_calls w @ [(h, e)]\<rparr>
      | None \<Rightarrow> default_err_handler (world_now env w) (lg_name lg) e w)"

section \<open>Logging\<close>

definition lg_should_log :: "level_enum \<Rightarrow> logger \<Rightarrow> bool" where
  "lg_should_log msg_level lg \<longleftrightarrow> msg_level \<ge> lg_level lg"

definition should_flush :: "logger \<Rightarrow> log_msg \<Rightarrow> bool" where
  "should_flush lg msg \<longleftrightarrow> level msg \<ge> lg_flush_level lg \<and> level msg \<noteq> Off_level"

text \<open>The loop over the sinks: an exception of a sink is caught and reported.\<close>

fun call_sinks ::
  "'c sink_env \<Rightarrow> nat \<Rightarrow> logger \<Rightarrow> nat list \<Rightarrow> log_msg \<Rightarrow> 'c log_world \<Rightarrow> (log_msg \<times> 'c log_world) option" where
  "call_sinks env depth lg [] msg w = Some (msg, w)"
| "call_sinks env depth lg (a # as) msg w =
     Option.bind (sink_at (sinks_part w) a) (\<lambda>s.
       if sink_should_log (level msg) s
       then Option.bind (sink_log env depth a msg (sinks_part w)) (\<lambda>(r, msg1, st1).
         let w1 = w\<lparr>sinks_part := st1\<rparr> in
         call_sinks env depth lg as msg1
           (case r of Inl e \<Rightarrow> err_handler env lg (Sink_error e) w1 | Inr _ \<Rightarrow> w1))
       else call_sinks env depth lg as msg w)"

text \<open>\<open>logger::flush_\<close>.\<close>

definition plain_flush :: "nat \<Rightarrow> logger \<Rightarrow> 'c log_world \<Rightarrow> 'c log_world option" where
  "plain_flush depth lg w =
     map_option (\<lambda>st. w\<lparr>sinks_part := st\<rparr>) (sinks_flush (sink_flush depth) (lg_sinks lg) (sinks_part w))"

text \<open>\<open>logger::sink_it_\<close>; the backend functions of \<open>async_logger\<close> are in \<open>Thread_Pool\<close>.\<close>

definition plain_sink_it ::
  "'c sink_env \<Rightarrow> nat \<Rightarrow> logger \<Rightarrow> log_msg \<Rightarrow> 'c log_world \<Rightarrow> (log_msg \<times> 'c log_world) option" where
  "plain_sink_it env depth lg msg w =
     Option.bind (call_sinks env depth lg (lg_sinks lg) msg w) (\<lambda>(msg1, w1).
       if should_flush lg msg1 then map_option (Pair msg1) (plain_flush depth lg w1) else Some (msg1, w1))"

definition post_async :: "nat \<Rightarrow> async_post \<Rightarrow> 'c log_world \<Rightarrow> (spdlog_ex + unit) \<times> 'c log_world" where
  "post_async tp p w =
     (case pools w tp of
        Some ps \<Rightarrow> (Inr (), w\<lparr>pools := (pools w)(tp := Some (ps @ [p]))\<rparr>)
      | None \<Rightarrow> (Inl No_thread_pool, w))"

definition async_sink_it :: "nat \<Rightarrow> nat \<times> overflow_policy \<Rightarrow> log_msg \<Rightarrow> 'c log_world \<Rightarrow> (spdlog_ex + unit) \<times> 'c log_world" where
  "async_sink_it this tp msg w = post_async (fst tp) (Post_log this (buffer_msg msg) (snd tp)) w"

definition async_flush :: "nat \<Rightarrow> nat \<times> overflow_policy \<Rightarrow> 'c log_world \<Rightarrow> (spdlog_ex + unit) \<times> 'c log_world" where
  "async_flush this tp w = post_async (fst tp) (Post_flush this (snd tp)) w"

text \<open>The virtual \<open>sink_it_\<close> and \<open>flush_\<close>.\<close>

definition lg_sink_it ::
  "'c sink_env \<Rightarrow> nat \<Rightarrow> nat \<Rightarrow> logger \<Rightarrow> log_msg \<Rightarrow> 'c log_world \<Rightarrow> 'c log_world logged" where
  "lg_sink_it env depth this lg msg w =
     (case lg_pool lg of
        None \<Rightarrow> map_option (\<lambda>(msg1, w1). (Inr (), msg1, w1)) (plain_sink_it env depth lg msg w)
      | Some tp \<Rightarrow> (let (r, w1) = async_sink_it this tp msg w in Some (r, msg, w1)))"

definition lg_flush :: "nat \<Rightarrow> nat \<Rightarrow> logger \<Rightarrow> 'c log_world \<Rightarrow> ((spdlog_ex + unit) \<times> 'c log_world) option" where
  "lg_flush depth this lg w =
     (case lg_pool lg of
        None \<Rightarrow> map_option (Pair (Inr ())) (plain_flush depth lg w)
      | Some tp \<Rightarrow> Some (async_flush this tp w))"

type_synonym 'c log_result = "((spdlog_ex + unit) \<times> logger \<times> 'c log_world) option"

definition log_it ::
  "'c sink_env \<Rightarrow> nat \<Rightarrow> nat \<Rightarrow> log_msg \<Rightarrow> bool \<Rightarrow> bool \<Rightarrow> logger \<Rightarrow> 'c log_world \<Rightarrow> 'c log_result" where
  "log_it env depth this msg log_enabled traceback_enabled lg w =
     Option.bind (if log_enabled then lg_sink_it env depth this lg msg w else Some (Inr (), msg, w)) (\<lambda>(r, msg1, w1).
       case r of
         Inl e \<Rightarrow> Some (Inl e, lg, w1)
       | Inr _ \<Rightarrow>
           if traceback_enabled
           then map_option (\<lambda>bt. (Inr (), lg\<lparr>lg_tracer := bt\<rparr>, w1)) (bt_push_back msg1 (lg_tracer lg))
           else Some (Inr (), lg, w1))"

text \<open>\<open>log(time, loc, level, text)\<close> and \<open>log(loc, level, text)\<close>: an exception reaches the caller.\<close>

definition log_at ::
  "'c sink_env \<Rightarrow> nat \<Rightarrow> nat \<Rightarrow> int \<Rightarrow> source_loc \<Rightarrow> level_enum \<Rightarrow> string \<Rightarrow> logger \<Rightarrow> 'c log_world \<Rightarrow> 'c log_result" where
  "log_at env depth this log_time loc lvl txt lg w =
     (let log_enabled = lg_should_log lvl lg; traceback_enabled = bt_enabled (lg_tracer lg) in
      if \<not> log_enabled \<and> \<not> traceback_enabled then Some (Inr (), lg, w)
      else log_it env depth this (make_log_msg log_time (this_thread env) loc (lg_name lg) lvl txt)
        log_enabled traceback_enabled lg w)"

definition log_text ::
  "'c sink_env \<Rightarrow> nat \<Rightarrow> nat \<Rightarrow> source_loc \<Rightarrow> level_enum \<Rightarrow> string \<Rightarrow> logger \<Rightarrow> 'c log_world \<Rightarrow> 'c log_result" where
  "log_text env depth this loc lvl txt lg w =
     (let log_enabled = lg_should_log lvl lg; traceback_enabled = bt_enabled (lg_tracer lg) in
      if \<not> log_enabled \<and> \<not> traceback_enabled then Some (Inr (), lg, w)
      else log_it env depth this (make_log_msg (world_now env w) (this_thread env) loc (lg_name lg) lvl txt)
        log_enabled traceback_enabled lg w)"

text \<open>
  \<open>log_(loc, level, fmt, args...)\<close>: \<open>formatted\<close> is what formatting the arguments gives, the text of an
  exception or the message.  Every exception is caught.
\<close>

definition log_formatted ::
  "'c sink_env \<Rightarrow> nat \<Rightarrow> nat \<Rightarrow> source_loc \<Rightarrow> level_enum \<Rightarrow> string + string \<Rightarrow> logger \<Rightarrow> 'c log_world
    \<Rightarrow> (logger \<times> 'c log_world) option" where
  "log_formatted env depth this loc lvl formatted lg w =
     (let log_enabled = lg_should_log lvl lg; traceback_enabled = bt_enabled (lg_tracer lg) in
      if \<not> log_enabled \<and> \<not> traceback_enabled then Some (lg, w)
      else
        case formatted of
          Inl e \<Rightarrow> Some (lg, err_handler env lg (Format_error e) w)
        | Inr txt \<Rightarrow>
            map_option (\<lambda>(r, lg1, w1). (lg1, case r of Inl e \<Rightarrow> err_handler env lg1 (Sink_error e) w1 | Inr _ \<Rightarrow> w1))
              (log_it env depth this (make_log_msg (world_now env w) (this_thread env) loc (lg_name lg) lvl txt)
                log_enabled traceback_enabled lg w))"

section \<open>The backtrace\<close>

definition backtrace_start :: string where
  "backtrace_start = ''****************** Backtrace Start ******************''"

definition backtrace_end :: string where
  "backtrace_end = ''****************** Backtrace End ********************''"

definition marker :: "'c sink_env \<Rightarrow> logger \<Rightarrow> string \<Rightarrow> 'c log_world \<Rightarrow> log_msg" where
  "marker env lg txt w = make_log_msg (world_now env w) (this_thread env) no_source (lg_name lg) Info txt"

text \<open>
  The messages popped are sent to the virtual \<open>sink_it_\<close>.  Its only exception is that the thread pool is
  gone, and then the first marker has thrown already.
\<close>

definition dump_one ::
  "'c sink_env \<Rightarrow> nat \<Rightarrow> nat \<Rightarrow> logger \<Rightarrow> log_msg \<Rightarrow> 'c log_world option \<Rightarrow> 'c log_world option" where
  "dump_one env depth this lg msg w_opt =
     Option.bind w_opt (\<lambda>w. map_option (\<lambda>(r, msg1, w1). w1) (lg_sink_it env depth this lg msg w))"

definition dump_backtrace :: "'c sink_env \<Rightarrow> nat \<Rightarrow> nat \<Rightarrow> logger \<Rightarrow> 'c log_world \<Rightarrow> 'c log_result" where
  "dump_backtrace env depth this lg w =
     (if \<not> bt_enabled (lg_tracer lg) then Some (Inr (), lg, w)
      else
        Option.bind (lg_sink_it env depth this lg (marker env lg backtrace_start w) w) (\<lambda>(r, m, w1).
          case r of
            Inl e \<Rightarrow> Some (Inl e, lg, w1)
          | Inr _ \<Rightarrow>
              Option.bind (bt_foreach_pop (dump_one env depth this lg) (lg_tracer lg) (Some w1)) (\<lambda>(bt, w_opt).
                Option.bind w_opt (\<lambda>w2.
                  map_option (\<lambda>(r, m, w3). (r, lg\<lparr>lg_tracer := bt\<rparr>, w3))
                    (lg_sink_it env depth this lg (marker env lg backtrace_end w2) w2)))))"

end
