(* ===== verification/Logger_Delivery.thy ===== *)
theory Logger_Delivery imports Logger begin

text \<open>
  What a logger delivers: each sink gets the message whatever the other sinks do; the backtrace is
  replayed between its markers; errors are counted and reported once per second.
\<close>

section \<open>What logging to one sink leaves alone\<close>

text \<open>A message without its color range, the only part of it that sinks may change.\<close>

definition uncolor :: "log_msg \<Rightarrow> log_msg" where
  "uncolor m = m\<lparr>color_range_start := 0, color_range_end := 0\<rparr>"

definition custom_flags_const :: "'c fmt_env \<Rightarrow> bool" where
  "custom_flags_const fenv \<longleftrightarrow>
     (\<forall>c p m t d c' m' d'. custom_format fenv c p m t d = Some (c', m', d') \<longrightarrow> uncolor m' = uncolor m)"

lemma uncolor_fields:
  "uncolor m' = uncolor m \<Longrightarrow> level m' = level m \<and> time m' = time m \<and> payload m' = payload m
    \<and> source m' = source m \<and> logger_name m' = logger_name m \<and> thread_id m' = thread_id m"
  by (cases m; cases m') (simp add: uncolor_def)

lemma uncolor_set [simp, sink_simps]:
  "uncolor (m\<lparr>color_range_start := i\<rparr>) = uncolor m" "uncolor (m\<lparr>color_range_end := j\<rparr>) = uncolor m"
  "uncolor (m\<lparr>color_range_start := i, color_range_end := j\<rparr>) = uncolor m"
  by (simp_all add: uncolor_def)

lemma full_format_uncolor: "full_format msg t c d = Some (c', m', d') \<Longrightarrow> uncolor m' = uncolor msg"
  by (auto simp: full_format_def Let_def bind_eq_Some_conv)

lemma flag_format_uncolor:
  assumes "custom_flags_const fenv" "flag_format fenv f msg t d = Some (f', m', d')"
  shows "uncolor m' = uncolor msg"
proof (cases f)
  case (Custom c p)
  with assms show ?thesis unfolding custom_flags_const_def by (cases f') (auto, blast+)
qed (use assms(2) in \<open>auto simp: color_start_format_def color_stop_format_def dest: full_format_uncolor\<close>)

lemma run_formatters_uncolor:
  assumes "custom_flags_const fenv"
  shows "run_formatters fenv t fs msg d = Some (fs', m', d') \<Longrightarrow> uncolor m' = uncolor msg"
proof (induction fs arbitrary: msg d fs')
  case (Cons f fs)
  then obtain f1 m1 d1 fs1 where "flag_format fenv f msg t d = Some (f1, m1, d1)"
    "run_formatters fenv t fs m1 d1 = Some (fs1, m', d')" by (auto simp: bind_eq_Some_conv)
  with Cons.IH flag_format_uncolor [OF assms] show ?case by metis
qed simp

lemma pf_format_uncolor:
  "custom_flags_const fenv \<Longrightarrow> pf_format fenv pf msg d = Some (pf', m', d') \<Longrightarrow> uncolor m' = uncolor msg"
  by (auto simp: pf_format_def Let_def dest!: run_formatters_uncolor split: if_splits)

text \<open>
  No formatter of the library looks at the color range of a message.  A custom flag must not do so either:
  what it writes depends on the message without its range only.
\<close>

definition blind :: "('f \<times> log_msg \<times> string) option \<Rightarrow> ('f \<times> log_msg \<times> string) option" where
  "blind r = map_option (\<lambda>(f, m, d). (f, uncolor m, d)) r"

lemma blind_simps [simp, sink_simps]:
  "blind None = None" "blind (Some (f, m, d)) = Some (f, uncolor m, d)"
  by (simp_all add: blind_def)

definition custom_flags_plain :: "'c fmt_env \<Rightarrow> bool" where
  "custom_flags_plain fenv \<longleftrightarrow> custom_flags_const fenv
     \<and> (\<forall>c p m t d. blind (custom_format fenv c p m t d) = blind (custom_format fenv c p (uncolor m) t d))"

lemma uncolor_same [simp, sink_simps]:
  "level (uncolor m) = level m" "time (uncolor m) = time m" "payload (uncolor m) = payload m"
  "source (uncolor m) = source m" "logger_name (uncolor m) = logger_name m" "thread_id (uncolor m) = thread_id m"
  "uncolor (uncolor m) = uncolor m"
  by (simp_all add: uncolor_def)

lemma stateless_blind: "stateless_format fenv k pd p (uncolor m) t d = stateless_format fenv k pd p m t d"
  by (cases k) (simp_all add: name_format_def level_format_def short_level_format_def t_format_def v_format_def
    e_format_def f_format_def F_format_def E_format_def source_location_format_def short_filename_format_def
    source_filename_format_def source_linenum_format_def source_funcname_format_def cong: if_cong)

lemma blind_map: "blind (map_option (\<lambda>(c, m, d). (F c, m, G d)) r) = map_option (\<lambda>(c, m, d). (F c, m, G d)) (blind r)"
  by (cases r) auto

lemma blind_map1: "blind (map_option (\<lambda>(c, y). (F c, y)) r) = map_option (\<lambda>(c, y). (F c, y)) (blind r)"
  by (cases r) auto

lemma full_blind: "blind (full_format (uncolor m) t c d) = blind (full_format m t c d)"
  by (cases "level_name (level m)"; cases "filename (source m)")
    (simp_all add: full_format_def Let_def uncolor_def cong: if_cong)

lemma flag_blind:
  assumes "custom_flags_plain fenv"
  shows "blind (flag_format fenv f (uncolor m) t d) = blind (flag_format fenv f m t d)"
proof (cases f)
  case (Stateless k pd p)
  then show ?thesis by (simp add: stateless_blind) (simp add: blind_def option.map_comp o_def)
next
  case (Timezone pd p c)
  then show ?thesis by (simp add: z_format_def get_cached_offset_def blind_def option.map_comp o_def case_prod_unfold)
next
  case (Elapsed pd u p prev)
  then show ?thesis by (simp add: elapsed_format_def blind_def option.map_comp o_def case_prod_unfold)
next
  case (Full c)
  then show ?thesis by (simp add: blind_map1 full_blind)
next
  case (Custom c p)
  have "blind (custom_format fenv c p (uncolor m) t d) = blind (custom_format fenv c p m t d)"
    using assms unfolding custom_flags_plain_def by metis
  with Custom show ?thesis by (simp add: blind_map1)
qed (simp_all add: color_start_format_def color_stop_format_def)

lemma run_blind:
  assumes "custom_flags_plain fenv"
  shows "blind (run_formatters fenv t fs (uncolor m) d) = blind (run_formatters fenv t fs m d)"
proof (induction fs arbitrary: m d)
  case (Cons f fs)
  have step: "blind (map_option (\<lambda>(fs', r). (f' # fs', r)) (run_formatters fenv t fs m1 d1))
      = blind (map_option (\<lambda>(fs', r). (f' # fs', r)) (run_formatters fenv t fs m2 d1))"
    if "uncolor m1 = uncolor m2" for m1 m2 d1 f'
  proof -
    from Cons.IH [of m1 d1] Cons.IH [of m2 d1] that show ?thesis by (simp add: blind_map1)
  qed
  from flag_blind [OF assms, of f m t d] show ?case
    by (cases "flag_format fenv f (uncolor m) t d"; cases "flag_format fenv f m t d") (auto dest: step)
qed simp

text \<open>So a formatter writes the same line for messages that differ in the color range only.\<close>

lemma pf_format_blind:
  assumes "custom_flags_plain fenv" "uncolor m' = uncolor m" "pf_format fenv pf m' d = Some (pf1, m1, l)"
  shows "\<exists>m2. pf_format fenv pf m d = Some (pf1, m2, l)"
proof -
  have t: "time m' = time m" using uncolor_fields [OF assms(2)] by simp
  have "blind (run_formatters fenv t fs m' d) = blind (run_formatters fenv t fs m d)" for t fs
    using run_blind [OF assms(1), of t fs m' d] run_blind [OF assms(1), of t fs m d] assms(2) by simp
  then have "blind (pf_format fenv pf m' d) = blind (pf_format fenv pf m d)"
    unfolding pf_format_def Let_def t blind_map by simp
  with assms(3) show ?thesis by (cases "pf_format fenv pf m d") auto
qed

lemma rot_write_msg: "rot_write env f msg s os = Some (r, m', s', os') \<Longrightarrow> m' = msg"
  by (auto simp: rot_write_def)

lemma basic_uncolor:
  "custom_flags_const fenv \<Longrightarrow> basic_sink_it env fenv msg s os = Some (r, m', s', os') \<Longrightarrow> uncolor m' = uncolor msg"
  by (auto simp: basic_sink_it_def bind_eq_Some_conv dest: pf_format_uncolor)

lemma rot_uncolor:
  assumes "custom_flags_const fenv" "rot_sink_it env fenv msg s os = Some (r, m', s', os')"
  shows "uncolor m' = uncolor msg"
proof -
  from assms(2) obtain pf m1 f where f: "pf_format fenv (sink_formatter s) msg [] = Some (pf, m1, f)"
    unfolding rot_sink_it_def by (auto simp: bind_eq_Some_conv)
  with assms(2) have "m' = m1"
    unfolding rot_sink_it_def Let_def by (auto split: if_splits prod.splits sum.splits dest: rot_write_msg)
  with pf_format_uncolor [OF assms(1) f] show ?thesis by simp
qed

lemma daily_uncolor:
  assumes "custom_flags_const fenv" "daily_sink_it env fenv mk msg s os = Some (r, m', s', os')"
  shows "uncolor m' = uncolor msg"
proof -
  obtain x s1 os1 where c: "(if time msg \<ge> rotation_tp s then daily_rotate env fenv mk (time msg) s os else (Inr (), s, os))
      = (x, s1, os1)" by (cases "if time msg \<ge> rotation_tp s then daily_rotate env fenv mk (time msg) s os else (Inr (), s, os)") auto
  show ?thesis
  proof (cases x)
    case (Inl e)
    with assms(2) show ?thesis unfolding daily_sink_it_def Let_def c by simp
  next
    case (Inr u)
    from assms(2) obtain pf m1 f where f: "pf_format fenv (sink_formatter s1) msg [] = Some (pf, m1, f)"
      unfolding daily_sink_it_def Let_def c Inr by (auto simp: bind_eq_Some_conv)
    with assms(2) have "m' = m1"
      unfolding daily_sink_it_def Let_def c Inr by (auto simp: bind_eq_Some_conv split: if_splits sum.splits)
    with pf_format_uncolor [OF assms(1) f] show ?thesis by simp
  qed
qed

lemma stream_sinks_uncolor:
  assumes "custom_flags_const fenv"
  shows "ostream_sink_it fenv msg s4 str = Some (m', s4', str') \<Longrightarrow> uncolor m' = uncolor msg"
    and "stdout_log fenv msg s5 str = Some (m', s5', str') \<Longrightarrow> uncolor m' = uncolor msg"
    and "ansi_log fenv msg s6 str = Some (m', s6', str') \<Longrightarrow> uncolor m' = uncolor msg"
  using pf_format_uncolor [OF assms]
  by (fastforce simp: ostream_sink_it_def stdout_log_def ansi_log_def bind_eq_Some_conv Let_def)+

fun is_leaf :: "'c sink_obj \<Rightarrow> bool" where
  "is_leaf (Dist_sink s) = False"
| "is_leaf (Dup_sink s) = False"
| "is_leaf _ = True"

fun own_stream :: "'c sink_obj \<Rightarrow> nat option" where
  "own_stream (Ostream_sink s) = Some (stream s)"
| "own_stream (Stdout_sink s) = Some (target_file s)"
| "own_stream (Ansi_sink s) = Some (target_file s)"
| "own_stream _ = None"

text \<open>Logging to a leaf changes that sink, its own stream and the file system.\<close>

definition leaf_frame :: "nat \<Rightarrow> 'c sink_obj \<Rightarrow> 'c sink_store \<Rightarrow> 'c sink_store \<Rightarrow> bool" where
  "leaf_frame a s st st1 \<longleftrightarrow> (\<exists>s1. sink_at st1 = (sink_at st)(a := Some s1) \<and> is_leaf s1 \<and> own_stream s1 = own_stream s)
     \<and> (\<forall>k. own_stream s \<noteq> Some k \<longrightarrow> streams st1 k = streams st k)"

lemma leaf_frame_put [intro]: "is_leaf s1 \<Longrightarrow> own_stream s1 = own_stream s \<Longrightarrow> leaf_frame a s st (put_sink a s1 os st)"
  by (auto simp: leaf_frame_def put_sink_def)

lemma sink_log_leaf:
  assumes c: "custom_flags_const (format_env env)" and s: "sink_at st a = Some s" "is_leaf s"
    and l: "sink_log env depth a msg st = Some (r, msg1, st1)"
  shows "leaf_frame a s st st1 \<and> uncolor msg1 = uncolor msg"
proof -
  obtain n where d: "depth = Suc n" using l by (cases depth) auto
  show ?thesis
  proof (cases s)
    case (Null_sink x)
    with l s(1) have "st1 = st" "msg1 = msg" by (simp_all add: d)
    with Null_sink s(1) show ?thesis
      by (auto simp: leaf_frame_def fun_upd_idem intro!: exI [of _ "Null_sink x"])
  next
    case (Ostream_sink x)
    with l s(1) obtain x1 str where o: "ostream_sink_it (format_env env) msg x (streams st (stream x)) = Some (msg1, x1, str)"
      "st1 = st\<lparr>sink_at := (sink_at st)(a := Some (Ostream_sink x1)), streams := (streams st)(stream x := str)\<rparr>"
      by (auto simp: d)
    then have "stream x1 = stream x" by (auto simp: ostream_sink_it_def Let_def)
    with Ostream_sink o(2) stream_sinks_uncolor(1) [OF c o(1)] show ?thesis by (auto simp: leaf_frame_def)
  next
    case (Stdout_sink x)
    with l s(1) obtain x1 str where o: "stdout_log (format_env env) msg x (streams st (target_file x)) = Some (msg1, x1, str)"
      "st1 = st\<lparr>sink_at := (sink_at st)(a := Some (Stdout_sink x1)), streams := (streams st)(target_file x := str)\<rparr>"
      by (auto simp: d)
    then have "target_file x1 = target_file x" by (auto simp: stdout_log_def)
    with Stdout_sink o(2) stream_sinks_uncolor(2) [OF c o(1)] show ?thesis by (auto simp: leaf_frame_def)
  next
    case (Ansi_sink x)
    with l s(1) obtain x1 str where o: "ansi_log (format_env env) msg x (streams st (target_file x)) = Some (msg1, x1, str)"
      "st1 = st\<lparr>sink_at := (sink_at st)(a := Some (Ansi_sink x1)), streams := (streams st)(target_file x := str)\<rparr>"
      by (auto simp: d)
    then have "target_file x1 = target_file x" by (auto simp: ansi_log_def bind_eq_Some_conv)
    with Ansi_sink o(2) stream_sinks_uncolor(3) [OF c o(1)] show ?thesis by (auto simp: leaf_frame_def)
  next
    case (Ring_sink x)
    with l s(1) show ?thesis by (auto simp: d)
  next
    case (Basic_sink x)
    with l s(1) show ?thesis using basic_uncolor [OF c] by (auto simp: d)
  next
    case (Rotating_sink x)
    with l s(1) show ?thesis using rot_uncolor [OF c] by (auto simp: d)
  next
    case (Daily_sink x)
    with l s(1) show ?thesis using daily_uncolor [OF c] by (auto simp: d)
  qed (use s(2) in simp_all)
qed

section \<open>The loop over the sinks\<close>

lemma err_handler_sinks [simp, sink_simps]: "sinks_part (err_handler env lg e w) = sinks_part w"
  by (simp add: err_handler_def default_err_handler_def Let_def split: option.split)

lemma call_sinks_append:
  "call_sinks env depth lg (as @ bs) msg w =
    Option.bind (call_sinks env depth lg as msg w) (\<lambda>(msg1, w1). call_sinks env depth lg bs msg1 w1)"
proof (induction as arbitrary: msg w)
  case (Cons a as)
  then show ?case by (cases "sink_at (sinks_part w) a")
    (auto simp: Let_def Option.bind_assoc case_prod_unfold intro!: Option.bind_cong)
qed simp

text \<open>The sinks of a list are leaves, and write to other streams than k.\<close>

definition other_leaves :: "nat \<Rightarrow> nat list \<Rightarrow> 'c sink_store \<Rightarrow> bool" where
  "other_leaves k as st \<longleftrightarrow> (\<forall>a \<in> set as. \<exists>s. sink_at st a = Some s \<and> is_leaf s \<and> own_stream s \<noteq> Some k)"

lemma other_leavesD: "other_leaves k as st \<Longrightarrow> a \<in> set as \<Longrightarrow> sink_at st a = Some s \<Longrightarrow> is_leaf s \<and> own_stream s \<noteq> Some k"
  by (auto simp: other_leaves_def)

lemma other_leaves_frame:
  assumes "leaf_frame a s st st1" "own_stream s \<noteq> Some k" "other_leaves k as st"
  shows "other_leaves k as st1" "streams st1 k = streams st k"
  using assms by (auto simp: leaf_frame_def other_leaves_def)

lemma other_leaves_upd: "leaf_frame a s st st1 \<Longrightarrow> a \<notin> set as \<Longrightarrow> other_leaves k as st \<Longrightarrow> other_leaves k as st1"
  by (auto simp: leaf_frame_def other_leaves_def)

lemma call_sinks_other:
  assumes c: "custom_flags_const (format_env env)"
  shows "call_sinks env depth lg as msg w = Some (msg1, w1) \<Longrightarrow> other_leaves k (as @ bs) (sinks_part w) \<Longrightarrow>
    uncolor msg1 = uncolor msg \<and> streams (sinks_part w1) k = streams (sinks_part w) k
    \<and> other_leaves k bs (sinks_part w1) \<and> (\<forall>a. a \<notin> set as \<longrightarrow> sink_at (sinks_part w1) a = sink_at (sinks_part w) a)"
proof (induction as arbitrary: msg w)
  case Nil
  then show ?case by simp
next
  case (Cons a as)
  from Cons.prems(2) obtain s where s: "sink_at (sinks_part w) a = Some s" "is_leaf s" "own_stream s \<noteq> Some k"
    by (auto simp: other_leaves_def)
  have o: "other_leaves k (as @ bs) (sinks_part w)" using Cons.prems(2) by (simp add: other_leaves_def)
  show ?case
  proof (cases "sink_should_log (level msg) s")
    case False
    with Cons.prems(1) s(1) have "call_sinks env depth lg as msg w = Some (msg1, w1)" by simp
    from Cons.IH [OF this o] show ?thesis by simp
  next
    case True
    with Cons.prems(1) s(1) obtain r m2 st2 where l: "sink_log env depth a msg (sinks_part w) = Some (r, m2, st2)"
      by (auto simp: bind_eq_Some_conv)
    define w2 where "w2 = (case r of Inl e \<Rightarrow> err_handler env lg (Sink_error e) (w\<lparr>sinks_part := st2\<rparr>) | Inr _ \<Rightarrow> w\<lparr>sinks_part := st2\<rparr>)"
    have w2: "sinks_part w2 = st2" by (simp add: w2_def split: sum.split)
    have rest: "call_sinks env depth lg as m2 w2 = Some (msg1, w1)"
      using Cons.prems(1) s(1) True l by (simp add: w2_def Let_def)
    from sink_log_leaf [OF c s(1,2) l] have f: "leaf_frame a s (sinks_part w) st2" "uncolor m2 = uncolor msg" by simp_all
    from other_leaves_frame [OF f(1) s(3) o] w2 have "other_leaves k (as @ bs) (sinks_part w2)"
      "streams (sinks_part w2) k = streams (sinks_part w) k" by simp_all
    with Cons.IH [OF rest this(1)] f w2 show ?thesis by (auto simp: leaf_frame_def)
  qed
qed

lemma sink_flush_leaf:
  assumes "sink_at st a = Some s" "is_leaf s" "sink_flush depth a st = Some st1"
  shows "sink_at st1 = sink_at st \<and> fst (streams st1 k) = fst (streams st k)"
proof -
  obtain n where d: "depth = Suc n" using assms(3) by (cases depth) auto
  show ?thesis using assms by (cases s) (auto simp: d stream_flush_def)
qed

lemma sinks_flush_leaves:
  "\<forall>a \<in> set as. \<exists>s. sink_at st a = Some s \<and> is_leaf s \<Longrightarrow> sinks_flush (sink_flush depth) as st = Some st1 \<Longrightarrow>
    sink_at st1 = sink_at st \<and> fst (streams st1 k) = fst (streams st k)"
proof (induction as arbitrary: st)
  case (Cons a as)
  then obtain s where s: "sink_at st a = Some s" "is_leaf s" by auto
  from Cons.prems(2) obtain st2 where f: "sink_flush depth a st = Some st2" "sinks_flush (sink_flush depth) as st2 = Some st1"
    by (auto simp: bind_eq_Some_conv)
  from sink_flush_leaf [OF s f(1)] have "sink_at st2 = sink_at st" "fst (streams st2 k) = fst (streams st k)" by auto
  with Cons.IH [OF _ f(2)] Cons.prems(1) show ?case by simp
qed simp

lemma full_line_uncolor: "uncolor m' = uncolor m \<Longrightarrow> full_line m' t = full_line m t \<and> formattable m' = formattable m"
  using uncolor_fields [of m' m] by (simp add: full_line_def formattable_def cong: if_cong)

lemma ostream_log:
  assumes "custom_flags_plain (format_env env)" "uncolor m' = uncolor m"
    and "sink_at st a = Some (Ostream_sink x)" "sink_log env (Suc d) a m' st = Some (r, m1, st1)"
  shows "\<exists>pf m2 l. pf_format (format_env env) (sink_formatter x) m [] = Some (pf, m2, l)
    \<and> fst (streams st1 (stream x)) = fst (streams st (stream x)) @ l
    \<and> sink_at st1 a = Some (Ostream_sink (x\<lparr>sink_formatter := pf\<rparr>))"
proof -
  from assms(3,4) obtain x1 str where
    o: "ostream_sink_it (format_env env) m' x (streams st (stream x)) = Some (m1, x1, str)"
      "st1 = st\<lparr>sink_at := (sink_at st)(a := Some (Ostream_sink x1)), streams := (streams st)(stream x := str)\<rparr>"
    by auto
  from o(1) obtain pf l where pf: "pf_format (format_env env) (sink_formatter x) m' [] = Some (pf, m1, l)"
    "x1 = x\<lparr>sink_formatter := pf\<rparr>" "fst str = fst (streams st (stream x)) @ l"
    by (auto simp: ostream_sink_it_def Let_def)
  from pf_format_blind [OF assms(1,2) pf(1)] pf(2,3) o(2) show ?thesis by auto
qed

text \<open>The flush at the end of \<open>sink_it_\<close> leaves the text of the streams alone.\<close>

lemma plain_sink_it_cases:
  assumes "plain_sink_it env depth lg m w = Some (m1, w1)"
  obtains w2 where "call_sinks env depth lg (lg_sinks lg) m w = Some (m1, w2)"
    "w1 = w2 \<or> (\<exists>st. sinks_flush (sink_flush depth) (lg_sinks lg) (sinks_part w2) = Some st \<and> w1 = w2\<lparr>sinks_part := st\<rparr>)"
proof -
  from assms obtain m2 w2 where c: "call_sinks env depth lg (lg_sinks lg) m w = Some (m2, w2)"
    "(if should_flush lg m2 then map_option (Pair m2) (plain_flush depth lg w2) else Some (m2, w2)) = Some (m1, w1)"
    unfolding plain_sink_it_def by (auto simp: bind_eq_Some_conv)
  show ?thesis
  proof (cases "should_flush lg m2")
    case True
    with c(2) have "plain_flush depth lg w2 = Some w1" "m2 = m1" by auto
    with c(1) that [of w2] show ?thesis by (auto simp: plain_flush_def)
  next
    case False
    with c that [of w2] show ?thesis by simp
  qed
qed

lemma isolates_sinks:
  assumes "custom_flags_plain (format_env env)" "lg_sinks lg = as @ a # bs"
    and "sink_at (sinks_part w) a = Some (Ostream_sink x)" "sink_level x \<le> level m"
    and "other_leaves (stream x) (as @ bs) (sinks_part w)" "plain_sink_it env (Suc d) lg m w = Some (m1, w1)"
  shows "\<exists>pf m2 l. pf_format (format_env env) (sink_formatter x) m [] = Some (pf, m2, l)
    \<and> fst (streams (sinks_part w1) (stream x)) = fst (streams (sinks_part w) (stream x)) @ l
    \<and> sink_at (sinks_part w1) a = Some (Ostream_sink (x\<lparr>sink_formatter := pf\<rparr>))"
proof -
  have c: "custom_flags_const (format_env env)" using assms(1) by (simp add: custom_flags_plain_def)
  let ?k = "stream x" and ?d = "Suc d"
  have na: "a \<notin> set as" "a \<notin> set bs" using other_leavesD [OF assms(5) _ assms(3)] by auto
  from assms(6) obtain w2 where call: "call_sinks env ?d lg (as @ a # bs) m w = Some (m1, w2)"
    and fl: "w1 = w2 \<or> (\<exists>st. sinks_flush (sink_flush ?d) (as @ a # bs) (sinks_part w2) = Some st \<and> w1 = w2\<lparr>sinks_part := st\<rparr>)"
    by (rule plain_sink_it_cases) (unfold assms(2), rule that)
  from call obtain ma wa where ca: "call_sinks env ?d lg as m w = Some (ma, wa)" "call_sinks env ?d lg (a # bs) ma wa = Some (m1, w2)"
    unfolding call_sinks_append bind_eq_Some_conv by (auto simp del: call_sinks.simps)
  have "other_leaves ?k (as @ bs @ as) (sinks_part w)" using assms(5) by (auto simp: other_leaves_def)
  from call_sinks_other [OF c ca(1) this] na(1) have fa: "uncolor ma = uncolor m"
    "streams (sinks_part wa) ?k = streams (sinks_part w) ?k" "other_leaves ?k (bs @ as) (sinks_part wa)"
    "sink_at (sinks_part wa) a = Some (Ostream_sink x)" using assms(3) by simp_all
  have "level ma = level m" using uncolor_fields [OF fa(1)] by simp
  then have "sink_should_log (level ma) (Ostream_sink x)" using assms(4) by (simp add: sink_should_log_def)
  with ca(2) fa(4) obtain r mb st1 where o: "sink_log env ?d a ma (sinks_part wa) = Some (r, mb, st1)"
    by (auto simp: bind_eq_Some_conv simp del: sink_log.simps)
  from ostream_log [OF assms(1) fa(1,4) o] obtain pf m2 l where
    pf: "pf_format (format_env env) (sink_formatter x) m [] = Some (pf, m2, l)"
      "fst (streams st1 ?k) = fst (streams (sinks_part w) ?k) @ l"
      "sink_at st1 a = Some (Ostream_sink (x\<lparr>sink_formatter := pf\<rparr>))"
    unfolding fa(2) by blast
  define wb where "wb = (case r of Inl e \<Rightarrow> err_handler env lg (Sink_error e) (wa\<lparr>sinks_part := st1\<rparr>)
    | Inr _ \<Rightarrow> wa\<lparr>sinks_part := st1\<rparr>)"
  have wb: "sinks_part wb = st1" by (simp add: wb_def split: sum.split)
  have cb: "call_sinks env ?d lg bs mb wb = Some (m1, w2)"
    using ca(2) fa(4) o \<open>sink_should_log (level ma) (Ostream_sink x)\<close>
    by (simp add: Let_def wb_def del: sink_log.simps)
  from sink_log_leaf [OF c fa(4) _ o] have fr: "leaf_frame a (Ostream_sink x) (sinks_part wa) st1" by simp
  from other_leaves_upd [OF fr _ fa(3)] na have ob: "other_leaves ?k (bs @ bs @ as) (sinks_part wb)"
    unfolding wb by (auto simp: other_leaves_def)
  from call_sinks_other [OF c cb ob] have s2: "streams (sinks_part w2) ?k = streams st1 ?k"
    "other_leaves ?k (bs @ as) (sinks_part w2)" "sink_at (sinks_part w2) a = sink_at st1 a" using na(2) wb by simp_all
  have "\<forall>b \<in> set (as @ a # bs). \<exists>s. sink_at (sinks_part w2) b = Some s \<and> is_leaf s"
    using s2(2,3) pf(3) by (auto simp: other_leaves_def)
  then have fst: "sink_at st = sink_at (sinks_part w2) \<and> fst (streams st ?k) = fst (streams (sinks_part w2) ?k)"
    if "sinks_flush (sink_flush ?d) (as @ a # bs) (sinks_part w2) = Some st" for st
    using sinks_flush_leaves [OF _ that, of ?k] by blast
  from fl have "sink_at (sinks_part w1) = sink_at (sinks_part w2)
      \<and> fst (streams (sinks_part w1) ?k) = fst (streams (sinks_part w2) ?k)"
  proof
    assume "\<exists>st. sinks_flush (sink_flush ?d) (as @ a # bs) (sinks_part w2) = Some st \<and> w1 = w2\<lparr>sinks_part := st\<rparr>"
    then obtain st where "sinks_flush (sink_flush ?d) (as @ a # bs) (sinks_part w2) = Some st" "w1 = w2\<lparr>sinks_part := st\<rparr>" by blast
    with fst [OF this(1)] show ?thesis by simp
  qed simp
  with s2(1,3) pf show ?thesis by auto
qed

text \<open>
  C8 [safety] A logger delivers a message to a sink whatever happens at its other sinks: an ostream sink, whose
  level admits the message, among other sinks of any kind but the distributing ones (dist_sink and
  dup_filter_sink), none of which writes to the same stream and any of which may throw or rotate files, gets
  exactly the line that its own formatter, whatever its pattern and state, makes of the message, once, and
  only that formatter of it changes.  Custom flags of the user may set the color range of the message but neither
  read it nor change anything else; and the call is supposed not to run into undefined behaviour.
\<close>

theorem logger_isolates_sinks:
  assumes "custom_flags_plain (format_env env)" "lg_sinks lg = as @ a # bs"
    and "sink_at (sinks_part w) a = Some (Ostream_sink x)" "sink_level x \<le> level m"
    and "other_leaves (stream x) (as @ bs) (sinks_part w)" "plain_sink_it env (Suc d) lg m w = Some (m1, w1)"
  shows "\<exists>pf m2 l. pf_format (format_env env) (sink_formatter x) m [] = Some (pf, m2, l)
    \<and> fst (streams (sinks_part w1) (stream x)) = fst (streams (sinks_part w) (stream x)) @ l
    \<and> sink_at (sinks_part w1) a = Some (Ostream_sink (x\<lparr>sink_formatter := pf\<rparr>))"
  by (rule isolates_sinks [OF assms])

text \<open>A file sink on a full disk, and after it an ostream sink.\<close>

definition full_disk :: "unit sink_env" where
  "full_disk = \<lparr>files_env = good_env\<lparr>write_room := (\<lambda>os i. 0)\<rparr>, format_env = sample_env, mktime = (\<lambda>t. 0), this_thread = 1\<rparr>"

definition failing_file :: "unit basic_file_sink" where
  "failing_file = \<lparr>sink_level = Trace, sink_formatter = default_formatter, basic_file = \<lparr>fd = Some 0, opened_name = ''log.txt''\<rparr>\<rparr>"

definition working_stream :: "unit ostream_sink" where
  "working_stream = \<lparr>sink_level = Trace, sink_formatter = default_formatter, stream = 1, force_flush = True\<rparr>"

definition two_sinks :: "unit log_world" where
  "two_sinks = \<lparr>sinks_part = \<lparr>sink_at = [1 \<mapsto> Basic_sink failing_file, 2 \<mapsto> Ostream_sink working_stream],
     streams = (\<lambda>k. ([], 0)), os_part = fresh_os\<rparr>, err_counter = 0, last_report_time = 0, reports = [],
     handler_calls = [], pools = (\<lambda>tp. None)\<rparr>"

lemma sample_formattable: "formattable sample_msg" "duration_cast ns_per_sec (time sample_msg) \<noteq> 0"
  by (simp_all add: formattable_def sample_msg_def make_log_msg_def source_empty_def no_source_def
    duration_cast_def ns_per_sec_def)

lemma custom_const_sample: "custom_flags_const sample_env" "custom_flags_plain sample_env"
  by (simp_all add: custom_flags_plain_def custom_flags_const_def sample_env_def)

lemma two_sinks_run:
  fixes env :: "unit sink_env"
  assumes m: "formattable m" "duration_cast ns_per_sec (time m) \<noteq> 0" "level m = Warn"
    and env: "write_room (files_env env) = (\<lambda>os i. 0)" "format_env env = sample_env"
  shows "\<exists>m1 w1. plain_sink_it env (Suc 0) (lg_set_error_handler (Some 9) (new_logger ''db'' [1, 2])) m two_sinks
     = Some (m1, w1) \<and> handler_calls w1 = [(9, Sink_error (Write_failed ''log.txt''))]"
proof -
  define line where "line = full_line m (get_time sample_env Local_time (time m)) @ [CHR 0x0A]"
  have ne: "line \<noteq> []" by (simp add: line_def)
  from pf_format_caches [OF default_formatter_ok m(1,2), of sample_env "[]"] obtain pf m1 where
    f: "pf_format sample_env default_formatter m [] = Some (pf, m1, line)"
    "uncolor m1 = uncolor m" unfolding line_def using pf_format_uncolor [OF custom_const_sample(1)] by fastforce
  have m1: "formattable m1" "duration_cast ns_per_sec (time m1) \<noteq> 0" "level m1 = Warn"
    using full_line_uncolor [OF f(2)] uncolor_fields [OF f(2)] m by simp_all
  from pf_format_caches [OF default_formatter_ok m1(1,2), of sample_env "[]"] obtain pf2 m2 line2 where
    f2: "pf_format sample_env default_formatter m1 [] = Some (pf2, m2, line2)" by auto
  have le: "Trace \<le> Warn" by (simp add: less_eq_level_enum_def)
  show ?thesis
    using f(1) f2 ne le m(3) m1(3) env
    by (simp add: plain_sink_it_def plain_flush_def two_sinks_def new_logger_def lg_set_error_handler_def failing_file_def
      working_stream_def sink_should_log_def basic_sink_it_def fh_write_def os_fwrite_def ostream_sink_it_def
      put_sink_def err_handler_def Let_def)
qed

lemma full_disk_parts: "write_room (files_env full_disk) = (\<lambda>os i. 0)" "format_env full_disk = sample_env"
  by (simp_all add: full_disk_def)

lemma sample_level: "level sample_msg = Warn"
  by (simp add: sample_msg_def make_log_msg_def)

theorem logger_isolates_sinks_witness:
  "\<exists>m1 w1. plain_sink_it full_disk (Suc 0) (lg_set_error_handler (Some 9) (new_logger ''db'' [1, 2])) sample_msg two_sinks
      = Some (m1, w1) \<and> handler_calls w1 = [(9, Sink_error (Write_failed ''log.txt''))]
    \<and> fst (streams (sinks_part w1) 1) = full_line sample_msg sample_tm @ [CHR 0x0A]"
proof -
  let ?lg = "lg_set_error_handler (Some 9) (new_logger ''db'' [1, 2])"
  from two_sinks_run [OF sample_formattable sample_level full_disk_parts] obtain m1 w1 where r: "plain_sink_it full_disk (Suc 0) ?lg sample_msg two_sinks = Some (m1, w1)"
    "handler_calls w1 = [(9, Sink_error (Write_failed ''log.txt''))]" by blast
  have s: "lg_sinks ?lg = [1] @ 2 # []" by (simp add: lg_set_error_handler_def new_logger_def)
  have a: "sink_at (sinks_part two_sinks) 2 = Some (Ostream_sink working_stream)" by (simp add: two_sinks_def)
  have c: "caches_ok (format_env full_disk) Local_time [CHR 0x0A] (sink_formatter working_stream)"
    by (simp add: working_stream_def default_formatter_ok)
  have l: "sink_level working_stream \<le> level sample_msg"
    by (simp add: working_stream_def sample_msg_def make_log_msg_def less_eq_level_enum_def)
  have o: "other_leaves (stream working_stream) ([1] @ []) (sinks_part two_sinks)"
    by (simp add: other_leaves_def two_sinks_def)
  have k: "custom_flags_plain (format_env full_disk)" using custom_const_sample by (simp add: full_disk_def)
  from logger_isolates_sinks [OF k s a l o r(1)] pf_format_caches [OF c sample_formattable, of "[]"]
  have "fst (streams (sinks_part w1) 1) = full_line sample_msg sample_tm @ [CHR 0x0A]"
    by (auto simp: working_stream_def two_sinks_def full_disk_def get_time_def sample_env_def)
  with r show ?thesis by blast
qed

section \<open>The backtrace\<close>

fun plain_sink_all :: "'c sink_env \<Rightarrow> nat \<Rightarrow> logger \<Rightarrow> log_msg list \<Rightarrow> 'c log_world \<Rightarrow> 'c log_world option" where
  "plain_sink_all env depth lg [] w = Some w"
| "plain_sink_all env depth lg (m # ms) w =
     Option.bind (plain_sink_it env depth lg m w) (\<lambda>(m1, w1). plain_sink_all env depth lg ms w1)"

type_synonym log_item = "int \<times> source_loc \<times> level_enum \<times> string"

definition item_msg :: "'c sink_env \<Rightarrow> logger \<Rightarrow> log_item \<Rightarrow> log_msg" where
  "item_msg env lg = (\<lambda>(t, loc, lvl, txt). make_log_msg t (this_thread env) loc (lg_name lg) lvl txt)"

fun log_at_all :: "'c sink_env \<Rightarrow> nat \<Rightarrow> nat \<Rightarrow> log_item list \<Rightarrow> logger \<Rightarrow> 'c log_world \<Rightarrow> 'c log_result" where
  "log_at_all env depth this [] lg w = Some (Inr (), lg, w)"
| "log_at_all env depth this ((t, loc, lvl, txt) # its) lg w =
     Option.bind (log_at env depth this t loc lvl txt lg w) (\<lambda>(r, lg1, w1).
       case r of Inl e \<Rightarrow> Some (Inl e, lg1, w1) | Inr _ \<Rightarrow> log_at_all env depth this its lg1 w1)"

lemma call_sinks_tracer: "call_sinks env depth (lg\<lparr>lg_tracer := bt\<rparr>) as msg w = call_sinks env depth lg as msg w"
  by (induction as arbitrary: msg w)
    (simp_all add: err_handler_def case_prod_unfold Let_def cong: option.case_cong sum.case_cong if_cong)

lemma plain_sink_it_tracer [simp, sink_simps]:
  "plain_sink_it env depth (lg\<lparr>lg_tracer := bt\<rparr>) msg w = plain_sink_it env depth lg msg w"
  by (simp add: plain_sink_it_def plain_flush_def call_sinks_tracer should_flush_def case_prod_unfold cong: if_cong)

lemma bt_push_all_enabled: "bt_push_all ms bt = Some bt1 \<Longrightarrow> is_enabled bt1 = is_enabled bt"
proof (induction ms arbitrary: bt)
  case (Cons m ms)
  then obtain q where "bt_push_all ms (bt\<lparr>messages := q\<rparr>) = Some bt1" by (auto simp: bind_eq_Some_conv bt_push_back_def)
  from Cons.IH [OF this] show ?case by simp
qed simp

lemma plain_sink_one: "plain_sink_all env depth lg [m] w = map_option snd (plain_sink_it env depth lg m w)"
  by (cases "plain_sink_it env depth lg m w") auto

lemma log_at_all_hidden:
  "\<forall>(t, loc, lvl, txt) \<in> set is. lvl < lg_level lg \<Longrightarrow> bt_enabled (lg_tracer lg) \<Longrightarrow>
    bt_push_all (map (item_msg env lg) is) (lg_tracer lg) = Some bt \<Longrightarrow>
    log_at_all env depth this is lg w = Some (Inr (), lg\<lparr>lg_tracer := bt\<rparr>, w)"
proof (induction "is" arbitrary: lg)
  case Nil
  then show ?case by simp
next
  case (Cons i "is")
  obtain t loc lvl s where i: "i = (t, loc, lvl, s)" by (cases i) auto
  from Cons.prems(3) obtain bt1 where b: "bt_push_back (item_msg env lg i) (lg_tracer lg) = Some bt1"
    "bt_push_all (map (item_msg env lg) is) bt1 = Some bt" by (auto simp: bind_eq_Some_conv)
  have e: "bt_enabled bt1" using b(1) Cons.prems(2) by (auto simp: bt_push_back_def bt_enabled_def)
  have "\<not> lg_should_log lvl lg" using Cons.prems(1) by (simp add: i lg_should_log_def not_le)
  then have step: "log_at env depth this t loc lvl s lg w = Some (Inr (), lg\<lparr>lg_tracer := bt1\<rparr>, w)"
    using Cons.prems(2) b(1) by (simp add: log_at_def log_it_def item_msg_def i)
  have "item_msg env (lg\<lparr>lg_tracer := bt1\<rparr>) = item_msg env lg" by (simp add: item_msg_def fun_eq_iff)
  with Cons.IH [of "lg\<lparr>lg_tracer := bt1\<rparr>"] Cons.prems(1) b(2) e step show ?case by (simp add: i)
qed

lemma dump_one_fold:
  "lg_pool lg = None \<Longrightarrow> fold (dump_one env depth this lg) ms (Some w) = plain_sink_all env depth lg ms w"
proof (induction ms arbitrary: w)
  case (Cons m ms)
  have step: "dump_one env depth this lg m (Some w) = map_option snd (plain_sink_it env depth lg m w)"
    using Cons.prems by (simp add: dump_one_def lg_sink_it_def option.map_comp o_def case_prod_unfold)
  have none: "fold (dump_one env depth this lg) ms None = None" by (induction ms) (simp_all add: dump_one_def)
  show ?case
  proof (cases "plain_sink_it env depth lg m w")
    case None
    with none step show ?thesis by simp
  next
    case (Some r)
    then obtain m1 w1 where "plain_sink_it env depth lg m w = Some (m1, w1)" by (cases r) auto
    with Cons step show ?thesis by simp
  qed
qed simp

lemma plain_sink_all_tracer [simp, sink_simps]:
  "plain_sink_all env depth (lg\<lparr>lg_tracer := bt\<rparr>) ms w = plain_sink_all env depth lg ms w"
  by (induction ms arbitrary: w) (simp_all add: case_prod_unfold)

text \<open>
  C14 [functional] Messages below a logger's level are kept by its backtrace, touching nothing else, and
  dump_backtrace then sends to the sinks exactly the start marker, the last n of them in the order they
  were logged, and the end marker, and empties the backtrace, which stays enabled.
\<close>

theorem dump_backtrace_replays:
  assumes "n \<noteq> - 1" "lg_pool lg = None" "\<forall>(t, loc, lvl, txt) \<in> set is. lvl < lg_level lg"
  shows "\<exists>lg1 bt. log_at_all env depth this is (lg_enable_backtrace n lg) w = Some (Inr (), lg1, w)
    \<and> dump_backtrace env depth this lg1 w =
        Option.bind (plain_sink_all env depth lg [marker env lg backtrace_start w] w) (\<lambda>w1.
          Option.bind (plain_sink_all env depth lg (keep_last (unat n) (map (item_msg env lg) is)) w1) (\<lambda>w2.
            map_option (\<lambda>w3. (Inr (), lg1\<lparr>lg_tracer := bt\<rparr>, w3))
              (plain_sink_all env depth lg [marker env lg backtrace_end w2] w2)))
    \<and> bt_enabled bt \<and> circ_contents (messages bt) = []"
proof -
  define lg0 where "lg0 = lg_enable_backtrace n lg"
  define ms where "ms = map (item_msg env lg) is"
  have lg0: "lg_pool lg0 = None" "lg_level lg0 = lg_level lg" "bt_enabled (lg_tracer lg0)" "item_msg env lg0 = item_msg env lg"
    "lg_tracer lg0 = bt_enable n (lg_tracer lg)"
    using assms(2) by (simp_all add: lg0_def lg_enable_backtrace_def bt_enabled_def bt_enable_def item_msg_def fun_eq_iff)
  have replay: "\<exists>bt1 bt2. bt_push_all ms (lg_tracer lg0) = Some bt1
    \<and> bt_foreach_pop fn bt1 s = Some (bt2, fold fn (keep_last (unat n) ms) s)
    \<and> bt_enabled bt2 \<and> circ_contents (messages bt2) = []" for fn and s :: "'a log_world option"
    unfolding lg0(5) by (rule bt_replays [OF assms(1)])
  from replay obtain bt1 where p: "bt_push_all ms (lg_tracer lg0) = Some bt1" by blast
  from p lg0(3) have e1: "bt_enabled bt1" unfolding bt_enabled_def by (metis bt_push_all_enabled)
  define lg1 where "lg1 = lg0\<lparr>lg_tracer := bt1\<rparr>"
  have "log_at_all env depth this is lg0 w = Some (Inr (), lg1, w)"
    unfolding lg1_def using p lg0 assms(3) by (intro log_at_all_hidden) (simp_all add: ms_def)
  moreover have plain: "plain_sink_it env depth lg1 m v = plain_sink_it env depth lg m v"
    "plain_sink_all env depth lg1 ns v = plain_sink_all env depth lg ns v" for m v ns
    by (simp_all add: lg1_def lg0_def lg_enable_backtrace_def)
  have mark: "marker env lg1 t v = marker env lg t v" for t v
    by (simp add: marker_def lg1_def lg0_def lg_enable_backtrace_def)
  have pool: "lg_pool lg1 = None" by (simp add: lg1_def lg0(1))
  have sink: "lg_sink_it env depth this lg1 m v = map_option (\<lambda>(m1, v1). (Inr (), m1, v1)) (plain_sink_it env depth lg m v)" for m v
    by (simp add: lg_sink_it_def pool plain)
  have "\<exists>bt. dump_backtrace env depth this lg1 w =
        Option.bind (plain_sink_all env depth lg [marker env lg backtrace_start w] w) (\<lambda>w1.
          Option.bind (plain_sink_all env depth lg (keep_last (unat n) ms) w1) (\<lambda>w2.
            map_option (\<lambda>w3. (Inr (), lg1\<lparr>lg_tracer := bt\<rparr>, w3))
              (plain_sink_all env depth lg [marker env lg backtrace_end w2] w2)))
    \<and> bt_enabled bt \<and> circ_contents (messages bt) = []"
  proof (cases "plain_sink_it env depth lg (marker env lg backtrace_start w) w")
    case None
    with replay [of "dump_one env depth this lg1" None] e1 show ?thesis
      by (auto simp: dump_backtrace_def lg1_def [symmetric] sink mark) (simp add: lg1_def)
  next
    case (Some r)
    then obtain m1 w1 where r: "plain_sink_it env depth lg (marker env lg backtrace_start w) w = Some (m1, w1)" by (cases r) auto
    from replay [of "dump_one env depth this lg1" "Some w1"] p obtain bt2 where
      f: "bt_foreach_pop (dump_one env depth this lg1) bt1 (Some w1) = Some (bt2, plain_sink_all env depth lg (keep_last (unat n) ms) w1)"
        "bt_enabled bt2" "circ_contents (messages bt2) = []" unfolding dump_one_fold [OF pool] plain by auto
    have t: "lg_tracer lg1 = bt1" by (simp add: lg1_def)
    show ?thesis
      using f e1 r by (intro exI [of _ bt2])
        (simp add: dump_backtrace_def t sink mark case_prod_unfold option.map_comp o_def plain_sink_one del: plain_sink_all.simps)
  qed
  ultimately show ?thesis unfolding lg0_def [symmetric] ms_def [symmetric] by blast
qed

definition plain_stream :: "unit ostream_sink" where
  "plain_stream = \<lparr>sink_level = Trace, sink_formatter = payload_formatter, stream = 1, force_flush = False\<rparr>"

definition good_sinks :: "unit sink_env" where
  "good_sinks = \<lparr>files_env = good_env, format_env = sample_env, mktime = (\<lambda>t. 0), this_thread = 1\<rparr>"

definition one_sink :: "string \<Rightarrow> unit log_world" where
  "one_sink out = \<lparr>sinks_part = \<lparr>sink_at = [1 \<mapsto> Ostream_sink plain_stream], streams = (\<lambda>k. ([], 0))(1 := (out, 0)),
     os_part = fresh_os\<rparr>, err_counter = 0, last_report_time = 0, reports = [], handler_calls = [], pools = (\<lambda>tp. None)\<rparr>"

definition warn_logger :: logger where
  "warn_logger = lg_set_level Warn (new_logger [] [1])"

lemma one_sink_it:
  "plain_sink_it good_sinks (Suc 0) warn_logger (text_msg s) (one_sink out) = Some (text_msg s, one_sink (out @ s @ ''|''))"
proof -
  have l: "level (text_msg s) = Info" by (simp add: text_msg_def make_log_msg_def)
  have e: "stream plain_stream = 1" "force_flush plain_stream = False" "sink_formatter plain_stream = payload_formatter"
    "sink_level plain_stream = Trace" "plain_stream\<lparr>sink_formatter := payload_formatter\<rparr> = plain_stream"
    by (simp_all add: plain_stream_def)
  have le: "Trace \<le> Info" "\<not> Off_level \<le> Info" by (simp_all add: less_eq_level_enum_def)
  show ?thesis
    by (simp add: plain_sink_it_def one_sink_def warn_logger_def lg_set_level_def new_logger_def should_flush_def
      good_sinks_def sink_should_log_def ostream_sink_it_def l le e payload_format fun_upd_idem)
qed

lemma one_sink_all:
  "plain_sink_all good_sinks (Suc 0) warn_logger (map text_msg ss) (one_sink out)
    = Some (one_sink (out @ concat (map (\<lambda>s. s @ ''|'') ss)))"
  by (induction ss arbitrary: out) (simp_all add: one_sink_it)

theorem dump_backtrace_replays_witness:
  "\<exists>lg1 lg2. log_at_all good_sinks (Suc 0) 7 (map (\<lambda>s. (0, no_source, Info, s)) [''one'', ''two'', ''three''])
        (lg_enable_backtrace 2 warn_logger) (one_sink []) = Some (Inr (), lg1, one_sink [])
    \<and> dump_backtrace good_sinks (Suc 0) 7 lg1 (one_sink [])
      = Some (Inr (), lg2, one_sink (backtrace_start @ ''|two|three|'' @ backtrace_end @ ''|''))"
proof -
  have now: "marker good_sinks warn_logger t (one_sink out) = text_msg t" for t out
    by (simp add: marker_def world_now_def one_sink_def good_sinks_def good_env_def fresh_os_def text_msg_def warn_logger_def
      lg_set_level_def new_logger_def)
  have item: "item_msg good_sinks warn_logger (0, no_source, Info, s) = text_msg s" for s
    by (simp add: item_msg_def good_sinks_def text_msg_def warn_logger_def lg_set_level_def new_logger_def)
  have keep: "keep_last (unat (2 :: u64)) (map (item_msg good_sinks warn_logger) (map (\<lambda>s. (0, no_source, Info, s))
      [''one'', ''two'', ''three''])) = map text_msg [''two'', ''three'']"
    by (simp add: keep_last_def item)
  have "(2 :: u64) \<noteq> - 1" "lg_pool warn_logger = None"
    "\<forall>(t, loc, lvl, s) \<in> set (map (\<lambda>s. (0, no_source, Info, s)) [''one'', ''two'', ''three'']). lvl < lg_level warn_logger"
    by (simp_all add: warn_logger_def lg_set_level_def new_logger_def less_level_enum_def)
  from dump_backtrace_replays [OF this, of good_sinks "Suc 0" 7 "one_sink []", unfolded keep now]
  obtain lg1 bt where r: "log_at_all good_sinks (Suc 0) 7 (map (\<lambda>s. (0, no_source, Info, s)) [''one'', ''two'', ''three''])
        (lg_enable_backtrace 2 warn_logger) (one_sink []) = Some (Inr (), lg1, one_sink [])"
    and d: "dump_backtrace good_sinks (Suc 0) 7 lg1 (one_sink []) =
        Option.bind (plain_sink_all good_sinks (Suc 0) warn_logger [text_msg backtrace_start] (one_sink [])) (\<lambda>w1.
          Option.bind (plain_sink_all good_sinks (Suc 0) warn_logger (map text_msg [''two'', ''three'']) w1) (\<lambda>w2.
            map_option (\<lambda>w3. (Inr (), lg1\<lparr>lg_tracer := bt\<rparr>, w3))
              (plain_sink_all good_sinks (Suc 0) warn_logger [marker good_sinks warn_logger backtrace_end w2] w2)))"
    by blast
  have "dump_backtrace good_sinks (Suc 0) 7 lg1 (one_sink [])
      = Some (Inr (), lg1\<lparr>lg_tracer := bt\<rparr>, one_sink (backtrace_start @ ''|two|three|'' @ backtrace_end @ ''|''))"
    unfolding d by (simp add: one_sink_it now)
  with r show ?thesis by blast
qed

section \<open>Errors\<close>

type_synonym error_event = "int \<times> string \<times> log_error"

fun handle_errors :: "error_event list \<Rightarrow> 'c log_world \<Rightarrow> 'c log_world" where
  "handle_errors [] w = w"
| "handle_errors ((t, name, e) # es) w = handle_errors es (default_err_handler t name e w)"

definition report_time :: "u64 \<times> int \<times> string \<times> log_error \<Rightarrow> int" where
  "report_time = (\<lambda>(n, t, name, e). t)"

lemma handle_errors_spec:
  "\<exists>rs. reports (handle_errors es w) = reports w @ rs
    \<and> err_counter (handle_errors es w) = err_counter w + word_of_nat (length es)
    \<and> sinks_part (handle_errors es w) = sinks_part w
    \<and> successively (\<lambda>s t. s + ns_per_sec \<le> t) (last_report_time w # map report_time rs)
    \<and> (\<forall>(n, r) \<in> set rs. \<exists>i < length es. n = err_counter w + word_of_nat (i + 1) \<and> r = es ! i)
    \<and> (\<forall>ev \<in> set es. \<exists>s \<in> set (last_report_time w # map report_time rs). fst ev < s + ns_per_sec)"
proof (induction es arbitrary: w)
  case Nil
  show ?case by (intro exI [of _ "[]"]) simp
next
  case (Cons ev es)
  obtain t name e where ev: "ev = (t, name, e)" by (cases ev) auto
  define w1 where "w1 = default_err_handler t name e w"
  have c1: "err_counter w1 = err_counter w + 1" and s1: "sinks_part w1 = sinks_part w"
    by (simp_all add: w1_def default_err_handler_def Let_def)
  from Cons.IH [of w1] obtain rs where rs: "reports (handle_errors es w1) = reports w1 @ rs"
    "err_counter (handle_errors es w1) = err_counter w1 + word_of_nat (length es)"
    "sinks_part (handle_errors es w1) = sinks_part w1"
    "successively (\<lambda>s t. s + ns_per_sec \<le> t) (last_report_time w1 # map report_time rs)"
    "\<forall>(n, r) \<in> set rs. \<exists>i < length es. n = err_counter w1 + word_of_nat (i + 1) \<and> r = es ! i"
    "\<forall>ev \<in> set es. \<exists>s \<in> set (last_report_time w1 # map report_time rs). fst ev < s + ns_per_sec" by blast
  have idx: "\<exists>i < length (ev # es). n = err_counter w + word_of_nat (i + 1) \<and> r = (ev # es) ! i" if "(n, r) \<in> set rs" for n r
  proof -
    from rs(5) that obtain i where "i < length es" "n = err_counter w1 + word_of_nat (i + 1)" "r = es ! i" by blast
    then show ?thesis by (intro exI [of _ "Suc i"]) (simp add: c1)
  qed
  have he: "handle_errors (ev # es) w = handle_errors es w1" by (simp add: ev w1_def)
  show ?case
  proof (cases "t - last_report_time w < ns_per_sec")
    case True
    then have "reports w1 = reports w" "last_report_time w1 = last_report_time w"
      by (simp_all add: w1_def default_err_handler_def Let_def)
    with rs idx True show ?thesis unfolding he
      by (intro exI [of _ rs]) (auto simp: c1 s1 ev split: prod.splits)
  next
    case False
    then have "reports w1 = reports w @ [(err_counter w + 1, t, name, e)]" "last_report_time w1 = t"
      by (simp_all add: w1_def default_err_handler_def Let_def)
    moreover have "report_time (err_counter w + 1, t, name, e) = t" "t < t + ns_per_sec"
      by (simp_all add: report_time_def ns_per_sec_def)
    moreover from this rs(6) have "\<forall>ev' \<in> set (ev # es). \<exists>s \<in> set (last_report_time w # map report_time
        ((err_counter w + 1, t, name, e) # rs)). fst ev' < s + ns_per_sec"
      unfolding \<open>last_report_time w1 = t\<close> by (auto simp: ev)
    ultimately show ?thesis using rs(1-4) idx False unfolding he
      by (intro exI [of _ "(err_counter w + 1, t, name, e) # rs"])
        (auto simp: c1 s1 ev split: prod.splits)
  qed
qed

text \<open>
  The default error handler prints at most one line per second and leaves no second with errors
  unreported: over any sequence of errors the reports are a second apart, each carries the running
  number of the error it shows, every error is counted, and each error has a report (or the time of
  the last report before the sequence) less than a second earlier, or later.
\<close>

theorem err_handler_rate_limit:
  "\<exists>rs. reports (handle_errors es w) = reports w @ rs
    \<and> err_counter (handle_errors es w) = err_counter w + word_of_nat (length es)
    \<and> successively (\<lambda>s t. s + ns_per_sec \<le> t) (last_report_time w # map report_time rs)
    \<and> (\<forall>(n, r) \<in> set rs. \<exists>i < length es. n = err_counter w + word_of_nat (i + 1) \<and> r = es ! i)
    \<and> (\<forall>ev \<in> set es. \<exists>s \<in> set (last_report_time w # map report_time rs). fst ev < s + ns_per_sec)"
  using handle_errors_spec [of es w] by blast

theorem err_handler_rate_limit_witness:
  "err_counter (handle_errors (map (\<lambda>i. (int i * 400000000 + ns_per_sec, ''db'', Sink_error (Write_failed ''f''))) [0..<10]) two_sinks) = 10
    \<and> map report_time (reports (handle_errors (map (\<lambda>i. (int i * 400000000 + ns_per_sec, ''db'', Sink_error (Write_failed ''f'')))
        [0..<10]) two_sinks)) = [1000000000, 2200000000, 3400000000, 4600000000]"
  using err_handler_rate_limit [of "map (\<lambda>i. (int i * 400000000 + ns_per_sec, ''db'', Sink_error (Write_failed ''f''))) [0..<10]" two_sinks]
  by (simp add: upt_rec two_sinks_def default_err_handler_def report_time_def ns_per_sec_def Let_def)

text \<open>
  An asynchronous logger whose thread pool is gone: a call with a ready-made text throws into the
  caller's code, and the same call with a format string catches the exception and reports it to the
  error handler; a plain logger never throws.
\<close>

theorem async_logger_without_pool:
  assumes "lg_pool lg = Some (tp, policy)" "pools w tp = None" "lg_level lg \<le> lvl"
  shows "log_text env depth this loc lvl txt lg w = Some (Inl No_thread_pool, lg, w)
    \<and> log_formatted env depth this loc lvl (Inr txt) lg w = Some (lg, err_handler env lg (Sink_error No_thread_pool) w)
    \<and> lg_flush depth this lg w = Some (Inl No_thread_pool, w)
    \<and> (\<forall>plain r. lg_pool plain = None \<longrightarrow> log_text env depth this loc lvl txt plain w = Some r \<longrightarrow> fst r = Inr ())"
proof (intro conjI)
  have s: "lg_sink_it env depth this lg m w = Some (Inl No_thread_pool, m, w)" for m
    using assms(1,2) by (simp add: lg_sink_it_def async_sink_it_def post_async_def)
  show "log_text env depth this loc lvl txt lg w = Some (Inl No_thread_pool, lg, w)"
    "log_formatted env depth this loc lvl (Inr txt) lg w = Some (lg, err_handler env lg (Sink_error No_thread_pool) w)"
    using assms(3) by (simp_all add: log_text_def log_formatted_def lg_should_log_def log_it_def s Let_def)
  show "lg_flush depth this lg w = Some (Inl No_thread_pool, w)"
    using assms(1,2) by (simp add: lg_flush_def async_flush_def post_async_def)
  show "\<forall>plain r. lg_pool plain = None \<longrightarrow> log_text env depth this loc lvl txt plain w = Some r \<longrightarrow> fst r = Inr ()"
    by (auto simp: log_text_def log_it_def lg_sink_it_def Let_def bind_eq_Some_conv split: if_splits sum.splits)
qed

theorem async_logger_without_pool_witness:
  "log_text good_sinks 1 7 no_source Warn ''lost'' (new_async_logger ''a'' [1] 3 Block) (one_sink [])
    = Some (Inl No_thread_pool, new_async_logger ''a'' [1] 3 Block, one_sink [])"
proof -
  have "lg_pool (new_async_logger ''a'' [1] 3 Block) = Some (3, Block)" "pools (one_sink []) 3 = None"
    "lg_level (new_async_logger ''a'' [1] 3 Block) \<le> Warn"
    by (simp_all add: new_async_logger_def new_logger_def one_sink_def less_eq_level_enum_def)
  from async_logger_without_pool [OF this] show ?thesis by blast
qed

section \<open>Copies\<close>

lemma swap_tracers_swaps: "swap_tracers a b = (b, a)"
  by (cases a; cases b) (simp add: swap_tracers_def bt_move_def bt_assign_def circ_move_def bt_enabled_def Let_def new_backtracer_def)

lemma swap_loggers_swaps: "swap_loggers a b = (b\<lparr>lg_pool := lg_pool a\<rparr>, a\<lparr>lg_pool := lg_pool b\<rparr>)"
  by (cases a; cases b) (simp add: swap_loggers_def swap_tracers_swaps)

end
