(* ===== verification/Registry.thy ===== *)
theory Registry imports Logger_Delivery begin

text \<open>
  The global registry of loggers (spdlog/details/registry.h, registry-inl.h), the factories that create
  loggers through it (details/synchronous_factory.h, async.h) and the level configuration applied to it
  (cfg/argv.h, cfg/env.h).

  Loggers live in a heap, the registry maps names to their addresses.  The \<open>unordered_map\<close> is an
  association list with distinct keys, in whatever order its loops run.  Every operation holds the
  registry's mutex, so it is one step.  \<open>None\<close> is undefined behaviour: a null logger.
\<close>

record 'c registry =
  reg_loggers :: "(string \<times> nat) list"
  reg_levels :: log_levels
  reg_formatter :: "'c pattern_formatter"
  reg_flush_level :: level_enum
  reg_err_handler :: "nat option"
  reg_auto :: bool
  reg_backtrace_n :: u64
  reg_default :: "nat option"
  reg_tp :: "nat option"
  reg_flusher :: "int option"
  logger_at :: "nat \<Rightarrow> logger option"
  world :: "'c log_world"

section \<open>Operations\<close>

text \<open>
  The constructor: the default logger, with a colour sink that the caller of the model has put into the
  store at the given address.
\<close>

definition reg_construct ::
  "nat \<Rightarrow> nat \<Rightarrow> (nat \<Rightarrow> logger option) \<Rightarrow> 'c log_world \<Rightarrow> 'c registry" where
  "reg_construct color_sink p h w =
     \<lparr>reg_loggers = AList.update [] p [], reg_levels = empty_log_levels, reg_formatter = default_formatter,
      reg_flush_level = Off_level, reg_err_handler = None, reg_auto = True, reg_backtrace_n = 0, reg_default = Some p,
      reg_tp = None, reg_flusher = None, logger_at = h(p := Some (new_logger [] [color_sink])), world = w\<rparr>"

definition throw_if_exists :: "string \<Rightarrow> 'c registry \<Rightarrow> spdlog_ex + unit" where
  "throw_if_exists name r = (if map_of (reg_loggers r) name \<noteq> None then Inl (Logger_exists name) else Inr ())"

type_synonym 'c reg_result = "((spdlog_ex + unit) \<times> 'c registry) option"

definition register_logger :: "nat \<Rightarrow> 'c registry \<Rightarrow> 'c reg_result" where
  "register_logger p r =
     map_option (\<lambda>lg.
         case throw_if_exists (lg_name lg) r of
           Inl e \<Rightarrow> (Inl e, r)
         | Inr _ \<Rightarrow> (Inr (), r\<lparr>reg_loggers := AList.update (lg_name lg) p (reg_loggers r)\<rparr>))
       (logger_at r p)"

definition put_logger :: "nat \<Rightarrow> logger \<Rightarrow> 'c registry \<Rightarrow> 'c registry" where
  "put_logger p lg r = r\<lparr>logger_at := (logger_at r)(p := Some lg)\<rparr>"

definition put_sinks :: "'c sink_store \<Rightarrow> 'c registry \<Rightarrow> 'c registry" where
  "put_sinks st r = r\<lparr>world := (world r)\<lparr>sinks_part := st\<rparr>\<rparr>"

definition configure :: "'c registry \<Rightarrow> logger \<Rightarrow> logger" where
  "configure r lg =
     (let lg = (if reg_err_handler r \<noteq> None then lg_set_error_handler (reg_err_handler r) lg else lg);
          lg = lg_set_level (ll_get (lg_name lg) (reg_levels r)) lg;
          lg = lg_flush_on (reg_flush_level r) lg in
      if reg_backtrace_n r > 0 then lg_enable_backtrace (reg_backtrace_n r) lg else lg)"

definition initialize_logger :: "'c fmt_env \<Rightarrow> nat \<Rightarrow> nat \<Rightarrow> 'c registry \<Rightarrow> 'c reg_result" where
  "initialize_logger fenv depth p r =
     Option.bind (logger_at r p) (\<lambda>lg.
       Option.bind (lg_set_formatter fenv depth (clone_pattern_formatter fenv (reg_formatter r)) lg (sinks_part (world r)))
         (\<lambda>st.
           let r1 = put_logger p (configure r lg) (put_sinks st r) in
           if reg_auto r then register_logger p r1 else Some (Inr (), r1)))"

definition reg_get :: "string \<Rightarrow> 'c registry \<Rightarrow> nat option" where
  "reg_get name r = map_of (reg_loggers r) name"

definition default_logger :: "'c registry \<Rightarrow> nat option" where
  "default_logger r = reg_default r"

definition erase_default :: "'c registry \<Rightarrow> (string \<times> nat) list option" where
  "erase_default r =
     (case reg_default r of
        None \<Rightarrow> Some (reg_loggers r)
      | Some d \<Rightarrow> map_option (\<lambda>lg. AList.delete (lg_name lg) (reg_loggers r)) (logger_at r d))"

definition set_default_logger :: "nat option \<Rightarrow> 'c registry \<Rightarrow> 'c registry option" where
  "set_default_logger new_default r =
     Option.bind (erase_default r) (\<lambda>ls.
       case new_default of
         None \<Rightarrow> Some (r\<lparr>reg_loggers := ls, reg_default := None\<rparr>)
       | Some p \<Rightarrow>
           map_option (\<lambda>lg. r\<lparr>reg_loggers := AList.update (lg_name lg) p ls, reg_default := Some p\<rparr>) (logger_at r p))"

text \<open>
  \<open>held\<close>: someone else has a shared pointer to the pool that is replaced; otherwise it is destroyed.
\<close>

definition drop_pool :: "bool \<Rightarrow> nat option \<Rightarrow> 'c log_world \<Rightarrow> 'c log_world" where
  "drop_pool held tp w = (case tp of Some old \<Rightarrow> if held then w else w\<lparr>pools := (pools w)(old := None)\<rparr> | None \<Rightarrow> w)"

definition set_tp :: "bool \<Rightarrow> nat option \<Rightarrow> 'c registry \<Rightarrow> 'c registry" where
  "set_tp held tp r = r\<lparr>world := drop_pool held (reg_tp r) (world r), reg_tp := tp\<rparr>"

definition get_tp :: "'c registry \<Rightarrow> nat option" where
  "get_tp r = reg_tp r"

text \<open>The loops over the loggers.\<close>

fun for_loggers :: "(logger \<Rightarrow> logger) \<Rightarrow> (string \<times> nat) list \<Rightarrow> (nat \<Rightarrow> logger option) \<Rightarrow> (nat \<Rightarrow> logger option) option" where
  "for_loggers f [] h = Some h"
| "for_loggers f (l # ls) h = Option.bind (h (snd l)) (\<lambda>lg. for_loggers f ls (h(snd l := Some (f lg))))"

fun format_loggers ::
  "'c fmt_env \<Rightarrow> nat \<Rightarrow> 'c pattern_formatter \<Rightarrow> (string \<times> nat) list \<Rightarrow> (nat \<Rightarrow> logger option) \<Rightarrow> 'c sink_store
    \<Rightarrow> 'c sink_store option" where
  "format_loggers fenv depth f [] h st = Some st"
| "format_loggers fenv depth f (l # ls) h st =
     Option.bind (h (snd l)) (\<lambda>lg.
       Option.bind (lg_set_formatter fenv depth (clone_pattern_formatter fenv f) lg st)
         (format_loggers fenv depth f ls h))"

definition reg_set_formatter ::
  "'c fmt_env \<Rightarrow> nat \<Rightarrow> 'c pattern_formatter \<Rightarrow> 'c registry \<Rightarrow> 'c registry option" where
  "reg_set_formatter fenv depth f r =
     (let r1 = r\<lparr>reg_formatter := f\<rparr> in
      map_option (\<lambda>st. put_sinks st r1)
        (format_loggers fenv depth (reg_formatter r1) (reg_loggers r1) (logger_at r1) (sinks_part (world r1))))"

definition all_loggers :: "(logger \<Rightarrow> logger) \<Rightarrow> 'c registry \<Rightarrow> 'c registry option" where
  "all_loggers f r = map_option (\<lambda>h. r\<lparr>logger_at := h\<rparr>) (for_loggers f (reg_loggers r) (logger_at r))"

definition reg_enable_backtrace :: "u64 \<Rightarrow> 'c registry \<Rightarrow> 'c registry option" where
  "reg_enable_backtrace n r = all_loggers (lg_enable_backtrace n) (r\<lparr>reg_backtrace_n := n\<rparr>)"

definition reg_disable_backtrace :: "'c registry \<Rightarrow> 'c registry option" where
  "reg_disable_backtrace r = all_loggers lg_disable_backtrace (r\<lparr>reg_backtrace_n := 0\<rparr>)"

definition reg_set_level :: "level_enum \<Rightarrow> 'c registry \<Rightarrow> 'c registry option" where
  "reg_set_level lvl r =
     map_option (\<lambda>r1. r1\<lparr>reg_levels := ll_set_default lvl (reg_levels r1)\<rparr>) (all_loggers (lg_set_level lvl) r)"

definition reg_flush_on :: "level_enum \<Rightarrow> 'c registry \<Rightarrow> 'c registry option" where
  "reg_flush_on lvl r = map_option (\<lambda>r1. r1\<lparr>reg_flush_level := lvl\<rparr>) (all_loggers (lg_flush_on lvl) r)"

definition reg_set_error_handler :: "nat option \<Rightarrow> 'c registry \<Rightarrow> 'c registry option" where
  "reg_set_error_handler h r = map_option (\<lambda>r1. r1\<lparr>reg_err_handler := h\<rparr>) (all_loggers (lg_set_error_handler h) r)"

text \<open>The periodic worker has a thread if the interval is positive.\<close>

definition flush_every :: "int \<Rightarrow> 'c registry \<Rightarrow> 'c registry" where
  "flush_every interval r = r\<lparr>reg_flusher := (if interval > 0 then Some interval else None)\<rparr>"

text \<open>An exception of a logger's \<open>flush\<close> ends \<open>flush_all\<close>.\<close>

fun flush_loggers ::
  "nat \<Rightarrow> (string \<times> nat) list \<Rightarrow> (nat \<Rightarrow> logger option) \<Rightarrow> 'c log_world \<Rightarrow> ((spdlog_ex + unit) \<times> 'c log_world) option" where
  "flush_loggers depth [] h w = Some (Inr (), w)"
| "flush_loggers depth (l # ls) h w =
     Option.bind (h (snd l)) (\<lambda>lg.
       Option.bind (lg_flush depth (snd l) lg w) (\<lambda>(res, w1).
         case res of Inl e \<Rightarrow> Some (Inl e, w1) | Inr _ \<Rightarrow> flush_loggers depth ls h w1))"

definition flush_all :: "nat \<Rightarrow> 'c registry \<Rightarrow> 'c reg_result" where
  "flush_all depth r =
     map_option (\<lambda>(res, w). (res, r\<lparr>world := w\<rparr>)) (flush_loggers depth (reg_loggers r) (logger_at r) (world r))"

definition reg_drop :: "string \<Rightarrow> 'c registry \<Rightarrow> 'c registry option" where
  "reg_drop name r =
     (let r1 = r\<lparr>reg_loggers := AList.delete name (reg_loggers r)\<rparr> in
      case reg_default r1 of
        None \<Rightarrow> Some r1
      | Some d \<Rightarrow> map_option (\<lambda>lg. if lg_name lg = name then r1\<lparr>reg_default := None\<rparr> else r1) (logger_at r1 d))"

definition drop_all :: "'c registry \<Rightarrow> 'c registry" where
  "drop_all r = r\<lparr>reg_loggers := [], reg_default := None\<rparr>"

definition reg_shutdown :: "bool \<Rightarrow> 'c registry \<Rightarrow> 'c registry" where
  "reg_shutdown held r =
     (let r1 = r\<lparr>reg_flusher := None\<rparr>;
          r2 = drop_all r1 in
      r2\<lparr>world := drop_pool held (reg_tp r2) (world r2), reg_tp := None\<rparr>)"

definition set_automatic_registration :: "bool \<Rightarrow> 'c registry \<Rightarrow> 'c registry" where
  "set_automatic_registration b r = r\<lparr>reg_auto := b\<rparr>"

definition update_levels :: "log_levels \<Rightarrow> 'c registry \<Rightarrow> 'c registry option" where
  "update_levels levels r =
     (let r1 = r\<lparr>reg_levels := levels\<rparr> in
      all_loggers (\<lambda>lg. lg_set_level (ll_get (lg_name lg) (reg_levels r1)) lg) r1)"

section \<open>Factories and configuration\<close>

definition sync_create :: "'c fmt_env \<Rightarrow> nat \<Rightarrow> string \<Rightarrow> nat \<Rightarrow> nat \<Rightarrow> 'c registry \<Rightarrow> 'c reg_result" where
  "sync_create fenv depth name sink p r = initialize_logger fenv depth p (put_logger p (new_logger name [sink]) r)"

text \<open>The pool that is created has the address \<open>fresh\<close>.\<close>

definition async_create ::
  "'c fmt_env \<Rightarrow> nat \<Rightarrow> overflow_policy \<Rightarrow> nat \<Rightarrow> string \<Rightarrow> nat \<Rightarrow> nat \<Rightarrow> 'c registry \<Rightarrow> 'c reg_result" where
  "async_create fenv depth policy fresh name sink p r =
     (let (tp, r1) =
        (case get_tp r of
           Some tp \<Rightarrow> (tp, r)
         | None \<Rightarrow> (fresh, set_tp False (Some fresh)
             (r\<lparr>world := (world r)\<lparr>pools := (pools (world r))(fresh := Some [])\<rparr>\<rparr>))) in
      initialize_logger fenv depth p (put_logger p (new_async_logger name [sink] tp policy) r1))"

fun apply_levels :: "log_levels list \<Rightarrow> 'c registry \<Rightarrow> 'c registry option" where
  "apply_levels [] r = Some r"
| "apply_levels (l # ls) r = Option.bind (update_levels l r) (apply_levels ls)"

definition reg_load_argv :: "string list \<Rightarrow> 'c registry \<Rightarrow> 'c registry option" where
  "reg_load_argv argv r = apply_levels (load_argv_levels argv) r"

text \<open>An unset variable reads as the empty string.\<close>

definition reg_load_env :: "string option \<Rightarrow> 'c registry \<Rightarrow> 'c registry option" where
  "reg_load_env env_val r = update_levels (extract_levels (case env_val of Some v \<Rightarrow> v | None \<Rightarrow> [])) r"

section \<open>The default logger's interface\<close>

text \<open>The functions of spdlog.h that use the raw pointer to the default logger.\<close>

definition default_level :: "'c registry \<Rightarrow> level_enum option" where
  "default_level r = Option.bind (reg_default r) (\<lambda>d. map_option lg_level (logger_at r d))"

definition default_should_log :: "level_enum \<Rightarrow> 'c registry \<Rightarrow> bool option" where
  "default_should_log lvl r = Option.bind (reg_default r) (\<lambda>d. map_option (lg_should_log lvl) (logger_at r d))"

definition default_dump_backtrace :: "'c sink_env \<Rightarrow> nat \<Rightarrow> 'c registry \<Rightarrow> 'c reg_result" where
  "default_dump_backtrace env depth r =
     Option.bind (reg_default r) (\<lambda>d. Option.bind (logger_at r d) (\<lambda>lg.
       map_option (\<lambda>(res, lg1, w1). (res, put_logger d lg1 (r\<lparr>world := w1\<rparr>)))
         (dump_backtrace env depth d lg (world r))))"

definition default_log ::
  "'c sink_env \<Rightarrow> nat \<Rightarrow> source_loc \<Rightarrow> level_enum \<Rightarrow> string \<Rightarrow> 'c registry \<Rightarrow> 'c reg_result" where
  "default_log env depth loc lvl msg r =
     Option.bind (reg_default r) (\<lambda>d. Option.bind (logger_at r d) (\<lambda>lg.
       map_option (\<lambda>(res, lg1, w1). (res, put_logger d lg1 (r\<lparr>world := w1\<rparr>)))
         (log_text env depth d loc lvl msg lg (world r))))"

section \<open>The invariant\<close>

text \<open>Keys are the loggers' own names, and the default logger is registered.\<close>

definition registered :: "'c registry \<Rightarrow> string \<Rightarrow> nat \<Rightarrow> bool" where
  "registered r k p \<longleftrightarrow> map_of (reg_loggers r) k = Some p"

definition reg_ok :: "'c registry \<Rightarrow> bool" where
  "reg_ok r \<longleftrightarrow> distinct (map fst (reg_loggers r))
     \<and> (\<forall>k p. registered r k p \<longrightarrow> (\<exists>lg. logger_at r p = Some lg \<and> lg_name lg = k))
     \<and> (\<forall>d. reg_default r = Some d \<longrightarrow> (\<exists>lg. logger_at r d = Some lg \<and> registered r (lg_name lg) d))"

lemma reg_okD:
  assumes "reg_ok r"
  shows "distinct (map fst (reg_loggers r))"
    and "registered r k p \<Longrightarrow> \<exists>lg. logger_at r p = Some lg \<and> lg_name lg = k"
    and "reg_default r = Some d \<Longrightarrow> \<exists>lg. logger_at r d = Some lg \<and> registered r (lg_name lg) d"
  using assms by (simp_all add: reg_ok_def)

definition same_names :: "(nat \<Rightarrow> logger option) \<Rightarrow> (nat \<Rightarrow> logger option) \<Rightarrow> bool" where
  "same_names h h' \<longleftrightarrow> (\<forall>p lg. h p = Some lg \<longrightarrow> (\<exists>lg'. h' p = Some lg' \<and> lg_name lg' = lg_name lg))"

lemma same_names_refl [simp, intro]: "same_names h h"
  by (simp add: same_names_def)

lemma same_names_upd [intro]: "h p = Some lg \<Longrightarrow> lg_name lg' = lg_name lg \<Longrightarrow> same_names h (h(p := Some lg'))"
  by (simp add: same_names_def)

lemma same_names_fresh [intro]: "h p = None \<Longrightarrow> same_names h (h(p := Some lg'))"
  by (simp add: same_names_def)

lemma same_names_trans: "same_names h h1 \<Longrightarrow> same_names h1 h2 \<Longrightarrow> same_names h h2"
  unfolding same_names_def by metis

text \<open>The invariant depends on the map, the default logger and the names.\<close>

lemma reg_ok_cong:
  assumes "reg_ok r" "reg_loggers r' = reg_loggers r" "reg_default r' = reg_default r" "same_names (logger_at r) (logger_at r')"
  shows "reg_ok r'"
  unfolding reg_ok_def registered_def assms(2,3)
proof (intro conjI allI impI)
  show "distinct (map fst (reg_loggers r))" by (rule reg_okD(1) [OF assms(1)])
next
  fix k p
  assume "map_of (reg_loggers r) k = Some p"
  with reg_okD(2) [OF assms(1), of k p] assms(4) show "\<exists>lg. logger_at r' p = Some lg \<and> lg_name lg = k"
    unfolding registered_def same_names_def by metis
next
  fix d
  assume "reg_default r = Some d"
  with reg_okD(3) [OF assms(1), of d] assms(4) show "\<exists>lg. logger_at r' d = Some lg \<and> map_of (reg_loggers r) (lg_name lg) = Some d"
    unfolding registered_def same_names_def by metis
qed

text \<open>Adding a logger that is not the default one.\<close>

lemma reg_ok_register:
  assumes "reg_ok r" "logger_at r p = Some lg" "map_of (reg_loggers r) (lg_name lg) = None"
  shows "reg_ok (r\<lparr>reg_loggers := AList.update (lg_name lg) p (reg_loggers r)\<rparr>)"
  unfolding reg_ok_def registered_def
proof (intro conjI allI impI)
  show "distinct (map fst (reg_loggers (r\<lparr>reg_loggers := AList.update (lg_name lg) p (reg_loggers r)\<rparr>)))"
    using reg_okD(1) [OF assms(1)] by (simp add: AList.distinct_update)
next
  fix k q
  assume "map_of (reg_loggers (r\<lparr>reg_loggers := AList.update (lg_name lg) p (reg_loggers r)\<rparr>)) k = Some q"
  then show "\<exists>lg'. logger_at (r\<lparr>reg_loggers := AList.update (lg_name lg) p (reg_loggers r)\<rparr>) q = Some lg' \<and> lg_name lg' = k"
    using reg_okD(2) [OF assms(1), of k q] assms(2) by (auto simp: AList.update_conv' registered_def split: if_splits)
next
  fix d
  assume "reg_default (r\<lparr>reg_loggers := AList.update (lg_name lg) p (reg_loggers r)\<rparr>) = Some d"
  then obtain lg' where "logger_at r d = Some lg'" "registered r (lg_name lg') d" using reg_okD(3) [OF assms(1)] by auto
  with assms(3) show "\<exists>lg'. logger_at (r\<lparr>reg_loggers := AList.update (lg_name lg) p (reg_loggers r)\<rparr>) d = Some lg'
      \<and> map_of (reg_loggers (r\<lparr>reg_loggers := AList.update (lg_name lg) p (reg_loggers r)\<rparr>)) (lg_name lg') = Some d"
    by (intro exI [of _ lg']) (auto simp: AList.update_conv' registered_def)
qed

lemma erase_default_spec:
  assumes "reg_ok r"
  shows "\<exists>ls. erase_default r = Some ls \<and> distinct (map fst ls)
    \<and> (\<forall>k. map_of ls k = (if \<exists>d. reg_default r = Some d \<and> registered r k d then None else map_of (reg_loggers r) k))"
proof (cases "reg_default r")
  case None
  then show ?thesis using reg_okD(1) [OF assms] by (simp add: erase_default_def)
next
  case (Some d)
  from reg_okD(3) [OF assms Some] obtain lg where lg: "logger_at r d = Some lg" "registered r (lg_name lg) d" by blast
  have "registered r k d \<longleftrightarrow> k = lg_name lg" for k
    using lg reg_okD(2) [OF assms, of k d] by auto
  with Some lg(1) reg_okD(1) [OF assms] show ?thesis
    by (auto simp: erase_default_def AList.delete_conv' intro: AList.distinct_delete)
qed

lemma set_default_ok:
  assumes "reg_ok r" "set_default_logger new_default r = Some r'"
  shows "reg_ok r'"
proof -
  from erase_default_spec [OF assms(1)] obtain ls where ls: "erase_default r = Some ls" "distinct (map fst ls)"
    "\<And>k. map_of ls k = (if \<exists>d. reg_default r = Some d \<and> registered r k d then None else map_of (reg_loggers r) k)" by blast
  have sub: "\<exists>lg. logger_at r p = Some lg \<and> lg_name lg = k" if "map_of ls k = Some p" for k p
    using that reg_okD(2) [OF assms(1), of k p] by (auto simp: ls(3) registered_def split: if_splits)
  show ?thesis
  proof (cases new_default)
    case None
    with assms(2) have "r' = r\<lparr>reg_loggers := ls, reg_default := None\<rparr>" by (simp add: set_default_logger_def ls(1))
    with ls(2) sub show ?thesis by (simp add: reg_ok_def registered_def)
  next
    case (Some p)
    with assms(2) obtain lg where lg: "logger_at r p = Some lg"
      "r' = r\<lparr>reg_loggers := AList.update (lg_name lg) p ls, reg_default := Some p\<rparr>"
      by (auto simp: set_default_logger_def ls(1))
    with ls(2) sub show ?thesis
      by (auto simp: reg_ok_def registered_def AList.update_conv' intro: AList.distinct_update)
  qed
qed

lemma reg_drop_ok:
  assumes "reg_ok r" "reg_drop name r = Some r'"
  shows "reg_ok r'"
proof -
  have d: "distinct (map fst (AList.delete name (reg_loggers r)))" using reg_okD(1) [OF assms(1)] by (rule AList.distinct_delete)
  have c: "reg_loggers r' = AList.delete name (reg_loggers r) \<and> logger_at r' = logger_at r
    \<and> (reg_default r' = reg_default r \<or> reg_default r' = None)
    \<and> (\<forall>p lg. reg_default r' = Some p \<longrightarrow> logger_at r p = Some lg \<longrightarrow> lg_name lg \<noteq> name)"
  proof (cases "reg_default r")
    case None
    with assms(2) show ?thesis by (auto simp: reg_drop_def Let_def)
  next
    case (Some d)
    define del where "del = r\<lparr>reg_loggers := AList.delete name (reg_loggers r)\<rparr>"
    have del: "reg_default del = Some d" "logger_at del = logger_at r" by (simp_all add: del_def Some)
    have "reg_drop name r = map_option (\<lambda>lg. if lg_name lg = name then del\<lparr>reg_default := None\<rparr> else del) (logger_at r d)"
      unfolding reg_drop_def Let_def del_def [symmetric] del by simp
    with assms(2) obtain lg where lg: "logger_at r d = Some lg"
      "r' = (if lg_name lg = name then del\<lparr>reg_default := None\<rparr> else del)"
      by (cases "logger_at r d") simp_all
    with Some show ?thesis by (cases "lg_name lg = name") (simp_all add: del_def)
  qed
  have c': "reg_loggers r' = AList.delete name (reg_loggers r)" "logger_at r' = logger_at r" using c by simp_all
  show ?thesis
    unfolding reg_ok_def registered_def c'
  proof (intro conjI allI impI)
    show "distinct (map fst (AList.delete name (reg_loggers r)))" by (rule d)
  next
    fix k p
    assume "map_of (AList.delete name (reg_loggers r)) k = Some p"
    then show "\<exists>lg. logger_at r p = Some lg \<and> lg_name lg = k"
      using reg_okD(2) [OF assms(1), of k p] by (auto simp: AList.delete_conv' registered_def split: if_splits)
  next
    fix q
    assume q: "reg_default r' = Some q"
    then have "reg_default r = Some q" using c by auto
    from reg_okD(3) [OF assms(1) this] c q
    show "\<exists>lg. logger_at r q = Some lg \<and> map_of (AList.delete name (reg_loggers r)) (lg_name lg) = Some q"
      by (auto simp: AList.delete_conv' registered_def)
  qed
qed

lemma for_loggers_ok:
  "(\<And>lg. lg_name (f lg) = lg_name lg) \<Longrightarrow> for_loggers f ls h = Some h' \<Longrightarrow> same_names h h'"
proof (induction ls arbitrary: h)
  case (Cons l ls)
  then obtain lg where lg: "h (snd l) = Some lg" "for_loggers f ls (h(snd l := Some (f lg))) = Some h'"
    by (auto simp: bind_eq_Some_conv)
  from same_names_trans [OF same_names_upd [of h, OF lg(1)] Cons.IH [OF Cons.prems(1) lg(2)]] Cons.prems(1) show ?case by simp
qed simp

lemma setters_keep_name [simp, sink_simps]:
  "lg_name (lg_set_level l lg) = lg_name lg" "lg_name (lg_flush_on l lg) = lg_name lg"
  "lg_name (lg_set_error_handler e lg) = lg_name lg" "lg_name (lg_enable_backtrace n lg) = lg_name lg"
  "lg_name (lg_disable_backtrace lg) = lg_name lg"
  by (simp_all add: lg_set_level_def lg_flush_on_def lg_set_error_handler_def lg_enable_backtrace_def lg_disable_backtrace_def)

lemma configure_name [simp, sink_simps]: "lg_name (configure r lg) = lg_name lg"
  by (simp add: configure_def Let_def)

lemma all_loggers_ok:
  assumes "\<And>lg. lg_name (f lg) = lg_name lg" "all_loggers f r = Some r'" "reg_ok r"
  shows "reg_ok r'"
  using assms(2) for_loggers_ok [OF assms(1)] by (auto simp: all_loggers_def intro: reg_ok_cong [OF assms(3)])

lemma register_ok: "reg_ok r \<Longrightarrow> register_logger p r = Some (res, r') \<Longrightarrow> reg_ok r'"
  by (auto simp: register_logger_def throw_if_exists_def reg_ok_register split: if_splits)

lemma initialize_ok:
  assumes "reg_ok r" "initialize_logger fenv depth p r = Some (res, r')"
  shows "reg_ok r'"
proof -
  from assms(2) obtain lg st where lg: "logger_at r p = Some lg"
    and r: "(let r1 = put_logger p (configure r lg) (put_sinks st r) in
      if reg_auto r then register_logger p r1 else Some (Inr (), r1)) = Some (res, r')"
    by (auto simp: initialize_logger_def bind_eq_Some_conv)
  define r1 where "r1 = put_logger p (configure r lg) (put_sinks st r)"
  have "reg_ok r1"
    by (rule reg_ok_cong [OF assms(1)]) (use lg in \<open>auto simp: r1_def put_logger_def put_sinks_def\<close>)
  with r show ?thesis unfolding Let_def r1_def [symmetric] by (auto split: if_splits intro: register_ok)
qed

section \<open>Reachable registries\<close>

text \<open>
  Besides the registry's operations, a program creates loggers of its own and uses loggers in any way
  that keeps their names (\<open>swap\<close> and assignment do not).
\<close>

inductive reg_step :: "'c fmt_env \<Rightarrow> nat \<Rightarrow> 'c registry \<Rightarrow> 'c registry \<Rightarrow> bool" for fenv depth where
  create: "logger_at r p = None \<Longrightarrow> reg_step fenv depth r (put_logger p lg r)"
| use: "logger_at r p = Some lg \<Longrightarrow> lg_name lg' = lg_name lg \<Longrightarrow> reg_step fenv depth r (put_logger p lg' (r\<lparr>world := w\<rparr>))"
| register: "register_logger p r = Some (res, r') \<Longrightarrow> reg_step fenv depth r r'"
| initialize: "initialize_logger fenv depth p r = Some (res, r') \<Longrightarrow> reg_step fenv depth r r'"
| sync_create: "logger_at r p = None \<Longrightarrow> sync_create fenv depth name sink p r = Some (res, r') \<Longrightarrow> reg_step fenv depth r r'"
| async_create: "logger_at r p = None \<Longrightarrow> async_create fenv depth policy fresh name sink p r = Some (res, r') \<Longrightarrow>
    reg_step fenv depth r r'"
| set_default: "set_default_logger new_default r = Some r' \<Longrightarrow> reg_step fenv depth r r'"
| set_tp: "reg_step fenv depth r (set_tp held tp r)"
| formatter: "reg_set_formatter fenv depth f r = Some r' \<Longrightarrow> reg_step fenv depth r r'"
| backtrace_on: "reg_enable_backtrace n r = Some r' \<Longrightarrow> reg_step fenv depth r r'"
| backtrace_off: "reg_disable_backtrace r = Some r' \<Longrightarrow> reg_step fenv depth r r'"
| set_level: "reg_set_level lvl r = Some r' \<Longrightarrow> reg_step fenv depth r r'"
| flush_on: "reg_flush_on lvl r = Some r' \<Longrightarrow> reg_step fenv depth r r'"
| handler: "reg_set_error_handler h r = Some r' \<Longrightarrow> reg_step fenv depth r r'"
| flush_every: "reg_step fenv depth r (flush_every interval r)"
| flush_all: "flush_all depth r = Some (res, r') \<Longrightarrow> reg_step fenv depth r r'"
| drop: "reg_drop name r = Some r' \<Longrightarrow> reg_step fenv depth r r'"
| drop_all: "reg_step fenv depth r (drop_all r)"
| shutdown: "reg_step fenv depth r (reg_shutdown held r)"
| automatic: "reg_step fenv depth r (set_automatic_registration b r)"
| levels: "update_levels ls r = Some r' \<Longrightarrow> reg_step fenv depth r r'"

inductive reg_reachable :: "'c fmt_env \<Rightarrow> nat \<Rightarrow> 'c registry \<Rightarrow> bool" for fenv depth where
  start: "reg_reachable fenv depth (reg_construct color_sink p h w)"
| step: "reg_reachable fenv depth r \<Longrightarrow> reg_step fenv depth r r' \<Longrightarrow> reg_reachable fenv depth r'"

lemma reg_ok_construct: "reg_ok (reg_construct color_sink p h w)"
  by (simp add: reg_ok_def registered_def reg_construct_def new_logger_def)

lemma reg_ok_put: "reg_ok r \<Longrightarrow> logger_at r p = None \<Longrightarrow> reg_ok (put_logger p lg r)"
  by (rule reg_ok_cong [of r]) (auto simp: put_logger_def)

lemma reg_ok_world: "reg_ok r \<Longrightarrow> reg_ok (r\<lparr>world := w\<rparr>)"
  by (rule reg_ok_cong [of r]) simp_all

lemma reg_ok_set_tp: "reg_ok r \<Longrightarrow> reg_ok (set_tp held tp r)"
  by (rule reg_ok_cong [of r]) (simp_all add: set_tp_def)

lemma reg_ok_drop_all: "reg_ok r \<Longrightarrow> reg_ok (drop_all r)"
  by (simp add: reg_ok_def registered_def drop_all_def)

lemma reg_ok_async:
  assumes "reg_ok r" "logger_at r p = None" "async_create fenv depth policy fresh name sink p r = Some (res, r')"
  shows "reg_ok r'"
proof -
  obtain tp r1 where c: "(case get_tp r of
           Some tp \<Rightarrow> (tp, r)
         | None \<Rightarrow> (fresh, set_tp False (Some fresh)
             (r\<lparr>world := (world r)\<lparr>pools := (pools (world r))(fresh := Some [])\<rparr>\<rparr>))) = (tp, r1)"
    by (cases "get_tp r") auto
  then have "reg_ok r1" "logger_at r1 = logger_at r"
    using assms(1) by (auto simp: set_tp_def split: option.splits intro!: reg_ok_cong [OF assms(1)])
  with assms(2) have "reg_ok (put_logger p (new_async_logger name [sink] tp policy) r1)" by (intro reg_ok_put) simp_all
  with assms(3) show ?thesis unfolding async_create_def c by (auto intro: initialize_ok)
qed

lemma reg_step_ok:
  assumes "reg_step fenv depth r r'" "reg_ok r"
  shows "reg_ok r'"
  using assms
proof (cases rule: reg_step.cases)
  case (use p lg lg' w)
  then have "same_names (logger_at r) (logger_at r')" by (auto simp: put_logger_def)
  then show ?thesis by (intro reg_ok_cong [OF assms(2)]) (simp_all add: use put_logger_def)
next
  case (formatter f)
  then show ?thesis by (auto simp: reg_set_formatter_def put_sinks_def Let_def intro: reg_ok_cong [OF assms(2)])
next
  case (backtrace_on n)
  have "reg_ok (r\<lparr>reg_backtrace_n := n\<rparr>)" by (rule reg_ok_cong [OF assms(2)]) simp_all
  with backtrace_on show ?thesis by (auto simp: reg_enable_backtrace_def intro: all_loggers_ok [rotated])
next
  case backtrace_off
  have "reg_ok (r\<lparr>reg_backtrace_n := 0\<rparr>)" by (rule reg_ok_cong [OF assms(2)]) simp_all
  with backtrace_off show ?thesis by (auto simp: reg_disable_backtrace_def intro: all_loggers_ok [rotated])
next
  case (set_level lvl)
  then obtain r1 where r1: "all_loggers (lg_set_level lvl) r = Some r1" "r' = r1\<lparr>reg_levels := ll_set_default lvl (reg_levels r1)\<rparr>"
    by (auto simp: reg_set_level_def)
  have "reg_ok r1" by (rule all_loggers_ok [OF _ r1(1) assms(2)]) simp
  then show ?thesis unfolding r1(2) by (rule reg_ok_cong) simp_all
next
  case (flush_on lvl)
  then obtain r1 where r1: "all_loggers (lg_flush_on lvl) r = Some r1" "r' = r1\<lparr>reg_flush_level := lvl\<rparr>"
    by (auto simp: reg_flush_on_def)
  have "reg_ok r1" by (rule all_loggers_ok [OF _ r1(1) assms(2)]) simp
  then show ?thesis unfolding r1(2) by (rule reg_ok_cong) simp_all
next
  case (handler h)
  then obtain r1 where r1: "all_loggers (lg_set_error_handler h) r = Some r1" "r' = r1\<lparr>reg_err_handler := h\<rparr>"
    by (auto simp: reg_set_error_handler_def)
  have "reg_ok r1" by (rule all_loggers_ok [OF _ r1(1) assms(2)]) simp
  then show ?thesis unfolding r1(2) by (rule reg_ok_cong) simp_all
next
  case (flush_every interval)
  then show ?thesis by (auto simp: flush_every_def intro: reg_ok_cong [OF assms(2)])
next
  case (flush_all res)
  then show ?thesis by (auto simp: flush_all_def intro: reg_ok_world [OF assms(2)])
next
  case (shutdown held)
  have "reg_ok (drop_all (r\<lparr>reg_flusher := None\<rparr>))" by (intro reg_ok_drop_all reg_ok_cong [OF assms(2)]) simp_all
  then show ?thesis unfolding shutdown reg_shutdown_def Let_def by (rule reg_ok_cong) simp_all
next
  case (automatic b)
  then show ?thesis by (auto simp: set_automatic_registration_def intro: reg_ok_cong [OF assms(2)])
next
  case (levels ls)
  have "reg_ok (r\<lparr>reg_levels := ls\<rparr>)" by (rule reg_ok_cong [OF assms(2)]) simp_all
  with levels show ?thesis by (auto simp: update_levels_def Let_def intro: all_loggers_ok [rotated])
qed (auto simp: sync_create_def intro: reg_ok_put register_ok initialize_ok reg_ok_async set_default_ok reg_ok_set_tp
    reg_drop_ok reg_ok_drop_all)

lemma reg_reachable_ok: "reg_reachable fenv depth r \<Longrightarrow> reg_ok r"
  by (induction rule: reg_reachable.induct) (auto intro: reg_ok_construct reg_step_ok)

section \<open>What the loops do\<close>

lemma reg_ok_addresses:
  assumes "reg_ok r"
  shows "distinct (map snd (reg_loggers r))"
proof -
  have m: "(k, p) \<in> set (reg_loggers r) \<longleftrightarrow> registered r k p" for k p
    using reg_okD(1) [OF assms] by (simp add: registered_def)
  have "k = k'" if "registered r k p" "registered r k' p" for k k' p
    using reg_okD(2) [OF assms that(1)] reg_okD(2) [OF assms that(2)] by auto
  with m have "inj_on snd (set (reg_loggers r))" by (auto simp: inj_on_def)
  with reg_okD(1) [OF assms] show ?thesis by (simp add: distinct_map)
qed

lemma for_loggers_spec:
  "distinct (map snd ls) \<Longrightarrow> \<forall>l \<in> set ls. h (snd l) \<noteq> None \<Longrightarrow>
    for_loggers f ls h = Some (\<lambda>p. if p \<in> snd ` set ls then map_option f (h p) else h p)"
proof (induction ls arbitrary: h)
  case (Cons l ls)
  then obtain lg where lg: "h (snd l) = Some lg" by auto
  define h1 where "h1 = h(snd l := Some (f lg))"
  have "\<forall>l \<in> set ls. h1 (snd l) \<noteq> None" using Cons.prems(2) by (simp add: h1_def)
  with Cons.IH [of h1] Cons.prems(1) have
    "for_loggers f ls h1 = Some (\<lambda>p. if p \<in> snd ` set ls then map_option f (h1 p) else h1 p)" by simp
  moreover have "(\<lambda>p. if p \<in> snd ` set ls then map_option f (h1 p) else h1 p)
      = (\<lambda>p. if p \<in> snd ` set (l # ls) then map_option f (h p) else h p)"
    using Cons.prems(1) lg by (auto simp: h1_def fun_eq_iff)
  ultimately show ?case using lg by (simp add: h1_def)
qed simp

lemma all_loggers_spec:
  assumes "reg_ok r"
  shows "\<exists>h. all_loggers f r = Some (r\<lparr>logger_at := h\<rparr>)
    \<and> (\<forall>k p. registered r k p \<longrightarrow> (\<exists>lg. logger_at r p = Some lg \<and> lg_name lg = k \<and> h p = Some (f lg)))
    \<and> (\<forall>p. (\<nexists>k. registered r k p) \<longrightarrow> h p = logger_at r p)"
proof -
  have m: "(k, p) \<in> set (reg_loggers r) \<longleftrightarrow> registered r k p" for k p
    using reg_okD(1) [OF assms] by (simp add: registered_def)
  have "\<forall>l \<in> set (reg_loggers r). logger_at r (snd l) \<noteq> None"
    using reg_okD(2) [OF assms] m by fastforce
  from for_loggers_spec [OF reg_ok_addresses [OF assms] this, of f] obtain h where
    h: "for_loggers f (reg_loggers r) (logger_at r) = Some h"
      "\<And>p. h p = (if p \<in> snd ` set (reg_loggers r) then map_option f (logger_at r p) else logger_at r p)" by blast
  have mem: "p \<in> snd ` set (reg_loggers r) \<longleftrightarrow> (\<exists>k. registered r k p)" for p
    using m by (metis (no_types, lifting) image_iff prod.collapse snd_conv)
  have "\<exists>lg. logger_at r p = Some lg \<and> lg_name lg = k \<and> h p = Some (f lg)" if "registered r k p" for k p
    using reg_okD(2) [OF assms that] that mem [of p] by (auto simp: h(2))
  with h mem show ?thesis by (intro exI [of _ h]) (simp add: all_loggers_def)
qed

lemma update_levels_spec:
  assumes "reg_ok r"
  shows "\<exists>r'. update_levels ls r = Some r' \<and> reg_ok r' \<and> reg_loggers r' = reg_loggers r \<and> reg_levels r' = ls
    \<and> (\<forall>k p. registered r k p \<longrightarrow> (\<exists>lg. logger_at r p = Some lg \<and> logger_at r' p = Some (lg\<lparr>lg_level := ll_get k ls\<rparr>)))
    \<and> (\<forall>p. (\<nexists>k. registered r k p) \<longrightarrow> logger_at r' p = logger_at r p)"
proof -
  define f where "f = (\<lambda>lg. lg_set_level (ll_get (lg_name lg) ls) lg)"
  have ok: "reg_ok (r\<lparr>reg_levels := ls\<rparr>)" by (rule reg_ok_cong [OF assms]) simp_all
  from all_loggers_spec [OF this, of f] obtain h where
    h: "all_loggers f (r\<lparr>reg_levels := ls\<rparr>) = Some (r\<lparr>reg_levels := ls, logger_at := h\<rparr>)"
      "\<forall>k p. registered r k p \<longrightarrow> (\<exists>lg. logger_at r p = Some lg \<and> lg_name lg = k \<and> h p = Some (f lg))"
      "\<forall>p. (\<nexists>k. registered r k p) \<longrightarrow> h p = logger_at r p" by (auto simp: registered_def)
  have u: "update_levels ls r = Some (r\<lparr>reg_levels := ls, logger_at := h\<rparr>)"
    using h(1) by (simp add: update_levels_def f_def)
  moreover have "reg_ok (r\<lparr>reg_levels := ls, logger_at := h\<rparr>)"
    by (rule all_loggers_ok [OF _ h(1) ok]) (simp add: f_def)
  ultimately show ?thesis using h(2,3) by (intro exI [of _ "r\<lparr>reg_levels := ls, logger_at := h\<rparr>"]) (auto simp: f_def lg_set_level_def)
qed

lemma load_argv_levels_map:
  "load_argv_levels argv = map (\<lambda>arg. extract_levels (drop (length level_prefix) arg)) (filter (prefix level_prefix) argv)"
proof (induction argv)
  case (Cons arg argv)
  have "take (length level_prefix) arg = level_prefix \<longleftrightarrow> prefix level_prefix arg"
    by (metis append_take_drop_id append_eq_conv_conj prefix_def)
  with Cons show ?case by simp
qed simp

lemma apply_levels_spec:
  assumes "reg_ok r"
  shows "\<exists>r'. apply_levels ls r = Some r' \<and> reg_ok r' \<and> reg_loggers r' = reg_loggers r \<and> (ls = [] \<longrightarrow> r' = r)
    \<and> (\<forall>k p. registered r k p \<longrightarrow> ls \<noteq> [] \<longrightarrow>
         (\<exists>lg. logger_at r p = Some lg \<and> logger_at r' p = Some (lg\<lparr>lg_level := ll_get k (last ls)\<rparr>)))"
  using assms
proof (induction ls arbitrary: r)
  case (Cons l ls)
  from update_levels_spec [OF Cons.prems, of l] obtain r1 where
    r1: "update_levels l r = Some r1" "reg_ok r1" "reg_loggers r1 = reg_loggers r"
      "\<And>k p. registered r k p \<Longrightarrow> \<exists>lg. logger_at r p = Some lg \<and> logger_at r1 p = Some (lg\<lparr>lg_level := ll_get k l\<rparr>)" by blast
  from Cons.IH [OF r1(2)] obtain r' where
    r': "apply_levels ls r1 = Some r'" "reg_ok r'" "reg_loggers r' = reg_loggers r1" "ls = [] \<longrightarrow> r' = r1"
      "\<forall>k p. registered r1 k p \<longrightarrow> ls \<noteq> [] \<longrightarrow>
         (\<exists>lg. logger_at r1 p = Some lg \<and> logger_at r' p = Some (lg\<lparr>lg_level := ll_get k (last ls)\<rparr>))" by blast
  have "\<exists>lg. logger_at r p = Some lg \<and> logger_at r' p = Some (lg\<lparr>lg_level := ll_get k (last (l # ls))\<rparr>)"
    if "registered r k p" for k p
  proof (cases "ls = []")
    case True
    with r'(4) r1(4) [OF that] show ?thesis by simp
  next
    case False
    have "registered r1 k p" using that r1(3) by (simp add: registered_def)
    with r'(5) False obtain lg1 where
      lg1: "logger_at r1 p = Some lg1" "logger_at r' p = Some (lg1\<lparr>lg_level := ll_get k (last ls)\<rparr>)" by blast
    with r1(4) [OF that] False show ?thesis by auto
  qed
  with r1 r' show ?case by auto
qed simp

section \<open>Properties\<close>

text \<open>
  C11 [invariant] However loggers are created, registered, replaced and dropped, every name in the registry leads to
  a live logger of that name, and the default logger, when there is one, is the registered logger of
  its name.
\<close>

theorem registry_invariant:
  assumes "reg_reachable fenv depth r"
  shows "(reg_get name r = Some p \<longrightarrow> (\<exists>lg. logger_at r p = Some lg \<and> lg_name lg = name))
    \<and> (default_logger r = Some d \<longrightarrow> (\<exists>lg. logger_at r d = Some lg \<and> reg_get (lg_name lg) r = Some d))"
  using reg_okD(2,3) [OF reg_reachable_ok [OF assms]] by (simp add: reg_get_def default_logger_def registered_def)

lemma sample_registry:
  "\<exists>r. reg_reachable sample_env 1 r \<and> reg_get ''db'' r = Some 2 \<and> reg_get [] r = None \<and> default_logger r = Some 2
    \<and> logger_at r 2 = Some (new_logger ''db'' [1]) \<and> reg_levels r = empty_log_levels
    \<and> logger_at r 3 = None \<and> reg_auto r"
proof -
  let ?r0 = "reg_construct 1 1 Map.empty (one_sink [])" and ?lg = "new_logger ''db'' [1]"
  let ?r1 = "put_logger 2 ?lg ?r0"
  have s1: "reg_reachable sample_env 1 ?r1"
    by (rule reg_reachable.step [OF reg_reachable.start reg_step.create]) (simp add: reg_construct_def)
  have "set_default_logger (Some 2) ?r1 = Some (?r1\<lparr>reg_loggers := [(''db'', 2)], reg_default := Some 2\<rparr>)"
    by (simp add: set_default_logger_def erase_default_def reg_construct_def put_logger_def new_logger_def)
  with s1 have "reg_reachable sample_env 1 (?r1\<lparr>reg_loggers := [(''db'', 2)], reg_default := Some 2\<rparr>)"
    by (blast intro: reg_reachable.step reg_step.set_default)
  then show ?thesis
    by (intro exI [of _ "?r1\<lparr>reg_loggers := [(''db'', 2)], reg_default := Some 2\<rparr>"])
      (simp add: reg_get_def default_logger_def put_logger_def reg_construct_def)
qed

theorem registry_invariant_witness:
  "\<exists>r lg. reg_reachable sample_env 1 r \<and> reg_get ''db'' r = Some 2 \<and> default_logger r = Some 2
    \<and> logger_at r 2 = Some lg \<and> lg_name lg = ''db''"
proof -
  from sample_registry obtain r where r: "reg_reachable sample_env 1 r" "reg_get ''db'' r = Some 2" "default_logger r = Some 2" by blast
  from registry_invariant [OF r(1), of "''db''" 2 2] r show ?thesis by auto
qed

text \<open>
  set_level gives every registered logger the level and changes nothing else about the loggers; a
  logger set up later gets that level too, unless the level configuration names it.
\<close>

theorem registry_set_level:
  assumes "reg_reachable fenv depth r"
  shows "\<exists>r'. reg_set_level lvl r = Some r' \<and> (\<forall>name. reg_get name r' = reg_get name r)
    \<and> (reg_get name r = Some p \<longrightarrow> (\<exists>lg. logger_at r p = Some lg \<and> logger_at r' p = Some (lg\<lparr>lg_level := lvl\<rparr>)))
    \<and> ((\<nexists>k. reg_get k r = Some q) \<longrightarrow> logger_at r' q = logger_at r q)
    \<and> lg_level (configure r' lg) = (case map_of (levels_map (reg_levels r)) (lg_name lg) of Some l \<Rightarrow> l | None \<Rightarrow> lvl)"
proof -
  from all_loggers_spec [OF reg_reachable_ok [OF assms], of "lg_set_level lvl"] obtain h where
    h: "all_loggers (lg_set_level lvl) r = Some (r\<lparr>logger_at := h\<rparr>)"
      "\<forall>k p. registered r k p \<longrightarrow> (\<exists>lg. logger_at r p = Some lg \<and> lg_name lg = k \<and> h p = Some (lg_set_level lvl lg))"
      "\<forall>p. (\<nexists>k. registered r k p) \<longrightarrow> h p = logger_at r p" by blast
  define r' where "r' = r\<lparr>logger_at := h, reg_levels := ll_set_default lvl (reg_levels r)\<rparr>"
  have "reg_set_level lvl r = Some r'" by (simp add: reg_set_level_def h(1) r'_def)
  moreover have "lg_level (configure r' lg) = (case map_of (levels_map (reg_levels r)) (lg_name lg) of Some l \<Rightarrow> l | None \<Rightarrow> lvl)"
    by (simp add: configure_def r'_def ll_get_def ll_set_default_def lg_set_level_def lg_flush_on_def lg_enable_backtrace_def
        lg_set_error_handler_def Let_def split: option.split)
  moreover have "\<exists>lg. logger_at r p = Some lg \<and> logger_at r' p = Some (lg\<lparr>lg_level := lvl\<rparr>)" if "reg_get name r = Some p"
    using h(2) that unfolding reg_get_def registered_def by (force simp: r'_def lg_set_level_def)
  moreover have "logger_at r' q = logger_at r q" if "\<nexists>k. reg_get k r = Some q"
    using h(3) that by (simp add: r'_def reg_get_def registered_def)
  moreover have "reg_get k r' = reg_get k r" for k by (simp add: r'_def reg_get_def)
  ultimately show ?thesis by blast
qed

theorem registry_set_level_witness:
  "\<exists>(r :: unit registry) r'. reg_get ''db'' r = Some 2 \<and> reg_set_level Debug r = Some r'
    \<and> logger_at r' 2 = Some ((new_logger ''db'' [1])\<lparr>lg_level := Debug\<rparr>) \<and> lg_level (configure r' (new_logger ''net'' [])) = Debug"
proof -
  from sample_registry obtain r where r: "reg_reachable sample_env 1 r" "reg_get ''db'' r = Some 2"
    "logger_at r 2 = Some (new_logger ''db'' [1])" "reg_levels r = empty_log_levels" by blast
  from registry_set_level [OF r(1), of Debug "''db''" 2 0 "new_logger ''net'' []"] r(2-) obtain r' where
    "reg_set_level Debug r = Some r'" "logger_at r' 2 = Some ((new_logger ''db'' [1])\<lparr>lg_level := Debug\<rparr>)"
    "lg_level (configure r' (new_logger ''net'' [])) = Debug" by (auto simp: empty_log_levels_def)
  with r(2) show ?thesis by blast
qed

text \<open>
  The levels on the command line: the last argument SPDLOG_LEVEL=... decides alone; every registered
  logger gets the level that this argument's text has for its name, nothing else about it changes; with no
  such argument nothing changes at all.
\<close>

theorem registry_argv_levels:
  assumes "reg_reachable fenv depth r"
  shows "\<exists>r'. reg_load_argv argv r = Some r' \<and>
    (let args = filter (prefix level_prefix) argv in
     if args = [] then r' = r
     else reg_get name r = Some p \<longrightarrow> (\<exists>lg. logger_at r p = Some lg \<and>
       logger_at r' p = Some (lg\<lparr>lg_level := ll_get name (extract_levels (drop (length level_prefix) (last args)))\<rparr>)))"
proof -
  define args where "args = filter (prefix level_prefix) argv"
  define ls where "ls = map (\<lambda>arg. extract_levels (drop (length level_prefix) arg)) args"
  have last: "last ls = extract_levels (drop (length level_prefix) (last args))" if "args \<noteq> []"
    using that by (simp add: ls_def last_map)
  from apply_levels_spec [OF reg_reachable_ok [OF assms], of ls] obtain r' where
    r': "apply_levels ls r = Some r'" "ls = [] \<longrightarrow> r' = r"
      "\<forall>k p. registered r k p \<longrightarrow> ls \<noteq> [] \<longrightarrow>
         (\<exists>lg. logger_at r p = Some lg \<and> logger_at r' p = Some (lg\<lparr>lg_level := ll_get k (last ls)\<rparr>))" by blast
  have "reg_load_argv argv r = Some r'"
    using r'(1) by (simp add: reg_load_argv_def load_argv_levels_map ls_def args_def)
  moreover have "ls = [] \<longleftrightarrow> args = []" by (simp add: ls_def)
  ultimately show ?thesis using r'(2,3) last
    unfolding Let_def args_def [symmetric] reg_get_def registered_def by (cases "args = []") auto
qed

lemma sample_levels: "ll_get ''db'' (extract_levels ''off,db=debug'') = Debug"
  by code_simp

theorem registry_argv_levels_witness:
  "\<exists>(r :: unit registry) r'. reg_get ''db'' r = Some 2 \<and> reg_load_argv [''SPDLOG_LEVEL=trace'', ''-v'', ''SPDLOG_LEVEL=off,db=debug''] r = Some r'
    \<and> logger_at r' 2 = Some ((new_logger ''db'' [1])\<lparr>lg_level := Debug\<rparr>)"
proof -
  from sample_registry obtain r where r: "reg_reachable sample_env 1 r" "reg_get ''db'' r = Some 2"
    "logger_at r 2 = Some (new_logger ''db'' [1])" by blast
  have "filter (prefix level_prefix) [''SPDLOG_LEVEL=trace'', ''-v'', ''SPDLOG_LEVEL=off,db=debug'']
      = [''SPDLOG_LEVEL=trace'', ''SPDLOG_LEVEL=off,db=debug'']" by (simp add: level_prefix_def)
  with registry_argv_levels [OF r(1), of "[''SPDLOG_LEVEL=trace'', ''-v'', ''SPDLOG_LEVEL=off,db=debug'']" "''db''" 2] r(2,3)
  obtain r' where "reg_load_argv [''SPDLOG_LEVEL=trace'', ''-v'', ''SPDLOG_LEVEL=off,db=debug''] r = Some r'"
    "logger_at r' 2 = Some ((new_logger ''db'' [1])\<lparr>lg_level := Debug\<rparr>)"
    using sample_levels by (auto simp: Let_def level_prefix_def)
  with r(2) show ?thesis by blast
qed

text \<open>
  Reading the environment with SPDLOG_LEVEL unset is not neutral: it sets the level of every
  registered logger, whatever it was, to info, and forgets the levels configured before.
\<close>

theorem env_unset_resets_levels:
  assumes "reg_reachable fenv depth r" "reg_get name r = Some p"
  shows "\<exists>r' lg. reg_load_env None r = Some r' \<and> reg_levels r' = empty_log_levels \<and> logger_at r p = Some lg
    \<and> logger_at r' p = Some (lg\<lparr>lg_level := Info\<rparr>)"
proof -
  have e: "extract_levels [] = empty_log_levels" by code_simp
  have g: "ll_get name empty_log_levels = Info" by (simp add: ll_get_def empty_log_levels_def)
  from update_levels_spec [OF reg_reachable_ok [OF assms(1)], of empty_log_levels] assms(2) g show ?thesis
    unfolding reg_load_env_def option.case e reg_get_def registered_def by metis
qed

theorem env_unset_resets_levels_witness:
  "\<exists>(r :: unit registry) r' lg. reg_get ''db'' r = Some 2 \<and> reg_load_env None r = Some r' \<and> logger_at r' 2 = Some lg \<and> lg_level lg = Info"
proof -
  from sample_registry obtain r where r: "reg_reachable sample_env 1 r" "reg_get ''db'' r = Some 2" by blast
  from env_unset_resets_levels [OF this] r(2) show ?thesis by auto
qed

text \<open>
  initialize_logger configures the logger (level from the configuration, flush level, error handler,
  backtrace, a clone of the formatter) and registers it under its name; when the name is taken it
  throws and leaves the registry's map alone, but the rejected logger has been reconfigured already.
\<close>

theorem registry_initialize:
  assumes "reg_reachable fenv depth r" "logger_at r p = Some lg" "reg_auto r"
    and "lg_set_formatter fenv depth (clone_pattern_formatter fenv (reg_formatter r)) lg (sinks_part (world r)) = Some st"
  shows "\<exists>r' lg'. initialize_logger fenv depth p r
      = Some (if reg_get (lg_name lg) r = None then Inr () else Inl (Logger_exists (lg_name lg)), r')
    \<and> reg_get name r' = (if name = lg_name lg \<and> reg_get name r = None then Some p else reg_get name r)
    \<and> logger_at r' p = Some lg' \<and> lg_sinks lg' = lg_sinks lg \<and> lg_level lg' = ll_get (lg_name lg) (reg_levels r)
    \<and> lg_flush_level lg' = reg_flush_level r \<and> sinks_part (world r') = st
    \<and> (bt_enabled (lg_tracer lg') \<longleftrightarrow> bt_enabled (lg_tracer lg) \<or> reg_backtrace_n r > 0)
    \<and> lg_handler lg' = (if reg_err_handler r = None then lg_handler lg else reg_err_handler r)"
proof -
  define lg' where "lg' = configure r lg"
  define r1 where "r1 = put_logger p lg' (put_sinks st r)"
  have c: "lg_name lg' = lg_name lg" "lg_sinks lg' = lg_sinks lg" "lg_level lg' = ll_get (lg_name lg) (reg_levels r)"
    "lg_flush_level lg' = reg_flush_level r" "bt_enabled (lg_tracer lg') \<longleftrightarrow> bt_enabled (lg_tracer lg) \<or> reg_backtrace_n r > 0"
    "lg_handler lg' = (if reg_err_handler r = None then lg_handler lg else reg_err_handler r)"
    by (simp_all add: lg'_def configure_def lg_set_level_def lg_flush_on_def lg_enable_backtrace_def
      lg_set_error_handler_def bt_enable_def bt_enabled_def Let_def)
  have r1: "reg_loggers r1 = reg_loggers r" "logger_at r1 p = Some lg'" "sinks_part (world r1) = st"
    by (simp_all add: r1_def put_logger_def put_sinks_def)
  have i: "initialize_logger fenv depth p r = register_logger p r1"
    using assms(2-4) by (simp add: initialize_logger_def r1_def lg'_def)
  show ?thesis
  proof (cases "map_of (reg_loggers r) (lg_name lg)")
    case None
    then have "register_logger p r1 = Some (Inr (), r1\<lparr>reg_loggers := AList.update (lg_name lg) p (reg_loggers r)\<rparr>)"
      by (simp add: register_logger_def throw_if_exists_def r1(1,2) c(1))
    with None c r1 i show ?thesis by (auto simp: reg_get_def AList.update_conv')
  next
    case (Some q)
    then have "register_logger p r1 = Some (Inl (Logger_exists (lg_name lg)), r1)"
      by (simp add: register_logger_def throw_if_exists_def r1(1,2) c(1))
    with Some c r1 i show ?thesis by (auto simp: reg_get_def)
  qed
qed

theorem registry_initialize_witness:
  "\<exists>(r :: unit registry) r' lg'. reg_get ''db'' r = Some 2 \<and> initialize_logger sample_env 1 3 (put_logger 3 (new_logger ''db'' []) r)
      = Some (Inl (Logger_exists ''db''), r') \<and> reg_get ''db'' r' = Some 2 \<and> logger_at r' 3 = Some lg' \<and> lg_level lg' = Info"
proof -
  let ?lg = "new_logger ''db'' []"
  from sample_registry obtain r where r: "reg_reachable sample_env 1 r" "reg_get ''db'' r = Some 2"
    "reg_levels r = empty_log_levels" "logger_at r 3 = None" "reg_auto r" by blast
  define r0 where "r0 = put_logger 3 ?lg r"
  have reach: "reg_reachable sample_env 1 r0"
    unfolding r0_def by (rule reg_reachable.step [OF r(1) reg_step.create [OF r(4)]])
  have r0: "logger_at r0 3 = Some ?lg" "reg_auto r0" "reg_get ''db'' r0 = Some 2" "reg_levels r0 = empty_log_levels"
    using r(2,3,5) by (simp_all add: r0_def put_logger_def reg_get_def)
  have f: "lg_set_formatter sample_env 1 (clone_pattern_formatter sample_env (reg_formatter r0)) ?lg (sinks_part (world r0))
      = Some (sinks_part (world r0))" by (simp add: lg_set_formatter_def new_logger_def)
  have n: "lg_name ?lg = ''db''" "ll_get ''db'' (reg_levels r0) = Info"
    by (simp_all add: new_logger_def r0(4) ll_get_def empty_log_levels_def)
  from registry_initialize [OF reach r0(1,2) f, of "''db''"] r0(3) obtain r' lg' where
    "initialize_logger sample_env 1 3 r0 = Some (Inl (Logger_exists ''db''), r')" "reg_get ''db'' r' = Some 2"
    "logger_at r' 3 = Some lg'" "lg_level lg' = Info" unfolding n by auto
  with r(2) show ?thesis unfolding r0_def by blast
qed

end
