(* ===== verification/Thread_Pool.thy ===== *)
theory Thread_Pool imports Mpmc_Queue Logger_Delivery "HOL-Library.Multiset" begin

text \<open>
  \<open>thread_pool\<close> (spdlog/details/thread_pool.h, thread_pool-inl.h): a queue of messages for asynchronous loggers
  and the workers that take them out.

  The queue is the \<open>circular_q\<close> inside \<open>mpmc_blocking_queue\<close>; a blocking call is a step that is possible
  when the queue has room (or an item), which \<open>Mpmc_Queue\<close> justifies: its critical sections run one at
  a time and no wake-up is lost.  A worker takes a message in one step and finishes it in another, so
  the work of several workers overlaps.  \<open>process_next_msg_\<close> also returns when no message came for ten
  seconds, and is called again: that changes nothing.

  What a worker does with a message is an argument \<open>handle\<close>, a function of the state it acts on;
  \<open>handle_msg\<close> is the one of the code.  \<open>posted\<close> and \<open>taken\<close> log what went into and came out of the queue,
  \<open>finished\<close> what was handled, in the order of completion.
\<close>

section \<open>Messages\<close>

datatype async_msg_type = Log_msg | Flush_msg | Terminate_msg

text \<open>The base class of an \<open>async_msg\<close> is its first field here.\<close>

record async_msg =
  msg_part :: log_msg_buffer
  msg_type :: async_msg_type
  worker_ptr :: "nat option"

definition make_log_async :: "nat \<Rightarrow> log_msg \<Rightarrow> async_msg" where
  "make_log_async worker m = \<lparr>msg_part = buffer_msg m, msg_type = Log_msg, worker_ptr = Some worker\<rparr>"

definition make_async :: "nat option \<Rightarrow> async_msg_type \<Rightarrow> async_msg" where
  "make_async worker the_type = \<lparr>msg_part = empty_buffer, msg_type = the_type, worker_ptr = worker\<rparr>"

definition terminate_async :: async_msg where
  "terminate_async = make_async None Terminate_msg"

definition is_terminate :: "async_msg \<Rightarrow> bool" where
  "is_terminate m \<longleftrightarrow> msg_type m = Terminate_msg"

lemma is_terminate_terminate [simp]: "is_terminate terminate_async"
  by (simp add: is_terminate_def terminate_async_def make_async_def)

text \<open>What \<open>post_log\<close> and \<open>post_flush\<close> make of the calls of an asynchronous logger.\<close>

fun post_msg :: "async_post \<Rightarrow> async_msg" where
  "post_msg (Post_log this b policy) = \<lparr>msg_part = b, msg_type = Log_msg, worker_ptr = Some this\<rparr>"
| "post_msg (Post_flush this policy) = make_async (Some this) Flush_msg"

fun post_policy :: "async_post \<Rightarrow> overflow_policy" where
  "post_policy (Post_log this b policy) = policy"
| "post_policy (Post_flush this policy) = policy"

lemma post_msg_not_terminate [simp]: "\<not> is_terminate (post_msg p)"
  by (cases p) (simp_all add: is_terminate_def make_async_def)

text \<open>The backend functions of \<open>async_logger\<close>, with the loop of \<open>logger::sink_it_\<close> again (\<open>call_sinks\<close>).\<close>

definition backend_flush :: "nat \<Rightarrow> logger \<Rightarrow> 'c log_world \<Rightarrow> 'c log_world option" where
  "backend_flush depth lg w =
     map_option (\<lambda>st. w\<lparr>sinks_part := st\<rparr>) (sinks_flush (sink_flush depth) (lg_sinks lg) (sinks_part w))"

definition backend_sink_it ::
  "'c sink_env \<Rightarrow> nat \<Rightarrow> logger \<Rightarrow> log_msg \<Rightarrow> 'c log_world \<Rightarrow> 'c log_world option" where
  "backend_sink_it env depth lg msg w =
     Option.bind (call_sinks env depth lg (lg_sinks lg) msg w) (\<lambda>(msg1, w1).
       if should_flush lg msg1 then backend_flush depth lg w1 else Some w1)"

text \<open>The \<open>switch\<close> of \<open>process_next_msg_\<close>.\<close>

definition handle_msg ::
  "'c sink_env \<Rightarrow> nat \<Rightarrow> (nat \<Rightarrow> logger option) \<Rightarrow> async_msg \<Rightarrow> 'c log_world \<Rightarrow> 'c log_world option" where
  "handle_msg env depth lgs m w =
     (case msg_type m of
        Log_msg \<Rightarrow>
          Option.bind (worker_ptr m) (\<lambda>p. Option.bind (lgs p) (\<lambda>lg.
            backend_sink_it env depth lg (buffered_msg (msg_part m)) w))
      | Flush_msg \<Rightarrow> Option.bind (worker_ptr m) (\<lambda>p. Option.bind (lgs p) (\<lambda>lg. backend_flush depth lg w))
      | Terminate_msg \<Rightarrow> Some w)"

section \<open>The pool\<close>

datatype worker = Idle | Busy async_msg | Exited

record 's pool =
  msg_q :: "async_msg circular_q"
  workers :: "worker list"
  closing :: bool
  to_terminate :: nat
  backend :: 's
  posted :: "async_msg list"
  taken :: "async_msg list"
  finished :: "async_msg list"

definition pool_construct :: "u64 \<Rightarrow> u64 \<Rightarrow> 's \<Rightarrow> spdlog_ex + 's pool" where
  "pool_construct q_max_items threads_n w =
     (if threads_n = 0 \<or> threads_n > 1000 then Inl Invalid_threads_n
      else Inr \<lparr>msg_q = circ_construct (make_async None Log_msg) q_max_items, workers = replicate (unat threads_n) Idle,
        closing = False, to_terminate = 0, backend = w, posted = [], taken = [], finished = []\<rparr>)"

text \<open>\<open>post_async_msg_\<close>: the step of a blocking post exists only when there is room.\<close>

definition enqueue_msg :: "async_msg \<Rightarrow> 's pool \<Rightarrow> 's pool option" where
  "enqueue_msg m s = map_option (\<lambda>q. s\<lparr>msg_q := q, posted := posted s @ [m]\<rparr>) (circ_push_back m (msg_q s))"

definition may_post :: "overflow_policy \<Rightarrow> 's pool \<Rightarrow> bool" where
  "may_post policy s \<longleftrightarrow> (case policy of Block \<Rightarrow> \<not> circ_full (msg_q s) | Overrun_oldest \<Rightarrow> True)"

definition take_msg :: "nat \<Rightarrow> 's pool \<Rightarrow> 's pool option" where
  "take_msg i s =
     Option.bind (circ_front (msg_q s)) (\<lambda>m.
       map_option (\<lambda>q. s\<lparr>msg_q := q, workers := (workers s)[i := Busy m], taken := taken s @ [m]\<rparr>)
         (circ_pop_front (msg_q s)))"

definition finish_msg :: "(async_msg \<Rightarrow> 's \<Rightarrow> 's option) \<Rightarrow> nat \<Rightarrow> async_msg \<Rightarrow> 's pool \<Rightarrow> 's pool option" where
  "finish_msg handle i m s =
     map_option (\<lambda>w. s\<lparr>backend := w, workers := (workers s)[i := if is_terminate m then Exited else Idle],
         finished := finished s @ [m]\<rparr>) (handle m (backend s))"

text \<open>
  The destructor posts a terminate message for every thread, then joins the threads.  Nobody posts
  any more when it runs: a logger that posts holds a shared pointer to the pool.
\<close>

inductive pool_step :: "(async_msg \<Rightarrow> 's \<Rightarrow> 's option) \<Rightarrow> 's pool \<Rightarrow> 's pool option \<Rightarrow> bool" for handle where
  post: "\<not> closing s \<Longrightarrow> may_post (post_policy p) s \<Longrightarrow> pool_step handle s (enqueue_msg (post_msg p) s)"
| take: "i < length (workers s) \<Longrightarrow> workers s ! i = Idle \<Longrightarrow> \<not> circ_empty (msg_q s) \<Longrightarrow> pool_step handle s (take_msg i s)"
| finish: "i < length (workers s) \<Longrightarrow> workers s ! i = Busy m \<Longrightarrow> pool_step handle s (finish_msg handle i m s)"
| close: "\<not> closing s \<Longrightarrow> pool_step handle s (Some (s\<lparr>closing := True, to_terminate := length (workers s)\<rparr>))"
| terminate: "closing s \<Longrightarrow> 0 < to_terminate s \<Longrightarrow> may_post Block s \<Longrightarrow>
    pool_step handle s (enqueue_msg terminate_async (s\<lparr>to_terminate := to_terminate s - 1\<rparr>))"

definition joined :: "'s pool \<Rightarrow> bool" where
  "joined s \<longleftrightarrow> closing s \<and> to_terminate s = 0 \<and> (\<forall>v \<in> set (workers s). v = Exited)"

inductive pool_reachable :: "(async_msg \<Rightarrow> 's \<Rightarrow> 's option) \<Rightarrow> 's pool \<Rightarrow> 's pool \<Rightarrow> bool" for handle s0 where
  start: "pool_reachable handle s0 s0"
| step: "pool_reachable handle s0 s \<Longrightarrow> pool_step handle s (Some s') \<Longrightarrow> pool_reachable handle s0 s'"

section \<open>The invariant\<close>

definition worker_msgs :: "worker \<Rightarrow> async_msg list" where
  "worker_msgs v = (case v of Busy m \<Rightarrow> [m] | _ \<Rightarrow> [])"

definition busy_msgs :: "worker list \<Rightarrow> async_msg list" where
  "busy_msgs ws = concat (map worker_msgs ws)"

definition exited :: "worker list \<Rightarrow> nat" where
  "exited ws = length (filter (\<lambda>v. v = Exited) ws)"

text \<open>Terminate messages come last, and as many are in the queue or taken as the destructor posted.\<close>

definition terminated_last :: "'s pool \<Rightarrow> bool" where
  "terminated_last s \<longleftrightarrow> (\<exists>ms. taken s @ circ_contents (msg_q s)
       = ms @ replicate (if closing s then length (workers s) - to_terminate s else 0) terminate_async
     \<and> (\<forall>m \<in> set ms. \<not> is_terminate m))"

definition log_part_ok :: "'s pool \<Rightarrow> bool" where
  "log_part_ok s \<longleftrightarrow> subseq (taken s @ circ_contents (msg_q s)) (posted s)
     \<and> length (posted s) = length (taken s) + circ_size (msg_q s) + circ_overruns (msg_q s)"

definition pool_ok :: "'s pool \<Rightarrow> bool" where
  "pool_ok s \<longleftrightarrow> circ_ok (msg_q s) \<and> 0 < circ_capacity (msg_q s) \<and> terminated_last s \<and> log_part_ok s
     \<and> (if closing s then to_terminate s \<le> length (workers s) else to_terminate s = 0)
     \<and> mset (taken s) = mset (finished s) + mset (busy_msgs (workers s))
     \<and> exited (workers s) = length (filter is_terminate (finished s))"

lemma busy_msgs_update:
  assumes "i < length ws"
  shows "mset (busy_msgs (ws[i := v])) + mset (worker_msgs (ws ! i)) = mset (busy_msgs ws) + mset (worker_msgs v)"
  by (subst (2) id_take_nth_drop [OF assms], subst upd_conv_take_nth_drop [OF assms])
    (simp only: busy_msgs_def map_append concat_append list.map concat.simps mset_append ac_simps)

lemma exited_update:
  assumes "i < length ws" "ws ! i \<noteq> Exited"
  shows "exited (ws[i := v]) = exited ws + (if v = Exited then 1 else 0)"
  by (subst (2) id_take_nth_drop [OF assms(1)], subst upd_conv_take_nth_drop [OF assms(1)])
    (use assms(2) in \<open>simp add: exited_def\<close>)

lemma enqueue_ok:
  assumes "circ_ok (msg_q s)" "0 < circ_capacity (msg_q s)" "log_part_ok s"
  obtains q where "enqueue_msg m s = Some (s\<lparr>msg_q := q, posted := posted s @ [m]\<rparr>)" "circ_ok q"
    "circ_capacity q = circ_capacity (msg_q s)"
    "circ_contents q = keep_last (circ_capacity (msg_q s)) (circ_contents (msg_q s) @ [m])"
    "log_part_ok (s\<lparr>msg_q := q, posted := posted s @ [m]\<rparr>)"
    "circ_size (msg_q s) < circ_capacity (msg_q s) \<Longrightarrow> circ_overruns q = circ_overruns (msg_q s)"
proof -
  from circ_push_spec [OF assms(1), of m] obtain q where
    q: "circ_push_back m (msg_q s) = Some q" "circ_ok q" "circ_capacity q = circ_capacity (msg_q s)"
      "circ_contents q = keep_last (circ_capacity (msg_q s)) (circ_contents (msg_q s) @ [m])"
      "overrun_count q = overrun_count (msg_q s) + (if circ_size (msg_q s) = circ_capacity (msg_q s) then 1 else 0)"
    using assms(2) by auto
  define t where "t = (mpmc_start (msg_q s))\<lparr>popped := taken s, pushed := posted s\<rparr>"
  have t: "queue t = msg_q s" "popped t = taken s" "pushed t = posted s" by (simp_all add: t_def mpmc_start_def)
  have "log_ok t" using assms(3) by (simp add: log_ok_def t log_part_ok_def)
  with do_push_ok [of t m] assms(1,2) obtain q1 where
    q1: "do_push m t = Some (t\<lparr>queue := q1, pushed := pushed t @ [m], push_notifies := push_notifies t + 1\<rparr>)"
      "log_ok (t\<lparr>queue := q1, pushed := pushed t @ [m], push_notifies := push_notifies t + 1\<rparr>)"
    unfolding t by blast
  have "map_option queue (do_push m t) = Some q" by (simp add: do_push_def t q(1))
  with q1 have "q1 = q" by simp
  with q1(2) have "log_part_ok (s\<lparr>msg_q := q, posted := posted s @ [m]\<rparr>)"
    by (simp add: t log_ok_def log_part_ok_def)
  with q show ?thesis by (intro that [of q]) (simp_all add: enqueue_msg_def circ_overruns_def)
qed

lemma take_ok:
  assumes "circ_ok (msg_q s)" "\<not> circ_empty (msg_q s)" "log_part_ok s"
  obtains q m where "take_msg i s = Some (s\<lparr>msg_q := q, workers := (workers s)[i := Busy m], taken := taken s @ [m]\<rparr>)"
    "circ_ok q" "circ_capacity q = circ_capacity (msg_q s)" "circ_contents (msg_q s) = m # circ_contents q"
    "log_part_ok (s\<lparr>msg_q := q, workers := (workers s)[i := Busy m], taken := taken s @ [m]\<rparr>)"
    "circ_overruns q = circ_overruns (msg_q s)"
proof -
  have ne: "circ_contents (msg_q s) \<noteq> []" using circ_empty_spec [OF assms(1)] assms(2) by simp
  then obtain m ms where c: "circ_contents (msg_q s) = m # ms" by (cases "circ_contents (msg_q s)") auto
  from circ_pop_spec [OF assms(1) ne] obtain q where
    q: "circ_pop_front (msg_q s) = Some q" "circ_ok q" "max_items q = max_items (msg_q s)" "circ_contents q = ms"
      "overrun_count q = overrun_count (msg_q s)" using c by auto
  have f: "circ_front (msg_q s) = Some m" using circ_front_spec [OF assms(1) ne] c by simp
  have "circ_size (msg_q s) = Suc (circ_size q)"
    using c q(4) by (metis length_Cons length_circ_contents)
  then have "log_part_ok (s\<lparr>msg_q := q, workers := (workers s)[i := Busy m], taken := taken s @ [m]\<rparr>)"
    using assms(3) q(4,5) c by (simp add: log_part_ok_def circ_overruns_def)
  with q f c show ?thesis by (intro that [where q = q and m = m]) (simp_all add: take_msg_def circ_capacity_def circ_overruns_def)
qed

lemma terminated_last_cong:
  "taken s' @ circ_contents (msg_q s') = taken s @ circ_contents (msg_q s) \<Longrightarrow> closing s' = closing s \<Longrightarrow>
    to_terminate s' = to_terminate s \<Longrightarrow> length (workers s') = length (workers s) \<Longrightarrow> terminated_last s' = terminated_last s"
  unfolding terminated_last_def by simp

text \<open>What the steps of a pool leave as it was.\<close>

definition same_shape :: "'s pool \<Rightarrow> 's pool \<Rightarrow> bool" where
  "same_shape s s' \<longleftrightarrow> circ_capacity (msg_q s') = circ_capacity (msg_q s) \<and> length (workers s') = length (workers s)"

lemma post_ok:
  assumes ok: "pool_ok s" and "\<not> closing s"
  shows "\<exists>s'. enqueue_msg (post_msg p) s = Some s' \<and> pool_ok s' \<and> same_shape s s'"
proof -
  have c: "circ_ok (msg_q s)" "0 < circ_capacity (msg_q s)" "log_part_ok s" using ok by (simp_all add: pool_ok_def)
  from enqueue_ok [OF this, of "post_msg p"] obtain q where
    q: "enqueue_msg (post_msg p) s = Some (s\<lparr>msg_q := q, posted := posted s @ [post_msg p]\<rparr>)" "circ_ok q"
      "circ_capacity q = circ_capacity (msg_q s)"
      "circ_contents q = keep_last (circ_capacity (msg_q s)) (circ_contents (msg_q s) @ [post_msg p])"
      "log_part_ok (s\<lparr>msg_q := q, posted := posted s @ [post_msg p]\<rparr>)" by blast
  have nt: "\<forall>m \<in> set (taken s @ circ_contents (msg_q s)). \<not> is_terminate m"
    using ok assms(2) by (auto simp: pool_ok_def terminated_last_def)
  have "set (circ_contents q) \<subseteq> insert (post_msg p) (set (circ_contents (msg_q s)))"
    unfolding q(4) keep_last_def using set_drop_subset by fastforce
  with nt have "\<forall>m \<in> set (taken s @ circ_contents q). \<not> is_terminate m" by auto
  then have "terminated_last (s\<lparr>msg_q := q, posted := posted s @ [post_msg p]\<rparr>)"
    using assms(2) by (auto simp: terminated_last_def)
  with ok q show ?thesis by (simp add: pool_ok_def same_shape_def)
qed

lemma terminate_ok:
  assumes ok: "pool_ok s" and "closing s" "0 < to_terminate s" "may_post Block s"
  shows "\<exists>s'. enqueue_msg terminate_async (s\<lparr>to_terminate := to_terminate s - 1\<rparr>) = Some s' \<and> pool_ok s'
    \<and> same_shape s s' \<and> to_terminate s' = to_terminate s - 1 \<and> closing s' \<and> workers s' = workers s
    \<and> circ_size (msg_q s') = circ_size (msg_q s) + 1"
proof -
  define s1 where "s1 = s\<lparr>to_terminate := to_terminate s - 1\<rparr>"
  have c: "circ_ok (msg_q s1)" "0 < circ_capacity (msg_q s1)" "log_part_ok s1"
    using ok by (simp_all add: pool_ok_def s1_def log_part_ok_def)
  from enqueue_ok [OF this, of terminate_async] obtain q where
    q: "enqueue_msg terminate_async s1 = Some (s1\<lparr>msg_q := q, posted := posted s1 @ [terminate_async]\<rparr>)" "circ_ok q"
      "circ_capacity q = circ_capacity (msg_q s1)"
      "circ_contents q = keep_last (circ_capacity (msg_q s1)) (circ_contents (msg_q s1) @ [terminate_async])"
      "log_part_ok (s1\<lparr>msg_q := q, posted := posted s1 @ [terminate_async]\<rparr>)" by blast
  have "\<not> circ_full (msg_q s)" using assms(4) by (simp add: may_post_def)
  then have less: "circ_size (msg_q s) < circ_capacity (msg_q s)"
    using full_iff [of "msg_q s"] size_le_capacity [of "msg_q s"] ok by (auto simp: pool_ok_def free_slots_def)
  then have cq: "circ_contents q = circ_contents (msg_q s) @ [terminate_async]"
    unfolding q(4) by (simp add: s1_def keep_last_id)
  obtain ms where ms: "taken s @ circ_contents (msg_q s) = ms @ replicate (length (workers s) - to_terminate s) terminate_async"
    "\<forall>m \<in> set ms. \<not> is_terminate m" using ok assms(2) by (auto simp: pool_ok_def terminated_last_def)
  have "to_terminate s \<le> length (workers s)" using ok assms(2) by (simp add: pool_ok_def)
  then have n: "length (workers s) - (to_terminate s - 1) = Suc (length (workers s) - to_terminate s)" using assms(3) by linarith
  have "taken s @ circ_contents q = ms @ replicate (length (workers s) - (to_terminate s - 1)) terminate_async"
    unfolding cq n using ms(1) by (metis append.assoc replicate_Suc replicate_append_same)
  with ms(2) have "terminated_last (s1\<lparr>msg_q := q, posted := posted s1 @ [terminate_async]\<rparr>)"
    using assms(2) by (auto simp: terminated_last_def s1_def)
  moreover have "circ_size q = circ_size (msg_q s) + 1"
    using cq by (metis length_circ_contents length_append_singleton Suc_eq_plus1)
  ultimately show ?thesis using ok q assms(2) unfolding s1_def [symmetric]
    by (auto simp: pool_ok_def same_shape_def s1_def)
qed

lemma take_msg_ok:
  assumes ok: "pool_ok s" and i: "i < length (workers s)" "workers s ! i = Idle" "\<not> circ_empty (msg_q s)"
  shows "\<exists>s' m. take_msg i s = Some s' \<and> pool_ok s' \<and> same_shape s s' \<and> to_terminate s' = to_terminate s
    \<and> closing s' = closing s \<and> workers s' = (workers s)[i := Busy m] \<and> circ_size (msg_q s) = circ_size (msg_q s') + 1"
proof -
  have c: "circ_ok (msg_q s)" "log_part_ok s" using ok by (simp_all add: pool_ok_def)
  from take_ok [OF c(1) i(3) c(2), of i] obtain q m where
    q: "take_msg i s = Some (s\<lparr>msg_q := q, workers := (workers s)[i := Busy m], taken := taken s @ [m]\<rparr>)"
      "circ_ok q" "circ_capacity q = circ_capacity (msg_q s)" "circ_contents (msg_q s) = m # circ_contents q"
      "log_part_ok (s\<lparr>msg_q := q, workers := (workers s)[i := Busy m], taken := taken s @ [m]\<rparr>)" by blast
  define s' where "s' = s\<lparr>msg_q := q, workers := (workers s)[i := Busy m], taken := taken s @ [m]\<rparr>"
  have "terminated_last s' = terminated_last s" by (rule terminated_last_cong) (use q(4) in \<open>simp_all add: s'_def\<close>)
  then have "terminated_last s'" using ok by (simp add: pool_ok_def)
  moreover have "mset (taken s') = mset (finished s') + mset (busy_msgs (workers s'))"
    using ok busy_msgs_update [OF i(1), of "Busy m"] i(2) by (simp add: pool_ok_def s'_def worker_msgs_def)
  moreover have "exited (workers s') = length (filter is_terminate (finished s'))"
    using ok exited_update [OF i(1), of "Busy m"] i(2) by (simp add: pool_ok_def s'_def)
  moreover have "circ_size (msg_q s) = circ_size q + 1"
    using q(4) by (metis length_Cons length_circ_contents Suc_eq_plus1)
  ultimately show ?thesis using ok q by (auto simp: pool_ok_def same_shape_def s'_def)
qed

lemma finish_msg_ok:
  assumes ok: "pool_ok s" and i: "i < length (workers s)" "workers s ! i = Busy m" and h: "handle m (backend s) = Some w"
  shows "\<exists>s'. finish_msg handle i m s = Some s' \<and> pool_ok s' \<and> same_shape s s' \<and> to_terminate s' = to_terminate s
    \<and> closing s' = closing s \<and> workers s' = (workers s)[i := if is_terminate m then Exited else Idle] \<and> msg_q s' = msg_q s"
proof -
  let ?v = "if is_terminate m then Exited else Idle"
  define s' where "s' = s\<lparr>backend := w, workers := (workers s)[i := ?v], finished := finished s @ [m]\<rparr>"
  have "terminated_last s' = terminated_last s" by (rule terminated_last_cong) (simp_all add: s'_def)
  then have "terminated_last s'" "log_part_ok s'" using ok by (simp_all add: pool_ok_def log_part_ok_def s'_def)
  moreover have "mset (taken s') = mset (finished s') + mset (busy_msgs (workers s'))"
    using ok busy_msgs_update [OF i(1), of ?v] i(2) by (simp add: pool_ok_def s'_def worker_msgs_def)
  moreover have "exited (workers s') = length (filter is_terminate (finished s'))"
    using ok exited_update [OF i(1), of ?v] i(2) by (simp add: pool_ok_def s'_def)
  ultimately show ?thesis using ok h by (auto simp: pool_ok_def same_shape_def s'_def finish_msg_def)
qed

lemma pool_step_ok:
  assumes "pool_step handle s (Some s')" "pool_ok s"
  shows "pool_ok s' \<and> same_shape s s'"
  using assms(1)
proof (cases rule: pool_step.cases)
  case (post p)
  with post_ok [OF assms(2), of p] show ?thesis by auto
next
  case (take i)
  with take_msg_ok [OF assms(2), of i] show ?thesis by auto
next
  case (finish i m)
  then obtain w where w: "handle m (backend s) = Some w" 
    by (cases "handle m (backend s)") (simp_all add: finish_msg_def)
  from finish_msg_ok [of s i m handle, OF assms(2) finish(2,3) w] finish(1) show ?thesis by auto
next
  case close
  with assms(2) show ?thesis
    by (auto simp: pool_ok_def same_shape_def terminated_last_def log_part_ok_def)
next
  case terminate
  with terminate_ok [OF assms(2)] show ?thesis by auto
qed

lemma busy_at: "i < length (workers s) \<Longrightarrow> workers s ! i = Busy m \<Longrightarrow> m \<in> set (busy_msgs (workers s))"
  by (auto simp: busy_msgs_def worker_msgs_def in_set_conv_nth intro!: bexI [of _ "Busy m"])

text \<open>Only the handler can be undefined.\<close>

lemma pool_step_defined:
  assumes "pool_step handle s None" "pool_ok s"
  shows "\<exists>m \<in> set (busy_msgs (workers s)). handle m (backend s) = None"
  using assms(1)
proof (cases rule: pool_step.cases)
  case (post p)
  with post_ok [OF assms(2), of p] show ?thesis by auto
next
  case (take i)
  with take_msg_ok [OF assms(2), of i] show ?thesis by auto
next
  case (finish i m)
  then show ?thesis using busy_at [of i s m] by (auto simp: finish_msg_def)
next
  case terminate
  with terminate_ok [OF assms(2)] show ?thesis by auto
qed

lemma pool_ok_construct:
  assumes "pool_construct n k w = Inr s" "n \<noteq> - 1" "n \<noteq> 0"
  shows "pool_ok s \<and> circ_capacity (msg_q s) = unat n \<and> length (workers s) = unat k \<and> 0 < unat k \<and> \<not> closing s"
proof -
  have k: "k \<noteq> 0" using assms(1) by (simp add: pool_construct_def split: if_splits)
  have c: "circ_size (circ_construct (make_async None Log_msg) n) = 0"
    using circ_contents_construct [of "make_async None Log_msg" n] by (metis length_circ_contents list.size(3))
  have b: "busy_msgs (replicate j Idle) = []" "exited (replicate j Idle) = 0" for j
    by (simp_all add: busy_msgs_def exited_def worker_msgs_def)
  have "overrun_count (circ_construct (make_async None Log_msg) n) = 0" by (simp add: circ_construct_def Let_def)
  moreover have "0 < unat n" "0 < unat k" using assms(3) k by (simp_all add: unat_gt_0)
  ultimately show ?thesis using assms c b circ_capacity_construct [OF assms(2), of "make_async None Log_msg"]
    by (auto simp: pool_construct_def pool_ok_def terminated_last_def log_part_ok_def circ_overruns_def split: if_splits)
qed

lemma pool_reachable_ok:
  assumes "pool_reachable handle s0 s" "pool_construct n k w = Inr s0" "n \<noteq> - 1" "n \<noteq> 0"
  shows "pool_ok s \<and> length (workers s) = unat k \<and> 0 < unat k"
  using assms(1)
proof (induction rule: pool_reachable.induct)
  case start
  then show ?case using pool_ok_construct [OF assms(2-4)] by simp
next
  case (step s s')
  with pool_step_ok [OF step.hyps(2)] show ?case by (simp add: same_shape_def)
qed

section \<open>Shutting down\<close>

lemma enqueue_msgD: "Some s' = enqueue_msg m s \<Longrightarrow> \<exists>q. s' = s\<lparr>msg_q := q, posted := posted s @ [m]\<rparr>"
  by (drule sym) (auto simp: enqueue_msg_def)

lemma take_msgD: "Some s' = take_msg i s \<Longrightarrow>
    \<exists>m q. s' = s\<lparr>msg_q := q, workers := (workers s)[i := Busy m], taken := taken s @ [m]\<rparr>"
  by (drule sym) (auto simp: take_msg_def bind_eq_Some_conv)

lemma all_exited: "exited ws = length ws \<longleftrightarrow> (\<forall>v \<in> set ws. v = Exited)"
proof (induction ws)
  case (Cons v ws)
  have "length (filter (\<lambda>v. v = Exited) ws) \<le> length ws" by simp
  with Cons show ?case by (auto simp: exited_def simp del: length_filter_le)
qed (simp add: exited_def)

lemma busy_exited: "\<forall>v \<in> set ws. v = Exited \<Longrightarrow> busy_msgs ws = []"
  by (auto simp: busy_msgs_def worker_msgs_def)

lemma subseq_mset: "subseq xs ys \<Longrightarrow> mset xs \<subseteq># mset ys"
  by (induction rule: list_emb.induct) (auto intro: subset_mset.order_trans)

lemma count_terminates:
  "mset xs = mset ys \<Longrightarrow> length (filter P xs) = length (filter P ys)"
  by (metis mset_filter size_mset)

text \<open>When all threads have ended, nothing is left in the queue: their terminate messages were the last.\<close>

lemma joined_empty:
  assumes ok: "pool_ok s" and j: "joined s" and n: "0 < length (workers s)"
  shows "circ_contents (msg_q s) = [] \<and> mset (taken s) = mset (finished s)"
proof -
  have ex: "\<forall>v \<in> set (workers s). v = Exited" "closing s" "to_terminate s = 0" using j by (simp_all add: joined_def)
  have mt: "mset (taken s) = mset (finished s)" using ok busy_exited [OF ex(1)] by (simp add: pool_ok_def)
  have "length (filter is_terminate (finished s)) = length (workers s)"
    using ok ex(1) all_exited [of "workers s"] by (simp add: pool_ok_def)
  then have tk: "length (filter is_terminate (taken s)) = length (workers s)" using count_terminates [OF mt] by simp
  obtain ms where ms: "taken s @ circ_contents (msg_q s) = ms @ replicate (length (workers s)) terminate_async"
    "\<forall>m \<in> set ms. \<not> is_terminate m" using ok ex(2,3) by (auto simp: pool_ok_def terminated_last_def)
  have "length (filter is_terminate (taken s @ circ_contents (msg_q s))) = length (workers s)"
    unfolding ms(1) using ms(2) by simp
  with tk have nt: "filter is_terminate (circ_contents (msg_q s)) = []" by simp
  have "circ_contents (msg_q s) = []"
  proof (rule ccontr)
    assume ne: "circ_contents (msg_q s) \<noteq> []"
    then have "last (circ_contents (msg_q s)) = last (taken s @ circ_contents (msg_q s))" by simp
    also have "\<dots> = terminate_async" unfolding ms(1) using n by (simp add: last_replicate)
    finally have "is_terminate (last (circ_contents (msg_q s)))" by simp
    with nt ne show False by (metis filter_empty_conv last_in_set)
  qed
  with mt show ?thesis by simp
qed

text \<open>
  C4 [safety] When the destructor of a thread pool returns, the queue is empty and every message that was posted
  has been handled completely, except those that overran in a full queue (which overrun_counter counts):
  nothing is left behind, handled twice or abandoned half way, however the workers interleaved.
\<close>

theorem pool_shutdown_complete:
  assumes "pool_construct n k w = Inr s0" "n \<noteq> - 1" "n \<noteq> 0" "pool_reachable handle s0 s" "joined s"
  shows "circ_contents (msg_q s) = [] \<and> mset (finished s) \<subseteq># mset (posted s)
    \<and> length (posted s) = length (finished s) + circ_overruns (msg_q s)
    \<and> (circ_overruns (msg_q s) = 0 \<longrightarrow> taken s = posted s \<and> mset (finished s) = mset (posted s))"
proof -
  from pool_reachable_ok [OF assms(4,1-3)] have ok: "pool_ok s" "0 < length (workers s)" by simp_all
  from joined_empty [OF ok(1) assms(5) ok(2)] have e: "circ_contents (msg_q s) = []" "mset (taken s) = mset (finished s)" by simp_all
  have l: "subseq (taken s) (posted s)" "length (posted s) = length (taken s) + circ_overruns (msg_q s)"
    using ok(1) e(1) length_circ_contents [of "msg_q s"] by (simp_all add: pool_ok_def log_part_ok_def)
  have len: "length (taken s) = length (finished s)" using e(2) by (metis size_mset)
  have "mset (finished s) \<subseteq># mset (posted s)" using subseq_mset [OF l(1)] e(2) by simp
  moreover have "taken s = posted s" if "circ_overruns (msg_q s) = 0"
    using l that by (intro subseq_same_length) simp_all
  ultimately show ?thesis using e l(2) len by auto
qed

lemma sample_pool_run:
  assumes "handle (post_msg p) w = Some w1" "handle terminate_async w1 = Some w2"
  shows "\<exists>s0 s. pool_construct 2 1 w = Inr s0 \<and> pool_reachable handle s0 s \<and> joined s
    \<and> posted s = [post_msg p, terminate_async] \<and> circ_overruns (msg_q s) = 0 \<and> backend s = w2"
proof -
  define d where "d = make_async None Log_msg"
  let ?m = "post_msg p" and ?t = "terminate_async"
  define s0 where "s0 = \<lparr>msg_q = \<lparr>max_items = 3, head_pos = 0, tail_pos = 0, overrun_count = 0, slots = [d, d, d]\<rparr>,
    workers = [Idle], closing = False, to_terminate = 0, backend = w, posted = [], taken = [], finished = []\<rparr>"
  define s1 where "s1 = s0\<lparr>msg_q := \<lparr>max_items = 3, head_pos = 0, tail_pos = 1, overrun_count = 0, slots = [?m, d, d]\<rparr>, posted := [?m]\<rparr>"
  define s2 where "s2 = s1\<lparr>msg_q := \<lparr>max_items = 3, head_pos = 1, tail_pos = 1, overrun_count = 0, slots = [?m, d, d]\<rparr>,
    workers := [Busy ?m], taken := [?m]\<rparr>"
  define s3 where "s3 = s2\<lparr>closing := True, to_terminate := 1\<rparr>"
  define s4 where "s4 = s3\<lparr>backend := w1, workers := [Idle], finished := [?m]\<rparr>"
  define s5 where "s5 = s4\<lparr>to_terminate := 0, msg_q := \<lparr>max_items = 3, head_pos = 1, tail_pos = 2, overrun_count = 0,
    slots = [?m, ?t, d]\<rparr>, posted := [?m, ?t]\<rparr>"
  define s6 where "s6 = s5\<lparr>msg_q := \<lparr>max_items = 3, head_pos = 2, tail_pos = 2, overrun_count = 0, slots = [?m, ?t, d]\<rparr>,
    workers := [Busy ?t], taken := [?m, ?t]\<rparr>"
  define s7 where "s7 = s6\<lparr>backend := w2, workers := [Exited], finished := [?m, ?t]\<rparr>"
  note q = circ_push_back_def circ_pop_front_def circ_front_def circ_empty_def circ_full_def write_cell_def read_cell_def
    enqueue_msg_def take_msg_def finish_msg_def may_post_def Let_def
  have st: "msg_q s0 = \<lparr>max_items = 3, head_pos = 0, tail_pos = 0, overrun_count = 0, slots = [d, d, d]\<rparr>"
    by (simp add: s0_def)
  have c: "pool_construct 2 1 w = Inr s0"
  proof -
    have "unat (3 :: u64) = 3" by simp
    moreover have "replicate 3 (make_async None Log_msg) = [make_async None Log_msg, make_async None Log_msg,
      make_async None Log_msg]" by (simp add: numeral_eq_Suc)
    ultimately show ?thesis by (simp add: pool_construct_def circ_construct_def s0_def d_def Let_def)
  qed
  have t0: "pool_step handle s0 (Some s1)"
    using pool_step.post [of s0 p handle] by (cases p) (auto simp: s0_def s1_def q split: overflow_policy.splits)
  have t1: "pool_step handle s1 (Some s2)"
    using pool_step.take [of 0 s1 handle] by (simp add: s0_def s1_def s2_def q)
  have t2: "pool_step handle s2 (Some s3)"
    using pool_step.close [of s2 handle] by (simp add: s0_def s1_def s2_def s3_def)
  have t3: "pool_step handle s3 (Some s4)"
    using pool_step.finish [of 0 s3 ?m handle] assms(1) by (simp add: s0_def s1_def s2_def s3_def s4_def q)
  have t4: "pool_step handle s4 (Some s5)"
    using pool_step.terminate [of s4 handle] by (simp add: s0_def s1_def s2_def s3_def s4_def s5_def q numeral_2_eq_2)
  have t5: "pool_step handle s5 (Some s6)"
    using pool_step.take [of 0 s5 handle] by (simp add: s0_def s1_def s2_def s3_def s4_def s5_def s6_def q numeral_2_eq_2)
  have t6: "pool_step handle s6 (Some s7)"
    using pool_step.finish [of 0 s6 ?t handle] assms(2)
    by (simp add: s0_def s1_def s2_def s3_def s4_def s5_def s6_def s7_def q)
  note r = pool_reachable.step
  have "pool_reachable handle s0 s7"
    by (rule r [OF r [OF r [OF r [OF r [OF r [OF r [OF pool_reachable.start t0] t1] t2] t3] t4] t5] t6])
  moreover have "joined s7" "posted s7 = [?m, ?t]" "circ_overruns (msg_q s7) = 0" "backend s7 = w2"
    by (simp_all add: s0_def s1_def s2_def s3_def s4_def s5_def s6_def s7_def joined_def circ_overruns_def)
  ultimately show ?thesis using c by (intro exI [of _ s0] exI [of _ s7] conjI)
qed

theorem pool_shutdown_complete_witness:
  "\<exists>s0 s. pool_construct 2 1 (0 :: nat) = Inr s0 \<and> pool_reachable (\<lambda>m w. Some 5) s0 s \<and> joined s
    \<and> mset (finished s) = {#post_msg (Post_flush 7 Block), terminate_async#}"
proof -
  from sample_pool_run [of "\<lambda>m w. Some 5" "Post_flush 7 Block" "0 :: nat" 5 5] obtain s0 s where
    s: "pool_construct 2 1 (0 :: nat) = Inr s0" "pool_reachable (\<lambda>m w. Some 5) s0 s" "joined s"
      "posted s = [post_msg (Post_flush 7 Block), terminate_async]" "circ_overruns (msg_q s) = 0" by auto
  have "(2 :: u64) \<noteq> - 1" "(2 :: u64) \<noteq> 0" by simp_all
  from pool_shutdown_complete [OF s(1) this s(2,3)] s show ?thesis by auto
qed

definition shutdown_measure :: "'s pool \<Rightarrow> nat" where
  "shutdown_measure s = 3 * to_terminate s + 2 * circ_size (msg_q s) + length (busy_msgs (workers s))"

lemma busy_length_update:
  assumes "i < length ws"
  shows "length (busy_msgs (ws[i := v])) + length (worker_msgs (ws ! i)) = length (busy_msgs ws) + length (worker_msgs v)"
  using arg_cong [OF busy_msgs_update [OF assms, of v], of size] by simp

lemma pool_progress:
  assumes ok: "pool_ok s" and cl: "closing s" "\<not> joined s" and h: "\<And>m. m \<in> set (busy_msgs (workers s)) \<Longrightarrow> handle m (backend s) \<noteq> None"
  shows "\<exists>s'. pool_step handle s (Some s')"
proof (cases "\<exists>i m. i < length (workers s) \<and> workers s ! i = Busy m")
  case True
  then obtain i m where i: "i < length (workers s)" "workers s ! i = Busy m" by blast
  from h [OF busy_at [OF i]] obtain w where "handle m (backend s) = Some w" by blast
  from finish_msg_ok [of s i m handle, OF ok i this] pool_step.finish [OF i, of handle] show ?thesis by auto
next
  case False
  have nb: "busy_msgs (workers s) = []"
    using False by (auto simp: busy_msgs_def worker_msgs_def in_set_conv_nth split: worker.splits)
  then have mt: "mset (taken s) = mset (finished s)" using ok by (simp add: pool_ok_def)
  obtain ms where ms: "taken s @ circ_contents (msg_q s) = ms @ replicate (length (workers s) - to_terminate s) terminate_async"
    "\<forall>m \<in> set ms. \<not> is_terminate m" using ok cl(1) by (auto simp: pool_ok_def terminated_last_def)
  have le: "to_terminate s \<le> length (workers s)" using ok cl(1) by (simp add: pool_ok_def)
  have "length (filter is_terminate (taken s @ circ_contents (msg_q s))) = length (workers s) - to_terminate s"
    unfolding ms(1) using ms(2) by simp
  moreover have "exited (workers s) = length (filter is_terminate (taken s))"
    using ok count_terminates [OF mt] by (simp add: pool_ok_def)
  ultimately have sum: "exited (workers s) + length (filter is_terminate (circ_contents (msg_q s))) = length (workers s) - to_terminate s"
    by simp
  have "exited (workers s) \<noteq> length (workers s)"
  proof
    assume all: "exited (workers s) = length (workers s)"
    with sum le have "to_terminate s = 0" by linarith
    with all all_exited [of "workers s"] cl show False by (simp add: joined_def)
  qed
  then obtain v where "v \<in> set (workers s)" "v \<noteq> Exited" using all_exited by blast
  with False obtain i where i: "i < length (workers s)" "workers s ! i = Idle"
    by (cases v) (auto simp: in_set_conv_nth)
  show ?thesis
  proof (cases "circ_empty (msg_q s)")
    case False
    from take_msg_ok [OF ok i this] pool_step.take [OF i False, of handle] show ?thesis by auto
  next
    case True
    have c: "circ_ok (msg_q s)" "0 < circ_capacity (msg_q s)" using ok by (simp_all add: pool_ok_def)
    have "circ_contents (msg_q s) = []" "circ_size (msg_q s) = 0"
      using True circ_empty_spec [OF c(1)] empty_iff [OF c(1)] by simp_all
    then have "0 < to_terminate s" "may_post Block s"
      using sum le \<open>exited (workers s) \<noteq> length (workers s)\<close> full_iff [OF c] c(2)
      by (auto simp: may_post_def free_slots_def)
    from terminate_ok [OF ok cl(1) this] pool_step.terminate [OF cl(1) this, of handle] show ?thesis by auto
  qed
qed

lemma pool_decreases:
  assumes ok: "pool_ok s" and cl: "closing s" and st: "pool_step handle s (Some s')"
  shows "closing s' \<and> shutdown_measure s' < shutdown_measure s"
  using st
proof (cases rule: pool_step.cases)
  case (take i)
  from take_msg_ok [OF ok take(2-4)] obtain m where
    m: "to_terminate s' = to_terminate s" "closing s' = closing s" "workers s' = (workers s)[i := Busy m]"
      "circ_size (msg_q s) = circ_size (msg_q s') + 1" using take(1) by auto
  with busy_length_update [OF take(2), of "Busy m"] take(3) cl show ?thesis
    by (simp add: shutdown_measure_def worker_msgs_def)
next
  case (finish i m)
  then obtain w where w: "handle m (backend s) = Some w"
    by (cases "handle m (backend s)") (simp_all add: finish_msg_def)
  from finish_msg_ok [of s i m handle, OF ok finish(2,3) w] finish(1) have
    f: "to_terminate s' = to_terminate s" "closing s' = closing s" "msg_q s' = msg_q s"
      "workers s' = (workers s)[i := if is_terminate m then Exited else Idle]" by auto
  with busy_length_update [OF finish(2), of "if is_terminate m then Exited else Idle"] finish(3) cl show ?thesis
    by (auto simp: shutdown_measure_def worker_msgs_def)
next
  case terminate
  from terminate_ok [OF ok terminate(2-4)] terminate(1,3) have "to_terminate s' = to_terminate s - 1" "closing s'"
    "workers s' = workers s" "circ_size (msg_q s') = circ_size (msg_q s) + 1" by auto
  with terminate(3) show ?thesis by (simp add: shutdown_measure_def)
qed (use cl in simp_all)

text \<open>What a worker is at has been posted, and \<open>handle\<close> keeps \<open>I\<close> where it does so for the messages that were.\<close>

lemma busy_posted:
  assumes "pool_ok s"
  shows "set (busy_msgs (workers s)) \<subseteq> set (posted s)"
proof -
  have "mset (taken s) = mset (finished s) + mset (busy_msgs (workers s))" "subseq (taken s @ circ_contents (msg_q s)) (posted s)"
    using assms by (simp_all add: pool_ok_def log_part_ok_def)
  then have "set (busy_msgs (workers s)) \<subseteq> set (taken s)" "mset (taken s @ circ_contents (msg_q s)) \<subseteq># mset (posted s)"
    by (metis UnCI set_mset_mset set_mset_union subsetI, intro subseq_mset)
  then show ?thesis using set_mset_mono [of "mset (taken s @ circ_contents (msg_q s))" "mset (posted s)"] by auto
qed

lemma backend_invariant:
  assumes "pool_reachable handle s0 s" "pool_construct n k w = Inr s0" "n \<noteq> - 1" "n \<noteq> 0"
    and "I w" "\<And>m v v1. fit m \<Longrightarrow> I v \<Longrightarrow> handle m v = Some v1 \<Longrightarrow> I v1"
  shows "list_all fit (posted s) \<Longrightarrow> I (backend s)"
  using assms(1)
proof (induction rule: pool_reachable.induct)
  case start
  then show ?case using assms(2,5) by (auto simp: pool_construct_def split: if_splits)
next
  case (step s s')
  have ok: "pool_ok s" using pool_reachable_ok [OF step.hyps(1) assms(2-4)] by simp
  from step.hyps(2) show ?case
  proof (cases rule: pool_step.cases)
    case (post p)
    from enqueue_msgD [OF post(1)] show ?thesis using step by auto
  next
    case (take i)
    from take_msgD [OF take(1)] show ?thesis using step by auto
  next
    case (finish i m)
    then obtain v where v: "handle m (backend s) = Some v" "backend s' = v" "posted s' = posted s"
      by (cases "handle m (backend s)") (simp_all add: finish_msg_def)
    then have "fit m" "I (backend s)"
      using step busy_posted [OF ok] busy_at [OF finish(2,3)] by (auto simp: list_all_iff)
    then show ?thesis using assms(6) v by blast
  next
    case close
    then show ?thesis using step by simp
  next
    case terminate
    from enqueue_msgD [OF terminate(1)] show ?thesis using step by auto
  qed
qed

text \<open>
  C36 [termination] The destructor of a thread pool with a queue for at least one item comes to an end, if handling a
  message does: once it has begun, some thread can take a step until all workers have been joined, no step is undefined,
  and every step brings it nearer to the end (a measure of the terminate messages to post, the queue and the busy workers
  decreases).  Handling a message is total where handle has a result for the messages that were posted (fit), in the states
  it can be in (I); handle_msg, the code's, has one for a logger and sinks that exist.
\<close>

theorem pool_shutdown_terminates:
  assumes "pool_construct n k w = Inr s0" "n \<noteq> - 1" "n \<noteq> 0" "pool_reachable handle s0 s" "closing s"
    and "list_all fit (posted s)" "I w" "\<And>m v. fit m \<Longrightarrow> I v \<Longrightarrow> \<exists>v1. handle m v = Some v1 \<and> I v1"
  shows "(joined s \<or> (\<exists>s'. pool_step handle s (Some s'))) \<and> \<not> pool_step handle s None
    \<and> (\<forall>s'. pool_step handle s (Some s') \<longrightarrow> closing s' \<and> shutdown_measure s' < shutdown_measure s)"
proof -
  have ok: "pool_ok s" using pool_reachable_ok [OF assms(4,1-3)] by simp
  have "I v1" if "fit m" "I v" "handle m v = Some v1" for m v v1 using assms(8) [OF that(1,2)] that(3) by auto
  from backend_invariant [where I = I and fit = fit, OF assms(4,1-3,7) this assms(6)] have "I (backend s)" .
  then have h: "handle m (backend s) \<noteq> None" if "m \<in> set (busy_msgs (workers s))" for m
    using assms(6,8) busy_posted [OF ok] that by (force simp: list_all_iff)
  from pool_progress [where handle = handle, OF ok assms(5)] h have "joined s \<or> (\<exists>s'. pool_step handle s (Some s'))"
    by blast
  moreover have "\<not> pool_step handle s None" using pool_step_defined [of handle s, OF _ ok] h by blast
  ultimately show ?thesis using pool_decreases [OF ok assms(5)] by blast
qed

text \<open>The handler of the code with one logger and one sink: a message has been posted, and the destructor runs.\<close>

lemma good_handler:
  "handle_msg good_sinks (Suc 0) [7 \<mapsto> warn_logger] (post_msg (Post_log 7 (buffer_msg (text_msg x)) policy)) (one_sink out)
    = Some (one_sink (out @ x @ ''|''))"
  "handle_msg good_sinks (Suc 0) [7 \<mapsto> warn_logger] terminate_async v = Some v"
proof -
  have "backend_sink_it env depth lg m v = map_option snd (plain_sink_it env depth lg m v)" for env :: "unit sink_env" and depth lg m v
    by (cases "call_sinks env depth lg (lg_sinks lg) m v")
      (auto simp: backend_sink_it_def plain_sink_it_def backend_flush_def plain_flush_def option.map_comp comp_def)
  then show "handle_msg good_sinks (Suc 0) [7 \<mapsto> warn_logger] (post_msg (Post_log 7 (buffer_msg (text_msg x)) policy)) (one_sink out)
      = Some (one_sink (out @ x @ ''|''))"
    using one_sink_it [of x out] by (simp add: handle_msg_def)
qed (simp add: handle_msg_def terminate_async_def make_async_def)

theorem pool_shutdown_terminates_witness:
  "let h = handle_msg good_sinks (Suc 0) [7 \<mapsto> warn_logger]; m = post_msg (Post_log 7 (buffer_msg (text_msg ''x'')) Block) in
   \<exists>s0 s. pool_construct 2 1 (one_sink []) = Inr s0 \<and> pool_reachable h s0 s \<and> closing s \<and> \<not> joined s \<and> posted s = [m]
    \<and> (\<exists>s'. pool_step h s (Some s') \<and> shutdown_measure s' < shutdown_measure s)"
proof -
  let ?h = "handle_msg good_sinks (Suc 0) [7 \<mapsto> warn_logger]"
  let ?p = "Post_log 7 (buffer_msg (text_msg ''x'')) Block"
  obtain s0 where s0: "pool_construct 2 1 (one_sink []) = Inr s0" "workers s0 = [Idle]" "\<not> closing s0" "posted s0 = []"
    by (simp add: pool_construct_def)
  have n: "(2 :: u64) \<noteq> - 1" "(2 :: u64) \<noteq> 0" by simp_all
  have ok0: "pool_ok s0" "circ_capacity (msg_q s0) = unat (2 :: u64)" using pool_ok_construct [OF s0(1) n] by simp_all
  have "msg_q s0 = circ_construct (make_async None Log_msg) 2" using s0(1) by (auto simp: pool_construct_def)
  then have "circ_size (msg_q s0) = 0" by (simp only: length_circ_contents [symmetric] circ_contents_construct list.size)
  then have may: "may_post (post_policy ?p) s0"
    using full_iff [of "msg_q s0"] ok0 by (simp add: may_post_def pool_ok_def free_slots_def)
  from enqueue_ok [of s0 "post_msg ?p"] ok0 obtain q where
    q: "enqueue_msg (post_msg ?p) s0 = Some (s0\<lparr>msg_q := q, posted := [post_msg ?p]\<rparr>)" unfolding pool_ok_def s0(4) by auto
  define s1 where "s1 = s0\<lparr>msg_q := q, posted := [post_msg ?p]\<rparr>"
  define s where "s = s1\<lparr>closing := True, to_terminate := 1\<rparr>"
  have "pool_step ?h s0 (Some s1)" using pool_step.post [of s0 ?p ?h, OF s0(3) may] unfolding q s1_def .
  moreover have "pool_step ?h s1 (Some s)" using pool_step.close [of s1 ?h] s0(2,3) by (simp add: s1_def s_def)
  ultimately have r: "pool_reachable ?h s0 s" by (blast intro: pool_reachable.intros)
  have c: "closing s" "\<not> joined s" "posted s = [post_msg ?p]" by (simp_all add: s_def s1_def joined_def)
  define fit where "fit m \<longleftrightarrow> m = post_msg ?p \<or> m = terminate_async" for m
  define I where "I v \<longleftrightarrow> (\<exists>out. v = one_sink out)" for v
  have "list_all fit (posted s)" "I (one_sink [])" by (auto simp: c(3) fit_def I_def)
  moreover have "\<exists>v1. ?h m v = Some v1 \<and> I v1" if "fit m" "I v" for m v
    using that good_handler unfolding fit_def I_def by blast
  ultimately have "\<exists>s'. pool_step ?h s (Some s') \<and> shutdown_measure s' < shutdown_measure s"
    using pool_shutdown_terminates [OF s0(1) n r c(1)] c(2) by blast
  with c s0(1) r show ?thesis unfolding Let_def by blast
qed

text \<open>
  A pool with a queue for no items: the queue is full and empty at once.
\<close>

definition dead_pool :: "nat \<Rightarrow> 's pool \<Rightarrow> bool" where
  "dead_pool k s \<longleftrightarrow> circ_ok (msg_q s) \<and> max_items (msg_q s) = 1 \<and> workers s = replicate k Idle
     \<and> to_terminate s = (if closing s then k else 0)"

lemma dead_pool_queue:
  assumes "dead_pool k s"
  shows "circ_empty (msg_q s)" "circ_full (msg_q s)"
proof -
  have "max_items (msg_q s) = 1" "circ_ok (msg_q s)" using assms by (simp_all add: dead_pool_def)
  then have "max_items (msg_q s) = 1" "head_pos (msg_q s) = 0" "tail_pos (msg_q s) = 0" by (simp_all add: circ_ok_def)
  then show "circ_empty (msg_q s)" "circ_full (msg_q s)" by (simp_all add: circ_empty_def circ_full_def)
qed

lemma dead_pool_step:
  assumes "pool_step handle s (Some s')" "dead_pool k s"
  shows "dead_pool k s'"
  using assms(1)
proof (cases rule: pool_step.cases)
  case (post p)
  have ok: "circ_ok (msg_q s)" using assms(2) by (simp add: dead_pool_def)
  from circ_push_spec [OF ok, of "post_msg p"] obtain q where q: "circ_push_back (post_msg p) (msg_q s) = Some q" "circ_ok q"
    by blast
  have "max_items q = max_items (msg_q s)"
    using q(1) assms(2) by (auto simp: circ_push_back_def dead_pool_def Let_def split: if_splits)
  with post(1) q assms(2) show ?thesis by (simp add: enqueue_msg_def dead_pool_def)
next
  case (take i)
  with dead_pool_queue(1) [OF assms(2)] show ?thesis by simp
next
  case (finish i m)
  with assms(2) show ?thesis by (simp add: dead_pool_def)
next
  case close
  with assms(2) show ?thesis by (simp add: dead_pool_def)
next
  case terminate
  with dead_pool_queue(2) [OF assms(2)] show ?thesis by (simp add: may_post_def)
qed

text \<open>
  A thread pool whose queue has size 0 is accepted by the constructor, but its destructor never returns:
  once it runs no step is possible, because the first terminate message waits for room for ever; nor
  can any blocking post proceed before.
\<close>

theorem pool_size_zero_hangs:
  assumes "pool_construct 0 k w = Inr s0" "pool_reachable handle s0 s"
  shows "\<not> joined s \<and> \<not> may_post Block s \<and> (closing s \<longrightarrow> \<not> pool_step handle s r)"
proof -
  have k: "0 < unat k" using assms(1) by (simp add: pool_construct_def unat_gt_0 split: if_splits)
  have "dead_pool (unat k) s" using assms(2)
  proof (induction rule: pool_reachable.induct)
    case start
    show ?case using assms(1)
      by (auto simp: pool_construct_def dead_pool_def circ_ok_def circ_construct_def Let_def split: if_splits)
  qed (rule dead_pool_step)
  then have d: "circ_full (msg_q s)" "circ_empty (msg_q s)" "workers s = replicate (unat k) Idle"
    by (simp_all add: dead_pool_queue) (simp add: dead_pool_def)
  have "\<not> joined s" using d(3) k by (auto simp: joined_def)
  moreover have "\<not> pool_step handle s r" if "closing s"
  proof
    assume "pool_step handle s r"
    then show False using that d by (cases rule: pool_step.cases) (auto simp: may_post_def)
  qed
  ultimately show ?thesis using d(1) by (simp add: may_post_def)
qed

theorem pool_size_zero_hangs_witness:
  "\<exists>s0 s. pool_construct 0 1 (0 :: nat) = Inr s0 \<and> pool_reachable (\<lambda>m w. Some w) s0 s \<and> closing s
    \<and> pool_step (\<lambda>m w. Some w) s = (\<lambda>r. False)"
proof -
  let ?h = "\<lambda>(m :: async_msg) (w :: nat). Some w"
  obtain s0 where s0: "pool_construct 0 1 (0 :: nat) = Inr s0" "\<not> closing s0" by (simp add: pool_construct_def)
  define s where "s = s0\<lparr>closing := True, to_terminate := length (workers s0)\<rparr>"
  have "pool_step ?h s0 (Some s)" using pool_step.close [of s0 ?h] s0(2) by (simp add: s_def)
  then have r: "pool_reachable ?h s0 s" by (blast intro: pool_reachable.intros)
  have "closing s" by (simp add: s_def)
  then have "pool_step ?h s = (\<lambda>r. False)" using pool_size_zero_hangs [OF s0(1) r] by blast
  with s0(1) r \<open>closing s\<close> show ?thesis by blast
qed

section \<open>One worker\<close>

fun run_msgs :: "(async_msg \<Rightarrow> 's \<Rightarrow> 's option) \<Rightarrow> async_msg list \<Rightarrow> 's \<Rightarrow> 's option" where
  "run_msgs handle [] w = Some w"
| "run_msgs handle (m # ms) w = Option.bind (handle m w) (run_msgs handle ms)"

lemma run_msgs_append: "run_msgs handle (ms @ ns) w = Option.bind (run_msgs handle ms w) (run_msgs handle ns)"
proof (induction ms arbitrary: w)
  case (Cons m ms)
  then show ?case by (cases "handle m w") simp_all
qed simp

definition in_turn :: "(async_msg \<Rightarrow> 's \<Rightarrow> 's option) \<Rightarrow> 's \<Rightarrow> 's pool \<Rightarrow> bool" where
  "in_turn handle w s \<longleftrightarrow> length (workers s) = 1 \<and> run_msgs handle (finished s) w = Some (backend s)
     \<and> taken s = finished s @ worker_msgs (workers s ! 0)"

lemma in_turn_step:
  assumes st: "pool_step handle s (Some s')" and t: "in_turn handle w s"
  shows "in_turn handle w s'"
  using st
proof (cases rule: pool_step.cases)
  case (take i)
  then have "worker_msgs (workers s ! 0) = []" "i = 0" using t by (simp_all add: in_turn_def worker_msgs_def)
  moreover from take_msgD [OF take(1)] obtain m q where
    "s' = s\<lparr>msg_q := q, workers := (workers s)[i := Busy m], taken := taken s @ [m]\<rparr>" by blast
  ultimately show ?thesis using take(2) t by (simp add: in_turn_def worker_msgs_def)
next
  case (finish i m)
  then obtain v where v: "handle m (backend s) = Some v"
    "s' = s\<lparr>backend := v, workers := (workers s)[i := if is_terminate m then Exited else Idle], finished := finished s @ [m]\<rparr>"
    by (cases "handle m (backend s)") (simp_all add: finish_msg_def)
  have "worker_msgs (workers s ! 0) = [m]" "i = 0" using finish(2,3) t by (simp_all add: in_turn_def worker_msgs_def)
  with v t finish(2) show ?thesis by (auto simp: in_turn_def run_msgs_append worker_msgs_def)
qed (use t in \<open>auto simp: in_turn_def dest!: enqueue_msgD\<close>)

text \<open>The posts of a run, as the calls of the loggers, and the terminate messages at the end.\<close>

lemma posted_msgs:
  assumes "pool_reachable handle s0 s" "pool_construct n k w = Inr s0"
  shows "\<exists>ps j. posted s = map post_msg ps @ replicate j terminate_async \<and> (\<not> closing s \<longrightarrow> j = 0)
    \<and> (closing s \<longrightarrow> j + to_terminate s = length (workers s))"
  using assms(1)
proof (induction rule: pool_reachable.induct)
  case start
  have "posted s0 = []" "\<not> closing s0" using assms(2) by (auto simp: pool_construct_def split: if_splits)
  then show ?case by (intro exI [of _ "[]"] exI [of _ 0]) simp
next
  case (step s s')
  then obtain ps j where IH: "posted s = map post_msg ps @ replicate j terminate_async" "\<not> closing s \<longrightarrow> j = 0"
    "closing s \<longrightarrow> j + to_terminate s = length (workers s)" by blast
  from step.hyps(2) show ?case
  proof (cases rule: pool_step.cases)
    case (post p)
    from enqueue_msgD [OF post(1)] obtain q where "s' = s\<lparr>msg_q := q, posted := posted s @ [post_msg p]\<rparr>" by blast
    with IH post(2) have "posted s' = map post_msg (ps @ [p]) @ replicate 0 terminate_async" "\<not> closing s'" by simp_all
    then show ?thesis by blast
  next
    case (take i)
    then have "posted s' = posted s" "closing s' = closing s" "to_terminate s' = to_terminate s" "length (workers s') = length (workers s)"
      using take_msgD [of s' i s] by auto
    with IH show ?thesis by auto
  next
    case (finish i m)
    then have "posted s' = posted s" "closing s' = closing s" "to_terminate s' = to_terminate s" "length (workers s') = length (workers s)"
      by (cases "handle m (backend s)"; simp add: finish_msg_def)+
    with IH show ?thesis by auto
  next
    case close
    with IH show ?thesis by (intro exI [of _ ps] exI [of _ 0]) simp
  next
    case terminate
    from enqueue_msgD [OF terminate(1)] terminate(2) have "posted s' = posted s @ [terminate_async]" "closing s'"
      "to_terminate s' = to_terminate s - 1" "workers s' = workers s" by auto
    with IH terminate(2,3) show ?thesis
      by (intro exI [of _ ps] exI [of _ "Suc j"]) (simp add: replicate_append_same)
  qed
qed

text \<open>
  What a message meets when it is handled: the environment with its clock, and the loggers with the settings that they have
  then.  The backend counts the messages, so that each has a moment of its own.
\<close>

type_synonym 'c moment = "'c sink_env \<times> (nat \<Rightarrow> logger option)"

definition handle_at :: "(nat \<Rightarrow> 'c moment) \<Rightarrow> nat \<Rightarrow> async_msg \<Rightarrow> nat \<times> 'c log_world \<Rightarrow> (nat \<times> 'c log_world) option" where
  "handle_at moments depth m =
     (\<lambda>(i, w). case moments i of (env, lgs) \<Rightarrow> map_option (Pair (Suc i)) (handle_msg env depth lgs m w))"

text \<open>The same calls made on synchronous loggers: those with the same settings and no thread pool.\<close>

fun sync_post :: "'c moment \<Rightarrow> nat \<Rightarrow> async_post \<Rightarrow> 'c log_world \<Rightarrow> 'c log_world option" where
  "sync_post (env, lgs) depth (Post_log this b policy) w =
     Option.bind (lgs this) (\<lambda>lg.
       map_option (\<lambda>(r, m, w1). w1) (lg_sink_it env depth this (lg\<lparr>lg_pool := None\<rparr>) (buffered_msg b) w))"
| "sync_post (env, lgs) depth (Post_flush this policy) w =
     Option.bind (lgs this) (\<lambda>lg. map_option snd (lg_flush depth this (lg\<lparr>lg_pool := None\<rparr>) w))"

fun sync_posts :: "(nat \<Rightarrow> 'c moment) \<Rightarrow> nat \<Rightarrow> async_post list \<Rightarrow> nat \<Rightarrow> 'c log_world \<Rightarrow> 'c log_world option" where
  "sync_posts moments depth [] i w = Some w"
| "sync_posts moments depth (p # ps) i w =
     Option.bind (sync_post (moments i) depth p w) (sync_posts moments depth ps (Suc i))"

lemma call_sinks_pool: "call_sinks env depth (lg\<lparr>lg_pool := tp\<rparr>) as msg w = call_sinks env depth lg as msg w"
  by (induction as arbitrary: msg w)
    (simp_all add: err_handler_def case_prod_unfold Let_def cong: option.case_cong sum.case_cong if_cong)

lemma backend_flush_sync: "map_option snd (lg_flush depth this (lg\<lparr>lg_pool := None\<rparr>) w) = backend_flush depth lg w"
  by (simp add: lg_flush_def plain_flush_def backend_flush_def option.map_comp comp_def)

lemma backend_sink_it_sync:
  "map_option (\<lambda>(r, m, w1). w1) (lg_sink_it env depth this (lg\<lparr>lg_pool := None\<rparr>) msg w) = backend_sink_it env depth lg msg w"
proof (cases "call_sinks env depth lg (lg_sinks lg) msg w")
  case (Some x)
  then show ?thesis
    by (cases x) (simp add: lg_sink_it_def plain_sink_it_def backend_sink_it_def call_sinks_pool plain_flush_def backend_flush_def
        should_flush_def option.map_comp comp_def)
qed (simp add: lg_sink_it_def plain_sink_it_def backend_sink_it_def call_sinks_pool)

lemma handle_at_post: "handle_at moments depth (post_msg p) (i, w) = map_option (Pair (Suc i)) (sync_post (moments i) depth p w)"
  by (cases p; cases "moments i")
    (simp_all add: handle_at_def handle_msg_def make_async_def backend_sink_it_sync backend_flush_sync)

lemma sync_posts_msgs:
  "run_msgs (handle_at moments depth) (map post_msg ps) (i, w)
    = map_option (Pair (i + length ps)) (sync_posts moments depth ps i w)"
proof (induction ps arbitrary: i w)
  case (Cons p ps)
  show ?case by (cases "sync_post (moments i) depth p w") (simp_all add: handle_at_post Cons.IH)
qed simp

text \<open>
  C10 [equivalence] Asynchronous logging through a pool of one thread (the default of the factories) does what
  synchronous logging does, for any course of the clock and any changes of the settings of the loggers between messages: if no
  message overran, then when the pool has shut down, the sinks, files and error reports are those of making the same
  calls, in the order they were posted, on synchronous loggers, each call with the clock, the environment and the
  settings (sinks, levels, error handler) that its message met.  The clock and the settings do not change while one
  message is handled, and nothing else uses the sinks.
\<close>

theorem one_worker_is_synchronous:
  assumes "pool_construct n 1 (0, w) = Inr s0" "n \<noteq> - 1" "n \<noteq> 0" "pool_reachable (handle_at moments depth) s0 s" "joined s"
    and "circ_overruns (msg_q s) = 0"
  shows "\<exists>ps. posted s = map post_msg ps @ [terminate_async] \<and> sync_posts moments depth ps 0 w = Some (snd (backend s))"
proof -
  let ?h = "handle_at moments depth"
  from pool_reachable_ok [OF assms(4,1-3)] have ok: "pool_ok s" "length (workers s) = 1" by simp_all
  from joined_empty [OF ok(1) assms(5)] ok(2) have e: "circ_contents (msg_q s) = []" by simp
  have w0: "workers s0 = [Idle]" "finished s0 = []" "backend s0 = (0, w)" "taken s0 = []"
    using assms(1) by (auto simp: pool_construct_def)
  have "in_turn ?h (0, w) s" using assms(4)
  proof (induction rule: pool_reachable.induct)
    case start
    show ?case by (simp add: in_turn_def w0 worker_msgs_def)
  qed (rule in_turn_step)
  moreover have "workers s ! 0 = Exited" using assms(5) ok(2) by (auto simp: joined_def)
  ultimately have f: "taken s = finished s" "run_msgs ?h (finished s) (0, w) = Some (backend s)"
    by (simp_all add: in_turn_def worker_msgs_def)
  have "subseq (taken s) (posted s)" "length (posted s) = length (taken s)"
    using ok(1) e assms(6) length_circ_contents [of "msg_q s"] by (simp_all add: pool_ok_def log_part_ok_def)
  then have p: "taken s = posted s" by (intro subseq_same_length) simp_all
  from posted_msgs [OF assms(4,1)] assms(5) ok(2) obtain ps where
    ps: "posted s = map post_msg ps @ [terminate_async]" by (auto simp: joined_def)
  from f(2) have "Option.bind (map_option (Pair (length ps)) (sync_posts moments depth ps 0 w)) (run_msgs ?h [terminate_async])
      = Some (backend s)"
    unfolding f(1) [symmetric] p ps run_msgs_append sync_posts_msgs by simp
  then have "sync_posts moments depth ps 0 w = Some (snd (backend s))"
    by (auto simp: handle_at_def handle_msg_def terminate_async_def make_async_def bind_eq_Some_conv dest: sym split: prod.splits)
  with ps show ?thesis by blast
qed

theorem one_worker_is_synchronous_witness:
  "let moments = (\<lambda>i. (good_sinks, [7 \<mapsto> warn_logger])) in
   \<exists>s0 s. pool_construct 2 1 (0, one_sink []) = Inr s0
    \<and> pool_reachable (handle_at moments (Suc 0)) s0 s \<and> joined s \<and> backend s = (2, one_sink ''x|'')
    \<and> (\<exists>ps. posted s = map post_msg ps @ [terminate_async]
        \<and> sync_posts moments (Suc 0) ps 0 (one_sink []) = Some (one_sink ''x|''))"
proof -
  let ?m = "\<lambda>i :: nat. (good_sinks, [7 \<mapsto> warn_logger])"
  let ?h = "handle_at ?m (Suc 0)" and ?p = "Post_log 7 (buffer_msg (text_msg ''x'')) Block"
  have h: "?h (post_msg ?p) (0, one_sink []) = Some (1, one_sink ''x|'')" "?h terminate_async (1, v) = Some (2, v)" for v
    using good_handler(1) [of "''x''" Block "[]"] good_handler(2) by (simp_all add: handle_at_def)
  from sample_pool_run [of ?h ?p, OF h] obtain s0 s where
    s: "pool_construct 2 1 (0, one_sink []) = Inr s0" "pool_reachable ?h s0 s" "joined s" "circ_overruns (msg_q s) = 0"
      "backend s = (2, one_sink ''x|'')" by blast
  have "(2 :: u64) \<noteq> - 1" "(2 :: u64) \<noteq> 0" by simp_all
  from one_worker_is_synchronous [OF s(1) this s(2-4)] s show ?thesis unfolding Let_def by auto
qed

end
