(* ===== verification/Fmt_Fp.thy ===== *)
theory Fmt_Fp imports Prelude begin

text \<open>
  The class \<open>fp\<close> of the conversion of floating-point numbers (spdlog/fmt/bundled/format-inl.h): a 64-bit
  significand times a power of two, the decomposition of a \<open>double\<close> with its rounding boundaries, rounded
  products and the table of powers of ten.

  A \<open>double\<close> is its bit pattern, a \<open>u64\<close>; a \<open>float\<close> has been promoted to the \<open>double\<close> of the same value.
\<close>

section \<open>Decomposition\<close>

record fp =
  fp_f :: u64
  fp_e :: int

definition make_fp :: "u64 \<Rightarrow> int \<Rightarrow> fp" where
  "make_fp f e = \<lparr>fp_f = f, fp_e = e\<rparr>"

definition implicit_bit :: u64 where
  "implicit_bit = push_bit 52 1"

definition biased_exponent :: "u64 \<Rightarrow> int" where
  "biased_exponent d = uint (drop_bit 52 (d AND ((drop_bit 1 (NOT 0)) AND NOT (implicit_bit - 1))))"

text \<open>\<open>fp::assign\<close>: the number, and whether its predecessor is closer than its successor.\<close>

definition fp_assign :: "u64 \<Rightarrow> fp \<times> bool" where
  "fp_assign d =
     (let f = d AND (implicit_bit - 1);
          biased_e = biased_exponent d;
          is_predecessor_closer = (f = 0 \<and> biased_e > 1);
          (f1, biased_e1) = (if biased_e \<noteq> 0 then (f + implicit_bit, biased_e) else (f, 1)) in
      (make_fp f1 (biased_e1 - 1023 - 52), is_predecessor_closer))"

text \<open>\<open>normalize<SHIFT>\<close>; a zero is never normalized.\<close>

partial_function (option) normalize_loop :: "nat \<Rightarrow> fp \<Rightarrow> fp option" where
  "normalize_loop shift v =
     (if fp_f v AND push_bit shift implicit_bit = 0
      then normalize_loop shift (make_fp (push_bit 1 (fp_f v)) (fp_e v - 1)) else Some v)"

definition fp_normalize :: "nat \<Rightarrow> fp \<Rightarrow> fp option" where
  "fp_normalize shift v =
     map_option (\<lambda>w. make_fp (push_bit (11 - shift) (fp_f w)) (fp_e w - int (11 - shift))) (normalize_loop shift v)"

text \<open>A shift by a negative amount, or by the width of the type, is undefined.\<close>

definition shift_left64 :: "u64 \<Rightarrow> int \<Rightarrow> u64 option" where
  "shift_left64 x k = (if 0 \<le> k \<and> k < 64 then Some (push_bit (nat k) x) else None)"

record boundaries =
  lower_bound :: u64
  upper_bound :: u64

definition align_boundaries :: "fp \<Rightarrow> fp \<Rightarrow> boundaries option" where
  "align_boundaries lower upper =
     map_option (\<lambda>l. \<lparr>lower_bound = l, upper_bound = fp_f upper\<rparr>) (shift_left64 (fp_f lower) (fp_e lower - fp_e upper))"

definition assign_with_boundaries :: "u64 \<Rightarrow> (fp \<times> boundaries) option" where
  "assign_with_boundaries d =
     (let (v, is_lower_closer) = fp_assign d;
          lower = (if is_lower_closer then make_fp (push_bit 2 (fp_f v) - 1) (fp_e v - 2)
                   else make_fp (push_bit 1 (fp_f v) - 1) (fp_e v - 1)) in
      Option.bind (fp_normalize 1 (make_fp (push_bit 1 (fp_f v) + 1) (fp_e v - 1))) (\<lambda>upper.
        map_option (Pair v) (align_boundaries lower upper)))"

definition min_normal_e :: int where
  "min_normal_e = - 125 - 53"

definition assign_float_with_boundaries :: "u64 \<Rightarrow> (fp \<times> boundaries) option" where
  "assign_float_with_boundaries d =
     (let v = fst (fp_assign d) in
      Option.bind (if min_normal_e > fp_e v then shift_left64 (push_bit 28 1) (min_normal_e - fp_e v) else Some (push_bit 28 1))
        (\<lambda>half_ulp.
          Option.bind (fp_normalize 0 (make_fp (fp_f v + half_ulp) (fp_e v))) (\<lambda>upper.
            let lower = make_fp (fp_f v - drop_bit (if fp_f v = implicit_bit \<and> fp_e v > min_normal_e then 1 else 0) half_ulp)
                  (fp_e v) in
            map_option (Pair v) (align_boundaries lower upper))))"

section \<open>Products\<close>

text \<open>\<open>multiply\<close> where the compiler has 128-bit integers, and where it has not.\<close>

definition multiply128 :: "u64 \<Rightarrow> u64 \<Rightarrow> u64" where
  "multiply128 lhs rhs =
     (let product = (ucast lhs :: 128 word) * ucast rhs; f = ucast (drop_bit 64 product) in
      if (ucast product :: u64) AND push_bit 63 1 \<noteq> 0 then f + 1 else f)"

definition multiply64 :: "u64 \<Rightarrow> u64 \<Rightarrow> u64" where
  "multiply64 lhs rhs =
     (let mask = push_bit 32 1 - 1;
          a = drop_bit 32 lhs; b = lhs AND mask;
          c = drop_bit 32 rhs; d = rhs AND mask;
          ac = a * c; bc = b * c; ad = a * d; bd = b * d;
          mid = drop_bit 32 bd + (ad AND mask) + (bc AND mask) + push_bit 31 1 in
      ac + drop_bit 32 ad + drop_bit 32 bc + drop_bit 32 mid)"

definition fp_mult :: "fp \<Rightarrow> fp \<Rightarrow> fp" where
  "fp_mult x y = make_fp (multiply128 (fp_f x) (fp_f y)) (fp_e x + fp_e y + 64)"

section \<open>Cached powers of ten\<close>

definition pow10_significands :: "u64 list" where
  "pow10_significands = [
    0xFA8FD5A0081C0288, 0xBAAEE17FA23EBF76, 0x8B16FB203055AC76, 0xCF42894A5DCE35EA, 0x9A6BB0AA55653B2D,
    0xE61ACF033D1A45DF, 0xAB70FE17C79AC6CA, 0xFF77B1FCBEBCDC4F, 0xBE5691EF416BD60C, 0x8DD01FAD907FFC3C,
    0xD3515C2831559A83, 0x9D71AC8FADA6C9B5, 0xEA9C227723EE8BCB, 0xAECC49914078536D, 0x823C12795DB6CE57,
    0xC21094364DFB5637, 0x9096EA6F3848984F, 0xD77485CB25823AC7, 0xA086CFCD97BF97F4, 0xEF340A98172AACE5,
    0xB23867FB2A35B28E, 0x84C8D4DFD2C63F3B, 0xC5DD44271AD3CDBA, 0x936B9FCEBB25C996, 0xDBAC6C247D62A584,
    0xA3AB66580D5FDAF6, 0xF3E2F893DEC3F126, 0xB5B5ADA8AAFF80B8, 0x87625F056C7C4A8B, 0xC9BCFF6034C13053,
    0x964E858C91BA2655, 0xDFF9772470297EBD, 0xA6DFBD9FB8E5B88F, 0xF8A95FCF88747D94, 0xB94470938FA89BCF,
    0x8A08F0F8BF0F156B, 0xCDB02555653131B6, 0x993FE2C6D07B7FAC, 0xE45C10C42A2B3B06, 0xAA242499697392D3,
    0xFD87B5F28300CA0E, 0xBCE5086492111AEB, 0x8CBCCC096F5088CC, 0xD1B71758E219652C, 0x9C40000000000000,
    0xE8D4A51000000000, 0xAD78EBC5AC620000, 0x813F3978F8940984, 0xC097CE7BC90715B3, 0x8F7E32CE7BEA5C70,
    0xD5D238A4ABE98068, 0x9F4F2726179A2245, 0xED63A231D4C4FB27, 0xB0DE65388CC8ADA8, 0x83C7088E1AAB65DB,
    0xC45D1DF942711D9A, 0x924D692CA61BE758, 0xDA01EE641A708DEA, 0xA26DA3999AEF774A, 0xF209787BB47D6B85,
    0xB454E4A179DD1877, 0x865B86925B9BC5C2, 0xC83553C5C8965D3D, 0x952AB45CFA97A0B3, 0xDE469FBD99A05FE3,
    0xA59BC234DB398C25, 0xF6C69A72A3989F5C, 0xB7DCBF5354E9BECE, 0x88FCF317F22241E2, 0xCC20CE9BD35C78A5,
    0x98165AF37B2153DF, 0xE2A0B5DC971F303A, 0xA8D9D1535CE3B396, 0xFB9B7CD9A4A7443C, 0xBB764C4CA7A44410,
    0x8BAB8EEFB6409C1A, 0xD01FEF10A657842C, 0x9B10A4E5E9913129, 0xE7109BFBA19C0C9D, 0xAC2820D9623BF429,
    0x80444B5E7AA7CF85, 0xBF21E44003ACDD2D, 0x8E679C2F5E44FF8F, 0xD433179D9C8CB841, 0x9E19DB92B4E31BA9,
    0xEB96BF6EBADF77D9, 0xAF87023B9BF0EE6B]"

definition pow10_exponents :: "int list" where
  "pow10_exponents = [
    - 1220, - 1193, - 1166, - 1140, - 1113, - 1087, - 1060, - 1034, - 1007, - 980, - 954, - 927, - 901,
    - 874, - 847, - 821, - 794, - 768, - 741, - 715, - 688, - 661, - 635, - 608, - 582, - 555, - 529, - 502,
    - 475, - 449, - 422, - 396, - 369, - 343, - 316, - 289, - 263, - 236, - 210, - 183, - 157, - 130, - 103,
    - 77, - 50, - 24, 3, 30, 56, 83, 109, 136, 162, 189, 216, 242, 269, 295, 322, 348, 375, 402, 428, 455,
    481, 508, 534, 561, 588, 614, 641, 667, 694, 720, 747, 774, 800, 827, 853, 880, 907, 933, 960, 986, 1013,
    1039, 1066]"

definition one_over_log2_10 :: int where
  "one_over_log2_10 = 0x4D104D42"

text \<open>Division towards zero; the shift of a negative number is arithmetic.\<close>

definition quot8 :: "int \<Rightarrow> int" where
  "quot8 n = (if n \<ge> 0 then n div 8 else - ((- n) div 8))"

definition cached_index :: "int \<Rightarrow> int" where
  "cached_index min_exponent =
     (let i = drop_bit 32 ((min_exponent + 64 - 1) * one_over_log2_10 + (2 ^ 32 - 1)) in
      quot8 (i - (- 348) - 1) + 1)"

definition get_cached_power :: "int \<Rightarrow> (fp \<times> int) option" where
  "get_cached_power min_exponent =
     (let i = cached_index min_exponent in
      if 0 \<le> i \<and> nat i < length pow10_significands
      then Some (make_fp (pow10_significands ! nat i) (pow10_exponents ! nat i), - 348 + i * 8)
      else None)"

declare normalize_loop.simps [code]

end
