(* ===== verification/Fmt_Bigint.thy ===== *)
theory Fmt_Bigint imports Prelude begin

text \<open>
  The class \<open>bigint\<close> (spdlog/fmt/bundled/format-inl.h), the arithmetic of the exact conversion of floating-point
  numbers: an array of 32-bit digits ("bigits"), least significant first, times a power of \<open>2^32\<close>.

  An access outside of the array is \<open>None\<close>.  The exponent never becomes negative and is a \<open>nat\<close>; it, the sizes
  and the arguments of shifts and powers are \<open>int\<close>s in the code, and where an operation would leave the range of
  \<open>int\<close> (undefined behaviour) its result is \<open>None\<close> too.  \<open>num_bigits\<close>, the sum of size and exponent, is
  supposed to fit.  What an operation
  computes is stated on the number that a bigint stands for, \<open>big_nat\<close>.
\<close>

unbundle bit_operations_syntax

section \<open>The class\<close>

type_synonym u128 = "128 word"

record bigint =
  bigits :: "u32 list"
  big_exp :: nat

text \<open>The two halves of a \<open>double_bigit\<close>, and the conversion to it.\<close>

definition wide :: "u32 \<Rightarrow> u64" where
  "wide b = ucast b"

definition low32 :: "u64 \<Rightarrow> u32" where
  "low32 x = ucast x"

definition high32 :: "u64 \<Rightarrow> u32" where
  "high32 x = ucast (drop_bit 32 x)"

lemma unat_wide [simp]: "unat (wide b) = unat b"
  by (simp add: wide_def unsigned_ucast_eq take_bit_nat_eq_self unsigned_less [THEN less_le_trans])

lemma unat_low32: "unat (low32 x) = unat x mod 2 ^ 32"
  by (simp add: low32_def unsigned_ucast_eq take_bit_eq_mod)

lemma unat_drop32: "unat (drop_bit 32 (x :: u64)) = unat x div 2 ^ 32"
  unfolding unsigned_drop_bit_eq take_bit_nat_eq_self [OF unsigned_less] by (rule drop_bit_eq_div)

lemma unat_bigit: "unat (b :: u32) < 2 ^ 32"
  using unsigned_less [of b] by simp

lemma unat_double: "unat (x :: u64) < 2 ^ 64"
  using unsigned_less [of x] by simp

lemma unat_high32: "unat (high32 x) = unat x div 2 ^ 32"
proof -
  have "unat x div 2 ^ 32 < 2 ^ 32" using unat_double [of x] by (simp add: div_less_iff_less_mult)
  then show ?thesis unfolding high32_def unsigned_ucast_eq take_bit_eq_mod by (simp only: unat_drop32) simp
qed

lemma drop32_less: "0 < unat (x :: u64) \<Longrightarrow> unat (drop_bit 32 x) < unat x"
  by (simp only: unat_drop32) simp

text \<open>\<open>assign(uint64_t)\<close>\<close>

function assign_loop :: "u64 \<Rightarrow> u32 list" where
  "assign_loop n = low32 n # (if drop_bit 32 n \<noteq> 0 then assign_loop (drop_bit 32 n) else [])"
  by pat_completeness auto
termination
proof (relation "measure unat")
  fix n :: u64
  assume "drop_bit 32 n \<noteq> 0"
  then have "0 < unat n" by (cases "n = 0") (simp_all add: unat_gt_0)
  then show "(drop_bit 32 n, n) \<in> measure unat" using drop32_less by (simp only: in_measure)
qed simp

declare assign_loop.simps [simp del]

definition big_assign :: "u64 \<Rightarrow> bigint" where
  "big_assign n = \<lparr>bigits = assign_loop n, big_exp = 0\<rparr>"

text \<open>\<open>multiply\<close> for 32 and for 64 bits.\<close>

fun mul32_loop :: "u64 \<Rightarrow> u32 \<Rightarrow> u32 list \<Rightarrow> u32 list" where
  "mul32_loop wide_value carry [] = (if carry \<noteq> 0 then [carry] else [])"
| "mul32_loop wide_value carry (b # bs) =
     (let result = wide b * wide_value + wide carry in
      low32 result # mul32_loop wide_value (high32 result) bs)"

definition big_mul32 :: "u32 \<Rightarrow> bigint \<Rightarrow> bigint" where
  "big_mul32 v x = x\<lparr>bigits := mul32_loop (wide v) 0 (bigits x)\<rparr>"

function push_carry :: "u64 \<Rightarrow> u32 list" where
  "push_carry carry = (if carry \<noteq> 0 then low32 carry # push_carry (drop_bit 32 carry) else [])"
  by pat_completeness auto
termination
proof (relation "measure unat")
  fix n :: u64
  assume "n \<noteq> 0"
  then have "0 < unat n" by (simp add: unat_gt_0)
  then show "(drop_bit 32 n, n) \<in> measure unat" using drop32_less by (simp only: in_measure)
qed simp

declare push_carry.simps [simp del]

fun mul64_loop :: "u64 \<Rightarrow> u64 \<Rightarrow> u64 \<Rightarrow> u32 list \<Rightarrow> u32 list" where
  "mul64_loop lower upper carry [] = push_carry carry"
| "mul64_loop lower upper carry (b # bs) =
     (let result = wide b * lower + wide (low32 carry) in
      low32 result # mul64_loop lower upper
        (wide b * upper + drop_bit 32 result + drop_bit 32 carry) bs)"

definition big_mul64 :: "u64 \<Rightarrow> bigint \<Rightarrow> bigint" where
  "big_mul64 v x = x\<lparr>bigits := mul64_loop (wide (low32 v)) (drop_bit 32 v) 0 (bigits x)\<rparr>"

text \<open>\<open>operator<<=\<close>\<close>

fun shift_loop :: "nat \<Rightarrow> u32 \<Rightarrow> u32 list \<Rightarrow> u32 list" where
  "shift_loop s carry [] = (if carry \<noteq> 0 then [carry] else [])"
| "shift_loop s carry (b # bs) = (push_bit s b + carry) # shift_loop s (drop_bit (32 - s) b) bs"

definition shifted :: "nat \<Rightarrow> bigint \<Rightarrow> bigint" where
  "shifted k x =
     (let x1 = x\<lparr>big_exp := big_exp x + k div 32\<rparr>; s = k mod 32 in
      if s = 0 then x1 else x1\<lparr>bigits := shift_loop s 0 (bigits x)\<rparr>)"

definition big_shift :: "nat \<Rightarrow> bigint \<Rightarrow> bigint option" where
  "big_shift k x = (if big_exp x + k div 32 < 2 ^ 31 then Some (shifted k x) else None)"

text \<open>\<open>compare\<close>: the arrays from the most significant end, in lockstep.\<close>

definition num_bigits :: "bigint \<Rightarrow> nat" where
  "num_bigits x = length (bigits x) + big_exp x"

fun compare_loop :: "u32 list \<Rightarrow> u32 list \<Rightarrow> int" where
  "compare_loop [] [] = 0"
| "compare_loop [] (b # bs) = - 1"
| "compare_loop (a # as) [] = 1"
| "compare_loop (a # as) (b # bs) = (if a \<noteq> b then (if a > b then 1 else - 1) else compare_loop as bs)"

definition big_compare :: "bigint \<Rightarrow> bigint \<Rightarrow> int" where
  "big_compare x y =
     (if num_bigits x \<noteq> num_bigits y then (if num_bigits x > num_bigits y then 1 else - 1)
      else compare_loop (rev (bigits x)) (rev (bigits y)))"

text \<open>\<open>add_compare\<close>: from the most significant position, \<open>k\<close> above \<open>min_exp\<close>.\<close>

definition get_bigit :: "bigint \<Rightarrow> nat \<Rightarrow> u32" where
  "get_bigit n i = (if big_exp n \<le> i \<and> i < num_bigits n then bigits n ! (i - big_exp n) else 0)"

fun add_compare_loop :: "bigint \<Rightarrow> bigint \<Rightarrow> bigint \<Rightarrow> nat \<Rightarrow> nat \<Rightarrow> u64 \<Rightarrow> int" where
  "add_compare_loop x y z min_exp 0 borrow = (if borrow \<noteq> 0 then - 1 else 0)"
| "add_compare_loop x y z min_exp (Suc k) borrow =
     (let i = min_exp + k;
          s = wide (get_bigit x i) + wide (get_bigit y i);
          r = wide (get_bigit z i) in
      if s > r + borrow then 1
      else
        let b = r + borrow - s in
        if b > 1 then - 1 else add_compare_loop x y z min_exp k (push_bit 32 b))"

definition big_add_compare :: "bigint \<Rightarrow> bigint \<Rightarrow> bigint \<Rightarrow> int" where
  "big_add_compare x y z =
     (let max_lhs = max (num_bigits x) (num_bigits y) in
      if max_lhs + 1 < num_bigits z then - 1
      else if max_lhs > num_bigits z then 1
      else
        let min_exp = min (min (big_exp x) (big_exp y)) (big_exp z) in
        add_compare_loop x y z min_exp (num_bigits z - min_exp) 0)"

text \<open>\<open>subtract_bigits\<close> and \<open>subtract_aligned\<close>; the loop that passes on the last borrow stays at one position.\<close>

definition subtract_bigits :: "nat \<Rightarrow> u32 \<Rightarrow> u32 list \<times> u32 \<Rightarrow> (u32 list \<times> u32) option" where
  "subtract_bigits i other = (\<lambda>(bs, borrow).
     if i < length bs then
       (let result = wide (bs ! i) - wide other - wide borrow in
        Some (bs[i := low32 result], ucast (drop_bit 63 result)))
     else None)"

fun subtract_loop :: "nat \<Rightarrow> u32 list \<Rightarrow> u32 list \<times> u32 \<Rightarrow> (u32 list \<times> u32) option" where
  "subtract_loop i [] st = Some st"
| "subtract_loop i (c # cs) st = Option.bind (subtract_bigits i c st) (subtract_loop (Suc i) cs)"

partial_function (option) borrow_loop :: "nat \<Rightarrow> u32 list \<times> u32 \<Rightarrow> u32 list option" where
  "borrow_loop i st = (if snd st > 0 then Option.bind (subtract_bigits i 0 st) (borrow_loop i) else Some (fst st))"

fun strip_index :: "u32 list \<Rightarrow> nat \<Rightarrow> nat" where
  "strip_index bs 0 = 0"
| "strip_index bs (Suc k) = (if bs ! Suc k = 0 then strip_index bs k else Suc k)"

definition remove_leading_zeros :: "u32 list \<Rightarrow> u32 list" where
  "remove_leading_zeros bs = take (strip_index bs (length bs - 1) + 1) bs"

definition subtract_aligned :: "bigint \<Rightarrow> bigint \<Rightarrow> bigint option" where
  "subtract_aligned x other =
     (if big_exp other < big_exp x \<or> big_compare x other < 0 then None
      else
        let i = big_exp other - big_exp x in
        Option.bind (subtract_loop i (bigits other) (bigits x, 0)) (\<lambda>st.
          map_option (\<lambda>bs. x\<lparr>bigits := remove_leading_zeros bs\<rparr>)
            (borrow_loop (i + length (bigits other)) st)))"

text \<open>\<open>divmod_assign\<close>\<close>

partial_function (option) divmod_loop :: "bigint \<Rightarrow> nat \<Rightarrow> bigint \<Rightarrow> (nat \<times> bigint) option" where
  "divmod_loop divisor q x =
     Option.bind (subtract_aligned x divisor) (\<lambda>x1.
       if big_compare x1 divisor \<ge> 0 then divmod_loop divisor (q + 1) x1 else Some (q + 1, x1))"

definition big_align :: "bigint \<Rightarrow> bigint \<Rightarrow> bigint" where
  "big_align x divisor =
     (if big_exp x > big_exp divisor
      then \<lparr>bigits = replicate (big_exp x - big_exp divisor) 0 @ bigits x, big_exp = big_exp divisor\<rparr> else x)"

definition divmod_assign :: "bigint \<Rightarrow> bigint \<Rightarrow> (nat \<times> bigint) option" where
  "divmod_assign x divisor =
     (if big_compare x divisor < 0 then Some (0, x)
      else if last (bigits divisor) = 0 then None
      else divmod_loop divisor 0 (big_align x divisor))"

text \<open>
  \<open>square\<close>, with the 128-bit accumulator: one bigit of the result after the other.  Moving an array away
  leaves its size.
\<close>

definition cross_terms :: "u32 list \<Rightarrow> nat \<Rightarrow> u128 \<Rightarrow> u128" where
  "cross_terms n k acc =
     fold (\<lambda>i a. a + ucast (wide (n ! i) * wide (n ! (k - i))))
       [k - (length n - 1)..<min (k + 1) (length n)] acc"

fun square_loop :: "u32 list \<Rightarrow> nat \<Rightarrow> nat \<Rightarrow> u128 \<Rightarrow> u32 list" where
  "square_loop n k 0 acc = []"
| "square_loop n k (Suc left) acc =
     (let s = cross_terms n k acc in ucast s # square_loop n (Suc k) left (drop_bit 32 s))"

definition squared :: "bigint \<Rightarrow> bigint" where
  "squared x =
     \<lparr>bigits = remove_leading_zeros (square_loop (bigits x) 0 (2 * length (bigits x)) 0), big_exp = 2 * big_exp x\<rparr>"

definition big_square :: "bigint \<Rightarrow> bigint option" where
  "big_square x = (if 2 * length (bigits x) < 2 ^ 31 \<and> 2 * big_exp x < 2 ^ 31 then Some (squared x) else None)"

text \<open>
  \<open>assign_pow10\<close>: \<open>bitmask\<close> is doubled until it is above the exponent, which it cannot be after 30 doublings;
  then the bits of the exponent below the top one, from the top.
\<close>

function bitmask_loop :: "nat \<Rightarrow> nat \<Rightarrow> nat option" where
  "bitmask_loop e k = (if e < 2 ^ k then Some k else if k < 30 then bitmask_loop e (Suc k) else None)"
  by pat_completeness auto
termination
  by (relation "measure (\<lambda>(e, k). 30 - k)") auto

declare bitmask_loop.simps [simp del]

fun pow5_loop :: "nat \<Rightarrow> nat \<Rightarrow> bigint \<Rightarrow> bigint option" where
  "pow5_loop e 0 x = Some x"
| "pow5_loop e (Suc k) x =
     Option.bind (big_square x) (\<lambda>x1. pow5_loop e k (if e AND 2 ^ k \<noteq> 0 then big_mul32 5 x1 else x1))"

definition assign_pow10 :: "nat \<Rightarrow> bigint option" where
  "assign_pow10 e =
     (if e = 0 then Some (big_assign 1)
      else Option.bind (bitmask_loop e 0) (\<lambda>k. Option.bind (pow5_loop e (k - 1) (big_assign 5)) (big_shift e)))"

declare borrow_loop.simps [code] divmod_loop.simps [code]

end
