(* ===== verification/Fmt_Spec.thy ===== *)
theory Fmt_Spec imports Fmt_Int begin

text \<open>
  Format strings of the formatting library bundled with the logger: the arguments, the specifiers of a
  replacement field and their parser (spdlog/fmt/bundled/core.h, format.h).

  A position in the format string is the rest of the string.  A result is \<open>None\<close> for undefined behaviour,
  on the left the message of a \<open>format_error\<close>, or a value.  Arguments of the types \<open>long double\<close>, of 128-bit
  integers and of custom types are not modelled.
\<close>

section \<open>Results\<close>

type_synonym 'a fmt_result = "(string + 'a) option"

abbreviation fmt_ok :: "'a \<Rightarrow> 'a fmt_result" where "fmt_ok x \<equiv> Some (Inr x)"

abbreviation fmt_err :: "string \<Rightarrow> 'a fmt_result" where "fmt_err e \<equiv> Some (Inl e)"

definition fmt_bind :: "'a fmt_result \<Rightarrow> ('a \<Rightarrow> 'b fmt_result) \<Rightarrow> 'b fmt_result" where
  "fmt_bind r f = (case r of None \<Rightarrow> None | Some (Inl e) \<Rightarrow> fmt_err e | Some (Inr x) \<Rightarrow> f x)"

lemma fmt_bind_simps [simp]:
  "fmt_bind None f = None" "fmt_bind (fmt_err e) f = fmt_err e" "fmt_bind (fmt_ok x) f = f x"
  by (simp_all add: fmt_bind_def)

lemma fmt_bind_okE:
  assumes "fmt_bind r f = fmt_ok y"
  obtains x where "r = fmt_ok x" "f x = fmt_ok y"
  using assms by (cases r; cases "the r") auto

lemma fmt_bind_defined: "r \<noteq> None \<Longrightarrow> (\<And>x. r = fmt_ok x \<Longrightarrow> f x \<noteq> None) \<Longrightarrow> fmt_bind r f \<noteq> None"
  by (cases r; cases "the r") auto

lemma fmt_bind_cong [fundef_cong]: "r = r' \<Longrightarrow> (\<And>x. r' = fmt_ok x \<Longrightarrow> f x = f' x) \<Longrightarrow> fmt_bind r f = fmt_bind r' f'"
  by (cases r'; cases "the r'") auto

text \<open>A character of a message in single quotes.\<close>

definition in_quotes :: "char \<Rightarrow> string" where
  "in_quotes c = [CHR 0x27, c, CHR 0x27]"

section \<open>Arguments\<close>

datatype arg_type = None_type | Int_type | Uint_type | Long_long_type | Ulong_long_type | Int128_type | Uint128_type
  | Bool_type | Char_type | Float_type | Double_type | Long_double_type | Cstring_type | String_type | Pointer_type
  | Custom_type

definition is_integral_type :: "arg_type \<Rightarrow> bool" where
  "is_integral_type t \<longleftrightarrow>
     t \<in> set [Int_type, Uint_type, Long_long_type, Ulong_long_type, Int128_type, Uint128_type, Bool_type, Char_type]"

definition is_arithmetic_type :: "arg_type \<Rightarrow> bool" where
  "is_arithmetic_type t \<longleftrightarrow> is_integral_type t \<or> t \<in> set [Float_type, Double_type, Long_double_type]"

text \<open>
  A C string is its address and its text; the null pointer has address 0.  A floating-point number is its bit
  pattern.
\<close>

datatype fmt_arg =
    Int_arg u32
  | Uint_arg u32
  | Long_long_arg u64
  | Ulong_long_arg u64
  | Bool_arg bool
  | Char_arg char
  | Float_arg u32
  | Double_arg u64
  | Cstring_arg u64 string
  | String_arg string
  | Pointer_arg u64

fun type_of_arg :: "fmt_arg \<Rightarrow> arg_type" where
  "type_of_arg (Int_arg i) = Int_type"
| "type_of_arg (Uint_arg u) = Uint_type"
| "type_of_arg (Long_long_arg i) = Long_long_type"
| "type_of_arg (Ulong_long_arg u) = Ulong_long_type"
| "type_of_arg (Bool_arg b) = Bool_type"
| "type_of_arg (Char_arg c) = Char_type"
| "type_of_arg (Float_arg x) = Float_type"
| "type_of_arg (Double_arg x) = Double_type"
| "type_of_arg (Cstring_arg p s) = Cstring_type"
| "type_of_arg (String_arg s) = String_type"
| "type_of_arg (Pointer_arg p) = Pointer_type"

record fmt_args =
  arg_list :: "fmt_arg list"
  arg_names :: "(string \<times> nat) list"

definition get_arg :: "nat \<Rightarrow> fmt_args \<Rightarrow> fmt_arg fmt_result" where
  "get_arg i args = (if i < length (arg_list args) then fmt_ok (arg_list args ! i) else fmt_err ''argument not found'')"

text \<open>\<open>next_arg_id_\<close> of the parse context: -1 once arguments are given by number.\<close>

definition next_arg_id :: "int \<Rightarrow> (nat \<times> int) fmt_result" where
  "next_arg_id n =
     (if n \<ge> 0 then fmt_ok (nat n, n + 1) else fmt_err ''cannot switch from manual to automatic argument indexing'')"

definition check_arg_id :: "int \<Rightarrow> int fmt_result" where
  "check_arg_id n =
     (if n > 0 then fmt_err ''cannot switch from automatic to manual argument indexing'' else fmt_ok (- 1))"

datatype arg_id = Auto_id | Index_id nat | Name_id string

definition on_arg_id :: "fmt_args \<Rightarrow> arg_id \<Rightarrow> int \<Rightarrow> (nat \<times> int) fmt_result" where
  "on_arg_id args i n =
     (case i of
        Auto_id \<Rightarrow> next_arg_id n
      | Index_id k \<Rightarrow> fmt_bind (check_arg_id n) (\<lambda>n1. fmt_ok (k, n1))
      | Name_id s \<Rightarrow> (case map_of (arg_names args) s of Some k \<Rightarrow> fmt_ok (k, n) | None \<Rightarrow> fmt_err ''argument not found''))"

section \<open>Argument ids\<close>

definition is_name_start :: "char \<Rightarrow> bool" where
  "is_name_start c \<longleftrightarrow> (let k = (of_char c :: nat) in (97 \<le> k \<and> k \<le> 122) \<or> (65 \<le> k \<and> k \<le> 90) \<or> c = CHR ''_'')"

definition is_name_char :: "char \<Rightarrow> bool" where
  "is_name_char c \<longleftrightarrow> is_name_start c \<or> is_digit c"

definition after_index :: "nat \<Rightarrow> string \<Rightarrow> (arg_id \<times> string) fmt_result" where
  "after_index i rest =
     (if rest = [] \<or> (hd rest \<noteq> CHR ''}'' \<and> hd rest \<noteq> CHR '':'') then fmt_err ''invalid format string''
      else fmt_ok (Index_id i, rest))"

text \<open>\<open>begin != end\<close> is asserted: the first character is an argument.\<close>

definition parse_arg_id :: "char \<Rightarrow> string \<Rightarrow> (arg_id \<times> string) fmt_result" where
  "parse_arg_id c cs =
     (if c = CHR ''}'' \<or> c = CHR '':'' then fmt_ok (Auto_id, c # cs)
      else if is_digit c then
        (if c \<noteq> CHR ''0'' then
           (case parse_nonnegative_int (c # cs) of
              (Inl e, rest) \<Rightarrow> fmt_err e
            | (Inr i, rest) \<Rightarrow> after_index i rest)
         else after_index 0 cs)
      else if \<not> is_name_start c then fmt_err ''invalid format string''
      else fmt_ok (Name_id (c # takeWhile is_name_char cs), dropWhile is_name_char cs))"

section \<open>Specifiers\<close>

datatype align_t = Align_none | Align_left | Align_right | Align_center | Align_numeric
datatype sign_t = Sign_none | Sign_minus | Sign_plus | Sign_space

record format_specs =
  spec_width :: nat
  spec_precision :: int
  spec_type :: char
  spec_align :: align_t
  spec_sign :: sign_t
  spec_alt :: bool
  spec_fill :: string

definition default_specs :: format_specs where
  "default_specs = \<lparr>spec_width = 0, spec_precision = - 1, spec_type = CHR 0x00, spec_align = Align_none,
     spec_sign = Sign_none, spec_alt = False, spec_fill = '' ''\<rparr>"

text \<open>\<open>numeric_specs_checker\<close>.\<close>

definition require_numeric :: "arg_type \<Rightarrow> unit fmt_result" where
  "require_numeric t =
     (if \<not> is_arithmetic_type t then fmt_err ''format specifier requires numeric argument'' else fmt_ok ())"

definition check_sign :: "arg_type \<Rightarrow> unit fmt_result" where
  "check_sign t =
     fmt_bind (require_numeric t) (\<lambda>_.
       if is_integral_type t \<and> t \<noteq> Int_type \<and> t \<noteq> Long_long_type \<and> t \<noteq> Char_type
       then fmt_err ''format specifier requires signed argument'' else fmt_ok ())"

definition check_precision :: "arg_type \<Rightarrow> unit fmt_result" where
  "check_precision t =
     (if is_integral_type t \<or> t = Pointer_type then fmt_err ''precision not allowed for this argument type''
      else fmt_ok ())"

text \<open>Width and precision given by an argument; \<open>what\<close> is the checker.\<close>

fun spec_value :: "string \<Rightarrow> fmt_arg \<Rightarrow> nat fmt_result" where
  "spec_value what (Int_arg i) = (if sint i < 0 then fmt_err (''negative '' @ what) else fmt_ok (unat i))"
| "spec_value what (Uint_arg u) = fmt_ok (unat u)"
| "spec_value what (Long_long_arg i) = (if sint i < 0 then fmt_err (''negative '' @ what) else fmt_ok (unat i))"
| "spec_value what (Ulong_long_arg u) = fmt_ok (unat u)"
| "spec_value what _ = fmt_err (what @ '' is not integer'')"

definition get_dynamic_spec :: "string \<Rightarrow> fmt_arg \<Rightarrow> nat fmt_result" where
  "get_dynamic_spec what a =
     fmt_bind (spec_value what a) (\<lambda>v. if v > max_int then fmt_err ''number is too big'' else fmt_ok v)"

definition on_dynamic :: "string \<Rightarrow> fmt_args \<Rightarrow> arg_id \<Rightarrow> int \<Rightarrow> (nat \<times> int) fmt_result" where
  "on_dynamic what args i n =
     fmt_bind (on_arg_id args i n) (\<lambda>(k, n1).
       fmt_bind (get_arg k args) (\<lambda>a.
         fmt_bind (get_dynamic_spec what a) (\<lambda>v. fmt_ok (v, n1))))"

section \<open>The parser of specifiers\<close>

text \<open>The parts of the parser take the first character of a rest that is not empty.\<close>

type_synonym spec_state = "format_specs \<times> int \<times> string"

definition unless_end :: "(char \<Rightarrow> string \<Rightarrow> format_specs \<Rightarrow> int \<Rightarrow> spec_state fmt_result) \<Rightarrow> spec_state \<Rightarrow> spec_state fmt_result" where
  "unless_end f st = (case st of (sp, n, s) \<Rightarrow> (case s of [] \<Rightarrow> fmt_ok st | c # cs \<Rightarrow> f c cs sp n))"

definition is_continuation :: "char \<Rightarrow> bool" where
  "is_continuation c \<longleftrightarrow> (of_char c :: nat) AND 0xC0 = 0x80"

definition next_code_point :: "char \<Rightarrow> string \<Rightarrow> string \<times> string" where
  "next_code_point c cs =
     (if (of_char c :: nat) AND 0x80 = 0 then ([c], cs) else (c # takeWhile is_continuation cs, dropWhile is_continuation cs))"

definition align_of_char :: "char \<Rightarrow> align_t" where
  "align_of_char c =
     (if c = CHR ''<'' then Align_left else if c = CHR ''>'' then Align_right
      else if c = CHR ''^'' then Align_center else Align_none)"

definition parse_align :: "char \<Rightarrow> string \<Rightarrow> format_specs \<Rightarrow> int \<Rightarrow> spec_state fmt_result" where
  "parse_align c cs sp n =
     (let (point, p) = next_code_point c cs in
      if p \<noteq> [] \<and> align_of_char (hd p) \<noteq> Align_none then
        (if c = CHR ''{'' then fmt_err (''invalid fill character '' @ in_quotes (CHR ''{''))
         else if length point > 4 then fmt_err ''invalid fill''
         else fmt_ok (sp\<lparr>spec_fill := point, spec_align := align_of_char (hd p)\<rparr>, n, tl p))
      else if align_of_char c \<noteq> Align_none then fmt_ok (sp\<lparr>spec_align := align_of_char c\<rparr>, n, cs)
      else fmt_ok (sp, n, c # cs))"

definition parse_sign :: "arg_type \<Rightarrow> char \<Rightarrow> string \<Rightarrow> format_specs \<Rightarrow> int \<Rightarrow> spec_state fmt_result" where
  "parse_sign t c cs sp n =
     (if c = CHR ''+'' then fmt_bind (check_sign t) (\<lambda>_. fmt_ok (sp\<lparr>spec_sign := Sign_plus\<rparr>, n, cs))
      else if c = CHR ''-'' then fmt_bind (check_sign t) (\<lambda>_. fmt_ok (sp\<lparr>spec_sign := Sign_minus\<rparr>, n, cs))
      else if c = CHR '' '' then fmt_bind (check_sign t) (\<lambda>_. fmt_ok (sp\<lparr>spec_sign := Sign_space\<rparr>, n, cs))
      else fmt_ok (sp, n, c # cs))"

definition parse_hash :: "arg_type \<Rightarrow> char \<Rightarrow> string \<Rightarrow> format_specs \<Rightarrow> int \<Rightarrow> spec_state fmt_result" where
  "parse_hash t c cs sp n =
     (if c = CHR ''#'' then fmt_bind (require_numeric t) (\<lambda>_. fmt_ok (sp\<lparr>spec_alt := True\<rparr>, n, cs))
      else fmt_ok (sp, n, c # cs))"

text \<open>\<open>on_zero\<close> overwrites the first byte of the fill and keeps its size.\<close>

definition parse_zero :: "arg_type \<Rightarrow> char \<Rightarrow> string \<Rightarrow> format_specs \<Rightarrow> int \<Rightarrow> spec_state fmt_result" where
  "parse_zero t c cs sp n =
     (if c = CHR ''0'' then
        fmt_bind (require_numeric t) (\<lambda>_.
          fmt_ok (sp\<lparr>spec_align := Align_numeric, spec_fill := (spec_fill sp)[0 := CHR ''0'']\<rparr>, n, cs))
      else fmt_ok (sp, n, c # cs))"

text \<open>The part in braces of a dynamic width or precision, after the opening brace.\<close>

definition parse_dynamic :: "string \<Rightarrow> fmt_args \<Rightarrow> string \<Rightarrow> int \<Rightarrow> (nat \<times> int \<times> string) fmt_result" where
  "parse_dynamic what args s n =
     (case s of
        [] \<Rightarrow> fmt_err ''invalid format string''
      | c # cs \<Rightarrow>
          fmt_bind (parse_arg_id c cs) (\<lambda>(i, rest).
            fmt_bind (on_dynamic what args i n) (\<lambda>(v, n1).
              if rest = [] \<or> hd rest \<noteq> CHR ''}'' then fmt_err ''invalid format string''
              else fmt_ok (v, n1, tl rest))))"

definition parse_width :: "fmt_args \<Rightarrow> char \<Rightarrow> string \<Rightarrow> format_specs \<Rightarrow> int \<Rightarrow> spec_state fmt_result" where
  "parse_width args c cs sp n =
     (if is_digit c then
        (case parse_nonnegative_int (c # cs) of
           (Inl e, rest) \<Rightarrow> fmt_err e
         | (Inr v, rest) \<Rightarrow> fmt_ok (sp\<lparr>spec_width := v\<rparr>, n, rest))
      else if c = CHR ''{'' then
        fmt_bind (parse_dynamic ''width'' args cs n) (\<lambda>(v, n1, rest). fmt_ok (sp\<lparr>spec_width := v\<rparr>, n1, rest))
      else fmt_ok (sp, n, c # cs))"

text \<open>After the point.\<close>

definition parse_precision :: "arg_type \<Rightarrow> fmt_args \<Rightarrow> string \<Rightarrow> format_specs \<Rightarrow> int \<Rightarrow> spec_state fmt_result" where
  "parse_precision t args s sp n =
     fmt_bind
       (if s \<noteq> [] \<and> is_digit (hd s) then
          (case parse_nonnegative_int s of
             (Inl e, rest) \<Rightarrow> fmt_err e
           | (Inr v, rest) \<Rightarrow> fmt_ok (sp\<lparr>spec_precision := int v\<rparr>, n, rest))
        else if s \<noteq> [] \<and> hd s = CHR ''{'' then
          fmt_bind (parse_dynamic ''precision'' args (tl s) n)
            (\<lambda>(v, n1, rest). fmt_ok (sp\<lparr>spec_precision := int v\<rparr>, n1, rest))
        else fmt_err ''missing precision specifier'')
       (\<lambda>st. fmt_bind (check_precision t) (\<lambda>_. fmt_ok st))"

definition parse_point :: "arg_type \<Rightarrow> fmt_args \<Rightarrow> char \<Rightarrow> string \<Rightarrow> format_specs \<Rightarrow> int \<Rightarrow> spec_state fmt_result" where
  "parse_point t args c cs sp n = (if c = CHR ''.'' then parse_precision t args cs sp n else fmt_ok (sp, n, c # cs))"

definition parse_type :: "char \<Rightarrow> string \<Rightarrow> format_specs \<Rightarrow> int \<Rightarrow> spec_state fmt_result" where
  "parse_type c cs sp n =
     (if c \<noteq> CHR ''}'' then fmt_ok (sp\<lparr>spec_type := c\<rparr>, n, cs) else fmt_ok (sp, n, c # cs))"

definition parse_specs_from :: "arg_type \<Rightarrow> fmt_args \<Rightarrow> char \<Rightarrow> string \<Rightarrow> format_specs \<Rightarrow> int \<Rightarrow> spec_state fmt_result" where
  "parse_specs_from t args c cs sp n =
     (if c = CHR ''}'' then fmt_ok (sp, n, c # cs)
      else
        fmt_bind (parse_align c cs sp n) (\<lambda>st1.
        fmt_bind (unless_end (parse_sign t) st1) (\<lambda>st2.
        fmt_bind (unless_end (parse_hash t) st2) (\<lambda>st3.
        fmt_bind (unless_end (parse_zero t) st3) (\<lambda>st4.
        fmt_bind (unless_end (parse_width args) st4) (\<lambda>st5.
        fmt_bind (unless_end (parse_point t args) st5)
          (unless_end parse_type)))))))"

definition parse_format_specs :: "arg_type \<Rightarrow> fmt_args \<Rightarrow> spec_state \<Rightarrow> spec_state fmt_result" where
  "parse_format_specs t args st = unless_end (parse_specs_from t args) st"

section \<open>Facts\<close>

text \<open>No part of the parser is undefined, and none moves backwards.\<close>

definition advances :: "spec_state fmt_result \<Rightarrow> nat \<Rightarrow> bool" where
  "advances r k \<longleftrightarrow> r \<noteq> None \<and> (\<forall>sp n s. r = fmt_ok (sp, n, s) \<longrightarrow> length s \<le> k)"

lemma advances_ok [simp]: "advances (fmt_ok (sp, n, s)) k \<longleftrightarrow> length s \<le> k"
  by (simp add: advances_def)

lemma advances_err [simp]: "advances (fmt_err e) k"
  by (simp add: advances_def)

lemma advances_bind:
  assumes "advances r k" "\<And>sp n s. length s \<le> k \<Longrightarrow> advances (f (sp, n, s)) k"
  shows "advances (fmt_bind r f) k"
proof (cases r)
  case (Some x)
  with assms show ?thesis by (cases x) (auto simp: advances_def)
qed (use assms in \<open>simp add: advances_def\<close>)

lemma advances_unless_end:
  assumes "\<And>c cs sp n. Suc (length cs) \<le> k \<Longrightarrow> advances (f c cs sp n) k" "length (snd (snd st)) \<le> k"
  shows "advances (unless_end f st) k"
  using assms by (cases st) (auto simp: unless_end_def split: list.splits)

lemma advances_check:
  assumes "advances (f ()) k"
  shows "advances (fmt_bind (require_numeric t) f) k" "advances (fmt_bind (check_sign t) f) k"
    "advances (fmt_bind (check_precision t) f) k"
  using assms by (simp_all add: require_numeric_def check_sign_def check_precision_def)

lemma parse_loop_length: "length (snd (parse_loop v s)) \<le> length s"
proof (induction v s rule: parse_loop.induct)
  case (2 v c cs)
  then show ?case by (auto simp: Let_def intro: le_SucI)
qed simp

lemma parse_nonnegative_int_length: "parse_nonnegative_int s = (r, rest) \<Longrightarrow> length rest \<le> length s"
  using parse_loop_length [of 0 s] by (auto simp: parse_nonnegative_int_def split_beta Let_def)

lemma after_index_spec: "after_index i rest \<noteq> None \<and> (\<forall>j s. after_index i rest = fmt_ok (j, s) \<longrightarrow> s = rest)"
  by (simp add: after_index_def)

lemma parse_arg_id_spec: "parse_arg_id c cs \<noteq> None \<and> (\<forall>i rest. parse_arg_id c cs = fmt_ok (i, rest) \<longrightarrow> length rest \<le> Suc (length cs))"
proof (cases "parse_nonnegative_int (c # cs)")
  case (Pair r rest)
  from parse_nonnegative_int_length [OF this] have "length rest \<le> Suc (length cs)" by simp
  with Pair show ?thesis using length_dropWhile_le [of is_name_char cs]
    by (auto simp: parse_arg_id_def after_index_def split: sum.splits if_splits)
qed

lemma on_arg_id_defined [simp]: "on_arg_id args i n \<noteq> None"
  by (auto simp: on_arg_id_def next_arg_id_def check_arg_id_def split: arg_id.splits option.splits)

lemma get_arg_defined [simp]: "get_arg i args \<noteq> None"
  by (simp add: get_arg_def)

lemma get_dynamic_spec_defined [simp]: "get_dynamic_spec what a \<noteq> None"
  by (cases a) (simp_all add: get_dynamic_spec_def)

lemma on_dynamic_defined [simp]: "on_dynamic what args i n \<noteq> None"
  unfolding on_dynamic_def case_prod_unfold by (intro fmt_bind_defined) simp_all

lemma parse_dynamic_spec:
  "parse_dynamic what args s n \<noteq> None
    \<and> (\<forall>v n1 rest. parse_dynamic what args s n = fmt_ok (v, n1, rest) \<longrightarrow> length rest \<le> length s)"
proof (cases s)
  case (Cons c cs)
  note p = parse_arg_id_spec [of c cs]
  show ?thesis
  proof (cases "parse_arg_id c cs")
    case (Some x)
    show ?thesis
    proof (cases x)
      case (Inr y)
      obtain i rest where y: "y = (i, rest)" by force
      have "length rest \<le> Suc (length cs)" using p Some Inr y by simp
      moreover obtain z where "on_dynamic what args i n = Some z" using on_dynamic_defined by blast
      ultimately show ?thesis using Some Inr y Cons by (cases z) (auto simp: parse_dynamic_def split: if_splits)
    qed (use Some Cons in \<open>simp add: parse_dynamic_def\<close>)
  qed (use p in simp)
qed (simp add: parse_dynamic_def)

lemma advances_dynamic:
  "length s \<le> k \<Longrightarrow> (\<And>v n1 rest. length rest \<le> length s \<Longrightarrow> advances (f (v, n1, rest)) k)
    \<Longrightarrow> advances (fmt_bind (parse_dynamic what args s n) f) k"
  using parse_dynamic_spec [of what args s n]
  by (cases "parse_dynamic what args s n"; cases "the (parse_dynamic what args s n)") auto

lemma parse_align_advances: "Suc (length cs) \<le> k \<Longrightarrow> advances (parse_align c cs sp n) k"
  using length_dropWhile_le [of is_continuation cs]
  by (auto simp: parse_align_def next_code_point_def Let_def intro: le_trans)

lemma parse_sign_advances: "Suc (length cs) \<le> k \<Longrightarrow> advances (parse_sign t c cs sp n) k"
  by (auto simp: parse_sign_def intro!: advances_check)

lemma parse_hash_advances: "Suc (length cs) \<le> k \<Longrightarrow> advances (parse_hash t c cs sp n) k"
  by (auto simp: parse_hash_def intro!: advances_check)

lemma parse_zero_advances: "Suc (length cs) \<le> k \<Longrightarrow> advances (parse_zero t c cs sp n) k"
  by (auto simp: parse_zero_def intro!: advances_check)

lemma parse_number_advances:
  "length s \<le> k \<Longrightarrow>
    advances (case parse_nonnegative_int s of (Inl e, rest) \<Rightarrow> fmt_err e | (Inr v, rest) \<Rightarrow> fmt_ok (sp v, n, rest)) k"
  using parse_nonnegative_int_length [of s] by (auto split: sum.splits prod.splits intro: le_trans)

lemma parse_width_advances: "Suc (length cs) \<le> k \<Longrightarrow> advances (parse_width args c cs sp n) k"
  by (auto simp: parse_width_def intro!: parse_number_advances advances_dynamic)

lemma parse_precision_advances:
  assumes "length s \<le> k"
  shows "advances (parse_precision t args s sp n) k"
  unfolding parse_precision_def
proof (rule advances_bind)
  have "length (tl s) \<le> k" using assms by simp
  then show "advances (if s \<noteq> [] \<and> is_digit (hd s) then
          (case parse_nonnegative_int s of
             (Inl e, rest) \<Rightarrow> fmt_err e
           | (Inr v, rest) \<Rightarrow> fmt_ok (sp\<lparr>spec_precision := int v\<rparr>, n, rest))
        else if s \<noteq> [] \<and> hd s = CHR ''{'' then
          fmt_bind (parse_dynamic ''precision'' args (tl s) n)
            (\<lambda>(v, n1, rest). fmt_ok (sp\<lparr>spec_precision := int v\<rparr>, n1, rest))
        else fmt_err ''missing precision specifier'') k"
    by (auto intro!: parse_number_advances assms advances_dynamic)
qed (simp add: advances_check)

lemma parse_point_advances: "Suc (length cs) \<le> k \<Longrightarrow> advances (parse_point t args c cs sp n) k"
  by (simp add: parse_point_def parse_precision_advances)

lemma parse_type_advances: "Suc (length cs) \<le> k \<Longrightarrow> advances (parse_type c cs sp n) k"
  by (simp add: parse_type_def)

lemmas parser_advances = parse_align_advances parse_sign_advances parse_hash_advances parse_zero_advances
  parse_width_advances parse_point_advances parse_type_advances

lemma parse_specs_advances: "Suc (length cs) \<le> k \<Longrightarrow> advances (parse_specs_from t args c cs sp n) k"
  by (auto simp: parse_specs_from_def intro!: advances_bind advances_unless_end parser_advances)

lemma parse_format_specs_advances: "advances (parse_format_specs t args (sp, n, s)) (length s)"
  unfolding parse_format_specs_def by (intro advances_unless_end parse_specs_advances) simp_all

end
