(* ===== verification/Fmt_Grisu.thy ===== *)
theory Fmt_Grisu imports Fmt_Fp Fmt_Bigint Fmt_Spec begin

text \<open>
  The digits of a floating-point number (spdlog/fmt/bundled/format-inl.h): digit generation of Grisu with its
  two handlers, the exact conversion over bigints that it falls back to, the conversion by \<open>snprintf\<close>, and
  \<open>format_float\<close>, which chooses between them.

  A \<open>None\<close> is a failed assertion, undefined behaviour, or a loop that does not end.  The buffer of a handler
  is the text that it has written; the buffers of the callers have room for it.  \<open>snprintf\<close> is an argument.
\<close>

section \<open>Digit generation\<close>

datatype round_direction = Round_unknown | Round_up | Round_down

definition get_round_direction :: "u64 \<Rightarrow> u64 \<Rightarrow> u64 \<Rightarrow> round_direction option" where
  "get_round_direction divisor remainder error =
     (if \<not> (remainder < divisor \<and> error < divisor \<and> error < divisor - error) then None
      else if remainder \<le> divisor - remainder \<and> error * 2 \<le> divisor - remainder * 2 then Some Round_down
      else if error \<le> remainder \<and> divisor - (remainder - error) \<le> remainder - error then Some Round_up
      else Some Round_unknown)"

datatype digits_result = Digits_more | Digits_done | Digits_error

definition grisu_count_digits :: "u32 \<Rightarrow> nat" where
  "grisu_count_digits n =
     (if n < 10 then 1 else if n < 100 then 2 else if n < 1000 then 3 else if n < 10000 then 4
      else if n < 100000 then 5 else if n < 1000000 then 6 else if n < 10000000 then 7
      else if n < 100000000 then 8 else if n < 1000000000 then 9 else 10)"

definition powers_of_10_64 :: "u64 list" where
  "powers_of_10_64 = [1, 10, 100, 1000, 10000, 100000, 1000000, 10000000, 100000000, 1000000000, 10000000000,
    100000000000, 1000000000000, 10000000000000, 100000000000000, 1000000000000000, 10000000000000000,
    100000000000000000, 1000000000000000000, 10000000000000000000]"

text \<open>
  A handler has a state, \<open>on_start\<close> and \<open>on_digit\<close>.  The integral part: one digit per round, \<open>exp\<close> rounds are left.
  The fractional part: until the handler has enough.
\<close>

type_synonym 'h on_start = "'h \<Rightarrow> u64 \<Rightarrow> u64 \<Rightarrow> u64 \<Rightarrow> int \<Rightarrow> (digits_result \<times> 'h) option"
type_synonym 'h on_digit = "'h \<Rightarrow> char \<Rightarrow> u64 \<Rightarrow> u64 \<Rightarrow> u64 \<Rightarrow> int \<Rightarrow> bool \<Rightarrow> (digits_result \<times> 'h) option"

definition divmod_integral :: "nat \<Rightarrow> u32 \<Rightarrow> u32 \<times> u32" where
  "divmod_integral k n = (if k = 0 then (n, 0) else (n div 10 ^ k, n mod 10 ^ k))"

fun integral_loop ::
  "'h on_digit \<Rightarrow> nat \<Rightarrow> u64 \<Rightarrow> u64 \<Rightarrow> u32 \<Rightarrow> nat \<Rightarrow> 'h \<Rightarrow> (digits_result \<times> nat \<times> 'h) option" where
  "integral_loop on_digit sh fractional error integral 0 h = Some (Digits_more, 0, h)"
| "integral_loop on_digit sh fractional error integral (Suc k) h =
     (if Suc k > 10 then None
      else
        let (digit, rest) = divmod_integral k integral;
            remainder = push_bit sh (ucast rest) + fractional in
        Option.bind (on_digit h (digit_char (unat digit)) (push_bit sh (powers_of_10_64 ! k)) remainder error (int k) True)
          (\<lambda>(r, h1). if r \<noteq> Digits_more then Some (r, k, h1)
                     else integral_loop on_digit sh fractional error rest k h1))"

partial_function (option) fractional_loop ::
  "'h on_digit \<Rightarrow> nat \<Rightarrow> u64 \<Rightarrow> u64 \<Rightarrow> u64 \<Rightarrow> int \<Rightarrow> 'h \<Rightarrow> (digits_result \<times> int \<times> 'h) option" where
  "fractional_loop on_digit sh one_f fractional error exp h =
     (let fractional1 = fractional * 10; error1 = error * 10;
          digit = digit_char (unat (drop_bit sh fractional1));
          fractional2 = fractional1 AND (one_f - 1); exp1 = exp - 1 in
      Option.bind (on_digit h digit one_f fractional2 error1 exp1 False)
        (\<lambda>(r, h1). if r \<noteq> Digits_more then Some (r, exp1, h1)
                   else fractional_loop on_digit sh one_f fractional2 error1 exp1 h1))"

definition grisu_gen_digits ::
  "'h on_start \<Rightarrow> 'h on_digit \<Rightarrow> fp \<Rightarrow> u64 \<Rightarrow> 'h \<Rightarrow> (digits_result \<times> int \<times> 'h) option" where
  "grisu_gen_digits on_start on_digit v error h =
     Option.bind (shift_left64 1 (- fp_e v)) (\<lambda>one_f.
       let sh = nat (- fp_e v); integral = (ucast (drop_bit sh (fp_f v)) :: u32) in
       if integral = 0 \<or> ucast integral \<noteq> drop_bit sh (fp_f v) then None
       else
         let fractional = fp_f v AND (one_f - 1); exp = grisu_count_digits integral in
         Option.bind (on_start h (push_bit sh (powers_of_10_64 ! (exp - 1))) (fp_f v div 10) (error * 10) (int exp))
           (\<lambda>(r, h1). if r \<noteq> Digits_more then Some (r, int exp, h1)
              else Option.bind (integral_loop on_digit sh fractional error integral exp h1)
                (\<lambda>(r, k, h2). if r \<noteq> Digits_more then Some (r, int k, h2)
                   else fractional_loop on_digit sh one_f fractional error (int k) h2)))"

section \<open>Fixed precision\<close>

record fixed_handler =
  fh_buf :: string
  fh_precision :: int
  fh_exp10 :: int
  fh_fixed :: bool

definition succ_char :: "char \<Rightarrow> char" where
  "succ_char c = char_of (of_char c + 1 :: nat)"

definition above_9 :: "char \<Rightarrow> bool" where
  "above_9 c \<longleftrightarrow> 57 < (of_char c :: nat)"

definition fixed_start :: "fixed_handler on_start" where
  "fixed_start h divisor remainder error exp =
     (if \<not> fh_fixed h then Some (Digits_more, h)
      else
        let h1 = h\<lparr>fh_precision := fh_precision h + exp + fh_exp10 h\<rparr> in
        if fh_precision h1 > 0 then Some (Digits_more, h1)
        else if fh_precision h1 < 0 then Some (Digits_done, h1)
        else map_option
          (\<lambda>dir. if dir = Round_unknown then (Digits_error, h1)
                 else (Digits_done, h1\<lparr>fh_buf := fh_buf h1 @ [if dir = Round_up then CHR ''1'' else CHR ''0'']\<rparr>))
          (get_round_direction divisor remainder error))"

text \<open>The carry goes left from position \<open>i\<close>.\<close>

fun carry_up :: "nat \<Rightarrow> string \<Rightarrow> string" where
  "carry_up 0 buf = buf"
| "carry_up (Suc i) buf =
     (if above_9 (buf ! Suc i) then carry_up i (buf[Suc i := CHR ''0'', i := succ_char (buf ! i)]) else buf)"

definition round_up_digits :: "string \<Rightarrow> string" where
  "round_up_digits buf =
     (let i = length buf - 1; b = carry_up i (buf[i := succ_char (buf ! i)]) in
      if above_9 (b ! 0) then b[0 := CHR ''1''] @ ''0'' else b)"

definition fixed_digit :: "fixed_handler on_digit" where
  "fixed_digit h digit divisor remainder error exp integral =
     (if \<not> remainder < divisor then None
      else
        let h1 = h\<lparr>fh_buf := fh_buf h @ [digit]\<rparr> in
        if int (length (fh_buf h1)) < fh_precision h1 then Some (Digits_more, h1)
        else if \<not> integral \<and> (error \<ge> divisor \<or> error \<ge> divisor - error) then Some (Digits_error, h1)
        else if integral \<and> \<not> (error = 1 \<and> divisor > 2) then None
        else map_option
          (\<lambda>dir. case dir of
              Round_down \<Rightarrow> (Digits_done, h1)
            | Round_unknown \<Rightarrow> (Digits_error, h1)
            | Round_up \<Rightarrow> (Digits_done, h1\<lparr>fh_buf := round_up_digits (fh_buf h1)\<rparr>))
          (get_round_direction divisor remainder error))"

section \<open>The shortest representation\<close>

record shortest_handler =
  sh_buf :: string
  sh_diff :: u64

definition shortest_start :: "shortest_handler on_start" where
  "shortest_start h divisor remainder error exp = Some (Digits_more, h)"

definition pred_char :: "char \<Rightarrow> char" where
  "pred_char c = char_of (of_char c + 255 :: nat)"

text \<open>\<open>round\<close>: the last digit and the remainder.\<close>

partial_function (option) round_loop :: "u64 \<Rightarrow> u64 \<Rightarrow> u64 \<Rightarrow> char \<Rightarrow> u64 \<Rightarrow> (char \<times> u64) option" where
  "round_loop d divisor error c remainder =
     (if remainder < d \<and> error - remainder \<ge> divisor
         \<and> (remainder + divisor < d \<or> d - remainder \<ge> remainder + divisor - d)
      then round_loop d divisor error (pred_char c) (remainder + divisor) else Some (c, remainder))"

definition digit_unit :: "int \<Rightarrow> bool \<Rightarrow> u64 option" where
  "digit_unit exp integral =
     (if integral then Some 1
      else if 0 \<le> - exp \<and> nat (- exp) < length powers_of_10_64 then Some (powers_of_10_64 ! nat (- exp)) else None)"

definition shortest_digit :: "shortest_handler on_digit" where
  "shortest_digit h digit divisor remainder error exp integral =
     (if remainder \<ge> error then Some (Digits_more, h\<lparr>sh_buf := sh_buf h @ [digit]\<rparr>)
      else Option.bind (digit_unit exp integral) (\<lambda>unit.
        let up = (sh_diff h - 1) * unit; down = (sh_diff h + 1) * unit in
        map_option (\<lambda>(c, remainder).
            (if remainder < down \<and> error - remainder \<ge> divisor
                \<and> (remainder + divisor < down \<or> down - remainder > remainder + divisor - down)
             then Digits_error
             else if 2 * unit \<le> remainder \<and> remainder \<le> error - 4 * unit then Digits_done else Digits_error,
             h\<lparr>sh_buf := sh_buf h @ [c]\<rparr>))
          (round_loop up divisor error digit remainder)))"

section \<open>The exact conversion\<close>

text \<open>Numerator, denominator, lower and, where it differs from lower, upper.\<close>

type_synonym fallback_state = "bigint \<times> bigint \<times> bigint \<times> bigint option"

definition fallback_setup :: "u64 \<Rightarrow> int \<Rightarrow> (fp \<times> fallback_state) option" where
  "fallback_setup d exp10 =
     (let (v, closer) = fp_assign d;
          shift = (if closer then 2 else 1);
          significand = push_bit shift (fp_f v) in
      if fp_e v \<ge> 0 then
        (let e = nat (fp_e v) in
         Option.bind (big_shift e (big_assign significand)) (\<lambda>numerator.
         Option.bind (big_shift e (big_assign 1)) (\<lambda>lower.
         Option.bind (if shift \<noteq> 1 then map_option Some (big_shift (e + 1) (big_assign 1)) else Some None) (\<lambda>upper_store.
         if exp10 < 0 then None
         else
           Option.bind (assign_pow10 (nat exp10)) (\<lambda>p.
           map_option (\<lambda>denominator. (v, numerator, denominator, lower, upper_store)) (big_shift 1 p))))))
      else if exp10 < 0 then
        Option.bind (assign_pow10 (nat (- exp10))) (\<lambda>lower.
        Option.bind (if shift \<noteq> 1 then map_option Some (big_shift 1 lower) else Some None) (\<lambda>upper_store.
        map_option (\<lambda>denominator. (v, big_mul64 significand lower, denominator, lower, upper_store))
          (big_shift (shift + nat (- fp_e v)) (big_assign 1))))
      else
        Option.bind (assign_pow10 (nat exp10)) (\<lambda>p.
        map_option (\<lambda>denominator. (v, big_assign significand, denominator, big_assign 1,
            if shift \<noteq> 1 then Some (big_assign (push_bit 1 1)) else None))
          (big_shift (shift + nat (- fp_e v)) p)))"

partial_function (option) fallback_loop :: "bool \<Rightarrow> bigint \<Rightarrow> bigint \<Rightarrow> bigint \<Rightarrow> bigint option \<Rightarrow> string \<Rightarrow> string option" where
  "fallback_loop even_f denominator numerator lower upper out =
     Option.bind (divmod_assign numerator denominator) (\<lambda>(digit, rest).
       let e = (if even_f then 1 else 0);
           low = (big_compare rest lower - e < 0);
           high = (big_add_compare rest (case upper of None \<Rightarrow> lower | Some u \<Rightarrow> u) denominator + e > 0);
           c = digit_char digit in
       if low \<or> high then
         (if \<not> low then Some (out @ [succ_char c])
          else if high then
            (let result = big_add_compare rest rest denominator in
             Some (out @ [if result > 0 \<or> (result = 0 \<and> digit mod 2 \<noteq> 0) then succ_char c else c]))
          else Some (out @ [c]))
       else fallback_loop even_f denominator (big_mul32 10 rest) (big_mul32 10 lower)
              (map_option (big_mul32 10) upper) (out @ [c]))"

definition fallback_format :: "u64 \<Rightarrow> int \<Rightarrow> (int \<times> string) option" where
  "fallback_format d exp10 =
     Option.bind (fallback_setup d exp10) (\<lambda>(v, numerator, denominator, lower, upper).
       map_option (\<lambda>digits. (exp10 - (int (length digits) - 1), digits))
         (fallback_loop (fp_f v AND 1 = 0) denominator numerator lower upper []))"

declare fractional_loop.simps [code] round_loop.simps [code] fallback_loop.simps [code]

end
