(* ===== verification/Fmt_Pad.thy ===== *)
theory Fmt_Pad imports Fmt_Spec begin

text \<open>
  Padding in the formatting library (\<open>write_padded\<close> of spdlog/fmt/bundled/format.h, with the tables of
  format-inl.h), and what a writer takes from its environment.
\<close>

section \<open>Padding\<close>

definition align_index :: "align_t \<Rightarrow> nat" where
  "align_index a =
     (case a of Align_none \<Rightarrow> 0 | Align_left \<Rightarrow> 1 | Align_right \<Rightarrow> 2 | Align_center \<Rightarrow> 3 | Align_numeric \<Rightarrow> 4)"

definition left_padding_shifts :: "nat list" where "left_padding_shifts = [31, 31, 0, 1, 0]"
definition right_padding_shifts :: "nat list" where "right_padding_shifts = [0, 31, 0, 1, 0]"

definition fill_n :: "nat \<Rightarrow> string \<Rightarrow> string" where
  "fill_n n fill = concat (replicate n fill)"

definition write_padded :: "nat list \<Rightarrow> format_specs \<Rightarrow> nat \<Rightarrow> string \<Rightarrow> string" where
  "write_padded shifts specs width s =
     (let padding = (if spec_width specs > width then spec_width specs - width else 0);
          left_padding = padding div 2 ^ (shifts ! align_index (spec_align specs)) in
      fill_n left_padding (spec_fill specs) @ s @ fill_n (padding - left_padding) (spec_fill specs))"

section \<open>The environment\<close>

text \<open>
  The locale: sizes of the groups of digits (signed characters, 127 and values up to 0 end the grouping), the
  separator and the decimal point.  \<open>snprintf\<close>: for the capacity, the format, the precision and the number,
  its result and the text before any truncation.
\<close>

type_synonym snprintf_fn = "nat \<Rightarrow> string \<Rightarrow> int option \<Rightarrow> u64 \<Rightarrow> int \<times> string"

record fmt_locale =
  grouping :: "int list"
  thousands_sep :: char
  decimal_point :: char
  c_snprintf :: snprintf_fn

end
