(* ===== verification/Fmt_Float.thy ===== *)
theory Fmt_Float imports Fmt_Grisu Fmt_Pad begin

text \<open>
  Floating-point numbers as text (spdlog/fmt/bundled/format.h and format-inl.h): the conversion by \<open>snprintf\<close>,
  \<open>format_float\<close>, \<open>float_writer\<close>, the presentation types and \<open>write\<close> for a \<open>double\<close> or a promoted \<open>float\<close>.

  \<open>snprintf\<close> is an argument.
\<close>

section \<open>Specifiers\<close>

datatype float_format = General_format | Exp_format | Fixed_format | Hex_format

record float_specs =
  fs_precision :: int
  fs_format :: float_format
  fs_sign :: sign_t
  fs_upper :: bool
  fs_locale :: bool
  fs_binary32 :: bool
  fs_use_grisu :: bool
  fs_showpoint :: bool

definition default_float_specs :: float_specs where
  "default_float_specs = \<lparr>fs_precision = 0, fs_format = General_format, fs_sign = Sign_none, fs_upper = False,
     fs_locale = False, fs_binary32 = False, fs_use_grisu = False, fs_showpoint = False\<rparr>"

definition parse_float_type_spec :: "format_specs \<Rightarrow> float_specs fmt_result" where
  "parse_float_type_spec specs =
     (let t = spec_type specs; r = default_float_specs\<lparr>fs_showpoint := spec_alt specs\<rparr> in
      if t = CHR 0x00 then fmt_ok (r\<lparr>fs_format := General_format, fs_showpoint := spec_alt specs \<or> spec_precision specs > 0\<rparr>)
      else if t = CHR ''G'' \<or> t = CHR ''g'' then fmt_ok (r\<lparr>fs_upper := (t = CHR ''G''), fs_format := General_format\<rparr>)
      else if t = CHR ''E'' \<or> t = CHR ''e'' then
        fmt_ok (r\<lparr>fs_upper := (t = CHR ''E''), fs_format := Exp_format, fs_showpoint := spec_alt specs \<or> spec_precision specs \<noteq> 0\<rparr>)
      else if t = CHR ''F'' \<or> t = CHR ''f'' then
        fmt_ok (r\<lparr>fs_upper := (t = CHR ''F''), fs_format := Fixed_format, fs_showpoint := spec_alt specs \<or> spec_precision specs \<noteq> 0\<rparr>)
      else if t = CHR ''A'' \<or> t = CHR ''a'' then fmt_ok (r\<lparr>fs_upper := (t = CHR ''A''), fs_format := Hex_format\<rparr>)
      else if t = CHR ''L'' then fmt_ok (r\<lparr>fs_locale := True\<rparr>)
      else fmt_err ''invalid type specifier'')"

section \<open>Conversion by snprintf\<close>

definition snprintf_format :: "int \<Rightarrow> float_specs \<Rightarrow> string" where
  "snprintf_format precision specs =
     ''%'' @ (if fs_showpoint specs \<and> fs_format specs = Hex_format then ''#'' else [])
       @ (if precision \<ge> 0 then ''.*'' else [])
       @ (if fs_format specs \<noteq> Hex_format then (if fs_format specs = Fixed_format then ''f'' else ''e'')
          else (if fs_upper specs then ''A'' else ''a''))"

text \<open>\<open>reserve\<close> and \<open>grow\<close> of \<open>basic_memory_buffer\<close>: the new capacity.\<close>

definition reserve_capacity :: "nat \<Rightarrow> nat \<Rightarrow> nat" where
  "reserve_capacity capacity sz = (if sz > capacity then max sz (capacity + capacity div 2) else capacity)"

partial_function (option) snprintf_loop ::
  "snprintf_fn \<Rightarrow> nat \<Rightarrow> string \<Rightarrow> int option \<Rightarrow> u64 \<Rightarrow> nat \<Rightarrow> string option" where
  "snprintf_loop snprintf offset format precision d capacity =
     (let (result, txt) = snprintf (capacity - offset) format precision d in
      if result < 0 then snprintf_loop snprintf offset format precision d (reserve_capacity capacity (capacity + 1))
      else if nat result \<ge> capacity - offset
      then snprintf_loop snprintf offset format precision d (reserve_capacity capacity (nat result + offset + 1))
      else Some txt)"

definition strip_zeros :: "string \<Rightarrow> string" where
  "strip_zeros s = rev (dropWhile (\<lambda>c. c = CHR ''0'') (rev s))"

text \<open>The text of \<open>%f\<close>: the decimal point is removed.  \<open>pre\<close> is what the buffer held before.\<close>

definition fixed_digits :: "string \<Rightarrow> string \<Rightarrow> (int \<times> string) option" where
  "fixed_digits pre txt =
     (let frac = rev (takeWhile is_digit (rev txt)); front = rev (dropWhile is_digit (rev txt)) in
      if front = [] then None
      else Some (- int (length frac), take (length txt - 1) (pre @ butlast front @ frac @ [last txt])))"

text \<open>The text of \<open>%e\<close>: mantissa, \<open>e\<close>, sign and digits of the exponent.\<close>

definition exp_digits :: "string \<Rightarrow> string \<Rightarrow> (int \<times> string) option" where
  "exp_digits pre txt =
     (let after = rev (takeWhile (\<lambda>c. c \<noteq> CHR ''e'') (rev txt)); rest = dropWhile (\<lambda>c. c \<noteq> CHR ''e'') (rev txt);
          mantissa = rev (tl rest) in
      if rest = [] \<or> mantissa = [] \<or> length after < 2 \<or> hd after \<notin> {CHR ''+'', CHR ''-''} \<or> \<not> list_all is_digit (tl after)
      then None
      else
        let e0 = foldl (\<lambda>v c. v * 10 + int (digit_value c)) 0 (tl after);
            e = (if hd after = CHR ''-'' then - e0 else e0) in
        if length mantissa = 1 then Some (e, pre @ mantissa)
        else
          let k = length (strip_zeros mantissa) in
          if k < 2 then None
          else Some (e - int (k - 2), pre @ take 1 mantissa @ take (k - 2) (drop 2 mantissa)))"

definition snprintf_float :: "snprintf_fn \<Rightarrow> u64 \<Rightarrow> int \<Rightarrow> float_specs \<Rightarrow> string \<Rightarrow> (int \<times> string) option" where
  "snprintf_float snprintf d precision specs pre =
     (let precision1 = (if fs_format specs = General_format \<or> fs_format specs = Exp_format
                        then (if precision \<ge> 0 then precision else 6) - 1 else precision);
          precision_arg = (if precision1 \<ge> 0 then Some precision1 else None) in
      if length pre \<ge> 500 then None
      else Option.bind (snprintf_loop snprintf (length pre) (snprintf_format precision1 specs) precision_arg d 500)
        (\<lambda>txt.
          if fs_format specs = Fixed_format then
            (if precision1 = 0 then Some (0, take (length txt) (pre @ txt)) else fixed_digits pre txt)
          else if fs_format specs = Hex_format then Some (0, pre @ txt)
          else exp_digits pre txt))"

section \<open>format_float\<close>

text \<open>A zero of either sign; a negative number.\<close>

definition is_zero :: "u64 \<Rightarrow> bool" where
  "is_zero d \<longleftrightarrow> d AND (push_bit 63 1 - 1) = 0"

definition sign_bit :: "u64 \<Rightarrow> bool" where
  "sign_bit d \<longleftrightarrow> d AND push_bit 63 1 \<noteq> 0"

text \<open>\<open>min_exp\<close> is -60, the size of a significand 64.\<close>

definition shortest_digits :: "bool \<Rightarrow> u64 \<Rightarrow> (int \<times> string) option" where
  "shortest_digits binary32 d =
     Option.bind (if binary32 then assign_float_with_boundaries d else assign_with_boundaries d) (\<lambda>(v, b).
       Option.bind (fp_normalize 0 v) (\<lambda>v1.
         Option.bind (get_cached_power (- 60 - (fp_e v1 + 64))) (\<lambda>(cached_pow, cached_exp10).
           let v2 = fp_mult v1 cached_pow;
               lower = multiply128 (lower_bound b) (fp_f cached_pow) - 1;
               upper = multiply128 (upper_bound b) (fp_f cached_pow) + 1 in
           if \<not> (- 60 \<le> fp_e v2 \<and> fp_e v2 \<le> - 32) then None
           else Option.bind
             (grisu_gen_digits shortest_start shortest_digit (make_fp upper (fp_e v2)) (upper - lower)
               \<lparr>sh_buf = [], sh_diff = upper - fp_f v2\<rparr>)
             (\<lambda>(r, exp, h).
               if r = Digits_error then fallback_format d (exp + int (length (sh_buf h)) - cached_exp10 - 1)
               else Some (exp - cached_exp10, sh_buf h)))))"

text \<open>Trailing zeros are removed, each with one more in the exponent.\<close>

definition fixed_precision_digits ::
  "(int \<times> string) option \<Rightarrow> u64 \<Rightarrow> int \<Rightarrow> bool \<Rightarrow> (int \<times> string) option" where
  "fixed_precision_digits by_snprintf d precision fixed =
     Option.bind (fp_normalize 0 (fst (fp_assign d))) (\<lambda>v.
       Option.bind (get_cached_power (- 60 - (fp_e v + 64))) (\<lambda>(cached_pow, cached_exp10).
         Option.bind
           (grisu_gen_digits fixed_start fixed_digit (fp_mult v cached_pow) 1
             \<lparr>fh_buf = [], fh_precision = precision, fh_exp10 = - cached_exp10, fh_fixed = fixed\<rparr>)
           (\<lambda>(r, exp, h).
             if r = Digits_error then by_snprintf
             else if fixed then Some (exp - cached_exp10, fh_buf h)
             else
               let digits = strip_zeros (fh_buf h) in
               Some (exp + int (length (fh_buf h) - length digits) - cached_exp10, digits))))"

definition format_float :: "snprintf_fn \<Rightarrow> u64 \<Rightarrow> int \<Rightarrow> float_specs \<Rightarrow> (int \<times> string) option" where
  "format_float snprintf d precision specs =
     (let fixed = (fs_format specs = Fixed_format); by_snprintf = snprintf_float snprintf d precision specs [] in
      if sign_bit d \<and> \<not> is_zero d then None
      else if is_zero d then
        (if precision \<le> 0 \<or> \<not> fixed then Some (0, ''0'') else Some (- precision, replicate (nat precision) (CHR ''0'')))
      else if \<not> fs_use_grisu specs then by_snprintf
      else if precision < 0 then shortest_digits (fs_binary32 specs) d
      else if precision > 17 then by_snprintf
      else fixed_precision_digits by_snprintf d precision fixed)"

section \<open>float_writer\<close>

definition zeros :: "int \<Rightarrow> string" where
  "zeros n = replicate (nat n) (CHR ''0'')"

definition write_exponent :: "int \<Rightarrow> string option" where
  "write_exponent exp =
     (if \<not> (- 10000 < exp \<and> exp < 10000) then None
      else
        let e = nat \<bar>exp\<bar>; top = digit_pair (e div 100) in
        Some ((if exp < 0 then ''-'' else ''+'')
          @ (if e \<ge> 100 then (if e \<ge> 1000 then [top ! 0] else []) @ [top ! 1] else [])
          @ digit_pair (e mod 100)))"

definition prettify :: "string \<Rightarrow> int \<Rightarrow> float_specs \<Rightarrow> char \<Rightarrow> string option" where
  "prettify digits exp specs point =
     (let num_digits = int (length digits); full_exp = num_digits + exp in
      if fs_format specs = Exp_format then
        (if digits = [] then None
         else map_option
           (\<lambda>e. take 1 digits @ (if num_digits > 1 \<or> fs_showpoint specs then [point] else []) @ drop 1 digits
             @ (if fs_showpoint specs then zeros (fs_precision specs - num_digits) else [])
             @ (if fs_upper specs then ''E'' else ''e'') @ e)
           (write_exponent (full_exp - 1)))
      else if num_digits \<le> full_exp then
        Some (digits @ zeros (full_exp - num_digits)
          @ (if fs_showpoint specs \<or> fs_precision specs < 0 then
               [point] @ (if fs_precision specs - full_exp \<le> 0
                          then (if fs_format specs \<noteq> Fixed_format then ''0'' else [])
                          else zeros (fs_precision specs - full_exp))
             else []))
      else if full_exp > 0 then
        (let front = take (nat full_exp) digits; rest = drop (nat full_exp) digits in
         if \<not> fs_showpoint specs
         then Some (front @ (if strip_zeros rest \<noteq> [] then [point] else []) @ strip_zeros rest)
         else Some (front @ [point] @ rest @ zeros (fs_precision specs - num_digits)))
      else
        (let num_zeros = (if digits = [] \<and> fs_precision specs \<ge> 0 \<and> fs_precision specs < - full_exp
                          then fs_precision specs else - full_exp);
             digits1 = (if fs_showpoint specs then digits else strip_zeros digits) in
         Some (''0'' @ (if num_zeros \<noteq> 0 \<or> digits1 \<noteq> [] \<or> fs_showpoint specs
                        then [point] @ zeros num_zeros @ digits1 else []))))"

definition sign_char :: "sign_t \<Rightarrow> char" where
  "sign_char s = (case s of Sign_none \<Rightarrow> CHR 0x00 | Sign_minus \<Rightarrow> CHR ''-'' | Sign_plus \<Rightarrow> CHR ''+'' | Sign_space \<Rightarrow> CHR '' '')"

definition sign_text :: "sign_t \<Rightarrow> string" where
  "sign_text s = (if s \<noteq> Sign_none then [sign_char s] else [])"

text \<open>The constructor, then the output; its length is \<open>size()\<close>.\<close>

definition float_writer :: "string \<Rightarrow> int \<Rightarrow> float_specs \<Rightarrow> char \<Rightarrow> string option" where
  "float_writer digits exp specs point =
     (let full_exp = int (length digits) + exp - 1;
          precision = (if fs_precision specs > 0 then fs_precision specs else 16);
          specs1 = (if fs_format specs = General_format \<and> \<not> (full_exp \<ge> - 4 \<and> full_exp < precision)
                    then specs\<lparr>fs_format := Exp_format\<rparr> else specs) in
      map_option (\<lambda>t. sign_text (fs_sign specs) @ t) (prettify digits exp specs1 point))"

section \<open>write\<close>

definition is_finite :: "u64 \<Rightarrow> bool" where
  "is_finite d \<longleftrightarrow> biased_exponent d \<noteq> 0x7FF"

definition is_inf :: "u64 \<Rightarrow> bool" where
  "is_inf d \<longleftrightarrow> biased_exponent d = 0x7FF \<and> d AND (implicit_bit - 1) = 0"

text \<open>The \<open>double\<close> with the value of a \<open>float\<close>; the top bit of a denormal significand becomes implicit.\<close>

definition promote_float :: "u32 \<Rightarrow> u64" where
  "promote_float x =
     (let s = push_bit 63 (drop_bit 31 (ucast x) AND 1 :: u64);
          e = drop_bit 23 (ucast x) AND 0xFF;
          m = ucast x AND (push_bit 23 1 - 1) in
      s OR (if e = 0xFF then push_bit 52 0x7FF OR push_bit 29 m
            else if e \<noteq> 0 then push_bit 52 (e + 896) OR push_bit 29 m
            else if m = 0 then 0
            else
              let k = bit_length (unat m) - 1 in
              push_bit 52 (of_nat (k + 874)) + push_bit (52 - k) m - implicit_bit))"

definition write_nonfinite :: "bool \<Rightarrow> format_specs \<Rightarrow> float_specs \<Rightarrow> string" where
  "write_nonfinite isinf specs fspecs =
     (let str = (if isinf then (if fs_upper fspecs then ''INF'' else ''inf'')
                 else (if fs_upper fspecs then ''NAN'' else ''nan'')) in
      write_padded left_padding_shifts specs (3 + (if fs_sign fspecs \<noteq> Sign_none then 1 else 0))
        (sign_text (fs_sign fspecs) @ str))"

text \<open>\<open>flip\<close> is the negation of a number.\<close>

definition flip :: "u64 \<Rightarrow> u64" where
  "flip d = d XOR push_bit 63 1"

definition write_float_digits :: "fmt_locale \<Rightarrow> bool \<Rightarrow> u64 \<Rightarrow> format_specs \<Rightarrow> float_specs \<Rightarrow> string fmt_result" where
  "write_float_digits loc binary32 d specs fspecs =
     (if fs_format fspecs = Hex_format then
        map_option (\<lambda>(e, buf). Inr (write_padded left_padding_shifts specs (length buf) buf))
          (snprintf_float (c_snprintf loc) d (spec_precision specs) fspecs (sign_text (fs_sign fspecs)))
      else
        let precision = (if spec_precision specs \<ge> 0 \<or> spec_type specs = CHR 0x00 then spec_precision specs else 6) in
        if fs_format fspecs = Exp_format \<and> precision = int max_int then fmt_err ''number is too big''
        else
          let precision1 = (if fs_format fspecs = Exp_format then precision + 1 else precision);
              fspecs1 = fspecs\<lparr>fs_binary32 := binary32, fs_use_grisu := True\<rparr>;
              point = (if fs_locale fspecs then decimal_point loc else CHR ''.'') in
          Option.bind (format_float (c_snprintf loc) d precision1 fspecs1) (\<lambda>(e, digits).
            map_option (\<lambda>t. Inr (write_padded right_padding_shifts specs (length t) t))
              (float_writer digits e (fspecs1\<lparr>fs_precision := precision1\<rparr>) point)))"

definition write_float :: "fmt_locale \<Rightarrow> bool \<Rightarrow> u64 \<Rightarrow> format_specs \<Rightarrow> string fmt_result" where
  "write_float loc binary32 d specs =
     fmt_bind (parse_float_type_spec specs) (\<lambda>fs.
       let sign = (if sign_bit d then Sign_minus else if spec_sign specs = Sign_minus then Sign_none else spec_sign specs);
           v = (if sign_bit d then flip d else d) in
       if \<not> is_finite v then fmt_ok (write_nonfinite (is_inf v) specs (fs\<lparr>fs_sign := sign\<rparr>))
       else if spec_align specs = Align_numeric \<and> sign \<noteq> Sign_none then
         map_option (map_sum id (\<lambda>t. [sign_char sign] @ t))
           (write_float_digits loc binary32 v (specs\<lparr>spec_width := spec_width specs - 1\<rparr>) (fs\<lparr>fs_sign := Sign_none\<rparr>))
       else write_float_digits loc binary32 v specs (fs\<lparr>fs_sign := sign\<rparr>))"

definition write_float_default :: "fmt_locale \<Rightarrow> bool \<Rightarrow> u64 \<Rightarrow> string fmt_result" where
  "write_float_default loc binary32 d =
     (let sign = (if sign_bit d then Sign_minus else Sign_none);
          v = (if sign_bit d then flip d else d);
          fs = default_float_specs\<lparr>fs_sign := sign\<rparr>;
          fs1 = fs\<lparr>fs_binary32 := binary32, fs_use_grisu := True\<rparr> in
      if \<not> is_finite v then fmt_ok (write_nonfinite (is_inf v) default_specs fs)
      else Option.bind (format_float (c_snprintf loc) v (- 1) fs1) (\<lambda>(e, digits).
        map_option Inr (float_writer digits e (fs1\<lparr>fs_precision := - 1\<rparr>) (CHR ''.''))))"

declare snprintf_loop.simps [code]

end
