(* ===== verification/Fmt_Write.thy ===== *)
theory Fmt_Write imports Fmt_Float begin

text \<open>
  The writers of the formatting library: what an argument becomes, with specifiers
  (\<open>arg_formatter_base\<close>, \<open>int_writer\<close>, \<open>write_padded\<close>) and without (\<open>default_arg_formatter\<close>), from format.h and
  format-inl.h.  A writer is the text it appends to the output.

  \<open>None\<close> is undefined behaviour: a write outside of a buffer, or output of bytes that were never written.
\<close>

section \<open>Digits\<close>

lemma shift_less:
  assumes "\<not> ((bits :: nat) = 0 \<or> n div 2 ^ bits = 0)"
  shows "n div 2 ^ bits < (n :: nat)"
proof (rule div_less_dividend)
  show "1 < (2 :: nat) ^ bits" using assms by (intro one_less_power) auto
  show "0 < n" using assms by (cases n) auto
qed

text \<open>\<open>count_digits<BITS>\<close>; BITS is 1, 3 or 4.\<close>

function count_digits_base :: "nat \<Rightarrow> nat \<Rightarrow> nat" where
  "count_digits_base bits n = (if bits = 0 \<or> n div 2 ^ bits = 0 then 1 else 1 + count_digits_base bits (n div 2 ^ bits))"
  by pat_completeness auto
termination by (relation "measure snd") (auto intro: shift_less)

definition uint_digit :: "nat \<Rightarrow> bool \<Rightarrow> nat \<Rightarrow> char" where
  "uint_digit bits upper d =
     (if bits < 4 then char_of (48 + d)
      else if upper then ''0123456789ABCDEF'' ! d else ''0123456789abcdef'' ! d)"

function uint_loop :: "nat \<Rightarrow> bool \<Rightarrow> nat \<Rightarrow> string \<Rightarrow> string" where
  "uint_loop bits upper v out =
     (let out1 = uint_digit bits upper (v mod 2 ^ bits) # out in
      if bits = 0 \<or> v div 2 ^ bits = 0 then out1 else uint_loop bits upper (v div 2 ^ bits) out1)"
  by pat_completeness auto
termination by (relation "measure (\<lambda>(bits, upper, v, out). v)") (auto intro: shift_less)

declare count_digits_base.simps [simp del] uint_loop.simps [simp del]

text \<open>
  The digits are written backwards from position \<open>num_digits\<close> of a buffer, of which \<open>num_digits\<close> characters are
  copied: with another number of digits bytes outside are written, or unwritten ones copied.
\<close>

definition exactly :: "nat \<Rightarrow> string \<Rightarrow> string option" where
  "exactly num_digits ds = (if length ds = num_digits then Some ds else None)"

definition format_uint :: "nat \<Rightarrow> nat \<Rightarrow> nat \<Rightarrow> bool \<Rightarrow> string option" where
  "format_uint bits v num_digits upper = exactly num_digits (uint_loop bits upper v [])"

text \<open>The unsigned type of an integer; 32-bit values have a \<open>count_digits\<close> of their own.\<close>

datatype fmt_uint = Fmt_u32 u32 | Fmt_u64 u64

fun uint_value :: "fmt_uint \<Rightarrow> nat" where
  "uint_value (Fmt_u32 n) = unat n"
| "uint_value (Fmt_u64 n) = unat n"

definition clz32 :: "u32 \<Rightarrow> nat" where
  "clz32 n = 32 - bit_length (unat n)"

definition count_digits_clz32 :: "u32 \<Rightarrow> nat" where
  "count_digits_clz32 n =
     (let t = (32 - clz32 (n OR 1)) * 1233 div 2 ^ 12 in
      t - (if unat n < zero_or_powers_of_10 t then 1 else 0) + 1)"

fun count_digits_uint :: "fmt_uint \<Rightarrow> nat" where
  "count_digits_uint (Fmt_u32 n) = count_digits_clz32 n"
| "count_digits_uint (Fmt_u64 n) = count_digits_clz n"

definition decimal_digits :: "fmt_uint \<Rightarrow> nat \<Rightarrow> string option" where
  "decimal_digits v num_digits = exactly num_digits (format_decimal (uint_value v))"

section \<open>Integers\<close>

text \<open>Size and zero padding.\<close>

definition write_int_data :: "nat \<Rightarrow> string \<Rightarrow> format_specs \<Rightarrow> nat \<times> nat" where
  "write_int_data num_digits prefix specs =
     (let sz = length prefix + num_digits in
      if spec_align specs = Align_numeric then
        (if spec_width specs > sz then (spec_width specs, spec_width specs - sz) else (sz, 0))
      else if spec_precision specs > int num_digits then
        (length prefix + nat (spec_precision specs), nat (spec_precision specs - int num_digits))
      else (sz, 0))"

definition write_int :: "nat \<Rightarrow> string \<Rightarrow> format_specs \<Rightarrow> string option \<Rightarrow> string option" where
  "write_int num_digits prefix specs digits =
     map_option (\<lambda>ds.
         let (sz, padding) = write_int_data num_digits prefix specs in
         write_padded right_padding_shifts specs sz (prefix @ replicate padding (CHR ''0'') @ ds))
       digits"

text \<open>The constructor of \<open>int_writer\<close>: absolute value and sign.\<close>

definition sign_prefix :: "bool \<Rightarrow> format_specs \<Rightarrow> string" where
  "sign_prefix negative specs =
     (if negative then ''-''
      else if spec_sign specs \<noteq> Sign_none \<and> spec_sign specs \<noteq> Sign_minus
      then (if spec_sign specs = Sign_plus then ''+'' else '' '') else [])"

definition on_dec :: "fmt_uint \<Rightarrow> string \<Rightarrow> format_specs \<Rightarrow> string option" where
  "on_dec v prefix specs =
     (let num_digits = count_digits_uint v in write_int num_digits prefix specs (decimal_digits v num_digits))"

definition on_hex :: "fmt_uint \<Rightarrow> string \<Rightarrow> format_specs \<Rightarrow> string option" where
  "on_hex v prefix specs =
     (let prefix1 = (if spec_alt specs then prefix @ [CHR ''0'', spec_type specs] else prefix);
          num_digits = count_digits_base 4 (uint_value v) in
      write_int num_digits prefix1 specs (format_uint 4 (uint_value v) num_digits (spec_type specs \<noteq> CHR ''x'')))"

definition on_bin :: "fmt_uint \<Rightarrow> string \<Rightarrow> format_specs \<Rightarrow> string option" where
  "on_bin v prefix specs =
     (let prefix1 = (if spec_alt specs then prefix @ [CHR ''0'', spec_type specs] else prefix);
          num_digits = count_digits_base 1 (uint_value v) in
      write_int num_digits prefix1 specs (format_uint 1 (uint_value v) num_digits False))"

definition on_oct :: "fmt_uint \<Rightarrow> string \<Rightarrow> format_specs \<Rightarrow> string option" where
  "on_oct v prefix specs =
     (let num_digits = count_digits_base 3 (uint_value v);
          prefix1 = (if spec_alt specs \<and> spec_precision specs \<le> int num_digits \<and> uint_value v \<noteq> 0
                     then prefix @ ''0'' else prefix) in
      write_int num_digits prefix1 specs (format_uint 3 (uint_value v) num_digits False))"

text \<open>The size of the buffer: the loop over the groups, and what is left after the last one.\<close>

fun group_size :: "int list \<Rightarrow> int \<Rightarrow> int \<Rightarrow> int \<times> int \<times> bool" where
  "group_size [] sz n = (sz, n, True)"
| "group_size (g # gs) sz n =
     (if n > g \<and> g > 0 \<and> g \<noteq> 127 then group_size gs (sz + 1) (n - g) else (sz, n, False))"

definition grouped_size :: "int list \<Rightarrow> nat \<Rightarrow> nat" where
  "grouped_size groups num_digits =
     (case group_size groups (int num_digits) (int num_digits) of
        (sz, n, all) \<Rightarrow> nat (if all then sz + (n - 1) div last groups else sz))"

text \<open>A character in front of what was written; \<open>sz\<close> is the length of the buffer.\<close>

definition put_front :: "nat \<Rightarrow> char \<Rightarrow> string \<Rightarrow> string option" where
  "put_front sz c out = (if length out < sz then Some (c # out) else None)"

text \<open>The digits come in reverse, the buffer is filled from its end.\<close>

fun num_loop :: "char \<Rightarrow> nat \<Rightarrow> int list \<Rightarrow> int \<Rightarrow> string \<Rightarrow> string \<Rightarrow> string option" where
  "num_loop sep sz gs k [] out = Some out"
| "num_loop sep sz gs k (d # ds) out =
     Option.bind (put_front sz d out) (\<lambda>out1.
       if hd gs \<le> 0 then num_loop sep sz gs k ds out1
       else if (k + 1) mod hd gs \<noteq> 0 \<or> hd gs = 127 then num_loop sep sz gs (k + 1) ds out1
       else
         let (k1, gs1) = (if tl gs \<noteq> [] then (0, tl gs) else (k + 1, gs)) in
         Option.bind (put_front sz sep out1) (num_loop sep sz gs1 k1 ds))"

definition on_num :: "fmt_locale \<Rightarrow> fmt_uint \<Rightarrow> string \<Rightarrow> format_specs \<Rightarrow> string option" where
  "on_num loc v prefix specs =
     (if grouping loc = [] \<or> thousands_sep loc = CHR 0x00 then on_dec v prefix specs
      else
        let num_digits = count_digits_uint v;
            sz = grouped_size (grouping loc) num_digits + length prefix in
        Option.bind (decimal_digits v num_digits) (\<lambda>digits.
          Option.bind (num_loop (thousands_sep loc) sz (grouping loc) 0 (rev digits) []) (\<lambda>out.
            Option.bind (if prefix \<noteq> [] then put_front sz (CHR ''-'') out else Some out) (\<lambda>out1.
              map_option (write_padded right_padding_shifts specs sz) (exactly sz out1)))))"

text \<open>\<open>handle_int_type_spec\<close>; \<open>on_chr\<close> writes a character without padding.\<close>

definition handle_int_type :: "fmt_locale \<Rightarrow> fmt_uint \<Rightarrow> string \<Rightarrow> format_specs \<Rightarrow> string fmt_result" where
  "handle_int_type loc v prefix specs =
     (let t = spec_type specs in
      if t = CHR 0x00 \<or> t = CHR ''d'' then map_option Inr (on_dec v prefix specs)
      else if t = CHR ''x'' \<or> t = CHR ''X'' then map_option Inr (on_hex v prefix specs)
      else if t = CHR ''b'' \<or> t = CHR ''B'' then map_option Inr (on_bin v prefix specs)
      else if t = CHR ''o'' then map_option Inr (on_oct v prefix specs)
      else if t = CHR ''L'' then map_option Inr (on_num loc v prefix specs)
      else if t = CHR ''c'' then fmt_ok [char_of (uint_value v)]
      else fmt_err ''invalid type specifier'')"

definition abs32 :: "u32 \<Rightarrow> fmt_uint" where
  "abs32 i = Fmt_u32 (if sint i < 0 then 0 - i else i)"

definition abs64 :: "u64 \<Rightarrow> fmt_uint" where
  "abs64 i = Fmt_u64 (if sint i < 0 then 0 - i else i)"

definition write_integer :: "fmt_locale \<Rightarrow> bool \<Rightarrow> fmt_uint \<Rightarrow> format_specs \<Rightarrow> string fmt_result" where
  "write_integer loc negative v specs = handle_int_type loc v (sign_prefix negative specs) specs"

section \<open>Other arguments\<close>

text \<open>The width counts code points, the precision bytes (\<open>code_point_index\<close> of \<open>char\<close>).\<close>

definition count_code_points :: "string \<Rightarrow> nat" where
  "count_code_points s = length (filter (\<lambda>c. \<not> is_continuation c) s)"

definition write_string :: "format_specs \<Rightarrow> string \<Rightarrow> string" where
  "write_string specs s =
     (let s1 = (if spec_precision specs \<ge> 0 \<and> nat (spec_precision specs) < length s
                then take (nat (spec_precision specs)) s else s);
          width = (if spec_width specs \<noteq> 0 then count_code_points s1 else 0) in
      write_padded left_padding_shifts specs width s1)"

definition write_char :: "format_specs \<Rightarrow> char \<Rightarrow> string" where
  "write_char specs c = write_padded left_padding_shifts specs 1 [c]"

definition pointer_text :: "u64 \<Rightarrow> string option" where
  "pointer_text p = map_option (\<lambda>ds. ''0x'' @ ds) (format_uint 4 (unat p) (count_digits_base 4 (unat p)) False)"

definition write_ptr :: "format_specs \<Rightarrow> u64 \<Rightarrow> string option" where
  "write_ptr specs p =
     map_option (write_padded right_padding_shifts specs (count_digits_base 4 (unat p) + 2)) (pointer_text p)"

text \<open>A \<open>char\<close> is signed.\<close>

definition char_int :: "char \<Rightarrow> u32" where
  "char_int c = scast (of_char c :: 8 word)"

definition handle_char :: "fmt_locale \<Rightarrow> format_specs \<Rightarrow> char \<Rightarrow> string fmt_result" where
  "handle_char loc specs c =
     (if spec_type specs \<noteq> CHR 0x00 \<and> spec_type specs \<noteq> CHR ''c''
      then write_integer loc (sint (char_int c) < 0) (abs32 (char_int c)) specs
      else if spec_align specs = Align_numeric \<or> spec_sign specs \<noteq> Sign_none \<or> spec_alt specs
      then fmt_err ''invalid format specifier for char''
      else fmt_ok (write_char specs c))"

definition bool_text :: "bool \<Rightarrow> string" where
  "bool_text b = (if b then ''true'' else ''false'')"

fun write_arg :: "fmt_locale \<Rightarrow> format_specs \<Rightarrow> fmt_arg \<Rightarrow> string fmt_result" where
  "write_arg loc specs (Int_arg i) = write_integer loc (sint i < 0) (abs32 i) specs"
| "write_arg loc specs (Uint_arg u) = write_integer loc False (Fmt_u32 u) specs"
| "write_arg loc specs (Long_long_arg i) = write_integer loc (sint i < 0) (abs64 i) specs"
| "write_arg loc specs (Ulong_long_arg u) = write_integer loc False (Fmt_u64 u) specs"
| "write_arg loc specs (Bool_arg b) =
     (if spec_type specs \<noteq> CHR 0x00 then write_integer loc False (Fmt_u32 (if b then 1 else 0)) specs
      else fmt_ok (write_string specs (bool_text b)))"
| "write_arg loc specs (Char_arg c) = handle_char loc specs c"
| "write_arg loc specs (Cstring_arg p s) =
     (if spec_type specs = CHR 0x00 \<or> spec_type specs = CHR ''s'' then
        (if p = 0 then fmt_err ''string pointer is null'' else fmt_ok (write_string specs s))
      else if spec_type specs = CHR ''p'' then map_option Inr (write_ptr specs p)
      else fmt_err ''invalid type specifier'')"
| "write_arg loc specs (String_arg s) =
     (if spec_type specs \<noteq> CHR 0x00 \<and> spec_type specs \<noteq> CHR ''s'' then fmt_err ''invalid type specifier''
      else fmt_ok (write_string specs s))"
| "write_arg loc specs (Float_arg x) = write_float loc True (promote_float x) specs"
| "write_arg loc specs (Double_arg x) = write_float loc False x specs"
| "write_arg loc specs (Pointer_arg p) =
     (if spec_type specs \<noteq> CHR 0x00 \<and> spec_type specs \<noteq> CHR ''p'' then fmt_err ''invalid type specifier''
      else map_option Inr (write_ptr specs p))"

section \<open>Without specifiers\<close>

definition default_integer :: "bool \<Rightarrow> fmt_uint \<Rightarrow> string fmt_result" where
  "default_integer negative v =
     map_option (\<lambda>ds. Inr ((if negative then ''-'' else []) @ ds)) (decimal_digits v (count_digits_uint v))"

fun write_default :: "fmt_locale \<Rightarrow> fmt_arg \<Rightarrow> string fmt_result" where
  "write_default loc (Int_arg i) = default_integer (sint i < 0) (abs32 i)"
| "write_default loc (Uint_arg u) = default_integer False (Fmt_u32 u)"
| "write_default loc (Long_long_arg i) = default_integer (sint i < 0) (abs64 i)"
| "write_default loc (Ulong_long_arg u) = default_integer False (Fmt_u64 u)"
| "write_default loc (Bool_arg b) = fmt_ok (bool_text b)"
| "write_default loc (Char_arg c) = fmt_ok [c]"
| "write_default loc (Cstring_arg p s) = (if p = 0 then fmt_err ''string pointer is null'' else fmt_ok s)"
| "write_default loc (String_arg s) = fmt_ok s"
| "write_default loc (Pointer_arg p) = map_option Inr (pointer_text p)"
| "write_default loc (Float_arg x) = write_float_default loc True (promote_float x)"
| "write_default loc (Double_arg x) = write_float_default loc False x"

section \<open>Facts\<close>

lemma length_uint_loop: "length (uint_loop bits upper v out) = count_digits_base bits v + length out"
proof (induction bits upper v out rule: uint_loop.induct)
  case (1 bits upper v out)
  show ?case
    by (subst uint_loop.simps, subst count_digits_base.simps) (auto simp: Let_def 1)
qed

lemma format_uint_count: "format_uint bits v (count_digits_base bits v) upper = Some (uint_loop bits upper v [])"
  by (simp add: format_uint_def exactly_def length_uint_loop)

lemma bit_length_or_1_le:
  assumes "n < 2 ^ k" "0 < k"
  shows "bit_length (n OR 1) \<le> k"
proof (cases "n = 0")
  case True
  then show ?thesis using assms(2) by (simp add: bit_length.simps)
next
  case False
  from bit_length_or_1 [OF this refl] have l: "0 < bit_length (n OR 1)" "2 ^ (bit_length (n OR 1) - 1) \<le> n" by simp_all
  then have "(2 :: nat) ^ (bit_length (n OR 1) - 1) < 2 ^ k" using assms(1) by linarith
  then have "bit_length (n OR 1) - 1 < k" by (subst (asm) power_strict_increasing_iff) simp_all
  with l(1) show ?thesis by linarith
qed

lemma count_digits_clz32_length: "count_digits_clz32 n = length (dec (unat n))"
proof -
  define l where "l = bit_length (unat n OR 1)"
  have n: "unat n < 2 ^ 32" using unsigned_less [of n, where 'a = nat] by simp
  then have u: "unat (ucast n :: u64) = unat n" by (simp add: unsigned_ucast_eq take_bit_nat_eq_self_iff)
  from bit_length_or_1_le [OF n] have "l \<le> 32" by (simp add: l_def)
  then have e: "32 - clz32 (n OR 1) = l" "64 - clz64 ((ucast n :: u64) OR 1) = l"
    unfolding clz32_def clz64_def unsigned_or_eq u by (simp_all add: l_def)
  have "count_digits_clz32 n = count_digits_clz (ucast n)"
    unfolding count_digits_clz32_def count_digits_clz_def e u ..
  then show ?thesis by (simp add: count_digits_clz_length u)
qed

lemma count_digits_uint_length: "count_digits_uint v = length (dec (uint_value v))"
  by (cases v) (simp_all add: count_digits_clz_length count_digits_clz32_length)

lemma decimal_digits_count: "decimal_digits v (count_digits_uint v) = Some (dec (uint_value v))"
  by (simp add: decimal_digits_def exactly_def count_digits_uint_length format_decimal_dec)

text \<open>The number that digits of a base denote.\<close>

definition hex_value :: "char \<Rightarrow> nat" where
  "hex_value c = (let k = of_char c in if k < 58 then k - 48 else if k < 91 then k - 55 else k - 87)"

definition base_value :: "nat \<Rightarrow> nat \<Rightarrow> string \<Rightarrow> nat" where
  "base_value b v ds = foldl (\<lambda>v c. v * b + hex_value c) v ds"

lemma base_value_append: "base_value b v (ds @ es) = base_value b (base_value b v ds) es"
  by (simp add: base_value_def)

lemma hex_value_digits:
  "list_all (\<lambda>d. hex_value (''0123456789ABCDEF'' ! d) = d \<and> hex_value (''0123456789abcdef'' ! d) = d) [0..<16]"
  by (simp add: upt_rec hex_value_def)

lemma hex_value_digit:
  assumes "d < 2 ^ bits" "bits \<le> 4"
  shows "hex_value (uint_digit bits upper d) = d"
proof (cases "bits < 4")
  case True
  have "(2 :: nat) ^ bits \<le> 2 ^ 3" using True by (intro power_increasing) auto
  then have "d < 8" using assms(1) by simp
  with True show ?thesis by (simp add: uint_digit_def hex_value_def)
next
  case False
  then have "d \<in> set [0..<16]" using assms by simp
  with hex_value_digits
  have "hex_value (''0123456789ABCDEF'' ! d) = d \<and> hex_value (''0123456789abcdef'' ! d) = d" unfolding list_all_iff by blast
  with False show ?thesis by (simp add: uint_digit_def)
qed

lemma base_value_uint_loop:
  assumes "0 < bits" "bits \<le> 4"
  shows "base_value (2 ^ bits) 0 (uint_loop bits upper v out) = base_value (2 ^ bits) v out"
  using assms
proof (induction bits upper v out rule: uint_loop.induct)
  case (1 bits upper v out)
  define d where "d = uint_digit bits upper (v mod 2 ^ bits)"
  have d: "hex_value d = v mod 2 ^ bits" using 1(3) by (simp add: d_def hex_value_digit)
  show ?case
  proof (cases "v div 2 ^ bits = 0")
    case True
    then have v: "v mod 2 ^ bits = v" by (metis div_mult_mod_eq add_0 mult_zero_left)
    then have "hex_value (uint_digit bits upper v) = v" using d by (simp add: d_def)
    then show ?thesis using True v by (subst uint_loop.simps) (simp add: Let_def base_value_def)
  next
    case False
    then have "base_value (2 ^ bits) 0 (uint_loop bits upper (v div 2 ^ bits) (d # out)) = base_value (2 ^ bits) (v div 2 ^ bits) (d # out)"
      using 1(1) [OF refl] 1(2,3) by (simp add: d_def)
    then show ?thesis using False 1(2) d div_mult_mod_eq [of v "2 ^ bits"]
      by (subst uint_loop.simps) (simp add: Let_def d_def [symmetric] base_value_def)
  qed
qed

end
