(* ===== verification/Fmt_Format.thy ===== *)
theory Fmt_Format imports Fmt_Write begin

text \<open>
  Formatting with a format string: \<open>format_handler\<close>, \<open>parse_replacement_field\<close>, the two loops of
  \<open>parse_format_string\<close> and \<open>vformat_to\<close> (spdlog/fmt/bundled/format.h), which the loggers call for the
  arguments of a log statement.

  The state of the handler is the output so far and \<open>next_arg_id_\<close> of its parse context.
\<close>

section \<open>The handler\<close>

type_synonym handler_state = "string \<times> int"

definition on_text :: "string \<Rightarrow> handler_state \<Rightarrow> handler_state" where
  "on_text s st = (fst st @ s, snd st)"

definition on_replacement_field :: "fmt_locale \<Rightarrow> fmt_args \<Rightarrow> nat \<Rightarrow> handler_state \<Rightarrow> handler_state fmt_result" where
  "on_replacement_field loc args k st =
     fmt_bind (get_arg k args) (\<lambda>a. fmt_bind (write_default loc a) (\<lambda>s. fmt_ok (on_text s st)))"

definition missing_brace :: string where
  "missing_brace = ''missing '' @ in_quotes (CHR ''}'') @ '' in format string''"

definition unmatched_brace :: string where
  "unmatched_brace = ''unmatched '' @ in_quotes (CHR ''}'') @ '' in format string''"

definition on_format_specs ::
  "fmt_locale \<Rightarrow> fmt_args \<Rightarrow> nat \<Rightarrow> string \<Rightarrow> handler_state \<Rightarrow> (string \<times> handler_state) fmt_result" where
  "on_format_specs loc args k s st =
     fmt_bind (get_arg k args) (\<lambda>a.
       fmt_bind (parse_format_specs (type_of_arg a) args (default_specs, snd st, s)) (\<lambda>(sp, n, rest).
         if rest = [] \<or> hd rest \<noteq> CHR ''}'' then fmt_err missing_brace
         else fmt_bind (write_arg loc sp a) (\<lambda>txt. fmt_ok (rest, fst st @ txt, n))))"

text \<open>After the opening brace.\<close>

definition parse_replacement_field ::
  "fmt_locale \<Rightarrow> fmt_args \<Rightarrow> string \<Rightarrow> handler_state \<Rightarrow> (string \<times> handler_state) fmt_result" where
  "parse_replacement_field loc args s st =
     (case s of
        [] \<Rightarrow> fmt_err ''invalid format string''
      | c # cs \<Rightarrow>
          if c = CHR ''}'' then
            fmt_bind (next_arg_id (snd st)) (\<lambda>(k, n1).
              fmt_bind (on_replacement_field loc args k (fst st, n1)) (\<lambda>st1. fmt_ok (cs, st1)))
          else if c = CHR ''{'' then fmt_ok (cs, on_text ''{'' st)
          else
            fmt_bind (parse_arg_id c cs) (\<lambda>(i, rest).
              fmt_bind (on_arg_id args i (snd st)) (\<lambda>(k, n1).
                case rest of
                  [] \<Rightarrow> fmt_err missing_brace
                | d # ds \<Rightarrow>
                    if d = CHR ''}'' then
                      fmt_bind (on_replacement_field loc args k (fst st, n1)) (\<lambda>st1. fmt_ok (ds, st1))
                    else if d = CHR '':'' then
                      fmt_bind (on_format_specs loc args k ds (fst st, n1)) (\<lambda>(rest1, st1).
                        if rest1 = [] \<or> hd rest1 \<noteq> CHR ''}'' then fmt_err ''unknown format specifier''
                        else fmt_ok (tl rest1, st1))
                    else fmt_err missing_brace)))"

lemma parse_replacement_field_shorter:
  assumes "parse_replacement_field loc args s st = fmt_ok (rest, st1)"
  shows "length rest < length s"
proof (cases s)
  case Nil
  then show ?thesis using assms by (simp add: parse_replacement_field_def)
next
  case (Cons c cs)
  show ?thesis
  proof (cases "c = CHR ''}'' \<or> c = CHR ''{''")
    case True
    then show ?thesis using assms unfolding parse_replacement_field_def Cons
      by (auto elim!: fmt_bind_okE split: prod.splits)
  next
    case False
    with assms Cons obtain i r k n1 where r: "parse_arg_id c cs = fmt_ok (i, r)"
      and b: "(case r of [] \<Rightarrow> fmt_err missing_brace
                | d # ds \<Rightarrow>
                    if d = CHR ''}'' then
                      fmt_bind (on_replacement_field loc args k (fst st, n1)) (\<lambda>st1. fmt_ok (ds, st1))
                    else if d = CHR '':'' then
                      fmt_bind (on_format_specs loc args k ds (fst st, n1)) (\<lambda>(rest1, st1).
                        if rest1 = [] \<or> hd rest1 \<noteq> CHR ''}'' then fmt_err ''unknown format specifier''
                        else fmt_ok (tl rest1, st1))
                    else fmt_err missing_brace) = fmt_ok (rest, st1)"
      unfolding parse_replacement_field_def by (auto elim!: fmt_bind_okE)
    have len: "length r \<le> Suc (length cs)" using parse_arg_id_spec [of c cs] r by simp
    from b obtain d ds where rd: "r = d # ds" by (cases r) auto
    have "length rest \<le> length ds"
    proof (cases "d = CHR ''}''")
      case True
      then show ?thesis using b rd by (auto elim!: fmt_bind_okE)
    next
      case False
      then have d: "d = CHR '':''" using b rd by (auto split: if_splits)
      with b rd obtain rest1 st2 where f: "on_format_specs loc args k ds (fst st, n1) = fmt_ok (rest1, st2)"
        "rest = tl rest1" by (auto elim!: fmt_bind_okE split: if_splits)
      from f(1) obtain a sp n where "parse_format_specs (type_of_arg a) args (default_specs, n1, ds) = fmt_ok (sp, n, rest1)"
        unfolding on_format_specs_def by (auto elim!: fmt_bind_okE split: if_splits)
      then have "length rest1 \<le> length ds"
        using parse_format_specs_advances [of "type_of_arg a" args default_specs n1 ds] by (simp add: advances_def)
      then show ?thesis by (simp add: f(2))
    qed
    then show ?thesis using len rd Cons by simp
  qed
qed

section \<open>The loops over a format string\<close>

text \<open>Below 32 characters: one character at a time; \<open>pend\<close> is the text from \<open>begin\<close> to \<open>p\<close>.\<close>

function scan_small ::
  "fmt_locale \<Rightarrow> fmt_args \<Rightarrow> string \<Rightarrow> string \<Rightarrow> handler_state \<Rightarrow> handler_state fmt_result" where
  "scan_small loc args pend [] st = fmt_ok (on_text pend st)"
| "scan_small loc args pend (c # cs) st =
     (if c = CHR ''{'' then
        fmt_bind (parse_replacement_field loc args cs (on_text pend st)) (\<lambda>r. scan_small loc args [] (fst r) (snd r))
      else if c = CHR ''}'' then
        (case cs of
           [] \<Rightarrow> fmt_err unmatched_brace
         | d # ds \<Rightarrow>
             if d \<noteq> CHR ''}'' then fmt_err unmatched_brace
             else scan_small loc args [] ds (on_text (pend @ [c]) st))
      else scan_small loc args (pend @ [c]) cs st)"
  by pat_completeness auto
termination
proof (relation "measure (\<lambda>(loc, args, pend, s, st). length s)")
  fix loc args pend c cs st x
  assume "parse_replacement_field loc args cs (on_text pend st) = fmt_ok x"
  then have "length (fst x) < length cs"
    by (cases x) (auto dest: parse_replacement_field_shorter)
  then show "((loc, args, [], fst x, snd x), loc, args, pend, c # cs, st)
      \<in> measure (\<lambda>(loc, args, pend, s, st). length s)" by (simp add: case_prod_unfold)
qed auto

text \<open>From 32 characters on: \<open>memchr\<close> for the braces; \<open>write_text\<close> writes a text between fields.\<close>

function write_loop :: "string \<Rightarrow> handler_state \<Rightarrow> handler_state fmt_result" where
  "write_loop s st =
     (let t = takeWhile (\<lambda>c. c \<noteq> CHR ''}'') s; p = dropWhile (\<lambda>c. c \<noteq> CHR ''}'') s in
      if p = [] then fmt_ok (on_text s st)
      else if tl p = [] \<or> hd (tl p) \<noteq> CHR ''}'' then fmt_err unmatched_brace
      else write_loop (tl (tl p)) (on_text (t @ [hd p]) st))"
  by pat_completeness auto
termination
proof (relation "measure (\<lambda>(s, st). length s)")
  fix s :: string and st t and p :: string
  assume p: "p = dropWhile (\<lambda>c. c \<noteq> CHR ''}'') s" "p \<noteq> []"
  from p(2) have "length (tl (tl p)) < length p" by (cases p) auto
  moreover have "length p \<le> length s" unfolding p(1) by (rule length_dropWhile_le)
  ultimately have "length (tl (tl p)) < length s" by simp
  then show "((tl (tl p), on_text (t @ [hd p]) st), s, st) \<in> measure (\<lambda>(s, st). length s)" by simp
qed simp

definition write_text :: "string \<Rightarrow> handler_state \<Rightarrow> handler_state fmt_result" where
  "write_text s st = (if s = [] then fmt_ok st else write_loop s st)"

function scan_large :: "fmt_locale \<Rightarrow> fmt_args \<Rightarrow> string \<Rightarrow> handler_state \<Rightarrow> handler_state fmt_result" where
  "scan_large loc args s st =
     (if s = [] then fmt_ok st
      else
        let t = takeWhile (\<lambda>c. c \<noteq> CHR ''{'') s; p = dropWhile (\<lambda>c. c \<noteq> CHR ''{'') s in
        if p = [] then write_text s st
        else
          fmt_bind (write_text t st) (\<lambda>st1.
            fmt_bind (parse_replacement_field loc args (tl p) st1) (\<lambda>r. scan_large loc args (fst r) (snd r))))"
  by pat_completeness auto
termination
proof (relation "measure (\<lambda>(loc, args, s, st). length s)")
  fix loc args st st1 x and s t p :: string
  assume "p = dropWhile (\<lambda>c. c \<noteq> CHR ''{'') s" "p \<noteq> []"
    and f: "parse_replacement_field loc args (tl p) st1 = fmt_ok x"
  moreover from f have "length (fst x) < length (tl p)" by (cases x) (auto dest: parse_replacement_field_shorter)
  ultimately have "length (fst x) < length s" using length_dropWhile_le [of "\<lambda>c. c \<noteq> CHR ''{''" s] by auto
  then show "((loc, args, fst x, snd x), loc, args, s, st) \<in> measure (\<lambda>(loc, args, s, st). length s)"
    by (simp add: case_prod_unfold)
qed simp

declare write_loop.simps [simp del] scan_large.simps [simp del]

definition parse_format_string :: "fmt_locale \<Rightarrow> fmt_args \<Rightarrow> string \<Rightarrow> handler_state \<Rightarrow> handler_state fmt_result" where
  "parse_format_string loc args s st =
     (if length s < 32 then scan_small loc args [] s st else scan_large loc args s st)"

text \<open>With the shortcut for the format string of one field.\<close>

definition vformat_to :: "fmt_locale \<Rightarrow> string \<Rightarrow> fmt_args \<Rightarrow> string fmt_result" where
  "vformat_to loc s args =
     (if s = ''{}'' then fmt_bind (get_arg 0 args) (write_default loc)
      else fmt_bind (parse_format_string loc args s ([], 0)) (\<lambda>st. fmt_ok (fst st)))"

end
