(* ===== verification/Fmt_Theorems.thy ===== *)
theory Fmt_Theorems imports Fmt_Format begin

text \<open>
  What formatting with a format string does: the fast and the short loop agree, specifiers and whole
  format strings are read back as they are printed, integers denote their value in every base, and where
  grouped digits are written outside of their buffer.
\<close>

section \<open>The two loops\<close>

lemma on_text_on_text [simp]: "on_text t (on_text s st) = on_text (s @ t) st"
  by (simp add: on_text_def)

lemma on_text_Nil [simp]: "on_text [] st = st"
  by (simp add: on_text_def)

lemma write_loop_Nil [simp]: "write_loop [] st = fmt_ok st"
  by (subst write_loop.simps) simp

lemma write_text_loop: "write_text s st = write_loop s st"
  by (simp add: write_text_def)

lemma write_loop_text:
  assumes "CHR ''}'' \<notin> set t"
  shows "write_loop t st = fmt_ok (on_text t st)"
    and "write_loop (t @ CHR ''}'' # cs) st =
      (if cs = [] \<or> hd cs \<noteq> CHR ''}'' then fmt_err unmatched_brace else write_loop (tl cs) (on_text (t @ ''}'') st))"
proof -
  have n: "\<And>x. x \<in> set t \<Longrightarrow> x \<noteq> CHR ''}''" using assms by auto
  have d: "dropWhile (\<lambda>c. c \<noteq> CHR ''}'') t = []" "takeWhile (\<lambda>c. c \<noteq> CHR ''}'') (t @ CHR ''}'' # cs) = t"
    "dropWhile (\<lambda>c. c \<noteq> CHR ''}'') (t @ CHR ''}'' # cs) = CHR ''}'' # cs"
    using n by (simp_all add: takeWhile_append2 dropWhile_append2)
  show "write_loop t st = fmt_ok (on_text t st)" by (subst write_loop.simps) (simp add: d)
  show "write_loop (t @ CHR ''}'' # cs) st =
      (if cs = [] \<or> hd cs \<noteq> CHR ''}'' then fmt_err unmatched_brace else write_loop (tl cs) (on_text (t @ ''}'') st))"
    by (subst write_loop.simps) (simp add: d)
qed

text \<open>A text without opening braces, up to the end or to the next field.\<close>

lemma scan_small_text:
  assumes "CHR ''{'' \<notin> set t" "CHR ''}'' \<notin> set pend" "rest = [] \<or> hd rest = CHR ''{''"
  shows "scan_small loc args pend (t @ rest) st
    = fmt_bind (write_loop (pend @ t) st) (\<lambda>st1. scan_small loc args [] rest st1)"
  using assms(1,2)
proof (induction "length t" arbitrary: t pend st rule: less_induct)
  case less
  show ?case
  proof (cases t)
    case Nil
    then show ?thesis using assms(3) write_loop_text(1) [OF less.prems(2)] by (cases rest) auto
  next
    case (Cons c cs)
    then have c: "c \<noteq> CHR ''{''" "CHR ''{'' \<notin> set cs" using less.prems by auto
    show ?thesis
    proof (cases "c = CHR ''}''")
      case False
      have "scan_small loc args (pend @ [c]) (cs @ rest) st
          = fmt_bind (write_loop ((pend @ [c]) @ cs) st) (\<lambda>st1. scan_small loc args [] rest st1)"
        using less.prems(2) False c(2) Cons by (intro less.hyps) auto
      then show ?thesis using Cons c(1) False by simp
    next
      case True
      show ?thesis
      proof (cases "cs = [] \<or> hd cs \<noteq> CHR ''}''")
        case bad: True
        then have "scan_small loc args pend (t @ rest) st = fmt_err unmatched_brace"
          using assms(3) Cons c(1) True by (cases cs; cases rest) auto
        then show ?thesis using write_loop_text(2) [OF less.prems(2), of cs st] bad Cons True by simp
      next
        case False
        then obtain ds where ds: "cs = CHR ''}'' # ds" by (cases cs) auto
        have "scan_small loc args [] (ds @ rest) (on_text (pend @ ''}'') st)
            = fmt_bind (write_loop ([] @ ds) (on_text (pend @ ''}'') st)) (\<lambda>st1. scan_small loc args [] rest st1)"
          using c(2) ds Cons by (intro less.hyps) auto
        then show ?thesis using write_loop_text(2) [OF less.prems(2), of cs st] Cons True ds by simp
      qed
    qed
  qed
qed

lemma scan_large_small: "scan_large loc args s st = scan_small loc args [] s st"
proof (induction "length s" arbitrary: s st rule: less_induct)
  case less
  define t where "t = takeWhile (\<lambda>c. c \<noteq> CHR ''{'') s"
  define p where "p = dropWhile (\<lambda>c. c \<noteq> CHR ''{'') s"
  have s: "s = t @ p" by (simp add: t_def p_def)
  have t: "CHR ''{'' \<notin> set t" by (auto simp: t_def dest: set_takeWhileD)
  have p: "p = [] \<or> hd p = CHR ''{''" using hd_dropWhile [of "\<lambda>c. c \<noteq> CHR ''{''" s] by (auto simp: p_def)
  have small: "scan_small loc args [] s st = fmt_bind (write_loop t st) (\<lambda>st1. scan_small loc args [] p st1)"
    using scan_small_text [OF t _ p, of "[]"] s by simp
  show ?case
  proof (cases "s = []")
    case True
    then show ?thesis by (simp add: scan_large.simps)
  next
    case ne: False
    show ?thesis
    proof (cases "p = []")
      case True
      then have "scan_large loc args s st = write_loop s st"
        using ne by (subst scan_large.simps) (simp add: p_def [symmetric] write_text_loop)
      moreover have "scan_small loc args [] s st = fmt_bind (write_loop s st) fmt_ok"
        using small True s by (simp cong: fmt_bind_cong)
      ultimately show ?thesis by (cases "write_loop s st"; cases "the (write_loop s st)") simp_all
    next
      case False
      with p obtain cs where cs: "p = CHR ''{'' # cs" by (cases p) auto
      have "scan_large loc args s st = fmt_bind (write_loop t st) (\<lambda>st1.
          fmt_bind (parse_replacement_field loc args cs st1) (\<lambda>r. scan_large loc args (fst r) (snd r)))"
        using ne False cs by (subst scan_large.simps) (simp add: p_def [symmetric] t_def [symmetric] write_text_loop Let_def)
      also have "\<dots> = fmt_bind (write_loop t st) (\<lambda>st1.
          fmt_bind (parse_replacement_field loc args cs st1) (\<lambda>r. scan_small loc args [] (fst r) (snd r)))"
      proof (intro fmt_bind_cong refl)
        fix st1 r
        assume "parse_replacement_field loc args cs st1 = fmt_ok r"
        then have "length (fst r) < length s"
          using parse_replacement_field_shorter [of loc args cs st1 "fst r" "snd r"] s cs by simp
        then show "scan_large loc args (fst r) (snd r) = scan_small loc args [] (fst r) (snd r)" by (rule less.hyps)
      qed
      finally show ?thesis using small cs by simp
    qed
  qed
qed

lemma vformat_scan: "vformat_to loc s args = fmt_bind (scan_small loc args [] s ([], 0)) (\<lambda>st. fmt_ok (fst st))"
proof -
  have "vformat_to loc ''{}'' args = fmt_bind (scan_small loc args [] ''{}'' ([], 0)) (\<lambda>st. fmt_ok (fst st))"
  proof (cases "get_arg 0 args")
    case (Some x)
    then show ?thesis
    proof (cases x)
      case (Inr a)
      with Some show ?thesis
        by (cases "write_default loc a"; cases "the (write_default loc a)")
          (simp_all add: vformat_to_def parse_replacement_field_def next_arg_id_def on_replacement_field_def on_text_def)
    qed (simp add: vformat_to_def parse_replacement_field_def next_arg_id_def on_replacement_field_def)
  qed simp
  then show ?thesis by (auto simp: vformat_to_def parse_format_string_def scan_large_small)
qed

text \<open>
  C18 [equivalence] Formatting gives the same result on all of its three paths: the shortcut for "{}", the loop for
  format strings below 32 characters and the one with memchr, which passes over the text twice, agree
  on every format string and arguments, in output and in the error that is thrown.
\<close>

theorem format_paths_agree:
  "vformat_to loc s args = fmt_bind (scan_small loc args [] s ([], 0)) (\<lambda>st. fmt_ok (fst st))
    \<and> scan_large loc args s st = scan_small loc args [] s st"
  using vformat_scan scan_large_small by blast

section \<open>Specifiers, printed and parsed\<close>

definition print_align :: "format_specs \<Rightarrow> string" where
  "print_align sp =
     (case spec_align sp of
        Align_left \<Rightarrow> spec_fill sp @ ''<'' | Align_right \<Rightarrow> spec_fill sp @ ''>'' | Align_center \<Rightarrow> spec_fill sp @ ''^''
      | _ \<Rightarrow> [])"

definition print_sign :: "format_specs \<Rightarrow> string" where
  "print_sign sp = (case spec_sign sp of Sign_none \<Rightarrow> [] | Sign_minus \<Rightarrow> ''-'' | Sign_plus \<Rightarrow> ''+'' | Sign_space \<Rightarrow> '' '')"

definition print_hash :: "format_specs \<Rightarrow> string" where
  "print_hash sp = (if spec_alt sp then ''#'' else [])"

definition print_zero :: "format_specs \<Rightarrow> string" where
  "print_zero sp = (if spec_align sp = Align_numeric then ''0'' else [])"

definition print_width :: "format_specs \<Rightarrow> string" where
  "print_width sp = (if spec_width sp = 0 then [] else dec (spec_width sp))"

definition print_precision :: "format_specs \<Rightarrow> string" where
  "print_precision sp = (if spec_precision sp < 0 then [] else CHR ''.'' # dec (nat (spec_precision sp)))"

definition print_type :: "format_specs \<Rightarrow> string" where
  "print_type sp = (if spec_type sp = CHR 0x00 then [] else [spec_type sp])"

definition print_specs :: "format_specs \<Rightarrow> string" where
  "print_specs sp = print_align sp @ print_sign sp @ print_hash sp @ print_zero sp @ print_width sp
     @ print_precision sp @ print_type sp"

text \<open>The specifiers that an argument of the type may have, with a fill of one ASCII character.\<close>

definition valid_specs :: "arg_type \<Rightarrow> format_specs \<Rightarrow> bool" where
  "valid_specs t sp \<longleftrightarrow>
     (case spec_align sp of
        Align_none \<Rightarrow> spec_fill sp = '' ''
      | Align_numeric \<Rightarrow> spec_fill sp = ''0'' \<and> is_arithmetic_type t
      | _ \<Rightarrow> length (spec_fill sp) = 1 \<and> (of_char (hd (spec_fill sp)) :: nat) < 128
          \<and> hd (spec_fill sp) \<noteq> CHR ''{'' \<and> hd (spec_fill sp) \<noteq> CHR ''}'')
     \<and> (spec_sign sp \<noteq> Sign_none \<longrightarrow> check_sign t = fmt_ok ())
     \<and> (spec_alt sp \<longrightarrow> is_arithmetic_type t)
     \<and> spec_width sp \<le> max_int
     \<and> (spec_precision sp = - 1
        \<or> (0 \<le> spec_precision sp \<and> spec_precision sp \<le> int max_int \<and> \<not> is_integral_type t \<and> t \<noteq> Pointer_type))
     \<and> (spec_type sp = CHR 0x00 \<or> is_name_start (spec_type sp))"

text \<open>The order in which the characters of the parts come.\<close>

definition rank :: "char \<Rightarrow> nat" where
  "rank c =
     (if c = CHR ''+'' \<or> c = CHR ''-'' \<or> c = CHR '' '' then 1
      else if c = CHR ''#'' then 2
      else if c = CHR ''0'' then 3
      else if is_digit c then 4
      else if c = CHR ''.'' then 5
      else if is_name_start c then 6
      else if c = CHR ''}'' then 7 else 0)"

lemma name_start_literals:
  "\<not> is_name_start (CHR ''+'')" "\<not> is_name_start (CHR ''-'')" "\<not> is_name_start (CHR '' '')"
  "\<not> is_name_start (CHR ''#'')" "\<not> is_name_start (CHR ''.'')" "\<not> is_name_start (CHR ''}'')"
  "\<not> is_name_start (CHR ''{'')" "\<not> is_name_start (CHR ''<'')" "\<not> is_name_start (CHR ''>'')" "\<not> is_name_start (CHR ''^'')"
  by (simp_all add: is_name_start_def)

lemma digit_literals:
  "\<not> is_digit (CHR ''+'')" "\<not> is_digit (CHR ''-'')" "\<not> is_digit (CHR '' '')" "\<not> is_digit (CHR ''#'')"
  "\<not> is_digit (CHR ''.'')" "\<not> is_digit (CHR ''}'')" "\<not> is_digit (CHR ''{'')" "\<not> is_digit (CHR ''<'')"
  "\<not> is_digit (CHR ''>'')" "\<not> is_digit (CHR ''^'')" "is_digit (CHR ''0'')"
  by (simp_all add: is_digit_def)

lemma name_start_not_digit: "is_name_start c \<Longrightarrow> \<not> is_digit c"
  by (auto simp: is_digit_def is_name_start_def Let_def)

lemma rank_values:
  "rank (CHR ''}'') = 7" "rank (CHR ''.'') = 5" "rank (CHR ''0'') = 3" "rank (CHR ''#'') = 2"
  "rank (CHR ''+'') = 1" "rank (CHR ''-'') = 1" "rank (CHR '' '') = 1"
  "rank (CHR ''<'') = 0" "rank (CHR ''>'') = 0" "rank (CHR ''^'') = 0" "rank (CHR ''{'') = 0"
  by (simp_all add: rank_def digit_literals name_start_literals)

lemma rank_name: "is_name_start c \<Longrightarrow> rank c = 6"
  using name_start_literals name_start_not_digit [of c] digit_literals(11) by (auto simp: rank_def)

lemma rank_digit: "is_digit c \<Longrightarrow> rank c \<le> 4"
  by (simp add: rank_def)

lemma rank_ascii:
  assumes "128 \<le> (of_char c :: nat)"
  shows "rank c = 0"
proof -
  have "\<not> is_digit c" "\<not> is_name_start c" using assms by (auto simp: is_digit_def is_name_start_def)
  with assms show ?thesis by (auto simp: rank_def)
qed

lemma rank_facts:
  "1 < rank c \<Longrightarrow> c \<noteq> CHR ''+'' \<and> c \<noteq> CHR ''-'' \<and> c \<noteq> CHR '' ''"
  "2 < rank c \<Longrightarrow> c \<noteq> CHR ''#''"
  "3 < rank c \<Longrightarrow> c \<noteq> CHR ''0''"
  "4 < rank c \<Longrightarrow> \<not> is_digit c"
  "5 < rank c \<Longrightarrow> c \<noteq> CHR ''.''"
  "0 < rank c \<Longrightarrow> c \<noteq> CHR ''{'' \<and> align_of_char c = Align_none"
  "0 < rank c \<Longrightarrow> (of_char c :: nat) < 128"
proof -
  show "4 < rank c \<Longrightarrow> \<not> is_digit c" using rank_digit [of c] by auto
  show "0 < rank c \<Longrightarrow> (of_char c :: nat) < 128" using rank_ascii [of c] by (rule_tac ccontr) simp
  show "0 < rank c \<Longrightarrow> c \<noteq> CHR ''{'' \<and> align_of_char c = Align_none"
    by (auto simp: rank_values align_of_char_def)
qed (auto simp: rank_values)

lemma dec_hd: "0 < n \<Longrightarrow> is_digit (hd (dec n)) \<and> hd (dec n) \<noteq> CHR ''0''"
proof (induction n rule: dec.induct)
  case (1 n)
  show ?case
  proof (cases "n < 10")
    case True
    have "digit_value (CHR ''0'') = 0" by (simp add: digit_value_def)
    then have "digit_char n \<noteq> CHR ''0''" using digit_char_facts [OF True] 1(2) by auto
    with True digit_char_facts [OF True] show ?thesis by (simp add: dec_small)
  next
    case False
    then show ?thesis using 1 by (simp add: dec_step)
  qed
qed

lemma rank_dec:
  assumes "0 < n"
  shows "rank (hd (dec n)) = 4"
proof -
  have "hd (dec n) \<noteq> CHR ''+''" "hd (dec n) \<noteq> CHR ''-''" "hd (dec n) \<noteq> CHR '' ''" "hd (dec n) \<noteq> CHR ''#''"
    using dec_hd [OF assms] digit_literals by auto
  with dec_hd [OF assms] show ?thesis by (simp add: rank_def)
qed

lemma unless_end_Cons [simp]: "unless_end f (sp, n, c # cs) = f c cs sp n"
  by (simp add: unless_end_def)

lemma and_128: "(k :: nat) < 128 \<Longrightarrow> k AND 128 = 0"
proof -
  assume "k < 128"
  then have "\<not> bit k 7" by (simp add: bit_iff_odd)
  then show ?thesis using and_exp_eq_0_iff_not_bit [of k 7] by simp
qed

lemma next_code_point_ascii: "(of_char c :: nat) < 128 \<Longrightarrow> next_code_point c cs = ([c], cs)"
  by (simp add: next_code_point_def and_128)

text \<open>A tail of a printed specifier: it starts with a character of at least the rank.\<close>

definition tail_from :: "nat \<Rightarrow> string \<Rightarrow> bool" where
  "tail_from k s \<longleftrightarrow> s \<noteq> [] \<and> k \<le> rank (hd s)"

lemma tail_from_mono: "tail_from k s \<Longrightarrow> j \<le> k \<Longrightarrow> tail_from j s"
  by (simp add: tail_from_def)

lemma tail_fromE:
  assumes "tail_from k s"
  obtains c cs where "s = c # cs" "k \<le> rank c"
  using assms by (cases s) (auto simp: tail_from_def)

lemma tail_from_append: "(s \<noteq> [] \<Longrightarrow> k \<le> rank (hd s)) \<Longrightarrow> tail_from k u \<Longrightarrow> tail_from k (s @ u)"
  by (cases s) (auto simp: tail_from_def)

lemma valid_specsD:
  assumes "valid_specs t sp"
  shows "spec_sign sp \<noteq> Sign_none \<Longrightarrow> check_sign t = fmt_ok ()"
    and "spec_alt sp \<Longrightarrow> is_arithmetic_type t"
    and "spec_align sp = Align_numeric \<Longrightarrow> is_arithmetic_type t \<and> spec_fill sp = ''0''"
    and "spec_align sp = Align_none \<Longrightarrow> spec_fill sp = '' ''"
    and "spec_width sp \<le> max_int"
    and "0 \<le> spec_precision sp \<Longrightarrow> nat (spec_precision sp) \<le> max_int \<and> check_precision t = fmt_ok ()"
    and "spec_precision sp < 0 \<Longrightarrow> spec_precision sp = - 1"
    and "spec_type sp \<noteq> CHR 0x00 \<Longrightarrow> is_name_start (spec_type sp)"
  using assms by (auto simp: valid_specs_def check_precision_def split: align_t.splits)

text \<open>One lemma for each part.\<close>

lemma parse_type_print:
  assumes "valid_specs t sp" "spec_type sp0 = CHR 0x00"
  shows "unless_end parse_type (sp0, n, print_type sp @ CHR ''}'' # rest)
    = fmt_ok (sp0\<lparr>spec_type := spec_type sp\<rparr>, n, CHR ''}'' # rest)"
  using assms(2) valid_specsD(8) [OF assms(1)] name_start_literals(6) by (auto simp: print_type_def parse_type_def)

lemma parse_precision_print:
  assumes "valid_specs t sp" "spec_precision sp0 = - 1" "tail_from 6 u"
  shows "unless_end (parse_point t args) (sp0, n, print_precision sp @ u)
    = fmt_ok (sp0\<lparr>spec_precision := spec_precision sp\<rparr>, n, u)"
proof (cases "spec_precision sp < 0")
  case True
  then have "sp0\<lparr>spec_precision := spec_precision sp\<rparr> = sp0" using assms(2) valid_specsD(7) [OF assms(1)] by simp
  moreover obtain c cs where "u = c # cs" "6 \<le> rank c" using assms(3) by (rule tail_fromE)
  ultimately show ?thesis using True rank_facts(5) [of c] by (simp add: print_precision_def parse_point_def)
next
  case False
  let ?p = "nat (spec_precision sp)"
  have v: "?p \<le> max_int" "check_precision t = fmt_ok ()" using valid_specsD(6) [OF assms(1)] False by auto
  obtain c cs where u: "u = c # cs" "6 \<le> rank c" using assms(3) by (rule tail_fromE)
  then have "u = [] \<or> \<not> is_digit (hd u)" using rank_facts(4) [of c] by simp
  from parse_decimal_roundtrip [OF this, of ?p] have p: "parse_nonnegative_int (dec ?p @ u) = (Inr ?p, u)" using v(1) by simp
  have "is_digit (hd (dec ?p))" using dec_digits [of ?p] by (cases "dec ?p") simp_all
  then have "is_digit (hd (dec ?p @ u))" by (cases "dec ?p") auto
  with p v(2) False show ?thesis by (simp add: print_precision_def parse_point_def parse_precision_def)
qed

lemma parse_width_print:
  assumes "valid_specs t sp" "spec_width sp0 = 0" "tail_from 5 u"
  shows "unless_end (parse_width args) (sp0, n, print_width sp @ u) = fmt_ok (sp0\<lparr>spec_width := spec_width sp\<rparr>, n, u)"
proof -
  obtain c cs where u: "u = c # cs" "5 \<le> rank c" using assms(3) by (rule tail_fromE)
  then have c: "\<not> is_digit c" "c \<noteq> CHR ''{''" using rank_facts(4,6) [of c] by auto
  show ?thesis
  proof (cases "spec_width sp = 0")
    case True
    then have "sp0\<lparr>spec_width := spec_width sp\<rparr> = sp0" using assms(2) by simp
    with u c True show ?thesis by (simp add: print_width_def parse_width_def)
  next
    case False
    have "u = [] \<or> \<not> is_digit (hd u)" using u c by simp
    from parse_decimal_roundtrip [OF this, of "spec_width sp"]
    have p: "parse_nonnegative_int (dec (spec_width sp) @ u) = (Inr (spec_width sp), u)"
      using valid_specsD(5) [OF assms(1)] by simp
    obtain d ds where d: "dec (spec_width sp) = d # ds" by (cases "dec (spec_width sp)") auto
    have "is_digit d" using dec_digits [of "spec_width sp"] d by simp
    with p d False show ?thesis by (simp add: print_width_def parse_width_def)
  qed
qed

lemma parse_zero_print:
  assumes "valid_specs t sp" "spec_fill sp0 = (if spec_align sp = Align_numeric then '' '' else spec_fill sp)"
    "spec_align sp0 = (if spec_align sp = Align_numeric then Align_none else spec_align sp)" "tail_from 4 u"
  shows "unless_end (parse_zero t) (sp0, n, print_zero sp @ u)
    = fmt_ok (sp0\<lparr>spec_align := spec_align sp, spec_fill := spec_fill sp\<rparr>, n, u)"
proof (cases "spec_align sp = Align_numeric")
  case True
  then show ?thesis using valid_specsD(3) [OF assms(1) True] assms(2)
    by (simp add: print_zero_def parse_zero_def require_numeric_def)
next
  case False
  obtain c cs where u: "u = c # cs" "4 \<le> rank c" using assms(4) by (rule tail_fromE)
  have "sp0\<lparr>spec_align := spec_align sp, spec_fill := spec_fill sp\<rparr> = sp0" using False assms(2,3) by simp
  with u False rank_facts(3) [of c] show ?thesis by (simp add: print_zero_def parse_zero_def)
qed

lemma parse_hash_print:
  assumes "valid_specs t sp" "\<not> spec_alt sp0" "tail_from 3 u"
  shows "unless_end (parse_hash t) (sp0, n, print_hash sp @ u) = fmt_ok (sp0\<lparr>spec_alt := spec_alt sp\<rparr>, n, u)"
proof (cases "spec_alt sp")
  case True
  then show ?thesis using valid_specsD(2) [OF assms(1)] by (simp add: print_hash_def parse_hash_def require_numeric_def)
next
  case False
  obtain c cs where u: "u = c # cs" "3 \<le> rank c" using assms(3) by (rule tail_fromE)
  have "sp0\<lparr>spec_alt := spec_alt sp\<rparr> = sp0" using False assms(2) by simp
  with u False rank_facts(2) [of c] show ?thesis by (simp add: print_hash_def parse_hash_def)
qed

lemma parse_sign_print:
  assumes "valid_specs t sp" "spec_sign sp0 = Sign_none" "tail_from 2 u"
  shows "unless_end (parse_sign t) (sp0, n, print_sign sp @ u) = fmt_ok (sp0\<lparr>spec_sign := spec_sign sp\<rparr>, n, u)"
proof (cases "spec_sign sp = Sign_none")
  case True
  obtain c cs where u: "u = c # cs" "2 \<le> rank c" using assms(3) by (rule tail_fromE)
  have "sp0\<lparr>spec_sign := spec_sign sp\<rparr> = sp0" using True assms(2) by simp
  with u True rank_facts(1) [of c] show ?thesis by (simp add: print_sign_def parse_sign_def)
next
  case False
  then show ?thesis using valid_specsD(1) [OF assms(1)]
    by (cases "spec_sign sp") (simp_all add: print_sign_def parse_sign_def)
qed

text \<open>Without a fill: no alignment in the first two characters.\<close>

lemma parse_align_nothing:
  assumes "v \<noteq> []" "\<forall>c \<in> set v. 0 < rank c"
  shows "unless_end parse_align (sp0, n, v @ CHR ''}'' # rest) = fmt_ok (sp0, n, v @ CHR ''}'' # rest)"
proof -
  obtain c cs where v: "v = c # cs" using assms(1) by (cases v) auto
  have c: "align_of_char c = Align_none" "(of_char c :: nat) < 128" using assms(2) v rank_facts(6,7) [of c] by auto
  have "align_of_char (hd (cs @ CHR ''}'' # rest)) = Align_none"
    using assms(2) v rank_facts(6) [of "hd cs"] by (cases cs) (auto simp: align_of_char_def)
  with c v show ?thesis by (simp add: parse_align_def next_code_point_ascii)
qed

lemma parse_align_print:
  assumes "valid_specs t sp" "spec_align sp \<noteq> Align_none" "spec_align sp \<noteq> Align_numeric"
  shows "unless_end parse_align (sp0, n, print_align sp @ u) = fmt_ok (sp0\<lparr>spec_align := spec_align sp, spec_fill := spec_fill sp\<rparr>, n, u)"
proof -
  have "length (spec_fill sp) = 1 \<and> (of_char (hd (spec_fill sp)) :: nat) < 128 \<and> hd (spec_fill sp) \<noteq> CHR ''{''"
    using assms by (auto simp: valid_specs_def split: align_t.splits)
  then obtain c where c: "spec_fill sp = [c]" "(of_char c :: nat) < 128" "c \<noteq> CHR ''{''" by (cases "spec_fill sp") auto
  with assms(2,3) show ?thesis
    by (cases "spec_align sp") (simp_all add: print_align_def parse_align_def next_code_point_ascii align_of_char_def)
qed

lemma rank_printed:
  assumes "valid_specs t sp"
  shows "\<forall>c \<in> set (print_sign sp @ print_hash sp @ print_zero sp @ print_width sp @ print_precision sp @ print_type sp).
    0 < rank c \<and> rank c < 7"
proof -
  have d: "0 < rank c \<and> rank c < 7" if "is_digit c" for c using that by (simp add: rank_def)
  have "\<forall>c \<in> set (print_width sp). 0 < rank c \<and> rank c < 7"
    using dec_digits [of "spec_width sp"] by (auto simp: print_width_def list_all_iff d)
  moreover have "\<forall>c \<in> set (print_precision sp). 0 < rank c \<and> rank c < 7"
    using dec_digits [of "nat (spec_precision sp)"] by (auto simp: print_precision_def list_all_iff d rank_values)
  moreover have "\<forall>c \<in> set (print_type sp). 0 < rank c \<and> rank c < 7"
    using valid_specsD(8) [OF assms] by (auto simp: print_type_def rank_name)
  moreover have "\<forall>c \<in> set (print_sign sp @ print_hash sp @ print_zero sp). 0 < rank c \<and> rank c < 7"
    by (cases "spec_sign sp") (auto simp: print_sign_def print_hash_def print_zero_def rank_values)
  ultimately show ?thesis by auto
qed

lemma print_specs_no_brace:
  assumes "valid_specs t sp" "print_specs sp \<noteq> []"
  shows "hd (print_specs sp) \<noteq> CHR ''}''"
proof (cases "print_align sp = []")
  case True
  let ?v = "print_sign sp @ print_hash sp @ print_zero sp @ print_width sp @ print_precision sp @ print_type sp"
  have "print_specs sp = ?v" using True by (simp add: print_specs_def)
  then have "hd (print_specs sp) \<in> set ?v" using assms(2) by (metis hd_in_set)
  then have "rank (hd (print_specs sp)) < 7" using rank_printed [OF assms(1)] by blast
  then show ?thesis by (auto simp: rank_values)
next
  case False
  then show ?thesis using assms(1)
    by (cases "spec_align sp"; cases "spec_fill sp") (auto simp: print_align_def print_specs_def valid_specs_def)
qed

lemma print_specs_Nil:
  assumes "valid_specs t sp" "print_specs sp = []"
  shows "sp = default_specs"
proof -
  have "spec_align sp = Align_none \<and> spec_sign sp = Sign_none \<and> \<not> spec_alt sp \<and> spec_width sp = 0
      \<and> spec_precision sp < 0 \<and> spec_type sp = CHR 0x00"
    using assms(2) by (cases "spec_align sp"; cases "spec_sign sp")
      (simp_all add: print_specs_def print_align_def print_sign_def print_hash_def print_zero_def print_width_def
        print_precision_def print_type_def split: if_splits)
  with valid_specsD(4,7) [OF assms(1)] show ?thesis by (cases sp) (simp add: default_specs_def)
qed

lemma printed_tails:
  assumes "valid_specs t sp"
  shows "tail_from 6 (print_type sp @ CHR ''}'' # rest)"
    and "tail_from 5 (print_precision sp @ print_type sp @ CHR ''}'' # rest)"
    and "tail_from 4 (print_width sp @ print_precision sp @ print_type sp @ CHR ''}'' # rest)"
    and "tail_from 3 (print_zero sp @ print_width sp @ print_precision sp @ print_type sp @ CHR ''}'' # rest)"
    and "tail_from 2 (print_hash sp @ print_zero sp @ print_width sp @ print_precision sp @ print_type sp @ CHR ''}'' # rest)"
proof -
  show 6: "tail_from 6 (print_type sp @ CHR ''}'' # rest)"
    using valid_specsD(8) [OF assms] by (auto simp: tail_from_def print_type_def rank_name rank_values)
  show 5: "tail_from 5 (print_precision sp @ print_type sp @ CHR ''}'' # rest)"
    using tail_from_mono [OF 6] by - (rule tail_from_append, auto simp: print_precision_def rank_values split: if_splits)
  show 4: "tail_from 4 (print_width sp @ print_precision sp @ print_type sp @ CHR ''}'' # rest)"
    using tail_from_mono [OF 5] rank_dec [of "spec_width sp"]
    by - (rule tail_from_append, auto simp: print_width_def split: if_splits)
  show 3: "tail_from 3 (print_zero sp @ print_width sp @ print_precision sp @ print_type sp @ CHR ''}'' # rest)"
    using tail_from_mono [OF 4] by - (rule tail_from_append, auto simp: print_zero_def rank_values split: if_splits)
  show "tail_from 2 (print_hash sp @ print_zero sp @ print_width sp @ print_precision sp @ print_type sp @ CHR ''}'' # rest)"
    using tail_from_mono [OF 3] by - (rule tail_from_append, auto simp: print_hash_def rank_values split: if_splits)
qed

lemma parse_specs_from_print:
  assumes sp: "valid_specs t sp" and s: "print_specs sp @ CHR ''}'' # rest = c # cs" "c \<noteq> CHR ''}''"
  shows "parse_specs_from t args c cs default_specs n = fmt_ok (sp, n, CHR ''}'' # rest)"
proof -
  define u where "u = print_hash sp @ print_zero sp @ print_width sp @ print_precision sp @ print_type sp @ CHR ''}'' # rest"
  define sp1 where "sp1 = (if spec_align sp = Align_numeric then default_specs
      else default_specs\<lparr>spec_align := spec_align sp, spec_fill := spec_fill sp\<rparr>)"
  have al: "parse_align c cs default_specs n = fmt_ok (sp1, n, print_sign sp @ u)"
  proof (cases "spec_align sp = Align_none \<or> spec_align sp = Align_numeric")
    case True
    let ?v = "print_sign sp @ print_hash sp @ print_zero sp @ print_width sp @ print_precision sp @ print_type sp"
    have pa: "print_align sp = []" using True by (auto simp: print_align_def)
    have ne: "?v \<noteq> []" using s pa by (auto simp: print_specs_def)
    have v: "?v @ CHR ''}'' # rest = c # cs" using s(1) pa by (simp add: print_specs_def)
    have "sp1 = default_specs" using True valid_specsD(4) [OF sp] by (auto simp: sp1_def default_specs_def)
    moreover have "print_sign sp @ u = c # cs" using v by (simp add: u_def)
    ultimately show ?thesis
      using parse_align_nothing [OF ne, of default_specs n rest] rank_printed [OF sp] unfolding v by simp
  next
    case False
    have "print_align sp @ print_sign sp @ u = c # cs" using s(1) by (simp add: print_specs_def u_def)
    with False parse_align_print [OF sp, of default_specs n "print_sign sp @ u"] show ?thesis by (simp add: sp1_def)
  qed
  note tails = printed_tails [OF sp, of rest]
  have f: "spec_sign sp1 = Sign_none" "\<not> spec_alt sp1" "spec_width sp1 = 0" "spec_precision sp1 = - 1" "spec_type sp1 = CHR 0x00"
    "spec_fill sp1 = (if spec_align sp = Align_numeric then '' '' else spec_fill sp)"
    "spec_align sp1 = (if spec_align sp = Align_numeric then Align_none else spec_align sp)"
    by (simp_all add: sp1_def default_specs_def)
  have e: "sp1\<lparr>spec_sign := spec_sign sp, spec_alt := spec_alt sp, spec_align := spec_align sp, spec_fill := spec_fill sp,
      spec_width := spec_width sp, spec_precision := spec_precision sp, spec_type := spec_type sp\<rparr> = sp"
    by (cases sp) (simp add: sp1_def default_specs_def)
  show ?thesis
    unfolding parse_specs_from_def al
    using s(2) e by (simp add: u_def f parse_sign_print [OF sp] parse_hash_print [OF sp] parse_zero_print [OF sp]
        parse_width_print [OF sp] parse_precision_print [OF sp] parse_type_print [OF sp] tails)
qed

lemma parse_format_specs_print:
  assumes "valid_specs t sp"
  shows "parse_format_specs t args (default_specs, n, print_specs sp @ CHR ''}'' # rest) = fmt_ok (sp, n, CHR ''}'' # rest)"
proof -
  obtain c cs where s: "print_specs sp @ CHR ''}'' # rest = c # cs" by (cases "print_specs sp") auto
  show ?thesis
  proof (cases "c = CHR ''}''")
    case False
    then show ?thesis using parse_specs_from_print [OF assms s] by (simp add: parse_format_specs_def s)
  next
    case True
    have "print_specs sp = []"
    proof (rule ccontr)
      assume "print_specs sp \<noteq> []"
      with print_specs_no_brace [OF assms this] s True show False by (cases "print_specs sp") auto
    qed
    with True s print_specs_Nil [OF assms] show ?thesis by (simp add: parse_format_specs_def parse_specs_from_def)
  qed
qed

text \<open>
  C19 [roundtrip] The parser of format specifiers inverts printing them: any fill character and alignment, sign, #,
  0, width, precision and type that the type of the argument allows, printed in this order and followed
  by the closing brace, are read back as they are, stopping at the brace.
\<close>

theorem parse_specs_roundtrip:
  assumes "valid_specs t sp"
  shows "parse_format_specs t args (default_specs, n, print_specs sp @ CHR ''}'' # rest) = fmt_ok (sp, n, CHR ''}'' # rest)"
  by (rule parse_format_specs_print [OF assms])

text \<open>The specifier *^+#12x.\<close>

definition sample_specs :: format_specs where
  "sample_specs = \<lparr>spec_width = 12, spec_precision = - 1, spec_type = CHR ''x'', spec_align = Align_center,
     spec_sign = Sign_plus, spec_alt = True, spec_fill = ''*''\<rparr>"

lemma dec_12: "dec 12 = ''12''"
  by code_simp

lemma print_sample_specs: "print_specs sample_specs = ''*^+#12x''"
  by (simp add: print_specs_def sample_specs_def print_align_def print_sign_def print_hash_def print_zero_def
      print_width_def print_precision_def print_type_def dec_12)

lemma valid_sample_specs: "valid_specs Int_type sample_specs"
  by (simp add: valid_specs_def check_sign_def require_numeric_def is_arithmetic_type_def
      is_integral_type_def max_int_def is_name_start_def sample_specs_def)

theorem parse_specs_roundtrip_witness:
  "parse_format_specs Int_type \<lparr>arg_list = [], arg_names = []\<rparr> (default_specs, 0, ''*^+#12x}!'') = fmt_ok (sample_specs, 0, ''}!'')"
  using parse_specs_roundtrip [OF valid_sample_specs, of "\<lparr>arg_list = [], arg_names = []\<rparr>" 0 "''!''"]
  by (simp add: print_sample_specs)

section \<open>Whole format strings\<close>

datatype piece = Lit string | Field | Spec_field format_specs

fun escape :: "string \<Rightarrow> string" where
  "escape [] = []"
| "escape (c # cs) = (if c = CHR ''{'' \<or> c = CHR ''}'' then [c, c] else [c]) @ escape cs"

fun print_piece :: "piece \<Rightarrow> string" where
  "print_piece (Lit s) = escape s"
| "print_piece Field = ''{}''"
| "print_piece (Spec_field sp) = ''{:'' @ print_specs sp @ ''}''"

definition format_field :: "fmt_args \<Rightarrow> (fmt_arg \<Rightarrow> string fmt_result) \<Rightarrow> handler_state \<Rightarrow> handler_state fmt_result" where
  "format_field args w st =
     fmt_bind (next_arg_id (snd st)) (\<lambda>(k, n1).
       fmt_bind (get_arg k args) (\<lambda>a. fmt_bind (w a) (\<lambda>txt. fmt_ok (fst st @ txt, n1))))"

fun format_pieces :: "fmt_locale \<Rightarrow> fmt_args \<Rightarrow> piece list \<Rightarrow> handler_state \<Rightarrow> handler_state fmt_result" where
  "format_pieces loc args [] st = fmt_ok st"
| "format_pieces loc args (Lit s # ps) st = format_pieces loc args ps (on_text s st)"
| "format_pieces loc args (Field # ps) st = fmt_bind (format_field args (write_default loc) st) (format_pieces loc args ps)"
| "format_pieces loc args (Spec_field sp # ps) st =
     fmt_bind (format_field args (write_arg loc sp) st) (format_pieces loc args ps)"

fun pieces_ok :: "fmt_args \<Rightarrow> nat \<Rightarrow> piece list \<Rightarrow> bool" where
  "pieces_ok args k [] \<longleftrightarrow> True"
| "pieces_ok args k (Lit s # ps) \<longleftrightarrow> pieces_ok args k ps"
| "pieces_ok args k (Field # ps) \<longleftrightarrow> pieces_ok args (Suc k) ps"
| "pieces_ok args k (Spec_field sp # ps) \<longleftrightarrow>
     (k < length (arg_list args) \<longrightarrow> valid_specs (type_of_arg (arg_list args ! k)) sp) \<and> pieces_ok args (Suc k) ps"

lemma scan_small_pend: "scan_small loc args pend s st = scan_small loc args [] s (on_text pend st)"
proof (induction s arbitrary: pend st)
  case (Cons c cs)
  show ?case
  proof (cases "c = CHR ''{'' \<or> c = CHR ''}''")
    case True
    then show ?thesis by (cases cs) auto
  next
    case False
    then show ?thesis using Cons [of "pend @ [c]" st] Cons [of "[c]" "on_text pend st"] by simp
  qed
qed simp

lemma scan_small_escape: "scan_small loc args [] (escape s @ rest) st = scan_small loc args [] rest (on_text s st)"
proof (induction s arbitrary: st)
  case (Cons c cs)
  consider "c = CHR ''{''" | "c = CHR ''}''" | "c \<noteq> CHR ''{''" "c \<noteq> CHR ''}''" by blast
  then show ?case
  proof cases
    case 1
    then show ?thesis using Cons by (simp add: parse_replacement_field_def)
  next
    case 2
    then show ?thesis using Cons by simp
  next
    case 3
    then show ?thesis using Cons scan_small_pend [of loc args "[c]" "escape cs @ rest" st] by simp
  qed
qed simp

lemma scan_small_field:
  "scan_small loc args [] (''{}'' @ rest) st
    = fmt_bind (format_field args (write_default loc) st) (\<lambda>st1. scan_small loc args [] rest st1)"
proof (cases "next_arg_id (snd st)")
  case (Some x)
  then show ?thesis
  proof (cases x)
    case (Inr y)
    obtain k n1 where y: "y = (k, n1)" by force
    with Some Inr have n: "next_arg_id (snd st) = fmt_ok (k, n1)" by simp
    show ?thesis
    proof (cases "get_arg k args")
      case (Some z)
      then show ?thesis
      proof (cases z)
        case (Inr a)
        with Some n show ?thesis
          by (cases "write_default loc a"; cases "the (write_default loc a)")
            (simp_all add: parse_replacement_field_def on_replacement_field_def format_field_def on_text_def)
      qed (simp add: n parse_replacement_field_def on_replacement_field_def format_field_def)
    qed (simp add: n parse_replacement_field_def on_replacement_field_def format_field_def)
  qed (simp add: parse_replacement_field_def format_field_def)
qed (simp add: parse_replacement_field_def format_field_def)

lemma on_format_specs_print:
  assumes "get_arg k args = fmt_ok a" "valid_specs (type_of_arg a) sp"
  shows "on_format_specs loc args k (print_specs sp @ CHR ''}'' # rest) st
    = fmt_bind (write_arg loc sp a) (\<lambda>txt. fmt_ok (CHR ''}'' # rest, fst st @ txt, snd st))"
  using parse_format_specs_print [OF assms(2)] assms(1) by (simp add: on_format_specs_def)

lemma scan_small_spec_field:
  assumes "snd st = int k" "k < length (arg_list args) \<longrightarrow> valid_specs (type_of_arg (arg_list args ! k)) sp"
  shows "scan_small loc args [] (''{:'' @ print_specs sp @ CHR ''}'' # rest) st
    = fmt_bind (format_field args (write_arg loc sp) st) (\<lambda>st1. scan_small loc args [] rest st1)"
proof -
  have n: "next_arg_id (snd st) = fmt_ok (k, int k + 1)" by (simp add: next_arg_id_def assms(1))
  have r: "parse_replacement_field loc args (CHR '':'' # print_specs sp @ CHR ''}'' # rest) st
      = fmt_bind (on_format_specs loc args k (print_specs sp @ CHR ''}'' # rest) (fst st, int k + 1)) (\<lambda>(rest1, st1).
          if rest1 = [] \<or> hd rest1 \<noteq> CHR ''}'' then fmt_err ''unknown format specifier'' else fmt_ok (tl rest1, st1))"
    by (simp add: parse_replacement_field_def parse_arg_id_def on_arg_id_def n)
  show ?thesis
  proof (cases "k < length (arg_list args)")
    case False
    then have "get_arg k args = fmt_err ''argument not found''" by (simp add: get_arg_def)
    with r n show ?thesis by (simp add: format_field_def on_format_specs_def)
  next
    case True
    define a where "a = arg_list args ! k"
    have g: "get_arg k args = fmt_ok a" using True by (simp add: get_arg_def a_def)
    have v: "valid_specs (type_of_arg a) sp" using assms(2) True by (simp add: a_def)
    show ?thesis
      by (cases "write_arg loc sp a"; cases "the (write_arg loc sp a)")
        (simp_all add: r on_format_specs_print [OF g v] format_field_def n g)
  qed
qed

lemma format_field_count: "format_field args w st = fmt_ok st1 \<Longrightarrow> snd st = int k \<Longrightarrow> snd st1 = int (Suc k)"
  by (auto simp: format_field_def next_arg_id_def elim!: fmt_bind_okE split: if_splits)

lemma scan_small_pieces:
  "pieces_ok args k ps \<Longrightarrow> snd st = int k \<Longrightarrow>
    scan_small loc args [] (concat (map print_piece ps)) st = format_pieces loc args ps st"
proof (induction args k ps arbitrary: st rule: pieces_ok.induct)
  case (2 args k s ps)
  then show ?case using scan_small_escape [of loc args s "concat (map print_piece ps)" st] by (simp add: on_text_def)
next
  case (3 args k ps)
  have "scan_small loc args [] (concat (map print_piece (Field # ps))) st
      = fmt_bind (format_field args (write_default loc) st) (\<lambda>st1. scan_small loc args [] (concat (map print_piece ps)) st1)"
    using scan_small_field [of loc args "concat (map print_piece ps)" st] by simp
  also have "\<dots> = fmt_bind (format_field args (write_default loc) st) (format_pieces loc args ps)"
    using 3 format_field_count by (intro fmt_bind_cong refl) auto
  finally show ?case by simp
next
  case (4 args k sp ps)
  have "scan_small loc args [] (concat (map print_piece (Spec_field sp # ps))) st
      = fmt_bind (format_field args (write_arg loc sp) st) (\<lambda>st1. scan_small loc args [] (concat (map print_piece ps)) st1)"
    using scan_small_spec_field [of st k args sp loc "concat (map print_piece ps)"] 4 by simp
  also have "\<dots> = fmt_bind (format_field args (write_arg loc sp) st) (format_pieces loc args ps)"
    using 4 format_field_count by (intro fmt_bind_cong refl) auto
  finally show ?case by simp
qed simp

text \<open>
  C20 [functional] A format string made of literal texts (braces doubled), fields {} and fields {:specifiers}, in any
  order and of any length, is formatted piece by piece: the texts as they are, the k-th field by the k-th
  argument in its default form or with the specifiers, and "argument not found" at the first field
  beyond the arguments.
\<close>

theorem format_string_pieces:
  assumes "pieces_ok args 0 ps"
  shows "vformat_to loc (concat (map print_piece ps)) args
    = fmt_bind (format_pieces loc args ps ([], 0)) (\<lambda>st. fmt_ok (fst st))"
  by (simp add: vformat_scan scan_small_pieces [OF assms])

text \<open>A \<open>snprintf\<close> that always fails.\<close>

definition no_snprintf :: snprintf_fn where
  "no_snprintf capacity format precision d = (- 1, [])"

definition no_grouping :: fmt_locale where
  "no_grouping = \<lparr>grouping = [], thousands_sep = CHR '','', decimal_point = CHR ''.'', c_snprintf = no_snprintf\<rparr>"

definition sample_args :: fmt_args where
  "sample_args = \<lparr>arg_list = [Int_arg 255, String_arg ''ok''], arg_names = []\<rparr>"

theorem format_string_pieces_witness:
  "vformat_to no_grouping ''set {{x}} = {:*^+#12x}, {}'' sample_args = fmt_ok ''set {x} = ***+0xff****, ok''"
proof -
  let ?ps = "[Lit ''set {x} = '', Spec_field sample_specs, Lit '', '', Field]"
  have "pieces_ok sample_args 0 ?ps" by (simp add: sample_args_def valid_sample_specs)
  from format_string_pieces [OF this, of no_grouping]
  have "vformat_to no_grouping ''set {{x}} = {:*^+#12x}, {}'' sample_args
      = fmt_bind (format_pieces no_grouping sample_args ?ps ([], 0)) (\<lambda>st. fmt_ok (fst st))"
    by (simp add: print_sample_specs)
  also have "\<dots> = fmt_ok ''set {x} = ***+0xff****, ok''" by code_simp
  finally show ?thesis .
qed

section \<open>Integers\<close>

lemma uint_of_sint_len:
  "uint (w :: 'a :: len word) = (if sint w < 0 then sint w + 2 ^ LENGTH('a) else sint w)"
proof -
  have p: "(2 :: int) ^ LENGTH('a) = 2 * 2 ^ (LENGTH('a) - 1)"
    by (metis One_nat_def Suc_pred len_gt_0 power_Suc)
  have b: "- (2 ^ (LENGTH('a) - 1)) \<le> sint w" "sint w < 2 ^ (LENGTH('a) - 1)" by (rule sint_ge, rule sint_lt)
  have u: "uint w = sint w mod 2 ^ LENGTH('a)" by (simp add: uint_sint take_bit_eq_mod)
  show ?thesis
  proof (cases "sint w < 0")
    case True
    have "sint w mod 2 ^ LENGTH('a) = (sint w + 2 ^ LENGTH('a)) mod 2 ^ LENGTH('a)" by simp
    also have "\<dots> = sint w + 2 ^ LENGTH('a)" using b True p by (intro mod_pos_pos_trivial) linarith+
    finally show ?thesis using u True by simp
  next
    case False
    then have "sint w mod 2 ^ LENGTH('a) = sint w" using b p by (intro mod_pos_pos_trivial) linarith+
    with u False show ?thesis by simp
  qed
qed

lemma unat_abs: "unat (if sint (w :: 'a :: len word) < 0 then 0 - w else w) = nat \<bar>sint w\<bar>"
proof (cases "sint w < 0")
  case True
  have p: "(2 :: int) ^ LENGTH('a) = 2 * 2 ^ (LENGTH('a) - 1)"
    by (metis One_nat_def Suc_pred len_gt_0 power_Suc)
  have u: "uint w = sint w + 2 ^ LENGTH('a)" using uint_of_sint_len [of w] True by simp
  have "uint (- w) = (- uint w) mod 2 ^ LENGTH('a)" by (simp add: uint_word_ariths)
  also have "\<dots> = (- sint w - 2 ^ LENGTH('a)) mod 2 ^ LENGTH('a)" by (simp add: u)
  also have "\<dots> = - sint w mod 2 ^ LENGTH('a)" by simp
  also have "\<dots> = - sint w" using True sint_ge [of w] p by (intro mod_pos_pos_trivial) linarith+
  finally show ?thesis using True by (simp add: unat_eq_nat_uint)
next
  case False
  then show ?thesis using uint_of_sint_len [of w] by (simp add: unat_eq_nat_uint)
qed

lemma sint_minus_negative:
  assumes "0 < sint (w :: 'a :: len word)"
  shows "sint (- w) < 0"
proof (rule ccontr)
  assume n: "\<not> sint (- w) < 0"
  have p: "(2 :: int) ^ LENGTH('a) = 2 * 2 ^ (LENGTH('a) - 1)"
    by (metis One_nat_def Suc_pred len_gt_0 power_Suc)
  have u: "uint w = sint w" "uint (- w) = sint (- w)" using uint_of_sint_len [of w] uint_of_sint_len [of "- w"] n assms by simp_all
  have "uint (- w) = (- uint w) mod 2 ^ LENGTH('a)" by (simp add: uint_word_ariths)
  also have "\<dots> = (2 ^ LENGTH('a) - uint w) mod 2 ^ LENGTH('a)" by simp
  also have "\<dots> = 2 ^ LENGTH('a) - uint w" using assms u(1) sint_lt [of w] p by (intro mod_pos_pos_trivial) linarith+
  finally show False using u sint_lt [of w] sint_lt [of "- w"] p by linarith
qed

text \<open>The value of an integer argument.\<close>

fun arg_int :: "fmt_arg \<Rightarrow> int option" where
  "arg_int (Int_arg i) = Some (sint i)"
| "arg_int (Uint_arg u) = Some (uint u)"
| "arg_int (Long_long_arg i) = Some (sint i)"
| "arg_int (Ulong_long_arg u) = Some (uint u)"
| "arg_int _ = None"

lemma write_arg_integer:
  assumes "arg_int a = Some n"
  shows "\<exists>v. uint_value v = nat \<bar>n\<bar> \<and> write_arg loc sp a = write_integer loc (n < 0) v sp"
proof (cases a)
  case (Int_arg i)
  have "uint_value (abs32 i) = nat \<bar>sint i\<bar>" by (simp only: abs32_def uint_value.simps unat_abs)
  then show ?thesis using assms Int_arg by (intro exI [of _ "abs32 i"]) simp
next
  case (Uint_arg u)
  have "unat u = nat \<bar>uint u\<bar>" by (simp add: abs_of_nonneg)
  moreover have "n = uint u" "\<not> n < 0" using assms Uint_arg by auto
  ultimately show ?thesis using Uint_arg by (intro exI [of _ "Fmt_u32 u"]) simp
next
  case (Long_long_arg i)
  have "uint_value (abs64 i) = nat \<bar>sint i\<bar>" by (simp only: abs64_def uint_value.simps unat_abs)
  then show ?thesis using assms Long_long_arg by (intro exI [of _ "abs64 i"]) simp
next
  case (Ulong_long_arg u)
  have "unat u = nat \<bar>uint u\<bar>" by (simp add: abs_of_nonneg)
  moreover have "n = uint u" "\<not> n < 0" using assms Ulong_long_arg by auto
  ultimately show ?thesis using Ulong_long_arg by (intro exI [of _ "Fmt_u64 u"]) simp
qed (use assms in simp_all)

definition base_of :: "char \<Rightarrow> nat" where
  "base_of t = (if t = CHR ''x'' \<or> t = CHR ''X'' then 16 else if t = CHR ''b'' \<or> t = CHR ''B'' then 2
     else if t = CHR ''o'' then 8 else 10)"

definition base_prefix :: "format_specs \<Rightarrow> nat \<Rightarrow> string" where
  "base_prefix sp v =
     (if \<not> spec_alt sp \<or> base_of (spec_type sp) = 10 then []
      else if spec_type sp = CHR ''o'' then (if v = 0 then [] else ''0'')
      else [CHR ''0'', spec_type sp])"

lemma fill_n_single: "fill_n n [f] = replicate n f"
  by (induction n) (simp_all add: fill_n_def)

lemma write_int_shape:
  assumes "spec_fill sp = [f]" "spec_precision sp = - 1" "spec_width sp \<le> max_int"
  shows "\<exists>l z r. write_int (length ds) pre sp (Some ds) = Some (replicate l f @ pre @ replicate z (CHR ''0'') @ ds @ replicate r f)
    \<and> l + length pre + z + length ds + r = max (spec_width sp) (length pre + length ds)
    \<and> (if spec_align sp = Align_numeric then l = 0 \<and> r = 0 else z = 0)
    \<and> (spec_align sp = Align_left \<longrightarrow> l = 0) \<and> (spec_align sp \<in> {Align_none, Align_right} \<longrightarrow> r = 0)
    \<and> (spec_align sp = Align_center \<longrightarrow> l = (l + r) div 2)"
proof (cases "spec_align sp = Align_numeric")
  case True
  then show ?thesis using assms
    by (intro exI [of _ 0] exI [of _ "spec_width sp - (length pre + length ds)"])
      (simp add: write_int_def write_int_data_def write_padded_def fill_n_def max_def)
next
  case False
  define pad where "pad = spec_width sp - (length pre + length ds)"
  define l where "l = pad div 2 ^ (right_padding_shifts ! align_index (spec_align sp))"
  have w: "write_int (length ds) pre sp (Some ds) = Some (replicate l f @ pre @ replicate 0 (CHR ''0'') @ ds @ replicate (pad - l) f)"
    using False assms by (auto simp: write_int_def write_int_data_def write_padded_def fill_n_single pad_def l_def Let_def fill_n_def)
  have l: "l \<le> pad" by (simp add: l_def)
  then have "l + (pad - l) = spec_width sp - (length pre + length ds)" unfolding pad_def by simp
  then have len: "l + length pre + 0 + length ds + (pad - l) = max (spec_width sp) (length pre + length ds)" by linarith
  have "pad < 2 ^ 31" using assms(3) by (simp add: pad_def max_int_def)
  then have "(spec_align sp = Align_left \<longrightarrow> l = 0) \<and> (spec_align sp \<in> {Align_none, Align_right} \<longrightarrow> pad - l = 0)
      \<and> (spec_align sp = Align_center \<longrightarrow> l = (l + (pad - l)) div 2)"
    using l by (cases "spec_align sp") (simp_all add: l_def right_padding_shifts_def align_index_def)
  with w len False show ?thesis by (intro exI [of _ l] exI [of _ 0] exI [of _ "pad - l"]) simp
qed

lemma base_value_dec: "base_value 10 0 (dec n) = n"
proof (induction n rule: dec.induct)
  case (1 n)
  have d: "hex_value (digit_char k) = k" if "k < 10" for k using that by (simp add: hex_value_def digit_char_def)
  show ?case
    by (cases "n < 10") (simp_all add: dec_small dec_step base_value_def d 1 [unfolded base_value_def])
qed

lemma write_integer_digits:
  assumes "spec_type sp \<in> {CHR 0x00, CHR ''d'', CHR ''x'', CHR ''X'', CHR ''b'', CHR ''B'', CHR ''o''}" "spec_precision sp = - 1"
  shows "\<exists>ds. write_integer loc neg v sp = map_option Inr (write_int (length ds)
        (sign_prefix neg sp @ base_prefix sp (uint_value v)) sp (Some ds))
      \<and> base_value (base_of (spec_type sp)) 0 ds = uint_value v"
proof -
  define pre where "pre = sign_prefix neg sp"
  note n = length_uint_loop [of _ _ "uint_value v" "[]", simplified]
  consider (dec) "spec_type sp = CHR 0x00 \<or> spec_type sp = CHR ''d''"
    | (hex) "spec_type sp = CHR ''x'' \<or> spec_type sp = CHR ''X''"
    | (bin) "spec_type sp = CHR ''b'' \<or> spec_type sp = CHR ''B''" | (oct) "spec_type sp = CHR ''o''"
    using assms(1) by auto
  then show ?thesis
  proof cases
    case dec
    then show ?thesis
      by (intro exI [of _ "dec (uint_value v)"])
        (auto simp: write_integer_def handle_int_type_def on_dec_def Let_def count_digits_uint_length
          decimal_digits_count [unfolded count_digits_uint_length] base_of_def base_prefix_def base_value_dec)
  next
    case hex
    define up where "up = (spec_type sp \<noteq> CHR ''x'')"
    from hex show ?thesis
      using base_value_uint_loop [of 4 up "uint_value v" "[]"]
      by (intro exI [of _ "uint_loop 4 up (uint_value v) []"])
        (auto simp: write_integer_def handle_int_type_def on_hex_def format_uint_count n up_def
          base_of_def base_prefix_def base_value_def)
  next
    case bin
    then show ?thesis
      using base_value_uint_loop [of 1 False "uint_value v" "[]"]
      by (intro exI [of _ "uint_loop 1 False (uint_value v) []"])
        (auto simp: write_integer_def handle_int_type_def on_bin_def format_uint_count n
          base_of_def base_prefix_def base_value_def)
  next
    case oct
    then show ?thesis
      using base_value_uint_loop [of 3 False "uint_value v" "[]"] assms(2)
      by (intro exI [of _ "uint_loop 3 False (uint_value v) []"])
        (auto simp: write_integer_def handle_int_type_def on_oct_def format_uint_count n
          base_of_def base_prefix_def base_value_def)
  qed
qed

text \<open>
  C21 [functional] An integer argument of any type (the least values of the signed ones included) with the type d, x,
  X, b, B, o or none is written as: fill, sign, base prefix, zeros, digits, fill, where the digits denote
  its absolute value in the base, the minus sign is there exactly for negative numbers, the length is
  the larger of the width and what is needed, and the fill is where the alignment says (zeros between
  prefix and digits for the 0 flag).
\<close>

theorem integer_field_text:
  assumes "arg_int a = Some n" "spec_fill sp = [f]" "spec_precision sp = - 1" "spec_width sp \<le> max_int"
    and "spec_type sp \<in> {CHR 0x00, CHR ''d'', CHR ''x'', CHR ''X'', CHR ''b'', CHR ''B'', CHR ''o''}"
  shows "\<exists>l z ds r. let pre = sign_prefix (n < 0) sp @ base_prefix sp (nat \<bar>n\<bar>) in
    write_arg loc sp a = fmt_ok (replicate l f @ pre @ replicate z (CHR ''0'') @ ds @ replicate r f)
    \<and> base_value (base_of (spec_type sp)) 0 ds = nat \<bar>n\<bar>
    \<and> l + length pre + z + length ds + r = max (spec_width sp) (length pre + length ds)
    \<and> (if spec_align sp = Align_numeric then l = 0 \<and> r = 0 else z = 0)
    \<and> (spec_align sp = Align_left \<longrightarrow> l = 0) \<and> (spec_align sp \<in> {Align_none, Align_right} \<longrightarrow> r = 0)
    \<and> (spec_align sp = Align_center \<longrightarrow> l = (l + r) div 2)"
proof -
  obtain v where v: "uint_value v = nat \<bar>n\<bar>" "write_arg loc sp a = write_integer loc (n < 0) v sp"
    using write_arg_integer [OF assms(1)] by blast
  obtain ds where ds: "write_integer loc (n < 0) v sp = map_option Inr (write_int (length ds)
        (sign_prefix (n < 0) sp @ base_prefix sp (uint_value v)) sp (Some ds))"
      "base_value (base_of (spec_type sp)) 0 ds = uint_value v"
    using write_integer_digits [OF assms(5,3)] by blast
  from write_int_shape [OF assms(2-4), of ds "sign_prefix (n < 0) sp @ base_prefix sp (uint_value v)"]
  obtain l z r where s: "write_int (length ds) (sign_prefix (n < 0) sp @ base_prefix sp (uint_value v)) sp (Some ds)
      = Some (replicate l f @ (sign_prefix (n < 0) sp @ base_prefix sp (uint_value v)) @ replicate z (CHR ''0'') @ ds @ replicate r f)"
    "l + length (sign_prefix (n < 0) sp @ base_prefix sp (uint_value v)) + z + length ds + r
      = max (spec_width sp) (length (sign_prefix (n < 0) sp @ base_prefix sp (uint_value v)) + length ds)"
    "if spec_align sp = Align_numeric then l = 0 \<and> r = 0 else z = 0"
    "spec_align sp = Align_left \<longrightarrow> l = 0" "spec_align sp \<in> {Align_none, Align_right} \<longrightarrow> r = 0"
    "spec_align sp = Align_center \<longrightarrow> l = (l + r) div 2" by blast
  show ?thesis unfolding Let_def v(2) ds(1) s(1) v(1) [symmetric]
    by (intro exI [of _ l] exI [of _ z] exI [of _ ds] exI [of _ r]) (use s(2-6) ds(2) in simp)
qed

definition hex_20 :: format_specs where
  "hex_20 = default_specs\<lparr>spec_type := CHR ''x'', spec_width := 20\<rparr>"

lemma hex_20_fields: "spec_fill hex_20 = '' ''" "spec_precision hex_20 = - 1" "spec_width hex_20 = 20" "spec_type hex_20 = CHR ''x''"
  "spec_align hex_20 = Align_none" "spec_sign hex_20 = Sign_none" "\<not> spec_alt hex_20"
  by (simp_all add: hex_20_def default_specs_def)

theorem integer_field_text_witness:
  "\<exists>l ds. write_arg no_grouping hex_20 (Long_long_arg (- (2 ^ 63))) = fmt_ok (replicate l (CHR '' '') @ ''-'' @ ds)
    \<and> base_value 16 0 ds = 2 ^ 63 \<and> l + 1 + length ds = max 20 (1 + length ds)"
proof -
  have s: "arg_int (Long_long_arg (- (2 ^ 63))) = Some (- (2 ^ 63))" by simp
  have pre: "sign_prefix (- (2 ^ 63) < (0 :: int)) hex_20 @ base_prefix hex_20 (nat \<bar>- (2 ^ 63)\<bar>) = ''-''"
    by (simp add: sign_prefix_def base_prefix_def hex_20_fields)
  have "spec_width hex_20 \<le> max_int"
    "spec_type hex_20 \<in> {CHR 0x00, CHR ''d'', CHR ''x'', CHR ''X'', CHR ''b'', CHR ''B'', CHR ''o''}"
    by (simp_all add: hex_20_fields max_int_def)
  from integer_field_text [OF s hex_20_fields(1,2) this, of no_grouping] obtain l z ds r where
    w: "write_arg no_grouping hex_20 (Long_long_arg (- (2 ^ 63)))
      = fmt_ok (replicate l (CHR '' '') @ ''-'' @ replicate z (CHR ''0'') @ ds @ replicate r (CHR '' ''))"
    and v: "base_value (base_of (spec_type hex_20)) 0 ds = nat \<bar>- (2 ^ 63)\<bar>"
    and n: "l + length ''-'' + z + length ds + r = max (spec_width hex_20) (length ''-'' + length ds)"
    and z: "if spec_align hex_20 = Align_numeric then l = 0 \<and> r = 0 else z = 0"
    and r: "spec_align hex_20 \<in> {Align_none, Align_right} \<longrightarrow> r = 0"
    unfolding Let_def pre by (elim exE conjE)
  from z r have "z = 0" "r = 0" by (simp_all add: hex_20_fields)
  with w v n show ?thesis by (intro exI [of _ l] exI [of _ ds]) (simp add: hex_20_fields base_of_def)
qed

section \<open>Grouped digits\<close>

lemma int_div_succ:
  assumes "0 < (g :: int)"
  shows "(k + 1) div g = k div g + (if (k + 1) mod g = 0 then 1 else 0)"
proof -
  define q r where "q = k div g" and "r = k mod g"
  have k: "k = q * g + r" "0 \<le> r" "r < g" using assms by (simp_all add: q_def r_def)
  show ?thesis
  proof (cases "r + 1 < g")
    case True
    have "(k + 1) div g = q \<and> (k + 1) mod g = r + 1"
      using k True by (intro conjI int_div_pos_eq [where r = "r + 1"] int_mod_pos_eq [where q = q]) (simp_all add: mult.commute)
    then show ?thesis using k(2) by (simp add: q_def)
  next
    case False
    then have "k + 1 = (q + 1) * g" using k by (simp add: algebra_simps)
    then show ?thesis using assms by (simp add: q_def)
  qed
qed

text \<open>A locale with groups of one size.\<close>

lemma num_loop_single:
  assumes "0 < g" "g < 127" "0 \<le> k" "length out \<le> sz"
  shows "let total = length out + length ds + nat ((k + int (length ds)) div g - k div g) in
    if total \<le> sz then \<exists>out1. num_loop sep sz [g] k ds out = Some out1 \<and> length out1 = total
    else num_loop sep sz [g] k ds out = None"
  using assms(3,4)
proof (induction ds arbitrary: k out)
  case (Cons d ds)
  show ?case
  proof (cases "length out < sz")
    case False
    then show ?thesis by (simp add: put_front_def Let_def)
  next
    case True
    then have p: "put_front sz d out = Some (d # out)" by (simp add: put_front_def)
    have mono: "(k + 1) div g \<le> (k + int (length (d # ds))) div g" using assms(1) by (intro zdiv_mono1) simp_all
    have shift: "k + 1 + int (length ds) = k + int (length (d # ds))" by simp
    show ?thesis
    proof (cases "(k + 1) mod g = 0")
      case False
      then have "(k + 1) div g = k div g" using int_div_succ [OF assms(1), of k] by simp
      then show ?thesis using Cons.IH [of "k + 1" "d # out"] Cons.prems True p False assms(1,2)
        by (simp add: Let_def shift)
    next
      case sep: True
      have s: "(k + 1) div g = k div g + 1" using int_div_succ [OF assms(1), of k] sep by simp
      show ?thesis
      proof (cases "Suc (length out) < sz")
        case False
        have "0 < nat ((k + int (length (d # ds))) div g - k div g)" using mono s by simp
        then show ?thesis using True False p sep assms(1,2) by (simp add: put_front_def Let_def)
      next
        case True
        have n: "nat ((k + int (length (d # ds))) div g - k div g) = Suc (nat ((k + int (length (d # ds))) div g - (k + 1) div g))"
          using mono s by simp
        have "num_loop sep sz [g] k (d # ds) out = num_loop sep sz [g] (k + 1) ds (sep # d # out)"
          using True p sep assms(1,2) by (simp add: put_front_def)
        then show ?thesis using Cons.IH [of "k + 1" "sep # d # out"] Cons.prems True n by (simp add: Let_def shift)
      qed
    qed
  qed
qed (simp add: Let_def)

lemma grouped_size_single:
  assumes "0 < g" "g < 127" "0 < nd"
  shows "grouped_size [g] nd = nd + nat ((int nd - 1) div g)"
proof (cases "int nd > g")
  case True
  have "(int nd - 1) div g = (int nd - g - 1) div g + 1"
    using assms(1) div_add_self2 [of g "int nd - g - 1"] by (simp add: algebra_simps)
  moreover have "0 \<le> (int nd - g - 1) div g" using True assms(1) by (intro pos_imp_zdiv_nonneg_iff [THEN iffD2]) simp_all
  ultimately show ?thesis using True assms by (simp add: grouped_size_def nat_add_distrib)
next
  case False
  then have "(int nd - 1) div g = 0" using assms(3) by (intro div_pos_pos_trivial) simp_all
  with False show ?thesis by (simp add: grouped_size_def)
qed

lemma on_num_single:
  assumes "grouping loc = [g]" "0 < g" "g < 127" "thousands_sep loc \<noteq> CHR 0x00" "length pre \<le> 1"
  shows "on_num loc v pre sp = None \<longleftrightarrow> g dvd int (length (dec (uint_value v)))"
proof -
  define nd where "nd = length (dec (uint_value v))"
  define sz where "sz = grouped_size [g] nd + length pre"
  define ds where "ds = rev (dec (uint_value v))"
  have nd: "0 < nd" "length ds = nd" by (simp_all add: nd_def ds_def)
  have sz: "sz = nd + nat ((int nd - 1) div g) + length pre"
    by (simp add: sz_def grouped_size_single [OF assms(2,3) nd(1)])
  have q: "int nd div g = (int nd - 1) div g + (if g dvd int nd then 1 else 0)" "0 \<le> (int nd - 1) div g"
    using int_div_succ [OF assms(2), of "int nd - 1"] nd(1) assms(2)
    by (simp_all add: dvd_eq_mod_eq_0 pos_imp_zdiv_nonneg_iff)
  have f: "on_num loc v pre sp =
      Option.bind (num_loop (thousands_sep loc) sz [g] 0 ds []) (\<lambda>out.
        Option.bind (if pre \<noteq> [] then put_front sz (CHR ''-'') out else Some out) (\<lambda>out1.
          map_option (write_padded right_padding_shifts sp sz) (exactly sz out1)))"
    using assms(1,4)
    by (simp add: on_num_def count_digits_uint_length decimal_digits_count [unfolded count_digits_uint_length]
        sz_def ds_def nd_def Let_def cong: if_cong)
  note loop = num_loop_single [OF assms(2,3), of 0 "[]" sz ds "thousands_sep loc", simplified nd(2), simplified]
  show ?thesis
  proof (cases "g dvd int nd")
    case True
    then have t: "nd + nat (int nd div g) = nd + nat ((int nd - 1) div g) + 1" using q by simp
    show ?thesis
    proof (cases pre)
      case Nil
      then have "num_loop (thousands_sep loc) sz [g] 0 ds [] = None" using loop t sz by (simp add: Let_def)
      then show ?thesis using f True nd_def by simp
    next
      case (Cons c cs)
      then have "length pre = 1" using assms(5) by simp
      then have "nd + nat (int nd div g) = sz" using t sz by simp
      then obtain out where "num_loop (thousands_sep loc) sz [g] 0 ds [] = Some out" "length out = sz"
        using loop by (auto simp: Let_def)
      then show ?thesis using f True nd_def Cons by (simp add: put_front_def)
    qed
  next
    case False
    then have t: "nd + nat (int nd div g) + length pre = sz" using q sz by simp
    then obtain out where o: "num_loop (thousands_sep loc) sz [g] 0 ds [] = Some out" "length out + length pre = sz"
      using loop by (auto simp: Let_def)
    have "\<exists>s. on_num loc v pre sp = Some s"
    proof (cases pre)
      case Nil
      then show ?thesis using f o by (simp add: exactly_def)
    next
      case (Cons c cs)
      then have "length pre = 1" using assms(5) by simp
      then show ?thesis using f o Cons by (simp add: put_front_def exactly_def)
    qed
    then show ?thesis using False nd_def by auto
  qed
qed

text \<open>
  C39 [error] The locale-aware type L is wrong in a locale that groups digits (a group size of 1 to 126 and a separator): the
  writer puts a separator in front of the first digit, outside of its buffer, exactly when the number of digits is a
  multiple of the group size (123 in groups of three), for every number and specifiers; and it writes a minus sign for any
  sign, so that {:+L} of a positive number prints the negative one.
\<close>

theorem grouped_digits_out_of_bounds:
  assumes "grouping loc = [g]" "0 < g" "g < 127" "thousands_sep loc \<noteq> CHR 0x00" "spec_type sp = CHR ''L''"
  shows "(write_arg loc sp (Long_long_arg i) = None \<longleftrightarrow> g dvd int (length (dec (nat \<bar>sint i\<bar>))))
    \<and> (spec_sign sp = Sign_plus \<and> 0 < sint i \<longrightarrow> write_arg loc sp (Long_long_arg i) = write_arg loc sp (Long_long_arg (- i)))"
proof (intro conjI impI)
  have w: "write_arg loc sp (Long_long_arg k) = map_option Inr (on_num loc (abs64 k) (sign_prefix (sint k < 0) sp) sp)" for k
    using assms(5) by (simp add: write_integer_def handle_int_type_def Let_def)
  have u: "uint_value (abs64 i) = nat \<bar>sint i\<bar>" by (simp only: abs64_def uint_value.simps unat_abs)
  have p: "length (sign_prefix (sint i < 0) sp) \<le> 1" by (simp add: sign_prefix_def)
  show "write_arg loc sp (Long_long_arg i) = None \<longleftrightarrow> g dvd int (length (dec (nat \<bar>sint i\<bar>)))"
    unfolding w using on_num_single [OF assms(1-4) p, of "abs64 i" sp] by (simp add: u)
  assume "spec_sign sp = Sign_plus \<and> 0 < sint i"
  then have neg: "sint (- i) < 0" "\<not> sint i < 0" and s: "sign_prefix (sint i < 0) sp = ''+''" "sign_prefix (sint (- i) < 0) sp = ''-''"
    using sint_minus_negative [of i] by (auto simp: sign_prefix_def)
  have "abs64 (- i) = abs64 i" using neg by (simp add: abs64_def)
  then show "write_arg loc sp (Long_long_arg i) = write_arg loc sp (Long_long_arg (- i))"
    using assms(1,4) unfolding w s by (simp add: on_num_def Let_def)
qed

definition thousands :: fmt_locale where
  "thousands = \<lparr>grouping = [3], thousands_sep = CHR '','', decimal_point = CHR ''.'', c_snprintf = no_snprintf\<rparr>"

definition plus_L :: format_specs where
  "plus_L = default_specs\<lparr>spec_type := CHR ''L'', spec_sign := Sign_plus\<rparr>"

theorem grouped_digits_out_of_bounds_witness:
  "write_arg thousands plus_L (Long_long_arg 123) = None
    \<and> write_arg thousands plus_L (Long_long_arg 1234) = write_arg thousands plus_L (Long_long_arg (- 1234))
    \<and> write_arg thousands plus_L (Long_long_arg (- 1234)) = fmt_ok ''-1,234''"
proof -
  have l: "grouping thousands = [3]" "(0 :: int) < 3" "(3 :: int) < 127" "thousands_sep thousands \<noteq> CHR 0x00" "spec_type plus_L = CHR ''L''"
    by (simp_all add: thousands_def plus_L_def)
  have "dec 123 = ''123''" by code_simp
  then have "write_arg thousands plus_L (Long_long_arg 123) = None"
    using grouped_digits_out_of_bounds [OF l, of 123] by simp
  moreover have "write_arg thousands plus_L (Long_long_arg 1234) = write_arg thousands plus_L (Long_long_arg (- 1234))"
    using grouped_digits_out_of_bounds [OF l, of 1234] by (simp add: plus_L_def)
  moreover have "write_arg thousands plus_L (Long_long_arg (- 1234)) = fmt_ok ''-1,234''"
  proof -
    have d: "dec 1234 = ''1234''" by code_simp
    have a: "abs64 (- 1234) = Fmt_u64 1234" by (simp add: abs64_def)
    have n: "count_digits_uint (Fmt_u64 1234) = 4" by (simp add: count_digits_uint_length d)
    have dd: "decimal_digits (Fmt_u64 1234) 4 = Some ''1234''"
      using decimal_digits_count [of "Fmt_u64 1234"] unfolding n by (simp add: d)
    have g: "grouped_size [3] 4 = 5" "num_loop CHR '','' 6 [3] 0 (rev ''1234'') [] = Some ''1,234''" by code_simp+
    have "on_num thousands (Fmt_u64 1234) ''-'' plus_L = Some ''-1,234''"
      using g unfolding on_num_def n Let_def dd
      by (simp add: thousands_def plus_L_def default_specs_def put_front_def exactly_def write_padded_def fill_n_def)
    then show ?thesis
      by (simp add: write_integer_def handle_int_type_def sign_prefix_def a plus_L_def default_specs_def)
  qed
  ultimately show ?thesis by blast
qed

end
