(* ===== verification/Log_Format.thy ===== *)
theory Log_Format imports Logger_Delivery Fmt_Theorems begin

text \<open>
  \<open>logger::log_\<close> (spdlog/logger.h) with the model of \<open>fmt::format_to\<close>: a call with a format string
  and arguments, from the parsing of the format string to the text of a sink.
\<close>

text \<open>The arguments are formatted if the logger is enabled for the level or keeps a backtrace.\<close>

definition log_args ::
  "'c sink_env \<Rightarrow> fmt_locale \<Rightarrow> nat \<Rightarrow> nat \<Rightarrow> source_loc \<Rightarrow> level_enum \<Rightarrow> string \<Rightarrow> fmt_args \<Rightarrow> logger \<Rightarrow> 'c log_world
    \<Rightarrow> (logger \<times> 'c log_world) option" where
  "log_args env locl depth this loc lvl f args lg w =
     (if \<not> lg_should_log lvl lg \<and> \<not> bt_enabled (lg_tracer lg) then Some (lg, w)
      else Option.bind (vformat_to locl f args) (\<lambda>formatted. log_formatted env depth this loc lvl formatted lg w))"

definition log_message :: "'c sink_env \<Rightarrow> source_loc \<Rightarrow> level_enum \<Rightarrow> string \<Rightarrow> logger \<Rightarrow> 'c log_world \<Rightarrow> log_msg" where
  "log_message env loc lvl txt lg w = make_log_msg (world_now env w) (this_thread env) loc (lg_name lg) lvl txt"

lemma log_args_error:
  assumes "lg_level lg \<le> lvl \<or> bt_enabled (lg_tracer lg)" "vformat_to locl f args = fmt_err e"
  shows "log_args env locl depth this loc lvl f args lg w = Some (lg, err_handler env lg (Format_error e) w)"
  using assms by (auto simp: log_args_def log_formatted_def lg_should_log_def Let_def)

lemma log_args_plain:
  assumes "lg_pool lg = None" "lg_level lg \<le> lvl" "vformat_to locl f args = fmt_ok s"
    and "log_args env locl depth this loc lvl f args lg w = Some (lg1, w1)"
  obtains m where "plain_sink_it env depth lg (log_message env loc lvl s lg w) w = Some (m, w1)"
proof -
  from assms(2-4) have l: "log_formatted env depth this loc lvl (Inr s) lg w = Some (lg1, w1)"
    by (simp add: log_args_def lg_should_log_def)
  from l assms(1,2) that show ?thesis
    by (auto simp: log_formatted_def log_it_def lg_sink_it_def lg_should_log_def log_message_def Let_def bind_eq_Some_conv
        split: if_splits sum.splits)
qed

lemma log_args_run:
  assumes "lg_pool lg = None" "lg_level lg \<le> lvl" "\<not> bt_enabled (lg_tracer lg)" "vformat_to locl f args = fmt_ok s"
    and "plain_sink_it env depth lg (log_message env loc lvl s lg w) w = Some (m, w1)"
  shows "log_args env locl depth this loc lvl f args lg w = Some (lg, w1)"
  using assms
  by (simp add: log_args_def log_formatted_def log_it_def lg_sink_it_def lg_should_log_def log_message_def Let_def)

text \<open>
  C9 [safety] A log call with a format string made of texts and fields, on a logger that is not asynchronous and is
  enabled for the level: when the arguments fit, an ostream sink of the logger, whatever its pattern and level
  below that of the call, gets exactly the line that its formatter makes of the formatted text, whatever the
  other sinks do (they are not distributing ones and write to other streams; custom flags of the user neither
  read the color range nor change more than that of a message); when they do not fit,
  no sink is touched and the error goes to the logger's handler alone; and a logger that is disabled for
  the level and keeps no backtrace does not look at the format string at all.
\<close>

theorem log_call_formats_and_delivers:
  assumes "pieces_ok args 0 ps" "f = concat (map print_piece ps)" "lg_pool lg = None" "lg_level lg \<le> lvl"
    and "custom_flags_plain (format_env env)" "lg_sinks lg = as @ a # bs"
    and "sink_at (sinks_part w) a = Some (Ostream_sink x)" "sink_level x \<le> lvl"
    and "other_leaves (stream x) (as @ bs) (sinks_part w)"
    and "log_args env locl (Suc d) this loc lvl f args lg w = Some (lg1, w1)"
  shows "(case format_pieces locl args ps ([], 0) of
      Some (Inr (s, n)) \<Rightarrow>
        (\<exists>pf m2 l. pf_format (format_env env) (sink_formatter x) (log_message env loc lvl s lg w) [] = Some (pf, m2, l)
          \<and> fst (streams (sinks_part w1) (stream x)) = fst (streams (sinks_part w) (stream x)) @ l)
    | Some (Inl e) \<Rightarrow> sinks_part w1 = sinks_part w \<and> lg1 = lg \<and> w1 = err_handler env lg (Format_error e) w
    | None \<Rightarrow> False)
    \<and> (\<not> bt_enabled (lg_tracer lg) \<and> \<not> lg_level lg \<le> lvl'
      \<longrightarrow> log_args env locl (Suc d) this loc lvl' g args lg w = Some (lg, w))"
proof -
  have v: "vformat_to locl f args = fmt_bind (format_pieces locl args ps ([], 0)) (\<lambda>st. fmt_ok (fst st))"
    unfolding assms(2) by (simp add: vformat_scan scan_small_pieces [OF assms(1)])
  have quiet: "\<not> bt_enabled (lg_tracer lg) \<and> \<not> lg_level lg \<le> lvl'
      \<longrightarrow> log_args env locl (Suc d) this loc lvl' g args lg w = Some (lg, w)"
    by (simp add: log_args_def lg_should_log_def)
  have "case format_pieces locl args ps ([], 0) of
      Some (Inr (s, n)) \<Rightarrow>
        (\<exists>pf m2 l. pf_format (format_env env) (sink_formatter x) (log_message env loc lvl s lg w) [] = Some (pf, m2, l)
          \<and> fst (streams (sinks_part w1) (stream x)) = fst (streams (sinks_part w) (stream x)) @ l)
    | Some (Inl e) \<Rightarrow> sinks_part w1 = sinks_part w \<and> lg1 = lg \<and> w1 = err_handler env lg (Format_error e) w
    | None \<Rightarrow> False"
  proof (cases "format_pieces locl args ps ([], 0)")
    case None
    then show ?thesis using v assms(4,10) by (simp add: log_args_def lg_should_log_def fmt_bind_def)
  next
    case (Some r)
    show ?thesis
    proof (cases r)
      case (Inl e)
      then have "vformat_to locl f args = fmt_err e" using v Some by simp
      from log_args_error [OF _ this, of lg lvl env "Suc d" this loc w] assms(4,10) show ?thesis using Some Inl by simp
    next
      case (Inr st)
      then have "vformat_to locl f args = fmt_ok (fst st)" using v Some by simp
      from log_args_plain [OF assms(3,4) this assms(10)]
      obtain m where m: "plain_sink_it env (Suc d) lg (log_message env loc lvl (fst st) lg w) w = Some (m, w1)" .
      have lv: "sink_level x \<le> level (log_message env loc lvl (fst st) lg w)"
        using assms(8) by (simp add: log_message_def make_log_msg_def)
      from isolates_sinks [OF assms(5-7) lv assms(9) m] show ?thesis using Some Inr by (auto simp: split_beta)
    qed
  qed
  with quiet show ?thesis by blast
qed

definition later_disk :: "unit sink_env" where
  "later_disk = full_disk\<lparr>files_env := (files_env full_disk)\<lparr>os_now := (\<lambda>os. 5 * ns_per_sec)\<rparr>\<rparr>"

definition sample_pieces :: "piece list" where
  "sample_pieces = [Lit ''set {x} = '', Spec_field sample_specs, Lit '', '', Field]"

definition sample_format :: string where
  "sample_format = ''set {{x}} = {:*^+#12x}, {}''"

lemma sample_pieces_ok: "pieces_ok args 0 sample_pieces \<longleftrightarrow>
    (case arg_list args of [] \<Rightarrow> True | a # as \<Rightarrow> valid_specs (type_of_arg a) sample_specs)"
  by (cases "arg_list args") (simp_all add: sample_pieces_def)

text \<open>The first sink is on a full disk; one call fits its arguments and one does not.\<close>

theorem log_call_formats_and_delivers_witness:
  "\<exists>lg1 w1. log_args later_disk no_grouping (Suc 0) 7 no_source Warn sample_format sample_args
        (lg_set_error_handler (Some 9) (new_logger ''db'' [1, 2])) two_sinks = Some (lg1, w1)
    \<and> fst (streams (sinks_part w1) 1) = full_line
        (make_log_msg (5 * ns_per_sec) 1 no_source ''db'' Warn ''set {x} = ***+0xff****, ok'') sample_tm @ [CHR 0x0A]"
proof -
  define lg where "lg = lg_set_error_handler (Some 9) (new_logger ''db'' [1, 2])"
  define m where "m = make_log_msg (5 * ns_per_sec) 1 no_source ''db'' Warn ''set {x} = ***+0xff****, ok''"
  have p: "pieces_ok sample_args 0 sample_pieces" "sample_format = concat (map print_piece sample_pieces)"
    by (simp_all add: sample_pieces_ok sample_args_def valid_sample_specs sample_format_def sample_pieces_def print_sample_specs)
  have fp: "format_pieces no_grouping sample_args sample_pieces ([], 0) = fmt_ok (''set {x} = ***+0xff****, ok'', 2)"
    unfolding sample_pieces_def by code_simp
  have lg: "lg_pool lg = None" "lg_level lg \<le> Warn" "lg_sinks lg = [1] @ 2 # []" "lg_name lg = ''db''" "\<not> bt_enabled (lg_tracer lg)"
    by (simp_all add: lg_def lg_set_error_handler_def new_logger_def less_eq_level_enum_def new_backtracer_def bt_enabled_def)
  have env: "write_room (files_env later_disk) = (\<lambda>os i. 0)" "format_env later_disk = sample_env" "this_thread later_disk = 1"
    "world_now later_disk two_sinks = 5 * ns_per_sec"
    by (simp_all add: later_disk_def full_disk_def world_now_def)
  have m: "log_message later_disk no_source Warn ''set {x} = ***+0xff****, ok'' lg two_sinks = m"
    "formattable m" "duration_cast ns_per_sec (time m) \<noteq> 0" "level m = Warn"
    by (simp_all add: log_message_def env lg(4) m_def formattable_def make_log_msg_def source_empty_def no_source_def
      duration_cast_def ns_per_sec_def)
  have a: "sink_at (sinks_part two_sinks) 2 = Some (Ostream_sink working_stream)" by (simp add: two_sinks_def)
  have c: "caches_ok (format_env later_disk) Local_time [CHR 0x0A] (sink_formatter working_stream)"
    by (simp add: working_stream_def default_formatter_ok env)
  have cc: "custom_flags_plain (format_env later_disk)" by (simp add: env custom_const_sample)
  have l: "sink_level working_stream \<le> Warn" by (simp add: working_stream_def less_eq_level_enum_def)
  have o: "other_leaves (stream working_stream) ([1] @ []) (sinks_part two_sinks)"
    by (simp add: other_leaves_def two_sinks_def working_stream_def)
  have v: "vformat_to no_grouping sample_format sample_args = fmt_ok ''set {x} = ***+0xff****, ok''"
    unfolding p(2) by (simp add: vformat_scan scan_small_pieces [OF p(1)] fp)
  from two_sinks_run [OF m(2-4) env(1,2)] obtain m1 w1 where "plain_sink_it later_disk (Suc 0) lg m two_sinks = Some (m1, w1)"
    unfolding lg_def by blast
  from log_args_run [OF lg(1,2,5) v, of later_disk "Suc 0" no_source two_sinks, unfolded m(1), OF this]
  have g: "log_args later_disk no_grouping (Suc 0) 7 no_source Warn sample_format sample_args lg two_sinks = Some (lg, w1)" .
  from log_call_formats_and_delivers [OF p lg(1,2) cc lg(3) a l o g, THEN conjunct1] obtain pf m2 line where
    "pf_format (format_env later_disk) (sink_formatter working_stream) m [] = Some (pf, m2, line)"
    "fst (streams (sinks_part w1) (stream working_stream)) = fst (streams (sinks_part two_sinks) (stream working_stream)) @ line"
    by (auto simp: fp m(1))
  with pf_format_caches [OF c m(2,3), of "[]"]
  have "fst (streams (sinks_part w1) 1) = full_line m sample_tm @ [CHR 0x0A]"
    by (auto simp: two_sinks_def working_stream_def get_time_def sample_env_def env)
  with g show ?thesis unfolding m_def lg_def by blast
qed

end
