(* ===== verification/Periodic_Worker.thy ===== *)
theory Periodic_Worker imports Registry begin

text \<open>
  \<open>periodic_worker\<close> (spdlog/details/periodic_worker-inl.h): a thread that calls a function every interval
  until the destructor stops it, and its use by \<open>registry::flush_every\<close>.

  The state is the flag \<open>active_\<close>, the owner of \<open>mutex_\<close>, where the two threads are, and the state the
  callback works on.  A step is one of them acquiring or giving back the mutex, a wake-up of
  \<open>cv_.wait_for\<close> (by the notification, by the interval's end, or for no reason) or a call of the callback,
  during which the thread keeps the mutex.  An exception of the callback leaves the thread's function, which
  ends the process (\<open>std::terminate\<close>).
\<close>

section \<open>The model\<close>

datatype pw_owner = Nobody | The_worker | The_destructor

text \<open>
  The thread: about to construct \<open>lock\<close>, about to evaluate the predicate (\<open>expired\<close>: after the interval's
  end), waiting, about to call, out of its function, or taken down with the process.
\<close>

datatype pw_thread = No_thread | Locking | Checking bool | Waiting | Calling | Returned | Terminated

datatype pw_destructor = Not_called | To_lock | Clearing | Joining | Joined

record 's worker_state =
  active :: bool
  pw_mutex :: pw_owner
  thread_at :: pw_thread
  destructor_at :: pw_destructor
  shared :: 's

definition pw_construct :: "int \<Rightarrow> 's \<Rightarrow> 's worker_state" where
  "pw_construct interval s = \<lparr>active = (interval > 0), pw_mutex = Nobody,
     thread_at = (if interval > 0 then Locking else No_thread), destructor_at = Not_called, shared = s\<rparr>"

text \<open>One step of the thread; \<open>expires\<close> tells why a wait ends.\<close>

fun worker_step :: "('s \<Rightarrow> ((spdlog_ex + unit) \<times> 's) option) \<Rightarrow> bool \<Rightarrow> 's worker_state \<Rightarrow> 's worker_state option" where
  "worker_step callback expires st =
     (case thread_at st of
        Locking \<Rightarrow> if pw_mutex st = Nobody then Some (st\<lparr>pw_mutex := The_worker, thread_at := Checking False\<rparr>) else None
      | Checking expired \<Rightarrow>
          if \<not> active st then Some (st\<lparr>pw_mutex := Nobody, thread_at := Returned\<rparr>)
          else if expired then Some (st\<lparr>thread_at := Calling\<rparr>)
          else Some (st\<lparr>pw_mutex := Nobody, thread_at := Waiting\<rparr>)
      | Waiting \<Rightarrow>
          if pw_mutex st = Nobody then Some (st\<lparr>pw_mutex := The_worker, thread_at := Checking expires\<rparr>) else None
      | Calling \<Rightarrow>
          map_option (\<lambda>(r, s). case r of
              Inl e \<Rightarrow> st\<lparr>shared := s, thread_at := Terminated\<rparr>
            | Inr _ \<Rightarrow> st\<lparr>shared := s, pw_mutex := Nobody, thread_at := Locking\<rparr>) (callback (shared st))
      | _ \<Rightarrow> None)"

text \<open>One step of \<open>~periodic_worker\<close>: \<open>joinable\<close>, the lock, the flag, \<open>join\<close>.\<close>

fun destructor_step :: "'s worker_state \<Rightarrow> 's worker_state option" where
  "destructor_step st =
     (if thread_at st = Terminated then None
      else case destructor_at st of
        Not_called \<Rightarrow> Some (st\<lparr>destructor_at := (if thread_at st = No_thread then Joined else To_lock)\<rparr>)
      | To_lock \<Rightarrow> if pw_mutex st = Nobody then Some (st\<lparr>pw_mutex := The_destructor, destructor_at := Clearing\<rparr>) else None
      | Clearing \<Rightarrow> Some (st\<lparr>active := False, pw_mutex := Nobody, destructor_at := Joining\<rparr>)
      | Joining \<Rightarrow> if thread_at st = Returned then Some (st\<lparr>destructor_at := Joined\<rparr>) else None
      | Joined \<Rightarrow> None)"

inductive pw_step :: "('s \<Rightarrow> ((spdlog_ex + unit) \<times> 's) option) \<Rightarrow> 's worker_state \<Rightarrow> 's worker_state \<Rightarrow> bool" for callback where
  By_worker: "worker_step callback expires st = Some st' \<Longrightarrow> pw_step callback st st'"
| By_destructor: "destructor_step st = Some st' \<Longrightarrow> pw_step callback st st'"

inductive pw_reach :: "('s \<Rightarrow> ((spdlog_ex + unit) \<times> 's) option) \<Rightarrow> int \<Rightarrow> 's \<Rightarrow> 's worker_state \<Rightarrow> bool"
  for callback interval s where
  Start: "pw_reach callback interval s (pw_construct interval s)"
| Step: "pw_reach callback interval s st \<Longrightarrow> pw_step callback st st' \<Longrightarrow> pw_reach callback interval s st'"

section \<open>The invariant\<close>

definition pw_inv :: "'s worker_state \<Rightarrow> bool" where
  "pw_inv st \<longleftrightarrow>
     (pw_mutex st = The_worker \<longleftrightarrow> (\<exists>b. thread_at st = Checking b) \<or> thread_at st = Calling \<or> thread_at st = Terminated)
   \<and> (pw_mutex st = The_destructor \<longleftrightarrow> destructor_at st = Clearing)
   \<and> (thread_at st = No_thread \<longrightarrow> destructor_at st \<in> {Not_called, Joined})
   \<and> (active st \<longleftrightarrow> thread_at st \<noteq> No_thread \<and> destructor_at st \<notin> {Joining, Joined})
   \<and> (thread_at st = Returned \<longrightarrow> \<not> active st)
   \<and> (destructor_at st = Joined \<longrightarrow> thread_at st \<in> {No_thread, Returned})
   \<and> (thread_at st \<in> {Calling, Terminated} \<longrightarrow> active st)"

lemma pw_inv_construct: "pw_inv (pw_construct interval s)"
  by (simp add: pw_inv_def pw_construct_def)

lemma sum_unit_cases: "\<forall>e. r \<noteq> Inl e \<Longrightarrow> r \<noteq> Inr () \<Longrightarrow> False"
  by (cases r) auto

lemma worker_step_inv: "pw_inv st \<Longrightarrow> worker_step callback expires st = Some st' \<Longrightarrow> pw_inv st'"
  by (auto simp: pw_inv_def dest: sum_unit_cases split: pw_thread.splits if_splits sum.splits)

lemma destructor_step_inv: "pw_inv st \<Longrightarrow> destructor_step st = Some st' \<Longrightarrow> pw_inv st'"
  by (auto simp: pw_inv_def split: pw_destructor.splits if_splits)

lemma pw_step_inv: "pw_step callback st st' \<Longrightarrow> pw_inv st \<Longrightarrow> pw_inv st'"
  by (elim pw_step.cases) (auto dest: worker_step_inv destructor_step_inv simp del: worker_step.simps destructor_step.simps)

lemma pw_reach_inv: "pw_reach callback interval s st \<Longrightarrow> pw_inv st"
  by (induction rule: pw_reach.induct) (auto intro: pw_inv_construct pw_step_inv)

section \<open>Stopping\<close>

text \<open>What the thread and the destructor have left to do once the flag is cleared.\<close>

fun worker_left :: "pw_thread \<Rightarrow> nat" where
  "worker_left Locking = 2"
| "worker_left Waiting = 2"
| "worker_left (Checking expired) = 1"
| "worker_left t = 0"

definition stopping_left :: "'s worker_state \<Rightarrow> nat" where
  "stopping_left st = worker_left (thread_at st) + (if destructor_at st = Joining then 1 else 0)"

definition stopped_part :: "'s worker_state \<Rightarrow> bool" where
  "stopped_part st \<longleftrightarrow> pw_inv st \<and> destructor_at st \<in> {Joining, Joined}"

lemma stopping_step:
  assumes "pw_step callback st st'" "stopped_part st"
  shows "stopped_part st' \<and> stopping_left st' < stopping_left st \<and> shared st' = shared st"
proof -
  have inv: "pw_inv st" "pw_inv st'" using assms pw_step_inv by (auto simp: stopped_part_def)
  have d: "destructor_at st = Joining \<or> destructor_at st = Joined" and a: "\<not> active st" "thread_at st \<noteq> Calling"
    using assms(2) by (auto simp: stopped_part_def pw_inv_def)
  from assms(1) have "stopping_left st' < stopping_left st \<and> shared st' = shared st \<and> destructor_at st' \<in> {Joining, Joined}"
  proof cases
    case (By_worker expires)
    then show ?thesis using a d by (cases "thread_at st") (auto simp: stopping_left_def split: if_splits)
  next
    case By_destructor
    then show ?thesis using d by (auto simp: stopping_left_def split: if_splits)
  qed
  with inv show ?thesis by (simp add: stopped_part_def)
qed

lemma stopping_run:
  "(pw_step callback ^^ n) st st' \<Longrightarrow> stopped_part st
    \<Longrightarrow> stopped_part st' \<and> n + stopping_left st' \<le> stopping_left st \<and> shared st' = shared st"
proof (induction n arbitrary: st')
  case (Suc n)
  then obtain u where u: "(pw_step callback ^^ n) st u" "pw_step callback u st'" by auto
  from stopping_step [OF u(2)] Suc.IH [OF u(1) Suc.prems(2)] show ?case by auto
qed simp

text \<open>Neither side waits for the other once the flag is cleared.\<close>

lemma stopping_progress:
  assumes "stopped_part st" "destructor_at st \<noteq> Joined"
  shows "\<exists>st'. pw_step callback st st'"
proof -
  have j: "destructor_at st = Joining" "pw_mutex st \<noteq> The_destructor" "\<not> active st"
    "thread_at st \<notin> {No_thread, Calling, Terminated}" "pw_mutex st = The_worker \<longleftrightarrow> (\<exists>b. thread_at st = Checking b)"
    using assms by (auto simp: stopped_part_def pw_inv_def)
  then have m: "pw_mutex st = Nobody" if "\<nexists>b. thread_at st = Checking b" using that by (cases "pw_mutex st") auto
  show ?thesis
  proof (cases "thread_at st = Returned")
    case True
    with j(1) have "destructor_step st = Some (st\<lparr>destructor_at := Joined\<rparr>)" by simp
    then show ?thesis by (blast intro: By_destructor)
  next
    case False
    with j m have "\<exists>st'. worker_step callback False st = Some st'" by (cases "thread_at st") auto
    then show ?thesis by (blast intro: By_worker)
  qed
qed

lemma stopped_joined: "stopped_part st \<Longrightarrow> destructor_at st = Joined \<Longrightarrow> stopping_left st = 0"
  by (auto simp: stopped_part_def pw_inv_def stopping_left_def)

text \<open>
  C37 [liveness] Once the destructor of a periodic worker has cleared the flag, it returns after at most three more
  steps of the two threads in whatever order: no step is left exactly when it has joined the thread, and the
  callback is not called again.
\<close>

theorem periodic_worker_stops:
  assumes "pw_reach callback interval s st" "destructor_at st = Joining" "(pw_step callback ^^ n) st st'"
  shows "n \<le> 3 \<and> shared st' = shared st \<and> ((\<nexists>st''. pw_step callback st' st'') \<longleftrightarrow> destructor_at st' = Joined)"
proof -
  have s: "stopped_part st" using pw_reach_inv [OF assms(1)] assms(2) by (simp add: stopped_part_def)
  have "stopping_left st \<le> 3" by (cases "thread_at st") (simp_all add: stopping_left_def)
  with stopping_run [OF assms(3) s] have r: "stopped_part st'" "n \<le> 3" "shared st' = shared st" by auto
  have "\<nexists>st''. pw_step callback st' st''" if "destructor_at st' = Joined"
  proof
    assume "\<exists>st''. pw_step callback st' st''"
    then obtain st'' where "pw_step callback st' st''" ..
    with stopping_step [OF this r(1)] stopped_joined [OF r(1) that] show False by simp
  qed
  with r stopping_progress [OF r(1), of callback] show ?thesis by blast
qed

text \<open>A worker whose thread waits when the destructor stops it.\<close>

theorem periodic_worker_stops_witness:
  "\<exists>st :: nat worker_state. destructor_at st = Joining \<and> thread_at st = Waiting
    \<and> (\<nexists>st'. (pw_step (\<lambda>n. Some (Inr (), n + 1)) ^^ 4) st st')"
proof -
  let ?cb = "\<lambda>n :: nat. Some (Inr () :: spdlog_ex + unit, n + 1)"
  define st :: "nat worker_state" where
    "st = \<lparr>active = False, pw_mutex = Nobody, thread_at = Waiting, destructor_at = Joining, shared = 0\<rparr>"
  let ?c = "pw_construct 1 0 :: nat worker_state"
  have w: "pw_step ?cb ?c (?c\<lparr>pw_mutex := The_worker, thread_at := Checking False\<rparr>)"
    "pw_step ?cb (?c\<lparr>pw_mutex := The_worker, thread_at := Checking False\<rparr>) (?c\<lparr>thread_at := Waiting\<rparr>)"
    by (rule By_worker [where expires = False], simp add: pw_construct_def)+
  have d: "pw_step ?cb (?c\<lparr>thread_at := Waiting\<rparr>) (?c\<lparr>thread_at := Waiting, destructor_at := To_lock\<rparr>)"
    "pw_step ?cb (?c\<lparr>thread_at := Waiting, destructor_at := To_lock\<rparr>)
       (?c\<lparr>thread_at := Waiting, pw_mutex := The_destructor, destructor_at := Clearing\<rparr>)"
    "pw_step ?cb (?c\<lparr>thread_at := Waiting, pw_mutex := The_destructor, destructor_at := Clearing\<rparr>) st"
    by (rule By_destructor, simp add: pw_construct_def st_def)+
  have r: "pw_reach ?cb 1 0 st"
    by (rule pw_reach.Step [OF pw_reach.Step [OF pw_reach.Step [OF pw_reach.Step [OF pw_reach.Step [OF pw_reach.Start w(1)] w(2)]
      d(1)] d(2)] d(3)])
  have "\<nexists>st'. (pw_step ?cb ^^ 4) st st'"
  proof
    assume "\<exists>st'. (pw_step ?cb ^^ 4) st st'"
    then obtain st' where "(pw_step ?cb ^^ 4) st st'" ..
    from periodic_worker_stops [OF r _ this] show False by (simp add: st_def)
  qed
  then show ?thesis by (intro exI [of _ st]) (simp add: st_def)
qed

section \<open>The periodic flush of the registry\<close>

lemma plain_flush_pools: "plain_flush depth lg w = Some w1 \<Longrightarrow> pools w1 = pools w"
  by (auto simp: plain_flush_def)

lemma lg_flush_pools: "lg_flush depth p lg w = Some (Inr (), w1) \<Longrightarrow> pools w tp = None \<Longrightarrow> pools w1 tp = None"
  by (auto simp: lg_flush_def async_flush_def post_async_def dest: plain_flush_pools split: option.splits)

lemma lg_flush_gone:
  "lg_flush depth p lg w = Some (r, w1) \<Longrightarrow> lg_pool lg = Some (tp, policy) \<Longrightarrow> pools w tp = None \<Longrightarrow> r = Inl No_thread_pool"
  by (simp add: lg_flush_def async_flush_def post_async_def)

lemma lg_flush_error: "lg_flush depth p lg w = Some (Inl e, w1) \<Longrightarrow> e = No_thread_pool"
  by (auto simp: lg_flush_def async_flush_def post_async_def split: option.splits)

lemma flush_loggers_gone:
  assumes "flush_loggers depth ls h w = Some (r, w1)" "l \<in> set ls" "h (snd l) = Some lg" "lg_pool lg = Some (tp, policy)"
    and "pools w tp = None"
  shows "r = Inl No_thread_pool"
  using assms
proof (induction ls arbitrary: w)
  case (Cons k ls)
  from Cons.prems(1) obtain kg res w2 where k: "h (snd k) = Some kg" "lg_flush depth (snd k) kg w = Some (res, w2)"
    "(case res of Inl e \<Rightarrow> Some (Inl e, w2) | Inr _ \<Rightarrow> flush_loggers depth ls h w2) = Some (r, w1)"
    by (auto simp: bind_eq_Some_conv)
  show ?case
  proof (cases res)
    case (Inl e)
    then show ?thesis using k lg_flush_error by force
  next
    case (Inr u)
    then have f: "flush_loggers depth ls h w2 = Some (r, w1)" "pools w2 tp = None"
      using k lg_flush_pools Cons.prems(5) by auto
    have "k \<noteq> l" using k(1,2) Inr Cons.prems(3,4,5) lg_flush_gone by fastforce
    then show ?thesis using Cons.IH [OF f(1) _ Cons.prems(3,4) f(2)] Cons.prems(2) by auto
  qed
qed simp

lemma pw_first_call:
  assumes "0 < interval" "callback s = Some (Inl e, s1)"
  shows "\<exists>st. pw_reach callback interval s st \<and> thread_at st = Terminated"
proof -
  let ?c = "pw_construct interval s"
  have w: "pw_step callback ?c (?c\<lparr>pw_mutex := The_worker, thread_at := Checking False\<rparr>)"
    "pw_step callback (?c\<lparr>pw_mutex := The_worker, thread_at := Checking False\<rparr>) (?c\<lparr>thread_at := Waiting\<rparr>)"
    "pw_step callback (?c\<lparr>thread_at := Waiting\<rparr>) (?c\<lparr>pw_mutex := The_worker, thread_at := Checking True\<rparr>)"
    "pw_step callback (?c\<lparr>pw_mutex := The_worker, thread_at := Checking True\<rparr>) (?c\<lparr>pw_mutex := The_worker, thread_at := Calling\<rparr>)"
    "pw_step callback (?c\<lparr>pw_mutex := The_worker, thread_at := Calling\<rparr>)
       (?c\<lparr>pw_mutex := The_worker, thread_at := Terminated, shared := s1\<rparr>)"
    by (rule By_worker [where expires = True], simp add: pw_construct_def assms)+
  have "pw_reach callback interval s (?c\<lparr>pw_mutex := The_worker, thread_at := Terminated, shared := s1\<rparr>)"
    by (rule pw_reach.Step [OF pw_reach.Step [OF pw_reach.Step [OF pw_reach.Step [OF pw_reach.Step [OF pw_reach.Start w(1)] w(2)]
      w(3)] w(4)] w(5)])
  then show ?thesis by (rule_tac exI) (auto intro!: conjI)
qed

text \<open>
  A program that flushes its loggers periodically is terminated if one of the registered loggers is
  asynchronous and its thread pool is gone (replaced by another init_thread_pool, for example): whatever
  the other loggers are, flush_all throws in the periodic thread, where nothing catches it.
\<close>

theorem periodic_flush_terminates:
  assumes "0 < interval" "reg_get name r = Some p" "logger_at r p = Some lg" "lg_pool lg = Some (tp, policy)"
    and "pools (world r) tp = None" "flush_all depth (flush_every interval r) = Some (res, r1)"
  shows "reg_flusher (flush_every interval r) = Some interval \<and> res = Inl No_thread_pool
    \<and> (\<exists>st. pw_reach (flush_all depth) interval (flush_every interval r) st \<and> thread_at st = Terminated)"
proof -
  from assms(6) obtain w where f: "flush_loggers depth (reg_loggers r) (logger_at r) (world r) = Some (res, w)"
    by (auto simp: flush_all_def flush_every_def)
  have "(name, p) \<in> set (reg_loggers r)" using assms(2) by (auto simp: reg_get_def dest: map_of_SomeD)
  from flush_loggers_gone [OF f this _ assms(4,5)] assms(3) have e: "res = Inl No_thread_pool" by simp
  from pw_first_call [OF assms(1)] assms(6) e show ?thesis using assms(1) by (auto simp: flush_every_def)
qed

definition async_registry :: "unit registry" where
  "async_registry = put_logger 2 (new_async_logger ''net'' [] 4 Block) ((reg_construct 1 1 Map.empty (one_sink []))
     \<lparr>reg_loggers := [(''net'', 2)], reg_tp := Some 5\<rparr>)"

theorem periodic_flush_terminates_witness:
  "\<exists>st. pw_reach (flush_all 1) 3 (flush_every 3 async_registry) st \<and> thread_at st = Terminated"
proof -
  have l: "reg_get ''net'' async_registry = Some 2" "logger_at async_registry 2 = Some (new_async_logger ''net'' [] 4 Block)"
    "lg_pool (new_async_logger ''net'' [] 4 Block) = Some (4, Block)" "pools (world async_registry) 4 = None"
    by (simp_all add: async_registry_def reg_get_def put_logger_def reg_construct_def new_async_logger_def one_sink_def)
  have "flush_all 1 (flush_every 3 async_registry) = Some (Inl No_thread_pool, flush_every 3 async_registry)"
    by (simp add: flush_all_def flush_every_def async_registry_def put_logger_def reg_construct_def lg_flush_def
        new_async_logger_def async_flush_def post_async_def one_sink_def)
  from periodic_flush_terminates [OF _ l this] show ?thesis by simp
qed

end
