(* ===== verification/Fp_Facts.thy ===== *)
theory Fp_Facts imports Fmt_Fp Complex_Main begin

text \<open>
  What \<open>fp\<close> computes: the rounded product, both ways.
\<close>

section \<open>Products\<close>

text \<open>The product divided by \<open>2^64\<close>, to the nearest integer, half up.\<close>

definition rounded_product :: "nat \<Rightarrow> nat \<Rightarrow> nat" where
  "rounded_product x y = (x * y + 2 ^ 63) div 2 ^ 64"

lemma rounded_product_bound:
  assumes "x < 2 ^ 64" "y < 2 ^ 64"
  shows "rounded_product x y < 2 ^ 64"
proof -
  have "x \<le> 2 ^ 64 - 1" "y \<le> 2 ^ 64 - 1" using assms by simp_all
  then have "x * y \<le> (2 ^ 64 - 1) * (2 ^ 64 - 1)" by (rule mult_le_mono)
  then have "x * y + 2 ^ 63 < 2 ^ 64 * 2 ^ 64" by simp
  then show ?thesis unfolding rounded_product_def by (rule less_mult_imp_div_less)
qed

lemma unat_drop: "unat (drop_bit k (x :: 'a :: len word)) = unat x div 2 ^ k"
  unfolding unsigned_drop_bit_eq take_bit_nat_eq_self [OF unsigned_less] by (rule drop_bit_eq_div)

lemma unat_and_mask32: "unat (x AND (push_bit 32 1 - 1)) = unat (x :: u64) mod 2 ^ 32"
proof -
  have "push_bit 32 1 - 1 = (mask 32 :: u64)" by (simp add: mask_eq_exp_minus_1 push_bit_eq_mult)
  then have "x AND (push_bit 32 1 - 1) = take_bit 32 x" by (simp only: take_bit_eq_mask)
  then show ?thesis unfolding unsigned_take_bit_eq [symmetric] take_bit_eq_mod [symmetric] by (simp only: unsigned_take_bit_eq)
qed

lemma u64_bound: "unat (x :: u64) < 2 ^ 64"
  using unsigned_less [of x] by simp

lemma unat_add4:
  fixes p q r s :: u64
  assumes "unat p + unat q + unat r + unat s < 2 ^ 64"
  shows "unat (p + q + r + s) = unat p + unat q + unat r + unat s"
  using assms by (simp add: unat_word_ariths mod_add_left_eq)

lemma mult_parts:
  fixes a b c d :: nat
  assumes "b < M" "d < M" "0 < M"
  shows "((M * a + b) * (M * c + d) + M * h) div (M * M)
    = a * c + a * d div M + b * c div M + (b * d div M + a * d mod M + b * c mod M + h) div M"
proof -
  define m where "m = b * d div M + a * d mod M + b * c mod M + h"
  have "(M * a + b) * (M * c + d) + M * h = M * M * (a * c) + M * (a * d) + M * (b * c) + b * d + M * h"
    by (simp add: algebra_simps)
  also have "\<dots> = M * M * (a * c) + M * (M * (a * d div M) + a * d mod M) + M * (M * (b * c div M) + b * c mod M)
      + (M * (b * d div M) + b * d mod M) + M * h" by (simp only: mult_div_mod_eq)
  also have "\<dots> = (M * m + b * d mod M) + M * M * (a * c + a * d div M + b * c div M)"
    by (simp only: m_def distrib_left distrib_right ac_simps)
  finally have "((M * a + b) * (M * c + d) + M * h) div (M * M)
      = a * c + a * d div M + b * c div M + (M * m + b * d mod M) div (M * M)" using assms(3) by simp
  also have "(M * m + b * d mod M) div (M * M) = (M * m + b * d mod M) div M div M" by (simp add: div_mult2_eq)
  also have "(M * m + b * d mod M) div M = m" using assms(3) by simp
  finally show ?thesis by (simp only: m_def)
qed

lemma multiply64_nat: "unat (multiply64 x y) = rounded_product (unat x) (unat y)"
proof -
  define M where "M = (2 :: nat) ^ 32"
  define a b c d where "a = unat x div M" and "b = unat x mod M" and "c = unat y div M" and "d = unat y mod M"
  have M: "0 < M" "M * M = 2 ^ 64" "M * 2 ^ 31 = 2 ^ 63" by (simp_all add: M_def)
  have lt: "a < M" "b < M" "c < M" "d < M"
    using u64_bound [of x] u64_bound [of y] M by (simp_all add: a_def b_def c_def d_def less_mult_imp_div_less)
  have p: "p * q < 2 ^ 64" if "p < M" "q < M" for p q using mult_strict_mono' [OF that] M by simp
  have w: "unat (drop_bit 32 x) = a" "unat (x AND (push_bit 32 1 - 1)) = b" "unat (drop_bit 32 y) = c"
    "unat (y AND (push_bit 32 1 - 1)) = d"
    by (simp_all only: unat_drop unat_and_mask32 a_def b_def c_def d_def M_def)
  let ?a = "drop_bit 32 x" and ?b = "x AND (push_bit 32 1 - 1)" and ?c = "drop_bit 32 y" and ?d = "y AND (push_bit 32 1 - 1)"
  have m: "unat (?a * ?c) = a * c" "unat (?b * ?c) = b * c" "unat (?a * ?d) = a * d" "unat (?b * ?d) = b * d"
    using p lt by (simp_all only: unat_word_ariths w len_num0 len_bit0 len_num1) simp_all
  let ?mid = "drop_bit 32 (?b * ?d) + ((?a * ?d) AND (push_bit 32 1 - 1)) + ((?b * ?c) AND (push_bit 32 1 - 1)) + push_bit 31 1 :: u64"
  define mid where "mid = b * d div M + a * d mod M + b * c mod M + 2 ^ 31"
  have q: "b * d div M < M" "a * d mod M < M" "b * c mod M < M" using p [OF lt(2,4)] M by (simp_all add: less_mult_imp_div_less)
  have "unat (push_bit 31 1 :: u64) = 2 ^ 31" by (simp add: push_bit_eq_mult)
  moreover have "unat (drop_bit 32 (?b * ?d)) = b * d div M" "unat ((?a * ?d) AND (push_bit 32 1 - 1)) = a * d mod M"
    "unat ((?b * ?c) AND (push_bit 32 1 - 1)) = b * c mod M"
    by (simp_all only: unat_drop unat_and_mask32 m M_def)
  moreover have "b * d div M + a * d mod M + b * c mod M + 2 ^ 31 < 2 ^ 64" using q by (simp add: M_def)
  ultimately have mid: "unat ?mid = mid" unfolding mid_def by (subst unat_add4) (simp_all only:)
  have r: "rounded_product (unat x) (unat y) = a * c + a * d div M + b * c div M + mid div M"
  proof -
    have "unat x = M * a + b" "unat y = M * c + d" by (simp_all add: a_def b_def c_def d_def)
    then show ?thesis
      unfolding rounded_product_def M(2,3) [symmetric] mid_def by (simp only: mult_parts [OF lt(2,4) M(1)])
  qed
  have "multiply64 x y = ?a * ?c + drop_bit 32 (?a * ?d) + drop_bit 32 (?b * ?c) + drop_bit 32 ?mid"
    by (simp only: multiply64_def Let_def)
  moreover have "unat \<dots> = a * c + a * d div M + b * c div M + mid div M"
  proof -
    have v: "unat (?a * ?c) = a * c" "unat (drop_bit 32 (?a * ?d)) = a * d div M" "unat (drop_bit 32 (?b * ?c)) = b * c div M"
      "unat (drop_bit 32 ?mid) = mid div M" by (simp_all only: unat_drop m mid M_def)
    show ?thesis
      using rounded_product_bound [OF u64_bound [of x] u64_bound [of y]] unfolding r by (subst unat_add4) (simp_all only: v)
  qed
  ultimately show ?thesis by (simp only: r)
qed

lemma multiply128_nat: "unat (multiply128 x y) = rounded_product (unat x) (unat y)"
proof -
  define p where "p = unat x * unat y"
  let ?p = "(ucast x :: 128 word) * ucast y"
  have u: "unat (ucast z :: 128 word) = unat z" for z :: u64
    using u64_bound [of z] by (simp add: unsigned_ucast_eq take_bit_eq_mod)
  have "p < 2 ^ 64 * 2 ^ 64" unfolding p_def by (intro mult_strict_mono' u64_bound) simp_all
  then have p: "unat ?p = p" by (simp add: unat_word_ariths u p_def)
  have f: "unat (ucast (drop_bit 64 ?p) :: u64) = p div 2 ^ 64"
    using \<open>p < 2 ^ 64 * 2 ^ 64\<close> unfolding unsigned_ucast_eq take_bit_eq_mod unat_drop p by (simp add: less_mult_imp_div_less)
  have b: "(ucast ?p :: u64) AND push_bit 63 1 \<noteq> 0 \<longleftrightarrow> odd (p div 2 ^ 63)"
  proof -
    have "push_bit 63 1 = (2 ^ 63 :: u64)" by (simp add: push_bit_eq_mult)
    then have "(ucast ?p :: u64) AND push_bit 63 1 \<noteq> 0 \<longleftrightarrow> bit (ucast ?p :: u64) 63" by (simp only: and_exp_eq_0_iff_not_bit) simp
    also have "\<dots> \<longleftrightarrow> bit (unat ?p) 63" by (simp add: bit_ucast_iff bit_unsigned_iff)
    finally show ?thesis by (simp only: p bit_iff_odd)
  qed
  have h: "rounded_product (unat x) (unat y) = p div 2 ^ 64 + (if odd (p div 2 ^ 63) then 1 else 0)"
  proof -
    have "(p + 2 ^ 63) div 2 ^ 64 = (p + 2 ^ 63) div 2 ^ 63 div 2" by (simp add: div_mult2_eq [symmetric])
    also have "\<dots> = (p div 2 ^ 63 + 1) div 2" by simp
    also have "\<dots> = p div 2 ^ 63 div 2 + (if odd (p div 2 ^ 63) then 1 else 0)" by auto
    also have "p div 2 ^ 63 div 2 = p div 2 ^ 64" by (simp add: div_mult2_eq [symmetric])
    finally show ?thesis by (simp only: rounded_product_def p_def)
  qed
  have "rounded_product (unat x) (unat y) < 2 ^ 64" by (intro rounded_product_bound u64_bound)
  then show ?thesis unfolding multiply128_def Let_def
    by (cases "odd (p div 2 ^ 63)") (simp_all only: b f h unat_word_ariths if_True if_False; simp)+
qed

text \<open>
  Both versions of multiply, with 128-bit integers and with four 32-bit products, give the same for
  all operands: the product divided by 2^64 and rounded to the nearest integer, half up.
\<close>

theorem multiply_versions_agree:
  "multiply64 x y = multiply128 x y \<and> unat (multiply128 x y) = (unat x * unat y + 2 ^ 63) div 2 ^ 64"
  by (simp add: word_unat_eq_iff multiply64_nat multiply128_nat rounded_product_def)

end
