(* ===== verification/Fmt_Double.thy ===== *)
theory Fmt_Double imports Fmt_Float Complex_Main begin

text \<open>
  What a \<open>double\<close> and a decimal number denote: the values as reals, the midpoints to the neighbouring doubles, and
  the decomposition of the bit pattern by \<open>fp\<close> (spdlog/fmt/bundled/format-inl.h).
\<close>

section \<open>The bit pattern\<close>

lemma unat_take: "unat (take_bit k (x :: 'a :: len word)) = unat x mod 2 ^ k"
  unfolding unsigned_take_bit_eq by (rule take_bit_eq_mod)

lemma unat_push: "unat x * 2 ^ k < 2 ^ 64 \<Longrightarrow> unat (push_bit k (x :: u64)) = unat x * 2 ^ k"
  unfolding unsigned_push_bit_eq by (simp add: push_bit_eq_mult take_bit_nat_eq_self)

lemma unat_implicit_bit: "unat implicit_bit = 2 ^ 52"
  by (simp add: implicit_bit_def)

lemma unat_mantissa: "unat (d AND (implicit_bit - 1)) = unat d mod 2 ^ 52"
proof -
  have "implicit_bit - 1 = mask 52" by (simp add: implicit_bit_def mask_eq_exp_minus_1)
  then have "d AND (implicit_bit - 1) = take_bit 52 d" by (simp only: take_bit_eq_mask)
  then show ?thesis by (simp only: unat_take)
qed

lemma biased_exponent_bits: "biased_exponent d = int (unat d div 2 ^ 52 mod 2 ^ 11)"
proof -
  define M where "M = (drop_bit 1 (NOT 0 :: u64)) AND NOT (implicit_bit - 1)"
  have m: "drop_bit 52 M = mask 11" unfolding M_def implicit_bit_def by code_simp
  have "drop_bit 52 (d AND M) = drop_bit 52 d AND drop_bit 52 M" by (rule drop_bit_and)
  then have "drop_bit 52 (d AND M) = take_bit 11 (drop_bit 52 d)" by (simp only: m take_bit_eq_mask)
  then have "biased_exponent d = int (unat (take_bit 11 (drop_bit 52 d)))" by (simp add: biased_exponent_def M_def)
  also have "unat (take_bit 11 (drop_bit 52 d)) = take_bit 11 (unat (drop_bit 52 d))" by (rule unsigned_take_bit_eq)
  also have "unat (drop_bit 52 d) = unat d div 2 ^ 52"
    unfolding unsigned_drop_bit_eq take_bit_nat_eq_self [OF unsigned_less] by (rule drop_bit_eq_div)
  finally show ?thesis by (simp only: take_bit_eq_mod)
qed

lemma biased_exponent_range: "0 \<le> biased_exponent d \<and> biased_exponent d \<le> 2047"
proof -
  have "unat d div 2 ^ 52 mod 2 ^ 11 < 2 ^ 11" by (rule mod_less_divisor) simp
  then have "int (unat d div 2 ^ 52 mod 2 ^ 11) < 2048" by simp
  then show ?thesis unfolding biased_exponent_bits by simp
qed

lemma is_zero_bits: "is_zero d \<longleftrightarrow> unat d mod 2 ^ 63 = 0"
proof -
  have "push_bit 63 1 - 1 = (mask 63 :: u64)" by (simp add: mask_eq_exp_minus_1)
  then have "is_zero d \<longleftrightarrow> unat (take_bit 63 d) = 0" by (simp only: is_zero_def take_bit_eq_mask unat_eq_zero)
  then show ?thesis by (simp only: unat_take)
qed

lemma magnitude_split: "unat d mod 2 ^ 63 = unat d mod 2 ^ 52 + 2 ^ 52 * (unat d div 2 ^ 52 mod 2 ^ 11)"
  by (simp add: mod_mult2_eq [of _ "2 ^ 52" "2 ^ 11", simplified])

lemma zero_exponent: "is_zero d \<Longrightarrow> biased_exponent d = 0"
  using magnitude_split [of d] unfolding is_zero_bits biased_exponent_bits by simp

lemma and_one_even: "w AND 1 = 0 \<longleftrightarrow> even (unat (w :: u64))"
proof -
  have "(1 :: u64) = mask 1" by simp
  then have "w AND 1 = take_bit 1 w" by (simp only: take_bit_eq_mask)
  then have "unat (w AND 1) = unat w mod 2" by (simp only: unat_take power_one_right)
  then show ?thesis by (metis unat_eq_zero even_iff_mod_2_eq_zero)
qed

section \<open>Values\<close>

definition fp_real :: "fp \<Rightarrow> real" where
  "fp_real v = real (unat (fp_f v)) * 2 powi fp_e v"

definition double_fp :: "u64 \<Rightarrow> fp" where
  "double_fp d = fst (fp_assign d)"

text \<open>The predecessor of a power of two is closer, except for the smallest normal number.\<close>

definition closer :: "u64 \<Rightarrow> bool" where
  "closer d = snd (fp_assign d)"

definition double_value :: "u64 \<Rightarrow> real" where
  "double_value d = fp_real (double_fp d)"

text \<open>The distances to the midpoints.\<close>

definition lower_gap :: "u64 \<Rightarrow> real" where
  "lower_gap d = 2 powi (fp_e (double_fp d) - (if closer d then 2 else 1))"

definition upper_gap :: "u64 \<Rightarrow> real" where
  "upper_gap d = 2 powi (fp_e (double_fp d) - 1)"

text \<open>A number that is read as the \<open>double\<close>, when reading rounds to the nearest and to even.\<close>

definition rounds_to :: "u64 \<Rightarrow> real \<Rightarrow> bool" where
  "rounds_to d y \<longleftrightarrow>
     (if even (unat (fp_f (double_fp d)))
      then double_value d - lower_gap d \<le> y \<and> y \<le> double_value d + upper_gap d
      else double_value d - lower_gap d < y \<and> y < double_value d + upper_gap d)"

lemma fp_assign_cases:
  fixes d :: u64
  defines "m \<equiv> unat d mod 2 ^ 52" and "b \<equiv> biased_exponent d"
  shows "unat (fp_f (double_fp d)) = (if b = 0 then m else 2 ^ 52 + m)"
    and "fp_e (double_fp d) = (if b = 0 then 1 else b) - 1075"
    and "closer d \<longleftrightarrow> m = 0 \<and> 1 < b"
proof -
  have m: "m < 2 ^ 52" by (simp add: m_def)
  have u: "unat (d AND (implicit_bit - 1)) = m" unfolding m_def by (rule unat_mantissa)
  have p: "unat ((d AND (implicit_bit - 1)) + implicit_bit) = m + 2 ^ 52"
    unfolding unat_word_ariths u unat_implicit_bit using m by simp
  show "unat (fp_f (double_fp d)) = (if b = 0 then m else 2 ^ 52 + m)"
    using u p by (simp add: double_fp_def fp_assign_def Let_def b_def make_fp_def)
  show "fp_e (double_fp d) = (if b = 0 then 1 else b) - 1075"
    by (simp add: double_fp_def fp_assign_def Let_def b_def make_fp_def)
  have "d AND (implicit_bit - 1) = 0 \<longleftrightarrow> m = 0" unfolding u [symmetric] by (simp only: unat_eq_zero)
  then show "closer d \<longleftrightarrow> m = 0 \<and> 1 < b"
    by (simp add: closer_def fp_assign_def Let_def b_def)
qed

lemma double_f_bound: "unat (fp_f (double_fp d)) < 2 ^ 53"
proof -
  define m where "m = unat d mod 2 ^ 52"
  have "m < 2 ^ 52" by (simp add: m_def)
  then show ?thesis unfolding fp_assign_cases(1) m_def [symmetric] by simp
qed

lemma double_f_pos:
  assumes "\<not> is_zero d"
  shows "0 < unat (fp_f (double_fp d))"
proof (rule ccontr)
  assume "\<not> 0 < unat (fp_f (double_fp d))"
  then have z: "biased_exponent d = 0" "unat d mod 2 ^ 52 = 0" by (auto simp: fp_assign_cases(1) split: if_splits)
  have "unat d mod 2 ^ 63 = unat d mod 2 ^ 52 + 2 ^ 52 * (unat d div 2 ^ 52 mod 2 ^ 11)" by (rule magnitude_split)
  also have "\<dots> = 0" using z by (simp add: biased_exponent_bits)
  finally show False using assms by (simp add: is_zero_bits)
qed

lemma double_e_range: "- 1074 \<le> fp_e (double_fp d) \<and> fp_e (double_fp d) \<le> 972"
  using biased_exponent_range [of d] by (auto simp: fp_assign_cases(2))

lemma double_value_pos:
  assumes "\<not> is_zero d"
  shows "0 < double_value d"
proof -
  have "0 < real (unat (fp_f (double_fp d)))" using double_f_pos [OF assms] by (simp only: of_nat_0_less_iff)
  then show ?thesis unfolding double_value_def fp_real_def by (intro mult_pos_pos) simp_all
qed

section \<open>Decimal numbers\<close>

definition digits_nat :: "nat list \<Rightarrow> nat" where
  "digits_nat ds = foldl (\<lambda>v d. 10 * v + d) 0 ds"

definition decimal_value :: "nat list \<Rightarrow> int \<Rightarrow> real" where
  "decimal_value ds e = real (digits_nat ds) * 10 powi e"

lemma foldl_digits: "foldl (\<lambda>v d. 10 * v + d) v ds = v * 10 ^ length ds + foldl (\<lambda>v d. 10 * v + d) (0 :: nat) ds"
proof (induction ds arbitrary: v)
  case (Cons d ds)
  show ?case unfolding foldl_Cons Cons [of "10 * v + d"] Cons [of "10 * 0 + d"] by (simp add: algebra_simps)
qed simp

lemma digits_nat_simps [simp]: "digits_nat [] = 0" "digits_nat (d # ds) = d * 10 ^ length ds + digits_nat ds"
  using foldl_digits [of d ds] by (simp_all add: digits_nat_def)

lemma digits_nat_snoc [simp]: "digits_nat (ds @ [d]) = 10 * digits_nat ds + d"
  by (simp add: digits_nat_def)

lemma digits_nat_upper: "list_all (\<lambda>c. c \<le> 9) ds \<Longrightarrow> digits_nat ds < 10 ^ length ds"
proof (induction ds rule: rev_induct)
  case (snoc c ds)
  then have "digits_nat ds + 1 \<le> 10 ^ length ds" "c \<le> 9" by simp_all
  then show ?case by simp
qed simp

lemma digits_nat_lower: "ds \<noteq> [] \<Longrightarrow> hd ds \<noteq> 0 \<Longrightarrow> 10 ^ (length ds - 1) \<le> digits_nat ds"
  by (cases ds) (simp_all add: trans_le_add1)

end
