(* ===== verification/Fp_Tables.thy ===== *)
theory Fp_Tables imports Fmt_Fp Complex_Main begin

text \<open>
  The accuracy of the table of powers of ten of \<open>fp\<close>, and the choice of an entry by \<open>get_cached_power\<close>.
\<close>

section \<open>The cached powers of ten\<close>

text \<open>
  An entry \<open>(s, e)\<close> for \<open>10^k\<close>, \<open>p = 5^|k|\<close>: the significand is normalized and to the nearest, so that the error is
  at most half a unit in its last place.  The tables are checked away from \<open>10^0\<close>, where \<open>p\<close> grows by \<open>5^8\<close>.
\<close>

definition negative_ok :: "int \<Rightarrow> int \<Rightarrow> int \<Rightarrow> int \<Rightarrow> bool" where
  "negative_ok p k s e \<longleftrightarrow> 2 ^ 63 \<le> s \<and> e \<le> k \<and> 2 * \<bar>s * p - 2 ^ nat (k - e)\<bar> \<le> p"

definition positive_ok :: "int \<Rightarrow> int \<Rightarrow> int \<Rightarrow> int \<Rightarrow> bool" where
  "positive_ok p k s e \<longleftrightarrow> 2 ^ 63 \<le> s
     \<and> (if k \<le> e then 2 * \<bar>s * 2 ^ nat (e - k) - p\<bar> \<le> 2 ^ nat (e - k) else s = p * 2 ^ nat (k - e))"

fun negatives_ok :: "int \<Rightarrow> int \<Rightarrow> int list \<Rightarrow> int list \<Rightarrow> bool" where
  "negatives_ok p k (s # ss) (e # es) \<longleftrightarrow> negative_ok p k s e \<and> negatives_ok (p * 390625) (k - 8) ss es"
| "negatives_ok p k ss es \<longleftrightarrow> ss = [] \<and> es = []"

fun positives_ok :: "int \<Rightarrow> int \<Rightarrow> int list \<Rightarrow> int list \<Rightarrow> bool" where
  "positives_ok p k (s # ss) (e # es) \<longleftrightarrow> positive_ok p k s e \<and> positives_ok (p * 390625) (k + 8) ss es"
| "positives_ok p k ss es \<longleftrightarrow> ss = [] \<and> es = []"

lemma positives: "positives_ok 625 4 (map uint (drop 44 pow10_significands)) (drop 44 pow10_exponents)"
  by code_simp

lemma negatives: "negatives_ok 625 (- 4) (rev (map uint (take 44 pow10_significands))) (rev (take 44 pow10_exponents))"
  by code_simp

lemma positives_nth:
  "positives_ok p k ss es \<Longrightarrow> i < length ss \<Longrightarrow> positive_ok (p * 390625 ^ i) (k + 8 * int i) (ss ! i) (es ! i)"
proof (induction p k ss es arbitrary: i rule: positives_ok.induct)
  case (1 p k s ss e es)
  then show ?case by (cases i) (auto simp: mult.assoc algebra_simps)
qed simp_all

lemma negatives_nth:
  "negatives_ok p k ss es \<Longrightarrow> i < length ss \<Longrightarrow> negative_ok (p * 390625 ^ i) (k - 8 * int i) (ss ! i) (es ! i)"
proof (induction p k ss es arbitrary: i rule: negatives_ok.induct)
  case (1 p k s ss e es)
  then show ?case by (cases i) (auto simp: mult.assoc algebra_simps)
qed simp_all

lemma table_lengths [simp]: "length pow10_significands = 87" "length pow10_exponents = 87"
  by (simp_all add: pow10_significands_def pow10_exponents_def)

text \<open>The real error of an entry.\<close>

definition entry_accurate :: "int \<Rightarrow> int \<Rightarrow> int \<Rightarrow> bool" where
  "entry_accurate k s e \<longleftrightarrow> 2 ^ 63 \<le> s \<and> 2 * \<bar>real_of_int s * 2 powi e - 10 powi k\<bar> \<le> 2 powi e"

lemma positive_accurate:
  assumes "positive_ok (5 ^ n) (int n) s e"
  shows "entry_accurate (int n) s e"
proof -
  have ten: "(10 :: real) powi int n = 5 ^ n * 2 ^ n" by (simp add: power_mult_distrib [symmetric])
  have "2 * \<bar>real_of_int s * 2 powi e - 10 powi int n\<bar> \<le> 2 powi e"
  proof (cases "int n \<le> e")
    case True
    define j where "j = nat (e - int n)"
    have e: "e = int j + int n" using True by (simp add: j_def)
    have "2 * \<bar>s * 2 ^ j - 5 ^ n\<bar> \<le> 2 ^ j" using assms True by (simp add: positive_ok_def j_def)
    then have "real_of_int (2 * \<bar>s * 2 ^ j - 5 ^ n\<bar>) \<le> real_of_int (2 ^ j)" by (simp only: of_int_le_iff)
    then have le: "2 * \<bar>real_of_int s * 2 ^ j - 5 ^ n\<bar> \<le> (2 :: real) ^ j" by simp
    have two: "(2 :: real) powi e = 2 ^ j * 2 ^ n" by (simp add: e power_int_add)
    have "real_of_int s * 2 powi e - 10 powi int n = (real_of_int s * 2 ^ j - 5 ^ n) * 2 ^ n"
      unfolding two ten by (simp add: algebra_simps)
    then have "2 * \<bar>real_of_int s * 2 powi e - 10 powi int n\<bar> = 2 * \<bar>real_of_int s * 2 ^ j - 5 ^ n\<bar> * 2 ^ n" by (simp add: abs_mult)
    also have "\<dots> \<le> 2 ^ j * 2 ^ n" using le by (rule mult_right_mono) simp
    finally show ?thesis by (simp only: two)
  next
    case False
    define j where "j = nat (int n - e)"
    have e: "int n = int j + e" using False by (simp add: j_def)
    have "s = 5 ^ n * 2 ^ j" using assms False by (simp add: positive_ok_def j_def)
    then have "real_of_int s * 2 powi e = 5 ^ n * (2 powi int j * 2 powi e)" by simp
    also have "\<dots> = 5 ^ n * 2 powi int n" by (simp add: e power_int_add)
    finally show ?thesis unfolding ten by simp
  qed
  then show ?thesis using assms by (simp add: positive_ok_def entry_accurate_def)
qed

lemma abs_scaled: "x * a = y * b \<Longrightarrow> 0 < a \<Longrightarrow> 0 < b \<Longrightarrow> \<bar>x\<bar> * a = \<bar>y\<bar> * b" for x y a b :: real
  by (metis abs_mult abs_of_pos)

lemma negative_accurate:
  assumes "negative_ok (5 ^ n) (- int n) s e"
  shows "entry_accurate (- int n) s e"
proof -
  define j where "j = nat (- int n - e)"
  have e: "- int n = int j + e" and le: "2 * \<bar>s * 5 ^ n - 2 ^ j\<bar> \<le> 5 ^ n"
    using assms by (simp_all add: negative_ok_def j_def)
  have "real_of_int (2 * \<bar>s * 5 ^ n - 2 ^ j\<bar>) \<le> real_of_int (5 ^ n)" using le by (simp only: of_int_le_iff)
  then have le: "2 * \<bar>real_of_int s * 5 ^ n - 2 ^ j\<bar> \<le> (5 :: real) ^ n" by simp
  have "(10 :: real) powi (- int n) * 5 ^ n = 2 powi (- int n)"
    by (simp add: power_int_minus power_mult_distrib [symmetric] field_simps)
  also have "\<dots> = 2 ^ j * 2 powi e" unfolding e by (simp add: power_int_add)
  finally have "(real_of_int s * 2 powi e - 10 powi (- int n)) * 5 ^ n = (real_of_int s * 5 ^ n - 2 ^ j) * 2 powi e"
    by (simp add: algebra_simps)
  then have "\<bar>real_of_int s * 2 powi e - 10 powi (- int n)\<bar> * 5 ^ n = \<bar>real_of_int s * 5 ^ n - 2 ^ j\<bar> * 2 powi e"
    by (rule abs_scaled) simp_all
  then have "(2 * \<bar>real_of_int s * 2 powi e - 10 powi (- int n)\<bar>) * 5 ^ n = (2 * \<bar>real_of_int s * 5 ^ n - 2 ^ j\<bar>) * 2 powi e" by simp
  also have "\<dots> \<le> 5 ^ n * 2 powi e" using le by (rule mult_right_mono) simp
  finally have "(2 * \<bar>real_of_int s * 2 powi e - 10 powi (- int n)\<bar>) * 5 ^ n \<le> 2 powi e * 5 ^ n" by (simp only: mult.commute)
  then have "2 * \<bar>real_of_int s * 2 powi e - 10 powi (- int n)\<bar> \<le> 2 powi e" by (rule mult_right_le_imp_le) simp
  then show ?thesis using assms by (simp add: negative_ok_def entry_accurate_def)
qed

lemma pow5_step: "(625 :: int) * 390625 ^ i = 5 ^ (4 + 8 * i)"
  by (simp only: power_add power_mult) simp

lemma table_accurate:
  assumes "i < 87"
  shows "entry_accurate (8 * int i - 348) (uint (pow10_significands ! i)) (pow10_exponents ! i)"
proof (cases "i < 44")
  case True
  define j where "j = 43 - i"
  have j: "j < 44" "i = 43 - j" "8 * int i - 348 = - int (4 + 8 * j)" using True by (simp_all add: j_def)
  have n: "rev (map uint (take 44 pow10_significands)) ! j = uint (pow10_significands ! i)"
    "rev (take 44 pow10_exponents) ! j = pow10_exponents ! i"
    using j True by (simp_all add: rev_nth)
  have "negative_ok (5 ^ (4 + 8 * j)) (- int (4 + 8 * j)) (uint (pow10_significands ! i)) (pow10_exponents ! i)"
    using negatives_nth [OF negatives, of j] j(1) unfolding n pow5_step by (simp add: algebra_simps)
  from negative_accurate [OF this] show ?thesis by (simp only: j(3))
next
  case False
  define j where "j = i - 44"
  have j: "j < 43" "i = 44 + j" "8 * int i - 348 = int (4 + 8 * j)" using False assms by (simp_all add: j_def)
  have n: "map uint (drop 44 pow10_significands) ! j = uint (pow10_significands ! i)"
    "drop 44 pow10_exponents ! j = pow10_exponents ! i"
    unfolding j(2) using j(1) by simp_all
  have "positive_ok (5 ^ (4 + 8 * j)) (int (4 + 8 * j)) (uint (pow10_significands ! i)) (pow10_exponents ! i)"
    using positives_nth [OF positives, of j] j(1) unfolding n pow5_step by (simp add: algebra_simps)
  from positive_accurate [OF this] show ?thesis by (simp only: j(3))
qed

section \<open>The choice of an entry\<close>

text \<open>The exponent of entry \<open>q\<close> is in range for every exponent asked for that leads to it.\<close>

fun ranges_ok :: "int \<Rightarrow> int list \<Rightarrow> bool" where
  "ranges_ok q [] \<longleftrightarrow> True"
| "ranges_ok q (e # es) \<longleftrightarrow> 2 ^ 32 * (8 * q - 348) < (e + 64) * one_over_log2_10
     \<and> (e + 34) * one_over_log2_10 \<le> 2 ^ 32 * (8 * q - 356) \<and> ranges_ok (q + 1) es"

lemma ranges: "ranges_ok 0 pow10_exponents"
  by code_simp

lemma ranges_nth:
  "ranges_ok q es \<Longrightarrow> i < length es \<Longrightarrow> 2 ^ 32 * (8 * (q + int i) - 348) < (es ! i + 64) * one_over_log2_10
    \<and> (es ! i + 34) * one_over_log2_10 \<le> 2 ^ 32 * (8 * (q + int i) - 356)"
proof (induction q es arbitrary: i rule: ranges_ok.induct)
  case (2 q e es)
  then show ?case
  proof (cases i)
    case (Suc j)
    then have "q + int i = q + 1 + int j" by simp
    then show ?thesis using 2 Suc by (simp only: ranges_ok.simps nth_Cons_Suc length_Cons Suc_less_eq)
  qed simp
qed simp

lemma cached_index_range:
  assumes "- 1084 \<le> m" "m \<le> 1013"
  defines "q \<equiv> cached_index m"
  shows "0 \<le> q \<and> q < 87 \<and> (m + 63) * one_over_log2_10 \<le> 2 ^ 32 * (8 * q - 348)
    \<and> 2 ^ 32 * (8 * q - 356) < (m + 63) * one_over_log2_10"
proof -
  define t where "t = ((m + 63) * one_over_log2_10 + (2 ^ 32 - 1)) div 2 ^ 32"
  have t: "2 ^ 32 * t \<le> (m + 63) * one_over_log2_10 + (2 ^ 32 - 1)" "(m + 63) * one_over_log2_10 + (2 ^ 32 - 1) < 2 ^ 32 * (t + 1)"
    unfolding t_def by simp_all
  have b: "- 1021 * one_over_log2_10 \<le> (m + 63) * one_over_log2_10" "(m + 63) * one_over_log2_10 \<le> 1076 * one_over_log2_10"
    using assms(1,2) by (simp_all add: one_over_log2_10_def)
  have t2: "- 307 \<le> t" "t \<le> 324" using t b by (simp_all add: one_over_log2_10_def)
  have "drop_bit 32 ((m + 64 - 1) * one_over_log2_10 + (2 ^ 32 - 1)) = t"
  proof -
    have "m + 64 - 1 = m + 63" by simp
    then show ?thesis by (simp only: t_def drop_bit_eq_div)
  qed
  then have "q = quot8 (t - (- 348) - 1) + 1" unfolding q_def cached_index_def Let_def by (simp only:)
  also have "\<dots> = (t + 347) div 8 + 1" using t2 by (simp add: quot8_def)
  finally have "q = (t + 347) div 8 + 1" .
  then have "8 * (q - 1) \<le> t + 347" "t + 347 \<le> 8 * (q - 1) + 7" by simp_all
  with t t2 show ?thesis by simp
qed

lemma half_le: "2 * x \<le> y \<Longrightarrow> x \<le> y / 2" for x y :: real
  by simp

lemma cached_power_spec:
  assumes "- 1084 \<le> min_exponent" "min_exponent \<le> 1013"
  shows "\<exists>c k. get_cached_power min_exponent = Some (c, k) \<and> min_exponent \<le> fp_e c \<and> fp_e c \<le> min_exponent + 28
    \<and> 2 ^ 63 \<le> unat (fp_f c) \<and> \<bar>real (unat (fp_f c)) * 2 powi fp_e c - 10 powi k\<bar> \<le> 2 powi fp_e c / 2
    \<and> - 348 \<le> k \<and> k \<le> 340"
proof -
  define q where "q = cached_index min_exponent"
  define i where "i = nat q"
  from cached_index_range [OF assms] have q: "0 \<le> q" "q < 87" "(min_exponent + 63) * one_over_log2_10 \<le> 2 ^ 32 * (8 * q - 348)"
    "2 ^ 32 * (8 * q - 356) < (min_exponent + 63) * one_over_log2_10" by (simp_all add: q_def)
  then have i: "i < 87" "q = int i" by (simp_all add: i_def)
  define s where "s = pow10_significands ! i"
  define e where "e = pow10_exponents ! i"
  have g: "get_cached_power min_exponent = Some (make_fp s e, 8 * q - 348)"
    unfolding get_cached_power_def Let_def q_def [symmetric] i_def [symmetric] using q(1) i(1) by (simp add: s_def e_def)
  have "i < length pow10_exponents" using i(1) by simp
  from ranges_nth [OF ranges this] have "2 ^ 32 * (8 * q - 348) < (e + 64) * one_over_log2_10"
    "(e + 34) * one_over_log2_10 \<le> 2 ^ 32 * (8 * q - 356)" by (simp_all only: e_def i(2) add_0)
  with q(3,4) have e: "min_exponent \<le> e" "e \<le> min_exponent + 28"
    by (simp_all add: one_over_log2_10_def)
  from table_accurate [OF i(1)] have a: "2 ^ 63 \<le> uint s" "2 * \<bar>real_of_int (uint s) * 2 powi e - 10 powi (8 * q - 348)\<bar> \<le> 2 powi e"
    by (simp_all only: entry_accurate_def i(2) s_def e_def)
  have u: "uint s = int (unat s)" by simp
  have "int (2 ^ 63) \<le> int (unat s)" using a(1) unfolding u by (simp only: of_nat_power of_nat_numeral)
  then have "2 ^ 63 \<le> unat s" by (simp only: of_nat_le_iff)
  moreover have "\<bar>real (unat s) * 2 powi e - 10 powi (8 * q - 348)\<bar> \<le> 2 powi e / 2"
    using a(2) unfolding u of_int_of_nat_eq by (rule half_le)
  ultimately show ?thesis using g e q(1,2) by (intro exI [of _ "make_fp s e"] exI [of _ "8 * q - 348"]) (simp add: make_fp_def)
qed

text \<open>
  C33 [bounds] The table of powers of ten is exact to half a unit in the last place of its 64-bit significands, which
  are normalized; and for every exponent that a double can need, get_cached_power finds an entry within
  the table whose exponent is in the documented range, from min_exponent to min_exponent + 28.
\<close>

theorem cached_powers_accurate:
  assumes "- 1084 \<le> min_exponent" "min_exponent \<le> 1013"
  shows "\<exists>c k. get_cached_power min_exponent = Some (c, k) \<and> min_exponent \<le> fp_e c \<and> fp_e c \<le> min_exponent + 28
    \<and> 2 ^ 63 \<le> unat (fp_f c) \<and> \<bar>real (unat (fp_f c)) * 2 powi fp_e c - 10 powi k\<bar> \<le> 2 powi fp_e c / 2"
  using cached_power_spec [OF assms] by blast

theorem cached_powers_accurate_witness:
  "\<exists>c k. get_cached_power (- 170) = Some (c, k) \<and> - 170 \<le> fp_e c \<and> fp_e c \<le> - 142 \<and> 2 ^ 63 \<le> unat (fp_f c)"
  using cached_powers_accurate [of "- 170"] by auto

end
