(* ===== verification/Fmt_Boundaries.thy ===== *)
theory Fmt_Boundaries imports Fmt_Double Fp_Facts Fp_Tables begin

text \<open>
  Normalization, the boundaries of a \<open>double\<close> and its product with a cached power of ten
  (spdlog/fmt/bundled/format-inl.h): the boundaries are the midpoints to the neighbouring doubles, exactly, and the
  products are less than one unit off.
\<close>

section \<open>Normalization\<close>

lemma top_bit_clear:
  assumes "unat x < 2 ^ Suc k" "k < 64"
  shows "x AND push_bit k (1 :: u64) = 0 \<longleftrightarrow> unat x < 2 ^ k"
proof -
  have "push_bit k 1 = (2 ^ k :: u64)" by (simp add: push_bit_eq_mult)
  then have "x AND push_bit k 1 = 0 \<longleftrightarrow> \<not> bit x k" by (simp only: and_exp_eq_0_iff_not_bit)
  also have "bit x k \<longleftrightarrow> bit (unat x) k" using assms(2) by (simp add: bit_unsigned_iff)
  also have "\<dots> \<longleftrightarrow> odd (unat x div 2 ^ k)" by (rule bit_iff_odd)
  also have "\<dots> \<longleftrightarrow> \<not> unat x < 2 ^ k"
  proof (cases "unat x < 2 ^ k")
    case False
    then have "unat x div 2 ^ k = 1" using assms(1) by (intro div_nat_eqI) simp_all
    then show ?thesis using False by simp
  qed simp
  finally show ?thesis by simp
qed

lemma normalize_loop_spec:
  assumes "0 < unat (fp_f v)" "unat (fp_f v) < 2 ^ (53 + s)" "s \<le> 10"
  shows "\<exists>k g. normalize_loop s v = Some (make_fp g (fp_e v - int k)) \<and> unat g = unat (fp_f v) * 2 ^ k \<and> 2 ^ (52 + s) \<le> unat g \<and> unat g < 2 ^ (53 + s)"
  using assms(1,2)
proof (induction "2 ^ (53 + s) - unat (fp_f v)" arbitrary: v rule: less_induct)
  case less
  have b: "fp_f v AND push_bit s implicit_bit = 0 \<longleftrightarrow> unat (fp_f v) < 2 ^ (52 + s)"
  proof -
    have "push_bit s implicit_bit = push_bit (52 + s) 1" unfolding implicit_bit_def push_bit_push_bit by (simp only: add.commute)
    moreover have "unat (fp_f v) < 2 ^ Suc (52 + s)" "52 + s < 64" using less.prems(2) assms(3) by simp_all
    ultimately show ?thesis using top_bit_clear by (simp only:)
  qed
  show ?case
  proof (cases "unat (fp_f v) < 2 ^ (52 + s)")
    case False
    then have "normalize_loop s v = Some v" using b by (subst normalize_loop.simps) simp
    then have "normalize_loop s v = Some (make_fp (fp_f v) (fp_e v - int 0))" by (simp add: make_fp_def)
    with False less.prems(2) show ?thesis by (intro exI [of _ 0] exI [of _ "fp_f v"]) simp
  next
    case True
    let ?v = "make_fp (push_bit 1 (fp_f v)) (fp_e v - 1)"
    have p: "(2 :: nat) ^ (53 + s) = 2 * 2 ^ (52 + s)" by (simp add: power_add)
    have "(2 :: nat) ^ (53 + s) \<le> 2 ^ 63" using assms(3) by (intro power_increasing) simp_all
    then have "unat (fp_f v) * 2 ^ 1 < 2 ^ 64" using True p by simp
    then have u: "unat (fp_f ?v) = 2 * unat (fp_f v)" using unat_push [of "fp_f v" 1] by (simp add: make_fp_def)
    have "2 ^ (53 + s) - unat (fp_f ?v) < 2 ^ (53 + s) - unat (fp_f v)" "0 < unat (fp_f ?v)" "unat (fp_f ?v) < 2 ^ (53 + s)"
      using less.prems True unfolding u p by simp_all
    from less.hyps [OF this] obtain k g where
      g: "normalize_loop s ?v = Some (make_fp g (fp_e ?v - int k))" "unat g = unat (fp_f ?v) * 2 ^ k" "2 ^ (52 + s) \<le> unat g"
      "unat g < 2 ^ (53 + s)" by blast
    have "normalize_loop s v = normalize_loop s ?v" using b True by (subst normalize_loop.simps) simp
    then have "normalize_loop s v = Some (make_fp g (fp_e v - int (Suc k)))" using g(1) by (simp add: make_fp_def algebra_simps)
    moreover have "unat g = unat (fp_f v) * 2 ^ Suc k" using g(2) u by simp
    ultimately show ?thesis using g(3,4) by blast
  qed
qed

lemma fp_normalize_spec:
  assumes "0 < unat (fp_f v)" "unat (fp_f v) < 2 ^ (53 + s)" "s \<le> 10"
  obtains k g where "fp_normalize s v = Some (make_fp g (fp_e v - int k))" "unat g = unat (fp_f v) * 2 ^ k" "2 ^ 63 \<le> unat g"
    "11 - s \<le> k"
proof -
  from normalize_loop_spec [OF assms] obtain j h where
    h: "normalize_loop s v = Some (make_fp h (fp_e v - int j))" "unat h = unat (fp_f v) * 2 ^ j" "2 ^ (52 + s) \<le> unat h" "unat h < 2 ^ (53 + s)" by blast
  have p: "(2 :: nat) ^ 64 = 2 ^ (53 + s) * 2 ^ (11 - s)" "(2 :: nat) ^ 63 = 2 ^ (52 + s) * 2 ^ (11 - s)"
    using assms(3) unfolding power_add [symmetric] by simp_all
  have "unat h * 2 ^ (11 - s) < 2 ^ 64" using h(4) unfolding p by (intro mult_strict_right_mono) simp_all
  then have u: "unat (push_bit (11 - s) h) = unat h * 2 ^ (11 - s)" by (rule unat_push)
  have "2 ^ 63 \<le> unat (push_bit (11 - s) h)" using h(3) unfolding u p by (intro mult_right_mono) simp_all
  moreover have "fp_normalize s v = Some (make_fp (push_bit (11 - s) h) (fp_e v - int (j + (11 - s))))"
    by (simp add: fp_normalize_def h(1) make_fp_def algebra_simps)
  moreover have "unat (push_bit (11 - s) h) = unat (fp_f v) * 2 ^ (j + (11 - s))" by (simp add: u h(2) power_add)
  moreover have "11 - s \<le> j + (11 - s)" by simp
  ultimately show ?thesis by (intro that)
qed

lemma power_2_split: "11 \<le> a \<Longrightarrow> (2 :: nat) ^ a = 2 * 2 ^ (a - 1) \<and> (2 :: nat) ^ a = 4 * 2 ^ (a - 2)"
  by (cases a; cases "a - 1") simp_all

lemma scale_unique:
  assumes "(2 :: nat) ^ 63 \<le> x * 2 ^ i" "x * 2 ^ i < 2 ^ 64" "2 ^ 63 \<le> x * 2 ^ j" "x * 2 ^ j < 2 ^ 64"
  shows "i = j"
proof -
  have "i \<le> j" if "2 ^ 63 \<le> x * 2 ^ j" "x * 2 ^ i < 2 ^ 64" for i j
  proof (rule ccontr)
    assume "\<not> i \<le> j"
    then have "(2 :: nat) ^ Suc j \<le> 2 ^ i" by (intro power_increasing) simp_all
    then have "x * 2 ^ Suc j \<le> x * 2 ^ i" by (rule mult_left_mono) simp
    moreover have "x * 2 ^ Suc j = 2 * (x * 2 ^ j)" by simp
    moreover have "(2 :: nat) ^ 64 = 2 * 2 ^ 63" by simp
    ultimately show False using that by linarith
  qed
  with assms show ?thesis by (metis antisym)
qed

section \<open>Midpoints\<close>

lemma boundaries_spec:
  assumes "\<not> is_zero d"
  defines "f \<equiv> unat (fp_f (double_fp d))" and "e \<equiv> fp_e (double_fp d)"
  obtains a g b where "fp_normalize 0 (double_fp d) = Some (make_fp g (e - int a))" "unat g = f * 2 ^ a" "2 ^ 63 \<le> unat g"
    "11 \<le> a" "a \<le> 63" "assign_with_boundaries d = Some (double_fp d, b)" "unat (upper_bound b) = (2 * f + 1) * 2 ^ (a - 1)"
    "unat (lower_bound b) = (if closer d then (4 * f - 1) * 2 ^ (a - 2) else (2 * f - 1) * 2 ^ (a - 1))"
proof -
  let ?v = "double_fp d"
  have f: "0 < f" "f < 2 ^ 53" unfolding f_def by (rule double_f_pos [OF assms(1)], rule double_f_bound)
  have h: "0 < unat (fp_f ?v)" "unat (fp_f ?v) < 2 ^ (53 + 0)" "(0 :: nat) \<le> 10" using f by (simp_all add: f_def)
  obtain a g where "fp_normalize 0 ?v = Some (make_fp g (fp_e ?v - int a))" "unat g = unat (fp_f ?v) * 2 ^ a" "2 ^ 63 \<le> unat g"
    "11 - 0 \<le> a" using fp_normalize_spec [OF h] by blast
  then have a: "fp_normalize 0 ?v = Some (make_fp g (e - int a))" "unat g = f * 2 ^ a" "2 ^ 63 \<le> unat g" "11 \<le> a"
    by (simp_all only: f_def e_def diff_zero)
  have lt: "f * 2 ^ a < 2 ^ 64" using u64_bound [of g] by (simp only: a(2))
  have a63: "a \<le> 63"
  proof (rule ccontr)
    assume "\<not> a \<le> 63"
    then have "(2 :: nat) ^ 64 \<le> 2 ^ a" by (intro power_increasing) simp_all
    also have "\<dots> \<le> f * 2 ^ a" using f(1) by simp
    finally show False using lt by simp
  qed
  have "f < 2 ^ (64 - a)"
  proof (rule ccontr)
    assume "\<not> f < 2 ^ (64 - a)"
    then have "2 ^ (64 - a) * 2 ^ a \<le> f * 2 ^ a" by (intro mult_right_mono) simp_all
    then show False using lt a63 by (simp add: power_add [symmetric])
  qed
  then have "(f + 1) * 2 ^ a \<le> 2 ^ (64 - a) * 2 ^ a" by (intro mult_right_mono) simp_all
  then have top: "(f + 1) * 2 ^ a \<le> 2 ^ 64" using a63 by (simp add: power_add [symmetric])
  have p: "(2 :: nat) ^ a = 2 * 2 ^ (a - 1)" "(2 :: nat) ^ a = 4 * 2 ^ (a - 2)"
    using power_2_split [OF a(4)] by simp_all
  have u1: "unat (push_bit 1 (fp_f ?v)) = 2 * f" "unat (push_bit 2 (fp_f ?v)) = 4 * f"
    using unat_push [of "fp_f ?v" 1] unat_push [of "fp_f ?v" 2] f(2) by (simp_all add: f_def)
  define up where "up = make_fp (push_bit 1 (fp_f ?v) + 1) (e - 1)"
  have up: "unat (fp_f up) = 2 * f + 1" "fp_e up = e - 1" using u1(1) f(2) by (simp_all add: up_def make_fp_def unat_word_ariths)
  then have h1: "0 < unat (fp_f up)" "unat (fp_f up) < 2 ^ (53 + 1)" "(1 :: nat) \<le> 10" using f(2) by simp_all
  obtain k u where u: "fp_normalize 1 up = Some (make_fp u (e - 1 - int k))" "unat u = (2 * f + 1) * 2 ^ k" "2 ^ 63 \<le> unat u"
    using fp_normalize_spec [OF h1] unfolding up by blast
  have "k = a - 1"
  proof (rule scale_unique)
    show "2 ^ 63 \<le> (2 * f + 1) * 2 ^ k" using u(3) by (simp only: u(2))
    show "(2 * f + 1) * 2 ^ k < 2 ^ 64" using u64_bound [of u] by (simp only: u(2))
    have e: "(2 * f + 1) * 2 ^ (a - 1) = f * 2 ^ a + 2 ^ (a - 1)" unfolding p(1) by (simp add: algebra_simps)
    show "2 ^ 63 \<le> (2 * f + 1) * 2 ^ (a - 1)" unfolding e using a(2,3) by simp
    have "(f + 1) * 2 ^ a = f * 2 ^ a + 2 ^ a" by simp
    moreover have "(2 :: nat) ^ (a - 1) < 2 ^ a" unfolding p(1) by simp
    ultimately show "(2 * f + 1) * 2 ^ (a - 1) < 2 ^ 64" unfolding e using top by linarith
  qed
  then have uu: "unat u = (2 * f + 1) * 2 ^ (a - 1)" "e - 1 - int k = e - int a" using u(2) a(4) by simp_all
  define lo where "lo = (if closer d then make_fp (push_bit 2 (fp_f ?v) - 1) (e - 2) else make_fp (push_bit 1 (fp_f ?v) - 1) (e - 1))"
  define n where "n = (if closer d then a - 2 else a - 1)"
  have lo: "unat (fp_f lo) = (if closer d then 4 * f - 1 else 2 * f - 1)" "fp_e lo - (e - int a) = int n"
    using u1 f(1) a(4) by (simp_all add: lo_def n_def make_fp_def unat_sub_if')
  have lo2: "unat (fp_f lo) * 2 ^ n < 2 ^ 64"
  proof -
    have "unat (fp_f lo) * 2 ^ n \<le> (if closer d then 4 * f else 2 * f) * 2 ^ n" unfolding lo(1) by (intro mult_right_mono) simp_all
    also have "\<dots> = f * 2 ^ a" unfolding n_def using p by simp
    finally show ?thesis using lt by simp
  qed
  let ?b = "\<lparr>lower_bound = push_bit n (fp_f lo), upper_bound = u\<rparr>"
  have "n < 64" using a63 by (cases "closer d") (simp_all add: n_def)
  then have al: "align_boundaries lo (make_fp u (e - int a)) = Some ?b"
    using lo(2) by (simp add: align_boundaries_def shift_left64_def make_fp_def)
  have "assign_with_boundaries d = Some (?v, ?b)"
  proof -
    have "fp_normalize 1 (make_fp (push_bit 1 (fp_f ?v) + 1) (e - 1)) = Some (make_fp u (e - int a))"
      using u(1) uu(2) by (simp only: up_def)
    then show ?thesis
      by (simp only: assign_with_boundaries_def Let_def case_prod_unfold double_fp_def [symmetric] closer_def [symmetric] e_def [symmetric]
          Option.bind.simps lo_def [symmetric] al option.map)
  qed
  moreover have "unat (lower_bound ?b) = (if closer d then (4 * f - 1) * 2 ^ (a - 2) else (2 * f - 1) * 2 ^ (a - 1))"
    using unat_push [OF lo2] lo(1) by (simp add: n_def)
  moreover have "unat (upper_bound ?b) = (2 * f + 1) * 2 ^ (a - 1)" using uu(1) by simp
  ultimately show ?thesis using that a a63 by blast
qed

lemma midpoints_real:
  assumes "\<not> is_zero d"
  obtains w b a where "fp_normalize 0 (double_fp d) = Some w" "fp_e w = fp_e (double_fp d) - int a" "11 \<le> a" "a \<le> 63"
    "2 ^ 63 \<le> unat (fp_f w)" "assign_with_boundaries d = Some (double_fp d, b)"
    "real (unat (fp_f w)) * 2 powi fp_e w = double_value d"
    "real (unat (upper_bound b)) * 2 powi fp_e w = double_value d + upper_gap d"
    "real (unat (lower_bound b)) * 2 powi fp_e w = double_value d - lower_gap d"
proof -
  define f e where "f = unat (fp_f (double_fp d))" and "e = fp_e (double_fp d)"
  from boundaries_spec [OF assms] obtain a g b where
    a: "fp_normalize 0 (double_fp d) = Some (make_fp g (e - int a))" "unat g = f * 2 ^ a" "2 ^ 63 \<le> unat g"
    "11 \<le> a" "a \<le> 63" "assign_with_boundaries d = Some (double_fp d, b)" "unat (upper_bound b) = (2 * f + 1) * 2 ^ (a - 1)"
    "unat (lower_bound b) = (if closer d then (4 * f - 1) * 2 ^ (a - 2) else (2 * f - 1) * 2 ^ (a - 1))"
    unfolding f_def e_def by blast
  have f: "0 < f" unfolding f_def using assms by (rule double_f_pos)
  define P where "P = (2 :: real) powi (e - int a)"
  have p: "(2 :: nat) ^ a = 2 * 2 ^ (a - 1)" "(2 :: nat) ^ a = 4 * 2 ^ (a - 2)" using power_2_split [OF a(4)] by simp_all
  have pr: "(2 :: real) ^ a = 2 * 2 ^ (a - 1)" "(2 :: real) ^ a = 4 * 2 ^ (a - 2)"
    using p by (metis of_nat_mult of_nat_power of_nat_numeral)+
  have E: "2 powi e = P * 2 ^ a" unfolding P_def by (simp add: power_int_diff)
  have val: "double_value d = real f * (P * 2 ^ a)" by (simp only: double_value_def fp_real_def f_def [symmetric] e_def [symmetric] E)
  have gap: "upper_gap d = P * 2 ^ (a - 1)" "lower_gap d = (if closer d then P * 2 ^ (a - 2) else P * 2 ^ (a - 1))"
    unfolding upper_gap_def lower_gap_def e_def [symmetric] using pr by (auto simp: power_int_diff E)
  have "real (unat (upper_bound b)) * P = double_value d + upper_gap d"
    unfolding a(7) val gap pr(1) by (simp add: algebra_simps)
  moreover have "real (unat (lower_bound b)) * P = double_value d - lower_gap d"
  proof (cases "closer d")
    case True
    then have l: "real (unat (lower_bound b)) = (4 * real f - 1) * 2 ^ (a - 2)" using f by (simp add: a(8) of_nat_diff)
    show ?thesis unfolding l val gap pr(2) using True by (simp add: algebra_simps)
  next
    case False
    then have l: "real (unat (lower_bound b)) = (2 * real f - 1) * 2 ^ (a - 1)" using f by (simp add: a(8) of_nat_diff)
    show ?thesis unfolding l val gap pr(1) using False by (simp add: algebra_simps)
  qed
  moreover have "real (unat g) * P = double_value d" unfolding a(2) val by simp
  ultimately show ?thesis
    using that [OF a(1), of a b] a(3-6) by (simp add: make_fp_def P_def e_def)
qed

text \<open>
  C34 [functional] For every positive double assign_with_boundaries and normalize succeed, and at the exponent of the
  normalized number the boundaries are exactly the midpoints to the neighbouring doubles: half a unit above,
  and below half a unit or a quarter of one if the predecessor is closer.
\<close>

theorem boundaries_are_midpoints:
  assumes "\<not> is_zero d"
  shows "\<exists>w b. assign_with_boundaries d = Some (double_fp d, b) \<and> fp_normalize 0 (double_fp d) = Some w
    \<and> 2 ^ 63 \<le> unat (fp_f w) \<and> fp_real w = double_value d
    \<and> real (unat (upper_bound b)) * 2 powi fp_e w = double_value d + upper_gap d
    \<and> real (unat (lower_bound b)) * 2 powi fp_e w = double_value d - lower_gap d"
  using midpoints_real [OF assms] unfolding fp_real_def by metis

theorem boundaries_are_midpoints_witness:
  "\<exists>w b. assign_with_boundaries 1 = Some (double_fp 1, b) \<and> fp_normalize 0 (double_fp 1) = Some w
    \<and> real (unat (upper_bound b)) * 2 powi fp_e w = 2 powi (- 1074) + 2 powi (- 1075)"
proof -
  have "\<not> is_zero 1" by (simp add: is_zero_bits)
  moreover have "double_value 1 = 2 powi (- 1074)" "upper_gap 1 = 2 powi (- 1075)"
    by (simp_all only: double_value_def fp_real_def upper_gap_def fp_assign_cases biased_exponent_bits) simp_all
  ultimately show ?thesis using boundaries_are_midpoints [of 1] by auto
qed

section \<open>Products with a cached power\<close>

text \<open>The product of a significand with the one of an approximation of \<open>g\<close> is less than one unit off.\<close>

lemma product_accurate:
  assumes "\<bar>real (unat c) - g\<bar> \<le> 1 / 2"
  shows "\<bar>real (unat (multiply128 x c)) - real (unat x) * g / 2 ^ 64\<bar> < 1"
proof -
  define X p q where "X = unat x" and "p = X * unat c" and "q = (p + 2 ^ 63) div 2 ^ 64"
  have m: "unat (multiply128 x c) = q" by (simp only: multiply128_nat rounded_product_def q_def p_def X_def)
  have q: "2 ^ 64 * q \<le> p + 2 ^ 63" "p + 2 ^ 63 < 2 ^ 64 * (q + 1)" unfolding q_def by (simp_all add: dividend_less_times_div)
  then have "real (2 ^ 64 * q) \<le> real (p + 2 ^ 63)" "real (p + 2 ^ 63) < real (2 ^ 64 * (q + 1))"
    by (simp_all only: of_nat_le_iff of_nat_less_iff)
  then have r: "\<bar>real q - real p / 2 ^ 64\<bar> \<le> 1 / 2" by (simp add: field_simps abs_le_iff)
  have "X < 2 ^ 64" unfolding X_def by (rule u64_bound)
  then have "real X < real (2 ^ 64)" by (simp only: of_nat_less_iff)
  then have x: "real X / 2 ^ 64 < 1" by simp
  define h where "h = real (unat c) - g"
  have "real p / 2 ^ 64 - real X * g / 2 ^ 64 = real X / 2 ^ 64 * h"
    unfolding p_def h_def of_nat_mult by (simp only: right_diff_distrib times_divide_eq_left)
  then have "\<bar>real p / 2 ^ 64 - real X * g / 2 ^ 64\<bar> = \<bar>real X / 2 ^ 64 * h\<bar>" by (simp only:)
  also have "\<dots> = real X / 2 ^ 64 * \<bar>h\<bar>" unfolding abs_mult by simp
  also have "\<dots> \<le> real X / 2 ^ 64 * (1 / 2)" using assms by (intro mult_left_mono) (simp_all only: h_def, simp)
  also have "\<dots> < 1 / 2" using x by simp
  finally show ?thesis using r unfolding m X_def [symmetric] by linarith
qed

end
