(* ===== verification/Fmt_Gen_Digits.thy ===== *)
theory Fmt_Gen_Digits imports Fmt_Boundaries begin

text \<open>
  \<open>grisu_gen_digits\<close> (spdlog/fmt/bundled/format-inl.h) for every digit handler: the handler is asked for one decimal
  digit after the other, with the exact remainder, until it has enough.

  At position \<open>k\<close> the number \<open>T / 2^sh\<close> is \<open>P * 10^k\<close> plus a remainder.  The loops count in units: in the fractional part
  (\<open>k < 0\<close>) everything is multiplied by \<open>10^-k\<close>.
\<close>

section \<open>Positions\<close>

definition pos_unit :: "int \<Rightarrow> nat" where
  "pos_unit k = 10 ^ nat (- k)"

definition pos_divisor :: "nat \<Rightarrow> int \<Rightarrow> nat" where
  "pos_divisor sh k = 10 ^ nat k * 2 ^ sh"

definition at_position :: "nat \<Rightarrow> nat \<Rightarrow> int \<Rightarrow> nat \<Rightarrow> nat \<Rightarrow> bool" where
  "at_position T sh k P r \<longleftrightarrow> T * pos_unit k = P * pos_divisor sh k + r \<and> r < pos_divisor sh k"

lemma pos_unit_pos [simp]: "0 < pos_unit k"
  by (simp add: pos_unit_def)

lemma pos_divisor_pos [simp]: "0 < pos_divisor sh k"
  by (simp add: pos_divisor_def)

lemma pos_simps: "0 \<le> k \<Longrightarrow> pos_unit k = 1" "k \<le> 0 \<Longrightarrow> pos_divisor sh k = 2 ^ sh"
  "0 \<le> k \<Longrightarrow> pos_divisor sh (k + 1) = 10 * pos_divisor sh k" "k < 0 \<Longrightarrow> pos_unit k = 10 * pos_unit (k + 1)"
proof -
  show "pos_divisor sh (k + 1) = 10 * pos_divisor sh k" if "0 \<le> k"
    using that by (simp add: pos_divisor_def nat_add_distrib)
  show "pos_unit k = 10 * pos_unit (k + 1)" if "k < 0"
  proof -
    have "nat (- k) = Suc (nat (- (k + 1)))" using that by simp
    then show ?thesis by (simp only: pos_unit_def power_Suc)
  qed
qed (simp_all add: pos_unit_def pos_divisor_def)

lemma at_position_unique: "at_position T sh k P r \<Longrightarrow> at_position T sh k P' r' \<Longrightarrow> P = P' \<and> r = r'"
  unfolding at_position_def by (metis add.commute div_mult_self3 div_less add_0 mod_mult_self3 mod_less pos_divisor_pos
    gr_implies_not0)

text \<open>The next digit.\<close>

lemma at_position_step:
  assumes "at_position T sh (k + 1) P s"
  shows "if 0 \<le> k then at_position T sh k (10 * P + s div pos_divisor sh k) (s mod pos_divisor sh k) \<and> s div pos_divisor sh k \<le> 9
    else at_position T sh k (10 * P + 10 * s div 2 ^ sh) (10 * s mod 2 ^ sh) \<and> 10 * s div 2 ^ sh \<le> 9"
proof (cases "0 \<le> k")
  case True
  define D where "D = pos_divisor sh k"
  have D: "0 < D" by (simp add: D_def)
  have s: "T = P * (10 * D) + s" "s < 10 * D"
    using assms True by (simp_all add: at_position_def pos_simps(1,3) D_def)
  have "T = (10 * P + s div D) * D + s mod D" unfolding distrib_right add.assoc div_mult_mod_eq s(1) by simp
  moreover have "s mod D < D" using D by simp
  moreover have "s div D \<le> 9" using s(2) D by (simp add: less_mult_imp_div_less less_Suc_eq_le [symmetric])
  ultimately show ?thesis using True by (simp add: at_position_def pos_simps(1) D_def)
next
  case False
  define D where "D = (2 :: nat) ^ sh"
  have D: "0 < D" by (simp add: D_def)
  have s: "T * pos_unit (k + 1) = P * D + s" "s < D"
    using assms False by (simp_all add: at_position_def pos_simps(2) D_def)
  have "T * pos_unit k = 10 * (T * pos_unit (k + 1))" using False by (simp add: pos_simps(4))
  also have "\<dots> = 10 * P * D + 10 * s" unfolding s(1) by simp
  also have "\<dots> = (10 * P + 10 * s div D) * D + 10 * s mod D"
    unfolding distrib_right add.assoc by (simp only: div_mult_mod_eq)
  finally have "T * pos_unit k = (10 * P + 10 * s div D) * D + 10 * s mod D" .
  moreover have "10 * s mod D < D" using D by simp
  moreover have "10 * s div D \<le> 9" using s(2) D by (simp add: less_mult_imp_div_less less_Suc_eq_le [symmetric])
  ultimately show ?thesis using False by (simp add: at_position_def pos_simps(2) D_def)
qed

section \<open>Words\<close>

lemma unat_of_nat64: "n < 2 ^ 64 \<Longrightarrow> unat (of_nat n :: u64) = n"
  by (simp add: unsigned_of_nat take_bit_nat_eq_self)

lemma of_nat_unat64: "of_nat (unat x) = (x :: u64)"
  by simp

lemma and_mask_of_nat: "x AND (push_bit sh 1 - 1) = (of_nat (unat x mod 2 ^ sh) :: u64)" if "sh < 64"
proof -
  have "push_bit sh 1 - 1 = (mask sh :: u64)" by (simp add: mask_eq_exp_minus_1 push_bit_eq_mult)
  then have "x AND (push_bit sh 1 - 1) = take_bit sh x" by (simp only: take_bit_eq_mask)
  also have "\<dots> = of_nat (unat (take_bit sh x))" by simp
  finally show ?thesis by (simp only: unat_take)
qed

lemma powers_of_10_nth: "k < 20 \<Longrightarrow> unat (powers_of_10_64 ! k) = 10 ^ k"
proof -
  have "list_all (\<lambda>k. unat (powers_of_10_64 ! k) = 10 ^ k) [0..<20]"
    by (simp add: powers_of_10_64_def upt_rec)
  then show "k < 20 \<Longrightarrow> unat (powers_of_10_64 ! k) = 10 ^ k" unfolding list_all_iff by simp
qed

lemma pos_divisor_word:
  assumes "k < 20" "(10 :: nat) ^ k * 2 ^ sh < 2 ^ 64"
  shows "push_bit sh (powers_of_10_64 ! k) = of_nat (pos_divisor sh (int k))"
proof -
  have "unat (push_bit sh (powers_of_10_64 ! k)) = 10 ^ k * 2 ^ sh"
    using assms unat_push [of "powers_of_10_64 ! k" sh] powers_of_10_nth [OF assms(1)] by (simp only:)
  also have "\<dots> = unat (of_nat (pos_divisor sh (int k)) :: u64)"
    unfolding pos_divisor_def nat_int by (rule unat_of_nat64 [OF assms(2), symmetric])
  finally show ?thesis by (simp only: word_unat_eq_iff)
qed

lemma divmod_integral_unat:
  assumes "k < 10"
  shows "unat (fst (divmod_integral k n)) = unat n div 10 ^ k" "unat (snd (divmod_integral k n)) = unat n mod 10 ^ k"
proof -
  have "(10 :: nat) ^ k \<le> 10 ^ 9" using assms by (intro power_increasing) simp_all
  then have lt: "(10 :: nat) ^ k < 2 ^ 32" by simp
  have "(10 :: u32) ^ k = of_nat (10 ^ k)" by simp
  then have u: "unat ((10 :: u32) ^ k) = 10 ^ k" using lt by (simp only: unsigned_of_nat) (simp add: take_bit_nat_eq_self)
  show "unat (fst (divmod_integral k n)) = unat n div 10 ^ k" "unat (snd (divmod_integral k n)) = unat n mod 10 ^ k"
    by (simp_all add: divmod_integral_def unat_div unat_mod u)
qed

lemma count_digits_bounds:
  assumes "0 < unat n"
  defines "c \<equiv> grisu_count_digits n"
  shows "0 < c" "c \<le> 10" "10 ^ (c - 1) \<le> unat n" "unat n < 10 ^ c"
proof -
  define m where "m = unat n"
  have "m < 2 ^ 32" using unsigned_less [of n] by (simp add: m_def)
  moreover have "c = (if m < 10 then 1 else if m < 100 then 2 else if m < 1000 then 3 else if m < 10000 then 4
      else if m < 100000 then 5 else if m < 1000000 then 6 else if m < 10000000 then 7
      else if m < 100000000 then 8 else if m < 1000000000 then 9 else 10)"
    by (simp add: c_def grisu_count_digits_def word_less_nat_alt m_def)
  ultimately show "0 < c" "c \<le> 10" "10 ^ (c - 1) \<le> unat n" "unat n < 10 ^ c"
    using assms(1) unfolding m_def [symmetric] by (auto split: if_splits)
qed

text \<open>The integral part of a value, and its number of digits.\<close>

definition integral_of :: "fp \<Rightarrow> u32" where
  "integral_of v = ucast (drop_bit (nat (- fp_e v)) (fp_f v))"

lemma integral_of_spec:
  assumes "unat (fp_f v) = T" "fp_e v = - int sh" "32 \<le> sh" "sh \<le> 60" "2 ^ sh \<le> T"
  defines "n \<equiv> grisu_count_digits (integral_of v)"
  shows "unat (integral_of v) = T div 2 ^ sh" "integral_of v \<noteq> 0" "ucast (integral_of v) = drop_bit sh (fp_f v)"
    "0 < n" "n \<le> 10" "10 ^ (n - 1) * 2 ^ sh \<le> T" "T < 10 ^ n * 2 ^ sh"
proof -
  have T: "T < 2 ^ 64" using u64_bound [of "fp_f v"] by (simp only: assms(1))
  have "(2 :: nat) ^ 64 \<le> 2 ^ (32 + sh)" using assms(3) by (intro power_increasing) simp_all
  then have "T < 2 ^ 32 * 2 ^ sh" using T unfolding power_add by simp
  then have d: "T div 2 ^ sh < 2 ^ 32" by (simp add: less_mult_imp_div_less)
  have u: "unat (drop_bit sh (fp_f v)) = T div 2 ^ sh" by (simp only: unat_drop assms(1))
  then show i: "unat (integral_of v) = T div 2 ^ sh"
    using d by (simp add: integral_of_def assms(2) unsigned_ucast_eq take_bit_nat_eq_self)
  have p: "0 < T div 2 ^ sh" using assms(5) by (simp add: div_greater_zero_iff)
  then have "0 < unat (integral_of v)" by (simp only: i)
  then show "integral_of v \<noteq> 0" by auto
  have "unat (ucast (integral_of v) :: u64) = T div 2 ^ sh" using d i by (simp add: unsigned_ucast_eq take_bit_nat_eq_self)
  then show "ucast (integral_of v) = drop_bit sh (fp_f v)" using u by (simp only: word_unat_eq_iff)
  from count_digits_bounds [OF \<open>0 < unat (integral_of v)\<close>] show n: "0 < n" "n \<le> 10" unfolding n_def by simp_all
  from count_digits_bounds(3,4) [OF \<open>0 < unat (integral_of v)\<close>]
  have b: "10 ^ (n - 1) \<le> T div 2 ^ sh" "T div 2 ^ sh < 10 ^ n" unfolding n_def i by simp_all
  have "10 ^ (n - 1) * 2 ^ sh \<le> T div 2 ^ sh * 2 ^ sh" using b(1) by (rule mult_right_mono) simp
  also have "\<dots> \<le> T" by simp
  finally show "10 ^ (n - 1) * 2 ^ sh \<le> T" .
  show "T < 10 ^ n * 2 ^ sh" using b(2) by (simp add: div_less_iff_less_mult)
qed

text \<open>A handler that stops at the start.\<close>

lemma gen_digits_start:
  assumes "unat (fp_f v) = T" "fp_e v = - int sh" "32 \<le> sh" "sh \<le> 60" "2 ^ sh \<le> T"
  defines "n \<equiv> grisu_count_digits (integral_of v)"
  assumes "on_start h (push_bit sh (powers_of_10_64 ! (n - 1))) (fp_f v div 10) (error * 10) (int n) = Some (r, h1)" "r \<noteq> Digits_more"
  shows "grisu_gen_digits on_start on_digit v error h = Some (r, int n, h1)"
proof -
  note io = integral_of_spec [OF assms(1-5), folded n_def]
  have sh: "nat (- fp_e v) = sh" "shift_left64 1 (- fp_e v) = Some (push_bit sh 1)"
    using assms(2,4) by (simp_all add: shift_left64_def)
  have iw: "(ucast (drop_bit sh (fp_f v)) :: u32) = integral_of v" by (simp add: integral_of_def sh(1))
  show ?thesis
    using io(2,3) assms(8)
    by (simp only: grisu_gen_digits_def sh Let_def iw Option.bind.simps n_def [symmetric] assms(7) prod.case) simp
qed

section \<open>Handlers\<close>

text \<open>
  What the loops need of a handler.  \<open>I P k\<close>: it has taken the digits of \<open>P\<close>, the last one at position \<open>k\<close>, and wants
  more; \<open>Q r k\<close>: it has stopped at position \<open>k\<close> with result \<open>r\<close>.  It gets the exact remainder; to go on it has to
  keep the error small, and it stops before position -19.
\<close>

locale digit_handler =
  fixes on_digit :: "'h on_digit" and sh T err :: nat
    and I :: "nat \<Rightarrow> int \<Rightarrow> 'h \<Rightarrow> bool" and Q :: "digits_result \<Rightarrow> int \<Rightarrow> 'h \<Rightarrow> bool"
  assumes step: "I P (k + 1) h \<Longrightarrow> q \<le> 9 \<Longrightarrow> at_position T sh k (10 * P + q) s \<Longrightarrow>
    \<exists>r h'. on_digit h (digit_char q) (of_nat (pos_divisor sh k)) (of_nat s) (of_nat (err * pos_unit k)) k (0 \<le> k) = Some (r, h')
      \<and> (if r = Digits_more then I (10 * P + q) k h' \<and> (k \<le> 0 \<longrightarrow> 10 * (err * pos_unit k) < 2 ^ 64 \<and> - 19 < k) else Q r k h')"
begin

lemma fractional_loop_spec:
  assumes "I P k h" "at_position T sh k P f" "k \<le> 0" "10 * (err * pos_unit k) < 2 ^ 64" "- 19 < k" "sh \<le> 60"
  shows "\<exists>r k' h'. fractional_loop on_digit sh (push_bit sh 1) (of_nat f) (of_nat (err * pos_unit k)) k h = Some (r, k', h')
    \<and> r \<noteq> Digits_more \<and> Q r k' h'"
  using assms(1-5)
proof (induction "nat (k + 19)" arbitrary: P k h f rule: less_induct)
  case less
  define q s where "q = 10 * f div 2 ^ sh" and "s = 10 * f mod 2 ^ sh"
  have k1: "k - 1 + 1 = k" "\<not> 0 \<le> k - 1" "k - 1 < 0" using less.prems(3) by simp_all
  from at_position_step [of T sh "k - 1" P f] less.prems(2) k1 have
    pos: "at_position T sh (k - 1) (10 * P + q) s" "q \<le> 9" by (simp_all add: q_def s_def)
  have f: "f < 2 ^ sh" using less.prems(2,3) by (simp add: at_position_def pos_simps(2))
  have "(2 :: nat) ^ sh \<le> 2 ^ 60" using assms(6) by (intro power_increasing) simp_all
  then have f10: "10 * f < 2 ^ 64" using f by simp
  have w: "of_nat f * 10 = (of_nat (10 * f) :: u64)" by simp
  have dg: "unat (drop_bit sh (of_nat f * 10 :: u64)) = q" unfolding w q_def unat_drop unat_of_nat64 [OF f10] ..
  have fr: "of_nat f * 10 AND (push_bit sh 1 - 1) = (of_nat s :: u64)"
    unfolding w s_def using assms(6) by (subst and_mask_of_nat) (simp_all only: unat_of_nat64 [OF f10])
  have er: "of_nat (err * pos_unit k) * 10 = (of_nat (err * pos_unit (k - 1)) :: u64)"
    using pos_simps(4) [OF k1(3)] k1(1) by simp
  have dv: "push_bit sh 1 = (of_nat (pos_divisor sh (k - 1)) :: u64)"
    using k1(3) by (simp add: pos_simps(2) push_bit_eq_mult)
  have "I P (k - 1 + 1) h" using less.prems(1) by (simp only: k1(1))
  from step [OF this pos(2,1)] obtain r h' where
    d: "on_digit h (digit_char q) (of_nat (pos_divisor sh (k - 1))) (of_nat s) (of_nat (err * pos_unit (k - 1))) (k - 1) (0 \<le> k - 1) = Some (r, h')"
    "if r = Digits_more then I (10 * P + q) (k - 1) h' \<and> (k - 1 \<le> 0 \<longrightarrow> 10 * (err * pos_unit (k - 1)) < 2 ^ 64 \<and> - 19 < k - 1) else Q r (k - 1) h'"
    by blast
  have neg: "(0 \<le> k - 1) = False" using k1(2) by simp
  have e: "fractional_loop on_digit sh (push_bit sh 1) (of_nat f) (of_nat (err * pos_unit k)) k h
    = (if r \<noteq> Digits_more then Some (r, k - 1, h')
       else fractional_loop on_digit sh (push_bit sh 1) (of_nat s) (of_nat (err * pos_unit (k - 1))) (k - 1) h')"
    by (subst fractional_loop.simps) (simp only: Let_def dg fr er d(1) [unfolded neg dv [symmetric]] Option.bind.simps prod.case)
  show ?case
  proof (cases "r = Digits_more")
    case True
    then have "I (10 * P + q) (k - 1) h'" "10 * (err * pos_unit (k - 1)) < 2 ^ 64" "- 19 < k - 1" using d(2) k1(3) by simp_all
    from less.hyps [OF _ this(1) pos(1) _ this(2,3)] less.prems(3,5) True show ?thesis unfolding e by simp
  next
    case False
    then show ?thesis using d(2) unfolding e by auto
  qed
qed

lemma integral_loop_spec:
  assumes "I P (int n) h" "at_position T sh (int n) P (unat integral * 2 ^ sh + fr)" "fr < 2 ^ sh" "n \<le> 10" "sh < 64"
    and "0 < n \<longrightarrow> (10 :: nat) ^ (n - 1) * 2 ^ sh < 2 ^ 64" "n = 0 \<longrightarrow> 10 * err < 2 ^ 64" "unat integral * 2 ^ sh + fr < 2 ^ 64"
  shows "\<exists>r k h'. integral_loop on_digit sh (of_nat fr) (of_nat err) integral n h = Some (r, k, h')
    \<and> (if r = Digits_more then k = 0 \<and> 10 * err < 2 ^ 64 \<and> (\<exists>P'. I P' 0 h' \<and> at_position T sh 0 P' fr) else Q r (int k) h')"
  using assms
proof (induction n arbitrary: P h integral)
  case 0
  then have "unat integral * 2 ^ sh + fr < 2 ^ sh" by (simp add: at_position_def pos_simps(2))
  then have "unat integral * 2 ^ sh < 1 * 2 ^ sh" by linarith
  then have "unat integral = 0" by (simp only: mult_less_cancel2) simp
  then have "at_position T sh 0 P fr" "I P 0 h" "10 * err < 2 ^ 64" using 0 by simp_all
  then show ?case by auto
next
  case (Suc k)
  define i D where "i = unat integral" and "D = pos_divisor sh (int k)"
  have D: "D = 10 ^ k * 2 ^ sh" by (simp add: D_def pos_divisor_def)
  define s where "s = i * 2 ^ sh + fr"
  have sd: "s div D = i div 10 ^ k" "s mod D = i mod 10 ^ k * 2 ^ sh + fr"
  proof -
    have "s = (i mod 10 ^ k * 2 ^ sh + fr) + i div 10 ^ k * D"
      unfolding s_def D by (simp add: distrib_right [symmetric] mult.assoc [symmetric] flip: add.assoc)
        (metis div_mult_mod_eq add.commute distrib_right mult.assoc)
    moreover have "i mod 10 ^ k * 2 ^ sh + fr < D"
    proof -
      have "i mod 10 ^ k + 1 \<le> 10 ^ k" by (simp add: Suc_leI)
      then have "(i mod 10 ^ k + 1) * 2 ^ sh \<le> 10 ^ k * 2 ^ sh" by (rule mult_right_mono) simp
      then show ?thesis using Suc.prems(3) unfolding D by simp
    qed
    ultimately show "s div D = i div 10 ^ k" "s mod D = i mod 10 ^ k * 2 ^ sh + fr" by simp_all
  qed
  have k1: "int (Suc k) = int k + 1" by simp
  have "at_position T sh (int k + 1) P s" using Suc.prems(2) unfolding k1 s_def i_def .
  from at_position_step [OF this] have
    pos: "at_position T sh (int k) (10 * P + i div 10 ^ k) (i mod 10 ^ k * 2 ^ sh + fr)" "i div 10 ^ k \<le> 9"
    by (simp_all add: sd D_def [symmetric])
  obtain q rest where qr: "divmod_integral k integral = (q, rest)" by fastforce
  have "k < 10" using Suc.prems(4) by simp
  from divmod_integral_unat [OF this, of integral] have u: "unat q = i div 10 ^ k" "unat rest = i mod 10 ^ k" by (simp_all add: qr i_def)
  have lt: "unat rest * 2 ^ sh + fr < 2 ^ 64"
  proof -
    have "i mod 10 ^ k * 2 ^ sh \<le> i * 2 ^ sh" by (intro mult_right_mono) simp_all
    then show ?thesis using Suc.prems(8) unfolding u(2) i_def [symmetric] by linarith
  qed
  have rem: "push_bit sh (ucast rest) + of_nat fr = (of_nat (unat rest * 2 ^ sh + fr) :: u64)"
    by (simp add: push_bit_eq_mult)
  have dv: "push_bit sh (powers_of_10_64 ! k) = of_nat D"
    unfolding D_def using \<open>k < 10\<close> Suc.prems(6) by (intro pos_divisor_word) simp_all
  have un: "err = err * pos_unit (int k)" by (simp add: pos_simps(1))
  have "I P (int k + 1) h" using Suc.prems(1) by (simp only: k1)
  from step [OF this pos(2,1)] obtain r h' where
    d: "on_digit h (digit_char (unat q)) (of_nat D) (of_nat (unat rest * 2 ^ sh + fr)) (of_nat err) (int k) True = Some (r, h')"
    "if r = Digits_more then I (10 * P + unat q) (int k) h' \<and> (int k \<le> 0 \<longrightarrow> 10 * err < 2 ^ 64 \<and> - 19 < int k) else Q r (int k) h'"
    unfolding D_def [symmetric] un [symmetric] u(2) [symmetric] u(1) [symmetric] by auto
  have e: "integral_loop on_digit sh (of_nat fr) (of_nat err) integral (Suc k) h
    = (if r \<noteq> Digits_more then Some (r, k, h') else integral_loop on_digit sh (of_nat fr) (of_nat err) rest k h')"
    using \<open>k < 10\<close> by (simp only: integral_loop.simps Let_def qr prod.case rem dv d(1) Option.bind.simps) simp
  show ?case
  proof (cases "r = Digits_more")
    case False
    then show ?thesis using d(2) unfolding e by auto
  next
    case True
    have "0 < k \<longrightarrow> (10 :: nat) ^ (k - 1) * 2 ^ sh < 2 ^ 64"
    proof
      assume "0 < k"
      have "(10 :: nat) ^ (k - 1) * 2 ^ sh \<le> 10 ^ k * 2 ^ sh" by (intro mult_right_mono power_increasing) simp_all
      also have "\<dots> < 2 ^ 64" using Suc.prems(6) by simp
      finally show "(10 :: nat) ^ (k - 1) * 2 ^ sh < 2 ^ 64" .
    qed
    moreover have "I (10 * P + unat q) (int k) h'" "k = 0 \<longrightarrow> 10 * err < 2 ^ 64" using d(2) True by auto
    moreover have "at_position T sh (int k) (10 * P + unat q) (unat rest * 2 ^ sh + fr)" using pos(1) by (simp only: u)
    ultimately show ?thesis unfolding e using True Suc.IH [of "10 * P + unat q" h' rest] Suc.prems(3,4,5) lt by simp
  qed
qed

lemma gen_digits_spec:
  assumes "unat (fp_f v) = T" "fp_e v = - int sh" "32 \<le> sh" "sh \<le> 60" "2 ^ sh \<le> T"
  defines "n \<equiv> grisu_count_digits (integral_of v)"
  assumes start: "on_start h (push_bit sh (powers_of_10_64 ! (n - 1))) (fp_f v div 10) (of_nat err * 10) (int n) = Some (Digits_more, h1)"
    and inv: "I 0 (int n) h1"
  shows "\<exists>r k h'. grisu_gen_digits on_start on_digit v (of_nat err) h = Some (r, k, h') \<and> r \<noteq> Digits_more \<and> Q r k h'"
proof -
  note io = integral_of_spec [OF assms(1-5), folded n_def]
  have sh: "nat (- fp_e v) = sh" "shift_left64 1 (- fp_e v) = Some (push_bit sh 1)"
    using assms(2,4) by (simp_all add: shift_left64_def)
  have T: "T < 2 ^ 64" using u64_bound [of "fp_f v"] by (simp only: assms(1))
  define fr where "fr = T mod 2 ^ sh"
  have fr: "fp_f v AND (push_bit sh 1 - 1) = of_nat fr"
    using assms(4) and_mask_of_nat [of sh "fp_f v"] by (simp add: assms(1) fr_def)
  have iw: "(ucast (drop_bit sh (fp_f v)) :: u32) = integral_of v" by (simp add: integral_of_def sh(1))
  have s: "unat (integral_of v) * 2 ^ sh + fr = T" by (simp only: io(1) fr_def div_mult_mod_eq)
  have pos: "at_position T sh (int n) 0 (unat (integral_of v) * 2 ^ sh + fr)"
    using io(7) unfolding s by (simp add: at_position_def pos_simps(1) pos_divisor_def)
  have "0 < n \<longrightarrow> (10 :: nat) ^ (n - 1) * 2 ^ sh < 2 ^ 64" "n = 0 \<longrightarrow> 10 * err < 2 ^ 64" "fr < 2 ^ sh" "sh < 64"
    using io(4,6) T assms(4) by (simp_all add: fr_def)
  from integral_loop_spec [OF inv pos this(3) io(5) this(4) this(1,2)] s T obtain r k h' where
    l: "integral_loop on_digit sh (of_nat fr) (of_nat err) (integral_of v) n h1 = Some (r, k, h')"
    "if r = Digits_more then k = 0 \<and> 10 * err < 2 ^ 64 \<and> (\<exists>P'. I P' 0 h' \<and> at_position T sh 0 P' fr) else Q r (int k) h'" by auto
  have e: "grisu_gen_digits on_start on_digit v (of_nat err) h
    = (if r \<noteq> Digits_more then Some (r, int k, h')
       else fractional_loop on_digit sh (push_bit sh 1) (of_nat fr) (of_nat err) (int k) h')"
    using io(2,3)
    by (simp only: grisu_gen_digits_def sh Let_def iw fr Option.bind.simps n_def [symmetric] start prod.case l(1)) simp
  show ?thesis
  proof (cases "r = Digits_more")
    case False
    then show ?thesis using l(2) unfolding e by auto
  next
    case True
    then obtain P where P: "k = 0" "10 * err < 2 ^ 64" "I P 0 h'" "at_position T sh 0 P fr" using l(2) by auto
    have u: "pos_unit 0 = 1" by (simp add: pos_unit_def)
    from fractional_loop_spec [OF P(3,4)] P(2) assms(4) show ?thesis unfolding e using True P(1) by (simp add: u)
  qed
qed

end

end
