(* ===== verification/Bigint_Refines.thy ===== *)
theory Bigint_Refines imports Fmt_Bigint begin

text \<open>
  The operations of \<open>bigint\<close> refine the arithmetic of natural numbers: what each computes is stated on
  \<open>big_nat\<close>, the number a bigint stands for, under the invariant \<open>big_ok\<close> (the top bigit is not zero).
\<close>

section \<open>The number of an array of bigits\<close>

fun bigval :: "u32 list \<Rightarrow> nat" where
  "bigval [] = 0"
| "bigval (b # bs) = unat b + 2 ^ 32 * bigval bs"

definition big_nat :: "bigint \<Rightarrow> nat" where
  "big_nat x = bigval (bigits x) * 2 ^ (32 * big_exp x)"

definition top_ok :: "u32 list \<Rightarrow> bool" where
  "top_ok bs \<longleftrightarrow> bs \<noteq> [] \<and> last bs \<noteq> 0"

definition big_ok :: "bigint \<Rightarrow> bool" where
  "big_ok x \<longleftrightarrow> top_ok (bigits x)"

lemma bigval_append: "bigval (as @ bs) = bigval as + 2 ^ (32 * length as) * bigval bs"
  by (induction as) (simp_all add: algebra_simps power_add)

lemma bigval_zeros [simp]: "bigval (replicate n 0) = 0"
  by (induction n) simp_all

lemma bigval_bound: "bigval bs < 2 ^ (32 * length bs)"
proof (induction bs)
  case (Cons b bs)
  have "unat b + 2 ^ 32 * bigval bs < 2 ^ 32 + 2 ^ 32 * bigval bs" using unat_bigit [of b] by simp
  also have "\<dots> = 2 ^ 32 * (bigval bs + 1)" by simp
  also have "\<dots> \<le> 2 ^ 32 * 2 ^ (32 * length bs)" using Cons by (intro mult_left_mono) auto
  finally show ?case by (simp add: power_add)
qed simp

lemma bigval_top:
  assumes "top_ok bs"
  shows "2 ^ (32 * (length bs - 1)) \<le> bigval bs"
proof -
  have "bs = butlast bs @ [last bs]" using assms by (simp add: top_ok_def)
  then have "bigval bs = bigval (butlast bs) + 2 ^ (32 * length (butlast bs)) * unat (last bs)"
    by (metis bigval_append bigval.simps mult_zero_right add_0_right)
  moreover have "1 \<le> unat (last bs)" using assms by (simp add: top_ok_def Suc_leI unat_gt_0)
  then have "2 ^ (32 * length (butlast bs)) * 1 \<le> 2 ^ (32 * length (butlast bs)) * unat (last bs)" by (rule mult_left_mono) simp
  ultimately show ?thesis by (simp add: trans_le_add2)
qed

lemma big_nat_bound: "big_nat x < 2 ^ (32 * num_bigits x)"
  using bigval_bound [of "bigits x"] by (simp add: big_nat_def num_bigits_def power_add distrib_left)

lemma big_nat_top:
  assumes "big_ok x"
  shows "2 ^ (32 * (num_bigits x - 1)) \<le> big_nat x"
proof -
  have "bigits x \<noteq> []" using assms by (simp add: big_ok_def top_ok_def)
  then have "32 * (num_bigits x - 1) = 32 * (length (bigits x) - 1) + 32 * big_exp x"
    by (cases "bigits x") (simp_all add: num_bigits_def)
  with bigval_top [of "bigits x"] assms show ?thesis by (simp add: big_nat_def big_ok_def power_add)
qed

lemma top_ok_Cons: "top_ok (b # bs) \<longleftrightarrow> (if bs = [] then b \<noteq> 0 else top_ok bs)"
  by (simp add: top_ok_def)

lemma split_double: "unat (low32 r) + 2 ^ 32 * (unat r div 2 ^ 32) = unat r"
  by (simp add: unat_low32)

lemma low32_0: "low32 r = 0 \<longleftrightarrow> unat r mod 2 ^ 32 = 0"
  by (simp add: unat_eq_0 [symmetric] unat_low32)

section \<open>Assignment, multiplication, shifts\<close>

lemma bigval_assign: "bigval (assign_loop n) = unat n"
proof (induction n rule: assign_loop.induct)
  case (1 n)
  show ?case
  proof (cases "drop_bit 32 n = 0")
    case True
    then have "unat n div 2 ^ 32 = 0" using unat_drop32 [of n] by simp
    then show ?thesis using split_double [of n] True by (subst assign_loop.simps) simp
  next
    case False
    then have "bigval (assign_loop n) = unat (low32 n) + 2 ^ 32 * unat (drop_bit 32 n)"
      using 1 by (subst assign_loop.simps) simp
    then show ?thesis using split_double [of n] by (simp only: unat_drop32)
  qed
qed

lemma assign_top: "n \<noteq> 0 \<Longrightarrow> top_ok (assign_loop n)"
proof (induction n rule: assign_loop.induct)
  case (1 n)
  show ?case
  proof (cases "drop_bit 32 n = 0")
    case True
    then have d: "unat n div 2 ^ 32 = 0" using unat_drop32 [of n] by simp
    have "low32 n \<noteq> 0"
    proof
      assume "low32 n = 0"
      then have "unat n = 0" using split_double [of n] d by simp
      then show False using 1(2) by (simp add: unat_eq_0)
    qed
    then show ?thesis using True by (subst assign_loop.simps) (simp add: top_ok_def)
  next
    case False
    then show ?thesis using 1 by (subst assign_loop.simps) (simp add: top_ok_def)
  qed
qed

lemma big_assign_nat [simp]: "big_nat (big_assign n) = unat n"
  by (simp add: big_nat_def big_assign_def bigval_assign)

lemma big_assign_ok [simp]: "n \<noteq> 0 \<Longrightarrow> big_ok (big_assign n)"
  by (simp add: big_ok_def big_assign_def assign_top)

lemma prod_bound: "a < 2 ^ 32 \<Longrightarrow> b < 2 ^ 32 \<Longrightarrow> c < 2 ^ 32 \<Longrightarrow> d < 2 ^ 32 \<Longrightarrow> (a :: nat) * b + c + d < 2 ^ 64"
proof -
  assume "a < 2 ^ 32" "b < 2 ^ 32" "c < 2 ^ 32" "d < 2 ^ 32"
  then have le: "a \<le> 2 ^ 32 - 1" "b \<le> 2 ^ 32 - 1" "c \<le> 2 ^ 32 - 1" "d \<le> 2 ^ 32 - 1" by simp_all
  from mult_le_mono [OF le(1,2)] have "a * b \<le> (2 ^ 32 - 1) * (2 ^ 32 - 1)" .
  with le show ?thesis by simp
qed

lemma unat_mul_add:
  fixes r :: u64
  assumes "unat r < 2 ^ 32" "unat c < 2 ^ 32"
  shows "unat (wide b * r + c) = unat b * unat r + unat c"
proof -
  have "unat b * unat r + unat c + 0 < 2 ^ 64" using assms unat_bigit [of b] by (intro prod_bound) auto
  then show ?thesis by (simp add: unat_word_ariths)
qed

lemma bigval_mul32: "unat v < 2 ^ 32 \<Longrightarrow> bigval (mul32_loop v c bs) = bigval bs * unat v + unat c"
proof (induction bs arbitrary: c)
  case (Cons b bs)
  let ?r = "wide b * v + wide c"
  have r: "unat ?r = unat b * unat v + unat c" using Cons.prems unat_bigit [of c] by (simp add: unat_mul_add)
  have "bigval (mul32_loop v c (b # bs)) = unat (low32 ?r) + 2 ^ 32 * (bigval bs * unat v + unat ?r div 2 ^ 32)"
    using Cons by (simp add: Let_def unat_high32)
  also have "\<dots> = unat ?r + 2 ^ 32 * (bigval bs * unat v)" using split_double [of ?r] by (simp add: distrib_left)
  finally show ?case unfolding r by (simp add: algebra_simps del: mul32_loop.simps)
qed simp

lemma mul32_top:
  "top_ok bs \<Longrightarrow> v \<noteq> 0 \<Longrightarrow> unat v < 2 ^ 32 \<Longrightarrow> top_ok (mul32_loop v c bs)"
proof (induction bs arbitrary: c)
  case (Cons b bs)
  show ?case
  proof (cases "bs = []")
    case True
    let ?r = "wide b * v + wide c"
    have r: "unat ?r = unat b * unat v + unat c" using Cons.prems unat_bigit [of c] by (simp add: unat_mul_add)
    have "0 < unat b" "0 < unat v" using Cons.prems True by (simp_all add: top_ok_Cons unat_gt_0)
    then have "0 < unat ?r" by (simp add: r)
    then have "high32 ?r = 0 \<Longrightarrow> low32 ?r \<noteq> 0"
      using split_double [of ?r] unat_high32 [of ?r] by (auto simp: unat_eq_0 [symmetric])
    then show ?thesis using True by (auto simp: Let_def top_ok_def)
  next
    case False
    then have "top_ok bs" using Cons.prems by (simp add: top_ok_Cons)
    with Cons False show ?thesis by (auto simp: Let_def top_ok_Cons) (auto simp: top_ok_def)
  qed
qed (simp add: top_ok_def)

lemma big_mul32_nat [simp]: "big_nat (big_mul32 v x) = big_nat x * unat v"
  using unat_bigit [of v] by (simp add: big_nat_def big_mul32_def bigval_mul32)

lemma big_mul32_ok [simp]: "big_ok x \<Longrightarrow> v \<noteq> 0 \<Longrightarrow> big_ok (big_mul32 v x)"
  using unat_bigit [of v] mul32_top [of "bigits x" "wide v" 0]
  by (simp add: big_ok_def big_mul32_def unat_eq_0 [symmetric])

lemma bigval_push_carry: "bigval (push_carry c) = unat c"
proof (induction c rule: push_carry.induct)
  case (1 c)
  show ?case
  proof (cases "c = 0")
    case False
    then have "bigval (push_carry c) = unat (low32 c) + 2 ^ 32 * unat (drop_bit 32 c)"
      using 1 by (subst push_carry.simps) simp
    then show ?thesis using split_double [of c] by (simp only: unat_drop32)
  qed (simp add: push_carry.simps)
qed

lemma push_carry_top: "c \<noteq> 0 \<Longrightarrow> top_ok (push_carry c)"
proof (induction c rule: push_carry.induct)
  case (1 c)
  show ?case
  proof (cases "drop_bit 32 c = 0")
    case True
    then have d: "unat c div 2 ^ 32 = 0" using unat_drop32 [of c] by simp
    have "low32 c \<noteq> 0"
    proof
      assume "low32 c = 0"
      then have "unat c = 0" using split_double [of c] d by simp
      then show False using 1(2) by (simp add: unat_eq_0)
    qed
    then show ?thesis using True 1(2) by (subst push_carry.simps) (simp add: top_ok_def push_carry.simps)
  next
    case False
    then have "top_ok (push_carry (drop_bit 32 c))" using 1 by blast
    then show ?thesis using 1(2) by (subst push_carry.simps) (auto simp: top_ok_def)
  qed
qed

lemma top_ok_grow: "ys = [] \<or> top_ok ys \<Longrightarrow> 0 < bigval (b # ys) \<Longrightarrow> top_ok (b # ys)"
  by (cases "ys = []") (auto simp: top_ok_def unat_gt_0)

lemma mul64_carry:
  fixes b :: u32 and c :: u64
  assumes "unat l < 2 ^ 32" "unat u < 2 ^ 32"
  defines "r \<equiv> wide b * l + wide (low32 c)"
  shows "unat (low32 r) + 2 ^ 32 * unat (wide b * u + drop_bit 32 r + drop_bit 32 c)
    = unat b * (unat l + 2 ^ 32 * unat u) + unat c"
proof -
  have r: "unat r = unat b * unat l + unat (low32 c)"
    unfolding r_def using assms(1) unat_bigit [of "low32 c"] by (simp add: unat_mul_add)
  have d: "unat (drop_bit 32 r) < 2 ^ 32" "unat (drop_bit 32 c) < 2 ^ 32"
    using unat_double [of r] unat_double [of c] unfolding unat_drop32 by (simp_all add: div_less_iff_less_mult)
  have "unat b * unat u + unat (drop_bit 32 r) + unat (drop_bit 32 c) < 2 ^ 64"
    using assms(2) unat_bigit [of b] d by (intro prod_bound)
  then have "unat (wide b * u + drop_bit 32 r + drop_bit 32 c) = unat b * unat u + unat (drop_bit 32 r) + unat (drop_bit 32 c)"
    by (simp only: unat_word_ariths unat_wide) (simp add: mod_add_left_eq)
  then have "unat (low32 r) + 2 ^ 32 * unat (wide b * u + drop_bit 32 r + drop_bit 32 c)
      = (unat (low32 r) + 2 ^ 32 * (unat r div 2 ^ 32)) + 2 ^ 32 * (unat b * unat u) + 2 ^ 32 * (unat c div 2 ^ 32)"
    by (simp only: unat_drop32) (simp add: algebra_simps)
  also have "unat (low32 r) + 2 ^ 32 * (unat r div 2 ^ 32) = unat b * unat l + unat (low32 c)"
    unfolding split_double by (rule r)
  also have "unat b * unat l + unat (low32 c) + 2 ^ 32 * (unat b * unat u) + 2 ^ 32 * (unat c div 2 ^ 32)
      = unat b * unat l + (unat (low32 c) + 2 ^ 32 * (unat c div 2 ^ 32)) + 2 ^ 32 * (unat b * unat u)"
    by (simp only: ac_simps)
  also have "\<dots> = unat b * (unat l + 2 ^ 32 * unat u) + unat c"
    by (simp only: split_double) (simp only: ac_simps distrib_left)
  finally show ?thesis .
qed

lemma bigval_mul64:
  assumes "unat l < 2 ^ 32" "unat u < 2 ^ 32"
  shows "bigval (mul64_loop l u c bs) = bigval bs * (unat l + 2 ^ 32 * unat u) + unat c"
proof (induction bs arbitrary: c)
  case (Cons b bs)
  then show ?case using mul64_carry [OF assms, of b c] by (simp add: Let_def distrib_left) (simp add: algebra_simps)
qed (simp add: bigval_push_carry)

lemma mul64_top:
  assumes "unat l < 2 ^ 32" "unat u < 2 ^ 32" "0 < unat l + 2 ^ 32 * unat u"
  shows "bs = [] \<or> top_ok bs \<Longrightarrow> mul64_loop l u c bs = [] \<or> top_ok (mul64_loop l u c bs)"
proof (induction bs arbitrary: c)
  case Nil
  then show ?case using push_carry_top [of c] by (cases "c = 0") (simp_all add: push_carry.simps)
next
  case (Cons b bs)
  then have "bs = [] \<or> top_ok bs" "top_ok (b # bs)" by (auto simp: top_ok_Cons split: if_splits)
  moreover from this(2) have "0 < bigval (b # bs)"
    using bigval_top [of "b # bs"] by (metis zero_less_numeral zero_less_power less_le_trans)
  then have "0 < bigval (mul64_loop l u c (b # bs))" unfolding bigval_mul64 [OF assms(1,2)] using assms(3) by simp
  ultimately show ?case using Cons.IH by (auto simp: Let_def intro!: top_ok_grow)
qed

lemma big_mul64_nat [simp]: "big_nat (big_mul64 v x) = big_nat x * unat v"
proof -
  have h: "unat (wide (low32 v)) < 2 ^ 32" "unat (drop_bit 32 v) < 2 ^ 32"
    using unat_bigit unat_double [of v] by (simp_all only: unat_wide unat_drop32 div_less_iff_less_mult) simp_all
  have "unat (wide (low32 v)) + 2 ^ 32 * unat (drop_bit 32 v) = unat v" by (simp only: unat_wide unat_drop32 split_double)
  with bigval_mul64 [OF h, of 0 "bigits x"] show ?thesis by (simp add: big_nat_def big_mul64_def)
qed

lemma big_mul64_ok [simp]: "big_ok x \<Longrightarrow> v \<noteq> 0 \<Longrightarrow> big_ok (big_mul64 v x)"
proof -
  assume x: "big_ok x" and v: "v \<noteq> 0"
  have h: "unat (wide (low32 v)) < 2 ^ 32" "unat (drop_bit 32 v) < 2 ^ 32"
    using unat_bigit unat_double [of v] by (simp_all only: unat_wide unat_drop32 div_less_iff_less_mult) simp_all
  have s: "unat (wide (low32 v)) + 2 ^ 32 * unat (drop_bit 32 v) = unat v" by (simp only: unat_wide unat_drop32 split_double)
  have "0 < unat (wide (low32 v)) + 2 ^ 32 * unat (drop_bit 32 v)" unfolding s using v by (simp add: unat_gt_0)
  from mul64_top [OF h this, of "bigits x" 0] x show ?thesis
    by (cases "bigits x") (auto simp: big_ok_def big_mul64_def top_ok_def Let_def)
qed

text \<open>Shifts by less than a bigit.\<close>

lemma shift_carry:
  assumes "s < 32" "unat c < 2 ^ s"
  shows "unat (push_bit s b + c) + 2 ^ 32 * unat (drop_bit (32 - s) b) = unat (b :: u32) * 2 ^ s + unat c"
    and "unat (drop_bit (32 - s) b) < 2 ^ s"
proof -
  have p: "(2 :: nat) ^ 32 = 2 ^ s * 2 ^ (32 - s)" using assms(1) by (simp add: power_add [symmetric])
  have pb: "unat (push_bit s b) = 2 ^ s * (unat b mod 2 ^ (32 - s))"
  proof -
    have "unat (push_bit s b) = take_bit LENGTH(32) (push_bit s (unat b))" by (rule unsigned_push_bit_eq)
    also have "\<dots> = (2 ^ s * unat b) mod 2 ^ 32" by (simp add: take_bit_eq_mod push_bit_eq_mult mult.commute)
    finally show ?thesis by (simp only: p mult_mod_right)
  qed
  have db: "unat (drop_bit (32 - s) b) = unat b div 2 ^ (32 - s)"
    unfolding unsigned_drop_bit_eq take_bit_nat_eq_self [OF unsigned_less] by (rule drop_bit_eq_div)
  have "unat b mod 2 ^ (32 - s) \<le> 2 ^ (32 - s) - 1" by (simp add: Suc_leI less_Suc_eq_le [symmetric])
  then have "2 ^ s * (unat b mod 2 ^ (32 - s)) \<le> 2 ^ s * (2 ^ (32 - s) - 1)" by (rule mult_left_mono) simp
  also have "\<dots> = 2 ^ 32 - 2 ^ s" by (simp only: p diff_mult_distrib2 mult_1_right)
  finally have "unat (push_bit s b) + unat c < 2 ^ 32" using assms pb
    by (smt (verit) le_add_diff_inverse2 less_or_eq_imp_le nat_add_left_cancel_less order_le_less_trans power_strict_increasing_iff add_le_mono1 numeral_One one_less_numeral_iff semiring_norm(76))
  then have "unat (push_bit s b + c) = unat (push_bit s b) + unat c" by (simp add: unat_word_ariths)
  then have "unat (push_bit s b + c) + 2 ^ 32 * unat (drop_bit (32 - s) b)
      = 2 ^ s * (unat b mod 2 ^ (32 - s) + 2 ^ (32 - s) * (unat b div 2 ^ (32 - s))) + unat c"
    unfolding pb db p by (simp only: distrib_left mult.assoc add_ac)
  then show "unat (push_bit s b + c) + 2 ^ 32 * unat (drop_bit (32 - s) b) = unat b * 2 ^ s + unat c"
    unfolding mod_mult_div_eq by (simp only: mult.commute)
  have "unat b < 2 ^ s * 2 ^ (32 - s)" using unat_bigit [of b] p by simp
  then show "unat (drop_bit (32 - s) b) < 2 ^ s" unfolding db by (simp add: div_less_iff_less_mult)
qed

lemma bigval_shift: "s < 32 \<Longrightarrow> unat c < 2 ^ s \<Longrightarrow> bigval (shift_loop s c bs) = bigval bs * 2 ^ s + unat c"
proof (induction bs arbitrary: c)
  case (Cons b bs)
  then show ?case using shift_carry [OF Cons.prems, of b] by (simp add: algebra_simps)
qed simp

lemma shift_top: "s < 32 \<Longrightarrow> unat c < 2 ^ s \<Longrightarrow> bs = [] \<or> top_ok bs \<Longrightarrow> shift_loop s c bs = [] \<or> top_ok (shift_loop s c bs)"
proof (induction bs arbitrary: c)
  case (Cons b bs)
  then have "bs = [] \<or> top_ok bs" "top_ok (b # bs)" by (auto simp: top_ok_Cons split: if_splits)
  moreover from this(2) have "0 < bigval (b # bs)"
    using bigval_top [of "b # bs"] by (metis zero_less_numeral zero_less_power less_le_trans)
  then have "0 < bigval (shift_loop s c (b # bs))" unfolding bigval_shift [OF Cons.prems(1,2)] by simp
  ultimately show ?case using Cons.IH [OF Cons.prems(1) shift_carry(2) [OF Cons.prems(1,2)]]
    by (auto intro!: top_ok_grow)
qed (simp add: top_ok_def)

lemma shifted_nat [simp]: "big_nat (shifted k x) = big_nat x * 2 ^ k"
proof -
  have k: "k = k mod 32 + 32 * (k div 32)" by simp
  have "bigval (bigits (shifted k x)) = bigval (bigits x) * 2 ^ (k mod 32)"
    using bigval_shift [of "k mod 32" 0 "bigits x"] by (simp add: shifted_def Let_def)
  moreover have "big_exp (shifted k x) = big_exp x + k div 32" by (simp add: shifted_def Let_def)
  ultimately have "big_nat (shifted k x) = bigval (bigits x) * 2 ^ (k mod 32) * (2 ^ (32 * big_exp x) * 2 ^ (32 * (k div 32)))"
    by (simp add: big_nat_def distrib_left power_add)
  also have "\<dots> = big_nat x * (2 ^ (k mod 32) * 2 ^ (32 * (k div 32)))" by (simp add: big_nat_def)
  finally show ?thesis by (simp only: power_add [symmetric] k [symmetric])
qed

lemma shifted_ok [simp]: "big_ok x \<Longrightarrow> big_ok (shifted k x)"
  using shift_top [of "k mod 32" 0 "bigits x"]
  by (cases "bigits x") (auto simp: big_ok_def shifted_def Let_def top_ok_def)

end
