(* ===== verification/Bigint_Divide.thy ===== *)
theory Bigint_Divide imports Bigint_Refines begin

text \<open>
  Comparison, subtraction and division of \<open>bigint\<close>.  \<open>compare\<close> orders bigints of the same number by their
  exponents, and \<open>subtract_aligned\<close> does not pass a borrow over a zero bigit; the theorems say when this
  does not matter.
\<close>

section \<open>Comparison\<close>

definition order_of :: "nat \<Rightarrow> nat \<Rightarrow> int" where
  "order_of m n = (if m < n then - 1 else if n < m then 1 else 0)"

lemma digit_dominates:
  fixes a b :: u32 and p q P :: nat
  assumes "a < b" "p < P"
  shows "p + P * unat a < q + P * unat b"
proof -
  have "unat a + 1 \<le> unat b" using assms(1) by (simp add: word_less_nat_alt Suc_leI)
  then have "P * (unat a + 1) \<le> P * unat b" by (rule mult_left_mono) simp
  with assms(2) show ?thesis by simp
qed

lemma compare_loop_spec:
  assumes "length as + ea = length bs + eb"
  shows "compare_loop as bs = (let A = bigval (rev as) * 2 ^ (32 * ea); B = bigval (rev bs) * 2 ^ (32 * eb) in
    if A \<noteq> B then order_of A B else order_of (length as) (length bs))"
  using assms
proof (induction as bs rule: compare_loop.induct)
  case 1
  then show ?case by (simp add: order_of_def)
next
  case (2 b bs)
  then show ?case by (simp add: order_of_def)
next
  case (3 a as)
  then show ?case by (simp add: order_of_def)
next
  case (4 a as b bs)
  define P where "P = (2 :: nat) ^ (32 * (length as + ea))"
  have e: "length as + ea = length bs + eb" using "4.prems" by simp
  have P: "P = 2 ^ (32 * length as) * 2 ^ (32 * ea)" "P = 2 ^ (32 * length bs) * 2 ^ (32 * eb)"
    unfolding P_def by (simp add: distrib_left power_add, simp add: e distrib_left power_add)
  define A B where "A = bigval (rev as) * 2 ^ (32 * ea)" and "B = bigval (rev bs) * 2 ^ (32 * eb)"
  have lt: "A < P" unfolding P(1) A_def using bigval_bound [of "rev as"] by simp
  have lt_B: "B < P" unfolding P(2) B_def using bigval_bound [of "rev bs"] by simp
  have v: "bigval (rev (a # as)) * 2 ^ (32 * ea) = A + P * unat a" "bigval (rev (b # bs)) * 2 ^ (32 * eb) = B + P * unat b"
    unfolding A_def B_def by (simp add: bigval_append P(1) algebra_simps, simp add: bigval_append P(2) algebra_simps)
  show ?case
  proof (cases "a = b")
    case True
    with "4.IH" "4.prems" show ?thesis unfolding Let_def v by (simp add: A_def [symmetric] B_def [symmetric] order_of_def Let_def)
  next
    case False
    then consider "a < b" | "b < a" by (meson linorder_neqE)
    then show ?thesis
    proof cases
      case 1
      with digit_dominates [OF 1 lt, of B] show ?thesis unfolding Let_def v by (auto simp: order_of_def)
    next
      case 2
      with digit_dominates [OF 2 lt_B, of A] show ?thesis unfolding Let_def v by (auto simp: order_of_def)
    qed
  qed
qed

text \<open>The top bigit of a zero is zero; that must not be above the other number.\<close>

definition tops_ok :: "bigint \<Rightarrow> bigint \<Rightarrow> bool" where
  "tops_ok x y \<longleftrightarrow> (big_ok x \<or> num_bigits x \<le> num_bigits y) \<and> (big_ok y \<or> num_bigits y \<le> num_bigits x)"

lemma num_bigits_less:
  assumes "num_bigits x < num_bigits y" "big_ok y"
  shows "big_nat x < big_nat y"
proof -
  have "big_nat x < 2 ^ (32 * num_bigits x)" by (rule big_nat_bound)
  also have "\<dots> \<le> 2 ^ (32 * (num_bigits y - 1))" using assms(1) by (intro power_increasing) auto
  also have "\<dots> \<le> big_nat y" using assms(2) by (rule big_nat_top)
  finally show ?thesis .
qed

lemma big_compare_spec:
  assumes "tops_ok x y"
  shows "big_compare x y = (if big_nat x \<noteq> big_nat y then order_of (big_nat x) (big_nat y) else order_of (big_exp y) (big_exp x))"
proof (cases "num_bigits x" "num_bigits y" rule: linorder_cases)
  case less
  then have "big_nat x < big_nat y" using assms by (intro num_bigits_less) (auto simp: tops_ok_def)
  then show ?thesis using less by (simp add: big_compare_def order_of_def)
next
  case equal
  then have l: "length (rev (bigits x)) + big_exp x = length (rev (bigits y)) + big_exp y" by (simp add: num_bigits_def)
  then have "order_of (length (bigits x)) (length (bigits y)) = order_of (big_exp y) (big_exp x)" by (auto simp: order_of_def)
  then show ?thesis using equal compare_loop_spec [OF l] by (simp add: big_compare_def big_nat_def Let_def)
next
  case greater
  then have "big_nat y < big_nat x" using assms by (intro num_bigits_less) (auto simp: tops_ok_def)
  then show ?thesis using greater by (simp add: big_compare_def order_of_def)
qed

lemma bigval_nth: "i < length bs \<Longrightarrow> unat (bs ! i) = bigval bs div 2 ^ (32 * i) mod 2 ^ 32"
proof (induction bs arbitrary: i)
  case (Cons b bs)
  show ?case
  proof (cases i)
    case 0
    then show ?thesis using unat_bigit [of b] by simp
  next
    case (Suc k)
    have "(unat b + 2 ^ 32 * bigval bs) div 2 ^ 32 = bigval bs" using unat_bigit [of b] by simp
    then have "(unat b + 2 ^ 32 * bigval bs) div 2 ^ (32 * Suc k) = bigval bs div 2 ^ (32 * k)"
      by (simp only: mult_Suc_right power_add div_mult2_eq)
    then show ?thesis using Suc Cons by (simp del: power_Suc mult_Suc_right)
  qed
qed simp

lemma get_bigit_nat: "unat (get_bigit x i) = big_nat x div 2 ^ (32 * i) mod 2 ^ 32"
proof (cases "big_exp x \<le> i")
  case True
  define k where "k = i - big_exp x"
  have i: "32 * i = 32 * big_exp x + 32 * k" using True by (simp add: k_def)
  have "big_nat x div 2 ^ (32 * i) = bigval (bigits x) div 2 ^ (32 * k)"
    by (simp add: big_nat_def i power_add div_mult2_eq)
  moreover have "unat (get_bigit x i) = bigval (bigits x) div 2 ^ (32 * k) mod 2 ^ 32"
  proof (cases "i < num_bigits x")
    case True
    then show ?thesis using \<open>big_exp x \<le> i\<close> bigval_nth [of k "bigits x"]
      by (simp add: get_bigit_def k_def num_bigits_def less_diff_conv2)
  next
    case False
    then have "length (bigits x) \<le> k" using \<open>big_exp x \<le> i\<close> by (simp add: k_def num_bigits_def)
    then have "bigval (bigits x) < 2 ^ (32 * k)"
      using bigval_bound [of "bigits x"] by (meson less_le_trans mult_le_mono2 one_le_numeral power_increasing)
    then show ?thesis using False by (simp add: get_bigit_def)
  qed
  ultimately show ?thesis by simp
next
  case False
  then have "32 * big_exp x = 32 * i + 32 + 32 * (big_exp x - i - 1)" by simp
  then have "big_nat x = 2 ^ (32 * i) * (2 ^ 32 * (bigval (bigits x) * 2 ^ (32 * (big_exp x - i - 1))))"
    unfolding big_nat_def by (simp only: power_add ac_simps)
  then have "big_nat x div 2 ^ (32 * i) mod 2 ^ 32 = 0" by simp
  then show ?thesis using False by (simp add: get_bigit_def)
qed

text \<open>The part of a number below a position, bigit by bigit.\<close>

lemma low_part_Suc:
  "big_nat x mod 2 ^ (32 * Suc i) = big_nat x mod 2 ^ (32 * i) + 2 ^ (32 * i) * unat (get_bigit x i)"
proof -
  have "(2 :: nat) ^ (32 * Suc i) = 2 ^ (32 * i) * 2 ^ 32" by (simp add: power_add)
  then show ?thesis unfolding get_bigit_nat by (simp only: mod_mult2_eq add.commute)
qed

lemma low_part_exp: "i \<le> big_exp x \<Longrightarrow> big_nat x mod 2 ^ (32 * i) = 0"
  by (simp add: big_nat_def le_imp_power_dvd mod_eq_0_iff_dvd dvd_mult)

lemma low_part_all: "num_bigits x \<le> i \<Longrightarrow> big_nat x mod 2 ^ (32 * i) = big_nat x"
  using big_nat_bound [of x] by (intro mod_less less_le_trans [OF big_nat_bound] power_increasing) auto

lemma add_compare_loop_spec:
  assumes "b \<le> 1" "unat borrow = 2 ^ 32 * b" "min_exp \<le> big_exp x" "min_exp \<le> big_exp y" "min_exp \<le> big_exp z"
  shows "add_compare_loop x y z min_exp k borrow = (let P = 2 ^ (32 * (min_exp + k)) in
    order_of (big_nat x mod P + big_nat y mod P) (big_nat z mod P + P * b))"
  using assms(1,2)
proof (induction k arbitrary: b borrow)
  case 0
  have "borrow \<noteq> 0 \<longleftrightarrow> b \<noteq> 0" using "0.prems"(2) by (metis unat_eq_zero mult_eq_0_iff zero_neq_numeral power_eq_0_iff)
  then show ?case using assms(3-5) by (simp add: low_part_exp order_of_def)
next
  case (Suc k)
  define i P where "i = min_exp + k" and "P = (2 :: nat) ^ (32 * i)"
  define xi yi zi where "xi = get_bigit x i" and "yi = get_bigit y i" and "zi = get_bigit z i"
  define X Y Z where "X = big_nat x mod P" and "Y = big_nat y mod P" and "Z = big_nat z mod P"
  have lt: "X < P" "Y < P" "Z < P" by (simp_all add: X_def Y_def Z_def P_def)
  let ?s = "wide xi + wide yi" and ?r = "wide zi + borrow"
  have u: "unat ?s = unat xi + unat yi" "unat ?r = unat zi + 2 ^ 32 * b"
    using unat_bigit [of xi] unat_bigit [of yi] unat_bigit [of zi] Suc.prems by (simp_all add: unat_word_ariths)
  have q: "2 ^ (32 * (min_exp + Suc k)) = 2 ^ 32 * P" by (simp add: P_def i_def power_add)
  have m: "big_nat x mod (2 ^ 32 * P) = X + P * unat xi" "big_nat y mod (2 ^ 32 * P) = Y + P * unat yi"
    "big_nat z mod (2 ^ 32 * P) = Z + P * unat zi"
    using low_part_Suc [of x i] low_part_Suc [of y i] low_part_Suc [of z i]
    by (simp_all add: X_def Y_def Z_def xi_def yi_def zi_def P_def power_add)
  have step: "add_compare_loop x y z min_exp (Suc k) borrow
      = (if ?r < ?s then 1 else if 1 < ?r - ?s then - 1 else add_compare_loop x y z min_exp k (push_bit 32 (?r - ?s)))"
    by (simp add: Let_def i_def xi_def yi_def zi_def)
  have goal: "order_of (big_nat x mod (2 ^ 32 * P) + big_nat y mod (2 ^ 32 * P)) (big_nat z mod (2 ^ 32 * P) + 2 ^ 32 * P * b)
      = order_of (X + Y + P * unat ?s) (Z + P * unat ?r)"
    unfolding m u by (simp add: distrib_left ac_simps)
  show ?case
  proof (cases "?r < ?s")
    case True
    then have "unat ?r + 1 \<le> unat ?s" by (simp add: word_less_nat_alt)
    then have "P * (unat ?r + 1) \<le> P * unat ?s" by (rule mult_left_mono) simp
    then have "Z + P * unat ?r < X + Y + P * unat ?s" using lt by simp
    then show ?thesis unfolding step q Let_def goal using True by (simp add: order_of_def)
  next
    case False
    then have le: "unat ?s \<le> unat ?r" by (simp add: word_less_nat_alt not_less)
    then have d: "unat (?r - ?s) = unat ?r - unat ?s" by (simp add: unat_sub word_le_nat_alt)
    have e: "P * unat ?r = P * unat ?s + P * unat (?r - ?s)" using le unfolding d by (simp add: diff_mult_distrib2)
    show ?thesis
    proof (cases "1 < ?r - ?s")
      case True
      then have "2 \<le> unat (?r - ?s)" by (simp add: word_less_nat_alt)
      then have "P * 2 \<le> P * unat (?r - ?s)" by (rule mult_left_mono) simp
      then have "X + Y + P * unat ?s < Z + P * unat ?r" using lt e by linarith
      then show ?thesis unfolding step q Let_def goal using True False by (simp add: order_of_def)
    next
      case False
      define c where "c = unat (?r - ?s)"
      have c: "c \<le> 1" using False by (simp add: c_def word_less_nat_alt not_less)
      have "unat (push_bit 32 (?r - ?s)) = take_bit LENGTH(64) (push_bit 32 c)"
        unfolding c_def by (rule unsigned_push_bit_eq)
      then have "unat (push_bit 32 (?r - ?s)) = 2 ^ 32 * c" using c by (simp add: push_bit_eq_mult take_bit_eq_mod)
      from Suc.IH [OF c this] have "add_compare_loop x y z min_exp k (push_bit 32 (?r - ?s)) = order_of (X + Y) (Z + P * c)"
        by (simp only: Let_def X_def Y_def Z_def P_def i_def)
      moreover have "order_of (X + Y) (Z + P * c) = order_of (X + Y + P * unat ?s) (Z + P * unat ?r)"
        using e by (simp add: order_of_def c_def)
      ultimately show ?thesis unfolding step q Let_def goal using False \<open>\<not> ?r < ?s\<close> by simp
    qed
  qed
qed

lemma big_add_compare_spec:
  assumes "big_ok z \<or> num_bigits z \<le> max (num_bigits x) (num_bigits y) + 1"
    and "num_bigits x \<le> num_bigits z \<or> big_ok x \<and> num_bigits y \<le> num_bigits x
      \<or> big_ok y \<and> num_bigits x \<le> num_bigits y"
    and "num_bigits y \<le> num_bigits z \<or> big_ok x \<and> num_bigits y \<le> num_bigits x
      \<or> big_ok y \<and> num_bigits x \<le> num_bigits y"
  shows "big_add_compare x y z = order_of (big_nat x + big_nat y) (big_nat z)"
proof -
  let ?m = "max (num_bigits x) (num_bigits y)" and ?e = "min (min (big_exp x) (big_exp y)) (big_exp z)"
  have bound: "big_nat x < 2 ^ (32 * ?m)" "big_nat y < 2 ^ (32 * ?m)"
    by (rule less_le_trans [OF big_nat_bound power_increasing]; simp)+
  consider "?m + 1 < num_bigits z" | "num_bigits z < ?m" | "?m \<le> num_bigits z" "num_bigits z \<le> ?m + 1" by linarith
  then show ?thesis
  proof cases
    case 1
    then have "big_ok z" using assms(1) by simp
    have "big_nat x + big_nat y < 2 ^ (32 * ?m) * 2 ^ 32" using bound by simp
    also have "\<dots> = 2 ^ (32 * (?m + 1))" by (simp add: power_add)
    also have "\<dots> \<le> 2 ^ (32 * (num_bigits z - 1))" using 1 by (intro power_increasing) auto
    also have "\<dots> \<le> big_nat z" by (rule big_nat_top [OF \<open>big_ok z\<close>])
    finally show ?thesis using 1 by (simp add: big_add_compare_def order_of_def Let_def)
  next
    case 2
    then have "\<exists>w \<in> {x, y}. big_ok w \<and> num_bigits z < num_bigits w" using assms(2,3) by (auto simp: max_def split: if_splits)
    then have "big_nat z < big_nat x \<or> big_nat z < big_nat y" using num_bigits_less by auto
    then show ?thesis using 2 by (auto simp: big_add_compare_def order_of_def Let_def)
  next
    case 3
    have k: "?e + (num_bigits z - ?e) = num_bigits z" by (simp add: num_bigits_def)
    have "num_bigits x \<le> num_bigits z" "num_bigits y \<le> num_bigits z" using 3(1) by simp_all
    then have m: "big_nat x mod 2 ^ (32 * num_bigits z) = big_nat x" "big_nat y mod 2 ^ (32 * num_bigits z) = big_nat y"
      "big_nat z mod 2 ^ (32 * num_bigits z) = big_nat z"
      by (simp_all only: low_part_all order_refl)
    have "add_compare_loop x y z ?e (num_bigits z - ?e) 0 = order_of (big_nat x + big_nat y) (big_nat z)"
      using add_compare_loop_spec [of 0 0 ?e x y z "num_bigits z - ?e"] by (simp only: Let_def k m) simp
    moreover have "\<not> ?m + 1 < num_bigits z" "\<not> num_bigits z < ?m" using 3 by linarith+
    ultimately show ?thesis unfolding big_add_compare_def Let_def by (simp only: if_False)
  qed
qed

section \<open>Subtraction\<close>

lemma bigval_update:
  "i < length bs \<Longrightarrow> bigval (bs[i := v]) + 2 ^ (32 * i) * unat (bs ! i) = bigval bs + 2 ^ (32 * i) * unat v"
proof (induction bs arbitrary: i)
  case (Cons b bs)
  show ?case
  proof (cases i)
    case (Suc k)
    define M Q where "M = (2 :: nat) ^ 32" and "Q = (2 :: nat) ^ (32 * k)"
    have MQ: "2 ^ (32 * i) = M * Q" by (simp add: Suc M_def Q_def power_add)
    have "bigval (bs[k := v]) + Q * unat (bs ! k) = bigval bs + Q * unat v" using Cons Suc by (simp add: Q_def)
    then have "M * (bigval (bs[k := v]) + Q * unat (bs ! k)) = M * (bigval bs + Q * unat v)" by simp
    then show ?thesis by (simp only: MQ) (simp add: Suc M_def distrib_left mult.assoc)
  qed simp
qed simp

lemma subtract_bigits_spec:
  assumes "i < length bs" "unat br \<le> 1"
  obtains v br' where "subtract_bigits i c (bs, br) = Some (bs[i := v], br')"
    "unat v + unat c + unat br = unat (bs ! i) + 2 ^ 32 * unat br'" "unat br' \<le> 1"
proof -
  let ?b = "bs ! i"
  define r where "r = wide ?b - wide c - wide br"
  have b: "unat ?b < 2 ^ 32" "unat c < 2 ^ 32" by (rule unat_bigit)+
  have "subtract_bigits i c (bs, br) = Some (bs[i := low32 r], ucast (drop_bit 63 r))"
    using assms(1) by (simp add: subtract_bigits_def r_def Let_def)
  moreover have "unat (ucast (drop_bit 63 r) :: u32) = unat r div 2 ^ 63"
  proof -
    have d: "unat (drop_bit 63 r) = unat r div 2 ^ 63"
      unfolding unsigned_drop_bit_eq take_bit_nat_eq_self [OF unsigned_less] by (rule drop_bit_eq_div)
    have "unat r div 2 ^ 63 < 2" using unat_double [of r] by (simp add: div_less_iff_less_mult)
    then show ?thesis unfolding unsigned_ucast_eq take_bit_eq_mod d by simp
  qed
  moreover have "unat (low32 r) + unat c + unat br = unat ?b + 2 ^ 32 * (unat r div 2 ^ 63) \<and> unat r div 2 ^ 63 \<le> 1"
  proof (cases "unat c + unat br \<le> unat ?b")
    case True
    then have "unat r = unat ?b - unat c - unat br" unfolding r_def by (simp add: unat_sub_if')
    moreover from this have "unat r < 2 ^ 32" using b by linarith
    ultimately show ?thesis using True unfolding unat_low32 by simp
  next
    case False
    have "unat r = unat ?b + 2 ^ 64 - unat c - unat br"
    proof (cases "unat c \<le> unat ?b")
      case True
      then show ?thesis using False assms(2) unfolding r_def by (simp add: unat_sub_if')
    next
      case ge: False
      then show ?thesis using assms(2) b unfolding r_def by (simp add: unat_sub_if')
    qed
    then have r: "unat r = (unat ?b + 2 ^ 32 - unat c - unat br) + 2 ^ 32 * (2 ^ 32 - 1)"
      using b assms(2) by simp
    have lt: "unat ?b + 2 ^ 32 - unat c - unat br < 2 ^ 32" using False by simp
    have "unat r mod 2 ^ 32 = unat ?b + 2 ^ 32 - unat c - unat br" by (simp only: r mod_mult_self2 mod_less [OF lt])
    moreover have "2 ^ 63 \<le> unat r" "unat r < 2 ^ 64" unfolding r using lt by simp_all
    then have "unat r div 2 ^ 63 = 1" by (intro div_nat_eqI) simp_all
    ultimately show ?thesis using b assms(2) unfolding unat_low32 by simp
  qed
  ultimately show thesis using that by metis
qed

lemma subtract_loop_spec:
  assumes "i + length cs \<le> length bs" "unat br \<le> 1"
  obtains bs' br' where "subtract_loop i cs (bs, br) = Some (bs', br')" "length bs' = length bs" "unat br' \<le> 1"
    "bigval bs' + 2 ^ (32 * i) * (bigval cs + unat br) = bigval bs + 2 ^ (32 * (i + length cs)) * unat br'"
    "\<forall>j \<ge> i + length cs. bs' ! j = bs ! j"
  using assms
proof (induction cs arbitrary: i bs br thesis)
  case Nil
  from Nil(1) [of bs br] Nil(2,3) show ?case by simp
next
  case (Cons c cs)
  have "i < length bs" using Cons.prems(2) by simp
  from subtract_bigits_spec [OF this Cons.prems(3), of c] obtain v b1 where s: "subtract_bigits i c (bs, br) = Some (bs[i := v], b1)"
    "unat v + unat c + unat br = unat (bs ! i) + 2 ^ 32 * unat b1" "unat b1 \<le> 1" .
  have "Suc i + length cs \<le> length (bs[i := v])" using Cons.prems(2) by simp
  from Cons.IH [OF _ this s(3)] obtain bs' br' where r: "subtract_loop (Suc i) cs (bs[i := v], b1) = Some (bs', br')"
    "length bs' = length bs" "unat br' \<le> 1"
    "bigval bs' + 2 ^ (32 * Suc i) * (bigval cs + unat b1) = bigval (bs[i := v]) + 2 ^ (32 * (Suc i + length cs)) * unat br'"
    "\<forall>j \<ge> Suc i + length cs. bs' ! j = bs[i := v] ! j" by auto
  define P where "P = (2 :: nat) ^ (32 * i)"
  have P: "2 ^ (32 * Suc i) = 2 ^ 32 * P" by (simp add: P_def power_add)
  have u: "bigval (bs[i := v]) + P * unat (bs ! i) = bigval bs + P * unat v"
    using bigval_update [of i bs v] Cons.prems(2) by (simp add: P_def)
  have "P * (unat v + unat c + unat br) = P * (unat (bs ! i) + 2 ^ 32 * unat b1)" unfolding s(2) ..
  then have "P * unat v + P * (unat c + unat br) = P * unat (bs ! i) + 2 ^ 32 * P * unat b1" by (simp add: distrib_left)
  moreover have "bigval bs' + 2 ^ 32 * P * bigval cs + 2 ^ 32 * P * unat b1
      = bigval (bs[i := v]) + 2 ^ (32 * (i + length (c # cs))) * unat br'"
    using r(4) unfolding P by (simp add: distrib_left)
  ultimately have "bigval bs' + P * (bigval (c # cs) + unat br) = bigval bs + 2 ^ (32 * (i + length (c # cs))) * unat br'"
    using u by (simp add: distrib_left)
  moreover have "\<forall>j \<ge> i + length (c # cs). bs' ! j = bs ! j" using r(5) by auto
  ultimately show ?case using Cons.prems(1) r(1-3) s(1) by (simp add: P_def)
qed

lemma strip_index_spec:
  assumes "k < length bs" "\<forall>j. k < j \<and> j < length bs \<longrightarrow> bs ! j = 0"
  shows "strip_index bs k \<le> k \<and> (\<forall>j. strip_index bs k < j \<and> j < length bs \<longrightarrow> bs ! j = 0)
    \<and> (strip_index bs k = 0 \<or> bs ! strip_index bs k \<noteq> 0)"
  using assms
proof (induction k)
  case (Suc k)
  show ?case
  proof (cases "bs ! Suc k = 0")
    case True
    then have "\<forall>j. k < j \<and> j < length bs \<longrightarrow> bs ! j = 0" using Suc.prems(2) by (metis Suc_lessI)
    with Suc.IH Suc.prems(1) True show ?thesis by auto
  qed (use Suc.prems in auto)
qed auto

lemma bigval_all_zero: "(\<forall>b \<in> set bs. b = 0) \<Longrightarrow> bigval bs = 0"
  by (induction bs) auto

lemma remove_leading_zeros_spec:
  assumes "bs \<noteq> []"
  shows "bigval (remove_leading_zeros bs) = bigval bs" "remove_leading_zeros bs = [0] \<or> top_ok (remove_leading_zeros bs)"
    "length (remove_leading_zeros bs) \<le> length bs"
proof -
  define k where "k = strip_index bs (length bs - 1)"
  have l: "length bs - 1 < length bs" "\<forall>j. length bs - 1 < j \<and> j < length bs \<longrightarrow> bs ! j = 0" 
    using assms by (simp, presburger)
  note s = strip_index_spec [OF l, folded k_def]
  have k: "k < length bs" "\<forall>j. k < j \<and> j < length bs \<longrightarrow> bs ! j = 0" "k = 0 \<or> bs ! k \<noteq> 0"
    using s l(1) by linarith (rule s [THEN conjunct2, THEN conjunct1], rule s [THEN conjunct2, THEN conjunct2])
  have r: "remove_leading_zeros bs = take (Suc k) bs" by (simp add: remove_leading_zeros_def k_def)
  have "\<forall>b \<in> set (drop (Suc k) bs). b = 0" using k(2) by (auto simp: in_set_conv_nth)
  then have "bigval (drop (Suc k) bs) = 0" by (rule bigval_all_zero)
  then show "bigval (remove_leading_zeros bs) = bigval bs"
    unfolding r using bigval_append [of "take (Suc k) bs" "drop (Suc k) bs"] by simp
  have "last (take (Suc k) bs) = bs ! k" using k(1) by (simp add: take_Suc_conv_app_nth)
  then show "remove_leading_zeros bs = [0] \<or> top_ok (remove_leading_zeros bs)"
    unfolding r using k(1,3) assms by (cases bs) (auto simp: top_ok_def)
  show "length (remove_leading_zeros bs) \<le> length bs" unfolding r by simp
qed

lemma borrow_loop_0: "borrow_loop i (bs, 0) = Some bs"
  by (subst borrow_loop.simps) simp

text \<open>The loop stays at one position: over a zero bigit it goes round twice.\<close>

lemma borrow_loop_1:
  assumes "i < length bs"
  shows "borrow_loop i (bs, 1) = Some (bs[i := (if bs ! i = 0 then - 2 else bs ! i - 1)])"
proof (cases "bs ! i = 0")
  case True
  from subtract_bigits_spec [OF assms, of 1 0] obtain v b where v: "subtract_bigits i 0 (bs, 1) = Some (bs[i := v], b)"
    "unat v + 1 = 2 ^ 32 * unat b" "unat b \<le> 1" using True by auto
  then have "unat b = 1" "unat v = 2 ^ 32 - 1" by (cases "unat b"; simp)+
  then have "v = - 1" "b = 1" by (simp_all add: word_unat_eq_iff unsigned_minus_1_eq_mask mask_eq_exp_minus_1)
  then have s1: "subtract_bigits i 0 (bs, 1) = Some (bs[i := - 1], 1)" using v(1) by simp
  have i1: "i < length (bs[i := - 1])" using assms by simp
  from subtract_bigits_spec [OF i1, of 1 0] obtain w c where w: "subtract_bigits i 0 (bs[i := - 1], 1) = Some (bs[i := w], c)"
    "unat w + 1 = 2 ^ 32 - 1 + 2 ^ 32 * unat c" "unat c \<le> 1"
    using assms by (auto simp: unsigned_minus_1_eq_mask mask_eq_exp_minus_1)
  then have "unat c = 0" "unat w = 2 ^ 32 - 2" using unat_bigit [of w] by (cases "unat c"; simp)+
  then have "w = - 2" "c = 0" by (simp_all add: word_unat_eq_iff)
  then have s2: "subtract_bigits i 0 (bs[i := - 1], 1) = Some (bs[i := - 2], 0)" using w(1) by simp
  have "borrow_loop i (bs, 1) = borrow_loop i (bs[i := - 1], 1)" by (subst borrow_loop.simps) (simp add: s1)
  also have "\<dots> = borrow_loop i (bs[i := - 2], 0)" by (subst borrow_loop.simps) (simp add: s2)
  finally show ?thesis using True by (simp add: borrow_loop_0)
next
  case False
  from subtract_bigits_spec [OF assms, of 1 0] obtain v b where s: "subtract_bigits i 0 (bs, 1) = Some (bs[i := v], b)"
    "unat v + 1 = unat (bs ! i) + 2 ^ 32 * unat b" "unat b \<le> 1" by auto
  have "0 < unat (bs ! i)" using False by (simp add: unat_gt_0)
  then have b: "unat b = 0" using s(2,3) unat_bigit [of v] by (cases "unat b") auto
  with s(2) have "unat v = unat (bs ! i - 1)" using \<open>0 < unat (bs ! i)\<close> by (simp add: unat_sub_if')
  then have "v = bs ! i - 1" by (simp only: word_unat_eq_iff)
  moreover have "b = 0" using b by (simp only: unat_eq_zero)
  ultimately have "b = 0" "v = bs ! i - 1" by simp_all
  with s(1) show ?thesis using False by (subst borrow_loop.simps) (simp add: borrow_loop_0)
qed

lemma bigval_split: "bigval bs = bigval (take j bs) + 2 ^ (32 * j) * bigval (drop j bs)"
proof (cases "j \<le> length bs")
  case True
  then show ?thesis using bigval_append [of "take j bs" "drop j bs"] by simp
qed simp

lemma bigval_take: "bigval (take j bs) < 2 ^ (32 * j)"
  by (rule less_le_trans [OF bigval_bound power_increasing]) simp_all

lemma bigval_take_mod: "bigval bs mod 2 ^ (32 * j) = bigval (take j bs)"
  using bigval_take [of j bs] by (subst bigval_split [of bs j]) simp

text \<open>What the subtraction computes, and when that is not the difference.\<close>

lemma subtract_aligned_exact:
  assumes "big_exp x \<le> big_exp y" "big_ok x" "big_ok y" "big_nat y \<le> big_nat x"
  defines "P \<equiv> 2 ^ (32 * num_bigits y)"
  obtains x' where "subtract_aligned x y = Some x'" "big_exp x' = big_exp x" "bigits x' = [0] \<or> big_ok x'"
    "num_bigits x' \<le> num_bigits x"
    "big_nat x' = (if big_nat x mod P < big_nat y \<and> get_bigit x (num_bigits y) = 0
       then big_nat x - big_nat y + (2 ^ 32 - 1) * P else big_nat x - big_nat y)"
proof -
  let ?xs = "bigits x" and ?ys = "bigits y"
  define i j E where "i = big_exp y - big_exp x" and "j = i + length ?ys" and "E = (2 :: nat) ^ (32 * big_exp x)"
  define Y where "Y = 2 ^ (32 * i) * bigval ?ys"
  have e: "32 * big_exp y = 32 * i + 32 * big_exp x" "num_bigits y = j + big_exp x"
    using assms(1) by (simp_all add: i_def j_def num_bigits_def)
  have X: "big_nat x = bigval ?xs * E" and Ye: "big_nat y = Y * E" and PE: "P = 2 ^ (32 * j) * E"
    unfolding P_def E_def Y_def big_nat_def e by (simp_all add: power_add distrib_left)
  have E0: "0 < E" by (simp add: E_def)
  have le: "Y \<le> bigval ?xs" using assms(4) E0 unfolding X Ye by simp
  have "num_bigits y \<le> num_bigits x" using assms(3,4) num_bigits_less [of x y] by (meson not_le)
  then have j: "j \<le> length ?xs" unfolding e(2) by (simp add: num_bigits_def)
  have Yj: "Y < 2 ^ (32 * j)" using bigval_bound [of ?ys] by (simp add: Y_def j_def distrib_left power_add)
  from subtract_loop_spec [of i ?ys ?xs 0] j obtain bs br where s: "subtract_loop i ?ys (?xs, 0) = Some (bs, br)"
    "length bs = length ?xs" "unat br \<le> 1" "bigval bs + 2 ^ (32 * i) * bigval ?ys = bigval ?xs + 2 ^ (32 * j) * unat br"
    "\<forall>k \<ge> j. bs ! k = ?xs ! k" by (auto simp: j_def)
  have drp: "drop j bs = drop j ?xs" using s(2,5) by (intro nth_equalityI) auto
  have low: "bigval (take j bs) + Y = bigval (take j ?xs) + 2 ^ (32 * j) * unat br"
    using s(4) unfolding bigval_split [of bs j] bigval_split [of ?xs j] drp Y_def by simp
  have br: "br = 0 \<or> br = 1" using s(3) by (auto simp: le_Suc_eq word_unat_eq_iff)
  have br1: "br = 1 \<longleftrightarrow> bigval (take j ?xs) < Y"
    using low br bigval_take [of j bs] by auto
  have lt: "big_nat x mod P < big_nat y \<longleftrightarrow> br = 1"
    unfolding X Ye PE br1 using E0 by (simp add: mod_mult_mult2 bigval_take_mod)
  have ne: "?xs \<noteq> []" "bs \<noteq> []" using assms(2) s(2) by (auto simp: big_ok_def top_ok_def)
  obtain bs1 where b1: "borrow_loop j (bs, br) = Some bs1" "length bs1 = length bs"
    "bigval bs1 = (if br = 1 \<and> ?xs ! j = 0 \<and> j < length ?xs then bigval ?xs - Y + (2 ^ 32 - 1) * 2 ^ (32 * j) else bigval ?xs - Y)"
  proof (cases "br = 0")
    case True
    then show ?thesis using that [of bs] s(4) by (simp add: borrow_loop_0 Y_def)
  next
    case False
    then have b: "br = 1" using br by simp
    have V: "bigval bs + Y = bigval ?xs + 2 ^ (32 * j)" using s(4) b by (simp add: Y_def)
    have "j \<noteq> length bs"
    proof
      assume "j = length bs"
      then show False using bigval_bound [of bs] V le by simp
    qed
    then have jl: "j < length bs" using j s(2) by simp
    define v where "v = (if bs ! j = 0 then - 2 else bs ! j - 1)"
    have u: "bigval (bs[j := v]) + 2 ^ (32 * j) * unat (bs ! j) = bigval bs + 2 ^ (32 * j) * unat v" by (rule bigval_update [OF jl])
    have "bigval (bs[j := v]) = (if bs ! j = 0 then bigval ?xs - Y + (2 ^ 32 - 1) * 2 ^ (32 * j) else bigval ?xs - Y)"
    proof (cases "bs ! j = 0")
      case True
      then have "unat v = 2 ^ 32 - 2" by (simp add: v_def)
      then show ?thesis using u V le True by (simp add: algebra_simps)
    next
      case False
      then have "unat v + 1 = unat (bs ! j)" using unat_gt_0 [of "bs ! j"] by (simp add: v_def unat_sub_if')
      then have "2 ^ (32 * j) * unat v + 2 ^ (32 * j) = 2 ^ (32 * j) * unat (bs ! j)" by (metis distrib_left mult.right_neutral)
      then show ?thesis using u V le False by simp
    qed
    moreover have "bs ! j = ?xs ! j" using s(5) by simp
    ultimately show ?thesis using that [of "bs[j := v]"] borrow_loop_1 [OF jl] b s(2) jl by (simp add: v_def)
  qed
  let ?x' = "x\<lparr>bigits := remove_leading_zeros bs1\<rparr>"
  have "bs1 \<noteq> []" using ne(2) b1(2) by auto
  note z = remove_leading_zeros_spec [OF this]
  have "tops_ok x y" using assms(2,3) by (simp add: tops_ok_def)
  from big_compare_spec [OF this] have "\<not> big_compare x y < 0" using assms(1,4) by (auto simp: order_of_def split: if_splits)
  then have sub: "subtract_aligned x y = Some ?x'" using assms(1) s(1) b1(1) by (simp add: subtract_aligned_def Let_def i_def [symmetric] j_def [symmetric])
  have g: "get_bigit x (num_bigits y) = (if j < length ?xs then ?xs ! j else 0)"
    unfolding e(2) by (simp add: get_bigit_def num_bigits_def)
  have cond: "br = 1 \<Longrightarrow> j < length ?xs" 
  proof (rule ccontr)
    assume "br = 1" "\<not> j < length ?xs"
    then have "bigval ?xs < Y" using br1 j by simp
    then show False using le by simp
  qed
  have "big_nat ?x' = bigval bs1 * E" by (simp add: big_nat_def z(1) E_def)
  also have "\<dots> = (if br = 1 \<and> get_bigit x (num_bigits y) = 0
       then big_nat x - big_nat y + (2 ^ 32 - 1) * P else big_nat x - big_nat y)"
    unfolding b1(3) g X Ye PE using cond by (auto simp: diff_mult_distrib add_mult_distrib)
  finally show ?thesis using that [OF sub] z(2,3) b1(2) s(2) by (simp add: big_ok_def num_bigits_def lt)
qed

section \<open>Division\<close>

text \<open>A number as the operations leave it: its top bigit is not zero, or it is a zero of one bigit.\<close>

definition big_norm :: "bigint \<Rightarrow> bool" where
  "big_norm x \<longleftrightarrow> bigits x = [0] \<or> big_ok x"

lemma big_ok_pos: "big_ok x \<Longrightarrow> 0 < big_nat x"
  by (rule less_le_trans [OF _ big_nat_top]) simp_all

lemma big_norm_nat: "big_norm x \<Longrightarrow> big_ok x \<longleftrightarrow> big_nat x \<noteq> 0"
  using big_ok_pos [of x] by (auto simp: big_norm_def big_nat_def)

lemma tops_ok_divisor:
  assumes "big_norm x" "big_ok d" "big_exp x \<le> big_exp d"
  shows "tops_ok x d"
proof -
  have "1 \<le> length (bigits d)" using assms(2) by (cases "bigits d") (auto simp: big_ok_def top_ok_def)
  then have "bigits x = [0] \<Longrightarrow> num_bigits x \<le> num_bigits d" using assms(3) by (simp add: num_bigits_def)
  then show ?thesis using assms(1,2) by (auto simp: tops_ok_def big_norm_def)
qed

lemma divmod_loop_spec:
  assumes "big_ok d" "big_ok x" "big_exp x \<le> big_exp d" "big_nat d \<le> big_nat x" "big_nat x < 2 ^ 32 * big_nat d"
  obtains x' where "divmod_loop d q x = Some (q + big_nat x div big_nat d, x')" "big_nat x' = big_nat x mod big_nat d"
    "big_exp x' = big_exp x" "big_norm x'" "num_bigits x' \<le> num_bigits x"
  using assms
proof (induction "big_nat x" arbitrary: q x thesis rule: less_induct)
  case less
  define P where "P = (2 :: nat) ^ (32 * num_bigits d)"
  have D: "0 < big_nat d" using big_norm_nat [of d] less.prems(2) by (simp add: big_norm_def)
  have DP: "big_nat d < P" unfolding P_def by (rule big_nat_bound)
  have "\<not> (big_nat x mod P < big_nat d \<and> get_bigit x (num_bigits d) = 0)"
  proof
    assume h: "big_nat x mod P < big_nat d \<and> get_bigit x (num_bigits d) = 0"
    then have "P \<le> big_nat x" using less.prems(5) by (cases "big_nat x < P") auto
    then have "0 < big_nat x div P" using DP by (simp add: div_greater_zero_iff)
    moreover have "big_nat x < 2 ^ 32 * P" using less.prems(6) DP by simp
    then have "big_nat x div P < 2 ^ 32" by (simp add: div_less_iff_less_mult DP [THEN gr_implies_not0, THEN neq0_conv [THEN iffD1]])
    moreover have "unat (get_bigit x (num_bigits d)) = big_nat x div P mod 2 ^ 32" unfolding P_def by (rule get_bigit_nat)
    ultimately show False using h by simp
  qed
  with subtract_aligned_exact [OF less.prems(4,3,2,5)] obtain x1 where s: "subtract_aligned x d = Some x1"
    "big_exp x1 = big_exp x" "big_norm x1" "num_bigits x1 \<le> num_bigits x" "big_nat x1 = big_nat x - big_nat d"
    unfolding P_def big_norm_def by (smt (verit))
  have e1: "big_exp x1 \<le> big_exp d" using s(2) less.prems(4) by simp
  have c: "0 \<le> big_compare x1 d \<longleftrightarrow> big_nat d \<le> big_nat x1"
    using big_compare_spec [OF tops_ok_divisor [OF s(3) less.prems(2) e1]] e1 by (auto simp: order_of_def)
  have q1: "big_nat x div big_nat d = big_nat x1 div big_nat d + 1" "big_nat x mod big_nat d = big_nat x1 mod big_nat d"
    using less.prems(5) D by (simp_all add: s(5) le_div_geq le_mod_geq)
  show ?case
  proof (cases "big_nat d \<le> big_nat x1")
    case True
    then have ok: "big_ok x1" using D big_norm_nat [OF s(3)] by simp
    have lt: "big_nat x1 < big_nat x" "big_nat x1 < 2 ^ 32 * big_nat d" using s(5) less.prems(5,6) D by simp_all
    from less.hyps [OF lt(1) _ less.prems(2) ok e1 True lt(2)] obtain x' where r:
      "divmod_loop d (q + 1) x1 = Some (q + 1 + big_nat x1 div big_nat d, x')" "big_nat x' = big_nat x1 mod big_nat d"
      "big_exp x' = big_exp x1" "big_norm x'" "num_bigits x' \<le> num_bigits x1" by blast
    have "divmod_loop d q x = divmod_loop d (q + 1) x1" using s(1) c True by (subst divmod_loop.simps) simp
    then show ?thesis using less.prems(1) [of x'] r s(2,4) by (simp add: q1)
  next
    case False
    have "divmod_loop d q x = Some (q + 1, x1)" using s(1) c False by (subst divmod_loop.simps) simp
    then show ?thesis using less.prems(1) [of x1] s False by (simp add: q1)
  qed
qed

lemma big_align_spec:
  "big_nat (big_align x d) = big_nat x" "big_ok x \<Longrightarrow> big_ok (big_align x d)" "big_exp (big_align x d) = min (big_exp x) (big_exp d)"
  "num_bigits (big_align x d) = num_bigits x"
proof -
  have "32 * (big_exp x - big_exp d) + 32 * big_exp d = 32 * big_exp x" if "big_exp d < big_exp x" using that by simp
  then show "big_nat (big_align x d) = big_nat x"
    by (auto simp: big_align_def big_nat_def bigval_append power_add [symmetric])
qed (auto simp: big_align_def big_ok_def top_ok_def num_bigits_def)

text \<open>
  The quotient and the remainder, for quotients below \<open>2^32\<close>; a dividend that is equal to the divisor must not
  have the higher exponent.
\<close>

lemma divmod_assign_spec:
  assumes "big_ok d" "big_norm x" "num_bigits x \<le> num_bigits d \<or> big_ok x" "big_nat x < 2 ^ 32 * big_nat d"
    and "big_nat x = big_nat d \<Longrightarrow> big_exp x \<le> big_exp d"
  obtains x' where "divmod_assign x d = Some (big_nat x div big_nat d, x')" "big_nat x' = big_nat x mod big_nat d"
    "big_exp x' \<le> big_exp x" "big_norm x'" "num_bigits x' \<le> num_bigits x"
proof (cases "big_nat x < big_nat d")
  case True
  have t: "tops_ok x d" using assms(1,2,3) by (auto simp: tops_ok_def)
  with True have "big_compare x d < 0" using big_compare_spec [OF t] by (simp add: order_of_def)
  then show ?thesis using that [of x] True assms(2) by (simp add: divmod_assign_def)
next
  case False
  have t: "tops_ok x d" using assms(1,2,3) by (auto simp: tops_ok_def)
  have nc: "\<not> big_compare x d < 0" using big_compare_spec [OF t] False assms(5) by (auto simp: order_of_def)
  have "0 < big_nat d" using big_norm_nat [of d] assms(1) by (simp add: big_norm_def)
  with False have ok: "big_ok x" using big_norm_nat [OF assms(2)] by simp
  let ?y = "big_align x d"
  have y: "big_ok ?y" "big_exp ?y \<le> big_exp d" "big_nat ?y = big_nat x" using big_align_spec [of x d] ok by simp_all
  with divmod_loop_spec [OF assms(1) y(1,2), of 0] False assms(4) obtain x' where
    "divmod_loop d 0 ?y = Some (big_nat x div big_nat d, x')" "big_nat x' = big_nat x mod big_nat d" "big_exp x' = big_exp ?y"
    "big_norm x'" "num_bigits x' \<le> num_bigits ?y" by auto
  moreover have "last (bigits d) \<noteq> 0" using assms(1) by (simp add: big_ok_def top_ok_def)
  ultimately show ?thesis using that [of x'] nc big_align_spec(3,4) [of x d] by (simp add: divmod_assign_def)
qed

end
