(* ===== verification/Bigint_Pow10.thy ===== *)
theory Bigint_Pow10 imports Bigint_Divide begin

text \<open>
  \<open>square\<close> (long multiplication, one column of products after the other) and \<open>assign_pow10\<close> (repeated squaring).
\<close>

section \<open>Squares\<close>

lemma bigval_sum: "bigval bs = (\<Sum>i < length bs. unat (bs ! i) * 2 ^ (32 * i))"
proof (induction bs)
  case (Cons b bs)
  have "(\<Sum>i < length (b # bs). unat ((b # bs) ! i) * 2 ^ (32 * i))
      = unat b + (\<Sum>i < length bs. 2 ^ 32 * (unat (bs ! i) * 2 ^ (32 * i)))"
    by (simp only: length_Cons sum.lessThan_Suc_shift nth_Cons_0 nth_Cons_Suc) (simp add: power_add mult.left_commute)
  then show ?case using Cons by (simp only: sum_distrib_left [symmetric] bigval.simps)
qed simp

text \<open>The column of index \<open>k\<close>.\<close>

definition column :: "u32 list \<Rightarrow> nat \<Rightarrow> nat" where
  "column n k = (\<Sum>i = k - (length n - 1)..<min (k + 1) (length n). unat (n ! i) * unat (n ! (k - i)))"

lemma columns_square:
  assumes "n \<noteq> []"
  shows "(\<Sum>k < 2 * length n. 2 ^ (32 * k) * column n k) = bigval n * bigval n"
proof -
  let ?l = "length n"
  let ?K = "SIGMA k:{..<2 * ?l}. {k - (?l - 1)..<min (k + 1) ?l}"
  have l: "0 < ?l" using assms by simp
  have "(\<Sum>k < 2 * ?l. 2 ^ (32 * k) * column n k)
      = (\<Sum>k < 2 * ?l. \<Sum>i = k - (?l - 1)..<min (k + 1) ?l. 2 ^ (32 * k) * (unat (n ! i) * unat (n ! (k - i))))"
    by (simp add: column_def sum_distrib_left)
  also have "\<dots> = (\<Sum>(k, i) \<in> ?K. 2 ^ (32 * k) * (unat (n ! i) * unat (n ! (k - i))))"
    by (rule sum.Sigma) auto
  also have "\<dots> = (\<Sum>(i, j) \<in> {..<?l} \<times> {..<?l}. (unat (n ! i) * 2 ^ (32 * i)) * (unat (n ! j) * 2 ^ (32 * j)))"
  proof (rule sum.reindex_bij_witness [where i = "\<lambda>(i, j). (i + j, i)" and j = "\<lambda>(k, i). (i, k - i)"])
    fix a
    assume "a \<in> ?K"
    then obtain k i where a: "a = (k, i)" "k < 2 * ?l" "k - (?l - 1) \<le> i" "i < k + 1" "i < ?l" by auto
    then show "(case case a of (k, i) \<Rightarrow> (i, k - i) of (i, j) \<Rightarrow> (i + j, i)) = a"
      "(case a of (k, i) \<Rightarrow> (i, k - i)) \<in> {..<?l} \<times> {..<?l}" by auto
    have "32 * k = 32 * i + 32 * (k - i)" using a by simp
    then show "(case case a of (k, i) \<Rightarrow> (i, k - i) of (i, j) \<Rightarrow> (unat (n ! i) * 2 ^ (32 * i)) * (unat (n ! j) * 2 ^ (32 * j)))
        = (case a of (k, i) \<Rightarrow> 2 ^ (32 * k) * (unat (n ! i) * unat (n ! (k - i))))"
      by (simp only: a(1) prod.case power_add ac_simps)
  next
    fix b
    assume "b \<in> {..<?l} \<times> {..<?l}"
    then obtain i j where b: "b = (i, j)" "i < ?l" "j < ?l" by auto
    then show "(case case b of (i, j) \<Rightarrow> (i + j, i) of (k, i) \<Rightarrow> (i, k - i)) = b" "(case b of (i, j) \<Rightarrow> (i + j, i)) \<in> ?K"
      by auto
  qed
  also have "\<dots> = (\<Sum>i < ?l. unat (n ! i) * 2 ^ (32 * i)) * (\<Sum>j < ?l. unat (n ! j) * 2 ^ (32 * j))"
    by (simp only: sum_product sum.cartesian_product)
  finally show ?thesis by (simp only: bigval_sum [symmetric])
qed

lemma fold_add_nat:
  fixes acc :: u128
  assumes "\<And>i. unat (f i) = g i" "unat acc + sum_list (map g is) < 2 ^ 128"
  shows "unat (fold (\<lambda>i a. a + f i) is acc) = unat acc + sum_list (map g is)"
  using assms(2)
proof (induction "is" arbitrary: acc)
  case (Cons i ks)
  then have "unat (acc + f i) = unat acc + g i" by (simp add: unat_word_ariths assms(1))
  with Cons.IH [of "acc + f i"] Cons.prems show ?case by simp
qed simp

lemma unat_product: "unat (ucast (wide a * wide b) :: u128) = unat a * unat b"
proof -
  have "unat a * unat b + 0 + 0 < 2 ^ 64" using unat_bigit by (intro prod_bound) auto
  then show ?thesis by (simp add: unsigned_ucast_eq take_bit_eq_mod unat_word_ariths)
qed

lemma column_bound: "column n k \<le> length n * 2 ^ 64"
proof -
  have "column n k \<le> (\<Sum>i = k - (length n - 1)..<min (k + 1) (length n). 2 ^ 64)"
    unfolding column_def
  proof (rule sum_mono)
    fix i
    have "unat (n ! i) * unat (n ! (k - i)) + 0 + 0 < 2 ^ 64" using unat_bigit by (intro prod_bound) auto
    then show "unat (n ! i) * unat (n ! (k - i)) \<le> 2 ^ 64" by simp
  qed
  also have "\<dots> \<le> length n * 2 ^ 64" by simp
  finally show ?thesis .
qed

lemma cross_terms_nat:
  assumes "length n \<le> 2 ^ 31" "unat acc \<le> 2 ^ 64"
  shows "unat (cross_terms n k acc) = unat acc + column n k"
proof -
  have c: "sum_list (map (\<lambda>i. unat (n ! i) * unat (n ! (k - i))) [k - (length n - 1)..<min (k + 1) (length n)]) = column n k"
    by (simp only: interv_sum_list_conv_sum_set_nat set_upt column_def)
  have "column n k \<le> 2 ^ 31 * 2 ^ 64" using column_bound [of n k] mult_le_mono1 [OF assms(1), of "2 ^ 64"] by (rule le_trans)
  then have "unat acc + column n k < 2 ^ 128" using assms(2) by simp
  then show ?thesis unfolding cross_terms_def c [symmetric] by (intro fold_add_nat unat_product)
qed

lemma square_loop_spec:
  assumes "length n \<le> 2 ^ 31" "unat acc \<le> 2 ^ 64"
  shows "\<exists>R. bigval (square_loop n k left acc) + 2 ^ (32 * left) * R
    = unat acc + (\<Sum>j < left. 2 ^ (32 * j) * column n (k + j))"
  using assms(2)
proof (induction left arbitrary: k acc)
  case 0
  show ?case by (intro exI [of _ "unat acc"]) simp
next
  case (Suc left)
  let ?s = "cross_terms n k acc"
  have s: "unat ?s = unat acc + column n k" by (rule cross_terms_nat [OF assms(1) Suc.prems])
  have d: "unat (drop_bit 32 ?s) = unat ?s div 2 ^ 32"
    unfolding unsigned_drop_bit_eq take_bit_nat_eq_self [OF unsigned_less] by (rule drop_bit_eq_div)
  have u: "unat (ucast ?s :: u32) = unat ?s mod 2 ^ 32" by (simp add: unsigned_ucast_eq take_bit_eq_mod)
  have "column n k \<le> 2 ^ 31 * 2 ^ 64" using column_bound [of n k] mult_le_mono1 [OF assms(1), of "2 ^ 64"] by (rule le_trans)
  then have "unat ?s < 2 ^ 32 * 2 ^ 64" using s Suc.prems by simp
  then have "unat (drop_bit 32 ?s) \<le> 2 ^ 64" unfolding d by (simp add: div_less_iff_less_mult less_imp_le)
  from Suc.IH [OF this, of "Suc k"] obtain R where
    R: "bigval (square_loop n (Suc k) left (drop_bit 32 ?s)) + 2 ^ (32 * left) * R
      = unat (drop_bit 32 ?s) + (\<Sum>j < left. 2 ^ (32 * j) * column n (Suc k + j))" by blast
  define V T where "V = bigval (square_loop n (Suc k) left (drop_bit 32 ?s))"
    and "T = (\<Sum>j < left. 2 ^ (32 * j) * column n (Suc k + j))"
  have T: "(\<Sum>j < Suc left. 2 ^ (32 * j) * column n (k + j)) = column n k + 2 ^ 32 * T"
    unfolding T_def sum.lessThan_Suc_shift sum_distrib_left by (simp add: power_add mult.assoc)
  have "bigval (square_loop n k (Suc left) acc) + 2 ^ (32 * Suc left) * R = unat ?s mod 2 ^ 32 + 2 ^ 32 * (V + 2 ^ (32 * left) * R)"
    by (simp add: Let_def u V_def power_add distrib_left mult.assoc)
  also have "\<dots> = unat ?s mod 2 ^ 32 + 2 ^ 32 * (unat ?s div 2 ^ 32) + 2 ^ 32 * T"
    using R unfolding V_def T_def d by (simp only: distrib_left add.assoc)
  also have "\<dots> = unat acc + (\<Sum>j < Suc left. 2 ^ (32 * j) * column n (k + j))" unfolding T by (simp add: s)
  finally show ?case by blast
qed

lemma square_loop_length: "length (square_loop n k left acc) = left"
  by (induction left arbitrary: k acc) (simp_all add: Let_def)

lemma bigval_square:
  assumes "n \<noteq> []" "length n \<le> 2 ^ 31"
  shows "bigval (square_loop n 0 (2 * length n) 0) = bigval n * bigval n"
proof -
  let ?b = "2 ^ (32 * (2 * length n)) :: nat"
  from square_loop_spec [OF assms(2), of 0 0 "2 * length n"] columns_square [OF assms(1)] obtain R where
    R: "bigval (square_loop n 0 (2 * length n) 0) + ?b * R = bigval n * bigval n" by auto
  have "bigval n * bigval n < 2 ^ (32 * length n) * 2 ^ (32 * length n)" by (intro mult_strict_mono' bigval_bound) simp_all
  then have "bigval n * bigval n < ?b" by (simp add: power_add [symmetric])
  then have "R = 0" using R by (cases R) auto
  with R show ?thesis by simp
qed

lemma squared_spec:
  assumes "big_ok x" "length (bigits x) \<le> 2 ^ 31"
  shows "big_nat (squared x) = big_nat x ^ 2" "big_ok (squared x)" "big_exp (squared x) = 2 * big_exp x"
proof -
  have ne: "bigits x \<noteq> []" using assms(1) by (simp add: big_ok_def top_ok_def)
  then have "square_loop (bigits x) 0 (2 * length (bigits x)) 0 \<noteq> []" by (metis square_loop_length length_0_conv mult_eq_0_iff zero_neq_numeral)
  note z = remove_leading_zeros_spec [OF this]
  show n: "big_nat (squared x) = big_nat x ^ 2"
    by (simp add: big_nat_def squared_def z(1) bigval_square [OF ne assms(2)] power2_eq_square power_add [symmetric])
  have "big_norm (squared x)" using z(2) by (simp add: big_norm_def squared_def big_ok_def)
  then show "big_ok (squared x)" using big_norm_nat n big_ok_pos [OF assms(1)] by simp
  show "big_exp (squared x) = 2 * big_exp x" by (simp add: squared_def)
qed

section \<open>Powers of ten\<close>

lemma pow5_length:
  assumes "big_ok x" "big_nat x = 5 ^ m" "m < 2 ^ 30"
  shows "length (bigits x) < 2 ^ 30"
proof -
  have "(2 :: nat) ^ (32 * (num_bigits x - 1)) \<le> 5 ^ m" using big_nat_top [OF assms(1)] assms(2) by simp
  also have "\<dots> \<le> (2 ^ 3) ^ m" by (intro power_mono) simp_all
  also have "\<dots> = 2 ^ (3 * m)" by (simp add: power_mult)
  finally have "32 * (num_bigits x - 1) \<le> 3 * m" by simp
  with assms(3) show ?thesis by (simp add: num_bigits_def)
qed

lemma big_mul_exp [simp]: "big_exp (big_mul32 v x) = big_exp x" "big_exp (big_mul64 w x) = big_exp x"
  by (simp_all add: big_mul32_def big_mul64_def)

lemma pow5_loop_spec:
  assumes "e < 2 ^ 30"
  shows "big_ok x \<Longrightarrow> big_exp x = 0 \<Longrightarrow> big_nat x = 5 ^ (e div 2 ^ k)
    \<Longrightarrow> \<exists>y. pow5_loop e k x = Some y \<and> big_ok y \<and> big_exp y = 0 \<and> big_nat y = 5 ^ e"
proof (induction k arbitrary: x)
  case (Suc k)
  have "e div 2 ^ Suc k < 2 ^ 30" using assms by (meson div_le_dividend le_less_trans)
  note len = pow5_length [OF Suc.prems(1,3) this]
  then have len': "length (bigits x) \<le> 2 ^ 31" by simp
  note sq = squared_spec [OF Suc.prems(1) len']
  have run: "big_square x = Some (squared x)" using len Suc.prems(2) by (simp add: big_square_def)
  have h: "e div 2 ^ k = 2 * (e div 2 ^ Suc k) + e div 2 ^ k mod 2"
    by (metis div_mult_mod_eq div_mult2_eq mult.commute power_Suc2)
  have b: "e AND 2 ^ k \<noteq> 0 \<longleftrightarrow> odd (e div 2 ^ k)" by (simp add: and_exp_eq_0_iff_not_bit bit_iff_odd)
  let ?y = "if e AND 2 ^ k \<noteq> 0 then big_mul32 5 (squared x) else squared x"
  have "big_nat ?y = 5 ^ (e div 2 ^ k)"
  proof (cases "odd (e div 2 ^ k)")
    case True
    then have "5 ^ (e div 2 ^ k) = (5 :: nat) ^ (2 * (e div 2 ^ Suc k)) * 5" using h by (metis odd_iff_mod_2_eq_one power_add power_one_right)
    then show ?thesis using True sq(1) Suc.prems(3) unfolding b by (simp add: power_mult [symmetric] mult.commute)
  next
    case False
    then have "5 ^ (e div 2 ^ k) = (5 :: nat) ^ (2 * (e div 2 ^ Suc k))" using h by (metis add_0_right even_iff_mod_2_eq_zero)
    then show ?thesis using False sq(1) Suc.prems(3) unfolding b by (simp add: power_mult [symmetric] mult.commute)
  qed
  moreover have "big_ok ?y" "big_exp ?y = 0" using sq(2,3) Suc.prems(2) by simp_all
  ultimately obtain y where "pow5_loop e k ?y = Some y" "big_ok y" "big_exp y = 0" "big_nat y = 5 ^ e"
    using Suc.IH by blast
  then show ?case by (simp only: pow5_loop.simps run Option.bind.bind_lunit) simp
qed simp

lemma bitmask_loop_spec:
  assumes "j \<le> 30" "j = 0 \<or> 2 ^ (j - 1) \<le> e" "e < 2 ^ 30" "0 < e"
  shows "\<exists>k. bitmask_loop e j = Some k \<and> 0 < k \<and> 2 ^ (k - 1) \<le> e \<and> e < 2 ^ k"
  using assms
proof (induction e j rule: bitmask_loop.induct)
  case (1 e j)
  show ?case
  proof (cases "e < 2 ^ j")
    case True
    with 1(2-5) have "0 < j" by (cases j) auto
    with True 1(3) show ?thesis by (subst bitmask_loop.simps) auto
  next
    case False
    have "j < 30"
    proof (rule ccontr)
      assume "\<not> j < 30"
      with 1(2) have "j = 30" by simp
      with False 1(4) show False by simp
    qed
    with 1(1) [OF False this] False 1(2-5) show ?thesis by (subst bitmask_loop.simps) simp
  qed
qed

text \<open>From \<open>2^30\<close> on \<open>bitmask\<close> overflows.\<close>

lemma bitmask_loop_overflows:
  assumes "j \<le> 30" "2 ^ 30 \<le> e"
  shows "bitmask_loop e j = None"
  using assms
proof (induction e j rule: bitmask_loop.induct)
  case (1 e j)
  have "(2 :: nat) ^ j \<le> 2 ^ 30" using 1(2) by (intro power_increasing) simp_all
  with 1(3) have "\<not> e < 2 ^ j" by simp
  with 1 show ?case by (subst bitmask_loop.simps) auto
qed

lemma shifted_exp: "big_exp (shifted k x) = big_exp x + k div 32"
  by (simp add: shifted_def Let_def)

lemma assign_pow10_spec:
  assumes "e < 2 ^ 30"
  shows "\<exists>y. assign_pow10 e = Some y \<and> big_nat y = 10 ^ e \<and> big_ok y \<and> big_exp y = e div 32"
proof (cases "e = 0")
  case True
  then show ?thesis by (simp add: assign_pow10_def) (simp add: big_assign_def)
next
  case False
  from bitmask_loop_spec [of 0 e] False assms obtain k where
    k: "bitmask_loop e 0 = Some k" "0 < k" "2 ^ (k - 1) \<le> e" "e < 2 ^ k" by auto
  have "e < 2 * 2 ^ (k - 1)" using k(2,4) by (cases k) simp_all
  with k(3) have "e div 2 ^ (k - 1) = 1" by (intro div_nat_eqI) simp_all
  moreover have "big_exp (big_assign 5) = 0" by (simp add: big_assign_def)
  ultimately obtain y where y: "pow5_loop e (k - 1) (big_assign 5) = Some y" "big_ok y" "big_exp y = 0" "big_nat y = 5 ^ e"
    using pow5_loop_spec [OF assms, of "big_assign 5" "k - 1"] by auto
  have "e div 32 < 2 ^ 31" using assms by simp
  then have "big_shift e y = Some (shifted e y)" using y(3) by (simp add: big_shift_def)
  moreover have "(5 :: nat) ^ e * 2 ^ e = 10 ^ e" by (simp add: power_mult_distrib [symmetric])
  ultimately show ?thesis using False k(1) y by (simp add: assign_pow10_def shifted_exp)
qed

section \<open>What the class promises\<close>

lemma add_compare_ok:
  assumes "big_ok x" "big_ok y" "big_ok z"
  shows "big_add_compare x y z = order_of (big_nat x + big_nat y) (big_nat z)"
  using assms by (intro big_add_compare_spec) linarith+

text \<open>
  C31 [refinement] The arithmetic of bigint is that of natural numbers: assignment, both multiplications, shifts,
  squares, powers of ten, comparison (bigints of different numbers) and the comparison of a sum; the result's
  top bigit is not zero when the operands' are not.  This holds for operands of less than 2^30 bigits with their
  exponent and shifts by an int, and for powers below 2^30; the power of ten 10^e is undefined (int bitmask
  overflows) for every larger exponent, although an int can hold it.
\<close>

theorem bigint_refines_nat:
  assumes "big_ok x" "big_ok y" "big_ok z" "num_bigits x < 2 ^ 30" "num_bigits y < 2 ^ 30" "num_bigits z < 2 ^ 30"
    "k < 2 ^ 31" "v \<noteq> 0" "w \<noteq> 0"
  shows "big_nat (big_assign w) = unat w \<and> big_ok (big_assign w)
    \<and> big_nat (big_mul32 v x) = big_nat x * unat v \<and> big_ok (big_mul32 v x)
    \<and> big_nat (big_mul64 w x) = big_nat x * unat w \<and> big_ok (big_mul64 w x)
    \<and> (\<exists>x'. big_shift k x = Some x' \<and> big_nat x' = big_nat x * 2 ^ k \<and> big_ok x')
    \<and> (\<exists>x'. big_square x = Some x' \<and> big_nat x' = big_nat x ^ 2 \<and> big_ok x')
    \<and> (if e < 2 ^ 30 then \<exists>p. assign_pow10 e = Some p \<and> big_nat p = 10 ^ e \<and> big_ok p else assign_pow10 e = None)
    \<and> (big_compare x y > 0 \<longrightarrow> big_nat y \<le> big_nat x) \<and> (big_compare x y < 0 \<longrightarrow> big_nat x \<le> big_nat y)
    \<and> (big_compare x y = 0 \<longleftrightarrow> big_nat x = big_nat y \<and> big_exp x = big_exp y)
    \<and> big_add_compare x y z = order_of (big_nat x + big_nat y) (big_nat z)"
proof -
  have "tops_ok x y" using assms(1,2) by (simp add: tops_ok_def)
  from big_compare_spec [OF this] have cmp: "(big_compare x y > 0 \<longrightarrow> big_nat y \<le> big_nat x) \<and> (big_compare x y < 0 \<longrightarrow> big_nat x \<le> big_nat y)
    \<and> (big_compare x y = 0 \<longleftrightarrow> big_nat x = big_nat y \<and> big_exp x = big_exp y)" by (auto simp: order_of_def)
  have sz: "length (bigits x) + big_exp x < 2 ^ 30" using assms(4) by (simp add: num_bigits_def)
  have "big_shift k x = Some (shifted k x)" "big_square x = Some (squared x)"
    using sz assms(7) by (simp_all add: big_shift_def big_square_def)
  moreover have "length (bigits x) \<le> 2 ^ 31" using sz by simp
  note squared_spec [OF assms(1) this]
  moreover have "if e < 2 ^ 30 then \<exists>p. assign_pow10 e = Some p \<and> big_nat p = 10 ^ e \<and> big_ok p else assign_pow10 e = None"
  proof (cases "e < 2 ^ 30")
    case True
    with assign_pow10_spec [OF this] show ?thesis by auto
  next
    case False
    then have "bitmask_loop e 0 = None" "e \<noteq> 0" by (auto intro: bitmask_loop_overflows)
    with False show ?thesis by (simp add: assign_pow10_def)
  qed
  ultimately show ?thesis using assms(1,8,9) cmp add_compare_ok [OF assms(1-3)] by simp
qed

definition sample_big :: bigint where
  "sample_big = \<lparr>bigits = [4294967295, 7], big_exp = 1\<rparr>"

lemma sample_big_ok: "big_ok sample_big" "num_bigits sample_big < 2 ^ 30" "big_nat sample_big = (2 ^ 35 - 1) * 2 ^ 32"
  by (simp_all add: big_ok_def top_ok_def sample_big_def big_nat_def num_bigits_def)

theorem bigint_refines_nat_witness:
  "map_option big_nat (big_square sample_big) = Some (((2 ^ 35 - 1) * 2 ^ 32) ^ 2)
    \<and> map_option big_nat (assign_pow10 25) = Some (10 ^ 25) \<and> assign_pow10 1073741824 = None
    \<and> big_add_compare sample_big sample_big sample_big = 1"
proof -
  have h: "(0 :: nat) < 2 ^ 31" "(1 :: u32) \<noteq> 0" "(1 :: u64) \<noteq> 0" by simp_all
  note r = bigint_refines_nat [OF sample_big_ok(1) sample_big_ok(1) sample_big_ok(1,2,2,2) h]
  from r [of 25] r [of 1073741824] show ?thesis by (auto simp: sample_big_ok(3) order_of_def)
qed

text \<open>
  divmod_assign gives quotient and remainder of every division with a quotient below 2^32 by a
  divisor that is not zero, unless both numbers are equal and the dividend has the higher exponent: then
  compare takes it for the smaller one and the quotient is 0.
\<close>

theorem divmod_assign_divides:
  assumes "big_ok d" "big_ok x" "big_nat x < 2 ^ 32 * big_nat d"
  shows "if big_nat x = big_nat d \<and> big_exp d < big_exp x then divmod_assign x d = Some (0, x)
    else \<exists>x'. divmod_assign x d = Some (big_nat x div big_nat d, x') \<and> big_nat x' = big_nat x mod big_nat d"
proof (cases "big_nat x = big_nat d \<and> big_exp d < big_exp x")
  case True
  have "tops_ok x d" using assms(1,2) by (simp add: tops_ok_def)
  from big_compare_spec [OF this] True show ?thesis by (simp add: divmod_assign_def order_of_def)
next
  case False
  have "big_norm x" using assms(2) by (simp add: big_norm_def)
  with divmod_assign_spec [OF assms(1) this _ assms(3)] False assms(2) show ?thesis by (metis linorder_not_less)
qed

theorem divmod_assign_divides_witness:
  "divmod_assign \<lparr>bigits = [5], big_exp = 1\<rparr> \<lparr>bigits = [0, 5], big_exp = 0\<rparr> = Some (0, \<lparr>bigits = [5], big_exp = 1\<rparr>)
    \<and> (\<exists>r. divmod_assign (big_assign 1000000000000000000) (big_assign 300000000000000000) = Some (3, r)
      \<and> big_nat r = 100000000000000000)"
proof -
  let ?x = "\<lparr>bigits = [5], big_exp = 1\<rparr>" and ?d = "\<lparr>bigits = [0, 5], big_exp = 0\<rparr>"
  have "big_ok ?d" "big_ok ?x" "big_nat ?x < 2 ^ 32 * big_nat ?d" "big_nat ?x = big_nat ?d \<and> big_exp ?d < big_exp ?x"
    by (simp_all add: big_ok_def top_ok_def big_nat_def)
  then have 1: "divmod_assign ?x ?d = Some (0, ?x)" using divmod_assign_divides [of ?d ?x] by simp
  have n: "big_nat (big_assign 1000000000000000000) = 1000000000000000000"
    "big_nat (big_assign 300000000000000000) = 300000000000000000" by simp_all
  have "big_ok (big_assign 300000000000000000)" "big_ok (big_assign 1000000000000000000)"
    "big_nat (big_assign 1000000000000000000) < 2 ^ 32 * big_nat (big_assign 300000000000000000)" by simp_all
  from divmod_assign_divides [OF this] have "\<exists>r. divmod_assign (big_assign 1000000000000000000) (big_assign 300000000000000000)
      = Some (3, r) \<and> big_nat r = 100000000000000000" unfolding n by simp
  with 1 show ?thesis by blast
qed

text \<open>
  subtract_aligned gives the difference exactly unless it has to borrow over a zero bigit: the loop
  that passes the borrow on does not advance, so the result is then too large by (2^32 - 1) times the place
  value.
\<close>

theorem subtract_over_zero_bigit:
  assumes "big_exp x \<le> big_exp y" "big_ok x" "big_ok y" "big_nat y \<le> big_nat x"
  shows "\<exists>x'. subtract_aligned x y = Some x'
    \<and> (big_nat x' = big_nat x - big_nat y
        \<longleftrightarrow> \<not> (big_nat x mod 2 ^ (32 * num_bigits y) < big_nat y \<and> get_bigit x (num_bigits y) = 0))"
proof -
  from subtract_aligned_exact [OF assms] obtain x' where x': "subtract_aligned x y = Some x'"
    "big_nat x' = (if big_nat x mod 2 ^ (32 * num_bigits y) < big_nat y \<and> get_bigit x (num_bigits y) = 0
       then big_nat x - big_nat y + (2 ^ 32 - 1) * 2 ^ (32 * num_bigits y) else big_nat x - big_nat y)" by blast
  have "(0 :: nat) < (2 ^ 32 - 1) * 2 ^ (32 * num_bigits y)" by simp
  then show ?thesis using x' by (intro exI [of _ x']) auto
qed

theorem subtract_over_zero_bigit_witness:
  "\<exists>x'. subtract_aligned \<lparr>bigits = [0, 0, 1], big_exp = 0\<rparr> \<lparr>bigits = [1], big_exp = 0\<rparr> = Some x' \<and> big_nat x' \<noteq> 2 ^ 64 - 1"
proof -
  let ?x = "\<lparr>bigits = [0, 0, 1], big_exp = 0\<rparr>" and ?y = "\<lparr>bigits = [1], big_exp = 0\<rparr>"
  have "big_exp ?x \<le> big_exp ?y" "big_ok ?x" "big_ok ?y" "big_nat ?y \<le> big_nat ?x"
    by (simp_all add: big_ok_def top_ok_def big_nat_def)
  from subtract_over_zero_bigit [OF this] show ?thesis
    by (simp add: big_nat_def num_bigits_def get_bigit_def)
qed

end
