(* ===== verification/Fmt_Fallback.thy ===== *)
theory Fmt_Fallback imports Fmt_Double Bigint_Pow10 begin

text \<open>
  The loop of \<open>fallback_format\<close>: it ends, its digits are decimal digits, the decimal number they denote lies
  between the boundaries and no shorter one does.

  The numbers are those that the bigints stand for: the value is \<open>X / D\<close>, the distances to the boundaries are
  \<open>L / D\<close> and \<open>U / D\<close>.
\<close>

section \<open>Digits\<close>

lemma succ_digit_char: "d < 9 \<Longrightarrow> succ_char (digit_char d) = digit_char (d + 1)"
  by (simp add: succ_char_def digit_char_def)

section \<open>One round\<close>

definition exit_low :: "bool \<Rightarrow> nat \<Rightarrow> nat \<Rightarrow> bool \<Rightarrow> bool" where
  "exit_low ev r l same \<longleftrightarrow> r < l \<or> (ev \<and> r = l \<and> same)"

definition exit_high :: "bool \<Rightarrow> nat \<Rightarrow> nat \<Rightarrow> nat \<Rightarrow> bool" where
  "exit_high ev r u d \<longleftrightarrow> d < r + u \<or> (ev \<and> r + u = d)"

lemma divmod_round:
  assumes "big_ok D" "big_ok X" "big_nat X < 10 * big_nat D"
  obtains q R where "divmod_assign X D = Some (q, R)" "big_nat X = q * big_nat D + big_nat R" "big_nat R \<le> big_nat D"
    "big_exp R \<le> big_exp X" "big_norm R" "big_ok R \<or> big_exp R \<le> big_exp D"
    "big_nat R = big_nat D \<Longrightarrow> q = 0"
proof (cases "big_nat X = big_nat D \<and> big_exp D < big_exp X")
  case True
  have "tops_ok X D" using assms(1,2) by (simp add: tops_ok_def)
  from big_compare_spec [OF this] True have "divmod_assign X D = Some (0, X)" by (simp add: divmod_assign_def order_of_def)
  then show ?thesis using that [of 0 X] assms(2) True by (simp add: big_norm_def)
next
  case False
  have D: "0 < big_nat D" using assms(1) by (rule big_ok_pos)
  have lt: "big_nat X < 2 ^ 32 * big_nat D" using assms(3) by simp
  have "big_norm X" using assms(2) by (simp add: big_norm_def)
  from divmod_assign_spec [OF assms(1) this _ lt] assms(2) False obtain R where R:
    "divmod_assign X D = Some (big_nat X div big_nat D, R)" "big_nat R = big_nat X mod big_nat D" "big_exp R \<le> big_exp X" "big_norm R"
    "num_bigits R \<le> num_bigits X" by (metis not_less)
  have "big_ok R \<or> big_exp R \<le> big_exp D"
  proof (cases "big_nat X < big_nat D")
    case True
    then have "big_nat R \<noteq> 0" using R(2) big_ok_pos [OF assms(2)] by simp
    then show ?thesis using big_norm_nat [OF R(4)] by simp
  next
    case False
    have "tops_ok X D" using assms(1,2) by (simp add: tops_ok_def)
    then have "\<not> big_compare X D < 0" using False \<open>\<not> (big_nat X = big_nat D \<and> big_exp D < big_exp X)\<close> 
      by (auto simp: big_compare_spec order_of_def)
    then have "divmod_loop D 0 (big_align X D) = Some (big_nat X div big_nat D, R)"
      using R(1) by (simp add: divmod_assign_def split: if_splits)
    moreover have "big_nat X < 2 ^ 32 * big_nat D" by (rule lt)
    ultimately have "big_exp R = big_exp (big_align X D)"
      using divmod_loop_spec [OF assms(1) big_align_spec(2) [OF assms(2)], of D 0] False
      by (auto simp: big_align_spec)
    then show ?thesis by (simp add: big_align_spec(3))
  qed
  moreover have "big_nat R < big_nat D" using R(2) D by simp
  moreover have "big_nat X = big_nat X div big_nat D * big_nat D + big_nat R" by (simp add: R(2))
  ultimately show ?thesis using R(3,4) by (intro that [OF R(1)]) linarith+
qed

lemma compare_lower:
  assumes "big_norm R" "big_ok L" "big_exp R \<le> big_exp L"
  shows "big_compare R L - (if ev then 1 else 0) < 0 \<longleftrightarrow> exit_low ev (big_nat R) (big_nat L) (big_exp R = big_exp L)"
proof -
  have "tops_ok R L" using assms by (rule tops_ok_divisor)
  from big_compare_spec [OF this] assms(3) show ?thesis by (auto simp: exit_low_def order_of_def)
qed

lemma add_compare_norm:
  assumes "big_norm R" "big_ok U" "big_ok D" "big_exp R \<le> big_exp U"
  shows "big_add_compare R U D = order_of (big_nat R + big_nat U) (big_nat D)"
proof (cases "big_ok R")
  case True
  then show ?thesis using assms by (intro add_compare_ok)
next
  case False
  then have "num_bigits R = 1 + big_exp R" using assms(1) by (simp add: big_norm_def num_bigits_def)
  moreover have "1 + big_exp U \<le> num_bigits U" using assms(2) by (cases "bigits U") (auto simp: big_ok_def top_ok_def num_bigits_def)
  ultimately have "num_bigits R \<le> num_bigits U" using assms(4) by simp
  then show ?thesis using assms(2,3) by (intro big_add_compare_spec) auto
qed

lemma add_compare_twice:
  assumes "big_norm R" "big_ok D" "big_ok R \<or> big_exp R \<le> big_exp D"
  shows "big_add_compare R R D = order_of (2 * big_nat R) (big_nat D)"
proof (cases "big_ok R")
  case True
  then show ?thesis using add_compare_ok [OF True True assms(2)] by (simp add: mult_2)
next
  case False
  then have "num_bigits R = 1 + big_exp R" using assms(1) by (simp add: big_norm_def num_bigits_def)
  moreover have "1 + big_exp D \<le> num_bigits D" using assms(2) by (cases "bigits D") (auto simp: big_ok_def top_ok_def num_bigits_def)
  ultimately have "num_bigits R \<le> num_bigits D" using assms(3) False by simp
  then show ?thesis using assms(2) big_add_compare_spec [of D R R] by (simp add: mult_2)
qed

section \<open>The loop\<close>

text \<open>What has been printed, for a value \<open>x / d\<close> with the distances \<open>l / d\<close> and \<open>u / d\<close> to its boundaries.\<close>

definition digits_between :: "bool \<Rightarrow> nat list \<Rightarrow> nat \<Rightarrow> nat \<Rightarrow> nat \<Rightarrow> nat \<Rightarrow> bool" where
  "digits_between ev ds x d l u \<longleftrightarrow>
     (let n = d * digits_nat ds; p = 10 ^ (length ds - 1) in
      ds \<noteq> [] \<and> (\<forall>c \<in> set ds. c \<le> 9) \<and> (d \<le> x \<longrightarrow> hd ds \<noteq> 0)
      \<and> x * p \<le> n + l * p \<and> n \<le> x * p + u * p
      \<and> (\<not> ev \<longrightarrow> x * p < n + l * p \<and> n < x * p + u * p))"

text \<open>No number with fewer digits lies between the boundaries.\<close>

definition none_shorter :: "nat list \<Rightarrow> nat \<Rightarrow> nat \<Rightarrow> nat \<Rightarrow> nat \<Rightarrow> bool" where
  "none_shorter ds x d l u \<longleftrightarrow> (\<forall>j m. j < length ds - 1 \<longrightarrow>
     \<not> (int (x * 10 ^ j) < int d * m + int (l * 10 ^ j) \<and> int d * m < int (x * 10 ^ j + u * 10 ^ j)))"

lemma single_digit:
  assumes "c \<le> 9" "d \<le> x \<longrightarrow> c \<noteq> 0" "x \<le> d * c + l" "d * c \<le> x + u" "\<not> ev \<longrightarrow> x < d * c + l \<and> d * c < x + u"
  shows "digits_between ev [c] x d l u \<and> none_shorter [c] x d l u"
  using assms by (simp add: digits_between_def none_shorter_def)

lemma more_digits:
  assumes "x = q * d + r" "q \<le> 9" "l \<le> r" "r + u \<le> d" "0 < u" "digits_between ev ds (10 * r) d (10 * l) (10 * u)"
    and "none_shorter ds (10 * r) d (10 * l) (10 * u)"
  shows "digits_between ev (q # ds) x d l u \<and> none_shorter (q # ds) x d l u"
proof
  define p where "p = (10 :: nat) ^ (length ds - 1)"
  have "ds \<noteq> []" using assms(6) by (simp add: digits_between_def Let_def)
  then have p: "10 ^ length ds = 10 * p" by (cases ds) (simp_all add: p_def)
  have b: "10 * r * p \<le> d * digits_nat ds + 10 * l * p" "d * digits_nat ds \<le> 10 * r * p + 10 * u * p"
    "\<not> ev \<longrightarrow> 10 * r * p < d * digits_nat ds + 10 * l * p \<and> d * digits_nat ds < 10 * r * p + 10 * u * p"
    using assms(6) by (simp_all add: digits_between_def p_def Let_def)
  have e: "x * (10 * p) = d * (q * (10 * p)) + 10 * r * p" "d * (q * (10 * p) + digits_nat ds) = d * (q * (10 * p)) + d * digits_nat ds"
    by (simp_all add: assms(1) algebra_simps)
  have "d \<le> x \<longrightarrow> q \<noteq> 0" using assms(1,4,5) by (cases "q = 0") auto
  moreover have "10 * l * p = l * (10 * p)" "10 * u * p = u * (10 * p)" by simp_all
  then have "x * (10 * p) \<le> d * (q * (10 * p) + digits_nat ds) + l * (10 * p)"
    "d * (q * (10 * p) + digits_nat ds) \<le> x * (10 * p) + u * (10 * p)"
    "\<not> ev \<longrightarrow> x * (10 * p) < d * (q * (10 * p) + digits_nat ds) + l * (10 * p)
       \<and> d * (q * (10 * p) + digits_nat ds) < x * (10 * p) + u * (10 * p)"
    using b unfolding e by linarith+
  moreover have "\<forall>c \<in> set ds. c \<le> 9" using assms(6) by (simp add: digits_between_def Let_def)
  ultimately show "digits_between ev (q # ds) x d l u"
    using assms(2) unfolding digits_between_def Let_def length_Cons diff_Suc_1 digits_nat_simps p by simp
  show "none_shorter (q # ds) x d l u"
    unfolding none_shorter_def
  proof (intro allI impI notI)
    fix j :: nat and m :: int
    assume j: "j < length (q # ds) - 1" and m: "int (x * 10 ^ j) < int d * m + int (l * 10 ^ j) \<and> int d * m < int (x * 10 ^ j + u * 10 ^ j)"
    define M where "M = m - int q * 10 ^ j"
    have dm: "int d * m = int d * M + int q * int d * 10 ^ j" by (simp add: M_def algebra_simps)
    have x: "int (x * 10 ^ j) = int q * int d * 10 ^ j + int r * 10 ^ j" by (simp add: assms(1) algebra_simps)
    have lu: "int (l * 10 ^ j) = int l * 10 ^ j" "int (x * 10 ^ j + u * 10 ^ j) = int (x * 10 ^ j) + int u * 10 ^ j" by simp_all
    have m1: "int r * 10 ^ j < int d * M + int l * 10 ^ j" "int d * M < int r * 10 ^ j + int u * 10 ^ j"
      using m unfolding dm lu unfolding x by linarith+
    show False
    proof (cases j)
      case 0
      then have m0: "int r < int d * M + int l" "int d * M < int r + int u" using m1 by simp_all
      have "int l \<le> int r" "int r + int u \<le> int d" "0 < int d" using assms(3,4,5) by simp_all
      with m0 have M: "int d * M < int d * 1" "0 < int d * M" and d: "0 < int d" by linarith+
      from M(1) have "M < 1" using mult_less_cancel_left_pos [OF d] by blast
      moreover have "0 < M" using M(2) d zero_less_mult_pos by blast
      ultimately show False by simp
    next
      case (Suc i)
      have "int (10 * r * 10 ^ i) < int d * M + int (10 * l * 10 ^ i) \<and> int d * M < int (10 * r * 10 ^ i + 10 * u * 10 ^ i)"
        using m1 by (simp add: Suc algebra_simps)
      moreover have "i < length ds - 1" using j Suc by simp
      ultimately show False using assms(7) unfolding none_shorter_def by blast
    qed
  qed
qed

definition upper_or :: "bigint option \<Rightarrow> bigint \<Rightarrow> bigint" where
  "upper_or u l = (case u of None \<Rightarrow> l | Some x \<Rightarrow> x)"

lemma upper_or_mul: "upper_or (map_option (big_mul32 v) u) (big_mul32 v l) = big_mul32 v (upper_or u l)"
  by (cases u) (simp_all add: upper_or_def)

lemma big_exp_mul32 [simp]: "big_exp (big_mul32 v x) = big_exp x"
  by (simp add: big_mul32_def)

lemma fallback_loop_step:
  assumes "divmod_assign X D = Some (q, R)"
    and "big_compare R L - (if ev then 1 else 0) < 0 \<longleftrightarrow> low"
    and "big_add_compare R (upper_or U L) D = order_of (big_nat R + big_nat (upper_or U L)) (big_nat D)"
    and "big_add_compare R R D = order_of (2 * big_nat R) (big_nat D)"
  defines "high \<equiv> exit_high ev (big_nat R) (big_nat (upper_or U L)) (big_nat D)"
  shows "fallback_loop ev D X L U out =
    (if low \<or> high then Some (out @ [if high \<and> (\<not> low \<or> big_nat D < 2 * big_nat R \<or> 2 * big_nat R = big_nat D \<and> odd q)
         then succ_char (digit_char q) else digit_char q])
     else fallback_loop ev D (big_mul32 10 R) (big_mul32 10 L) (map_option (big_mul32 10) U) (out @ [digit_char q]))"
proof -
  have h: "order_of (big_nat R + big_nat (upper_or U L)) (big_nat D) + (if ev then 1 else 0) > 0 \<longleftrightarrow> high"
    by (auto simp: high_def exit_high_def order_of_def)
  have "0 < order_of (2 * big_nat R) (big_nat D) \<longleftrightarrow> big_nat D < 2 * big_nat R"
    "order_of (2 * big_nat R) (big_nat D) = 0 \<longleftrightarrow> 2 * big_nat R = big_nat D" by (auto simp: order_of_def)
  moreover have "q mod 2 \<noteq> 0 \<longleftrightarrow> odd q" by (simp add: odd_iff_mod_2_eq_one)
  ultimately show ?thesis
    unfolding fallback_loop.simps [of ev D X L U out] assms(1) Option.bind.simps prod.case Let_def upper_or_def [symmetric]
      assms(2-4) h by (cases low; cases high) simp_all
qed

lemma fallback_loop_spec:
  assumes "big_ok D" "big_ok X" "big_ok L" "big_ok (upper_or U L)" "big_exp X \<le> big_exp L" "big_exp L \<le> big_exp (upper_or U L)"
    and "big_nat X + big_nat (upper_or U L) \<le> 10 * big_nat D" "ev \<longrightarrow> big_nat X + big_nat (upper_or U L) < 10 * big_nat D"
  shows "\<exists>ds. fallback_loop ev D X L U out = Some (out @ map digit_char ds)
    \<and> digits_between ev ds (big_nat X) (big_nat D) (big_nat L) (big_nat (upper_or U L))
    \<and> none_shorter ds (big_nat X) (big_nat D) (big_nat L) (big_nat (upper_or U L))"
  using assms
proof (induction "big_nat D - big_nat L" arbitrary: X L U out rule: less_induct)
  case less
  define x d l u where "x = big_nat X" and "d = big_nat D" and "l = big_nat L" and "u = big_nat (upper_or U L)"
  note defs = x_def [symmetric] d_def [symmetric] l_def [symmetric] u_def [symmetric]
  have pos: "0 < x" "0 < d" "0 < l" "0 < u" using less.prems(1-4) by (simp_all add: big_ok_pos x_def d_def l_def u_def)
  have pre: "x + u \<le> 10 * d" "ev \<longrightarrow> x + u < 10 * d" using less.prems(7,8) by (simp_all add: x_def d_def u_def)
  have lt: "big_nat X < 10 * big_nat D" using pre(1) pos(4) by (simp add: x_def d_def)
  from divmod_round [OF less.prems(1,2) lt] obtain q R where R: "divmod_assign X D = Some (q, R)"
    "x = q * d + big_nat R" "big_nat R \<le> d" "big_exp R \<le> big_exp X" "big_norm R" "big_ok R \<or> big_exp R \<le> big_exp D"
    "big_nat R = d \<Longrightarrow> q = 0" unfolding defs by blast
  define r where "r = big_nat R"
  have e: "big_exp R \<le> big_exp L" "big_exp R \<le> big_exp (upper_or U L)" using R(4) less.prems(5,6) by linarith+
  define low where "low = exit_low ev r l (big_exp R = big_exp L)"
  define high where "high = exit_high ev r u d"
  define up where "up \<longleftrightarrow> high \<and> (\<not> low \<or> d < 2 * r \<or> 2 * r = d \<and> odd q)"
  have step: "fallback_loop ev D X L U out =
    (if low \<or> high then Some (out @ [if up then succ_char (digit_char q) else digit_char q])
     else fallback_loop ev D (big_mul32 10 R) (big_mul32 10 L) (map_option (big_mul32 10) U) (out @ [digit_char q]))"
    using fallback_loop_step [OF R(1) compare_lower [OF R(5) less.prems(3) e(1)] add_compare_norm [OF R(5) less.prems(4,1) e(2)]
        add_compare_twice [OF R(5) less.prems(1) R(6)], where out = out and ev = ev]
    unfolding defs r_def [symmetric] low_def [symmetric] high_def [symmetric] up_def [symmetric] .
  have xr: "x = q * d + r" "r \<le> d" "r = d \<Longrightarrow> q = 0" using R(2,3,7) by (simp_all add: r_def)
  have q9: "q \<le> 9"
  proof (rule ccontr)
    assume "\<not> q \<le> 9"
    then have "10 * d \<le> q * d" by simp
    then show False using xr(1) pre(1) pos(4) by linarith
  qed
  have q8: "q < 9" if high
  proof (rule ccontr)
    assume "\<not> q < 9"
    then have "q = 9" using q9 by simp
    then show False using that xr(1) pre by (auto simp: high_def exit_high_def)
  qed
  show ?case
  proof (cases "low \<or> high")
    case True
    have up: "\<not> up \<Longrightarrow> low" using True by (auto simp: up_def)
    have "r \<noteq> d" if "\<not> up"
      using that up pos by (auto simp: up_def high_def low_def exit_high_def)
    define c where "c = (if up then q + 1 else q)"
    have "c \<le> 9" using q9 q8 by (auto simp: c_def up_def)
    moreover have "d \<le> x \<longrightarrow> c \<noteq> 0" using \<open>\<not> up \<Longrightarrow> r \<noteq> d\<close> xr by (cases "q = 0") (auto simp: c_def)
    moreover have "x \<le> d * c + l" "d * c \<le> x + u" "\<not> ev \<longrightarrow> x < d * c + l \<and> d * c < x + u"
      using up xr pos by (auto simp: c_def up_def low_def high_def exit_low_def exit_high_def algebra_simps)
    ultimately have "digits_between ev [c] x d l u \<and> none_shorter [c] x d l u" by (rule single_digit)
    moreover have "fallback_loop ev D X L U out = Some (out @ map digit_char [c])"
      using True q8 succ_digit_char [of q] unfolding step by (auto simp: c_def up_def)
    ultimately show ?thesis unfolding defs by blast
  next
    case False
    then have b: "l \<le> r" "r + u \<le> d" "ev \<longrightarrow> r + u < d" by (auto simp: low_def high_def exit_low_def exit_high_def)
    have ok: "big_ok (big_mul32 10 R)" using b(1) pos(3) big_norm_nat [OF R(5)] by (simp add: r_def)
    have ok2: "big_ok (big_mul32 10 L)" "big_ok (upper_or (map_option (big_mul32 10) U) (big_mul32 10 L))"
      using less.prems(3,4) by (simp_all add: upper_or_mul)
    have ex: "big_exp (big_mul32 10 R) \<le> big_exp (big_mul32 10 L)"
      "big_exp (big_mul32 10 L) \<le> big_exp (upper_or (map_option (big_mul32 10) U) (big_mul32 10 L))"
      using e less.prems(6) by (simp_all add: upper_or_mul)
    have n: "big_nat (big_mul32 10 R) = 10 * r" "big_nat (big_mul32 10 L) = 10 * l"
      "big_nat (upper_or (map_option (big_mul32 10) U) (big_mul32 10 L)) = 10 * u"
      by (simp_all add: upper_or_mul r_def l_def u_def)
    have "big_nat D - big_nat (big_mul32 10 L) < big_nat D - big_nat L" unfolding n using b pos by (simp add: d_def l_def)
    from less.hyps [OF this less.prems(1) ok ok2 ex, of "out @ [digit_char q]"] b(2,3) obtain ds where
      ds: "fallback_loop ev D (big_mul32 10 R) (big_mul32 10 L) (map_option (big_mul32 10) U) (out @ [digit_char q])
        = Some ((out @ [digit_char q]) @ map digit_char ds)"
      "digits_between ev ds (10 * r) d (10 * l) (10 * u)" "none_shorter ds (10 * r) d (10 * l) (10 * u)"
      unfolding n d_def [symmetric] by auto
    have "fallback_loop ev D X L U out = Some (out @ map digit_char (q # ds))" unfolding step using False ds(1) by simp
    with more_digits [OF xr(1) q9 b(1,2) pos(4) ds(2,3)] show ?thesis unfolding defs by blast
  qed
qed

end
