(* ===== verification/Fmt_Exact.thy ===== *)
theory Fmt_Exact imports Fmt_Fallback begin

text \<open>
  \<open>fallback_format\<close> on a \<open>double\<close> (spdlog/fmt/bundled/format-inl.h): the numbers it starts with, and what its text
  denotes.
\<close>

section \<open>The start\<close>

lemma unat_significand: "k \<le> 2 \<Longrightarrow> unat (push_bit k (fp_f (double_fp d))) = unat (fp_f (double_fp d)) * 2 ^ k"
proof (rule unat_push)
  assume "k \<le> 2"
  then have "(2 :: nat) ^ k \<le> 2 ^ 2" by (rule power_increasing) simp
  with double_f_bound [of d] have "unat (fp_f (double_fp d)) * 2 ^ k < 2 ^ 53 * 2 ^ 2" by (intro mult_less_le_imp_less) simp_all
  then show "unat (fp_f (double_fp d)) * 2 ^ k < 2 ^ 64" by simp
qed

lemma fp_assign_parts: "fp_assign d = (double_fp d, closer d)"
  by (simp add: double_fp_def closer_def)

definition twice :: "u64 \<Rightarrow> real" where
  "twice d = (if closer d \<and> 0 \<le> fp_e (double_fp d) then 2 else 1)"

text \<open>The value and the gaps over the denominator, times \<open>10^exp10\<close>; \<open>twice\<close> should always be 1.\<close>

definition starts_with :: "u64 \<Rightarrow> int \<Rightarrow> nat \<Rightarrow> nat \<Rightarrow> nat \<Rightarrow> nat \<Rightarrow> bool" where
  "starts_with d exp10 x n l u \<longleftrightarrow> real x * 10 powi exp10 = twice d * double_value d * real n
     \<and> real l * 10 powi exp10 = twice d * lower_gap d * real n \<and> real u * 10 powi exp10 = twice d * upper_gap d * real n"

lemma powi_split: "0 \<le> e \<Longrightarrow> (x :: real) powi e = x ^ nat e" "e < 0 \<Longrightarrow> (x :: real) powi e * x ^ nat (- e) = (if x = 0 then 0 else 1)"
proof -
  show "(x :: real) powi e = x ^ nat e" if "0 \<le> e" using that by (simp add: power_int_def)
  show "(x :: real) powi e * x ^ nat (- e) = (if x = 0 then 0 else 1)" if "e < 0" using that by (simp add: power_int_def field_simps)
qed

lemma two_powi_minus: "(2 :: real) powi (e - int k) = 2 powi e / 2 ^ k"
  by (simp add: power_int_diff)

lemma fallback_setup_spec:
  assumes "\<not> is_zero d" "\<bar>exp10\<bar> < 2 ^ 30" "0 \<le> fp_e (double_fp d) \<Longrightarrow> 0 \<le> exp10"
  obtains X D L U where "fallback_setup d exp10 = Some (double_fp d, X, D, L, U)"
    "big_ok X" "big_ok D" "big_ok L" "big_ok (upper_or U L)" "big_exp X \<le> big_exp L" "big_exp L \<le> big_exp (upper_or U L)"
    "starts_with d exp10 (big_nat X) (big_nat D) (big_nat L) (big_nat (upper_or U L))"
proof -
  define f e s where "f = unat (fp_f (double_fp d))" and "e = fp_e (double_fp d)" and "s = (if closer d then 2 else 1 :: nat)"
  define sig where "sig = push_bit s (fp_f (double_fp d))"
  have s: "s \<le> 2" "0 < s" by (simp_all add: s_def)
  have sg: "unat sig = f * 2 ^ s" unfolding sig_def f_def using s(1) by (rule unat_significand)
  have "0 < f" unfolding f_def using assms(1) by (rule double_f_pos)
  then have sig: "sig \<noteq> 0" using sg by (metis mult_eq_0_iff not_less_zero power_not_zero unat_0 zero_neq_numeral)
  have val: "double_value d = real f * 2 powi e" by (simp only: double_value_def fp_real_def f_def e_def)
  have low: "lower_gap d = 2 powi e / 2 ^ s" and up: "upper_gap d = 2 powi e / 2"
    using two_powi_minus [of e s] two_powi_minus [of e 1] by (auto simp: lower_gap_def upper_gap_def e_def s_def)
  have "exp10 < 2 ^ 30" "- exp10 < 2 ^ 30" using assms(2) by linarith+
  then have k: "nat exp10 < 2 ^ 30" "nat (- exp10) < 2 ^ 30" by (cases "0 \<le> exp10"; simp add: nat_less_iff)+
  have one: "(1 :: u64) \<noteq> 0" "(push_bit 1 1 :: u64) = 2" "(2 :: u64) \<noteq> 0" by simp_all
  have ex: "big_exp (big_assign n) = 0" "big_exp (big_mul64 n x) = big_exp x" for n x
    by (simp_all add: big_assign_def big_mul64_def)
  have er: "nat e \<le> 972" "nat (- e) \<le> 1074" using double_e_range [of d] unfolding e_def by linarith+
  have sh: "big_shift j x = Some (shifted j x)" if "big_exp x \<le> 2 ^ 30" "j \<le> 2000" for j x
    using that by (simp add: big_shift_def)
  have p32: "m div 32 \<le> 2 ^ 30" if "m < 2 ^ 30" for m :: nat using that by simp
  consider (big) "0 \<le> e" | (neg) "e < 0" "exp10 < 0" | (mid) "e < 0" "0 \<le> exp10" by linarith
  then show ?thesis
  proof cases
    case big
    then have x: "0 \<le> exp10" using assms(3) by (simp add: e_def)
    have t: "(10 :: real) powi exp10 = 10 ^ nat exp10" "(2 :: real) powi e = 2 ^ nat e"
      using powi_split(1) [OF x] powi_split(1) [OF big] by simp_all
    from assign_pow10_spec [OF k(1)] obtain P where
      P: "assign_pow10 (nat exp10) = Some P" "big_nat P = 10 ^ nat exp10" "big_ok P" "big_exp P = nat exp10 div 32" by blast
    define X D L U where "X = shifted (nat e) (big_assign sig)" and "D = shifted 1 P"
      and "L = shifted (nat e) (big_assign 1)" and "U = (if closer d then Some (shifted (nat e + 1) (big_assign 1)) else None)"
    have "big_shift (nat e) (big_assign sig) = Some X" "big_shift (nat e) (big_assign 1) = Some L" "big_shift 1 P = Some D"
      "big_shift (nat e + 1) (big_assign 1) = Some (shifted (nat e + 1) (big_assign 1))"
      unfolding X_def L_def D_def using er(1) p32 [OF k(1)] by (intro sh; simp add: ex(1) P(4))+
    then have st: "fallback_setup d exp10 = Some (double_fp d, X, D, L, U)" using big x P(1)
      by (simp add: fallback_setup_def fp_assign_parts Let_def sig_def s_def e_def U_def)
    have n: "big_nat X = f * 2 ^ s * 2 ^ nat e" "big_nat D = 10 ^ nat exp10 * 2" "big_nat L = 2 ^ nat e"
      "big_nat (upper_or U L) = (if closer d then 2 * 2 ^ nat e else 2 ^ nat e)"
      by (simp_all add: X_def D_def L_def U_def sg P(2) upper_or_def)
    have "starts_with d exp10 (big_nat X) (big_nat D) (big_nat L) (big_nat (upper_or U L))"
      unfolding starts_with_def val low up n t twice_def e_def [symmetric] s_def using big by simp
    then show ?thesis using st
      by (rule that [rotated -1]) (auto simp: X_def D_def L_def U_def upper_or_def ex shifted_exp sig P(3) div_le_mono)
  next
    case neg
    have t: "(10 :: real) powi exp10 * 10 ^ nat (- exp10) = 1" "(2 :: real) powi e * 2 ^ nat (- e) = 1"
      using powi_split(2) [of exp10 10] powi_split(2) [of e 2] neg by simp_all
    from assign_pow10_spec [OF k(2)] obtain P where
      P: "assign_pow10 (nat (- exp10)) = Some P" "big_nat P = 10 ^ nat (- exp10)" "big_ok P" "big_exp P = nat (- exp10) div 32" by blast
    define X D L U where "X = big_mul64 sig P" and "D = shifted (s + nat (- e)) (big_assign 1)"
      and "L = P" and "U = (if closer d then Some (shifted 1 P) else None)"
    have "big_shift (s + nat (- e)) (big_assign 1) = Some D" "big_shift 1 P = Some (shifted 1 P)"
      unfolding D_def using er(2) s(1) p32 [OF k(2)] by (intro sh; simp add: ex(1) P(4))+
    then have st: "fallback_setup d exp10 = Some (double_fp d, X, D, L, U)" using neg P(1)
      by (auto simp: fallback_setup_def fp_assign_parts Let_def sig_def s_def e_def X_def L_def U_def)
    have n: "big_nat X = 10 ^ nat (- exp10) * (f * 2 ^ s)" "big_nat D = 2 ^ s * 2 ^ nat (- e)" "big_nat L = 10 ^ nat (- exp10)"
      "big_nat (upper_or U L) = (if closer d then 2 * 10 ^ nat (- exp10) else 10 ^ nat (- exp10))"
      by (simp_all add: X_def D_def L_def U_def sg P(2) upper_or_def power_add)
    define A B where "A = (10 :: real) ^ nat (- exp10)" and "B = (2 :: real) ^ nat (- e)"
    have "starts_with d exp10 (big_nat X) (big_nat D) (big_nat L) (big_nat (upper_or U L))"
      unfolding starts_with_def val low up n twice_def e_def [symmetric] s_def using neg t by (simp add: A_def [symmetric] B_def [symmetric] ac_simps)
    then show ?thesis using st
      by (rule that [rotated -1]) (auto simp: X_def D_def L_def U_def upper_or_def ex shifted_exp sig P(3))
  next
    case mid
    have t: "(10 :: real) powi exp10 = 10 ^ nat exp10" "(2 :: real) powi e * 2 ^ nat (- e) = 1"
      using powi_split(1) [of exp10 10] powi_split(2) [of e 2] mid by simp_all
    from assign_pow10_spec [OF k(1)] obtain P where
      P: "assign_pow10 (nat exp10) = Some P" "big_nat P = 10 ^ nat exp10" "big_ok P" "big_exp P = nat exp10 div 32" by blast
    define X D L U where "X = big_assign sig" and "D = shifted (s + nat (- e)) P"
      and "L = big_assign 1" and "U = (if closer d then Some (big_assign (push_bit 1 1)) else None)"
    have "big_shift (s + nat (- e)) P = Some D"
      unfolding D_def using er(2) s(1) p32 [OF k(1)] by (intro sh; simp add: P(4))
    then have st: "fallback_setup d exp10 = Some (double_fp d, X, D, L, U)" using mid P(1)
      by (auto simp: fallback_setup_def fp_assign_parts Let_def sig_def s_def e_def X_def L_def U_def)
    have n: "big_nat X = f * 2 ^ s" "big_nat D = 10 ^ nat exp10 * (2 ^ s * 2 ^ nat (- e))" "big_nat L = 1"
      "big_nat (upper_or U L) = (if closer d then 2 else 1)"
      by (simp_all add: X_def D_def L_def U_def sg P(2) upper_or_def power_add)
    define A B where "A = (10 :: real) ^ nat exp10" and "B = (2 :: real) ^ nat (- e)"
    have "starts_with d exp10 (big_nat X) (big_nat D) (big_nat L) (big_nat (upper_or U L))"
      unfolding starts_with_def val low up n t(1) twice_def e_def [symmetric] s_def using mid t(2)
      by (simp add: A_def [symmetric] B_def [symmetric] ac_simps)
    then show ?thesis using st
      by (rule that [rotated -1]) (auto simp: X_def D_def L_def U_def upper_or_def ex shifted_exp sig P(3))
  qed
qed

section \<open>What the text denotes\<close>

lemma starts_with_scale:
  fixes a :: real
  assumes "starts_with d exp10 x n l u" "0 < n"
  shows "real x * 10 ^ j \<le> real n * a + real l * 10 ^ j \<longleftrightarrow> twice d * (double_value d - lower_gap d) \<le> a * 10 powi (exp10 - int j)"
    and "real x * 10 ^ j < real n * a + real l * 10 ^ j \<longleftrightarrow> twice d * (double_value d - lower_gap d) < a * 10 powi (exp10 - int j)"
    and "real n * a \<le> real x * 10 ^ j + real u * 10 ^ j \<longleftrightarrow> a * 10 powi (exp10 - int j) \<le> twice d * (double_value d + upper_gap d)"
    and "real n * a < real x * 10 ^ j + real u * 10 ^ j \<longleftrightarrow> a * 10 powi (exp10 - int j) < twice d * (double_value d + upper_gap d)"
proof -
  define t p c y where "t = (10 :: real) powi exp10" and "p = (10 :: real) ^ j" and "c = real n * p"
    and "y = a * 10 powi (exp10 - int j)"
  have pos: "0 < t" "0 < p" "0 < c" using assms(2) by (simp_all add: t_def p_def c_def)
  have y: "a * t = y * p" by (simp add: y_def t_def p_def power_int_diff)
  have e: "real x * t = twice d * double_value d * real n" "real l * t = twice d * lower_gap d * real n"
    "real u * t = twice d * upper_gap d * real n" using assms(1) by (simp_all add: starts_with_def t_def)
  have lo: "(real n * a + real l * p - real x * p) * t = c * (y - twice d * (double_value d - lower_gap d))"
  proof -
    have "(real n * a + real l * p - real x * p) * t = real n * (a * t) + (real l * t) * p - (real x * t) * p" by (simp add: algebra_simps)
    also have "\<dots> = c * (y - twice d * (double_value d - lower_gap d))" unfolding y e by (simp add: c_def algebra_simps)
    finally show ?thesis .
  qed
  have hi: "(real x * p + real u * p - real n * a) * t = c * (twice d * (double_value d + upper_gap d) - y)"
  proof -
    have "(real x * p + real u * p - real n * a) * t = (real x * t) * p + (real u * t) * p - real n * (a * t)" by (simp add: algebra_simps)
    also have "\<dots> = c * (twice d * (double_value d + upper_gap d) - y)" unfolding y e by (simp add: c_def algebra_simps)
    finally show ?thesis .
  qed
  have sgn: "(0 \<le> z * t \<longleftrightarrow> 0 \<le> z) \<and> (0 < z * t \<longleftrightarrow> 0 < z) \<and> (0 \<le> c * z \<longleftrightarrow> 0 \<le> z) \<and> (0 < c * z \<longleftrightarrow> 0 < z)" for z
    using pos by (simp add: zero_le_mult_iff zero_less_mult_iff)
  from sgn [of "real n * a + real l * p - real x * p"] sgn [of "y - twice d * (double_value d - lower_gap d)"] lo
  show "real x * 10 ^ j \<le> real n * a + real l * 10 ^ j \<longleftrightarrow> twice d * (double_value d - lower_gap d) \<le> a * 10 powi (exp10 - int j)"
    and "real x * 10 ^ j < real n * a + real l * 10 ^ j \<longleftrightarrow> twice d * (double_value d - lower_gap d) < a * 10 powi (exp10 - int j)"
    unfolding y_def [symmetric] p_def [symmetric] by linarith+
  from sgn [of "real x * p + real u * p - real n * a"] sgn [of "twice d * (double_value d + upper_gap d) - y"] hi
  show "real n * a \<le> real x * 10 ^ j + real u * 10 ^ j \<longleftrightarrow> a * 10 powi (exp10 - int j) \<le> twice d * (double_value d + upper_gap d)"
    and "real n * a < real x * 10 ^ j + real u * 10 ^ j \<longleftrightarrow> a * 10 powi (exp10 - int j) < twice d * (double_value d + upper_gap d)"
    unfolding y_def [symmetric] p_def [symmetric] by linarith+
qed

text \<open>The digits, for a value that is \<open>twice\<close> the number.\<close>

definition prints_between :: "u64 \<Rightarrow> int \<Rightarrow> nat list \<Rightarrow> bool" where
  "prints_between d exp10 ds \<longleftrightarrow>
     (let y = decimal_value ds (exp10 - int (length ds - 1));
          lo = twice d * (double_value d - lower_gap d); hi = twice d * (double_value d + upper_gap d) in
      ds \<noteq> [] \<and> list_all (\<lambda>c. c \<le> 9) ds
      \<and> (10 powi exp10 \<le> twice d * double_value d \<longrightarrow> hd ds \<noteq> 0)
      \<and> (if even (unat (fp_f (double_fp d))) then lo \<le> y \<and> y \<le> hi else lo < y \<and> y < hi)
      \<and> (\<forall>m k. exp10 - int (length ds - 1) < k \<and> k \<le> exp10 \<longrightarrow> \<not> (lo < real_of_int m * 10 powi k \<and> real_of_int m * 10 powi k < hi)))"

lemma nat_real:
  "real x * 10 ^ j \<le> real n * real a + real l * 10 ^ j \<longleftrightarrow> x * 10 ^ j \<le> n * a + l * 10 ^ j"
  "real x * 10 ^ j < real n * real a + real l * 10 ^ j \<longleftrightarrow> x * 10 ^ j < n * a + l * 10 ^ j"
  "real n * real a \<le> real x * 10 ^ j + real u * 10 ^ j \<longleftrightarrow> n * a \<le> x * 10 ^ j + u * 10 ^ j"
  "real n * real a < real x * 10 ^ j + real u * 10 ^ j \<longleftrightarrow> n * a < x * 10 ^ j + u * 10 ^ j"
proof -
  have e: "real x * 10 ^ j = real (x * 10 ^ j)" "real n * real a + real l * 10 ^ j = real (n * a + l * 10 ^ j)"
    "real n * real a = real (n * a)" "real x * 10 ^ j + real u * 10 ^ j = real (x * 10 ^ j + u * 10 ^ j)" by simp_all
  show "real x * 10 ^ j \<le> real n * real a + real l * 10 ^ j \<longleftrightarrow> x * 10 ^ j \<le> n * a + l * 10 ^ j"
    and "real x * 10 ^ j < real n * real a + real l * 10 ^ j \<longleftrightarrow> x * 10 ^ j < n * a + l * 10 ^ j"
    unfolding e(1,2) by (simp_all only: of_nat_le_iff of_nat_less_iff)
  show "real n * real a \<le> real x * 10 ^ j + real u * 10 ^ j \<longleftrightarrow> n * a \<le> x * 10 ^ j + u * 10 ^ j"
    and "real n * real a < real x * 10 ^ j + real u * 10 ^ j \<longleftrightarrow> n * a < x * 10 ^ j + u * 10 ^ j"
    unfolding e(3,4) by (simp_all only: of_nat_le_iff of_nat_less_iff)
qed

lemma int_real:
  "real x * 10 ^ j < real n * real_of_int m + real l * 10 ^ j \<longleftrightarrow> int (x * 10 ^ j) < int n * m + int (l * 10 ^ j)"
  "real n * real_of_int m < real x * 10 ^ j + real u * 10 ^ j \<longleftrightarrow> int n * m < int (x * 10 ^ j + u * 10 ^ j)"
proof -
  have e: "real x * 10 ^ j = real_of_int (int (x * 10 ^ j))" "real n * real_of_int m + real l * 10 ^ j = real_of_int (int n * m + int (l * 10 ^ j))"
    "real n * real_of_int m = real_of_int (int n * m)" "real x * 10 ^ j + real u * 10 ^ j = real_of_int (int (x * 10 ^ j + u * 10 ^ j))" by simp_all
  show "real x * 10 ^ j < real n * real_of_int m + real l * 10 ^ j \<longleftrightarrow> int (x * 10 ^ j) < int n * m + int (l * 10 ^ j)"
    unfolding e(1,2) by (simp only: of_int_less_iff)
  show "real n * real_of_int m < real x * 10 ^ j + real u * 10 ^ j \<longleftrightarrow> int n * m < int (x * 10 ^ j + u * 10 ^ j)"
    unfolding e(3,4) by (simp only: of_int_less_iff)
qed

lemma digits_between_real:
  assumes "starts_with d exp10 x n l u" "0 < n" "digits_between (even (unat (fp_f (double_fp d)))) ds x n l u" "none_shorter ds x n l u"
  shows "prints_between d exp10 ds"
proof -
  define j where "j = length ds - 1"
  define N where "N = digits_nat ds"
  note sc = starts_with_scale [OF assms(1,2), where j = j and a = "real N"]
  have ne: "ds \<noteq> []" "list_all (\<lambda>c. c \<le> 9) ds" "n \<le> x \<Longrightarrow> hd ds \<noteq> 0"
    using assms(3) by (simp_all add: digits_between_def Let_def list_all_iff)
  have b: "real x * 10 ^ j \<le> real n * real N + real l * 10 ^ j" "real n * real N \<le> real x * 10 ^ j + real u * 10 ^ j"
    "odd (unat (fp_f (double_fp d))) \<longrightarrow> real x * 10 ^ j < real n * real N + real l * 10 ^ j \<and> real n * real N < real x * 10 ^ j + real u * 10 ^ j"
    using assms(3) unfolding digits_between_def Let_def j_def [symmetric] N_def [symmetric]
    unfolding nat_real by blast+
  have "n \<le> x" if "10 powi exp10 \<le> twice d * double_value d"
  proof -
    have "10 powi exp10 * real n \<le> twice d * double_value d * real n" using that by (rule mult_right_mono) simp
    also have "\<dots> = 10 powi exp10 * real x" using assms(1) by (simp add: starts_with_def mult.commute)
    finally have "real n \<le> real x" by (rule mult_left_le_imp_le) simp
    then show ?thesis by simp
  qed
  moreover have "\<not> (twice d * (double_value d - lower_gap d) < real_of_int m * 10 powi k
      \<and> real_of_int m * 10 powi k < twice d * (double_value d + upper_gap d))" if "exp10 - int j < k" "k \<le> exp10" for m k
  proof -
    define i where "i = nat (exp10 - k)"
    have i: "i < j" "k = exp10 - int i" using that by (auto simp: i_def)
    have "\<not> (int (x * 10 ^ i) < int n * m + int (l * 10 ^ i) \<and> int n * m < int (x * 10 ^ i + u * 10 ^ i))"
      using assms(4) i(1) unfolding none_shorter_def j_def by blast
    then have "\<not> (real x * 10 ^ i < real n * real_of_int m + real l * 10 ^ i \<and> real n * real_of_int m < real x * 10 ^ i + real u * 10 ^ i)"
      unfolding int_real .
    then show ?thesis unfolding i(2) by (simp only: starts_with_scale [OF assms(1,2)] not_False_eq_True)
  qed
  ultimately show ?thesis
    using ne b unfolding prints_between_def Let_def decimal_value_def j_def [symmetric] N_def [symmetric] sc [symmetric] by auto
qed

lemma fallback_format_prints:
  assumes "\<not> is_zero d" "\<bar>exp10\<bar> < 2 ^ 30" "twice d * (double_value d + upper_gap d) < 10 powi (exp10 + 1)"
  obtains ds where "fallback_format d exp10 = Some (exp10 - int (length ds - 1), map digit_char ds)" "prints_between d exp10 ds"
proof -
  have "0 \<le> exp10" if "0 \<le> fp_e (double_fp d)"
  proof (rule ccontr)
    assume "\<not> 0 \<le> exp10"
    then have "(10 :: real) powi (exp10 + 1) \<le> 10 powi 0" by (intro power_int_increasing) simp_all
    moreover have "1 * 1 \<le> double_value d" unfolding double_value_def fp_real_def
    proof (rule mult_mono)
      have "1 \<le> unat (fp_f (double_fp d))" using double_f_pos [OF assms(1)] by simp
      then have "real 1 \<le> real (unat (fp_f (double_fp d)))" by (simp only: of_nat_le_iff)
      then show "1 \<le> real (unat (fp_f (double_fp d)))" by (simp only: of_nat_1)
      show "(1 :: real) \<le> 2 powi fp_e (double_fp d)" using that by (simp add: power_int_def)
      show "0 \<le> real (unat (fp_f (double_fp d)))" by (rule of_nat_0_le_iff)
    qed simp
    moreover have "1 \<le> twice d" "0 < upper_gap d" by (simp_all add: twice_def upper_gap_def)
    then have "1 * double_value d \<le> twice d * (double_value d + upper_gap d)"
      using double_value_pos [OF assms(1)] by (intro mult_mono) simp_all
    ultimately show False using assms(3) by simp
  qed
  from fallback_setup_spec [OF assms(1,2) this] obtain X D L U where
    S: "fallback_setup d exp10 = Some (double_fp d, X, D, L, U)" "big_ok X" "big_ok D" "big_ok L" "big_ok (upper_or U L)"
    "big_exp X \<le> big_exp L" "big_exp L \<le> big_exp (upper_or U L)"
    and st: "starts_with d exp10 (big_nat X) (big_nat D) (big_nat L) (big_nat (upper_or U L))" by blast
  have n: "0 < big_nat D" using S(3) by (rule big_ok_pos)
  have "big_nat X + big_nat (upper_or U L) < 10 * big_nat D"
  proof -
    have "(real (big_nat X) + real (big_nat (upper_or U L))) * 10 powi exp10 = twice d * (double_value d + upper_gap d) * real (big_nat D)"
      using st by (simp add: starts_with_def algebra_simps)
    also have "\<dots> < 10 powi (exp10 + 1) * real (big_nat D)" using assms(3) n by (intro mult_strict_right_mono) simp_all
    also have "\<dots> = (10 * real (big_nat D)) * 10 powi exp10" by (simp add: power_int_add_1)
    finally have "real (big_nat X) + real (big_nat (upper_or U L)) < 10 * real (big_nat D)" by (rule mult_right_less_imp_less) simp
    then have "real (big_nat X + big_nat (upper_or U L)) < real (10 * big_nat D)" by simp
    then show ?thesis by (simp only: of_nat_less_iff)
  qed
  then have pre: "big_nat X + big_nat (upper_or U L) \<le> 10 * big_nat D"
    "even (unat (fp_f (double_fp d))) \<longrightarrow> big_nat X + big_nat (upper_or U L) < 10 * big_nat D" by simp_all
  from fallback_loop_spec [OF S(3,2,4-7) pre, of "[]"] obtain ds where
    ds: "fallback_loop (even (unat (fp_f (double_fp d)))) D X L U [] = Some (map digit_char ds)"
    "digits_between (even (unat (fp_f (double_fp d)))) ds (big_nat X) (big_nat D) (big_nat L) (big_nat (upper_or U L))"
    "none_shorter ds (big_nat X) (big_nat D) (big_nat L) (big_nat (upper_or U L))" by auto
  have "fp_f (double_fp d) AND 1 = 0 \<longleftrightarrow> even (unat (fp_f (double_fp d)))" by (rule and_one_even)
  then have "fallback_format d exp10 = Some (exp10 - (int (length ds) - 1), map digit_char ds)"
    using ds(1) by (simp add: fallback_format_def S(1))
  moreover have "ds \<noteq> []" using ds(2) by (simp add: digits_between_def Let_def)
  then have "int (length ds) - 1 = int (length ds - 1)" by (cases ds) simp_all
  ultimately have "fallback_format d exp10 = Some (exp10 - int (length ds - 1), map digit_char ds)" by (simp only:)
  then show ?thesis using digits_between_real [OF st n ds(2,3)] by (rule that)
qed

text \<open>
  C32 [functional] The exact conversion ends on every positive double, and its digits are the shortest that read back as
  the number: rounded to the nearest double (and to even) they give the number again, and no decimal number with
  fewer digits lies strictly between the midpoints to the neighbouring doubles.  The powers of two from 2^52 on are
  excepted (their conversion is wrong).  The exponent exp10 that the caller estimates must not be too
  small (the number and half the gap above it are less than 10^(exp10 + 1)) and be below 2^30 in size, so that no
  int of the big numbers overflows; that of a double is below 400.
\<close>

theorem fallback_format_shortest:
  assumes "\<not> is_zero d" "\<not> (closer d \<and> 0 \<le> fp_e (double_fp d))" "\<bar>exp10\<bar> < 2 ^ 30"
    and "double_value d + upper_gap d < 10 powi (exp10 + 1)"
  shows "\<exists>ds e. fallback_format d exp10 = Some (e, map digit_char ds) \<and> e = exp10 - int (length ds - 1)
    \<and> list_all (\<lambda>c. c \<le> 9) ds \<and> rounds_to d (decimal_value ds e) \<and> (10 powi exp10 \<le> double_value d \<longrightarrow> hd ds \<noteq> 0)
    \<and> (\<forall>m k. e < k \<and> k \<le> exp10 \<longrightarrow> \<not> (double_value d - lower_gap d < real_of_int m * 10 powi k
         \<and> real_of_int m * 10 powi k < double_value d + upper_gap d))"
proof -
  have t: "twice d = 1" using assms(2) by (simp add: twice_def)
  from fallback_format_prints [OF assms(1,3)] assms(4) obtain ds where
    ds: "fallback_format d exp10 = Some (exp10 - int (length ds - 1), map digit_char ds)" "prints_between d exp10 ds" by (auto simp: t)
  note p = ds(2) [unfolded prints_between_def Let_def t mult_1_left]
  then have "rounds_to d (decimal_value ds (exp10 - int (length ds - 1)))" unfolding rounds_to_def by blast
  with ds(1) p show ?thesis by (intro exI [of _ ds] exI [of _ "exp10 - int (length ds - 1)"] conjI) blast+
qed

lemma tenth:
  "\<not> is_zero 0x3FB999999999999A" "unat (fp_f (double_fp 0x3FB999999999999A)) = 7205759403792794" "fp_e (double_fp 0x3FB999999999999A) = - 56"
  "\<not> closer 0x3FB999999999999A"
  by (simp_all add: is_zero_bits fp_assign_cases biased_exponent_bits)

theorem fallback_format_shortest_witness:
  "\<exists>ds e. fallback_format 0x3FB999999999999A (- 1) = Some (e, map digit_char ds) \<and> list_all (\<lambda>c. c \<le> 9) ds
    \<and> rounds_to 0x3FB999999999999A (decimal_value ds e)"
proof -
  have v: "double_value 0x3FB999999999999A = 7205759403792794 / 2 ^ 56" "upper_gap 0x3FB999999999999A = 1 / 2 ^ 57"
    by (simp_all only: double_value_def fp_real_def upper_gap_def tenth) (simp_all add: power_int_def field_simps)
  have "double_value 0x3FB999999999999A + upper_gap 0x3FB999999999999A < 10 powi (- 1 + 1)" unfolding v by simp
  from fallback_format_shortest [OF tenth(1) _ _ this] tenth(4) show ?thesis by auto
qed

section \<open>Powers of two\<close>

text \<open>
  C40 [error] For a power of two from 2^52 on, whose lower neighbour is closer, the exact conversion prints twice
  the number, up to twice the gaps around it: the numerator is shifted by two bits, the denominator only by one.  The
  text does not read back as the number.  This is stated for an exponent exp10 that leaves room for twice the number (2
  (number + half the gap above it) < 10^(exp10 + 1)), as it is for those powers whose leading digits are below 5;
  for the others the first digit would come out as more than 9 (2^807 prints an A).
\<close>

theorem fallback_doubles_powers_of_two:
  assumes "closer d" "0 \<le> fp_e (double_fp d)" "\<bar>exp10\<bar> < 2 ^ 30" "2 * (double_value d + upper_gap d) < 10 powi (exp10 + 1)"
  shows "\<exists>ds e. fallback_format d exp10 = Some (e, map digit_char ds) \<and> list_all (\<lambda>c. c \<le> 9) ds
    \<and> 2 * (double_value d - lower_gap d) \<le> decimal_value ds e \<and> decimal_value ds e \<le> 2 * (double_value d + upper_gap d)
    \<and> \<not> rounds_to d (decimal_value ds e)"
proof -
  define e where "e = fp_e (double_fp d)"
  have t: "twice d = 2" using assms(1,2) by (simp add: twice_def)
  have f: "unat (fp_f (double_fp d)) = 2 ^ 52" using assms(1) unfolding fp_assign_cases by auto
  have z: "\<not> is_zero d" using assms(1) zero_exponent [of d] by (auto simp: fp_assign_cases)
  have v: "double_value d = 2 ^ 52 * 2 powi e" by (simp only: double_value_def fp_real_def f e_def of_nat_power of_nat_numeral)
  have g: "lower_gap d = 2 powi e / 4" "upper_gap d = 2 powi e / 2"
    using assms(1) by (simp_all add: lower_gap_def upper_gap_def e_def power_int_diff)
  from fallback_format_prints [OF z assms(3)] assms(4) obtain ds where
    ds: "fallback_format d exp10 = Some (exp10 - int (length ds - 1), map digit_char ds)" "prints_between d exp10 ds" by (auto simp: t)
  define y where "y = decimal_value ds (exp10 - int (length ds - 1))"
  have y: "list_all (\<lambda>c. c \<le> 9) ds" "2 * (double_value d - lower_gap d) \<le> y" "y \<le> 2 * (double_value d + upper_gap d)"
    using ds(2) unfolding prints_between_def Let_def t y_def by (auto split: if_splits)
  define P where "P = (2 :: real) powi e"
  have "0 < P" by (simp add: P_def)
  then have "double_value d + upper_gap d < y" using y(2) unfolding v g P_def [symmetric] by simp
  then have "\<not> rounds_to d y" by (simp add: rounds_to_def)
  with ds(1) y show ?thesis unfolding y_def by blast
qed

theorem fallback_doubles_powers_of_two_witness:
  "double_value 0x4500000000000000 = 2 ^ 81
   \<and> (\<exists>ds e. fallback_format 0x4500000000000000 24 = Some (e, map digit_char ds) \<and> list_all (\<lambda>c. c \<le> 9) ds
     \<and> 2 * (double_value 0x4500000000000000 - lower_gap 0x4500000000000000) \<le> decimal_value ds e
     \<and> decimal_value ds e \<le> 2 * (double_value 0x4500000000000000 + upper_gap 0x4500000000000000)
     \<and> \<not> rounds_to 0x4500000000000000 (decimal_value ds e))"
proof -
  let ?d = "0x4500000000000000 :: u64"
  have f: "fp_f (double_fp ?d) = 0x10000000000000" "fp_e (double_fp ?d) = 29" "closer ?d" by code_simp+
  have v: "double_value ?d = 2 ^ 81" "upper_gap ?d = 2 ^ 28"
    by (simp_all only: double_value_def fp_real_def upper_gap_def f) (simp_all add: power_int_def)
  have "2 * (double_value ?d + upper_gap ?d) < 10 powi (24 + 1)" unfolding v by simp
  from fallback_doubles_powers_of_two [OF f(3) _ _ this] f(2) v(1) show ?thesis by simp
qed

end
