(* ===== verification/Fmt_Shortest.thy ===== *)
theory Fmt_Shortest imports Fmt_Gen_Digits Fmt_Exact begin

text \<open>
  The shortest representation of a \<open>double\<close> (spdlog/fmt/bundled/format-inl.h): \<open>grisu_shortest_handler\<close> keeps the
  contract of digit handlers, so that Grisu's digits, when they are accepted, lie between the boundaries; together
  with the exact conversion, \<open>format_float\<close> without a precision prints digits that read back as the number.
\<close>

section \<open>The handler\<close>

lemma pred_digit_char: "0 < d \<Longrightarrow> d \<le> 9 \<Longrightarrow> pred_char (digit_char d) = digit_char (d - 1)"
proof -
  assume "0 < d" "d \<le> 9"
  then have "(48 + d + 255) mod 256 = 48 + (d - 1)" by (simp add: mod_if)
  then show ?thesis using \<open>d \<le> 9\<close> by (simp add: pred_char_def digit_char_def)
qed

lemma prev_remainder:
  assumes "at_position T sh (k + 1) P s'" "at_position T sh k (10 * P + q) s"
  shows "if 0 \<le> k then s' = q * pos_divisor sh k + s else 10 * s' = q * pos_divisor sh k + s"
proof (cases "0 \<le> k")
  case True
  then show ?thesis using assms by (simp add: at_position_def pos_simps(1,3) distrib_right)
next
  case False
  then have "10 * (T * pos_unit (k + 1)) = T * pos_unit k" by (simp add: pos_simps(4))
  then have "10 * (P * pos_divisor sh (k + 1) + s') = (10 * P + q) * pos_divisor sh k + s"
    using assms by (simp only: at_position_def)
  then show ?thesis using False by (simp add: pos_simps(2) distrib_right)
qed

text \<open>\<open>round\<close> takes \<open>t\<close> from the last digit.\<close>

lemma round_loop_spec:
  assumes "s \<le> E" "E < 2 ^ 64" "0 < D" "D < 2 ^ 64" "q \<le> 9" "E \<le> q * D + s"
  shows "\<exists>t. round_loop d (of_nat D) (of_nat E) (digit_char q) (of_nat s) = Some (digit_char (q - t), of_nat (s + t * D))
    \<and> t \<le> q \<and> s + t * D \<le> E"
  using assms
proof (induction "E - s" arbitrary: q s rule: less_induct)
  case less
  define go where "go \<longleftrightarrow> (of_nat s :: u64) < d \<and> of_nat E - of_nat s \<ge> (of_nat D :: u64)
     \<and> (of_nat s + of_nat D < d \<or> d - of_nat s \<ge> of_nat s + of_nat D - d)"
  have e: "round_loop d (of_nat D) (of_nat E) (digit_char q) (of_nat s)
    = (if go then round_loop d (of_nat D) (of_nat E) (pred_char (digit_char q)) (of_nat (s + D))
       else Some (digit_char q, of_nat s))"
    unfolding go_def of_nat_add by (rule round_loop.simps)
  show ?case
  proof (cases go)
    case False
    then show ?thesis using less.prems(1) by (intro exI [of _ 0]) (simp add: e)
  next
    case True
    have "of_nat E - of_nat s = (of_nat (E - s) :: u64)" using less.prems(1) by (simp add: of_nat_diff)
    then have "(of_nat D :: u64) \<le> of_nat (E - s)" using True by (simp add: go_def)
    then have "unat (of_nat D :: u64) \<le> unat (of_nat (E - s) :: u64)" by (simp only: word_le_nat_alt)
    then have D: "s + D \<le> E" using less.prems(1,2,4) by (simp only: unat_of_nat64 less_imp_diff_less)
    then have q: "0 < q" using less.prems(3,6) by (cases q) simp_all
    have "E - (s + D) < E - s" "E \<le> (q - 1) * D + (s + D)" "q - 1 \<le> 9"
      using D less.prems(3,5,6) q by (cases q; simp)+
    from less.hyps [OF this(1) D less.prems(2-4) this(3,2)] obtain t where
      t: "round_loop d (of_nat D) (of_nat E) (digit_char (q - 1)) (of_nat (s + D)) = Some (digit_char (q - 1 - t), of_nat (s + D + t * D))"
      "t \<le> q - 1" "s + D + t * D \<le> E" by blast
    have "round_loop d (of_nat D) (of_nat E) (digit_char q) (of_nat s) = Some (digit_char (q - Suc t), of_nat (s + Suc t * D))"
      unfolding e using True q less.prems(5) t(1) by (simp add: pred_digit_char add.assoc)
    then show ?thesis using t(2,3) q by (intro exI [of _ "Suc t"]) auto
  qed
qed

text \<open>Its invariant, for a number \<open>T\<close> with \<open>n\<close> integral digits, and its result.\<close>

definition shortest_side :: "nat \<Rightarrow> nat \<Rightarrow> nat \<Rightarrow> nat \<Rightarrow> nat \<Rightarrow> bool" where
  "shortest_side T err diff sh n \<longleftrightarrow> err < T \<and> T < 2 ^ 64 \<and> 32 \<le> sh \<and> sh \<le> 60 \<and> 16 \<le> err \<and> 0 < diff \<and> diff < err
     \<and> 0 < n \<and> n \<le> 10 \<and> 10 ^ (n - 1) * 2 ^ sh \<le> T \<and> T < 10 ^ n * 2 ^ sh"

definition shortest_inv :: "nat \<Rightarrow> nat \<Rightarrow> nat \<Rightarrow> nat \<Rightarrow> nat \<Rightarrow> nat \<Rightarrow> int \<Rightarrow> shortest_handler \<Rightarrow> bool" where
  "shortest_inv T err diff sh n P k h \<longleftrightarrow> shortest_side T err diff sh n \<and> sh_diff h = of_nat diff \<and> k \<le> int n
     \<and> (\<exists>ds s. sh_buf h = map digit_char ds \<and> digits_nat ds = P \<and> list_all (\<lambda>c. c \<le> 9) ds \<and> int (length ds) = int n - k
        \<and> at_position T sh k P s
        \<and> (ds \<noteq> [] \<longrightarrow> err * pos_unit k \<le> s \<and> 0 < P \<and> hd ds \<noteq> 0))"

definition shortest_result :: "nat \<Rightarrow> nat \<Rightarrow> nat \<Rightarrow> nat \<Rightarrow> digits_result \<Rightarrow> int \<Rightarrow> shortest_handler \<Rightarrow> bool" where
  "shortest_result T err sh n r k h \<longleftrightarrow>
     (\<exists>ds s. sh_buf h = map digit_char ds \<and> ds \<noteq> [] \<and> hd ds \<noteq> 0 \<and> list_all (\<lambda>c. c \<le> 9) ds \<and> int (length ds) = int n - k
        \<and> T * pos_unit k = digits_nat ds * pos_divisor sh k + s
        \<and> (r = Digits_done \<longrightarrow> 2 * pos_unit k \<le> s \<and> s + 4 * pos_unit k \<le> err * pos_unit k))"

text \<open>The bounds of a step: nothing overflows, and the last digit is large enough.\<close>

lemma shortest_bounds:
  assumes "shortest_side T err diff sh n" "k + 1 \<le> int n" "at_position T sh (k + 1) P s'"
    and "k + 1 = int n \<and> P = 0 \<or> err * pos_unit (k + 1) \<le> s'" and "at_position T sh k (10 * P + q) s"
  shows "err * pos_unit k < 2 ^ 64" "pos_divisor sh k < 2 ^ 64" "err * pos_unit k \<le> q * pos_divisor sh k + s" "- 19 < k"
    "k + 1 = int n \<and> P = 0 \<longrightarrow> 0 < q \<and> err * pos_unit k < q * pos_divisor sh k + s"
proof -
  have side: "err < T" "T < 2 ^ 64" "sh \<le> 60" "16 \<le> err" "10 ^ (n - 1) * 2 ^ sh \<le> T" "0 < n"
    using assms(1) by (simp_all add: shortest_side_def)
  have pr: "if 0 \<le> k then s' = q * pos_divisor sh k + s else 10 * s' = q * pos_divisor sh k + s"
    using assms(3,5) by (rule prev_remainder)
  have p60: "(2 :: nat) ^ sh \<le> 2 ^ 60" using side(3) by (intro power_increasing) simp_all
  have first: "0 \<le> k \<and> T = q * pos_divisor sh k + s \<and> err * pos_unit k = err" if "k + 1 = int n \<and> P = 0"
    using that side(6) assms(5) by (simp add: at_position_def pos_simps(1))
  show le: "err * pos_unit k \<le> q * pos_divisor sh k + s"
  proof (cases "k + 1 = int n \<and> P = 0")
    case True
    from first [OF True] side(1) show ?thesis by linarith
  next
    case False
    then have "err * pos_unit (k + 1) \<le> s'" using assms(4) by blast
    then show ?thesis using pr by (cases "0 \<le> k") (simp_all add: pos_simps(1,4))
  qed
  have neg: "err * pos_unit (k + 1) < 2 ^ 60" if "k < 0"
  proof -
    have "\<not> (k + 1 = int n \<and> P = 0)" using that side(6) by simp
    then have "err * pos_unit (k + 1) \<le> s'" using assms(4) by blast
    also have "s' < 2 ^ sh" using assms(3) that by (simp add: at_position_def pos_simps(2))
    finally show ?thesis using p60 by simp
  qed
  show "err * pos_unit k < 2 ^ 64"
  proof (cases "0 \<le> k")
    case True
    then show ?thesis using side(1,2) by (simp add: pos_simps(1))
  next
    case False
    then show ?thesis using neg by (simp add: pos_simps(4))
  qed
  show "pos_divisor sh k < 2 ^ 64"
  proof (cases "0 \<le> k")
    case True
    then have "(10 :: nat) ^ nat k \<le> 10 ^ (n - 1)" using assms(2) by (intro power_increasing) auto
    then have "pos_divisor sh k \<le> 10 ^ (n - 1) * 2 ^ sh" unfolding pos_divisor_def by (rule mult_right_mono) simp
    then show ?thesis using side(2,5) by linarith
  next
    case False
    then show ?thesis using p60 by (simp add: pos_simps(2))
  qed
  show "- 19 < k"
  proof (rule ccontr)
    assume "\<not> - 19 < k"
    then have k: "k < 0" "17 \<le> nat (- (k + 1))" by simp_all
    have "16 * 10 ^ 17 \<le> err * pos_unit (k + 1)" unfolding pos_unit_def
      using side(4) k(2) by (intro mult_mono power_increasing) simp_all
    with neg [OF k(1)] show False by simp
  qed
  show "k + 1 = int n \<and> P = 0 \<longrightarrow> 0 < q \<and> err * pos_unit k < q * pos_divisor sh k + s"
  proof
    assume h: "k + 1 = int n \<and> P = 0"
    then have "nat k = n - 1" by arith
    then have "pos_divisor sh k \<le> q * pos_divisor sh k + s" using first [OF h] side(5) by (simp add: pos_divisor_def)
    moreover have "s < pos_divisor sh k" using assms(5) by (simp add: at_position_def)
    ultimately have "0 < q" by (cases q) simp_all
    with first [OF h] side(1) show "0 < q \<and> err * pos_unit k < q * pos_divisor sh k + s" by linarith
  qed
qed

lemma digit_unit_word:
  assumes "- 19 < k"
  shows "digit_unit k (0 \<le> k) = Some (of_nat (pos_unit k))"
proof (cases "0 \<le> k")
  case False
  then have n: "nat (- k) < 20" "length powers_of_10_64 = 20" using assms by (simp_all add: powers_of_10_64_def)
  have "(10 :: nat) ^ nat (- k) \<le> 10 ^ 19" using n(1) by (intro power_increasing) simp_all
  then have "(10 :: nat) ^ nat (- k) < 2 ^ 64" by simp
  then have "unat (powers_of_10_64 ! nat (- k)) = unat (of_nat (pos_unit k) :: u64)"
    unfolding pos_unit_def by (simp only: powers_of_10_nth [OF n(1)] unat_of_nat64)
  then have "powers_of_10_64 ! nat (- k) = of_nat (pos_unit k)" by (simp only: word_unat_eq_iff)
  then show ?thesis using False n by (simp add: digit_unit_def)
qed (simp add: digit_unit_def pos_simps(1))

lemma digits_nat_map_snoc: "digits_nat ds = P \<Longrightarrow> digits_nat (ds @ [c]) = 10 * P + c"
  by simp

lemma of_nat_le64: "a < 2 ^ 64 \<Longrightarrow> b < 2 ^ 64 \<Longrightarrow> (of_nat a :: u64) \<le> of_nat b \<longleftrightarrow> a \<le> b"
  by (simp only: word_le_nat_alt unat_of_nat64)

lemma shortest_step:
  assumes "shortest_inv T err diff sh n P (k + 1) h" "q \<le> 9" "at_position T sh k (10 * P + q) s"
  shows "\<exists>r h'. shortest_digit h (digit_char q) (of_nat (pos_divisor sh k)) (of_nat s) (of_nat (err * pos_unit k)) k (0 \<le> k) = Some (r, h')
    \<and> (if r = Digits_more then shortest_inv T err diff sh n (10 * P + q) k h' \<and> (k \<le> 0 \<longrightarrow> 10 * (err * pos_unit k) < 2 ^ 64 \<and> - 19 < k)
       else shortest_result T err sh n r k h')"
proof -
  obtain ds s' where side: "shortest_side T err diff sh n" and h: "sh_diff h = of_nat diff" "k + 1 \<le> int n"
    "sh_buf h = map digit_char ds" "digits_nat ds = P" "list_all (\<lambda>c. c \<le> 9) ds" "int (length ds) = int n - (k + 1)"
    "at_position T sh (k + 1) P s'" "ds \<noteq> [] \<longrightarrow> err * pos_unit (k + 1) \<le> s' \<and> 0 < P \<and> hd ds \<noteq> 0"
    using assms(1) by (auto simp: shortest_inv_def)
  define D E u where "D = pos_divisor sh k" and "E = err * pos_unit k" and "u = pos_unit k"
  have c: "k + 1 = int n \<and> P = 0 \<or> err * pos_unit (k + 1) \<le> s'" "ds = [] \<longrightarrow> k + 1 = int n \<and> P = 0"
    using h(4,6,8) by (cases ds; simp)+
  note b = shortest_bounds [OF side h(2,7) c(1) assms(3), folded D_def E_def]
  have s: "s < D" "T * u = (10 * P + q) * D + s" using assms(3) by (simp_all add: at_position_def D_def u_def)
  have k: "int (length ds + 1) = int n - k" using h(6) by simp
  show ?thesis
  proof (cases "E \<le> s")
    case True
    define h' where "h' = h\<lparr>sh_buf := sh_buf h @ [digit_char q]\<rparr>"
    have "(of_nat E :: u64) \<le> of_nat s" using True s(1) b(1,2) by (subst of_nat_le64) simp_all
    then have d: "shortest_digit h (digit_char q) (of_nat D) (of_nat s) (of_nat E) k (0 \<le> k) = Some (Digits_more, h')"
      by (simp add: shortest_digit_def h'_def)
    have ne: "0 < 10 * P + q" "hd (ds @ [q]) \<noteq> 0" using b(5) c(2) h(8) by (cases ds; simp)+
    have "shortest_inv T err diff sh n (10 * P + q) k h'"
      unfolding shortest_inv_def
    proof (intro conjI exI [of _ "ds @ [q]"] exI [of _ s])
      show "sh_buf h' = map digit_char (ds @ [q])" by (simp add: h'_def h(3))
      show "ds @ [q] \<noteq> [] \<longrightarrow> err * pos_unit k \<le> s \<and> 0 < 10 * P + q \<and> hd (ds @ [q]) \<noteq> 0" using True ne by (simp add: E_def)
    qed (use side h k assms(2,3) in \<open>simp_all add: h'_def\<close>)
    moreover have "10 * E < 2 ^ 64" if "k \<le> 0"
    proof -
      have "sh \<le> 60" using side by (simp add: shortest_side_def)
      then have "(2 :: nat) ^ sh \<le> 2 ^ 60" by (intro power_increasing) simp_all
      moreover have "D = 2 ^ sh" using that by (simp add: D_def pos_simps(2))
      ultimately show ?thesis using True s(1) by simp
    qed
    ultimately show ?thesis using d b(4) unfolding D_def E_def by auto
  next
    case False
    have D0: "0 < D" by (simp add: D_def)
    have lt: "(of_nat E \<le> (of_nat s :: u64)) = False" using False s(1) b(1,2) by (subst of_nat_le64) simp_all
    have "s \<le> E" using False by simp
    from round_loop_spec [OF this b(1) D0 b(2) assms(2) b(3)] obtain t where
      t: "round_loop ((of_nat diff - 1) * of_nat u) (of_nat D) (of_nat E) (digit_char q) (of_nat s) = Some (digit_char (q - t), of_nat (s + t * D))"
      "t \<le> q" "s + t * D \<le> E" by blast
    define x :: u64 where "x = of_nat (s + t * D)"
    define h' where "h' = h\<lparr>sh_buf := sh_buf h @ [digit_char (q - t)]\<rparr>"
    define up down where "up = (of_nat diff - 1) * (of_nat u :: u64)" and "down = (of_nat diff + 1) * (of_nat u :: u64)"
    have "shortest_digit h (digit_char q) (of_nat D) (of_nat s) (of_nat E) k (0 \<le> k) =
      Some (if x < down \<and> of_nat E - x \<ge> of_nat D \<and> (x + of_nat D < down \<or> down - x > x + of_nat D - down) then Digits_error
        else if 2 * of_nat u \<le> x \<and> x \<le> of_nat E - 4 * of_nat u then Digits_done else Digits_error, h')"
      by (simp only: shortest_digit_def h(1) lt if_False digit_unit_word [OF b(4)] u_def [symmetric] Option.bind.simps Let_def
          up_def [symmetric] down_def [symmetric] t(1) [folded up_def] option.map prod.case x_def [symmetric] h'_def [symmetric])
    then obtain r where r: "shortest_digit h (digit_char q) (of_nat D) (of_nat s) (of_nat E) k (0 \<le> k) = Some (r, h')"
      "r \<noteq> Digits_more" "r = Digits_done \<longrightarrow> 2 * of_nat u \<le> x \<and> x \<le> of_nat E - 4 * of_nat u"
      by (simp split: if_splits)
    have u16: "16 * u \<le> E" using side by (simp add: shortest_side_def E_def u_def)
    have dn: "2 * u \<le> s + t * D \<and> s + t * D + 4 * u \<le> E" if "r = Digits_done"
    proof -
      have "(of_nat (2 * u) :: u64) \<le> of_nat (s + t * D)" "(of_nat (s + t * D) :: u64) \<le> of_nat (E - 4 * u)"
        using r(3) that u16 by (simp_all add: x_def of_nat_diff)
      moreover have l: "2 * u < 2 ^ 64" "s + t * D < 2 ^ 64" "E - 4 * u < 2 ^ 64" using t(3) b(1) u16 by linarith+
      ultimately have "2 * u \<le> s + t * D" "s + t * D \<le> E - 4 * u"
        using of_nat_le64 [OF l(1,2)] of_nat_le64 [OF l(2,3)] by blast+
      then show ?thesis using u16 by linarith
    qed
    have "10 * P + q = (10 * P + (q - t)) + t" using t(2) by simp
    then have "(10 * P + q) * D = (10 * P + (q - t)) * D + t * D" by (metis distrib_right)
    then have eq: "T * u = digits_nat (ds @ [q - t]) * D + (s + t * D)" using s(2) h(4) by simp
    have "hd (ds @ [q - t]) \<noteq> 0"
    proof (cases ds)
      case Nil
      then have "E < q * D + s" using b(5) c(2) by simp
      then have "t * D < q * D" using t(3) by linarith
      then show ?thesis using Nil by simp
    qed (use h(8) in simp)
    then have "shortest_result T err sh n r k h'"
      unfolding shortest_result_def
      using h(3,5) k assms(2) eq dn by (intro exI [of _ "ds @ [q - t]"] exI [of _ "s + t * D"]) (simp add: h'_def u_def D_def E_def)
    then show ?thesis using r(1,2) unfolding D_def E_def by auto
  qed
qed

interpretation shortest: digit_handler shortest_digit sh T err "shortest_inv T err diff sh n" "shortest_result T err sh n"
  for sh T err diff n :: nat
  by unfold_locales (rule shortest_step)

end
