(* ===== verification/Fmt_Roundtrip.thy ===== *)
theory Fmt_Roundtrip imports Fmt_Shortest begin

text \<open>
  \<open>format_float\<close> without a precision (spdlog/fmt/bundled/format-inl.h): the scaled boundaries, the result of Grisu and
  the estimate of the exponent with which it falls back to the exact conversion.
\<close>

section \<open>Scaling\<close>

text \<open>The scaled value of a significand \<open>x\<close> at exponent \<open>e\<close>, in units of the product.\<close>

definition scale :: "int \<Rightarrow> nat \<Rightarrow> real" where
  "scale k sh = 10 powi k * 2 ^ sh"

lemma scale_pos: "0 < scale k sh"
  by (simp add: scale_def)

lemma scaled_product:
  assumes "\<bar>real (unat (fp_f c)) * 2 powi fp_e c - 10 powi k\<bar> \<le> 2 powi fp_e c / 2" "e + fp_e c + 64 = - int sh"
  shows "\<bar>real (unat (multiply128 x (fp_f c))) - real (unat x) * 2 powi e * scale k sh\<bar> < 1"
proof -
  define C where "C = (2 :: real) powi fp_e c"
  define F where "F = real (unat (fp_f c))"
  have C: "0 < C" by (simp add: C_def)
  define g where "g = 10 powi k / C"
  have "(F - g) * C = F * C - 10 powi k" using C by (simp add: g_def left_diff_distrib)
  then have "\<bar>F - g\<bar> * C = \<bar>F * C - 10 powi k\<bar>" using C by (metis abs_mult abs_of_pos)
  also have "\<dots> \<le> 1 / 2 * C" using assms(1) by (simp add: F_def C_def)
  finally have "\<bar>F - g\<bar> \<le> 1 / 2" using C by (rule mult_right_le_imp_le)
  then have b: "\<bar>real (unat (multiply128 x (fp_f c))) - real (unat x) * g / 2 ^ 64\<bar> < 1"
    unfolding F_def by (rule product_accurate)
  have "e = - int sh - 64 - fp_e c" using assms(2) by simp
  then have "(2 :: real) powi e = 2 powi (- int sh) / 2 powi 64 / C" by (simp add: power_int_diff C_def)
  then have "2 powi e * scale k sh = 10 powi k / 2 ^ 64 / C" by (simp add: scale_def power_int_minus field_simps)
  then have "real (unat x) * g / 2 ^ 64 = real (unat x) * 2 powi e * scale k sh" by (simp add: g_def mult.assoc)
  with b show ?thesis by (simp only:)
qed

lemma scale_unit:
  assumes "\<bar>real (unat (fp_f c)) * 2 powi fp_e c - 10 powi k\<bar> \<le> 2 powi fp_e c / 2" "e + fp_e c + 64 = - int sh"
    and "2 ^ 63 \<le> unat (fp_f c)"
  shows "1 / 4 \<le> 2 powi e * scale k sh"
proof -
  define C where "C = (2 :: real) powi fp_e c"
  have C: "0 < C" by (simp add: C_def)
  have "real (2 ^ 63) \<le> real (unat (fp_f c))" using assms(3) by (simp only: of_nat_le_iff)
  then have le: "2 ^ 63 * C \<le> real (unat (fp_f c)) * C" using C by (intro mult_right_mono) simp_all
  define G where "G = real (unat (fp_f c)) * C"
  have "G - 10 powi k \<le> C / 2" using assms(1) unfolding C_def [symmetric] G_def by linarith
  moreover have "2 * (2 ^ 62 * C) \<le> G" using le unfolding G_def by simp
  moreover have "C / 2 \<le> 2 ^ 62 * C" using C by simp
  ultimately have "2 ^ 62 * C \<le> 10 powi k" by linarith
  moreover have "e = - int sh - 64 - fp_e c" using assms(2) by simp
  then have "(2 :: real) powi e = 2 powi (- int sh) / 2 powi 64 / C" by (simp add: power_int_diff C_def)
  then have "2 powi e * scale k sh = 10 powi k / C / 2 ^ 64" by (simp add: scale_def power_int_minus field_simps)
  moreover have "2 ^ 62 \<le> 10 powi k / C" using calculation(1) C by (simp add: le_divide_eq)
  ultimately show ?thesis by simp
qed

lemma product_lower:
  assumes "2 ^ i \<le> unat x" "2 ^ 63 \<le> unat c" "1 \<le> i"
  shows "2 ^ (i - 1) \<le> unat (multiply128 x c)"
proof -
  have "(2 :: nat) ^ i * 2 ^ 63 \<le> unat x * unat c" using assms(1,2) by (rule mult_le_mono)
  also have "(2 :: nat) ^ i * 2 ^ 63 = 2 ^ (i - 1) * 2 ^ 64" using assms(3) by (cases i) simp_all
  finally have "2 ^ (i - 1) * 2 ^ 64 \<le> unat x * unat c + 2 ^ 63" by simp
  then have "2 ^ (i - 1) \<le> (unat x * unat c + 2 ^ 63) div 2 ^ 64" by (simp add: less_eq_div_iff_mult_less_eq)
  then show ?thesis by (simp only: multiply128_nat rounded_product_def)
qed

lemma product_upper: "unat (multiply128 x c) \<le> 2 ^ 64 - 2"
proof -
  have "unat x \<le> 2 ^ 64 - 1" "unat c \<le> 2 ^ 64 - 1" using u64_bound [of x] u64_bound [of c] by simp_all
  then have "unat x * unat c \<le> (2 ^ 64 - 1) * (2 ^ 64 - 1)" by (rule mult_le_mono)
  then have "unat x * unat c + 2 ^ 63 < (2 ^ 64 - 1) * 2 ^ 64" by simp
  then have "(unat x * unat c + 2 ^ 63) div 2 ^ 64 < 2 ^ 64 - 1" by (rule less_mult_imp_div_less)
  then show ?thesis unfolding multiply128_nat rounded_product_def by linarith
qed

lemma gap_half: "\<not> is_zero d \<Longrightarrow> lower_gap d \<le> double_value d / 2"
proof -
  assume z: "\<not> is_zero d"
  define P where "P = (2 :: real) powi fp_e (double_fp d)"
  have P: "0 < P" by (simp add: P_def)
  have "1 \<le> unat (fp_f (double_fp d))" using double_f_pos [OF z] by simp
  then have "real 1 \<le> real (unat (fp_f (double_fp d)))" by (simp only: of_nat_le_iff)
  then have "1 * P \<le> double_value d" unfolding double_value_def fp_real_def P_def [symmetric] using P by (intro mult_right_mono) simp_all
  moreover have "lower_gap d \<le> P / 2" using P by (simp add: lower_gap_def P_def power_int_diff)
  ultimately show ?thesis by simp
qed

lemma scaled_boundaries:
  assumes "\<not> is_zero d" "fp_e (double_fp d) \<le> 971"
  obtains w b c ck sh where "fp_normalize 0 (double_fp d) = Some w" "assign_with_boundaries d = Some (double_fp d, b)"
    "get_cached_power (- 60 - (fp_e w + 64)) = Some (c, ck)" "fp_e w + fp_e c + 64 = - int sh" "32 \<le> sh" "sh \<le> 60"
    "- 348 \<le> ck" "ck \<le> 340"
    "\<bar>real (unat (multiply128 (fp_f w) (fp_f c))) - double_value d * scale ck sh\<bar> < 1"
    "\<bar>real (unat (multiply128 (upper_bound b) (fp_f c))) - (double_value d + upper_gap d) * scale ck sh\<bar> < 1"
    "\<bar>real (unat (multiply128 (lower_bound b) (fp_f c))) - (double_value d - lower_gap d) * scale ck sh\<bar> < 1"
    "2 ^ 62 \<le> unat (multiply128 (upper_bound b) (fp_f c))" "2 ^ 61 \<le> unat (multiply128 (lower_bound b) (fp_f c))"
    "128 \<le> lower_gap d * scale ck sh" "256 \<le> upper_gap d * scale ck sh" "2 ^ 62 \<le> unat (multiply128 (fp_f w) (fp_f c))"
proof -
  from midpoints_real [OF assms(1)] obtain w b a where
    w: "fp_normalize 0 (double_fp d) = Some w" "fp_e w = fp_e (double_fp d) - int a" "11 \<le> a" "a \<le> 63"
    "2 ^ 63 \<le> unat (fp_f w)" "assign_with_boundaries d = Some (double_fp d, b)"
    "real (unat (fp_f w)) * 2 powi fp_e w = double_value d"
    "real (unat (upper_bound b)) * 2 powi fp_e w = double_value d + upper_gap d"
    "real (unat (lower_bound b)) * 2 powi fp_e w = double_value d - lower_gap d" by metis
  define m where "m = - 60 - (fp_e w + 64)"
  have "- 1084 \<le> m" "m \<le> 1013" using w(2-4) assms(2) double_e_range [of d] by (simp_all add: m_def)
  from cached_power_spec [OF this] obtain c ck where c: "get_cached_power m = Some (c, ck)" "m \<le> fp_e c" "fp_e c \<le> m + 28"
    "2 ^ 63 \<le> unat (fp_f c)" "\<bar>real (unat (fp_f c)) * 2 powi fp_e c - 10 powi ck\<bar> \<le> 2 powi fp_e c / 2"
    "- 348 \<le> ck" "ck \<le> 340" by blast
  define sh where "sh = nat (- (fp_e w + fp_e c + 64))"
  have sh: "fp_e w + fp_e c + 64 = - int sh" "32 \<le> sh" "sh \<le> 60" using c(2,3) by (simp_all add: sh_def m_def)
  define P where "P = (2 :: real) powi fp_e w"
  have P: "0 < P" by (simp add: P_def)
  have u: "1 / 4 \<le> P * scale ck sh" unfolding P_def using c(5) sh(1) c(4) by (rule scale_unit)
  have e: "(2 :: real) powi fp_e (double_fp d) = P * 2 ^ a" unfolding P_def w(2) by (simp add: power_int_diff)
  have "(2 :: real) ^ 11 \<le> 2 ^ a" using w(3) by (intro power_increasing) simp_all
  then have "2 ^ 11 * (1 / 4) \<le> 2 ^ a * (P * scale ck sh)" using u by (intro mult_mono) simp_all
  then have big: "2 ^ 9 \<le> P * 2 ^ a * scale ck sh" by (simp add: ac_simps)
  have gaps: "upper_gap d = P * 2 ^ a / 2" "P * 2 ^ a / 4 \<le> lower_gap d"
    using P by (simp_all add: upper_gap_def lower_gap_def e power_int_diff)
  have g1: "256 \<le> upper_gap d * scale ck sh" unfolding gaps(1) using big by simp
  have "P * 2 ^ a / 4 * scale ck sh \<le> lower_gap d * scale ck sh" using gaps(2) scale_pos [of ck sh] by (intro mult_right_mono) simp_all
  then have g2: "128 \<le> lower_gap d * scale ck sh" using big by simp
  have "2 ^ 63 \<le> unat (upper_bound b)"
  proof -
    have "real (unat (fp_f w)) * P \<le> real (unat (upper_bound b)) * P" using w(7,8) by (simp add: P_def upper_gap_def)
    then have "real (unat (fp_f w)) \<le> real (unat (upper_bound b))" using P by (rule mult_right_le_imp_le)
    then have "unat (fp_f w) \<le> unat (upper_bound b)" by (simp only: of_nat_le_iff)
    then show ?thesis using w(5) by linarith
  qed
  from product_lower [OF this c(4)] have U: "2 ^ 62 \<le> unat (multiply128 (upper_bound b) (fp_f c))" by simp
  have "2 ^ 62 \<le> unat (lower_bound b)"
  proof -
    have "real (unat (fp_f w)) * P \<le> 2 * (real (unat (lower_bound b)) * P)"
      using gap_half [OF assms(1)] w(7,9) by (simp add: P_def)
    then have "real (unat (fp_f w)) * P \<le> real (2 * unat (lower_bound b)) * P" by simp
    then have "real (unat (fp_f w)) \<le> real (2 * unat (lower_bound b))" using P by (rule mult_right_le_imp_le)
    then have "unat (fp_f w) \<le> 2 * unat (lower_bound b)" by (simp only: of_nat_le_iff)
    then show ?thesis using w(5) by simp
  qed
  from product_lower [OF this c(4)] have L: "2 ^ 61 \<le> unat (multiply128 (lower_bound b) (fp_f c))" by simp
  from product_lower [OF w(5) c(4)] have W: "2 ^ 62 \<le> unat (multiply128 (fp_f w) (fp_f c))" by simp
  note sp = scaled_product [OF c(5) sh(1)]
  show ?thesis
    by (rule that [OF w(1,6) c(1) [unfolded m_def] sh c(6,7)])
      (use sp [of "fp_f w"] sp [of "upper_bound b"] sp [of "lower_bound b"] U L g1 g2 W in \<open>simp_all only: w(7-9)\<close>)
qed

section \<open>The shortest representation\<close>

lemma finite_e: "is_finite d \<Longrightarrow> fp_e (double_fp d) \<le> 971"
  using biased_exponent_range [of d] by (auto simp: fp_assign_cases(2) is_finite_def)

text \<open>What a result of Grisu means, back in the scale of the number.\<close>

lemma grisu_decimal:
  assumes "T * pos_unit k = N * pos_divisor sh k + s" "2 * pos_unit k \<le> s" "s + 4 * pos_unit k \<le> err * pos_unit k"
    and "real T - 2 < hi * scale ck sh" "lo * scale ck sh < real T - real err + 4"
  shows "lo < real N * 10 powi (k - ck)" "real N * 10 powi (k - ck) < hi"
proof -
  define u where "u = real (pos_unit k)"
  have u: "0 < u" by (simp add: u_def)
  have d: "real (pos_divisor sh k) = 10 powi k * 2 ^ sh * u"
    by (cases "0 \<le> k") (simp_all add: u_def pos_divisor_def pos_unit_def power_int_def field_simps)
  define y where "y = real N * 10 powi (k - ck)"
  have y: "real N * real (pos_divisor sh k) = y * scale ck sh * u"
    by (simp add: d y_def scale_def power_int_diff)
  have "real (T * pos_unit k) = real (N * pos_divisor sh k + s)" "real (2 * pos_unit k) \<le> real s"
    "real (s + 4 * pos_unit k) \<le> real (err * pos_unit k)" using assms(1-3) by (simp_all only: of_nat_le_iff)
  then have r: "real T * u = y * scale ck sh * u + real s" "2 * u \<le> real s" "real s + 4 * u \<le> real err * u"
    by (simp_all only: of_nat_mult of_nat_add of_nat_numeral u_def [symmetric] y)
  have "y * scale ck sh * u \<le> (real T - 2) * u" "(real T - real err + 4) * u \<le> y * scale ck sh * u"
    using r by (simp_all add: algebra_simps)
  then have "y * scale ck sh \<le> real T - 2" "real T - real err + 4 \<le> y * scale ck sh" using u by simp_all
  then have "y * scale ck sh < hi * scale ck sh" "lo * scale ck sh < y * scale ck sh" using assms(4,5) by linarith+
  then show "lo < real N * 10 powi (k - ck)" "real N * 10 powi (k - ck) < hi"
    unfolding y_def using scale_pos [of ck sh] by simp_all
qed

lemma shortest_digits_cases:
  assumes "\<not> is_zero d" "is_finite d"
  obtains (grisu) ds e where "shortest_digits False d = Some (e, map digit_char ds)" "list_all (\<lambda>c. c \<le> 9) ds" "ds \<noteq> []" "hd ds \<noteq> 0"
      "double_value d - lower_gap d < decimal_value ds e" "decimal_value ds e < double_value d + upper_gap d"
  | (exact) x where "shortest_digits False d = fallback_format d x" "\<bar>x\<bar> < 1000" "double_value d + upper_gap d < 10 powi (x + 1)"
proof -
  from scaled_boundaries [OF assms(1) finite_e [OF assms(2)]] obtain w b c ck sh where
    w: "fp_normalize 0 (double_fp d) = Some w" "assign_with_boundaries d = Some (double_fp d, b)"
    "get_cached_power (- 60 - (fp_e w + 64)) = Some (c, ck)" "fp_e w + fp_e c + 64 = - int sh" "32 \<le> sh" "sh \<le> 60"
    "- 348 \<le> ck" "ck \<le> 340"
    "\<bar>real (unat (multiply128 (fp_f w) (fp_f c))) - double_value d * scale ck sh\<bar> < 1"
    "\<bar>real (unat (multiply128 (upper_bound b) (fp_f c))) - (double_value d + upper_gap d) * scale ck sh\<bar> < 1"
    "\<bar>real (unat (multiply128 (lower_bound b) (fp_f c))) - (double_value d - lower_gap d) * scale ck sh\<bar> < 1"
    "2 ^ 62 \<le> unat (multiply128 (upper_bound b) (fp_f c))" "2 ^ 61 \<le> unat (multiply128 (lower_bound b) (fp_f c))"
    "128 \<le> lower_gap d * scale ck sh" "256 \<le> upper_gap d * scale ck sh" by metis
  define W U L where "W = unat (multiply128 (fp_f w) (fp_f c))" and "U = unat (multiply128 (upper_bound b) (fp_f c))"
    and "L = unat (multiply128 (lower_bound b) (fp_f c))"
  have sc: "(x + y) * scale ck sh = x * scale ck sh + y * scale ck sh" "(x - y) * scale ck sh = x * scale ck sh - y * scale ck sh" for x y
    by (simp_all add: algebra_simps)
  have r: "\<bar>real W - double_value d * scale ck sh\<bar> < 1" "\<bar>real U - (double_value d + upper_gap d) * scale ck sh\<bar> < 1"
    "\<bar>real L - (double_value d - lower_gap d) * scale ck sh\<bar> < 1" using w(9-11) by (simp_all only: W_def U_def L_def)
  then have "real L + 126 < real W" "real W + 254 < real U" unfolding sc using w(14,15) by linarith+
  then have lwu: "L + 126 < W" "W + 254 < U" by linarith+
  have U: "2 ^ 62 \<le> U" "U \<le> 2 ^ 64 - 2" and L: "2 ^ 61 \<le> L" using w(12,13) product_upper by (simp_all only: U_def L_def)
  define T err diff where "T = U + 1" and "err = U - L + 2" and "diff = U + 1 - W"
  let ?upper = "multiply128 (upper_bound b) (fp_f c) + 1" and ?lower = "multiply128 (lower_bound b) (fp_f c) - 1"
  have T: "unat ?upper = T" using U(2) by (simp add: T_def U_def unat_word_ariths)
  have word: "?upper = of_nat T" "?upper - ?lower = of_nat err" "?upper - multiply128 (fp_f w) (fp_f c) = of_nat diff"
  proof -
    have m: "multiply128 (upper_bound b) (fp_f c) = of_nat U" "multiply128 (lower_bound b) (fp_f c) = of_nat L"
      "multiply128 (fp_f w) (fp_f c) = of_nat W" by (simp_all add: U_def L_def W_def)
    show "?upper = of_nat T" "?upper - ?lower = of_nat err" "?upper - multiply128 (fp_f w) (fp_f c) = of_nat diff"
      unfolding m T_def err_def diff_def using lwu by (simp_all add: of_nat_diff)
  qed
  define v where "v = make_fp ?upper (- int sh)"
  have v: "unat (fp_f v) = T" "fp_e v = - int sh" using T by (simp_all add: v_def make_fp_def)
  have "(2 :: nat) ^ sh \<le> 2 ^ 60" using w(6) by (intro power_increasing) simp_all
  then have T2: "2 ^ sh \<le> T" using U(1) by (simp add: T_def)
  note io = integral_of_spec [OF v w(5,6) T2]
  define n where "n = grisu_count_digits (integral_of v)"
  let ?h = "\<lparr>sh_buf = [], sh_diff = ?upper - multiply128 (fp_f w) (fp_f c)\<rparr>"
  have side: "shortest_side T err diff sh n"
  proof -
    have "2 \<le> L" using L by simp
    then have "err < T \<and> 16 \<le> err \<and> 0 < diff \<and> diff < err" using lwu unfolding T_def err_def diff_def by arith
    moreover have "T < 2 ^ 64" using U(2) by (simp add: T_def)
    ultimately show ?thesis unfolding shortest_side_def n_def using io(4-7) w(5,6) by blast
  qed
  have inv: "shortest_inv T err diff sh n 0 (int n) ?h"
    unfolding shortest_inv_def
    using side io(7) by (intro conjI exI [of _ "[]"] exI [of _ T]) (simp_all add: word(3) at_position_def pos_simps(1) pos_divisor_def n_def)
  have "shortest_start ?h (push_bit sh (powers_of_10_64 ! (n - 1))) (fp_f v div 10) (of_nat err * 10) (int n) = Some (Digits_more, ?h)"
    by (simp add: shortest_start_def)
  from shortest.gen_digits_spec [OF v w(5,6) T2, folded n_def, where on_start = shortest_start and err = err
      and h = ?h and ?h1.0 = ?h and diff = diff and n = n, OF this inv] obtain r k h' where
    g: "grisu_gen_digits shortest_start shortest_digit v (of_nat err) ?h = Some (r, k, h')" "r \<noteq> Digits_more"
    "shortest_result T err sh n r k h'" by blast
  then obtain ds s where ds: "sh_buf h' = map digit_char ds" "ds \<noteq> []" "hd ds \<noteq> 0" "list_all (\<lambda>c. c \<le> 9) ds"
    "int (length ds) = int n - k" "T * pos_unit k = digits_nat ds * pos_divisor sh k + s"
    "r = Digits_done \<longrightarrow> 2 * pos_unit k \<le> s \<and> s + 4 * pos_unit k \<le> err * pos_unit k" by (auto simp: shortest_result_def)
  have m: "fp_mult w c = make_fp (multiply128 (fp_f w) (fp_f c)) (- int sh)" using w(4) by (simp add: fp_mult_def)
  have e: "shortest_digits False d = (if r = Digits_error then fallback_format d (k + int (length (sh_buf h')) - ck - 1)
      else Some (k - ck, sh_buf h'))"
  proof -
    have "(\<not> (- 60 \<le> - int sh \<and> - int sh \<le> - 32)) = False" using w(5,6) by simp
    moreover have "fp_f (make_fp x y) = x" "fp_e (make_fp x y) = y" for x y by (simp_all add: make_fp_def)
    ultimately show ?thesis
      by (simp only: shortest_digits_def if_False w(1-3) Option.bind.simps prod.case Let_def m v_def [symmetric] word(2) g(1))
  qed
  show ?thesis
  proof (cases "r = Digits_error")
    case True
    define x where "x = int n - ck - 1"
    have "k + int (length (sh_buf h')) - ck - 1 = x" using ds(1,5) by (simp add: x_def)
    then have "shortest_digits False d = fallback_format d x" unfolding e using True by simp
    moreover have "\<bar>x\<bar> < 1000" using io(4,5) w(7,8) by (simp add: x_def n_def)
    moreover have "double_value d + upper_gap d < 10 powi (x + 1)"
    proof -
      have "real T < real (10 ^ n * 2 ^ sh)" using io(7) unfolding n_def by (simp only: of_nat_less_iff)
      then have "(double_value d + upper_gap d) * scale ck sh < 10 ^ n * 2 ^ sh" using r(2) by (simp add: T_def)
      also have "(10 :: real) ^ n * 2 ^ sh = 10 powi (x + 1) * scale ck sh" by (simp add: scale_def x_def power_int_diff)
      finally show ?thesis using scale_pos [of ck sh] by simp
    qed
    ultimately show ?thesis by (rule exact)
  next
    case False
    then have "r = Digits_done" using g(2) by (cases r) simp_all
    then have b: "2 * pos_unit k \<le> s" "s + 4 * pos_unit k \<le> err * pos_unit k" using ds(7) by simp_all
    have "real T - 2 < (double_value d + upper_gap d) * scale ck sh" using r(2) by (simp add: T_def)
    moreover have "real L \<le> real U" using lwu by simp
    then have "(double_value d - lower_gap d) * scale ck sh < real T - real err + 4"
      using r(3) lwu by (simp add: T_def err_def of_nat_diff)
    ultimately have "double_value d - lower_gap d < decimal_value ds (k - ck)" "decimal_value ds (k - ck) < double_value d + upper_gap d"
      using grisu_decimal [OF ds(6) b] by (simp_all add: decimal_value_def)
    moreover have "shortest_digits False d = Some (k - ck, map digit_char ds)" using e False ds(1) by simp
    ultimately show ?thesis using ds(2-4) by (intro grisu)
  qed
qed

end
