(* ===== verification/Fmt_Text.thy ===== *)
theory Fmt_Text imports Fmt_Roundtrip begin

text \<open>
  The text of a floating-point number (\<open>float_writer\<close> of spdlog/fmt/bundled/format.h): a reader of decimal numbers,
  and that reading the text gives the number that the digits and the exponent denote.
\<close>

section \<open>Reading a decimal number\<close>

definition read_digits :: "string \<Rightarrow> nat" where
  "read_digits s = foldl (\<lambda>v c. 10 * v + digit_value c) 0 s"

definition read_mantissa :: "string \<Rightarrow> real" where
  "read_mantissa s =
     (let front = takeWhile (\<lambda>c. c \<noteq> CHR ''.'') s; fraction = drop 1 (dropWhile (\<lambda>c. c \<noteq> CHR ''.'') s) in
      real (read_digits (front @ fraction)) / 10 ^ length fraction)"

definition read_exponent :: "string \<Rightarrow> int" where
  "read_exponent s =
     (case s of [] \<Rightarrow> 0 | c # ds \<Rightarrow> if c = CHR ''-'' then - int (read_digits ds) else int (read_digits ds))"

definition in_mantissa :: "char \<Rightarrow> bool" where
  "in_mantissa c \<longleftrightarrow> c \<noteq> CHR ''e'' \<and> c \<noteq> CHR ''E''"

definition read_decimal :: "string \<Rightarrow> real" where
  "read_decimal s =
     (let mantissa = takeWhile in_mantissa s; exponent = drop 1 (dropWhile in_mantissa s) in
      read_mantissa mantissa * 10 powi read_exponent exponent)"

section \<open>Digits\<close>

lemma digit_value_char [simp]: "d \<le> 9 \<Longrightarrow> digit_value (digit_char d) = d"
  by (simp add: digit_value_def digit_char_def)

lemma digit_char_other:
  assumes "d \<le> 9"
  shows "digit_char d \<noteq> CHR ''.'' \<and> in_mantissa (digit_char d)"
proof -
  have "list_all (\<lambda>d. digit_char d \<noteq> CHR ''.'' \<and> in_mantissa (digit_char d)) [0..<10]" by code_simp
  then show ?thesis using assms unfolding list_all_iff by simp
qed

lemma zero_char: "digit_char 0 = CHR ''0''"
  by code_simp

lemma foldl_read: "foldl (\<lambda>v c. 10 * v + digit_value c) v s = v * 10 ^ length s + foldl (\<lambda>v c. 10 * v + digit_value c) 0 s"
proof (induction s arbitrary: v)
  case (Cons c s)
  show ?case unfolding foldl_Cons Cons [of "10 * v + digit_value c"] Cons [of "10 * 0 + digit_value c"] by (simp add: algebra_simps)
qed simp

lemma read_digits_append: "read_digits (s @ t) = read_digits s * 10 ^ length t + read_digits t"
  using foldl_read [of "read_digits s" t] by (simp add: read_digits_def)

lemma read_digits_simps [simp]: "read_digits [] = 0" "read_digits (replicate n (CHR ''0'')) = 0"
proof -
  show "read_digits (replicate n (CHR ''0'')) = 0"
    by (induction n) (simp_all add: read_digits_def digit_value_def)
qed (simp add: read_digits_def)

lemma read_digits_map: "list_all (\<lambda>d. d \<le> 9) ds \<Longrightarrow> read_digits (map digit_char ds) = digits_nat ds"
  by (induction ds rule: rev_induct) (simp_all add: read_digits_append, simp_all add: read_digits_def)

definition numeral_text :: "string \<Rightarrow> bool" where
  "numeral_text s \<longleftrightarrow> (\<forall>c \<in> set s. c \<noteq> CHR ''.'' \<and> in_mantissa c)"

lemma numeral_text_simps [simp]:
  "numeral_text []" "numeral_text (s @ t) \<longleftrightarrow> numeral_text s \<and> numeral_text t" "numeral_text (zeros n)" "numeral_text (CHR ''0'' # s) \<longleftrightarrow> numeral_text s"
  by (auto simp: numeral_text_def zeros_def in_mantissa_def)

lemma numeral_text_map: "list_all (\<lambda>d. d \<le> 9) ds \<Longrightarrow> numeral_text (map digit_char ds)"
  using digit_char_other by (auto simp: numeral_text_def list_all_iff)

lemma numeral_text_sub: "numeral_text s \<Longrightarrow> set t \<subseteq> set s \<Longrightarrow> numeral_text t"
  by (auto simp: numeral_text_def)

lemma numeral_take_drop: "numeral_text s \<Longrightarrow> numeral_text (take k s) \<and> numeral_text (drop k s)"
  by (auto simp: numeral_text_def dest: in_set_takeD in_set_dropD)

lemma take_until:
  "list_all P s \<Longrightarrow> takeWhile P s = s" "list_all P s \<Longrightarrow> dropWhile P s = []"
  "list_all P s \<Longrightarrow> \<not> P x \<Longrightarrow> takeWhile P (s @ x # t) = s" "list_all P s \<Longrightarrow> \<not> P x \<Longrightarrow> dropWhile P (s @ x # t) = x # t"
  by (induction s) auto

lemma numeral_no: "numeral_text s \<Longrightarrow> list_all in_mantissa s" "numeral_text s \<Longrightarrow> list_all (\<lambda>c. c \<noteq> CHR ''.'') s"
  by (auto simp: numeral_text_def list_all_iff)

text \<open>The three shapes of the text.\<close>

lemma read_mantissa_plain: "numeral_text s \<Longrightarrow> read_mantissa s = real (read_digits s)"
  using numeral_no(2) [of s] by (simp add: read_mantissa_def take_until)

lemma read_mantissa_point:
  "numeral_text s \<Longrightarrow> numeral_text t \<Longrightarrow> read_mantissa (s @ CHR ''.'' # t) = real (read_digits (s @ t)) / 10 ^ length t"
  using numeral_no(2) [of s] by (simp add: read_mantissa_def take_until)

lemma read_decimal_mantissa: "list_all in_mantissa s \<Longrightarrow> read_decimal s = read_mantissa s"
  by (simp add: read_decimal_def read_exponent_def take_until)

lemma read_decimal_exponent:
  "list_all in_mantissa s \<Longrightarrow> \<not> in_mantissa c \<Longrightarrow> read_decimal (s @ c # t) = read_mantissa s * 10 powi read_exponent t"
  by (simp add: read_decimal_def take_until)

text \<open>Trailing zeros of a fraction do not count.\<close>

lemma strip_zeros_split: "\<exists>n. s = strip_zeros s @ replicate n (CHR ''0'')"
proof -
  define r where "r = takeWhile (\<lambda>c. c = CHR ''0'') (rev s)"
  have "r = replicate (length r) (CHR ''0'')" unfolding r_def by (induction "rev s" arbitrary: s) (auto simp: Let_def intro!: replicate_eqI dest: set_takeWhileD)
  moreover have "rev s = r @ dropWhile (\<lambda>c. c = CHR ''0'') (rev s)" by (simp add: r_def)
  then have "s = strip_zeros s @ rev r" by (metis rev_append rev_rev_ident strip_zeros_def)
  ultimately show ?thesis by (metis rev_replicate)
qed

lemma read_trailing_zeros:
  "real (read_digits (s @ t @ replicate n (CHR ''0''))) / 10 ^ length (t @ replicate n (CHR ''0''))
    = real (read_digits (s @ t)) / 10 ^ length t"
  by (simp add: read_digits_append power_add field_simps)

lemma numeral_strip: "numeral_text r \<Longrightarrow> numeral_text (strip_zeros r)"
  by (rule numeral_text_sub [of r]) (auto simp: strip_zeros_def dest: set_dropWhileD)

lemma read_fraction:
  assumes "numeral_text s" "numeral_text t"
  shows "read_decimal (s @ CHR ''.'' # t) = real (read_digits (s @ t)) / 10 ^ length t"
proof -
  have "list_all in_mantissa (s @ CHR ''.'' # t)" using numeral_no(1) [OF assms(1)] numeral_no(1) [OF assms(2)]
    by (simp add: in_mantissa_def)
  from read_decimal_mantissa [OF this] read_mantissa_point [OF assms] show ?thesis by (rule trans)
qed

lemma read_whole: "numeral_text s \<Longrightarrow> read_decimal s = real (read_digits s)"
  by (simp add: read_decimal_mantissa numeral_no read_mantissa_plain)

lemma read_fraction_zeros:
  assumes "numeral_text s" "numeral_text t"
  shows "read_decimal (s @ CHR ''.'' # t @ zeros m) = real (read_digits (s @ t)) / 10 ^ length t"
proof -
  have "numeral_text (t @ zeros m)" using assms(2) by simp
  from read_fraction [OF assms(1) this] show ?thesis unfolding zeros_def by (simp only: read_trailing_zeros)
qed

lemma read_fraction_strip:
  assumes "numeral_text s" "numeral_text t"
  shows "read_decimal (s @ CHR ''.'' # strip_zeros t) = real (read_digits (s @ t)) / 10 ^ length t"
proof -
  obtain n where t: "t = strip_zeros t @ replicate n (CHR ''0'')" using strip_zeros_split by blast
  have "real (read_digits (s @ t)) / 10 ^ length t = real (read_digits (s @ strip_zeros t)) / 10 ^ length (strip_zeros t)"
    using read_trailing_zeros [of s "strip_zeros t" n] unfolding t [symmetric] .
  then show ?thesis using read_fraction [OF assms(1) numeral_strip [OF assms(2)]] by (simp only:)
qed

lemma read_empty_fraction:
  assumes "numeral_text s" "numeral_text t" "strip_zeros t = []"
  shows "read_decimal s = real (read_digits (s @ t)) / 10 ^ length t"
proof -
  obtain n where "t = strip_zeros t @ replicate n (CHR ''0'')" using strip_zeros_split by blast
  then have "t = replicate n (CHR ''0'')" using assms(3) by simp
  then show ?thesis using read_whole [OF assms(1)] by (simp add: read_digits_append)
qed

section \<open>float_writer\<close>

lemma read_digits_Cons: "read_digits (c # s) = digit_value c * 10 ^ length s + read_digits s"
  using read_digits_append [of "[c]" s] by (simp add: read_digits_def)

lemma write_exponent_reads:
  assumes "- 10000 < x" "x < 10000"
  obtains t where "write_exponent x = Some t" "read_exponent t = x"
proof -
  define e where "e = nat \<bar>x\<bar>"
  have e: "e < 10000" "int e = \<bar>x\<bar>" using assms by (simp_all add: e_def)
  define ds where "ds = (if e \<ge> 100 then (if e \<ge> 1000 then [digit_pair (e div 100) ! 0] else []) @ [digit_pair (e div 100) ! 1] else [])
    @ digit_pair (e mod 100)"
  define h where "h = e div 100"
  have d: "e = h * 100 + e mod 100" "h < 100" "e mod 100 < 100" using e(1) by (simp_all add: h_def)
  have two: "digit_value (digit_char (a div 10)) * 10 + digit_value (digit_char (a mod 10)) = a" if "a < 100" for a
    using that by (simp add: digit_value_char less_mult_imp_div_less)
  have "read_digits ds = e"
  proof -
    consider "h = 0" | "0 < h" "h < 10" | "10 \<le> h" by linarith
    then show ?thesis
    proof cases
      case 1
      then have "\<not> 100 \<le> e" "e mod 100 = e" using d by auto
      then show ?thesis using two [OF d(3)] by (simp add: ds_def digit_pair_def read_digits_Cons)
    next
      case 2
      then have "100 \<le> e" "\<not> 1000 \<le> e" using d by auto
      then show ?thesis using two [OF d(3)] 2 d(1) by (simp add: ds_def digit_pair_def read_digits_Cons h_def [symmetric])
    next
      case 3
      then have "100 \<le> e" "1000 \<le> e" using d by auto
      then show ?thesis using two [OF d(3)] two [OF d(2)] d(1)
        by (simp add: ds_def digit_pair_def read_digits_Cons h_def [symmetric])
    qed
  qed
  then have "read_exponent ((if x < 0 then ''-'' else ''+'') @ ds) = x" using e(2) by (simp add: read_exponent_def)
  moreover have "write_exponent x = Some ((if x < 0 then ''-'' else ''+'') @ ds)"
    using assms by (simp add: write_exponent_def Let_def ds_def e_def)
  ultimately show ?thesis by (intro that)
qed

lemma digits_power:
  assumes "int k = - e"
  shows "real n / 10 ^ k = real n * 10 powi e"
proof -
  have "e = - int k" using assms by simp
  then show ?thesis by (simp add: power_int_minus field_simps)
qed

text \<open>The text in exponent notation, and without.\<close>

lemma prettify_exp_reads:
  assumes "list_all (\<lambda>d. d \<le> 9) ds" "ds \<noteq> []" "fs_format specs = Exp_format"
    and "- 10000 < int (length ds) + e - 1" "int (length ds) + e - 1 < 10000"
  shows "\<exists>t. prettify (map digit_char ds) e specs (CHR ''.'') = Some t \<and> read_decimal t = decimal_value ds e"
proof -
  let ?D = "map digit_char ds"
  define x where "x = int (length ds) + e - 1"
  obtain xt where xt: "write_exponent x = Some xt" "read_exponent xt = x"
    using assms(4,5) write_exponent_reads [of x] unfolding x_def by blast
  define pt zs where "pt = (if int (length ds) > 1 \<or> fs_showpoint specs then [CHR ''.''] else [])"
    and "zs = (if fs_showpoint specs then zeros (fs_precision specs - int (length ds)) else [])"
  define E where "E = (if fs_upper specs then CHR ''E'' else CHR ''e'')"
  have E: "\<not> in_mantissa E" by (simp add: E_def in_mantissa_def)
  define M where "M = take 1 ?D @ pt @ drop 1 ?D @ zs"
  have t: "prettify ?D e specs (CHR ''.'') = Some (M @ E # xt)"
    using assms(2,3) xt(1) by (simp add: prettify_def Let_def x_def pt_def zs_def M_def E_def)
  have num: "numeral_text ?D" using assms(1) by (rule numeral_text_map)
  have nt: "numeral_text (take 1 ?D)" "numeral_text (drop 1 ?D)" "numeral_text zs"
    using numeral_take_drop [OF num, of 1] by (simp_all only: zs_def numeral_text_simps simp_thms split: if_split)
  have e: "list_all in_mantissa M" unfolding M_def pt_def using nt numeral_no(1) by (simp add: in_mantissa_def)
  have Dv: "read_digits (take 1 ?D @ drop 1 ?D) = digits_nat ds"
    unfolding append_take_drop_id using assms(1) by (rule read_digits_map)
  have "read_mantissa M = real (digits_nat ds) / 10 ^ (length ds - 1)"
  proof (cases "int (length ds) > 1 \<or> fs_showpoint specs")
    case True
    have "zs = zeros (if fs_showpoint specs then fs_precision specs - int (length ds) else 0)"
      by (simp add: zs_def zeros_def)
    then obtain m where m: "zs = zeros m" by blast
    have "read_mantissa M = read_decimal M" using e by (rule read_decimal_mantissa [symmetric])
    also have "\<dots> = read_decimal (take 1 ?D @ CHR ''.'' # drop 1 ?D @ zeros m)" using True by (simp add: M_def pt_def m)
    also have "read_decimal (take 1 ?D @ CHR ''.'' # drop 1 ?D @ zeros m) = real (digits_nat ds) / 10 ^ length (drop 1 ?D)"
      using read_fraction_zeros [OF nt(1,2)] by (simp only: Dv)
    also have "\<dots> = real (digits_nat ds) / 10 ^ (length ds - 1)" by simp
    finally show ?thesis .
  next
    case False
    then have "length ds = 1" using assms(2) by (cases ds) auto
    then have "M = ?D" using False by (simp add: M_def pt_def zs_def)
    then show ?thesis using read_mantissa_plain [OF num] read_digits_map [OF assms(1)] \<open>length ds = 1\<close> by simp
  qed
  then have "read_decimal (M @ E # xt) = real (digits_nat ds) / 10 ^ (length ds - 1) * 10 powi x"
    using read_decimal_exponent [OF e E, of xt] xt(2) by simp
  also have "x = e + int (length ds - 1)" using assms(2) by (cases ds) (simp_all add: x_def)
  also have "real (digits_nat ds) / 10 ^ (length ds - 1) * 10 powi (e + int (length ds - 1)) = decimal_value ds e"
    by (simp add: decimal_value_def power_int_add)
  finally show ?thesis using t by blast
qed

lemma prettify_fixed_reads:
  assumes "list_all (\<lambda>d. d \<le> 9) ds" "fs_format specs \<noteq> Exp_format"
  shows "\<exists>t. prettify (map digit_char ds) e specs (CHR ''.'') = Some t \<and> read_decimal t = decimal_value ds e"
proof -
  let ?D = "map digit_char ds"
  define n full where "n = int (length ds)" and "full = n + e"
  have num: "numeral_text ?D" using assms(1) by (rule numeral_text_map)
  have Dv: "read_digits ?D = digits_nat ds" using assms(1) by (rule read_digits_map)
  consider (whole) "n \<le> full" | (mid) "full < n" "0 < full" | (small) "full < n" "full \<le> 0" by linarith
  then show ?thesis
  proof cases
    case whole
    then have e: "0 \<le> e" by (simp add: full_def)
    define S where "S = ?D @ zeros e"
    have S: "numeral_text S" using num by (simp only: S_def numeral_text_simps simp_thms)
    have S2: "real (read_digits S) = decimal_value ds e"
      using e by (simp add: S_def zeros_def read_digits_append Dv decimal_value_def power_int_def)
    have p: "prettify ?D e specs (CHR ''.'') = Some (S @ (if fs_showpoint specs \<or> fs_precision specs < 0 then
               [CHR ''.''] @ (if fs_precision specs - full \<le> 0
                          then (if fs_format specs \<noteq> Fixed_format then ''0'' else [])
                          else zeros (fs_precision specs - full)) else []))"
      using assms(2) whole by (simp add: prettify_def Let_def n_def full_def S_def)
    have z: "read_decimal (S @ [CHR ''.''] @ zeros m) = decimal_value ds e" for m
      using read_fraction_zeros [OF S, of "[]" m] S2 by simp
    have "''0'' = zeros 1" by (simp add: zeros_def)
    moreover have "read_decimal (S @ ''.'') = decimal_value ds e" using z [of 0] by (simp add: zeros_def)
    moreover note z [of 1]
    ultimately
    show ?thesis using p z S2 read_whole [OF S] by (auto split: if_splits)
  next
    case mid
    define k where "k = nat full"
    have k: "k \<le> length ds" "int (length ds - k) = - e" using mid by (auto simp: k_def n_def full_def)
    have nt: "numeral_text (take k ?D)" "numeral_text (drop k ?D)"
      using numeral_take_drop [OF num, of k] by simp_all
    have v: "real (read_digits (take k ?D @ drop k ?D)) / 10 ^ length (drop k ?D) = decimal_value ds e"
      unfolding append_take_drop_id Dv decimal_value_def using digits_power [OF k(2)] by simp
    have p: "prettify ?D e specs (CHR ''.'') = Some (if \<not> fs_showpoint specs
         then take k ?D @ (if strip_zeros (drop k ?D) \<noteq> [] then [CHR ''.''] else []) @ strip_zeros (drop k ?D)
         else take k ?D @ [CHR ''.''] @ drop k ?D @ zeros (fs_precision specs - n))"
      using assms(2) mid by (simp add: prettify_def Let_def n_def full_def k_def)
    show ?thesis
    proof (cases "fs_showpoint specs")
      case True
      then show ?thesis using p read_fraction_zeros [OF nt, of "fs_precision specs - n"] v by simp
    next
      case False
      show ?thesis
      proof (cases "strip_zeros (drop k ?D) = []")
        case True
        then show ?thesis using p False read_empty_fraction [OF nt True] v by simp
      next
        case ne: False
        then show ?thesis using p False read_fraction_strip [OF nt] v by simp
      qed
    qed
  next
    case small
    define nz where "nz = (if ?D = [] \<and> fs_precision specs \<ge> 0 \<and> fs_precision specs < - full then fs_precision specs else - full)"
    define d1 where "d1 = (if fs_showpoint specs then ?D else strip_zeros ?D)"
    have p: "prettify ?D e specs (CHR ''.'') = Some (''0'' @ (if nz \<noteq> 0 \<or> d1 \<noteq> [] \<or> fs_showpoint specs
                        then [CHR ''.''] @ zeros nz @ d1 else []))"
      using assms(2) small by (simp add: prettify_def Let_def n_def full_def nz_def d1_def)
    have "\<exists>j. ?D = d1 @ replicate j (CHR ''0'')"
      using strip_zeros_split [of ?D] by (cases "fs_showpoint specs") (auto simp: d1_def intro: exI [of _ 0])
    then obtain j where j: "?D = d1 @ replicate j (CHR ''0'')" by blast
    have nz0: "0 \<le> nz" using small by (simp add: nz_def)
    have val: "real (read_digits (''0'' @ zeros nz @ d1)) / 10 ^ length (zeros nz @ d1) = decimal_value ds e"
    proof (cases "ds = []")
      case True
      then have "d1 = []" using j by simp
      then show ?thesis using True read_digits_simps(2) [of "Suc (nat nz)"] by (simp add: decimal_value_def zeros_def)
    next
      case False
      then have nz: "int (nat nz + length ds) = - e" using nz0 by (simp add: nz_def full_def n_def)
      have "real (read_digits (''0'' @ zeros nz @ d1)) / 10 ^ length (zeros nz @ d1)
          = real (read_digits (''0'' @ (zeros nz @ d1) @ replicate j (CHR ''0''))) / 10 ^ length ((zeros nz @ d1) @ replicate j (CHR ''0''))"
        by (rule read_trailing_zeros [symmetric])
      also have "\<dots> = real (read_digits (''0'' @ zeros nz @ ?D)) / 10 ^ length (zeros nz @ ?D)" by (simp only: j append_assoc)
      also have "\<dots> = real (digits_nat ds) / 10 ^ (nat nz + length ds)"
        using read_digits_simps(2) [of "Suc (nat nz)"] by (simp add: zeros_def read_digits_append Dv read_digits_Cons digit_value_def)
      also have "\<dots> = decimal_value ds e" unfolding decimal_value_def using nz by (rule digits_power)
      finally show ?thesis .
    qed
    have n0: "numeral_text ''0''" "numeral_text (zeros nz @ d1)"
      using num numeral_strip [OF num] by (simp_all add: d1_def)
    show ?thesis
    proof (cases "nz \<noteq> 0 \<or> d1 \<noteq> [] \<or> fs_showpoint specs")
      case True
      then show ?thesis using p read_fraction [OF n0] val by simp
    next
      case False
      then have "zeros nz @ d1 = []" by (simp add: zeros_def)
      then show ?thesis using p False val read_whole [OF n0(1)] by simp
    qed
  qed
qed

end
