(* ===== verification/Fmt_Reads.thy ===== *)
theory Fmt_Reads imports Fmt_Text Fmt_Write begin

text \<open>
  A \<open>double\<close> written and read again: the text of \<open>float_writer\<close> denotes its digits and its exponent, and the default text
  of a \<open>double\<close> is read as the same \<open>double\<close>.
\<close>

section \<open>Sizes\<close>

lemma powers_two_ten:
  assumes "0 \<le> i" "i < j"
  shows "(2 :: real) powi i < 10 powi j" "(10 :: real) powi (- j) < 2 powi (- i)"
proof -
  have "(2 :: real) ^ nat i \<le> 10 ^ nat i" by (intro power_mono) simp_all
  also have "(10 :: real) ^ nat i < 10 ^ nat j" using assms by (intro power_strict_increasing) simp_all
  finally show l: "(2 :: real) powi i < 10 powi j" using assms by (simp add: power_int_def)
  then show "(10 :: real) powi (- j) < 2 powi (- i)" unfolding power_int_minus by (intro less_imp_inverse_less) simp_all
qed

lemma leading_exponent:
  assumes "list_all (\<lambda>c. c \<le> 9) ds" "ds \<noteq> []" "hd ds \<noteq> 0" "2 powi (- 1076) \<le> decimal_value ds e" "decimal_value ds e \<le> 2 powi 1026"
  shows "- 1100 < int (length ds) + e - 1 \<and> int (length ds) + e - 1 < 1100"
proof -
  define x where "x = int (length ds) + e - 1"
  have p: "(10 :: real) ^ j * 10 powi e = 10 powi (int j + e)" for j by (simp add: power_int_add)
  have "real (digits_nat ds) < real (10 ^ length ds)" using digits_nat_upper [OF assms(1)] by (simp only: of_nat_less_iff)
  then have "decimal_value ds e < 10 ^ length ds * 10 powi e" unfolding decimal_value_def by simp
  also have "\<dots> = 10 powi (x + 1)" by (simp add: p x_def)
  finally have u: "decimal_value ds e < 10 powi (x + 1)" .
  have "real (10 ^ (length ds - 1)) \<le> real (digits_nat ds)" using digits_nat_lower [OF assms(2,3)] by (simp only: of_nat_le_iff)
  then have "10 ^ (length ds - 1) * 10 powi e \<le> decimal_value ds e" unfolding decimal_value_def by simp
  also have "10 ^ (length ds - 1) * 10 powi e = (10 :: real) powi x" unfolding p x_def using assms(2) by (cases ds) simp_all
  finally have l: "10 powi x \<le> decimal_value ds e" .
  have "x < 1100"
  proof (rule ccontr)
    assume "\<not> x < 1100"
    then have "(10 :: real) powi 1100 \<le> 10 powi x" by (intro power_int_increasing) simp_all
    moreover have "(2 :: real) powi 1026 < 10 powi 1100" by (intro powers_two_ten) simp_all
    ultimately show False using l assms(5) by linarith
  qed
  moreover have "- 1100 < x"
  proof (rule ccontr)
    assume "\<not> - 1100 < x"
    then have "(10 :: real) powi (x + 1) \<le> 10 powi (- 1099)" by (intro power_int_increasing) simp_all
    moreover have "(10 :: real) powi (- 1099) < 2 powi (- 1076)" by (intro powers_two_ten) simp_all
    ultimately show False using u assms(4) by linarith
  qed
  ultimately show ?thesis by (simp add: x_def)
qed

lemma double_value_range:
  assumes "\<not> is_zero d"
  shows "2 powi (- 1074) \<le> double_value d" "double_value d < 2 powi 1025"
proof -
  define e where "e = fp_e (double_fp d)"
  have e: "- 1074 \<le> e" "e \<le> 972" using double_e_range [of d] by (simp_all add: e_def)
  have f: "1 \<le> unat (fp_f (double_fp d))" "unat (fp_f (double_fp d)) < 2 ^ 53"
    using double_f_pos [OF assms] double_f_bound [of d] by simp_all
  have "real 1 \<le> real (unat (fp_f (double_fp d)))" using f(1) by (simp only: of_nat_le_iff)
  then have "1 * 2 powi (- 1074) \<le> double_value d" unfolding double_value_def fp_real_def e_def [symmetric]
    using e(1) by (intro mult_mono power_int_increasing) simp_all
  then show "2 powi (- 1074) \<le> double_value d" by simp
  have "real (unat (fp_f (double_fp d))) < real (2 ^ 53)" using f(2) by (simp only: of_nat_less_iff)
  then have "double_value d < real (2 ^ 53) * 2 powi e" unfolding double_value_def fp_real_def e_def [symmetric]
    by (rule mult_strict_right_mono) simp
  also have "\<dots> \<le> real (2 ^ 53) * 2 powi 972" using e(2) by (intro mult_left_mono power_int_increasing) simp_all
  also have "\<dots> = 2 powi 1025" by (simp add: power_int_def)
  finally show "double_value d < 2 powi 1025" .
qed

lemma read_value_range:
  assumes "\<not> is_zero d" "double_value d - lower_gap d \<le> y" "y \<le> double_value d + upper_gap d"
  shows "2 powi (- 1076) \<le> y" "y \<le> 2 powi 1026"
proof -
  note v = double_value_range [OF assms(1)]
  have "lower_gap d \<le> double_value d / 2" using assms(1) by (rule gap_half)
  then have "double_value d / 2 \<le> y" using assms(2) by linarith
  moreover have "(2 :: real) powi (- 1076) \<le> 2 powi (- 1074) / 2"
    using power_int_add [of "2 :: real" "- 1076" 2] by simp
  ultimately show "2 powi (- 1076) \<le> y" using v(1) by linarith
  have "upper_gap d \<le> 2 powi 972" unfolding upper_gap_def using double_e_range [of d] by (intro power_int_increasing) simp_all
  moreover have "(2 :: real) powi 972 + 2 powi 1025 \<le> 2 powi 1026" by (simp add: power_int_def)
  ultimately show "y \<le> 2 powi 1026" using v(2) assms(3) by linarith
qed

section \<open>The shortest digits\<close>

lemma shortest_digits_round:
  assumes "\<not> is_zero d" "is_finite d" "\<not> (closer d \<and> 0 \<le> fp_e (double_fp d))"
  obtains ds e where "shortest_digits False d = Some (e, map digit_char ds)" "list_all (\<lambda>c. c \<le> 9) ds" "ds \<noteq> []"
    "rounds_to d (decimal_value ds e)" "- 1100 < int (length ds) + e - 1" "int (length ds) + e - 1 < 1100"
proof (cases rule: shortest_digits_cases [OF assms(1,2)])
  case (1 ds e)
  note grisu = 1
  have r: "2 powi (- 1076) \<le> decimal_value ds e" "decimal_value ds e \<le> 2 powi 1026"
    using read_value_range [OF assms(1)] grisu(5,6) by simp_all
  show ?thesis using that [OF grisu(1-3)] leading_exponent [OF grisu(2-4) r] grisu(5,6) by (simp add: rounds_to_def)
next
  case (2 x)
  note exact = 2
  have t: "twice d = 1" using assms(3) by (simp add: twice_def)
  have "twice d * (double_value d + upper_gap d) < 10 powi (x + 1)" "\<bar>x\<bar> < 2 ^ 30" using exact(2,3) by (simp_all add: t)
  with fallback_format_prints [OF assms(1)] obtain ds where
    ds: "fallback_format d x = Some (x - int (length ds - 1), map digit_char ds)" "prints_between d x ds" by metis
  define e where "e = x - int (length ds - 1)"
  have p: "ds \<noteq> []" "list_all (\<lambda>c. c \<le> 9) ds" "rounds_to d (decimal_value ds e)"
    using ds(2) unfolding prints_between_def Let_def t mult_1_left rounds_to_def e_def by blast+
  have "int (length ds) + e - 1 = x" using p(1) by (cases ds) (simp_all add: e_def)
  then show ?thesis using that [of e ds] exact(1,2) ds(1) p by (simp add: e_def)
qed

lemma zero_rounds:
  assumes "is_zero d"
  shows "rounds_to d 0"
proof -
  have "unat d mod 2 ^ 63 = 0" using assms by (simp add: is_zero_bits)
  then have "unat d mod 2 ^ 52 = 0" unfolding magnitude_split by simp
  then have "unat (fp_f (double_fp d)) = 0" using zero_exponent [OF assms] by (simp add: fp_assign_cases(1))
  then show ?thesis by (simp add: rounds_to_def double_value_def fp_real_def lower_gap_def upper_gap_def)
qed

lemma format_float_round:
  assumes "is_finite d" "\<not> sign_bit d" "\<not> (closer d \<and> 0 \<le> fp_e (double_fp d))"
    and "precision < 0" "fs_use_grisu specs" "\<not> fs_binary32 specs"
  obtains ds e where "format_float sn d precision specs = Some (e, map digit_char ds)" "list_all (\<lambda>c. c \<le> 9) ds" "ds \<noteq> []"
    "rounds_to d (decimal_value ds e)" "- 1100 < int (length ds) + e - 1" "int (length ds) + e - 1 < 1100"
proof (cases "is_zero d")
  case True
  have "format_float sn d precision specs = Some (0, map digit_char [0])"
    using True assms(2,4) by (simp add: format_float_def Let_def zero_char)
  then show ?thesis using that [of 0 "[0]"] zero_rounds [OF True] by (simp add: decimal_value_def)
next
  case False
  have "format_float sn d precision specs = shortest_digits False d"
    using False assms by (simp add: format_float_def Let_def)
  then show ?thesis using shortest_digits_round [OF False assms(1,3)] that by metis
qed

section \<open>The sign\<close>

lemma unat_flip: "unat (flip d) mod 2 ^ 63 = unat d mod 2 ^ 63"
proof -
  have "take_bit 63 (flip d) = take_bit 63 d" by (simp add: flip_def take_bit_xor take_bit_push_bit)
  then show ?thesis by (metis unat_take)
qed

lemma sign_flip: "sign_bit (flip d) \<longleftrightarrow> \<not> sign_bit d"
proof -
  have s: "sign_bit x \<longleftrightarrow> bit x 63" for x :: u64
    unfolding sign_bit_def push_bit_of_1 and_exp_eq_0_iff_not_bit by simp
  show ?thesis by (simp add: s flip_def bit_simps)
qed

lemma flip_parts:
  "double_fp (flip d) = double_fp d" "closer (flip d) \<longleftrightarrow> closer d" "is_finite (flip d) \<longleftrightarrow> is_finite d"
proof -
  have low: "unat (flip d) mod 2 ^ 52 = unat d mod 2 ^ 52" using arg_cong [OF unat_flip, of "\<lambda>x. x mod 2 ^ 52" d] by (simp add: mod_mod_cancel)
  have part: "(x :: nat) div 2 ^ 52 mod 2 ^ 11 = x mod 2 ^ 63 div 2 ^ 52" for x
    using div_exp_mod_exp_eq [of x 52 11] by simp
  have b: "biased_exponent (flip d) = biased_exponent d" by (simp only: biased_exponent_bits part unat_flip)
  show "is_finite (flip d) \<longleftrightarrow> is_finite d" by (simp add: is_finite_def b)
  show "closer (flip d) \<longleftrightarrow> closer d" by (simp only: fp_assign_cases(3) low b)
  have "fp_e (double_fp (flip d)) = fp_e (double_fp d)" by (simp only: fp_assign_cases(2) b)
  moreover have "fp_f (double_fp (flip d)) = fp_f (double_fp d)"
    by (simp only: word_unat_eq_iff fp_assign_cases(1) low b)
  ultimately show "double_fp (flip d) = double_fp d" by simp
qed

lemma rounds_flip: "rounds_to (flip d) y \<longleftrightarrow> rounds_to d y"
  by (simp only: rounds_to_def double_value_def lower_gap_def upper_gap_def flip_parts)

section \<open>The text\<close>

lemma prettify_reads:
  assumes "list_all (\<lambda>d. d \<le> 9) ds" "ds \<noteq> [] \<or> fs_format specs \<noteq> Exp_format"
    and "- 10000 < int (length ds) + e - 1" "int (length ds) + e - 1 < 10000"
  shows "\<exists>t. prettify (map digit_char ds) e specs (CHR ''.'') = Some t \<and> read_decimal t = decimal_value ds e"
  using prettify_exp_reads prettify_fixed_reads assms by (cases "fs_format specs = Exp_format") blast+

lemma float_writer_reads:
  assumes "list_all (\<lambda>d. d \<le> 9) ds" "ds \<noteq> [] \<or> fs_format specs = Fixed_format"
    and "- 10000 < int (length ds) + e - 1" "int (length ds) + e - 1 < 10000"
  obtains t where "float_writer (map digit_char ds) e specs (CHR ''.'') = Some (sign_text (fs_sign specs) @ t)"
    "read_decimal t = decimal_value ds e"
proof -
  define full_exp prec where "full_exp = int (length ds) + e - 1" and "prec = (if fs_precision specs > 0 then fs_precision specs else 16)"
  define specs1 where "specs1 = (if fs_format specs = General_format \<and> \<not> (full_exp \<ge> - 4 \<and> full_exp < prec)
                    then specs\<lparr>fs_format := Exp_format\<rparr> else specs)"
  have "ds \<noteq> [] \<or> fs_format specs1 \<noteq> Exp_format" using assms(2) by (auto simp: specs1_def)
  from prettify_reads [OF assms(1) this assms(3,4)] obtain t where
    t: "prettify (map digit_char ds) e specs1 (CHR ''.'') = Some t" "read_decimal t = decimal_value ds e" by blast
  have "float_writer (map digit_char ds) e specs (CHR ''.'') = Some (sign_text (fs_sign specs) @ t)"
    using t(1) by (simp add: float_writer_def Let_def full_exp_def specs1_def prec_def)
  then show ?thesis using t(2) that by blast
qed

text \<open>
  C30 [roundtrip] The text that float_writer makes denotes the number it is given: for digits, a decimal exponent and any
  presentation (general, exponent or fixed, either case, with or without forced point, any precision), what follows the sign
  reads as digits * 10^exponent.  Padding zeros, the point inside the digits, leading zeros and stripped trailing
  zeros change nothing.  The exponent has at most four digits, as the code asserts.
\<close>

theorem float_writer_denotes:
  assumes "list_all (\<lambda>d. d \<le> 9) ds" "ds \<noteq> [] \<or> fs_format specs = Fixed_format"
    and "- 10000 < int (length ds) + e - 1" "int (length ds) + e - 1 < 10000"
  shows "\<exists>t. float_writer (map digit_char ds) e specs (CHR ''.'') = Some (sign_text (fs_sign specs) @ t)
    \<and> read_decimal t = real (digits_nat ds) * 10 powi e"
  using float_writer_reads [OF assms] unfolding decimal_value_def by metis

theorem float_writer_denotes_witness:
  "\<exists>t. float_writer ''1250'' (- 6) (default_float_specs\<lparr>fs_sign := Sign_plus\<rparr>) (CHR ''.'') = Some (''+'' @ t)
    \<and> read_decimal t = 1250 * 10 powi (- 6)"
proof -
  have "map digit_char [1, 2, 5, 0] = ''1250''" by code_simp
  moreover have "sign_text Sign_plus = ''+''" by code_simp
  ultimately show ?thesis
    using float_writer_denotes [of "[1, 2, 5, 0]" "default_float_specs\<lparr>fs_sign := Sign_plus\<rparr>" "- 6"] by simp
qed

lemma double_default_text:
  assumes "is_finite d" "\<not> (closer d \<and> 0 \<le> fp_e (double_fp d))"
  shows "\<exists>t. write_default loc (Double_arg d) = Some (Inr ((if sign_bit d then ''-'' else []) @ t)) \<and> rounds_to d (read_decimal t)"
proof -
  define v where "v = (if sign_bit d then flip d else d)"
  define fs where "fs = default_float_specs\<lparr>fs_sign := if sign_bit d then Sign_minus else Sign_none, fs_binary32 := False, fs_use_grisu := True\<rparr>"
  have v: "is_finite v" "\<not> sign_bit v" "\<not> (closer v \<and> 0 \<le> fp_e (double_fp v))" "rounds_to v y \<longleftrightarrow> rounds_to d y" for y
    using assms by (simp_all add: v_def flip_parts sign_flip rounds_flip)
  have "(- 1 :: int) < 0" "fs_use_grisu fs" "\<not> fs_binary32 fs" by (simp_all add: fs_def)
  from format_float_round [OF v(1-3) this, of "c_snprintf loc"] obtain ds e where
    ds: "format_float (c_snprintf loc) v (- 1) fs = Some (e, map digit_char ds)" "list_all (\<lambda>c. c \<le> 9) ds" "ds \<noteq> []"
    "rounds_to v (decimal_value ds e)" "- 1100 < int (length ds) + e - 1" "int (length ds) + e - 1 < 1100" by blast
  from float_writer_reads [OF ds(2), of "fs\<lparr>fs_precision := - 1\<rparr>" e] ds(3,5,6) obtain t where
    t: "float_writer (map digit_char ds) e (fs\<lparr>fs_precision := - 1\<rparr>) (CHR ''.'') = Some (sign_text (fs_sign fs) @ t)"
    "read_decimal t = decimal_value ds e" by auto
  have "write_default loc (Double_arg d) = Some (Inr (sign_text (fs_sign fs) @ t))"
    using ds(1) t(1) v(1) by (simp add: write_float_default_def Let_def v_def [symmetric] fs_def)
  moreover have "sign_text (fs_sign fs) = (if sign_bit d then ''-'' else [])" by (simp add: fs_def sign_text_def sign_char_def)
  ultimately show ?thesis using ds(4) t(2) v(4) by auto
qed

text \<open>
  C22 [roundtrip] A double printed with an empty replacement field is read back: the text of a finite double is its sign, then a
  decimal number that every reader that rounds to nearest-even takes for the same double (zeros and
  denormal numbers included).  Excluded are the powers of two from 2^52 on, for which the exact conversion, when it is
  needed, doubles the number.
\<close>

theorem double_text_reads_back:
  assumes "is_finite d" "\<not> (closer d \<and> 0 \<le> fp_e (double_fp d))"
  shows "\<exists>t. write_default loc (Double_arg d) = Some (Inr ((if sign_bit d then ''-'' else []) @ t)) \<and> rounds_to d (read_decimal t)"
  using assms by (rule double_default_text)

theorem double_text_reads_back_witness:
  "\<exists>t. write_default (fmt_locale.make [] (CHR '','') (CHR ''.'') (\<lambda>n f p d. (0, []))) (Double_arg 0xBFB999999999999A)
      = Some (Inr (''-'' @ t)) \<and> rounds_to 0xBFB999999999999A (read_decimal t)"
proof -
  have "is_finite 0xBFB999999999999A" "\<not> closer 0xBFB999999999999A" "sign_bit 0xBFB999999999999A" by code_simp+
  with double_text_reads_back [of "0xBFB999999999999A" "fmt_locale.make [] (CHR '','') (CHR ''.'') (\<lambda>n f p d. (0, []))"]
  show ?thesis by simp
qed

end
