(* ===== verification/Fmt_Types.thy ===== *)
theory Fmt_Types imports Fmt_Theorems Fmt_Reads begin

text \<open>
  Which specifiers an argument admits, and that exactly the format strings that respect this are formatted without an
  error (spdlog/fmt/bundled/format.h).
\<close>

section \<open>One argument\<close>

text \<open>
  The presentation types of an integer; \<open>L\<close> in a locale that does not group digits.
\<close>

definition int_presentation :: "fmt_locale \<Rightarrow> char \<Rightarrow> bool" where
  "int_presentation loc t \<longleftrightarrow> t = CHR 0x00 \<or> t \<in> set ''dxXbBoc'' \<or> (t = CHR ''L'' \<and> grouping loc = [])"

fun admits :: "fmt_locale \<Rightarrow> fmt_arg \<Rightarrow> format_specs \<Rightarrow> bool" where
  "admits loc (Bool_arg b) sp \<longleftrightarrow> int_presentation loc (spec_type sp)"
| "admits loc (Char_arg c) sp \<longleftrightarrow>
     (if spec_type sp = CHR 0x00 \<or> spec_type sp = CHR ''c''
      then spec_align sp \<noteq> Align_numeric \<and> spec_sign sp = Sign_none \<and> \<not> spec_alt sp
      else int_presentation loc (spec_type sp))"
| "admits loc (Cstring_arg p s) sp \<longleftrightarrow> spec_type sp = CHR ''p'' \<or> (spec_type sp = CHR 0x00 \<or> spec_type sp = CHR ''s'') \<and> p \<noteq> 0"
| "admits loc (String_arg s) sp \<longleftrightarrow> spec_type sp = CHR 0x00 \<or> spec_type sp = CHR ''s''"
| "admits loc (Pointer_arg p) sp \<longleftrightarrow> spec_type sp = CHR 0x00 \<or> spec_type sp = CHR ''p''"
| "admits loc a sp \<longleftrightarrow> int_presentation loc (spec_type sp)"

definition is_floating :: "fmt_arg \<Rightarrow> bool" where
  "is_floating a \<longleftrightarrow> type_of_arg a = Float_type \<or> type_of_arg a = Double_type"

definition succeeds :: "bool \<Rightarrow> 'a fmt_result \<Rightarrow> bool" where
  "succeeds ok r \<longleftrightarrow> (if ok then \<exists>x. r = fmt_ok x else \<exists>e. r = fmt_err e)"

lemma succeeds_simps [simp]: "succeeds ok (fmt_ok x) \<longleftrightarrow> ok" "succeeds ok (fmt_err e) \<longleftrightarrow> \<not> ok"
  by (auto simp: succeeds_def)

lemma integer_writers:
  "\<exists>t. on_dec v prefix specs = Some t" "\<exists>t. on_hex v prefix specs = Some t" "\<exists>t. on_bin v prefix specs = Some t"
  "\<exists>t. on_oct v prefix specs = Some t"
  by (simp_all add: on_dec_def on_hex_def on_bin_def on_oct_def Let_def write_int_def decimal_digits_count format_uint_count)

lemma handle_int_type_succeeds:
  assumes "spec_type sp = CHR ''L'' \<longrightarrow> grouping loc = []"
  shows "succeeds (int_presentation loc (spec_type sp)) (handle_int_type loc v prefix sp)"
proof -
  have num: "\<exists>t. on_num loc v prefix sp = Some t" if "grouping loc = []" using that integer_writers(1) by (simp add: on_num_def)
  have some: "succeeds True (map_option Inr r)" if "\<exists>t. r = Some t" for r :: "string option"
    using that by auto
  show ?thesis
    using assms integer_writers [of v prefix sp] num
    by (auto simp: handle_int_type_def int_presentation_def Let_def)
qed

lemma pointer_defined: "\<exists>t. pointer_text p = Some t"
  by (simp add: pointer_text_def format_uint_count)

lemma write_arg_succeeds:
  assumes "\<not> is_floating a" "spec_type sp = CHR ''L'' \<longrightarrow> grouping loc = []"
  shows "succeeds (admits loc a sp) (write_arg loc sp a)"
proof -
  note h = handle_int_type_succeeds [OF assms(2)]
  have ptr: "\<exists>t. write_ptr sp p = Some t" for p using pointer_defined [of p] by (auto simp: write_ptr_def)
  show ?thesis
  proof (cases a)
    case (Bool_arg b)
    then show ?thesis using h by (auto simp: write_integer_def int_presentation_def)
  next
    case (Char_arg c)
    then show ?thesis using h by (auto simp: write_integer_def handle_char_def)
  next
    case (Cstring_arg p s)
    then show ?thesis using ptr [of p] by auto
  next
    case (Pointer_arg p)
    then show ?thesis using ptr [of p] by auto
  qed (use h assms(1) in \<open>auto simp: write_integer_def is_floating_def\<close>)
qed

text \<open>The default form: only a null string is an error.\<close>

fun prints_default :: "fmt_arg \<Rightarrow> bool" where
  "prints_default (Cstring_arg p s) \<longleftrightarrow> p \<noteq> 0"
| "prints_default a \<longleftrightarrow> True"

definition known_default :: "fmt_arg \<Rightarrow> bool" where
  "known_default a \<longleftrightarrow> (case a of Float_arg x \<Rightarrow> False | Double_arg d \<Rightarrow> \<not> (closer d \<and> 0 \<le> fp_e (double_fp d)) | _ \<Rightarrow> True)"

lemma default_integer_succeeds: "succeeds True (default_integer negative v)"
  by (simp add: default_integer_def decimal_digits_count)

lemma write_default_succeeds:
  assumes "known_default a"
  shows "succeeds (prints_default a) (write_default loc a)"
proof (cases a)
  case (Double_arg d)
  show ?thesis
  proof (cases "is_finite d")
    case True
    have "\<not> (closer d \<and> 0 \<le> fp_e (double_fp d))" using assms Double_arg by (simp add: known_default_def)
    from double_default_text [OF True this, of loc] obtain t where "write_default loc a = fmt_ok t" unfolding Double_arg by blast
    then show ?thesis using Double_arg by simp
  next
    case False
    then show ?thesis using Double_arg by (simp add: write_float_default_def Let_def flip_parts)
  qed
next
  case (Pointer_arg p)
  then show ?thesis using pointer_defined [of p] by auto
qed (use assms default_integer_succeeds in \<open>auto simp: known_default_def\<close>)

section \<open>A format string\<close>

text \<open>The typing of the fields: the k-th field has an argument that admits what the field asks for.\<close>

fun well_typed :: "fmt_locale \<Rightarrow> fmt_args \<Rightarrow> nat \<Rightarrow> piece list \<Rightarrow> bool" where
  "well_typed loc args k [] \<longleftrightarrow> True"
| "well_typed loc args k (Lit s # ps) \<longleftrightarrow> well_typed loc args k ps"
| "well_typed loc args k (Field # ps) \<longleftrightarrow>
     k < length (arg_list args) \<and> prints_default (arg_list args ! k) \<and> well_typed loc args (Suc k) ps"
| "well_typed loc args k (Spec_field sp # ps) \<longleftrightarrow>
     k < length (arg_list args) \<and> admits loc (arg_list args ! k) sp \<and> well_typed loc args (Suc k) ps"

text \<open>The fields this is about: integers, characters, strings and pointers; of the floating-point numbers the default form.\<close>

fun typable :: "fmt_locale \<Rightarrow> fmt_args \<Rightarrow> nat \<Rightarrow> piece list \<Rightarrow> bool" where
  "typable loc args k [] \<longleftrightarrow> True"
| "typable loc args k (Lit s # ps) \<longleftrightarrow> typable loc args k ps"
| "typable loc args k (Field # ps) \<longleftrightarrow>
     (k < length (arg_list args) \<longrightarrow> known_default (arg_list args ! k)) \<and> typable loc args (Suc k) ps"
| "typable loc args k (Spec_field sp # ps) \<longleftrightarrow>
     (k < length (arg_list args) \<longrightarrow> \<not> is_floating (arg_list args ! k) \<and> (spec_type sp = CHR ''L'' \<longrightarrow> grouping loc = []))
     \<and> typable loc args (Suc k) ps"

lemma format_field_succeeds:
  assumes "snd st = int k" "k < length (arg_list args) \<longrightarrow> succeeds ok (w (arg_list args ! k))"
  shows "succeeds (k < length (arg_list args) \<and> ok) (format_field args w st)"
    and "format_field args w st = fmt_ok st1 \<Longrightarrow> snd st1 = int (Suc k)"
proof -
  have n: "next_arg_id (snd st) = fmt_ok (k, int k + 1)" by (simp add: next_arg_id_def assms(1))
  show "succeeds (k < length (arg_list args) \<and> ok) (format_field args w st)"
    using assms(2) by (auto simp: format_field_def n get_arg_def succeeds_def split: if_splits)
  show "format_field args w st = fmt_ok st1 \<Longrightarrow> snd st1 = int (Suc k)" by (rule format_field_count [OF _ assms(1)])
qed

lemma succeeds_bind:
  assumes "succeeds ok r" "\<And>x. r = fmt_ok x \<Longrightarrow> succeeds ok' (f x)"
  shows "succeeds (ok \<and> ok') (fmt_bind r f)"
  using assms by (cases ok; auto simp: succeeds_def; metis)

lemma format_pieces_succeeds:
  "typable loc args k ps \<Longrightarrow> snd st = int k \<Longrightarrow> succeeds (well_typed loc args k ps) (format_pieces loc args ps st)"
proof (induction loc args k ps arbitrary: st rule: well_typed.induct)
  case (3 loc args k ps)
  have "k < length (arg_list args) \<longrightarrow> succeeds (prints_default (arg_list args ! k)) (write_default loc (arg_list args ! k))"
    using 3(2) write_default_succeeds by simp
  note f = format_field_succeeds [where w = "write_default loc", OF 3(3) this]
  have "succeeds (well_typed loc args (Suc k) ps) (format_pieces loc args ps st1)" if "format_field args (write_default loc) st = fmt_ok st1" for st1
    using 3(1,2) f(2) [OF that] by simp
  from succeeds_bind [OF f(1) this] show ?case by (simp add: conj_assoc)
next
  case (4 loc args k sp ps)
  have "k < length (arg_list args) \<longrightarrow> succeeds (admits loc (arg_list args ! k) sp) (write_arg loc sp (arg_list args ! k))"
    using 4(2) write_arg_succeeds by simp
  note f = format_field_succeeds [where w = "write_arg loc sp", OF 4(3) this]
  have "succeeds (well_typed loc args (Suc k) ps) (format_pieces loc args ps st1)" if "format_field args (write_arg loc sp) st = fmt_ok st1" for st1
    using 4(1,2) f(2) [OF that] by simp
  from succeeds_bind [OF f(1) this] show ?case by (simp add: conj_assoc)
qed (simp_all add: on_text_def)

text \<open>
  C24 [type] Within the scope stated below formatting is type-safe and complete: a format string of literal texts,
  fields {} and fields {:specifiers} is formatted exactly if it is well-typed, that is, every field has an argument
  whose type admits the field's specifiers (and no string is a null pointer); otherwise the result is a format_error,
  and it is not undefined.  The scope: the specifiers are written in the standard form and are ones that the parser
  accepts for the type of the argument (the presentation type is checked later, when the argument is formatted); no
  floating-point argument meets a field with specifiers; a field {} meets no argument of type float and no double that
  is a power of two from 2^52 on (the exact conversion of those is wrong); and the type L is not used where the
  locale groups digits (there the writer can leave its buffer).
\<close>

theorem well_typed_formats_succeed:
  assumes "pieces_ok args 0 ps" "typable loc args 0 ps"
  shows "if well_typed loc args 0 ps then \<exists>t. vformat_to loc (concat (map print_piece ps)) args = fmt_ok t
    else \<exists>e. vformat_to loc (concat (map print_piece ps)) args = fmt_err e"
proof -
  have f: "vformat_to loc (concat (map print_piece ps)) args = fmt_bind (format_pieces loc args ps ([], 0)) (\<lambda>st. fmt_ok (fst st))"
    by (simp add: vformat_scan scan_small_pieces [OF assms(1)])
  have "succeeds (well_typed loc args 0 ps) (format_pieces loc args ps ([], 0))"
    using assms(2) by (rule format_pieces_succeeds) simp
  from succeeds_bind [OF this, of True "\<lambda>st. fmt_ok (fst st)"]
  have "succeeds (well_typed loc args 0 ps) (vformat_to loc (concat (map print_piece ps)) args)" unfolding f by simp
  then show ?thesis by (simp add: succeeds_def)
qed

text \<open>The hexadecimal number and the string of the sample, and the same fields with the arguments exchanged.\<close>

theorem well_typed_formats_succeed_witness:
  "(\<exists>t. vformat_to no_grouping ''{:*^+#12x} {}'' \<lparr>arg_list = [Int_arg 255, Double_arg 0x3FB999999999999A], arg_names = []\<rparr> = fmt_ok t)
   \<and> (\<exists>e. vformat_to no_grouping ''{:*^+#12x} {}'' \<lparr>arg_list = [Int_arg 255], arg_names = []\<rparr> = fmt_err e)"
proof -
  let ?ps = "[Spec_field sample_specs, Lit '' '', Field]"
  let ?a = "\<lparr>arg_list = [Int_arg 255, Double_arg 0x3FB999999999999A], arg_names = []\<rparr>" and ?b = "\<lparr>arg_list = [Int_arg 255], arg_names = []\<rparr>"
  have s: "concat (map print_piece ?ps) = ''{:*^+#12x} {}''" by (simp add: print_sample_specs)
  have x: "spec_type sample_specs = CHR ''x''" by (simp add: sample_specs_def)
  have "\<not> is_floating (Int_arg 255)" "known_default (Double_arg 0x3FB999999999999A)" by code_simp+
  then have t: "typable no_grouping ?a 0 ?ps" "typable no_grouping ?b 0 ?ps" using x by simp_all
  have p: "pieces_ok ?a 0 ?ps" "pieces_ok ?b 0 ?ps" by (simp_all add: valid_sample_specs)
  have w: "well_typed no_grouping ?a 0 ?ps" "\<not> well_typed no_grouping ?b 0 ?ps" using x by (simp_all add: int_presentation_def)
  show ?thesis
    using well_typed_formats_succeed [OF p(1) t(1)] well_typed_formats_succeed [OF p(2) t(2)] w unfolding s by simp
qed

end
