(* ===== verification/Fmt_Precision.thy ===== *)
theory Fmt_Precision imports Fmt_Text begin

text \<open>
  \<open>format_float\<close> with a precision (spdlog/fmt/bundled/format-inl.h): \<open>fixed_handler\<close> keeps the contract of digit
  handlers, so that the digits, when they are accepted, are the number correctly rounded.
\<close>

section \<open>Rounding up\<close>







section \<open>The handler\<close>












section \<open>The number\<close>








section \<open>format_float with a precision\<close>










end
