(* ===== verification/Hex_Dump.thy ===== *)
theory Hex_Dump imports Fmt_Theorems begin

text \<open>
  Byte ranges in a log call (spdlog/fmt/bin_to_hex.h): \<open>to_hex\<close> and the formatter of \<open>dump_info\<close>, with lines, positions
  and an ASCII column, and that every dump can be read back.
\<close>

section \<open>The formatter\<close>

type_synonym u8 = "8 word"

record dump_info =
  dump_range :: "u8 list"
  size_per_line :: u64

definition to_hex :: "u8 list \<Rightarrow> u64 \<Rightarrow> dump_info" where
  "to_hex container n = \<lparr>dump_range = container, size_per_line = n\<rparr>"

record hex_formatter =
  put_newlines :: bool
  put_delimiters :: bool
  use_uppercase :: bool
  put_positions :: bool
  show_ascii :: bool

definition new_hex_formatter :: hex_formatter where
  "new_hex_formatter = \<lparr>put_newlines = True, put_delimiters = True, use_uppercase = False, put_positions = True, show_ascii = False\<rparr>"

definition hex_flag :: "char \<Rightarrow> hex_formatter \<Rightarrow> hex_formatter" where
  "hex_flag c f =
     (if c = CHR ''X'' then f\<lparr>use_uppercase := True\<rparr>
      else if c = CHR ''s'' then f\<lparr>put_delimiters := False\<rparr>
      else if c = CHR ''p'' then f\<lparr>put_positions := False\<rparr>
      else if c = CHR ''n'' then f\<lparr>put_newlines := False, show_ascii := False\<rparr>
      else if c = CHR ''a'' then (if put_newlines f then f\<lparr>show_ascii := True\<rparr> else f)
      else f)"

text \<open>The position after the flags and the formatter.\<close>

fun hex_parse :: "string \<Rightarrow> hex_formatter \<Rightarrow> string \<times> hex_formatter" where
  "hex_parse [] f = ([], f)"
| "hex_parse (c # cs) f = (if c = CHR ''}'' then (c # cs, f) else hex_parse cs (hex_flag c f))"

text \<open>\<open>isprint\<close> is that of the C locale.\<close>

definition is_print :: "u8 \<Rightarrow> bool" where
  "is_print b \<longleftrightarrow> 0x20 \<le> b \<and> b \<le> 0x7E"

definition ascii_char :: "u8 \<Rightarrow> char" where
  "ascii_char b = (if is_print b then char_of (unat b) else CHR ''.'')"

definition hex_chars :: "hex_formatter \<Rightarrow> string" where
  "hex_chars f = (if use_uppercase f then ''0123456789ABCDEF'' else ''0123456789abcdef'')"

definition byte_hex :: "hex_formatter \<Rightarrow> u8 \<Rightarrow> string" where
  "byte_hex f ch = [hex_chars f ! unat ((drop_bit 4 ch) AND 0x0F), hex_chars f ! unat (ch AND 0x0F)]"

text \<open>
  \<open>put_newline\<close> takes the output iterator by value.  The iterators of a growing buffer share their position, so the text
  stays; with an iterator that holds its position (a pointer, a counting or truncating iterator) the caller
  goes on where it was, and the text is overwritten.
\<close>

datatype out_iter = Shared_position | Own_position

definition newline :: char where "newline = CHR 0x0A"

definition put_newline :: "fmt_locale \<Rightarrow> hex_formatter \<Rightarrow> u64 \<Rightarrow> string fmt_result" where
  "put_newline loc f pos =
     (if put_positions f
      then fmt_bind (vformat_to loc ''{:<04X}: '' \<lparr>arg_list = [Ulong_long_arg pos], arg_names = []\<rparr>) (\<lambda>s. fmt_ok (newline # s))
      else fmt_ok [newline])"

definition kept :: "out_iter \<Rightarrow> string \<Rightarrow> string" where
  "kept it s = (case it of Shared_position \<Rightarrow> s | Own_position \<Rightarrow> [])"

definition delimiters :: "hex_formatter \<Rightarrow> string" where
  "delimiters f = (if put_delimiters f then '' '' else [])"

text \<open>The loop: \<open>all\<close> is the range, \<open>start\<close> and \<open>i\<close> are positions in it, and the rest starts at \<open>i\<close>.\<close>

fun hex_loop ::
  "out_iter \<Rightarrow> fmt_locale \<Rightarrow> hex_formatter \<Rightarrow> int \<Rightarrow> u8 list \<Rightarrow> nat \<Rightarrow> nat \<Rightarrow> u8 list \<Rightarrow> string \<Rightarrow> (nat \<times> string) fmt_result" where
  "hex_loop it loc f n all start i [] out = fmt_ok (start, out)"
| "hex_loop it loc f n all start i (ch # rest) out =
     (if put_newlines f \<and> (i = 0 \<or> int (i - start) \<ge> n) then
        let out1 = (if show_ascii f \<and> i \<noteq> 0 then out @ ''  '' @ map ascii_char (take (i - start) (drop start all)) else out) in
        fmt_bind (put_newline loc f (of_nat i)) (\<lambda>s.
          hex_loop it loc f n all i (Suc i) rest (out1 @ kept it s @ byte_hex f ch))
      else hex_loop it loc f n all start (Suc i) rest (out @ delimiters f @ byte_hex f ch))"

definition line_size :: "u64 \<Rightarrow> int" where
  "line_size n = sint (ucast n :: u32)"

definition hex_format :: "out_iter \<Rightarrow> fmt_locale \<Rightarrow> hex_formatter \<Rightarrow> dump_info \<Rightarrow> string fmt_result" where
  "hex_format it loc f the_range =
     (let all = dump_range the_range; n = line_size (size_per_line the_range) in
      fmt_bind (hex_loop it loc f n all 0 0 all []) (\<lambda>(start, out).
        fmt_ok
          (if show_ascii f then
             out
             @ (if int (length all) > n then concat (replicate (nat (n - int (length all - start))) (''  '' @ delimiters f)) else [])
             @ ''  '' @ map ascii_char (drop start all)
           else out)))"

section \<open>The position of a line\<close>

definition position_text :: "nat \<Rightarrow> string" where
  "position_text p = (let ds = uint_loop 4 True p [] in replicate (4 - length ds) (CHR ''0'') @ ds)"

definition position_specs :: format_specs where
  "position_specs = default_specs\<lparr>spec_fill := ''0'', spec_align := Align_numeric, spec_width := 4, spec_type := CHR ''X''\<rparr>"

lemma parse_position_specs:
  "parse_format_specs Ulong_long_type args (default_specs, n, ''<04X}: '') = fmt_ok (position_specs, n, ''}: '')"
proof -
  have d: "is_digit (CHR ''4'')" "\<not> is_digit (CHR ''X'')" by (simp_all add: is_digit_def)
  have p: "parse_nonnegative_int ''4X}: '' = (Inr 4, ''X}: '')"
    by (simp add: parse_nonnegative_int_def d digit_value_def max_int_def)
  have n: "next_code_point (CHR ''<'') ''04X}: '' = (''<'', ''04X}: '')" by (simp add: next_code_point_ascii)
  show ?thesis
    by (simp add: parse_format_specs_def parse_specs_from_def parse_align_def n align_of_char_def parse_sign_def parse_hash_def
        parse_zero_def require_numeric_def is_arithmetic_type_def is_integral_type_def parse_width_def d p parse_point_def
        parse_type_def position_specs_def default_specs_def)
qed

lemma write_position: "write_arg loc position_specs (Ulong_long_arg p) = fmt_ok (position_text (unat p))"
  by (simp add: write_integer_def handle_int_type_def position_specs_def default_specs_def on_hex_def sign_prefix_def
      format_uint_count write_int_def write_int_data_def write_padded_def fill_n_def position_text_def length_uint_loop Let_def)

lemma put_newline_text: 
  "put_newline loc f p = fmt_ok (newline # (if put_positions f then position_text (unat p) @ '': '' else []))"
proof -
  let ?args = "\<lparr>arg_list = [Ulong_long_arg p], arg_names = []\<rparr>"
  have s: "on_format_specs loc ?args 0 ''<04X}: '' ([], 1) = fmt_ok (''}: '', position_text (unat p), 1)"
    by (simp add: on_format_specs_def get_arg_def parse_position_specs write_position del: write_arg.simps)
  have "scan_small loc ?args [] '': '' (position_text (unat p), 1) = fmt_ok (position_text (unat p) @ '': '', 1)"
    by (simp add: on_text_def)
  then have "vformat_to loc ''{:<04X}: '' ?args = fmt_ok (position_text (unat p) @ '': '')"
    by (simp add: vformat_scan parse_replacement_field_def parse_arg_id_def on_arg_id_def next_arg_id_def s)
  then show ?thesis by (simp add: put_newline_def)
qed

section \<open>Layout\<close>

text \<open>The lines of a dump: \<open>m\<close> bytes each.\<close>

function chunks :: "nat \<Rightarrow> 'a list \<Rightarrow> 'a list list" where
  "chunks m xs = (if m = 0 \<or> xs = [] then [] else take m xs # chunks m (drop m xs))"
  by pat_completeness auto
termination by (relation "measure (\<lambda>(m, xs). length xs)") auto

declare chunks.simps [simp del]

lemma chunks_Nil [simp]: "chunks m [] = []"
  by (subst chunks.simps) simp

lemma chunks_short: "0 < m \<Longrightarrow> xs \<noteq> [] \<Longrightarrow> length xs \<le> m \<Longrightarrow> chunks m xs = [xs]"
  by (subst chunks.simps) simp

lemma chunks_long: "0 < m \<Longrightarrow> length xs = m \<Longrightarrow> chunks m (xs @ ys) = xs # chunks m ys"
  by (subst chunks.simps) auto

lemma chunks_concat: "0 < m \<Longrightarrow> concat (chunks m xs) = xs"
  by (induction m xs rule: chunks.induct) (subst chunks.simps, simp)

lemma chunks_not_Nil: "0 < m \<Longrightarrow> list_all (\<lambda>c. c \<noteq> []) (chunks m xs)"
  by (induction m xs rule: chunks.induct) (subst chunks.simps, simp)

definition hex_line :: "hex_formatter \<Rightarrow> u8 list \<Rightarrow> string" where
  "hex_line f bs = (case bs of [] \<Rightarrow> [] | b # cs \<Rightarrow> byte_hex f b @ concat (map (\<lambda>b. delimiters f @ byte_hex f b) cs))"

lemma hex_line_snoc: "bs \<noteq> [] \<Longrightarrow> hex_line f (bs @ [b]) = hex_line f bs @ delimiters f @ byte_hex f b"
  by (cases bs) (simp_all add: hex_line_def)

lemma hex_line_single: "hex_line f [b] = byte_hex f b"
  by (simp add: hex_line_def)

definition line_head :: "hex_formatter \<Rightarrow> nat \<Rightarrow> string" where
  "line_head f p = newline # (if put_positions f then position_text (unat (of_nat p :: u64)) @ '': '' else [])"

definition ascii_column :: "hex_formatter \<Rightarrow> u8 list \<Rightarrow> string" where
  "ascii_column f bs = (if show_ascii f then ''  '' @ map ascii_char bs else [])"

lemma put_newline_head: "put_newline loc f (of_nat p) = fmt_ok (line_head f p)"
  by (simp add: put_newline_text line_head_def)

text \<open>A line is padded to the width of \<open>m\<close> bytes; only the last one is shorter.\<close>

definition blanks :: "hex_formatter \<Rightarrow> nat \<Rightarrow> u8 list \<Rightarrow> string" where
  "blanks f m bs = (if show_ascii f then concat (replicate (m - length bs) (''  '' @ delimiters f)) else [])"

definition dump_line :: "hex_formatter \<Rightarrow> nat \<Rightarrow> nat \<Rightarrow> u8 list \<Rightarrow> string" where
  "dump_line f m p bs = line_head f p @ hex_line f bs @ blanks f m bs @ ascii_column f bs"

fun dump_lines :: "hex_formatter \<Rightarrow> nat \<Rightarrow> nat \<Rightarrow> u8 list list \<Rightarrow> string" where
  "dump_lines f m p [] = []"
| "dump_lines f m p (c # cs) = dump_line f m p c @ dump_lines f m (p + length c) cs"

text \<open>What the loop has written when it ends, from the first byte of a line on.\<close>

fun loop_text :: "hex_formatter \<Rightarrow> nat \<Rightarrow> u8 list list \<Rightarrow> string" where
  "loop_text f p [] = []"
| "loop_text f p (c # cs) =
     hex_line f c @ (if cs = [] then [] else ascii_column f c @ line_head f (p + length c) @ loop_text f (p + length c) cs)"

lemma hex_loop_lines:
  assumes "put_newlines f" "m = nat (max 1 n)"
  shows "pre = done' @ cur \<Longrightarrow> cur \<noteq> [] \<Longrightarrow> length cur \<le> m \<Longrightarrow>
    hex_loop Shared_position loc f n (pre @ rest) (length done') (length pre) rest (out @ hex_line f cur)
     = fmt_ok (length (pre @ rest) - length (last (chunks m (cur @ rest))), out @ loop_text f (length done') (chunks m (cur @ rest)))"
proof (induction rest arbitrary: pre done' cur out)
  case Nil
  have "0 < m" using assms(2) by simp
  then show ?case using Nil by (simp add: chunks_short)
next
  case (Cons b rest)
  have m: "0 < m" using assms(2) by simp
  show ?case
  proof (cases "length cur < m")
    case True
    have "0 < length cur" using Cons.prems(2) by simp
    moreover have "int (length cur) < max 1 n" using True assms(2) by linarith
    ultimately have "\<not> int (length pre - length done') \<ge> n" using Cons.prems(1) by (simp add: max_def split: if_splits)
    moreover have "length pre \<noteq> 0" using Cons.prems by simp
    moreover note Cons.IH [of "pre @ [b]" done' "cur @ [b]" out]
    ultimately show ?thesis using Cons.prems True by (simp add: hex_line_snoc)
  next
    case False
    then have l: "length cur = m" using Cons.prems by simp
    then have "int (length pre - length done') \<ge> n" "length pre \<noteq> 0" using Cons.prems assms(2) by auto
    moreover have "take (length pre - length done') (drop (length done') (pre @ b # rest)) = cur" using Cons.prems by simp
    ultimately have "hex_loop Shared_position loc f n (pre @ b # rest) (length done') (length pre) (b # rest) (out @ hex_line f cur)
        = hex_loop Shared_position loc f n (pre @ b # rest) (length pre) (Suc (length pre)) rest
            (out @ hex_line f cur @ ascii_column f cur @ line_head f (length pre) @ byte_hex f b)"
      using assms(1) by (simp add: put_newline_head kept_def ascii_column_def del: take_append drop_append)
    moreover have "chunks m (cur @ b # rest) = cur # chunks m (b # rest)" by (rule chunks_long [OF m l])
    moreover have "chunks m (b # rest) \<noteq> []" using m by (subst chunks.simps) simp
    moreover have "length done' + length cur = length pre" using Cons.prems by simp
    moreover note Cons.IH [of "pre @ [b]" pre "[b]" "out @ hex_line f cur @ ascii_column f cur @ line_head f (length pre)"]
    ultimately show ?thesis using m by (simp add: hex_line_single)
  qed
qed


lemma loop_text_lines:
  assumes "0 < m" "xs \<noteq> []"
  shows "line_head f p @ loop_text f p (chunks m xs)
      @ blanks f (if m < length xs then m else 0) (last (chunks m xs)) @ ascii_column f (last (chunks m xs))
    = dump_lines f (if m < length xs then m else 0) p (chunks m xs)"
  using assms
proof (induction m xs arbitrary: p rule: chunks.induct)
  case (1 m xs)
  show ?case
  proof (cases "length xs \<le> m")
    case True
    then show ?thesis using 1 by (simp add: chunks_short dump_line_def)
  next
    case False
    then have s: "chunks m xs = take m xs # chunks m (drop m xs)" using 1 by (subst chunks.simps) auto
    have d: "drop m xs \<noteq> []" using False by simp
    then have ne: "chunks m (drop m xs) \<noteq> []" using 1 by (subst chunks.simps) simp
    have b: "blanks f m (take m xs) = []" using False by (simp add: blanks_def)
    show ?thesis
    proof (cases "m < length (drop m xs)")
      case True
      then show ?thesis using 1(1) [of "p + m"] 1(2,3) d ne False b by (simp add: s dump_line_def)
    next
      case l: False
      then have c: "chunks m (drop m xs) = [drop m xs]" using d 1(2) by (intro chunks_short) auto
      show ?thesis using False b by (simp add: s c dump_line_def)
    qed
  qed
qed

text \<open>The text of a dump with lines.\<close>

definition line_bytes :: "dump_info \<Rightarrow> nat" where
  "line_bytes r = nat (max 1 (line_size (size_per_line r)))"

lemma hex_dump_lines:
  assumes "put_newlines f" "dump_range r \<noteq> []"
  shows "hex_format Shared_position loc f r
    = fmt_ok (dump_lines f (if line_bytes r < length (dump_range r) then line_bytes r else 0) 0 (chunks (line_bytes r) (dump_range r)))"
proof -
  define n where "n = line_size (size_per_line r)"
  define m where "m = nat (max 1 n)"
  define xs where "xs = dump_range r"
  have m: "0 < m" "line_bytes r = m" by (simp_all add: m_def line_bytes_def n_def)
  obtain b rest where x: "xs = b # rest" using assms(2) by (cases xs) (simp_all add: xs_def)
  let ?c = "last (chunks m xs)"
  let ?w = "if m < length xs then m else 0"
  have loop: "hex_loop Shared_position loc f n xs 0 0 xs []
      = fmt_ok (length xs - length ?c, line_head f 0 @ loop_text f 0 (chunks m xs))"
    using hex_loop_lines [OF assms(1) m_def, of "[b]" "[]" "[b]" loc rest "line_head f 0"] m assms(1)
      put_newline_head [of loc f 0] by (simp add: x kept_def hex_line_single)
  have "chunks m xs \<noteq> []" using m by (subst chunks.simps) (simp add: x)
  then have "concat (chunks m xs) = concat (butlast (chunks m xs)) @ ?c"
    by (metis append_butlast_last_id concat_append concat.simps append_Nil2)
  then have e: "xs = concat (butlast (chunks m xs)) @ ?c" using m by (simp add: chunks_concat)
  then have d: "drop (length xs - length ?c) xs = ?c" "length ?c \<le> length xs"
    by (metis append_eq_conv_conj length_append diff_add_inverse2) (metis e le_add2 length_append)
  have bl: "(if int (length xs) > n then concat (replicate (nat (n - int (length xs - (length xs - length ?c)))) (''  '' @ delimiters f)) else [])
      = blanks f ?w ?c" if "show_ascii f"
  proof (cases "1 \<le> n")
    case True
    then have "int m = n" by (simp add: m_def)
    then show ?thesis using that d by (auto simp: blanks_def nat_diff_distrib')
  next
    case False
    then have "m = 1" by (simp add: m_def)
    moreover have "?c \<noteq> []" using chunks_not_Nil [OF m(1), of xs] \<open>chunks m xs \<noteq> []\<close> by (auto simp: list_all_iff)
    ultimately show ?thesis using that d False by (auto simp: blanks_def Suc_le_eq)
  qed
  have "hex_format Shared_position loc f r
      = fmt_ok (line_head f 0 @ loop_text f 0 (chunks m xs) @ blanks f ?w ?c @ ascii_column f ?c)"
    using bl d by (simp add: hex_format_def n_def [symmetric] xs_def [symmetric] loop Let_def ascii_column_def blanks_def)
  then show ?thesis using loop_text_lines [OF m(1), of xs f 0] x by (simp add: m xs_def)
qed

lemma hex_dump_flat:
  assumes "\<not> put_newlines f"
  shows "hex_loop it loc f n all s i xs out = fmt_ok (s, out @ concat (map (\<lambda>b. delimiters f @ byte_hex f b) xs))"
  using assms by (induction xs arbitrary: i out) simp_all


section \<open>Reading a dump\<close>

definition is_hex :: "char \<Rightarrow> bool" where
  "is_hex c \<longleftrightarrow> (let k = (of_char c :: nat) in 48 \<le> k \<and> k \<le> 57 \<or> 65 \<le> k \<and> k \<le> 70 \<or> 97 \<le> k \<and> k \<le> 102)"

definition skip_delimiter :: "bool \<Rightarrow> string \<Rightarrow> string" where
  "skip_delimiter sep s = (if sep then tl s else s)"

lemma skip_delimiter_length [termination_simp]: "length (skip_delimiter sep s) < Suc (Suc (length s))"
  by (auto simp: skip_delimiter_def)

lemma skip_delimiters: "skip_delimiter (put_delimiters f) (delimiters f @ s) = s"
  by (simp add: skip_delimiter_def delimiters_def)

text \<open>Pairs of digits, up to what is not one.\<close>

fun read_pairs :: "bool \<Rightarrow> string \<Rightarrow> u8 list" where
  "read_pairs sep (a # b # s) =
     (if is_hex a \<and> is_hex b
      then of_nat (16 * hex_value a + hex_value b) # read_pairs sep (skip_delimiter sep s) else [])"
| "read_pairs sep _ = []"

fun split_lines :: "string \<Rightarrow> string list" where
  "split_lines [] = [[]]"
| "split_lines (c # cs) =
     (if c = newline then [] # split_lines cs else (c # hd (split_lines cs)) # tl (split_lines cs))"

definition read_line :: "hex_formatter \<Rightarrow> string \<Rightarrow> u8 list" where
  "read_line f l =
     read_pairs (put_delimiters f) (if put_positions f then drop 2 (dropWhile (\<lambda>c. c \<noteq> CHR '':'') l) else l)"

text \<open>What the flags of the formatter say is known to the reader, the size of a line is not.\<close>

definition read_dump :: "hex_formatter \<Rightarrow> string \<Rightarrow> u8 list" where
  "read_dump f s =
     (if put_newlines f then concat (map (read_line f) (tl (split_lines s)))
      else read_pairs (put_delimiters f) (skip_delimiter (put_delimiters f) s))"

lemma hex_digits_facts:
  "list_all (\<lambda>d. is_hex (''0123456789ABCDEF'' ! d) \<and> is_hex (''0123456789abcdef'' ! d)) [0..<16]"
  by (simp add: upt_rec is_hex_def)

lemma hex_chars_facts:
  assumes "d < 16"
  shows "is_hex (hex_chars f ! d)" "hex_value (hex_chars f ! d) = d"
proof -
  have d: "d \<in> set [0..<16]" using assms by simp
  with hex_digits_facts have "is_hex (''0123456789ABCDEF'' ! d) \<and> is_hex (''0123456789abcdef'' ! d)" unfolding list_all_iff by blast
  moreover from d hex_value_digits
  have "hex_value (''0123456789ABCDEF'' ! d) = d \<and> hex_value (''0123456789abcdef'' ! d) = d" unfolding list_all_iff by blast
  ultimately show "is_hex (hex_chars f ! d)" "hex_value (hex_chars f ! d) = d" by (simp_all add: hex_chars_def)
qed

lemma byte_less: "unat (b :: u8) < 256"
  using unsigned_less [of b] by simp

lemma nibbles:
  fixes b :: u8
  shows "unat ((drop_bit 4 b) AND 0x0F) = unat b div 16" "unat (b AND 0x0F) = unat b mod 16"
proof -
  have low: "unat (x AND 0x0F) = unat x mod 16" for x :: u8
  proof -
    have "(0x0F :: u8) = mask 4" by (simp add: mask_eq_exp_minus_1)
    then have "unat (x AND 0x0F) = take_bit 4 (unat x)" by (metis take_bit_eq_mask unsigned_take_bit_eq)
    then show ?thesis by (simp add: take_bit_eq_mod)
  qed
  have "unat (drop_bit 4 b) = drop_bit 4 (unat b)" by (rule unat_drop_bit_eq)
  then have "unat (drop_bit 4 b) = unat b div 16" by (simp add: drop_bit_eq_div)
  moreover have "unat b div 16 < 16" using byte_less [of b] by simp
  ultimately show "unat ((drop_bit 4 b) AND 0x0F) = unat b div 16" by (simp only: low mod_less)
  show "unat (b AND 0x0F) = unat b mod 16" by (rule low)
qed

lemma byte_hex_facts: "list_all is_hex (byte_hex f b)"
  "read_pairs sep (byte_hex f b @ s) = b # read_pairs sep (skip_delimiter sep s)"
proof -
  have l: "unat b div 16 < 16" "unat b mod 16 < 16" using byte_less [of b] by simp_all
  have e: "byte_hex f b = [hex_chars f ! (unat b div 16), hex_chars f ! (unat b mod 16)]" unfolding byte_hex_def nibbles(1) unfolding nibbles(2) by (rule refl)
  show "list_all is_hex (byte_hex f b)" using l unfolding e by (simp add: hex_chars_facts(1))
  have "(of_nat (16 * (unat b div 16) + unat b mod 16) :: u8) = b" by (simp only: mult_div_mod_eq) simp
  then show "read_pairs sep (byte_hex f b @ s) = b # read_pairs sep (skip_delimiter sep s)"
    using hex_chars_facts [OF l(1), of f] hex_chars_facts [OF l(2), of f] unfolding e by (simp del: of_nat_add of_nat_mult)
qed

lemma read_pairs_bytes:
  assumes "s = [] \<or> \<not> is_hex (hd (skip_delimiter (put_delimiters f) s))"
  shows "read_pairs (put_delimiters f) (skip_delimiter (put_delimiters f) (concat (map (\<lambda>b. delimiters f @ byte_hex f b) bs) @ s)) = bs"
proof (induction bs)
  case Nil
  have "read_pairs sep t = []" if "t = [] \<or> \<not> is_hex (hd t)" for sep t
    using that by (cases "(sep, t)" rule: read_pairs.cases) auto
  then show ?case using assms by (cases "s = []") (simp_all add: skip_delimiter_def)
next
  case (Cons b bs)
  then show ?case by (simp add: byte_hex_facts(2) skip_delimiters)
qed


lemma delimiters_not_hex: "x \<noteq> [] \<Longrightarrow> \<not> is_hex (hd (skip_delimiter sep (''  '' @ x)))"
  by (simp add: skip_delimiter_def is_hex_def)

lemma read_pairs_line:
  assumes "s = [] \<or> (\<exists>x. s = ''  '' @ x)"
  shows "read_pairs (put_delimiters f) (hex_line f bs @ s) = bs"
proof (cases bs)
  case Nil
  have "\<not> is_hex (CHR '' '')" by (simp add: is_hex_def)
  then show ?thesis using assms Nil by (auto simp: hex_line_def)
next
  case (Cons b cs)
  have "\<not> is_hex (CHR '' '')" by (simp add: is_hex_def)
  then have "s = [] \<or> \<not> is_hex (hd (skip_delimiter (put_delimiters f) s))" using assms by (auto simp: skip_delimiter_def)
  from read_pairs_bytes [OF this, of cs] show ?thesis by (simp add: Cons hex_line_def byte_hex_facts(2))
qed

lemma position_text_hex: "list_all is_hex (position_text p)"
proof -
  have loop: "list_all is_hex (uint_loop 4 True v out)" if "list_all is_hex out" for v out
    using that
  proof (induction "4 :: nat" True v out rule: uint_loop.induct)
    case (1 v out)
    define d where "d = uint_digit 4 True (v mod 2 ^ 4) # out"
    have d: "list_all is_hex d"
      using hex_chars_facts(1) [of "v mod 16" "new_hex_formatter\<lparr>use_uppercase := True\<rparr>"] 1(2)
      by (simp add: uint_digit_def hex_chars_def d_def)
    show ?case using 1(1) [OF d_def _ d] d by (subst uint_loop.simps) (simp only: Let_def d_def [symmetric] split: if_split, simp)
  qed
  have "is_hex (CHR ''0'')" by (simp add: is_hex_def)
  then show ?thesis using loop [of "[]" p] by (auto simp: position_text_def list_all_iff Let_def)
qed

lemma tail_blanks: "blanks f m bs @ ascii_column f bs = [] \<or> (\<exists>x. blanks f m bs @ ascii_column f bs = ''  '' @ x)"
  by (cases "m - length bs") (auto simp: blanks_def ascii_column_def)

lemma read_line_dump:
  assumes "dump_line f m p bs = newline # l"
  shows "read_line f l = bs"
proof -
  define h where "h = (if put_positions f then position_text (unat (of_nat p :: u64)) @ '': '' else [])"
  let ?rest = "hex_line f bs @ blanks f m bs @ ascii_column f bs"
  have l: "l = h @ ?rest" using assms by (simp add: dump_line_def line_head_def h_def)
  have "\<not> is_hex (CHR '':'')" by (simp add: is_hex_def)
  then have "\<forall>c \<in> set (position_text q). c \<noteq> CHR '':''" for q using position_text_hex [of q] by (auto simp: list_all_iff)
  then have "dropWhile (\<lambda>c. c \<noteq> CHR '':'') (position_text q @ '': '' @ x) = '': '' @ x" for q x by (subst dropWhile_append2) auto
  then have "read_line f l = read_pairs (put_delimiters f) ?rest" by (simp add: l h_def read_line_def)
  also have "\<dots> = bs" using tail_blanks by (rule read_pairs_line)
  finally show ?thesis .
qed

lemma split_lines_line: "newline \<notin> set l \<Longrightarrow> split_lines (l @ newline # s) = l # split_lines s"
  by (induction l) auto

lemma split_lines_last: "newline \<notin> set l \<Longrightarrow> split_lines l = [l]"
  by (induction l) auto

lemma hex_not_newline: "is_hex c \<Longrightarrow> c \<noteq> newline"
  by (auto simp: is_hex_def newline_def)

lemma ascii_not_newline: "ascii_char b \<noteq> newline"
proof (cases "is_print b")
  case True
  then have "32 \<le> unat b" by (simp add: is_print_def word_le_nat_alt)
  then have "(of_char (char_of (unat b)) :: nat) \<noteq> of_char newline" using byte_less [of b] by (simp add: newline_def)
  then have "char_of (unat b) \<noteq> newline" by metis
  then show ?thesis using True by (simp add: ascii_char_def)
qed (simp add: ascii_char_def newline_def)

lemma dump_line_newlines:
  obtains l where "dump_line f m p bs = newline # l" "newline \<notin> set l"
proof -
  have hex: "newline \<notin> set s" if "list_all is_hex s" for s using that hex_not_newline by (auto simp: list_all_iff)
  have sp: "CHR '' '' \<noteq> newline" "CHR '':'' \<noteq> newline" by (simp_all add: newline_def)
  have d: "newline \<notin> set (delimiters f)" using sp by (simp add: delimiters_def)
  have "newline \<notin> set (hex_line f bs)"
    using hex [OF byte_hex_facts(1)] d by (auto simp: hex_line_def split: list.splits)
  moreover have "newline \<notin> set (blanks f m bs)" using d sp by (auto simp: blanks_def)
  moreover have "newline \<notin> set (ascii_column f bs)" using sp ascii_not_newline by (auto simp: ascii_column_def dest: sym)
  moreover have "newline \<notin> set (position_text q @ '': '')" for q using hex [OF position_text_hex] sp by auto
  ultimately show ?thesis
    by (intro that [of "tl (line_head f p) @ hex_line f bs @ blanks f m bs @ ascii_column f bs"])
      (auto simp: dump_line_def line_head_def)
qed

lemma dump_lines_head: "dump_lines f m p cs = [] \<or> (\<exists>s. dump_lines f m p cs = newline # s)"
  by (cases cs) (auto simp: dump_line_def line_head_def)

lemma read_dump_lines: "concat (map (read_line f) (tl (split_lines (dump_lines f m p cs)))) = concat cs"
proof (induction cs arbitrary: p)
  case (Cons c cs)
  obtain l where l: "dump_line f m p c = newline # l" "newline \<notin> set l" by (rule dump_line_newlines)
  let ?s = "dump_lines f m (p + length c) cs"
  have "tl (split_lines (newline # l @ ?s)) = l # tl (split_lines ?s)"
  proof (cases "?s = []")
    case True
    then show ?thesis using split_lines_last [OF l(2)] by simp
  next
    case False
    then obtain s where "?s = newline # s" using dump_lines_head [of f m "p + length c" cs] by auto
    then show ?thesis using split_lines_line [OF l(2)] by simp
  qed
  then show ?case using read_line_dump [OF l(1)] Cons by (simp add: l(1))
qed simp

lemma hex_flag_ascii: "show_ascii f \<longrightarrow> put_newlines f \<Longrightarrow> show_ascii (hex_flag c f) \<longrightarrow> put_newlines (hex_flag c f)"
  by (cases "put_newlines f") (simp_all add: hex_flag_def)

lemma hex_parse_ascii: "show_ascii f \<longrightarrow> put_newlines f \<Longrightarrow> show_ascii (snd (hex_parse s f)) \<longrightarrow> put_newlines (snd (hex_parse s f))"
proof (induction s f rule: hex_parse.induct)
  case (2 c cs f)
  then show ?case using hex_flag_ascii [of f c] by (cases "c = CHR ''}''") simp_all
qed simp

lemma hex_dump_read:
  assumes "show_ascii f \<longrightarrow> put_newlines f"
  obtains t where "hex_format Shared_position loc f (to_hex bytes n) = fmt_ok t" "read_dump f t = bytes"
proof (cases "put_newlines f")
  case False
  then have "hex_format Shared_position loc f (to_hex bytes n) = fmt_ok (concat (map (\<lambda>b. delimiters f @ byte_hex f b) bytes))"
    using assms hex_dump_flat [OF False] by (simp add: hex_format_def to_hex_def Let_def)
  then show ?thesis using False read_pairs_bytes [of "[]" f bytes] by (intro that) (simp_all add: read_dump_def)
next
  case True
  show ?thesis
  proof (cases "bytes = []")
    case True
    have "split_lines s = [s]" if "s = [] \<or> s = ''  ''" for s using that by (auto simp: newline_def)
    then show ?thesis using True \<open>put_newlines f\<close>
      by (intro that [of "if show_ascii f then (if 0 > line_size n then concat (replicate (nat (line_size n)) (''  '' @ delimiters f)) else []) @ ''  '' else []"])
        (auto simp: hex_format_def to_hex_def Let_def read_dump_def)
  next
    case False
    have "0 < line_bytes (to_hex bytes n)" by (simp add: line_bytes_def)
    then show ?thesis using hex_dump_lines [OF True, of "to_hex bytes n" loc] False True read_dump_lines chunks_concat
      by (intro that) (auto simp: read_dump_def to_hex_def)
  qed
qed

text \<open>
  C29 [roundtrip] A dump by to_hex can be read back: whatever flags the format string gives (upper case, no delimiters, no positions,
  no lines, ASCII column) and whatever the size of a line, a reader that knows the flags gets exactly the bytes of the range
  from the text; neither positions nor the ASCII column, which may hold any characters, can be taken for bytes.
\<close>

theorem hex_dump_reads_back:
  "let f = snd (hex_parse flags new_hex_formatter) in
    \<exists>t. hex_format Shared_position loc f (to_hex bytes n) = fmt_ok t \<and> read_dump f t = bytes"
proof -
  have "show_ascii (snd (hex_parse flags new_hex_formatter)) \<longrightarrow> put_newlines (snd (hex_parse flags new_hex_formatter))"
    by (rule hex_parse_ascii) (simp add: new_hex_formatter_def)
  then show ?thesis unfolding Let_def using hex_dump_read by blast
qed

section \<open>Other iterators\<close>

text \<open>
  With an iterator that holds its position (format_to with a pointer, format_to_n, formatted_size) the dump has no lines: not
  one line break or position reaches the output, however long the range is.
\<close>

lemma hex_loop_own_position:
  "\<exists>s t. hex_loop Own_position loc f n all start i xs out = fmt_ok (s, out @ t) \<and> newline \<notin> set t"
proof (induction xs arbitrary: start i out)
  case (Cons b xs)
  have sp: "CHR '' '' \<noteq> newline" by (simp add: newline_def)
  have b: "newline \<notin> set (byte_hex f b)" using byte_hex_facts(1) [of f b] hex_not_newline by (auto simp: list_all_iff)
  have p: "newline \<notin> set (map ascii_char bs)" for bs using ascii_not_newline by (metis (no_types) ex_map_conv)
  have d: "newline \<notin> set (delimiters f)" using sp by (simp add: delimiters_def)
  show ?case
  proof (cases "put_newlines f \<and> (i = 0 \<or> int (i - start) \<ge> n)")
    case True
    define a where "a = (if show_ascii f \<and> i \<noteq> 0 then ''  '' @ map ascii_char (take (i - start) (drop start all)) else [])"
    have "newline \<notin> set a" using p sp unfolding a_def by simp
    moreover obtain s t where "hex_loop Own_position loc f n all i (Suc i) xs (out @ a @ byte_hex f b) = fmt_ok (s, (out @ a @ byte_hex f b) @ t)"
      "newline \<notin> set t" using Cons.IH by blast
    moreover have "hex_loop Own_position loc f n all start i (b # xs) out = hex_loop Own_position loc f n all i (Suc i) xs (out @ a @ byte_hex f b)"
      using True by (simp add: put_newline_head kept_def a_def)
    ultimately show ?thesis using b by (intro exI [of _ s] exI [of _ "a @ byte_hex f b @ t"]) simp
  next
    case False
    obtain s t where "hex_loop Own_position loc f n all start (Suc i) xs (out @ delimiters f @ byte_hex f b)
        = fmt_ok (s, (out @ delimiters f @ byte_hex f b) @ t)" "newline \<notin> set t" using Cons.IH by blast
    then show ?thesis using False b d by (intro exI [of _ s] exI [of _ "delimiters f @ byte_hex f b @ t"]) auto
  qed
qed simp

theorem hex_dump_without_lines:
  "\<exists>t. hex_format Own_position loc new_hex_formatter r = fmt_ok t \<and> newline \<notin> set t"
  using hex_loop_own_position [of loc new_hex_formatter "line_size (size_per_line r)" "dump_range r" 0 0 "dump_range r" "[]"]
  by (auto simp: hex_format_def Let_def new_hex_formatter_def)

end
