(* ===== verification/Fmt_Printf.thy ===== *)
theory Fmt_Printf imports Fmt_Theorems begin

text \<open>
  \<open>printf\<close> of the formatting library (spdlog/fmt/bundled/printf.h): the conversion specifications, the conversion of the
  arguments to the type that the length modifier names, and the writers, which are those of \<open>Fmt_Write\<close>.

  A format string ends in a NUL character, which the parser may read.  \<open>long\<close>, \<open>intmax_t\<close>, \<open>size_t\<close> and \<open>ptrdiff_t\<close> have 64
  bits.
\<close>

section \<open>Arguments\<close>

fun integral_value :: "fmt_arg \<Rightarrow> int option" where
  "integral_value (Int_arg i) = Some (sint i)"
| "integral_value (Uint_arg u) = Some (uint u)"
| "integral_value (Long_long_arg i) = Some (sint i)"
| "integral_value (Ulong_long_arg u) = Some (uint u)"
| "integral_value (Bool_arg b) = Some (if b then 1 else 0)"
| "integral_value (Char_arg c) = Some (sint (char_int c))"
| "integral_value _ = None"

definition is_zero_int :: "fmt_arg \<Rightarrow> bool" where
  "is_zero_int a \<longleftrightarrow> integral_value a = Some 0"

definition fits_in_int :: "int \<Rightarrow> bool" where
  "fits_in_int v \<longleftrightarrow> - int max_int - 1 \<le> v \<and> v \<le> int max_int"

definition printf_precision_handler :: "fmt_arg \<Rightarrow> int fmt_result" where
  "printf_precision_handler a =
     (case integral_value a of
        None \<Rightarrow> fmt_err ''precision is not integer''
      | Some v \<Rightarrow> if \<not> fits_in_int v then fmt_err ''number is too big'' else fmt_ok (max v 0))"

text \<open>A negative width is the flag for the left and its absolute value.\<close>

definition printf_width :: "bool \<Rightarrow> nat \<Rightarrow> format_specs \<Rightarrow> (nat \<times> format_specs) fmt_result" where
  "printf_width negative w sp =
     (let sp1 = (if negative then sp\<lparr>spec_align := Align_left\<rparr> else sp) in
      if w > max_int then fmt_err ''number is too big'' else fmt_ok (w, sp1))"

fun printf_width_handler :: "fmt_arg \<Rightarrow> format_specs \<Rightarrow> (nat \<times> format_specs) fmt_result" where
  "printf_width_handler (Int_arg i) sp = printf_width (sint i < 0) (uint_value (abs32 i)) sp"
| "printf_width_handler (Uint_arg u) sp = printf_width False (unat u) sp"
| "printf_width_handler (Long_long_arg i) sp = printf_width (sint i < 0) (uint_value (abs64 i)) sp"
| "printf_width_handler (Ulong_long_arg u) sp = printf_width False (unat u) sp"
| "printf_width_handler (Bool_arg b) sp = printf_width False (if b then 1 else 0) sp"
| "printf_width_handler (Char_arg c) sp = printf_width (sint (char_int c) < 0) (uint_value (abs32 (char_int c))) sp"
| "printf_width_handler _ sp = fmt_err ''width is not integer''"

text \<open>The type \<open>T\<close> of \<open>arg_converter\<close>; the four names of 64-bit types are one here.\<close>

datatype target_type = Void_target | Schar_target | Short_target | Long_target

definition is_wide :: "fmt_arg \<Rightarrow> bool" where
  "is_wide a \<longleftrightarrow> type_of_arg a = Long_long_type \<or> type_of_arg a = Ulong_long_type"

text \<open>\<open>static_cast<target_type>\<close> of a value, for the types up to \<open>int\<close>, and its unsigned version.\<close>

definition cast_signed :: "target_type \<Rightarrow> int \<Rightarrow> int" where
  "cast_signed T v = (case T of Schar_target \<Rightarrow> signed_take_bit 7 v | Short_target \<Rightarrow> signed_take_bit 15 v | _ \<Rightarrow> v)"

definition cast_unsigned :: "target_type \<Rightarrow> fmt_arg \<Rightarrow> int \<Rightarrow> int" where
  "cast_unsigned T a v =
     (case T of
        Schar_target \<Rightarrow> take_bit 8 v
      | Short_target \<Rightarrow> take_bit 16 v
      | _ \<Rightarrow> if type_of_arg a = Char_type then take_bit 8 v else v)"

definition convert_integral :: "target_type \<Rightarrow> char \<Rightarrow> fmt_arg \<Rightarrow> int \<Rightarrow> fmt_arg" where
  "convert_integral T t a v =
     (let is_signed = (t = CHR ''d'' \<or> t = CHR ''i'') in
      if \<not> (T = Long_target \<or> T = Void_target \<and> is_wide a) then
        (if is_signed then Int_arg (word_of_int (cast_signed T v)) else Uint_arg (word_of_int (cast_unsigned T a v)))
      else if is_signed then Long_long_arg (word_of_int v)
      else
        (case a of
           Bool_arg b \<Rightarrow> a
         | Char_arg c \<Rightarrow> Uint_arg (word_of_int (take_bit 8 v))
         | _ \<Rightarrow> if is_wide a then Ulong_long_arg (word_of_int v) else Uint_arg (word_of_int v)))"

definition convert_arg :: "target_type \<Rightarrow> char \<Rightarrow> fmt_arg \<Rightarrow> fmt_arg" where
  "convert_arg T t a =
     (case integral_value a of
        None \<Rightarrow> a
      | Some v \<Rightarrow> if type_of_arg a = Bool_type \<and> t = CHR ''s'' then a else convert_integral T t a v)"

definition char_converter :: "fmt_arg \<Rightarrow> fmt_arg" where
  "char_converter a = (case integral_value a of None \<Rightarrow> a | Some v \<Rightarrow> Char_arg (char_of (nat (v mod 256))))"

section \<open>The writers\<close>

definition set_fill :: "char \<Rightarrow> format_specs \<Rightarrow> format_specs" where
  "set_fill c sp = sp\<lparr>spec_fill := (spec_fill sp)[0 := c]\<rparr>"

definition printf_char :: "fmt_locale \<Rightarrow> format_specs \<Rightarrow> char \<Rightarrow> string fmt_result" where
  "printf_char loc sp c =
     (if spec_type sp \<noteq> CHR 0x00 \<and> spec_type sp \<noteq> CHR ''c'' then write_arg loc sp (Int_arg (char_int c))
      else
        let sp1 = set_fill (CHR '' '') (sp\<lparr>spec_sign := Sign_none, spec_alt := False\<rparr>);
            sp2 = (if spec_align sp1 = Align_none \<or> spec_align sp1 = Align_numeric then sp1\<lparr>spec_align := Align_right\<rparr> else sp1) in
        write_arg loc sp2 (Char_arg c))"

definition write_null_pointer :: "format_specs \<Rightarrow> string" where
  "write_null_pointer sp = write_string (sp\<lparr>spec_type := CHR 0x00\<rparr>) ''(nil)''"

fun printf_write :: "fmt_locale \<Rightarrow> format_specs \<Rightarrow> fmt_arg \<Rightarrow> string fmt_result" where
  "printf_write loc sp (Bool_arg b) =
     (if spec_type sp \<noteq> CHR ''s'' then write_arg loc sp (Int_arg (if b then 1 else 0))
      else fmt_ok (write_string (sp\<lparr>spec_type := CHR 0x00\<rparr>) (bool_text b)))"
| "printf_write loc sp (Char_arg c) = printf_char loc sp c"
| "printf_write loc sp (Cstring_arg p s) =
     (if p \<noteq> 0 then write_arg loc sp (Cstring_arg p s)
      else if spec_type sp = CHR ''p'' then fmt_ok (write_null_pointer sp)
      else fmt_ok (write_string sp ''(null)''))"
| "printf_write loc sp (Pointer_arg p) = (if p \<noteq> 0 then write_arg loc sp (Pointer_arg p) else fmt_ok (write_null_pointer sp))"
| "printf_write loc sp a = write_arg loc sp a"

section \<open>Conversion specifications\<close>

definition char_at :: "string \<Rightarrow> char" where
  "char_at s = (case s of [] \<Rightarrow> CHR 0x00 | c # cs \<Rightarrow> c)"

fun parse_flags :: "string \<Rightarrow> format_specs \<Rightarrow> format_specs \<times> string" where
  "parse_flags [] sp = (sp, [])"
| "parse_flags (c # cs) sp =
     (if c = CHR ''-'' then parse_flags cs (sp\<lparr>spec_align := Align_left\<rparr>)
      else if c = CHR ''+'' then parse_flags cs (sp\<lparr>spec_sign := Sign_plus\<rparr>)
      else if c = CHR ''0'' then parse_flags cs (set_fill (CHR ''0'') sp)
      else if c = CHR '' '' then parse_flags cs (if spec_sign sp \<noteq> Sign_plus then sp\<lparr>spec_sign := Sign_space\<rparr> else sp)
      else if c = CHR ''#'' then parse_flags cs (sp\<lparr>spec_alt := True\<rparr>)
      else (sp, c # cs))"

definition printf_get_arg :: "fmt_args \<Rightarrow> int \<Rightarrow> int \<Rightarrow> (fmt_arg \<times> int) fmt_result" where
  "printf_get_arg args arg_index n =
     fmt_bind (if arg_index < 0 then next_arg_id n
               else fmt_bind (check_arg_id n) (\<lambda>n1. fmt_ok (nat (arg_index - 1), n1))) (\<lambda>(k, n1).
       fmt_bind (get_arg k args) (\<lambda>a. fmt_ok (a, n1)))"

definition parse_int :: "string \<Rightarrow> (nat \<times> string) fmt_result" where
  "parse_int s = (case parse_nonnegative_int s of (Inl e, rest) \<Rightarrow> fmt_err e | (Inr v, rest) \<Rightarrow> fmt_ok (v, rest))"

definition printf_star :: "fmt_args \<Rightarrow> string \<Rightarrow> int \<Rightarrow> format_specs \<Rightarrow> (format_specs \<times> int \<times> string) fmt_result" where
  "printf_star args cs n sp =
     fmt_bind (printf_get_arg args (- 1) n) (\<lambda>(a, n1).
       fmt_bind (printf_width_handler a sp) (\<lambda>(w, sp1). fmt_ok (sp1\<lparr>spec_width := w\<rparr>, n1, cs)))"

definition flags_and_width :: "fmt_args \<Rightarrow> string \<Rightarrow> int \<Rightarrow> format_specs \<Rightarrow> (format_specs \<times> int \<times> string) fmt_result" where
  "flags_and_width args s n sp =
     (case parse_flags s sp of
        (sp1, []) \<Rightarrow> fmt_ok (sp1, n, [])
      | (sp1, c # cs) \<Rightarrow>
          if is_digit c then fmt_bind (parse_int (c # cs)) (\<lambda>(w, rest). fmt_ok (sp1\<lparr>spec_width := w\<rparr>, n, rest))
          else if c = CHR ''*'' then printf_star args cs n sp1
          else fmt_ok (sp1, n, c # cs))"

definition parse_header ::
  "fmt_args \<Rightarrow> string \<Rightarrow> int \<Rightarrow> format_specs \<Rightarrow> (int \<times> format_specs \<times> int \<times> string) fmt_result" where
  "parse_header args s n sp =
     (let c = char_at s in
      if is_digit c then
        fmt_bind (parse_int s) (\<lambda>(v, rest).
          if rest \<noteq> [] \<and> hd rest = CHR ''$'' then
            fmt_bind (flags_and_width args (tl rest) n sp) (\<lambda>r. fmt_ok (int v, r))
          else
            let sp1 = (if c = CHR ''0'' then set_fill (CHR ''0'') sp else sp) in
            if v \<noteq> 0 then fmt_ok (- 1, sp1\<lparr>spec_width := v\<rparr>, n, rest)
            else fmt_bind (flags_and_width args rest n sp1) (\<lambda>r. fmt_ok (- 1, r)))
      else fmt_bind (flags_and_width args s n sp) (\<lambda>r. fmt_ok (- 1, r)))"

definition printf_precision :: "fmt_args \<Rightarrow> string \<Rightarrow> int \<Rightarrow> format_specs \<Rightarrow> (format_specs \<times> int \<times> string) fmt_result" where
  "printf_precision args s n sp =
     (if s \<noteq> [] \<and> hd s = CHR ''.'' then
        let s1 = tl s; c = char_at s1 in
        if is_digit c then fmt_bind (parse_int s1) (\<lambda>(p, rest). fmt_ok (sp\<lparr>spec_precision := int p\<rparr>, n, rest))
        else if c = CHR ''*'' then
          fmt_bind (printf_get_arg args (- 1) n) (\<lambda>(a, n1).
            fmt_bind (printf_precision_handler a) (\<lambda>p. fmt_ok (sp\<lparr>spec_precision := p\<rparr>, n1, tl s1)))
        else fmt_ok (sp\<lparr>spec_precision := 0\<rparr>, n, s1)
      else fmt_ok (sp, n, s))"

text \<open>
  A C string with a precision: \<open>std::find\<close> looks for its end in that many characters, which is undefined for a null
  pointer.
\<close>

definition limit_cstring :: "format_specs \<Rightarrow> fmt_arg \<Rightarrow> fmt_arg option" where
  "limit_cstring sp a =
     (case a of
        Cstring_arg p s \<Rightarrow>
          if spec_precision sp \<ge> 0 then
            (if p = 0 \<and> spec_precision sp > 0 then None else Some (String_arg (if p = 0 then [] else take (nat (spec_precision sp)) s)))
          else Some a
      | _ \<Rightarrow> Some a)"

definition adjust_specs :: "format_specs \<Rightarrow> fmt_arg \<Rightarrow> format_specs" where
  "adjust_specs sp a =
     (let sp1 = (if spec_alt sp \<and> is_zero_int a then sp\<lparr>spec_alt := False\<rparr> else sp) in
      if spec_fill sp1 \<noteq> [] \<and> hd (spec_fill sp1) = CHR ''0'' then
        (if is_arithmetic_type (type_of_arg a) \<and> spec_align sp1 \<noteq> Align_left then sp1\<lparr>spec_align := Align_numeric\<rparr>
         else set_fill (CHR '' '') sp1)
      else sp1)"

text \<open>
  The length modifier and the conversion of the argument.  At the end of the format string the default case steps back
  to the character before it, which is \<open>prev\<close>.
\<close>

definition parse_length :: "char \<Rightarrow> string \<Rightarrow> fmt_arg \<Rightarrow> fmt_arg \<times> string" where
  "parse_length prev s a =
     (let c = char_at s; s1 = tl s; t = char_at s1 in
      if c = CHR ''h'' then
        (if t = CHR ''h'' then (convert_arg Schar_target (char_at (tl s1)) a, tl s1) else (convert_arg Short_target t a, s1))
      else if c = CHR ''l'' then
        (if t = CHR ''l'' then (convert_arg Long_target (char_at (tl s1)) a, tl s1) else (convert_arg Long_target t a, s1))
      else if c = CHR ''j'' \<or> c = CHR ''z'' \<or> c = CHR ''t'' then (convert_arg Long_target t a, s1)
      else if c = CHR ''L'' then (a, s1)
      else (convert_arg Void_target c a, if s = [] then [prev] else s))"

definition normalize_type :: "char \<Rightarrow> fmt_arg \<Rightarrow> format_specs \<Rightarrow> format_specs \<times> fmt_arg" where
  "normalize_type t a sp =
     (if is_integral_type (type_of_arg a) then
        (if t = CHR ''i'' \<or> t = CHR ''u'' then (sp\<lparr>spec_type := CHR ''d''\<rparr>, a)
         else if t = CHR ''c'' then (sp\<lparr>spec_type := t\<rparr>, char_converter a)
         else (sp\<lparr>spec_type := t\<rparr>, a))
      else (sp\<lparr>spec_type := t\<rparr>, a))"

text \<open>From the argument on: its text and the rest.\<close>

definition printf_convert :: "fmt_locale \<Rightarrow> char \<Rightarrow> format_specs \<Rightarrow> fmt_arg \<Rightarrow> string \<Rightarrow> (string \<times> string) fmt_result" where
  "printf_convert loc prev sp a s =
     (let sp1 = (if spec_precision sp \<ge> 0 \<and> is_integral_type (type_of_arg a) then set_fill (CHR '' '') sp else sp) in
      case limit_cstring sp1 a of
        None \<Rightarrow> None
      | Some a1 \<Rightarrow>
          (case parse_length prev s a1 of
             (a2, []) \<Rightarrow> fmt_err ''invalid format string''
           | (a2, t # rest) \<Rightarrow>
               (case normalize_type t a2 (adjust_specs sp1 a1) of
                  (sp2, a3) \<Rightarrow> fmt_bind (printf_write loc sp2 a3) (\<lambda>txt. fmt_ok (txt, rest)))))"

text \<open>After the percent sign: the text, the next argument and the rest.\<close>

definition printf_specification ::
  "fmt_locale \<Rightarrow> fmt_args \<Rightarrow> char \<Rightarrow> string \<Rightarrow> int \<Rightarrow> (string \<times> int \<times> string) fmt_result" where
  "printf_specification loc args prev s n =
     fmt_bind (parse_header args s n (default_specs\<lparr>spec_align := Align_right\<rparr>)) (\<lambda>(arg_index, sp1, n1, s1).
       if arg_index = 0 then fmt_err ''argument not found''
       else
         fmt_bind (printf_precision args s1 n1 sp1) (\<lambda>(sp2, n2, s2).
           fmt_bind (printf_get_arg args arg_index n2) (\<lambda>(a, n3).
             fmt_bind (printf_convert loc prev sp2 a s2) (\<lambda>(txt, rest). fmt_ok (txt, n3, rest)))))"

section \<open>Facts\<close>

lemma parse_flags_length: "length (snd (parse_flags s sp)) \<le> length s"
  by (induction s sp rule: parse_flags.induct) (auto intro: le_SucI)

lemma parse_int_length: "parse_int s = fmt_ok (v, rest) \<Longrightarrow> length rest \<le> length s"
  by (auto simp: parse_int_def dest: parse_nonnegative_int_length split: prod.splits sum.splits)

lemma flags_and_width_length:
  assumes "flags_and_width args s n sp = fmt_ok (sp1, n1, rest)"
  shows "length rest \<le> length s"
proof -
  obtain sp2 s2 where f: "parse_flags s sp = (sp2, s2)" by force
  then have l: "length s2 \<le> length s" using parse_flags_length [of s sp] by simp
  show ?thesis
  proof (cases s2)
    case Nil
    then show ?thesis using assms f by (simp add: flags_and_width_def)
  next
    case (Cons c cs)
    consider "is_digit c" | "\<not> is_digit c" "c = CHR ''*''" | "\<not> is_digit c" "c \<noteq> CHR ''*''" by blast
    then show ?thesis
    proof cases
      case 1
      then obtain w where "parse_int (c # cs) = fmt_ok (w, rest)"
        using assms f Cons by (auto simp: flags_and_width_def elim!: fmt_bind_okE)
      then show ?thesis using parse_int_length l Cons by force
    next
      case 2
      then have "rest = cs" using assms f Cons by (auto simp: flags_and_width_def printf_star_def elim!: fmt_bind_okE)
      then show ?thesis using l Cons by simp
    next
      case 3
      then show ?thesis using assms f Cons l by (simp add: flags_and_width_def)
    qed
  qed
qed

lemma parse_header_length:
  assumes "parse_header args s n sp = fmt_ok (i, sp1, n1, rest)"
  shows "length rest \<le> length s"
proof (cases "is_digit (char_at s)")
  case False
  then show ?thesis using assms flags_and_width_length by (auto simp: parse_header_def Let_def elim!: fmt_bind_okE)
next
  case True
  with assms obtain v r where v: "parse_int s = fmt_ok (v, r)"
    and b: "(if r \<noteq> [] \<and> hd r = CHR ''$'' then
            fmt_bind (flags_and_width args (tl r) n sp) (\<lambda>r. fmt_ok (int v, r))
          else
            let sp1 = (if char_at s = CHR ''0'' then set_fill (CHR ''0'') sp else sp) in
            if v \<noteq> 0 then fmt_ok (- 1, sp1\<lparr>spec_width := v\<rparr>, n, r)
            else fmt_bind (flags_and_width args r n sp1) (\<lambda>r. fmt_ok (- 1, r))) = fmt_ok (i, sp1, n1, rest)"
    by (auto simp: parse_header_def Let_def elim!: fmt_bind_okE)
  have l: "length r \<le> length s" by (rule parse_int_length [OF v])
  have f: "length rest \<le> length s" if "flags_and_width args x n y = fmt_ok (sp1, n1, rest)" "length x \<le> length r" for x y
    using flags_and_width_length [OF that(1)] that(2) l by linarith
  show ?thesis using b f l
    by (cases "r \<noteq> [] \<and> hd r = CHR ''$''"; cases "v = 0") (auto simp: Let_def elim!: fmt_bind_okE)
qed

lemma printf_precision_length:
  assumes "printf_precision args s n sp = fmt_ok (sp1, n1, rest)"
  shows "length rest \<le> length s"
proof (cases "s \<noteq> [] \<and> hd s = CHR ''.''")
  case False
  then show ?thesis using assms by (auto simp: printf_precision_def)
next
  case True
  have t: "length (tl s) \<le> length s" "length (tl (tl s)) \<le> length s" by simp_all
  consider "is_digit (char_at (tl s))" | "\<not> is_digit (char_at (tl s))" "char_at (tl s) = CHR ''*''"
    | "\<not> is_digit (char_at (tl s))" "char_at (tl s) \<noteq> CHR ''*''" by blast
  then show ?thesis
  proof cases
    case 1
    then obtain p where "parse_int (tl s) = fmt_ok (p, rest)"
      using assms True by (auto simp: printf_precision_def Let_def elim!: fmt_bind_okE)
    from parse_int_length [OF this] t show ?thesis by simp
  next
    case 2
    then show ?thesis using assms True t by (auto simp: printf_precision_def Let_def elim!: fmt_bind_okE)
  next
    case 3
    then show ?thesis using assms True t by (auto simp: printf_precision_def Let_def)
  qed
qed

lemma parse_length_length: "length (snd (parse_length prev s a)) \<le> max 1 (length s)"
  unfolding parse_length_def Let_def by (auto intro: le_max_iff_disj [THEN iffD2])

lemma printf_convert_length:
  assumes "printf_convert loc prev sp a s = fmt_ok (txt, rest)"
  shows "length rest \<le> length s"
proof -
  from assms obtain a1 where "(case parse_length prev s a1 of
             (a2, []) \<Rightarrow> fmt_err ''invalid format string''
           | (a2, t # rest) \<Rightarrow>
               (case normalize_type t a2 (adjust_specs (if spec_precision sp \<ge> 0 \<and> is_integral_type (type_of_arg a) then set_fill (CHR '' '') sp else sp) a1) of
                  (sp2, a3) \<Rightarrow> fmt_bind (printf_write loc sp2 a3) (\<lambda>txt. fmt_ok (txt, rest)))) = fmt_ok (txt, rest)"
    by (auto simp: printf_convert_def Let_def split: option.splits)
  then obtain t where "snd (parse_length prev s a1) = t # rest"
    by (auto elim!: fmt_bind_okE split: prod.splits list.splits)
  then show ?thesis using parse_length_length [of prev s a1] by simp
qed

lemma printf_specification_length:
  assumes "printf_specification loc args prev s n = fmt_ok (txt, n3, rest)"
  shows "length rest \<le> length s"
proof -
  from assms obtain i sp1 n1 s1 sp2 n2 s2 a where
    "parse_header args s n (default_specs\<lparr>spec_align := Align_right\<rparr>) = fmt_ok (i, sp1, n1, s1)"
    "printf_precision args s1 n1 sp1 = fmt_ok (sp2, n2, s2)"
    "printf_convert loc prev sp2 a s2 = fmt_ok (txt, rest)"
    unfolding printf_specification_def by (auto elim!: fmt_bind_okE split: if_splits)
  from parse_header_length [OF this(1)] printf_precision_length [OF this(2)] printf_convert_length [OF this(3)]
  show ?thesis by linarith
qed

section \<open>The loop\<close>

function printf_loop :: "fmt_locale \<Rightarrow> fmt_args \<Rightarrow> string \<Rightarrow> string \<Rightarrow> int \<Rightarrow> string fmt_result" where
  "printf_loop loc args [] out n = fmt_ok out"
| "printf_loop loc args (c # cs) out n =
     (if c \<noteq> CHR ''%'' then printf_loop loc args cs (out @ [c]) n
      else if cs \<noteq> [] \<and> hd cs = CHR ''%'' then printf_loop loc args (tl cs) (out @ ''%'') n
      else
        fmt_bind (printf_specification loc args (last (c # cs)) cs n) (\<lambda>r.
          printf_loop loc args (snd (snd r)) (out @ fst r) (fst (snd r))))"
  by pat_completeness auto
termination
proof (relation "measure (\<lambda>(loc, args, s, out, n). length s)")
  fix loc args c cs n out x
  assume "printf_specification loc args (last (c # cs)) cs n = fmt_ok x"
  then have "length (snd (snd x)) \<le> length cs" by (cases x) (auto dest: printf_specification_length)
  then show "((loc, args, snd (snd x), out @ fst x, fst (snd x)), loc, args, c # cs, out, n)
      \<in> measure (\<lambda>(loc, args, s, out, n). length s)" by simp
qed auto

definition vsprintf :: "fmt_locale \<Rightarrow> string \<Rightarrow> fmt_args \<Rightarrow> string fmt_result" where
  "vsprintf loc s args = printf_loop loc args s [] 0"

end
