(* ===== verification/Printf_C.thy ===== *)
theory Printf_C imports Fmt_Printf begin

text \<open>
  \<open>printf\<close> of spdlog/fmt/bundled/printf.h against the integer conversions of the C standard (7.21.6.1): the reference is
  \<open>c_integer\<close>, written after the text of the standard; where the code differs is excluded by \<open>c_conforming\<close>, and
  examples show that it does differ there.
\<close>

section \<open>The conversions of C\<close>

datatype c_length = C_none | C_hh | C_h | C_l | C_ll | C_j | C_z | C_t

fun length_text :: "c_length \<Rightarrow> string" where
  "length_text C_none = []"
| "length_text C_hh = ''hh''"
| "length_text C_h = ''h''"
| "length_text C_l = ''l''"
| "length_text C_ll = ''ll''"
| "length_text C_j = ''j''"
| "length_text C_z = ''z''"
| "length_text C_t = ''t''"

text \<open>A conversion specification: flags, minimum width, precision, length modifier, conversion specifier.\<close>

record c_spec =
  c_flags :: string
  c_width :: nat
  c_precision :: "nat option"
  c_length :: c_length
  c_type :: char

definition spec_text :: "c_spec \<Rightarrow> string" where
  "spec_text cs =
     ''%'' @ c_flags cs @ (if c_width cs = 0 then [] else dec (c_width cs))
     @ (case c_precision cs of None \<Rightarrow> [] | Some p \<Rightarrow> ''.'' @ dec p) @ length_text (c_length cs) @ [c_type cs]"

fun radix :: "nat \<Rightarrow> bool \<Rightarrow> nat \<Rightarrow> string" where
  "radix b upper n =
     (let d = (if upper then ''0123456789ABCDEF'' else ''0123456789abcdef'') ! (n mod b) in
      if b \<le> 1 \<or> n < b then [d] else radix b upper (n div b) @ [d])"

declare radix.simps [simp del]

definition c_signed :: "char \<Rightarrow> bool" where
  "c_signed t \<longleftrightarrow> t = CHR ''d'' \<or> t = CHR ''i''"

definition c_numeral :: "char \<Rightarrow> nat \<Rightarrow> string" where
  "c_numeral t m =
     (if t = CHR ''x'' then radix 16 False m else if t = CHR ''X'' then radix 16 True m
      else if t = CHR ''o'' then radix 8 False m else radix 10 False m)"

text \<open>The number after the conversion that the length modifier asks for.\<close>

definition c_value :: "c_length \<Rightarrow> char \<Rightarrow> fmt_arg \<Rightarrow> int \<Rightarrow> int" where
  "c_value l t a v =
     (let own = (if is_wide a then 64 else 32);
          bits = (case l of C_hh \<Rightarrow> 8 | C_h \<Rightarrow> 16 | C_none \<Rightarrow> own | _ \<Rightarrow> if c_signed t then 64 else own) in
      if c_signed t then signed_take_bit (bits - 1) v else take_bit bits v)"

definition c_prefix :: "c_spec \<Rightarrow> string \<Rightarrow> int \<Rightarrow> string" where
  "c_prefix cs digits v =
     (let flag = (\<lambda>c. c \<in> set (c_flags cs)) in
      if c_signed (c_type cs) then
        (if v < 0 then ''-'' else if flag (CHR ''+'') then ''+'' else if flag (CHR '' '') then '' '' else [])
      else if flag (CHR ''#'') \<and> v \<noteq> 0 then
        (if c_type cs = CHR ''x'' \<or> c_type cs = CHR ''X'' then [CHR ''0'', c_type cs]
         else if c_type cs = CHR ''o'' \<and> hd digits \<noteq> CHR ''0'' then ''0'' else [])
      else [])"

text \<open>The precision is the minimum number of digits; zeros fill the width unless there is a precision or a minus flag.\<close>

definition c_integer :: "c_spec \<Rightarrow> int \<Rightarrow> string" where
  "c_integer cs v =
     (let numeral = c_numeral (c_type cs) (nat \<bar>v\<bar>);
          digits = (case c_precision cs of None \<Rightarrow> numeral | Some p \<Rightarrow> replicate (p - length numeral) (CHR ''0'') @ numeral);
          prefix = c_prefix cs digits v;
          fill = c_width cs - length (prefix @ digits) in
      if CHR ''-'' \<in> set (c_flags cs) then prefix @ digits @ replicate fill (CHR '' '')
      else if CHR ''0'' \<in> set (c_flags cs) \<and> c_precision cs = None then prefix @ replicate fill (CHR ''0'') @ digits
      else replicate fill (CHR '' '') @ prefix @ digits)"

text \<open>
  The conversions that are defined and that the code does the same way: no sign flags for unsigned conversions (the code
  prints a sign), not a zero with precision 0 (the code prints it, the standard nothing), and with \<open>#x\<close> not a number that
  the length modifier turns into zero (the code prints a prefix).
\<close>

definition c_conforming :: "c_spec \<Rightarrow> fmt_arg \<Rightarrow> bool" where
  "c_conforming cs a \<longleftrightarrow>
     set (c_flags cs) \<subseteq> set ''-+ 0#'' \<and> c_type cs \<in> set ''diuxXo''
     \<and> c_width cs \<le> max_int \<and> (case c_precision cs of None \<Rightarrow> True | Some p \<Rightarrow> p \<le> max_int)
     \<and> (case arg_int a of
          None \<Rightarrow> False
        | Some v \<Rightarrow>
            (c_signed (c_type cs) \<or> CHR ''+'' \<notin> set (c_flags cs) \<and> CHR '' '' \<notin> set (c_flags cs))
            \<and> (c_value (c_length cs) (c_type cs) a v = 0 \<longrightarrow> c_precision cs \<noteq> Some 0 \<and> (v = 0 \<or> CHR ''#'' \<notin> set (c_flags cs) \<or> c_type cs \<notin> set ''xX'')))"

section \<open>Numerals\<close>

lemma hex_chars_low: "list_all (\<lambda>d. ''0123456789abcdef'' ! d = digit_char d) [0..<10]"
  by code_simp

lemma radix_dec: "radix 10 False n = dec n"
proof (induction n rule: dec.induct)
  case (1 n)
  have d: "''0123456789abcdef'' ! d = digit_char d" if "d < 10" for d
    using hex_chars_low that unfolding list_all_iff by (metis atLeastLessThan_iff le0 set_upt)
  show ?case
  proof (cases "n < 10")
    case True
    then show ?thesis using d [OF True] by (subst radix.simps) (simp add: dec_small Let_def)
  next
    case False
    then show ?thesis using 1 d [of "n mod 10"] by (subst radix.simps) (simp add: dec_step Let_def)
  qed
qed

lemma hex_chars_octal: "list_all (\<lambda>d. ''0123456789abcdef'' ! d = char_of (48 + d)) [0..<8]"
  by code_simp

lemma radix_uint_loop:
  assumes "bits = 3 \<and> \<not> upper \<or> bits = 4"
  shows "uint_loop bits upper n out = radix (2 ^ bits) upper n @ out"
  using assms
proof (induction bits upper n out rule: uint_loop.induct)
  case (1 bits upper n out)
  have b: "\<not> (2 :: nat) ^ bits \<le> 1" "bits \<noteq> 0" using 1(2) by auto
  have d: "uint_digit bits upper (n mod 2 ^ bits) = (if upper then ''0123456789ABCDEF'' else ''0123456789abcdef'') ! (n mod 2 ^ bits)"
    using 1(2)
  proof
    assume o: "bits = 3 \<and> \<not> upper"
    have "n mod 8 \<in> set [0..<8]" by simp
    then have "''0123456789abcdef'' ! (n mod 8) = char_of (48 + n mod 8)" using hex_chars_octal unfolding list_all_iff by blast
    then show ?thesis using o by (simp add: uint_digit_def)
  qed (simp add: uint_digit_def)
  show ?case
  proof (cases "n div 2 ^ bits = 0")
    case True
    then have "n < 2 ^ bits" by (simp add: div_eq_0_iff)
    then show ?thesis using True d b by (subst uint_loop.simps, subst radix.simps) (simp add: Let_def)
  next
    case False
    then have "\<not> n < 2 ^ bits" by auto
    moreover have "uint_loop bits upper (n div 2 ^ bits) (uint_digit bits upper (n mod 2 ^ bits) # out)
        = radix (2 ^ bits) upper (n div 2 ^ bits) @ uint_digit bits upper (n mod 2 ^ bits) # out"
      using 1(1) [OF refl] 1(2) False b by simp
    ultimately show ?thesis using False d b by (subst uint_loop.simps, subst radix.simps) (simp add: Let_def)
  qed
qed

section \<open>Parsing\<close>

definition flag_char :: "char \<Rightarrow> bool" where
  "flag_char c \<longleftrightarrow> c \<in> set ''-+ 0#''"

lemma flag_char_cases: "flag_char c \<Longrightarrow> c = CHR ''-'' \<or> c = CHR ''+'' \<or> c = CHR '' '' \<or> c = CHR ''0'' \<or> c = CHR ''#''"
  by (auto simp: flag_char_def)

text \<open>What the flags make of the specifiers.\<close>

definition with_flags :: "string \<Rightarrow> format_specs \<Rightarrow> format_specs" where
  "with_flags fl sp =
     sp\<lparr>spec_align := if CHR ''-'' \<in> set fl then Align_left else spec_align sp,
        spec_sign := if CHR ''+'' \<in> set fl \<or> spec_sign sp = Sign_plus then Sign_plus
                     else if CHR '' '' \<in> set fl then Sign_space else spec_sign sp,
        spec_alt := spec_alt sp \<or> CHR ''#'' \<in> set fl,
        spec_fill := if CHR ''0'' \<in> set fl then (spec_fill sp)[0 := CHR ''0''] else spec_fill sp\<rparr>"

lemma with_flags_Nil: "with_flags [] sp = sp"
  by (simp add: with_flags_def)

lemma with_flag:
  "with_flags ''-'' sp = sp\<lparr>spec_align := Align_left\<rparr>"
  "with_flags ''+'' sp = sp\<lparr>spec_sign := Sign_plus\<rparr>"
  "with_flags '' '' sp = (if spec_sign sp \<noteq> Sign_plus then sp\<lparr>spec_sign := Sign_space\<rparr> else sp)"
  "with_flags ''0'' sp = set_fill (CHR ''0'') sp"
  "with_flags ''#'' sp = sp\<lparr>spec_alt := True\<rparr>"
  by (cases sp; simp add: with_flags_def set_fill_def)+

lemma parse_flag:
  "parse_flags (CHR ''-'' # cs) sp = parse_flags cs (with_flags ''-'' sp)"
  "parse_flags (CHR ''+'' # cs) sp = parse_flags cs (with_flags ''+'' sp)"
  "parse_flags (CHR '' '' # cs) sp = parse_flags cs (with_flags '' '' sp)"
  "parse_flags (CHR ''0'' # cs) sp = parse_flags cs (with_flags ''0'' sp)"
  "parse_flags (CHR ''#'' # cs) sp = parse_flags cs (with_flags ''#'' sp)"
  by (simp_all add: with_flag)

lemma with_flags_Cons: "with_flags fl (with_flags [c] sp) = with_flags (c # fl) sp"
  by (auto simp: with_flags_def)

lemma parse_flags_all:
  assumes "list_all flag_char fl" "s = [] \<or> \<not> flag_char (hd s)"
  shows "parse_flags (fl @ s) sp = (with_flags fl sp, s)"
  using assms(1)
proof (induction fl arbitrary: sp)
  case Nil
  show ?case
  proof (cases s)
    case (Cons c cs)
    then have "c \<noteq> CHR ''-'' \<and> c \<noteq> CHR ''+'' \<and> c \<noteq> CHR '' '' \<and> c \<noteq> CHR ''0'' \<and> c \<noteq> CHR ''#''" using assms(2) by (simp add: flag_char_def)
    then show ?thesis using Cons by (simp add: with_flags_Nil)
  qed (simp add: with_flags_Nil)
next
  case (Cons c fl)
  then have "parse_flags (fl @ s) (with_flags [c] sp) = (with_flags (c # fl) sp, s)" by (simp add: with_flags_Cons)
  moreover from Cons.prems have "flag_char c" by simp
  ultimately show ?case using flag_char_cases [of c] parse_flag [of "fl @ s" sp] by auto
qed

lemma parse_int_digits:
  assumes "list_all is_digit ds" "ds \<noteq> []" "s = [] \<or> \<not> is_digit (hd s)" "numeral_value 0 ds \<le> max_int"
  shows "parse_int (ds @ s) = fmt_ok (numeral_value 0 ds, s)"
  using parse_loop_spec [OF assms(1,3), of 0] assms(4) by (simp add: parse_int_def parse_nonnegative_int_def)

lemma numeral_value_zeros: "numeral_value 0 (replicate k (CHR ''0'') @ ds) = numeral_value 0 ds"
proof -
  have "digit_value (CHR ''0'') = 0" by (simp add: digit_value_def)
  then have "numeral_value 0 (replicate k (CHR ''0'')) = 0" by (induction k) (simp_all add: numeral_value_def)
  then show ?thesis by (simp add: numeral_value_def)
qed

definition width_text :: "nat \<Rightarrow> string" where
  "width_text w = (if w = 0 then [] else dec w)"

lemma zeros_flags:
  obtains k fs where "fl = replicate k (CHR ''0'') @ fs" "fs = [] \<or> hd fs \<noteq> CHR ''0''"
proof -
  have "\<exists>k fs. fl = replicate k (CHR ''0'') @ fs \<and> (fs = [] \<or> hd fs \<noteq> CHR ''0'')"
  proof (induction fl)
    case (Cons c fl)
    then obtain k fs where "fl = replicate k (CHR ''0'') @ fs" "fs = [] \<or> hd fs \<noteq> CHR ''0''" by blast
    then show ?case
      by (cases "c = CHR ''0''") (rule exI [of _ "Suc k"], force, rule exI [of _ 0], force)
  qed simp
  then show ?thesis using that by blast
qed

text \<open>What follows the width: a point, a length modifier or a conversion specifier.\<close>

definition after_width :: "string \<Rightarrow> bool" where
  "after_width s \<longleftrightarrow> s \<noteq> [] \<and> \<not> is_digit (hd s) \<and> \<not> flag_char (hd s) \<and> hd s \<noteq> CHR ''*'' \<and> hd s \<noteq> CHR ''$''"

lemma flag_char_zero: "flag_char (CHR ''0'')" "\<not> flag_char (CHR ''$'')"
  by (simp_all add: flag_char_def)

lemma flag_char_digit: "flag_char c \<Longrightarrow> is_digit c \<Longrightarrow> c = CHR ''0''"
  using flag_char_cases [of c] digit_literals by auto

lemma width_head:
  assumes "0 < w"
  obtains d ds where "dec w = d # ds" "is_digit d" "\<not> flag_char d"
proof -
  obtain d ds where d: "dec w = d # ds" by (cases "dec w") auto
  then have "is_digit d" "d \<noteq> CHR ''0''" using dec_hd [OF assms] by simp_all
  then show ?thesis using d that flag_char_digit by blast
qed

lemma flags_and_width_print:
  assumes "list_all flag_char fl" "w \<le> max_int" "after_width s" "spec_width sp = 0"
  shows "flags_and_width args (fl @ width_text w @ s) n sp = fmt_ok ((with_flags fl sp)\<lparr>spec_width := w\<rparr>, n, s)"
proof (cases "w = 0")
  case True
  have "(with_flags fl sp)\<lparr>spec_width := 0\<rparr> = with_flags fl sp" using assms(4) by (simp add: with_flags_def)
  moreover have "parse_flags (fl @ s) sp = (with_flags fl sp, s)" using assms by (intro parse_flags_all) (simp_all add: after_width_def)
  ultimately show ?thesis using True assms(3) by (cases s) (simp_all add: flags_and_width_def width_text_def after_width_def)
next
  case False
  then obtain d ds where d: "dec w = d # ds" "is_digit d" "\<not> flag_char d" using width_head [of w] by auto
  then have "parse_flags (fl @ dec w @ s) sp = (with_flags fl sp, dec w @ s)" using assms by (intro parse_flags_all) simp_all
  moreover have "parse_int (dec w @ s) = fmt_ok (w, s)"
    using parse_int_digits [of "dec w" s] dec_digits assms by (simp add: numeral_value_dec after_width_def)
  ultimately show ?thesis using False d by (simp add: flags_and_width_def width_text_def)
qed

lemma with_flags_zeros: "with_flags (replicate (Suc k) (CHR ''0'') @ fl) sp = with_flags fl (set_fill (CHR ''0'') sp)"
  by (auto simp: with_flags_def set_fill_def)

lemma parse_header_print:
  assumes "list_all flag_char fl" "w \<le> max_int" "after_width s" "spec_width sp = 0"
  shows "parse_header args (fl @ width_text w @ s) n sp = fmt_ok (- 1, (with_flags fl sp)\<lparr>spec_width := w\<rparr>, n, s)"
proof -
  obtain k fs where f: "fl = replicate k (CHR ''0'') @ fs" "fs = [] \<or> hd fs \<noteq> CHR ''0''" by (rule zeros_flags)
  have fs: "list_all flag_char fs" using assms(1) f(1) by simp
  note fw = flags_and_width_print [OF _ assms(2,3)]
  show ?thesis
  proof (cases k)
    case 0
    show ?thesis
    proof (cases "fs = [] \<and> 0 < w")
      case True
      then obtain d ds where d: "dec w = d # ds" "is_digit d" "\<not> flag_char d" using width_head [of w] by auto
      have "parse_int (dec w @ s) = fmt_ok (w, s)"
        using parse_int_digits [of "dec w" s] dec_digits assms by (simp add: numeral_value_dec after_width_def)
      then show ?thesis using True d 0 f assms(3) flag_char_zero
        by (auto simp: parse_header_def width_text_def char_at_def with_flags_Nil Let_def after_width_def)
    next
      case False
      have "\<not> is_digit (char_at (fl @ width_text w @ s))"
      proof (cases fs)
        case Nil
        then show ?thesis using False 0 f assms(3) by (cases s) (simp_all add: width_text_def char_at_def after_width_def)
      next
        case (Cons c cs)
        then show ?thesis using 0 f fs flag_char_digit by (auto simp: char_at_def)
      qed
      then show ?thesis using fw [OF assms(1,4)] by (simp add: parse_header_def)
    qed
  next
    case (Suc j)
    have c: "char_at (fl @ width_text w @ s) = CHR ''0''" "is_digit (CHR ''0'')" using f Suc digit_literals by (simp_all add: char_at_def)
    show ?thesis
    proof (cases fs)
      case Nil
      let ?ds = "replicate k (CHR ''0'') @ width_text w"
      have "numeral_value 0 ?ds = w" unfolding numeral_value_zeros
        using numeral_value_dec [of w] by (cases "w = 0") (simp_all add: width_text_def numeral_value_def)
      moreover have "list_all is_digit ?ds" using dec_digits [of w] c(2) by (auto simp: width_text_def list_all_iff)
      ultimately have p: "parse_int (fl @ width_text w @ s) = fmt_ok (w, s)"
        using parse_int_digits [of ?ds s] assms Suc f Nil by (simp add: after_width_def)
      have w: "with_flags fl sp = set_fill (CHR ''0'') sp" using with_flags_zeros [of j "[]" sp] f(1) Nil Suc by (simp add: with_flags_Nil)
      have "hd s \<noteq> CHR ''$''" using assms(3) by (simp add: after_width_def)
      moreover have "flags_and_width args s n (set_fill (CHR ''0'') sp) = fmt_ok ((set_fill (CHR ''0'') sp)\<lparr>spec_width := 0\<rparr>, n, s)"
        using flags_and_width_print [of "[]" 0 s "set_fill (CHR ''0'') sp" args n] assms(3,4)
        by (simp add: width_text_def with_flags_Nil set_fill_def)
      ultimately show ?thesis using p c w by (cases "w = 0") (simp_all add: parse_header_def Let_def)
    next
      case (Cons g gs)
      have g: "\<not> is_digit g" "g \<noteq> CHR ''$''" using f(2) fs Cons flag_char_digit flag_char_zero(2) by auto
      let ?ds = "replicate k (CHR ''0'')"
      have "numeral_value 0 ?ds = 0" using numeral_value_zeros [of k "[]"] by (simp add: numeral_value_def)
      moreover have "list_all is_digit ?ds" using c(2) by (simp add: list_all_iff)
      ultimately have p: "parse_int (fl @ width_text w @ s) = fmt_ok (0, fs @ width_text w @ s)"
        using parse_int_digits [of ?ds "fs @ width_text w @ s"] Suc f g Cons by simp
      have "flags_and_width args (fs @ width_text w @ s) n (set_fill (CHR ''0'') sp) = fmt_ok ((with_flags fl sp)\<lparr>spec_width := w\<rparr>, n, s)"
        using fw [OF fs, of "set_fill (CHR ''0'') sp"] assms(4) with_flags_zeros [of j fs sp] f(1) Suc by (simp add: set_fill_def)
      then show ?thesis using p c g Cons by (simp add: parse_header_def Let_def)
    qed
  qed
qed

lemma printf_precision_print:
  assumes "case p of None \<Rightarrow> True | Some q \<Rightarrow> q \<le> max_int" "s \<noteq> []" "\<not> is_digit (hd s)" "hd s \<noteq> CHR ''.''"
  shows "printf_precision args ((case p of None \<Rightarrow> [] | Some q \<Rightarrow> ''.'' @ dec q) @ s) n sp
    = fmt_ok (case p of None \<Rightarrow> sp | Some q \<Rightarrow> sp\<lparr>spec_precision := int q\<rparr>, n, s)"
proof (cases p)
  case (Some q)
  obtain d ds where d: "dec q = d # ds" by (cases "dec q") auto
  have "is_digit d" using dec_digits [of q] d by simp
  moreover have "parse_int (dec q @ s) = fmt_ok (q, s)"
    using parse_int_digits [of "dec q" s] dec_digits assms Some by (simp add: numeral_value_dec)
  ultimately show ?thesis using Some d by (simp add: printf_precision_def char_at_def Let_def)
qed (use assms in \<open>simp add: printf_precision_def\<close>)

fun target_of :: "c_length \<Rightarrow> target_type" where
  "target_of C_none = Void_target"
| "target_of C_hh = Schar_target"
| "target_of C_h = Short_target"
| "target_of _ = Long_target"

lemma parse_length_print:
  assumes "t \<in> set ''diuxXo''"
  shows "parse_length prev (length_text l @ t # rest) a = (convert_arg (target_of l) t a, t # rest)"
proof -
  have t: "t \<noteq> CHR ''h''" "t \<noteq> CHR ''l''" "t \<noteq> CHR ''j''" "t \<noteq> CHR ''z''" "t \<noteq> CHR ''t''" "t \<noteq> CHR ''L''" using assms by auto
  show ?thesis by (cases l) (simp_all add: parse_length_def char_at_def Let_def t)
qed

section \<open>Conversion of the argument\<close>

lemma sint_of_int: "sint (word_of_int v :: u32) = signed_take_bit 31 v" "sint (word_of_int v :: u64) = signed_take_bit 63 v"
  by (simp_all add: signed_of_int)

lemma uint_of_int: "uint (word_of_int v :: u32) = take_bit 32 v" "uint (word_of_int v :: u64) = take_bit 64 v"
  by (simp_all add: unsigned_of_int)

lemma convert_arg_value:
  assumes "arg_int a = Some v"
  shows "arg_int (convert_arg (target_of l) t a) = Some (c_value l t a v)"
proof -
  have iv: "integral_value a = Some v" "type_of_arg a \<noteq> Bool_type" "type_of_arg a \<noteq> Char_type" using assms by (cases a; simp)+
  have conv: "convert_arg (target_of l) t a = convert_integral (target_of l) t a v" using iv by (simp add: convert_arg_def)
  have nb: "(case a of Bool_arg b \<Rightarrow> x1 b | Char_arg c \<Rightarrow> x2 c | _ \<Rightarrow> y) = y" for x1 x2 and y :: fmt_arg using iv by (cases a) simp_all
  have s: "signed_take_bit 31 (signed_take_bit 7 v) = signed_take_bit 7 v" "signed_take_bit 31 (signed_take_bit 15 v) = signed_take_bit 15 v"
    "take_bit 32 (take_bit 8 v) = take_bit 8 v" "take_bit 32 (take_bit 16 v) = take_bit 16 v"
    by (simp_all add: signed_take_bit_signed_take_bit)
  show ?thesis
    unfolding conv convert_integral_def Let_def nb
    by (cases l; cases "is_wide a"; cases "c_signed t")
      (simp_all add: c_value_def cast_signed_def cast_unsigned_def iv sint_of_int uint_of_int s c_signed_def [symmetric] del: take_bit_take_bit)
qed

lemma arg_int_kind:
  assumes "arg_int a = Some v"
  shows "is_integral_type (type_of_arg a)" "is_arithmetic_type (type_of_arg a)" "printf_write loc sp a = write_arg loc sp a"
    "limit_cstring sp a = Some a" "is_zero_int a \<longleftrightarrow> v = 0"
  using assms by (cases a; simp add: is_integral_type_def is_arithmetic_type_def limit_cstring_def is_zero_int_def)+

section \<open>The text of an integer\<close>

lemma write_int_right:
  assumes "spec_fill sp = '' ''" "spec_align sp \<noteq> Align_numeric" "spec_align sp = (if left then Align_left else Align_right)"
    and "spec_width sp \<le> max_int"
  shows "write_int (length ds) pre sp (Some ds)
    = Some (let digits = replicate (nat (spec_precision sp - int (length ds))) (CHR ''0'') @ ds;
                fill = replicate (spec_width sp - length (pre @ digits)) (CHR '' '') in
            if left then pre @ digits @ fill else fill @ pre @ digits)"
proof -
  define z where "z = nat (spec_precision sp - int (length ds))"
  define pad where "pad = spec_width sp - (length pre + z + length ds)"
  have data: "write_int_data (length ds) pre sp = (length pre + z + length ds, z)"
    using assms(2) by (simp add: write_int_data_def z_def Let_def) arith
  have "pad < 2 ^ 31" using assms(4) by (simp add: pad_def max_int_def)
  then have div: "pad div 2 ^ 31 = 0" by simp
  have pad: "(if spec_width sp > length pre + z + length ds then spec_width sp - (length pre + z + length ds) else 0) = pad"
    by (simp add: pad_def)
  have wp: "write_padded right_padding_shifts sp (length pre + z + length ds) x
      = (if left then x @ replicate pad (CHR '' '') else replicate pad (CHR '' '') @ x)" for x
    using assms(3) div by (cases left) (simp_all add: write_padded_def pad fill_n_single assms(1) align_index_def right_padding_shifts_def Let_def fill_n_def)
  let ?x = "pre @ replicate z (CHR ''0'') @ ds"
  have "write_int (length ds) pre sp (Some ds) = Some (if left then ?x @ replicate pad (CHR '' '') else replicate pad (CHR '' '') @ ?x)"
    by (simp add: write_int_def data wp)
  then show ?thesis by (simp add: Let_def z_def pad_def add.assoc)
qed

lemma write_int_numeric:
  assumes "spec_fill sp = ''0''" "spec_align sp = Align_numeric"
  shows "write_int (length ds) pre sp (Some ds)
    = Some (pre @ replicate (spec_width sp - length (pre @ ds)) (CHR ''0'') @ ds)"
  using assms by (simp add: write_int_def write_int_data_def write_padded_def fill_n_def Let_def max_def)

lemma radix_not_Nil [simp]: "radix b upper n \<noteq> []"
  by (subst radix.simps) (simp add: Let_def)

lemma octal_head:
  assumes "0 < n"
  shows "hd (radix 8 False n) \<noteq> CHR ''0''"
  using assms
proof (induction n rule: less_induct)
  case (less n)
  show ?case
  proof (cases "n < 8")
    case True
    then have "''0123456789abcdef'' ! n = char_of (48 + n)" using hex_chars_octal unfolding list_all_iff by auto
    moreover have "(of_char (char_of (48 + n) :: char) :: nat) \<noteq> of_char (CHR ''0'')" using True less.prems by simp
    then have "(char_of (48 + n) :: char) \<noteq> CHR ''0''" by metis
    ultimately have "''0123456789abcdef'' ! n \<noteq> CHR ''0''" by metis
    then show ?thesis using True by (subst radix.simps) (simp add: Let_def del: nth_Cons_numeral)
  next
    case False
    then have "hd (radix 8 False (n div 8)) \<noteq> CHR ''0''" by (intro less.IH) auto
    then show ?thesis using False by (subst radix.simps) (simp add: Let_def)
  qed
qed

section \<open>One conversion\<close>

text \<open>The specifiers of a conversion after the flags, width and precision, and when the argument is an integer.\<close>

definition parsed_specs :: "c_spec \<Rightarrow> format_specs" where
  "parsed_specs cs =
     (let sp = (with_flags (c_flags cs) (default_specs\<lparr>spec_align := Align_right\<rparr>))\<lparr>spec_width := c_width cs\<rparr> in
      case c_precision cs of None \<Rightarrow> sp | Some p \<Rightarrow> sp\<lparr>spec_precision := int p\<rparr>)"

definition integer_specs :: "c_spec \<Rightarrow> fmt_arg \<Rightarrow> format_specs" where
  "integer_specs cs a =
     adjust_specs (if spec_precision (parsed_specs cs) \<ge> 0 then set_fill (CHR '' '') (parsed_specs cs) else parsed_specs cs) a"

definition zero_padded :: "c_spec \<Rightarrow> bool" where
  "zero_padded cs \<longleftrightarrow> CHR ''0'' \<in> set (c_flags cs) \<and> c_precision cs = None \<and> CHR ''-'' \<notin> set (c_flags cs)"

lemma parsed_specs_fields:
  "spec_width (parsed_specs cs) = c_width cs"
  "spec_precision (parsed_specs cs) = (case c_precision cs of None \<Rightarrow> - 1 | Some p \<Rightarrow> int p)"
  "spec_sign (parsed_specs cs)
    = (if CHR ''+'' \<in> set (c_flags cs) then Sign_plus else if CHR '' '' \<in> set (c_flags cs) then Sign_space else Sign_none)"
  "spec_alt (parsed_specs cs) \<longleftrightarrow> CHR ''#'' \<in> set (c_flags cs)"
  "spec_align (parsed_specs cs) = (if CHR ''-'' \<in> set (c_flags cs) then Align_left else Align_right)"
  "spec_fill (parsed_specs cs) = (if CHR ''0'' \<in> set (c_flags cs) then ''0'' else '' '')"
  by (cases "c_precision cs"; simp add: parsed_specs_def with_flags_def default_specs_def Let_def)+

lemma integer_specs_fields:
  assumes "arg_int a = Some v"
  shows "spec_width (integer_specs cs a) = c_width cs"
    "spec_precision (integer_specs cs a) = (case c_precision cs of None \<Rightarrow> - 1 | Some p \<Rightarrow> int p)"
    "spec_sign (integer_specs cs a)
      = (if CHR ''+'' \<in> set (c_flags cs) then Sign_plus else if CHR '' '' \<in> set (c_flags cs) then Sign_space else Sign_none)"
    "spec_alt (integer_specs cs a) \<longleftrightarrow> CHR ''#'' \<in> set (c_flags cs) \<and> v \<noteq> 0"
    "spec_align (integer_specs cs a)
      = (if zero_padded cs then Align_numeric else if CHR ''-'' \<in> set (c_flags cs) then Align_left else Align_right)"
    "spec_fill (integer_specs cs a) = (if zero_padded cs then ''0'' else '' '')"
proof -
  define sp where "sp = (if spec_precision (parsed_specs cs) \<ge> 0 then set_fill (CHR '' '') (parsed_specs cs) else parsed_specs cs)"
  have sp: "spec_width sp = c_width cs" "spec_precision sp = (case c_precision cs of None \<Rightarrow> - 1 | Some p \<Rightarrow> int p)"
    "spec_sign sp = (if CHR ''+'' \<in> set (c_flags cs) then Sign_plus else if CHR '' '' \<in> set (c_flags cs) then Sign_space else Sign_none)"
    "spec_alt sp \<longleftrightarrow> CHR ''#'' \<in> set (c_flags cs)"
    "spec_align sp = (if CHR ''-'' \<in> set (c_flags cs) then Align_left else Align_right)"
    "spec_fill sp = (if CHR ''0'' \<in> set (c_flags cs) \<and> c_precision cs = None then ''0'' else '' '')"
    by (cases "c_precision cs"; simp add: sp_def set_fill_def parsed_specs_fields)+
  have e: "integer_specs cs a = adjust_specs sp a" by (simp add: integer_specs_def sp_def)
  define sp1 where "sp1 = (if spec_alt sp \<and> v = 0 then sp\<lparr>spec_alt := False\<rparr> else sp)"
  have s1: "spec_width sp1 = spec_width sp" "spec_precision sp1 = spec_precision sp" "spec_sign sp1 = spec_sign sp"
    "spec_alt sp1 \<longleftrightarrow> spec_alt sp \<and> v \<noteq> 0" "spec_align sp1 = spec_align sp" "spec_fill sp1 = spec_fill sp"
    by (auto simp: sp1_def)
  have ad: "adjust_specs sp a = (if spec_fill sp1 \<noteq> [] \<and> hd (spec_fill sp1) = CHR ''0'' then
        (if spec_align sp1 \<noteq> Align_left then sp1\<lparr>spec_align := Align_numeric\<rparr> else set_fill (CHR '' '') sp1) else sp1)"
    using arg_int_kind [OF assms] by (simp add: adjust_specs_def sp1_def Let_def)
  show "spec_width (integer_specs cs a) = c_width cs"
    "spec_precision (integer_specs cs a) = (case c_precision cs of None \<Rightarrow> - 1 | Some p \<Rightarrow> int p)"
    "spec_sign (integer_specs cs a)
      = (if CHR ''+'' \<in> set (c_flags cs) then Sign_plus else if CHR '' '' \<in> set (c_flags cs) then Sign_space else Sign_none)"
    "spec_alt (integer_specs cs a) \<longleftrightarrow> CHR ''#'' \<in> set (c_flags cs) \<and> v \<noteq> 0"
    unfolding e ad by (simp_all add: set_fill_def s1 sp)
  show "spec_align (integer_specs cs a)
      = (if zero_padded cs then Align_numeric else if CHR ''-'' \<in> set (c_flags cs) then Align_left else Align_right)"
    "spec_fill (integer_specs cs a) = (if zero_padded cs then ''0'' else '' '')"
    unfolding e ad zero_padded_def
    by (cases "CHR ''0'' \<in> set (c_flags cs)"; cases "c_precision cs"; simp add: set_fill_def s1 sp)+
qed

lemma digits_case:
  "(case p of None \<Rightarrow> ds | Some q \<Rightarrow> replicate (q - length ds) (CHR ''0'') @ ds)
    = replicate (nat ((case p of None \<Rightarrow> - 1 | Some q \<Rightarrow> int q) - int (length ds))) (CHR ''0'') @ ds"
  by (cases p) (simp_all add: nat_diff_distrib')

definition layout_of :: "format_specs \<Rightarrow> nat \<times> int \<times> align_t \<times> string" where
  "layout_of sp = (spec_width sp, spec_precision sp, spec_align sp, spec_fill sp)"

text \<open>A number written with these specifiers is laid out as the standard says.\<close>

lemma write_int_c:
  assumes "arg_int a = Some v" "c_width cs \<le> max_int" "layout_of sp = layout_of (integer_specs cs a)"
    and "digits = (case c_precision cs of None \<Rightarrow> ds | Some p \<Rightarrow> replicate (p - length ds) (CHR ''0'') @ ds)"
  shows "write_int (length ds) pre sp (Some ds)
    = Some (let fill = c_width cs - length (pre @ digits) in
        if CHR ''-'' \<in> set (c_flags cs) then pre @ digits @ replicate fill (CHR '' '')
        else if CHR ''0'' \<in> set (c_flags cs) \<and> c_precision cs = None then pre @ replicate fill (CHR ''0'') @ digits
        else replicate fill (CHR '' '') @ pre @ digits)"
proof -
  note f = integer_specs_fields [OF assms(1), of cs]
  have sp: "spec_width sp = c_width cs" "spec_precision sp = (case c_precision cs of None \<Rightarrow> - 1 | Some p \<Rightarrow> int p)"
    "spec_align sp = (if zero_padded cs then Align_numeric else if CHR ''-'' \<in> set (c_flags cs) then Align_left else Align_right)"
    "spec_fill sp = (if zero_padded cs then ''0'' else '' '')"
    using assms(3) f by (simp_all add: layout_of_def)
  show ?thesis
  proof (cases "zero_padded cs")
    case True
    then have "digits = ds" using assms(4) by (simp add: zero_padded_def)
    moreover have "write_int (length ds) pre sp (Some ds) = Some (pre @ replicate (c_width cs - length (pre @ ds)) (CHR ''0'') @ ds)"
      using write_int_numeric [of sp ds pre] True sp by simp
    ultimately show ?thesis using True by (simp add: zero_padded_def)
  next
    case False
    have "digits = replicate (nat (spec_precision sp - int (length ds))) (CHR ''0'') @ ds" unfolding assms(4) sp(2) by (rule digits_case)
    then show ?thesis
      using write_int_right [of sp "CHR ''-'' \<in> set (c_flags cs)" ds pre] False sp assms(2) by (auto simp: zero_padded_def Let_def)
  qed
qed

definition final_type :: "char \<Rightarrow> char" where
  "final_type t = (if t = CHR ''i'' \<or> t = CHR ''u'' then CHR ''d'' else t)"

lemma c_value_unsigned: "\<not> c_signed t \<Longrightarrow> 0 \<le> c_value l t a v"
  by (simp add: c_value_def Let_def)

lemma c_value_zero [simp]: "c_value l t a 0 = 0"
  by (simp add: c_value_def Let_def)

lemma write_arg_c:
  assumes "arg_int a = Some v" "arg_int b = Some (c_value (c_length cs) (c_type cs) a v)" "c_conforming cs a"
    and "sp = (integer_specs cs a)\<lparr>spec_type := final_type (c_type cs)\<rparr>"
  shows "write_arg loc sp b = fmt_ok (c_integer cs (c_value (c_length cs) (c_type cs) a v))"
proof -
  define t where "t = c_type cs"
  define w where "w = c_value (c_length cs) t a v"
  note f = integer_specs_fields [OF assms(1), of cs]
  have c: "c_width cs \<le> max_int" "t \<in> set ''diuxXo''" "c_signed t \<or> CHR ''+'' \<notin> set (c_flags cs) \<and> CHR '' '' \<notin> set (c_flags cs)"
    "w = 0 \<longrightarrow> c_precision cs \<noteq> Some 0 \<and> (v = 0 \<or> CHR ''#'' \<notin> set (c_flags cs) \<or> t \<notin> set ''xX'')"
    using assms(1,3) unfolding c_conforming_def t_def w_def by simp_all
  obtain u where u: "uint_value u = nat \<bar>w\<bar>" "write_arg loc sp b = write_integer loc (w < 0) u sp"
    using write_arg_integer [OF assms(2)] unfolding w_def t_def by blast
  define ds where "ds = c_numeral t (nat \<bar>w\<bar>)"
  define digits where "digits = (case c_precision cs of None \<Rightarrow> ds | Some p \<Rightarrow> replicate (p - length ds) (CHR ''0'') @ ds)"
  have lay: "layout_of sp = layout_of (integer_specs cs a)" unfolding assms(4) by (simp add: layout_of_def)
  have ty: "spec_type sp = final_type t" and alt: "spec_alt sp \<longleftrightarrow> CHR ''#'' \<in> set (c_flags cs) \<and> v \<noteq> 0"
    and prec: "spec_precision sp = (case c_precision cs of None \<Rightarrow> - 1 | Some p \<Rightarrow> int p)"
    unfolding assms(4) t_def by (simp_all add: f)
  note int = write_int_c [OF assms(1) c(1) lay digits_def]
  have res: "c_integer cs w = (let fill = c_width cs - length (c_prefix cs digits w @ digits) in
        if CHR ''-'' \<in> set (c_flags cs) then c_prefix cs digits w @ digits @ replicate fill (CHR '' '')
        else if CHR ''0'' \<in> set (c_flags cs) \<and> c_precision cs = None then c_prefix cs digits w @ replicate fill (CHR ''0'') @ digits
        else replicate fill (CHR '' '') @ c_prefix cs digits w @ digits)"
    by (simp only: c_integer_def ds_def t_def digits_def Let_def)
  have sgn: "sign_prefix (w < 0) sp = (if c_signed t then c_prefix cs digits w else [])"
    unfolding assms(4) using c(3) c_value_unsigned [of t "c_length cs" a v]
    by (cases "c_signed t") (simp_all add: sign_prefix_def f c_prefix_def t_def [symmetric] w_def Let_def not_less)
  have nz: "w \<noteq> 0 \<Longrightarrow> v \<noteq> 0" unfolding w_def by auto
  have main: "handle_int_type loc u (sign_prefix (w < 0) sp) sp = map_option Inr (write_int (length ds) (c_prefix cs digits w) sp (Some ds))"
  proof -
    consider "t = CHR ''d'' \<or> t = CHR ''i'' \<or> t = CHR ''u''" | "t = CHR ''x'' \<or> t = CHR ''X''" | "t = CHR ''o''" using c(2) by auto
    then show ?thesis
    proof cases
      case 1
      then have "final_type t = CHR ''d''" "ds = dec (nat \<bar>w\<bar>)" by (auto simp: final_type_def ds_def c_numeral_def radix_dec)
      moreover have "sign_prefix (w < 0) sp = c_prefix cs digits w"
        using 1 unfolding sgn by (auto simp: c_prefix_def t_def [symmetric] c_signed_def Let_def)
      moreover have "decimal_digits u (length (dec (nat \<bar>w\<bar>))) = Some (dec (nat \<bar>w\<bar>))"
        using decimal_digits_count [of u] by (simp add: count_digits_uint_length u(1))
      ultimately show ?thesis
        by (simp add: handle_int_type_def ty on_dec_def count_digits_uint_length u(1) Let_def)
    next
      case 2
      then have ns: "\<not> c_signed t" "final_type t = t" by (auto simp: final_type_def c_signed_def)
      have "c_prefix cs digits w = (if spec_alt sp then [CHR ''0'', t] else [])"
        using 2 ns nz c(4) by (auto simp: c_prefix_def t_def [symmetric] alt Let_def)
      moreover have "ds = uint_loop 4 (t \<noteq> CHR ''x'') (nat \<bar>w\<bar>) []"
        using 2 radix_uint_loop [of 4 "t \<noteq> CHR ''x''" "nat \<bar>w\<bar>" "[]"] by (auto simp: ds_def c_numeral_def)
      ultimately show ?thesis using 2 ns
        by (auto simp: handle_int_type_def ty on_hex_def format_uint_count u(1) sgn length_uint_loop Let_def)
    next
      case 3
      then have ns: "\<not> c_signed t" "final_type t = t" by (auto simp: final_type_def c_signed_def)
      have ds: "ds = uint_loop 3 False (nat \<bar>w\<bar>) []"
        using 3 radix_uint_loop [of 3 False "nat \<bar>w\<bar>" "[]"] by (simp add: ds_def c_numeral_def)
      have hd: "hd ds \<noteq> CHR ''0''" if "w \<noteq> 0" using octal_head [of "nat \<bar>w\<bar>"] that 3 by (simp add: ds_def c_numeral_def)
      have ne: "ds \<noteq> []" using 3 by (simp add: ds_def c_numeral_def)
      have "c_prefix cs digits w = (if spec_alt sp \<and> spec_precision sp \<le> int (length ds) \<and> uint_value u \<noteq> 0 then ''0'' else [])"
      proof (cases "c_precision cs")
        case None
        then show ?thesis using 3 ns nz hd u(1) by (auto simp: c_prefix_def t_def [symmetric] alt prec digits_def Let_def)
      next
        case (Some p)
        then show ?thesis using 3 ns nz hd u(1) ne
          by (cases "p - length ds") (auto simp: c_prefix_def t_def [symmetric] alt prec digits_def Let_def)
      qed
      then show ?thesis using 3 ns
        by (simp add: handle_int_type_def ty on_oct_def format_uint_count u(1) sgn ds length_uint_loop Let_def)
    qed
  qed
  show ?thesis
    unfolding u(2) write_integer_def main int w_def [symmetric] t_def [symmetric] res by (simp add: Let_def)
qed

lemma flags_of_conforming: "c_conforming cs a \<Longrightarrow> list_all flag_char (c_flags cs)"
  by (auto simp: c_conforming_def list_all_iff flag_char_def)

lemma printf_specification_c:
  assumes "c_conforming cs a" "arg_int a = Some v" "get_arg k args = fmt_ok a" "spec_text cs = CHR ''%'' # body"
  shows "printf_specification loc args prev (body @ rest) (int k)
    = fmt_ok (c_integer cs (c_value (c_length cs) (c_type cs) a v), int k + 1, rest)"
proof -
  let ?sp = "default_specs\<lparr>spec_align := Align_right\<rparr>"
  let ?p = "case c_precision cs of None \<Rightarrow> [] | Some p \<Rightarrow> ''.'' @ dec p"
  let ?tail = "length_text (c_length cs) @ c_type cs # rest"
  have b: "body @ rest = c_flags cs @ width_text (c_width cs) @ ?p @ ?tail" using assms(4) by (simp add: spec_text_def width_text_def)
  have c: "c_width cs \<le> max_int" "c_type cs \<in> set ''diuxXo''" "case c_precision cs of None \<Rightarrow> True | Some p \<Rightarrow> p \<le> max_int"
    using assms(1) by (simp_all add: c_conforming_def)
  have ty: "\<not> is_digit (c_type cs) \<and> \<not> flag_char (c_type cs) \<and> c_type cs \<noteq> CHR ''*'' \<and> c_type cs \<noteq> CHR ''$'' \<and> c_type cs \<noteq> CHR ''.''"
    using c(2) by (auto simp: is_digit_def flag_char_def)
  have tail: "?tail \<noteq> []" "\<not> is_digit (hd ?tail)" "hd ?tail \<noteq> CHR ''.''" "after_width ?tail"
    using ty by (cases "c_length cs"; simp add: after_width_def is_digit_def flag_char_def)+
  have aw: "after_width (?p @ ?tail)"
    using tail(4) by (cases "c_precision cs") (simp_all add: after_width_def is_digit_def flag_char_def)
  have head: "parse_header args (body @ rest) (int k) ?sp
      = fmt_ok (- 1, (with_flags (c_flags cs) ?sp)\<lparr>spec_width := c_width cs\<rparr>, int k, ?p @ ?tail)"
    unfolding b using parse_header_print [OF flags_of_conforming [OF assms(1)] c(1) aw] by (simp add: default_specs_def)
  have prec: "printf_precision args (?p @ ?tail) (int k) ((with_flags (c_flags cs) ?sp)\<lparr>spec_width := c_width cs\<rparr>)
      = fmt_ok (parsed_specs cs, int k, ?tail)"
    using printf_precision_print [OF c(3) tail(1-3)] unfolding parsed_specs_def Let_def by simp
  have arg: "printf_get_arg args (- 1) (int k) = fmt_ok (a, int k + 1)" by (simp add: printf_get_arg_def next_arg_id_def assms(3))
  define b' where "b' = convert_arg (target_of (c_length cs)) (c_type cs) a"
  have b': "arg_int b' = Some (c_value (c_length cs) (c_type cs) a v)" unfolding b'_def by (rule convert_arg_value [OF assms(2)])
  have norm: "normalize_type (c_type cs) b' (integer_specs cs a) = ((integer_specs cs a)\<lparr>spec_type := final_type (c_type cs)\<rparr>, b')"
    using c(2) arg_int_kind(1) [OF b'] by (auto simp: normalize_type_def final_type_def)
  have "printf_convert loc prev (parsed_specs cs) a ?tail
      = fmt_bind (printf_write loc ((integer_specs cs a)\<lparr>spec_type := final_type (c_type cs)\<rparr>) b') (\<lambda>txt. fmt_ok (txt, rest))"
    using parse_length_print [OF c(2), of prev "c_length cs" rest a] arg_int_kind [OF assms(2)] norm
    by (simp add: printf_convert_def Let_def integer_specs_def b'_def [symmetric])
  also have "\<dots> = fmt_ok (c_integer cs (c_value (c_length cs) (c_type cs) a v), rest)"
    using write_arg_c [OF assms(2) b' assms(1) refl] arg_int_kind(3) [OF b'] by simp
  finally have "printf_convert loc prev (parsed_specs cs) a ?tail = fmt_ok (c_integer cs (c_value (c_length cs) (c_type cs) a v), rest)" .
  then show ?thesis unfolding printf_specification_def head by (simp add: prec arg)
qed

section \<open>Format strings\<close>

datatype c_piece = C_text string | C_conv c_spec

definition escape_percent :: "string \<Rightarrow> string" where
  "escape_percent s = concat (map (\<lambda>c. if c = CHR ''%'' then ''%%'' else [c]) s)"

fun c_piece_text :: "c_piece \<Rightarrow> string" where
  "c_piece_text (C_text s) = escape_percent s"
| "c_piece_text (C_conv cs) = spec_text cs"

text \<open>The arguments are used in order; \<open>args\<close> are those that are left.\<close>

fun c_format :: "c_piece list \<Rightarrow> fmt_arg list \<Rightarrow> string" where
  "c_format [] args = []"
| "c_format (C_text s # ps) args = s @ c_format ps args"
| "c_format (C_conv cs # ps) [] = []"
| "c_format (C_conv cs # ps) (a # args) =
     (case arg_int a of None \<Rightarrow> [] | Some v \<Rightarrow> c_integer cs (c_value (c_length cs) (c_type cs) a v)) @ c_format ps args"

fun c_conforming_format :: "c_piece list \<Rightarrow> fmt_arg list \<Rightarrow> bool" where
  "c_conforming_format [] args \<longleftrightarrow> True"
| "c_conforming_format (C_text s # ps) args \<longleftrightarrow> c_conforming_format ps args"
| "c_conforming_format (C_conv cs # ps) [] \<longleftrightarrow> False"
| "c_conforming_format (C_conv cs # ps) (a # args) \<longleftrightarrow> c_conforming cs a \<and> c_conforming_format ps args"

lemma printf_loop_escape: "printf_loop loc args (escape_percent s @ rest) out n = printf_loop loc args rest (out @ s) n"
proof (induction s arbitrary: out)
  case (Cons c s)
  have "escape_percent (c # s) = (if c = CHR ''%'' then ''%%'' else [c]) @ escape_percent s" by (simp add: escape_percent_def)
  then show ?case using Cons by (cases "c = CHR ''%''") simp_all
qed (simp add: escape_percent_def)

lemma spec_text_percent:
  assumes "c_conforming cs a"
  obtains body where "spec_text cs = CHR ''%'' # body" "body \<noteq> []" "hd body \<noteq> CHR ''%''"
proof -
  define body where "body = tl (spec_text cs)"
  have fl: "CHR ''%'' \<notin> set (c_flags cs)" using assms by (auto simp: c_conforming_def)
  have w: "CHR ''%'' \<notin> set (dec n)" for n using dec_digits [of n] by (auto simp: list_all_iff is_digit_def)
  have l: "CHR ''%'' \<notin> set (length_text (c_length cs))" by (cases "c_length cs") simp_all
  have t: "c_type cs \<noteq> CHR ''%''" using assms by (auto simp: c_conforming_def)
  have b: "body \<noteq> []" by (simp add: body_def spec_text_def)
  have "CHR ''%'' \<notin> set body" using fl w l t by (cases "c_precision cs") (auto simp: body_def spec_text_def)
  then have "hd body \<noteq> CHR ''%''" using b by (cases body) auto
  moreover have "spec_text cs = CHR ''%'' # body" by (simp add: body_def spec_text_def)
  ultimately show ?thesis using b that by blast
qed

lemma printf_loop_pieces:
  assumes "arg_list args = used @ left" "c_conforming_format ps left"
  shows "printf_loop loc args (concat (map c_piece_text ps)) out (int (length used)) = fmt_ok (out @ c_format ps left)"
  using assms
proof (induction ps left arbitrary: used out rule: c_format.induct)
  case (2 s ps args')
  then show ?case using printf_loop_escape by simp
next
  case (4 cs ps a args')
  from 4 have c: "c_conforming cs a" by simp
  then obtain v where v: "arg_int a = Some v" by (auto simp: c_conforming_def split: option.splits)
  obtain body where b: "spec_text cs = CHR ''%'' # body" "body \<noteq> []" "hd body \<noteq> CHR ''%''" by (rule spec_text_percent [OF c])
  have "get_arg (length used) args = fmt_ok a" using 4 by (simp add: get_arg_def nth_append)
  then have sp: "printf_specification loc args prev (body @ rest) (int (length used))
      = fmt_ok (c_integer cs (c_value (c_length cs) (c_type cs) a v), int (length used) + 1, rest)" for prev rest
    using printf_specification_c [OF c v _ b(1)] by blast
  have "printf_loop loc args (concat (map c_piece_text ps)) (out @ x) (int (length used) + 1) = fmt_ok (out @ x @ c_format ps args')" for x
    using 4(1) [of "used @ [a]" "out @ x"] 4(2,3) by (simp add: add.commute)
  with b sp v show ?case by simp
qed simp_all

text \<open>
  C28 [equivalence] printf does the integer conversions as the C standard says: for every format string of texts and conversions
  d, i, u, x, X, o, with any flags, width, precision and length modifier, and integer arguments in their order, the text
  is that of the standard (the number converted to the named type, at least as many digits as the precision says,
  sign or prefix, padded with blanks or zeros to the width), outside of the cases where the code is known to differ.
\<close>

theorem printf_integers_like_c:
  assumes "c_conforming_format ps (arg_list args)"
  shows "vsprintf loc (concat (map c_piece_text ps)) args = fmt_ok (c_format ps (arg_list args))"
  using printf_loop_pieces [of args "[]", OF _ assms] by (simp add: vsprintf_def)

definition sample_conversions :: "c_piece list" where
  "sample_conversions =
     [C_conv \<lparr>c_flags = ''+0'', c_width = 5, c_precision = None, c_length = C_none, c_type = CHR ''d''\<rparr>,
      C_text ''% ('',
      C_conv \<lparr>c_flags = ''-#'', c_width = 6, c_precision = Some 3, c_length = C_hh, c_type = CHR ''x''\<rparr>,
      C_text '')'']"

definition sample_integers :: fmt_args where
  "sample_integers = \<lparr>arg_list = [Int_arg 42, Uint_arg 0x12F], arg_names = []\<rparr>"

theorem printf_integers_like_c_witness:
  "vsprintf no_grouping ''%+05d%% (%-#6.3hhx)'' sample_integers = fmt_ok ''+0042% (0x02f )''"
proof -
  have d: "dec 5 = ''5''" "dec 6 = ''6''" "dec 3 = ''3''" by code_simp+
  have t: "concat (map c_piece_text sample_conversions) = ''%+05d%% (%-#6.3hhx)''"
    by (simp add: sample_conversions_def spec_text_def escape_percent_def d)
  have v: "c_value C_none (CHR ''d'') (Int_arg 42) 42 = 42" "c_value C_hh (CHR ''x'') (Uint_arg 0x12F) 0x12F = 47" by code_simp+
  have a: "arg_int (Int_arg 42) = Some 42" "arg_int (Uint_arg 0x12F) = Some 0x12F" by simp_all
  have "c_conforming_format sample_conversions (arg_list sample_integers)"
    by (simp add: sample_conversions_def sample_integers_def c_conforming_def v a max_int_def c_signed_def del: arg_int.simps)
  from printf_integers_like_c [OF this, of no_grouping]
  have "vsprintf no_grouping ''%+05d%% (%-#6.3hhx)'' sample_integers = fmt_ok (c_format sample_conversions (arg_list sample_integers))"
    by (simp only: t)
  also have "c_format sample_conversions (arg_list sample_integers) = ''+0042% (0x02f )''" by code_simp
  finally show ?thesis .
qed

section \<open>Where the code differs\<close>

text \<open>A sign with an unsigned conversion, a zero with precision 0, a prefix for a number that becomes zero.\<close>

lemma printf_differs:
  "vsprintf no_grouping ''%+u'' \<lparr>arg_list = [Uint_arg 5], arg_names = []\<rparr> = fmt_ok ''+5''"
  "vsprintf no_grouping ''%.d'' \<lparr>arg_list = [Int_arg 0], arg_names = []\<rparr> = fmt_ok ''0''"
  "vsprintf no_grouping ''%#hhx'' \<lparr>arg_list = [Int_arg 256], arg_names = []\<rparr> = fmt_ok ''0x0''"
  by code_simp+

lemmas printf_steps = vsprintf_def printf_specification_def parse_header_def char_at_def is_digit_def flags_and_width_def
  printf_precision_def printf_get_arg_def next_arg_id_def get_arg_def printf_convert_def limit_cstring_def Let_def
  is_integral_type_def parse_length_def adjust_specs_def is_zero_int_def default_specs_def normalize_type_def
  convert_arg_def write_string_def write_padded_def fill_n_def

text \<open>A negative precision counts as 0 instead of none, and a null string with a precision is read.\<close>

lemma printf_precision_differs:
  "vsprintf no_grouping ''%.*s'' \<lparr>arg_list = [Int_arg (- 1), String_arg ''text''], arg_names = []\<rparr> = fmt_ok []"
  "vsprintf no_grouping ''%s'' \<lparr>arg_list = [Cstring_arg 0 []], arg_names = []\<rparr> = fmt_ok ''(null)''"
  "vsprintf no_grouping ''%.*s'' \<lparr>arg_list = [Int_arg 3, Cstring_arg 0 []], arg_names = []\<rparr> = None"
proof -
  have p: "printf_precision_handler (Int_arg (- 1)) = fmt_ok 0" "printf_precision_handler (Int_arg 3) = fmt_ok 3"
    by (simp_all add: printf_precision_handler_def fits_in_int_def max_int_def)
  show "vsprintf no_grouping ''%s'' \<lparr>arg_list = [Cstring_arg 0 []], arg_names = []\<rparr> = fmt_ok ''(null)''" by code_simp
  show "vsprintf no_grouping ''%.*s'' \<lparr>arg_list = [Int_arg (- 1), String_arg ''text''], arg_names = []\<rparr> = fmt_ok []" by (simp add: printf_steps p)
  show "vsprintf no_grouping ''%.*s'' \<lparr>arg_list = [Int_arg 3, Cstring_arg 0 []], arg_names = []\<rparr> = None" by (simp add: printf_steps p)
qed

end
