(* ===== verification/Fmt_Handler.thy ===== *)
theory Fmt_Handler imports Fmt_Theorems begin

text \<open>
  \<open>parse_format_string\<close> (spdlog/fmt/bundled/format.h) for any handler, which is a template parameter of the code:
  formatting, the compilation of format strings (\<open>Fmt_Compile\<close>) and their check at compile time (\<open>Fmt_Check\<close>) are three
  handlers.  The locale \<open>text_handler\<close> has what a handler keeps; in it the two loops agree.
\<close>

section \<open>The loops for any handler\<close>

record 's fmt_handler =
  h_text :: "string \<Rightarrow> 's \<Rightarrow> 's"
  h_arg_id :: "arg_id \<Rightarrow> 's \<Rightarrow> (nat \<times> 's) fmt_result"
  h_field :: "nat \<Rightarrow> 's \<Rightarrow> 's fmt_result"
  h_specs :: "nat \<Rightarrow> string \<Rightarrow> 's \<Rightarrow> (string \<times> 's) fmt_result"

text \<open>After an argument id.\<close>

definition handle_rest :: "'s fmt_handler \<Rightarrow> string \<Rightarrow> nat \<Rightarrow> 's \<Rightarrow> (string \<times> 's) fmt_result" where
  "handle_rest h s k st =
     (case s of
        [] \<Rightarrow> fmt_err missing_brace
      | c # cs \<Rightarrow>
          if c = CHR ''}'' then fmt_bind (h_field h k st) (\<lambda>st1. fmt_ok (cs, st1))
          else if c = CHR '':'' then
            fmt_bind (h_specs h k cs st) (\<lambda>(rest, st1).
              if rest = [] \<or> hd rest \<noteq> CHR ''}'' then fmt_err ''unknown format specifier''
              else fmt_ok (tl rest, st1))
          else fmt_err missing_brace)"

text \<open>After the opening brace.\<close>

definition handle_replacement :: "'s fmt_handler \<Rightarrow> string \<Rightarrow> 's \<Rightarrow> (string \<times> 's) fmt_result" where
  "handle_replacement h s st =
     (case s of
        [] \<Rightarrow> fmt_err ''invalid format string''
      | c # cs \<Rightarrow>
          if c = CHR ''}'' then
            fmt_bind (h_arg_id h Auto_id st) (\<lambda>(k, st1). fmt_bind (h_field h k st1) (\<lambda>st2. fmt_ok (cs, st2)))
          else if c = CHR ''{'' then fmt_ok (cs, h_text h ''{'' st)
          else
            fmt_bind (parse_arg_id c cs) (\<lambda>(i, rest).
              fmt_bind (h_arg_id h i st) (\<lambda>(k, st1). handle_rest h rest k st1)))"

lemma fmt_bind_option: "fmt_bind r f = Option.bind r (\<lambda>x. case x of Inl e \<Rightarrow> fmt_err e | Inr y \<Rightarrow> f y)"
  by (cases r) (auto split: sum.splits)

text \<open>A handler may fail to advance, so the loops are partial functions; those of the code all advance.\<close>

partial_function (option) handle_small :: "'s fmt_handler \<Rightarrow> string \<Rightarrow> string \<Rightarrow> 's \<Rightarrow> 's fmt_result" where
  "handle_small h pend s st =
     (case s of
        [] \<Rightarrow> fmt_ok (h_text h pend st)
      | c # cs \<Rightarrow>
          if c = CHR ''{'' then
            Option.bind (handle_replacement h cs (h_text h pend st)) (\<lambda>x.
              case x of Inl e \<Rightarrow> fmt_err e | Inr r \<Rightarrow> handle_small h [] (fst r) (snd r))
          else if c = CHR ''}'' then
            (if cs = [] then fmt_err unmatched_brace
             else if hd cs \<noteq> CHR ''}'' then fmt_err unmatched_brace
             else handle_small h [] (tl cs) (h_text h (pend @ [c]) st))
          else handle_small h (pend @ [c]) cs st)"

partial_function (option) handle_write :: "'s fmt_handler \<Rightarrow> string \<Rightarrow> 's \<Rightarrow> 's fmt_result" where
  "handle_write h s st =
     (let t = takeWhile (\<lambda>c. c \<noteq> CHR ''}'') s; p = dropWhile (\<lambda>c. c \<noteq> CHR ''}'') s in
      if p = [] then fmt_ok (h_text h s st)
      else if tl p = [] \<or> hd (tl p) \<noteq> CHR ''}'' then fmt_err unmatched_brace
      else handle_write h (tl (tl p)) (h_text h (t @ [hd p]) st))"

partial_function (option) handle_large :: "'s fmt_handler \<Rightarrow> string \<Rightarrow> 's \<Rightarrow> 's fmt_result" where
  "handle_large h s st =
     (if s = [] then fmt_ok st
      else
        let t = takeWhile (\<lambda>c. c \<noteq> CHR ''{'') s; p = dropWhile (\<lambda>c. c \<noteq> CHR ''{'') s in
        if p = [] then (if s = [] then fmt_ok st else handle_write h s st)
        else
          Option.bind (if t = [] then fmt_ok st else handle_write h t st) (\<lambda>x.
            case x of Inl e \<Rightarrow> fmt_err e | Inr st1 \<Rightarrow>
              Option.bind (handle_replacement h (tl p) st1) (\<lambda>y.
                case y of Inl e \<Rightarrow> fmt_err e | Inr r \<Rightarrow> handle_large h (fst r) (snd r))))"

declare handle_small.simps [code] handle_write.simps [code] handle_large.simps [code]

definition handle_format_string :: "'s fmt_handler \<Rightarrow> string \<Rightarrow> 's \<Rightarrow> 's fmt_result" where
  "handle_format_string h s st = (if length s < 32 then handle_small h [] s st else handle_large h s st)"

section \<open>What a handler keeps\<close>

locale text_handler =
  fixes h :: "'s fmt_handler"
  assumes text_nothing: "h_text h [] st = st"
    and specs_advance: "h_specs h k s st = fmt_ok (rest, st1) \<Longrightarrow> length rest \<le> length s"
begin

lemma replacement_shorter:
  assumes "handle_replacement h s st = fmt_ok (rest, st1)"
  shows "length rest < length s"
proof (cases s)
  case Nil
  then show ?thesis using assms by (simp add: handle_replacement_def)
next
  case (Cons c cs)
  show ?thesis
  proof (cases "c = CHR ''}'' \<or> c = CHR ''{''")
    case True
    then show ?thesis using assms Cons by (auto simp: handle_replacement_def elim!: fmt_bind_okE)
  next
    case False
    with assms Cons obtain i r k st2 where r: "parse_arg_id c cs = fmt_ok (i, r)" and b: "handle_rest h r k st2 = fmt_ok (rest, st1)"
      by (auto simp: handle_replacement_def elim!: fmt_bind_okE)
    have len: "length r \<le> Suc (length cs)" using parse_arg_id_spec [of c cs] r by simp
    from b obtain d ds where rd: "r = d # ds" by (cases r) (auto simp: handle_rest_def)
    have "length rest \<le> length ds"
      using b rd by (auto simp: handle_rest_def dest!: specs_advance elim!: fmt_bind_okE split: if_splits)
    then show ?thesis using len rd Cons by simp
  qed
qed

lemma small_simps:
  "handle_small h pend [] st = fmt_ok (h_text h pend st)"
  "handle_small h pend (CHR ''{'' # cs) st
    = fmt_bind (handle_replacement h cs (h_text h pend st)) (\<lambda>r. handle_small h [] (fst r) (snd r))"
  "handle_small h pend (CHR ''}'' # cs) st
    = (if cs = [] \<or> hd cs \<noteq> CHR ''}'' then fmt_err unmatched_brace else handle_small h [] (tl cs) (h_text h (pend @ ''}'') st))"
  "c \<noteq> CHR ''{'' \<Longrightarrow> c \<noteq> CHR ''}'' \<Longrightarrow> handle_small h pend (c # cs) st = handle_small h (pend @ [c]) cs st"
  by (subst handle_small.simps, simp add: fmt_bind_option)+

lemma write_text:
  assumes "CHR ''}'' \<notin> set t"
  shows "handle_write h t st = fmt_ok (h_text h t st)"
    and "handle_write h (t @ CHR ''}'' # cs) st =
      (if cs = [] \<or> hd cs \<noteq> CHR ''}'' then fmt_err unmatched_brace else handle_write h (tl cs) (h_text h (t @ ''}'') st))"
proof -
  have n: "\<And>x. x \<in> set t \<Longrightarrow> x \<noteq> CHR ''}''" using assms by auto
  have d: "dropWhile (\<lambda>c. c \<noteq> CHR ''}'') t = []" "takeWhile (\<lambda>c. c \<noteq> CHR ''}'') (t @ CHR ''}'' # cs) = t"
    "dropWhile (\<lambda>c. c \<noteq> CHR ''}'') (t @ CHR ''}'' # cs) = CHR ''}'' # cs"
    using n by (simp_all add: takeWhile_append2 dropWhile_append2)
  show "handle_write h t st = fmt_ok (h_text h t st)" by (subst handle_write.simps) (simp add: d)
  show "handle_write h (t @ CHR ''}'' # cs) st =
      (if cs = [] \<or> hd cs \<noteq> CHR ''}'' then fmt_err unmatched_brace else handle_write h (tl cs) (h_text h (t @ ''}'') st))"
    by (subst handle_write.simps) (simp add: d)
qed

lemma small_text:
  assumes "CHR ''{'' \<notin> set t" "CHR ''}'' \<notin> set pend" "rest = [] \<or> hd rest = CHR ''{''"
  shows "handle_small h pend (t @ rest) st
    = fmt_bind (handle_write h (pend @ t) st) (\<lambda>st1. handle_small h [] rest st1)"
  using assms(1,2)
proof (induction "length t" arbitrary: t pend st rule: less_induct)
  case less
  show ?case
  proof (cases t)
    case Nil
    then show ?thesis using assms(3) write_text(1) [OF less.prems(2)]
      by (cases rest) (auto simp: small_simps text_nothing)
  next
    case (Cons c cs)
    then have c: "c \<noteq> CHR ''{''" "CHR ''{'' \<notin> set cs" using less.prems by auto
    show ?thesis
    proof (cases "c = CHR ''}''")
      case False
      have "handle_small h (pend @ [c]) (cs @ rest) st
          = fmt_bind (handle_write h ((pend @ [c]) @ cs) st) (\<lambda>st1. handle_small h [] rest st1)"
        using less.prems(2) False c(2) Cons by (intro less.hyps) auto
      then show ?thesis using Cons c(1) False by (simp add: small_simps)
    next
      case True
      show ?thesis
      proof (cases "cs = [] \<or> hd cs \<noteq> CHR ''}''")
        case bad: True
        then have "(cs @ rest) = [] \<or> hd (cs @ rest) \<noteq> CHR ''}''" using assms(3) by (cases cs) auto
        then have "handle_small h pend (t @ rest) st = fmt_err unmatched_brace" using Cons True by (simp add: small_simps)
        then show ?thesis using write_text(2) [OF less.prems(2), of cs st] bad Cons True by simp
      next
        case False
        then obtain ds where ds: "cs = CHR ''}'' # ds" by (cases cs) auto
        have "handle_small h [] (ds @ rest) (h_text h (pend @ ''}'') st)
            = fmt_bind (handle_write h ([] @ ds) (h_text h (pend @ ''}'') st)) (\<lambda>st1. handle_small h [] rest st1)"
          using c(2) ds Cons by (intro less.hyps) auto
        then show ?thesis using write_text(2) [OF less.prems(2), of cs st] Cons True ds by (simp add: small_simps)
      qed
    qed
  qed
qed

lemma write_Nil: "handle_write h [] st = fmt_ok st"
  by (subst handle_write.simps) (simp add: text_nothing)

lemma large_small: "handle_large h s st = handle_small h [] s st"
proof (induction "length s" arbitrary: s st rule: less_induct)
  case less
  define t where "t = takeWhile (\<lambda>c. c \<noteq> CHR ''{'') s"
  define p where "p = dropWhile (\<lambda>c. c \<noteq> CHR ''{'') s"
  have s: "s = t @ p" by (simp add: t_def p_def)
  have t: "CHR ''{'' \<notin> set t" by (auto simp: t_def dest: set_takeWhileD)
  have p: "p = [] \<or> hd p = CHR ''{''" using hd_dropWhile [of "\<lambda>c. c \<noteq> CHR ''{''" s] by (auto simp: p_def)
  have small: "handle_small h [] s st = fmt_bind (handle_write h t st) (\<lambda>st1. handle_small h [] p st1)"
    using small_text [OF t _ p, of "[]"] s by simp
  show ?case
  proof (cases "s = []")
    case True
    then show ?thesis by (subst handle_large.simps) (simp add: small_simps text_nothing)
  next
    case ne: False
    show ?thesis
    proof (cases "p = []")
      case True
      then have "handle_large h s st = handle_write h s st"
        using ne by (subst handle_large.simps) (simp add: p_def [symmetric])
      moreover have "handle_small h [] s st = fmt_bind (handle_write h s st) fmt_ok"
        using small True s by (simp add: small_simps text_nothing cong: fmt_bind_cong)
      ultimately show ?thesis by (cases "handle_write h s st"; cases "the (handle_write h s st)") simp_all
    next
      case False
      with p obtain cs where cs: "p = CHR ''{'' # cs" by (cases p) auto
      have "handle_large h s st = fmt_bind (handle_write h t st) (\<lambda>st1.
          fmt_bind (handle_replacement h cs st1) (\<lambda>r. handle_large h (fst r) (snd r)))"
        using ne False cs by (subst handle_large.simps) (simp add: p_def [symmetric] t_def [symmetric] write_Nil Let_def fmt_bind_option)
      also have "\<dots> = fmt_bind (handle_write h t st) (\<lambda>st1.
          fmt_bind (handle_replacement h cs st1) (\<lambda>r. handle_small h [] (fst r) (snd r)))"
      proof (intro fmt_bind_cong refl)
        fix st1 r
        assume "handle_replacement h cs st1 = fmt_ok r"
        then have "length (fst r) < length s" using replacement_shorter [of cs st1 "fst r" "snd r"] s cs by simp
        then show "handle_large h (fst r) (snd r) = handle_small h [] (fst r) (snd r)" by (rule less.hyps)
      qed
      finally show ?thesis using small cs by (simp add: small_simps text_nothing)
    qed
  qed
qed

lemma format_string_small: "handle_format_string h s st = handle_small h [] s st"
  by (simp add: handle_format_string_def large_small)

end

section \<open>Formatting\<close>

definition format_handler :: "fmt_locale \<Rightarrow> fmt_args \<Rightarrow> handler_state fmt_handler" where
  "format_handler loc args =
     \<lparr>h_text = on_text,
      h_arg_id = (\<lambda>i st. fmt_bind (on_arg_id args i (snd st)) (\<lambda>(k, n1). fmt_ok (k, fst st, n1))),
      h_field = on_replacement_field loc args,
      h_specs = on_format_specs loc args\<rparr>"

lemma format_handler_simps [simp]:
  "h_text (format_handler loc args) = on_text"
  "h_arg_id (format_handler loc args) i st = fmt_bind (on_arg_id args i (snd st)) (\<lambda>(k, n1). fmt_ok (k, fst st, n1))"
  "h_field (format_handler loc args) = on_replacement_field loc args"
  "h_specs (format_handler loc args) = on_format_specs loc args"
  by (simp_all add: format_handler_def)

lemma on_format_specs_advance:
  assumes "on_format_specs loc args k s st = fmt_ok (rest, st1)"
  shows "length rest \<le> length s"
proof -
  from assms obtain a sp n where "parse_format_specs (type_of_arg a) args (default_specs, snd st, s) = fmt_ok (sp, n, rest)"
    unfolding on_format_specs_def by (auto elim!: fmt_bind_okE split: if_splits)
  then show ?thesis using parse_format_specs_advances [of "type_of_arg a" args default_specs "snd st" s] by (simp add: advances_def)
qed

interpretation formatting: text_handler "format_handler loc args" for loc args
  by unfold_locales (auto dest: on_format_specs_advance)

lemma fmt_bind_assoc: "fmt_bind (fmt_bind r f) g = fmt_bind r (\<lambda>x. fmt_bind (f x) g)"
  by (cases r; cases "the r") simp_all

lemma handle_replacement_format: "handle_replacement (format_handler loc args) s st = parse_replacement_field loc args s st"
proof (cases s)
  case (Cons c cs)
  then show ?thesis
    by (simp add: handle_replacement_def handle_rest_def parse_replacement_field_def fmt_bind_assoc case_prod_unfold on_arg_id_def)
      (intro impI fmt_bind_cong refl; simp split: list.split)
qed (simp add: handle_replacement_def parse_replacement_field_def)

lemma handle_small_format: "handle_small (format_handler loc args) pend s st = scan_small loc args pend s st"
proof (induction loc args pend s st rule: scan_small.induct)
  case (2 loc args pend c cs st)
  consider "c = CHR ''{''" | "c = CHR ''}''" | "c \<noteq> CHR ''{''" "c \<noteq> CHR ''}''" by blast
  then show ?case
  proof cases
    case 1
    show ?thesis unfolding 1 formatting.small_simps handle_replacement_format
      by (simp add: 2(1) [OF 1] cong: fmt_bind_cong)
  next
    case c: 2
    then show ?thesis using 2(2) by (cases cs) (auto simp: formatting.small_simps)
  next
    case 3
    then show ?thesis using 2(3) by (simp add: formatting.small_simps)
  qed
qed (simp add: formatting.small_simps)

lemma parse_format_string_handler: "handle_format_string (format_handler loc args) s st = parse_format_string loc args s st"
  by (simp add: formatting.format_string_small handle_small_format parse_format_string_def scan_large_small)

lemma vformat_handler:
  "vformat_to loc s args = fmt_bind (handle_format_string (format_handler loc args) s ([], 0)) (\<lambda>st. fmt_ok (fst st))"
  by (simp add: vformat_scan formatting.format_string_small handle_small_format)

end
