(* ===== verification/Fmt_Dynamic.thy ===== *)
theory Fmt_Dynamic imports Fmt_Handler begin

text \<open>
  Format specifiers whose width and precision are resolved when the arguments are known (\<open>dynamic_specs_handler\<close>,
  \<open>handle_dynamic_spec\<close> and \<open>formatter\<close> of spdlog/fmt/bundled/format.h), and that parsing them first and resolving them later is
  the same as what \<open>vformat_to\<close> does in one pass.
\<close>

section \<open>References to arguments\<close>

datatype arg_ref = Ref_none | Ref_index nat | Ref_name string

record dynamic_specs =
  static_specs :: format_specs
  width_ref :: arg_ref
  precision_ref :: arg_ref

text \<open>A parse context; \<open>compile_parse_context\<close> knows the number of arguments.\<close>

definition beyond :: "nat option \<Rightarrow> nat \<Rightarrow> bool" where
  "beyond num_args k \<longleftrightarrow> (case num_args of None \<Rightarrow> False | Some m \<Rightarrow> m \<le> k)"

definition ctx_next_arg_id :: "nat option \<Rightarrow> int \<Rightarrow> (nat \<times> int) fmt_result" where
  "ctx_next_arg_id num_args n =
     fmt_bind (next_arg_id n) (\<lambda>(k, n1). if beyond num_args k then fmt_err ''argument not found'' else fmt_ok (k, n1))"

definition ctx_check_arg_id :: "nat option \<Rightarrow> nat \<Rightarrow> int \<Rightarrow> int fmt_result" where
  "ctx_check_arg_id num_args k n =
     fmt_bind (check_arg_id n) (\<lambda>n1. if beyond num_args k then fmt_err ''argument not found'' else fmt_ok n1)"

definition make_arg_ref :: "nat option \<Rightarrow> arg_id \<Rightarrow> int \<Rightarrow> (arg_ref \<times> int) fmt_result" where
  "make_arg_ref num_args i n =
     (case i of
        Auto_id \<Rightarrow> fmt_bind (ctx_next_arg_id num_args n) (\<lambda>(k, n1). fmt_ok (Ref_index k, n1))
      | Index_id k \<Rightarrow> fmt_bind (ctx_check_arg_id num_args k n) (\<lambda>n1. fmt_ok (Ref_index k, n1))
      | Name_id s \<Rightarrow> fmt_ok (Ref_name s, n))"

section \<open>The parser\<close>

definition parse_dynamic_ref :: "nat option \<Rightarrow> string \<Rightarrow> int \<Rightarrow> (arg_ref \<times> int \<times> string) fmt_result" where
  "parse_dynamic_ref num_args s n =
     (case s of
        [] \<Rightarrow> fmt_err ''invalid format string''
      | c # cs \<Rightarrow>
          fmt_bind (parse_arg_id c cs) (\<lambda>(i, rest).
            fmt_bind (make_arg_ref num_args i n) (\<lambda>(r, n1).
              if rest = [] \<or> hd rest \<noteq> CHR ''}'' then fmt_err ''invalid format string''
              else fmt_ok (r, n1, tl rest))))"

type_synonym ref_state = "spec_state \<times> arg_ref"

definition unless_end_ref :: "(char \<Rightarrow> string \<Rightarrow> format_specs \<Rightarrow> int \<Rightarrow> ref_state fmt_result) \<Rightarrow> spec_state \<Rightarrow> ref_state fmt_result" where
  "unless_end_ref f st = (case st of (sp, n, s) \<Rightarrow> (case s of [] \<Rightarrow> fmt_ok (st, Ref_none) | c # cs \<Rightarrow> f c cs sp n))"

definition parse_dynamic_width :: "nat option \<Rightarrow> char \<Rightarrow> string \<Rightarrow> format_specs \<Rightarrow> int \<Rightarrow> ref_state fmt_result" where
  "parse_dynamic_width num_args c cs sp n =
     (if is_digit c then
        (case parse_nonnegative_int (c # cs) of
           (Inl e, rest) \<Rightarrow> fmt_err e
         | (Inr v, rest) \<Rightarrow> fmt_ok ((sp\<lparr>spec_width := v\<rparr>, n, rest), Ref_none))
      else if c = CHR ''{'' then
        fmt_bind (parse_dynamic_ref num_args cs n) (\<lambda>(r, n1, rest). fmt_ok ((sp, n1, rest), r))
      else fmt_ok ((sp, n, c # cs), Ref_none))"

text \<open>After the point.  \<open>t\<close> is the type for the checks of \<open>specs_checker\<close>.\<close>

definition parse_dynamic_precision :: "arg_type \<Rightarrow> nat option \<Rightarrow> string \<Rightarrow> format_specs \<Rightarrow> int \<Rightarrow> ref_state fmt_result" where
  "parse_dynamic_precision t num_args s sp n =
     fmt_bind
       (if s \<noteq> [] \<and> is_digit (hd s) then
          (case parse_nonnegative_int s of
             (Inl e, rest) \<Rightarrow> fmt_err e
           | (Inr v, rest) \<Rightarrow> fmt_ok ((sp\<lparr>spec_precision := int v\<rparr>, n, rest), Ref_none))
        else if s \<noteq> [] \<and> hd s = CHR ''{'' then
          fmt_bind (parse_dynamic_ref num_args (tl s) n) (\<lambda>(r, n1, rest). fmt_ok ((sp, n1, rest), r))
        else fmt_err ''missing precision specifier'')
       (\<lambda>st. fmt_bind (check_precision t) (\<lambda>_. fmt_ok st))"

definition parse_dynamic_point :: "arg_type \<Rightarrow> nat option \<Rightarrow> char \<Rightarrow> string \<Rightarrow> format_specs \<Rightarrow> int \<Rightarrow> ref_state fmt_result" where
  "parse_dynamic_point t num_args c cs sp n =
     (if c = CHR ''.'' then parse_dynamic_precision t num_args cs sp n else fmt_ok ((sp, n, c # cs), Ref_none))"

definition parse_dynamic_specs :: "arg_type \<Rightarrow> nat option \<Rightarrow> spec_state \<Rightarrow> (dynamic_specs \<times> int \<times> string) fmt_result" where
  "parse_dynamic_specs t num_args st =
     (if snd (snd st) = [] \<or> hd (snd (snd st)) = CHR ''}''
      then fmt_ok (\<lparr>static_specs = fst st, width_ref = Ref_none, precision_ref = Ref_none\<rparr>, snd st)
      else
        fmt_bind (unless_end parse_align st) (\<lambda>st1.
        fmt_bind (unless_end (parse_sign t) st1) (\<lambda>st2.
        fmt_bind (unless_end (parse_hash t) st2) (\<lambda>st3.
        fmt_bind (unless_end (parse_zero t) st3) (\<lambda>st4.
        fmt_bind (unless_end_ref (parse_dynamic_width num_args) st4) (\<lambda>(st5, w).
        fmt_bind (unless_end_ref (parse_dynamic_point t num_args) st5) (\<lambda>(st6, p).
        fmt_bind (unless_end parse_type st6) (\<lambda>(sp, n, s).
          fmt_ok (\<lparr>static_specs = sp, width_ref = w, precision_ref = p\<rparr>, n, s)))))))))"

text \<open>A handler without \<open>specs_checker\<close> checks nothing; all the checks hold for a \<open>double\<close>.\<close>

abbreviation no_checks :: arg_type where "no_checks \<equiv> Double_type"

lemma no_checks_hold: "require_numeric no_checks = fmt_ok ()" "check_sign no_checks = fmt_ok ()" "check_precision no_checks = fmt_ok ()"
  by (simp_all add: require_numeric_def check_sign_def check_precision_def is_arithmetic_type_def is_integral_type_def)

section \<open>Resolving\<close>

definition lookup_ref :: "fmt_args \<Rightarrow> arg_ref \<Rightarrow> fmt_arg option" where
  "lookup_ref args r =
     Option.bind (case r of Ref_none \<Rightarrow> None | Ref_index k \<Rightarrow> Some k | Ref_name s \<Rightarrow> map_of (arg_names args) s)
       (\<lambda>k. if k < length (arg_list args) then Some (arg_list args ! k) else None)"

text \<open>\<open>None\<close> leaves the value as it is; an argument that does not exist is not an integer.\<close>

definition handle_dynamic_spec :: "string \<Rightarrow> arg_ref \<Rightarrow> fmt_args \<Rightarrow> nat option fmt_result" where
  "handle_dynamic_spec what r args =
     (if r = Ref_none then fmt_ok None
      else
        case lookup_ref args r of
          None \<Rightarrow> fmt_err (what @ '' is not integer'')
        | Some a \<Rightarrow> fmt_bind (get_dynamic_spec what a) (\<lambda>v. fmt_ok (Some v)))"

definition with_width :: "nat option \<Rightarrow> format_specs \<Rightarrow> format_specs" where
  "with_width w sp = (case w of None \<Rightarrow> sp | Some v \<Rightarrow> sp\<lparr>spec_width := v\<rparr>)"

definition with_precision :: "nat option \<Rightarrow> format_specs \<Rightarrow> format_specs" where
  "with_precision p sp = (case p of None \<Rightarrow> sp | Some v \<Rightarrow> sp\<lparr>spec_precision := int v\<rparr>)"

definition resolve_specs :: "fmt_args \<Rightarrow> dynamic_specs \<Rightarrow> format_specs fmt_result" where
  "resolve_specs args d =
     fmt_bind (handle_dynamic_spec ''width'' (width_ref d) args) (\<lambda>w.
       fmt_bind (handle_dynamic_spec ''precision'' (precision_ref d) args) (\<lambda>p.
         fmt_ok (with_precision p (with_width w (static_specs d)))))"

section \<open>The same as in one pass\<close>

text \<open>Two results with the same value, or without one.\<close>

definition agree :: "'a fmt_result \<Rightarrow> 'a fmt_result \<Rightarrow> bool" where
  "agree r r' \<longleftrightarrow> (\<forall>x. r = fmt_ok x \<longleftrightarrow> r' = fmt_ok x)"

lemma agree_refl [simp]: "agree r r"
  by (simp add: agree_def)

lemma agree_sym: "agree r r' \<Longrightarrow> agree r' r"
  by (simp add: agree_def)

lemma agree_trans [trans]: "agree r r' \<Longrightarrow> agree r' r'' \<Longrightarrow> agree r r''"
  by (simp add: agree_def)

lemma agree_ok: "agree r r' \<Longrightarrow> r = fmt_ok x \<longleftrightarrow> r' = fmt_ok x"
  by (simp add: agree_def)

lemma fmt_bind_ok: "fmt_bind r f = fmt_ok y \<longleftrightarrow> (\<exists>x. r = fmt_ok x \<and> f x = fmt_ok y)"
  by (cases r; cases "the r") auto

lemma agree_bind:
  assumes "agree r r'" "\<And>x. r = fmt_ok x \<Longrightarrow> agree (f x) (f' x)"
  shows "agree (fmt_bind r f) (fmt_bind r' f')"
  using assms unfolding agree_def by (auto simp: fmt_bind_ok)

lemma agree_swap: "agree (fmt_bind a (\<lambda>x. fmt_bind b (\<lambda>y. f x y))) (fmt_bind b (\<lambda>y. fmt_bind a (\<lambda>x. f x y)))"
  unfolding agree_def by (auto simp: fmt_bind_ok)

lemma agree_errors [simp]: "agree (fmt_err e) (fmt_err e')" "agree None (fmt_err e)" "agree (fmt_err e) None"
  by (simp_all add: agree_def)

lemma ctx_unlimited: "ctx_next_arg_id None n = next_arg_id n" "ctx_check_arg_id None k n = check_arg_id n"
  by (simp_all add: ctx_next_arg_id_def ctx_check_arg_id_def beyond_def next_arg_id_def check_arg_id_def)

lemma make_arg_ref_some: "make_arg_ref num_args i n = fmt_ok (r, n1) \<Longrightarrow> r \<noteq> Ref_none"
  by (auto simp: make_arg_ref_def fmt_bind_ok split: arg_id.splits)

lemma get_arg_ok: "get_arg k args = fmt_ok a \<longleftrightarrow> k < length (arg_list args) \<and> a = arg_list args ! k"
  by (auto simp: get_arg_def)

lemma handle_dynamic_spec_simps:
  "handle_dynamic_spec what Ref_none args = fmt_ok None"
  "handle_dynamic_spec what (Ref_index k) args
    = (if k < length (arg_list args) then fmt_bind (get_dynamic_spec what (arg_list args ! k)) (\<lambda>v. fmt_ok (Some v))
       else fmt_err (what @ '' is not integer''))"
  "handle_dynamic_spec what (Ref_name s) args
    = (case map_of (arg_names args) s of None \<Rightarrow> fmt_err (what @ '' is not integer'') | Some k \<Rightarrow> handle_dynamic_spec what (Ref_index k) args)"
  by (simp_all add: handle_dynamic_spec_def lookup_ref_def split: option.splits)

lemma get_arg_cases: "get_arg k args = (if k < length (arg_list args) then fmt_ok (arg_list args ! k) else fmt_err ''argument not found'')"
  by (simp add: get_arg_def)

lemma index_resolve:
  "agree (fmt_bind (get_arg k args) (\<lambda>a. fmt_bind (get_dynamic_spec what a) (\<lambda>v. fmt_ok (v, n1))))
    (fmt_bind (handle_dynamic_spec what (Ref_index k) args) (\<lambda>v. fmt_ok (the v, n1)))"
  by (simp add: get_arg_cases handle_dynamic_spec_simps fmt_bind_assoc)

lemma on_dynamic_resolve:
  "agree (on_dynamic what args i n)
    (fmt_bind (make_arg_ref None i n) (\<lambda>(r, n1). fmt_bind (handle_dynamic_spec what r args) (\<lambda>v. fmt_ok (the v, n1))))"
proof (cases i)
  case Auto_id
  then show ?thesis
    by (auto simp: on_dynamic_def make_arg_ref_def on_arg_id_def ctx_unlimited fmt_bind_assoc intro!: agree_bind index_resolve)
next
  case (Index_id k)
  then show ?thesis
    by (auto simp: on_dynamic_def make_arg_ref_def on_arg_id_def ctx_unlimited fmt_bind_assoc intro!: agree_bind index_resolve)
next
  case (Name_id s)
  show ?thesis
  proof (cases "map_of (arg_names args) s")
    case (Some k)
    then show ?thesis using Name_id index_resolve [of k args what n]
      by (simp add: on_dynamic_def make_arg_ref_def on_arg_id_def handle_dynamic_spec_simps)
  qed (simp add: Name_id on_dynamic_def make_arg_ref_def on_arg_id_def handle_dynamic_spec_simps)
qed

lemma parse_dynamic_resolve:
  "agree (parse_dynamic what args s n)
    (fmt_bind (parse_dynamic_ref None s n) (\<lambda>(r, n1, rest). fmt_bind (handle_dynamic_spec what r args) (\<lambda>v. fmt_ok (the v, n1, rest))))"
proof (cases s)
  case (Cons c cs)
  have "parse_dynamic what args s n = fmt_ok x \<longleftrightarrow>
      fmt_bind (parse_dynamic_ref None s n) (\<lambda>(r, n1, rest). fmt_bind (handle_dynamic_spec what r args) (\<lambda>v. fmt_ok (the v, n1, rest))) = fmt_ok x" for x
    using agree_ok [OF on_dynamic_resolve [of what args _ n]]
    by (simp add: parse_dynamic_def parse_dynamic_ref_def Cons fmt_bind_ok) (auto simp: fmt_bind_ok split: if_splits; blast)
  then show ?thesis by (simp add: agree_def)
qed (simp add: parse_dynamic_def parse_dynamic_ref_def)

definition resolving_width :: "fmt_args \<Rightarrow> ref_state \<Rightarrow> spec_state fmt_result" where
  "resolving_width args st =
     (case st of ((sp, n, s), r) \<Rightarrow> fmt_bind (handle_dynamic_spec ''width'' r args) (\<lambda>w. fmt_ok (with_width w sp, n, s)))"

definition resolving_precision :: "fmt_args \<Rightarrow> ref_state \<Rightarrow> spec_state fmt_result" where
  "resolving_precision args st =
     (case st of ((sp, n, s), r) \<Rightarrow> fmt_bind (handle_dynamic_spec ''precision'' r args) (\<lambda>p. fmt_ok (with_precision p sp, n, s)))"

lemma resolving_none [simp]:
  "resolving_width args (st, Ref_none) = fmt_ok st" "resolving_precision args (st, Ref_none) = fmt_ok st"
  by (cases st; simp add: resolving_width_def resolving_precision_def handle_dynamic_spec_simps with_width_def with_precision_def)+

lemma parse_dynamic_ref_some: "parse_dynamic_ref num_args s n = fmt_ok (r, n1, rest) \<Longrightarrow> r \<noteq> Ref_none"
  by (cases s) (auto simp: parse_dynamic_ref_def fmt_bind_ok dest: make_arg_ref_some split: if_splits)

lemma handle_dynamic_spec_some:
  assumes "r \<noteq> Ref_none"
  shows "handle_dynamic_spec what r args = fmt_ok v \<Longrightarrow> v = Some (the v)"
  using assms by (auto simp: handle_dynamic_spec_def fmt_bind_ok split: option.splits)

lemma width_resolve:
  "agree (unless_end (parse_width args) (sp, n, s))
    (fmt_bind (unless_end_ref (parse_dynamic_width None) (sp, n, s)) (resolving_width args))"
proof (cases s)
  case Nil
  then show ?thesis by (simp add: unless_end_def unless_end_ref_def)
next
  case (Cons c cs)
  consider "is_digit c" | "\<not> is_digit c" "c = CHR ''{''" | "\<not> is_digit c" "c \<noteq> CHR ''{''" by blast
  then show ?thesis
  proof cases
    case 1
    then show ?thesis using Cons
      by (simp add: unless_end_ref_def parse_width_def parse_dynamic_width_def split: prod.split sum.split)
  next
    case 2
    have "agree (fmt_bind (parse_dynamic ''width'' args cs n) (\<lambda>(v, n1, rest). fmt_ok (sp\<lparr>spec_width := v\<rparr>, n1, rest)))
        (fmt_bind (fmt_bind (parse_dynamic_ref None cs n) (\<lambda>(r, n1, rest). fmt_bind (handle_dynamic_spec ''width'' r args) (\<lambda>v. fmt_ok (the v, n1, rest))))
          (\<lambda>(v, n1, rest). fmt_ok (sp\<lparr>spec_width := v\<rparr>, n1, rest)))"
      by (intro agree_bind parse_dynamic_resolve) simp
    also have "agree \<dots> (fmt_bind (parse_dynamic_ref None cs n) (\<lambda>(r, n1, rest). resolving_width args ((sp, n1, rest), r)))"
      unfolding fmt_bind_assoc
    proof (intro agree_bind agree_refl, clarsimp simp: fmt_bind_assoc resolving_width_def, intro agree_bind agree_refl)
      fix r n1 rest v
      assume "parse_dynamic_ref None cs n = fmt_ok (r, n1, rest)" "handle_dynamic_spec ''width'' r args = fmt_ok v"
      then have "v = Some (the v)" by (auto dest: parse_dynamic_ref_some intro: handle_dynamic_spec_some)
      then show "agree (fmt_ok (sp\<lparr>spec_width := the v\<rparr>, n1, rest)) (fmt_ok (with_width v sp, n1, rest))"
        by (cases v) (simp_all add: with_width_def)
    qed
    finally show ?thesis using 2 Cons
      by (simp add: unless_end_ref_def parse_width_def parse_dynamic_width_def fmt_bind_assoc case_prod_unfold)
  next
    case 3
    then show ?thesis using Cons by (simp add: unless_end_ref_def parse_width_def parse_dynamic_width_def)
  qed
qed

lemma precision_resolve:
  "agree (unless_end (parse_point t args) (sp, n, s))
    (fmt_bind (unless_end_ref (parse_dynamic_point t None) (sp, n, s)) (resolving_precision args))"
proof (cases s)
  case Nil
  then show ?thesis by (simp add: unless_end_def unless_end_ref_def)
next
  case (Cons c cs)
  consider "c = CHR ''.''" "cs \<noteq> [] \<and> is_digit (hd cs)" | "c = CHR ''.''" "\<not> (cs \<noteq> [] \<and> is_digit (hd cs))" "cs \<noteq> [] \<and> hd cs = CHR ''{''"
    | "c = CHR ''.''" "\<not> (cs \<noteq> [] \<and> is_digit (hd cs))" "\<not> (cs \<noteq> [] \<and> hd cs = CHR ''{'')" | "c \<noteq> CHR ''.''" by blast
  then show ?thesis
  proof cases
    case 1
    then show ?thesis using Cons
      by (cases "check_precision t"; cases "the (check_precision t)")
        (auto simp: unless_end_ref_def parse_point_def parse_dynamic_point_def parse_precision_def parse_dynamic_precision_def
          split: prod.split sum.split)
  next
    case 2
    have "agree (fmt_bind (parse_dynamic ''precision'' args (tl cs) n) (\<lambda>(v, n1, rest). fmt_bind (check_precision t) (\<lambda>_. fmt_ok (sp\<lparr>spec_precision := int v\<rparr>, n1, rest))))
        (fmt_bind (fmt_bind (parse_dynamic_ref None (tl cs) n) (\<lambda>(r, n1, rest). fmt_bind (handle_dynamic_spec ''precision'' r args) (\<lambda>v. fmt_ok (the v, n1, rest))))
          (\<lambda>(v, n1, rest). fmt_bind (check_precision t) (\<lambda>_. fmt_ok (sp\<lparr>spec_precision := int v\<rparr>, n1, rest))))"
      by (intro agree_bind parse_dynamic_resolve) simp
    also have "agree \<dots> (fmt_bind (parse_dynamic_ref None (tl cs) n) (\<lambda>(r, n1, rest). fmt_bind (check_precision t) (\<lambda>_. resolving_precision args ((sp, n1, rest), r))))"
      unfolding fmt_bind_assoc
    proof (intro agree_bind agree_refl, clarsimp simp: fmt_bind_assoc resolving_precision_def)
      fix r n1 rest
      assume r: "parse_dynamic_ref None (tl cs) n = fmt_ok (r, n1, rest)"
      have "agree (fmt_bind (handle_dynamic_spec ''precision'' r args) (\<lambda>v. fmt_bind (check_precision t) (\<lambda>_. fmt_ok (sp\<lparr>spec_precision := int (the v)\<rparr>, n1, rest))))
          (fmt_bind (handle_dynamic_spec ''precision'' r args) (\<lambda>p. fmt_bind (check_precision t) (\<lambda>_. fmt_ok (with_precision p sp, n1, rest))))"
      proof (intro agree_bind agree_refl)
        fix v u
        assume "handle_dynamic_spec ''precision'' r args = fmt_ok v"
        with r have "v = Some (the v)" by (auto dest: parse_dynamic_ref_some intro: handle_dynamic_spec_some)
        then show "agree (fmt_ok (sp\<lparr>spec_precision := int (the v)\<rparr>, n1, rest)) (fmt_ok (with_precision v sp, n1, rest))"
          by (cases v) (simp_all add: with_precision_def)
      qed
      then show "agree (fmt_bind (handle_dynamic_spec ''precision'' r args) (\<lambda>v. fmt_bind (check_precision t) (\<lambda>_. fmt_ok (sp\<lparr>spec_precision := int (the v)\<rparr>, n1, rest))))
          (fmt_bind (check_precision t) (\<lambda>_. fmt_bind (handle_dynamic_spec ''precision'' r args) (\<lambda>p. fmt_ok (with_precision p sp, n1, rest))))"
        by (rule agree_trans) (rule agree_swap)
    qed
    finally show ?thesis using 2 Cons
      by (simp add: unless_end_ref_def parse_point_def parse_dynamic_point_def parse_precision_def parse_dynamic_precision_def fmt_bind_assoc case_prod_unfold)
  next
    case 3
    then have "parse_precision t args cs sp n = fmt_err ''missing precision specifier''"
      "parse_dynamic_precision t None cs sp n = fmt_err ''missing precision specifier''"
      unfolding parse_precision_def parse_dynamic_precision_def by (simp_all only: if_False fmt_bind_simps)
    then show ?thesis using 3 Cons by (simp add: unless_end_ref_def parse_point_def parse_dynamic_point_def)
  next
    case 4
    then show ?thesis using Cons by (simp add: unless_end_ref_def parse_point_def parse_dynamic_point_def)
  qed
qed

text \<open>The later parts do not look at the width and the precision.\<close>

lemma type_commutes:
  "unless_end parse_type (with_precision p sp, n, s) = fmt_bind (unless_end parse_type (sp, n, s)) (\<lambda>(sp1, n1, s1). fmt_ok (with_precision p sp1, n1, s1))"
  "unless_end parse_type (with_width w sp, n, s) = fmt_bind (unless_end parse_type (sp, n, s)) (\<lambda>(sp1, n1, s1). fmt_ok (with_width w sp1, n1, s1))"
  by (cases s; cases p; cases w; simp add: unless_end_def parse_type_def with_precision_def with_width_def)+

lemma point_commutes:
  "unless_end_ref (parse_dynamic_point t num_args) (with_width w sp, n, s)
    = fmt_bind (unless_end_ref (parse_dynamic_point t num_args) (sp, n, s)) (\<lambda>((sp1, n1, s1), r). fmt_ok ((with_width w sp1, n1, s1), r))"
proof (cases s)
  case Nil
  then show ?thesis by (simp add: unless_end_ref_def)
next
  case (Cons c cs)
  have w: "(with_width w sp)\<lparr>spec_precision := v\<rparr> = with_width w (sp\<lparr>spec_precision := v\<rparr>)" for v by (cases w) (simp_all add: with_width_def)
  have "parse_dynamic_precision t num_args cs (with_width w sp) n
      = fmt_bind (parse_dynamic_precision t num_args cs sp n) (\<lambda>((sp1, n1, s1), r). fmt_ok ((with_width w sp1, n1, s1), r))"
    by (cases "check_precision t"; cases "the (check_precision t)")
      (simp_all add: parse_dynamic_precision_def fmt_bind_assoc w case_prod_unfold split: sum.split)
  then show ?thesis by (simp add: Cons unless_end_ref_def parse_dynamic_point_def)
qed

lemma parse_tail_resolve:
  "agree (fmt_bind (unless_end (parse_point t args) (sp, n, s)) (unless_end parse_type))
    (fmt_bind (unless_end_ref (parse_dynamic_point t None) (sp, n, s)) (\<lambda>(st, p).
      fmt_bind (unless_end parse_type st) (\<lambda>st1. resolving_precision args (st1, p))))"
proof (rule agree_trans)
  show "agree (fmt_bind (unless_end (parse_point t args) (sp, n, s)) (unless_end parse_type))
      (fmt_bind (fmt_bind (unless_end_ref (parse_dynamic_point t None) (sp, n, s)) (resolving_precision args)) (unless_end parse_type))"
    by (intro agree_bind precision_resolve) simp
  show "agree (fmt_bind (fmt_bind (unless_end_ref (parse_dynamic_point t None) (sp, n, s)) (resolving_precision args)) (unless_end parse_type))
      (fmt_bind (unless_end_ref (parse_dynamic_point t None) (sp, n, s)) (\<lambda>(st, p).
        fmt_bind (unless_end parse_type st) (\<lambda>st1. resolving_precision args (st1, p))))"
    unfolding fmt_bind_assoc
  proof (intro agree_bind agree_refl)
    fix x :: ref_state
    obtain sp1 n1 s1 p where x: "x = ((sp1, n1, s1), p)" by (metis prod_cases3 surj_pair)
    have l: "fmt_bind (resolving_precision args x) (unless_end parse_type)
        = fmt_bind (handle_dynamic_spec ''precision'' p args) (\<lambda>v. fmt_bind (unless_end parse_type (sp1, n1, s1)) (\<lambda>(sp2, n2, s2). fmt_ok (with_precision v sp2, n2, s2)))"
      by (simp add: x resolving_precision_def fmt_bind_assoc type_commutes)
    have r: "(case x of (st, p) \<Rightarrow> fmt_bind (unless_end parse_type st) (\<lambda>st1. resolving_precision args (st1, p)))
        = fmt_bind (unless_end parse_type (sp1, n1, s1)) (\<lambda>y. fmt_bind (handle_dynamic_spec ''precision'' p args) (\<lambda>v. (\<lambda>(sp2, n2, s2). fmt_ok (with_precision v sp2, n2, s2)) y))"
      by (simp add: x resolving_precision_def case_prod_unfold)
    show "agree (fmt_bind (resolving_precision args x) (unless_end parse_type))
        (case x of (st, p) \<Rightarrow> fmt_bind (unless_end parse_type st) (\<lambda>st1. resolving_precision args (st1, p)))"
      unfolding l r by (rule agree_swap)
  qed
qed

definition resolving :: "fmt_args \<Rightarrow> dynamic_specs \<times> int \<times> string \<Rightarrow> spec_state fmt_result" where
  "resolving args x = (case x of (d, n, s) \<Rightarrow> fmt_bind (resolve_specs args d) (\<lambda>sp. fmt_ok (sp, n, s)))"

text \<open>The part from the width on.\<close>

lemma parse_end_resolve:
  "agree (fmt_bind (unless_end (parse_width args) (sp, n, s)) (\<lambda>st. fmt_bind (unless_end (parse_point t args) st) (unless_end parse_type)))
    (fmt_bind (fmt_bind (unless_end_ref (parse_dynamic_width None) (sp, n, s)) (\<lambda>(st5, w).
        fmt_bind (unless_end_ref (parse_dynamic_point t None) st5) (\<lambda>(st6, p).
        fmt_bind (unless_end parse_type st6) (\<lambda>(sp, n, s).
          fmt_ok (\<lparr>static_specs = sp, width_ref = w, precision_ref = p\<rparr>, n, s))))) (resolving args))"
proof (rule agree_trans)
  let ?tail = "\<lambda>st. fmt_bind (unless_end (parse_point t args) st) (unless_end parse_type)"
  show "agree (fmt_bind (unless_end (parse_width args) (sp, n, s)) ?tail)
      (fmt_bind (fmt_bind (unless_end_ref (parse_dynamic_width None) (sp, n, s)) (resolving_width args)) ?tail)"
    by (rule agree_bind [OF width_resolve]) simp
  show "agree (fmt_bind (fmt_bind (unless_end_ref (parse_dynamic_width None) (sp, n, s)) (resolving_width args)) ?tail)
      (fmt_bind (fmt_bind (unless_end_ref (parse_dynamic_width None) (sp, n, s)) (\<lambda>(st5, w).
        fmt_bind (unless_end_ref (parse_dynamic_point t None) st5) (\<lambda>(st6, p).
        fmt_bind (unless_end parse_type st6) (\<lambda>(sp, n, s).
          fmt_ok (\<lparr>static_specs = sp, width_ref = w, precision_ref = p\<rparr>, n, s))))) (resolving args))"
    unfolding fmt_bind_assoc
  proof (intro agree_bind agree_refl)
    fix x :: ref_state
    obtain sp1 n1 s1 r where x: "x = ((sp1, n1, s1), r)" by (metis prod_cases3 surj_pair)
    let ?point = "unless_end_ref (parse_dynamic_point t None) (sp1, n1, s1)"
    let ?w = "handle_dynamic_spec ''width'' r args"
    define g where "g w y = (case y of ((st6 :: spec_state), p) \<Rightarrow>
        fmt_bind (unless_end parse_type st6) (\<lambda>(sp2, n2, s2). resolving_precision args ((with_width w sp2, n2, s2), p)))" for w y
    have a1: "agree (fmt_bind (resolving_width args x) ?tail) (fmt_bind ?w (\<lambda>w. fmt_bind ?point (g w)))"
    proof -
      have "fmt_bind (resolving_width args x) ?tail = fmt_bind ?w (\<lambda>w. ?tail (with_width w sp1, n1, s1))"
        by (simp add: x resolving_width_def fmt_bind_assoc)
      moreover have "agree (?tail (with_width w sp1, n1, s1)) (fmt_bind ?point (g w))" for w
      proof -
        have "fmt_bind (unless_end_ref (parse_dynamic_point t None) (with_width w sp1, n1, s1))
            (\<lambda>(st, p). fmt_bind (unless_end parse_type st) (\<lambda>st1. resolving_precision args (st1, p))) = fmt_bind ?point (g w)"
          unfolding point_commutes fmt_bind_assoc
        proof (rule fmt_bind_cong [OF refl])
          fix y :: ref_state
          obtain sp2 n2 s2 p where y: "y = ((sp2, n2, s2), p)" by (metis prod_cases3 surj_pair)
          show "fmt_bind ((\<lambda>((sp1, n1, s1), r). fmt_ok ((with_width w sp1, n1, s1), r)) y)
              (\<lambda>(st, p). fmt_bind (unless_end parse_type st) (\<lambda>st1. resolving_precision args (st1, p))) = g w y"
            by (simp add: y g_def type_commutes fmt_bind_assoc case_prod_unfold)
        qed
        then show ?thesis using parse_tail_resolve [of t args "with_width w sp1" n1 s1] by simp
      qed
      ultimately show ?thesis by (auto intro!: agree_bind)
    qed
    have a2: "agree (fmt_bind ?w (\<lambda>w. fmt_bind ?point (g w))) (fmt_bind ?point (\<lambda>y. fmt_bind ?w (\<lambda>w. g w y)))"
      by (rule agree_swap)
    have a3: "agree (fmt_bind ?point (\<lambda>y. fmt_bind ?w (\<lambda>w. g w y)))
        (fmt_bind ((\<lambda>(st5, w).
        fmt_bind (unless_end_ref (parse_dynamic_point t None) st5) (\<lambda>(st6, p).
        fmt_bind (unless_end parse_type st6) (\<lambda>(sp, n, s).
          fmt_ok (\<lparr>static_specs = sp, width_ref = w, precision_ref = p\<rparr>, n, s)))) x) (resolving args))"
    proof -
      have "agree (fmt_bind ?w (\<lambda>w. g w y)) (fmt_bind ((\<lambda>(st6, p). fmt_bind (unless_end parse_type st6) (\<lambda>(sp, n, s).
          fmt_ok (\<lparr>static_specs = sp, width_ref = r, precision_ref = p\<rparr>, n, s))) y) (resolving args))" for y :: ref_state
      proof -
        obtain st6 p where y: "y = (st6, p)" by (cases y)
        have "fmt_bind ?w (\<lambda>w. g w y) = fmt_bind ?w (\<lambda>w. fmt_bind (unless_end parse_type st6) (\<lambda>z. (\<lambda>(sp2, n2, s2). resolving_precision args ((with_width w sp2, n2, s2), p)) z))"
          by (simp add: g_def y)
        moreover have "agree \<dots> (fmt_bind (unless_end parse_type st6) (\<lambda>z. fmt_bind ?w (\<lambda>w. (\<lambda>(sp2, n2, s2). resolving_precision args ((with_width w sp2, n2, s2), p)) z)))"
          by (rule agree_swap)
        ultimately show ?thesis
          by (simp add: y fmt_bind_assoc case_prod_unfold resolving_def resolve_specs_def resolving_precision_def)
      qed
      then show ?thesis by (auto simp: x fmt_bind_assoc intro!: agree_bind)
    qed
    show "agree (fmt_bind (resolving_width args x) ?tail)
        (fmt_bind ((\<lambda>(st5, w).
        fmt_bind (unless_end_ref (parse_dynamic_point t None) st5) (\<lambda>(st6, p).
        fmt_bind (unless_end parse_type st6) (\<lambda>(sp, n, s).
          fmt_ok (\<lparr>static_specs = sp, width_ref = w, precision_ref = p\<rparr>, n, s)))) x) (resolving args))"
      by (rule agree_trans [OF a1 agree_trans [OF a2 a3]])
  qed
qed

lemma resolving_static:
  "resolving args (\<lparr>static_specs = sp, width_ref = Ref_none, precision_ref = Ref_none\<rparr>, n, s) = fmt_ok (sp, n, s)"
  by (simp add: resolving_def resolve_specs_def handle_dynamic_spec_simps with_width_def with_precision_def)

lemma parse_specs_resolve:
  "agree (parse_format_specs t args st) (fmt_bind (parse_dynamic_specs t None st) (resolving args))"
proof -
  obtain sp n s where st: "st = (sp, n, s)" by (metis prod_cases3)
  show ?thesis
  proof (cases s)
    case Nil
    then show ?thesis by (simp add: st parse_format_specs_def parse_dynamic_specs_def unless_end_def resolving_static)
  next
    case (Cons c cs)
    show ?thesis
    proof (cases "c = CHR ''}''")
      case True
      then show ?thesis by (simp add: st Cons parse_format_specs_def parse_specs_from_def parse_dynamic_specs_def resolving_static)
    next
      case False
      have "agree (fmt_bind (unless_end (parse_width args) st4) (\<lambda>st. fmt_bind (unless_end (parse_point t args) st) (unless_end parse_type)))
        (fmt_bind (fmt_bind (unless_end_ref (parse_dynamic_width None) st4) (\<lambda>(st5, w).
        fmt_bind (unless_end_ref (parse_dynamic_point t None) st5) (\<lambda>(st6, p).
        fmt_bind (unless_end parse_type st6) (\<lambda>(sp, n, s).
          fmt_ok (\<lparr>static_specs = sp, width_ref = w, precision_ref = p\<rparr>, n, s))))) (resolving args))" for st4
        using parse_end_resolve by (cases st4) blast
      then show ?thesis using False
        unfolding parse_format_specs_def parse_dynamic_specs_def st Cons
        by (auto simp: parse_specs_from_def fmt_bind_assoc case_prod_unfold intro!: agree_bind)
    qed
  qed
qed

section \<open>Checks when the type is known\<close>

text \<open>The checks that \<open>cf::vformat_to\<close> makes of parsed specifiers.\<close>

definition check_specs :: "arg_type \<Rightarrow> format_specs \<Rightarrow> unit fmt_result" where
  "check_specs t sp =
     fmt_bind (if spec_align sp = Align_numeric then require_numeric t else fmt_ok ()) (\<lambda>_.
     fmt_bind (if spec_sign sp \<noteq> Sign_none then check_sign t else fmt_ok ()) (\<lambda>_.
     fmt_bind (if spec_alt sp then require_numeric t else fmt_ok ()) (\<lambda>_.
       if spec_precision sp \<ge> 0 then check_precision t else fmt_ok ())))"

lemma unit_result: "r = fmt_ok (x :: unit) \<longleftrightarrow> r = fmt_ok ()"
  by simp

lemma check_specs_ok:
  "check_specs t sp = fmt_ok () \<longleftrightarrow>
     (spec_align sp = Align_numeric \<longrightarrow> require_numeric t = fmt_ok ()) \<and> (spec_sign sp \<noteq> Sign_none \<longrightarrow> check_sign t = fmt_ok ())
     \<and> (spec_alt sp \<longrightarrow> require_numeric t = fmt_ok ()) \<and> (spec_precision sp \<ge> 0 \<longrightarrow> check_precision t = fmt_ok ())"
  by (auto simp: check_specs_def fmt_bind_ok)

text \<open>
  Each part with the checks for \<open>t\<close> is the part without checks, where what the part has set is allowed; the other parts
  leave it as it is.
\<close>

lemma parse_align_sets:
  assumes "unless_end parse_align (default_specs, n, s) = fmt_ok (sp, n1, s1)"
  shows "spec_sign sp = Sign_none" "\<not> spec_alt sp" "spec_align sp \<noteq> Align_numeric" "spec_precision sp = - 1"
proof -
  have n: "align_of_char c \<noteq> Align_numeric" for c by (simp add: align_of_char_def)
  obtain c cs where "s = [] \<and> sp = default_specs \<or> parse_align c cs default_specs n = fmt_ok (sp, n1, s1)"
    using assms by (cases s) (auto simp: unless_end_def)
  then show "spec_sign sp = Sign_none" "\<not> spec_alt sp" "spec_align sp \<noteq> Align_numeric" "spec_precision sp = - 1"
    using n by (auto simp: parse_align_def Let_def default_specs_def split: prod.splits if_splits)
qed

lemma parse_sign_sets:
  assumes "spec_sign sp = Sign_none"
  shows "unless_end (parse_sign t) (sp, n, s) = fmt_ok (sp1, n1, s1) \<longleftrightarrow>
    unless_end (parse_sign no_checks) (sp, n, s) = fmt_ok (sp1, n1, s1) \<and> (spec_sign sp1 \<noteq> Sign_none \<longrightarrow> check_sign t = fmt_ok ())"
    and "unless_end (parse_sign t) (sp, n, s) = fmt_ok (sp1, n1, s1) \<Longrightarrow>
    spec_alt sp1 = spec_alt sp \<and> spec_align sp1 = spec_align sp \<and> spec_precision sp1 = spec_precision sp"
proof -
  have c: "parse_sign u c cs sp n = fmt_ok (sp1, n1, s1) \<longleftrightarrow>
      (if c = CHR ''+'' then check_sign u = fmt_ok () \<and> sp1 = sp\<lparr>spec_sign := Sign_plus\<rparr> \<and> n1 = n \<and> s1 = cs
       else if c = CHR ''-'' then check_sign u = fmt_ok () \<and> sp1 = sp\<lparr>spec_sign := Sign_minus\<rparr> \<and> n1 = n \<and> s1 = cs
       else if c = CHR '' '' then check_sign u = fmt_ok () \<and> sp1 = sp\<lparr>spec_sign := Sign_space\<rparr> \<and> n1 = n \<and> s1 = cs
       else sp1 = sp \<and> n1 = n \<and> s1 = c # cs)" for u c cs
    by (simp add: parse_sign_def fmt_bind_ok) auto
  show "unless_end (parse_sign t) (sp, n, s) = fmt_ok (sp1, n1, s1) \<longleftrightarrow>
    unless_end (parse_sign no_checks) (sp, n, s) = fmt_ok (sp1, n1, s1) \<and> (spec_sign sp1 \<noteq> Sign_none \<longrightarrow> check_sign t = fmt_ok ())"
    using assms by (cases s) (auto simp: unless_end_def c no_checks_hold)
  show "unless_end (parse_sign t) (sp, n, s) = fmt_ok (sp1, n1, s1) \<Longrightarrow>
    spec_alt sp1 = spec_alt sp \<and> spec_align sp1 = spec_align sp \<and> spec_precision sp1 = spec_precision sp"
    by (cases s) (simp_all add: unless_end_def c split: if_splits)
qed

lemma parse_hash_sets:
  assumes "\<not> spec_alt sp"
  shows "unless_end (parse_hash t) (sp, n, s) = fmt_ok (sp1, n1, s1) \<longleftrightarrow>
    unless_end (parse_hash no_checks) (sp, n, s) = fmt_ok (sp1, n1, s1) \<and> (spec_alt sp1 \<longrightarrow> require_numeric t = fmt_ok ())"
    and "unless_end (parse_hash t) (sp, n, s) = fmt_ok (sp1, n1, s1) \<Longrightarrow>
    spec_sign sp1 = spec_sign sp \<and> spec_align sp1 = spec_align sp \<and> spec_precision sp1 = spec_precision sp"
  using assms by (cases s; auto simp: unless_end_def parse_hash_def no_checks_hold fmt_bind_ok split: if_splits)+

lemma parse_zero_sets:
  assumes "spec_align sp \<noteq> Align_numeric"
  shows "unless_end (parse_zero t) (sp, n, s) = fmt_ok (sp1, n1, s1) \<longleftrightarrow>
    unless_end (parse_zero no_checks) (sp, n, s) = fmt_ok (sp1, n1, s1) \<and> (spec_align sp1 = Align_numeric \<longrightarrow> require_numeric t = fmt_ok ())"
    and "unless_end (parse_zero t) (sp, n, s) = fmt_ok (sp1, n1, s1) \<Longrightarrow>
    spec_sign sp1 = spec_sign sp \<and> spec_alt sp1 = spec_alt sp \<and> spec_precision sp1 = spec_precision sp"
  using assms by (cases s; auto simp: unless_end_def parse_zero_def no_checks_hold fmt_bind_ok split: if_splits)+

lemma parse_width_keeps:
  "unless_end (parse_width args) (sp, n, s) = fmt_ok (sp1, n1, s1) \<Longrightarrow>
    spec_sign sp1 = spec_sign sp \<and> spec_alt sp1 = spec_alt sp \<and> spec_align sp1 = spec_align sp \<and> spec_precision sp1 = spec_precision sp"
  by (cases s) (auto simp: unless_end_def parse_width_def fmt_bind_ok split: if_splits prod.splits sum.splits)

lemma parse_point_sets:
  assumes "spec_precision sp = - 1"
  shows "unless_end (parse_point t args) (sp, n, s) = fmt_ok (sp1, n1, s1) \<longleftrightarrow>
    unless_end (parse_point no_checks args) (sp, n, s) = fmt_ok (sp1, n1, s1) \<and> (spec_precision sp1 \<ge> 0 \<longrightarrow> check_precision t = fmt_ok ())"
    and "unless_end (parse_point t args) (sp, n, s) = fmt_ok (sp1, n1, s1) \<Longrightarrow>
    spec_sign sp1 = spec_sign sp \<and> spec_alt sp1 = spec_alt sp \<and> spec_align sp1 = spec_align sp"
  using assms by (cases s; auto simp: unless_end_def parse_point_def parse_precision_def no_checks_hold fmt_bind_ok split: if_splits prod.splits sum.splits)+

lemma parse_type_keeps:
  "unless_end parse_type (sp, n, s) = fmt_ok (sp1, n1, s1) \<Longrightarrow>
    spec_sign sp1 = spec_sign sp \<and> spec_alt sp1 = spec_alt sp \<and> spec_align sp1 = spec_align sp \<and> spec_precision sp1 = spec_precision sp"
  by (cases s) (auto simp: unless_end_def parse_type_def split: if_splits)

text \<open>The parser as a chain of its parts.\<close>

lemma parse_format_specs_chain:
  assumes "s \<noteq> []" "hd s \<noteq> CHR ''}''"
  shows "parse_format_specs t args (sp, n, s) = fmt_ok st \<longleftrightarrow>
    (\<exists>st1 st2 st3 st4 st5 st6. unless_end parse_align (sp, n, s) = fmt_ok st1 \<and> unless_end (parse_sign t) st1 = fmt_ok st2
      \<and> unless_end (parse_hash t) st2 = fmt_ok st3 \<and> unless_end (parse_zero t) st3 = fmt_ok st4
      \<and> unless_end (parse_width args) st4 = fmt_ok st5 \<and> unless_end (parse_point t args) st5 = fmt_ok st6 \<and> unless_end parse_type st6 = fmt_ok st)"
  using assms by (cases s) (auto simp: parse_format_specs_def parse_specs_from_def fmt_bind_ok)

lemma chain_checks:
  assumes "unless_end parse_align (default_specs, n, s) = fmt_ok st1"
    and c: "unless_end (parse_sign no_checks) st1 = fmt_ok st2"
      "unless_end (parse_hash no_checks) st2 = fmt_ok st3" "unless_end (parse_zero no_checks) st3 = fmt_ok st4"
      "unless_end (parse_width args) st4 = fmt_ok st5" "unless_end (parse_point no_checks args) st5 = fmt_ok st6"
      "unless_end parse_type st6 = fmt_ok (sp, n', s')"
  shows "unless_end (parse_sign t) st1 = fmt_ok st2 \<and> unless_end (parse_hash t) st2 = fmt_ok st3 \<and> unless_end (parse_zero t) st3 = fmt_ok st4
    \<and> unless_end (parse_point t args) st5 = fmt_ok st6 \<longleftrightarrow> check_specs t sp = fmt_ok ()"
proof -
  obtain sp1 n1 s1 sp2 n2 s2 sp3 n3 s3 sp4 n4 s4 sp5 n5 s5 sp6 n6 s6
    where st: "st1 = (sp1, n1, s1)" "st2 = (sp2, n2, s2)" "st3 = (sp3, n3, s3)" "st4 = (sp4, n4, s4)" "st5 = (sp5, n5, s5)" "st6 = (sp6, n6, s6)"
    by (metis prod_cases3)
  note a = parse_align_sets [OF assms(1) [unfolded st]] and c = c [unfolded st]
  note k = parse_sign_sets(2) [OF a(1) c(1)] and k3 = parse_type_keeps [OF c(6)] and kw = parse_width_keeps [OF c(4)]
  have alt: "\<not> spec_alt sp2" and al2: "spec_align sp2 \<noteq> Align_numeric" and p2: "spec_precision sp2 = - 1" using k a by auto
  note h = parse_hash_sets(2) [OF alt c(2)]
  have al: "spec_align sp3 \<noteq> Align_numeric" using h al2 by auto
  note z = parse_zero_sets(2) [OF al c(3)]
  have pr: "spec_precision sp5 = - 1" using z h kw p2 by simp
  note pp = parse_point_sets(2) [OF pr c(5)]
  show ?thesis
    using c k k3 kw h z pp parse_sign_sets(1) [OF a(1), of t n1 s1 sp2 n2 s2] parse_hash_sets(1) [OF alt, of t n2 s2 sp3 n3 s3]
      parse_zero_sets(1) [OF al, of t n3 s3 sp4 n4 s4] parse_point_sets(1) [OF pr, of t args n5 s5 sp6 n6 s6]
    unfolding st check_specs_ok by simp blast
qed

lemma checks_weaken:
  "unless_end (parse_sign t) st = fmt_ok st' \<Longrightarrow> unless_end (parse_sign no_checks) st = fmt_ok st'"
  "unless_end (parse_hash t) st = fmt_ok st' \<Longrightarrow> unless_end (parse_hash no_checks) st = fmt_ok st'"
  "unless_end (parse_zero t) st = fmt_ok st' \<Longrightarrow> unless_end (parse_zero no_checks) st = fmt_ok st'"
  "unless_end (parse_point t args) st = fmt_ok st' \<Longrightarrow> unless_end (parse_point no_checks args) st = fmt_ok st'"
  by (cases st rule: prod_cases3; cases "snd (snd st)";
      auto simp: unless_end_def parse_sign_def parse_hash_def parse_zero_def parse_point_def parse_precision_def no_checks_hold fmt_bind_ok split: if_splits)+

lemma parse_specs_checks:
  "parse_format_specs t args (default_specs, n, s) = fmt_ok (sp, n', s') \<longleftrightarrow>
    parse_format_specs no_checks args (default_specs, n, s) = fmt_ok (sp, n', s') \<and> check_specs t sp = fmt_ok ()"
proof (cases "s = [] \<or> hd s = CHR ''}''")
  case True
  have "check_specs t default_specs = fmt_ok ()" by (simp add: check_specs_ok default_specs_def)
  moreover have "parse_format_specs u args (default_specs, n, s) = fmt_ok (default_specs, n, s)" for u
    using True by (cases s) (auto simp: parse_format_specs_def parse_specs_from_def unless_end_def)
  ultimately show ?thesis by auto
next
  case False
  then have s: "s \<noteq> []" "hd s \<noteq> CHR ''}''" by auto
  show ?thesis
    unfolding parse_format_specs_chain [OF s]
  proof (intro iffI; elim conjE exE)
    fix st1 st2 st3 st4 st5 st6
    assume c: "unless_end parse_align (default_specs, n, s) = fmt_ok st1" "unless_end (parse_sign t) st1 = fmt_ok st2"
      "unless_end (parse_hash t) st2 = fmt_ok st3" "unless_end (parse_zero t) st3 = fmt_ok st4"
      "unless_end (parse_width args) st4 = fmt_ok st5" "unless_end (parse_point t args) st5 = fmt_ok st6" "unless_end parse_type st6 = fmt_ok (sp, n', s')"
    note c' = c(1) checks_weaken(1) [OF c(2)] checks_weaken(2) [OF c(3)] checks_weaken(3) [OF c(4)] c(5) checks_weaken(4) [OF c(6)] c(7)
    show "(\<exists>st1 st2 st3 st4 st5 st6. unless_end parse_align (default_specs, n, s) = fmt_ok st1 \<and> unless_end (parse_sign no_checks) st1 = fmt_ok st2
      \<and> unless_end (parse_hash no_checks) st2 = fmt_ok st3 \<and> unless_end (parse_zero no_checks) st3 = fmt_ok st4
      \<and> unless_end (parse_width args) st4 = fmt_ok st5 \<and> unless_end (parse_point no_checks args) st5 = fmt_ok st6 \<and> unless_end parse_type st6 = fmt_ok (sp, n', s'))
      \<and> check_specs t sp = fmt_ok ()"
      using c' chain_checks [OF c', of t] c by blast
  next
    fix st1 st2 st3 st4 st5 st6
    assume ok: "check_specs t sp = fmt_ok ()"
      and c: "unless_end parse_align (default_specs, n, s) = fmt_ok st1" "unless_end (parse_sign no_checks) st1 = fmt_ok st2"
      "unless_end (parse_hash no_checks) st2 = fmt_ok st3" "unless_end (parse_zero no_checks) st3 = fmt_ok st4"
      "unless_end (parse_width args) st4 = fmt_ok st5" "unless_end (parse_point no_checks args) st5 = fmt_ok st6" "unless_end parse_type st6 = fmt_ok (sp, n', s')"
    show "\<exists>st1 st2 st3 st4 st5 st6. unless_end parse_align (default_specs, n, s) = fmt_ok st1 \<and> unless_end (parse_sign t) st1 = fmt_ok st2
      \<and> unless_end (parse_hash t) st2 = fmt_ok st3 \<and> unless_end (parse_zero t) st3 = fmt_ok st4
      \<and> unless_end (parse_width args) st4 = fmt_ok st5 \<and> unless_end (parse_point t args) st5 = fmt_ok st6 \<and> unless_end parse_type st6 = fmt_ok (sp, n', s')"
      using chain_checks [OF c, of t] ok c by blast
  qed
qed

end
