(* ===== verification/Fmt_Compile.thy ===== *)
theory Fmt_Compile imports Fmt_Dynamic begin

text \<open>
  Compiled format strings (spdlog/fmt/bundled/compile.h): the parts of a format string, \<open>format_string_compiler\<close> and
  \<open>cf::vformat_to\<close>, and that they format what \<open>vformat_to\<close> formats.

  \<open>None\<close> is a failed assertion (\<open>FMT_ASSERT\<close>, where \<open>ndebug\<close> does not turn it off) or a read behind the format string.  The
  field \<open>arg_id_end\<close> is for arguments of custom types and is left out.
\<close>

section \<open>Parts\<close>

datatype format_part =
    Part_text string
  | Part_arg_index nat
  | Part_arg_name string
  | Part_replacement arg_ref dynamic_specs

record format_string_compiler =
  compiled_parts :: "format_part list"
  current_part :: format_part
  next_id :: int

definition new_compiler :: format_string_compiler where
  "new_compiler = \<lparr>compiled_parts = [], current_part = Part_arg_index 0, next_id = 0\<rparr>"

definition add_part :: "format_part \<Rightarrow> format_string_compiler \<Rightarrow> format_string_compiler" where
  "add_part p c = c\<lparr>compiled_parts := compiled_parts c @ [p]\<rparr>"

definition compile_text :: "string \<Rightarrow> format_string_compiler \<Rightarrow> format_string_compiler" where
  "compile_text s c = (if s = [] then c else add_part (Part_text s) c)"

definition compile_arg_id :: "arg_id \<Rightarrow> format_string_compiler \<Rightarrow> (nat \<times> format_string_compiler) fmt_result" where
  "compile_arg_id i c =
     (case i of
        Auto_id \<Rightarrow> fmt_bind (next_arg_id (next_id c)) (\<lambda>(k, n). fmt_ok (0, c\<lparr>current_part := Part_arg_index k, next_id := n\<rparr>))
      | Index_id k \<Rightarrow> fmt_bind (check_arg_id (next_id c)) (\<lambda>n. fmt_ok (0, c\<lparr>current_part := Part_arg_index k, next_id := n\<rparr>))
      | Name_id s \<Rightarrow> fmt_ok (0, c\<lparr>current_part := Part_arg_name s\<rparr>))"

definition compile_field :: "nat \<Rightarrow> format_string_compiler \<Rightarrow> format_string_compiler fmt_result" where
  "compile_field k c = fmt_ok (add_part (current_part c) c)"

fun ref_of_part :: "format_part \<Rightarrow> arg_ref" where
  "ref_of_part (Part_arg_index k) = Ref_index k"
| "ref_of_part (Part_arg_name s) = Ref_name s"
| "ref_of_part (Part_text s) = Ref_name s"
| "ref_of_part (Part_replacement r d) = r"

definition compile_specs :: "nat \<Rightarrow> string \<Rightarrow> format_string_compiler \<Rightarrow> (string \<times> format_string_compiler) fmt_result" where
  "compile_specs k s c =
     fmt_bind (parse_dynamic_specs no_checks None (default_specs, next_id c, s)) (\<lambda>(d, n, rest).
       if rest = [] then None
       else if hd rest \<noteq> CHR ''}'' then fmt_err missing_brace
       else fmt_ok (rest, add_part (Part_replacement (ref_of_part (current_part c)) d) (c\<lparr>next_id := n\<rparr>)))"

definition compile_handler :: "format_string_compiler fmt_handler" where
  "compile_handler = \<lparr>h_text = compile_text, h_arg_id = compile_arg_id, h_field = compile_field, h_specs = compile_specs\<rparr>"

definition compile_format :: "string \<Rightarrow> format_part list fmt_result" where
  "compile_format s = fmt_bind (handle_format_string compile_handler s new_compiler) (\<lambda>c. fmt_ok (compiled_parts c))"

section \<open>Formatting the parts\<close>

text \<open>\<open>arg_formatter\<close> without specifiers: numbers and text take a path of their own.\<close>

fun write_unspecified :: "fmt_locale \<Rightarrow> fmt_arg \<Rightarrow> string fmt_result" where
  "write_unspecified loc (Float_arg x) = write_float loc True (promote_float x) default_specs"
| "write_unspecified loc (Double_arg x) = write_float loc False x default_specs"
| "write_unspecified loc (Cstring_arg p s) =
     (if p = 0 then fmt_err ''string pointer is null'' else fmt_ok (write_string default_specs s))"
| "write_unspecified loc (String_arg s) = fmt_ok (write_string default_specs s)"
| "write_unspecified loc a = write_default loc a"

text \<open>
  An argument that does not exist has no type, which is not a numeric one.  Visiting it is a failed assertion; in a program
  that was compiled with \<open>NDEBUG\<close> there are no assertions (\<open>FMT_ASSERT\<close>), and nothing is written.
\<close>

definition format_nothing :: "bool \<Rightarrow> string fmt_result" where
  "format_nothing ndebug = (if ndebug then fmt_ok [] else None)"

lemma format_nothing_simps [simp]: "format_nothing False = None" "format_nothing True = fmt_ok []"
  by (simp_all add: format_nothing_def)

definition format_missing :: "bool \<Rightarrow> format_specs \<Rightarrow> string fmt_result" where
  "format_missing ndebug sp =
     (if spec_align sp = Align_numeric \<or> spec_sign sp \<noteq> Sign_none \<or> spec_alt sp
      then fmt_err ''format specifier requires numeric argument'' else format_nothing ndebug)"

fun format_the_part :: "bool \<Rightarrow> fmt_locale \<Rightarrow> fmt_args \<Rightarrow> format_part \<Rightarrow> string fmt_result" where
  "format_the_part ndebug loc args (Part_text s) = fmt_ok s"
| "format_the_part ndebug loc args (Part_arg_index k) =
     (case lookup_ref args (Ref_index k) of None \<Rightarrow> format_nothing ndebug | Some a \<Rightarrow> write_unspecified loc a)"
| "format_the_part ndebug loc args (Part_arg_name s) =
     (case lookup_ref args (Ref_name s) of None \<Rightarrow> format_nothing ndebug | Some a \<Rightarrow> write_unspecified loc a)"
| "format_the_part ndebug loc args (Part_replacement r d) =
     fmt_bind (resolve_specs args d) (\<lambda>sp.
       case lookup_ref args r of
         None \<Rightarrow> format_missing ndebug sp
       | Some a \<Rightarrow> fmt_bind (check_specs (type_of_arg a) sp) (\<lambda>_. write_arg loc sp a))"

fun format_parts :: "bool \<Rightarrow> fmt_locale \<Rightarrow> fmt_args \<Rightarrow> format_part list \<Rightarrow> string \<Rightarrow> string fmt_result" where
  "format_parts ndebug loc args [] out = fmt_ok out"
| "format_parts ndebug loc args (p # ps) out =
     fmt_bind (format_the_part ndebug loc args p) (\<lambda>t. format_parts ndebug loc args ps (out @ t))"

definition cf_vformat_to :: "bool \<Rightarrow> fmt_locale \<Rightarrow> format_part list \<Rightarrow> fmt_args \<Rightarrow> string fmt_result" where
  "cf_vformat_to ndebug loc parts args = format_parts ndebug loc args parts []"

section \<open>Arguments without specifiers\<close>

lemma write_string_default: "write_string default_specs s = s"
  by (simp add: write_string_def write_padded_def default_specs_def fill_n_def Let_def)

lemma write_float_without_specs: "write_float loc b d default_specs = write_float_default loc b d"
  by (simp add: write_float_def write_float_default_def parse_float_type_spec_def write_float_digits_def default_specs_def write_padded_def fill_n_def default_float_specs_def Let_def)

lemma write_unspecified_default: "write_unspecified loc a = write_default loc a"
  by (cases a) (simp_all add: write_string_default write_float_without_specs)

section \<open>The compiler advances\<close>

lemma parse_dynamic_ref_shorter: "parse_dynamic_ref na s n = fmt_ok (r, n1, rest) \<Longrightarrow> length rest \<le> length s"
proof (cases s)
  case (Cons c cs)
  assume "parse_dynamic_ref na s n = fmt_ok (r, n1, rest)"
  then obtain i rest1 where "parse_arg_id c cs = fmt_ok (i, rest1)" "rest = tl rest1"
    by (auto simp: parse_dynamic_ref_def Cons fmt_bind_ok split: if_splits)
  then show ?thesis using parse_arg_id_spec [of c cs] Cons by fastforce
qed (simp add: parse_dynamic_ref_def)

lemma dynamic_width_shorter:
  assumes "unless_end_ref (parse_dynamic_width na) (sp, n, s) = fmt_ok ((sp1, n1, s1), w)"
  shows "length s1 \<le> length s"
proof (cases s)
  case (Cons c cs)
  obtain v rest where v: "parse_nonnegative_int s = (v, rest)" by force
  from parse_nonnegative_int_length [OF this] have "length rest \<le> length s" .
  moreover have "length s2 \<le> length s" if "parse_dynamic_ref na cs n = fmt_ok (r, n2, s2)" for r n2 s2
    using parse_dynamic_ref_shorter [OF that] Cons by simp
  ultimately show ?thesis using assms v
    by (auto simp: Cons unless_end_ref_def parse_dynamic_width_def fmt_bind_ok split: if_splits sum.splits)
qed (use assms in \<open>simp add: unless_end_ref_def\<close>)

lemma dynamic_point_shorter:
  assumes "unless_end_ref (parse_dynamic_point t na) (sp, n, s) = fmt_ok ((sp1, n1, s1), w)"
  shows "length s1 \<le> length s"
proof (cases s)
  case (Cons c cs)
  obtain v rest where v: "parse_nonnegative_int cs = (v, rest)" by force
  from parse_nonnegative_int_length [OF this] have "length rest \<le> length s" using Cons by simp
  moreover have "length s2 \<le> length s" if "parse_dynamic_ref na (tl cs) n = fmt_ok (r, n2, s2)" for r n2 s2
    using parse_dynamic_ref_shorter [OF that] Cons by simp
  ultimately show ?thesis using assms v
    by (auto simp: Cons unless_end_ref_def parse_dynamic_point_def parse_dynamic_precision_def fmt_bind_ok split: if_splits sum.splits)
qed (use assms in \<open>simp add: unless_end_ref_def\<close>)

lemma unless_end_shorter:
  assumes "\<And>c cs sp n k. Suc (length cs) \<le> k \<Longrightarrow> advances (f c cs sp n) k" "unless_end f (sp, n, s) = fmt_ok (sp1, n1, s1)"
  shows "length s1 \<le> length s"
  using advances_unless_end [of "length s" f "(sp, n, s)"] assms by (simp add: advances_def)

lemma part_shorter:
  "unless_end parse_align (sp, n, s) = fmt_ok (sp1, n1, s1) \<Longrightarrow> length s1 \<le> length s"
  "unless_end (parse_sign t) (sp, n, s) = fmt_ok (sp1, n1, s1) \<Longrightarrow> length s1 \<le> length s"
  "unless_end (parse_hash t) (sp, n, s) = fmt_ok (sp1, n1, s1) \<Longrightarrow> length s1 \<le> length s"
  "unless_end (parse_zero t) (sp, n, s) = fmt_ok (sp1, n1, s1) \<Longrightarrow> length s1 \<le> length s"
  "unless_end parse_type (sp, n, s) = fmt_ok (sp1, n1, s1) \<Longrightarrow> length s1 \<le> length s"
  by (rule unless_end_shorter, erule parser_advances, assumption)+

lemma parse_dynamic_specs_shorter:
  assumes "parse_dynamic_specs t na (sp, n, s) = fmt_ok (d, n1, rest)"
  shows "length rest \<le> length s"
proof (cases "s = [] \<or> hd s = CHR ''}''")
  case True
  then show ?thesis using assms by (auto simp: parse_dynamic_specs_def)
next
  case False
  with assms show ?thesis
    by (auto simp: parse_dynamic_specs_def fmt_bind_ok dest!: dynamic_width_shorter dynamic_point_shorter part_shorter)
qed

lemma compile_handler_simps [simp]:
  "h_text compile_handler = compile_text" "h_arg_id compile_handler = compile_arg_id"
  "h_field compile_handler = compile_field" "h_specs compile_handler = compile_specs"
  by (simp_all add: compile_handler_def)

interpretation compiling: text_handler compile_handler
  by unfold_locales (auto simp: compile_text_def compile_specs_def fmt_bind_ok dest!: parse_dynamic_specs_shorter split: if_splits)

section \<open>The compiled parts format the same\<close>

lemma format_parts_append:
  "format_parts False loc args (ps @ qs) out = fmt_bind (format_parts False loc args ps out) (format_parts False loc args qs)"
  by (induction ps arbitrary: out) (simp_all add: fmt_bind_assoc)

abbreviation parts_of :: "fmt_locale \<Rightarrow> fmt_args \<Rightarrow> format_string_compiler \<Rightarrow> string fmt_result" where
  "parts_of loc args c \<equiv> format_parts False loc args (compiled_parts c) []"

lemma parts_of_add: "parts_of loc args (add_part p c) = fmt_bind (parts_of loc args c) (\<lambda>out. fmt_bind (format_the_part False loc args p) (\<lambda>t. fmt_ok (out @ t)))"
  by (simp add: add_part_def format_parts_append) (rule fmt_bind_cong [OF refl], simp)

lemma next_id_add [simp]: "next_id (add_part p c) = next_id c"
  by (simp add: add_part_def)

lemma compile_text_simps:
  "parts_of loc args (compile_text s c) = fmt_bind (parts_of loc args c) (\<lambda>out. fmt_ok (out @ s))"
  "next_id (compile_text s c) = next_id c"
  by (cases "parts_of loc args c"; cases "the (parts_of loc args c)"; simp add: compile_text_def parts_of_add)
    (simp add: compile_text_def add_part_def)

text \<open>Where the compiler is, formatting would be after the same text.\<close>

definition formatted :: "fmt_locale \<Rightarrow> fmt_args \<Rightarrow> format_string_compiler \<Rightarrow> handler_state fmt_result" where
  "formatted loc args c = fmt_bind (parts_of loc args c) (\<lambda>out. fmt_ok (out, next_id c))"

lemma formatted_text: "formatted loc args (compile_text s c) = fmt_bind (formatted loc args c) (\<lambda>st. fmt_ok (on_text s st))"
  by (simp add: formatted_def compile_text_simps fmt_bind_assoc on_text_def)

text \<open>An argument id, then a field.\<close>

definition names_part :: "fmt_args \<Rightarrow> format_part \<Rightarrow> nat \<Rightarrow> bool" where
  "names_part args p k \<longleftrightarrow> p = Part_arg_index k \<or> (\<exists>s. p = Part_arg_name s \<and> map_of (arg_names args) s = Some k)"

lemma lookup_names:
  "names_part args p k \<Longrightarrow> lookup_ref args (ref_of_part p) = (if k < length (arg_list args) then Some (arg_list args ! k) else None)"
  by (auto simp: names_part_def lookup_ref_def)

lemma format_named: "names_part args p k \<Longrightarrow> agree (format_the_part False loc args p) (fmt_bind (get_arg k args) (write_default loc))"
  by (auto simp: names_part_def lookup_ref_def get_arg_cases write_unspecified_default)

lemma format_missing: "format_missing False sp \<noteq> fmt_ok t"
  by (simp add: format_missing_def format_nothing_def)

lemma format_unnamed: "map_of (arg_names args) s = None \<Longrightarrow> format_the_part False loc args (Part_arg_name s) = None"
  by (simp add: lookup_ref_def)

lemma compile_arg_id_agree:
  assumes named: "\<And>j p k n. names_part args p k \<Longrightarrow> agree (f j (c\<lparr>current_part := p, next_id := n\<rparr>)) (g k n)"
    and unnamed: "\<And>j s n x. map_of (arg_names args) s = None \<Longrightarrow> f j (c\<lparr>current_part := Part_arg_name s, next_id := n\<rparr>) \<noteq> fmt_ok x"
  shows "agree (fmt_bind (compile_arg_id i c) (\<lambda>(k, c1). f k c1)) (fmt_bind (on_arg_id args i (next_id c)) (\<lambda>(k, n). g k n))"
proof -
  have same: "c\<lparr>current_part := p\<rparr> = c\<lparr>current_part := p, next_id := next_id c\<rparr>" for p by simp
  show ?thesis
  proof (cases i)
    case Auto_id
    then show ?thesis
      by (auto simp: compile_arg_id_def on_arg_id_def fmt_bind_assoc names_part_def intro!: agree_bind named)
  next
    case (Index_id k)
    then show ?thesis
      by (auto simp: compile_arg_id_def on_arg_id_def fmt_bind_assoc names_part_def intro!: agree_bind named)
  next
    case (Name_id s)
    have "f 0 (c\<lparr>current_part := Part_arg_name s\<rparr>) \<noteq> fmt_ok x" if "map_of (arg_names args) s = None" for x
      using unnamed [OF that, of 0 "next_id c" x] same by simp
    moreover have "agree (f 0 (c\<lparr>current_part := Part_arg_name s\<rparr>)) (g k (next_id c))" if "map_of (arg_names args) s = Some k" for k
      using named [of "Part_arg_name s" k 0 "next_id c"] that same by (simp add: names_part_def)
    ultimately show ?thesis using Name_id
      by (cases "map_of (arg_names args) s") (auto simp: compile_arg_id_def on_arg_id_def agree_def)
  qed
qed

lemma specs_two_steps:
  "parse_format_specs t args (default_specs, n, s) = fmt_ok (sp, n1, s1) \<longleftrightarrow>
    (\<exists>d. parse_dynamic_specs no_checks None (default_specs, n, s) = fmt_ok (d, n1, s1) \<and> resolve_specs args d = fmt_ok sp)
    \<and> check_specs t sp = fmt_ok ()"
  unfolding parse_specs_checks [of t args n s sp n1 s1] agree_ok [OF parse_specs_resolve [of no_checks]]
  by (auto simp: fmt_bind_ok resolving_def)

lemma compiled_field:
  fixes loc args and rest :: string and j :: nat
  defines "f \<equiv> \<lambda>c1. fmt_bind (compile_field j c1) (\<lambda>c2. fmt_bind (formatted loc args c2) (\<lambda>st. fmt_ok (rest, st)))"
  shows "names_part args p k \<Longrightarrow> agree (f (c\<lparr>current_part := p, next_id := n\<rparr>))
      (fmt_bind (parts_of loc args c) (\<lambda>out. fmt_bind (on_replacement_field loc args k (out, n)) (\<lambda>st. fmt_ok (rest, st))))"
    and "map_of (arg_names args) s = None \<Longrightarrow> f (c\<lparr>current_part := Part_arg_name s, next_id := n\<rparr>) \<noteq> fmt_ok x"
proof -
  have f: "f (c\<lparr>current_part := p, next_id := n\<rparr>)
      = fmt_bind (parts_of loc args c) (\<lambda>out. fmt_bind (format_the_part False loc args p) (\<lambda>t. fmt_ok (rest, out @ t, n)))" for p
    by (simp add: f_def compile_field_def formatted_def parts_of_add fmt_bind_assoc)
  show "agree (f (c\<lparr>current_part := p, next_id := n\<rparr>))
      (fmt_bind (parts_of loc args c) (\<lambda>out. fmt_bind (on_replacement_field loc args k (out, n)) (\<lambda>st. fmt_ok (rest, st))))"
    if "names_part args p k"
  proof -
    have "agree (fmt_bind (format_the_part False loc args p) (\<lambda>t. fmt_ok (rest, out @ t, n)))
        (fmt_bind (on_replacement_field loc args k (out, n)) (\<lambda>st. fmt_ok (rest, st)))" for out
      using agree_bind [OF format_named [OF that] agree_refl, of loc "\<lambda>t. fmt_ok (rest, out @ t, n)"]
      by (simp add: on_replacement_field_def fmt_bind_assoc on_text_def)
    then show ?thesis unfolding f by (intro agree_bind agree_refl)
  qed
  show "f (c\<lparr>current_part := Part_arg_name s, next_id := n\<rparr>) \<noteq> fmt_ok x" if "map_of (arg_names args) s = None"
    using that unfolding f by (simp add: fmt_bind_ok lookup_ref_def)
qed

lemma compiled_specs:
  fixes loc args and ds :: string and j :: nat
  defines "f \<equiv> \<lambda>c1. fmt_bind (fmt_bind (compile_specs j ds c1) (\<lambda>(rest1, c2).
      if rest1 = [] \<or> hd rest1 \<noteq> CHR ''}'' then fmt_err ''unknown format specifier'' else fmt_ok (tl rest1, c2)))
    (\<lambda>(rest, c2). fmt_bind (formatted loc args c2) (\<lambda>st. fmt_ok (rest, st)))"
  shows "names_part args p k \<Longrightarrow> agree (f (c\<lparr>current_part := p, next_id := n\<rparr>))
      (fmt_bind (parts_of loc args c) (\<lambda>out. fmt_bind (on_format_specs loc args k ds (out, n)) (\<lambda>(rest1, st).
        if rest1 = [] \<or> hd rest1 \<noteq> CHR ''}'' then fmt_err ''unknown format specifier'' else fmt_ok (tl rest1, st))))"
    and "map_of (arg_names args) s = None \<Longrightarrow> f (c\<lparr>current_part := Part_arg_name s, next_id := n\<rparr>) \<noteq> fmt_ok x"
proof -
  have step: "f (c\<lparr>current_part := p, next_id := n\<rparr>)
      = fmt_bind (parse_dynamic_specs no_checks None (default_specs, n, ds)) (\<lambda>(d, m, s1).
          if s1 = [] then None else if hd s1 \<noteq> CHR ''}'' then fmt_err missing_brace
          else fmt_bind (parts_of loc args c) (\<lambda>o1. fmt_bind (format_the_part False loc args (Part_replacement (ref_of_part p) d)) (\<lambda>t. fmt_ok (tl s1, o1 @ t, m))))" for p
    unfolding f_def compile_specs_def fmt_bind_assoc
    by (simp, rule fmt_bind_cong [OF refl]) (auto simp: formatted_def parts_of_add fmt_bind_assoc)
  have f: "f (c\<lparr>current_part := p, next_id := n\<rparr>) = fmt_ok (rest, out, m) \<longleftrightarrow>
      (\<exists>d s1 o1 sp a t. parse_dynamic_specs no_checks None (default_specs, n, ds) = fmt_ok (d, m, s1) \<and> s1 \<noteq> [] \<and> hd s1 = CHR ''}'' \<and> rest = tl s1
        \<and> parts_of loc args c = fmt_ok o1 \<and> resolve_specs args d = fmt_ok sp \<and> lookup_ref args (ref_of_part p) = Some a
        \<and> check_specs (type_of_arg a) sp = fmt_ok () \<and> write_arg loc sp a = fmt_ok t \<and> out = o1 @ t)" for p rest out m
    unfolding step by (auto simp: fmt_bind_ok format_missing split: option.splits if_splits) blast
  show "agree (f (c\<lparr>current_part := p, next_id := n\<rparr>))
      (fmt_bind (parts_of loc args c) (\<lambda>out. fmt_bind (on_format_specs loc args k ds (out, n)) (\<lambda>(rest1, st).
        if rest1 = [] \<or> hd rest1 \<noteq> CHR ''}'' then fmt_err ''unknown format specifier'' else fmt_ok (tl rest1, st))))"
    if "names_part args p k"
  proof -
    have "f (c\<lparr>current_part := p, next_id := n\<rparr>) = fmt_ok (rest, out, m) \<longleftrightarrow>
      fmt_bind (parts_of loc args c) (\<lambda>out. fmt_bind (on_format_specs loc args k ds (out, n)) (\<lambda>(rest1, st).
        if rest1 = [] \<or> hd rest1 \<noteq> CHR ''}'' then fmt_err ''unknown format specifier'' else fmt_ok (tl rest1, st))) = fmt_ok (rest, out, m)" for rest out m
      unfolding f lookup_names [OF that]
      by (auto simp: fmt_bind_ok on_format_specs_def get_arg_cases specs_two_steps split: if_splits) blast
    then show ?thesis unfolding agree_def split_paired_All by blast
  qed
  show "f (c\<lparr>current_part := Part_arg_name s, next_id := n\<rparr>) \<noteq> fmt_ok x" if "map_of (arg_names args) s = None"
    using that f [of "Part_arg_name s"] by (cases x) (auto simp: lookup_ref_def)
qed

lemma replacement_arg:
  assumes "\<And>j p k n. names_part args p k \<Longrightarrow>
      agree (f j (c\<lparr>current_part := p, next_id := n\<rparr>)) (fmt_bind (parts_of loc args c) (\<lambda>out. g k (out, n)))"
    and "\<And>j s n x. map_of (arg_names args) s = None \<Longrightarrow> f j (c\<lparr>current_part := Part_arg_name s, next_id := n\<rparr>) \<noteq> fmt_ok x"
  shows "agree (fmt_bind (compile_arg_id i c) (\<lambda>(k, c1). f k c1))
    (fmt_bind (formatted loc args c) (\<lambda>st. fmt_bind (h_arg_id (format_handler loc args) i st) (\<lambda>(k, st1). g k st1)))"
proof (rule agree_trans [OF compile_arg_id_agree])
  show "\<And>j p k n. names_part args p k \<Longrightarrow>
      agree (f j (c\<lparr>current_part := p, next_id := n\<rparr>)) (fmt_bind (parts_of loc args c) (\<lambda>out. g k (out, n)))"
    by (rule assms(1))
  show "\<And>j s n x. map_of (arg_names args) s = None \<Longrightarrow> f j (c\<lparr>current_part := Part_arg_name s, next_id := n\<rparr>) \<noteq> fmt_ok x"
    by (rule assms(2))
  have l: "fmt_bind (on_arg_id args i (next_id c)) (\<lambda>(k, n). fmt_bind (parts_of loc args c) (\<lambda>out. g k (out, n)))
      = fmt_bind (on_arg_id args i (next_id c)) (\<lambda>x. fmt_bind (parts_of loc args c) (\<lambda>out. (\<lambda>(k, n). g k (out, n)) x))"
    by (rule fmt_bind_cong [OF refl]) auto
  have r: "fmt_bind (formatted loc args c) (\<lambda>st. fmt_bind (h_arg_id (format_handler loc args) i st) (\<lambda>(k, st1). g k st1))
      = fmt_bind (parts_of loc args c) (\<lambda>out. fmt_bind (on_arg_id args i (next_id c)) (\<lambda>x. (\<lambda>(k, n). g k (out, n)) x))"
    by (simp add: formatted_def fmt_bind_assoc case_prod_unfold)
  show "agree (fmt_bind (on_arg_id args i (next_id c)) (\<lambda>(k, n). fmt_bind (parts_of loc args c) (\<lambda>out. g k (out, n))))
      (fmt_bind (formatted loc args c) (\<lambda>st. fmt_bind (h_arg_id (format_handler loc args) i st) (\<lambda>(k, st1). g k st1)))"
    unfolding l r by (rule agree_swap)
qed

lemma compiled_rest:
  "agree (fmt_bind (compile_arg_id i c) (\<lambda>(k, c1). fmt_bind (handle_rest compile_handler s k c1)
        (\<lambda>(rest, c2). fmt_bind (formatted loc args c2) (\<lambda>st. fmt_ok (rest, st)))))
    (fmt_bind (formatted loc args c) (\<lambda>st. fmt_bind (h_arg_id (format_handler loc args) i st)
        (\<lambda>(k, st1). handle_rest (format_handler loc args) s k st1)))"
proof (rule replacement_arg)
  fix j p k n assume p: "names_part args p k"
  show "agree (fmt_bind (handle_rest compile_handler s j (c\<lparr>current_part := p, next_id := n\<rparr>))
          (\<lambda>(rest, c2). fmt_bind (formatted loc args c2) (\<lambda>st. fmt_ok (rest, st))))
      (fmt_bind (parts_of loc args c) (\<lambda>out. handle_rest (format_handler loc args) s k (out, n)))"
  proof (cases s)
    case Nil
    then show ?thesis by (simp add: handle_rest_def agree_def fmt_bind_ok)
  next
    case (Cons d ds)
    show ?thesis
      using compiled_field(1) [OF p, where j = j and c = c and n = n and loc = loc and rest = ds]
        compiled_specs(1) [OF p, where j = j and c = c and n = n and loc = loc and ds = ds]
      by (simp add: Cons handle_rest_def fmt_bind_assoc case_prod_unfold) (simp add: agree_def fmt_bind_ok)
  qed
next
  fix j x_s n x assume u: "map_of (arg_names args) x_s = None"
  show "fmt_bind (handle_rest compile_handler s j (c\<lparr>current_part := Part_arg_name x_s, next_id := n\<rparr>))
          (\<lambda>(rest, c2). fmt_bind (formatted loc args c2) (\<lambda>st. fmt_ok (rest, st))) \<noteq> fmt_ok x"
  proof (cases s)
    case (Cons d ds)
    show ?thesis
      using compiled_field(2) [OF u, where j = j and c = c and n = n and loc = loc and rest = ds]
        compiled_specs(2) [OF u, where j = j and c = c and n = n and loc = loc and ds = ds]
      by (simp add: Cons handle_rest_def fmt_bind_assoc case_prod_unfold)
  qed (simp add: handle_rest_def)
qed

lemma compiled_replacement:
  "agree (fmt_bind (handle_replacement compile_handler s c) (\<lambda>(rest, c1). fmt_bind (formatted loc args c1) (\<lambda>st. fmt_ok (rest, st))))
    (fmt_bind (formatted loc args c) (\<lambda>st. handle_replacement (format_handler loc args) s st))"
proof (cases s)
  case Nil
  then show ?thesis by (simp add: handle_replacement_def agree_def fmt_bind_ok)
next
  case (Cons d ds)
  consider "d = CHR ''}''" | "d = CHR ''{''" | "d \<noteq> CHR ''}''" "d \<noteq> CHR ''{''" by blast
  then show ?thesis
  proof cases
    case 1
    have "agree (fmt_bind (compile_arg_id Auto_id c) (\<lambda>(k, c1). fmt_bind (compile_field k c1) (\<lambda>c2. fmt_bind (formatted loc args c2) (\<lambda>st. fmt_ok (ds, st)))))
      (fmt_bind (formatted loc args c) (\<lambda>st. fmt_bind (h_arg_id (format_handler loc args) Auto_id st)
        (\<lambda>(k, st1). fmt_bind (on_replacement_field loc args k st1) (\<lambda>st. fmt_ok (ds, st)))))"
      by (rule replacement_arg) (rule compiled_field, assumption)+
    then show ?thesis using 1 Cons by (simp add: handle_replacement_def fmt_bind_assoc case_prod_unfold)
  next
    case 2
    then show ?thesis using Cons by (simp add: handle_replacement_def fmt_bind_assoc formatted_text)
  next
    case 3
    let ?c = "\<lambda>i rest. fmt_bind (compile_arg_id i c) (\<lambda>(k, c1). fmt_bind (handle_rest compile_handler rest k c1)
        (\<lambda>(rest, c2). fmt_bind (formatted loc args c2) (\<lambda>st. fmt_ok (rest, st))))"
    let ?f = "\<lambda>st. \<lambda>(i, rest). fmt_bind (h_arg_id (format_handler loc args) i st) (\<lambda>(k, st1). handle_rest (format_handler loc args) rest k st1)"
    have l: "fmt_bind (handle_replacement compile_handler s c) (\<lambda>(rest, c1). fmt_bind (formatted loc args c1) (\<lambda>st. fmt_ok (rest, st)))
        = fmt_bind (parse_arg_id d ds) (\<lambda>(i, rest). ?c i rest)"
      using 3 by (simp add: Cons handle_replacement_def fmt_bind_assoc case_prod_unfold)
    have r: "fmt_bind (formatted loc args c) (\<lambda>st. handle_replacement (format_handler loc args) s st)
        = fmt_bind (formatted loc args c) (\<lambda>st. fmt_bind (parse_arg_id d ds) (?f st))"
      using 3 by (simp add: Cons handle_replacement_def)
    have "agree (fmt_bind (parse_arg_id d ds) (\<lambda>(i, rest). ?c i rest)) (fmt_bind (parse_arg_id d ds) (\<lambda>x. fmt_bind (formatted loc args c) (\<lambda>st. ?f st x)))"
    proof (rule agree_bind [OF agree_refl])
      fix x
      show "agree (case x of (i, rest) \<Rightarrow> ?c i rest) (fmt_bind (formatted loc args c) (\<lambda>st. ?f st x))"
        using compiled_rest [of "fst x" c "snd x" loc args] by (cases x) simp
    qed
    then show ?thesis unfolding l r by (rule agree_trans) (rule agree_swap)
  qed
qed

section \<open>The equivalence\<close>

lemma fmt_bind_return: "fmt_bind r fmt_ok = r"
  by (cases r; cases "the r") simp_all

lemma compiled_small:
  "agree (fmt_bind (handle_small compile_handler pend s c) (formatted loc args))
    (fmt_bind (formatted loc args c) (handle_small (format_handler loc args) pend s))"
proof (induction "length s" arbitrary: pend s c rule: less_induct)
  case less
  show ?case
  proof (cases s)
    case Nil
    have "handle_small (format_handler loc args) pend [] = (\<lambda>st. fmt_ok (on_text pend st))"
      by (rule ext) (simp add: formatting.small_simps)
    then show ?thesis by (simp add: Nil compiling.small_simps formatted_text)
  next
    case (Cons d ds)
    consider "d = CHR ''{''" | "d = CHR ''}''" | "d \<noteq> CHR ''{''" "d \<noteq> CHR ''}''" by blast
    then show ?thesis
    proof cases
      case 1
      let ?r = "fmt_bind (handle_replacement compile_handler ds (compile_text pend c)) (\<lambda>(rest, c1). fmt_bind (formatted loc args c1) (\<lambda>st. fmt_ok (rest, st)))"
      let ?k = "\<lambda>(rest, st). handle_small (format_handler loc args) [] rest st"
      have a1: "agree (fmt_bind (handle_small compile_handler pend s c) (formatted loc args)) (fmt_bind ?r ?k)"
        unfolding Cons 1 compiling.small_simps fmt_bind_assoc
      proof (rule agree_bind, simp)
        fix x assume "handle_replacement compile_handler ds (h_text compile_handler pend c) = fmt_ok x"
        then have "length (fst x) < length s"
          using compiling.replacement_shorter [of ds "compile_text pend c" "fst x" "snd x"] Cons by simp
        from less [OF this, of "[]" "snd x"]
        show "agree (fmt_bind (handle_small compile_handler [] (fst x) (snd x)) (formatted loc args))
            (fmt_bind (case x of (rest, c1) \<Rightarrow> fmt_bind (formatted loc args c1) (\<lambda>st. fmt_ok (rest, st))) ?k)"
          by (simp add: case_prod_unfold fmt_bind_assoc)
      qed
      have a2: "agree (fmt_bind ?r ?k) (fmt_bind (fmt_bind (formatted loc args (compile_text pend c)) (handle_replacement (format_handler loc args) ds)) ?k)"
        by (rule agree_bind [OF compiled_replacement agree_refl])
      have a3: "fmt_bind (fmt_bind (formatted loc args (compile_text pend c)) (handle_replacement (format_handler loc args) ds)) ?k
          = fmt_bind (formatted loc args c) (handle_small (format_handler loc args) pend s)"
        by (simp add: Cons 1 formatted_text fmt_bind_assoc case_prod_unfold) (rule fmt_bind_cong [OF refl], simp add: formatting.small_simps)
      show ?thesis using agree_trans [OF a1 a2] unfolding a3 .
    next
      case 2
      show ?thesis
      proof (cases "ds = [] \<or> hd ds \<noteq> CHR ''}''")
        case True
        then show ?thesis by (simp add: Cons 2 compiling.small_simps formatting.small_simps agree_def fmt_bind_ok)
      next
        case False
        then have "length (tl ds) < length s" using Cons by (cases ds) auto
        note ih = less [OF this, of "[]" "compile_text (pend @ ''}'') c"]
        have "handle_small (format_handler loc args) pend (CHR ''}'' # ds) = (\<lambda>st. handle_small (format_handler loc args) [] (tl ds) (on_text (pend @ ''}'') st))"
          using False by (intro ext) (simp add: formatting.small_simps)
        then show ?thesis using ih False by (simp add: Cons 2 compiling.small_simps formatted_text fmt_bind_assoc)
      qed
    next
      case 3
      have "length ds < length s" using Cons by simp
      note ih = less [OF this, of "pend @ [d]" c]
      have "handle_small (format_handler loc args) pend (d # ds) = handle_small (format_handler loc args) (pend @ [d]) ds"
        using 3 by (intro ext) (simp add: formatting.small_simps)
      then show ?thesis using ih 3 by (simp add: Cons compiling.small_simps)
    qed
  qed
qed

lemma compiled_agree: "agree (fmt_bind (compile_format s) (\<lambda>parts. cf_vformat_to False loc parts args)) (vformat_to loc s args)"
proof -
  have "agree (fmt_bind (fmt_bind (handle_small compile_handler [] s new_compiler) (formatted loc args)) (\<lambda>st. fmt_ok (fst st)))
      (fmt_bind (fmt_bind (formatted loc args new_compiler) (handle_small (format_handler loc args) [] s)) (\<lambda>st. fmt_ok (fst st)))"
    by (rule agree_bind [OF compiled_small agree_refl])
  then show ?thesis
    by (simp add: compile_format_def cf_vformat_to_def compiling.format_string_small formatting.format_string_small vformat_handler
        fmt_bind_assoc formatted_def new_compiler_def fmt_bind_return)
qed

text \<open>The argument of a part exists.\<close>

fun part_argument :: "fmt_args \<Rightarrow> format_part \<Rightarrow> bool" where
  "part_argument args (Part_text s) = True"
| "part_argument args (Part_arg_index k) = (lookup_ref args (Ref_index k) \<noteq> None)"
| "part_argument args (Part_arg_name s) = (lookup_ref args (Ref_name s) \<noteq> None)"
| "part_argument args (Part_replacement r d) = (lookup_ref args r \<noteq> None)"

lemma format_the_part_asserted:
  "format_the_part False loc args p = fmt_ok t \<longleftrightarrow> part_argument args p \<and> format_the_part ndebug loc args p = fmt_ok t"
  by (cases p) (auto simp: format_missing fmt_bind_ok split: option.split)

lemma format_parts_asserted:
  "format_parts False loc args ps out = fmt_ok t
    \<longleftrightarrow> list_all (part_argument args) ps \<and> format_parts ndebug loc args ps out = fmt_ok t"
proof (induction ps arbitrary: out)
  case (Cons p ps)
  then show ?case by (simp add: fmt_bind_ok format_the_part_asserted [of loc args p _ ndebug]) blast
qed simp

text \<open>
  C26 [equivalence] Compiling a format string and formatting the parts later gives the same text as formatting in one pass, for
  every format string, every arguments and every text: dynamic widths and precisions, which are then resolved when the
  arguments are known, named and numbered arguments and the checks of the specifiers against the types included.  One pass
  succeeds exactly if the string compiles, every part that is not text has an argument, and cf::vformat_to succeeds with the
  parts; with and without assertions in the program.  (Of the arguments that do not exist, see compiled_missing_argument.)
\<close>

theorem compiled_formats_agree:
  "vformat_to loc s args = fmt_ok t \<longleftrightarrow>
    (\<exists>parts. compile_format s = fmt_ok parts \<and> list_all (part_argument args) parts \<and> cf_vformat_to ndebug loc parts args = fmt_ok t)"
  using agree_ok [OF compiled_agree, of s loc args t]
  by (simp add: fmt_bind_ok cf_vformat_to_def format_parts_asserted [of loc args _ _ t ndebug])

text \<open>
  Where an argument does not exist, they differ: \<open>cf::vformat_to\<close> asks the context for it and formats the value without a
  type, which is a failed assertion, or no text at all where assertions are off; \<open>vformat_to\<close> throws \<open>argument not found\<close>.
\<close>

theorem compiled_missing_argument:
  assumes "length (arg_list args) \<le> k"
  shows "cf_vformat_to False loc [Part_arg_index k] args = None \<and> cf_vformat_to True loc [Part_arg_index k] args = fmt_ok []
    \<and> get_arg k args = fmt_err ''argument not found''"
  using assms by (simp add: cf_vformat_to_def lookup_ref_def get_arg_def format_nothing_def)

text \<open>A field that is not closed is read behind its end; \<open>vformat_to\<close> reports the missing brace.\<close>

theorem compile_reads_behind:
  "compile_format ''{:d'' = None"
  "vformat_to no_grouping ''{:d'' \<lparr>arg_list = [Int_arg 1], arg_names = []\<rparr> = fmt_err missing_brace"
  by code_simp+

end
