(* ===== verification/Fmt_Check.thy ===== *)
theory Fmt_Check imports Fmt_Compile "HOL-Library.Sublist" begin

text \<open>
  The check of a format string when the program is compiled (\<open>FMT_STRING\<close>; \<open>format_string_checker\<close>, \<open>compile_parse_context\<close>,
  \<open>formatter::parse\<close> and the checkers of types of spdlog/fmt/bundled/format.h), and what is left to go wrong at run time
  when it succeeds.
\<close>

section \<open>The parser of a formatter\<close>

definition int_type_checker :: "char \<Rightarrow> unit fmt_result" where
  "int_type_checker t =
     (if t = CHR 0x00 \<or> t = CHR ''d'' then fmt_ok ()
      else if t = CHR ''x'' \<or> t = CHR ''X'' then fmt_ok ()
      else if t = CHR ''b'' \<or> t = CHR ''B'' then fmt_ok ()
      else if t = CHR ''o'' then fmt_ok ()
      else if t = CHR ''L'' then fmt_ok ()
      else if t = CHR ''c'' then fmt_ok ()
      else fmt_err ''invalid type specifier'')"

definition char_specs_checker :: "format_specs \<Rightarrow> unit fmt_result" where
  "char_specs_checker sp =
     (if spec_type sp \<noteq> CHR 0x00 \<and> spec_type sp \<noteq> CHR ''c'' then int_type_checker (spec_type sp)
      else if spec_align sp = Align_numeric \<or> spec_sign sp \<noteq> Sign_none \<or> spec_alt sp
      then fmt_err ''invalid format specifier for char'' else fmt_ok ())"

definition cstring_type_checker :: "char \<Rightarrow> unit fmt_result" where
  "cstring_type_checker t =
     (if t = CHR 0x00 \<or> t = CHR ''s'' then fmt_ok () else if t = CHR ''p'' then fmt_ok () else fmt_err ''invalid type specifier'')"

definition check_string_type_spec :: "char \<Rightarrow> unit fmt_result" where
  "check_string_type_spec t = (if t \<noteq> CHR 0x00 \<and> t \<noteq> CHR ''s'' then fmt_err ''invalid type specifier'' else fmt_ok ())"

definition check_pointer_type_spec :: "char \<Rightarrow> unit fmt_result" where
  "check_pointer_type_spec t = (if t \<noteq> CHR 0x00 \<and> t \<noteq> CHR ''p'' then fmt_err ''invalid type specifier'' else fmt_ok ())"

fun check_type_spec :: "arg_type \<Rightarrow> format_specs \<Rightarrow> unit fmt_result" where
  "check_type_spec Char_type sp = char_specs_checker sp"
| "check_type_spec Float_type sp = fmt_bind (parse_float_type_spec sp) (\<lambda>_. fmt_ok ())"
| "check_type_spec Double_type sp = fmt_bind (parse_float_type_spec sp) (\<lambda>_. fmt_ok ())"
| "check_type_spec Long_double_type sp = fmt_bind (parse_float_type_spec sp) (\<lambda>_. fmt_ok ())"
| "check_type_spec Cstring_type sp = cstring_type_checker (spec_type sp)"
| "check_type_spec String_type sp = check_string_type_spec (spec_type sp)"
| "check_type_spec Pointer_type sp = check_pointer_type_spec (spec_type sp)"
| "check_type_spec None_type sp = None"
| "check_type_spec Custom_type sp = fmt_ok ()"
| "check_type_spec t sp = int_type_checker (spec_type sp)"

definition formatter_parse :: "arg_type \<Rightarrow> nat option \<Rightarrow> string \<Rightarrow> int \<Rightarrow> (dynamic_specs \<times> int \<times> string) fmt_result" where
  "formatter_parse t num_args s n =
     fmt_bind (parse_dynamic_specs t num_args (default_specs, n, s)) (\<lambda>(d, n1, rest).
       fmt_bind (check_type_spec t (static_specs d)) (\<lambda>_. fmt_ok (d, n1, rest)))"

section \<open>The checker\<close>

text \<open>The state is \<open>next_arg_id_\<close> of the context.\<close>

definition check_on_arg_id :: "nat \<Rightarrow> arg_id \<Rightarrow> int \<Rightarrow> (nat \<times> int) fmt_result" where
  "check_on_arg_id num_args i n =
     (case i of
        Auto_id \<Rightarrow> ctx_next_arg_id (Some num_args) n
      | Index_id k \<Rightarrow> fmt_bind (ctx_check_arg_id (Some num_args) k n) (\<lambda>n1. fmt_ok (k, n1))
      | Name_id s \<Rightarrow> fmt_err (''compile-time checks don'' @ [CHR 0x27] @ ''t support named arguments''))"

definition check_on_format_specs :: "arg_type list \<Rightarrow> nat \<Rightarrow> string \<Rightarrow> int \<Rightarrow> (string \<times> int) fmt_result" where
  "check_on_format_specs types k s n =
     (if k < length types then
        fmt_bind (formatter_parse (types ! k) (Some (length types)) s n) (\<lambda>(d, n1, rest). fmt_ok (rest, n1))
      else fmt_ok (s, n))"

definition format_string_checker :: "arg_type list \<Rightarrow> int fmt_handler" where
  "format_string_checker types =
     \<lparr>h_text = (\<lambda>s n. n),
      h_arg_id = check_on_arg_id (length types),
      h_field = (\<lambda>k n. fmt_ok n),
      h_specs = check_on_format_specs types\<rparr>"

definition check_format_string :: "arg_type list \<Rightarrow> string \<Rightarrow> unit fmt_result" where
  "check_format_string types s = fmt_bind (handle_format_string (format_string_checker types) s 0) (\<lambda>n. fmt_ok ())"

section \<open>What is left for run time\<close>

text \<open>
  The errors that are left, each with what has to be there for it: a null string; a field of the format string that takes its
  width or precision from an argument, and an argument that is not fit for that; the precision \<open>INT_MAX\<close>, in the string or as an
  argument, and a floating-point argument (\<open>format_float\<close> adds one to it); a name in the format string that no argument has.
\<close>

definition dynamic_field :: "string \<Rightarrow> string \<Rightarrow> bool" where
  "dynamic_field z what \<longleftrightarrow>
     what = ''width'' \<and> (\<exists>u m v. z = u @ '':'' @ m @ ''{'' @ v \<and> CHR ''}'' \<notin> set m) \<or> what = ''precision'' \<and> (\<exists>u v. z = u @ ''.{'' @ v)"

definition dynamic_error :: "string \<Rightarrow> fmt_args \<Rightarrow> string \<Rightarrow> bool" where
  "dynamic_error z args e \<longleftrightarrow>
     (\<exists>what \<in> {''width'', ''precision''}. dynamic_field z what \<and> (\<exists>a \<in> set (arg_list args). get_dynamic_spec what a = fmt_err e))"

definition huge_precision :: "string \<Rightarrow> fmt_args \<Rightarrow> bool" where
  "huge_precision z args \<longleftrightarrow>
     (\<exists>u v w. z = u @ ''.'' @ v \<and> parse_nonnegative_int v = (Inr max_int, w))
     \<or> dynamic_field z ''precision'' \<and> (\<exists>a \<in> set (arg_list args). get_dynamic_spec ''precision'' a = fmt_ok max_int)"

definition unknown_name :: "string \<Rightarrow> fmt_args \<Rightarrow> bool" where
  "unknown_name z args \<longleftrightarrow>
     (\<exists>u c v. z = u @ ''{'' @ c # v \<and> is_name_start c
        \<and> (case map_of (arg_names args) (c # takeWhile is_name_char v) of None \<Rightarrow> True | Some k \<Rightarrow> length (arg_list args) \<le> k))"

definition run_time_error :: "string \<Rightarrow> fmt_args \<Rightarrow> string \<Rightarrow> bool" where
  "run_time_error z args e \<longleftrightarrow>
     e = ''string pointer is null'' \<and> (\<exists>t. Cstring_arg 0 t \<in> set (arg_list args))
     \<or> dynamic_error z args e
     \<or> e = ''number is too big'' \<and> huge_precision z args \<and> (\<exists>a \<in> set (arg_list args). type_of_arg a \<in> {Float_type, Double_type})
     \<or> e = ''argument not found'' \<and> unknown_name z args"

definition admitted :: "string \<Rightarrow> fmt_args \<Rightarrow> 'a fmt_result \<Rightarrow> ('a \<Rightarrow> bool) \<Rightarrow> bool" where
  "admitted z args r P \<longleftrightarrow> (case r of None \<Rightarrow> True | Some (Inl e) \<Rightarrow> run_time_error z args e | Some (Inr x) \<Rightarrow> P x)"

lemma admitted_simps [simp]:
  "admitted z args None P" "admitted z args (fmt_err e) P \<longleftrightarrow> run_time_error z args e" "admitted z args (fmt_ok x) P \<longleftrightarrow> P x"
  by (simp_all add: admitted_def)

lemma admitted_bind:
  assumes "admitted z args r P" "\<And>x. r = fmt_ok x \<Longrightarrow> P x \<Longrightarrow> admitted z args (f x) Q"
  shows "admitted z args (fmt_bind r f) Q"
  using assms by (cases r; cases "the r") auto

lemma admitted_mono: "admitted z args r P \<Longrightarrow> (\<And>x. P x \<Longrightarrow> Q x) \<Longrightarrow> admitted z args r Q"
  by (cases r; cases "the r") auto

lemma admitted_computed [simp]: "admitted z args (map_option Inr r) (\<lambda>x. True)" "admitted z args (map_option (\<lambda>x. Inr (f x)) r) (\<lambda>x. True)"
  by (cases r; simp)+

subsection \<open>Writing\<close>

definition presents :: "format_specs \<Rightarrow> format_specs \<Rightarrow> bool" where
  "presents sp sp' \<longleftrightarrow> spec_type sp = spec_type sp' \<and> spec_align sp = spec_align sp' \<and> spec_sign sp = spec_sign sp' \<and> spec_alt sp = spec_alt sp'"

lemma int_checked: "int_type_checker (spec_type sp) = fmt_ok () \<Longrightarrow> admitted z args (handle_int_type loc v pre sp) (\<lambda>x. True)"
  by (auto simp add: int_type_checker_def handle_int_type_def Let_def split: if_splits)

lemma admitted_writer: "admitted z args (Option.bind r (\<lambda>(e, ds). map_option (\<lambda>t. Inr (f t)) (g e ds))) (\<lambda>x. True)"
proof (cases r)
  case (Some y)
  then show ?thesis by (cases "g (fst y) (snd y)") (simp_all add: case_prod_unfold)
qed simp

lemma float_digits_checked:
  assumes "spec_precision sp = int max_int \<Longrightarrow> run_time_error z args ''number is too big''"
  shows "admitted z args (write_float_digits loc b d sp fs) (\<lambda>x. True)"
proof (cases "fs_format fs = Hex_format")
  case True
  have "admitted z args (map_option (\<lambda>(e :: int, buf). Inr (f buf)) r) (\<lambda>x. True)" for f :: "string \<Rightarrow> string" and r
    by (cases r) (simp_all add: case_prod_unfold)
  then show ?thesis using True by (simp add: write_float_digits_def)
next
  case False
  have "run_time_error z args ''number is too big''"
    if "(if spec_precision sp \<ge> 0 \<or> spec_type sp = CHR 0x00 then spec_precision sp else 6) = int max_int"
    using that by (intro assms) (simp add: max_int_def split: if_splits)
  then show ?thesis unfolding write_float_digits_def Let_def using False by (simp only: if_False) (simp add: admitted_writer)
qed

lemma float_checked:
  assumes "parse_float_type_spec sp = fmt_ok fs" "spec_precision sp = int max_int \<Longrightarrow> run_time_error z args ''number is too big''"
  shows "admitted z args (write_float loc b d sp) (\<lambda>x. True)"
proof -
  have m: "admitted z args (map_option (map_sum id f) r) (\<lambda>x. True)" if "admitted z args r (\<lambda>x. True)" for f :: "string \<Rightarrow> string" and r
    using that by (cases r; cases "the r") auto
  have d: "admitted z args (write_float_digits loc b d sp fs) (\<lambda>x. True)"
    "admitted z args (write_float_digits loc b d (sp\<lparr>spec_width := w\<rparr>) fs) (\<lambda>x. True)" for d fs w
    using assms(2) by (intro float_digits_checked; simp)+
  show ?thesis using assms(1) by (simp add: write_float_def Let_def m d)
qed

lemma parse_float_presents:
  assumes "presents sp sp'" "check_type_spec Double_type sp' = fmt_ok ()"
  obtains fs where "parse_float_type_spec sp = fmt_ok fs"
  using assms by (auto simp: presents_def parse_float_type_spec_def Let_def split: if_splits)

lemma write_checked:
  assumes "presents sp sp'" "check_type_spec (type_of_arg a) sp' = fmt_ok ()" "a \<in> set (arg_list args)"
    "spec_precision sp = int max_int \<Longrightarrow> huge_precision z args"
  shows "admitted z args (write_arg loc sp a) (\<lambda>x. True)"
proof (cases a)
  case (Float_arg x)
  with assms obtain fs where "parse_float_type_spec sp = fmt_ok fs" using parse_float_presents by auto
  then show ?thesis using float_checked [of sp fs z args] assms(3,4) Float_arg by (force simp: run_time_error_def)
next
  case (Double_arg x)
  with assms obtain fs where "parse_float_type_spec sp = fmt_ok fs" using parse_float_presents by auto
  then show ?thesis using float_checked [of sp fs z args] assms(3,4) Double_arg by (force simp: run_time_error_def)
next
  case (Char_arg c)
  then show ?thesis using assms(1,2)
    by (auto simp: presents_def char_specs_checker_def handle_char_def write_integer_def int_checked split: if_splits)
next
  case (Cstring_arg p s)
  then show ?thesis using assms
    by (auto simp: presents_def cstring_type_checker_def run_time_error_def split: if_splits)
next
  case (String_arg s)
  then show ?thesis using assms(1,2) by (auto simp: presents_def check_string_type_spec_def split: if_splits)
next
  case (Pointer_arg p)
  then show ?thesis using assms(1,2) by (auto simp: presents_def check_pointer_type_spec_def split: if_splits)
qed (use assms(1,2) in \<open>simp_all add: presents_def write_integer_def int_checked\<close>)

lemma default_float: "parse_float_type_spec default_specs = fmt_ok default_float_specs"
  by (simp add: parse_float_type_spec_def default_specs_def default_float_specs_def)

lemma write_default_checked:
  assumes "a \<in> set (arg_list args)"
  shows "admitted z args (write_default loc a) (\<lambda>x. True)"
proof -
  have f: "admitted z args (write_float loc b d default_specs) (\<lambda>x. True)" for b d
    by (rule float_checked [OF default_float]) (simp add: default_specs_def)
  show ?thesis
  proof (cases a)
    case (Float_arg x)
    then show ?thesis using f by (simp add: write_float_without_specs [symmetric])
  next
    case (Double_arg x)
    then show ?thesis using f by (simp add: write_float_without_specs [symmetric])
  next
    case (Cstring_arg p s)
    then show ?thesis using assms by (auto simp: run_time_error_def)
  qed (simp_all add: default_integer_def)
qed

subsection \<open>Parsing\<close>

text \<open>What is parsed is the rest \<open>s\<close> of the format string \<open>z\<close>.\<close>

lemma spec_value_checked:
  assumes "a \<in> set (arg_list args)" "dynamic_field z what"
  shows "admitted z args (get_dynamic_spec what a) (\<lambda>v. what = ''precision'' \<and> v = max_int \<longrightarrow> huge_precision z args)"
proof (cases "get_dynamic_spec what a")
  case (Some y)
  have "what \<in> {''width'', ''precision''}" using assms(2) by (auto simp: dynamic_field_def)
  then have "run_time_error z args e" if "get_dynamic_spec what a = fmt_err e" for e
    using assms that unfolding run_time_error_def dynamic_error_def by blast
  moreover have "huge_precision z args" if "what = ''precision''" "get_dynamic_spec what a = fmt_ok max_int"
    using assms that unfolding huge_precision_def by blast
  ultimately show ?thesis using Some by (cases y) auto
qed simp

lemma parse_arg_id_name:
  assumes "parse_arg_id c cs = fmt_ok (Name_id nm, rest)"
  shows "is_name_start c" "nm = c # takeWhile is_name_char cs"
  using assms by (auto simp: parse_arg_id_def after_index_def split: if_splits prod.splits sum.splits)

text \<open>The arguments the checker has seen the types of.\<close>

lemma on_arg_id_checked:
  assumes "make_arg_ref (Some (length (arg_list args))) i n = fmt_ok (r, n1)"
    "\<And>nm. i = Name_id nm \<Longrightarrow> \<exists>u c v. z = u @ ''{'' @ c # v \<and> is_name_start c \<and> nm = c # takeWhile is_name_char v"
  shows "admitted z args (on_arg_id args i n) (\<lambda>(k, n'). n' = n1 \<and> (length (arg_list args) \<le> k \<longrightarrow> unknown_name z args))"
proof (cases i)
  case (Name_id nm)
  with assms(2) obtain u c v where z: "z = u @ ''{'' @ c # v" "is_name_start c" "nm = c # takeWhile is_name_char v" by blast
  have "unknown_name z args" if "case map_of (arg_names args) nm of None \<Rightarrow> True | Some k \<Rightarrow> length (arg_list args) \<le> k"
    unfolding unknown_name_def using z that by blast
  then show ?thesis using assms(1) Name_id
    by (auto simp: make_arg_ref_def on_arg_id_def run_time_error_def split: option.split)
qed (use assms(1) in \<open>auto simp: make_arg_ref_def on_arg_id_def ctx_next_arg_id_def ctx_check_arg_id_def beyond_def fmt_bind_ok
      split: if_splits\<close>)

lemma get_arg_checked:
  assumes "length (arg_list args) \<le> k \<Longrightarrow> unknown_name z args"
  shows "admitted z args (get_arg k args) (\<lambda>a. k < length (arg_list args) \<and> a = arg_list args ! k)"
  using assms by (simp add: get_arg_def run_time_error_def)

lemma dynamic_checked:
  assumes "parse_dynamic_ref (Some (length (arg_list args))) s n = fmt_ok (r, n1, rest)" "dynamic_field z what" "suffix (CHR ''{'' # s) z"
  shows "admitted z args (parse_dynamic what args s n)
    (\<lambda>(v, n', rest'). n' = n1 \<and> rest' = rest \<and> (what = ''precision'' \<and> v = max_int \<longrightarrow> huge_precision z args))"
proof (cases s)
  case Nil
  then show ?thesis using assms by (simp add: parse_dynamic_ref_def)
next
  case (Cons c cs)
  with assms(1) obtain i rest1 where p: "parse_arg_id c cs = fmt_ok (i, rest1)" "rest1 \<noteq> []" "hd rest1 = CHR ''}''" "rest = tl rest1"
    and m: "make_arg_ref (Some (length (arg_list args))) i n = fmt_ok (r, n1)"
    by (auto simp: parse_dynamic_ref_def fmt_bind_ok split: if_splits)
  have "\<exists>u c v. z = u @ ''{'' @ c # v \<and> is_name_start c \<and> nm = c # takeWhile is_name_char v" if "i = Name_id nm" for nm
    using parse_arg_id_name [of c cs nm rest1] p(1) that assms(3) Cons by (auto simp: suffix_def)
  note i = on_arg_id_checked [OF m this]
  have "admitted z args (on_dynamic what args i n) (\<lambda>(v, n'). n' = n1 \<and> (what = ''precision'' \<and> v = max_int \<longrightarrow> huge_precision z args))"
    unfolding on_dynamic_def
    by (rule admitted_bind [OF i], assumption, clarify, rule admitted_bind [OF get_arg_checked], blast,
        rule admitted_bind [OF spec_value_checked [OF _ assms(2)]]) auto
  then show ?thesis unfolding parse_dynamic_def Cons using p
    by simp (rule admitted_bind, assumption, simp add: case_prod_unfold)
qed

definition follows :: "string \<Rightarrow> fmt_args \<Rightarrow> format_specs \<Rightarrow> format_specs \<Rightarrow> bool" where
  "follows z args sp' sp \<longleftrightarrow> presents sp' sp \<and> (spec_precision sp' = int max_int \<longrightarrow> huge_precision z args)"

definition same_parse :: "string \<Rightarrow> fmt_args \<Rightarrow> ref_state \<Rightarrow> spec_state \<Rightarrow> bool" where
  "same_parse z args x y \<longleftrightarrow> (case x of ((sp, n, s), r) \<Rightarrow> case y of (sp', n', s') \<Rightarrow> n' = n \<and> s' = s \<and> follows z args sp' sp)"

lemma presents_update [simp]:
  "presents (sp\<lparr>spec_width := v\<rparr>) sp' \<longleftrightarrow> presents sp sp'" "presents (sp\<lparr>spec_precision := p\<rparr>) sp' \<longleftrightarrow> presents sp sp'"
  "presents sp (sp'\<lparr>spec_width := v\<rparr>) \<longleftrightarrow> presents sp sp'" "presents sp (sp'\<lparr>spec_precision := p\<rparr>) \<longleftrightarrow> presents sp sp'"
  "presents sp sp" "presents sp sp' \<Longrightarrow> presents (sp\<lparr>spec_type := c\<rparr>) (sp'\<lparr>spec_type := c\<rparr>)"
  by (simp_all add: presents_def)

lemma follows_update [simp]:
  "follows z args (sp\<lparr>spec_width := v\<rparr>) sp' \<longleftrightarrow> follows z args sp sp'" "follows z args sp (sp'\<lparr>spec_width := v\<rparr>) \<longleftrightarrow> follows z args sp sp'"
  "follows z args sp sp' \<Longrightarrow> follows z args (sp\<lparr>spec_type := c\<rparr>) (sp'\<lparr>spec_type := c\<rparr>)"
  by (simp_all add: follows_def)

lemma follows_precision:
  assumes "follows z args sp sp'" "v = max_int \<Longrightarrow> huge_precision z args"
  shows "follows z args (sp\<lparr>spec_precision := int v\<rparr>) (sp'\<lparr>spec_precision := w\<rparr>)" "follows z args (sp\<lparr>spec_precision := int v\<rparr>) sp'"
  using assms by (simp_all add: follows_def)

lemma width_checked:
  assumes "unless_end_ref (parse_dynamic_width (Some (length (arg_list args)))) (sp, n, s) = fmt_ok x" "follows z args sp' sp" "suffix s z"
    "s \<noteq> [] \<and> hd s = CHR ''{'' \<longrightarrow> dynamic_field z ''width''"
  shows "admitted z args (unless_end (parse_width args) (sp', n, s)) (same_parse z args x)"
proof (cases s)
  case Nil
  then show ?thesis using assms by (auto simp: unless_end_ref_def unless_end_def same_parse_def)
next
  case (Cons c cs)
  consider "is_digit c" | "\<not> is_digit c" "c = CHR ''{''" | "\<not> is_digit c" "c \<noteq> CHR ''{''" by blast
  then show ?thesis
  proof cases
    case 1
    then show ?thesis using assms Cons
      by (auto simp: unless_end_ref_def unless_end_def same_parse_def parse_width_def parse_dynamic_width_def split: prod.splits sum.splits)
  next
    case 2
    with assms(1) Cons obtain r n1 rest where r: "parse_dynamic_ref (Some (length (arg_list args))) cs n = fmt_ok (r, n1, rest)" "x = ((sp, n1, rest), r)"
      by (auto simp: unless_end_ref_def parse_dynamic_width_def fmt_bind_ok)
    have "suffix (CHR ''{'' # cs) z" "dynamic_field z ''width''" using 2 Cons assms(3,4) by simp_all
    note d = dynamic_checked [OF r(1) this(2,1)]
    show ?thesis using 2 Cons assms(2) r(2)
      by (simp add: unless_end_def parse_width_def) (rule admitted_bind [OF d], auto simp: same_parse_def)
  next
    case 3
    then show ?thesis using assms Cons
      by (auto simp: unless_end_ref_def unless_end_def same_parse_def parse_width_def parse_dynamic_width_def)
  qed
qed

lemma point_checked:
  assumes "unless_end_ref (parse_dynamic_point t (Some (length (arg_list args)))) (sp, n, s) = fmt_ok x" "follows z args sp' sp" "suffix s z"
  shows "admitted z args (unless_end (parse_point t args) (sp', n, s)) (same_parse z args x)"
proof (cases s)
  case Nil
  then show ?thesis using assms by (auto simp: unless_end_ref_def unless_end_def same_parse_def)
next
  case (Cons c cs)
  show ?thesis
  proof (cases "c = CHR ''.''")
    case False
    then show ?thesis using assms Cons
      by (auto simp: unless_end_ref_def unless_end_def same_parse_def parse_point_def parse_dynamic_point_def)
  next
    case True
    with assms(1) Cons have x: "parse_dynamic_precision t (Some (length (arg_list args))) cs sp n = fmt_ok x"
      by (simp add: unless_end_ref_def parse_dynamic_point_def)
    then have c: "check_precision t = fmt_ok ()" by (auto simp: parse_dynamic_precision_def fmt_bind_ok)
    consider "cs \<noteq> [] \<and> is_digit (hd cs)" | "cs \<noteq> [] \<and> \<not> is_digit (hd cs) \<and> hd cs = CHR ''{''" | "cs = [] \<or> \<not> is_digit (hd cs) \<and> hd cs \<noteq> CHR ''{''" by blast
    then have "admitted z args (parse_precision t args cs sp' n) (same_parse z args x)"
    proof cases
      case 1
      have "huge_precision z args" if "parse_nonnegative_int cs = (Inr max_int, rest)" for rest
        using that assms(3) Cons \<open>c = CHR ''.''\<close> unfolding huge_precision_def suffix_def by auto
      with 1 show ?thesis using x c assms(2)
        by (auto simp: parse_precision_def parse_dynamic_precision_def same_parse_def fmt_bind_ok intro!: follows_precision(1) split: prod.splits sum.splits)
    next
      case 2
      with x obtain r n1 rest where r: "parse_dynamic_ref (Some (length (arg_list args))) (tl cs) n = fmt_ok (r, n1, rest)" "x = ((sp, n1, rest), r)"
        by (auto simp: parse_dynamic_precision_def fmt_bind_ok)
      have cs: "cs = CHR ''{'' # tl cs" using 2 by (cases cs) simp_all
      then obtain u where "z = u @ ''.{'' @ tl cs" using assms(3) Cons True by (auto simp: suffix_def)
      then have "dynamic_field z ''precision''" "suffix (CHR ''{'' # tl cs) z" by (auto simp: dynamic_field_def suffix_def)
      note d = dynamic_checked [OF r(1) this]
      have "\<not> is_digit (CHR ''{'')" by (simp add: is_digit_def)
      then show ?thesis using 2 c assms(2) r(2)
        by (simp add: parse_precision_def fmt_bind_assoc) (rule admitted_bind [OF d], auto simp: same_parse_def intro: follows_precision)
    next
      case 3
      then show ?thesis using x by (auto simp: parse_dynamic_precision_def)
    qed
    then show ?thesis using True Cons by (simp add: unless_end_def parse_point_def)
  qed
qed

subsection \<open>Rests\<close>

lemma parse_loop_suffix: "suffix (snd (parse_loop v s)) s"
  by (induction v s rule: parse_loop.induct) (auto simp: Let_def suffix_Cons)

lemma parse_number_suffix: "parse_nonnegative_int s = (r, rest) \<Longrightarrow> suffix rest s"
  using parse_loop_suffix [of 0 s] by (auto simp: parse_nonnegative_int_def split_beta Let_def)

lemma parse_arg_id_suffix: "parse_arg_id c cs = fmt_ok (i, rest) \<Longrightarrow> suffix rest (c # cs)"
  by (auto simp: parse_arg_id_def after_index_def suffix_ConsI suffix_dropWhile dest!: parse_number_suffix split: if_splits prod.splits sum.splits)

lemma parse_dynamic_ref_suffix: "parse_dynamic_ref na s n = fmt_ok (r, n1, rest) \<Longrightarrow> suffix rest s"
  by (auto simp: parse_dynamic_ref_def fmt_bind_ok dest!: parse_arg_id_suffix intro: suffix_order.trans [OF suffix_tl] split: if_splits list.splits)

lemma part_suffix:
  "unless_end parse_align (sp, n, s) = fmt_ok (sp1, n1, s1) \<Longrightarrow> suffix s1 s"
  "unless_end (parse_sign t) (sp, n, s) = fmt_ok (sp1, n1, s1) \<Longrightarrow> suffix s1 s"
  "unless_end (parse_hash t) (sp, n, s) = fmt_ok (sp1, n1, s1) \<Longrightarrow> suffix s1 s"
  "unless_end (parse_zero t) (sp, n, s) = fmt_ok (sp1, n1, s1) \<Longrightarrow> suffix s1 s"
  "unless_end parse_type (sp, n, s) = fmt_ok (sp1, n1, s1) \<Longrightarrow> suffix s1 s"
proof -
  have d: "suffix (tl (dropWhile P cs)) (c # cs)" for P and c :: char and cs
    using suffix_order.trans [OF suffix_tl suffix_dropWhile] by (rule suffix_ConsI)
  show "unless_end parse_align (sp, n, s) = fmt_ok (sp1, n1, s1) \<Longrightarrow> suffix s1 s"
    by (auto simp: unless_end_def parse_align_def next_code_point_def Let_def d suffix_ConsI split: list.splits if_splits)
qed (auto simp: unless_end_def parse_sign_def parse_hash_def parse_zero_def parse_type_def fmt_bind_ok suffix_ConsI split: list.splits if_splits)

text \<open>In front of the width there is no closing brace.\<close>

definition passed :: "string \<Rightarrow> string \<Rightarrow> bool" where
  "passed s1 s \<longleftrightarrow> (\<exists>m. s = m @ s1 \<and> CHR ''}'' \<notin> set m)"

lemma passed_trans: "passed s2 s1 \<Longrightarrow> passed s1 s \<Longrightarrow> passed s2 s"
  unfolding passed_def by (metis append.assoc set_append Un_iff)

lemma passed_steps: "passed s s" "c \<noteq> CHR ''}'' \<Longrightarrow> passed s1 cs \<Longrightarrow> passed s1 (c # cs)"
proof -
  show "passed s s" unfolding passed_def by (intro exI [of _ "[]"]) simp
  assume "c \<noteq> CHR ''}''" "passed s1 cs"
  then obtain m where "c # cs = (c # m) @ s1" "CHR ''}'' \<notin> set (c # m)" unfolding passed_def by auto
  then show "passed s1 (c # cs)" unfolding passed_def by blast
qed

lemma part_passed:
  "s \<noteq> [] \<and> hd s \<noteq> CHR ''}'' \<Longrightarrow> unless_end parse_align (sp, n, s) = fmt_ok (sp1, n1, s1) \<Longrightarrow> passed s1 s"
  "unless_end (parse_sign t) (sp, n, s) = fmt_ok (sp1, n1, s1) \<Longrightarrow> passed s1 s"
  "unless_end (parse_hash t) (sp, n, s) = fmt_ok (sp1, n1, s1) \<Longrightarrow> passed s1 s"
  "unless_end (parse_zero t) (sp, n, s) = fmt_ok (sp1, n1, s1) \<Longrightarrow> passed s1 s"
proof -
  have one: "passed (tl p) p" if "p \<noteq> []" "align_of_char (hd p) \<noteq> Align_none" for p
    using that by (cases p) (auto simp: align_of_char_def intro!: passed_steps split: if_splits)
  have "\<not> is_continuation (CHR ''}'')" by code_simp
  then have "CHR ''}'' \<notin> set (takeWhile is_continuation cs)" for cs by (auto dest: set_takeWhileD)
  then have d: "passed (dropWhile is_continuation cs) cs" for cs
    unfolding passed_def by (metis takeWhile_dropWhile_id)
  show "s \<noteq> [] \<and> hd s \<noteq> CHR ''}'' \<Longrightarrow> unless_end parse_align (sp, n, s) = fmt_ok (sp1, n1, s1) \<Longrightarrow> passed s1 s"
    by (auto simp: unless_end_def parse_align_def next_code_point_def Let_def split: list.splits if_splits
        intro!: passed_steps passed_trans [OF one d] one)
qed (auto simp: unless_end_def parse_sign_def parse_hash_def parse_zero_def fmt_bind_ok intro: passed_steps split: list.splits if_splits)

lemma dynamic_part_suffix:
  "unless_end_ref (parse_dynamic_width na) (sp, n, s) = fmt_ok ((sp1, n1, s1), w) \<Longrightarrow> suffix s1 s"
  "unless_end_ref (parse_dynamic_point t na) (sp, n, s) = fmt_ok ((sp1, n1, s1), w) \<Longrightarrow> suffix s1 s"
proof -
  show "unless_end_ref (parse_dynamic_width na) (sp, n, s) = fmt_ok ((sp1, n1, s1), w) \<Longrightarrow> suffix s1 s"
    by (auto simp: unless_end_ref_def parse_dynamic_width_def fmt_bind_ok suffix_ConsI
        dest!: parse_dynamic_ref_suffix parse_number_suffix split: list.splits if_splits prod.splits sum.splits)
  have "suffix s1 (c # cs)" if "suffix s1 (tl cs)" for c :: char and cs
    using suffix_order.trans [OF that suffix_tl] by (rule suffix_ConsI)
  then show "unless_end_ref (parse_dynamic_point t na) (sp, n, s) = fmt_ok ((sp1, n1, s1), w) \<Longrightarrow> suffix s1 s"
    by (auto simp: unless_end_ref_def parse_dynamic_point_def parse_dynamic_precision_def fmt_bind_ok suffix_ConsI
        dest!: parse_dynamic_ref_suffix parse_number_suffix split: list.splits if_splits prod.splits sum.splits)
qed

lemma parse_dynamic_specs_suffix:
  assumes "parse_dynamic_specs t na (sp, n, s) = fmt_ok (d, n1, rest)"
  shows "suffix rest s"
proof (cases "s = [] \<or> hd s = CHR ''}''")
  case True
  then show ?thesis using assms by (auto simp: parse_dynamic_specs_def)
next
  case False
  with assms show ?thesis
    by (auto simp: parse_dynamic_specs_def fmt_bind_ok dest!: dynamic_part_suffix part_suffix intro: suffix_order.trans)
qed

subsection \<open>Specifiers\<close>

lemma part_precision:
  "unless_end parse_align (sp, n, s) = fmt_ok (sp1, n1, s1) \<Longrightarrow> spec_precision sp1 = spec_precision sp"
  "unless_end (parse_sign t) (sp, n, s) = fmt_ok (sp1, n1, s1) \<Longrightarrow> spec_precision sp1 = spec_precision sp"
  "unless_end (parse_hash t) (sp, n, s) = fmt_ok (sp1, n1, s1) \<Longrightarrow> spec_precision sp1 = spec_precision sp"
  "unless_end (parse_zero t) (sp, n, s) = fmt_ok (sp1, n1, s1) \<Longrightarrow> spec_precision sp1 = spec_precision sp"
  by (auto simp: unless_end_def parse_align_def parse_sign_def parse_hash_def parse_zero_def fmt_bind_ok Let_def split: list.splits if_splits prod.splits)

lemma specs_checked:
  assumes "parse_dynamic_specs t (Some (length (arg_list args))) (default_specs, n, s) = fmt_ok (d, n1, rest)" "suffix (CHR '':'' # s) z"
  shows "admitted z args (parse_format_specs t args (default_specs, n, s)) (\<lambda>(sp, n', rest'). n' = n1 \<and> rest' = rest \<and> follows z args sp (static_specs d))"
proof (cases "s = [] \<or> hd s = CHR ''}''")
  case True
  then have "parse_format_specs t args (default_specs, n, s) = fmt_ok (default_specs, n, s)"
    by (cases s) (auto simp: parse_format_specs_def parse_specs_from_def unless_end_def)
  moreover have "follows z args default_specs default_specs" by (simp add: follows_def default_specs_def)
  ultimately show ?thesis using assms(1) True by (auto simp: parse_dynamic_specs_def)
next
  case False
  with assms(1) obtain st1 st2 st3 sp4 n4 s4 x5 x6 sp where
    c: "unless_end parse_align (default_specs, n, s) = fmt_ok st1" "unless_end (parse_sign t) st1 = fmt_ok st2"
      "unless_end (parse_hash t) st2 = fmt_ok st3" "unless_end (parse_zero t) st3 = fmt_ok (sp4, n4, s4)"
    and w: "unless_end_ref (parse_dynamic_width (Some (length (arg_list args)))) (sp4, n4, s4) = fmt_ok x5"
    and p: "unless_end_ref (parse_dynamic_point t (Some (length (arg_list args)))) (fst x5) = fmt_ok x6"
    and y: "unless_end parse_type (fst x6) = fmt_ok (sp, n1, rest)" "d = \<lparr>static_specs = sp, width_ref = snd x5, precision_ref = snd x6\<rparr>"
    by (auto simp: parse_dynamic_specs_def fmt_bind_ok case_prod_unfold)
  have follows4: "follows z args sp4 sp4"
    using c by (cases st1; cases st2; cases st3) (auto simp: follows_def default_specs_def dest!: part_precision)
  have s4: "suffix s4 z" "suffix (snd (snd (fst x5))) z"
    using suffix_ConsD [OF assms(2)] c w
    by (cases st1; cases st2; cases st3; cases x5; force dest: part_suffix dynamic_part_suffix intro: suffix_order.trans)+
  have "passed (snd (snd st1)) s" using part_passed(1) [of s default_specs n "fst st1" "fst (snd st1)" "snd (snd st1)"] c(1) False by simp
  then have "passed s4 s" using c(2-4) by (cases st1; cases st2; cases st3) (auto dest!: part_passed(2-4) intro: passed_trans)
  then obtain m where m: "s = m @ s4" "CHR ''}'' \<notin> set m" unfolding passed_def by blast
  have field: "s4 \<noteq> [] \<and> hd s4 = CHR ''{'' \<longrightarrow> dynamic_field z ''width''"
  proof
    assume "s4 \<noteq> [] \<and> hd s4 = CHR ''{''"
    then obtain cs where "s4 = CHR ''{'' # cs" by (cases s4) auto
    with m assms(2) obtain u where "z = u @ '':'' @ m @ ''{'' @ cs" by (auto simp: suffix_def)
    with m(2) show "dynamic_field z ''width''" unfolding dynamic_field_def by blast
  qed
  have r: "parse_format_specs t args (default_specs, n, s)
      = fmt_bind (unless_end (parse_width args) (sp4, n4, s4)) (\<lambda>st5. fmt_bind (unless_end (parse_point t args) st5) (unless_end parse_type))"
    using False c by (cases s) (auto simp: parse_format_specs_def parse_specs_from_def unless_end_def)
  have ty: "admitted z args (unless_end parse_type st6) (\<lambda>(sp, n', rest'). n' = n1 \<and> rest' = rest \<and> follows z args sp (static_specs d))"
    if same: "same_parse z args x6 st6" for st6
  proof -
    obtain sp6 n6 s6 q6 where x: "x6 = ((sp6, n6, s6), q6)" by (metis prod_cases3 surj_pair)
    obtain sp' where st: "st6 = (sp', n6, s6)" "follows z args sp' sp6" using same x by (cases st6) (auto simp: same_parse_def)
    show ?thesis using y st x by (cases s6) (auto simp: unless_end_def parse_type_def split: if_splits)
  qed
  have pt: "admitted z args (unless_end (parse_point t args) st5) (same_parse z args x6)" if same: "same_parse z args x5 st5" for st5
  proof -
    obtain sp5 n5 s5 q5 where x: "x5 = ((sp5, n5, s5), q5)" by (metis prod_cases3 surj_pair)
    obtain sp' where st: "st5 = (sp', n5, s5)" "follows z args sp' sp5" using same x by (cases st5) (auto simp: same_parse_def)
    show ?thesis unfolding st(1) by (rule point_checked [OF _ st(2)]) (use p x s4(2) in simp_all)
  qed
  show ?thesis unfolding r by (rule admitted_bind [OF width_checked [OF w follows4 s4(1) field]], rule admitted_bind [OF pt ty])
qed

subsection \<open>Format strings\<close>

lemma checker_simps [simp]:
  "h_text (format_string_checker types) = (\<lambda>s n. n)" "h_arg_id (format_string_checker types) = check_on_arg_id (length types)"
  "h_field (format_string_checker types) = (\<lambda>k n. fmt_ok n)" "h_specs (format_string_checker types) = check_on_format_specs types"
  by (simp_all add: format_string_checker_def)

interpretation checking_types: text_handler "format_string_checker types" for types
  by unfold_locales
    (auto simp: check_on_format_specs_def formatter_parse_def fmt_bind_ok dest!: parse_dynamic_specs_shorter split: if_splits)

text \<open>The checker has accepted what formatting is about to do.\<close>

abbreviation same_rest :: "string \<times> int \<Rightarrow> string \<times> handler_state \<Rightarrow> bool" where
  "same_rest x y \<equiv> fst y = fst x \<and> snd (snd y) = snd x"

abbreviation types_of :: "fmt_args \<Rightarrow> arg_type list" where
  "types_of args \<equiv> map type_of_arg (arg_list args)"

lemma field_checked:
  assumes "k < length (arg_list args)"
  shows "admitted z args (on_replacement_field loc args k st) (\<lambda>st1. snd st1 = snd st)"
  unfolding on_replacement_field_def
  by (rule admitted_bind [OF get_arg_checked], use assms in simp, rule admitted_bind [OF write_default_checked]) (simp_all add: on_text_def)

lemma format_specs_checked:
  assumes "check_on_format_specs (types_of args) k s (snd st) = fmt_ok x" "fst x \<noteq> []" "hd (fst x) = CHR ''}''" "k < length (arg_list args)" "suffix (CHR '':'' # s) z"
  shows "admitted z args (on_format_specs loc args k s st) (same_rest x)"
proof -
  obtain d where d: "parse_dynamic_specs (type_of_arg (arg_list args ! k)) (Some (length (arg_list args))) (default_specs, snd st, s) = fmt_ok (d, snd x, fst x)"
    and t: "check_type_spec (type_of_arg (arg_list args ! k)) (static_specs d) = fmt_ok ()"
    using assms by (auto simp: check_on_format_specs_def formatter_parse_def fmt_bind_ok)
  show ?thesis
    unfolding on_format_specs_def get_arg_def using assms(2-4)
    by simp (rule admitted_bind [OF specs_checked [OF d assms(5)]], clarsimp, rule admitted_bind [OF write_checked [OF _ t]],
      simp_all add: follows_def)
qed

lemma rest_checked:
  assumes "handle_rest (format_string_checker (types_of args)) s k (snd st) = fmt_ok x" "k < length (arg_list args)" "suffix s z"
  shows "admitted z args (handle_rest (format_handler loc args) s k st) (same_rest x)"
proof (cases s)
  case Nil
  then show ?thesis using assms by (simp add: handle_rest_def)
next
  case (Cons c cs)
  consider "c = CHR ''}''" | "c = CHR '':''" | "c \<noteq> CHR ''}''" "c \<noteq> CHR '':''" by blast
  then show ?thesis
  proof cases
    case 1
    then show ?thesis using assms Cons by (auto simp: handle_rest_def intro!: admitted_bind [OF field_checked [OF assms(2)]])
  next
    case 2
    with assms Cons obtain y where y: "check_on_format_specs (types_of args) k cs (snd st) = fmt_ok y" "fst y \<noteq> []" "hd (fst y) = CHR ''}''"
      "x = (tl (fst y), snd y)"
      by (auto simp: handle_rest_def fmt_bind_ok split: if_splits)
    have "suffix (CHR '':'' # cs) z" using assms(3) Cons 2 by simp
    then show ?thesis using 2 Cons y
      by (simp add: handle_rest_def) (rule admitted_bind [OF format_specs_checked [OF y(1-3) assms(2)]], assumption, auto)
  next
    case 3
    then show ?thesis using assms Cons by (simp add: handle_rest_def)
  qed
qed

lemma arg_id_checked:
  assumes "check_on_arg_id (length (arg_list args)) i (snd st) = fmt_ok (k, n)"
  shows "h_arg_id (format_handler loc args) i st = fmt_ok (k, fst st, n) \<and> k < length (arg_list args)"
  using assms
  by (cases i) (auto simp: check_on_arg_id_def on_arg_id_def ctx_next_arg_id_def ctx_check_arg_id_def beyond_def fmt_bind_ok split: if_splits)

lemma replacement_checked:
  assumes "handle_replacement (format_string_checker (types_of args)) s (snd st) = fmt_ok x" "suffix s z"
  shows "admitted z args (handle_replacement (format_handler loc args) s st) (same_rest x)"
proof (cases s)
  case Nil
  then show ?thesis using assms by (simp add: handle_replacement_def)
next
  case (Cons c cs)
  consider "c = CHR ''}''" | "c = CHR ''{''" | "c \<noteq> CHR ''}''" "c \<noteq> CHR ''{''" by blast
  then show ?thesis
  proof cases
    case 1
    with assms Cons obtain k n where k: "check_on_arg_id (length (arg_list args)) Auto_id (snd st) = fmt_ok (k, n)" "x = (cs, n)"
      by (auto simp: handle_replacement_def fmt_bind_ok)
    show ?thesis using 1 Cons k(2) arg_id_checked [OF k(1), of loc]
      by (auto simp: handle_replacement_def simp del: format_handler_simps(2) intro!: admitted_bind [OF field_checked])
  next
    case 2
    then show ?thesis using assms(1) Cons by (auto simp: handle_replacement_def on_text_def)
  next
    case 3
    with assms Cons obtain i rest k n where p: "parse_arg_id c cs = fmt_ok (i, rest)"
      "check_on_arg_id (length (arg_list args)) i (snd st) = fmt_ok (k, n)"
      "handle_rest (format_string_checker (types_of args)) rest k n = fmt_ok x"
      by (auto simp: handle_replacement_def fmt_bind_ok)
    note k = arg_id_checked [OF p(2), of loc]
    have "suffix rest z" using parse_arg_id_suffix [OF p(1)] assms(2) Cons suffix_order.trans by blast
    then show ?thesis using 3 Cons p k rest_checked [of args rest k "(fst st, n)" x z loc]
      by (simp add: handle_replacement_def del: format_handler_simps(2))
  qed
qed

lemma replacement_suffix:
  assumes "handle_replacement (format_string_checker types) s n = fmt_ok x"
  shows "suffix (fst x) s"
proof -
  have r: "suffix (fst x) rest" if "handle_rest (format_string_checker types) rest k n1 = fmt_ok x" for rest k n1
  proof -
    have t: "suffix s1 s" if "check_on_format_specs types k s n = fmt_ok (s1, n1)" for s s1 n n1
      using that by (auto simp: check_on_format_specs_def formatter_parse_def fmt_bind_ok dest: parse_dynamic_specs_suffix split: if_splits)
    have "suffix (tl s1) (c # s)" if "check_on_format_specs types k s n = fmt_ok (s1, n1)" for s s1 n n1 c
      by (rule suffix_ConsI, rule suffix_order.trans [OF suffix_tl], rule t [OF that])
    then show ?thesis using that by (auto simp: handle_rest_def fmt_bind_ok suffix_ConsI split: list.splits if_splits)
  qed
  show ?thesis
  proof (cases s)
    case (Cons c cs)
    have "suffix (fst x) (c # cs)"
      if "parse_arg_id c cs = fmt_ok (i, rest)" "handle_rest (format_string_checker types) rest k n1 = fmt_ok x" for i rest k n1
      using r [OF that(2)] parse_arg_id_suffix [OF that(1)] suffix_order.trans by blast
    then show ?thesis using assms Cons by (auto simp: handle_replacement_def fmt_bind_ok suffix_ConsI split: if_splits)
  qed (use assms in \<open>simp add: handle_replacement_def\<close>)
qed

lemma small_checked:
  "handle_small (format_string_checker (types_of args)) pend s (snd st) = fmt_ok m \<Longrightarrow> suffix s z
    \<Longrightarrow> admitted z args (handle_small (format_handler loc args) pend s st) (\<lambda>st1. snd st1 = m)"
proof (induction "length s" arbitrary: pend s st rule: less_induct)
  case less
  show ?case
  proof (cases s)
    case Nil
    then show ?thesis using less.prems by (simp add: checking_types.small_simps formatting.small_simps on_text_def)
  next
    case (Cons c cs)
    consider "c = CHR ''{''" | "c = CHR ''}''" | "c \<noteq> CHR ''{''" "c \<noteq> CHR ''}''" by blast
    then show ?thesis
    proof cases
      case 1
      obtain x where x: "handle_replacement (format_string_checker (types_of args)) cs (snd st) = fmt_ok x"
        "handle_small (format_string_checker (types_of args)) [] (fst x) (snd x) = fmt_ok m"
        using less.prems(1) unfolding Cons 1 checking_types.small_simps by (auto simp: fmt_bind_ok)
      have len: "length (fst x) < length s"
        using checking_types.replacement_shorter [of "types_of args" cs "snd st" "fst x" "snd x"] x(1) Cons by simp
      have sx: "suffix cs z" using less.prems(2) Cons by (auto dest: suffix_ConsD)
      then have sfx: "suffix (fst x) z" using replacement_suffix [OF x(1)] suffix_order.trans by blast
      have "admitted z args (handle_replacement (format_handler loc args) cs (on_text pend st)) (same_rest x)"
        by (rule replacement_checked [OF _ sx]) (simp add: x(1) on_text_def)
      then show ?thesis unfolding Cons 1 formatting.small_simps format_handler_simps
      proof (rule admitted_bind)
        fix y assume "same_rest x y"
        then show "admitted z args (handle_small (format_handler loc args) [] (fst y) (snd y)) (\<lambda>st1. snd st1 = m)"
          using less.hyps [of "fst y" "[]" "snd y"] len x(2) sfx by simp
      qed
    next
      case 2
      then have d: "cs \<noteq> []" "hd cs = CHR ''}''" using less.prems(1) Cons by (auto simp: checking_types.small_simps split: if_splits)
      have sx: "suffix (tl cs) z" by (rule suffix_order.trans [OF suffix_tl], rule suffix_ConsD) (use less.prems(2) Cons in simp)
      from d have "length (tl cs) < length s" using Cons by (cases cs) auto
      from less.hyps [OF this, of "[]" "on_text (pend @ ''}'') st"] show ?thesis
        using less.prems(1) sx Cons 2 d by (simp add: checking_types.small_simps formatting.small_simps on_text_def)
    next
      case 3
      have sx: "suffix cs z" using less.prems(2) Cons by (auto dest: suffix_ConsD)
      have "length cs < length s" using Cons by simp
      from less.hyps [OF this, of "pend @ [c]" st] show ?thesis
        using less.prems(1) sx Cons 3 by (simp add: checking_types.small_simps formatting.small_simps)
    qed
  qed
qed

text \<open>
  C25 [type] A format string that passes the check at compile time (FMT_STRING) leaves little to go wrong at run time: with
  arguments of the types that were checked, vformat_to throws nothing but "string pointer is null", and that only with a
  null string among the arguments; "width/precision is not integer", "negative width/precision" or "number is too big", and
  that only with a field that takes its width or precision from an argument, and an argument that is not fit for it; "number is
  too big" for the precision INT_MAX of a floating-point number, which the check lets through also where it stands in the string
  ({:.2147483647e}); and "argument not found", only for a name in the string that no argument has.  Every other error of the
  syntax, of the number of arguments and of the types has been found before.
\<close>

theorem format_check_sound:
  assumes "check_format_string (map type_of_arg (arg_list args)) s = fmt_ok ()" "vformat_to loc s args = fmt_err e"
  shows "run_time_error s args e"
proof -
  obtain m where "handle_small (format_string_checker (types_of args)) [] s 0 = fmt_ok m"
    using assms(1) by (auto simp: check_format_string_def checking_types.format_string_small fmt_bind_ok)
  then have "admitted s args (handle_small (format_handler loc args) [] s ([], 0)) (\<lambda>st1. snd st1 = m)"
    by (intro small_checked) simp_all
  then have "admitted s args (vformat_to loc s args) (\<lambda>x. True)"
    unfolding vformat_handler formatting.format_string_small by (rule admitted_bind) simp
  then show ?thesis using assms(2) by simp
qed

definition aligned_to :: fmt_args where
  "aligned_to = \<lparr>arg_list = [String_arg ''ok'', Int_arg (- 1)], arg_names = []\<rparr>"

theorem format_check_sound_witness:
  "check_format_string (map type_of_arg (arg_list aligned_to)) ''{:>{}}!'' = fmt_ok ()
    \<and> vformat_to no_grouping ''{:>{}}!'' aligned_to = fmt_err ''negative width'' \<and> run_time_error ''{:>{}}!'' aligned_to ''negative width''"
proof -
  have c: "check_format_string (map type_of_arg (arg_list aligned_to)) ''{:>{}}!'' = fmt_ok ()" by code_simp
  have v: "vformat_to no_grouping ''{:>{}}!'' aligned_to = fmt_err ''negative width''"
    by (simp add: vformat_scan parse_replacement_field_def parse_arg_id_def is_name_start_def on_arg_id_def next_arg_id_def on_format_specs_def
        get_arg_def aligned_to_def parse_format_specs_def parse_specs_from_def unless_end_def parse_align_def next_code_point_def
        is_continuation_def align_of_char_def parse_sign_def parse_hash_def parse_zero_def parse_width_def is_digit_def parse_dynamic_def
        on_dynamic_def get_dynamic_spec_def on_text_def Let_def)
  show ?thesis using c v format_check_sound [OF c v] by simp
qed

end
