(* ===== verification/Fmt_Static.thy ===== *)
theory Fmt_Static imports Fmt_Check begin

text \<open>
  Format strings that are turned into code (\<open>FMT_COMPILE\<close>; the overload of \<open>compile_format_string\<close> for \<open>constexpr if\<close> and the
  classes \<open>text\<close>, \<open>field\<close>, \<open>spec_field\<close>, \<open>concat\<close> of spdlog/fmt/bundled/compile.h).

  An error is one when the program is compiled; \<open>None\<close> is a read behind the string, which is also one then.
\<close>

section \<open>The compiler\<close>

datatype static_part = Static_text string | Static_field nat | Static_spec nat dynamic_specs

text \<open>\<open>unknown_format\<close>: the string is left to \<open>compiled_format\<close>.\<close>

datatype static_format = Unknown_format | Concat "static_part list"

definition make_concat :: "static_part \<Rightarrow> static_format \<Rightarrow> static_format" where
  "make_concat p f = (case f of Unknown_format \<Rightarrow> Unknown_format | Concat ps \<Rightarrow> Concat (p # ps))"

definition parse_text :: "string \<Rightarrow> string \<times> string" where
  "parse_text s = (takeWhile (\<lambda>c. c \<noteq> CHR ''{'' \<and> c \<noteq> CHR ''}'') s, dropWhile (\<lambda>c. c \<noteq> CHR ''{'' \<and> c \<noteq> CHR ''}'') s)"

text \<open>The parser starts with a context of its own, and one character is skipped behind it, whatever it is.\<close>

definition static_parse_specs :: "arg_type \<Rightarrow> string \<Rightarrow> (dynamic_specs \<times> string) fmt_result" where
  "static_parse_specs t s =
     fmt_bind (formatter_parse t None s 0) (\<lambda>(d, n, rest). if rest = [] then None else fmt_ok (d, tl rest))"

lemma formatter_parse_shorter: "formatter_parse t na s n = fmt_ok (d, n1, rest) \<Longrightarrow> length rest \<le> length s"
  by (auto simp: formatter_parse_def fmt_bind_ok dest!: parse_dynamic_specs_shorter)

lemma static_parse_specs_shorter: "static_parse_specs t s = fmt_ok (d, rest) \<Longrightarrow> length rest \<le> length s"
  by (auto simp: static_parse_specs_def fmt_bind_ok dest!: formatter_parse_shorter split: if_splits)

definition unmatched_open :: string where
  "unmatched_open = ''unmatched '' @ in_quotes (CHR ''{'') @ '' in format string''"

text \<open>\<open>parse_tail\<close> ends at the end of the string.\<close>

function static_compile :: "arg_type list \<Rightarrow> nat \<Rightarrow> string \<Rightarrow> static_format fmt_result" where
  "static_compile types k [] = fmt_ok (Concat [])"
| "static_compile types k (c # cs) =
     (if c = CHR ''{'' then
        (case cs of
           [] \<Rightarrow> fmt_err unmatched_open
         | d # ds \<Rightarrow>
             if d = CHR ''{'' then
               fmt_bind (static_compile types k ds) (\<lambda>f. fmt_ok (make_concat (Static_text ''{'') f))
             else if d = CHR ''}'' then
               (if k < length types then fmt_bind (static_compile types (k + 1) ds) (\<lambda>f. fmt_ok (make_concat (Static_field k) f))
                else fmt_err ''index is out of bounds'')
             else if d = CHR '':'' then
               (if k < length types then
                  fmt_bind (static_parse_specs (types ! k) ds) (\<lambda>(sp, rest).
                    fmt_bind (static_compile types (k + 1) rest) (\<lambda>f. fmt_ok (make_concat (Static_spec k sp) f)))
                else fmt_err ''index is out of bounds'')
             else fmt_ok Unknown_format)
      else if c = CHR ''}'' then
        (case cs of
           [] \<Rightarrow> fmt_err unmatched_brace
         | d # ds \<Rightarrow> fmt_bind (static_compile types k ds) (\<lambda>f. fmt_ok (make_concat (Static_text ''}'') f)))
      else
        (case parse_text cs of
           (t, rest) \<Rightarrow> fmt_bind (static_compile types k rest) (\<lambda>f. fmt_ok (make_concat (Static_text (c # t)) f))))"
  by pat_completeness auto
termination
proof (relation "measure (\<lambda>(types, k, s). length s)")
  fix types :: "arg_type list" and k :: nat and c d :: char and cs ds :: string and x sp rest
  assume "static_parse_specs (types ! k) ds = fmt_ok x" "cs = d # ds" "(sp, rest) = x"
  then show "((types, k + 1, rest), types, k, c # cs) \<in> measure (\<lambda>(types, k, s). length s)"
    using static_parse_specs_shorter [of "types ! k" ds sp rest] by auto
qed (auto simp: parse_text_def intro: le_imp_less_Suc length_dropWhile_le)

definition compile_static :: "arg_type list \<Rightarrow> string \<Rightarrow> static_format fmt_result" where
  "compile_static types s = (if s = [] then fmt_ok (Concat [Static_text []]) else static_compile types 0 s)"

section \<open>Formatting\<close>

text \<open>The context of a formatter has no arguments.\<close>

definition no_args :: fmt_args where
  "no_args = \<lparr>arg_list = [], arg_names = []\<rparr>"

fun format_static_part :: "fmt_locale \<Rightarrow> fmt_args \<Rightarrow> static_part \<Rightarrow> string fmt_result" where
  "format_static_part loc args (Static_text s) = fmt_ok s"
| "format_static_part loc args (Static_field k) = write_default loc (arg_list args ! k)"
| "format_static_part loc args (Static_spec k d) = fmt_bind (resolve_specs no_args d) (\<lambda>sp. write_arg loc sp (arg_list args ! k))"

fun format_static :: "fmt_locale \<Rightarrow> fmt_args \<Rightarrow> static_part list \<Rightarrow> string \<Rightarrow> string fmt_result" where
  "format_static loc args [] out = fmt_ok out"
| "format_static loc args (p # ps) out = fmt_bind (format_static_part loc args p) (\<lambda>t. format_static loc args ps (out @ t))"

section \<open>Without references to arguments\<close>

definition no_refs :: "dynamic_specs \<Rightarrow> bool" where
  "no_refs d \<longleftrightarrow> width_ref d = Ref_none \<and> precision_ref d = Ref_none"

fun part_static :: "static_part \<Rightarrow> bool" where
  "part_static (Static_spec k d) \<longleftrightarrow> no_refs d"
| "part_static p \<longleftrightarrow> True"

lemma resolve_no_args:
  "resolve_specs no_args d = (if no_refs d then fmt_ok (static_specs d)
    else fmt_err ((if width_ref d = Ref_none then ''precision'' else ''width'') @ '' is not integer''))"
  by (cases "width_ref d"; cases "precision_ref d")
    (simp_all add: resolve_specs_def no_refs_def no_args_def handle_dynamic_spec_simps with_width_def with_precision_def)

text \<open>The number of the next argument only counts for references.\<close>

lemma part_ignores_id:
  "unless_end parse_align (sp, n, s) = fmt_ok (sp1, n1, s1) \<Longrightarrow> unless_end parse_align (sp, m, s) = fmt_ok (sp1, m, s1)"
  "unless_end (parse_sign t) (sp, n, s) = fmt_ok (sp1, n1, s1) \<Longrightarrow> unless_end (parse_sign t) (sp, m, s) = fmt_ok (sp1, m, s1)"
  "unless_end (parse_hash t) (sp, n, s) = fmt_ok (sp1, n1, s1) \<Longrightarrow> unless_end (parse_hash t) (sp, m, s) = fmt_ok (sp1, m, s1)"
  "unless_end (parse_zero t) (sp, n, s) = fmt_ok (sp1, n1, s1) \<Longrightarrow> unless_end (parse_zero t) (sp, m, s) = fmt_ok (sp1, m, s1)"
  "unless_end parse_type (sp, n, s) = fmt_ok (sp1, n1, s1) \<Longrightarrow> unless_end parse_type (sp, m, s) = fmt_ok (sp1, m, s1)"
  by (cases s; auto simp: unless_end_def parse_align_def parse_sign_def parse_hash_def parse_zero_def parse_type_def fmt_bind_ok Let_def
      split: if_splits prod.splits)+

lemma dynamic_ref_some: "parse_dynamic_ref na s n = fmt_ok (r, n1, rest) \<Longrightarrow> r \<noteq> Ref_none"
  by (auto simp: parse_dynamic_ref_def fmt_bind_ok dest!: make_arg_ref_some split: list.splits if_splits)

lemma static_width:
  assumes "unless_end_ref (parse_dynamic_width na) (sp, n, s) = fmt_ok ((sp1, n1, s1), Ref_none)"
  shows "unless_end (parse_width args) (sp, m, s) = fmt_ok (sp1, m, s1)"
  using assms
  by (cases s) (auto simp: unless_end_ref_def unless_end_def parse_dynamic_width_def parse_width_def fmt_bind_ok dest: dynamic_ref_some
      split: if_splits prod.splits sum.splits)

lemma static_point:
  assumes "unless_end_ref (parse_dynamic_point t na) (sp, n, s) = fmt_ok ((sp1, n1, s1), Ref_none)"
  shows "unless_end (parse_point t args) (sp, m, s) = fmt_ok (sp1, m, s1)"
  using assms
  by (cases s) (auto simp: unless_end_ref_def unless_end_def parse_dynamic_point_def parse_point_def parse_dynamic_precision_def parse_precision_def
      fmt_bind_ok dest: dynamic_ref_some split: if_splits prod.splits sum.splits)

lemma static_specs_parse:
  assumes "parse_dynamic_specs t na (default_specs, n, s) = fmt_ok (d, n1, rest)" "no_refs d"
  shows "parse_format_specs t args (default_specs, m, s) = fmt_ok (static_specs d, m, rest)"
proof (cases "s = [] \<or> hd s = CHR ''}''")
  case True
  then show ?thesis using assms(1)
    by (cases s) (auto simp: parse_dynamic_specs_def parse_format_specs_def parse_specs_from_def unless_end_def)
next
  case False
  with assms obtain sp1 n1 s1 sp2 n2 s2 sp3 n3 s3 sp4 n4 s4 sp5 n5 s5 sp6 n6 s6 n7 where
    c: "unless_end parse_align (default_specs, n, s) = fmt_ok (sp1, n1, s1)" "unless_end (parse_sign t) (sp1, n1, s1) = fmt_ok (sp2, n2, s2)"
      "unless_end (parse_hash t) (sp2, n2, s2) = fmt_ok (sp3, n3, s3)" "unless_end (parse_zero t) (sp3, n3, s3) = fmt_ok (sp4, n4, s4)"
    and w: "unless_end_ref (parse_dynamic_width na) (sp4, n4, s4) = fmt_ok ((sp5, n5, s5), Ref_none)"
    and p: "unless_end_ref (parse_dynamic_point t na) (sp5, n5, s5) = fmt_ok ((sp6, n6, s6), Ref_none)"
    and y: "unless_end parse_type (sp6, n6, s6) = fmt_ok (static_specs d, n7, rest)"
    by (auto simp: parse_dynamic_specs_def no_refs_def fmt_bind_ok)
  have f: "s \<noteq> []" "hd s \<noteq> CHR ''}''" using False by auto
  show ?thesis unfolding parse_format_specs_chain [OF f]
    using part_ignores_id(1) [OF c(1), of m] part_ignores_id(2) [OF c(2), of m] part_ignores_id(3) [OF c(3), of m] part_ignores_id(4) [OF c(4), of m]
      static_width [OF w, of args m] static_point [OF p, of args m] part_ignores_id(5) [OF y, of m] by blast
qed

section \<open>The same as at run time\<close>

lemma small_plain:
  "CHR ''{'' \<notin> set t \<Longrightarrow> CHR ''}'' \<notin> set t \<Longrightarrow>
    handle_small (format_handler loc args) pend (t @ rest) st = handle_small (format_handler loc args) (pend @ t) rest st"
  by (induction t arbitrary: pend) (auto simp: formatting.small_simps)

lemma small_pending:
  "handle_small (format_handler loc args) (p @ q) s st = handle_small (format_handler loc args) q s (on_text p st)"
proof (induction "length s" arbitrary: q s rule: less_induct)
  case less
  show ?case
  proof (cases s)
    case Nil
    then show ?thesis by (simp add: formatting.small_simps on_text_def)
  next
    case (Cons c cs)
    consider "c = CHR ''{''" | "c = CHR ''}''" | "c \<noteq> CHR ''{''" "c \<noteq> CHR ''}''" by blast
    then show ?thesis
      by cases (use less [of cs "q @ [c]"] Cons in \<open>simp_all add: formatting.small_simps on_text_def\<close>)
  qed
qed

lemma parse_text_parts:
  assumes "parse_text s = (t, rest)"
  shows "s = t @ rest" "CHR ''{'' \<notin> set t" "CHR ''}'' \<notin> set t"
  using assms by (auto simp: parse_text_def dest: set_takeWhileD)

definition static_result :: "static_part list \<Rightarrow> string fmt_result \<Rightarrow> string \<Rightarrow> bool" where
  "static_result ps r t \<longleftrightarrow> (if list_all part_static ps then r = fmt_ok t else (\<exists>e. r = fmt_err e))"

lemma make_concat_Concat: "make_concat p f = Concat ps \<longleftrightarrow> (\<exists>qs. f = Concat qs \<and> ps = p # qs)"
  by (cases f) (auto simp: make_concat_def)

lemma static_result_Cons:
  assumes "part_static p" "format_static_part loc args p = fmt_ok w" "static_result ps (format_static loc args ps (out @ w)) t"
  shows "static_result (p # ps) (format_static loc args (p # ps) out) t"
  using assms by (simp add: static_result_def)

lemma format_replacement_auto:
  assumes "handle_replacement (format_handler loc args) (CHR ''}'' # ds) (out, int k) = fmt_ok x"
  shows "\<exists>w. k < length (arg_list args) \<and> write_default loc (arg_list args ! k) = fmt_ok w \<and> x = (ds, out @ w, int (k + 1))"
  using assms
  by (auto simp: handle_replacement_def on_arg_id_def next_arg_id_def on_replacement_field_def on_text_def get_arg_cases fmt_bind_ok split: if_splits)

lemma format_replacement_specs:
  assumes "handle_replacement (format_handler loc args) (CHR '':'' # ds) (out, int k) = fmt_ok x"
  shows "\<exists>sp n rest w. k < length (arg_list args)
    \<and> parse_format_specs (type_of_arg (arg_list args ! k)) args (default_specs, int (k + 1), ds) = fmt_ok (sp, n, rest)
    \<and> rest \<noteq> [] \<and> hd rest = CHR ''}'' \<and> write_arg loc sp (arg_list args ! k) = fmt_ok w \<and> x = (tl rest, out @ w, n)"
proof -
  have "parse_arg_id (CHR '':'') ds = fmt_ok (Auto_id, CHR '':'' # ds)" by (simp add: parse_arg_id_def)
  then show ?thesis using assms
    by (auto simp: handle_replacement_def handle_rest_def on_arg_id_def next_arg_id_def on_format_specs_def get_arg_cases fmt_bind_ok add.commute
        split: if_splits)
qed

lemma static_agrees:
  "static_compile types k s = fmt_ok (Concat ps) \<Longrightarrow> types = map type_of_arg (arg_list args)
    \<Longrightarrow> handle_small (format_handler loc args) [] s (out, int k) = fmt_ok st \<Longrightarrow> static_result ps (format_static loc args ps out) (fst st)"
proof (induction types k s arbitrary: ps out rule: static_compile.induct)
  case (1 types k)
  then show ?case by (auto simp: static_result_def formatting.small_simps on_text_def)
next
  case (2 types k c cs)
  have ty: "types ! k = type_of_arg (arg_list args ! k)" if "k < length (arg_list args)" using that 2(7) by simp
  consider "c = CHR ''{''" | "c = CHR ''}''" | "c \<noteq> CHR ''{''" "c \<noteq> CHR ''}''" by blast
  then show ?case
  proof cases
    case c: 1
    from 2(8) obtain x where x: "handle_replacement (format_handler loc args) cs (out, int k) = fmt_ok x"
      "handle_small (format_handler loc args) [] (fst x) (snd x) = fmt_ok st"
      unfolding c formatting.small_simps by (auto simp: fmt_bind_ok on_text_def)
    from x(1) obtain d ds where ds: "cs = d # ds" by (cases cs) (auto simp: handle_replacement_def)
    consider "d = CHR ''{''" | "d = CHR ''}''" | "d = CHR '':''" | "d \<notin> {CHR ''{'', CHR ''}'', CHR '':''}" by blast
    then show ?thesis
    proof cases
      case 1
      with 2(6) c ds obtain qs where q: "static_compile types k ds = fmt_ok (Concat qs)" "ps = Static_text ''{'' # qs"
        by (auto simp: fmt_bind_ok make_concat_Concat)
      have "x = (ds, out @ ''{'', int k)" using x(1) ds 1 by (simp add: handle_replacement_def on_text_def)
      then show ?thesis unfolding q(2)
        by (intro static_result_Cons [where w = "''{''"] 2(1) [OF c ds 1 q(1)]) (use 2(7) x(2) in simp_all)
    next
      case d: 2
      with 2(6) c ds obtain qs where k: "k < length types" and q: "static_compile types (k + 1) ds = fmt_ok (Concat qs)" "ps = Static_field k # qs"
        by (auto simp: fmt_bind_ok make_concat_Concat split: if_splits)
      from format_replacement_auto [OF x(1) [unfolded ds d]] obtain w where
        w: "write_default loc (arg_list args ! k) = fmt_ok w" "x = (ds, out @ w, int (k + 1))" by blast
      have "d \<noteq> CHR ''{''" using d by simp
      then show ?thesis unfolding q(2)
        by (intro static_result_Cons [where w = w] 2(2) [OF c ds _ d k q(1)]) (use 2(7) x(2) w in simp_all)
    next
      case d: 3
      then have nd: "d \<noteq> CHR ''{''" "d \<noteq> CHR ''}''" by simp_all
      from 2(6) c ds d obtain sp rest qs where k: "k < length types" and sp: "static_parse_specs (types ! k) ds = fmt_ok (sp, rest)"
        and q: "static_compile types (k + 1) rest = fmt_ok (Concat qs)" "ps = Static_spec k sp # qs"
        by (auto simp: fmt_bind_ok make_concat_Concat split: if_splits)
      show ?thesis
      proof (cases "no_refs sp")
        case False
        then show ?thesis unfolding q(2) by (simp add: static_result_def resolve_no_args)
      next
        case True
        from format_replacement_specs [OF x(1) [unfolded ds d]] obtain sp1 n rest1 w where
          f: "parse_format_specs (type_of_arg (arg_list args ! k)) args (default_specs, int (k + 1), ds) = fmt_ok (sp1, n, rest1)"
          "write_arg loc sp1 (arg_list args ! k) = fmt_ok w" "x = (tl rest1, out @ w, n)" by blast
        from sp obtain n0 rest0 where "parse_dynamic_specs (types ! k) None (default_specs, 0, ds) = fmt_ok (sp, n0, rest0)" "rest = tl rest0"
          by (auto simp: static_parse_specs_def formatter_parse_def fmt_bind_ok split: if_splits)
        with static_specs_parse [OF this(1) True, of args "int (k + 1)"] f(1) ty k 2(7)
        have e: "sp1 = static_specs sp" "n = int (k + 1)" "rest = tl rest1" by auto
        show ?thesis unfolding q(2)
          by (intro static_result_Cons [where w = w] 2(3) [OF c ds nd d k sp refl q(1)]) (use 2(7) x(2) f e True in \<open>simp_all add: resolve_no_args\<close>)
      qed
    next
      case 4
      then show ?thesis using 2(6) c ds by simp
    qed
  next
    case c: 2
    from 2(8) obtain ds where ds: "cs = CHR ''}'' # ds" "handle_small (format_handler loc args) [] ds (out @ ''}'', int k) = fmt_ok st"
      unfolding c formatting.small_simps by (cases cs) (auto simp: on_text_def split: if_splits)
    from 2(6) c ds obtain qs where q: "static_compile types k ds = fmt_ok (Concat qs)" "ps = Static_text ''}'' # qs"
      by (auto simp: fmt_bind_ok make_concat_Concat)
    have nc: "c \<noteq> CHR ''{''" using c by simp
    show ?thesis unfolding q(2)
      by (intro static_result_Cons [where w = "''}''"] 2(4) [OF nc c ds(1) q(1)]) (use 2(7) ds in simp_all)
  next
    case c: 3
    obtain u rest where p: "parse_text cs = (u, rest)" by force
    from 2(6) c p obtain qs where q: "static_compile types k rest = fmt_ok (Concat qs)" "ps = Static_text (c # u) # qs"
      by (auto simp: fmt_bind_ok make_concat_Concat)
    note pt = parse_text_parts [OF p]
    have "handle_small (format_handler loc args) [] (c # cs) (out, int k) = handle_small (format_handler loc args) ([] @ (c # u)) rest (out, int k)"
      unfolding pt(1) using small_plain [of "c # u" loc args "[]" rest "(out, int k)"] c pt(2,3) by simp
    also have "\<dots> = handle_small (format_handler loc args) [] rest (out @ (c # u), int k)"
      using small_pending [of loc args "c # u" "[]" rest "(out, int k)"] by (simp add: on_text_def)
    finally have h: "handle_small (format_handler loc args) [] rest (out @ (c # u), int k) = fmt_ok st" using 2(8) by simp
    show ?thesis unfolding q(2)
      by (intro static_result_Cons [where w = "c # u"] 2(5) [OF c p [symmetric] q(1)]) (use 2(7) h in simp_all)
  qed
qed

text \<open>
  C27 [equivalence] Where FMT_COMPILE has turned a format string into code for the types of some arguments, and vformat_to formats the
  string with them, the code writes the same text, for every format string and all arguments; except that a field whose width or
  precision is taken from an argument, which the compiler accepts, always throws, since its formatter is given a context without
  arguments.
\<close>

theorem static_formats_agree:
  assumes "compile_static (map type_of_arg (arg_list args)) s = fmt_ok (Concat ps)" "vformat_to loc s args = fmt_ok t"
  shows "if list_all part_static ps then format_static loc args ps [] = fmt_ok t else (\<exists>e. format_static loc args ps [] = fmt_err e)"
proof (cases "s = []")
  case True
  then have "ps = [Static_text []]" "t = []"
    using assms by (auto simp: compile_static_def vformat_handler formatting.format_string_small formatting.small_simps on_text_def)
  then show ?thesis by simp
next
  case False
  from assms(2) obtain st where "handle_small (format_handler loc args) [] s ([], int 0) = fmt_ok st" "t = fst st"
    by (auto simp: vformat_handler formatting.format_string_small fmt_bind_ok)
  with static_agrees [OF _ refl this(1), of ps] assms(1) False show ?thesis
    by (simp add: compile_static_def static_result_def)
qed

definition signed_argument :: fmt_args where
  "signed_argument = \<lparr>arg_list = [Int_arg 5, Int_arg 3], arg_names = []\<rparr>"

theorem static_formats_agree_witness:
  "\<exists>d. compile_static [Int_type, Int_type] ''n={:+d}!'' = fmt_ok (Concat [Static_text ''n='', Static_spec 0 d, Static_text ''!''])
    \<and> format_static no_grouping signed_argument [Static_text ''n='', Static_spec 0 d, Static_text ''!''] [] = fmt_ok ''n=+5!''"
proof -
  let ?d = "\<lparr>static_specs = default_specs\<lparr>spec_sign := Sign_plus, spec_type := CHR ''d''\<rparr>, width_ref = Ref_none, precision_ref = Ref_none\<rparr>"
  have c: "compile_static (map type_of_arg (arg_list signed_argument)) ''n={:+d}!'' = fmt_ok (Concat [Static_text ''n='', Static_spec 0 ?d, Static_text ''!''])"
    by code_simp
  have v: "vformat_to no_grouping ''n={:+d}!'' signed_argument = fmt_ok ''n=+5!''" by code_simp
  have t: "map type_of_arg (arg_list signed_argument) = [Int_type, Int_type]" by (simp add: signed_argument_def)
  from static_formats_agree [OF c v] have "format_static no_grouping signed_argument [Static_text ''n='', Static_spec 0 ?d, Static_text ''!''] [] = fmt_ok ''n=+5!''"
    by (simp add: no_refs_def)
  then show ?thesis using c unfolding t by blast
qed

text \<open>What vformat_to rejects may be compiled: the character after a closing brace is not looked at.\<close>

theorem static_skips_a_character:
  "compile_static [Int_type] ''}x{}'' = fmt_ok (Concat [Static_text ''}'', Static_field 0])"
  "vformat_to no_grouping ''}x{}'' \<lparr>arg_list = [Int_arg 5], arg_names = []\<rparr> = fmt_err unmatched_brace"
  by code_simp+

theorem static_needs_no_brace:
  "static_parse_specs Int_type ''dX!'' = fmt_ok (\<lparr>static_specs = default_specs\<lparr>spec_type := CHR ''d''\<rparr>, width_ref = Ref_none, precision_ref = Ref_none\<rparr>, ''!'')"
  by code_simp

end
