(* ===== verification/Spec2Isabelle.thy ===== *)
theory Spec2Isabelle imports
  Ringbuffer_Conc Pool_Helper Pool_Manager Lock_Helpers Shared_Memory_Conc Task_Node
  Mpmc_Queue Sinks Logger_Delivery Registry Thread_Pool Log_Format Periodic_Worker Fp_Facts Fmt_Types Fmt_Precision
  Hex_Dump Printf_C Fmt_Static
begin

text \<open>
  A model of taskete (source/taskete, include/taskete) and of the spdlog library in its tree
  (source/spdlog/include/spdlog, with the parts of the bundled fmt that it calls), translated from the C++
  code, and the theorems that make it correct or show where it is not.

  \<^bold>\<open>How the code is modelled.\<close>  A class is a record, its methods are functions from the old object to the
  result and the new one.  64- and 32-bit unsigned integers are words; \<open>int\<close> values are \<open>int\<close> where the code
  stays in range.  Undefined behaviour (an access outside of an array, a null pointer, an object used after
  its end) is the value \<open>None\<close>; an exception is the left side of a sum.  Where a call may not return, an
  outcome has both (\<open>Pool_Manager\<close>: \<open>None\<close> is an endless spin, the sum the rest).  Vectors and raw memory are lists of
  cells.  Concurrent code is an inductive step relation over the program points of the threads.

  \<^bold>\<open>taskete.\<close>
  \<^item> \<open>Memory_Resource\<close>: \<open>std::pmr::memory_resource\<close> as used by the other parts: blocks with sizes and alignments,
    which may be refused.
  \<^item> \<open>Ringbuffer\<close> (lockfree_ringbuffer.hpp): the class called from one thread; it refines a bounded FIFO through the
    locale \<open>bounded_fifo\<close> of \<open>Interfaces\<close>; where \<open>free_space\<close> is wrong.  \<open>Ringbuffer_Conc\<close>: the loads and stores of one
    producer and one consumer in any order, and two runs in which elements are lost or made up.
  \<^item> \<open>Pool_Helper\<close> (pool_helper.hpp): masks, handles, which capacities and pool counts work.
  \<^item> \<open>Lock_Helpers\<close> (lock_helpers.hpp): the spinlock and mutual exclusion.
  \<^item> \<open>Pool_Manager\<close> (pool_manager.hpp): pools, free lists, \<open>construct\<close>, \<open>get\<close>, \<open>destroy\<close>, the destructor; the growth of the
    vector of pools on the same memory resource (how much it grows is a parameter) and the pool objects on the heap, each of
    which can fail; its invariant \<open>manager_ok\<close> and the account of its memory \<open>memory_ok\<close>, and that \<open>destroy\<close> never returns.
  \<^item> \<open>Shared_Memory\<close> (shared_memory.hpp, .cpp): the table of objects with type-erased destructors, exceptions of
    constructors and allocations, leaks.  A type is its identity, size and alignment (\<open>ctype\<close>); the theorems are about
    accesses with the type that is stored, as its comments demand.  \<open>Shared_Memory_Conc\<close>: any number of threads with the shared lock.
  \<^item> \<open>Task_Node\<close> (node.hpp, node.cpp, execution_payload.hpp): payloads, wait lists, nodes.

  \<^bold>\<open>spdlog.\<close>  A call of \<open>spdlog::info\<close> goes through the registry's default logger, the logger's sinks (or a thread pool
  and then the sinks), each sink's formatter, and a file or stream.
  \<^item> \<open>Fmt_Int\<close> (fmt/bundled/format.h, format-inl.h): digits and decimal output, \<open>parse_nonnegative_int\<close>.
  \<^item> \<open>Fmt_Spec\<close>, \<open>Fmt_Write\<close>, \<open>Fmt_Format\<close> (fmt/bundled/core.h, format.h): the arguments and the specifiers of a
    field, the writers, the two loops over a format string and \<open>vformat_to\<close>.  \<open>Fmt_Theorems\<close>: the loops agree,
    specifiers and whole format strings read back what was printed, the text of integers.  \<open>Fmt_Types\<close>: a format string
    is formatted without an error exactly if it is well-typed.
  \<^item> \<open>Fmt_Handler\<close> (format.h): the loops over a format string for any handler (the locale \<open>text_handler\<close>, interpreted for
    formatting, compiling and checking).  \<open>Fmt_Dynamic\<close>: specifiers with references, resolved later.  \<open>Fmt_Compile\<close> (compile.h):
    compiled format strings do what \<open>vformat_to\<close> does, where the arguments exist (with and without assertions, \<open>ndebug\<close>).
    \<open>Fmt_Check\<close>: what is left to go wrong after the check of \<open>FMT_STRING\<close>, and what has to be there for it.
    \<open>Fmt_Static\<close> (compile.h): format strings that are turned into code.
  \<^item> \<open>Fmt_Printf\<close> (fmt/bundled/printf.h): conversion specifications, the conversion of arguments, the loop of
    \<open>basic_printf_context\<close>.  \<open>Printf_C\<close>: its integer conversions against the text of the C standard, and where they differ.
  \<^item> \<open>Hex_Dump\<close> (fmt/bin_to_hex.h): \<open>to_hex\<close> and its formatter; a dump is read back to its bytes.
  \<^item> Floating-point numbers (format-inl.h, format.h).  \<open>Fmt_Bigint\<close>: the class \<open>bigint\<close>, whose \<open>int\<close> values are
    natural numbers with the overflow of \<open>square\<close>, \<open>assign_pow10\<close> and \<open><<=\<close> as \<open>None\<close>; \<open>Bigint_Refines\<close>, \<open>Bigint_Divide\<close>,
    \<open>Bigint_Pow10\<close>: it computes with natural numbers, except where it does not.  \<open>Fmt_Fp\<close>: the class \<open>fp\<close> and the cached
    powers of ten; \<open>Fp_Facts\<close> (\<open>multiply\<close>), \<open>Fp_Tables\<close> (the table is accurate).  \<open>Fmt_Grisu\<close>: the digit generator, its two
    handlers and \<open>fallback_format\<close>.  \<open>Fmt_Float\<close>: \<open>format_float\<close>, \<open>snprintf_float\<close>, \<open>float_writer\<close> and \<open>write\<close>; a \<open>double\<close> is
    its 64 bits.
  \<^item> What these theorems say of real numbers: \<open>Fmt_Double\<close> (the value of a \<open>double\<close> and its rounding interval),
    \<open>Fmt_Fallback\<close> and \<open>Fmt_Exact\<close> (the exact conversion), \<open>Fmt_Boundaries\<close>, \<open>Fmt_Gen_Digits\<close> (the locale \<open>digit_handler\<close>: what a
    handler has to keep, and what the digit generator then gives), \<open>Fmt_Shortest\<close> (its interpretation for the shortest
    digits), \<open>Fmt_Roundtrip\<close>, \<open>Fmt_Text\<close> and \<open>Fmt_Reads\<close> (the text is read back as the same \<open>double\<close>), \<open>Fmt_Precision\<close> (the
    second interpretation: digits to a precision are correctly rounded, or the number is next to the middle of two results).
  \<^item> \<open>Log_Common\<close> (common.h, details/log_msg*.h, details/fmt_helper.h, cfg/helpers-inl.h, cfg/log_levels.h): levels, messages
    and messages with their own text (a view into a buffer is a pair of offset and length, so a view that
    points into another buffer would show), number padding, level strings.
  \<^item> \<open>Circular_Q\<close>, \<open>Backtracer\<close> (details/circular_q.h, backtracer-inl.h), \<open>Mpmc_Queue\<close> (details/mpmc_blocking_q.h; \<open>circular_q\<close>
    is used through the locale \<open>overrun_queue\<close>): the queue refines a list that keeps the last n elements; the blocking
    queue with waits, notifications, spurious wake-ups and time-outs.
  \<^item> \<open>Pattern_Flags\<close>, \<open>Pattern_Formatter\<close> (pattern_formatter.h, -inl.h): the padder, every flag, compilation of patterns,
    formatting with the caches of the formatter and of \<open>%+\<close> and \<open>%z\<close>.
  \<^item> \<open>File_Helper\<close> (details/file_helper-inl.h, os-inl.h): files over a state of the file system, where every
    system call may fail: \<open>os_env\<close> says which does, counted by \<open>tick\<close>.
  \<^item> \<open>File_Sinks\<close> (sinks/basic_file_sink-inl.h, rotating_file_sink-inl.h, daily_file_sink.h), \<open>Console_Sinks\<close> (stdout_sinks-inl.h,
    ansicolor_sink-inl.h), \<open>Sinks\<close> (sink.h, base_sink-inl.h and the null, ostream, ring buffer, distributing and
    duplicate-filtering sinks): a store of shared sinks with virtual dispatch.  Sinks may contain sinks; the
    argument \<open>depth\<close> bounds the nesting, and a store nested deeper (or into itself) gives \<open>None\<close>: the code
    would deadlock or overflow its stack.
  \<^item> \<open>Logger\<close> (logger.h, logger-inl.h, async_logger.h, -inl.h): the whole classes.  \<open>Logger_Delivery\<close>: what a logger
    promises, with any formatters of the sinks whose custom flags do not depend on the color range and change nothing else.  \<open>Log_Format\<close>: a log call with a format string and arguments, down to the text of a sink.
  \<^item> \<open>Registry\<close> (details/registry-inl.h, synchronous_factory.h, async.h, cfg/argv.h, cfg/env.h, spdlog-inl.h): the registry over
    a heap of loggers, reachable states and their invariant.
  \<^item> \<open>Thread_Pool\<close> (details/thread_pool.h, thread_pool-inl.h, the backend functions of async_logger-inl.h): workers as threads,
    shutdown; with one worker, asynchronous logging is synchronous logging, each message with the clock and the settings of
    its \<open>moment\<close>.
  \<^item> \<open>Periodic_Worker\<close> (details/periodic_worker-inl.h): the thread and its destructor, and the periodic flush.

  \<^bold>\<open>What the lemmas show.\<close>  For every container an abstraction to a list (\<open>ring_contents\<close>, \<open>circ_contents\<close>) and that each
  operation is the list operation; for every stateful component an invariant (\<open>ring_ok\<close>, \<open>circ_ok\<close>, \<open>manager_ok\<close>, \<open>sm_ok\<close>,
  \<open>rot_inv\<close>, \<open>caches_ok\<close>, \<open>reg_ok\<close>, \<open>pool_ok\<close>) and that every operation keeps it; for the threads invariants over the
  reachable states, by rule induction.  Theorems named after a defect (\<open>conc_loses_elements\<close>, \<open>destroy_deadlocks\<close>,
  \<open>throwing_construction_leaks\<close>, ...) say exactly in which states the code goes wrong.

  \<^bold>\<open>Bounds and fuel.\<close>  \<open>open_tries\<close> is the 5 of the code.  Loops are structural recursion over what they consume (the
  rest of a pattern, the digits, the free list through a \<open>partial_function\<close>, so that a cyclic list would
  give \<open>None\<close>).  \<open>depth\<close> above is the only fuel.  Sizes are 64-bit words, and the theorems about queues
  exclude the size \<open>2^64 - 1\<close>, whose capacity wraps to 0.

  \<^bold>\<open>What is a parameter.\<close>  The calendar functions (\<open>localtime\<close>, \<open>gmtime\<close>), the clock (within one call of a logger a function
  of the state of the system, \<open>os_now\<close>, which every system call changes; from call to call any environment), which system calls fail, the
  user's flag formatters (\<open>custom_flags\<close>), the environment, \<open>snprintf\<close> and the locale (\<open>fmt_locale\<close>), whether a stream is a terminal.  Constructors of
  the objects in a pool or in shared memory are given by what they build, or that they throw.

  \<^bold>\<open>Not modelled.\<close>  The buffers of stdio and short writes of \<open>fwrite\<close> to a terminal; exceptions of user code (handlers,
  custom formatters, \<open>operator<<\<close>); the text of exceptions beyond what identifies them; relaxed memory orders (the
  steps are sequentially consistent, which the defects shown do not need to be excluded by); the
  Windows, Android, syslog, systemd and network sinks, which only call those systems; of fmt,
  \<open>long double\<close>, 128-bit and custom arguments, and the parts the loggers do not call (chrono, color,
  ranges, os); of compile.h the counting of parts (\<open>part_counter\<close>); of printf, wide strings and pointers to custom types.
  The format strings of printf end in a NUL character, \<open>long\<close> has 64 bits, and \<open>isprint\<close> is that of the C locale.
\<close>

end
